(* ===== verification/Prelude.thy ===== *)
theory Prelude
  imports "HOL-Library.Code_Target_Numeral" Main "HOL-Library.Word" "HOL-Library.AList" "HOL-Library.Sublist"
    "HOL-Library.List_Lexorder" "HOL-Library.Multiset"
begin

text \<open>
  Shared vocabulary of the development: machine types, little- and big-endian byte
  conversions, checked and saturating arithmetic, the result/state combinators that the
  operations are written with, association lists as hash maps, ordered prefix scans, and
  the \<open>codec\<close> interface that every binary record format of the store implements.
\<close>

section \<open>Machine types\<close>

type_synonym byte = "8 word"
type_synonym bytes = "byte list"
type_synonym u8 = "8 word"
type_synonym u16 = "16 word"
type_synonym u32 = "32 word"
type_synonym u64 = "64 word"
type_synonym i32 = "32 word"
type_synonym i64 = "64 word"
type_synonym usize = nat

text \<open>Signed integers are words read through \<^const>\<open>sint\<close>; \<open>sle\<close> and \<open>sless\<close> are Rust's
  \<open><=\<close> and \<open><\<close> on \<open>i32\<close> and \<open>i64\<close>.\<close>

definition sle :: "'a::len word \<Rightarrow> 'a word \<Rightarrow> bool" where
  "sle a b \<longleftrightarrow> sint a \<le> sint b"

definition sless :: "'a::len word \<Rightarrow> 'a word \<Rightarrow> bool" where
  "sless a b \<longleftrightarrow> sint a < sint b"

text \<open>Byte-string literals.\<close>

definition ascii :: "string \<Rightarrow> bytes" where
  "ascii s = map of_char s"

named_theorems layout \<open>the constants of the binary formats, unfolded on demand\<close>
named_theorems codec_simps \<open>reading back what was written\<close>
named_theorems tx_simps \<open>effect of the transaction primitives\<close>

section \<open>Checked arithmetic\<close>

definition checked_add :: "'a::len word \<Rightarrow> 'a word \<Rightarrow> 'a word option" where
  "checked_add a b = (if unat a + unat b < 2 ^ LENGTH('a) then Some (a + b) else None)"

definition checked_mul :: "'a::len word \<Rightarrow> 'a word \<Rightarrow> 'a word option" where
  "checked_mul a b = (if unat a * unat b < 2 ^ LENGTH('a) then Some (a * b) else None)"

definition saturating_add :: "'a::len word \<Rightarrow> 'a word \<Rightarrow> 'a word" where
  "saturating_add a b = (if unat a + unat b < 2 ^ LENGTH('a) then a + b else - 1)"

definition saturating_sub :: "'a::len word \<Rightarrow> 'a word \<Rightarrow> 'a word" where
  "saturating_sub a b = (if b \<le> a then a - b else 0)"

definition checked_add_signed :: "'a::len word \<Rightarrow> 'a word \<Rightarrow> 'a word option" where
  "checked_add_signed a b =
     (let r = sint a + sint b in
      if - (2 ^ (LENGTH('a) - 1)) \<le> r \<and> r < 2 ^ (LENGTH('a) - 1) then Some (a + b) else None)"

definition i64_try_from_u64 :: "u64 \<Rightarrow> i64 option" where
  "i64_try_from_u64 a = (if unat a < 2 ^ 63 then Some a else None)"

definition u32_try_from_len :: "usize \<Rightarrow> u32 option" where
  "u32_try_from_len n = (if n < 2 ^ 32 then Some (of_nat n) else None)"

definition usize_checked_add :: "usize \<Rightarrow> usize \<Rightarrow> usize option" where
  "usize_checked_add a b = (if a + b < 2 ^ 64 then Some (a + b) else None)"

lemma checked_add_Some:
  fixes a :: "'a::len word"
  assumes "checked_add a b = Some c"
  shows "unat c = unat a + unat b" and "c = a + b"
proof -
  from assms have lt: "unat a + unat b < 2 ^ LENGTH('a)" and c: "c = a + b"
    by (auto simp: checked_add_def split: if_splits)
  show "c = a + b" by (rule c)
  show "unat c = unat a + unat b" using lt c by (simp add: unat_word_ariths)
qed

lemma checked_add_None_iff:
  fixes a b :: "'a::len word"
  shows "checked_add a b = None \<longleftrightarrow> 2 ^ LENGTH('a) \<le> unat a + unat b"
  by (auto simp: checked_add_def)

lemma unat_max_u64: "unat (- 1 :: u64) = 2 ^ 64 - 1"
  by (simp add: unsigned_minus_1_eq_mask mask_eq_exp_minus_1)

lemma checked_add_one_u64: "checked_add (a :: u64) 1 = (if a = - 1 then None else Some (a + 1))"
proof (cases "a = - 1")
  case True
  then show ?thesis by (simp add: checked_add_def unat_max_u64)
next
  case False
  have "unat a < 2 ^ 64" using unsigned_less [of a] by simp
  moreover have "unat a \<noteq> 2 ^ 64 - 1"
  proof
    assume "unat a = 2 ^ 64 - 1"
    then have "unat a = unat (- 1 :: u64)" by (simp add: unat_max_u64)
    with False show False by (simp only: word_unat_eq_iff)
  qed
  ultimately have "unat a + 1 < 2 ^ 64" by linarith
  with False show ?thesis by (simp add: checked_add_def)
qed

lemma checked_add_signed_Some:
  fixes a :: "'a::len word"
  assumes "checked_add_signed a b = Some c"
  shows "sint c = sint a + sint b"
proof -
  let ?r = "sint a + sint b"
  from assms have r: "- (2 ^ (LENGTH('a) - 1)) \<le> ?r" "?r < 2 ^ (LENGTH('a) - 1)" and c: "c = a + b"
    by (auto simp: checked_add_signed_def Let_def split: if_splits)
  have "a + b = word_of_int ?r" by simp
  with c have "sint c = signed_take_bit (LENGTH('a) - 1) ?r" by (simp only: sint_sbintrunc')
  with r show ?thesis by (simp add: signed_take_bit_int_eq_self)
qed

lemma sint_small: "unat (d :: u64) < 2 ^ 63 \<Longrightarrow> sint d = uint d"
proof -
  assume "unat d < 2 ^ 63"
  then have "int (unat d) < 2 ^ 63" by (simp only: of_nat_less_numeral_power_cancel_iff)
  then have "uint d < 2 ^ 63" by simp
  moreover have "- (2 ^ 63) \<le> uint d" by (rule order.trans [of _ 0]) simp_all
  ultimately have "signed_take_bit 63 (uint d) = uint d" by (intro signed_take_bit_int_eq_self)
  then show "sint d = uint d" by (simp add: sint_uint)
qed

lemma checked_add_one_u32: "checked_add (a :: u32) 1 = Some b \<Longrightarrow> b = a + 1 \<and> a < a + 1"
  using checked_add_Some [of a 1 b] by (simp add: word_less_nat_alt)

lemma lease_time:
  assumes "i64_try_from_u64 d = Some d'" and "checked_add_signed now d' = Some until"
  shows "sint until = sint now + int (unat d)"
  using assms checked_add_signed_Some [OF assms(2)] sint_small [of d] by (simp add: i64_try_from_u64_def split: if_splits)

lemma u32_try_from_len_Some:
  assumes "u32_try_from_len n = Some l"
  shows "unat l = n" and "n < 2 ^ 32" and "l = of_nat n"
  using assms by (auto simp: u32_try_from_len_def unat_of_nat split: if_splits)

section \<open>Byte order\<close>

primrec le_bytes :: "nat \<Rightarrow> nat \<Rightarrow> bytes" where
  "le_bytes 0 n = []"
| "le_bytes (Suc k) n = of_nat (n mod 256) # le_bytes k (n div 256)"

primrec le_val :: "bytes \<Rightarrow> nat" where
  "le_val [] = 0"
| "le_val (b # bs) = unat b + 256 * le_val bs"

definition to_le :: "'a::len word \<Rightarrow> bytes" where
  "to_le w = le_bytes (LENGTH('a) div 8) (unat w)"

definition from_le :: "bytes \<Rightarrow> 'a::len word" where
  "from_le bs = of_nat (le_val bs)"

definition to_be :: "'a::len word \<Rightarrow> bytes" where
  "to_be w = rev (to_le w)"

definition from_be :: "bytes \<Rightarrow> 'a::len word" where
  "from_be bs = from_le (rev bs)"

lemma length_le_bytes [simp]: "length (le_bytes k n) = k"
  by (induction k arbitrary: n) auto

lemma unat_byte_lt: "unat (b :: byte) < 256"
  using unsigned_less [of b] by simp

lemma le_val_le_bytes: "le_val (le_bytes k n) = n mod 256 ^ k"
proof (induction k arbitrary: n)
  case 0
  then show ?case by simp
next
  case (Suc k)
  have "le_val (le_bytes (Suc k) n) = n mod 256 + 256 * (n div 256 mod 256 ^ k)"
    by (simp add: Suc.IH unat_of_nat)
  also have "\<dots> = n mod (256 * 256 ^ k)"
    by (simp add: mod_mult2_eq)
  finally show ?case by simp
qed

lemma le_val_bound: "le_val bs < 256 ^ length bs"
proof (induction bs)
  case Nil
  then show ?case by simp
next
  case (Cons b bs)
  have "unat b < 256" by (rule unat_byte_lt)
  moreover have "256 * (le_val bs + 1) \<le> 256 * 256 ^ length bs"
    using Cons.IH by (intro mult_le_mono2) simp
  ultimately show ?case by simp
qed

lemma le_bytes_le_val: "le_bytes (length bs) (le_val bs) = bs"
proof (induction bs)
  case Nil
  then show ?case by simp
next
  case (Cons b bs)
  have b: "unat b < 256" by (rule unat_byte_lt)
  have "(unat b + 256 * le_val bs) mod 256 = unat b" using b by simp
  moreover have "(unat b + 256 * le_val bs) div 256 = le_val bs" using b by simp
  ultimately show ?case using Cons.IH by simp
qed

lemma from_le_to_le_gen:
  fixes w :: "'a::len word"
  assumes "8 dvd LENGTH('a)"
  shows "from_le (to_le w) = w"
proof -
  have "(256::nat) ^ (LENGTH('a) div 8) = 2 ^ (8 * (LENGTH('a) div 8))"
    by (simp add: power_mult)
  also have "\<dots> = 2 ^ LENGTH('a)" using assms by simp
  finally have p: "(256::nat) ^ (LENGTH('a) div 8) = 2 ^ LENGTH('a)" .
  show ?thesis by (simp add: from_le_def to_le_def le_val_le_bytes p)
qed

lemma to_le_from_le_gen:
  assumes "8 dvd LENGTH('a::len)" and "length bs = LENGTH('a) div 8"
  shows "to_le (from_le bs :: 'a word) = bs"
proof -
  have "(256::nat) ^ (LENGTH('a) div 8) = 2 ^ (8 * (LENGTH('a) div 8))"
    by (simp add: power_mult)
  also have "\<dots> = 2 ^ LENGTH('a)" using assms(1) by simp
  finally have p: "(256::nat) ^ (LENGTH('a) div 8) = 2 ^ LENGTH('a)" .
  have "le_val bs < 2 ^ LENGTH('a)" using le_val_bound [of bs] assms(2) p by simp
  then have "unat (from_le bs :: 'a word) = le_val bs"
    by (simp add: from_le_def unat_of_nat)
  then show ?thesis using le_bytes_le_val [of bs] assms(2) by (simp add: to_le_def)
qed

lemma length_to_le [simp]:
  "length (to_le (a :: u16)) = 2" "length (to_le (b :: u32)) = 4" "length (to_le (c :: u64)) = 8"
  by (simp_all add: to_le_def)

lemma length_to_be [simp]:
  "length (to_be (a :: u16)) = 2" "length (to_be (b :: u32)) = 4" "length (to_be (c :: u64)) = 8"
  by (simp_all add: to_be_def)

lemma from_le_to_le [simp, codec_simps]:
  "from_le (to_le (a :: u16)) = a" "from_le (to_le (b :: u32)) = b" "from_le (to_le (c :: u64)) = c"
  by (simp_all add: from_le_to_le_gen)

lemma from_be_to_be [simp, codec_simps]:
  "from_be (to_be (a :: u16)) = a" "from_be (to_be (b :: u32)) = b" "from_be (to_be (c :: u64)) = c"
  by (simp_all add: from_be_def to_be_def)

lemma to_le_from_le:
  "length bs = 2 \<Longrightarrow> to_le (from_le bs :: u16) = bs"
  "length bs = 4 \<Longrightarrow> to_le (from_le bs :: u32) = bs"
  "length bs = 8 \<Longrightarrow> to_le (from_le bs :: u64) = bs"
  by (simp_all add: to_le_from_le_gen)

lemma to_be_from_be:
  "length bs = 4 \<Longrightarrow> to_be (from_be bs :: u32) = bs"
  "length bs = 8 \<Longrightarrow> to_be (from_be bs :: u64) = bs"
  by (simp_all add: to_be_def from_be_def to_le_from_le)

lemma to_le_eq_iff [simp]:
  "to_le (a :: u32) = to_le a' \<longleftrightarrow> a = a'" "to_le (b :: u64) = to_le b' \<longleftrightarrow> b = b'"
  by (metis from_le_to_le)+

lemma to_be_eq_iff [simp]:
  "to_be (a :: u32) = to_be a' \<longleftrightarrow> a = a'" "to_be (b :: u64) = to_be b' \<longleftrightarrow> b = b'"
  by (simp_all add: to_be_def)

text \<open>Big-endian keys sort as the numbers they encode: the reason why the store writes
  counters into its keys with \<open>to_be_bytes\<close>.\<close>

lemma le_val_snoc: "le_val (xs @ [x]) = le_val xs + 256 ^ length xs * unat x"
  by (induction xs) (auto simp: algebra_simps)

lemma be_less_iff:
  "length xs = length ys \<Longrightarrow> xs < ys \<longleftrightarrow> le_val (rev xs) < le_val (rev ys)"
proof (induction xs ys rule: list_induct2)
  case Nil
  then show ?case by simp
next
  case (Cons x xs y ys)
  let ?B = "256 ^ length xs :: nat"
  have bx: "le_val (rev xs) < ?B" using le_val_bound [of "rev xs"] by simp
  have by': "le_val (rev ys) < ?B" using le_val_bound [of "rev ys"] Cons.hyps by simp
  consider "x < y" | "x = y" | "y < x" by (rule linorder_cases)
  then show ?case
  proof cases
    case 1
    then have "Suc (unat x) \<le> unat y" by (simp add: word_less_nat_alt)
    then have "?B * (unat x + 1) \<le> ?B * unat y" by (intro mult_le_mono2) simp
    then show ?thesis using 1 bx Cons.hyps by (simp add: le_val_snoc)
  next
    case 2
    then show ?thesis using Cons by (simp add: le_val_snoc)
  next
    case 3
    then have "Suc (unat y) \<le> unat x" by (simp add: word_less_nat_alt)
    then have "?B * (unat y + 1) \<le> ?B * unat x" by (intro mult_le_mono2) simp
    moreover have "\<not> x # xs < y # ys" using 3 by auto
    ultimately show ?thesis using by' Cons.hyps by (simp add: le_val_snoc)
  qed
qed

lemma to_be_less_iff:
  "to_be (a :: u32) < to_be a' \<longleftrightarrow> a < a'" "to_be (b :: u64) < to_be b' \<longleftrightarrow> b < b'"
proof -
  have v4: "le_val (to_le (w :: u32)) = unat w" for w
    using unsigned_less [of w, where 'a = nat] by (simp add: to_le_def le_val_le_bytes)
  have v8: "le_val (to_le (w :: u64)) = unat w" for w
    using unsigned_less [of w, where 'a = nat] by (simp add: to_le_def le_val_le_bytes)
  show "to_be a < to_be a' \<longleftrightarrow> a < a'"
    by (subst be_less_iff) (simp_all add: to_be_def v4 word_less_nat_alt)
  show "to_be b < to_be b' \<longleftrightarrow> b < b'"
    by (subst be_less_iff) (simp_all add: to_be_def v8 word_less_nat_alt)
qed

lemma append_less_cancel [simp]: "(p @ xs :: bytes) < p @ ys \<longleftrightarrow> xs < ys"
  by (induction p) auto

lemma append_less_same_length:
  "length a = length b \<Longrightarrow> (a @ xs :: bytes) < b @ ys \<longleftrightarrow> a < b \<or> (a = b \<and> xs < ys)"
  by (induction a b rule: list_induct2) auto

section \<open>Results and stateful actions\<close>

text \<open>A fallible pure computation is a value of \<open>'e + 'a\<close> with \<open>Inl\<close> for Rust's \<open>Err\<close>.
  An operation on \<open>&mut self\<close> is a function from the state to the result and the state
  it leaves behind, also when it fails.\<close>

type_synonym ('s, 'e, 'a) act = "'s \<Rightarrow> ('e + 'a) \<times> 's"

definition res_bind :: "'e + 'a \<Rightarrow> ('a \<Rightarrow> 'e + 'b) \<Rightarrow> 'e + 'b" where
  "res_bind r f = (case r of Inl e \<Rightarrow> Inl e | Inr a \<Rightarrow> f a)"

definition map_err :: "('e \<Rightarrow> 'f) \<Rightarrow> 'e + 'a \<Rightarrow> 'f + 'a" where
  "map_err g r = (case r of Inl e \<Rightarrow> Inl (g e) | Inr a \<Rightarrow> Inr a)"

definition ok_or :: "'e \<Rightarrow> 'a option \<Rightarrow> 'e + 'a" where
  "ok_or e v = (case v of None \<Rightarrow> Inl e | Some a \<Rightarrow> Inr a)"

definition transpose_map :: "('b \<Rightarrow> 'e + 'a) \<Rightarrow> 'b option \<Rightarrow> 'e + 'a option" where
  "transpose_map f v = (case v of None \<Rightarrow> Inr None
     | Some b \<Rightarrow> (case f b of Inl e \<Rightarrow> Inl e | Inr a \<Rightarrow> Inr (Some a)))"

primrec map_result :: "('a \<Rightarrow> 'e + 'b) \<Rightarrow> 'a list \<Rightarrow> 'e + 'b list" where
  "map_result f [] = Inr []"
| "map_result f (x # xs) = res_bind (f x) (\<lambda>y. res_bind (map_result f xs) (\<lambda>ys. Inr (y # ys)))"

definition act_return :: "'a \<Rightarrow> ('s, 'e, 'a) act" where
  "act_return a s = (Inr a, s)"

definition act_lift :: "'e + 'a \<Rightarrow> ('s, 'e, 'a) act" where
  "act_lift r s = (r, s)"

definition act_bind :: "('s, 'e, 'a) act \<Rightarrow> ('a \<Rightarrow> ('s, 'e, 'b) act) \<Rightarrow> ('s, 'e, 'b) act" where
  "act_bind m f s = (case m s of (Inl e, s') \<Rightarrow> (Inl e, s') | (Inr a, s') \<Rightarrow> f a s')"

definition act_map_err :: "('e \<Rightarrow> 'f) \<Rightarrow> ('s, 'e, 'a) act \<Rightarrow> ('s, 'f, 'a) act" where
  "act_map_err g m s = (case m s of (r, s') \<Rightarrow> (map_err g r, s'))"

text \<open>\<open>for x in xs { f(x)?; }\<close>\<close>

primrec act_for :: "('a \<Rightarrow> ('s, 'e, unit) act) \<Rightarrow> 'a list \<Rightarrow> ('s, 'e, unit) act" where
  "act_for f [] = act_return ()"
| "act_for f (x # xs) = act_bind (f x) (\<lambda>_. act_for f xs)"

lemma res_bind_simps [simp]:
  "res_bind (Inl e) f = Inl e" "res_bind (Inr a) f = f a"
  by (simp_all add: res_bind_def)

lemma res_bind_Inr_iff: "res_bind r f = Inr b \<longleftrightarrow> (\<exists>a. r = Inr a \<and> f a = Inr b)"
  by (cases r) auto

lemma res_bind_Inl_iff:
  "res_bind r f = Inl e \<longleftrightarrow> r = Inl e \<or> (\<exists>a. r = Inr a \<and> f a = Inl e)"
  by (cases r) auto

lemma map_err_simps [simp]:
  "map_err g (Inl e) = Inl (g e)" "map_err g (Inr a) = Inr a"
  by (simp_all add: map_err_def)

lemma map_err_Inr_iff [simp]: "map_err g r = Inr a \<longleftrightarrow> r = Inr a"
  by (cases r) auto

lemma map_err_Inl_iff: "map_err g r = Inl e \<longleftrightarrow> (\<exists>e'. r = Inl e' \<and> e = g e')"
  by (cases r) auto

lemma ok_or_simps [simp]: "ok_or e None = Inl e" "ok_or e (Some a) = Inr a"
  by (simp_all add: ok_or_def)

lemma ok_or_Inr_iff: "ok_or e v = Inr a \<longleftrightarrow> v = Some a"
  by (cases v) auto

lemma ok_or_Inl_iff: "ok_or e v = Inl e' \<longleftrightarrow> v = None \<and> e' = e"
  by (cases v) auto

lemma transpose_map_simps [simp]:
  "transpose_map f None = Inr None"
  "transpose_map f (Some b) = res_bind (f b) (\<lambda>a. Inr (Some a))"
  by (auto simp: transpose_map_def res_bind_def)

lemma transpose_map_Inr_None: "transpose_map f v = Inr None \<longleftrightarrow> v = None"
  by (cases v) (auto simp: res_bind_Inr_iff)

lemma transpose_map_Inr_Some:
  "transpose_map f v = Inr (Some a) \<longleftrightarrow> (\<exists>b. v = Some b \<and> f b = Inr a)"
  by (cases v) (auto simp: res_bind_Inr_iff)

lemma map_result_Inr_iff:
  "map_result f xs = Inr ys \<longleftrightarrow> list_all2 (\<lambda>x y. f x = Inr y) xs ys"
  by (induction xs arbitrary: ys) (auto simp: res_bind_Inr_iff list_all2_Cons1)

lemma act_simps [simp]:
  "act_return a s = (Inr a, s)" "act_lift r s = (r, s)"
  by (simp_all add: act_return_def act_lift_def)

lemma act_bind_return [simp]: "act_bind (act_return a) f = f a"
  by (rule ext) (simp add: act_bind_def)

lemma act_bind_lift [simp]:
  "act_bind (act_lift r) f s = (case r of Inl e \<Rightarrow> (Inl e, s) | Inr a \<Rightarrow> f a s)"
  by (simp add: act_bind_def split: sum.split)

lemma act_bind_assoc:
  "act_bind (act_bind m f) g = act_bind m (\<lambda>a. act_bind (f a) g)"
  by (rule ext) (auto simp: act_bind_def split: prod.split sum.split)

lemma act_bind_eval:
  "m s = (Inl e, s') \<Longrightarrow> act_bind m f s = (Inl e, s')"
  "m s = (Inr a, s') \<Longrightarrow> act_bind m f s = f a s'"
  by (simp_all add: act_bind_def)

lemma act_bind_Inr_iff:
  "act_bind m f s = (Inr b, s') \<longleftrightarrow> (\<exists>a s1. m s = (Inr a, s1) \<and> f a s1 = (Inr b, s'))"
  by (auto simp: act_bind_def split: prod.splits sum.splits)

lemma act_bind_Inl_iff:
  "act_bind m f s = (Inl e, s') \<longleftrightarrow>
     m s = (Inl e, s') \<or> (\<exists>a s1. m s = (Inr a, s1) \<and> f a s1 = (Inl e, s'))"
  by (auto simp: act_bind_def split: prod.splits sum.splits)

lemma act_map_err_iff:
  "act_map_err g m s = (Inr a, s') \<longleftrightarrow> m s = (Inr a, s')"
  "act_map_err g m s = (Inl e, s') \<longleftrightarrow> (\<exists>e'. m s = (Inl e', s') \<and> e = g e')"
  by (auto simp: act_map_err_def map_err_def split: prod.splits sum.splits)

section \<open>Byte slices and cursors\<close>

definition slice :: "nat \<Rightarrow> nat \<Rightarrow> 'a list \<Rightarrow> 'a list" where
  "slice a b xs = take (b - a) (drop a xs)"

text \<open>A decoding cursor is the slice of bytes not yet read. Reading past the end and an
  overflowing end position are the same error in every decoder of the store.\<close>

type_synonym ('e, 'a) reader = "bytes \<Rightarrow> 'e + ('a \<times> bytes)"

definition rd_take :: "'e \<Rightarrow> nat \<Rightarrow> ('e, bytes) reader" where
  "rd_take e n bs = (if n \<le> length bs then Inr (take n bs, drop n bs) else Inl e)"

definition rd_bind :: "('e, 'a) reader \<Rightarrow> ('a \<Rightarrow> ('e, 'b) reader) \<Rightarrow> ('e, 'b) reader" where
  "rd_bind m f bs = (case m bs of Inl e \<Rightarrow> Inl e | Inr (a, rest) \<Rightarrow> f a rest)"

definition rd_return :: "'a \<Rightarrow> ('e, 'a) reader" where
  "rd_return a bs = Inr (a, bs)"

definition rd_fail :: "'e \<Rightarrow> ('e, 'a) reader" where
  "rd_fail e bs = Inl e"

definition rd_u8 :: "'e \<Rightarrow> ('e, u8) reader" where
  "rd_u8 e = rd_bind (rd_take e 1) (\<lambda>bs. case bs of [] \<Rightarrow> rd_fail e | b # _ \<Rightarrow> rd_return b)"

definition rd_u32 :: "'e \<Rightarrow> ('e, u32) reader" where
  "rd_u32 e = rd_bind (rd_take e 4) (\<lambda>bs. rd_return (from_le bs))"

definition rd_u64 :: "'e \<Rightarrow> ('e, u64) reader" where
  "rd_u64 e = rd_bind (rd_take e 8) (\<lambda>bs. rd_return (from_le bs))"

definition rd_bytes :: "'e \<Rightarrow> ('e, bytes) reader" where
  "rd_bytes e = rd_bind (rd_u32 e) (\<lambda>n. rd_take e (unat n))"

lemma rd_bind_eval [codec_simps]:
  "m bs = Inr (a, rest) \<Longrightarrow> rd_bind m f bs = f a rest"
  "m bs = Inl e \<Longrightarrow> rd_bind m f bs = Inl e"
  by (simp_all add: rd_bind_def)

lemma rd_bind_Inr_iff:
  "rd_bind m f bs = Inr (b, r) \<longleftrightarrow> (\<exists>a rest. m bs = Inr (a, rest) \<and> f a rest = Inr (b, r))"
  by (auto simp: rd_bind_def split: sum.splits)

lemma rd_simps [simp, codec_simps]:
  "rd_return a bs = Inr (a, bs)" "rd_fail e bs = Inl e"
  by (simp_all add: rd_return_def rd_fail_def)

lemma rd_take_append [codec_simps]: "length xs = n \<Longrightarrow> rd_take e n (xs @ rest) = Inr (xs, rest)"
  by (simp add: rd_take_def)

lemma rd_u8_Cons [codec_simps]: "rd_u8 e (b # rest) = Inr (b, rest)"
  by (simp add: rd_u8_def rd_bind_def rd_take_def)

lemma rd_u32_append [codec_simps]: "rd_u32 e (to_le w @ rest) = Inr (w, rest)"
  by (simp add: rd_u32_def rd_bind_def rd_take_append)

lemma rd_u64_append [codec_simps]: "rd_u64 e (to_le w @ rest) = Inr (w, rest)"
  by (simp add: rd_u64_def rd_bind_def rd_take_append)

lemma rd_bytes_append [codec_simps]:
  "u32_try_from_len (length xs) = Some l \<Longrightarrow> rd_bytes e (to_le l @ xs @ rest) = Inr (xs, rest)"
  by (simp add: rd_bytes_def rd_bind_def rd_u32_append rd_take_append u32_try_from_len_Some)

section \<open>Hash maps and ordered scans\<close>

text \<open>A \<open>HashMap\<close> is an association list with distinct keys: \<^const>\<open>map_of\<close> is \<open>get\<close>,
  \<^const>\<open>AList.update\<close> is \<open>insert\<close>, \<^const>\<open>AList.delete\<close> is \<open>remove\<close>. The order of the list
  carries no meaning; results the code sorts are sorted in the model.\<close>

type_synonym kv = "(bytes \<times> bytes) list"

definition wf_map :: "('k \<times> 'v) list \<Rightarrow> bool" where
  "wf_map m \<longleftrightarrow> distinct (map fst m)"

lemma wf_map_Nil [simp]: "wf_map []"
  by (simp add: wf_map_def)

lemma wf_map_update [simp]: "wf_map m \<Longrightarrow> wf_map (AList.update k v m)"
  by (simp add: wf_map_def distinct_update)

lemma wf_map_delete [simp]: "wf_map m \<Longrightarrow> wf_map (AList.delete k m)"
  by (simp add: wf_map_def distinct_delete)

lemma map_of_AList_update [simp]:
  "map_of (AList.update k v m) k' = (if k' = k then Some v else map_of m k')"
  by (simp add: update_conv)

lemma map_of_AList_delete [simp]:
  "map_of (AList.delete k m) k' = (if k' = k then None else map_of m k')"
  by (simp add: delete_conv)

lemma wf_map_in_set_iff: "wf_map m \<Longrightarrow> (k, v) \<in> set m \<longleftrightarrow> map_of m k = Some v"
  by (auto simp: wf_map_def)

definition scan_map :: "bytes \<Rightarrow> kv \<Rightarrow> kv" where
  "scan_map p m = sort_key fst (filter (\<lambda>(k, _). prefix p k) m)"

lemma set_scan_map: "wf_map m \<Longrightarrow> set (scan_map p m) = {(k, v). prefix p k \<and> map_of m k = Some v}"
  by (auto simp: scan_map_def wf_map_in_set_iff)

lemma sorted_scan_map: "sorted (map fst (scan_map p m))"
  by (simp add: scan_map_def)

lemma distinct_scan_map: "wf_map m \<Longrightarrow> distinct (map fst (scan_map p m))"
proof -
  assume "wf_map m"
  then have d: "distinct (map fst (filter (\<lambda>(k, _). prefix p k) m))"
    by (simp add: wf_map_def distinct_map_filter)
  have "mset (map fst (scan_map p m)) = mset (map fst (filter (\<lambda>(k, _). prefix p k) m))"
    by (simp add: scan_map_def)
  then have "distinct (map fst (scan_map p m)) = distinct (map fst (filter (\<lambda>(k, _). prefix p k) m))"
    by (rule mset_eq_imp_distinct_iff)
  with d show ?thesis by blast
qed

text \<open>A scan depends only on the entries below its prefix.\<close>

lemma scan_map_cong:
  assumes "wf_map a" and "wf_map b" and "\<And>k. prefix p k \<Longrightarrow> map_of a k = map_of b k"
  shows "scan_map p a = scan_map p b"
proof -
  let ?f = "filter (\<lambda>(k, _ :: bytes). prefix p k)"
  have da: "distinct (map fst (?f a))" and db: "distinct (map fst (?f b))"
    using assms(1,2) by (simp_all add: wf_map_def distinct_map_filter)
  have "set (?f a) = set (?f b)"
    using assms by (auto simp: wf_map_in_set_iff)
  moreover have "distinct (?f a)" and "distinct (?f b)"
    using da db by (simp_all only: distinct_map)
  ultimately have m: "mset (?f a) = mset (?f b)"
    using set_eq_iff_mset_eq_distinct by blast
  show ?thesis unfolding scan_map_def
  proof (rule sort_key_inj_key_eq)
    show "mset (?f a) = mset (sort_key fst (?f b))" using m by simp
    show "inj_on fst (set (?f a))" using da by (simp add: distinct_map)
    show "sorted (map fst (sort_key fst (?f b)))" by simp
  qed
qed

lemma scan_map_unique:
  assumes wf: "wf_map m" and xs: "sorted (map fst xs)" "distinct (map fst xs)"
    and set: "\<And>k v. (k, v) \<in> set xs \<longleftrightarrow> prefix p k \<and> map_of m k = Some v"
  shows "scan_map p m = xs"
proof -
  have "set (scan_map p m) = set xs" using set by (auto simp: set_scan_map [OF wf])
  moreover have "inj_on fst (set xs)" using xs(2) by (simp add: distinct_map)
  ultimately show ?thesis
    using xs sorted_scan_map distinct_scan_map [OF wf]
    by (intro map_sorted_distinct_set_unique [where f = fst]) simp_all
qed

section \<open>The codec interface\<close>

text \<open>What every record format of the store promises: what an encoder produced for a
  well-formed value, the decoder reads back.\<close>

locale codec =
  fixes enc :: "'a \<Rightarrow> 'e + bytes"
    and dec :: "bytes \<Rightarrow> 'f + 'a"
    and ok :: "'a \<Rightarrow> bool"
  assumes dec_enc: "ok x \<Longrightarrow> enc x = Inr bs \<Longrightarrow> dec bs = Inr x"
begin

lemma enc_inj: "ok x \<Longrightarrow> ok y \<Longrightarrow> enc x = Inr bs \<Longrightarrow> enc y = Inr bs \<Longrightarrow> x = y"
  using dec_enc [of x bs] dec_enc [of y bs] by simp

lemma enc_distinct: "ok x \<Longrightarrow> ok y \<Longrightarrow> x \<noteq> y \<Longrightarrow> enc x = Inr bs \<Longrightarrow> enc y \<noteq> Inr bs"
  using enc_inj by blast

end

end
