(* ===== verification/Header.thy ===== *)
theory Header
  imports Prelude
begin

text \<open>
  The fixed-width file header (\<open>crates/voodoo-store-core/src/header.rs\<close>): identity and format
  version of a store at byte zero, closed by a CRC-32. The checksum function (the crate
  \<open>crc32fast\<close>) is the argument \<open>crc\<close> of every definition that uses it.
\<close>

section \<open>Model\<close>

definition STORE_MAGIC :: bytes where
  "STORE_MAGIC = ascii ''VSTORE01''"

definition FORMAT_MAJOR :: u16 where
  "FORMAT_MAJOR = 1"

definition FORMAT_MINOR :: u16 where
  "FORMAT_MINOR = 0"

definition STORE_HEADER_LEN :: usize where
  "STORE_HEADER_LEN = 64"

definition CHECKSUM_OFFSET :: usize where
  "CHECKSUM_OFFSET = STORE_HEADER_LEN - 4"

record store_header =
  format_major :: u16
  format_minor :: u16
  store_id :: bytes
  created_at_ms :: i64
  feature_flags :: u64

datatype header_error =
    HeaderTruncated
  | HeaderInvalidMagic
  | HeaderUnsupportedMajor u16 u16
  | HeaderChecksumMismatch u32 u32

definition store_header_new :: "bytes \<Rightarrow> i64 \<Rightarrow> store_header" where
  "store_header_new sid created =
     \<lparr>format_major = FORMAT_MAJOR, format_minor = FORMAT_MINOR, store_id = sid,
      created_at_ms = created, feature_flags = 0\<rparr>"

text \<open>The encoder fills a zeroed 64-byte array: bytes 44 to 60 stay zero.\<close>

definition header_body :: "store_header \<Rightarrow> bytes" where
  "header_body h =
     STORE_MAGIC @ to_le (format_major h) @ to_le (format_minor h) @ store_id h @
     to_le (created_at_ms h) @ to_le (feature_flags h) @ replicate 16 0"

definition header_encode :: "(bytes \<Rightarrow> u32) \<Rightarrow> store_header \<Rightarrow> bytes" where
  "header_encode crc h = header_body h @ to_le (crc (header_body h))"

definition header_decode :: "(bytes \<Rightarrow> u32) \<Rightarrow> bytes \<Rightarrow> header_error + store_header" where
  "header_decode crc bs =
     (if length bs < STORE_HEADER_LEN then Inl HeaderTruncated
      else if slice 0 8 bs \<noteq> STORE_MAGIC then Inl HeaderInvalidMagic
      else
        let expected = from_le (slice CHECKSUM_OFFSET STORE_HEADER_LEN bs);
            actual = crc (take CHECKSUM_OFFSET bs)
        in if expected \<noteq> actual then Inl (HeaderChecksumMismatch expected actual)
           else
             let major = from_le (slice 8 10 bs);
                 minor = from_le (slice 10 12 bs)
             in if major \<noteq> FORMAT_MAJOR then Inl (HeaderUnsupportedMajor major FORMAT_MAJOR)
                else Inr \<lparr>format_major = major, format_minor = minor, store_id = slice 12 28 bs,
                          created_at_ms = from_le (slice 28 36 bs),
                          feature_flags = from_le (slice 36 44 bs)\<rparr>)"

section \<open>Well-formedness and layout\<close>

text \<open>The Rust type fixes the identity to sixteen bytes.\<close>

definition wf_header :: "store_header \<Rightarrow> bool" where
  "wf_header h \<longleftrightarrow> length (store_id h) = 16"

lemma length_STORE_MAGIC [simp]: "length STORE_MAGIC = 8"
  by (simp add: STORE_MAGIC_def ascii_def)

lemmas header_layout =
  STORE_HEADER_LEN_def CHECKSUM_OFFSET_def slice_def drop_append take_append

lemma length_header_body [simp]: "wf_header h \<Longrightarrow> length (header_body h) = 60"
  by (simp add: header_body_def wf_header_def)

lemma length_header_encode [simp]: "wf_header h \<Longrightarrow> length (header_encode crc h) = STORE_HEADER_LEN"
  by (simp add: header_encode_def STORE_HEADER_LEN_def)

lemma header_encode_slices:
  assumes "wf_header h"
  shows "slice 0 8 (header_encode crc h @ r) = STORE_MAGIC"
    and "slice 8 10 (header_encode crc h @ r) = to_le (format_major h)"
    and "slice 10 12 (header_encode crc h @ r) = to_le (format_minor h)"
    and "slice 12 28 (header_encode crc h @ r) = store_id h"
    and "slice 28 36 (header_encode crc h @ r) = to_le (created_at_ms h)"
    and "slice 36 44 (header_encode crc h @ r) = to_le (feature_flags h)"
    and "slice CHECKSUM_OFFSET STORE_HEADER_LEN (header_encode crc h @ r) = to_le (crc (header_body h))"
  using assms
  by (simp_all add: header_encode_def header_body_def wf_header_def header_layout)

lemma take_header_encode:
  "wf_header h \<Longrightarrow> take CHECKSUM_OFFSET (header_encode crc h @ r) = header_body h"
  by (simp add: header_encode_def header_layout)

lemma header_decode_cases:
  assumes wf: "wf_header h"
  shows "header_decode crc (header_encode crc h @ rest) =
           (if format_major h = FORMAT_MAJOR then Inr h
            else Inl (HeaderUnsupportedMajor (format_major h) FORMAT_MAJOR))"
  using wf by (simp add: header_decode_def header_encode_slices take_header_encode Let_def
      del: take_append)

section \<open>Properties\<close>

lemma header_decode_encode:
  assumes "wf_header h" and "format_major h = FORMAT_MAJOR"
  shows "header_decode crc (header_encode crc h @ rest) = Inr h"
  using assms by (simp add: header_decode_cases)

text \<open>Exactly the headers of another major version are refused once the checksum holds.\<close>

lemma header_decode_other_major:
  assumes "wf_header h" and "format_major h \<noteq> FORMAT_MAJOR"
  shows "header_decode crc (header_encode crc h) =
           Inl (HeaderUnsupportedMajor (format_major h) FORMAT_MAJOR)"
  using assms header_decode_cases [of h crc "[]"] by simp

lemma header_decode_Inr:
  assumes "header_decode crc bs = Inr h"
  shows "wf_header h" and "format_major h = FORMAT_MAJOR" and "STORE_HEADER_LEN \<le> length bs"
    and "from_le (slice CHECKSUM_OFFSET STORE_HEADER_LEN bs) = crc (take CHECKSUM_OFFSET bs)"
  using assms
  by (auto simp: header_decode_def Let_def wf_header_def slice_def STORE_HEADER_LEN_def
      split: if_splits)

text \<open>A change under the checksum is found whenever the checksum function separates the two
  bodies.\<close>

lemma header_corruption_detected:
  assumes "length bs = STORE_HEADER_LEN" and "slice 0 8 bs = STORE_MAGIC"
    and "slice CHECKSUM_OFFSET STORE_HEADER_LEN bs = to_le (crc good)"
    and "crc (take CHECKSUM_OFFSET bs) \<noteq> crc good"
  shows "header_decode crc bs = Inl (HeaderChecksumMismatch (crc good) (crc (take CHECKSUM_OFFSET bs)))"
  using assms by (simp add: header_decode_def Let_def)

interpretation header_codec: codec "\<lambda>h. Inr (header_encode crc h)" "header_decode crc"
  "\<lambda>h. wf_header h \<and> format_major h = FORMAT_MAJOR"
proof
  fix x bs
  assume "wf_header x \<and> format_major x = FORMAT_MAJOR" and "Inr (header_encode crc x) = Inr bs"
  then show "header_decode crc bs = Inr x"
    using header_decode_encode [of x crc "[]"] by auto
qed

end
