(* ===== verification/Record_Log.thy ===== *)
theory Record_Log
  imports Prelude
begin

text \<open>
  The append-only log's record format (\<open>crates/voodoo-store-core/src/log.rs\<close>): magic, kind,
  transaction id, sequence, payload length, payload, CRC-32. \<open>crc\<close> stands for the crate
  \<open>crc32fast\<close>. The central facts are the round trip, that the length prefix of a record
  determines its extent, and that no proper prefix of a record is mistaken for a record.
\<close>

section \<open>Model\<close>

definition MAGIC :: bytes where
  "MAGIC = ascii ''VDS1''"

definition HEADER_LEN :: usize where
  "HEADER_LEN = 4 + 1 + 8 + 8 + 4"

datatype record_kind = RPut | RDelete | RCommit

datatype log_error =
    LogInvalidMagic
  | LogTruncatedRecord
  | LogUnknownRecordKind u8
  | LogPayloadTooLarge
  | LogChecksumMismatch u32 u32

fun record_kind_u8 :: "record_kind \<Rightarrow> u8" where
  "record_kind_u8 RPut = 1"
| "record_kind_u8 RDelete = 2"
| "record_kind_u8 RCommit = 3"

definition record_kind_try_from :: "u8 \<Rightarrow> log_error + record_kind" where
  "record_kind_try_from v =
     (if v = 1 then Inr RPut else if v = 2 then Inr RDelete else if v = 3 then Inr RCommit
      else Inl (LogUnknownRecordKind v))"

record log_record =
  lr_kind :: record_kind
  lr_tx_id :: u64
  lr_sequence :: u64
  lr_payload :: bytes

definition log_record_new :: "record_kind \<Rightarrow> u64 \<Rightarrow> u64 \<Rightarrow> bytes \<Rightarrow> log_record" where
  "log_record_new k t q p = \<lparr>lr_kind = k, lr_tx_id = t, lr_sequence = q, lr_payload = p\<rparr>"

definition record_encode :: "(bytes \<Rightarrow> u32) \<Rightarrow> log_record \<Rightarrow> log_error + bytes" where
  "record_encode crc r =
     (case u32_try_from_len (length (lr_payload r)) of
        None \<Rightarrow> Inl LogPayloadTooLarge
      | Some payload_len \<Rightarrow>
          let out = MAGIC @ [record_kind_u8 (lr_kind r)] @ to_le (lr_tx_id r) @
                    to_le (lr_sequence r) @ to_le payload_len @ lr_payload r
          in Inr (out @ to_le (crc out)))"

definition expected_len :: "usize \<Rightarrow> log_error + usize" where
  "expected_len payload_len =
     ok_or LogPayloadTooLarge
       (case usize_checked_add HEADER_LEN payload_len of
          None \<Rightarrow> None | Some len \<Rightarrow> usize_checked_add len 4)"

definition record_decode :: "(bytes \<Rightarrow> u32) \<Rightarrow> bytes \<Rightarrow> log_error + log_record" where
  "record_decode crc bs =
     (if length bs < HEADER_LEN + 4 then Inl LogTruncatedRecord
      else if slice 0 4 bs \<noteq> MAGIC then Inl LogInvalidMagic
      else res_bind (record_kind_try_from (bs ! 4)) (\<lambda>kind.
        let tx_id = from_le (slice 5 13 bs);
            sequence = from_le (slice 13 21 bs);
            payload_len = unat (from_le (slice 21 25 bs) :: u32)
        in res_bind (expected_len payload_len) (\<lambda>len.
             if length bs \<noteq> len then Inl LogTruncatedRecord
             else
               let checksum_offset = HEADER_LEN + payload_len;
                   expected = from_le (slice checksum_offset (checksum_offset + 4) bs);
                   actual = crc (take checksum_offset bs)
               in if expected \<noteq> actual then Inl (LogChecksumMismatch expected actual)
                  else Inr \<lparr>lr_kind = kind, lr_tx_id = tx_id, lr_sequence = sequence,
                            lr_payload = slice HEADER_LEN checksum_offset bs\<rparr>)))"

definition encoded_record_len_from_prefix :: "bytes \<Rightarrow> log_error + usize" where
  "encoded_record_len_from_prefix bs =
     (if length bs < HEADER_LEN then Inl LogTruncatedRecord
      else if slice 0 4 bs \<noteq> MAGIC then Inl LogInvalidMagic
      else expected_len (unat (from_le (slice 21 25 bs) :: u32)))"

section \<open>Layout\<close>

lemma length_MAGIC [simp]: "length MAGIC = 4"
  by (simp add: MAGIC_def ascii_def)

lemma record_kind_roundtrip [simp]: "record_kind_try_from (record_kind_u8 k) = Inr k"
  by (cases k) (simp_all add: record_kind_try_from_def)

text \<open>Lengths are below $2^{64}$ on the 64-bit targets the crate supports, so the checked sums
  of a 32-bit payload length cannot overflow.\<close>

lemma expected_len_u32: "expected_len (unat (l :: u32)) = Inr (HEADER_LEN + unat l + 4)"
proof -
  have "unat l < 2 ^ 32" using unsigned_less [of l, where 'a = nat] by simp
  then show ?thesis by (simp add: expected_len_def usize_checked_add_def HEADER_LEN_def)
qed

definition record_head :: "log_record \<Rightarrow> u32 \<Rightarrow> bytes" where
  "record_head r l = MAGIC @ [record_kind_u8 (lr_kind r)] @ to_le (lr_tx_id r) @
     to_le (lr_sequence r) @ to_le l"

lemma length_record_head [simp]: "length (record_head r l) = HEADER_LEN"
  by (simp add: record_head_def HEADER_LEN_def)

lemma record_encode_Inr:
  assumes "record_encode crc r = Inr bs"
  obtains l where "u32_try_from_len (length (lr_payload r)) = Some l"
    and "bs = record_head r l @ lr_payload r @ to_le (crc (record_head r l @ lr_payload r))"
  using assms
  by (auto simp: record_encode_def record_head_def Let_def split: option.splits)

lemma record_head_slices:
  "slice 0 4 (record_head r l @ x) = MAGIC"
  "(record_head r l @ x) ! 4 = record_kind_u8 (lr_kind r)"
  "slice 5 13 (record_head r l @ x) = to_le (lr_tx_id r)"
  "slice 13 21 (record_head r l @ x) = to_le (lr_sequence r)"
  "slice 21 25 (record_head r l @ x) = to_le l"
  by (simp_all add: record_head_def slice_def nth_append)

lemma record_encode_length:
  assumes "record_encode crc r = Inr bs"
  shows "length bs = HEADER_LEN + length (lr_payload r) + 4"
  using assms by (auto elim!: record_encode_Inr)

section \<open>Round trip and prefixes\<close>

lemma record_decode_encode:
  assumes "record_encode crc r = Inr bs"
  shows "record_decode crc bs = Inr r"
proof -
  obtain l where l: "u32_try_from_len (length (lr_payload r)) = Some l"
    and bs: "bs = record_head r l @ lr_payload r @ to_le (crc (record_head r l @ lr_payload r))"
    using assms by (rule record_encode_Inr)
  note len = u32_try_from_len_Some [OF l]
  let ?off = "HEADER_LEN + unat l"
  have tk: "take ?off bs = record_head r l @ lr_payload r"
    unfolding bs using len by simp
  have sum: "slice ?off (?off + 4) bs = to_le (crc (record_head r l @ lr_payload r))"
    unfolding bs slice_def using len by simp
  have pay: "slice HEADER_LEN ?off bs = lr_payload r"
    unfolding bs slice_def using len by simp
  have lb: "length bs = HEADER_LEN + unat l + 4"
    using record_encode_length [OF assms] len by simp
  have sl: "slice 0 4 bs = MAGIC" "bs ! 4 = record_kind_u8 (lr_kind r)"
    "slice 5 13 bs = to_le (lr_tx_id r)" "slice 13 21 bs = to_le (lr_sequence r)"
    "slice 21 25 bs = to_le l"
    unfolding bs by (rule record_head_slices)+
  show ?thesis
    by (simp add: record_decode_def sl lb expected_len_u32 tk sum pay Let_def)
qed

lemma encoded_len_of_record:
  assumes "record_encode crc r = Inr bs"
  shows "encoded_record_len_from_prefix (bs @ rest) = Inr (length bs)"
proof -
  obtain l where l: "u32_try_from_len (length (lr_payload r)) = Some l"
    and bs: "bs = record_head r l @ lr_payload r @ to_le (crc (record_head r l @ lr_payload r))"
    using assms by (rule record_encode_Inr)
  have lb: "length bs = HEADER_LEN + unat l + 4"
    using record_encode_length [OF assms] u32_try_from_len_Some [OF l] by simp
  have sl: "slice 0 4 (bs @ rest) = MAGIC" "slice 21 25 (bs @ rest) = to_le l"
    unfolding bs append_assoc by (rule record_head_slices)+
  show ?thesis
    by (simp add: encoded_record_len_from_prefix_def sl lb expected_len_u32)
qed

text \<open>A proper prefix of a record that is long enough to carry the length field announces the
  whole record, so it is recognised as incomplete.\<close>

lemma encoded_len_of_partial_record:
  assumes "record_encode crc r = Inr bs" and "HEADER_LEN \<le> n"
  shows "encoded_record_len_from_prefix (take n bs) = Inr (length bs)"
proof -
  obtain l where l: "u32_try_from_len (length (lr_payload r)) = Some l"
    and bs: "bs = record_head r l @ lr_payload r @ to_le (crc (record_head r l @ lr_payload r))"
    using assms(1) by (rule record_encode_Inr)
  have lb: "length bs = HEADER_LEN + unat l + 4"
    using record_encode_length [OF assms(1)] u32_try_from_len_Some [OF l] by simp
  obtain x where tk: "take n bs = record_head r l @ x"
    unfolding bs using assms(2) by simp
  have sl: "slice 0 4 (take n bs) = MAGIC" "slice 21 25 (take n bs) = to_le l"
    unfolding tk by (rule record_head_slices)+
  show ?thesis
    using assms(2) by (simp add: encoded_record_len_from_prefix_def sl lb expected_len_u32)
qed

lemma encoded_record_len_positive:
  assumes "encoded_record_len_from_prefix bs = Inr n"
  shows "HEADER_LEN + 4 \<le> n"
  using assms
  by (auto simp: encoded_record_len_from_prefix_def expected_len_u32 split: if_splits)

text \<open>Every successful decode is the decode of a canonical encoding.\<close>

lemma record_decode_Inr_checksum:
  assumes "record_decode crc bs = Inr r"
  shows "\<exists>off. bs = take off bs @ to_le (crc (take off bs)) \<and> off + 4 = length bs"
proof -
  obtain off where len: "length bs = off + 4"
    and crc: "from_le (slice off (off + 4) bs) = crc (take off bs)"
    using assms
    by (auto simp: record_decode_def res_bind_Inr_iff expected_len_u32 Let_def split: if_splits)
  have tl: "length (drop off bs) = 4" using len by simp
  then have "slice off (off + 4) bs = drop off bs" by (simp add: slice_def)
  then have "from_le (drop off bs) = crc (take off bs)" using crc by simp
  then have "drop off bs = to_le (crc (take off bs))"
    using to_le_from_le(2) [OF tl] by simp
  then have "bs = take off bs @ to_le (crc (take off bs))"
    using append_take_drop_id [of off bs] by simp
  with len show ?thesis by auto
qed

lemma record_payload_corruption_detected:
  assumes enc: "record_encode crc r = Inr bs"
    and p: "length p = length (lr_payload r)"
    and ne: "crc (take HEADER_LEN bs @ p) \<noteq> crc (take HEADER_LEN bs @ lr_payload r)"
  shows "record_decode crc (take HEADER_LEN bs @ p @ drop (HEADER_LEN + length p) bs) =
    Inl (LogChecksumMismatch (crc (take HEADER_LEN bs @ lr_payload r)) (crc (take HEADER_LEN bs @ p)))"
proof -
  obtain l where l: "u32_try_from_len (length (lr_payload r)) = Some l"
    and bs: "bs = record_head r l @ lr_payload r @ to_le (crc (record_head r l @ lr_payload r))"
    using enc by (rule record_encode_Inr)
  note len = u32_try_from_len_Some [OF l]
  let ?h = "record_head r l" and ?sum = "to_le (crc (record_head r l @ lr_payload r))"
  have hd: "take HEADER_LEN bs = ?h" unfolding bs by simp
  have dr: "drop (HEADER_LEN + length p) bs = ?sum" unfolding bs using p by simp
  let ?bad = "?h @ p @ ?sum"
  let ?off = "HEADER_LEN + unat l"
  have tk: "take ?off ?bad = ?h @ p" using len p by simp
  have sum: "slice ?off (?off + 4) ?bad = ?sum" unfolding slice_def using len p by simp
  have sl: "slice 0 4 ?bad = MAGIC" "?bad ! 4 = record_kind_u8 (lr_kind r)"
    "slice 21 25 ?bad = to_le l"
    by (rule record_head_slices)+
  show ?thesis
    unfolding hd dr using ne len(1) [symmetric] p
    by (simp add: record_decode_def sl expected_len_u32 tk sum Let_def hd del: take_append)
qed

interpretation record_codec: codec "record_encode crc" "record_decode crc" "\<lambda>_. True"
  by unfold_locales (rule record_decode_encode)

end
