(* ===== verification/Recovery.thy ===== *)
theory Recovery
  imports Header Record_Log
begin

text \<open>
  Operations, their log payloads and crash recovery (\<open>crates/voodoo-store-core/src/engine.rs\<close>:
  \<open>Operation\<close>, \<open>encode_put\<close> to \<open>decode_delete\<close>, \<open>apply_operations\<close>, \<open>recover\<close>,
  \<open>next_counter\<close>). The loop over the file's bytes is shown to be the fold of one step over the
  records it contains (\<open>replay\<close>), on a complete log and on a log cut at any byte; \<open>replay\<close> is
  shown to compute the operations of the committed transactions in commit order.
\<close>

section \<open>Errors of the engine\<close>

text \<open>The kinds of \<open>std::io::Error\<close> that the crate distinguishes or produces.\<close>

datatype io_kind =
    StorageFull | QuotaExceeded | WouldBlock | AlreadyExists | NotFound | InvalidInput | InvalidData
  | UnexpectedEof | OtherIo

datatype engine_error =
    EIo io_kind
  | EHeader header_error
  | ELog log_error
  | EAlreadyOpen
  | EStorageQuotaExceeded u64
  | EDiskFull
  | ENamespaceQuotaExceeded "nat list" u64
  | ENamespaceQuotaOverflow
  | EKeyTooLarge
  | EReservedKey
  | ERandomness
  | EInvalidOperationPayload
  | ETransactionFinished
  | ECounterExhausted
  | EClockBeforeUnixEpoch
  | ETimestampOverflow
  | EBackupDestinationIsSource
  | ENonMonotonicSequence u64 u64
  | ERecordAfterCommit u64

section \<open>Operations and their payloads\<close>

datatype operation = OpPut bytes bytes | OpDelete bytes

fun op_key :: "operation \<Rightarrow> bytes" where
  "op_key (OpPut k v) = k"
| "op_key (OpDelete k) = k"

fun apply_operation :: "operation \<Rightarrow> kv \<Rightarrow> kv" where
  "apply_operation (OpPut k v) st = AList.update k v st"
| "apply_operation (OpDelete k) st = AList.delete k st"

definition apply_operations :: "kv \<Rightarrow> operation list \<Rightarrow> kv" where
  "apply_operations st ops = fold apply_operation ops st"

definition encode_put :: "bytes \<Rightarrow> bytes \<Rightarrow> engine_error + bytes" where
  "encode_put k v =
     (case u32_try_from_len (length k) of
        None \<Rightarrow> Inl EKeyTooLarge
      | Some l \<Rightarrow> Inr (to_le l @ k @ v))"

definition decode_put :: "bytes \<Rightarrow> engine_error + operation" where
  "decode_put payload =
     (if length payload < 4 then Inl EInvalidOperationPayload
      else
        let key_len = unat (from_le (take 4 payload) :: u32)
        in res_bind (ok_or EInvalidOperationPayload (usize_checked_add 4 key_len)) (\<lambda>key_end.
             if key_end > length payload then Inl EInvalidOperationPayload
             else Inr (OpPut (slice 4 key_end payload) (drop key_end payload))))"

definition encode_delete :: "bytes \<Rightarrow> engine_error + bytes" where
  "encode_delete k =
     (case u32_try_from_len (length k) of
        None \<Rightarrow> Inl EKeyTooLarge
      | Some l \<Rightarrow> Inr (to_le l @ k))"

definition decode_delete :: "bytes \<Rightarrow> engine_error + operation" where
  "decode_delete payload =
     (if length payload < 4 then Inl EInvalidOperationPayload
      else
        let key_len = unat (from_le (take 4 payload) :: u32)
        in if length payload \<noteq> 4 + key_len then Inl EInvalidOperationPayload
           else Inr (OpDelete (drop 4 payload)))"

section \<open>The recovery loop\<close>

record recovery_acc =
  ra_state :: kv
  ra_pending :: "(u64 \<times> operation list) list"
  ra_committed :: "u64 list"
  ra_offset :: usize
  ra_max_tx_id :: u64
  ra_max_sequence :: u64
  ra_records :: u64

record recovery =
  rec_state :: kv
  rec_max_tx_id :: u64
  rec_max_sequence :: u64
  rec_valid_end :: u64
  rec_records :: u64
  rec_committed_transactions :: u64
  rec_pending_transactions :: u64

definition recovery_start :: recovery_acc where
  "recovery_start = \<lparr>ra_state = [], ra_pending = [], ra_committed = [], ra_offset = 0,
     ra_max_tx_id = 0, ra_max_sequence = 0, ra_records = 0\<rparr>"

definition pending_ops :: "recovery_acc \<Rightarrow> u64 \<Rightarrow> operation list" where
  "pending_ops a t = (case map_of (ra_pending a) t of None \<Rightarrow> [] | Some ops \<Rightarrow> ops)"

definition push_pending :: "u64 \<Rightarrow> operation \<Rightarrow> recovery_acc \<Rightarrow> recovery_acc" where
  "push_pending t op a = a\<lparr>ra_pending := AList.update t (pending_ops a t @ [op]) (ra_pending a)\<rparr>"

text \<open>The body of the loop for one decoded record.\<close>

definition recover_record :: "log_record \<Rightarrow> recovery_acc \<Rightarrow> engine_error + recovery_acc" where
  "recover_record r a =
     (if lr_sequence r \<le> ra_max_sequence a \<and> ra_max_sequence a \<noteq> 0
      then Inl (ENonMonotonicSequence (ra_max_sequence a) (lr_sequence r))
      else if lr_tx_id r \<in> set (ra_committed a) then Inl (ERecordAfterCommit (lr_tx_id r))
      else
        res_bind (ok_or ECounterExhausted (checked_add (ra_records a) 1)) (\<lambda>n.
          let a1 = a\<lparr>ra_max_sequence := lr_sequence r,
                     ra_max_tx_id := max (ra_max_tx_id a) (lr_tx_id r), ra_records := n\<rparr>
          in case lr_kind r of
               RPut \<Rightarrow> res_bind (decode_put (lr_payload r)) (\<lambda>op. Inr (push_pending (lr_tx_id r) op a1))
             | RDelete \<Rightarrow> res_bind (decode_delete (lr_payload r)) (\<lambda>op. Inr (push_pending (lr_tx_id r) op a1))
             | RCommit \<Rightarrow>
                 Inr (a1\<lparr>ra_state := apply_operations (ra_state a1) (pending_ops a1 (lr_tx_id r)),
                         ra_pending := AList.delete (lr_tx_id r) (ra_pending a1),
                         ra_committed := List.insert (lr_tx_id r) (ra_committed a1)\<rparr>)))"

function recover_loop :: "(bytes \<Rightarrow> u32) \<Rightarrow> bytes \<Rightarrow> recovery_acc \<Rightarrow> engine_error + recovery_acc" where
  "recover_loop crc bs a =
     (if \<not> ra_offset a < length bs then Inr a
      else if length (drop (ra_offset a) bs) < HEADER_LEN then Inr a
      else case encoded_record_len_from_prefix (drop (ra_offset a) bs) of
             Inl e \<Rightarrow> (if e = LogTruncatedRecord then Inr a else Inl (ELog e))
           | Inr record_len \<Rightarrow>
               (if length (drop (ra_offset a) bs) < record_len then Inr a
                else case record_decode crc (take record_len (drop (ra_offset a) bs)) of
                       Inl e \<Rightarrow> Inl (ELog e)
                     | Inr r \<Rightarrow>
                         (case recover_record r a of
                            Inl e \<Rightarrow> Inl e
                          | Inr a' \<Rightarrow> recover_loop crc bs (a'\<lparr>ra_offset := ra_offset a + record_len\<rparr>))))"
  by pat_completeness auto
termination
  by (relation "measure (\<lambda>(crc, bs, a). length bs - ra_offset a)")
    (auto dest: encoded_record_len_positive)

declare recover_loop.simps [simp del]

definition recover :: "(bytes \<Rightarrow> u32) \<Rightarrow> bytes \<Rightarrow> engine_error + recovery" where
  "recover crc file =
     res_bind (recover_loop crc (drop STORE_HEADER_LEN file) recovery_start) (\<lambda>a.
       Inr \<lparr>rec_state = ra_state a, rec_max_tx_id = ra_max_tx_id a,
            rec_max_sequence = ra_max_sequence a,
            rec_valid_end = of_nat (STORE_HEADER_LEN + ra_offset a),
            rec_records = ra_records a,
            rec_committed_transactions = of_nat (length (ra_committed a)),
            rec_pending_transactions = of_nat (length (ra_pending a))\<rparr>)"

definition next_counter :: "u64 \<Rightarrow> engine_error + u64" where
  "next_counter m = (if m = 0 then Inr 1 else ok_or ECounterExhausted (checked_add m 1))"

section \<open>Payload round trips\<close>

lemma decode_put_encode:
  assumes "encode_put k v = Inr p"
  shows "decode_put p = Inr (OpPut k v)"
proof -
  obtain l where l: "u32_try_from_len (length k) = Some l" and p: "p = to_le l @ k @ v"
    using assms by (auto simp: encode_put_def split: option.splits)
  note len = u32_try_from_len_Some [OF l]
  have "usize_checked_add 4 (unat l) = Some (4 + length k)"
    using len(1,2) by (simp add: usize_checked_add_def)
  then show ?thesis
    unfolding p by (simp add: decode_put_def slice_def)
qed

lemma decode_delete_encode:
  assumes "encode_delete k = Inr p"
  shows "decode_delete p = Inr (OpDelete k)"
proof -
  obtain l where l: "u32_try_from_len (length k) = Some l" and p: "p = to_le l @ k"
    using assms by (auto simp: encode_delete_def split: option.splits)
  show ?thesis
    unfolding p using u32_try_from_len_Some [OF l] by (simp add: decode_delete_def)
qed

lemma apply_operations_simps [simp]:
  "apply_operations st [] = st"
  "apply_operations st (op # ops) = apply_operations (apply_operation op st) ops"
  "apply_operations st (xs @ ys) = apply_operations (apply_operations st xs) ys"
  by (simp_all add: apply_operations_def)

lemma wf_map_apply_operation [simp]: "wf_map st \<Longrightarrow> wf_map (apply_operation op st)"
  by (cases op) simp_all

lemma wf_map_apply_operations [simp]: "wf_map st \<Longrightarrow> wf_map (apply_operations st ops)"
  by (induction ops arbitrary: st) simp_all

lemma map_of_apply_other:
  "k \<notin> op_key ` set ops \<Longrightarrow> map_of (apply_operations st ops) k = map_of st k"
proof (induction ops arbitrary: st)
  case Nil
  then show ?case by simp
next
  case (Cons op ops)
  then show ?case by (cases op) auto
qed

section \<open>Recovery is a fold over the records of the file\<close>

text \<open>Specification side: the bytes of a list of records, and the fold of the loop body.\<close>

primrec encode_log :: "(bytes \<Rightarrow> u32) \<Rightarrow> log_record list \<Rightarrow> log_error + bytes" where
  "encode_log crc [] = Inr []"
| "encode_log crc (r # rs) =
     res_bind (record_encode crc r) (\<lambda>b. res_bind (encode_log crc rs) (\<lambda>bs. Inr (b @ bs)))"

definition record_size :: "log_record \<Rightarrow> usize" where
  "record_size r = HEADER_LEN + length (lr_payload r) + 4"

primrec replay :: "log_record list \<Rightarrow> recovery_acc \<Rightarrow> engine_error + recovery_acc" where
  "replay [] a = Inr a"
| "replay (r # rs) a =
     res_bind (recover_record r a) (\<lambda>a'. replay rs (a'\<lparr>ra_offset := ra_offset a + record_size r\<rparr>))"

text \<open>What a crash can leave after the last complete record.\<close>

definition torn :: "(bytes \<Rightarrow> u32) \<Rightarrow> bytes \<Rightarrow> bool" where
  "torn crc tail \<longleftrightarrow> tail = [] \<or>
     (\<exists>r b n. record_encode crc r = Inr b \<and> n < length b \<and> tail = take n b)"

lemma torn_Nil [simp]: "torn crc []"
  by (simp add: torn_def)

lemma record_encode_size: "record_encode crc r = Inr b \<Longrightarrow> length b = record_size r"
  by (simp add: record_encode_length record_size_def)

lemma record_size_pos: "HEADER_LEN < record_size r"
  by (simp add: record_size_def)

lemma encode_log_append:
  "encode_log crc (rs @ qs) =
     res_bind (encode_log crc rs) (\<lambda>a. res_bind (encode_log crc qs) (\<lambda>b. Inr (a @ b)))"
  by (induction rs) (auto simp: res_bind_def split: sum.splits)

lemma replay_append: "replay (rs @ qs) a = res_bind (replay rs a) (replay qs)"
  by (induction rs arbitrary: a) (auto simp: res_bind_def split: sum.splits)

lemma replay_prefix:
  assumes "replay rs a = Inr a'"
  shows "\<exists>b. replay (take k rs) a = Inr b"
proof -
  have "replay (take k rs @ drop k rs) a = Inr a'" using assms by simp
  then show ?thesis unfolding replay_append by (auto simp: res_bind_Inr_iff)
qed

definition record_op :: "log_record \<Rightarrow> operation option" where
  "record_op r = (case lr_kind r of
      RPut \<Rightarrow> (case decode_put (lr_payload r) of Inl _ \<Rightarrow> None | Inr op \<Rightarrow> Some op)
    | RDelete \<Rightarrow> (case decode_delete (lr_payload r) of Inl _ \<Rightarrow> None | Inr op \<Rightarrow> Some op)
    | RCommit \<Rightarrow> None)"

lemma recover_record_Inr:
  assumes "recover_record r a = Inr a'"
  shows "lr_tx_id r \<notin> set (ra_committed a)"
    and "ra_max_sequence a < lr_sequence r \<or> ra_max_sequence a = 0"
    and "ra_max_sequence a' = lr_sequence r"
    and "ra_max_tx_id a' = max (ra_max_tx_id a) (lr_tx_id r)"
    and "checked_add (ra_records a) 1 = Some (ra_records a')"
    and "ra_offset a' = ra_offset a"
    and "lr_kind r = RCommit \<Longrightarrow>
      ra_state a' = apply_operations (ra_state a) (pending_ops a (lr_tx_id r)) \<and>
      ra_pending a' = AList.delete (lr_tx_id r) (ra_pending a) \<and>
      ra_committed a' = List.insert (lr_tx_id r) (ra_committed a)"
    and "lr_kind r \<noteq> RCommit \<Longrightarrow>
      ra_state a' = ra_state a \<and> ra_committed a' = ra_committed a \<and>
      (\<exists>op. record_op r = Some op \<and>
        ra_pending a' = AList.update (lr_tx_id r) (pending_ops a (lr_tx_id r) @ [op]) (ra_pending a))"
  using assms
  by (cases "lr_kind r";
      auto simp: recover_record_def res_bind_Inr_iff ok_or_Inr_iff Let_def push_pending_def
        pending_ops_def record_op_def split: if_splits)+

lemma replay_offset:
  "replay rs a = Inr a' \<Longrightarrow> ra_offset a' = ra_offset a + sum_list (map record_size rs)"
  by (induction rs arbitrary: a) (fastforce simp: res_bind_Inr_iff)+

lemma encode_log_length:
  "encode_log crc rs = Inr bs \<Longrightarrow> length bs = sum_list (map record_size rs)"
  by (induction rs arbitrary: bs) (auto simp: res_bind_Inr_iff record_encode_size)

text \<open>At a torn tail the loop stops without an error.\<close>

lemma recover_loop_torn:
  assumes "torn crc tail" and "ra_offset a = length pre"
  shows "recover_loop crc (pre @ tail) a = Inr a"
proof (cases "length tail < HEADER_LEN")
  case True
  then show ?thesis using assms(2) by (simp add: recover_loop.simps)
next
  case False
  then obtain r b n where b: "record_encode crc r = Inr b" "n < length b" "tail = take n b"
    using assms(1) by (auto simp: torn_def HEADER_LEN_def)
  have n: "HEADER_LEN \<le> n" using False b by simp
  have "encoded_record_len_from_prefix tail = Inr (length b)"
    unfolding b(3) by (rule encoded_len_of_partial_record [OF b(1) n])
  then show ?thesis using assms(2) b False by (simp add: recover_loop.simps)
qed

text \<open>At a complete record the loop performs one step.\<close>

lemma recover_loop_step:
  assumes b: "record_encode crc r = Inr b" and off: "ra_offset a = length pre"
  shows "recover_loop crc (pre @ b @ rest) a =
    (case recover_record r a of Inl e \<Rightarrow> Inl e
     | Inr a' \<Rightarrow> recover_loop crc (pre @ b @ rest) (a'\<lparr>ra_offset := ra_offset a + length b\<rparr>))"
proof -
  have lb: "length b = record_size r" by (rule record_encode_size [OF b])
  have "HEADER_LEN < length b" using lb record_size_pos [of r] by simp
  moreover have "encoded_record_len_from_prefix (b @ rest) = Inr (length b)"
    by (rule encoded_len_of_record [OF b])
  moreover have "record_decode crc b = Inr r" by (rule record_decode_encode [OF b])
  ultimately show ?thesis
    by (subst recover_loop.simps) (auto simp: off split: sum.split)
qed

theorem recover_loop_replay:
  assumes "encode_log crc rs = Inr bs" and "torn crc tail" and "ra_offset a = length pre"
  shows "recover_loop crc (pre @ bs @ tail) a = replay rs a"
  using assms
proof (induction rs arbitrary: a pre bs)
  case Nil
  then show ?case by (simp add: recover_loop_torn)
next
  case (Cons r rs)
  from Cons.prems(1) obtain b bs' where b: "record_encode crc r = Inr b"
    and bs': "encode_log crc rs = Inr bs'" and bs: "bs = b @ bs'"
    by (auto simp: res_bind_Inr_iff)
  have lb: "length b = record_size r" by (rule record_encode_size [OF b])
  have "recover_loop crc (pre @ b @ bs' @ tail) (a'\<lparr>ra_offset := ra_offset a + length b\<rparr>)
      = replay rs (a'\<lparr>ra_offset := ra_offset a + record_size r\<rparr>)" for a'
    using Cons.IH [OF bs' Cons.prems(2), of "a'\<lparr>ra_offset := ra_offset a + length b\<rparr>" "pre @ b"]
      Cons.prems(3) lb by simp
  then show ?case
    unfolding bs using recover_loop_step [OF b Cons.prems(3), of "bs' @ tail"]
    by (simp add: res_bind_def split: sum.split)
qed

text \<open>Cutting the log at any byte leaves the encoding of a prefix of its records and a torn
  tail.\<close>

lemma encode_log_take:
  assumes "encode_log crc rs = Inr bs"
  shows "\<exists>k bs' tail. k \<le> length rs \<and> encode_log crc (take k rs) = Inr bs' \<and> torn crc tail \<and>
    take n bs = bs' @ tail \<and> (k < length rs \<longrightarrow> n < length bs' + record_size (rs ! k))"
  using assms
proof (induction rs arbitrary: bs n)
  case Nil
  then show ?case by simp
next
  case (Cons r rs)
  from Cons.prems obtain b cs where b: "record_encode crc r = Inr b"
    and cs: "encode_log crc rs = Inr cs" and bs: "bs = b @ cs"
    by (auto simp: res_bind_Inr_iff)
  have lb: "length b = record_size r" by (rule record_encode_size [OF b])
  show ?case
  proof (cases "n < length b")
    case True
    then have "torn crc (take n b)" using b by (auto simp: torn_def)
    then show ?thesis using True lb unfolding bs
      by (intro exI [of _ 0] exI [of _ "[]"] exI [of _ "take n b"]) simp
  next
    case False
    obtain k bs' tail where k: "k \<le> length rs" "encode_log crc (take k rs) = Inr bs'"
      "torn crc tail" "take (n - length b) cs = bs' @ tail"
      "k < length rs \<longrightarrow> n - length b < length bs' + record_size (rs ! k)"
      using Cons.IH [OF cs, of "n - length b"] by blast
    have "take n bs = (b @ bs') @ tail" unfolding bs using False k(4) by simp
    moreover have "encode_log crc (take (Suc k) (r # rs)) = Inr (b @ bs')"
      using b k(2) by simp
    moreover have "Suc k < length (r # rs) \<longrightarrow> n < length (b @ bs') + record_size ((r # rs) ! Suc k)"
      using k(5) False by auto
    ultimately show ?thesis using k(1,3)
      by (intro exI [of _ "Suc k"] exI [of _ "b @ bs'"] exI [of _ tail]) simp
  qed
qed

lemma encode_log_take_Inr:
  assumes "encode_log crc rs = Inr bs"
  shows "\<exists>b. encode_log crc (take k rs) = Inr b"
proof -
  have "encode_log crc (take k rs @ drop k rs) = Inr bs" using assms by simp
  then show ?thesis unfolding encode_log_append by (auto simp: res_bind_Inr_iff)
qed

lemma encode_log_prefix_length:
  assumes "encode_log crc rs = Inr bs" and "j \<le> k" and "k \<le> length rs"
    and "encode_log crc (take j rs) = Inr bj" and "encode_log crc (take k rs) = Inr bk"
  shows "length bj \<le> length bk"
proof -
  have "take k rs = take j rs @ drop j (take k rs)"
    using assms(2) append_take_drop_id [of j "take k rs"] by (simp add: min_def)
  then have "encode_log crc (take j rs @ drop j (take k rs)) = Inr bk" using assms(5) by simp
  then show ?thesis using assms(4) by (auto simp: encode_log_append res_bind_Inr_iff)
qed

text \<open>The prefix a cut at \<open>n\<close> leaves contains every record that ends before \<open>n\<close>.\<close>

lemma cut_keeps_prefix:
  assumes bs: "encode_log crc rs = Inr bs" and k: "k \<le> length rs"
    and bk: "encode_log crc (take k rs) = Inr bk"
    and max: "k < length rs \<longrightarrow> n < length bk + record_size (rs ! k)"
    and bj: "encode_log crc (take j rs) = Inr bj" and j: "j \<le> length rs" and n: "length bj \<le> n"
  shows "j \<le> k"
proof (rule ccontr)
  assume "\<not> j \<le> k"
  then have kj: "Suc k \<le> j" and kl: "k < length rs" using j by auto
  have "take (Suc k) rs = take k rs @ [rs ! k]" using kl by (simp add: take_Suc_conv_app_nth)
  moreover obtain b1 where b1: "encode_log crc (take (Suc k) rs) = Inr b1"
    using encode_log_take_Inr [OF bs] by blast
  ultimately have "length b1 = length bk + record_size (rs ! k)"
    using bk encode_log_length [OF b1] encode_log_length [OF bk] by simp
  moreover have "length b1 \<le> length bj"
    using encode_log_prefix_length [OF bs kj j b1 bj] .
  ultimately show False using max kl n by simp
qed

section \<open>What replay computes\<close>

text \<open>The reading of a log that its users rely on: a commit record makes the operations that its
  transaction logged before it visible, in order, and nothing else does.\<close>

definition logged_ops :: "u64 \<Rightarrow> log_record list \<Rightarrow> operation list" where
  "logged_ops t rs = List.map_filter record_op (filter (\<lambda>r. lr_tx_id r = t) rs)"

fun committed_state_rev :: "log_record list \<Rightarrow> kv" where
  "committed_state_rev [] = []"
| "committed_state_rev (r # rs) =
     (if lr_kind r = RCommit
      then apply_operations (committed_state_rev rs) (logged_ops (lr_tx_id r) (rev rs))
      else committed_state_rev rs)"

definition committed_state :: "log_record list \<Rightarrow> kv" where
  "committed_state rs = committed_state_rev (rev rs)"

definition committed_ids :: "log_record list \<Rightarrow> u64 set" where
  "committed_ids rs = lr_tx_id ` {r \<in> set rs. lr_kind r = RCommit}"

lemma logged_ops_snoc:
  "logged_ops t (rs @ [r]) =
     logged_ops t rs @ (if lr_tx_id r = t then (case record_op r of None \<Rightarrow> [] | Some op \<Rightarrow> [op]) else [])"
  by (simp add: logged_ops_def List.map_filter_def split: option.split)

lemma committed_state_snoc:
  "committed_state (rs @ [r]) =
     (if lr_kind r = RCommit then apply_operations (committed_state rs) (logged_ops (lr_tx_id r) rs)
      else committed_state rs)"
  by (simp add: committed_state_def)

text \<open>What is known of the accumulator after the records \<open>rs\<close>.\<close>

definition replay_inv :: "log_record list \<Rightarrow> recovery_acc \<Rightarrow> bool" where
  "replay_inv rs a \<longleftrightarrow>
     ra_state a = committed_state rs \<and>
     set (ra_committed a) = committed_ids rs \<and>
     (\<forall>t. t \<notin> committed_ids rs \<longrightarrow> pending_ops a t = logged_ops t rs) \<and>
     (\<forall>t \<in> dom (map_of (ra_pending a)). t \<in> lr_tx_id ` set rs) \<and>
     (\<forall>r \<in> set rs. lr_tx_id r \<le> ra_max_tx_id a)"

lemma logged_ops_not_commit:
  assumes "t \<notin> lr_tx_id ` set rs"
  shows "logged_ops t rs = []"
proof -
  have "filter (\<lambda>r. lr_tx_id r = t) rs = []" using assms by (auto simp: filter_empty_conv)
  then show ?thesis by (simp add: logged_ops_def List.map_filter_def)
qed

lemma pending_ops_of_pending:
  "ra_pending a' = AList.update t ops (ra_pending a) \<Longrightarrow>
     pending_ops a' u = (if u = t then ops else pending_ops a u)"
  "ra_pending a' = AList.delete t (ra_pending a) \<Longrightarrow>
     pending_ops a' u = (if u = t then [] else pending_ops a u)"
  by (simp_all add: pending_ops_def)

lemma committed_ids_snoc:
  "committed_ids (rs @ [r]) =
     (if lr_kind r = RCommit then insert (lr_tx_id r) (committed_ids rs) else committed_ids rs)"
  by (auto simp: committed_ids_def)

lemma replay_inv_start: "replay_inv [] recovery_start"
  by (simp add: replay_inv_def recovery_start_def committed_state_def committed_ids_def
      pending_ops_def logged_ops_def List.map_filter_def)

lemma replay_inv_step:
  assumes inv: "replay_inv rs a" and rr: "recover_record r a = Inr a'"
  shows "replay_inv (rs @ [r]) a'"
proof (cases "lr_kind r = RCommit")
  case True
  let ?t = "lr_tx_id r"
  note R = recover_record_Inr(1,4) [OF rr] recover_record_Inr(7) [OF rr True]
  have rop: "record_op r = None" using True by (simp add: record_op_def)
  have "pending_ops a ?t = logged_ops ?t rs" using inv R(1) by (simp add: replay_inv_def)
  then show ?thesis
    using inv R True rop
    by (auto simp: replay_inv_def committed_state_snoc committed_ids_snoc logged_ops_snoc
        pending_ops_of_pending(2) le_max_iff_disj)
next
  case False
  note R = recover_record_Inr(1,4) [OF rr] recover_record_Inr(8) [OF rr False]
  obtain op where rop: "record_op r = Some op"
    and pend: "ra_pending a' = AList.update (lr_tx_id r) (pending_ops a (lr_tx_id r) @ [op]) (ra_pending a)"
    using R(3) by blast
  show ?thesis
    using inv R False rop pend
    by (auto simp: replay_inv_def committed_state_snoc committed_ids_snoc logged_ops_snoc
        pending_ops_of_pending(1) [OF pend] le_max_iff_disj)
qed

lemma replay_inv_offset: "replay_inv rs (a\<lparr>ra_offset := n\<rparr>) = replay_inv rs a"
  by (simp add: replay_inv_def pending_ops_def)

theorem replay_meets_spec: "replay rs recovery_start = Inr a \<Longrightarrow> replay_inv rs a"
proof (induction rs arbitrary: a rule: rev_induct)
  case Nil
  then show ?case by (simp add: replay_inv_start)
next
  case (snoc r rs)
  from snoc.prems obtain b a' where b: "replay rs recovery_start = Inr b"
    and a': "recover_record r b = Inr a'" and a: "a = a'\<lparr>ra_offset := ra_offset b + record_size r\<rparr>"
    by (auto simp: replay_append res_bind_Inr_iff)
  have "replay_inv (rs @ [r]) a'" by (rule replay_inv_step [OF snoc.IH [OF b] a'])
  then show ?case unfolding a by (simp only: replay_inv_offset)
qed

text \<open>Record counts stay below the sequence number, which is why the count never overflows.\<close>

definition counters_inv :: "recovery_acc \<Rightarrow> bool" where
  "counters_inv a \<longleftrightarrow> unat (ra_records a) \<le> unat (ra_max_sequence a)"

lemma counters_inv_replay:
  "replay rs recovery_start = Inr a \<Longrightarrow> (\<forall>r \<in> set rs. lr_sequence r \<noteq> 0) \<Longrightarrow> counters_inv a"
proof (induction rs arbitrary: a rule: rev_induct)
  case Nil
  then show ?case by (auto simp: recovery_start_def counters_inv_def)
next
  case (snoc r rs)
  from snoc.prems obtain b a' where b: "replay rs recovery_start = Inr b"
    and a': "recover_record r b = Inr a'" and a: "a = a'\<lparr>ra_offset := ra_offset b + record_size r\<rparr>"
    by (auto simp: replay_append res_bind_Inr_iff)
  have IH: "unat (ra_records b) \<le> unat (ra_max_sequence b)"
    using snoc.IH [OF b] snoc.prems(2) by (simp add: counters_inv_def)
  have n: "unat (ra_records a') = unat (ra_records b) + 1"
    using checked_add_Some(1) [OF recover_record_Inr(5) [OF a']] by simp
  have "unat (ra_max_sequence b) < unat (lr_sequence r)"
    using recover_record_Inr(2) [OF a'] snoc.prems(2)
    by (auto simp: word_less_nat_alt unat_gt_0)
  then show ?case
    using IH n recover_record_Inr(3) [OF a'] unfolding a by (simp add: counters_inv_def)
qed

end
