(* ===== verification/Change_Record.thy ===== *)
theory Change_Record
  imports Recovery
begin

text \<open>
  The change-data-capture record format (\<open>crates/voodoo-store-core/src/cdc.rs\<close>: \<open>ChangeRecord\<close>,
  \<open>change_key\<close>, \<open>encode_change\<close>, \<open>decode_change\<close>, \<open>Cursor\<close>). The engine writes these records
  on commit; the feed that reads them is in \<open>Change_Feed\<close>.
\<close>

section \<open>Model\<close>

definition INTERNAL_KEY_PREFIX :: bytes where
  "INTERNAL_KEY_PREFIX = 0xff # ascii ''vds:''"

definition CDC_PREFIX :: bytes where
  "CDC_PREFIX = 0xff # ascii ''vds:cdc:change:''"

definition CDC_VERSION :: u8 where
  "CDC_VERSION = 1"

datatype change_kind = ChangePut | ChangeDelete

fun change_kind_u8 :: "change_kind \<Rightarrow> u8" where
  "change_kind_u8 ChangePut = 0"
| "change_kind_u8 ChangeDelete = 1"

record change_record =
  ch_tx_id :: u64
  ch_sequence :: u32
  ch_kind :: change_kind
  ch_key :: bytes
  ch_value_len :: "u64 option"
  ch_value_sha256 :: "bytes option"

datatype change_feed_error =
    CfStore engine_error
  | CfCorruptRecord
  | CfFieldTooLarge

definition map_cdc_error :: "change_feed_error \<Rightarrow> engine_error" where
  "map_cdc_error e = (case e of CfStore e' \<Rightarrow> e'
     | CfCorruptRecord \<Rightarrow> EInvalidOperationPayload
     | CfFieldTooLarge \<Rightarrow> EInvalidOperationPayload)"

definition change_tx_prefix :: "u64 \<Rightarrow> bytes" where
  "change_tx_prefix t = CDC_PREFIX @ to_be t"

definition change_key :: "u64 \<Rightarrow> u32 \<Rightarrow> bytes" where
  "change_key t q = change_tx_prefix t @ to_be q"

definition encode_change :: "change_record \<Rightarrow> change_feed_error + bytes" where
  "encode_change c =
     (case u32_try_from_len (length (ch_key c)) of
        None \<Rightarrow> Inl CfFieldTooLarge
      | Some key_len \<Rightarrow>
          let out = [CDC_VERSION] @ to_le (ch_tx_id c) @ to_le (ch_sequence c) @
                    [change_kind_u8 (ch_kind c)] @ to_le key_len @ ch_key c
          in case (ch_value_len c, ch_value_sha256 c) of
               (Some len, Some hash) \<Rightarrow> Inr (out @ [1] @ to_le len @ hash)
             | (None, None) \<Rightarrow> Inr (out @ [0])
             | _ \<Rightarrow> Inl CfCorruptRecord)"

definition rd_change_kind :: "(change_feed_error, change_kind) reader" where
  "rd_change_kind = rd_bind (rd_u8 CfCorruptRecord) (\<lambda>k.
     if k = 0 then rd_return ChangePut
     else if k = 1 then rd_return ChangeDelete
     else rd_fail CfCorruptRecord)"

definition rd_change_value ::
  "change_kind \<Rightarrow> (change_feed_error, u64 option \<times> bytes option) reader" where
  "rd_change_value kind = rd_bind (rd_u8 CfCorruptRecord) (\<lambda>tag.
     if tag = 0 \<and> kind = ChangeDelete then rd_return (None, None)
     else if tag = 1 \<and> kind = ChangePut then
       rd_bind (rd_u64 CfCorruptRecord) (\<lambda>len.
       rd_bind (rd_take CfCorruptRecord 32) (\<lambda>hash. rd_return (Some len, Some hash)))
     else rd_fail CfCorruptRecord)"

definition decode_change :: "bytes \<Rightarrow> change_feed_error + change_record" where
  "decode_change encoded =
     res_bind
       (rd_bind (rd_u8 CfCorruptRecord) (\<lambda>v.
        if v \<noteq> CDC_VERSION then rd_fail CfCorruptRecord
        else rd_bind (rd_u64 CfCorruptRecord) (\<lambda>tx.
        rd_bind (rd_u32 CfCorruptRecord) (\<lambda>sequence.
        rd_bind rd_change_kind (\<lambda>kind.
        rd_bind (rd_bytes CfCorruptRecord) (\<lambda>key.
        rd_bind (rd_change_value kind) (\<lambda>(value_len, value_sha256).
        rd_return \<lparr>ch_tx_id = tx, ch_sequence = sequence, ch_kind = kind, ch_key = key,
                   ch_value_len = value_len, ch_value_sha256 = value_sha256\<rparr>)))))) encoded)
       (\<lambda>(c, rest). if rest \<noteq> [] then Inl CfCorruptRecord else Inr c)"

section \<open>Round trip\<close>

text \<open>The records that \<open>stage_changes\<close> builds: digest and length exactly for puts, and the
  digest array has 32 bytes.\<close>

definition wf_change :: "change_record \<Rightarrow> bool" where
  "wf_change c \<longleftrightarrow>
     (case ch_kind c of
        ChangePut \<Rightarrow> ch_value_len c \<noteq> None \<and> (\<exists>h. ch_value_sha256 c = Some h \<and> length h = 32)
      | ChangeDelete \<Rightarrow> ch_value_len c = None \<and> ch_value_sha256 c = None)"

lemma rd_change_kind_Cons [codec_simps]:
  "rd_change_kind (change_kind_u8 k # rest) = Inr (k, rest)"
  by (cases k) (simp_all add: rd_change_kind_def codec_simps)

lemma decode_change_encode:
  assumes wf: "wf_change c" and enc: "encode_change c = Inr bs"
  shows "decode_change bs = Inr c"
proof (cases "ch_kind c")
  case ChangePut
  with wf obtain len hash where v: "ch_value_len c = Some len" "ch_value_sha256 c = Some hash"
    "length hash = 32"
    by (auto simp: wf_change_def)
  obtain l where l: "u32_try_from_len (length (ch_key c)) = Some l"
    and bs: "bs = CDC_VERSION # to_le (ch_tx_id c) @ to_le (ch_sequence c) @
      change_kind_u8 ChangePut # to_le l @ ch_key c @ 1 # to_le len @ hash"
    using enc v ChangePut by (auto simp: encode_change_def Let_def split: option.splits)
  have "rd_change_value ChangePut (1 # to_le len @ hash) = Inr ((Some len, Some hash), [])"
    using v(3) rd_take_append [of hash 32 CfCorruptRecord "[]"]
    by (simp add: rd_change_value_def codec_simps)
  then show ?thesis
    unfolding bs using l v(1,2) ChangePut
    by (simp add: decode_change_def codec_simps del: change_kind_u8.simps)
next
  case ChangeDelete
  with wf have v: "ch_value_len c = None" "ch_value_sha256 c = None"
    by (auto simp: wf_change_def)
  obtain l where l: "u32_try_from_len (length (ch_key c)) = Some l"
    and bs: "bs = CDC_VERSION # to_le (ch_tx_id c) @ to_le (ch_sequence c) @
      change_kind_u8 ChangeDelete # to_le l @ ch_key c @ [0]"
    using enc v ChangeDelete by (auto simp: encode_change_def Let_def split: option.splits)
  have "rd_change_value ChangeDelete [0] = Inr ((None, None), [])"
    by (simp add: rd_change_value_def codec_simps)
  then show ?thesis
    unfolding bs using l v ChangeDelete
    by (simp add: decode_change_def codec_simps del: change_kind_u8.simps)
qed

interpretation change_codec: codec encode_change decode_change wf_change
  by unfold_locales (rule decode_change_encode)

section \<open>Keys\<close>

lemma change_key_prefix: "prefix CDC_PREFIX (change_key t q)" "prefix (change_tx_prefix t) (change_key t q)"
  by (simp_all add: change_key_def change_tx_prefix_def)

lemma change_key_inj [simp]: "change_key t q = change_key t' q' \<longleftrightarrow> t = t' \<and> q = q'"
  by (auto simp: change_key_def change_tx_prefix_def append_eq_append_conv)

text \<open>Scan order of the feed is transaction order, then operation order.\<close>

lemma change_key_less_iff:
  "change_key t q < change_key t' q' \<longleftrightarrow> t < t' \<or> (t = t' \<and> q < q')"
proof -
  have "to_be t @ to_be q < to_be t' @ to_be q' \<longleftrightarrow>
      to_be t < to_be t' \<or> (to_be t = to_be t' \<and> to_be q < to_be q')"
    by (rule append_less_same_length) simp
  then show ?thesis by (simp add: change_key_def change_tx_prefix_def to_be_less_iff)
qed

end
