(* ===== verification/Engine.thy ===== *)
theory Engine
  imports Change_Record
begin

text \<open>
  The storage engine (\<open>crates/voodoo-store-core/src/engine.rs\<close>): options, metrics, the \<open>Store\<close>,
  transactions with their staged view, commit with change capture (\<open>cdc.rs\<close>:
  \<open>stage_changes\<close>) and namespace quotas, opening, verification and the single-writer guard.

  The file is its contents, a byte list. The answers of the operating system (writes and syncs
  that fail, the latencies that the metrics record, entropy) are scripts in the store's
  \<open>st_os\<close> component: each call consumes the head, and an exhausted script means success
  (for entropy: unavailable). A write that fails may have written a prefix. Failures of
  \<open>metadata\<close> and \<open>seek\<close> before a write show as a failing write of zero bytes. The code outside
  the repository that the engine calls is collected in \<open>deps\<close>.
\<close>

section \<open>Parameters\<close>

text \<open>\<open>dep_crc32\<close> is \<open>crc32fast\<close>, \<open>dep_sha256\<close> is \<open>sha2\<close>, \<open>dep_hash_order\<close> is the unspecified
  order in which iterating a \<open>HashMap\<close> visits its entries.\<close>

record deps =
  dep_crc32 :: "bytes \<Rightarrow> u32"
  dep_sha256 :: "bytes \<Rightarrow> bytes"
  dep_hash_order :: "(bytes \<times> bytes option) list \<Rightarrow> (bytes \<times> bytes option) list"

datatype write_outcome = WriteOk | WriteErr usize io_kind
datatype sync_outcome = SyncOk | SyncErr io_kind

record os_script =
  os_writes :: "write_outcome list"
  os_syncs :: "sync_outcome list"
  os_timings :: "(u64 \<times> u64) list"
  os_entropy :: "bytes option list"

section \<open>Options, metrics, store\<close>

datatype durability = Strict | DataSync | Relaxed

record store_options =
  opt_durability :: durability
  opt_repair_torn_tail :: bool
  opt_max_bytes :: "u64 option"
  opt_namespace_max_bytes :: "u64 option"

definition store_options_default :: store_options where
  "store_options_default = \<lparr>opt_durability = DataSync, opt_repair_torn_tail = True,
     opt_max_bytes = None, opt_namespace_max_bytes = None\<rparr>"

record store_metrics =
  m_commits :: u64
  m_puts :: u64
  m_deletes :: u64
  m_records_appended :: u64
  m_bytes_appended :: u64
  m_recovery_records :: u64
  m_commit_latency_total_us :: u64
  m_commit_latency_max_us :: u64
  m_fsync_latency_total_us :: u64
  m_fsync_latency_max_us :: u64
  m_commit_errors :: u64
  m_queue_claims :: u64
  m_queue_acks :: u64
  m_object_puts :: u64
  m_object_bytes_written :: u64
  m_object_gc_runs :: u64
  m_object_gc_removed :: u64

definition store_metrics_default :: store_metrics where
  "store_metrics_default = \<lparr>m_commits = 0, m_puts = 0, m_deletes = 0, m_records_appended = 0,
     m_bytes_appended = 0, m_recovery_records = 0, m_commit_latency_total_us = 0,
     m_commit_latency_max_us = 0, m_fsync_latency_total_us = 0, m_fsync_latency_max_us = 0,
     m_commit_errors = 0, m_queue_claims = 0, m_queue_acks = 0, m_object_puts = 0,
     m_object_bytes_written = 0, m_object_gc_runs = 0, m_object_gc_removed = 0\<rparr>"

record store =
  st_file :: bytes
  st_header :: store_header
  st_options :: store_options
  st_state :: kv
  st_next_tx_id :: u64
  st_next_sequence :: u64
  st_metrics :: store_metrics
  st_os :: os_script

definition record_queue_claim :: "store \<Rightarrow> store" where
  "record_queue_claim s = s\<lparr>st_metrics := (st_metrics s)
     \<lparr>m_queue_claims := saturating_add (m_queue_claims (st_metrics s)) 1\<rparr>\<rparr>"

definition record_queue_ack :: "store \<Rightarrow> store" where
  "record_queue_ack s = s\<lparr>st_metrics := (st_metrics s)
     \<lparr>m_queue_acks := saturating_add (m_queue_acks (st_metrics s)) 1\<rparr>\<rparr>"

section \<open>Reads\<close>

definition store_get :: "store \<Rightarrow> bytes \<Rightarrow> bytes option" where
  "store_get s k = map_of (st_state s) k"

definition contains_key :: "store \<Rightarrow> bytes \<Rightarrow> bool" where
  "contains_key s k \<longleftrightarrow> store_get s k \<noteq> None"

definition store_len :: "store \<Rightarrow> usize" where
  "store_len s = length (st_state s)"

definition scan_prefix :: "store \<Rightarrow> bytes \<Rightarrow> kv" where
  "scan_prefix s p = scan_map p (st_state s)"

section \<open>Files\<close>

definition map_io_error :: "io_kind \<Rightarrow> engine_error" where
  "map_io_error k = (if k = StorageFull \<or> k = QuotaExceeded then EDiskFull else EIo k)"

definition write_all :: "bytes \<Rightarrow> (store, io_kind, unit) act" where
  "write_all bs s =
     (case os_writes (st_os s) of
        [] \<Rightarrow> (Inr (), s\<lparr>st_file := st_file s @ bs\<rparr>)
      | WriteOk # ws \<Rightarrow> (Inr (), s\<lparr>st_file := st_file s @ bs, st_os := (st_os s)\<lparr>os_writes := ws\<rparr>\<rparr>)
      | WriteErr n k # ws \<Rightarrow>
          (Inl k, s\<lparr>st_file := st_file s @ take n bs, st_os := (st_os s)\<lparr>os_writes := ws\<rparr>\<rparr>))"

definition sync_call :: "(store, io_kind, unit) act" where
  "sync_call s =
     (case os_syncs (st_os s) of
        [] \<Rightarrow> (Inr (), s)
      | SyncOk # ys \<Rightarrow> (Inr (), s\<lparr>st_os := (st_os s)\<lparr>os_syncs := ys\<rparr>\<rparr>)
      | SyncErr k # ys \<Rightarrow> (Inl k, s\<lparr>st_os := (st_os s)\<lparr>os_syncs := ys\<rparr>\<rparr>))"

definition sync_file :: "(store, engine_error, unit) act" where
  "sync_file s =
     (case opt_durability (st_options s) of
        Strict \<Rightarrow> act_map_err map_io_error sync_call s
      | DataSync \<Rightarrow> act_map_err map_io_error sync_call s
      | Relaxed \<Rightarrow> (Inr (), s))"

definition store_flush :: "(store, engine_error, unit) act" where
  "store_flush = sync_file"

section \<open>The append path\<close>

definition over_quota :: "store \<Rightarrow> bytes \<Rightarrow> engine_error option" where
  "over_quota s bs =
     (case opt_max_bytes (st_options s) of
        None \<Rightarrow> None
      | Some max_bytes \<Rightarrow>
          (case checked_add (of_nat (length (st_file s))) (of_nat (length bs)) of
             None \<Rightarrow> Some (EStorageQuotaExceeded max_bytes)
           | Some projected \<Rightarrow>
               if projected > max_bytes then Some (EStorageQuotaExceeded max_bytes) else None))"

definition count_append :: "record_kind \<Rightarrow> bytes \<Rightarrow> store_metrics \<Rightarrow> store_metrics" where
  "count_append kind bs m =
     (let m1 = m\<lparr>m_records_appended := saturating_add (m_records_appended m) 1,
                 m_bytes_appended := saturating_add (m_bytes_appended m) (of_nat (length bs))\<rparr>
      in case kind of
           RPut \<Rightarrow> m1\<lparr>m_puts := saturating_add (m_puts m1) 1\<rparr>
         | RDelete \<Rightarrow> m1\<lparr>m_deletes := saturating_add (m_deletes m1) 1\<rparr>
         | RCommit \<Rightarrow> m1\<lparr>m_commits := saturating_add (m_commits m1) 1\<rparr>)"

definition store_append ::
  "deps \<Rightarrow> record_kind \<Rightarrow> u64 \<Rightarrow> bytes \<Rightarrow> (store, engine_error, unit) act" where
  "store_append D kind tx payload s =
     (let sequence = st_next_sequence s
      in case checked_add sequence 1 of
           None \<Rightarrow> (Inl ECounterExhausted, s)
         | Some next \<Rightarrow>
             (let s1 = s\<lparr>st_next_sequence := next\<rparr>
              in case record_encode (dep_crc32 D) (log_record_new kind tx sequence payload) of
                   Inl e \<Rightarrow> (Inl (ELog e), s1)
                 | Inr bs \<Rightarrow>
                     (case over_quota s1 bs of
                        Some e \<Rightarrow> (Inl e, s1)
                      | None \<Rightarrow>
                          (case write_all bs s1 of
                             (Inl k, s2) \<Rightarrow> (Inl (map_io_error k), s2)
                           | (Inr _, s2) \<Rightarrow>
                               (Inr (), s2\<lparr>st_metrics := count_append kind bs (st_metrics s2)\<rparr>)))))"

section \<open>Transactions\<close>

record transaction =
  tx_store :: store
  tx_id :: u64
  tx_operations :: "operation list"
  tx_emit_cdc :: bool
  tx_finished :: bool

definition begin_with_cdc :: "bool \<Rightarrow> store \<Rightarrow> (engine_error + transaction) \<times> store" where
  "begin_with_cdc emit s =
     (let t = st_next_tx_id s
      in case checked_add t 1 of
           None \<Rightarrow> (Inl ECounterExhausted, s)
         | Some next \<Rightarrow>
             (let s1 = s\<lparr>st_next_tx_id := next\<rparr>
              in (Inr \<lparr>tx_store = s1, tx_id = t, tx_operations = [], tx_emit_cdc = emit,
                       tx_finished = False\<rparr>, s1)))"

definition ensure_user_key :: "bytes \<Rightarrow> engine_error + unit" where
  "ensure_user_key k = (if prefix INTERNAL_KEY_PREFIX k then Inl EReservedKey else Inr ())"

definition ensure_open :: "transaction \<Rightarrow> engine_error + unit" where
  "ensure_open t = (if tx_finished t then Inl ETransactionFinished else Inr ())"

text \<open>Common tail of \<open>put_internal\<close> and \<open>delete_internal\<close>: append the record, then stage the
  operation.\<close>

definition tx_stage ::
  "deps \<Rightarrow> record_kind \<Rightarrow> bytes \<Rightarrow> operation \<Rightarrow> (transaction, engine_error, unit) act" where
  "tx_stage D kind payload op t =
     (case store_append D kind (tx_id t) payload (tx_store t) of
        (Inl e, s) \<Rightarrow> (Inl e, t\<lparr>tx_store := s\<rparr>)
      | (Inr _, s) \<Rightarrow> (Inr (), t\<lparr>tx_store := s, tx_operations := tx_operations t @ [op]\<rparr>))"

definition tx_put_internal ::
  "deps \<Rightarrow> bytes \<Rightarrow> bytes \<Rightarrow> (transaction, engine_error, unit) act" where
  "tx_put_internal D k v t =
     (case ensure_open t of
        Inl e \<Rightarrow> (Inl e, t)
      | Inr _ \<Rightarrow> (case encode_put k v of
                    Inl e \<Rightarrow> (Inl e, t)
                  | Inr payload \<Rightarrow> tx_stage D RPut payload (OpPut k v) t))"

definition tx_delete_internal :: "deps \<Rightarrow> bytes \<Rightarrow> (transaction, engine_error, unit) act" where
  "tx_delete_internal D k t =
     (case ensure_open t of
        Inl e \<Rightarrow> (Inl e, t)
      | Inr _ \<Rightarrow> (case encode_delete k of
                    Inl e \<Rightarrow> (Inl e, t)
                  | Inr payload \<Rightarrow> tx_stage D RDelete payload (OpDelete k) t))"

definition tx_put :: "deps \<Rightarrow> bytes \<Rightarrow> bytes \<Rightarrow> (transaction, engine_error, unit) act" where
  "tx_put D k v = act_bind (act_lift (ensure_user_key k)) (\<lambda>_. tx_put_internal D k v)"

definition tx_delete :: "deps \<Rightarrow> bytes \<Rightarrow> (transaction, engine_error, unit) act" where
  "tx_delete D k = act_bind (act_lift (ensure_user_key k)) (\<lambda>_. tx_delete_internal D k)"

text \<open>The staged view: the most recent staged mutation wins.\<close>

fun staged_lookup :: "operation list \<Rightarrow> bytes \<Rightarrow> bytes option \<Rightarrow> bytes option" where
  "staged_lookup [] k committed = committed"
| "staged_lookup (OpPut k' v # ops) k committed =
     (if k' = k then Some v else staged_lookup ops k committed)"
| "staged_lookup (OpDelete k' # ops) k committed =
     (if k' = k then None else staged_lookup ops k committed)"

definition tx_get_internal :: "transaction \<Rightarrow> bytes \<Rightarrow> bytes option" where
  "tx_get_internal t k = staged_lookup (rev (tx_operations t)) k (store_get (tx_store t) k)"

definition overlay :: "bytes \<Rightarrow> operation list \<Rightarrow> kv \<Rightarrow> kv" where
  "overlay p ops m = fold (\<lambda>op m. if prefix p (op_key op) then apply_operation op m else m) ops m"

definition tx_scan_prefix_internal :: "transaction \<Rightarrow> bytes \<Rightarrow> kv" where
  "tx_scan_prefix_internal t p =
     sort_key fst (overlay p (tx_operations t) (scan_prefix (tx_store t) p))"

definition tx_rollback :: "transaction \<Rightarrow> (engine_error + unit) \<times> store" where
  "tx_rollback t = (ensure_open t, tx_store t)"

section \<open>Namespace quotas\<close>

text \<open>\<open>String::from_utf8_lossy\<close> as a list of code points: every maximal ill-formed subsequence
  becomes one U+FFFD.\<close>

definition is_cont :: "byte \<Rightarrow> bool" where
  "is_cont b \<longleftrightarrow> 0x80 \<le> b \<and> b \<le> 0xBF"

definition second_ok :: "byte \<Rightarrow> byte \<Rightarrow> bool" where
  "second_ok b c \<longleftrightarrow>
     (if b = 0xE0 then 0xA0 \<le> c \<and> c \<le> 0xBF
      else if b = 0xED then 0x80 \<le> c \<and> c \<le> 0x9F
      else if b = 0xF0 then 0x90 \<le> c \<and> c \<le> 0xBF
      else if b = 0xF4 then 0x80 \<le> c \<and> c \<le> 0x8F
      else is_cont c)"

definition seq_len :: "byte \<Rightarrow> nat" where
  "seq_len b = (if b < 0x80 then 1 else if 0xC2 \<le> b \<and> b \<le> 0xDF then 2
     else if 0xE0 \<le> b \<and> b \<le> 0xEF then 3 else if 0xF0 \<le> b \<and> b \<le> 0xF4 then 4 else 0)"

text \<open>How many bytes the sequence starting with \<open>b\<close> keeps of what follows.\<close>

definition seq_take :: "byte \<Rightarrow> bytes \<Rightarrow> nat" where
  "seq_take b cs =
     (if seq_len b \<le> 1 then 0
      else case cs of
             [] \<Rightarrow> 0
           | c # ds \<Rightarrow>
               if second_ok b c then 1 + length (takeWhile is_cont (take (seq_len b - 2) ds)) else 0)"

definition code_point :: "byte \<Rightarrow> bytes \<Rightarrow> nat" where
  "code_point b cs =
     foldl (\<lambda>acc c. acc * 64 + unat c mod 64) (unat b mod (2 ^ (7 - length cs - of_bool (cs \<noteq> []))))  cs"

function from_utf8_lossy :: "bytes \<Rightarrow> nat list" where
  "from_utf8_lossy [] = []"
| "from_utf8_lossy (b # cs) =
     (let n = seq_take b cs
      in (if seq_len b = Suc n then code_point b (take n cs) else 0xFFFD)
         # from_utf8_lossy (drop n cs))"
  by pat_completeness auto
termination
  by (relation "measure length") auto

definition namespace_for_key :: "bytes \<Rightarrow> nat list" where
  "namespace_for_key k =
     (if prefix INTERNAL_KEY_PREFIX k
      then let rest = drop (length INTERNAL_KEY_PREFIX) k;
               segment = takeWhile (\<lambda>b. b \<noteq> 0x3A) rest
           in map of_char ''internal:'' @ from_utf8_lossy segment
      else map of_char ''user'')"

type_synonym ns_totals = "(nat list \<times> u64) list"

definition total_of :: "ns_totals \<Rightarrow> nat list \<Rightarrow> u64" where
  "total_of tot n = (case map_of tot n of None \<Rightarrow> 0 | Some v \<Rightarrow> v)"

fun quota_totals :: "kv \<Rightarrow> ns_totals \<Rightarrow> engine_error + ns_totals" where
  "quota_totals [] tot = Inr tot"
| "quota_totals ((k, v) # m) tot =
     (let n = namespace_for_key k
      in case checked_add (total_of tot n) (of_nat (length v)) of
           None \<Rightarrow> Inl ENamespaceQuotaOverflow
         | Some tot1 \<Rightarrow> quota_totals m (AList.update n tot1 tot))"

fun final_value :: "operation \<Rightarrow> (bytes \<times> bytes option) list \<Rightarrow> (bytes \<times> bytes option) list" where
  "final_value (OpPut k v) m = AList.update k (Some v) m"
| "final_value (OpDelete k) m = AList.update k None m"

definition final_values :: "operation list \<Rightarrow> (bytes \<times> bytes option) list" where
  "final_values ops = fold final_value ops []"

fun quota_check ::
  "u64 \<Rightarrow> kv \<Rightarrow> (bytes \<times> bytes option) list \<Rightarrow> ns_totals \<Rightarrow> engine_error + unit" where
  "quota_check max_bytes st [] tot = Inr ()"
| "quota_check max_bytes st ((k, value) # rest) tot =
     (let n = namespace_for_key k;
          total0 = total_of tot n;
          total1 = (case map_of st k of
                      Some previous \<Rightarrow> saturating_sub total0 (of_nat (length previous))
                    | None \<Rightarrow> total0)
      in case (case value of Some v \<Rightarrow> checked_add total1 (of_nat (length v)) | None \<Rightarrow> Some total1) of
           None \<Rightarrow> Inl ENamespaceQuotaOverflow
         | Some total2 \<Rightarrow>
             if total2 > max_bytes then Inl (ENamespaceQuotaExceeded n max_bytes)
             else quota_check max_bytes st rest (AList.update n total2 tot))"

definition check_namespace_quota :: "deps \<Rightarrow> store \<Rightarrow> operation list \<Rightarrow> engine_error + unit" where
  "check_namespace_quota D s ops =
     (case opt_namespace_max_bytes (st_options s) of
        None \<Rightarrow> Inr ()
      | Some max_bytes \<Rightarrow>
          res_bind (quota_totals (st_state s) []) (\<lambda>tot.
            quota_check max_bytes (st_state s) (dep_hash_order D (final_values ops)) tot))"

section \<open>Change capture and commit\<close>

fun change_of :: "deps \<Rightarrow> u64 \<Rightarrow> u32 \<Rightarrow> operation \<Rightarrow> change_record" where
  "change_of D t q (OpPut k v) =
     \<lparr>ch_tx_id = t, ch_sequence = q, ch_kind = ChangePut, ch_key = k,
      ch_value_len = Some (of_nat (length v)), ch_value_sha256 = Some (dep_sha256 D v)\<rparr>"
| "change_of D t q (OpDelete k) =
     \<lparr>ch_tx_id = t, ch_sequence = q, ch_kind = ChangeDelete, ch_key = k,
      ch_value_len = None, ch_value_sha256 = None\<rparr>"

fun stage_changes_from ::
  "deps \<Rightarrow> u32 \<Rightarrow> operation list \<Rightarrow> (transaction, engine_error, unit) act" where
  "stage_changes_from D q [] t = (Inr (), t)"
| "stage_changes_from D q (op # ops) t =
     (if prefix CDC_PREFIX (op_key op) then stage_changes_from D q ops t
      else
        case map_err map_cdc_error (encode_change (change_of D (tx_id t) q op)) of
          Inl e \<Rightarrow> (Inl e, t)
        | Inr encoded \<Rightarrow>
            (case tx_put_internal D (change_key (tx_id t) q) encoded t of
               (Inl e, t1) \<Rightarrow> (Inl e, t1)
             | (Inr _, t1) \<Rightarrow>
                 (case checked_add q 1 of
                    None \<Rightarrow> (Inl ECounterExhausted, t1)
                  | Some q1 \<Rightarrow> stage_changes_from D q1 ops t1)))"

definition stage_changes ::
  "deps \<Rightarrow> operation list \<Rightarrow> (transaction, engine_error, unit) act" where
  "stage_changes D = stage_changes_from D 0"

definition pop_timing :: "store \<Rightarrow> (u64 \<times> u64) \<times> store" where
  "pop_timing s =
     (case os_timings (st_os s) of
        [] \<Rightarrow> ((0, 0), s)
      | p # ps \<Rightarrow> (p, s\<lparr>st_os := (st_os s)\<lparr>os_timings := ps\<rparr>\<rparr>))"

definition count_commit :: "u64 \<Rightarrow> u64 \<Rightarrow> store_metrics \<Rightarrow> store_metrics" where
  "count_commit fsync_us elapsed_us m =
     m\<lparr>m_commit_latency_total_us := saturating_add (m_commit_latency_total_us m) elapsed_us,
       m_commit_latency_max_us := max (m_commit_latency_max_us m) elapsed_us,
       m_fsync_latency_total_us := saturating_add (m_fsync_latency_total_us m) fsync_us,
       m_fsync_latency_max_us := max (m_fsync_latency_max_us m) fsync_us\<rparr>"

text \<open>The end of \<open>commit_inner\<close>, after the commit record is on its way to the file.\<close>

definition commit_apply :: "(transaction, engine_error, unit) act" where
  "commit_apply t =
     (case sync_file (tx_store t) of
        (Inl e, s) \<Rightarrow> (Inl e, t\<lparr>tx_store := s\<rparr>)
      | (Inr _, s) \<Rightarrow>
          (case pop_timing s of
             ((fsync_us, elapsed_us), s1) \<Rightarrow>
               (Inr (), t\<lparr>tx_store := s1\<lparr>st_state := apply_operations (st_state s1) (tx_operations t),
                                        st_metrics := count_commit fsync_us elapsed_us (st_metrics s1)\<rparr>,
                          tx_finished := True\<rparr>)))"

definition commit_record :: "deps \<Rightarrow> (transaction, engine_error, unit) act" where
  "commit_record D t =
     (case store_append D RCommit (tx_id t) [] (tx_store t) of
        (Inl e, s) \<Rightarrow> (Inl e, t\<lparr>tx_store := s\<rparr>)
      | (Inr _, s) \<Rightarrow> (Inr (), t\<lparr>tx_store := s\<rparr>))"

definition commit_inner :: "deps \<Rightarrow> (transaction, engine_error, unit) act" where
  "commit_inner D =
     (\<lambda>t. act_bind (act_lift (ensure_open t)) (\<lambda>_.
       act_bind (if tx_emit_cdc t then stage_changes D (tx_operations t) else act_return ()) (\<lambda>_.
       act_bind (\<lambda>t1. (check_namespace_quota D (tx_store t1) (tx_operations t1), t1)) (\<lambda>_.
       act_bind (commit_record D) (\<lambda>_. commit_apply)))) t)"

definition tx_commit :: "deps \<Rightarrow> transaction \<Rightarrow> (engine_error + unit) \<times> store" where
  "tx_commit D t =
     (case commit_inner D t of
        (Inl e, t1) \<Rightarrow>
          (Inl e, (tx_store t1)\<lparr>st_metrics := (st_metrics (tx_store t1))
             \<lparr>m_commit_errors := saturating_add (m_commit_errors (st_metrics (tx_store t1))) 1\<rparr>\<rparr>)
      | (Inr _, t1) \<Rightarrow> (Inr (), tx_store t1))"

text \<open>\<open>let mut tx = self.begin()?; \<dots> tx.commit()?; Ok(v)\<close>: begin, run the body on the
  transaction, commit. When the body or the commit fails the transaction is dropped; what it
  appended stays in the file. \<open>conv\<close> is the error conversion of \<open>?\<close>.\<close>

definition run_tx ::
  "deps \<Rightarrow> bool \<Rightarrow> (engine_error \<Rightarrow> 'e) \<Rightarrow> (transaction, 'e, 'a) act \<Rightarrow> (store, 'e, 'a) act" where
  "run_tx D emit conv body s =
     (case begin_with_cdc emit s of
        (Inl e, s1) \<Rightarrow> (Inl (conv e), s1)
      | (Inr t, _) \<Rightarrow>
          (case body t of
             (Inl e, t1) \<Rightarrow> (Inl e, tx_store t1)
           | (Inr v, t1) \<Rightarrow>
               (case tx_commit D t1 of
                  (Inl e, s2) \<Rightarrow> (Inl (conv e), s2)
                | (Inr _, s2) \<Rightarrow> (Inr v, s2))))"

definition store_put :: "deps \<Rightarrow> bytes \<Rightarrow> bytes \<Rightarrow> (store, engine_error, unit) act" where
  "store_put D k v = run_tx D True id (tx_put D k v)"

definition store_delete :: "deps \<Rightarrow> bytes \<Rightarrow> (store, engine_error, unit) act" where
  "store_delete D k = run_tx D True id (tx_delete D k)"

definition store_put_internal :: "deps \<Rightarrow> bytes \<Rightarrow> bytes \<Rightarrow> (store, engine_error, unit) act" where
  "store_put_internal D k v = run_tx D True id (tx_put_internal D k v)"

definition store_delete_internal :: "deps \<Rightarrow> bytes \<Rightarrow> (store, engine_error, unit) act" where
  "store_delete_internal D k = run_tx D True id (tx_delete_internal D k)"

section \<open>Opening, verifying, backing up\<close>

definition unix_time_ms :: "int \<Rightarrow> engine_error + i64" where
  "unix_time_ms now =
     (if now < 0 then Inl EClockBeforeUnixEpoch
      else if now < 2 ^ 63 then Inr (word_of_int now) else Inl ETimestampOverflow)"

definition generate_store_id :: "(os_script, engine_error, bytes) act" where
  "generate_store_id os =
     (case os_entropy os of
        [] \<Rightarrow> (Inl ERandomness, os)
      | x # xs \<Rightarrow> (ok_or ERandomness x, os\<lparr>os_entropy := xs\<rparr>))"

text \<open>A store under construction: the opened file before its header and log are known.\<close>

definition raw_store :: "store_options \<Rightarrow> bytes \<Rightarrow> os_script \<Rightarrow> store" where
  "raw_store opts file os =
     \<lparr>st_file = file, st_header = store_header_new [] 0, st_options = opts, st_state = [],
      st_next_tx_id = 0, st_next_sequence = 0, st_metrics = store_metrics_default, st_os = os\<rparr>"

definition load_or_initialize_header :: "deps \<Rightarrow> int \<Rightarrow> (store, engine_error, store_header) act" where
  "load_or_initialize_header D now s =
     (if st_file s = [] then
        (case generate_store_id (st_os s) of
           (Inl e, os) \<Rightarrow> (Inl e, s\<lparr>st_os := os\<rparr>)
         | (Inr sid, os) \<Rightarrow>
             (case unix_time_ms now of
                Inl e \<Rightarrow> (Inl e, s\<lparr>st_os := os\<rparr>)
              | Inr created \<Rightarrow>
                  (let h = store_header_new sid created
                   in act_bind (act_map_err EIo (write_all (header_encode (dep_crc32 D) h))) (\<lambda>_.
                      act_bind (act_map_err EIo sync_call) (\<lambda>_. act_return h)) (s\<lparr>st_os := os\<rparr>))))
      else if length (st_file s) < STORE_HEADER_LEN then (Inl (EHeader HeaderTruncated), s)
      else (map_err EHeader (header_decode (dep_crc32 D) (take STORE_HEADER_LEN (st_file s))), s))"

definition repair_tail :: "recovery \<Rightarrow> (store, engine_error, unit) act" where
  "repair_tail r s =
     (if rec_valid_end r < of_nat (length (st_file s)) \<and> opt_repair_torn_tail (st_options s)
      then sync_file (s\<lparr>st_file := take (unat (rec_valid_end r)) (st_file s)\<rparr>)
      else (Inr (), s))"

definition finish_open :: "store_header \<Rightarrow> recovery \<Rightarrow> (store, engine_error, store) act" where
  "finish_open h r s =
     (case res_bind (next_counter (rec_max_tx_id r)) (\<lambda>t.
             res_bind (next_counter (rec_max_sequence r)) (\<lambda>q. Inr (t, q))) of
        Inl e \<Rightarrow> (Inl e, s)
      | Inr (t, q) \<Rightarrow>
          (let s1 = s\<lparr>st_header := h, st_state := rec_state r, st_next_tx_id := t,
                      st_next_sequence := q,
                      st_metrics := store_metrics_default\<lparr>m_recovery_records := rec_records r\<rparr>\<rparr>
           in (Inr s1, s1)))"

definition open_file :: "deps \<Rightarrow> store_options \<Rightarrow> int \<Rightarrow> bytes \<Rightarrow> os_script \<Rightarrow> (engine_error + store) \<times> store" where
  "open_file D opts now file os =
     act_bind (load_or_initialize_header D now) (\<lambda>h.
     act_bind (\<lambda>s. (recover (dep_crc32 D) (st_file s), s)) (\<lambda>r.
     act_bind (repair_tail r) (\<lambda>_. finish_open h r))) (raw_store opts file os)"

text \<open>The process-wide writer registry and its contention counter; \<open>path\<close> is the canonical
  path, \<open>lock\<close> the answer of the advisory file lock (crate \<open>fs2\<close>).\<close>

record process =
  pr_writers :: "string list"
  pr_lock_contentions :: u64

definition writer_acquire :: "string \<Rightarrow> (process, engine_error, unit) act" where
  "writer_acquire path p =
     (if path \<in> set (pr_writers p)
      then (Inl EAlreadyOpen, p\<lparr>pr_lock_contentions := pr_lock_contentions p + 1\<rparr>)
      else (Inr (), p\<lparr>pr_writers := path # pr_writers p\<rparr>))"

definition writer_drop :: "string \<Rightarrow> process \<Rightarrow> process" where
  "writer_drop path p = p\<lparr>pr_writers := removeAll path (pr_writers p)\<rparr>"

definition map_lock_error :: "io_kind \<Rightarrow> engine_error" where
  "map_lock_error k = (if k = WouldBlock then EAlreadyOpen else EIo k)"

definition open_with_options ::
  "deps \<Rightarrow> string \<Rightarrow> store_options \<Rightarrow> int \<Rightarrow> io_kind option \<Rightarrow> bytes \<Rightarrow> os_script \<Rightarrow> process \<Rightarrow>
     (engine_error + store) \<times> bytes \<times> process" where
  "open_with_options D path opts now lock file os p =
     (case writer_acquire path p of
        (Inl e, p1) \<Rightarrow> (Inl e, file, p1)
      | (Inr _, p1) \<Rightarrow>
          (case lock of
             Some k \<Rightarrow>
               (Inl (map_lock_error k), file,
                writer_drop path (if k = WouldBlock
                  then p1\<lparr>pr_lock_contentions := pr_lock_contentions p1 + 1\<rparr> else p1))
           | None \<Rightarrow>
               (case open_file D opts now file os of
                  (Inl e, s) \<Rightarrow> (Inl e, st_file s, writer_drop path p1)
                | (Inr s, _) \<Rightarrow> (Inr s, st_file s, p1))))"

record verification_report =
  vr_header :: store_header
  vr_file_bytes :: u64
  vr_valid_bytes :: u64
  vr_records :: u64
  vr_committed_transactions :: u64
  vr_pending_transactions :: u64
  vr_keys :: usize

definition has_torn_tail :: "verification_report \<Rightarrow> bool" where
  "has_torn_tail r \<longleftrightarrow> vr_valid_bytes r < vr_file_bytes r"

definition verify :: "deps \<Rightarrow> io_kind option \<Rightarrow> bytes \<Rightarrow> engine_error + verification_report" where
  "verify D lock file =
     (case lock of
        Some k \<Rightarrow> Inl (map_lock_error k)
      | None \<Rightarrow>
          if length file < STORE_HEADER_LEN then Inl (EIo UnexpectedEof)
          else
            res_bind (map_err EHeader (header_decode (dep_crc32 D) (take STORE_HEADER_LEN file))) (\<lambda>h.
            res_bind (recover (dep_crc32 D) file) (\<lambda>r.
              Inr \<lparr>vr_header = h, vr_file_bytes = of_nat (length file),
                   vr_valid_bytes = rec_valid_end r, vr_records = rec_records r,
                   vr_committed_transactions = rec_committed_transactions r,
                   vr_pending_transactions = rec_pending_transactions r,
                   vr_keys = length (rec_state r)\<rparr>)))"

text \<open>\<open>same\<close> answers whether the destination is the store's own file; the result is the
  destination's new content.\<close>

definition backup_to :: "bool \<Rightarrow> (store, engine_error, bytes) act" where
  "backup_to same s =
     act_bind (act_map_err EIo sync_call) (\<lambda>_.
       if same then act_lift (Inl EBackupDestinationIsSource)
       else (\<lambda>s1. (Inr (st_file s1), s1))) s"

end
