(* ===== verification/Transactions.thy ===== *)
theory Transactions
  imports Engine
begin

text \<open>
  What transactions promise, independently of the log: staging only extends the list of staged
  operations, a failed transaction leaves the visible state as it was, a committed one applies
  its operations and the change records for them. The store and the staged view of an open
  transaction both implement the interface \<open>kv_store\<close>, on which the components above the
  engine rely; \<open>object_space\<close> adds a record codec and a key scheme to it.
\<close>

section \<open>Lookups through operations\<close>

lemma staged_lookup_append:
  "staged_lookup (xs @ ys) k c = staged_lookup xs k (staged_lookup ys k c)"
  by (induction xs k c rule: staged_lookup.induct) auto

lemma map_of_apply_operations:
  "map_of (apply_operations st ops) k = staged_lookup (rev ops) k (map_of st k)"
proof (induction ops arbitrary: st)
  case Nil
  then show ?case by simp
next
  case (Cons op ops)
  then show ?case by (cases op) (auto simp: staged_lookup_append)
qed

lemma staged_lookup_other:
  "k \<notin> op_key ` set ops \<Longrightarrow> staged_lookup ops k c = c"
  by (induction ops k c rule: staged_lookup.induct) auto

lemma staged_lookup_snoc [simp]:
  "staged_lookup (rev (ops @ [OpPut k v])) k' c = (if k = k' then Some v else staged_lookup (rev ops) k' c)"
  "staged_lookup (rev (ops @ [OpDelete k])) k' c = (if k = k' then None else staged_lookup (rev ops) k' c)"
  by simp_all

section \<open>Frame of the append path\<close>

text \<open>Everything of the store that appending a record leaves alone.\<close>

definition same_view :: "store \<Rightarrow> store \<Rightarrow> bool" where
  "same_view s s' \<longleftrightarrow> st_state s' = st_state s \<and> st_options s' = st_options s \<and>
     st_header s' = st_header s \<and> st_next_tx_id s' = st_next_tx_id s"

lemma same_view_refl [simp]: "same_view s s"
  by (simp add: same_view_def)

lemma same_view_trans: "same_view a b \<Longrightarrow> same_view b c \<Longrightarrow> same_view a c"
  by (simp add: same_view_def)

lemma write_all_view: "write_all bs s = (r, s') \<Longrightarrow> same_view s s'"
  by (auto simp: write_all_def same_view_def split: list.splits write_outcome.splits)

lemma store_append_view: "store_append D kind t p s = (r, s') \<Longrightarrow> same_view s s'"
  by (auto simp: store_append_def Let_def same_view_def
      split: option.splits sum.splits prod.splits dest!: write_all_view)

lemma sync_call_view: "sync_call s = (r, s') \<Longrightarrow> same_view s s'"
  by (auto simp: sync_call_def same_view_def split: list.splits sync_outcome.splits)

lemma sync_file_view: "sync_file s = (r, s') \<Longrightarrow> same_view s s'"
  by (auto simp: sync_file_def act_map_err_def split: durability.splits prod.splits
      dest!: sync_call_view)

section \<open>Staging\<close>

text \<open>\<open>tx_ext ops t t'\<close>: from \<open>t\<close> to \<open>t'\<close> exactly \<open>ops\<close> were staged.\<close>

definition tx_ext :: "operation list \<Rightarrow> transaction \<Rightarrow> transaction \<Rightarrow> bool" where
  "tx_ext ops t t' \<longleftrightarrow> same_view (tx_store t) (tx_store t') \<and> tx_id t' = tx_id t \<and>
     tx_emit_cdc t' = tx_emit_cdc t \<and> tx_finished t' = tx_finished t \<and>
     tx_operations t' = tx_operations t @ ops"

lemma tx_ext_refl [simp]: "tx_ext [] t t"
  by (simp add: tx_ext_def)

lemma tx_ext_trans: "tx_ext a t u \<Longrightarrow> tx_ext b u v \<Longrightarrow> tx_ext (a @ b) t v"
  by (auto simp: tx_ext_def intro: same_view_trans)

lemma tx_ext_state: "tx_ext ops t t' \<Longrightarrow> st_state (tx_store t') = st_state (tx_store t)"
  by (simp add: tx_ext_def same_view_def)

lemma tx_stage_ext:
  assumes "tx_stage D kind p op t = (r, t')"
  shows "tx_ext (case r of Inl _ \<Rightarrow> [] | Inr _ \<Rightarrow> [op]) t t'"
  using assms
  by (auto simp: tx_stage_def tx_ext_def split: prod.splits sum.splits dest: store_append_view)

lemma tx_put_internal_ext:
  assumes "tx_put_internal D k v t = (r, t')"
  shows "tx_ext (case r of Inl _ \<Rightarrow> [] | Inr _ \<Rightarrow> [OpPut k v]) t t'"
  using assms
  by (auto simp: tx_put_internal_def split: sum.splits dest: tx_stage_ext)

lemma tx_delete_internal_ext:
  assumes "tx_delete_internal D k t = (r, t')"
  shows "tx_ext (case r of Inl _ \<Rightarrow> [] | Inr _ \<Rightarrow> [OpDelete k]) t t'"
  using assms
  by (auto simp: tx_delete_internal_def split: sum.splits dest: tx_stage_ext)

lemma tx_put_iff:
  "tx_put D k v t = (r, t') \<longleftrightarrow>
     (if prefix INTERNAL_KEY_PREFIX k then r = Inl EReservedKey \<and> t' = t
      else tx_put_internal D k v t = (r, t'))"
  by (auto simp: tx_put_def ensure_user_key_def)

lemma tx_delete_iff:
  "tx_delete D k t = (r, t') \<longleftrightarrow>
     (if prefix INTERNAL_KEY_PREFIX k then r = Inl EReservedKey \<and> t' = t
      else tx_delete_internal D k t = (r, t'))"
  by (auto simp: tx_delete_def ensure_user_key_def)

text \<open>Bodies of transactions built from these primitives only stage operations.\<close>

named_theorems staging_intros \<open>actions that only stage operations\<close>

definition staging :: "(transaction, 'e, 'a) act \<Rightarrow> bool" where
  "staging body \<longleftrightarrow> (\<forall>t r t'. body t = (r, t') \<longrightarrow> (\<exists>ops. tx_ext ops t t'))"

lemma stagingD: "staging body \<Longrightarrow> body t = (r, t') \<Longrightarrow> \<exists>ops. tx_ext ops t t'"
  by (simp add: staging_def)

lemma staging_return [staging_intros]: "staging (act_return a)"
  by (auto simp: staging_def intro: exI [of _ "[]"])

lemma staging_lift [staging_intros]: "staging (act_lift r)"
  by (auto simp: staging_def intro: exI [of _ "[]"])

lemma staging_read [staging_intros]: "staging (\<lambda>t. (f t, t))"
  by (auto simp: staging_def intro: exI [of _ "[]"])

lemma staging_if [staging_intros]: "staging a \<Longrightarrow> staging b \<Longrightarrow> staging (if c then a else b)"
  by simp

lemma staging_dep: "(\<And>t0. staging (f t0)) \<Longrightarrow> staging (\<lambda>t. f t t)"
  unfolding staging_def by metis

lemma staging_bind [staging_intros]:
  assumes "staging m" and "\<And>a. staging (f a)"
  shows "staging (act_bind m f)"
  unfolding staging_def
proof (intro allI impI)
  fix t r t'
  assume "act_bind m f t = (r, t')"
  then consider e where "m t = (Inl e, t')" | a t1 where "m t = (Inr a, t1)" "f a t1 = (r, t')"
    by (auto simp: act_bind_def split: prod.splits sum.splits)
  then show "\<exists>ops. tx_ext ops t t'"
  proof cases
    case 1
    then show ?thesis using assms(1) by (blast dest: stagingD)
  next
    case 2
    obtain x where "tx_ext x t t1" using stagingD [OF assms(1) 2(1)] by blast
    moreover obtain y where "tx_ext y t1 t'" using stagingD [OF assms(2) 2(2)] by blast
    ultimately show ?thesis by (blast intro: tx_ext_trans)
  qed
qed

lemma staging_map_err [staging_intros]: "staging m \<Longrightarrow> staging (act_map_err g m)"
  by (auto simp: staging_def act_map_err_def split: prod.splits)

lemma staging_for [staging_intros]: "(\<And>x. staging (f x)) \<Longrightarrow> staging (act_for f xs)"
  by (induction xs) (simp_all add: staging_return staging_bind)

lemma staging_put_internal [staging_intros]: "staging (tx_put_internal D k v)"
  unfolding staging_def by (blast dest: tx_put_internal_ext)

lemma staging_delete_internal [staging_intros]: "staging (tx_delete_internal D k)"
  unfolding staging_def by (blast dest: tx_delete_internal_ext)

lemma staging_put [staging_intros]: "staging (tx_put D k v)"
  unfolding tx_put_def by (intro staging_intros)

lemma staging_delete [staging_intros]: "staging (tx_delete D k)"
  unfolding tx_delete_def by (intro staging_intros)

section \<open>Change capture\<close>

text \<open>The operations that \<open>stage_changes\<close> stages, as a function of the operations it is given.\<close>

fun cdc_ops :: "deps \<Rightarrow> u64 \<Rightarrow> u32 \<Rightarrow> operation list \<Rightarrow> operation list" where
  "cdc_ops D t q [] = []"
| "cdc_ops D t q (op # ops) =
     (if prefix CDC_PREFIX (op_key op) then cdc_ops D t q ops
      else (case encode_change (change_of D t q op) of
              Inl e \<Rightarrow> [] | Inr encoded \<Rightarrow> OpPut (change_key t q) encoded # cdc_ops D t (q + 1) ops))"

lemma cdc_ops_keys: "op \<in> set (cdc_ops D t q ops) \<Longrightarrow> prefix CDC_PREFIX (op_key op)"
  by (induction D t q ops rule: cdc_ops.induct)
    (auto simp: change_key_prefix split: sum.splits if_splits)

lemma stage_changes_from_ext:
  assumes "stage_changes_from D q ops t = (r, t')"
  shows "\<exists>cops. tx_ext cops t t' \<and>
    (r = Inr () \<longrightarrow> cops = cdc_ops D (tx_id t) q ops \<and> unat q + length cops < 2 ^ 32)"
  using assms
proof (induction D q ops t rule: stage_changes_from.induct)
  case (1 D q t)
  then show ?case using unsigned_less [of q, where 'a = nat] by (auto intro: exI [of _ "[]"])
next
  case (2 D q op ops t)
  show ?case
  proof (cases "prefix CDC_PREFIX (op_key op)")
    case True
    then show ?thesis using 2 by simp
  next
    case False
    let ?enc = "encode_change (change_of D (tx_id t) q op)"
    show ?thesis
    proof (cases ?enc)
      case (Inl e)
      then show ?thesis using 2(3) False by (auto intro: exI [of _ "[]"])
    next
      case enc: (Inr encoded)
      let ?put = "tx_put_internal D (change_key (tx_id t) q) encoded t"
      obtain rp t1 where put: "?put = (rp, t1)" by (cases ?put)
      note pe = tx_put_internal_ext [OF put]
      show ?thesis
      proof (cases rp)
        case (Inl e)
        then show ?thesis using 2(3) False enc put pe by auto
      next
        case (Inr u)
        with pe have e1: "tx_ext [OpPut (change_key (tx_id t) q) encoded] t t1" by simp
        show ?thesis
        proof (cases "checked_add q 1")
          case None
          then show ?thesis using 2(3) False enc put Inr e1 by auto
        next
          case (Some q1)
          have q1: "q1 = q + 1" "unat q1 = unat q + 1" using checked_add_Some [OF Some] by simp_all
          have rest: "stage_changes_from D q1 ops t1 = (r, t')"
            using 2(3) False enc put Inr Some by simp
          obtain cops where c: "tx_ext cops t1 t'" "r = Inr () \<longrightarrow> cops = cdc_ops D (tx_id t1) q1 ops \<and> unat q1 + length cops < 2 ^ 32"
            using 2(2) [OF False _ put [symmetric] _ Some rest] enc Inr by auto
          have "tx_ext (OpPut (change_key (tx_id t) q) encoded # cops) t t'"
            using tx_ext_trans [OF e1 c(1)] by simp
          moreover have "tx_id t1 = tx_id t" using e1 by (simp add: tx_ext_def)
          ultimately show ?thesis using c(2) False enc q1 by auto
        qed
      qed
    qed
  qed
qed

lemma staging_stage_changes [staging_intros]: "staging (stage_changes D ops)"
  unfolding staging_def stage_changes_def using stage_changes_from_ext by blast

section \<open>Commit\<close>

lemma commit_record_ext: "commit_record D t = (r, t') \<Longrightarrow> tx_ext [] t t'"
  by (auto simp: commit_record_def tx_ext_def split: prod.splits sum.splits dest: store_append_view)

lemma pop_timing_view: "pop_timing s = (p, s') \<Longrightarrow> same_view s s'"
  by (auto simp: pop_timing_def same_view_def split: list.splits)

lemma commit_apply_Inl: "commit_apply t = (Inl e, t') \<Longrightarrow> tx_ext [] t t'"
  by (auto simp: commit_apply_def tx_ext_def split: prod.splits sum.splits dest: sync_file_view)

lemma commit_apply_Inr:
  assumes "commit_apply t = (Inr u, t')"
  shows "st_state (tx_store t') = apply_operations (st_state (tx_store t)) (tx_operations t)"
    and "st_options (tx_store t') = st_options (tx_store t)"
    and "st_header (tx_store t') = st_header (tx_store t)"
    and "st_next_tx_id (tx_store t') = st_next_tx_id (tx_store t)"
  using assms
  by (auto simp: commit_apply_def same_view_def split: prod.splits sum.splits
      dest!: sync_file_view pop_timing_view)

text \<open>The change records that a commit adds to its transaction.\<close>

definition captured :: "deps \<Rightarrow> transaction \<Rightarrow> operation list" where
  "captured D t = (if tx_emit_cdc t then cdc_ops D (tx_id t) 0 (tx_operations t) else [])"

lemma commit_capture:
  assumes "(if tx_emit_cdc t then stage_changes D (tx_operations t) else act_return ()) t = (r, t1)"
  shows "\<exists>cops. tx_ext cops t t1 \<and> (r = Inr () \<longrightarrow> cops = captured D t \<and> length cops < 2 ^ 32)"
  using assms stage_changes_from_ext [of D 0 "tx_operations t" t r t1]
  by (auto simp: captured_def stage_changes_def split: if_splits intro: exI [of _ "[]"])

lemma commit_inner_Inl:
  assumes "commit_inner D t = (Inl e, t')"
  shows "\<exists>cops. tx_ext cops t t'"
proof -
  have cap: "\<exists>cops. tx_ext cops t t1"
    if "(if tx_emit_cdc t then stage_changes D (tx_operations t) else act_return ()) t = (r, t1)" for r t1
    using commit_capture [OF that] by blast
  have rest: "tx_ext [] t1 t2" if "commit_record D t1 = (r, t2)" for r t1 t2
    using that by (rule commit_record_ext)
  show ?thesis
    using assms unfolding commit_inner_def act_bind_lift
    by (auto simp: act_bind_Inl_iff split: sum.splits intro: exI [of _ "[]"]
        dest!: cap rest commit_apply_Inl dest: tx_ext_trans)
qed

lemma commit_inner_Inr:
  assumes "commit_inner D t = (Inr u, t')"
  obtains t1 t2 where "\<not> tx_finished t" and "tx_ext (captured D t) t t1" and "length (captured D t) < 2 ^ 32"
    and "check_namespace_quota D (tx_store t1) (tx_operations t1) = Inr ()"
    and "commit_record D t1 = (Inr (), t2)" and "tx_ext [] t1 t2" and "commit_apply t2 = (Inr (), t')"
proof -
  from assms obtain t1 t2 where o: "ensure_open t = Inr ()"
    and c: "(if tx_emit_cdc t then stage_changes D (tx_operations t) else act_return ()) t = (Inr (), t1)"
    and q: "check_namespace_quota D (tx_store t1) (tx_operations t1) = Inr ()"
    and r: "commit_record D t1 = (Inr (), t2)" and a: "commit_apply t2 = (Inr (), t')"
    unfolding commit_inner_def act_bind_lift
    by (auto simp: act_bind_Inr_iff split: sum.splits)
  show ?thesis
    using that [of t1 t2] o commit_capture [OF c] q r commit_record_ext [OF r] a
    by (auto simp: ensure_open_def split: if_splits)
qed

theorem tx_commit_Inl:
  assumes "tx_commit D t = (Inl e, s')"
  shows "same_view (tx_store t) s'"
proof -
  obtain t1 where t1: "commit_inner D t = (Inl e, t1)" and s': "same_view (tx_store t1) s'"
    using assms by (auto simp: tx_commit_def same_view_def split: prod.splits sum.splits)
  obtain cops where "tx_ext cops t t1" using commit_inner_Inl [OF t1] by blast
  then show ?thesis using s' by (auto simp: tx_ext_def intro: same_view_trans)
qed

theorem tx_commit_Inr:
  assumes "tx_commit D t = (Inr u, s')"
  shows "st_state s' = apply_operations (st_state (tx_store t)) (tx_operations t @ captured D t)"
    and "st_options s' = st_options (tx_store t)" and "st_header s' = st_header (tx_store t)"
    and "st_next_tx_id s' = st_next_tx_id (tx_store t)"
proof -
  obtain t' where c: "commit_inner D t = (Inr (), t')" and s': "s' = tx_store t'"
    using assms by (auto simp: tx_commit_def split: prod.splits sum.splits)
  obtain t1 t2 where e: "tx_ext (captured D t) t t1" "tx_ext [] t1 t2"
    and a: "commit_apply t2 = (Inr (), t')"
    using c by (rule commit_inner_Inr)
  from tx_ext_trans [OF e] have e2: "tx_ext (captured D t) t t2" by simp
  show "st_state s' = apply_operations (st_state (tx_store t)) (tx_operations t @ captured D t)"
    using commit_apply_Inr(1) [OF a] e2 unfolding s' by (simp add: tx_ext_def same_view_def)
  show "st_options s' = st_options (tx_store t)" "st_header s' = st_header (tx_store t)"
    "st_next_tx_id s' = st_next_tx_id (tx_store t)"
    using commit_apply_Inr(2-4) [OF a] e2 unfolding s' by (simp_all add: tx_ext_def same_view_def)
qed

lemma captured_keys: "op \<in> set (captured D t) \<Longrightarrow> prefix CDC_PREFIX (op_key op)"
  by (auto simp: captured_def split: if_splits dest: cdc_ops_keys)

section \<open>Whole transactions\<close>

definition fresh_tx :: "bool \<Rightarrow> store \<Rightarrow> transaction" where
  "fresh_tx emit s = \<lparr>tx_store = s\<lparr>st_next_tx_id := st_next_tx_id s + 1\<rparr>, tx_id = st_next_tx_id s,
     tx_operations = [], tx_emit_cdc = emit, tx_finished = False\<rparr>"

lemma fresh_tx_simps [simp]:
  "tx_operations (fresh_tx emit s) = []" "st_state (tx_store (fresh_tx emit s)) = st_state s"
  "tx_id (fresh_tx emit s) = st_next_tx_id s" "tx_emit_cdc (fresh_tx emit s) = emit"
  "tx_finished (fresh_tx emit s) = False"
  "st_options (tx_store (fresh_tx emit s)) = st_options s"
  "st_header (tx_store (fresh_tx emit s)) = st_header s"
  "st_next_tx_id (tx_store (fresh_tx emit s)) = st_next_tx_id s + 1"
  by (simp_all add: fresh_tx_def)

lemma begin_with_cdc_eq:
  "begin_with_cdc emit s =
     (if st_next_tx_id s = - 1 then (Inl ECounterExhausted, s)
      else (Inr (fresh_tx emit s), tx_store (fresh_tx emit s)))"
  by (simp add: begin_with_cdc_def checked_add_one_u64 fresh_tx_def Let_def)

text \<open>A transaction that fails, in its body or in its commit, changes nothing that a reader
  sees.\<close>

theorem run_tx_Inl:
  assumes st: "staging body" and run: "run_tx D emit conv body s = (Inl e, s')"
  shows "st_state s' = st_state s"
proof (cases "st_next_tx_id s = - 1")
  case True
  then show ?thesis using run by (auto simp: run_tx_def begin_with_cdc_eq)
next
  case False
  obtain rb t1 where b: "body (fresh_tx emit s) = (rb, t1)" by (cases "body (fresh_tx emit s)")
  obtain ops where x: "tx_ext ops (fresh_tx emit s) t1" using stagingD [OF st b] by blast
  then have st1: "st_state (tx_store t1) = st_state s" by (auto dest: tx_ext_state)
  have "s' = tx_store t1 \<or> (\<exists>e'. tx_commit D t1 = (Inl e', s'))"
    using run False b by (auto simp: run_tx_def begin_with_cdc_eq split: sum.splits prod.splits)
  then show ?thesis using st1 tx_commit_Inl by (auto simp: same_view_def)
qed

theorem run_tx_Inr:
  assumes st: "staging body" and run: "run_tx D emit conv body s = (Inr v, s')"
  obtains t1 where "body (fresh_tx emit s) = (Inr v, t1)"
    and "tx_ext (tx_operations t1) (fresh_tx emit s) t1"
    and "tx_commit D t1 = (Inr (), s')"
    and "st_state s' = apply_operations (st_state s) (tx_operations t1 @ captured D t1)"
    and "st_options s' = st_options s" and "st_next_tx_id s' = st_next_tx_id s + 1"
proof -
  have ne: "st_next_tx_id s \<noteq> - 1"
    using run by (auto simp: run_tx_def begin_with_cdc_eq split: if_splits)
  obtain t1 where b: "body (fresh_tx emit s) = (Inr v, t1)" and c: "tx_commit D t1 = (Inr (), s')"
    using run ne by (auto simp: run_tx_def begin_with_cdc_eq split: sum.splits prod.splits)
  obtain ops where x: "tx_ext ops (fresh_tx emit s) t1" using stagingD [OF st b] by blast
  then have x': "tx_ext (tx_operations t1) (fresh_tx emit s) t1" by (simp add: tx_ext_def)
  have s1: "st_state (tx_store t1) = st_state s" "st_options (tx_store t1) = st_options s"
    "st_next_tx_id (tx_store t1) = st_next_tx_id s + 1"
    using x by (simp_all add: tx_ext_def same_view_def)
  show ?thesis
    by (rule that [OF b x' c]) (simp_all add: tx_commit_Inr [OF c] s1 del: apply_operations_simps)
qed

text \<open>Outside the change feed, a committed transaction shows exactly its own operations.\<close>

lemma run_tx_get:
  assumes "staging body" and "run_tx D emit conv body s = (Inr v, s')"
    and "body (fresh_tx emit s) = (Inr v, t1)" and "\<not> prefix CDC_PREFIX k"
  shows "store_get s' k = staged_lookup (rev (tx_operations t1)) k (store_get s k)"
proof -
  have "st_state s' = apply_operations (st_state s) (tx_operations t1 @ captured D t1)"
    using run_tx_Inr [OF assms(1,2)] assms(3) by (metis Inr_inject Pair_inject)
  moreover have "k \<notin> op_key ` set (captured D t1)"
    using captured_keys assms(4) by blast
  ultimately show ?thesis
    by (simp add: store_get_def map_of_apply_operations staged_lookup_other)
qed

section \<open>Well-formed stores and scans\<close>

definition store_wf :: "store \<Rightarrow> bool" where
  "store_wf s \<longleftrightarrow> wf_map (st_state s)"

lemma run_tx_wf:
  assumes "staging body" and "store_wf s" and "run_tx D emit conv body s = (r, s')"
  shows "store_wf s'"
proof (cases r)
  case (Inl e)
  then show ?thesis using run_tx_Inl [OF assms(1)] assms(2,3) by (auto simp: store_wf_def)
next
  case (Inr v)
  then have "run_tx D emit conv body s = (Inr v, s')" using assms(3) by simp
  from run_tx_Inr [OF assms(1) this] show ?thesis using assms(2)
    by (metis store_wf_def wf_map_apply_operations)
qed

lemma in_scan_prefix_iff:
  "store_wf s \<Longrightarrow> (k, v) \<in> set (scan_prefix s p) \<longleftrightarrow> prefix p k \<and> store_get s k = Some v"
  by (simp add: scan_prefix_def store_get_def store_wf_def set_scan_map)

lemma scan_prefix_cong:
  assumes "store_wf s" and "store_wf s'" and "\<And>k. prefix p k \<Longrightarrow> store_get s' k = store_get s k"
  shows "scan_prefix s' p = scan_prefix s p"
  unfolding scan_prefix_def using assms
  by (intro scan_map_cong) (simp_all add: store_wf_def store_get_def)

text \<open>Reading through an open transaction is reading the state its commit would make.\<close>

lemma tx_get_internal_eq:
  "tx_get_internal t k = map_of (apply_operations (st_state (tx_store t)) (tx_operations t)) k"
  by (simp add: tx_get_internal_def map_of_apply_operations store_get_def)

lemma wf_map_overlay: "wf_map m \<Longrightarrow> wf_map (overlay p ops m)"
  unfolding overlay_def by (induction ops arbitrary: m) auto

lemma map_of_overlay:
  "map_of (overlay p ops m) k = (if prefix p k then map_of (apply_operations m ops) k else map_of m k)"
  unfolding overlay_def
proof (induction ops arbitrary: m)
  case Nil
  then show ?case by simp
next
  case (Cons op ops)
  then show ?case by (cases op) (auto simp: map_of_apply_operations)
qed

lemma map_of_scan_map:
  assumes "wf_map m"
  shows "map_of (scan_map p m) k = (if prefix p k then map_of m k else None)"
proof -
  have d: "distinct (map fst (scan_map p m))" by (rule distinct_scan_map [OF assms])
  have "map_of (scan_map p m) k = Some v \<longleftrightarrow> prefix p k \<and> map_of m k = Some v" for v
    using d set_scan_map [OF assms, of p] map_of_eq_Some_iff [OF d, of k v] by auto
  then show ?thesis by (metis not_Some_eq)
qed

lemma tx_scan_prefix_internal_eq:
  assumes "store_wf (tx_store t)"
  shows "tx_scan_prefix_internal t p = scan_map p (apply_operations (st_state (tx_store t)) (tx_operations t))"
proof -
  let ?st = "st_state (tx_store t)" and ?ops = "tx_operations t"
  let ?o = "overlay p ?ops (scan_map p ?st)"
  have wf: "wf_map ?st" using assms by (simp add: store_wf_def)
  have wo: "wf_map ?o"
    using distinct_scan_map [OF wf, of p] by (intro wf_map_overlay) (simp add: wf_map_def)
  have all: "prefix p k" if "(k, v) \<in> set ?o" for k v
  proof (rule ccontr)
    assume n: "\<not> prefix p k"
    from that wo have "map_of ?o k = Some v" by (simp add: wf_map_in_set_iff)
    with n show False by (simp add: map_of_overlay map_of_scan_map [OF wf])
  qed
  then have "filter (\<lambda>(k, _). prefix p k) ?o = ?o" by (auto simp: filter_id_conv)
  then have "tx_scan_prefix_internal t p = scan_map p ?o"
    by (simp add: tx_scan_prefix_internal_def scan_prefix_def scan_map_def)
  also have "\<dots> = scan_map p (apply_operations ?st ?ops)"
    by (rule scan_map_cong [OF wo])
      (use wf in \<open>simp_all add: map_of_overlay map_of_apply_operations map_of_scan_map\<close>)
  finally show ?thesis .
qed

section \<open>The key-value interface\<close>

text \<open>What the layers above rely on. \<open>vis\<close> marks the keys that the engine does not write on its
  own account.\<close>

locale kv_store =
  fixes get :: "'s \<Rightarrow> bytes \<Rightarrow> bytes option"
    and put :: "bytes \<Rightarrow> bytes \<Rightarrow> ('s, 'err, unit) act"
    and del :: "bytes \<Rightarrow> ('s, 'err, unit) act"
    and vis :: "bytes \<Rightarrow> bool"
  assumes put_get: "put k v s = (Inr u, s') \<Longrightarrow> vis k' \<Longrightarrow> get s' k' = (if k' = k then Some v else get s k')"
    and del_get: "del k s = (Inr u, s') \<Longrightarrow> vis k' \<Longrightarrow> get s' k' = (if k' = k then None else get s k')"
    and put_fail: "put k v s = (Inl e, s') \<Longrightarrow> get s' k' = get s k'"
    and del_fail: "del k s = (Inl e, s') \<Longrightarrow> get s' k' = get s k'"
begin

lemma last_put_wins:
  "put k v s = (Inr u, s1) \<Longrightarrow> put k w s1 = (Inr u', s2) \<Longrightarrow> vis k \<Longrightarrow> get s2 k = Some w"
  by (simp add: put_get)

lemma delete_after_put:
  "put k v s = (Inr u, s1) \<Longrightarrow> del k s1 = (Inr u', s2) \<Longrightarrow> vis k' \<Longrightarrow>
     get s2 k' = (if k' = k then None else get s k')"
  by (simp add: put_get del_get)

lemma put_then_failed_put:
  "put k v s = (Inr u, s1) \<Longrightarrow> put k' w s1 = (Inl e, s2) \<Longrightarrow> vis k \<Longrightarrow> get s2 k = Some v"
  by (simp add: put_get put_fail)

end

text \<open>Records of one kind under a family of keys.\<close>

locale object_space =
  kv_store get put del vis + codec enc dec ok
  for get :: "'s \<Rightarrow> bytes \<Rightarrow> bytes option"
    and put :: "bytes \<Rightarrow> bytes \<Rightarrow> ('s, 'err, unit) act"
    and del :: "bytes \<Rightarrow> ('s, 'err, unit) act"
    and vis :: "bytes \<Rightarrow> bool"
    and enc :: "'a \<Rightarrow> 'e + bytes" and dec :: "bytes \<Rightarrow> 'f + 'a" and ok :: "'a \<Rightarrow> bool" +
  fixes key :: "'i \<Rightarrow> bytes" and okk :: "'i \<Rightarrow> bool"
  assumes key_inj: "okk i \<Longrightarrow> okk j \<Longrightarrow> key i = key j \<Longrightarrow> i = j"
    and key_vis: "vis (key i)"
begin

lemma load_stored:
  assumes "ok x" and "enc x = Inr bs" and "put (key i) bs s = (Inr u, s')"
  shows "transpose_map dec (get s' (key i)) = Inr (Some x)"
  using put_get [OF assms(3) key_vis] dec_enc [OF assms(1,2)] by simp

lemma load_frame:
  assumes "okk i" and "okk j" and "j \<noteq> i" and "put (key i) bs s = (Inr u, s')"
  shows "transpose_map dec (get s' (key j)) = transpose_map dec (get s (key j))"
  using put_get [OF assms(4) key_vis] key_inj assms(1-3) by (metis (full_types))

lemma load_deleted:
  assumes "del (key i) s = (Inr u, s')"
  shows "transpose_map dec (get s' (key i)) = Inr None"
  using del_get [OF assms key_vis] by simp

lemma load_failed_put:
  "put (key i) bs s = (Inl e, s') \<Longrightarrow> transpose_map dec (get s' (key j)) = transpose_map dec (get s (key j))"
  by (simp add: put_fail)

end

section \<open>The engine implements it\<close>

lemma fresh_put_internal:
  assumes "tx_put_internal D k v (fresh_tx emit s) = (Inr u, t1)"
  shows "tx_operations t1 = [OpPut k v]"
  using tx_put_internal_ext [OF assms] by (simp add: tx_ext_def)

lemma fresh_delete_internal:
  assumes "tx_delete_internal D k (fresh_tx emit s) = (Inr u, t1)"
  shows "tx_operations t1 = [OpDelete k]"
  using tx_delete_internal_ext [OF assms] by (simp add: tx_ext_def)

abbreviation not_cdc :: "bytes \<Rightarrow> bool" where
  "not_cdc k \<equiv> \<not> prefix CDC_PREFIX k"

lemma store_put_internal_get:
  assumes "store_put_internal D k v s = (Inr u, s')" and "not_cdc k'"
  shows "store_get s' k' = (if k' = k then Some v else store_get s k')"
proof -
  have run: "run_tx D True id (tx_put_internal D k v) s = (Inr u, s')"
    using assms(1) by (simp add: store_put_internal_def)
  obtain t1 where b: "tx_put_internal D k v (fresh_tx True s) = (Inr u, t1)"
    using run by (rule run_tx_Inr [OF staging_put_internal])
  show ?thesis
    using run_tx_get [OF staging_put_internal run b assms(2)] fresh_put_internal [OF b] by auto
qed

lemma store_delete_internal_get:
  assumes "store_delete_internal D k s = (Inr u, s')" and "not_cdc k'"
  shows "store_get s' k' = (if k' = k then None else store_get s k')"
proof -
  have run: "run_tx D True id (tx_delete_internal D k) s = (Inr u, s')"
    using assms(1) by (simp add: store_delete_internal_def)
  obtain t1 where b: "tx_delete_internal D k (fresh_tx True s) = (Inr u, t1)"
    using run by (rule run_tx_Inr [OF staging_delete_internal])
  show ?thesis
    using run_tx_get [OF staging_delete_internal run b assms(2)] fresh_delete_internal [OF b] by auto
qed

lemma run_tx_fail_get:
  "staging body \<Longrightarrow> run_tx D emit conv body s = (Inl e, s') \<Longrightarrow> store_get s' k = store_get s k"
  by (simp add: store_get_def run_tx_Inl)

interpretation store_kv: kv_store store_get "store_put_internal D" "store_delete_internal D" not_cdc
proof
  fix k v s u s' k'
  show "store_get s' k' = (if k' = k then Some v else store_get s k')"
    if "store_put_internal D k v s = (Inr u, s')" "not_cdc k'"
    using that by (rule store_put_internal_get)
  show "store_get s' k' = (if k' = k then None else store_get s k')"
    if "store_delete_internal D k s = (Inr u, s')" "not_cdc k'"
    using that by (rule store_delete_internal_get)
next
  fix k v s e s' k'
  show "store_get s' k' = store_get s k'" if "store_put_internal D k v s = (Inl e, s')"
    using that unfolding store_put_internal_def by (rule run_tx_fail_get [OF staging_put_internal])
  show "store_get s' k' = store_get s k'" if "store_delete_internal D k s = (Inl e, s')"
    using that unfolding store_delete_internal_def by (rule run_tx_fail_get [OF staging_delete_internal])
qed

lemma tx_get_ext:
  "tx_ext ops t t' \<Longrightarrow> \<forall>k. tx_get_internal t' k = staged_lookup (rev ops) k (tx_get_internal t k)"
  by (simp add: tx_get_internal_def tx_ext_def same_view_def store_get_def staged_lookup_append)

text \<open>The staged view of an open transaction keeps the same promises, for every key.\<close>

interpretation tx_kv: kv_store tx_get_internal "tx_put_internal D" "tx_delete_internal D" "\<lambda>_. True"
  by unfold_locales
    (auto dest!: tx_put_internal_ext tx_delete_internal_ext tx_get_ext)

section \<open>Reading what a transaction did\<close>

lemma fresh_view [simp]: "tx_get_internal (fresh_tx emit s) k = store_get s k"
  by (simp add: tx_get_internal_def store_get_def)

lemma run_tx_view:
  assumes "staging body" and "run_tx D emit conv body s = (Inr v, s')"
  obtains t1 where "body (fresh_tx emit s) = (Inr v, t1)"
    and "\<And>k. not_cdc k \<Longrightarrow> store_get s' k = tx_get_internal t1 k"
proof -
  obtain t1 where b: "body (fresh_tx emit s) = (Inr v, t1)"
      and x: "tx_ext (tx_operations t1) (fresh_tx emit s) t1"
    using assms(2) by (rule run_tx_Inr [OF assms(1)])
  have "store_get s' k = tx_get_internal t1 k" if "not_cdc k" for k
    using run_tx_get [OF assms b that] tx_get_ext [OF x] by simp
  then show ?thesis using that b by blast
qed

lemma tx_put_get:
  assumes "tx_put D k v t = (Inr u, t')"
  shows "\<not> prefix INTERNAL_KEY_PREFIX k"
    and "tx_get_internal t' k' = (if k' = k then Some v else tx_get_internal t k')"
  using assms tx_kv.put_get by (auto simp: tx_put_iff split: if_splits)

lemma tx_delete_get:
  assumes "tx_delete D k t = (Inr u, t')"
  shows "\<not> prefix INTERNAL_KEY_PREFIX k"
    and "tx_get_internal t' k' = (if k' = k then None else tx_get_internal t k')"
  using assms tx_kv.del_get by (auto simp: tx_delete_iff split: if_splits)

lemma user_key_not_cdc: "\<not> prefix INTERNAL_KEY_PREFIX k \<Longrightarrow> not_cdc k"
proof -
  have "prefix INTERNAL_KEY_PREFIX CDC_PREFIX"
    by (simp add: INTERNAL_KEY_PREFIX_def CDC_PREFIX_def ascii_def)
  then show "\<not> prefix INTERNAL_KEY_PREFIX k \<Longrightarrow> not_cdc k" by (blast intro: prefix_order.trans)
qed

text \<open>Two key prefixes of which neither extends the other share no key.\<close>

lemma run_tx_Inr_iff:
  "run_tx D emit conv body s = (Inr v, s') \<longleftrightarrow>
     st_next_tx_id s \<noteq> - 1 \<and> (\<exists>t. body (fresh_tx emit s) = (Inr v, t) \<and> tx_commit D t = (Inr (), s'))"
  by (auto simp: run_tx_def begin_with_cdc_eq split: sum.splits prod.splits)

lemma run_tx_body_cong:
  assumes "body (fresh_tx emit s) = body' (fresh_tx emit s)"
  shows "run_tx D emit conv body s = run_tx D emit conv body' s"
  using assms by (simp add: run_tx_def begin_with_cdc_eq)

lemma other_space: "\<not> prefix p q \<Longrightarrow> \<not> prefix q p \<Longrightarrow> prefix p k \<Longrightarrow> \<not> prefix q k"
  using prefix_same_cases by blast

lemma store_put_get:
  assumes "store_put D k v s = (Inr u, s')"
  shows "\<not> prefix INTERNAL_KEY_PREFIX k"
    and "not_cdc k' \<Longrightarrow> store_get s' k' = (if k' = k then Some v else store_get s k')"
proof -
  obtain t1 where t1: "tx_put D k v (fresh_tx True s) = (Inr u, t1)"
      "\<And>k. not_cdc k \<Longrightarrow> store_get s' k = tx_get_internal t1 k"
    using assms unfolding store_put_def by (rule run_tx_view [OF staging_put]) blast
  show "\<not> prefix INTERNAL_KEY_PREFIX k" using tx_put_get(1) [OF t1(1)] .
  show "not_cdc k' \<Longrightarrow> store_get s' k' = (if k' = k then Some v else store_get s k')"
    using tx_put_get(2) [OF t1(1)] t1(2) by simp
qed

end
