(* ===== verification/Durability.thy ===== *)
theory Durability
  imports Transactions
begin

text \<open>
  The engine against its log: as long as the operating system writes either everything or
  nothing, the file is at every moment the header followed by the encodings of a list of
  records, the visible state is the committed state of that list, reopening the file gives
  that state back, and a crash at any byte leaves the committed state of a prefix that
  contains every transaction whose commit record had reached the file.
\<close>

section \<open>The log of a store\<close>

definition benign :: "os_script \<Rightarrow> bool" where
  "benign os \<longleftrightarrow> (\<forall>w \<in> set (os_writes os). w = WriteOk \<or> (\<exists>k. w = WriteErr 0 k)) \<and>
     (\<forall>y \<in> set (os_syncs os). y = SyncOk)"

definition file_holds :: "deps \<Rightarrow> store \<Rightarrow> log_record list \<Rightarrow> bool" where
  "file_holds D s rs \<longleftrightarrow> (\<exists>bs. encode_log (dep_crc32 D) rs = Inr bs \<and>
     st_file s = header_encode (dep_crc32 D) (st_header s) @ bs)"

definition counters_ahead :: "store \<Rightarrow> log_record list \<Rightarrow> bool" where
  "counters_ahead s rs \<longleftrightarrow> (\<exists>a. replay rs recovery_start = Inr a \<and>
     ra_max_sequence a < st_next_sequence s \<and> ra_max_tx_id a < st_next_tx_id s) \<and>
     (\<forall>r \<in> set rs. lr_sequence r \<noteq> 0)"

definition store_log :: "deps \<Rightarrow> store \<Rightarrow> log_record list \<Rightarrow> bool" where
  "store_log D s rs \<longleftrightarrow> benign (st_os s) \<and> wf_header (st_header s) \<and>
     format_major (st_header s) = FORMAT_MAJOR \<and> file_holds D s rs \<and> counters_ahead s rs"

text \<open>A store whose visible state is what its file says.\<close>

definition durable :: "deps \<Rightarrow> store \<Rightarrow> log_record list \<Rightarrow> bool" where
  "durable D s rs \<longleftrightarrow> store_log D s rs \<and> st_state s = committed_state rs"

text \<open>The same while a transaction is open: its staged operations are the ones it logged.\<close>

definition tx_log :: "deps \<Rightarrow> transaction \<Rightarrow> log_record list \<Rightarrow> bool" where
  "tx_log D t rs \<longleftrightarrow> durable D (tx_store t) rs \<and> tx_id t \<notin> committed_ids rs \<and>
     logged_ops (tx_id t) rs = tx_operations t \<and> tx_id t < st_next_tx_id (tx_store t)"

section \<open>Appending a record\<close>

lemma benign_write:
  assumes "benign (st_os s)" and "write_all bs s = (r, s')"
  shows "benign (st_os s')" and "st_file s' = st_file s @ (case r of Inl _ \<Rightarrow> [] | Inr _ \<Rightarrow> bs)"
    and "st_next_sequence s' = st_next_sequence s"
  using assms
  by (auto simp: write_all_def benign_def split: list.splits write_outcome.splits)

lemma recover_record_accepts:
  assumes "ra_max_sequence a < q" and "counters_inv a" and "t \<notin> set (ra_committed a)"
    and "kind = RPut \<Longrightarrow> \<exists>op. decode_put p = Inr op"
    and "kind = RDelete \<Longrightarrow> \<exists>op. decode_delete p = Inr op"
  shows "\<exists>a'. recover_record (log_record_new kind t q p) a = Inr a'"
proof -
  have "unat (ra_records a) < unat q"
    using assms(1,2) by (simp add: counters_inv_def word_less_nat_alt)
  moreover have "unat q < 2 ^ 64" using unsigned_less [of q, where 'a = nat] by simp
  ultimately have "checked_add (ra_records a) 1 = Some (ra_records a + 1)"
    by (simp add: checked_add_def)
  then show ?thesis
    using assms(1,3-5) by (cases kind) (auto simp: recover_record_def log_record_new_def Let_def)
qed

lemma store_append_Inr:
  assumes "store_append D kind t p s = (Inr u, s')"
  obtains bs s1 where "st_next_sequence s' = st_next_sequence s + 1"
    and "st_next_sequence s \<noteq> - 1"
    and "record_encode (dep_crc32 D) (log_record_new kind t (st_next_sequence s) p) = Inr bs"
    and "write_all bs (s\<lparr>st_next_sequence := st_next_sequence s + 1\<rparr>) = (Inr (), s1)"
    and "st_file s' = st_file s1" and "st_os s' = st_os s1" and "same_view s s'"
proof -
  have q: "st_next_sequence s \<noteq> - 1"
    using assms by (auto simp: store_append_def Let_def checked_add_one_u64 split: if_splits)
  let ?s0 = "s\<lparr>st_next_sequence := st_next_sequence s + 1\<rparr>"
  from assms q obtain bs s1 where
    e: "record_encode (dep_crc32 D) (log_record_new kind t (st_next_sequence s) p) = Inr bs"
    and w: "write_all bs ?s0 = (Inr (), s1)"
    and s': "s' = s1\<lparr>st_metrics := count_append kind bs (st_metrics s1)\<rparr>"
    by (auto simp: store_append_def Let_def checked_add_one_u64 split: sum.splits option.splits prod.splits)
  have "st_next_sequence s1 = st_next_sequence s + 1"
    using w by (auto simp: write_all_def split: list.splits write_outcome.splits)
  then show ?thesis
    using that [OF _ q e w] s' store_append_view [OF assms] by simp
qed

lemma less_add_one_u64: "(q :: u64) \<noteq> - 1 \<Longrightarrow> q < q + 1"
  using checked_add_Some(1) [of q 1 "q + 1"] by (simp add: checked_add_one_u64 word_less_nat_alt)

lemma store_append_Inl:
  assumes "store_append D kind t p s = (Inl e, s')" and "benign (st_os s)"
  shows "st_file s' = st_file s" and "benign (st_os s')"
    and "st_next_sequence s \<le> st_next_sequence s'"
proof -
  have le: "st_next_sequence s \<le> st_next_sequence s + 1" if "st_next_sequence s \<noteq> - 1"
    using less_add_one_u64 [OF that] by simp
  have w: "st_file s1 = st_file s" "benign (st_os s1)" "st_next_sequence s1 = st_next_sequence s + 1"
    if "write_all bs (s\<lparr>st_next_sequence := st_next_sequence s + 1\<rparr>) = (Inl k, s1)" for bs k s1
    using benign_write [OF _ that] assms(2) by simp_all
  let ?s0 = "s\<lparr>st_next_sequence := st_next_sequence s + 1\<rparr>"
  consider "s' = s" | "st_next_sequence s \<noteq> - 1" "s' = ?s0"
    | bs k where "st_next_sequence s \<noteq> - 1" "write_all bs ?s0 = (Inl k, s')"
    using assms(1)
    by (auto simp: store_append_def Let_def checked_add_one_u64
        split: if_splits sum.splits option.splits prod.splits)
  then have "st_file s' = st_file s \<and> benign (st_os s') \<and> st_next_sequence s \<le> st_next_sequence s'"
  proof cases
    case 3
    then show ?thesis using w [OF 3(2)] le by simp
  qed (use assms(2) le in auto)
  then show "st_file s' = st_file s" "benign (st_os s')" "st_next_sequence s \<le> st_next_sequence s'"
    by simp_all
qed

text \<open>A successful append puts one record at the end of the log, a failed one leaves the log
  alone.\<close>

lemma store_log_append_Inl:
  assumes "store_log D s rs" and "store_append D kind t p s = (Inl e, s')"
  shows "store_log D s' rs"
proof -
  have b: "benign (st_os s)" using assms(1) by (simp add: store_log_def)
  note A = store_append_Inl [OF assms(2) b] and V = store_append_view [OF assms(2)]
  show ?thesis
    using assms(1) A V
    by (auto simp: store_log_def file_holds_def counters_ahead_def same_view_def
        intro: order.strict_trans2)
qed

lemma store_log_append_Inr:
  assumes sl: "store_log D s rs" and ap: "store_append D kind t p s = (Inr u, s')"
    and t: "t \<notin> committed_ids rs" "t < st_next_tx_id s"
    and p: "kind = RPut \<Longrightarrow> \<exists>op. decode_put p = Inr op" "kind = RDelete \<Longrightarrow> \<exists>op. decode_delete p = Inr op"
  shows "store_log D s' (rs @ [log_record_new kind t (st_next_sequence s) p])"
proof -
  let ?r = "log_record_new kind t (st_next_sequence s) p"
  from ap obtain bs s1 where A: "st_next_sequence s' = st_next_sequence s + 1"
      "st_next_sequence s \<noteq> - 1" "record_encode (dep_crc32 D) ?r = Inr bs"
      "write_all bs (s\<lparr>st_next_sequence := st_next_sequence s + 1\<rparr>) = (Inr (), s1)"
      "st_file s' = st_file s1" "st_os s' = st_os s1" "same_view s s'"
    by (rule store_append_Inr)
  have W: "benign (st_os s1)" "st_file s1 = st_file s @ bs"
    using benign_write [OF _ A(4)] sl by (simp_all add: store_log_def)
  from sl obtain a where a: "replay rs recovery_start = Inr a" "ra_max_sequence a < st_next_sequence s"
      "ra_max_tx_id a < st_next_tx_id s" and nz: "\<forall>r \<in> set rs. lr_sequence r \<noteq> 0"
    by (auto simp: store_log_def counters_ahead_def)
  have "t \<notin> set (ra_committed a)" using replay_meets_spec [OF a(1)] t(1) by (simp add: replay_inv_def)
  then obtain a' where a': "recover_record ?r a = Inr a'"
    using recover_record_accepts [OF a(2) counters_inv_replay [OF a(1) nz] _ p] by blast
  have "st_next_sequence s \<noteq> 0" using a(2) by auto
  moreover have "ra_max_sequence a' = st_next_sequence s" "ra_max_tx_id a' = max (ra_max_tx_id a) t"
    using recover_record_Inr(3,4) [OF a'] by (simp_all add: log_record_new_def)
  ultimately have "counters_ahead s' (rs @ [?r])"
    using a a' nz t(2) A(1,7) less_add_one_u64 [OF A(2)]
    by (auto simp: counters_ahead_def replay_append res_bind_Inr_iff same_view_def log_record_new_def)
  moreover have "file_holds D s' (rs @ [?r])"
    using sl A(3,5,7) W(2)
    by (auto simp: store_log_def file_holds_def encode_log_append res_bind_Inr_iff same_view_def)
  ultimately show ?thesis using sl A(6,7) W(1) by (simp add: store_log_def same_view_def)
qed

section \<open>The log through a transaction\<close>

text \<open>A transaction adds put and delete records, and at most one commit record, as its last.\<close>

definition extends_log :: "log_record list \<Rightarrow> log_record list \<Rightarrow> bool" where
  "extends_log rs rs' \<longleftrightarrow> (\<exists>ext. rs' = rs @ ext \<and> (\<forall>r \<in> set ext. lr_kind r \<noteq> RCommit))"

definition grows_log :: "log_record list \<Rightarrow> log_record list \<Rightarrow> bool" where
  "grows_log rs rs' \<longleftrightarrow> (\<exists>rs1. extends_log rs rs1 \<and> (rs' = rs1 \<or> (\<exists>c. rs' = rs1 @ [c])))"

lemma extends_log_refl [simp]: "extends_log rs rs"
  by (simp add: extends_log_def)

lemma extends_log_snoc: "lr_kind r \<noteq> RCommit \<Longrightarrow> extends_log rs (rs @ [r])"
  by (simp add: extends_log_def)

lemma extends_log_trans: "extends_log a b \<Longrightarrow> extends_log b c \<Longrightarrow> extends_log a c"
  unfolding extends_log_def by force

lemma grows_log_extends [intro]: "extends_log rs rs' \<Longrightarrow> grows_log rs rs'"
  by (auto simp: grows_log_def)

lemma grows_log_commit: "extends_log rs rs' \<Longrightarrow> grows_log rs (rs' @ [c])"
  by (auto simp: grows_log_def)

lemma grows_log_trans: "extends_log a b \<Longrightarrow> grows_log b c \<Longrightarrow> grows_log a c"
  unfolding grows_log_def using extends_log_trans by blast

lemma committed_state_extends:
  "extends_log rs rs' \<Longrightarrow> length rs \<le> k \<Longrightarrow> committed_state (take k rs') = committed_state rs"
proof -
  have aux: "\<forall>r \<in> set ext. lr_kind r \<noteq> RCommit \<Longrightarrow> committed_state (rs @ ext) = committed_state rs" for ext
    by (induction ext rule: rev_induct) (simp_all add: committed_state_snoc flip: append_assoc)
  assume "extends_log rs rs'" and k: "length rs \<le> k"
  then obtain ext where "rs' = rs @ ext" "\<forall>r \<in> set ext. lr_kind r \<noteq> RCommit"
    by (auto simp: extends_log_def)
  then show ?thesis using aux [of "take (k - length rs) ext"] k by (auto dest: in_set_takeD)
qed

named_theorems logging_intros \<open>actions that keep the log and the staged operations in step\<close>

definition logging :: "deps \<Rightarrow> (transaction, 'e, 'a) act \<Rightarrow> bool" where
  "logging D body \<longleftrightarrow> (\<forall>rs t r t'. tx_log D t rs \<longrightarrow> body t = (r, t') \<longrightarrow>
     (\<exists>rs'. extends_log rs rs' \<and> tx_log D t' rs'))"

lemma loggingD:
  "logging D body \<Longrightarrow> tx_log D t rs \<Longrightarrow> body t = (r, t') \<Longrightarrow> \<exists>rs'. extends_log rs rs' \<and> tx_log D t' rs'"
  by (simp add: logging_def)

lemma loggingI:
  "(\<And>rs t r t'. tx_log D t rs \<Longrightarrow> body t = (r, t') \<Longrightarrow> \<exists>rs'. extends_log rs rs' \<and> tx_log D t' rs') \<Longrightarrow>
     logging D body"
  by (simp add: logging_def)

lemma logging_read [logging_intros]: "logging D (\<lambda>t. (f t, t))"
  by (auto simp: logging_def intro: extends_log_refl)

lemma logging_return [logging_intros]: "logging D (act_return a)"
  by (auto simp: logging_def intro: extends_log_refl)

lemma logging_lift [logging_intros]: "logging D (act_lift r)"
  by (auto simp: logging_def intro: extends_log_refl)

lemma logging_bind [logging_intros]:
  assumes "logging D m" and "\<And>a. logging D (f a)"
  shows "logging D (act_bind m f)"
proof (rule loggingI)
  fix rs t r t'
  assume t: "tx_log D t rs" and "act_bind m f t = (r, t')"
  then consider e where "m t = (Inl e, t')" | a t1 where "m t = (Inr a, t1)" "f a t1 = (r, t')"
    by (auto simp: act_bind_def split: prod.splits sum.splits)
  then show "\<exists>rs'. extends_log rs rs' \<and> tx_log D t' rs'"
  proof cases
    case 1
    then show ?thesis using loggingD [OF assms(1) t] by blast
  next
    case 2
    obtain rs1 where 3: "extends_log rs rs1" "tx_log D t1 rs1"
      using loggingD [OF assms(1) t 2(1)] by blast
    show ?thesis using loggingD [OF assms(2) 3(2) 2(2)] 3(1) by (blast intro: extends_log_trans)
  qed
qed

lemma logging_map_err [logging_intros]: "logging D m \<Longrightarrow> logging D (act_map_err g m)"
  by (fastforce simp: logging_def act_map_err_def split: prod.splits)

lemma logging_for [logging_intros]: "(\<And>x. logging D (f x)) \<Longrightarrow> logging D (act_for f xs)"
  by (induction xs) (simp_all add: logging_return logging_bind)

lemma logging_if [logging_intros]:
  "logging D a \<Longrightarrow> logging D b \<Longrightarrow> logging D (if c then a else b)"
  by simp

lemma tx_stage_log:
  assumes t: "tx_log D t rs" and st: "tx_stage D kind p op t = (r, t')"
    and k: "kind = RPut \<and> decode_put p = Inr op \<or> kind = RDelete \<and> decode_delete p = Inr op"
  shows "\<exists>rs'. extends_log rs rs' \<and> tx_log D t' rs'"
proof -
  obtain ra s where ap: "store_append D kind (tx_id t) p (tx_store t) = (ra, s)"
    by (cases "store_append D kind (tx_id t) p (tx_store t)")
  have d: "store_log D (tx_store t) rs" "st_state (tx_store t) = committed_state rs"
    "tx_id t \<notin> committed_ids rs" "logged_ops (tx_id t) rs = tx_operations t"
    "tx_id t < st_next_tx_id (tx_store t)"
    using t by (auto simp: tx_log_def durable_def)
  note V = store_append_view [OF ap]
  show ?thesis
  proof (cases ra)
    case (Inl e)
    then have "t' = t\<lparr>tx_store := s\<rparr>" using st ap by (simp add: tx_stage_def)
    moreover have "store_log D s rs" using store_log_append_Inl d(1) ap Inl by blast
    ultimately have "tx_log D t' rs" using d V by (simp add: tx_log_def durable_def same_view_def)
    then show ?thesis by (blast intro: extends_log_refl)
  next
    case (Inr u)
    let ?r = "log_record_new kind (tx_id t) (st_next_sequence (tx_store t)) p"
    have t': "t' = t\<lparr>tx_store := s, tx_operations := tx_operations t @ [op]\<rparr>"
      using st ap Inr by (simp add: tx_stage_def)
    have "store_log D s (rs @ [?r])"
      by (rule store_log_append_Inr [OF d(1) ap [unfolded Inr] d(3,5)]) (use k in auto)
    moreover have "record_op ?r = Some op" "lr_kind ?r \<noteq> RCommit" "lr_tx_id ?r = tx_id t"
      using k by (auto simp: record_op_def log_record_new_def)
    ultimately have "tx_log D t' (rs @ [?r])" unfolding t' using d V
      by (simp add: tx_log_def durable_def same_view_def committed_state_snoc committed_ids_snoc
          logged_ops_snoc)
    then show ?thesis using \<open>lr_kind ?r \<noteq> RCommit\<close> by (blast intro: extends_log_snoc)
  qed
qed

lemma logging_put_internal [logging_intros]: "logging D (tx_put_internal D k v)"
proof (rule loggingI)
  fix rs t r t'
  assume t: "tx_log D t rs" and "tx_put_internal D k v t = (r, t')"
  then consider "t' = t" | p where "encode_put k v = Inr p" "tx_stage D RPut p (OpPut k v) t = (r, t')"
    by (auto simp: tx_put_internal_def split: sum.splits)
  then show "\<exists>rs'. extends_log rs rs' \<and> tx_log D t' rs'"
    by cases (use t in \<open>blast intro: extends_log_refl\<close>, use tx_stage_log [OF t] decode_put_encode in blast)
qed

lemma logging_delete_internal [logging_intros]: "logging D (tx_delete_internal D k)"
proof (rule loggingI)
  fix rs t r t'
  assume t: "tx_log D t rs" and "tx_delete_internal D k t = (r, t')"
  then consider "t' = t" | p where "encode_delete k = Inr p" "tx_stage D RDelete p (OpDelete k) t = (r, t')"
    by (auto simp: tx_delete_internal_def split: sum.splits)
  then show "\<exists>rs'. extends_log rs rs' \<and> tx_log D t' rs'"
    by cases (use t in \<open>blast intro: extends_log_refl\<close>, use tx_stage_log [OF t] decode_delete_encode in blast)
qed

lemma logging_put [logging_intros]: "logging D (tx_put D k v)"
  unfolding tx_put_def by (intro logging_intros)

lemma logging_delete [logging_intros]: "logging D (tx_delete D k)"
  unfolding tx_delete_def by (intro logging_intros)

lemma logging_dep: "(\<And>t0. logging D (f t0)) \<Longrightarrow> logging D (\<lambda>t. f t t)"
  unfolding logging_def by metis

lemma stage_changes_from_Cons:
  "stage_changes_from D q (op # ops) =
     (if prefix CDC_PREFIX (op_key op) then stage_changes_from D q ops
      else (\<lambda>t. act_bind (act_lift (map_err map_cdc_error (encode_change (change_of D (tx_id t) q op)))) (\<lambda>encoded.
              act_bind (tx_put_internal D (change_key (tx_id t) q) encoded) (\<lambda>_.
              act_bind (act_lift (ok_or ECounterExhausted (checked_add q 1))) (\<lambda>q1.
              stage_changes_from D q1 ops))) t))"
  by (auto simp: fun_eq_iff act_bind_def act_lift_def ok_or_def split: sum.split prod.split option.split)

lemma logging_stage_changes_from: "logging D (stage_changes_from D q ops)"
proof (induction ops arbitrary: q)
  case Nil
  have "stage_changes_from D q [] = act_return ()" by (simp add: fun_eq_iff)
  then show ?case by (metis logging_return)
next
  case (Cons op ops)
  show ?case unfolding stage_changes_from_Cons
    by (rule logging_if, rule Cons.IH, rule logging_dep) (intro logging_intros Cons.IH)
qed

lemma logging_stage_changes [logging_intros]: "logging D (stage_changes D ops)"
  unfolding stage_changes_def by (rule logging_stage_changes_from)

section \<open>Commit and whole transactions\<close>

lemma benign_sync:
  assumes "benign (st_os s)" and "sync_file s = (r, s')"
  shows "r = Inr ()" and "benign (st_os s')" and "st_file s' = st_file s"
    and "st_next_sequence s' = st_next_sequence s"
  using assms
  by (auto simp: sync_file_def sync_call_def act_map_err_def map_err_def benign_def
      split: durability.splits list.splits sync_outcome.splits)

lemma store_log_cong:
  assumes "store_log D s rs" and "st_file s' = st_file s" and "same_view s s'" and "benign (st_os s')"
    and "st_next_sequence s' = st_next_sequence s"
  shows "store_log D s' rs"
  using assms by (auto simp: store_log_def file_holds_def counters_ahead_def same_view_def)

lemma store_log_metrics [simp]:
  "store_log D (s\<lparr>st_metrics := m\<rparr>) rs \<longleftrightarrow> store_log D s rs"
  "store_log D (s\<lparr>st_state := st\<rparr>) rs \<longleftrightarrow> store_log D s rs"
  by (simp_all add: store_log_def file_holds_def counters_ahead_def)

lemma commit_apply_durable:
  assumes sl: "store_log D (tx_store t) rs" and ca: "commit_apply t = (r, t')"
  shows "r = Inr ()" and "store_log D (tx_store t') rs"
    and "st_state (tx_store t') = apply_operations (st_state (tx_store t)) (tx_operations t)"
proof -
  obtain rs1 s1 where sy: "sync_file (tx_store t) = (rs1, s1)" by (cases "sync_file (tx_store t)")
  have b: "benign (st_os (tx_store t))" using sl by (simp add: store_log_def)
  note B = benign_sync [OF b sy]
  have sl1: "store_log D s1 rs" using store_log_cong [OF sl B(3) sync_file_view [OF sy] B(2,4)] .
  obtain ts s2 where pt: "pop_timing s1 = (ts, s2)" by (cases "pop_timing s1")
  have p: "st_file s2 = st_file s1" "st_next_sequence s2 = st_next_sequence s1" "benign (st_os s2)"
    using pt B(2) by (auto simp: pop_timing_def benign_def split: list.splits)
  have sl2: "store_log D s2 rs" using store_log_cong [OF sl1 p(1) pop_timing_view [OF pt] p(3,2)] .
  have st: "st_state s2 = st_state (tx_store t)"
    using sync_file_view [OF sy] pop_timing_view [OF pt] by (simp add: same_view_def)
  show "r = Inr ()" "store_log D (tx_store t') rs"
    "st_state (tx_store t') = apply_operations (st_state (tx_store t)) (tx_operations t)"
    using ca sy B(1) pt sl2 st by (cases ts; simp add: commit_apply_def; auto)+
qed

lemma commit_record_durable:
  assumes t: "tx_log D t rs" and c: "commit_record D t = (r, t')"
  shows "case r of Inl _ \<Rightarrow> tx_log D t' rs
    | Inr _ \<Rightarrow> \<exists>q. store_log D (tx_store t') (rs @ [log_record_new RCommit (tx_id t) q []])"
proof -
  obtain ra s where ap: "store_append D RCommit (tx_id t) [] (tx_store t) = (ra, s)"
    by (cases "store_append D RCommit (tx_id t) [] (tx_store t)")
  have d: "store_log D (tx_store t) rs" "tx_id t \<notin> committed_ids rs"
    "tx_id t < st_next_tx_id (tx_store t)"
    using t by (auto simp: tx_log_def durable_def)
  show ?thesis
  proof (cases ra)
    case (Inl e)
    then have "store_log D s rs" using store_log_append_Inl d(1) ap by blast
    moreover have "r = Inl e" "t' = t\<lparr>tx_store := s\<rparr>" using c ap Inl by (auto simp: commit_record_def)
    ultimately show ?thesis using t store_append_view [OF ap]
      by (simp add: tx_log_def durable_def same_view_def)
  next
    case (Inr u)
    have "store_log D s (rs @ [log_record_new RCommit (tx_id t) (st_next_sequence (tx_store t)) []])"
      by (rule store_log_append_Inr [OF d(1) ap [unfolded Inr] d(2,3)]) auto
    then show ?thesis using c ap Inr by (auto simp: commit_record_def)
  qed
qed

lemma tx_log_store: "tx_log D t rs \<Longrightarrow> durable D (tx_store t) rs"
  by (simp add: tx_log_def)

lemma durable_metrics [simp]: "durable D (s\<lparr>st_metrics := m\<rparr>) rs \<longleftrightarrow> durable D s rs"
  by (simp add: durable_def)

lemma commit_inner_durable:
  assumes t: "tx_log D t rs" and c: "commit_inner D t = (r, t')"
  shows "\<exists>rs'. grows_log rs rs' \<and> durable D (tx_store t') rs' \<and>
    (r = Inr () \<longrightarrow> tx_id t \<in> committed_ids rs')"
proof -
  let ?cdc = "if tx_emit_cdc t then stage_changes D (tx_operations t) else act_return ()"
  let ?pre = "act_bind (act_lift (ensure_open t)) (\<lambda>_. act_bind ?cdc (\<lambda>_.
       (\<lambda>t1. (check_namespace_quota D (tx_store t1) (tx_operations t1), t1))))"
  have assoc: "commit_inner D t = act_bind ?pre (\<lambda>_. act_bind (commit_record D) (\<lambda>_. commit_apply)) t"
    by (simp only: commit_inner_def act_bind_assoc)
  obtain rp t1 where p: "?pre t = (rp, t1)" by (cases "?pre t")
  have "logging D ?pre" by (intro logging_intros)
  from loggingD [OF this t p] obtain rs1 where rs1: "extends_log rs rs1" "tx_log D t1 rs1" by blast
  have "staging ?pre" by (intro staging_intros)
  from stagingD [OF this p] have id1: "tx_id t1 = tx_id t" by (auto simp: tx_ext_def)
  obtain rc t2 where cr: "commit_record D t1 = (rc, t2)" by (cases "commit_record D t1")
  note R = commit_record_durable [OF rs1(2) cr]
  consider e where "rp = Inl e" "t' = t1" "r = Inl e" | e u where "rp = Inr u" "rc = Inl e" "t' = t2" "r = Inl e"
    | u w where "rp = Inr u" "rc = Inr w" "commit_apply t2 = (r, t')"
    using c p cr unfolding assoc by (auto simp: act_bind_def split: sum.splits)
  then show ?thesis
  proof cases
    case 1
    then show ?thesis using rs1 by (auto intro: tx_log_store)
  next
    case 2
    then show ?thesis using R rs1(1) by (auto intro: tx_log_store)
  next
    case 3
    then obtain q where sl: "store_log D (tx_store t2) (rs1 @ [log_record_new RCommit (tx_id t1) q []])"
      using R by auto
    note A = commit_apply_durable [OF sl 3(3)]
    have "tx_ext [] t1 t2" by (rule commit_record_ext [OF cr])
    then have "durable D (tx_store t') (rs1 @ [log_record_new RCommit (tx_id t1) q []])"
      using A(2,3) rs1(2)
      by (simp add: durable_def tx_log_def tx_ext_def same_view_def committed_state_snoc log_record_new_def)
    then show ?thesis using rs1(1) id1
      by (intro exI [of _ "rs1 @ [log_record_new RCommit (tx_id t1) q []]"])
        (auto simp: committed_ids_snoc log_record_new_def intro: grows_log_commit)
  qed
qed

theorem tx_commit_durable:
  assumes "tx_log D t rs" and "tx_commit D t = (r, s')"
  shows "\<exists>rs'. grows_log rs rs' \<and> durable D s' rs' \<and> (r = Inr () \<longrightarrow> tx_id t \<in> committed_ids rs')"
proof -
  obtain rc t' where c: "commit_inner D t = (rc, t')" by (cases "commit_inner D t")
  show ?thesis using commit_inner_durable [OF assms(1) c] assms(2) c
    by (auto simp: tx_commit_def split: sum.splits)
qed

lemma tx_log_fresh:
  assumes d: "durable D s rs" and n: "st_next_tx_id s \<noteq> - 1"
  shows "tx_log D (fresh_tx emit s) rs"
proof -
  from d obtain a where a: "replay rs recovery_start = Inr a" "ra_max_tx_id a < st_next_tx_id s"
    by (auto simp: durable_def store_log_def counters_ahead_def)
  have "\<forall>r \<in> set rs. lr_tx_id r < st_next_tx_id s"
    using replay_meets_spec [OF a(1)] a(2) by (auto simp: replay_inv_def)
  then have "st_next_tx_id s \<notin> lr_tx_id ` set rs" by auto
  moreover have "store_log D (tx_store (fresh_tx emit s)) rs"
    using d less_add_one_u64 [OF n]
    by (fastforce simp: durable_def store_log_def counters_ahead_def file_holds_def fresh_tx_def)
  ultimately show ?thesis using d less_add_one_u64 [OF n]
    by (auto simp: tx_log_def durable_def logged_ops_not_commit committed_ids_def)
qed

text \<open>Every transaction, committed, failed or dropped, leaves a store whose visible state is
  what its file says.\<close>

theorem run_tx_durable:
  assumes b: "logging D body" and d: "durable D s rs" and run: "run_tx D emit conv body s = (r, s')"
  shows "\<exists>rs'. grows_log rs rs' \<and> durable D s' rs'"
proof (cases "st_next_tx_id s = - 1")
  case True
  then have "s' = s" using run by (auto simp: run_tx_def begin_with_cdc_eq)
  then show ?thesis using d by (blast intro: extends_log_refl)
next
  case False
  obtain rb t1 where t1: "body (fresh_tx emit s) = (rb, t1)" by (cases "body (fresh_tx emit s)")
  obtain rs1 where rs1: "extends_log rs rs1" "tx_log D t1 rs1"
    using loggingD [OF b tx_log_fresh [OF d False] t1] by blast
  have "s' = tx_store t1 \<or> (\<exists>rc. tx_commit D t1 = (rc, s'))"
    using run False t1 by (auto simp: run_tx_def begin_with_cdc_eq split: sum.splits prod.splits)
  then show ?thesis using rs1 tx_commit_durable [OF rs1(2)]
    by (blast intro: tx_log_store grows_log_trans)
qed

section \<open>Reopening and crashing\<close>

lemma replay_mono:
  assumes "replay rs b = Inr a"
  shows "ra_max_sequence b \<le> ra_max_sequence a \<and> ra_max_tx_id b \<le> ra_max_tx_id a"
  using assms
proof (induction rs arbitrary: b)
  case Nil
  then show ?case by simp
next
  case (Cons r rs)
  from Cons.prems obtain b' where b': "recover_record r b = Inr b'"
    and "replay rs (b'\<lparr>ra_offset := ra_offset b + record_size r\<rparr>) = Inr a"
    by (auto simp: res_bind_Inr_iff)
  with Cons.IH have "ra_max_sequence b' \<le> ra_max_sequence a" "ra_max_tx_id b' \<le> ra_max_tx_id a"
    by fastforce+
  moreover have "ra_max_sequence b \<le> ra_max_sequence b'" "ra_max_tx_id b \<le> ra_max_tx_id b'"
    using recover_record_Inr(2-4) [OF b'] by auto
  ultimately show ?case by auto
qed

lemma counters_ahead_take:
  assumes "counters_ahead s rs"
  shows "counters_ahead s (take k rs)"
proof -
  from assms obtain a where a: "replay rs recovery_start = Inr a"
      "ra_max_sequence a < st_next_sequence s" "ra_max_tx_id a < st_next_tx_id s"
    by (auto simp: counters_ahead_def)
  have "replay (take k rs @ drop k rs) recovery_start = Inr a" using a(1) by simp
  then obtain b where b: "replay (take k rs) recovery_start = Inr b" "replay (drop k rs) b = Inr a"
    unfolding replay_append by (auto simp: res_bind_Inr_iff)
  show ?thesis using replay_mono [OF b(2)] a(2,3) b(1) assms
    by (auto simp: counters_ahead_def dest: in_set_takeD)
qed

lemma next_counter_Inr: "m < n \<Longrightarrow> next_counter m = Inr (m + 1) \<and> m < m + 1"
proof -
  assume mn: "m < n"
  then have "m \<noteq> - 1" by auto
  then show ?thesis using less_add_one_u64 [of m]
    by (auto simp: next_counter_def checked_add_one_u64 ok_or_def)
qed

lemma unat_of_nat_u64: "n < 2 ^ 64 \<Longrightarrow> unat (of_nat n :: u64) = n"
  by (simp add: unsigned_of_nat take_bit_nat_eq_self)

text \<open>What opening does with a header followed by the encoding of a log and a torn tail.\<close>

lemma open_file_log:
  assumes h: "wf_header h" "format_major h = FORMAT_MAJOR"
    and bs: "encode_log (dep_crc32 D) rs = Inr bs" and tail: "torn (dep_crc32 D) tail"
    and c: "counters_ahead s rs" and os: "benign os"
    and len: "STORE_HEADER_LEN + length bs + length tail < 2 ^ 64"
    and rep: "opt_repair_torn_tail opts \<or> tail = []"
  shows "\<exists>s'. open_file D opts now (header_encode (dep_crc32 D) h @ bs @ tail) os = (Inr s', s') \<and>
    durable D s' rs \<and> st_header s' = h \<and> st_options s' = opts \<and>
    st_file s' = header_encode (dep_crc32 D) h @ bs"
proof -
  let ?crc = "dep_crc32 D" let ?f = "header_encode ?crc h @ bs @ tail"
  let ?s0 = "raw_store opts ?f os"
  from c obtain a where a: "replay rs recovery_start = Inr a" "ra_max_sequence a < st_next_sequence s"
      "ra_max_tx_id a < st_next_tx_id s" and nz: "\<forall>r \<in> set rs. lr_sequence r \<noteq> 0"
    by (auto simp: counters_ahead_def)
  have lh: "length (header_encode ?crc h) = STORE_HEADER_LEN" using h(1) by simp
  have h64: "STORE_HEADER_LEN = 64" by (simp add: STORE_HEADER_LEN_def)
  have ld: "load_or_initialize_header D now ?s0 = (Inr h, ?s0)"
    using header_decode_encode [OF h, of ?crc "[]"] lh h64
    by (auto simp: load_or_initialize_header_def raw_store_def map_err_def)
  have loop: "recover_loop ?crc (bs @ tail) recovery_start = Inr a"
    using recover_loop_replay [OF bs tail, of recovery_start "[]"] a(1) by (simp add: recovery_start_def)
  have off: "ra_offset a = length bs"
    using replay_offset [OF a(1)] encode_log_length [OF bs] by (simp add: recovery_start_def)
  obtain r where r: "recover ?crc ?f = Inr r" "rec_state r = ra_state a"
      "rec_max_tx_id r = ra_max_tx_id a" "rec_max_sequence r = ra_max_sequence a"
      "rec_valid_end r = of_nat (STORE_HEADER_LEN + length bs)"
    using loop lh off by (simp add: recover_def)
  have ve: "unat (rec_valid_end r) = STORE_HEADER_LEN + length bs"
    unfolding r(5) using len by (intro unat_of_nat_u64) simp
  have lt: "rec_valid_end r < of_nat (length ?f) \<longleftrightarrow> tail \<noteq> []"
    using len lh by (simp add: word_less_nat_alt ve unat_of_nat_u64 del: of_nat_add)
  obtain s1 where s1: "repair_tail r ?s0 = (Inr (), s1)" "st_file s1 = header_encode ?crc h @ bs"
      "benign (st_os s1)" "st_options s1 = opts"
  proof -
    obtain rt s1 where rt: "repair_tail r ?s0 = (rt, s1)" by (cases "repair_tail r ?s0")
    let ?cut = "?s0\<lparr>st_file := take (unat (rec_valid_end r)) ?f\<rparr>"
    have "rt = Inr () \<and> st_file s1 = header_encode ?crc h @ bs \<and> benign (st_os s1) \<and> st_options s1 = opts"
    proof (cases "tail = []")
      case True
      then show ?thesis using rt lt os by (auto simp: repair_tail_def raw_store_def)
    next
      case False
      then have sy: "sync_file ?cut = (rt, s1)"
        using rt lt rep by (simp add: repair_tail_def raw_store_def)
      have b: "benign (st_os ?cut)" using os by (simp add: raw_store_def)
      have "st_options s1 = opts" using sync_file_view [OF sy] by (simp add: same_view_def raw_store_def)
      then show ?thesis using benign_sync [OF b sy] lh ve by simp
    qed
    then show ?thesis using that rt by simp
  qed
  note nc = next_counter_Inr [OF a(2)] next_counter_Inr [OF a(3)]
  obtain s' where s': "finish_open h r s1 = (Inr s', s')" "st_file s' = st_file s1" "st_os s' = st_os s1"
      "st_options s' = st_options s1" "st_header s' = h" "st_state s' = ra_state a"
      "st_next_tx_id s' = ra_max_tx_id a + 1" "st_next_sequence s' = ra_max_sequence a + 1"
    using nc r by (simp add: finish_open_def Let_def)
  have op: "open_file D opts now ?f os = (Inr s', s')"
    using ld r(1) s1(1) s'(1) by (simp add: open_file_def act_bind_def raw_store_def)
  have "durable D s' rs"
    using s' s1 bs h a(1) nz nc replay_meets_spec [OF a(1)]
    by (auto simp: durable_def store_log_def file_holds_def counters_ahead_def replay_inv_def)
  then show ?thesis using op s' s1 by auto
qed

text \<open>Closing and reopening gives the visible state back, and the store is durable again.\<close>

theorem reopen_durable:
  assumes d: "durable D s rs" and os: "benign os" and len: "length (st_file s) < 2 ^ 64"
  shows "\<exists>s'. open_file D opts now (st_file s) os = (Inr s', s') \<and> durable D s' rs \<and>
    st_state s' = st_state s \<and> st_header s' = st_header s \<and> st_file s' = st_file s"
proof -
  from d obtain bs where bs: "encode_log (dep_crc32 D) rs = Inr bs"
      and f: "st_file s = header_encode (dep_crc32 D) (st_header s) @ bs"
      and h: "wf_header (st_header s)" "format_major (st_header s) = FORMAT_MAJOR"
      and c: "counters_ahead s rs" and st: "st_state s = committed_state rs"
    by (auto simp: durable_def store_log_def file_holds_def)
  have "STORE_HEADER_LEN + length bs + length [] < 2 ^ 64" using len f h(1) by simp
  from open_file_log [OF h bs torn_Nil c os this] show ?thesis
    using f st by (auto simp: durable_def)
qed

text \<open>After a crash that kept the first \<open>n\<close> bytes, opening gives the committed state of a
  prefix of the log; the prefix contains every record that lay within those bytes.\<close>

theorem crash_durable:
  assumes d: "durable D s rs" and os: "benign os" and len: "length (st_file s) < 2 ^ 64"
    and n: "STORE_HEADER_LEN \<le> n" and rep: "opt_repair_torn_tail opts"
  shows "\<exists>k s'. k \<le> length rs \<and> open_file D opts now (take n (st_file s)) os = (Inr s', s') \<and>
    durable D s' (take k rs) \<and>
    (\<forall>j bj. j \<le> length rs \<longrightarrow> encode_log (dep_crc32 D) (take j rs) = Inr bj \<longrightarrow>
       STORE_HEADER_LEN + length bj \<le> n \<longrightarrow> j \<le> k)"
proof -
  let ?crc = "dep_crc32 D" and ?h = "st_header s"
  from d obtain bs where bs: "encode_log ?crc rs = Inr bs" and f: "st_file s = header_encode ?crc ?h @ bs"
      and h: "wf_header ?h" "format_major ?h = FORMAT_MAJOR" and c: "counters_ahead s rs"
    by (auto simp: durable_def store_log_def file_holds_def)
  obtain k bk tail where k: "k \<le> length rs" "encode_log ?crc (take k rs) = Inr bk" "torn ?crc tail"
      "take (n - STORE_HEADER_LEN) bs = bk @ tail"
      "k < length rs \<longrightarrow> n - STORE_HEADER_LEN < length bk + record_size (rs ! k)"
    using encode_log_take [OF bs, of "n - STORE_HEADER_LEN"] by blast
  have tk: "take n (st_file s) = header_encode ?crc ?h @ bk @ tail"
    using f h(1) n k(4) by simp
  have "length (take n (st_file s)) \<le> length (st_file s)" by simp
  then have "STORE_HEADER_LEN + length bk + length tail < 2 ^ 64"
    using len h(1) unfolding tk by simp
  from open_file_log [OF h k(2,3) counters_ahead_take [OF c] os this] rep tk
  obtain s' where s': "open_file D opts now (take n (st_file s)) os = (Inr s', s')" "durable D s' (take k rs)"
    by auto
  moreover have "j \<le> k" if "j \<le> length rs" "encode_log ?crc (take j rs) = Inr bj"
    "STORE_HEADER_LEN + length bj \<le> n" for j bj
    by (rule cut_keeps_prefix [OF bs k(1,2,5) that(2,1)]) (use that(3) in simp)
  ultimately show ?thesis using k(1) by blast
qed

lemma durable_file_length:
  assumes "durable D s rs"
  obtains bs where "encode_log (dep_crc32 D) rs = Inr bs" and "length (st_file s) = STORE_HEADER_LEN + length bs"
  using assms by (auto simp: durable_def store_log_def file_holds_def)

text \<open>A crash at any moment of a transaction, from before its first record to after its commit:
  the reopened store shows the state before the transaction or the state after it.\<close>

theorem crash_in_transaction:
  assumes d: "durable D s rs" and b: "logging D body" and run: "run_tx D emit conv body s = (r, s1)"
    and os: "benign os" and len: "length (st_file s1) < 2 ^ 64"
    and n: "length (st_file s) \<le> n" and rep: "opt_repair_torn_tail opts"
  shows "\<exists>s'. open_file D opts now (take n (st_file s1)) os = (Inr s', s') \<and>
    (st_state s' = st_state s \<or> st_state s' = st_state s1)"
proof -
  obtain rs1 where rs1: "grows_log rs rs1" "durable D s1 rs1" using run_tx_durable [OF b d run] by blast
  obtain bs where bs: "encode_log (dep_crc32 D) rs = Inr bs" "length (st_file s) = STORE_HEADER_LEN + length bs"
    using d by (rule durable_file_length)
  have "STORE_HEADER_LEN \<le> n" using bs(2) n by simp
  from crash_durable [OF rs1(2) os len this rep] obtain k s' where
    s': "k \<le> length rs1" "open_file D opts now (take n (st_file s1)) os = (Inr s', s')"
      "durable D s' (take k rs1)"
    and keep: "\<forall>j bj. j \<le> length rs1 \<longrightarrow> encode_log (dep_crc32 D) (take j rs1) = Inr bj \<longrightarrow>
       STORE_HEADER_LEN + length bj \<le> n \<longrightarrow> j \<le> k" by blast
  obtain rs2 where rs2: "extends_log rs rs2" "rs1 = rs2 \<or> (\<exists>c. rs1 = rs2 @ [c])"
    using rs1(1) by (auto simp: grows_log_def)
  obtain ext where ext: "rs1 = rs @ ext" using rs2 by (auto simp: extends_log_def)
  have k: "length rs \<le> k" using keep bs n ext by simp
  have "committed_state (take k rs1) = committed_state rs \<or> take k rs1 = rs1"
  proof (cases "k < length rs1")
    case True
    then have "take k rs1 = take k rs2" using rs2(2) by auto
    then show ?thesis using committed_state_extends [OF rs2(1) k] by simp
  next
    case False
    then show ?thesis by simp
  qed
  then show ?thesis using s'(2,3) rs1(2) d by (auto simp: durable_def)
qed

section \<open>Recoverable stores\<close>

text \<open>The form in which the layers above carry durability along.\<close>

definition recoverable :: "deps \<Rightarrow> store \<Rightarrow> bool" where
  "recoverable D s \<longleftrightarrow> (\<exists>rs. durable D s rs)"

lemma recoverable_run:
  "logging D body \<Longrightarrow> recoverable D s \<Longrightarrow> run_tx D emit conv body s = (r, s') \<Longrightarrow> recoverable D s'"
  unfolding recoverable_def using run_tx_durable by blast

lemma recoverable_put_internal:
  "recoverable D s \<Longrightarrow> store_put_internal D k v s = (r, s') \<Longrightarrow> recoverable D s'"
  unfolding store_put_internal_def by (rule recoverable_run [OF logging_put_internal])

lemma recoverable_delete_internal:
  "recoverable D s \<Longrightarrow> store_delete_internal D k s = (r, s') \<Longrightarrow> recoverable D s'"
  unfolding store_delete_internal_def by (rule recoverable_run [OF logging_delete_internal])

lemma recoverable_put: "recoverable D s \<Longrightarrow> store_put D k v s = (r, s') \<Longrightarrow> recoverable D s'"
  unfolding store_put_def by (rule recoverable_run [OF logging_put])

lemma recoverable_delete: "recoverable D s \<Longrightarrow> store_delete D k s = (r, s') \<Longrightarrow> recoverable D s'"
  unfolding store_delete_def by (rule recoverable_run [OF logging_delete])

lemma recoverable_metrics [simp]:
  "recoverable D (record_queue_claim s) = recoverable D s" "recoverable D (record_queue_ack s) = recoverable D s"
  by (simp_all add: recoverable_def record_queue_claim_def record_queue_ack_def)

lemma recoverable_reopen:
  assumes "recoverable D s" and "benign os" and "length (st_file s) < 2 ^ 64"
  shows "\<exists>s'. open_file D opts now (st_file s) os = (Inr s', s') \<and> recoverable D s' \<and> st_state s' = st_state s"
  using assms reopen_durable unfolding recoverable_def by blast

section \<open>Actions that keep a property of the store\<close>

definition keeps :: "('s \<Rightarrow> bool) \<Rightarrow> ('s, 'e, 'a) act \<Rightarrow> bool" where
  "keeps P a \<longleftrightarrow> (\<forall>s r s'. P s \<longrightarrow> a s = (r, s') \<longrightarrow> P s')"

named_theorems keeps_intros \<open>actions that keep a property of the store\<close>

lemma keepsD: "keeps P a \<Longrightarrow> P s \<Longrightarrow> a s = (r, s') \<Longrightarrow> P s'"
  unfolding keeps_def by blast

lemma keeps_bind [keeps_intros]: "keeps P a \<Longrightarrow> (\<And>x. keeps P (f x)) \<Longrightarrow> keeps P (act_bind a f)"
proof (unfold keeps_def, intro allI impI)
  fix s r s'
  assume a: "\<forall>s r s'. P s \<longrightarrow> a s = (r, s') \<longrightarrow> P s'" and f: "\<And>x. \<forall>s r s'. P s \<longrightarrow> f x s = (r, s') \<longrightarrow> P s'"
    and s: "P s" "act_bind a f s = (r, s')"
  obtain q s1 where q: "a s = (q, s1)" by fastforce
  have p: "P s1" using a s(1) q by blast
  show "P s'"
  proof (cases q)
    case (Inl e)
    then show ?thesis using s(2) q p by (simp add: act_bind_def)
  next
    case (Inr x)
    then have "f x s1 = (r, s')" using s(2) q by (simp add: act_bind_def)
    then show ?thesis using f p by blast
  qed
qed

lemma keeps_pure [keeps_intros]: "keeps P (act_return v)" "keeps P (act_lift r)" "keeps P (\<lambda>s. (g s, s))"
  by (simp_all add: keeps_def)

lemma keeps_map_err [keeps_intros]: "keeps P a \<Longrightarrow> keeps P (act_map_err e a)"
  unfolding keeps_def by (auto simp: act_map_err_def split: prod.splits sum.splits)

lemma keeps_if [keeps_intros]: "keeps P a \<Longrightarrow> keeps P b \<Longrightarrow> keeps P (if c then a else b)"
  by simp

lemma keeps_option [keeps_intros]: "keeps P a \<Longrightarrow> (\<And>x. keeps P (f x)) \<Longrightarrow> keeps P (case c of None \<Rightarrow> a | Some x \<Rightarrow> f x)"
  by (cases c) simp_all

lemma keeps_prod [keeps_intros]: "(\<And>x y. keeps P (f x y)) \<Longrightarrow> keeps P (case c of (x, y) \<Rightarrow> f x y)"
  by (cases c) simp

lemma keeps_for [keeps_intros]: "(\<And>x. keeps P (f x)) \<Longrightarrow> keeps P (act_for f xs)"
  by (induction xs) (simp_all add: keeps_pure keeps_bind)

lemma keeps_run [keeps_intros]: "logging D body \<Longrightarrow> keeps (recoverable D) (run_tx D emit conv body)"
  unfolding keeps_def using recoverable_run by blast

lemma keeps_store [keeps_intros]: "keeps (recoverable D) (store_put_internal D k v)" "keeps (recoverable D) (store_delete_internal D k)"
  "keeps (recoverable D) (store_put D k v)" "keeps (recoverable D) (store_delete D k)"
  unfolding store_put_internal_def store_delete_internal_def store_put_def store_delete_def by (intro keeps_intros logging_intros)+

end
