(* ===== verification/Change_Feed.thy ===== *)
theory Change_Feed
  imports Durability
begin

text \<open>
  The change feed (\<open>crates/voodoo-store-core/src/cdc.rs\<close>: \<open>changes_after\<close>,
  \<open>changes_for_transaction\<close>, \<open>prune_changes_through\<close>). A committed transaction leaves in the feed
  exactly one change per operation, in operation order; reading after a position returns the
  changes of later transactions in commit order, and pruning removes a prefix of the feed and
  nothing else.
\<close>

section \<open>Model\<close>

fun changes_loop ::
  "u64 option \<Rightarrow> usize \<Rightarrow> change_record list \<Rightarrow> kv \<Rightarrow> change_feed_error + change_record list" where
  "changes_loop after limit changes [] = Inr changes"
| "changes_loop after limit changes ((_, encoded) # rest) =
     res_bind (decode_change encoded) (\<lambda>change.
       if (case after of None \<Rightarrow> False | Some a \<Rightarrow> ch_tx_id change \<le> a)
       then changes_loop after limit changes rest
       else if length (changes @ [change]) = limit then Inr (changes @ [change])
       else changes_loop after limit (changes @ [change]) rest)"

definition changes_after :: "store \<Rightarrow> u64 option \<Rightarrow> usize \<Rightarrow> change_feed_error + change_record list" where
  "changes_after s after limit =
     (if limit = 0 then Inr [] else changes_loop after limit [] (scan_prefix s CDC_PREFIX))"

definition changes_for_transaction :: "store \<Rightarrow> u64 \<Rightarrow> change_feed_error + change_record list" where
  "changes_for_transaction s t =
     res_bind (map_result (\<lambda>(_, encoded). decode_change encoded) (scan_prefix s (change_tx_prefix t)))
       (\<lambda>changes. Inr (sort_key ch_sequence changes))"

fun prune_keys :: "u64 \<Rightarrow> usize \<Rightarrow> bytes list \<Rightarrow> kv \<Rightarrow> change_feed_error + bytes list" where
  "prune_keys t limit keys [] = Inr keys"
| "prune_keys t limit keys ((key, encoded) # rest) =
     res_bind (decode_change encoded) (\<lambda>change.
       if ch_tx_id change > t then Inr keys
       else if length (keys @ [key]) = limit then Inr (keys @ [key])
       else prune_keys t limit (keys @ [key]) rest)"

definition prune_changes_through ::
  "deps \<Rightarrow> u64 \<Rightarrow> usize \<Rightarrow> (store, change_feed_error, usize) act" where
  "prune_changes_through D t limit s =
     (if limit = 0 then (Inr 0, s)
      else case prune_keys t limit [] (scan_prefix s CDC_PREFIX) of
             Inl e \<Rightarrow> (Inl e, s)
           | Inr keys \<Rightarrow>
               if keys = [] then (Inr 0, s)
               else run_tx D False CfStore
                      (act_bind (act_for (\<lambda>k. act_map_err CfStore (tx_delete_internal D k)) keys)
                        (\<lambda>_. act_return (length keys))) s)"

section \<open>The records of a transaction\<close>

fun changes_of :: "deps \<Rightarrow> u64 \<Rightarrow> u32 \<Rightarrow> operation list \<Rightarrow> change_record list" where
  "changes_of D t q [] = []"
| "changes_of D t q (op # ops) =
     (if prefix CDC_PREFIX (op_key op) then changes_of D t q ops
      else change_of D t q op # changes_of D t (q + 1) ops)"

text \<open>The one fact about \<open>sha2\<close> that the format relies on.\<close>

definition sha_ok :: "deps \<Rightarrow> bool" where
  "sha_ok D \<longleftrightarrow> (\<forall>bs. length (dep_sha256 D bs) = 32)"

lemma change_of_simps [simp]:
  "ch_tx_id (change_of D t q op) = t" "ch_sequence (change_of D t q op) = q"
  "ch_key (change_of D t q op) = op_key op"
  by (cases op; simp)+

lemma wf_change_of: "sha_ok D \<Longrightarrow> wf_change (change_of D t q op)"
  by (cases op) (simp_all add: wf_change_def sha_ok_def)

definition stores_change :: "operation \<Rightarrow> change_record \<Rightarrow> bool" where
  "stores_change op c \<longleftrightarrow> (\<exists>bs. encode_change c = Inr bs \<and>
     op = OpPut (change_key (ch_tx_id c) (ch_sequence c)) bs)"

lemma stage_changes_from_Inr:
  assumes "stage_changes_from D q ops t = (Inr (), t')"
  shows "list_all2 stores_change (cdc_ops D (tx_id t) q ops) (changes_of D (tx_id t) q ops)"
  using assms
proof (induction ops arbitrary: q t)
  case Nil
  then show ?case by simp
next
  case (Cons op ops)
  show ?case
  proof (cases "prefix CDC_PREFIX (op_key op)")
    case True
    then show ?thesis using Cons by simp
  next
    case False
    then obtain encoded t1 q1 where enc: "encode_change (change_of D (tx_id t) q op) = Inr encoded"
      and put: "tx_put_internal D (change_key (tx_id t) q) encoded t = (Inr (), t1)"
      and q1: "checked_add q 1 = Some q1" and rest: "stage_changes_from D q1 ops t1 = (Inr (), t')"
      using Cons.prems unfolding stage_changes_from_Cons
      by (auto simp: act_bind_Inr_iff ok_or_def split: sum.splits option.splits)
    have "tx_id t1 = tx_id t" using tx_put_internal_ext [OF put] by (simp add: tx_ext_def)
    moreover have "q1 = q + 1" using checked_add_Some(2) [OF q1] .
    ultimately show ?thesis using Cons.IH [OF rest] False enc by (simp add: stores_change_def)
  qed
qed

lemma length_changes_of:
  "\<forall>op \<in> set ops. not_cdc (op_key op) \<Longrightarrow> length (changes_of D t q ops) = length ops"
  by (induction ops arbitrary: q) auto

lemma changes_of_nth:
  "\<forall>op \<in> set ops. not_cdc (op_key op) \<Longrightarrow> i < length ops \<Longrightarrow>
     changes_of D t q ops ! i = change_of D t (q + of_nat i) (ops ! i)"
  by (induction ops arbitrary: q i) (auto simp: nth_Cons algebra_simps split: nat.split)

lemma changes_of_sequences:
  assumes "unat q + length (changes_of D t q ops) < 2 ^ 32"
  shows "sorted_wrt (<) (map ch_sequence (changes_of D t q ops)) \<and>
    (\<forall>c \<in> set (changes_of D t q ops). q \<le> ch_sequence c \<and> ch_tx_id c = t)"
  using assms
proof (induction ops arbitrary: q)
  case (Cons op ops)
  show ?case
  proof (cases "prefix CDC_PREFIX (op_key op)")
    case True
    then show ?thesis using Cons by simp
  next
    case False
    with Cons.prems have b: "unat q + 1 + length (changes_of D t (q + 1) ops) < 2 ^ 32" by simp
    then have u: "unat (q + 1) = unat q + 1" by (simp add: unat_word_ariths)
    then have lt: "q < q + 1" by (simp add: word_less_nat_alt)
    have IH: "sorted_wrt (<) (map ch_sequence (changes_of D t (q + 1) ops))"
      "\<forall>c \<in> set (changes_of D t (q + 1) ops). q + 1 \<le> ch_sequence c \<and> ch_tx_id c = t"
      using Cons.IH [of "q + 1"] b u by simp_all
    from IH(2) lt have "\<forall>c \<in> set (changes_of D t (q + 1) ops). q < ch_sequence c \<and> ch_tx_id c = t"
      by (auto intro: order.strict_trans2)
    then show ?thesis using IH(1) False by (auto intro: order.strict_implies_order)
  qed
qed simp

section \<open>The feed invariant\<close>

text \<open>Every key of the feed's namespace holds the record whose position it names, of a
  transaction that has begun.\<close>

definition feed_entry :: "store \<Rightarrow> bytes \<Rightarrow> bytes \<Rightarrow> bool" where
  "feed_entry s k v \<longleftrightarrow> (\<exists>c. k = change_key (ch_tx_id c) (ch_sequence c) \<and>
     encode_change c = Inr v \<and> wf_change c \<and> ch_tx_id c < st_next_tx_id s)"

definition feed_inv :: "store \<Rightarrow> bool" where
  "feed_inv s \<longleftrightarrow> store_wf s \<and>
     (\<forall>k v. store_get s k = Some v \<longrightarrow> prefix CDC_PREFIX k \<longrightarrow> feed_entry s k v)"

definition entry_of :: "change_record \<Rightarrow> bytes \<times> bytes" where
  "entry_of c = (change_key (ch_tx_id c) (ch_sequence c),
     case encode_change c of Inl _ \<Rightarrow> [] | Inr bs \<Rightarrow> bs)"

lemma stores_change_eq: "stores_change op c \<Longrightarrow> op = OpPut (fst (entry_of c)) (snd (entry_of c))"
  by (auto simp: stores_change_def entry_of_def)

lemma list_all2_stores_change:
  "list_all2 stores_change cops cs \<Longrightarrow> cops = map (\<lambda>c. OpPut (fst (entry_of c)) (snd (entry_of c))) cs"
  by (induction rule: list_all2_induct) (auto dest: stores_change_eq)

lemma tx_commit_captured:
  assumes "tx_commit D t = (Inr u, s')" and "tx_emit_cdc t"
  shows "list_all2 stores_change (captured D t) (changes_of D (tx_id t) 0 (tx_operations t))"
    and "length (changes_of D (tx_id t) 0 (tx_operations t)) < 2 ^ 32"
proof -
  obtain t' where c: "commit_inner D t = (Inr (), t')"
    using assms by (auto simp: tx_commit_def split: prod.splits sum.splits)
  then obtain t1 where sc: "stage_changes_from D 0 (tx_operations t) t = (Inr (), t1)"
    using assms(2) unfolding commit_inner_def stage_changes_def
    by (auto simp: act_bind_Inr_iff split: sum.splits)
  show a: "list_all2 stores_change (captured D t) (changes_of D (tx_id t) 0 (tx_operations t))"
    using stage_changes_from_Inr [OF sc] assms(2) by (simp add: captured_def)
  have "length (captured D t) < 2 ^ 32"
    using stage_changes_from_ext [OF sc] assms(2) by (auto simp: captured_def)
  then show "length (changes_of D (tx_id t) 0 (tx_operations t)) < 2 ^ 32"
    using list_all2_lengthD [OF a] by simp
qed

lemma staged_lookup_puts:
  assumes "distinct (map fst es)"
  shows "staged_lookup (rev (map (\<lambda>e. OpPut (fst e) (snd e)) es)) k c =
    (case map_of es k of Some v \<Rightarrow> Some v | None \<Rightarrow> c)"
  using assms
proof (induction es arbitrary: c)
  case (Cons e es)
  have "map_of es k = None" if "k = fst e" using Cons.prems that by (auto simp: map_of_eq_None_iff)
  then show ?case using Cons by (auto simp: staged_lookup_append split: option.split)
qed simp

lemma entry_of_fst [simp]: "fst (entry_of c) = change_key (ch_tx_id c) (ch_sequence c)"
  by (simp add: entry_of_def)

lemma entries_sorted:
  assumes "sorted_wrt (<) (map ch_sequence cs)" and "\<forall>c \<in> set cs. ch_tx_id c = t"
  shows "sorted_wrt (<) (map fst (map entry_of cs))"
  using assms by (induction cs) (auto simp: change_key_less_iff)

text \<open>What a committed transaction does to the feed: its changes carry its id, lie in key order
  and are what the feed's keys hold afterwards, before anything that was there.\<close>

lemma captured_entries:
  assumes st: "staging body" and run: "run_tx D True conv body s = (Inr v, s')"
    and b: "body (fresh_tx True s) = (Inr v, t1)" and ops: "\<forall>op \<in> set (tx_operations t1). not_cdc (op_key op)"
  defines "cs \<equiv> changes_of D (st_next_tx_id s) 0 (tx_operations t1)"
  shows "sorted_wrt (<) (map fst (map entry_of cs))"
    and "sorted_wrt (<) (map ch_sequence cs)"
    and "\<forall>c \<in> set cs. ch_tx_id c = st_next_tx_id s \<and> (\<exists>bs. encode_change c = Inr bs)"
    and "prefix CDC_PREFIX k \<Longrightarrow>
      store_get s' k = (case map_of (map entry_of cs) k of Some v \<Rightarrow> Some v | None \<Rightarrow> store_get s k)"
proof -
  from run_tx_Inr [OF st run] b have c: "tx_commit D t1 = (Inr (), s')"
      and s': "st_state s' = apply_operations (st_state s) (tx_operations t1 @ captured D t1)"
      and ext: "tx_ext (tx_operations t1) (fresh_tx True s) t1"
    by (metis Inr_inject Pair_inject)+
  have t1: "tx_id t1 = st_next_tx_id s" "tx_emit_cdc t1" using ext by (simp_all add: tx_ext_def)
  note L = tx_commit_captured [OF c t1(2), unfolded t1(1), folded cs_def]
  have cap: "captured D t1 = map (\<lambda>e. OpPut (fst e) (snd e)) (map entry_of cs)"
    using list_all2_stores_change [OF L(1)] by simp
  have "unat (0 :: u32) + length cs < 2 ^ 32" using L(2) by simp
  from changes_of_sequences [OF this [unfolded cs_def], folded cs_def]
  have seqs: "sorted_wrt (<) (map ch_sequence cs)" "\<forall>c \<in> set cs. ch_tx_id c = st_next_tx_id s" by auto
  from L(1) have "\<forall>c \<in> set cs. \<exists>bs. encode_change c = Inr bs"
    by (auto simp: list_all2_conv_all_nth stores_change_def in_set_conv_nth) blast
  then show "\<forall>c \<in> set cs. ch_tx_id c = st_next_tx_id s \<and> (\<exists>bs. encode_change c = Inr bs)"
    using seqs(2) by blast
  show "sorted_wrt (<) (map ch_sequence cs)" by (rule seqs(1))
  show sorted: "sorted_wrt (<) (map fst (map entry_of cs))" by (rule entries_sorted [OF seqs])
  then have dist: "distinct (map fst (map entry_of cs))" by (simp only: strict_sorted_iff)
  show "store_get s' k = (case map_of (map entry_of cs) k of Some v \<Rightarrow> Some v | None \<Rightarrow> store_get s k)"
    if "prefix CDC_PREFIX k"
  proof -
    have "k \<notin> op_key ` set (tx_operations t1)" using ops that by auto
    then show ?thesis
      unfolding store_get_def s' map_of_apply_operations rev_append staged_lookup_append cap
      by (simp only: staged_lookup_puts [OF dist]) (simp add: staged_lookup_other split: option.split)
  qed
qed

lemma strict_sorted_scan: "store_wf s \<Longrightarrow> sorted_wrt (<) (map fst (scan_prefix s p))"
  using sorted_scan_map distinct_scan_map by (simp add: scan_prefix_def strict_sorted_iff store_wf_def)

lemma feed_scan_entry: "feed_inv s \<Longrightarrow> (k, v) \<in> set (scan_prefix s CDC_PREFIX) \<Longrightarrow> feed_entry s k v"
  by (simp add: feed_inv_def in_scan_prefix_iff)

theorem feed_append:
  assumes inv: "feed_inv s" and st: "staging body" and run: "run_tx D True conv body s = (Inr v, s')"
    and b: "body (fresh_tx True s) = (Inr v, t1)" and ops: "\<forall>op \<in> set (tx_operations t1). not_cdc (op_key op)"
  shows "scan_prefix s' CDC_PREFIX = scan_prefix s CDC_PREFIX @
    map entry_of (changes_of D (st_next_tx_id s) 0 (tx_operations t1))"
proof -
  let ?t = "st_next_tx_id s" let ?cs = "changes_of D ?t 0 (tx_operations t1)"
  let ?old = "scan_prefix s CDC_PREFIX" and ?new = "map entry_of ?cs"
  note C = captured_entries [OF st run b ops]
  have wf: "store_wf s" using inv by (simp add: feed_inv_def)
  have wf': "wf_map (st_state s')" using run_tx_wf [OF st wf run] by (simp add: store_wf_def)
  have dist: "distinct (map fst ?new)" using C(1) by (simp only: strict_sorted_iff)
  have old: "\<exists>t' q. k = change_key t' q \<and> t' < ?t" if "(k, v) \<in> set ?old" for k v
    using feed_scan_entry [OF inv that] unfolding feed_entry_def by blast
  have new: "\<exists>q. k = change_key ?t q" if "(k, v) \<in> set ?new" for k v
    using that C(3) by (auto simp: entry_of_def)
  have lt: "k < k'" if kk: "k \<in> set (map fst ?old)" "k' \<in> set (map fst ?new)" for k k'
  proof -
    from kk(1) obtain v where "(k, v) \<in> set ?old" by auto
    then obtain t' q where k: "k = change_key t' q" "t' < ?t" using old by blast
    from kk(2) obtain e where "e \<in> set ?new" "k' = fst e" unfolding set_map [of fst] by blast
    then obtain q' where "k' = change_key ?t q'" using new [of "fst e" "snd e"] by auto
    with k show ?thesis by (simp add: change_key_less_iff)
  qed
  have all: "sorted_wrt (<) (map fst (?old @ ?new))"
    unfolding map_append sorted_wrt_append
    using lt by (intro conjI strict_sorted_scan [OF wf] C(1) ballI)
  have mem: "(k, v) \<in> set (?old @ ?new) \<longleftrightarrow> prefix CDC_PREFIX k \<and> map_of (st_state s') k = Some v" for k v
  proof (cases "prefix CDC_PREFIX k")
    case True
    have "(k, v) \<in> set ?new \<longleftrightarrow> map_of ?new k = Some v"
      using map_of_eq_Some_iff [OF dist] by blast
    moreover have "map_of ?new k = None" if "store_get s k = Some v"
    proof -
      have "(k, v) \<in> set ?old" using that True by (simp add: in_scan_prefix_iff [OF wf])
      then have "k \<in> set (map fst ?old)" by force
      then have "k \<notin> set (map fst ?new)" using lt [of k k] by blast
      then show ?thesis by (simp only: map_of_eq_None_iff set_map not_False_eq_True)
    qed
    ultimately show ?thesis
      using True C(4) [OF True] unfolding set_append Un_iff in_scan_prefix_iff [OF wf]
      by (auto simp: store_get_def split: option.splits)
  next
    case False
    then show ?thesis using new [of k v] by (auto simp: in_scan_prefix_iff [OF wf] change_key_prefix(1))
  qed
  show ?thesis
    unfolding scan_prefix_def [of s']
    by (rule scan_map_unique [OF wf' _ _ mem]) (use all [unfolded strict_sorted_iff] in blast)+
qed

lemma feed_inv_run:
  assumes inv: "feed_inv s" and sha: "sha_ok D" and st: "staging body"
    and run: "run_tx D True conv body s = (Inr v, s')"
    and b: "body (fresh_tx True s) = (Inr v, t1)" and ops: "\<forall>op \<in> set (tx_operations t1). not_cdc (op_key op)"
  shows "feed_inv s'"
proof -
  have wf: "store_wf s" using inv by (simp add: feed_inv_def)
  have n: "st_next_tx_id s' = st_next_tx_id s + 1" by (rule run_tx_Inr [OF st run]) assumption
  have "st_next_tx_id s \<noteq> - 1" using run by (auto simp: run_tx_def begin_with_cdc_eq split: if_splits)
  then have lt: "st_next_tx_id s < st_next_tx_id s'" unfolding n by (rule less_add_one_u64)
  let ?cs = "changes_of D (st_next_tx_id s) 0 (tx_operations t1)"
  have wfc: "\<forall>c \<in> set (changes_of D t q os). wf_change c" for t q os
    using wf_change_of [OF sha] by (induction os arbitrary: q) auto
  have "feed_entry s' k v" if kv: "(k, v) \<in> set (scan_prefix s' CDC_PREFIX)" for k v
  proof -
    consider "(k, v) \<in> set (scan_prefix s CDC_PREFIX)" | "(k, v) \<in> entry_of ` set ?cs"
      using kv unfolding feed_append [OF inv st run b ops] by auto
    then show ?thesis
    proof cases
      case 1
      then show ?thesis using feed_scan_entry [OF inv 1] lt unfolding feed_entry_def
        by (blast intro: order.strict_trans)
    next
      case 2
      then obtain c where "c \<in> set ?cs" "(k, v) = entry_of c" by blast
      then show ?thesis using captured_entries(3) [OF st run b ops] wfc lt
        by (force simp: feed_entry_def entry_of_def)
    qed
  qed
  then show ?thesis using run_tx_wf [OF st wf run] by (auto simp: feed_inv_def in_scan_prefix_iff)
qed

section \<open>Reading the feed\<close>

text \<open>The feed as a list of records.\<close>

definition feed :: "store \<Rightarrow> change_feed_error + change_record list" where
  "feed s = map_result (\<lambda>(_, encoded). decode_change encoded) (scan_prefix s CDC_PREFIX)"

lemma map_result_append:
  "map_result f (xs @ ys) = res_bind (map_result f xs) (\<lambda>a. res_bind (map_result f ys) (\<lambda>b. Inr (a @ b)))"
  by (induction xs) (auto simp: res_bind_def split: sum.split)

lemma map_result_entries:
  assumes "\<forall>c \<in> set cs. wf_change c \<and> (\<exists>bs. encode_change c = Inr bs)"
  shows "map_result (\<lambda>(_, encoded). decode_change encoded) (map entry_of cs) = Inr cs"
  using assms by (induction cs) (auto simp: entry_of_def dest: decode_change_encode)

lemma feed_Inr: "feed_inv s \<Longrightarrow> \<exists>cs. feed s = Inr cs"
proof -
  assume inv: "feed_inv s"
  have "\<exists>c. decode_change v = Inr c" if "(k, v) \<in> set (scan_prefix s CDC_PREFIX)" for k v
    using feed_scan_entry [OF inv that] decode_change_encode unfolding feed_entry_def by blast
  then have "\<exists>cs. map_result (\<lambda>(_, encoded). decode_change encoded) xs = Inr cs"
    if "set xs \<subseteq> set (scan_prefix s CDC_PREFIX)" for xs
    using that by (induction xs) fastforce+
  then show ?thesis unfolding feed_def by blast
qed

lemma changes_loop_spec:
  assumes "map_result (\<lambda>(_, encoded). decode_change encoded) es = Inr cs" and "length acc < limit"
  shows "changes_loop after limit acc es =
    Inr (acc @ take (limit - length acc)
      (filter (\<lambda>c. case after of None \<Rightarrow> True | Some a \<Rightarrow> a < ch_tx_id c) cs))"
  using assms
proof (induction es arbitrary: acc cs)
  case (Cons e es)
  obtain k v where e: "e = (k, v)" by (cases e)
  obtain c cs' where c: "decode_change v = Inr c" "cs = c # cs'"
      "map_result (\<lambda>(_, encoded). decode_change encoded) es = Inr cs'"
    using Cons.prems(1) e by (auto simp: res_bind_Inr_iff)
  have acc: "Suc (length acc) \<noteq> limit \<Longrightarrow> length (acc @ [c]) < limit" using Cons.prems(2) by simp
  have lim: "limit - length acc = Suc (limit - Suc (length acc))" using Cons.prems(2) by simp
  show ?case
    using Cons.IH [OF c(3) Cons.prems(2)] Cons.IH [OF c(3) acc] lim unfolding e c(2)
    by (auto simp: c(1) not_le split: option.split)
qed simp

text \<open>Reading after a position returns, in feed order, the first changes of later transactions.\<close>

theorem changes_after_feed:
  assumes "feed s = Inr cs"
  shows "changes_after s after limit =
    Inr (take limit (filter (\<lambda>c. case after of None \<Rightarrow> True | Some a \<Rightarrow> a < ch_tx_id c) cs))"
  using changes_loop_spec [of _ cs "[]" limit after] assms
  by (simp add: changes_after_def feed_def)

lemma scan_map_filter: "prefix q p \<Longrightarrow> scan_map p m = filter (\<lambda>(k, _). prefix p k) (scan_map q m)"
proof -
  assume "prefix q p"
  then have "filter (\<lambda>(k, _). prefix p k) m = filter (\<lambda>(k, _). prefix p k) (filter (\<lambda>(k, _). prefix q k) m)"
    by (auto intro!: filter_cong dest: prefix_order.trans)
  then show ?thesis unfolding scan_map_def by (metis filter_sort)
qed

lemma prefix_change_key [simp]: "prefix (change_tx_prefix t) (change_key t' q) \<longleftrightarrow> t = t'"
proof
  assume "prefix (change_tx_prefix t) (change_key t' q)"
  then have "take (length (change_tx_prefix t)) (change_key t' q) = change_tx_prefix t"
    by (auto simp: prefix_def)
  then show "t = t'" by (simp add: change_key_def change_tx_prefix_def)
qed (simp add: change_key_prefix(2))

text \<open>The changes of a committed transaction are one per operation, in order.\<close>

theorem transaction_changes:
  assumes inv: "feed_inv s" and sha: "sha_ok D" and st: "staging body"
    and run: "run_tx D True conv body s = (Inr v, s')"
    and b: "body (fresh_tx True s) = (Inr v, t1)" and ops: "\<forall>op \<in> set (tx_operations t1). not_cdc (op_key op)"
  shows "changes_for_transaction s' (st_next_tx_id s) =
    Inr (changes_of D (st_next_tx_id s) 0 (tx_operations t1))"
proof -
  let ?t = "st_next_tx_id s" let ?cs = "changes_of D ?t 0 (tx_operations t1)"
  let ?p = "\<lambda>(k, _ :: bytes). prefix (change_tx_prefix ?t) k"
  note C = captured_entries [OF st run b ops]
  have "prefix CDC_PREFIX (change_tx_prefix ?t)" by (simp add: change_tx_prefix_def)
  then have "scan_prefix s' (change_tx_prefix ?t) = filter ?p (scan_prefix s CDC_PREFIX) @ filter ?p (map entry_of ?cs)"
    using feed_append [OF inv st run b ops] scan_map_filter unfolding scan_prefix_def by simp
  moreover have "filter ?p (scan_prefix s CDC_PREFIX) = []"
    using feed_scan_entry [OF inv] by (fastforce simp: filter_empty_conv feed_entry_def)
  moreover have "filter ?p (map entry_of ?cs) = map entry_of ?cs"
    using C(3) by (auto simp: filter_id_conv entry_of_def)
  moreover have "\<forall>c \<in> set (changes_of D t q os). wf_change c" for t q os
    using wf_change_of [OF sha] by (induction os arbitrary: q) auto
  ultimately have "map_result (\<lambda>(_, encoded). decode_change encoded) (scan_prefix s' (change_tx_prefix ?t)) = Inr ?cs"
    using map_result_entries C(3) by simp
  moreover have "sorted (map ch_sequence ?cs)" using C(2) by (simp only: strict_sorted_iff)
  ultimately show ?thesis by (simp add: changes_for_transaction_def sort_key_id_if_sorted)
qed

lemma feed_grows:
  assumes inv: "feed_inv s" and sha: "sha_ok D" and st: "staging body"
    and run: "run_tx D True conv body s = (Inr v, s')"
    and b: "body (fresh_tx True s) = (Inr v, t1)" and ops: "\<forall>op \<in> set (tx_operations t1). not_cdc (op_key op)"
    and f: "feed s = Inr cs"
  shows "feed s' = Inr (cs @ changes_of D (st_next_tx_id s) 0 (tx_operations t1))"
proof -
  have "\<forall>c \<in> set (changes_of D t q os). wf_change c" for t q os
    using wf_change_of [OF sha] by (induction os arbitrary: q) auto
  then have "map_result (\<lambda>(_, encoded). decode_change encoded)
      (map entry_of (changes_of D (st_next_tx_id s) 0 (tx_operations t1))) = Inr (changes_of D (st_next_tx_id s) 0 (tx_operations t1))"
    using captured_entries(3) [OF st run b ops] by (intro map_result_entries) auto
  then show ?thesis using f by (simp add: feed_def feed_append [OF inv st run b ops] map_result_append)
qed

section \<open>Pruning\<close>

lemma prune_keys_spec:
  assumes "map_result (\<lambda>(_, encoded). decode_change encoded) es = Inr cs" and "length acc < limit"
  shows "prune_keys t limit acc es =
    Inr (acc @ take (min (limit - length acc) (length (takeWhile (\<lambda>c. ch_tx_id c \<le> t) cs))) (map fst es))"
  using assms
proof (induction es arbitrary: acc cs)
  case (Cons e es)
  obtain k v where e: "e = (k, v)" by (cases e)
  obtain c cs' where c: "decode_change v = Inr c" "cs = c # cs'"
      "map_result (\<lambda>(_, encoded). decode_change encoded) es = Inr cs'"
    using Cons.prems(1) e by (auto simp: res_bind_Inr_iff)
  have lim: "limit - length acc = Suc (limit - Suc (length acc))" using Cons.prems(2) by simp
  show ?case
    using Cons.IH [OF c(3), of "acc @ [k]"] Cons.prems(2) lim unfolding e c(2) by (auto simp: c(1))
qed simp

lemma delete_all_ext:
  assumes "act_for (\<lambda>k. act_map_err f (tx_delete_internal D k)) ks t = (Inr u, t')"
  shows "tx_ext (map OpDelete ks) t t'"
  using assms
proof (induction ks arbitrary: t)
  case (Cons k ks)
  then obtain t1 where t1: "tx_delete_internal D k t = (Inr (), t1)"
      "act_for (\<lambda>k. act_map_err f (tx_delete_internal D k)) ks t1 = (Inr u, t')"
    by (auto simp: act_bind_Inr_iff act_map_err_iff)
  have "tx_ext [OpDelete k] t t1" using tx_delete_internal_ext [OF t1(1)] by simp
  from tx_ext_trans [OF this Cons.IH [OF t1(2)]] show ?case by simp
qed simp

lemma staged_lookup_deletes:
  "staged_lookup (map OpDelete ks) k c = (if k \<in> set ks then None else c)"
  by (induction ks) auto

lemma staging_delete_all:
  "staging (act_bind (act_for (\<lambda>k. act_map_err f (tx_delete_internal D k)) ks) (\<lambda>_. act_return r))"
  by (intro staging_intros)

lemma run_delete_all:
  assumes "run_tx D False conv
      (act_bind (act_for (\<lambda>k. act_map_err f (tx_delete_internal D k)) ks) (\<lambda>_. act_return r)) s = (Inr n, s')"
  shows "n = r" and "store_get s' k = (if k \<in> set ks then None else store_get s k)"
proof -
  from assms obtain t1 where b: "act_bind (act_for (\<lambda>k. act_map_err f (tx_delete_internal D k)) ks) (\<lambda>_. act_return r)
        (fresh_tx False s) = (Inr n, t1)"
      and x: "tx_ext (tx_operations t1) (fresh_tx False s) t1"
      and s': "st_state s' = apply_operations (st_state s) (tx_operations t1 @ captured D t1)"
    by (rule run_tx_Inr [OF staging_delete_all])
  from b show "n = r" by (auto simp: act_bind_Inr_iff)
  from b have "tx_operations t1 = map OpDelete ks"
    by (auto simp: act_bind_Inr_iff tx_ext_def dest!: delete_all_ext)
  moreover have "captured D t1 = []" using x by (simp add: captured_def tx_ext_def)
  ultimately show "store_get s' k = (if k \<in> set ks then None else store_get s k)"
    unfolding store_get_def s' by (simp add: map_of_apply_operations staged_lookup_deletes rev_map)
qed

text \<open>Deleting the first keys of a scan leaves the rest of the scan.\<close>

lemma scan_prefix_drop:
  assumes wf: "store_wf s" and wf': "store_wf s'"
    and get: "\<And>k. store_get s' k = (if k \<in> set (take n (map fst (scan_prefix s p))) then None else store_get s k)"
  shows "scan_prefix s' p = drop n (scan_prefix s p)"
proof -
  let ?es = "scan_prefix s p" and ?ks = "take n (map fst (scan_prefix s p))"
  have ss: "sorted (map fst ?es)" "distinct (map fst ?es)"
    using strict_sorted_scan [OF wf, of p] unfolding strict_sorted_iff by blast+
  have m: "wf_map (st_state s')" using wf' by (simp add: store_wf_def)
  show ?thesis
    unfolding scan_prefix_def [of s']
  proof (rule scan_map_unique [OF m])
    show "sorted (map fst (drop n ?es))" "distinct (map fst (drop n ?es))"
      using ss by (simp_all add: sorted_wrt_drop flip: drop_map)
    fix k v
    have "distinct (?ks @ drop n (map fst ?es))" using ss(2) by simp
    then have "set ?ks \<inter> fst ` set (drop n ?es) = {}" by (simp add: drop_map del: append_take_drop_id)
    moreover have "(k, v) \<in> set ?es \<longleftrightarrow> (k, v) \<in> set (take n ?es) \<or> (k, v) \<in> set (drop n ?es)"
      by (metis Un_iff append_take_drop_id set_append)
    moreover have "(k, v) \<in> set (take n ?es) \<Longrightarrow> k \<in> set ?ks" by (force simp: take_map)
    ultimately show "(k, v) \<in> set (drop n ?es) \<longleftrightarrow> prefix p k \<and> map_of (st_state s') k = Some v"
      using get [of k] in_scan_prefix_iff [OF wf, of k v p] by (force simp: store_get_def)
  qed
qed

text \<open>Pruning removes a prefix of the feed: at most \<open>limit\<close> changes, only of transactions up to
  \<open>t\<close>, and nothing outside the feed.\<close>

theorem prune_spec:
  assumes wf: "store_wf s" and f: "feed s = Inr cs" and p: "prune_changes_through D t limit s = (Inr n, s')"
  shows "n = min limit (length (takeWhile (\<lambda>c. ch_tx_id c \<le> t) cs)) \<and> feed s' = Inr (drop n cs) \<and>
    (\<forall>k. not_cdc k \<longrightarrow> store_get s' k = store_get s k)"
proof -
  define m where "m = min limit (length (takeWhile (\<lambda>c. ch_tx_id c \<le> t) cs))"
  let ?es = "scan_prefix s CDC_PREFIX" let ?ks = "take m (map fst ?es)"
  have len: "length ?es = length cs" using f by (auto simp: feed_def map_result_Inr_iff list_all2_lengthD)
  have keys: "limit \<noteq> 0 \<Longrightarrow> prune_keys t limit [] ?es = Inr ?ks"
    using prune_keys_spec [OF f [unfolded feed_def], of "[]" limit t] by (simp add: m_def)
  have "m \<le> length cs" unfolding m_def using length_takeWhile_le [of _ cs] by (meson min.coboundedI2)
  then have lk: "length ?ks = m" using len by simp
  consider "m = 0" "n = 0" "s' = s" | "run_tx D False CfStore
        (act_bind (act_for (\<lambda>k. act_map_err CfStore (tx_delete_internal D k)) ?ks) (\<lambda>_. act_return m)) s = (Inr n, s')"
  proof (cases "limit = 0 \<or> ?ks = []")
    case True
    then have m0: "m = 0" using lk by (auto simp: m_def)
    then have "limit \<noteq> 0 \<Longrightarrow> prune_keys t limit [] ?es = Inr []" using keys by simp
    then have "n = 0" "s' = s"
      using p unfolding prune_changes_through_def by (cases "limit = 0"; simp)+
    then show ?thesis using m0 that(1) by blast
  next
    case False
    then show ?thesis using p keys lk that(2) by (simp add: prune_changes_through_def)
  qed
  then have "n = m \<and> feed s' = Inr (drop n cs) \<and> (\<forall>k. not_cdc k \<longrightarrow> store_get s' k = store_get s k)"
  proof cases
    case 1
    then show ?thesis using f by simp
  next
    case 2
    note R = run_delete_all [OF 2]
    have "scan_prefix s' CDC_PREFIX = drop m ?es"
      by (rule scan_prefix_drop [OF wf run_tx_wf [OF staging_delete_all wf 2] R(2)])
    then have "feed s' = Inr (drop m cs)"
      using f unfolding feed_def map_result_Inr_iff by (simp add: list_all2_dropI)
    moreover have "k \<notin> set ?ks" if "not_cdc k" for k
      using that by (force dest!: in_set_takeD simp: in_scan_prefix_iff [OF wf])
    ultimately show ?thesis using R by simp
  qed
  then show ?thesis by (simp add: m_def)
qed

lemma scan_prefix_snoc:
  assumes wf: "store_wf s" and wf': "store_wf s'" and p: "prefix p k0"
    and get: "\<And>k. prefix p k \<Longrightarrow> store_get s' k = (if k = k0 then Some v0 else store_get s k)"
    and gt: "\<And>k v. (k, v) \<in> set (scan_prefix s p) \<Longrightarrow> k < k0"
  shows "scan_prefix s' p = scan_prefix s p @ [(k0, v0)]"
proof -
  have m: "wf_map (st_state s')" using wf' by (simp add: store_wf_def)
  have ss: "sorted_wrt (<) (map fst (scan_prefix s p @ [(k0, v0)]))"
    using strict_sorted_scan [OF wf, of p] gt by (auto simp: sorted_wrt_append)
  have "(k, v) \<in> set (scan_prefix s p @ [(k0, v0)]) \<longleftrightarrow> prefix p k \<and> map_of (st_state s') k = Some v" for k v
  proof (cases "k = k0")
    case True
    then show ?thesis using get [of k0] p gt [of k0 v] by (auto simp: store_get_def)
  next
    case False
    then show ?thesis using get [of k] in_scan_prefix_iff [OF wf, of k v p] by (auto simp: store_get_def)
  qed
  from scan_map_unique [OF m _ _ this] ss [unfolded strict_sorted_iff] show ?thesis
    by (simp only: scan_prefix_def)
qed

end
