(* ===== verification/Progress.thy ===== *)
theory Progress
  imports Change_Feed
begin

text \<open>
  Operations succeed when nothing stands in their way: with an operating system that does not
  fail, no quotas, counters that are not exhausted and values that fit their length fields,
  every put, delete and commit returns \<open>Ok\<close>.
\<close>

definition healthy :: "nat \<Rightarrow> store \<Rightarrow> bool" where
  "healthy n s \<longleftrightarrow> os_writes (st_os s) = [] \<and> os_syncs (st_os s) = [] \<and>
     opt_max_bytes (st_options s) = None \<and> opt_namespace_max_bytes (st_options s) = None \<and>
     unat (st_next_sequence s) + n < 2 ^ 64 \<and> unat (st_next_tx_id s) + n < 2 ^ 64 \<and>
     length (st_file s) + n * 2 ^ 33 < 2 ^ 64"

lemma healthy_mono: "healthy n s \<Longrightarrow> m \<le> n \<Longrightarrow> healthy m s"
proof -
  assume h: "healthy n s" and m: "m \<le> n"
  have "m * 2 ^ 33 \<le> n * 2 ^ 33" using m by simp
  then show "healthy m s" using h m unfolding healthy_def by (intro conjI) auto
qed

lemma healthy_file: "healthy n s \<Longrightarrow> length (st_file s) < 2 ^ 64"
  by (simp add: healthy_def)

lemma record_encode_ok:
  "length p < 2 ^ 32 \<Longrightarrow> \<exists>bs. record_encode crc (log_record_new kind t q p) = Inr bs"
  by (simp add: record_encode_def log_record_new_def u32_try_from_len_def Let_def)

lemma store_append_ok:
  assumes h: "healthy (Suc n) s" and p: "length p < 2 ^ 32"
  shows "\<exists>s'. store_append D kind t p s = (Inr (), s') \<and> healthy n s'"
proof -
  obtain bs where bs: "record_encode (dep_crc32 D) (log_record_new kind t (st_next_sequence s) p) = Inr bs"
    using record_encode_ok [OF p] by blast
  have lt: "unat (st_next_sequence s) + 1 < 2 ^ 64" using h by (simp add: healthy_def)
  then have c: "checked_add (st_next_sequence s) 1 = Some (st_next_sequence s + 1)"
    by (simp add: checked_add_def)
  have u: "unat (st_next_sequence s + 1) = unat (st_next_sequence s) + 1"
    using checked_add_Some(1) [OF c] by simp
  have "length bs \<le> 2 ^ 33" using record_encode_length [OF bs] p by (simp add: log_record_new_def HEADER_LEN_def)
  then show ?thesis using h bs c u
    by (simp add: store_append_def Let_def over_quota_def write_all_def healthy_def)
qed

definition ready :: "nat \<Rightarrow> transaction \<Rightarrow> bool" where
  "ready n t \<longleftrightarrow> \<not> tx_finished t \<and> healthy n (tx_store t)"

lemma tx_stage_ok:
  assumes "ready (Suc n) t" and "length p < 2 ^ 32"
  shows "\<exists>t'. tx_stage D kind p op t = (Inr (), t') \<and> ready n t'"
  using assms store_append_ok [of n "tx_store t" p D kind "tx_id t"]
  by (auto simp: ready_def tx_stage_def)

lemma tx_put_internal_ok:
  assumes t: "ready (Suc n) t" and l: "length k + length v + 4 < 2 ^ 32"
  shows "\<exists>t'. tx_put_internal D k v t = (Inr (), t') \<and> ready n t'"
proof -
  obtain p where p: "encode_put k v = Inr p" "length p = 4 + length k + length v"
    using l by (simp add: encode_put_def u32_try_from_len_def)
  then show ?thesis using tx_stage_ok [OF t, of p D RPut "OpPut k v"] l t
    by (auto simp: tx_put_internal_def ensure_open_def ready_def)
qed

lemma tx_delete_internal_ok:
  assumes t: "ready (Suc n) t" and l: "length k + 4 < 2 ^ 32"
  shows "\<exists>t'. tx_delete_internal D k t = (Inr (), t') \<and> ready n t'"
proof -
  obtain p where p: "encode_delete k = Inr p" "length p = 4 + length k"
    using l by (simp add: encode_delete_def u32_try_from_len_def)
  then show ?thesis using tx_stage_ok [OF t, of p D RDelete "OpDelete k"] l t
    by (auto simp: tx_delete_internal_def ensure_open_def ready_def)
qed

lemma encode_change_ok:
  assumes sha: "sha_ok D" and k: "length (op_key op) < 2 ^ 31"
  shows "\<exists>bs. encode_change (change_of D t q op) = Inr bs \<and> length bs < 2 ^ 31 + 64"
proof -
  have "length (op_key op) < 2 ^ 32" using k by simp
  then show ?thesis using sha k
    by (cases op) (simp_all add: encode_change_def u32_try_from_len_def Let_def sha_ok_def)
qed

lemma length_change_key: "length (change_key t q) = 28"
  by (simp add: change_key_def change_tx_prefix_def CDC_PREFIX_def ascii_def)

lemma stage_changes_from_ok:
  assumes "sha_ok D" and "\<forall>op \<in> set ops. length (op_key op) < 2 ^ 31"
    and "unat q + length ops < 2 ^ 32 - 1" and "ready (length ops + n) t"
  shows "\<exists>t'. stage_changes_from D q ops t = (Inr (), t') \<and> ready n t'"
  using assms(2-4)
proof (induction ops arbitrary: q t)
  case (Cons op ops)
  show ?case
  proof (cases "prefix CDC_PREFIX (op_key op)")
    case True
    have "ready (length ops + n) t" using Cons.prems(3) healthy_mono by (auto simp: ready_def)
    then show ?thesis using True Cons.IH [of q t] Cons.prems by simp
  next
    case False
    obtain bs where bs: "encode_change (change_of D (tx_id t) q op) = Inr bs" "length bs < 2 ^ 31 + 64"
      using encode_change_ok [OF assms(1)] Cons.prems(1) by (metis list.set_intros(1))
    have "ready (Suc (length ops + n)) t" using Cons.prems(3) by simp
    moreover have "length (change_key (tx_id t) q) + length bs + 4 < 2 ^ 32"
      using bs(2) by (simp add: length_change_key)
    ultimately obtain t1 where t1: "tx_put_internal D (change_key (tx_id t) q) bs t = (Inr (), t1)" "ready (length ops + n) t1"
      using tx_put_internal_ok by blast
    have c: "checked_add q 1 = Some (q + 1)" using Cons.prems(2) by (simp add: checked_add_def)
    have u: "unat (q + 1) = unat q + 1" using checked_add_Some(1) [OF c] by simp
    then obtain t' where "stage_changes_from D (q + 1) ops t1 = (Inr (), t')" "ready n t'"
      using Cons.IH [of "q + 1" t1] Cons.prems t1(2) by auto
    then show ?thesis using False bs t1 c by simp
  qed
qed simp

lemma sync_file_ok: "healthy n s \<Longrightarrow> sync_file s = (Inr (), s)"
  by (auto simp: healthy_def sync_file_def sync_call_def act_map_err_def split: durability.split)

lemma commit_apply_ok:
  assumes "ready n t"
  shows "\<exists>t'. commit_apply t = (Inr (), t') \<and> healthy n (tx_store t')"
proof -
  obtain f e s1 where p: "pop_timing (tx_store t) = ((f, e), s1)" by (metis prod.exhaust)
  then have "healthy n s1" using assms by (auto simp: ready_def healthy_def pop_timing_def split: list.splits)
  then show ?thesis using assms sync_file_ok p by (auto simp: commit_apply_def ready_def healthy_def)
qed

text \<open>A transaction whose keys are of ordinary length commits.\<close>

lemma tx_commit_ok:
  assumes sha: "sha_ok D" and k: "\<forall>op \<in> set (tx_operations t). length (op_key op) < 2 ^ 31"
    and n: "length (tx_operations t) < 2 ^ 32 - 1" and t: "ready (Suc (length (tx_operations t) + n)) t"
  shows "\<exists>s'. tx_commit D t = (Inr (), s') \<and> healthy n s'"
proof -
  let ?cdc = "if tx_emit_cdc t then stage_changes D (tx_operations t) else act_return ()"
  have o: "ensure_open t = Inr ()" using t by (simp add: ensure_open_def ready_def)
  have t': "ready (length (tx_operations t) + Suc n) t" using t by simp
  obtain t1 where t1: "?cdc t = (Inr (), t1)" "ready (Suc n) t1"
  proof (cases "tx_emit_cdc t")
    case True
    then show ?thesis using that stage_changes_from_ok [OF sha k _ t', of 0] n by (auto simp: stage_changes_def)
  next
    case False
    have "ready (Suc n) t" using t healthy_mono by (auto simp: ready_def)
    then show ?thesis using that False by simp
  qed
  have q: "check_namespace_quota D (tx_store t1) (tx_operations t1) = Inr ()"
    using t1(2) by (simp add: check_namespace_quota_def ready_def healthy_def)
  have h1: "healthy (Suc n) (tx_store t1)" using t1(2) by (simp add: ready_def)
  obtain s2 where s2: "store_append D RCommit (tx_id t1) [] (tx_store t1) = (Inr (), s2)" "healthy n s2"
    using store_append_ok [OF h1, of "[]" D RCommit "tx_id t1"] by auto
  then have r: "commit_record D t1 = (Inr (), t1\<lparr>tx_store := s2\<rparr>)" by (simp add: commit_record_def)
  obtain t3 where a: "commit_apply (t1\<lparr>tx_store := s2\<rparr>) = (Inr (), t3)" "healthy n (tx_store t3)"
    using commit_apply_ok [of n "t1\<lparr>tx_store := s2\<rparr>"] s2(2) t1(2) by (auto simp: ready_def)
  have "commit_inner D t = (Inr (), t3)"
    using o t1(1) q r a(1) by (simp add: commit_inner_def act_bind_def [of _ _ t] act_bind_def)
  then show ?thesis using a(2) by (simp add: tx_commit_def)
qed

theorem run_tx_ok:
  assumes sha: "sha_ok D" and h: "healthy (Suc n) s" and b: "body (fresh_tx emit s) = (Inr v, t1)" "ready (Suc (length (tx_operations t1) + m)) t1"
    and k: "\<forall>op \<in> set (tx_operations t1). length (op_key op) < 2 ^ 31" and l: "length (tx_operations t1) < 2 ^ 32 - 1"
  shows "\<exists>s'. run_tx D emit conv body s = (Inr v, s') \<and> healthy m s'"
proof -
  have "st_next_tx_id s \<noteq> - 1" using h unat_max_u64 by (auto simp: healthy_def)
  then show ?thesis using tx_commit_ok [OF sha k l b(2)] b(1) by (auto simp: run_tx_def begin_with_cdc_eq)
qed

lemma ready_fresh: "healthy (Suc n) s \<Longrightarrow> ready n (fresh_tx emit s)"
proof -
  assume h: "healthy (Suc n) s"
  then have "unat (st_next_tx_id s) + 1 < 2 ^ 64" by (simp add: healthy_def)
  then have "unat (st_next_tx_id s + 1) = unat (st_next_tx_id s) + 1" by (simp add: unat_word_ariths)
  then show "ready n (fresh_tx emit s)" using h by (simp add: ready_def healthy_def fresh_tx_def)
qed

theorem store_put_internal_ok:
  assumes "sha_ok D" and h: "healthy (n + 4) s" and "length k + length v < 2 ^ 31"
  shows "\<exists>s'. store_put_internal D k v s = (Inr (), s') \<and> healthy n s'"
proof -
  have r: "ready (Suc (n + 2)) (fresh_tx True s)" using ready_fresh [of "n + 3"] h by (simp add: numeral_eq_Suc)
  obtain t1 where t1: "tx_put_internal D k v (fresh_tx True s) = (Inr (), t1)" "ready (n + 2) t1"
    using tx_put_internal_ok [OF r, of k v D] assms(3) by auto
  have o: "tx_operations t1 = [OpPut k v]" by (rule fresh_put_internal [OF t1(1)])
  have h': "healthy (Suc 0) s" using h healthy_mono by fastforce
  have "ready (Suc (length (tx_operations t1) + n)) t1" using t1(2) o by (simp add: numeral_eq_Suc)
  from run_tx_ok [OF assms(1) h', where body = "tx_put_internal D k v" and conv = id, OF t1(1) this] o assms(3)
  show ?thesis unfolding store_put_internal_def by simp
qed

theorem store_delete_internal_ok:
  assumes "sha_ok D" and h: "healthy (n + 4) s" and "length k < 2 ^ 31"
  shows "\<exists>s'. store_delete_internal D k s = (Inr (), s') \<and> healthy n s'"
proof -
  have r: "ready (Suc (n + 2)) (fresh_tx True s)" using ready_fresh [of "n + 3"] h by (simp add: numeral_eq_Suc)
  obtain t1 where t1: "tx_delete_internal D k (fresh_tx True s) = (Inr (), t1)" "ready (n + 2) t1"
    using tx_delete_internal_ok [OF r, of k D] assms(3) by auto
  have o: "tx_operations t1 = [OpDelete k]" by (rule fresh_delete_internal [OF t1(1)])
  have h': "healthy (Suc 0) s" using h healthy_mono by fastforce
  have "ready (Suc (length (tx_operations t1) + n)) t1" using t1(2) o by (simp add: numeral_eq_Suc)
  from run_tx_ok [OF assms(1) h', where body = "tx_delete_internal D k" and conv = id, OF t1(1) this] o assms(3)
  show ?thesis unfolding store_delete_internal_def by simp
qed

section \<open>Bodies that go through\<close>

text \<open>\<open>can n body t v\<close>: with room for \<open>n\<close> records the body succeeds from \<open>t\<close> with result \<open>v\<close>,
  staging at most \<open>n\<close> operations.\<close>

definition can :: "nat \<Rightarrow> (transaction, 'e, 'a) act \<Rightarrow> transaction \<Rightarrow> 'a \<Rightarrow> bool" where
  "can n body t v \<longleftrightarrow> (\<forall>m. ready (n + m) t \<longrightarrow> (\<exists>t' ops. body t = (Inr v, t') \<and> ready m t' \<and> tx_ext ops t t' \<and>
     length ops \<le> n \<and> (\<forall>op \<in> set ops. length (op_key op) < 2 ^ 31)))"

lemma can_pure:
  "can 0 (act_return v) t v" "r = Inr v \<Longrightarrow> can 0 (act_lift r) t v" "f t = (Inr v, t) \<Longrightarrow> can 0 f t v"
  by (auto simp: can_def intro: exI [of _ "[]"])

lemma can_put: "length k + length v < 2 ^ 31 \<Longrightarrow> can 1 (tx_put_internal D k v) t ()"
  unfolding can_def
proof (intro allI impI)
  fix m assume l: "length k + length v < 2 ^ 31" and "ready (1 + m) t"
  then obtain t' where t': "tx_put_internal D k v t = (Inr (), t')" "ready m t'" using tx_put_internal_ok [of m t k v D] by auto
  then show "\<exists>t' ops. tx_put_internal D k v t = (Inr (), t') \<and> ready m t' \<and> tx_ext ops t t' \<and> length ops \<le> 1 \<and> (\<forall>op \<in> set ops. length (op_key op) < 2 ^ 31)"
    using tx_put_internal_ext [OF t'(1)] l by (intro exI [of _ t'] exI [of _ "[OpPut k v]"]) auto
qed

lemma can_delete: "length k < 2 ^ 31 \<Longrightarrow> can 1 (tx_delete_internal D k) t ()"
  unfolding can_def
proof (intro allI impI)
  fix m assume l: "length k < 2 ^ 31" and "ready (1 + m) t"
  then obtain t' where t': "tx_delete_internal D k t = (Inr (), t')" "ready m t'" using tx_delete_internal_ok [of m t k D] by auto
  then show "\<exists>t' ops. tx_delete_internal D k t = (Inr (), t') \<and> ready m t' \<and> tx_ext ops t t' \<and> length ops \<le> 1 \<and> (\<forall>op \<in> set ops. length (op_key op) < 2 ^ 31)"
    using tx_delete_internal_ext [OF t'(1)] l by (intro exI [of _ t'] exI [of _ "[OpDelete k]"]) auto
qed

lemma can_user:
  "\<not> prefix INTERNAL_KEY_PREFIX k \<Longrightarrow> length k + length v < 2 ^ 31 \<Longrightarrow> can 1 (tx_put D k v) t ()"
  "\<not> prefix INTERNAL_KEY_PREFIX k \<Longrightarrow> length k < 2 ^ 31 \<Longrightarrow> can 1 (tx_delete D k) t ()"
  using can_put [of k v D t] can_delete [of k D t] by (simp_all add: can_def tx_put_iff tx_delete_iff)

lemma can_map_err: "can n a t v \<Longrightarrow> can n (act_map_err e a) t v"
  by (fastforce simp: can_def act_map_err_iff)

lemma can_bind:
  assumes a: "can n a t x" and f: "\<And>t' ops. tx_ext ops t t' \<Longrightarrow> can m (f x) t' y"
  shows "can (n + m) (act_bind a f) t y"
  unfolding can_def
proof (intro allI impI)
  fix l assume "ready (n + m + l) t"
  then have "ready (n + (m + l)) t" by (simp add: add.assoc)
  then obtain t1 o1 where t1: "a t = (Inr x, t1)" "ready (m + l) t1" "tx_ext o1 t t1" "length o1 \<le> n" "\<forall>op \<in> set o1. length (op_key op) < 2 ^ 31"
    using a unfolding can_def by blast
  then obtain t2 o2 where t2: "f x t1 = (Inr y, t2)" "ready l t2" "tx_ext o2 t1 t2" "length o2 \<le> m" "\<forall>op \<in> set o2. length (op_key op) < 2 ^ 31"
    using f [OF t1(3)] unfolding can_def by blast
  have "tx_ext (o1 @ o2) t t2" by (rule tx_ext_trans [OF t1(3) t2(3)])
  then show "\<exists>t' ops. act_bind a f t = (Inr y, t') \<and> ready l t' \<and> tx_ext ops t t' \<and> length ops \<le> n + m \<and> (\<forall>op \<in> set ops. length (op_key op) < 2 ^ 31)"
    using t1 t2 by (intro exI [of _ t2] exI [of _ "o1 @ o2"]) (auto simp: act_bind_def)
qed

lemma can_for:
  assumes "\<And>x t. x \<in> set xs \<Longrightarrow> can n (f x) t ()"
  shows "can (n * length xs) (act_for f xs) t ()"
  using assms
proof (induction xs arbitrary: t)
  case (Cons x xs)
  have "can (n + n * length xs) (act_bind (f x) (\<lambda>_. act_for f xs)) t ()"
    by (rule can_bind) (use Cons in auto)
  then show ?case by simp
qed (simp add: can_pure)

theorem run_can:
  assumes sha: "sha_ok D" and b: "can n body (fresh_tx emit s) v" and h: "healthy (2 * n + 2 + m) s" and n: "n < 2 ^ 32 - 1"
  shows "\<exists>s'. run_tx D emit conv body s = (Inr v, s') \<and> healthy m s'"
proof -
  have "ready (n + Suc (n + m)) (fresh_tx emit s)" by (rule ready_fresh) (use h in \<open>simp add: algebra_simps mult_2_right\<close>)
  then obtain t ops where t: "body (fresh_tx emit s) = (Inr v, t)" "ready (Suc (n + m)) t" "tx_ext ops (fresh_tx emit s) t"
      "length ops \<le> n" "\<forall>op \<in> set ops. length (op_key op) < 2 ^ 31"
    using b unfolding can_def by blast
  have o: "tx_operations t = ops" using t(3) by (simp add: tx_ext_def fresh_tx_def)
  have "healthy (Suc (length ops + m)) (tx_store t)" using t(2,4) by (auto simp: ready_def intro: healthy_mono)
  then have r: "ready (Suc (length (tx_operations t) + m)) t" using t(2) o by (simp add: ready_def)
  have "healthy (Suc 0) s" using h by (rule healthy_mono) simp
  from run_tx_ok [OF sha this, where body = body and conv = conv, OF t(1) r] t(4,5) n o show ?thesis by auto
qed

end
