(* ===== verification/Instance.thy ===== *)
theory Instance
  imports Progress
begin

text \<open>
  A concrete instance of the parameters and a freshly created store, on which the properties'
  hypotheses are shown to hold: a checksum that is the length, a digest that repeats the first byte, hash
  maps visited in insertion order.
\<close>

definition demo_crc :: "bytes \<Rightarrow> u32" where
  "demo_crc bs = of_nat (length bs)"

definition demo_sha256 :: "bytes \<Rightarrow> bytes" where
  "demo_sha256 bs = replicate 32 (case bs of [] \<Rightarrow> 0 | b # _ \<Rightarrow> b)"

definition demo_deps :: deps where
  "demo_deps = \<lparr>dep_crc32 = demo_crc, dep_sha256 = demo_sha256, dep_hash_order = id\<rparr>"

definition demo_os :: os_script where
  "demo_os = \<lparr>os_writes = [], os_syncs = [], os_timings = [], os_entropy = []\<rparr>"

definition demo_header :: store_header where
  "demo_header = store_header_new (replicate 16 1) 1000"

definition demo_store :: store where
  "demo_store = \<lparr>st_file = header_encode demo_crc demo_header, st_header = demo_header,
     st_options = store_options_default, st_state = [], st_next_tx_id = 1, st_next_sequence = 1,
     st_metrics = store_metrics_default, st_os = demo_os\<rparr>"

lemma benign_demo_os [simp]: "benign demo_os"
  by (simp add: benign_def demo_os_def)

lemma demo_store_durable [simp]: "durable demo_deps demo_store []"
  by (simp add: durable_def store_log_def file_holds_def counters_ahead_def committed_state_def
      demo_store_def demo_header_def demo_deps_def wf_header_def store_header_new_def recovery_start_def)

lemma demo_store_wf [simp]: "store_wf demo_store"
  by (simp add: store_wf_def demo_store_def)

lemma demo_sha_ok [simp]: "sha_ok demo_deps"
  by (simp add: sha_ok_def demo_deps_def demo_sha256_def)

lemma demo_store_healthy [simp]: "n < 1000 \<Longrightarrow> healthy n demo_store"
proof -
  assume n: "n < 1000"
  have "wf_header demo_header" by (simp add: demo_header_def wf_header_def store_header_new_def)
  then have "length (header_encode demo_crc demo_header) = STORE_HEADER_LEN" by (rule length_header_encode)
  then show ?thesis using n by (simp add: healthy_def demo_store_def demo_os_def store_options_default_def STORE_HEADER_LEN_def)
qed

end
