(* ===== verification/Client.thy ===== *)
theory Client
  imports Instance
begin

text \<open>
  The transactions of an application: any sequence of \<open>put\<close> and \<open>delete\<close> calls on user keys
  between \<open>begin\<close> and \<open>commit\<close>. The lemmas say what such a transaction stages, when it
  succeeds, and what the store shows afterwards.
\<close>

definition client_step :: "deps \<Rightarrow> operation \<Rightarrow> (transaction, engine_error, unit) act" where
  "client_step D op = (case op of OpPut k v \<Rightarrow> tx_put D k v | OpDelete k \<Rightarrow> tx_delete D k)"

definition client_tx :: "deps \<Rightarrow> operation list \<Rightarrow> (store, engine_error, unit) act" where
  "client_tx D ops = run_tx D True id (act_for (client_step D) ops)"

text \<open>The value of a key after a list of operations, read left to right.\<close>

fun written :: "operation list \<Rightarrow> bytes \<Rightarrow> bytes option \<Rightarrow> bytes option" where
  "written [] k old = old"
| "written (OpPut k' v # ops) k old = written ops k (if k' = k then Some v else old)"
| "written (OpDelete k' # ops) k old = written ops k (if k' = k then None else old)"

lemma staged_lookup_written: "staged_lookup (rev ops) k old = written ops k old"
  by (induction ops k old rule: written.induct) (auto simp: staged_lookup_append split: if_splits)

fun op_size :: "operation \<Rightarrow> nat" where
  "op_size (OpPut k v) = length k + length v"
| "op_size (OpDelete k) = length k"

lemma op_key_size: "length (op_key op) \<le> op_size op"
  by (cases op) simp_all

lemma client_step_intros [staging_intros, logging_intros]:
  "staging (client_step D op)" "logging D (client_step D op)"
  unfolding client_step_def by (cases op; simp add: staging_intros logging_intros)+

lemma client_tx_intros: "staging (act_for (client_step D) ops)" "logging D (act_for (client_step D) ops)"
  by (intro staging_intros logging_intros)+

lemma client_step_Inr:
  assumes "client_step D op t = (Inr u, t')"
  shows "tx_operations t' = tx_operations t @ [op]" and "\<not> prefix INTERNAL_KEY_PREFIX (op_key op)"
  using assms tx_put_internal_ext [of D _ _ t "Inr u" t'] tx_delete_internal_ext [of D _ t "Inr u" t']
  by (cases op; auto simp: client_step_def tx_put_iff tx_delete_iff tx_ext_def split: if_splits)+

lemma client_steps_Inr:
  assumes "act_for (client_step D) ops t = (Inr u, t')"
  shows "tx_operations t' = tx_operations t @ ops \<and> (\<forall>op \<in> set ops. \<not> prefix INTERNAL_KEY_PREFIX (op_key op))"
  using assms
proof (induction ops arbitrary: t)
  case (Cons op ops)
  then obtain t1 where "client_step D op t = (Inr (), t1)" "act_for (client_step D) ops t1 = (Inr u, t')"
    by (auto simp: act_bind_Inr_iff)
  then show ?case using Cons.IH [of t1] client_step_Inr [of D op t "()" t1] by auto
qed simp

lemma client_tx_ops:
  assumes "act_for (client_step D) ops (fresh_tx emit s) = (Inr u, t)"
  shows "tx_operations t = ops" and "\<forall>op \<in> set ops. not_cdc (op_key op)"
  using client_steps_Inr [OF assms] user_key_not_cdc by (auto simp: fresh_tx_def)

text \<open>What a committed transaction shows: its last write of each key, and the old value of the
  keys it does not mention.\<close>

lemma client_tx_view:
  assumes "client_tx D ops s = (Inr u, s')" and k: "not_cdc k"
  shows "store_get s' k = written ops k (store_get s k)"
proof -
  obtain t where t: "act_for (client_step D) ops (fresh_tx True s) = (Inr u, t)" "\<And>k. not_cdc k \<Longrightarrow> store_get s' k = tx_get_internal t k"
    using assms(1) unfolding client_tx_def by (rule run_tx_view [OF client_tx_intros(1)]) blast
  have "tx_ext (tx_operations t) (fresh_tx True s) t"
    using client_tx_intros(1) [of D ops] t(1) unfolding staging_def by (fastforce simp: tx_ext_def fresh_tx_def)
  then have "store_get (tx_store t) k = store_get s k" by (auto simp: tx_ext_def fresh_tx_def same_view_def store_get_def)
  then show ?thesis using t(2) [OF k] client_tx_ops(1) [OF t(1)] by (simp add: tx_get_internal_def staged_lookup_written)
qed

lemma client_tx_rejects_internal:
  assumes "op \<in> set ops" and "prefix INTERNAL_KEY_PREFIX (op_key op)"
  shows "\<exists>e s'. client_tx D ops s = (Inl e, s')"
proof (cases "client_tx D ops s")
  case (Pair r s')
  show ?thesis
  proof (cases r)
    case (Inr u)
    then have run: "run_tx D True id (act_for (client_step D) ops) s = (Inr u, s')" using Pair by (simp add: client_tx_def)
    obtain t where "act_for (client_step D) ops (fresh_tx True s) = (Inr u, t)"
      using run by (rule run_tx_view [OF client_tx_intros(1)])
    then show ?thesis using client_steps_Inr assms by blast
  qed (use Pair in auto)
qed

section \<open>Progress\<close>

lemma client_step_ok:
  assumes "ready (Suc n) t" and "\<not> prefix INTERNAL_KEY_PREFIX (op_key op)" and "op_size op < 2 ^ 31"
  shows "\<exists>t'. client_step D op t = (Inr (), t') \<and> ready n t'"
  using assms tx_put_internal_ok [OF assms(1)] tx_delete_internal_ok [OF assms(1)]
  by (cases op) (auto simp: client_step_def tx_put_iff tx_delete_iff)

lemma client_steps_ok:
  assumes "ready (length ops + n) t" and "\<forall>op \<in> set ops. \<not> prefix INTERNAL_KEY_PREFIX (op_key op) \<and> op_size op < 2 ^ 31"
  shows "\<exists>t'. act_for (client_step D) ops t = (Inr (), t') \<and> ready n t'"
  using assms
proof (induction ops arbitrary: t)
  case (Cons op ops)
  then obtain t1 where "client_step D op t = (Inr (), t1)" "ready (length ops + n) t1"
    using client_step_ok [of "length ops + n" t op D] by auto
  then show ?case using Cons.IH [of t1] Cons.prems(2) by (auto simp: act_bind_def)
qed simp

lemma client_tx_ok:
  assumes sha: "sha_ok D" and h: "healthy (2 * length ops + 2 + n) s" and l: "length ops < 2 ^ 32 - 1"
    and ops: "\<forall>op \<in> set ops. \<not> prefix INTERNAL_KEY_PREFIX (op_key op) \<and> op_size op < 2 ^ 31"
  shows "\<exists>s'. client_tx D ops s = (Inr (), s') \<and> healthy n s'"
proof -
  have "ready (length ops + Suc (length ops + n)) (fresh_tx True s)"
    by (rule ready_fresh) (use h in \<open>simp add: algebra_simps mult_2_right\<close>)
  from client_steps_ok [OF this ops] obtain t where t: "act_for (client_step D) ops (fresh_tx True s) = (Inr (), t)"
      "ready (Suc (length ops + n)) t" by blast
  have o: "tx_operations t = ops" by (rule client_tx_ops(1) [OF t(1)])
  have "healthy (Suc 0) s" using h healthy_mono by fastforce
  from run_tx_ok [OF sha this, where body = "act_for (client_step D) ops" and conv = id, OF t(1)] t(2) o l ops op_key_size
  show ?thesis unfolding client_tx_def by (metis order.strict_trans1)
qed

lemma store_put_client: "store_put D k v = client_tx D [OpPut k v]"
  by (simp add: store_put_def client_tx_def client_step_def act_bind_def run_tx_def fun_eq_iff split: sum.splits prod.splits)

lemma client_tx_recoverable: "recoverable D s \<Longrightarrow> client_tx D ops s = (r, s') \<Longrightarrow> recoverable D s'"
  unfolding client_tx_def by (rule recoverable_run [OF client_tx_intros(2)])

text \<open>A transaction on the fresh store of \<open>Instance\<close>.\<close>

lemma demo_client_tx:
  assumes "length ops < 100" and "\<forall>op \<in> set ops. \<not> prefix INTERNAL_KEY_PREFIX (op_key op) \<and> op_size op < 2 ^ 31"
  obtains s where "client_tx demo_deps ops demo_store = (Inr (), s)" and "healthy 500 s" and "recoverable demo_deps s"
proof -
  have "healthy (2 * length ops + 2 + 500) demo_store" using assms(1) by simp
  from client_tx_ok [OF demo_sha_ok this _ assms(2)] assms(1) obtain s
    where s: "client_tx demo_deps ops demo_store = (Inr (), s)" "healthy 500 s" by auto
  have "recoverable demo_deps demo_store" unfolding recoverable_def by (rule exI) (rule demo_store_durable)
  then show ?thesis using that s client_tx_recoverable by blast
qed

end
