(* ===== verification/Sync_Failure.thy ===== *)
theory Sync_Failure
  imports Client
begin

text \<open>
  What a failing \<open>fsync\<close> does to a transaction. Nothing before the sync of the commit looks at the
  operating system's answers to syncs, so a run with other answers differs only in what it does
  from that sync on: an action is \<open>sync_blind\<close> when it commutes with replacing these answers.
\<close>

named_theorems blind_intros

definition with_syncs :: "sync_outcome list \<Rightarrow> store \<Rightarrow> store" where
  "with_syncs ys s = s\<lparr>st_os := (st_os s)\<lparr>os_syncs := ys\<rparr>\<rparr>"

definition tx_syncs :: "sync_outcome list \<Rightarrow> transaction \<Rightarrow> transaction" where
  "tx_syncs ys t = t\<lparr>tx_store := with_syncs ys (tx_store t)\<rparr>"

lemma with_syncs_simps [simp]:
  "st_file (with_syncs ys s) = st_file s" "st_state (with_syncs ys s) = st_state s" "st_options (with_syncs ys s) = st_options s"
  "st_next_tx_id (with_syncs ys s) = st_next_tx_id s" "st_next_sequence (with_syncs ys s) = st_next_sequence s"
  "st_metrics (with_syncs ys s) = st_metrics s" "os_syncs (st_os (with_syncs ys s)) = ys" "os_writes (st_os (with_syncs ys s)) = os_writes (st_os s)"
  by (simp_all add: with_syncs_def)

lemma tx_syncs_simps [simp]:
  "tx_store (tx_syncs ys t) = with_syncs ys (tx_store t)" "tx_id (tx_syncs ys t) = tx_id t" "tx_operations (tx_syncs ys t) = tx_operations t"
  "tx_emit_cdc (tx_syncs ys t) = tx_emit_cdc t" "tx_finished (tx_syncs ys t) = tx_finished t"
  by (simp_all add: tx_syncs_def)

definition sync_blind :: "(transaction, 'e, 'a) act \<Rightarrow> bool" where
  "sync_blind b \<longleftrightarrow> (\<forall>t ys. b (tx_syncs ys t) = apsnd (tx_syncs ys) (b t))"

lemma sync_blindD: "sync_blind b \<Longrightarrow> b t = (r, t') \<Longrightarrow> b (tx_syncs ys t) = (r, tx_syncs ys t')"
  by (simp add: sync_blind_def)

lemma blind_lift [blind_intros]: "sync_blind (act_lift r)" "sync_blind (act_return v)"
  by (simp_all add: sync_blind_def act_lift_def act_return_def)

lemma blind_bind [blind_intros]:
  assumes "sync_blind a" and "\<And>v. sync_blind (f v)"
  shows "sync_blind (act_bind a f)"
  unfolding sync_blind_def
proof (intro allI)
  fix t ys
  obtain r t1 where a: "a t = (r, t1)" by fastforce
  from assms(2) have "f v (tx_syncs ys t1) = apsnd (tx_syncs ys) (f v t1)" for v by (simp add: sync_blind_def)
  then show "act_bind a f (tx_syncs ys t) = apsnd (tx_syncs ys) (act_bind a f t)"
    using a sync_blindD [OF assms(1) a] by (simp add: act_bind_def split: sum.splits)
qed

lemma blind_for [blind_intros]: "(\<And>x. sync_blind (f x)) \<Longrightarrow> sync_blind (act_for f xs)"
  by (induction xs) (auto intro!: blind_intros)

lemma append_blind: "store_append D kind i p (with_syncs ys s) = apsnd (with_syncs ys) (store_append D kind i p s)"
  by (auto simp: store_append_def write_all_def with_syncs_def over_quota_def Let_def split: option.splits sum.splits list.splits write_outcome.splits)

lemma blind_stage: "sync_blind (tx_stage D kind p op)"
  by (auto simp: sync_blind_def tx_stage_def append_blind tx_syncs_def split: prod.splits sum.splits)

lemma blind_internal [blind_intros]: "sync_blind (tx_put_internal D k v)" "sync_blind (tx_delete_internal D k)"
  using blind_stage [of D]
  by (auto simp: sync_blind_def tx_put_internal_def tx_delete_internal_def ensure_open_def split: sum.splits)

lemma blind_client [blind_intros]: "sync_blind (client_step D op)"
  unfolding client_step_def tx_put_def tx_delete_def by (cases op) (auto intro: blind_intros)

lemma blind_commit_record [blind_intros]: "sync_blind (commit_record D)"
  by (auto simp: sync_blind_def commit_record_def append_blind tx_syncs_def split: prod.splits sum.splits)

lemma blind_id: "(\<And>i. sync_blind (f i)) \<Longrightarrow> sync_blind (\<lambda>t. f (tx_id t) t)"
  by (simp add: sync_blind_def)

lemma blind_stage_changes_from: "sync_blind (stage_changes_from D q ops)"
proof (induction ops arbitrary: q)
  case Nil
  then show ?case by (simp add: sync_blind_def)
next
  case (Cons op ops)
  have "sync_blind (\<lambda>t. act_bind (act_lift (map_err map_cdc_error (encode_change (change_of D (tx_id t) q op)))) (\<lambda>encoded.
      act_bind (tx_put_internal D (change_key (tx_id t) q) encoded) (\<lambda>_.
      act_bind (act_lift (ok_or ECounterExhausted (checked_add q 1))) (\<lambda>q1. stage_changes_from D q1 ops))) t)"
    by (rule blind_id) (intro blind_intros Cons.IH)
  then show ?case unfolding stage_changes_from_Cons using Cons.IH by simp
qed

lemma blind_quota [blind_intros]: "sync_blind (\<lambda>t. (check_namespace_quota D (tx_store t) (tx_operations t), t))"
  by (simp add: sync_blind_def check_namespace_quota_def split: option.split)

section \<open>A commit whose sync fails\<close>

definition commit_prepare :: "deps \<Rightarrow> (transaction, engine_error, unit) act" where
  "commit_prepare D t =
     act_bind (act_lift (ensure_open t)) (\<lambda>_.
     act_bind (if tx_emit_cdc t then stage_changes D (tx_operations t) else act_return ()) (\<lambda>_.
     act_bind (\<lambda>t1. (check_namespace_quota D (tx_store t1) (tx_operations t1), t1)) (\<lambda>_. commit_record D))) t"

lemma commit_inner_prepare: "commit_inner D = act_bind (commit_prepare D) (\<lambda>_. commit_apply)"
  unfolding commit_inner_def commit_prepare_def by (simp add: fun_eq_iff act_bind_def split: sum.splits prod.splits)

lemma blind_prepare: "sync_blind (commit_prepare D)"
proof -
  define f where "f r c ops = act_bind (act_lift r) (\<lambda>_.
     act_bind (if c then stage_changes D ops else act_return ()) (\<lambda>_.
     act_bind (\<lambda>t1. (check_namespace_quota D (tx_store t1) (tx_operations t1), t1)) (\<lambda>_. commit_record D)))"
    for r :: "engine_error + unit" and c ops
  have "sync_blind (if c then stage_changes D ops else act_return ())" for c ops
    by (simp add: stage_changes_def blind_stage_changes_from blind_intros)
  then have f: "sync_blind (f r c ops)" for r c ops unfolding f_def by (intro blind_intros)
  have "commit_prepare D t = f (ensure_open t) (tx_emit_cdc t) (tx_operations t) t" for t by (simp only: commit_prepare_def f_def)
  then show ?thesis using f by (simp add: sync_blind_def ensure_open_def)
qed

lemma commit_apply_sync_error:
  assumes "os_syncs (st_os (tx_store t)) = SyncErr k # ys" and "opt_durability (st_options (tx_store t)) \<noteq> Relaxed"
  shows "\<exists>t'. commit_apply t = (Inl (map_io_error k), t') \<and> st_file (tx_store t') = st_file (tx_store t) \<and>
    st_state (tx_store t') = st_state (tx_store t)"
  using assms by (cases "opt_durability (st_options (tx_store t))") (auto simp: commit_apply_def sync_file_def sync_call_def act_map_err_def map_err_def)

lemma commit_apply_file: "commit_apply t = (Inr u, t') \<Longrightarrow> st_file (tx_store t') = st_file (tx_store t)"
  by (auto simp: commit_apply_def sync_file_def sync_call_def act_map_err_def pop_timing_def
      split: sum.splits prod.splits list.splits durability.splits sync_outcome.splits)

lemma staging_prepare: "staging (commit_prepare D)"
proof -
  have "staging (commit_record D)" unfolding staging_def using commit_record_ext by blast
  then have "staging (act_bind (act_lift (ensure_open t)) (\<lambda>_.
     act_bind (if tx_emit_cdc t then stage_changes D (tx_operations t) else act_return ()) (\<lambda>_.
     act_bind (\<lambda>t1. (check_namespace_quota D (tx_store t1) (tx_operations t1), t1)) (\<lambda>_. commit_record D))))" for t
    by (intro staging_intros)
  from staging_dep [OF this] show ?thesis unfolding commit_prepare_def .
qed

text \<open>A transaction that commits when its sync is answered well, run with a failing answer: the
  caller gets the error and the process shows the old state, but the file is the file of the
  committed run.\<close>

theorem run_tx_sync_error:
  assumes st: "staging body" and bl: "sync_blind body" and run: "run_tx D emit conv body s = (Inr v, s2)"
    and dur: "opt_durability (st_options s) \<noteq> Relaxed"
  shows "\<exists>s1. run_tx D emit conv body (with_syncs (SyncErr k # ys) s) = (Inl (conv (map_io_error k)), s1) \<and>
    st_file s1 = st_file s2 \<and> st_state s1 = st_state s"
proof -
  let ?y = "SyncErr k # ys"
  from run obtain t1 where n: "st_next_tx_id s \<noteq> - 1" and b: "body (fresh_tx emit s) = (Inr v, t1)" and c: "tx_commit D t1 = (Inr (), s2)"
    by (auto simp: run_tx_def begin_with_cdc_eq split: if_splits sum.splits prod.splits)
  from c obtain t2 t3 where p: "commit_prepare D t1 = (Inr (), t2)" and a: "commit_apply t2 = (Inr (), t3)" and s2: "s2 = tx_store t3"
    by (auto simp: tx_commit_def commit_inner_prepare act_bind_def split: sum.splits prod.splits)
  have same: "st_options (tx_store t2) = st_options s \<and> st_state (tx_store t2) = st_state s"
    using stagingD [OF st b] stagingD [OF staging_prepare p] by (auto simp: tx_ext_def same_view_def fresh_tx_def)
  have "fresh_tx emit (with_syncs ?y s) = tx_syncs ?y (fresh_tx emit s)" by (simp add: fresh_tx_def tx_syncs_def with_syncs_def)
  then have b': "body (fresh_tx emit (with_syncs ?y s)) = (Inr v, tx_syncs ?y t1)" using sync_blindD [OF bl b] by simp
  have p': "commit_prepare D (tx_syncs ?y t1) = (Inr (), tx_syncs ?y t2)" by (rule sync_blindD [OF blind_prepare p])
  obtain t' where t': "commit_apply (tx_syncs ?y t2) = (Inl (map_io_error k), t')" "st_file (tx_store t') = st_file (tx_store t2)"
      "st_state (tx_store t') = st_state (tx_store t2)"
    using commit_apply_sync_error [of "tx_syncs ?y t2" k ys] same dur by auto
  show ?thesis using n b' p' t' same s2 commit_apply_file [OF a]
    by (auto simp: run_tx_def begin_with_cdc_eq tx_commit_def commit_inner_prepare act_bind_def)
qed

end
