(* ===== verification/Atomic.thy ===== *)
theory Atomic
  imports Durability
begin

text \<open>
  Atomic single-key updates (\<open>crates/voodoo-store-core/src/atomic.rs\<close>): compare-and-swap and the
  signed 64-bit counter.
\<close>

section \<open>Model\<close>

datatype cas_outcome = Swapped | Mismatch

datatype atomic_error = AtStore engine_error | AtInvalidCounter | AtOverflow

definition swapped :: "cas_outcome \<Rightarrow> bool" where
  "swapped r \<longleftrightarrow> r = Swapped"

definition compare_and_swap ::
  "deps \<Rightarrow> bytes \<Rightarrow> bytes option \<Rightarrow> bytes option \<Rightarrow> (store, engine_error, cas_outcome) act" where
  "compare_and_swap D k expected replacement s =
     (if store_get s k \<noteq> expected then (Inr Mismatch, s)
      else run_tx D True id
             (act_bind (case replacement of Some v \<Rightarrow> tx_put D k v | None \<Rightarrow> tx_delete D k)
               (\<lambda>_. act_return Swapped)) s)"

definition increment_i64 :: "deps \<Rightarrow> bytes \<Rightarrow> i64 \<Rightarrow> (store, atomic_error, i64) act" where
  "increment_i64 D k delta =
     act_bind (\<lambda>s. (case store_get s k of
                      Some bs \<Rightarrow> if length bs = 8 then Inr (from_le bs) else Inl AtInvalidCounter
                    | None \<Rightarrow> Inr 0, s)) (\<lambda>current.
     act_bind (act_lift (ok_or AtOverflow (checked_add_signed current delta))) (\<lambda>next.
     act_bind (act_map_err AtStore (store_put D k (to_le next))) (\<lambda>_. act_return next)))"

section \<open>Compare-and-swap\<close>

lemma staging_cas [staging_intros]:
  "staging (act_bind (case replacement of Some v \<Rightarrow> tx_put D k v | None \<Rightarrow> tx_delete D k) (\<lambda>_. act_return Swapped))"
  by (cases replacement) (simp_all add: staging_intros)

lemma compare_and_swap_Inr:
  assumes "compare_and_swap D k expected replacement s = (Inr r, s')"
  shows "r = Mismatch \<and> s' = s \<and> store_get s k \<noteq> expected \<or>
    r = Swapped \<and> store_get s k = expected \<and> \<not> prefix INTERNAL_KEY_PREFIX k \<and>
    (\<forall>k'. not_cdc k' \<longrightarrow> store_get s' k' = (if k' = k then replacement else store_get s k'))"
proof (cases "store_get s k = expected")
  case True
  let ?body = "act_bind (case replacement of Some v \<Rightarrow> tx_put D k v | None \<Rightarrow> tx_delete D k) (\<lambda>_. act_return Swapped)"
  have "run_tx D True id ?body s = (Inr r, s')" using assms True by (simp add: compare_and_swap_def)
  then obtain t1 where t1: "?body (fresh_tx True s) = (Inr r, t1)"
      "\<And>k. not_cdc k \<Longrightarrow> store_get s' k = tx_get_internal t1 k"
    by (rule run_tx_view [OF staging_cas]) blast
  then have "(case replacement of Some v \<Rightarrow> tx_put D k v | None \<Rightarrow> tx_delete D k) (fresh_tx True s) = (Inr (), t1)"
    and "r = Swapped" by (auto simp: act_bind_Inr_iff)
  then show ?thesis using True t1(2) tx_put_get [of D k _ "fresh_tx True s" "()" t1]
      tx_delete_get [of D k "fresh_tx True s" "()" t1]
    by (cases replacement) auto
qed (use assms in \<open>auto simp: compare_and_swap_def\<close>)

lemma compare_and_swap_Inl:
  "compare_and_swap D k expected replacement s = (Inl e, s') \<Longrightarrow> store_get s' k' = store_get s k'"
  by (auto simp: compare_and_swap_def split: if_splits dest: run_tx_fail_get [OF staging_cas])

text \<open>Of two swaps that expect the same value, with a replacement that differs from it, at most
  one takes place.\<close>

theorem compare_and_swap_exclusive:
  assumes "compare_and_swap D k e v s = (Inr Swapped, s1)" and "v \<noteq> e"
    and "compare_and_swap D k e w s1 = (r, s2)"
  shows "r = Inr Mismatch \<and> s2 = s1"
proof -
  have "store_get s1 k = v"
    using compare_and_swap_Inr [OF assms(1)] user_key_not_cdc by auto
  then show ?thesis using assms(2,3) by (simp add: compare_and_swap_def)
qed

section \<open>Counters\<close>

text \<open>The value of a counter key.\<close>

definition counter :: "store \<Rightarrow> bytes \<Rightarrow> i64 option" where
  "counter s k = (case store_get s k of None \<Rightarrow> Some 0
     | Some bs \<Rightarrow> if length bs = 8 then Some (from_le bs) else None)"

lemma increment_i64_Inr:
  assumes "increment_i64 D k delta s = (Inr n, s')"
  obtains c where "counter s k = Some c" and "sint n = sint c + sint delta" and "counter s' k = Some n"
    and "\<And>k'. not_cdc k' \<Longrightarrow> k' \<noteq> k \<Longrightarrow> store_get s' k' = store_get s k'"
proof -
  from assms obtain c where c: "counter s k = Some c" and n: "checked_add_signed c delta = Some n"
      and p: "store_put D k (to_le n) s = (Inr (), s')"
    by (auto simp: increment_i64_def counter_def act_bind_Inr_iff act_map_err_iff ok_or_Inr_iff
        split: option.splits if_splits simp del: act_bind_lift)
  have "not_cdc k" using store_put_get(1) [OF p] by (rule user_key_not_cdc)
  then have "counter s' k = Some n" using store_put_get(2) [OF p] by (simp add: counter_def)
  then show ?thesis using that c checked_add_signed_Some [OF n] store_put_get(2) [OF p] by simp
qed

lemma increment_i64_Inl:
  assumes "increment_i64 D k delta s = (Inl e, s')"
  shows "store_get s' k' = store_get s k'"
proof -
  have "store_put D k bs s = (Inl e', s') \<Longrightarrow> store_get s' k' = store_get s k'" for bs e'
    unfolding store_put_def by (rule run_tx_fail_get [OF staging_put])
  then show ?thesis using assms
    by (auto simp: increment_i64_def act_bind_Inl_iff act_map_err_iff ok_or_Inl_iff
        split: option.splits if_splits simp del: act_bind_lift)
qed

text \<open>Overflow is reported exactly when the sum leaves the range of \<open>i64\<close>.\<close>

lemma increment_i64_overflow:
  assumes "counter s k = Some c"
  shows "increment_i64 D k delta s = (Inl AtOverflow, s) \<longleftrightarrow>
    \<not> (- (2 ^ 63) \<le> sint c + sint delta \<and> sint c + sint delta < 2 ^ 63)"
proof -
  let ?get = "\<lambda>s. (case store_get s k of
                      Some bs \<Rightarrow> if length bs = 8 then Inr (from_le bs) else Inl AtInvalidCounter
                    | None \<Rightarrow> Inr (0 :: i64), s)"
  have g: "?get s = (Inr c, s)"
    using assms by (auto simp: counter_def split: option.splits if_splits)
  show ?thesis
    using g by (auto simp: increment_i64_def act_bind_def [of ?get] checked_add_signed_def Let_def
        act_bind_def act_map_err_def map_err_def split: sum.splits prod.splits)
qed

text \<open>A run of increments adds up.\<close>

fun increment_all :: "deps \<Rightarrow> bytes \<Rightarrow> i64 list \<Rightarrow> (store, atomic_error, unit) act" where
  "increment_all D k ds = act_for (\<lambda>d. act_bind (increment_i64 D k d) (\<lambda>_. act_return ())) ds"

lemma increments_add_up:
  assumes "increment_all D k ds s = (Inr (), s')" and "counter s k = Some c"
  shows "\<exists>c'. counter s' k = Some c' \<and> sint c' = sint c + sum_list (map sint ds)"
  using assms
proof (induction ds arbitrary: s c)
  case (Cons d ds)
  then obtain n s1 where n: "increment_i64 D k d s = (Inr n, s1)" "increment_all D k ds s1 = (Inr (), s')"
    by (auto simp: act_bind_Inr_iff)
  from n(1) obtain c0 where "counter s k = Some c0" "sint n = sint c0 + sint d" "counter s1 k = Some n"
    by (rule increment_i64_Inr)
  then show ?case using Cons.IH [OF n(2)] Cons.prems(2) by auto
qed simp

end
