(* ===== verification/Ttl.thy ===== *)
theory Ttl
  imports Durability
begin

text \<open>
  Expiring keys (\<open>crates/voodoo-store-core/src/ttl.rs\<close>): expiration metadata under the engine's
  namespace, reads against a caller's clock and the sweep that removes expired keys.
\<close>

section \<open>Model\<close>

definition TTL_PREFIX :: bytes where
  "TTL_PREFIX = 0xff # ascii ''vds:ttl:''"

definition TTL_VALUE_VERSION :: u8 where
  "TTL_VALUE_VERSION = 1"

record ttl_info =
  expires_at_ms :: i64

definition is_expired :: "ttl_info \<Rightarrow> i64 \<Rightarrow> bool" where
  "is_expired i now \<longleftrightarrow> sint (expires_at_ms i) \<le> sint now"

record ttl_sweep_report =
  ts_scanned :: usize
  ts_expired :: usize
  ts_removed :: usize

datatype ttl_error = TtStore engine_error | TtKeyTooLarge | TtCorruptMetadata

definition ttl_key :: "bytes \<Rightarrow> ttl_error + bytes" where
  "ttl_key k =
     (case u32_try_from_len (length k) of
        None \<Rightarrow> Inl TtKeyTooLarge
      | Some key_len \<Rightarrow> Inr (TTL_PREFIX @ to_be key_len @ k))"

definition decode_ttl_key :: "bytes \<Rightarrow> ttl_error + bytes" where
  "decode_ttl_key encoded =
     (if \<not> prefix TTL_PREFIX encoded then Inl TtCorruptMetadata
      else
        let rest = drop (length TTL_PREFIX) encoded
        in if length rest < 4 then Inl TtCorruptMetadata
           else
             let key_len = unat (from_be (take 4 rest) :: u32)
             in if length rest \<noteq> 4 + key_len then Inl TtCorruptMetadata else Inr (drop 4 rest))"

definition encode_ttl :: "ttl_info \<Rightarrow> bytes" where
  "encode_ttl i = TTL_VALUE_VERSION # to_le (expires_at_ms i)"

definition decode_ttl :: "bytes \<Rightarrow> ttl_error + ttl_info" where
  "decode_ttl encoded =
     (if length encoded \<noteq> 9 \<or> hd encoded \<noteq> TTL_VALUE_VERSION then Inl TtCorruptMetadata
      else Inr \<lparr>expires_at_ms = from_le (drop 1 encoded)\<rparr>)"

definition put_with_ttl :: "deps \<Rightarrow> bytes \<Rightarrow> bytes \<Rightarrow> i64 \<Rightarrow> (store, ttl_error, unit) act" where
  "put_with_ttl D k v expires s =
     (case ttl_key k of
        Inl e \<Rightarrow> (Inl e, s)
      | Inr metadata_key \<Rightarrow>
          run_tx D True TtStore
            (act_map_err TtStore
              (act_bind (tx_put D k v) (\<lambda>_.
                tx_put_internal D metadata_key (encode_ttl \<lparr>expires_at_ms = expires\<rparr>)))) s)"

definition ttl :: "store \<Rightarrow> bytes \<Rightarrow> ttl_error + ttl_info option" where
  "ttl s k = res_bind (ttl_key k) (\<lambda>metadata_key. transpose_map decode_ttl (store_get s metadata_key))"

definition get_at :: "store \<Rightarrow> bytes \<Rightarrow> i64 \<Rightarrow> ttl_error + bytes option" where
  "get_at s k now =
     (case store_get s k of
        None \<Rightarrow> Inr None
      | Some v \<Rightarrow>
          res_bind (ttl s k) (\<lambda>i.
            case i of
              Some i \<Rightarrow> if is_expired i now then Inr None else Inr (Some v)
            | None \<Rightarrow> Inr (Some v)))"

definition clear_ttl :: "deps \<Rightarrow> bytes \<Rightarrow> (store, ttl_error, bool) act" where
  "clear_ttl D k s =
     (case ttl_key k of
        Inl e \<Rightarrow> (Inl e, s)
      | Inr metadata_key \<Rightarrow>
          if store_get s metadata_key = None then (Inr False, s)
          else act_bind (act_map_err TtStore (store_delete_internal D metadata_key))
                 (\<lambda>_. act_return True) s)"

fun purge_collect ::
  "i64 \<Rightarrow> usize \<Rightarrow> store \<Rightarrow> usize \<Rightarrow> (bytes \<times> bytes \<times> bool) list \<Rightarrow> kv \<Rightarrow>
     ttl_error + usize \<times> (bytes \<times> bytes \<times> bool) list" where
  "purge_collect now limit s scanned entries [] = Inr (scanned, entries)"
| "purge_collect now limit s scanned entries ((metadata_key, metadata_value) # rest) =
     res_bind (decode_ttl metadata_value) (\<lambda>i.
       if is_expired i now then
         res_bind (decode_ttl_key metadata_key) (\<lambda>user_key.
           let entries' = entries @ [(metadata_key, user_key, store_get s user_key \<noteq> None)]
           in if length entries' = limit then Inr (scanned + 1, entries')
              else purge_collect now limit s (scanned + 1) entries' rest)
       else purge_collect now limit s (scanned + 1) entries rest)"

definition purge_entry :: "deps \<Rightarrow> bytes \<times> bytes \<times> bool \<Rightarrow> (transaction, ttl_error, unit) act" where
  "purge_entry D e =
     (case e of (metadata_key, user_key, exists) \<Rightarrow>
        act_map_err TtStore
          (act_bind (if exists then tx_delete D user_key else act_return ()) (\<lambda>_.
            tx_delete_internal D metadata_key)))"

definition purge_expired :: "deps \<Rightarrow> i64 \<Rightarrow> usize \<Rightarrow> (store, ttl_error, ttl_sweep_report) act" where
  "purge_expired D now limit s =
     (if limit = 0 then (Inr \<lparr>ts_scanned = 0, ts_expired = 0, ts_removed = 0\<rparr>, s)
      else case purge_collect now limit s 0 [] (scan_prefix s TTL_PREFIX) of
             Inl e \<Rightarrow> (Inl e, s)
           | Inr (scanned, entries) \<Rightarrow>
               if entries = [] then (Inr \<lparr>ts_scanned = scanned, ts_expired = 0, ts_removed = 0\<rparr>, s)
               else run_tx D True TtStore
                      (act_bind (act_for (purge_entry D) entries) (\<lambda>_.
                        act_return \<lparr>ts_scanned = scanned, ts_expired = length entries,
                          ts_removed = length (filter (\<lambda>(_, _, exists). exists) entries)\<rparr>)) s)"

section \<open>Formats\<close>

lemma decode_ttl_encode [simp]: "decode_ttl (encode_ttl i) = Inr i"
  by (simp add: decode_ttl_def encode_ttl_def)

interpretation ttl_codec: codec "\<lambda>i. Inr (encode_ttl i)" decode_ttl "\<lambda>_. True"
  by unfold_locales auto

lemma ttl_key_Inr:
  assumes "ttl_key k = Inr mk"
  obtains l where "unat l = length k" and "mk = TTL_PREFIX @ to_be (l :: u32) @ k"
  using assms u32_try_from_len_Some(1) by (auto simp: ttl_key_def split: option.splits)

lemma ttl_key_prefix: "ttl_key k = Inr mk \<Longrightarrow> prefix TTL_PREFIX mk"
  by (auto elim: ttl_key_Inr)

lemma decode_ttl_key_encode: "ttl_key k = Inr mk \<Longrightarrow> decode_ttl_key mk = Inr k"
  by (erule ttl_key_Inr) (simp add: decode_ttl_key_def Let_def)

lemma ttl_key_decode:
  assumes "decode_ttl_key mk = Inr k"
  shows "ttl_key k = Inr mk"
proof -
  let ?rest = "drop (length TTL_PREFIX) mk"
  have p: "prefix TTL_PREFIX mk" and l: "4 \<le> length ?rest"
    and n: "length ?rest = 4 + unat (from_be (take 4 ?rest) :: u32)" and k: "k = drop 4 ?rest"
    using assms by (auto simp: decode_ttl_key_def Let_def split: if_splits)
  let ?w = "from_be (take 4 ?rest) :: u32"
  have "length k = unat ?w" using k n l by simp
  moreover have "unat ?w < 2 ^ 32" using unsigned_less [of ?w, where 'a = nat] by simp
  ultimately have "u32_try_from_len (length k) = Some ?w" by (simp add: u32_try_from_len_def)
  moreover have "TTL_PREFIX @ to_be ?w @ k = mk"
  proof -
    have "to_be ?w = take 4 ?rest" using l by (intro to_be_from_be) simp
    then have "to_be ?w @ k = ?rest" unfolding k by (simp only: append_take_drop_id)
    then show ?thesis using p by (auto simp: prefix_def)
  qed
  ultimately show ?thesis by (simp add: ttl_key_def)
qed

lemma ttl_space: "prefix TTL_PREFIX k \<Longrightarrow> not_cdc k" "prefix TTL_PREFIX k \<Longrightarrow> prefix INTERNAL_KEY_PREFIX k"
proof -
  show "prefix TTL_PREFIX k \<Longrightarrow> not_cdc k"
    by (rule other_space [of TTL_PREFIX]) (simp_all add: TTL_PREFIX_def CDC_PREFIX_def ascii_def)
  have "prefix INTERNAL_KEY_PREFIX TTL_PREFIX"
    by (simp add: TTL_PREFIX_def INTERNAL_KEY_PREFIX_def ascii_def)
  then show "prefix TTL_PREFIX k \<Longrightarrow> prefix INTERNAL_KEY_PREFIX k" by (blast intro: prefix_order.trans)
qed

lemma ttl_key_inj: "ttl_key k = Inr mk \<Longrightarrow> ttl_key k' = Inr mk \<Longrightarrow> k = k'"
  using decode_ttl_key_encode by (metis Inr_inject)

section \<open>Writing and reading\<close>

lemma staging_put_with_ttl: "staging (act_map_err f (act_bind (tx_put D k v) (\<lambda>_. tx_put_internal D mk m)))"
  by (intro staging_intros)

lemma put_with_ttl_Inr:
  assumes "put_with_ttl D k v expires s = (Inr u, s')"
  obtains mk where "ttl_key k = Inr mk" and "\<not> prefix INTERNAL_KEY_PREFIX k"
    and "\<And>k'. not_cdc k' \<Longrightarrow> store_get s' k' =
      (if k' = mk then Some (encode_ttl \<lparr>expires_at_ms = expires\<rparr>) else if k' = k then Some v else store_get s k')"
proof -
  obtain mk where mk: "ttl_key k = Inr mk"
    using assms by (auto simp: put_with_ttl_def split: sum.splits)
  let ?m = "encode_ttl \<lparr>expires_at_ms = expires\<rparr>"
  have "run_tx D True TtStore (act_map_err TtStore (act_bind (tx_put D k v) (\<lambda>_. tx_put_internal D mk ?m))) s = (Inr u, s')"
    using assms mk by (simp add: put_with_ttl_def)
  then obtain t2 where t2: "act_map_err TtStore (act_bind (tx_put D k v) (\<lambda>_. tx_put_internal D mk ?m)) (fresh_tx True s) = (Inr u, t2)"
      "\<And>k. not_cdc k \<Longrightarrow> store_get s' k = tx_get_internal t2 k"
    by (rule run_tx_view [OF staging_put_with_ttl]) blast
  then obtain t1 where t1: "tx_put D k v (fresh_tx True s) = (Inr (), t1)" "tx_put_internal D mk ?m t1 = (Inr u, t2)"
    by (auto simp: act_map_err_iff act_bind_Inr_iff)
  show ?thesis
    by (rule that [OF mk tx_put_get(1) [OF t1(1)]])
      (use t2(2) tx_put_get(2) [OF t1(1)] tx_kv.put_get [OF t1(2)] in auto)
qed

text \<open>A key written with an expiration is readable strictly before it and not from it on.\<close>

lemma get_at_put_with_ttl:
  assumes "put_with_ttl D k v expires s = (Inr u, s')"
  shows "get_at s' k now = Inr (if sint now < sint expires then Some v else None)"
proof -
  from assms obtain mk where mk: "ttl_key k = Inr mk" "\<not> prefix INTERNAL_KEY_PREFIX k"
    "\<And>k'. not_cdc k' \<Longrightarrow> store_get s' k' =
      (if k' = mk then Some (encode_ttl \<lparr>expires_at_ms = expires\<rparr>) else if k' = k then Some v else store_get s k')"
    by (rule put_with_ttl_Inr) blast
  have "not_cdc k" "not_cdc mk" "k \<noteq> mk"
    using user_key_not_cdc [OF mk(2)] ttl_space [OF ttl_key_prefix [OF mk(1)]] mk(2) by auto
  then show ?thesis using mk by (auto simp: get_at_def ttl_def is_expired_def)
qed

text \<open>An ordinary put keeps the expiration of its key.\<close>

lemma ttl_store_put:
  assumes "store_put D k v s = (Inr u, s')"
  shows "ttl s' k' = ttl s k'"
proof (cases "ttl_key k'")
  case (Inr mk)
  have "mk \<noteq> k" using store_put_get(1) [OF assms] ttl_space [OF ttl_key_prefix [OF Inr]] by auto
  then show ?thesis using store_put_get(2) [OF assms] ttl_space [OF ttl_key_prefix [OF Inr]] Inr
    by (simp add: ttl_def)
qed (simp add: ttl_def)

lemma clear_ttl_Inr:
  assumes "clear_ttl D k s = (Inr b, s')"
  shows "ttl s' k = Inr None" and "not_cdc k' \<Longrightarrow> \<not> prefix TTL_PREFIX k' \<Longrightarrow> store_get s' k' = store_get s k'"
proof -
  obtain mk where mk: "ttl_key k = Inr mk" using assms by (auto simp: clear_ttl_def split: sum.splits)
  have n: "not_cdc mk" "prefix TTL_PREFIX mk" using ttl_space ttl_key_prefix mk by blast+
  have "store_get s mk = None \<and> s' = s \<or> store_delete_internal D mk s = (Inr (), s')"
    using assms mk by (auto simp: clear_ttl_def act_bind_Inr_iff act_map_err_iff split: if_splits)
  then show "ttl s' k = Inr None" "not_cdc k' \<Longrightarrow> \<not> prefix TTL_PREFIX k' \<Longrightarrow> store_get s' k' = store_get s k'"
    using mk n store_kv.del_get [of D mk s "()" s'] by (auto simp: ttl_def)
qed

section \<open>The sweep\<close>

text \<open>What the sweep's scan collects: the first \<open>limit\<close> expired entries.\<close>

definition expired_entry :: "i64 \<Rightarrow> store \<Rightarrow> bytes \<times> bytes \<Rightarrow> (bytes \<times> bytes \<times> bool) option" where
  "expired_entry now s e =
     (case (decode_ttl (snd e), decode_ttl_key (fst e)) of
        (Inr i, Inr uk) \<Rightarrow> if is_expired i now then Some (fst e, uk, store_get s uk \<noteq> None) else None
      | _ \<Rightarrow> None)"

lemma purge_collect_spec:
  assumes "purge_collect now limit s n acc md = Inr (n', es)" and "length acc < limit"
  shows "es = acc @ take (limit - length acc) (List.map_filter (expired_entry now s) md) \<and>
    (length es < limit \<longrightarrow> (\<forall>(mk, mv) \<in> set md. \<exists>i. decode_ttl mv = Inr i \<and>
      (is_expired i now \<longrightarrow> (\<exists>uk. decode_ttl_key mk = Inr uk))))"
  using assms
proof (induction md arbitrary: n acc)
  case (Cons e md)
  obtain mk mv where e: "e = (mk, mv)" by (cases e)
  obtain i where i: "decode_ttl mv = Inr i" using Cons.prems(1) e by (auto simp: res_bind_Inr_iff)
  have lim: "limit - length acc = Suc (limit - Suc (length acc))" using Cons.prems(2) by simp
  show ?case
  proof (cases "is_expired i now")
    case True
    then obtain uk where uk: "decode_ttl_key mk = Inr uk"
      using Cons.prems(1) e i by (auto simp: res_bind_Inr_iff)
    let ?acc = "acc @ [(mk, uk, store_get s uk \<noteq> None)]"
    have x: "expired_entry now s e = Some (mk, uk, store_get s uk \<noteq> None)"
      using True i uk e by (simp add: expired_entry_def)
    show ?thesis
    proof (cases "length ?acc = limit")
      case True
      then show ?thesis using Cons.prems(1) e i uk \<open>is_expired i now\<close> x lim
        by (auto simp: List.map_filter_def)
    next
      case False
      then have "purge_collect now limit s (n + 1) ?acc md = Inr (n', es)" "length ?acc < limit"
        using Cons.prems e i uk True by simp_all
      from Cons.IH [OF this] show ?thesis using x lim e i uk by (auto simp: List.map_filter_def)
    qed
  next
    case False
    then have x: "expired_entry now s e = None" using i e by (auto simp: expired_entry_def split: sum.split)
    have "purge_collect now limit s (n + 1) acc md = Inr (n', es)" using Cons.prems(1) e i False by simp
    from Cons.IH [OF this Cons.prems(2)] show ?thesis using x e i False by (auto simp: List.map_filter_def)
  qed
qed (auto simp: List.map_filter_def)

lemma staging_purge_entry [staging_intros]: "staging (purge_entry D e)"
  unfolding purge_entry_def by (cases e) (simp only: prod.case, intro staging_intros)

definition purges :: "(bytes \<times> bytes \<times> bool) list \<Rightarrow> bytes \<Rightarrow> bool" where
  "purges es k \<longleftrightarrow> (\<exists>mk uk ex. (mk, uk, ex) \<in> set es \<and> (k = mk \<or> ex \<and> k = uk))"

lemma purges_simps [simp]:
  "\<not> purges [] k" "purges ((mk, uk, ex) # es) k \<longleftrightarrow> k = mk \<or> ex \<and> k = uk \<or> purges es k"
  by (auto simp: purges_def)

lemma purge_entries_view:
  assumes "act_for (purge_entry D) es t = (Inr u, t')"
  shows "tx_get_internal t' k =
    (if purges es k then None else tx_get_internal t k) \<and>
    (\<forall>(mk, uk, ex) \<in> set es. ex \<longrightarrow> \<not> prefix INTERNAL_KEY_PREFIX uk)"
  using assms
proof (induction es arbitrary: t)
  case (Cons e es)
  obtain mk uk ex where e: "e = (mk, uk, ex)" by (cases e)
  from Cons.prems obtain t1 t2 where t1: "(if ex then tx_delete D uk else act_return ()) t = (Inr (), t1)"
      "tx_delete_internal D mk t1 = (Inr (), t2)" and t2: "act_for (purge_entry D) es t2 = (Inr u, t')"
    by (auto simp: e purge_entry_def [of D "(mk, uk, ex)"] act_bind_Inr_iff act_map_err_iff)
  have "tx_get_internal t1 k = (if ex \<and> k = uk then None else tx_get_internal t k)"
    using t1(1) tx_delete_get(2) [of D uk t "()" t1] by (auto split: if_splits)
  moreover have "ex \<Longrightarrow> \<not> prefix INTERNAL_KEY_PREFIX uk"
    using t1(1) tx_delete_get(1) [of D uk t "()" t1] by auto
  ultimately show ?case using Cons.IH [OF t2] tx_kv.del_get [OF t1(2)] by (auto simp: e)
qed simp

lemma staging_purge:
  "staging (act_bind (act_for (purge_entry D) es) (\<lambda>_. act_return r))"
  by (intro staging_intros)

lemma purge_expired_Inr:
  assumes p: "purge_expired D now limit s = (Inr r, s')" and limit: "limit \<noteq> 0"
  obtains n es where "purge_collect now limit s 0 [] (scan_prefix s TTL_PREFIX) = Inr (n, es)"
    and "ts_expired r = length es" and "ts_removed r = length (filter (\<lambda>(_, _, exists). exists) es)"
    and "\<And>k. not_cdc k \<Longrightarrow> store_get s' k =
      (if purges es k then None else store_get s k)"
    and "\<And>mk uk ex. (mk, uk, ex) \<in> set es \<Longrightarrow> ex \<Longrightarrow> \<not> prefix INTERNAL_KEY_PREFIX uk"
proof -
  obtain n es where c: "purge_collect now limit s 0 [] (scan_prefix s TTL_PREFIX) = Inr (n, es)"
    using p limit by (auto simp: purge_expired_def split: sum.splits prod.splits)
  show ?thesis
  proof (cases "es = []")
    case True
    then show ?thesis using that [OF c] p limit c by (auto simp: purge_expired_def)
  next
    case False
    let ?r = "\<lparr>ts_scanned = n, ts_expired = length es,
      ts_removed = length (filter (\<lambda>(_, _, exists). exists) es)\<rparr>"
    have "run_tx D True TtStore (act_bind (act_for (purge_entry D) es) (\<lambda>_. act_return ?r)) s = (Inr r, s')"
      using p limit c False by (simp add: purge_expired_def)
    then obtain t1 where t1: "act_bind (act_for (purge_entry D) es) (\<lambda>_. act_return ?r) (fresh_tx True s) = (Inr r, t1)"
        "\<And>k. not_cdc k \<Longrightarrow> store_get s' k = tx_get_internal t1 k"
      by (rule run_tx_view [OF staging_purge]) blast
    then have "act_for (purge_entry D) es (fresh_tx True s) = (Inr (), t1)" "r = ?r"
      by (auto simp: act_bind_Inr_iff)
    from purge_entries_view [OF this(1)] show ?thesis using that [OF c] t1(2) \<open>r = ?r\<close> by fastforce
  qed
qed

lemma in_map_filter: "y \<in> set (List.map_filter f xs) \<longleftrightarrow> (\<exists>x \<in> set xs. f x = Some y)"
  by (force simp: List.map_filter_def)

text \<open>Every collected entry is an expired key of the store.\<close>

lemma collected_expired:
  assumes wf: "store_wf s" and c: "purge_collect now limit s 0 [] (scan_prefix s TTL_PREFIX) = Inr (n, es)"
    and limit: "limit \<noteq> 0" and e: "(mk, uk, ex) \<in> set es"
  shows "ttl_key uk = Inr mk \<and> ex = (store_get s uk \<noteq> None) \<and>
    (\<exists>i. ttl s uk = Inr (Some i) \<and> is_expired i now)"
proof -
  have "(mk, uk, ex) \<in> set (List.map_filter (expired_entry now s) (scan_prefix s TTL_PREFIX))"
    using purge_collect_spec [OF c] limit e by (auto dest: in_set_takeD)
  then obtain mv where "(mk, mv) \<in> set (scan_prefix s TTL_PREFIX)" "expired_entry now s (mk, mv) = Some (mk, uk, ex)"
  proof -
    assume *: "\<And>mv. (mk, mv) \<in> set (scan_prefix s TTL_PREFIX) \<Longrightarrow>
      expired_entry now s (mk, mv) = Some (mk, uk, ex) \<Longrightarrow> thesis"
    assume "(mk, uk, ex) \<in> set (List.map_filter (expired_entry now s) (scan_prefix s TTL_PREFIX))"
    then obtain e where e: "e \<in> set (scan_prefix s TTL_PREFIX)" "expired_entry now s e = Some (mk, uk, ex)"
      by (auto simp: in_map_filter)
    then have "fst e = mk" by (auto simp: expired_entry_def split: sum.splits if_splits)
    then show thesis using * [of "snd e"] e by auto
  qed
  then show ?thesis using ttl_key_decode
    by (auto simp: in_scan_prefix_iff [OF wf] expired_entry_def ttl_def split: sum.splits if_splits)
qed

text \<open>What the sweep leaves of one user key and its expiration.\<close>

lemma purge_expired_key:
  assumes wf: "store_wf s" and p: "purge_expired D now limit s = (Inr r, s')" and limit: "limit \<noteq> 0"
    and k: "\<not> prefix INTERNAL_KEY_PREFIX k"
  shows "store_get s' k = store_get s k \<and> ttl s' k = ttl s k \<or>
    store_get s' k = None \<and> ttl s' k = Inr None \<and> (\<exists>i. ttl s k = Inr (Some i) \<and> is_expired i now)"
proof -
  obtain n es where c: "purge_collect now limit s 0 [] (scan_prefix s TTL_PREFIX) = Inr (n, es)"
    and get: "\<And>k. not_cdc k \<Longrightarrow> store_get s' k =
      (if purges es k then None else store_get s k)"
    and usr: "\<And>mk uk ex. (mk, uk, ex) \<in> set es \<Longrightarrow> ex \<Longrightarrow> \<not> prefix INTERNAL_KEY_PREFIX uk"
    using p limit by (rule purge_expired_Inr) blast
  note E = collected_expired [OF wf c limit]
  have nk: "not_cdc k" by (rule user_key_not_cdc [OF k])
  have mki: "prefix INTERNAL_KEY_PREFIX mk" if "(mk, uk, ex) \<in> set es" for mk uk ex
    using E [OF that] ttl_key_prefix ttl_space(2) by blast
  have sk: "store_get s' k = (if \<exists>mk. (mk, k, True) \<in> set es then None else store_get s k)"
  proof -
    have "purges es k \<longleftrightarrow> (\<exists>mk. (mk, k, True) \<in> set es)" unfolding purges_def using mki k by (metis (full_types))
    then show ?thesis using get [OF nk] by simp
  qed
  have tk: "ttl s' k = (if \<exists>mk ex. (mk, k, ex) \<in> set es then Inr None else ttl s k)"
  proof (cases "ttl_key k")
    case (Inr m)
    have mi: "prefix INTERNAL_KEY_PREFIX m" using ttl_space(2) [OF ttl_key_prefix [OF Inr]] .
    have own: "mk = m \<longleftrightarrow> uk = k" if "(mk, uk, ex) \<in> set es" for mk uk ex
      using E [OF that] ttl_key_inj Inr by (metis Inr_inject)
    have "purges es m \<longleftrightarrow> (\<exists>mk ex. (mk, k, ex) \<in> set es)"
      unfolding purges_def using own usr mi by blast
    then show ?thesis using get [of m] ttl_space(1) [OF ttl_key_prefix [OF Inr]] Inr by (simp add: ttl_def)
  next
    case (Inl e)
    then have "\<nexists>mk ex. (mk, k, ex) \<in> set es" using E by (metis Inl_Inr_False)
    then show ?thesis using Inl by (simp add: ttl_def)
  qed
  show ?thesis
  proof (cases "\<exists>mk ex. (mk, k, ex) \<in> set es")
    case True
    then obtain mk ex where e: "(mk, k, ex) \<in> set es" by blast
    have "store_get s' k = None" using sk e E [OF e] by (cases ex) auto
    then show ?thesis using tk e E [OF e] by auto
  qed (use sk tk in auto)
qed

text \<open>The sweep is invisible to readers whose clock is not behind the sweep's.\<close>

theorem purge_expired_invisible:
  assumes wf: "store_wf s" and p: "purge_expired D now limit s = (Inr r, s')"
    and k: "\<not> prefix INTERNAL_KEY_PREFIX k" and now': "sint now \<le> sint now'"
  shows "get_at s' k now' = get_at s k now'"
proof (cases "limit = 0")
  case True
  then show ?thesis using p by (simp add: purge_expired_def)
next
  case False
  from purge_expired_key [OF wf p this k] now' show ?thesis
    by (auto simp: get_at_def is_expired_def split: option.split)
qed

text \<open>When the sweep stopped short of its limit nothing expired is left.\<close>

theorem purge_expired_complete:
  assumes wf: "store_wf s" and p: "purge_expired D now limit s = (Inr r, s')" and r: "ts_expired r < limit"
    and k: "ttl s' k = Inr (Some i)"
  shows "\<not> is_expired i now"
proof
  assume exp: "is_expired i now"
  have limit: "limit \<noteq> 0" using r by auto
  obtain n es where c: "purge_collect now limit s 0 [] (scan_prefix s TTL_PREFIX) = Inr (n, es)"
    and le: "ts_expired r = length es" and get: "\<And>k. not_cdc k \<Longrightarrow> store_get s' k =
      (if purges es k then None else store_get s k)"
    using p limit by (rule purge_expired_Inr) blast
  obtain m where m: "ttl_key k = Inr m" "transpose_map decode_ttl (store_get s' m) = Inr (Some i)"
    using k by (auto simp: ttl_def res_bind_Inr_iff)
  have mp: "prefix TTL_PREFIX m" "not_cdc m" using ttl_key_prefix [OF m(1)] ttl_space by blast+
  obtain mv where mv: "store_get s' m = Some mv" "decode_ttl mv = Inr i"
    using m(2) by (auto simp: transpose_map_Inr_Some)
  then have notin: "\<forall>uk ex. (m, uk, ex) \<notin> set es" and sm: "store_get s m = Some mv"
    using get [OF mp(2)] by (auto simp: purges_def split: if_splits)
  have es: "es = List.map_filter (expired_entry now s) (scan_prefix s TTL_PREFIX)"
    using purge_collect_spec [OF c] limit le r by simp
  have "expired_entry now s (m, mv) = Some (m, k, store_get s k \<noteq> None)"
    using mv(2) exp decode_ttl_key_encode [OF m(1)] by (simp add: expired_entry_def)
  moreover have "(m, mv) \<in> set (scan_prefix s TTL_PREFIX)" using mp sm by (simp add: in_scan_prefix_iff [OF wf])
  ultimately have "(m, k, store_get s k \<noteq> None) \<in> set es" unfolding es by (auto simp: in_map_filter)
  then show False using notin by blast
qed

end
