(* ===== verification/Store_Properties.thy ===== *)
theory Store_Properties
  imports Sync_Failure Atomic Ttl
begin

text \<open>
  Properties of the storage engine: atomicity and durability of application transactions under
  crashes, what recovery computes, the change feed, compare-and-swap, counters and expiry.
\<close>

section \<open>Transactions and crashes\<close>

text \<open>C1: whatever an application transaction does and wherever a crash cuts the file that it was
  writing, opening the file again succeeds and shows the store either exactly as before the
  transaction or exactly as after it.\<close>

theorem transaction_atomic_under_crash:
  assumes "recoverable D s" and "client_tx D ops s = (r, s1)" and "benign os" and "length (st_file s1) < 2 ^ 64"
    and "length (st_file s) \<le> n" and "opt_repair_torn_tail opts"
  shows "\<exists>s'. open_file D opts now (take n (st_file s1)) os = (Inr s', s') \<and>
    (st_state s' = st_state s \<or> st_state s' = st_state s1)"
proof -
  obtain rs where "durable D s rs" using assms(1) by (auto simp: recoverable_def)
  from crash_in_transaction [OF this client_tx_intros(2) assms(2) [unfolded client_tx_def] assms(3-6)] show ?thesis .
qed

lemma demo_recoverable [simp]: "recoverable demo_deps demo_store"
  unfolding recoverable_def by (rule exI) (rule demo_store_durable)

lemma repair_default [simp]: "opt_repair_torn_tail store_options_default"
  by (simp add: store_options_default_def)

abbreviation demo_ops :: "operation list" where
  "demo_ops \<equiv> [OpPut [1] [2], OpPut [3] [4], OpDelete [1]]"

lemma demo_ops_tx:
  obtains s where "client_tx demo_deps demo_ops demo_store = (Inr (), s)" and "healthy 500 s" and "recoverable demo_deps s"
  by (rule demo_client_tx [of demo_ops]) (auto simp: INTERNAL_KEY_PREFIX_def)

theorem transaction_atomic_under_crash_witness:
  "\<exists>s1 s'. client_tx demo_deps demo_ops demo_store = (Inr (), s1) \<and>
     open_file demo_deps store_options_default 7 (take 100 (st_file s1)) demo_os = (Inr s', s') \<and>
     (st_state s' = st_state demo_store \<or> st_state s' = st_state s1)"
proof -
  obtain s1 where s1: "client_tx demo_deps demo_ops demo_store = (Inr (), s1)" "healthy 500 s1" by (rule demo_ops_tx)
  have "length (st_file demo_store) \<le> 100"
    by (simp add: demo_store_def demo_header_def wf_header_def store_header_new_def STORE_HEADER_LEN_def)
  from transaction_atomic_under_crash [OF demo_recoverable s1(1) benign_demo_os healthy_file [OF s1(2)] this repair_default]
  show ?thesis using s1(1) by blast
qed

text \<open>C2: a committed transaction is still there when the store is opened again: every key that is
  not part of the change feed has the value the transaction's operations left, in their order,
  and the store can go on.\<close>

theorem committed_survives_reopen:
  assumes "recoverable D s" and "client_tx D ops s = (Inr u, s1)" and "benign os" and "length (st_file s1) < 2 ^ 64"
  shows "\<exists>s'. open_file D opts now (st_file s1) os = (Inr s', s') \<and> recoverable D s' \<and>
    (\<forall>k. not_cdc k \<longrightarrow> store_get s' k = written ops k (store_get s k))"
proof -
  have "recoverable D s1" by (rule client_tx_recoverable [OF assms(1,2)])
  from recoverable_reopen [OF this assms(3,4)] obtain s' where s': "open_file D opts now (st_file s1) os = (Inr s', s')"
    "recoverable D s'" "st_state s' = st_state s1" by blast
  then have "store_get s' k = store_get s1 k" for k by (simp add: store_get_def)
  then show ?thesis using s' client_tx_view [OF assms(2)] by auto
qed

theorem committed_survives_reopen_witness:
  "\<exists>s1 s'. client_tx demo_deps demo_ops demo_store = (Inr (), s1) \<and>
     open_file demo_deps store_options_default 7 (st_file s1) demo_os = (Inr s', s') \<and>
     store_get s' [3] = Some [4] \<and> store_get s' [1] = None"
proof -
  obtain s1 where s1: "client_tx demo_deps demo_ops demo_store = (Inr (), s1)" "healthy 500 s1" by (rule demo_ops_tx)
  from committed_survives_reopen [OF demo_recoverable s1(1) benign_demo_os healthy_file [OF s1(2)]]
  obtain s' where s': "open_file demo_deps store_options_default 7 (st_file s1) demo_os = (Inr s', s')"
    "\<forall>k. not_cdc k \<longrightarrow> store_get s' k = written demo_ops k (store_get demo_store k)" by blast
  have "not_cdc [3]" "not_cdc [1]" by (simp_all add: CDC_PREFIX_def ascii_def)
  then show ?thesis using s1 s' by (intro exI [of _ s1] exI [of _ s']) simp
qed

text \<open>C3: a transaction that returns an error leaves no trace in the state that the running process
  shows, for every store and however the operating system answers. It leaves no trace for the next
  open either, provided the file held the store's state before and the operating system does not
  leave the log half-written: its writes append everything or nothing and its syncs succeed.\<close>

theorem failed_transaction_invisible:
  assumes "client_tx D ops s = (Inl e, s1)"
  shows "st_state s1 = st_state s \<and> (\<forall>k. store_get s1 k = store_get s k) \<and>
    (recoverable D s \<and> benign (st_os s) \<and> benign os \<and> length (st_file s1) < 2 ^ 64 \<longrightarrow>
      (\<exists>s'. open_file D opts now (st_file s1) os = (Inr s', s') \<and> st_state s' = st_state s))"
proof -
  have st: "st_state s1 = st_state s" using run_tx_Inl [OF client_tx_intros(1)] assms unfolding client_tx_def by blast
  have "\<exists>s'. open_file D opts now (st_file s1) os = (Inr s', s') \<and> st_state s' = st_state s"
    if "recoverable D s" "benign os" "length (st_file s1) < 2 ^ 64"
    using recoverable_reopen [OF client_tx_recoverable [OF that(1) assms] that(2,3)] st by auto
  then show ?thesis using st by (simp add: store_get_def)
qed

theorem failed_transaction_invisible_witness:
  "\<exists>s1 s'. client_tx demo_deps [OpPut [1] [2], OpPut INTERNAL_KEY_PREFIX [3]] demo_store = (Inl EReservedKey, s1) \<and>
     st_file s1 \<noteq> st_file demo_store \<and> st_state s1 = [] \<and>
     open_file demo_deps store_options_default 7 (st_file s1) demo_os = (Inr s', s') \<and> st_state s' = []"
proof -
  have r: "ready (Suc 500) (fresh_tx True demo_store)" by (rule ready_fresh) simp
  obtain t where t: "client_step demo_deps (OpPut [1] [2]) (fresh_tx True demo_store) = (Inr (), t)" "ready 500 t"
    using client_step_ok [OF r, of "OpPut [1] [2]" demo_deps] by (auto simp: INTERNAL_KEY_PREFIX_def)
  have "st_next_tx_id demo_store \<noteq> - 1" by (simp add: demo_store_def)
  then have c: "client_tx demo_deps [OpPut [1] [2], OpPut INTERNAL_KEY_PREFIX [3]] demo_store = (Inl EReservedKey, tx_store t)"
    using t(1) by (simp add: client_tx_def run_tx_def begin_with_cdc_eq act_bind_def client_step_def tx_put_def ensure_user_key_def)
  have f: "length (st_file (tx_store t)) < 2 ^ 64" using t(2) healthy_file by (auto simp: ready_def)
  have ne: "st_file (tx_store t) \<noteq> st_file demo_store"
    using t(1) by (auto simp: client_step_def tx_put_iff tx_put_internal_def tx_stage_def store_append_def write_all_def Let_def
        INTERNAL_KEY_PREFIX_def fresh_tx_def demo_store_def demo_os_def over_quota_def store_options_default_def
        split: sum.splits option.splits dest!: record_encode_length)
  have b: "benign (st_os demo_store)" using benign_demo_os by (simp add: demo_store_def)
  have "st_state demo_store = []" by (simp add: demo_store_def)
  moreover obtain s' where "st_state (tx_store t) = st_state demo_store"
      "open_file demo_deps store_options_default 7 (st_file (tx_store t)) demo_os = (Inr s', s')" "st_state s' = st_state demo_store"
    using failed_transaction_invisible [OF c, of demo_os store_options_default 7] benign_demo_os b f by auto
  ultimately show ?thesis using c ne by (intro exI [of _ "tx_store t"] exI [of _ s']) simp
qed

text \<open>C4: a crash that cuts the file anywhere after its header loses a tail of the log and nothing
  else: opening succeeds, and the state is the committed state of a prefix of the records that
  contains every record that was completely in the file.\<close>

theorem crash_recovers_prefix:
  assumes "durable D s rs" and "benign os" and "length (st_file s) < 2 ^ 64" and "STORE_HEADER_LEN \<le> n"
    and "opt_repair_torn_tail opts"
  shows "\<exists>k s'. k \<le> length rs \<and> open_file D opts now (take n (st_file s)) os = (Inr s', s') \<and>
    st_state s' = committed_state (take k rs) \<and> durable D s' (take k rs) \<and>
    (\<forall>j bj. j \<le> length rs \<longrightarrow> encode_log (dep_crc32 D) (take j rs) = Inr bj \<longrightarrow>
       STORE_HEADER_LEN + length bj \<le> n \<longrightarrow> j \<le> k)"
  using crash_durable [OF assms] unfolding durable_def by blast

theorem crash_recovers_prefix_witness:
  "\<exists>s rs k s'. client_tx demo_deps demo_ops demo_store = (Inr (), s) \<and> durable demo_deps s rs \<and> k \<le> length rs \<and>
     open_file demo_deps store_options_default 7 (take 80 (st_file s)) demo_os = (Inr s', s') \<and>
     st_state s' = committed_state (take k rs)"
proof -
  obtain s where s: "client_tx demo_deps demo_ops demo_store = (Inr (), s)" "healthy 500 s" "recoverable demo_deps s" by (rule demo_ops_tx)
  then obtain rs where rs: "durable demo_deps s rs" by (auto simp: recoverable_def)
  have "STORE_HEADER_LEN \<le> 80" by (simp add: STORE_HEADER_LEN_def)
  from crash_recovers_prefix [OF rs benign_demo_os healthy_file [OF s(2)] this repair_default] show ?thesis using s(1) rs by blast
qed

text \<open>C5: recovery computes the specification. On a log of encoded records followed by a torn
  record, whatever the file's first 64 bytes hold, the recovered map is the fold of the
  operations of the committed transactions in commit order, and the valid end is the end of the
  last complete record.\<close>

theorem recovery_meets_specification:
  assumes "encode_log crc rs = Inr bs" and "torn crc tail" and "length pre = STORE_HEADER_LEN"
    and "recover crc (pre @ bs @ tail) = Inr r"
  shows "rec_state r = committed_state rs \<and> rec_valid_end r = of_nat (STORE_HEADER_LEN + length bs) \<and>
    (\<forall>q \<in> set rs. lr_tx_id q \<le> rec_max_tx_id r)"
proof -
  have "recover_loop crc (bs @ tail) recovery_start = replay rs recovery_start"
    using recover_loop_replay [OF assms(1,2), of recovery_start "[]"] by (simp add: recovery_start_def)
  then obtain a where a: "replay rs recovery_start = Inr a" "rec_state r = ra_state a" "rec_max_tx_id r = ra_max_tx_id a"
      "rec_valid_end r = of_nat (STORE_HEADER_LEN + ra_offset a)"
    using assms(3,4) by (auto simp: recover_def res_bind_Inr_iff)
  have "ra_offset a = length bs"
    using replay_offset [OF a(1)] encode_log_length [OF assms(1)] by (simp add: recovery_start_def)
  then show ?thesis using replay_meets_spec [OF a(1)] a by (simp add: replay_inv_def)
qed

abbreviation demo_record :: log_record where
  "demo_record \<equiv> log_record_new RPut 1 1 [1, 0, 0, 0, 7, 9]"

abbreviation demo_commit :: log_record where
  "demo_commit \<equiv> log_record_new RCommit 1 2 []"

lemma recover_encoded:
  assumes "encode_log crc rs = Inr bs" and "torn crc tail" and "length pre = STORE_HEADER_LEN" and "replay rs recovery_start = Inr a"
  shows "\<exists>r. recover crc (pre @ bs @ tail) = Inr r"
  using assms recover_loop_replay [OF assms(1,2), of recovery_start "[]"] by (simp add: recover_def recovery_start_def)

theorem recovery_meets_specification_witness:
  "\<exists>bs r. encode_log demo_crc [demo_record, demo_commit] = Inr bs \<and> recover demo_crc (replicate 64 0 @ bs @ [86, 68]) = Inr r \<and>
     rec_state r = [([7], [9])] \<and> rec_valid_end r = of_nat (64 + length bs)"
proof -
  obtain bs where bs: "encode_log demo_crc [demo_record, demo_commit] = Inr bs"
    by (simp add: record_encode_def log_record_new_def u32_try_from_len_def Let_def res_bind_def)
  have "case record_encode demo_crc demo_record of Inl _ \<Rightarrow> False | Inr b \<Rightarrow> take 2 b = [86, 68] \<and> 2 < length b" by code_simp
  then obtain b where b: "record_encode demo_crc demo_record = Inr b" "take 2 b = [86, 68]" "2 < length b" by (auto split: sum.splits)
  have t: "torn demo_crc [86, 68]" unfolding torn_def using b by (intro disjI2 exI [of _ demo_record] exI [of _ b] exI [of _ 2]) simp
  have l: "length (replicate 64 (0 :: byte)) = STORE_HEADER_LEN" by (simp add: STORE_HEADER_LEN_def)
  have "case replay [demo_record, demo_commit] recovery_start of Inl _ \<Rightarrow> False | Inr _ \<Rightarrow> True" by code_simp
  then obtain a where a: "replay [demo_record, demo_commit] recovery_start = Inr a" by (auto split: sum.splits)
  obtain r where r: "recover demo_crc (replicate 64 0 @ bs @ [86, 68]) = Inr r" using recover_encoded [OF bs t l a] by blast
  have "committed_state [demo_record, demo_commit] = [([7], [9])]" by code_simp
  then show ?thesis using recovery_meets_specification [OF bs t l r] bs r by (simp add: STORE_HEADER_LEN_def)
qed

section \<open>Formats\<close>

text \<open>C6: every record of the log is read back exactly as it was written, whatever its payload, and
  the extent that its length prefix announces is its own length whatever follows it in the file. A
  payload overwritten by one of the same length is rejected with both checksums whenever the
  checksums differ.\<close>

theorem log_record_integrity:
  assumes "record_encode crc r = Inr bs"
  shows "record_decode crc bs = Inr r \<and> encoded_record_len_from_prefix (bs @ rest) = Inr (length bs) \<and>
    (\<forall>p. length p = length (lr_payload r) \<and> crc (take HEADER_LEN bs @ p) \<noteq> crc (take HEADER_LEN bs @ lr_payload r) \<longrightarrow>
      record_decode crc (take HEADER_LEN bs @ p @ drop (HEADER_LEN + length p) bs) =
        Inl (LogChecksumMismatch (crc (take HEADER_LEN bs @ lr_payload r)) (crc (take HEADER_LEN bs @ p))))"
  using record_decode_encode [OF assms] encoded_len_of_record [OF assms] record_payload_corruption_detected [OF assms] by blast

definition sum_crc :: "bytes \<Rightarrow> u32" where
  "sum_crc bs = sum_list (map ucast bs)"

theorem log_record_integrity_witness:
  "\<exists>bs cs. record_encode sum_crc demo_record = Inr bs \<and> record_decode sum_crc bs = Inr demo_record \<and>
     (\<exists>a b. record_decode sum_crc (take HEADER_LEN bs @ [1, 0, 0, 0, 7, 8] @ drop (HEADER_LEN + 6) bs) = Inl (LogChecksumMismatch a b)) \<and>
     record_encode sum_crc demo_commit = Inr cs \<and> record_decode sum_crc cs = Inr demo_commit \<and>
     encoded_record_len_from_prefix (cs @ [5]) = Inr (length cs)"
proof -
  let ?p = "[1, 0, 0, 0, 7, 8 :: byte]"
  have "case record_encode sum_crc demo_record of Inl _ \<Rightarrow> False
    | Inr b \<Rightarrow> sum_crc (take HEADER_LEN b @ ?p) \<noteq> sum_crc (take HEADER_LEN b @ lr_payload demo_record)" by code_simp
  then obtain b where b: "record_encode sum_crc demo_record = Inr b"
      "sum_crc (take HEADER_LEN b @ ?p) \<noteq> sum_crc (take HEADER_LEN b @ lr_payload demo_record)" by (auto split: sum.splits)
  obtain c where c: "record_encode sum_crc demo_commit = Inr c"
    by (simp add: record_encode_def log_record_new_def u32_try_from_len_def Let_def res_bind_def)
  have "length ?p = length (lr_payload demo_record)" by (simp add: log_record_new_def)
  then have "record_decode sum_crc (take HEADER_LEN b @ ?p @ drop (HEADER_LEN + length ?p) b) =
      Inl (LogChecksumMismatch (sum_crc (take HEADER_LEN b @ lr_payload demo_record)) (sum_crc (take HEADER_LEN b @ ?p)))"
    using log_record_integrity [OF b(1), of "[]"] b(2) by blast
  moreover have "length ?p = 6" by simp
  ultimately show ?thesis using log_record_integrity [OF b(1), of "[]"] log_record_integrity [OF c, of "[5]"] b(1) c by metis
qed

text \<open>The 64-byte file header round-trips under every checksum function, whatever follows it; a
  header of another major format version is refused with that version, and only then.\<close>

theorem header_roundtrip:
  assumes "wf_header h"
  shows "length (header_encode crc h) = STORE_HEADER_LEN \<and>
    header_decode crc (header_encode crc h @ rest) =
      (if format_major h = FORMAT_MAJOR then Inr h else Inl (HeaderUnsupportedMajor (format_major h) FORMAT_MAJOR))"
  using length_header_encode [OF assms] header_decode_cases [OF assms] by blast

theorem header_roundtrip_witness:
  "header_decode demo_crc (header_encode demo_crc demo_header @ [1]) = Inr demo_header \<and>
   header_decode demo_crc (header_encode demo_crc (demo_header\<lparr>format_major := 9\<rparr>) @ []) = Inl (HeaderUnsupportedMajor 9 FORMAT_MAJOR)"
proof -
  have "wf_header demo_header" "wf_header (demo_header\<lparr>format_major := 9\<rparr>)"
    by (simp_all add: demo_header_def wf_header_def store_header_new_def)
  from header_roundtrip [OF this(1), of demo_crc "[1]"] header_roundtrip [OF this(2), of demo_crc "[]"]
  show ?thesis by (simp add: demo_header_def store_header_new_def FORMAT_MAJOR_def)
qed

section \<open>The change feed\<close>

lemma changes_of_user:
  "\<forall>op \<in> set ops. not_cdc (op_key op) \<Longrightarrow>
     changes_of D t q ops = map (\<lambda>(i, op). change_of D t (q + of_nat i) op) (enumerate 0 ops)"
proof (induction ops arbitrary: q)
  case (Cons op ops)
  have "enumerate (Suc 0) ops = map (\<lambda>(i, op). (Suc i, op)) (enumerate 0 ops)"
    by (auto simp: enumerate_Suc_eq)
  then show ?case using Cons by (simp add: case_prod_beta' comp_def add.assoc)
qed simp

lemma client_tx_capture:
  assumes "feed_inv s" and "sha_ok D" and "client_tx D ops s = (Inr u, s')" and "feed s = Inr cs"
  shows "feed_inv s' \<and>
    changes_for_transaction s' (st_next_tx_id s) =
      Inr (map (\<lambda>(i, op). change_of D (st_next_tx_id s) (of_nat i) op) (enumerate 0 ops)) \<and>
    feed s' = Inr (cs @ map (\<lambda>(i, op). change_of D (st_next_tx_id s) (of_nat i) op) (enumerate 0 ops))"
proof -
  note st = client_tx_intros(1) [of D ops]
  have run: "run_tx D True id (act_for (client_step D) ops) s = (Inr u, s')" using assms(3) by (simp add: client_tx_def)
  obtain t where t: "act_for (client_step D) ops (fresh_tx True s) = (Inr u, t)" using run by (rule run_tx_view [OF st])
  have o: "tx_operations t = ops" "\<forall>op \<in> set (tx_operations t). not_cdc (op_key op)" using client_tx_ops [OF t] by auto
  have c: "changes_of D (st_next_tx_id s) 0 ops = map (\<lambda>(i, op). change_of D (st_next_tx_id s) (of_nat i) op) (enumerate 0 ops)"
    using changes_of_user [of ops D "st_next_tx_id s" 0] o by simp
  show ?thesis
    using feed_inv_run [OF assms(1,2) st run t o(2)] transaction_changes [OF assms(1,2) st run t o(2)]
      feed_grows [OF assms(1,2) st run t o(2) assms(4)] o(1) c by simp
qed

text \<open>C7: change-data capture is complete and exact. A committed transaction adds to the feed
  precisely one change per operation, in order, numbered from zero under the transaction's id,
  and asking for that transaction's changes returns these.\<close>

theorem capture_exact:
  assumes "feed_inv s" and "sha_ok D" and "client_tx D ops s = (Inr u, s')" and "feed s = Inr cs"
  shows "feed_inv s' \<and>
    changes_for_transaction s' (st_next_tx_id s) =
      Inr (map (\<lambda>(i, op). change_of D (st_next_tx_id s) (of_nat i) op) (enumerate 0 ops)) \<and>
    feed s' = Inr (cs @ map (\<lambda>(i, op). change_of D (st_next_tx_id s) (of_nat i) op) (enumerate 0 ops))"
  using client_tx_capture [OF assms] .

lemma demo_feed [simp]: "feed_inv demo_store" "feed demo_store = Inr []"
  by (simp_all add: feed_inv_def feed_def scan_prefix_def scan_map_def demo_store_def store_get_def store_wf_def)

theorem capture_exact_witness:
  "\<exists>s. client_tx demo_deps demo_ops demo_store = (Inr (), s) \<and> feed_inv s \<and>
     changes_for_transaction s 1 = Inr [change_of demo_deps 1 0 (OpPut [1] [2]), change_of demo_deps 1 1 (OpPut [3] [4]), change_of demo_deps 1 2 (OpDelete [1])]"
proof -
  obtain s where s: "client_tx demo_deps demo_ops demo_store = (Inr (), s)" by (rule demo_ops_tx)
  have "st_next_tx_id demo_store = 1" by (simp add: demo_store_def)
  then show ?thesis using capture_exact [OF demo_feed(1) demo_sha_ok s demo_feed(2)] s by simp
qed

text \<open>C8: a consumer that reads the feed after the last transaction it has handled gets, in feed
  order, the next changes of later transactions, at most as many as it asks for; pruning removes
  exactly the oldest changes up to a transaction, again at most as many as asked for, and touches
  no other key.\<close>

theorem feed_reads_and_pruning:
  assumes "store_wf s" and "feed s = Inr cs" and "prune_changes_through D t limit s = (Inr n, s')"
  shows "changes_after s after m = Inr (take m (filter (\<lambda>c. case after of None \<Rightarrow> True | Some a \<Rightarrow> a < ch_tx_id c) cs)) \<and>
    n = min limit (length (takeWhile (\<lambda>c. ch_tx_id c \<le> t) cs)) \<and> feed s' = Inr (drop n cs) \<and>
    changes_after s' after m = Inr (take m (filter (\<lambda>c. case after of None \<Rightarrow> True | Some a \<Rightarrow> a < ch_tx_id c) (drop n cs))) \<and>
    (\<forall>k. not_cdc k \<longrightarrow> store_get s' k = store_get s k)"
  using changes_after_feed [OF assms(2)] prune_spec [OF assms] changes_after_feed [of s' "drop n cs"] by blast

lemma prune_ok:
  assumes inv: "feed_inv s" and sha: "sha_ok D" and h: "healthy (2 * limit + 2) s" and l: "limit < 2 ^ 32 - 1"
  shows "\<exists>n s'. prune_changes_through D t limit s = (Inr n, s')"
proof (cases "limit = 0")
  case False
  obtain cs where cs: "map_result (\<lambda>(_, encoded). decode_change encoded) (scan_prefix s CDC_PREFIX) = Inr cs"
    using feed_Inr [OF inv] by (auto simp: feed_def)
  define keys where "keys = take (min limit (length (takeWhile (\<lambda>c. ch_tx_id c \<le> t) cs))) (map fst (scan_prefix s CDC_PREFIX))"
  have p: "prune_keys t limit [] (scan_prefix s CDC_PREFIX) = Inr keys"
    using prune_keys_spec [OF cs, of "[]" limit t] False by (simp add: keys_def)
  have k: "length k = 28" if "k \<in> set keys" for k
    using that feed_scan_entry [OF inv] length_change_key unfolding keys_def feed_entry_def by (fastforce dest: in_set_takeD)
  let ?body = "act_bind (act_for (\<lambda>k. act_map_err CfStore (tx_delete_internal D k)) keys) (\<lambda>_. act_return (length keys))"
  have "can (1 * length keys + 0) ?body t0 (length keys)" for t0
    by (rule can_bind [OF can_for [OF can_map_err [OF can_delete]]]) (simp_all add: k can_pure)
  then have c: "can (length keys) ?body (fresh_tx False s) (length keys)" by simp
  have "length keys \<le> limit" by (simp add: keys_def)
  then have "healthy (2 * length keys + 2 + 0) s" using healthy_mono [OF h] by simp
  from run_can [OF sha c this, of CfStore] \<open>length keys \<le> limit\<close> l show ?thesis
    using p False by (auto simp: prune_changes_through_def)
qed (simp add: prune_changes_through_def)

theorem feed_reads_and_pruning_witness:
  "\<exists>s s'. client_tx demo_deps demo_ops demo_store = (Inr (), s) \<and> prune_changes_through demo_deps 1 2 s = (Inr 2, s') \<and>
     changes_after s' None 9 = Inr [change_of demo_deps 1 2 (OpDelete [1])] \<and> store_get s' [3] = Some [4]"
proof -
  obtain s where s: "client_tx demo_deps demo_ops demo_store = (Inr (), s)" "healthy 500 s" by (rule demo_ops_tx)
  have "st_next_tx_id demo_store = 1" by (simp add: demo_store_def)
  then have f: "feed_inv s" "feed s = Inr [change_of demo_deps 1 0 (OpPut [1] [2]), change_of demo_deps 1 1 (OpPut [3] [4]), change_of demo_deps 1 2 (OpDelete [1])]"
    using client_tx_capture [OF demo_feed(1) demo_sha_ok s(1) demo_feed(2)] by simp_all
  have "healthy (2 * 2 + 2) s" by (rule healthy_mono [OF s(2)]) simp
  from prune_ok [OF f(1) demo_sha_ok this] obtain n s' where p: "prune_changes_through demo_deps 1 2 s = (Inr n, s')" by fastforce
  have "not_cdc [3]" by (simp add: CDC_PREFIX_def ascii_def)
  then have "store_get s [3] = Some [4]" using client_tx_view [OF s(1)] by simp
  moreover have "store_wf s" using f(1) by (simp add: feed_inv_def)
  ultimately show ?thesis
    using feed_reads_and_pruning [OF _ f(2) p, of None 9] s(1) p \<open>not_cdc [3]\<close> by (intro exI [of _ s] exI [of _ s']) simp
qed

section \<open>Compare-and-swap and counters\<close>

text \<open>Of two compare-and-swap calls that expect the same value, with a replacement that differs
  from it, at most one takes effect. The one that swaps finds the expected value, installs its
  replacement and nothing else; the other reports a mismatch and changes nothing.\<close>

theorem swap_exclusive:
  assumes "compare_and_swap D k e v s = (Inr Swapped, s1)" and "v \<noteq> e" and "compare_and_swap D k e w s1 = (r, s2)"
  shows "store_get s k = e \<and> (\<forall>k'. not_cdc k' \<longrightarrow> store_get s1 k' = (if k' = k then v else store_get s k')) \<and>
    r = Inr Mismatch \<and> s2 = s1"
  using compare_and_swap_Inr [OF assms(1)] compare_and_swap_exclusive [OF assms] by auto

theorem swap_exclusive_witness:
  "\<exists>s1. compare_and_swap demo_deps [1] None (Some [2]) demo_store = (Inr Swapped, s1) \<and> store_get s1 [1] = Some [2] \<and>
     compare_and_swap demo_deps [1] None (Some [3]) s1 = (Inr Mismatch, s1)"
proof -
  let ?body = "act_bind (tx_put demo_deps [1] [2]) (\<lambda>_. act_return Swapped)"
  have "can (1 + 0) ?body (fresh_tx True demo_store) Swapped"
    by (rule can_bind [OF can_user(1)]) (auto simp: INTERNAL_KEY_PREFIX_def intro: can_pure)
  from run_can [OF demo_sha_ok this, of 0 id] obtain s1 where s1: "run_tx demo_deps True id ?body demo_store = (Inr Swapped, s1)" by auto
  have g: "store_get demo_store [1] = None" by (simp add: demo_store_def store_get_def)
  then have c: "compare_and_swap demo_deps [1] None (Some [2]) demo_store = (Inr Swapped, s1)" using s1 by (simp add: compare_and_swap_def)
  obtain r s2 where r: "compare_and_swap demo_deps [1] None (Some [3]) s1 = (r, s2)" by fastforce
  have "not_cdc [1]" by (simp add: CDC_PREFIX_def ascii_def)
  then show ?thesis using swap_exclusive [OF c _ r] c r by auto
qed

text \<open>A run of successful increments leaves the exact sum of the start value and the deltas, as
  an integer and not only modulo \<open>2 ^ 64\<close>.\<close>

theorem increments_exact:
  assumes "increment_all D k ds s = (Inr (), s')" and "counter s k = Some c"
  shows "\<exists>c'. counter s' k = Some c' \<and> sint c' = sint c + sum_list (map sint ds)"
  using increments_add_up [OF assms] .

lemma increment_ok:
  assumes sha: "sha_ok D" and h: "healthy (n + 4) s" and c: "counter s k = Some c" and k: "\<not> prefix INTERNAL_KEY_PREFIX k" "length k < 1000"
    and r: "- (2 ^ 63) \<le> sint c + sint d" "sint c + sint d < 2 ^ 63"
  shows "\<exists>s'. increment_i64 D k d s = (Inr (c + d), s') \<and> healthy n s'"
proof -
  have "healthy (2 * length [OpPut k (to_le (c + d))] + 2 + n) s" by (rule healthy_mono [OF h]) simp
  from client_tx_ok [OF sha this] have "\<exists>s'. client_tx D [OpPut k (to_le (c + d))] s = (Inr (), s') \<and> healthy n s'"
    using k by simp
  then obtain s' where s': "store_put D k (to_le (c + d)) s = (Inr (), s')" "healthy n s'" by (auto simp: store_put_client)
  have a: "checked_add_signed c d = Some (c + d)" using r by (simp add: checked_add_signed_def Let_def)
  show ?thesis using c a s'
    by (auto simp: increment_i64_def counter_def act_bind_def act_map_err_def split: option.splits if_splits)
qed

theorem increments_exact_witness:
  "\<exists>s'. increment_all demo_deps [7] [5, - 2] demo_store = (Inr (), s') \<and> counter s' [7] = Some 3"
proof -
  have u: "\<not> prefix INTERNAL_KEY_PREFIX [7]" by (simp add: INTERNAL_KEY_PREFIX_def)
  have c0: "counter demo_store [7] = Some 0" by (simp add: counter_def demo_store_def store_get_def)
  obtain s1 where s1: "increment_i64 demo_deps [7] 5 demo_store = (Inr 5, s1)" "healthy 4 s1"
    using increment_ok [OF demo_sha_ok demo_store_healthy c0 u, of 4 5] by auto
  then have c1: "counter s1 [7] = Some 5" by (auto elim: increment_i64_Inr)
  obtain s2 where s2: "increment_i64 demo_deps [7] (- 2) s1 = (Inr 3, s2)"
    using increment_ok [OF demo_sha_ok _ c1 u, of 0 "- 2"] s1(2) by auto
  have i: "increment_all demo_deps [7] [5, - 2] demo_store = (Inr (), s2)" using s1 s2 by (simp add: act_bind_def)
  obtain c' where c': "counter s2 [7] = Some c'" "sint c' = 3" using increments_exact [OF i c0] by auto
  then have "c' = 3" by (intro signed_word_eqI) simp
  then show ?thesis using i c' by auto
qed

section \<open>Expiring keys\<close>

text \<open>C9: a key written with an expiration reads as its value strictly before that instant and as
  absent from that instant on, for every signed 64-bit clock value.\<close>

theorem expiry_is_exact:
  assumes "put_with_ttl D k v expires s = (Inr u, s')"
  shows "get_at s' k now = Inr (if sint now < sint expires then Some v else None)"
  using get_at_put_with_ttl [OF assms] .

lemma demo_ttl:
  obtains s where "put_with_ttl demo_deps [1] [2] 50 demo_store = (Inr (), s)" and "healthy 500 s"
proof -
  let ?m = "encode_ttl \<lparr>expires_at_ms = 50\<rparr>" let ?mk = "TTL_PREFIX @ to_be (1 :: u32) @ [1]"
  let ?body = "act_map_err TtStore (act_bind (tx_put demo_deps [1] [2]) (\<lambda>_. tx_put_internal demo_deps ?mk ?m))"
  have "can (1 + 1) ?body (fresh_tx True demo_store) ()"
    by (rule can_map_err [OF can_bind [OF can_user(1) can_put]])
      (auto simp: INTERNAL_KEY_PREFIX_def TTL_PREFIX_def ascii_def encode_ttl_def)
  from run_can [OF demo_sha_ok this, of 500 TtStore] obtain s where "run_tx demo_deps True TtStore ?body demo_store = (Inr (), s)" "healthy 500 s"
    by auto
  moreover have "ttl_key [1] = Inr ?mk" by (simp add: ttl_key_def u32_try_from_len_def)
  ultimately show ?thesis using that by (simp add: put_with_ttl_def)
qed

theorem expiry_is_exact_witness:
  "\<exists>s. put_with_ttl demo_deps [1] [2] 50 demo_store = (Inr (), s) \<and> get_at s [1] 49 = Inr (Some [2]) \<and> get_at s [1] 50 = Inr None"
proof -
  obtain s where s: "put_with_ttl demo_deps [1] [2] 50 demo_store = (Inr (), s)" by (rule demo_ttl)
  then show ?thesis using expiry_is_exact [OF s, of 49] expiry_is_exact [OF s, of 50] by auto
qed

text \<open>The sweep is invisible and complete. It changes no answer that a reader at the sweep's
  time or later can get for a user key, and when it was not cut short by its limit no key that
  was expired at its time keeps expiration metadata.\<close>

theorem sweep_invisible_and_complete:
  assumes "store_wf s" and "purge_expired D now limit s = (Inr r, s')"
  shows "(\<forall>k now'. \<not> prefix INTERNAL_KEY_PREFIX k \<longrightarrow> sint now \<le> sint now' \<longrightarrow> get_at s' k now' = get_at s k now') \<and>
    (ts_expired r < limit \<longrightarrow> (\<forall>k i. ttl s' k = Inr (Some i) \<longrightarrow> \<not> is_expired i now))"
  using purge_expired_invisible [OF assms] purge_expired_complete [OF assms] by blast

lemma demo_sweep:
  assumes s: "put_with_ttl demo_deps [1] [2] 50 demo_store = (Inr (), s)" and h: "healthy 500 s" and wf: "store_wf s"
  shows "\<exists>s'. purge_expired demo_deps 60 5 s = (Inr \<lparr>ts_scanned = 1, ts_expired = 1, ts_removed = 1\<rparr>, s')"
proof -
  let ?mk = "TTL_PREFIX @ to_be (1 :: u32) @ [1]" and ?m = "encode_ttl \<lparr>expires_at_ms = 50\<rparr>"
  have mk: "ttl_key [1] = Inr ?mk" by (simp add: ttl_key_def u32_try_from_len_def)
  have g: "store_get s k = (if k = ?mk then Some ?m else if k = [1] then Some [2] else None)" if "not_cdc k" for k
    using s mk that by (auto simp: demo_store_def store_get_def elim: put_with_ttl_Inr)
  have e: "scan_prefix demo_store TTL_PREFIX = []" by (simp add: scan_prefix_def scan_map_def demo_store_def)
  have p: "prefix TTL_PREFIX ?mk" by simp
  have t: "store_get s k = (if k = ?mk then Some ?m else store_get demo_store k)" if "prefix TTL_PREFIX k" for k
    using g [OF ttl_space(1) [OF that]] that by (auto simp: TTL_PREFIX_def ascii_def demo_store_def store_get_def)
  have "scan_prefix s TTL_PREFIX = scan_prefix demo_store TTL_PREFIX @ [(?mk, ?m)]"
    by (rule scan_prefix_snoc [OF demo_store_wf wf p t]) (use e in auto)
  then have sc: "scan_prefix s TTL_PREFIX = [(?mk, ?m)]" using e by simp
  have "decode_ttl_key ?mk = Inr [1]" by (rule decode_ttl_key_encode [OF mk])
  moreover have "store_get s [1] = Some [2]" using g [of "[1]"] by (simp add: CDC_PREFIX_def ascii_def TTL_PREFIX_def)
  ultimately have c: "purge_collect 60 5 s 0 [] (scan_prefix s TTL_PREFIX) = Inr (1, [(?mk, [1], True)])"
    by (simp add: sc is_expired_def Let_def)
  let ?r = "\<lparr>ts_scanned = 1 :: nat, ts_expired = 1, ts_removed = 1\<rparr>"
  let ?body = "act_bind (act_for (purge_entry demo_deps) [(?mk, [1], True)]) (\<lambda>_. act_return ?r)"
  have "can (1 + 1) (purge_entry demo_deps (?mk, [1], True)) t0 ()" for t0
    unfolding purge_entry_def prod.case if_True
    by (rule can_map_err [OF can_bind [OF can_user(2) can_delete]]) (simp_all add: INTERNAL_KEY_PREFIX_def TTL_PREFIX_def ascii_def)
  then have "can ((1 + 1) * length [(?mk, [1 :: byte], True)] + 0) ?body (fresh_tx True s) ?r"
    by (intro can_bind [OF can_for can_pure(1)]) simp
  moreover have "healthy (2 * ((1 + 1) * length [(?mk, [1 :: byte], True)] + 0) + 2 + 0) s" by (rule healthy_mono [OF h]) simp
  ultimately obtain s' where "run_tx demo_deps True TtStore ?body s = (Inr ?r, s')"
    using run_can [OF demo_sha_ok, where body = ?body and conv = TtStore] by fastforce
  then show ?thesis using c by (simp add: purge_expired_def)
qed

theorem sweep_invisible_and_complete_witness:
  "\<exists>s s'. put_with_ttl demo_deps [1] [2] 50 demo_store = (Inr (), s) \<and>
     purge_expired demo_deps 60 5 s = (Inr \<lparr>ts_scanned = 1, ts_expired = 1, ts_removed = 1\<rparr>, s') \<and>
     get_at s' [1] 60 = get_at s [1] 60"
proof -
  obtain s where s: "put_with_ttl demo_deps [1] [2] 50 demo_store = (Inr (), s)" "healthy 500 s" by (rule demo_ttl)
  have wf: "store_wf s"
    using s(1) run_tx_wf [OF staging_put_with_ttl demo_store_wf] by (auto simp: put_with_ttl_def split: sum.splits)
  obtain s' where s': "purge_expired demo_deps 60 5 s = (Inr \<lparr>ts_scanned = 1, ts_expired = 1, ts_removed = 1\<rparr>, s')"
    using demo_sweep [OF s wf] by blast
  have "\<not> prefix INTERNAL_KEY_PREFIX [1]" by (simp add: INTERNAL_KEY_PREFIX_def)
  then show ?thesis using sweep_invisible_and_complete [OF wf s'] s(1) s' by blast
qed

section \<open>Liveness and exclusion\<close>

text \<open>C10: nothing but the environment makes a transaction fail. When the operating system accepts
  writes and syncs, no quota is configured, the counters and the file have room for its records
  and its keys and values have ordinary sizes, a transaction on user keys commits, and every key
  then has the value its operations left.\<close>

theorem transaction_commits:
  assumes "sha_ok D" and "healthy (2 * length ops + 2) s" and "length ops < 2 ^ 32 - 1"
    and "\<forall>op \<in> set ops. \<not> prefix INTERNAL_KEY_PREFIX (op_key op) \<and> op_size op < 2 ^ 31"
  shows "\<exists>s'. client_tx D ops s = (Inr (), s') \<and> (\<forall>k. not_cdc k \<longrightarrow> store_get s' k = written ops k (store_get s k))"
  using client_tx_ok [of D ops 0 s] client_tx_view [of D ops s "()"] assms by auto

theorem transaction_commits_witness:
  "\<exists>s. client_tx demo_deps demo_ops demo_store = (Inr (), s) \<and> store_get s [3] = Some [4]"
proof -
  have "not_cdc [3]" by (simp add: CDC_PREFIX_def ascii_def)
  moreover have "\<exists>s. client_tx demo_deps demo_ops demo_store = (Inr (), s) \<and>
      (\<forall>k. not_cdc k \<longrightarrow> store_get s k = written demo_ops k (store_get demo_store k))"
    by (rule transaction_commits) (auto simp: INTERNAL_KEY_PREFIX_def)
  ultimately show ?thesis by auto
qed

text \<open>One writer per path and process. A successful open registers the path; while it is
  registered every further open of it is refused without touching the file or the registry's
  paths, and an open that fails leaves the set of registered paths as it found it.\<close>

theorem single_writer:
  assumes "open_with_options D path opts now lock file os p = (r, file1, p1)"
  shows "case r of
      Inl e \<Rightarrow> set (pr_writers p1) = set (pr_writers p)
    | Inr s \<Rightarrow> path \<notin> set (pr_writers p) \<and> set (pr_writers p1) = insert path (set (pr_writers p)) \<and> file1 = st_file s \<and>
        (\<exists>p2. open_with_options D path opts' now' lock' file' os' p1 = (Inl EAlreadyOpen, file', p2) \<and> pr_writers p2 = pr_writers p1)"
  using assms
  by (auto simp: open_with_options_def writer_acquire_def writer_drop_def split: sum.splits option.splits if_splits prod.splits)

theorem single_writer_witness:
  "\<exists>s p1. open_with_options demo_deps ''/db'' store_options_default 7 None (st_file demo_store) demo_os \<lparr>pr_writers = [], pr_lock_contentions = 0\<rparr> = (Inr s, st_file s, p1) \<and>
     fst (open_with_options demo_deps ''/db'' store_options_default 8 None (st_file s) demo_os p1) = Inl EAlreadyOpen"
proof -
  have "length (st_file demo_store) < 2 ^ 64" by (rule healthy_file [OF demo_store_healthy [of 0]]) simp
  from recoverable_reopen [OF demo_recoverable benign_demo_os this] obtain s
    where s: "open_file demo_deps store_options_default 7 (st_file demo_store) demo_os = (Inr s, s)" by blast
  then have o: "open_with_options demo_deps ''/db'' store_options_default 7 None (st_file demo_store) demo_os \<lparr>pr_writers = [], pr_lock_contentions = 0\<rparr> =
      (Inr s, st_file s, \<lparr>pr_writers = [''/db''], pr_lock_contentions = 0\<rparr>)"
    by (simp add: open_with_options_def writer_acquire_def)
  from single_writer [OF o, of store_options_default 8 None "st_file s" demo_os] show ?thesis using o by auto
qed

section \<open>Failing writes\<close>

text \<open>A write that fails half-way poisons the store; an instance. After an append that left three bytes in
  the file, the next put is acknowledged, but the file can no longer be opened: its log has the
  leftover bytes in the middle.\<close>

theorem partial_write_poisons_log:
  "\<exists>s1 s2 s3. store_put demo_deps [1] [2] (demo_store\<lparr>st_os := demo_os\<lparr>os_writes := [WriteErr 3 OtherIo]\<rparr>\<rparr>) = (Inl (EIo OtherIo), s1) \<and>
     store_put demo_deps [1] [2] s1 = (Inr (), s2) \<and>
     open_file demo_deps store_options_default 7 (st_file s2) demo_os = (Inl (ELog LogInvalidMagic), s3)"
proof -
  have "let (r1, s1) = store_put demo_deps [1] [2] (demo_store\<lparr>st_os := demo_os\<lparr>os_writes := [WriteErr 3 OtherIo]\<rparr>\<rparr>);
      (r2, s2) = store_put demo_deps [1] [2] s1
    in r1 = Inl (EIo OtherIo) \<and> r2 = Inr () \<and> fst (open_file demo_deps store_options_default 7 (st_file s2) demo_os) = Inl (ELog LogInvalidMagic)"
    by code_simp
  then show ?thesis
    by (cases "store_put demo_deps [1] [2] (demo_store\<lparr>st_os := demo_os\<lparr>os_writes := [WriteErr 3 OtherIo]\<rparr>\<rparr>)")
      (auto simp: Let_def prod_eq_iff split: prod.splits)
qed

text \<open>C11: a failed sync is not an abort. Take any transaction that would commit, on a store with
  strict or data-sync durability, and let the sync of its commit fail instead, everything else
  being equal: the caller gets the error and the running process shows the old state, but the next
  open shows exactly the state that the commit would have had.\<close>

theorem failed_sync_reappears:
  assumes "recoverable D s" and "client_tx D ops s = (Inr u, s2)" and "opt_durability (st_options s) \<noteq> Relaxed"
    and "benign os" and "length (st_file s2) < 2 ^ 64"
  shows "\<exists>s1 s'. client_tx D ops (with_syncs (SyncErr k # ys) s) = (Inl (map_io_error k), s1) \<and> st_state s1 = st_state s \<and>
    open_file D opts now (st_file s1) os = (Inr s', s') \<and> st_state s' = st_state s2"
proof -
  have "sync_blind (act_for (client_step D) ops)" by (intro blind_intros)
  from run_tx_sync_error [OF client_tx_intros(1) this assms(2) [unfolded client_tx_def] assms(3)] obtain s1
    where "client_tx D ops (with_syncs (SyncErr k # ys) s) = (Inl (map_io_error k), s1)" "st_file s1 = st_file s2" "st_state s1 = st_state s"
    by (auto simp: client_tx_def)
  then show ?thesis using recoverable_reopen [OF client_tx_recoverable [OF assms(1,2)] assms(4,5)] by metis
qed

theorem failed_sync_reappears_witness:
  "\<exists>s1 s'. client_tx demo_deps demo_ops (with_syncs [SyncErr OtherIo] demo_store) = (Inl (EIo OtherIo), s1) \<and> st_state s1 = [] \<and>
     open_file demo_deps store_options_default 7 (st_file s1) demo_os = (Inr s', s') \<and> store_get s' [3] = Some [4]"
proof -
  obtain s where s: "client_tx demo_deps demo_ops demo_store = (Inr (), s)" "healthy 500 s" by (rule demo_ops_tx)
  have d: "opt_durability (st_options demo_store) \<noteq> Relaxed" "st_state demo_store = []" by (simp_all add: demo_store_def store_options_default_def)
  obtain s1 s' where r: "client_tx demo_deps demo_ops (with_syncs [SyncErr OtherIo] demo_store) = (Inl (EIo OtherIo), s1)" "st_state s1 = []"
      "open_file demo_deps store_options_default 7 (st_file s1) demo_os = (Inr s', s')" "st_state s' = st_state s"
    using failed_sync_reappears [OF demo_recoverable s(1) d(1) benign_demo_os healthy_file [OF s(2)], of OtherIo "[]" store_options_default 7] d(2)
    by (auto simp: map_io_error_def)
  have "not_cdc [3]" by (simp add: CDC_PREFIX_def ascii_def)
  then have "store_get s' [3] = Some [4]" using client_tx_view [OF s(1), of "[3]"] r(4) by (simp add: store_get_def)
  then show ?thesis using r by blast
qed

end
