(* ===== verification/Queue.thy ===== *)
theory Queue
  imports Change_Feed
begin

text \<open>
  Durable queues (\<open>crates/voodoo-store-core/src/queue.rs\<close>): leases with generations on top of
  the store's internal keys. The lemmas refine every operation to an abstract queue (a counter
  and a map from message ids to messages) and show what leases promise.
\<close>

section \<open>Model\<close>

definition QUEUE_PREFIX :: bytes where
  "QUEUE_PREFIX = 0xff # ascii ''vds:q:''"

definition MESSAGE_VERSION :: u8 where
  "MESSAGE_VERSION = 1"

datatype queue_state = QReady | QLeased | QDead

datatype queue_error =
    QStore engine_error
  | QEmptyName
  | QNameTooLong
  | QPayloadTooLarge
  | QInvalidEncoding
  | QIdExhausted
  | QAttemptExhausted
  | QTimeOverflow
  | QCountOverflow
  | QNotFound u64
  | QNotLeased u64
  | QLeaseMismatch u64 u32 u32

fun queue_state_u8 :: "queue_state \<Rightarrow> u8" where
  "queue_state_u8 QReady = 0"
| "queue_state_u8 QLeased = 1"
| "queue_state_u8 QDead = 2"

definition queue_state_try_from :: "u8 \<Rightarrow> queue_error + queue_state" where
  "queue_state_try_from b =
     (if b = 0 then Inr QReady else if b = 1 then Inr QLeased else if b = 2 then Inr QDead
      else Inl QInvalidEncoding)"

record push_options =
  po_available_at_ms :: i64
  po_priority :: i32

definition push_options_default :: push_options where
  "push_options_default = \<lparr>po_available_at_ms = 0, po_priority = 0\<rparr>"

record queue_message =
  qm_id :: u64
  qm_payload :: bytes
  qm_attempts :: u32
  qm_priority :: i32
  qm_available_at_ms :: i64
  qm_lease_until_ms :: i64
  qm_lease_generation :: u32

record stored_message =
  sm_state :: queue_state
  sm_id :: u64
  sm_payload :: bytes
  sm_attempts :: u32
  sm_priority :: i32
  sm_available_at_ms :: i64
  sm_lease_until_ms :: i64

record queue_stats =
  qs_ready :: u64
  qs_leased :: u64
  qs_dead :: u64
  qs_total :: u64
  qs_oldest_ready_at_ms :: "i64 option"

definition queue_stats_default :: queue_stats where
  "queue_stats_default = \<lparr>qs_ready = 0, qs_leased = 0, qs_dead = 0, qs_total = 0, qs_oldest_ready_at_ms = None\<rparr>"

text \<open>The difference is taken at the width of \<open>i64\<close>; where it wraps a debug build panics.\<close>

definition ready_lag_ms :: "queue_stats \<Rightarrow> i64 \<Rightarrow> u64 option" where
  "ready_lag_ms st now =
     (case qs_oldest_ready_at_ms st of
        None \<Rightarrow> None
      | Some oldest \<Rightarrow>
          if sint now < sint oldest then Some 0
          else if sint (now - oldest) < 0 then None else Some (now - oldest))"

record queue =
  q_name :: bytes
  q_meta_key :: bytes
  q_message_prefix :: bytes

definition queue_new :: "bytes \<Rightarrow> queue_error + queue" where
  "queue_new name =
     (if name = [] then Inl QEmptyName
      else case u32_try_from_len (length name) of
             None \<Rightarrow> Inl QNameTooLong
           | Some name_len \<Rightarrow>
               let namespace = QUEUE_PREFIX @ to_be name_len @ name
               in Inr \<lparr>q_name = name, q_meta_key = namespace @ ascii '':next'',
                       q_message_prefix = namespace @ ascii '':m:''\<rparr>)"

definition encode_message :: "stored_message \<Rightarrow> queue_error + bytes" where
  "encode_message m =
     (case u32_try_from_len (length (sm_payload m)) of
        None \<Rightarrow> Inl QPayloadTooLarge
      | Some payload_len \<Rightarrow>
          Inr ([MESSAGE_VERSION, queue_state_u8 (sm_state m)] @ to_le (sm_id m) @ to_le (sm_attempts m) @
               to_le (sm_priority m) @ to_le (sm_available_at_ms m) @ to_le (sm_lease_until_ms m) @
               to_le payload_len @ sm_payload m))"

definition decode_message :: "bytes \<Rightarrow> queue_error + stored_message" where
  "decode_message bs =
     (if length bs < 38 \<or> bs ! 0 \<noteq> MESSAGE_VERSION then Inl QInvalidEncoding
      else res_bind (queue_state_try_from (bs ! 1)) (\<lambda>state.
        let payload_len = unat (from_le (slice 34 38 bs) :: u32)
        in if length bs \<noteq> 38 + payload_len then Inl QInvalidEncoding
           else Inr \<lparr>sm_state = state, sm_id = from_le (slice 2 10 bs), sm_payload = drop 38 bs,
                     sm_attempts = from_le (slice 10 14 bs), sm_priority = from_le (slice 14 18 bs),
                     sm_available_at_ms = from_le (slice 18 26 bs),
                     sm_lease_until_ms = from_le (slice 26 34 bs)\<rparr>))"

definition validate_lease :: "stored_message \<Rightarrow> u32 \<Rightarrow> queue_error + unit" where
  "validate_lease m generation =
     (if sm_state m \<noteq> QLeased then Inl (QNotLeased (sm_id m))
      else if sm_attempts m \<noteq> generation then Inl (QLeaseMismatch (sm_id m) (sm_attempts m) generation)
      else Inr ())"

definition queue_next_id :: "queue \<Rightarrow> store \<Rightarrow> queue_error + u64" where
  "queue_next_id q s =
     (case store_get s (q_meta_key q) of
        None \<Rightarrow> Inr 1
      | Some v \<Rightarrow> if length v \<noteq> 8 then Inl QInvalidEncoding else Inr (from_le v))"

definition message_key :: "queue \<Rightarrow> u64 \<Rightarrow> bytes" where
  "message_key q i = q_message_prefix q @ to_be i"

definition load_message :: "store \<Rightarrow> bytes \<Rightarrow> queue_error + stored_message option" where
  "load_message s k = transpose_map decode_message (store_get s k)"

definition push_with_options ::
  "deps \<Rightarrow> queue \<Rightarrow> bytes \<Rightarrow> push_options \<Rightarrow> (store, queue_error, u64) act" where
  "push_with_options D q payload opts s =
     (case res_bind (queue_next_id q s) (\<lambda>i. res_bind (ok_or QIdExhausted (checked_add i 1)) (\<lambda>n. Inr (i, n))) of
        Inl e \<Rightarrow> (Inl e, s)
      | Inr (i, next_id) \<Rightarrow>
          let m = \<lparr>sm_state = QReady, sm_id = i, sm_payload = payload, sm_attempts = 0,
                   sm_priority = po_priority opts, sm_available_at_ms = po_available_at_ms opts,
                   sm_lease_until_ms = 0\<rparr>
          in run_tx D True QStore
               (act_bind (act_map_err QStore (tx_put_internal D (q_meta_key q) (to_le next_id))) (\<lambda>_.
                act_bind (act_lift (encode_message m)) (\<lambda>bs.
                act_bind (act_map_err QStore (tx_put_internal D (message_key q i) bs)) (\<lambda>_. act_return i)))) s)"

definition queue_push :: "deps \<Rightarrow> queue \<Rightarrow> bytes \<Rightarrow> (store, queue_error, u64) act" where
  "queue_push D q payload = push_with_options D q payload push_options_default"

definition push_at :: "deps \<Rightarrow> queue \<Rightarrow> bytes \<Rightarrow> i64 \<Rightarrow> (store, queue_error, u64) act" where
  "push_at D q payload available =
     push_with_options D q payload \<lparr>po_available_at_ms = available, po_priority = 0\<rparr>"

definition eligible :: "i64 \<Rightarrow> stored_message \<Rightarrow> bool" where
  "eligible now m \<longleftrightarrow>
     (case sm_state m of
        QReady \<Rightarrow> sint (sm_available_at_ms m) \<le> sint now
      | QLeased \<Rightarrow> sint (sm_lease_until_ms m) \<le> sint now
      | QDead \<Rightarrow> False)"

definition better :: "stored_message \<Rightarrow> stored_message \<Rightarrow> bool" where
  "better m current \<longleftrightarrow> sint (sm_priority m) > sint (sm_priority current) \<or>
     (sm_priority m = sm_priority current \<and> sm_id m < sm_id current)"

fun claim_scan ::
  "i64 \<Rightarrow> (bytes \<times> stored_message) option \<Rightarrow> kv \<Rightarrow> queue_error + (bytes \<times> stored_message) option" where
  "claim_scan now candidate [] = Inr candidate"
| "claim_scan now candidate ((k, v) # rest) =
     res_bind (decode_message v) (\<lambda>m.
       if \<not> eligible now m then claim_scan now candidate rest
       else if (case candidate of None \<Rightarrow> True | Some (_, current) \<Rightarrow> better m current)
       then claim_scan now (Some (k, m)) rest
       else claim_scan now candidate rest)"

definition queue_message_of :: "stored_message \<Rightarrow> queue_message" where
  "queue_message_of m = \<lparr>qm_id = sm_id m, qm_payload = sm_payload m, qm_attempts = sm_attempts m,
     qm_priority = sm_priority m, qm_available_at_ms = sm_available_at_ms m,
     qm_lease_until_ms = sm_lease_until_ms m, qm_lease_generation = sm_attempts m\<rparr>"

definition queue_claim :: "deps \<Rightarrow> queue \<Rightarrow> i64 \<Rightarrow> u64 \<Rightarrow> (store, queue_error, queue_message option) act" where
  "queue_claim D q now lease_duration_ms s =
     (case res_bind (ok_or QTimeOverflow (i64_try_from_u64 lease_duration_ms)) (\<lambda>lease_duration.
             res_bind (ok_or QTimeOverflow (checked_add_signed now lease_duration)) (\<lambda>lease_until.
             res_bind (claim_scan now None (scan_prefix s (q_message_prefix q))) (\<lambda>c. Inr (lease_until, c)))) of
        Inl e \<Rightarrow> (Inl e, s)
      | Inr (lease_until, None) \<Rightarrow> (Inr None, s)
      | Inr (lease_until, Some (k, m)) \<Rightarrow>
          (act_bind (act_lift (ok_or QAttemptExhausted (checked_add (sm_attempts m) 1))) (\<lambda>attempts.
           let m' = m\<lparr>sm_attempts := attempts, sm_state := QLeased, sm_lease_until_ms := lease_until\<rparr>
           in act_bind (act_lift (encode_message m')) (\<lambda>bs.
              act_bind (act_map_err QStore (store_put_internal D k bs)) (\<lambda>_.
              (\<lambda>s1. (Inr (Some (queue_message_of m')), record_queue_claim s1)))))) s)"

text \<open>Common start of \<open>ack\<close>, \<open>nack\<close> and \<open>dead_letter\<close>: load the message and check the lease.\<close>

definition leased_message :: "queue \<Rightarrow> u64 \<Rightarrow> u32 \<Rightarrow> (store, queue_error, stored_message) act" where
  "leased_message q i generation s =
     (res_bind (load_message s (message_key q i)) (\<lambda>r.
      res_bind (ok_or (QNotFound i) r) (\<lambda>m.
      res_bind (validate_lease m generation) (\<lambda>_. Inr m))), s)"

definition queue_ack :: "deps \<Rightarrow> queue \<Rightarrow> u64 \<Rightarrow> u32 \<Rightarrow> (store, queue_error, unit) act" where
  "queue_ack D q i generation =
     act_bind (leased_message q i generation) (\<lambda>_.
     act_bind (act_map_err QStore (store_delete_internal D (message_key q i))) (\<lambda>_.
     (\<lambda>s. (Inr (), record_queue_ack s))))"

definition queue_nack :: "deps \<Rightarrow> queue \<Rightarrow> u64 \<Rightarrow> u32 \<Rightarrow> i64 \<Rightarrow> (store, queue_error, unit) act" where
  "queue_nack D q i generation available =
     act_bind (leased_message q i generation) (\<lambda>m.
     act_bind (act_lift (encode_message
       (m\<lparr>sm_state := QReady, sm_available_at_ms := available, sm_lease_until_ms := 0\<rparr>))) (\<lambda>bs.
     act_map_err QStore (store_put_internal D (message_key q i) bs)))"

definition dead_letter :: "deps \<Rightarrow> queue \<Rightarrow> u64 \<Rightarrow> u32 \<Rightarrow> (store, queue_error, unit) act" where
  "dead_letter D q i generation =
     act_bind (leased_message q i generation) (\<lambda>m.
     act_bind (act_lift (encode_message (m\<lparr>sm_state := QDead, sm_lease_until_ms := 0\<rparr>))) (\<lambda>bs.
     act_map_err QStore (store_put_internal D (message_key q i) bs)))"

definition count_message :: "stored_message \<Rightarrow> queue_stats \<Rightarrow> queue_error + queue_stats" where
  "count_message m st =
     res_bind (ok_or QCountOverflow (checked_add (qs_total st) 1)) (\<lambda>tot.
     let st1 = st\<lparr>qs_total := tot\<rparr>
     in case sm_state m of
          QReady \<Rightarrow>
            res_bind (ok_or QCountOverflow (checked_add (qs_ready st1) 1)) (\<lambda>n.
            Inr (st1\<lparr>qs_ready := n, qs_oldest_ready_at_ms := Some
              (case qs_oldest_ready_at_ms st1 of
                 None \<Rightarrow> sm_available_at_ms m
               | Some oldest \<Rightarrow> if sint (sm_available_at_ms m) < sint oldest then sm_available_at_ms m else oldest)\<rparr>))
        | QLeased \<Rightarrow>
            res_bind (ok_or QCountOverflow (checked_add (qs_leased st1) 1)) (\<lambda>n. Inr (st1\<lparr>qs_leased := n\<rparr>))
        | QDead \<Rightarrow>
            res_bind (ok_or QCountOverflow (checked_add (qs_dead st1) 1)) (\<lambda>n. Inr (st1\<lparr>qs_dead := n\<rparr>)))"

fun stats_loop :: "queue_stats \<Rightarrow> bytes list \<Rightarrow> queue_error + queue_stats" where
  "stats_loop st [] = Inr st"
| "stats_loop st (v # rest) =
     res_bind (decode_message v) (\<lambda>m. res_bind (count_message m st) (\<lambda>st1. stats_loop st1 rest))"

definition queue_stats_of :: "queue \<Rightarrow> store \<Rightarrow> queue_error + queue_stats" where
  "queue_stats_of q s = stats_loop queue_stats_default (map snd (scan_prefix s (q_message_prefix q)))"

definition aggregate_stats :: "store \<Rightarrow> queue_error + queue_stats" where
  "aggregate_stats s = stats_loop queue_stats_default
     (map snd (filter (\<lambda>(k, _). sublist (ascii '':m:'') k) (scan_prefix s QUEUE_PREFIX)))"

fun dead_keys :: "bytes list \<Rightarrow> kv \<Rightarrow> queue_error + bytes list" where
  "dead_keys keys [] = Inr keys"
| "dead_keys keys ((k, v) # rest) =
     res_bind (decode_message v) (\<lambda>m. dead_keys (if sm_state m = QDead then keys @ [k] else keys) rest)"

definition purge_dead :: "deps \<Rightarrow> queue \<Rightarrow> (store, queue_error, u64) act" where
  "purge_dead D q s =
     (case dead_keys [] (scan_prefix s (q_message_prefix q)) of
        Inl e \<Rightarrow> (Inl e, s)
      | Inr keys \<Rightarrow>
          if keys = [] then (Inr 0, s)
          else if length keys \<ge> 2 ^ 64 then (Inl QCountOverflow, s)
          else run_tx D True QStore
                 (act_bind (act_for (\<lambda>k. act_map_err QStore (tx_delete_internal D k)) keys)
                   (\<lambda>_. act_return (of_nat (length keys)))) s)"

section \<open>Encoding\<close>

lemma queue_state_try_from_u8 [simp]: "queue_state_try_from (queue_state_u8 st) = Inr st"
  by (cases st) (simp_all add: queue_state_try_from_def)

lemma decode_message_encode:
  assumes "encode_message m = Inr bs"
  shows "decode_message bs = Inr m"
proof -
  obtain l where l: "u32_try_from_len (length (sm_payload m)) = Some l"
    and bs: "bs = [MESSAGE_VERSION, queue_state_u8 (sm_state m)] @ to_le (sm_id m) @ to_le (sm_attempts m) @
               to_le (sm_priority m) @ to_le (sm_available_at_ms m) @ to_le (sm_lease_until_ms m) @
               to_le l @ sm_payload m"
    using assms by (auto simp: encode_message_def split: option.splits)
  show ?thesis unfolding bs using u32_try_from_len_Some(1) [OF l]
    by (simp add: decode_message_def slice_def)
qed

interpretation message_codec: codec encode_message decode_message "\<lambda>_. True"
  by unfold_locales (simp add: decode_message_encode)

section \<open>Keys\<close>

definition queue_ok :: "queue \<Rightarrow> bool" where
  "queue_ok q \<longleftrightarrow> (\<exists>name. queue_new name = Inr q)"

definition queue_namespace :: "bytes \<Rightarrow> bytes" where
  "queue_namespace name = QUEUE_PREFIX @ to_be (of_nat (length name) :: u32) @ name"

lemma queue_new_Inr:
  assumes "queue_new name = Inr q"
  shows "q_name q = name" and "q_meta_key q = queue_namespace name @ ascii '':next''"
    and "q_message_prefix q = queue_namespace name @ ascii '':m:''" and "length name < 2 ^ 32"
  using assms
  by (auto simp: queue_new_def queue_namespace_def Let_def dest: u32_try_from_len_Some
      split: if_splits option.splits)

lemma queue_space: "prefix QUEUE_PREFIX k \<Longrightarrow> not_cdc k"
  by (rule other_space [of QUEUE_PREFIX]) (simp_all add: QUEUE_PREFIX_def CDC_PREFIX_def ascii_def)

lemma queue_keys:
  assumes "queue_ok q"
  shows "prefix QUEUE_PREFIX (message_key q i)" and "prefix QUEUE_PREFIX (q_meta_key q)"
    and "\<not> prefix (q_message_prefix q) (q_meta_key q)" and "prefix (q_message_prefix q) k \<Longrightarrow> not_cdc k"
proof -
  from assms obtain name where q: "queue_new name = Inr q" by (auto simp: queue_ok_def)
  note N = queue_new_Inr(2,3) [OF q]
  show "prefix QUEUE_PREFIX (message_key q i)" "prefix QUEUE_PREFIX (q_meta_key q)"
    by (simp_all add: message_key_def N queue_namespace_def)
  show "\<not> prefix (q_message_prefix q) (q_meta_key q)"
    by (simp add: N ascii_def)
  show "prefix (q_message_prefix q) k \<Longrightarrow> not_cdc k"
    by (rule queue_space) (auto simp: N queue_namespace_def prefix_def)
qed

lemma message_key_simps [simp]:
  "prefix (q_message_prefix q) (message_key q i)" "message_key q i = message_key q j \<longleftrightarrow> i = j"
  by (auto simp: message_key_def)

text \<open>Queues with different names share no key.\<close>

lemma of_nat_u32_inj:
  assumes "a < 2 ^ 32" and "b < 2 ^ 32" and "(of_nat a :: u32) = of_nat b"
  shows "a = b"
proof -
  have "unat (of_nat n :: u32) = n" if "n < 2 ^ 32" for n
    using that by (simp add: unsigned_of_nat take_bit_nat_eq_self)
  then show ?thesis using assms by metis
qed

lemma queue_namespace_disjoint:
  assumes "length a < 2 ^ 32" and "length b < 2 ^ 32" and "a \<noteq> b"
  shows "queue_namespace a @ x \<noteq> queue_namespace b @ y"
proof
  assume "queue_namespace a @ x = queue_namespace b @ y"
  then have e: "to_be (of_nat (length a) :: u32) @ a @ x = to_be (of_nat (length b) :: u32) @ b @ y"
    by (simp add: queue_namespace_def)
  then have "(of_nat (length a) :: u32) = of_nat (length b)" and t: "a @ x = b @ y"
    by (simp_all add: append_eq_append_conv)
  then have "length a = length b" using assms(1,2) of_nat_u32_inj by blast
  with t assms(3) show False by simp
qed

section \<open>The abstract queue\<close>

definition msgs :: "queue \<Rightarrow> store \<Rightarrow> u64 \<Rightarrow> stored_message option" where
  "msgs q s i = (case load_message s (message_key q i) of Inl _ \<Rightarrow> None | Inr r \<Rightarrow> r)"

definition queue_inv :: "queue \<Rightarrow> store \<Rightarrow> bool" where
  "queue_inv q s \<longleftrightarrow> queue_ok q \<and> store_wf s \<and> (\<exists>n. queue_next_id q s = Inr n \<and>
     (\<forall>k v. prefix (q_message_prefix q) k \<longrightarrow> store_get s k = Some v \<longrightarrow>
       (\<exists>m. decode_message v = Inr m \<and> k = message_key q (sm_id m) \<and> sm_id m < n)))"

lemma queue_inv_entry:
  assumes "queue_inv q s" and "store_get s (message_key q i) = Some v"
  obtains m where "decode_message v = Inr m" and "sm_id m = i" and "msgs q s i = Some m"
proof -
  obtain m where m: "decode_message v = Inr m" "message_key q i = message_key q (sm_id m)"
    using assms unfolding queue_inv_def by (meson message_key_simps(1))
  then show ?thesis using that assms(2) by (simp add: msgs_def load_message_def)
qed

lemma queue_inv_msgs:
  assumes "queue_inv q s"
  shows "msgs q s i = Some m \<longleftrightarrow> (\<exists>v. store_get s (message_key q i) = Some v \<and> decode_message v = Inr m)"
    and "msgs q s i = None \<longleftrightarrow> store_get s (message_key q i) = None"
    and "load_message s (message_key q i) = Inr (msgs q s i)"
    and "msgs q s i = Some m \<Longrightarrow> sm_id m = i"
proof -
  have "store_get s (message_key q i) = None \<and> msgs q s i = None \<or>
      (\<exists>v m. store_get s (message_key q i) = Some v \<and> decode_message v = Inr m \<and> sm_id m = i \<and> msgs q s i = Some m)"
  proof (cases "store_get s (message_key q i)")
    case None
    then show ?thesis by (simp add: msgs_def load_message_def)
  next
    case (Some v)
    then show ?thesis using queue_inv_entry [OF assms Some] by blast
  qed
  then show "msgs q s i = Some m \<longleftrightarrow> (\<exists>v. store_get s (message_key q i) = Some v \<and> decode_message v = Inr m)"
    and "msgs q s i = None \<longleftrightarrow> store_get s (message_key q i) = None"
    and "load_message s (message_key q i) = Inr (msgs q s i)"
    and "msgs q s i = Some m \<Longrightarrow> sm_id m = i"
    by (auto simp: load_message_def)
qed

lemma queue_inv_id:
  assumes "queue_inv q s" and "queue_next_id q s = Inr n" and "msgs q s i = Some m"
  shows "i < n"
  using assms queue_inv_msgs [OF assms(1)] unfolding queue_inv_def
  by (metis Inr_inject message_key_simps)

text \<open>The invariant and the messages depend on the queue's own keys only.\<close>

definition same_queue :: "queue \<Rightarrow> store \<Rightarrow> store \<Rightarrow> bool" where
  "same_queue q s s' \<longleftrightarrow> store_get s' (q_meta_key q) = store_get s (q_meta_key q) \<and>
     (\<forall>k. prefix (q_message_prefix q) k \<longrightarrow> store_get s' k = store_get s k)"

lemma same_queue_view:
  assumes "same_queue q s s'"
  shows "msgs q s' = msgs q s" and "queue_next_id q s' = queue_next_id q s"
    and "queue_inv q s \<Longrightarrow> store_wf s' \<Longrightarrow> queue_inv q s'"
  using assms
  by (simp_all add: same_queue_def msgs_def load_message_def queue_next_id_def fun_eq_iff queue_inv_def)

lemma same_queueI: "(\<And>k. store_get s' k = store_get s k) \<Longrightarrow> same_queue q s s'"
  by (simp add: same_queue_def)

lemma queue_update:
  assumes inv: "queue_inv q s" and old: "msgs q s i \<noteq> None" and bs: "encode_message m = Inr bs" and i: "sm_id m = i"
    and wf: "store_wf s'"
    and get: "\<And>k. not_cdc k \<Longrightarrow> store_get s' k = (if k = message_key q i then Some bs else store_get s k)"
  shows "queue_inv q s'" and "msgs q s' = (msgs q s)(i \<mapsto> m)" and "queue_next_id q s' = queue_next_id q s"
proof -
  have ok: "queue_ok q" using inv by (simp add: queue_inv_def)
  note K = queue_keys [OF ok]
  obtain n where n: "queue_next_id q s = Inr n" using inv by (auto simp: queue_inv_def)
  have "q_meta_key q \<noteq> message_key q i" using K(3) message_key_simps(1) by metis
  then show next': "queue_next_id q s' = queue_next_id q s"
    using get [OF queue_space [OF K(2)]] by (simp add: queue_next_id_def)
  have lt: "i < n" using queue_inv_id [OF inv n] old by blast
  show "msgs q s' = (msgs q s)(i \<mapsto> m)"
    using get [OF queue_space [OF K(1)]] decode_message_encode [OF bs]
    by (auto simp: fun_eq_iff msgs_def load_message_def)
  have "\<exists>m. decode_message v = Inr m \<and> k = message_key q (sm_id m) \<and> sm_id m < n"
    if "prefix (q_message_prefix q) k" "store_get s' k = Some v" for k v
  proof (cases "k = message_key q i")
    case True
    then show ?thesis using that get [OF K(4)] decode_message_encode [OF bs] i lt by auto
  next
    case False
    then have "store_get s k = Some v" using that get [OF K(4)] by auto
    then show ?thesis using that(1) inv n by (auto simp: queue_inv_def)
  qed
  then show "queue_inv q s'" using ok wf n next' by (auto simp: queue_inv_def)
qed

lemma queue_remove:
  assumes inv: "queue_inv q s" and wf: "store_wf s'"
    and get: "\<And>k. not_cdc k \<Longrightarrow> store_get s' k = (if k \<in> message_key q ` I then None else store_get s k)"
  shows "queue_inv q s'" and "msgs q s' = (\<lambda>i. if i \<in> I then None else msgs q s i)"
    and "queue_next_id q s' = queue_next_id q s"
proof -
  have ok: "queue_ok q" using inv by (simp add: queue_inv_def)
  note K = queue_keys [OF ok]
  have "q_meta_key q \<notin> message_key q ` I" using K(3) message_key_simps(1) by auto
  then show next': "queue_next_id q s' = queue_next_id q s"
    using get [OF queue_space [OF K(2)]] by (simp add: queue_next_id_def)
  show "msgs q s' = (\<lambda>i. if i \<in> I then None else msgs q s i)"
    using get [OF queue_space [OF K(1)]] by (auto simp: fun_eq_iff msgs_def load_message_def image_iff)
  have "store_get s k = Some v" if "prefix (q_message_prefix q) k" "store_get s' k = Some v" for k v
    using get [OF K(4) [OF that(1)]] that(2) by (auto split: if_splits)
  then show "queue_inv q s'" using inv wf next' unfolding queue_inv_def by (metis (no_types))
qed

lemma store_put_internal_wf: "store_wf s \<Longrightarrow> store_put_internal D k v s = (r, s') \<Longrightarrow> store_wf s'"
  unfolding store_put_internal_def by (rule run_tx_wf [OF staging_put_internal])

lemma store_delete_internal_wf: "store_wf s \<Longrightarrow> store_delete_internal D k s = (r, s') \<Longrightarrow> store_wf s'"
  unfolding store_delete_internal_def by (rule run_tx_wf [OF staging_delete_internal])

lemma store_get_record [simp]:
  "store_get (record_queue_claim s) k = store_get s k" "store_get (record_queue_ack s) k = store_get s k"
  by (simp_all add: store_get_def record_queue_claim_def record_queue_ack_def)

lemma store_wf_record [simp]:
  "store_wf (record_queue_claim s) = store_wf s" "store_wf (record_queue_ack s) = store_wf s"
  by (simp_all add: store_wf_def record_queue_claim_def record_queue_ack_def)

lemma scan_prefix_record [simp]:
  "scan_prefix (record_queue_claim s) p = scan_prefix s p" "scan_prefix (record_queue_ack s) p = scan_prefix s p"
  by (simp_all add: scan_prefix_def record_queue_claim_def record_queue_ack_def)

section \<open>Pushing\<close>

definition pushed_message :: "u64 \<Rightarrow> bytes \<Rightarrow> push_options \<Rightarrow> stored_message" where
  "pushed_message i payload opts = \<lparr>sm_state = QReady, sm_id = i, sm_payload = payload, sm_attempts = 0,
     sm_priority = po_priority opts, sm_available_at_ms = po_available_at_ms opts, sm_lease_until_ms = 0\<rparr>"

abbreviation (input) push_body where
  "push_body D q i n m \<equiv>
     act_bind (act_map_err QStore (tx_put_internal D (q_meta_key q) (to_le n))) (\<lambda>_.
     act_bind (act_lift (encode_message m)) (\<lambda>bs.
     act_bind (act_map_err QStore (tx_put_internal D (message_key q i) bs)) (\<lambda>_. act_return i)))"

lemma push_cases:
  assumes "push_with_options D q payload opts s = (r, s')"
  obtains (early) e where "r = Inl e" "s' = s"
  | (tx) i n where "queue_next_id q s = Inr i" "n = i + 1" "i \<noteq> - 1"
      "run_tx D True QStore (push_body D q i n (pushed_message i payload opts)) s = (r, s')"
  using assms
  by (auto simp: push_with_options_def pushed_message_def Let_def res_bind_def ok_or_def checked_add_one_u64
      split: sum.splits option.splits if_splits)

lemma staging_push: "staging (push_body D q i n m)"
  by (intro staging_intros)

lemma push_spec:
  assumes inv: "queue_inv q s" and p: "push_with_options D q payload opts s = (Inr i, s')"
  shows "queue_inv q s'" and "queue_next_id q s = Inr i" and "queue_next_id q s' = Inr (i + 1)" and "i < i + 1"
    and "msgs q s i = None" and "msgs q s' = (msgs q s)(i \<mapsto> pushed_message i payload opts)"
proof -
  have ok: "queue_ok q" and wf: "store_wf s" using inv by (simp_all add: queue_inv_def)
  note K = queue_keys [OF ok]
  let ?m = "pushed_message i payload opts"
  from p obtain i' where n: "queue_next_id q s = Inr i'" "i' \<noteq> - 1"
      and "run_tx D True QStore (push_body D q i' (i' + 1) (pushed_message i' payload opts)) s = (Inr i, s')"
    by (cases rule: push_cases) auto
  note run = this(3)
  then obtain t where t: "push_body D q i' (i' + 1) (pushed_message i' payload opts) (fresh_tx True s) = (Inr i, t)"
      "\<And>k. not_cdc k \<Longrightarrow> store_get s' k = tx_get_internal t k"
    by (rule run_tx_view [OF staging_push]) blast
  then obtain t1 bs where i: "i' = i" and t1: "tx_put_internal D (q_meta_key q) (to_le (i + 1)) (fresh_tx True s) = (Inr (), t1)"
      "tx_put_internal D (message_key q i) bs t1 = (Inr (), t)" and bs: "encode_message ?m = Inr bs"
    by (auto simp: act_bind_Inr_iff act_map_err_iff simp del: act_bind_lift)
  have ne: "q_meta_key q \<noteq> message_key q j" for j using K(3) message_key_simps(1) by metis
  have get: "store_get s' k = (if k = message_key q i then Some bs else if k = q_meta_key q then Some (to_le (i + 1)) else store_get s k)"
    if "not_cdc k" for k using t(2) [OF that] tx_kv.put_get [OF t1(1)] tx_kv.put_get [OF t1(2)] by simp
  show n0: "queue_next_id q s = Inr i" using n(1) i by simp
  show n1: "queue_next_id q s' = Inr (i + 1)"
    using get [OF queue_space [OF K(2)]] ne by (simp add: queue_next_id_def)
  show lt: "i < i + 1" using n(2) i less_add_one_u64 by blast
  show "msgs q s i = None" using queue_inv_id [OF inv n0, of i] by (cases "msgs q s i") auto
  show "msgs q s' = (msgs q s)(i \<mapsto> ?m)"
    using get [OF queue_space [OF K(1)]] decode_message_encode [OF bs]
    by (auto simp: fun_eq_iff msgs_def load_message_def ne [symmetric])
  have "\<exists>m. decode_message v = Inr m \<and> k = message_key q (sm_id m) \<and> sm_id m < i + 1"
    if kv: "prefix (q_message_prefix q) k" "store_get s' k = Some v" for k v
  proof (cases "k = message_key q i")
    case True
    then show ?thesis using kv get [OF K(4)] decode_message_encode [OF bs] lt
      by (auto simp: pushed_message_def)
  next
    case False
    moreover have "k \<noteq> q_meta_key q" using kv(1) K(3) by auto
    ultimately have "store_get s k = Some v" using kv get [OF K(4)] by auto
    then show ?thesis using kv(1) inv n0 lt by (fastforce simp: queue_inv_def intro: order.strict_trans)
  qed
  then show "queue_inv q s'" using ok n1 run_tx_wf [OF staging_push wf run] by (auto simp: queue_inv_def)
qed

lemma push_fail:
  assumes "push_with_options D q payload opts s = (Inl e, s')"
  shows "store_get s' k = store_get s k" and "store_wf s \<Longrightarrow> store_wf s'"
  using assms
  by (cases rule: push_cases; auto dest: run_tx_fail_get [OF staging_push] run_tx_wf [OF staging_push, rotated])+

section \<open>Claiming\<close>

lemma better_irrefl [simp]: "\<not> better m m"
  by (simp add: better_def)

lemma better_trans: "better a b \<Longrightarrow> better b c \<Longrightarrow> better a c"
  by (auto simp: better_def)

lemma better_negtrans: "better x z \<Longrightarrow> \<not> better c z \<Longrightarrow> better x c"
proof -
  have "sm_priority c = sm_priority z \<longleftrightarrow> sint (sm_priority c) = sint (sm_priority z)"
    "sm_priority x = sm_priority c \<longleftrightarrow> sint (sm_priority x) = sint (sm_priority c)"
    "sm_priority x = sm_priority z \<longleftrightarrow> sint (sm_priority x) = sint (sm_priority z)"
    by (auto intro: signed_word_eqI)
  then show "better x z \<Longrightarrow> \<not> better c z \<Longrightarrow> better x c" by (auto simp: better_def not_less)
qed

text \<open>The scan picks an eligible message that no other eligible one beats.\<close>

definition claimable :: "i64 \<Rightarrow> kv \<Rightarrow> (bytes \<times> stored_message) set" where
  "claimable now es = {(k, m). \<exists>v. (k, v) \<in> set es \<and> decode_message v = Inr m \<and> eligible now m}"

definition best_of :: "(bytes \<times> stored_message) set \<Rightarrow> (bytes \<times> stored_message) option \<Rightarrow> bool" where
  "best_of C r \<longleftrightarrow> (case r of None \<Rightarrow> C = {} | Some x \<Rightarrow> x \<in> C \<and> (\<forall>y \<in> C. \<not> better (snd y) (snd x)))"

lemma claimable_Cons:
  "decode_message v = Inr m \<Longrightarrow>
     claimable now ((k, v) # es) = (if eligible now m then insert (k, m) (claimable now es) else claimable now es)"
  by (auto simp: claimable_def)

lemma best_of_insert:
  assumes "best_of C r" and "c \<in> C" and "\<not> better (snd x) (snd c)"
  shows "best_of (insert x C) r"
proof (cases r)
  case (Some z)
  then have z: "z \<in> C" "\<forall>y \<in> C. \<not> better (snd y) (snd z)" using assms(1) by (auto simp: best_of_def)
  have "\<not> better (snd x) (snd z)"
  proof
    assume xz: "better (snd x) (snd z)"
    have "\<not> better (snd c) (snd z)" using z(2) assms(2) by blast
    then show False using xz assms(3) better_negtrans by blast
  qed
  then show ?thesis using z Some by (auto simp: best_of_def)
qed (use assms in \<open>auto simp: best_of_def\<close>)

lemma claim_scan_spec:
  assumes "claim_scan now cand es = Inr r"
  shows "best_of (set_option cand \<union> claimable now es) r"
  using assms
proof (induction es arbitrary: cand)
  case Nil
  then show ?case by (auto simp: best_of_def claimable_def split: option.split)
next
  case (Cons e es)
  obtain k v where e: "e = (k, v)" by (cases e)
  from Cons.prems obtain m where m: "decode_message v = Inr m" unfolding e by (auto simp: res_bind_Inr_iff)
  note C = claimable_Cons [OF m, of now k es]
  let ?rep = "case cand of None \<Rightarrow> True | Some (_, current) \<Rightarrow> better m current"
  consider (skip) "\<not> eligible now m" | (replace) "eligible now m" ?rep
    | (keep) k' c where "eligible now m" "cand = Some (k', c)" "\<not> better m c"
    by (cases cand) auto
  then show ?case
  proof cases
    case skip
    then have "claim_scan now cand es = Inr r" using Cons.prems m e by simp
    from Cons.IH [OF this] show ?thesis using C skip e by simp
  next
    case replace
    then have "claim_scan now (Some (k, m)) es = Inr r" using Cons.prems m e by simp
    from Cons.IH [OF this] have B: "best_of (insert (k, m) (claimable now es)) r" by simp
    show ?thesis
    proof (cases cand)
      case None
      then show ?thesis using B C replace(1) e by simp
    next
      case (Some c)
      have "\<not> better (snd c) (snd (k, m))" using replace(2) Some better_trans [of m "snd c" m]
        by (cases c) auto
      from best_of_insert [OF B _ this] show ?thesis using Some C replace(1) e by (simp add: insert_commute)
    qed
  next
    case keep
    then have "claim_scan now cand es = Inr r" using Cons.prems m e by simp
    from best_of_insert [OF Cons.IH [OF this], of "(k', c)" "(k, m)"]
    show ?thesis using keep C e by simp
  qed
qed

lemma in_claimable_iff:
  assumes inv: "queue_inv q s"
  shows "(k, m) \<in> claimable now (scan_prefix s (q_message_prefix q)) \<longleftrightarrow>
    k = message_key q (sm_id m) \<and> msgs q s (sm_id m) = Some m \<and> eligible now m"
proof -
  have wf: "store_wf s" using inv by (simp add: queue_inv_def)
  show ?thesis
  proof
    assume "(k, m) \<in> claimable now (scan_prefix s (q_message_prefix q))"
    then obtain v where v: "prefix (q_message_prefix q) k" "store_get s k = Some v" "decode_message v = Inr m" "eligible now m"
      by (auto simp: claimable_def in_scan_prefix_iff [OF wf])
    then have "k = message_key q (sm_id m)" using inv unfolding queue_inv_def by fastforce
    then show "k = message_key q (sm_id m) \<and> msgs q s (sm_id m) = Some m \<and> eligible now m"
      using v queue_inv_msgs(1) [OF inv] by auto
  qed (auto simp: claimable_def in_scan_prefix_iff [OF wf] queue_inv_msgs(1) [OF inv])
qed

text \<open>The message after a claim.\<close>

definition leased_until :: "i64 \<Rightarrow> stored_message \<Rightarrow> stored_message" where
  "leased_until l m = m\<lparr>sm_attempts := sm_attempts m + 1, sm_state := QLeased, sm_lease_until_ms := l\<rparr>"

lemma leased_until_simps [simp]:
  "sm_id (leased_until l m) = sm_id m" "sm_state (leased_until l m) = QLeased"
  "sm_attempts (leased_until l m) = sm_attempts m + 1" "sm_lease_until_ms (leased_until l m) = l"
  "sm_payload (leased_until l m) = sm_payload m" "sm_priority (leased_until l m) = sm_priority m"
  "sm_available_at_ms (leased_until l m) = sm_available_at_ms m"
  by (simp_all add: leased_until_def)

lemma queue_claim_cases:
  assumes "queue_claim D q now d s = (r, s')"
  obtains (early) e where "r = Inl e" "s' = s"
  | (none) "r = Inr None" "s' = s" "claim_scan now None (scan_prefix s (q_message_prefix q)) = Inr None"
  | (put) k m l bs rp s1 where "claim_scan now None (scan_prefix s (q_message_prefix q)) = Inr (Some (k, m))"
      "unat d < 2 ^ 63" "checked_add_signed now d = Some l" "sm_attempts m < sm_attempts m + 1"
      "encode_message (leased_until l m) = Inr bs" "store_put_internal D k bs s = (rp, s1)"
      "case rp of Inl e \<Rightarrow> r = Inl (QStore e) \<and> s' = s1
        | Inr _ \<Rightarrow> r = Inr (Some (queue_message_of (leased_until l m))) \<and> s' = record_queue_claim s1"
proof -
  show ?thesis
  proof (cases "\<exists>l c. i64_try_from_u64 d \<noteq> None \<and> checked_add_signed now d = Some l \<and>
      claim_scan now None (scan_prefix s (q_message_prefix q)) = Inr c")
    case False
    then have "\<exists>e. r = Inl e \<and> s' = s" using assms
      by (auto simp: queue_claim_def res_bind_def ok_or_def i64_try_from_u64_def split: sum.splits option.splits if_splits)
    then show ?thesis using early by blast
  next
    case True
    then obtain l c where lc: "i64_try_from_u64 d = Some d" "unat d < 2 ^ 63" "checked_add_signed now d = Some l"
      "claim_scan now None (scan_prefix s (q_message_prefix q)) = Inr c"
      by (auto simp: i64_try_from_u64_def split: if_splits)
    show ?thesis
    proof (cases c)
      case None
      then show ?thesis using none assms lc by (simp add: queue_claim_def)
    next
      case (Some km)
      obtain k m where km: "km = (k, m)" by (cases km)
      let ?put = "\<lambda>bs. store_put_internal D k bs s"
      have q: "queue_claim D q now d s = (case checked_add (sm_attempts m) 1 of None \<Rightarrow> (Inl QAttemptExhausted, s)
          | Some a \<Rightarrow> (case encode_message (m\<lparr>sm_attempts := a, sm_state := QLeased, sm_lease_until_ms := l\<rparr>) of Inl e \<Rightarrow> (Inl e, s)
          | Inr bs \<Rightarrow> (case ?put bs of (Inl e, s1) \<Rightarrow> (Inl (QStore e), s1)
          | (Inr _, s1) \<Rightarrow> (Inr (Some (queue_message_of (m\<lparr>sm_attempts := a, sm_state := QLeased, sm_lease_until_ms := l\<rparr>))), record_queue_claim s1))))"
        using lc Some km
        by (auto simp: queue_claim_def Let_def act_bind_def act_map_err_def split: option.split sum.split prod.split)
      show ?thesis
        using assms early put [OF lc(4) [unfolded Some km] lc(2,3)] unfolding q
        by (auto split: option.splits sum.splits prod.splits simp: leased_until_def dest!: checked_add_one_u32)
    qed
  qed
qed

lemma queue_claim_spec:
  assumes inv: "queue_inv q s" and c: "queue_claim D q now d s = (Inr r, s')"
  shows "case r of
      None \<Rightarrow> s' = s \<and> (\<forall>i m. msgs q s i = Some m \<longrightarrow> \<not> eligible now m)
    | Some qm \<Rightarrow> \<exists>m l. msgs q s (sm_id m) = Some m \<and> eligible now m \<and>
        (\<forall>i m'. msgs q s i = Some m' \<longrightarrow> eligible now m' \<longrightarrow> \<not> better m' m) \<and>
        sint l = sint now + uint d \<and> sm_attempts m < sm_attempts m + 1 \<and>
        qm = queue_message_of (leased_until l m) \<and> queue_inv q s' \<and>
        queue_next_id q s' = queue_next_id q s \<and> msgs q s' = (msgs q s)(sm_id m \<mapsto> leased_until l m)"
  using c
proof (cases rule: queue_claim_cases)
  case (early e)
  then show ?thesis by simp
next
  case none
  then show ?thesis
  proof -
    have "claimable now (scan_prefix s (q_message_prefix q)) = {}"
      using claim_scan_spec [OF none(3)] by (simp add: best_of_def)
    then have "\<not> eligible now m" if "msgs q s i = Some m" for i m
      using in_claimable_iff [OF inv] that queue_inv_msgs(4) [OF inv that] by blast
    then show ?thesis using none by simp
  qed
next
  case (put k m l bs rp s1)
  then obtain u where rp: "rp = Inr u" and r: "r = Some (queue_message_of (leased_until l m))" and s': "s' = record_queue_claim s1"
    by (cases rp) auto
  have wf: "store_wf s" using inv by (simp add: queue_inv_def)
  have B: "(k, m) \<in> claimable now (scan_prefix s (q_message_prefix q))"
    "\<forall>y \<in> claimable now (scan_prefix s (q_message_prefix q)). \<not> better (snd y) m"
    using claim_scan_spec [OF put(1)] by (auto simp: best_of_def)
  then have m: "k = message_key q (sm_id m)" "msgs q s (sm_id m) = Some m" "eligible now m"
    using in_claimable_iff [OF inv] by blast+
  have best: "\<not> better m' m" if "msgs q s i = Some m'" "eligible now m'" for i m'
    using B(2) in_claimable_iff [OF inv] that queue_inv_msgs(4) [OF inv that(1)] by fastforce
  have l: "sint l = sint now + uint d"
    using checked_add_signed_Some [OF put(3)] sint_small [OF put(2)] by simp
  have g: "store_get s' k' = (if k' = message_key q (sm_id m) then Some bs else store_get s k')" if "not_cdc k'" for k'
    using store_put_internal_get [OF put(6) [unfolded rp] that] m(1) s' by simp
  have wf': "store_wf s'" using store_put_internal_wf [OF wf put(6)] s' by simp
  have old: "msgs q s (sm_id m) \<noteq> None" using m(2) by simp
  note U = queue_update [OF inv old put(5) leased_until_simps(1) wf' g]
  show ?thesis unfolding r option.case
    by (intro exI [of _ m] exI [of _ l] conjI m U l put(4) refl) (use best in blast)
qed

section \<open>Acknowledging\<close>

text \<open>Who may settle a message: the holder of its current lease generation.\<close>

definition holds_lease :: "queue \<Rightarrow> store \<Rightarrow> u64 \<Rightarrow> u32 \<Rightarrow> stored_message \<Rightarrow> bool" where
  "holds_lease q s i g m \<longleftrightarrow> msgs q s i = Some m \<and> sm_state m = QLeased \<and> sm_attempts m = g"

lemma leased_message_iff:
  assumes "queue_inv q s"
  shows "leased_message q i g s = (Inr m, s') \<longleftrightarrow> s' = s \<and> holds_lease q s i g m"
    and "leased_message q i g s = (Inl e, s') \<longleftrightarrow> s' = s \<and> (case msgs q s i of
        None \<Rightarrow> e = QNotFound i
      | Some m \<Rightarrow> sm_state m \<noteq> QLeased \<and> e = QNotLeased i \<or>
          sm_state m = QLeased \<and> sm_attempts m \<noteq> g \<and> e = QLeaseMismatch i (sm_attempts m) g)"
  using queue_inv_msgs(3,4) [OF assms]
  by (cases "msgs q s i"; auto simp: leased_message_def holds_lease_def validate_lease_def)+

lemma queue_ack_spec:
  assumes inv: "queue_inv q s" and a: "queue_ack D q i g s = (Inr u, s')"
  shows "\<exists>m. holds_lease q s i g m" and "queue_inv q s'" and "msgs q s' = (msgs q s)(i := None)"
    and "queue_next_id q s' = queue_next_id q s"
proof -
  from a obtain m s1 where m: "holds_lease q s i g m"
    and d: "store_delete_internal D (message_key q i) s = (Inr (), s1)" and s': "s' = record_queue_ack s1"
    by (auto simp: queue_ack_def act_bind_Inr_iff act_map_err_iff leased_message_iff [OF inv])
  show "\<exists>m. holds_lease q s i g m" using m by blast
  have wf: "store_wf s'" using store_delete_internal_wf [OF _ d] inv s' by (simp add: queue_inv_def)
  have "store_get s' k = (if k \<in> message_key q ` {i} then None else store_get s k)" if "not_cdc k" for k
    using store_delete_internal_get [OF d that] s' by simp
  note R = queue_remove [OF inv wf this]
  show "queue_inv q s'" "queue_next_id q s' = queue_next_id q s" "msgs q s' = (msgs q s)(i := None)"
    using R by (auto simp: fun_eq_iff)
qed

text \<open>\<open>nack\<close> and \<open>dead_letter\<close> rewrite the message in place.\<close>

lemma rewrite_spec:
  assumes inv: "queue_inv q s"
    and a: "act_bind (leased_message q i g) (\<lambda>m. act_bind (act_lift (encode_message (f m))) (\<lambda>bs.
      act_map_err QStore (store_put_internal D (message_key q i) bs))) s = (Inr u, s')"
    and f: "\<And>m. sm_id (f m) = sm_id m"
  shows "\<exists>m. holds_lease q s i g m \<and> queue_inv q s' \<and> msgs q s' = (msgs q s)(i \<mapsto> f m) \<and>
    queue_next_id q s' = queue_next_id q s"
proof -
  from a obtain m bs where m: "holds_lease q s i g m" and bs: "encode_message (f m) = Inr bs"
    and p: "store_put_internal D (message_key q i) bs s = (Inr u, s')"
    by (auto simp: act_bind_Inr_iff act_map_err_iff leased_message_iff [OF inv] simp del: act_bind_lift)
  have i: "sm_id (f m) = i" "msgs q s i \<noteq> None"
    using m f queue_inv_msgs(4) [OF inv] by (auto simp: holds_lease_def)
  have wf: "store_wf s'" using store_put_internal_wf [OF _ p] inv by (simp add: queue_inv_def)
  show ?thesis using queue_update [OF inv i(2) bs i(1) wf store_put_internal_get [OF p]] m by auto
qed

lemma queue_nack_spec:
  assumes "queue_inv q s" and "queue_nack D q i g available s = (Inr u, s')"
  shows "\<exists>m. holds_lease q s i g m \<and> queue_inv q s' \<and> queue_next_id q s' = queue_next_id q s \<and>
    msgs q s' = (msgs q s)(i \<mapsto> m\<lparr>sm_state := QReady, sm_available_at_ms := available, sm_lease_until_ms := 0\<rparr>)"
  using rewrite_spec [OF assms(1) assms(2) [unfolded queue_nack_def]] by auto

lemma dead_letter_spec:
  assumes "queue_inv q s" and "dead_letter D q i g s = (Inr u, s')"
  shows "\<exists>m. holds_lease q s i g m \<and> queue_inv q s' \<and> queue_next_id q s' = queue_next_id q s \<and>
    msgs q s' = (msgs q s)(i \<mapsto> m\<lparr>sm_state := QDead, sm_lease_until_ms := 0\<rparr>)"
  using rewrite_spec [OF assms(1) assms(2) [unfolded dead_letter_def]] by auto

text \<open>Settling with anything but the current lease is refused and changes nothing.\<close>

lemma settle_refused:
  assumes "queue_inv q s" and "\<nexists>m. holds_lease q s i g m"
  shows "\<exists>e. queue_ack D q i g s = (Inl e, s) \<and> queue_nack D q i g available s = (Inl e, s) \<and>
    dead_letter D q i g s = (Inl e, s)"
proof -
  have "\<exists>e. leased_message q i g s = (Inl e, s)"
  proof (cases "leased_message q i g s")
    case (Pair r s1)
    then show ?thesis using assms(2) leased_message_iff [OF assms(1)] by (cases r) auto
  qed
  then show ?thesis by (auto simp: queue_ack_def queue_nack_def dead_letter_def act_bind_eval)
qed

section \<open>Purging dead letters\<close>

lemma dead_keys_spec:
  assumes "dead_keys acc es = Inr ks"
  shows "set ks = set acc \<union> {k. \<exists>v m. (k, v) \<in> set es \<and> decode_message v = Inr m \<and> sm_state m = QDead}"
  using assms
proof (induction es arbitrary: acc)
  case (Cons e es)
  obtain k v where e: "e = (k, v)" by (cases e)
  from Cons.prems e obtain m where m: "decode_message v = Inr m"
    "dead_keys (if sm_state m = QDead then acc @ [k] else acc) es = Inr ks" by (auto simp: res_bind_Inr_iff)
  show ?case using Cons.IH [OF m(2)] m(1) e by (auto split: if_splits)
qed simp

lemma staging_purge_dead [staging_intros]:
  "staging (act_bind (act_for (\<lambda>k. act_map_err f (tx_delete_internal D k)) ks) (\<lambda>_. act_return r))"
  by (intro staging_intros)

lemma delete_all_view:
  assumes "run_tx D True conv (act_bind (act_for (\<lambda>k. act_map_err f (tx_delete_internal D k)) ks) (\<lambda>_. act_return r)) s = (Inr n, s')"
    and "not_cdc k"
  shows "store_get s' k = (if k \<in> set ks then None else store_get s k)"
proof -
  obtain t1 where t1: "act_bind (act_for (\<lambda>k. act_map_err f (tx_delete_internal D k)) ks) (\<lambda>_. act_return r) (fresh_tx True s) = (Inr n, t1)"
      "\<And>k. not_cdc k \<Longrightarrow> store_get s' k = tx_get_internal t1 k"
    using assms(1) by (rule run_tx_view [OF staging_purge_dead]) blast
  then have "tx_ext (map OpDelete ks) (fresh_tx True s) t1"
    by (auto simp: act_bind_Inr_iff dest: delete_all_ext)
  from tx_get_ext [OF this] show ?thesis using t1(2) [OF assms(2)] by (simp add: rev_map staged_lookup_deletes)
qed

lemma purge_dead_spec:
  assumes inv: "queue_inv q s" and p: "purge_dead D q s = (Inr n, s')"
  shows "queue_inv q s'" and "queue_next_id q s' = queue_next_id q s"
    and "msgs q s' = (\<lambda>i. case msgs q s i of Some m \<Rightarrow> if sm_state m = QDead then None else Some m | None \<Rightarrow> None)"
proof -
  let ?dead = "{i. \<exists>m. msgs q s i = Some m \<and> sm_state m = QDead}"
  have wf: "store_wf s" using inv by (simp add: queue_inv_def)
  obtain ks where ks: "dead_keys [] (scan_prefix s (q_message_prefix q)) = Inr ks"
    using p by (auto simp: purge_dead_def split: sum.splits)
  have K: "set ks = message_key q ` ?dead"
  proof -
    have "k \<in> set ks \<longleftrightarrow> (\<exists>v m. prefix (q_message_prefix q) k \<and> store_get s k = Some v \<and> decode_message v = Inr m \<and> sm_state m = QDead)" for k
      using dead_keys_spec [OF ks] by (auto simp: in_scan_prefix_iff [OF wf])
    moreover have "\<exists>i. k = message_key q i" if "prefix (q_message_prefix q) k" "store_get s k = Some v" for k v
      using inv that unfolding queue_inv_def by blast
    ultimately show ?thesis using queue_inv_msgs(1) [OF inv] by (auto simp: image_iff) blast+
  qed
  have get: "store_get s' k = (if k \<in> message_key q ` ?dead then None else store_get s k)" if "not_cdc k" for k
  proof (cases "ks = []")
    case True
    then show ?thesis using p ks K by (auto simp: purge_dead_def)
  next
    case False
    then have "run_tx D True QStore (act_bind (act_for (\<lambda>k. act_map_err QStore (tx_delete_internal D k)) ks)
        (\<lambda>_. act_return (of_nat (length ks)))) s = (Inr n, s')"
      using p ks by (simp add: purge_dead_def split: if_splits)
    from delete_all_view [OF this that] show ?thesis unfolding K .
  qed
  have wf': "store_wf s'"
    using p ks wf run_tx_wf [OF staging_purge_dead wf] by (auto simp: purge_dead_def split: if_splits)
  note R = queue_remove [OF inv wf' get]
  show "queue_inv q s'" "queue_next_id q s' = queue_next_id q s" using R by blast+
  show "msgs q s' = (\<lambda>i. case msgs q s i of Some m \<Rightarrow> if sm_state m = QDead then None else Some m | None \<Rightarrow> None)"
    using R(2) by (auto simp: fun_eq_iff split: option.split)
qed

section \<open>Histories\<close>

text \<open>A failed operation leaves every key as it was.\<close>

lemma put_internal_fail: "store_put_internal D k v s = (Inl e, s') \<Longrightarrow> store_get s' k' = store_get s k'"
  by (rule store_kv.put_fail)

lemma leased_message_state: "leased_message q i g s = (r, s') \<Longrightarrow> s' = s"
  by (simp add: leased_message_def)

lemma rewrite_fail:
  assumes "act_bind (leased_message q i g) (\<lambda>m. act_bind (act_lift (encode_message (f m))) (\<lambda>bs.
      act_map_err QStore (store_put_internal D (message_key q i) bs))) s = (Inl e, s')"
  shows "store_get s' k = store_get s k" and "store_wf s \<Longrightarrow> store_wf s'"
  using assms
  by (auto simp: act_bind_Inl_iff act_map_err_iff simp del: act_bind_lift
      dest!: leased_message_state dest: put_internal_fail store_put_internal_wf)

lemma queue_ack_fail:
  assumes "queue_ack D q i g s = (Inl e, s')"
  shows "store_get s' k = store_get s k" and "store_wf s \<Longrightarrow> store_wf s'"
  using assms
  by (auto simp: queue_ack_def act_bind_Inl_iff act_map_err_iff
      dest!: leased_message_state dest: store_kv.del_fail store_delete_internal_wf)

lemma queue_claim_fail:
  assumes "queue_claim D q now d s = (Inl e, s')"
  shows "store_get s' k = store_get s k" and "store_wf s \<Longrightarrow> store_wf s'"
  using assms
  by (cases rule: queue_claim_cases; auto split: sum.splits dest: put_internal_fail store_put_internal_wf)+

lemma purge_dead_fail:
  assumes "purge_dead D q s = (Inl e, s')"
  shows "store_get s' k = store_get s k" and "store_wf s \<Longrightarrow> store_wf s'"
  using assms run_tx_fail_get [OF staging_purge_dead] run_tx_wf [OF staging_purge_dead]
  by (auto simp: purge_dead_def split: sum.splits if_splits)

text \<open>One operation of a client of queue \<open>q\<close>, successful or not.\<close>

inductive queue_op :: "deps \<Rightarrow> queue \<Rightarrow> store \<Rightarrow> store \<Rightarrow> bool" for D q where
  op_push: "push_with_options D q payload opts s = (r, s') \<Longrightarrow> queue_op D q s s'"
| op_claim: "queue_claim D q now d s = (rc, s') \<Longrightarrow> queue_op D q s s'"
| op_ack: "queue_ack D q i g s = (ru, s') \<Longrightarrow> queue_op D q s s'"
| op_nack: "queue_nack D q i g available s = (ru, s') \<Longrightarrow> queue_op D q s s'"
| op_dead_letter: "dead_letter D q i g s = (ru, s') \<Longrightarrow> queue_op D q s s'"
| op_purge_dead: "purge_dead D q s = (r, s') \<Longrightarrow> queue_op D q s s'"

text \<open>How the messages of a queue may change: identifiers are not reused, a message keeps its
  payload and its generation never decreases.\<close>

definition evolves :: "queue \<Rightarrow> store \<Rightarrow> store \<Rightarrow> bool" where
  "evolves q s s' \<longleftrightarrow> (\<exists>n n'. queue_next_id q s = Inr n \<and> queue_next_id q s' = Inr n' \<and> n \<le> n' \<and>
     (\<forall>i < n. case msgs q s' i of None \<Rightarrow> True
       | Some m' \<Rightarrow> \<exists>m. msgs q s i = Some m \<and> sm_payload m' = sm_payload m \<and> sm_priority m' = sm_priority m \<and>
           sm_attempts m \<le> sm_attempts m'))"

lemma evolvesI:
  assumes inv: "queue_inv q s" and n: "queue_next_id q s' = queue_next_id q s"
    and m: "\<And>i m'. msgs q s' i = Some m' \<Longrightarrow> \<exists>m. msgs q s i = Some m \<and> sm_payload m' = sm_payload m \<and>
      sm_priority m' = sm_priority m \<and> sm_attempts m \<le> sm_attempts m'"
  shows "evolves q s s'"
proof -
  obtain n where "queue_next_id q s = Inr n" using inv by (auto simp: queue_inv_def)
  then show ?thesis using n m by (fastforce simp: evolves_def split: option.split)
qed

lemma evolves_same:
  assumes "queue_inv q s" and "\<And>k. store_get s' k = store_get s k" and "store_wf s'"
  shows "queue_inv q s' \<and> evolves q s s'"
  using same_queue_view [OF same_queueI [OF assms(2)]] assms(1,3) by (auto intro: evolvesI)

lemma queue_inv_wf: "queue_inv q s \<Longrightarrow> store_wf s"
  by (simp add: queue_inv_def)

lemma push_evolves:
  assumes inv: "queue_inv q s" and p: "push_with_options D q payload opts s = (r, s')"
  shows "queue_inv q s' \<and> evolves q s s'"
proof (cases r)
  case (Inl e)
  note F = push_fail [OF p [unfolded Inl]]
  show ?thesis using evolves_same [OF inv F(1)] F(2) queue_inv_wf [OF inv] by blast
next
  case (Inr i)
  note P = push_spec [OF inv p [unfolded Inr]]
  have "\<exists>m. msgs q s j = Some m \<and> sm_payload m' = sm_payload m \<and> sm_priority m' = sm_priority m \<and>
      sm_attempts m \<le> sm_attempts m'" if "j < i" "msgs q s' j = Some m'" for j m'
    using that P(6) by (auto split: if_splits)
  then show ?thesis using P by (fastforce simp: evolves_def split: option.split)
qed

lemma claim_evolves:
  assumes inv: "queue_inv q s" and c: "queue_claim D q now d s = (r, s')"
  shows "queue_inv q s' \<and> evolves q s s'"
proof (cases r)
  case (Inl e)
  note F = queue_claim_fail [OF c [unfolded Inl]]
  show ?thesis using evolves_same [OF inv F(1)] F(2) queue_inv_wf [OF inv] by blast
next
  case (Inr v)
  note C = queue_claim_spec [OF inv c [unfolded Inr]]
  show ?thesis
  proof (cases v)
    case None
    then show ?thesis using C inv by (auto intro: evolvesI)
  next
    case (Some qm)
    with C obtain m l where m: "msgs q s (sm_id m) = Some m" "sm_attempts m < sm_attempts m + 1" "queue_inv q s'"
        "queue_next_id q s' = queue_next_id q s" "msgs q s' = (msgs q s)(sm_id m \<mapsto> leased_until l m)" by auto
    have "evolves q s s'" by (rule evolvesI [OF inv m(4)]) (use m in \<open>auto split: if_splits\<close>)
    then show ?thesis using m(3) by blast
  qed
qed

lemma settle_evolves:
  assumes inv: "queue_inv q s"
  shows "queue_ack D q i g s = (r, s') \<Longrightarrow> queue_inv q s' \<and> evolves q s s'"
    and "queue_nack D q i g available s = (r, s') \<Longrightarrow> queue_inv q s' \<and> evolves q s s'"
    and "dead_letter D q i g s = (r, s') \<Longrightarrow> queue_inv q s' \<and> evolves q s s'"
proof -
  note wf = queue_inv_wf [OF inv]
  show "queue_inv q s' \<and> evolves q s s'" if a: "queue_ack D q i g s = (r, s')"
  proof (cases r)
    case (Inl e)
    note F = queue_ack_fail [OF a [unfolded Inl]]
    show ?thesis using evolves_same [OF inv F(1)] F(2) wf by blast
  next
    case (Inr u)
    note A = queue_ack_spec [OF inv a [unfolded Inr]]
    have "evolves q s s'" by (rule evolvesI [OF inv A(4)]) (use A(3) in \<open>auto split: if_splits\<close>)
    then show ?thesis using A(2) by blast
  qed
  show "queue_inv q s' \<and> evolves q s s'" if a: "queue_nack D q i g available s = (r, s')"
  proof (cases r)
    case (Inl e)
    note F = rewrite_fail [OF a [unfolded queue_nack_def Inl]]
    show ?thesis using evolves_same [OF inv F(1)] F(2) wf by blast
  next
    case (Inr u)
    from queue_nack_spec [OF inv a [unfolded Inr]] show ?thesis
      by (auto simp: holds_lease_def split: if_splits intro!: evolvesI [OF inv])
  qed
  show "queue_inv q s' \<and> evolves q s s'" if a: "dead_letter D q i g s = (r, s')"
  proof (cases r)
    case (Inl e)
    note F = rewrite_fail [OF a [unfolded dead_letter_def Inl]]
    show ?thesis using evolves_same [OF inv F(1)] F(2) wf by blast
  next
    case (Inr u)
    from dead_letter_spec [OF inv a [unfolded Inr]] show ?thesis
      by (auto simp: holds_lease_def split: if_splits intro!: evolvesI [OF inv])
  qed
qed

lemma purge_dead_evolves:
  assumes inv: "queue_inv q s" and p: "purge_dead D q s = (r, s')"
  shows "queue_inv q s' \<and> evolves q s s'"
proof (cases r)
  case (Inl e)
  note F = purge_dead_fail [OF p [unfolded Inl]]
  show ?thesis using evolves_same [OF inv F(1)] F(2) queue_inv_wf [OF inv] by blast
next
  case (Inr n)
  note P = purge_dead_spec [OF inv p [unfolded Inr]]
  have "evolves q s s'" by (rule evolvesI [OF inv P(2)]) (use P(3) in \<open>auto split: option.splits if_splits\<close>)
  then show ?thesis using P(1) by blast
qed

theorem queue_op_evolves:
  assumes "queue_op D q s s'" and "queue_inv q s"
  shows "queue_inv q s' \<and> evolves q s s'"
  using assms
  by (cases rule: queue_op.cases)
    (rule push_evolves claim_evolves settle_evolves purge_dead_evolves; assumption)+

lemma evolvesD:
  assumes "evolves q s s'" and "queue_next_id q s = Inr n" and "i < n" and "msgs q s' i = Some m'"
  shows "\<exists>m. msgs q s i = Some m \<and> sm_payload m' = sm_payload m \<and> sm_priority m' = sm_priority m \<and>
    sm_attempts m \<le> sm_attempts m'"
proof -
  from assms(1,2) have "\<forall>i < n. case msgs q s' i of None \<Rightarrow> True
       | Some m' \<Rightarrow> \<exists>m. msgs q s i = Some m \<and> sm_payload m' = sm_payload m \<and> sm_priority m' = sm_priority m \<and>
           sm_attempts m \<le> sm_attempts m'"
    by (auto simp: evolves_def)
  then have "case msgs q s' i of None \<Rightarrow> True
       | Some m' \<Rightarrow> \<exists>m. msgs q s i = Some m \<and> sm_payload m' = sm_payload m \<and> sm_priority m' = sm_priority m \<and>
           sm_attempts m \<le> sm_attempts m'"
    using assms(3) by blast
  then show ?thesis using assms(4) by simp
qed

lemma evolves_trans:
  assumes "evolves q a b" and "evolves q b c"
  shows "evolves q a c"
proof -
  from assms obtain n1 n2 n3 where n: "queue_next_id q a = Inr n1" "queue_next_id q b = Inr n2"
      "queue_next_id q c = Inr n3" "n1 \<le> n2" "n2 \<le> n3"
    unfolding evolves_def by auto
  have "\<exists>m. msgs q a i = Some m \<and> sm_payload m' = sm_payload m \<and> sm_priority m' = sm_priority m \<and> sm_attempts m \<le> sm_attempts m'"
    if "i < n1" "msgs q c i = Some m'" for i m'
  proof -
    have "i < n2" using that(1) n(4) by simp
    from evolvesD [OF assms(2) n(2) this that(2)] obtain m1 where "msgs q b i = Some m1" "sm_payload m' = sm_payload m1"
        "sm_priority m' = sm_priority m1" "sm_attempts m1 \<le> sm_attempts m'" by blast
    with evolvesD [OF assms(1) n(1) that(1)] show ?thesis by fastforce
  qed
  then show ?thesis using n unfolding evolves_def by (fastforce split: option.split)
qed

theorem queue_ops_evolve:
  assumes "(queue_op D q)\<^sup>*\<^sup>* s s'" and "queue_inv q s"
  shows "queue_inv q s' \<and> evolves q s s'"
  using assms
proof (induction rule: rtranclp_induct)
  case base
  then show ?case by (auto intro: evolvesI)
next
  case (step y z)
  then show ?case using queue_op_evolves evolves_trans by blast
qed

text \<open>Once a message has been claimed again, no lease of an earlier claim can settle it, whatever
  happened in between and happens afterwards.\<close>

theorem stale_lease_refused:
  assumes inv: "queue_inv q s0"
    and c1: "queue_claim D q now1 d1 s0 = (Inr (Some m1), s1)" and h1: "(queue_op D q)\<^sup>*\<^sup>* s1 s2"
    and c2: "queue_claim D q now2 d2 s2 = (Inr (Some m2), s3)" and same: "qm_id m2 = qm_id m1"
    and h2: "(queue_op D q)\<^sup>*\<^sup>* s3 s4"
  shows "\<exists>e. queue_ack D q (qm_id m1) (qm_lease_generation m1) s4 = (Inl e, s4) \<and>
    queue_nack D q (qm_id m1) (qm_lease_generation m1) available s4 = (Inl e, s4) \<and>
    dead_letter D q (qm_id m1) (qm_lease_generation m1) s4 = (Inl e, s4)"
proof -
  let ?i = "qm_id m1" and ?g = "qm_lease_generation m1"
  obtain a l where a: "queue_inv q s1" "msgs q s1 ?i = Some (leased_until l a)" "sm_attempts (leased_until l a) = ?g"
    using queue_claim_spec [OF inv c1] by (auto simp: queue_message_of_def)
  note E1 = queue_ops_evolve [OF h1 a(1)]
  obtain n where n: "queue_next_id q s1 = Inr n" "?i < n" using queue_inv_id a unfolding queue_inv_def by blast
  obtain b l2 where b: "msgs q s2 (sm_id b) = Some b" "sm_id b = ?i" "sm_attempts b < sm_attempts b + 1"
      "queue_inv q s3" "queue_next_id q s3 = queue_next_id q s2" "msgs q s3 = (msgs q s2)(sm_id b \<mapsto> leased_until l2 b)"
    using queue_claim_spec [OF conjunct1 [OF E1] c2] same by (auto simp: queue_message_of_def)
  have "?g \<le> sm_attempts b"
    using evolvesD [OF conjunct2 [OF E1] n, of b] b(1,2) a(2,3) by auto
  then have g3: "?g < sm_attempts (leased_until l2 b)" using b(3) by (auto intro: order.strict_trans1)
  note E2 = queue_ops_evolve [OF h2 b(4)]
  obtain n3 where n3: "queue_next_id q s3 = Inr n3" "?i < n3"
    using queue_inv_id [OF b(4), of _ ?i "leased_until l2 b"] b(2,4,6) unfolding queue_inv_def by auto
  have "?g < sm_attempts m'" if "msgs q s4 ?i = Some m'" for m'
    using evolvesD [OF conjunct2 [OF E2] n3 that] b(2,6) g3 by (auto intro: order.strict_trans2)
  then have "\<nexists>m. holds_lease q s4 ?i ?g m" by (auto simp: holds_lease_def)
  then show ?thesis by (rule settle_refused [OF conjunct1 [OF E2]])
qed

text \<open>An acknowledged message never comes back.\<close>

theorem acknowledged_gone:
  assumes inv: "queue_inv q s" and a: "queue_ack D q i g s = (Inr u, s1)" and h: "(queue_op D q)\<^sup>*\<^sup>* s1 s2"
  shows "msgs q s2 i = None"
proof (rule ccontr)
  assume "msgs q s2 i \<noteq> None"
  then obtain m where m: "msgs q s2 i = Some m" by blast
  note A = queue_ack_spec [OF inv a]
  obtain n where n: "queue_next_id q s = Inr n" using inv by (auto simp: queue_inv_def)
  have "i < n" using A(1) queue_inv_id [OF inv n] by (auto simp: holds_lease_def)
  with evolvesD [OF conjunct2 [OF queue_ops_evolve [OF h A(2)]] _ _ m] A(3,4) n show False by simp
qed

text \<open>While a lease runs nobody else is given the message.\<close>

theorem lease_exclusive:
  assumes inv: "queue_inv q s" and c1: "queue_claim D q now1 d1 s = (Inr (Some m1), s1)"
    and c2: "queue_claim D q now2 d2 s1 = (Inr (Some m2), s2)" and t: "sint now2 < sint (qm_lease_until_ms m1)"
  shows "qm_id m2 \<noteq> qm_id m1"
proof
  assume same: "qm_id m2 = qm_id m1"
  obtain a l where a: "queue_inv q s1" "msgs q s1 (qm_id m1) = Some (leased_until l a)" "l = qm_lease_until_ms m1"
    using queue_claim_spec [OF inv c1] by (auto simp: queue_message_of_def)
  obtain b where "msgs q s1 (qm_id m2) = Some b" "eligible now2 b"
    using queue_claim_spec [OF a(1) c2] by (auto simp: queue_message_of_def)
  then show False using a same t by (auto simp: eligible_def)
qed

section \<open>Statistics\<close>

definition count_state :: "queue_state \<Rightarrow> stored_message list \<Rightarrow> nat" where
  "count_state st ms = length (filter (\<lambda>m. sm_state m = st) ms)"

lemma count_message_Inr:
  assumes "count_message m st = Inr st'"
  shows "unat (qs_total st') = unat (qs_total st) + 1"
    and "unat (qs_ready st') = unat (qs_ready st) + count_state QReady [m]"
    and "unat (qs_leased st') = unat (qs_leased st) + count_state QLeased [m]"
    and "unat (qs_dead st') = unat (qs_dead st) + count_state QDead [m]"
  using assms
  by (cases "sm_state m"; auto simp: count_message_def count_state_def res_bind_Inr_iff ok_or_Inr_iff Let_def
      dest!: checked_add_Some(1))+

lemma stats_loop_Inr:
  assumes "stats_loop st vs = Inr st'"
  shows "\<exists>ms. map_result decode_message vs = Inr ms \<and> unat (qs_total st') = unat (qs_total st) + length ms \<and>
    unat (qs_ready st') = unat (qs_ready st) + count_state QReady ms \<and>
    unat (qs_leased st') = unat (qs_leased st) + count_state QLeased ms \<and>
    unat (qs_dead st') = unat (qs_dead st) + count_state QDead ms"
  using assms
proof (induction vs arbitrary: st)
  case Nil
  then show ?case by (simp add: count_state_def)
next
  case (Cons v vs)
  then obtain m st1 where m: "decode_message v = Inr m" "count_message m st = Inr st1" "stats_loop st1 vs = Inr st'"
    by (auto simp: res_bind_Inr_iff)
  obtain ms where ms: "map_result decode_message vs = Inr ms" "unat (qs_total st') = unat (qs_total st1) + length ms"
    "unat (qs_ready st') = unat (qs_ready st1) + count_state QReady ms"
    "unat (qs_leased st') = unat (qs_leased st1) + count_state QLeased ms"
    "unat (qs_dead st') = unat (qs_dead st1) + count_state QDead ms"
    using Cons.IH [OF m(3)] by blast
  have "count_state x (m # ms) = count_state x [m] + count_state x ms" for x by (simp add: count_state_def)
  then show ?case using m(1) ms count_message_Inr [OF m(2)] by (intro exI [of _ "m # ms"]) simp
qed

lemma count_states_sum: "count_state QReady ms + count_state QLeased ms + count_state QDead ms = length ms"
proof (induction ms)
  case (Cons m ms)
  then show ?case by (cases "sm_state m") (simp_all add: count_state_def)
qed (simp add: count_state_def)

theorem queue_stats_spec:
  assumes "queue_stats_of q s = Inr st"
  shows "\<exists>ms. map_result decode_message (map snd (scan_prefix s (q_message_prefix q))) = Inr ms \<and>
    unat (qs_total st) = length ms \<and> unat (qs_ready st) = count_state QReady ms \<and>
    unat (qs_leased st) = count_state QLeased ms \<and> unat (qs_dead st) = count_state QDead ms"
    and "unat (qs_ready st) + unat (qs_leased st) + unat (qs_dead st) = unat (qs_total st)"
proof -
  show *: "\<exists>ms. map_result decode_message (map snd (scan_prefix s (q_message_prefix q))) = Inr ms \<and>
    unat (qs_total st) = length ms \<and> unat (qs_ready st) = count_state QReady ms \<and>
    unat (qs_leased st) = count_state QLeased ms \<and> unat (qs_dead st) = count_state QDead ms"
    using stats_loop_Inr [OF assms [unfolded queue_stats_of_def]] by (simp add: queue_stats_default_def)
  then show "unat (qs_ready st) + unat (qs_leased st) + unat (qs_dead st) = unat (qs_total st)"
    using count_states_sum by auto
qed

text \<open>Queues do not disturb each other.\<close>

lemma other_queue_keys:
  assumes a: "queue_new na = Inr qa" and b: "queue_new nb = Inr qb" and ne: "na \<noteq> nb"
  shows "message_key qa i \<noteq> q_meta_key qb" and "\<not> prefix (q_message_prefix qb) (message_key qa i)"
    and "q_meta_key qa \<noteq> q_meta_key qb" and "\<not> prefix (q_message_prefix qb) (q_meta_key qa)"
  using queue_namespace_disjoint [OF queue_new_Inr(4) [OF a] queue_new_Inr(4) [OF b] ne]
  by (auto simp: message_key_def queue_new_Inr [OF a] queue_new_Inr [OF b] prefix_def)

definition foreign :: "queue \<Rightarrow> bytes \<Rightarrow> bool" where
  "foreign q k \<longleftrightarrow> not_cdc k \<and> k \<noteq> q_meta_key q \<and> \<not> prefix (q_message_prefix q) k"

lemma foreignD: "foreign q k \<Longrightarrow> not_cdc k" "foreign q k \<Longrightarrow> k \<noteq> q_meta_key q"
  "foreign q k \<Longrightarrow> k \<noteq> message_key q i" "foreign q k \<Longrightarrow> prefix (q_message_prefix q) k' \<Longrightarrow> k \<noteq> k'"
  by (auto simp: foreign_def)

lemma push_frame:
  assumes "push_with_options D q payload opts s = (r, s')" and f: "foreign q k"
  shows "store_get s' k = store_get s k"
proof (cases r)
  case (Inl e)
  then show ?thesis using push_fail(1) assms(1) by blast
next
  case (Inr i)
  have "\<exists>j (n :: u64). run_tx D True QStore (push_body D q j n (pushed_message j payload opts)) s = (Inr i, s')"
    using assms(1) by (cases rule: push_cases) (use Inr in auto)
  then obtain j and n :: u64 where "run_tx D True QStore (push_body D q j n (pushed_message j payload opts)) s = (Inr i, s')"
    by blast
  then obtain t where t: "push_body D q j n (pushed_message j payload opts) (fresh_tx True s) = (Inr i, t)"
      "\<And>k. not_cdc k \<Longrightarrow> store_get s' k = tx_get_internal t k"
    by (rule run_tx_view [OF staging_push]) blast
  then obtain t1 bs where t1: "tx_put_internal D (q_meta_key q) (to_le n) (fresh_tx True s) = (Inr (), t1)"
      "tx_put_internal D (message_key q j) bs t1 = (Inr (), t)"
    by (auto simp: act_bind_Inr_iff act_map_err_iff simp del: act_bind_lift)
  then show ?thesis using t(2) tx_kv.put_get foreignD [OF f] by simp
qed

lemma put_frame:
  assumes "store_put_internal D k' bs s = (r, s')" and "foreign q k" and "k \<noteq> k'"
  shows "store_get s' k = store_get s k"
  using assms by (cases r) (auto dest: store_put_internal_get put_internal_fail foreignD)

lemma claim_frame:
  assumes "queue_claim D q now d s = (r, s')" and f: "foreign q k" and wf: "store_wf s"
  shows "store_get s' k = store_get s k"
  using assms(1)
proof (cases rule: queue_claim_cases)
  case (put k' m l bs rp s1)
  have "prefix (q_message_prefix q) k'"
    using claim_scan_spec [OF put(1)] by (auto simp: best_of_def claimable_def in_scan_prefix_iff [OF wf])
  then have "store_get s1 k = store_get s k" using put_frame [OF put(6) f] foreignD(4) [OF f] by blast
  then show ?thesis using put(7) by (cases rp) auto
qed simp_all

lemma rewrite_frame:
  assumes "act_bind (leased_message q i g) (\<lambda>m. act_bind (act_lift (encode_message (h m))) (\<lambda>bs.
      act_map_err QStore (store_put_internal D (message_key q i) bs))) s = (r, s')" and f: "foreign q k"
  shows "store_get s' k = store_get s k"
proof (cases r)
  case (Inl e)
  then show ?thesis using rewrite_fail(1) assms(1) by blast
next
  case (Inr u)
  with assms(1) obtain bs where "store_put_internal D (message_key q i) bs s = (Inr u, s')"
    by (auto simp: act_bind_Inr_iff act_map_err_iff simp del: act_bind_lift dest!: leased_message_state)
  then show ?thesis using put_frame f foreignD(3) [OF f] by blast
qed

lemma ack_frame:
  assumes "queue_ack D q i g s = (r, s')" and f: "foreign q k"
  shows "store_get s' k = store_get s k"
proof (cases r)
  case (Inl e)
  then show ?thesis using queue_ack_fail(1) assms(1) by blast
next
  case (Inr u)
  with assms(1) obtain s1 where "store_delete_internal D (message_key q i) s = (Inr (), s1)" "s' = record_queue_ack s1"
    by (auto simp: queue_ack_def act_bind_Inr_iff act_map_err_iff dest!: leased_message_state)
  then show ?thesis using store_delete_internal_get foreignD [OF f] by simp
qed

lemma purge_dead_frame:
  assumes p: "purge_dead D q s = (r, s')" and f: "foreign q k" and wf: "store_wf s"
  shows "store_get s' k = store_get s k"
proof (cases r)
  case (Inl e)
  then show ?thesis using purge_dead_fail(1) p by blast
next
  case (Inr n)
  obtain ks where ks: "dead_keys [] (scan_prefix s (q_message_prefix q)) = Inr ks"
    using p Inr by (auto simp: purge_dead_def split: sum.splits)
  have "k \<notin> set ks"
    using dead_keys_spec [OF ks] foreignD(4) [OF f] by (auto simp: in_scan_prefix_iff [OF wf])
  moreover have "s' = s \<or> run_tx D True QStore (act_bind (act_for (\<lambda>k. act_map_err QStore (tx_delete_internal D k)) ks)
        (\<lambda>_. act_return (of_nat (length ks)))) s = (Inr n, s')"
    using p ks Inr by (auto simp: purge_dead_def split: if_splits)
  ultimately show ?thesis using delete_all_view foreignD(1) [OF f] by metis
qed

lemma queue_op_frame:
  assumes "queue_op D q s s'" and "foreign q k" and "store_wf s"
  shows "store_get s' k = store_get s k"
  using assms
proof (cases rule: queue_op.cases)
  case (op_nack i g available ru)
  from rewrite_frame [OF op_nack [unfolded queue_nack_def] assms(2)] show ?thesis .
next
  case (op_dead_letter i g ru)
  from rewrite_frame [OF op_dead_letter [unfolded dead_letter_def] assms(2)] show ?thesis .
qed (use assms(2,3) in \<open>auto dest: push_frame claim_frame ack_frame purge_dead_frame\<close>)

theorem queues_isolated:
  assumes a: "queue_new na = Inr qa" and b: "queue_new nb = Inr qb" and ne: "na \<noteq> nb"
    and inv: "queue_inv qa s" and ops: "(queue_op D qa)\<^sup>*\<^sup>* s s'"
  shows "msgs qb s' = msgs qb s \<and> queue_next_id qb s' = queue_next_id qb s"
  using ops
proof (induction rule: rtranclp_induct)
  case (step y z)
  have okb: "queue_ok qb" using b by (auto simp: queue_ok_def)
  have wf: "store_wf y" using queue_ops_evolve [OF step(1) inv] queue_inv_wf by blast
  note O = other_queue_keys [OF a b ne] other_queue_keys [OF b a ne [symmetric]]
  have "foreign qa (q_meta_key qb)" using O queue_space queue_keys(2) [OF okb] by (auto simp: foreign_def)
  moreover have "foreign qa (message_key qb i)" for i using O queue_space queue_keys(1) [OF okb] by (auto simp: foreign_def)
  ultimately have "msgs qb z = msgs qb y \<and> queue_next_id qb z = queue_next_id qb y"
    using queue_op_frame [OF step(2) _ wf] by (simp add: msgs_def load_message_def queue_next_id_def fun_eq_iff)
  then show ?case using step(3) by simp
qed simp

section \<open>Queues survive\<close>

lemma logging_push: "logging D (push_body D q i n m)"
  by (intro logging_intros)

lemma logging_delete_all:
  "logging D (act_bind (act_for (\<lambda>k. act_map_err f (tx_delete_internal D k)) ks) (\<lambda>_. act_return r))"
  by (intro logging_intros)

lemma rewrite_recoverable:
  assumes "act_bind (leased_message q i g) (\<lambda>m. act_bind (act_lift (encode_message (h m))) (\<lambda>bs.
      act_map_err QStore (store_put_internal D (message_key q i) bs))) s = (r, s')" and "recoverable D s"
  shows "recoverable D s'"
  using assms
  by (cases r) (auto simp: act_bind_Inr_iff act_bind_Inl_iff act_map_err_iff simp del: act_bind_lift
      dest!: leased_message_state intro: recoverable_put_internal)

lemma queue_op_recoverable:
  assumes "queue_op D q s s'" and "recoverable D s"
  shows "recoverable D s'"
  using assms(1)
proof (cases rule: queue_op.cases)
  case (op_push payload opts r)
  then show ?thesis
    by (cases rule: push_cases) (use assms(2) in \<open>auto intro: recoverable_run [OF logging_push]\<close>)
next
  case (op_claim now d rc)
  then show ?thesis
    by (cases rule: queue_claim_cases)
      (use assms(2) in \<open>auto split: sum.splits intro: recoverable_put_internal\<close>)
next
  case (op_ack i g ru)
  then show ?thesis using assms(2)
    by (cases ru) (auto simp: queue_ack_def act_bind_Inr_iff act_bind_Inl_iff act_map_err_iff
        dest!: leased_message_state intro: recoverable_delete_internal)
next
  case (op_nack i g available ru)
  from rewrite_recoverable [OF op_nack [unfolded queue_nack_def] assms(2)] show ?thesis .
next
  case (op_dead_letter i g ru)
  from rewrite_recoverable [OF op_dead_letter [unfolded dead_letter_def] assms(2)] show ?thesis .
next
  case (op_purge_dead r)
  then show ?thesis using assms(2) recoverable_run [OF logging_delete_all]
    by (auto simp: purge_dead_def split: sum.splits if_splits)
qed

lemma queue_ops_recoverable: "(queue_op D q)\<^sup>*\<^sup>* s s' \<Longrightarrow> recoverable D s \<Longrightarrow> recoverable D s'"
  by (induction rule: rtranclp_induct) (auto intro: queue_op_recoverable)

lemma msgs_state: "st_state s' = st_state s \<Longrightarrow> msgs q s' = msgs q s"
  by (simp add: msgs_def load_message_def store_get_def fun_eq_iff)

end
