(* ===== verification/Queue_Progress.thy ===== *)
theory Queue_Progress
  imports Queue Client
begin

text \<open>
  When queue operations succeed: with a healthy store a push always returns a fresh identifier,
  a claim always returns a message as long as one is eligible, and the holder of a lease can
  acknowledge it.
\<close>

definition small_queue :: "queue \<Rightarrow> store \<Rightarrow> bool" where
  "small_queue q s \<longleftrightarrow> length (q_name q) < 2 ^ 29 \<and>
     (\<forall>i m. msgs q s i = Some m \<longrightarrow> length (sm_payload m) < 2 ^ 29 \<and> unat (sm_attempts m) < 2 ^ 32 - 1)"

lemma message_key_length:
  assumes "queue_ok q"
  shows "length (message_key q i) = length (q_name q) + 22" and "length (q_meta_key q) = length (q_name q) + 16"
proof -
  from assms obtain name where q: "queue_new name = Inr q" by (auto simp: queue_ok_def)
  show "length (message_key q i) = length (q_name q) + 22" "length (q_meta_key q) = length (q_name q) + 16"
    using queue_new_Inr [OF q] by (simp_all add: message_key_def queue_namespace_def QUEUE_PREFIX_def ascii_def)
qed

lemma encode_message_ok:
  "length (sm_payload m) < 2 ^ 29 \<Longrightarrow> \<exists>bs. encode_message m = Inr bs \<and> length bs = 38 + length (sm_payload m)"
  by (simp add: encode_message_def u32_try_from_len_def)

lemma push_ok:
  assumes inv: "queue_inv q s" and sha: "sha_ok D" and h: "healthy (6 + n) s" and i: "queue_next_id q s = Inr i" "i \<noteq> - 1"
    and l: "length (q_name q) < 2 ^ 29" "length payload < 2 ^ 29"
  shows "\<exists>s'. push_with_options D q payload opts s = (Inr i, s') \<and> healthy n s'"
proof -
  have ok: "queue_ok q" using inv by (simp add: queue_inv_def)
  let ?m = "pushed_message i payload opts"
  obtain bs where bs: "encode_message ?m = Inr bs" "length bs = 38 + length payload"
    using encode_message_ok [of ?m] l by (auto simp: pushed_message_def)
  have "can (1 + (0 + (1 + 0))) (push_body D q i (i + 1) ?m) (fresh_tx True s) i"
    by (rule can_bind [OF can_map_err [OF can_put] can_bind [OF can_pure(2) [OF bs(1)] can_bind [OF can_map_err [OF can_put] can_pure(1)]]])
      (use bs l message_key_length [OF ok] in simp_all)
  from run_can [OF sha this, of n QStore] h obtain s' where
    s': "run_tx D True QStore (push_body D q i (i + 1) ?m) s = (Inr i, s')" "healthy n s'" by auto
  then show ?thesis using i by (auto simp: push_with_options_def checked_add_one_u64 pushed_message_def Let_def)
qed

lemma claim_scan_total:
  "\<forall>(k, v) \<in> set es. \<exists>m. decode_message v = Inr m \<Longrightarrow> \<exists>r. claim_scan now c es = Inr r"
  by (induction es arbitrary: c) fastforce+

lemma claim_ok:
  assumes inv: "queue_inv q s" and sha: "sha_ok D" and h: "healthy (n + 4) s" and sm: "small_queue q s"
    and m: "msgs q s i = Some m" "eligible now m" and t: "unat d < 2 ^ 63" "sint now + int (unat d) < 2 ^ 63"
  shows "\<exists>qm s'. queue_claim D q now d s = (Inr (Some qm), s') \<and> healthy n s'"
proof -
  have ok: "queue_ok q" and wf: "store_wf s" using inv by (auto simp: queue_inv_def)
  have "\<forall>(k, v) \<in> set (scan_prefix s (q_message_prefix q)). \<exists>m. decode_message v = Inr m"
    using inv unfolding queue_inv_def in_scan_prefix_iff [OF wf] by (auto simp: in_scan_prefix_iff [OF wf]) blast
  then obtain r where r: "claim_scan now None (scan_prefix s (q_message_prefix q)) = Inr r" using claim_scan_total by blast
  have B: "best_of (claimable now (scan_prefix s (q_message_prefix q))) r" using claim_scan_spec [OF r] by simp
  have "(message_key q i, m) \<in> claimable now (scan_prefix s (q_message_prefix q))"
    using in_claimable_iff [OF inv] m queue_inv_msgs(4) [OF inv m(1)] by simp
  then obtain k c where c: "r = Some (k, c)" "(k, c) \<in> claimable now (scan_prefix s (q_message_prefix q))"
    using B by (cases r) (auto simp: best_of_def)
  then have kc: "k = message_key q (sm_id c)" "msgs q s (sm_id c) = Some c" using in_claimable_iff [OF inv] by auto
  have sc: "length (sm_payload c) < 2 ^ 29" "unat (sm_attempts c) < 2 ^ 32 - 1" "length (q_name q) < 2 ^ 29" using sm kc(2) by (auto simp: small_queue_def)
  have s63: "sint d = int (unat d)" using sint_small [OF t(1)] by simp
  have "- (2 ^ 63) \<le> sint now" using sint_greater_eq [of now] by simp
  then have "- (2 ^ 63) \<le> sint now + int (unat d)" by (rule order.trans) (simp only: le_add_same_cancel1 of_nat_0_le_iff)
  then have l: "checked_add_signed now d = Some (now + d)" using t(2) s63 by (simp add: checked_add_signed_def Let_def)
  have a: "checked_add (sm_attempts c) 1 = Some (sm_attempts c + 1)" using sc(2) by (simp add: checked_add_def)
  let ?m = "leased_until (now + d) c"
  obtain bs where bs: "encode_message ?m = Inr bs" "length bs = 38 + length (sm_payload c)" using encode_message_ok [of ?m] sc(1) by auto
  obtain s1 where s1: "store_put_internal D k bs s = (Inr (), s1)" "healthy n s1"
    using store_put_internal_ok [OF sha h, of k bs] message_key_length(1) [OF ok] kc(1) bs(2) sc by auto
  have "healthy n (record_queue_claim s1)" using s1(2) by (simp add: healthy_def record_queue_claim_def)
  then show ?thesis using r c(1) l a bs(1) s1(1) t(1)
    by (auto simp: queue_claim_def i64_try_from_u64_def act_bind_def act_map_err_def Let_def leased_until_def)
qed

lemma ack_ok:
  assumes inv: "queue_inv q s" and sha: "sha_ok D" and h: "healthy (n + 4) s" and l: "length (q_name q) < 2 ^ 29"
    and m: "holds_lease q s i g m"
  shows "\<exists>s'. queue_ack D q i g s = (Inr (), s') \<and> healthy n s'"
proof -
  have ok: "queue_ok q" using inv by (simp add: queue_inv_def)
  obtain s1 where s1: "store_delete_internal D (message_key q i) s = (Inr (), s1)" "healthy n s1"
    using store_delete_internal_ok [OF sha h, of "message_key q i"] message_key_length(1) [OF ok, of i] l by auto
  have "healthy n (record_queue_ack s1)" using s1(2) by (simp add: healthy_def record_queue_ack_def)
  moreover have "leased_message q i g s = (Inr m, s)" using m leased_message_iff(1) [OF inv] by blast
  ultimately show ?thesis using s1(1) by (auto simp: queue_ack_def act_bind_def act_map_err_def)
qed

end
