(* ===== verification/Messaging.thy ===== *)
theory Messaging
  imports Queue_Progress
begin

text \<open>
  Streams, topics and subscription cursors (\<open>crates/voodoo-store-core/src/messaging.rs\<close>). A stream
  refines a list of payloads: \<open>append\<close> adds at the end and returns the index, \<open>read_from\<close> is a
  bounded slice. A topic adds one durable cursor per subscription.
\<close>

section \<open>Model\<close>

definition STREAM_PREFIX :: bytes where
  "STREAM_PREFIX = 0xff # ascii ''vds:stream:''"

definition SUB_PREFIX :: bytes where
  "SUB_PREFIX = 0xff # ascii ''vds:sub:''"

definition ENTRY_VERSION :: u8 where
  "ENTRY_VERSION = 1"

record stream_entry =
  se_offset :: u64
  se_payload :: bytes

record subscription_state =
  su_next_offset :: u64

datatype messaging_error =
    MsStore engine_error
  | MsEmptyName
  | MsNameTooLong
  | MsPayloadTooLarge
  | MsOffsetExhausted
  | MsCorruptMetadata
  | MsCorruptEntry
  | MsCursorRegression u64 u64

record stream =
  sn_name :: bytes
  sn_next_key :: bytes
  sn_entry_prefix :: bytes

definition validate_name :: "bytes \<Rightarrow> messaging_error + unit" where
  "validate_name name = (if name = [] then Inl MsEmptyName else Inr ())"

fun tuple_key :: "bytes \<Rightarrow> bytes list \<Rightarrow> messaging_error + bytes" where
  "tuple_key key [] = Inr key"
| "tuple_key key (c # cs) =
     res_bind (ok_or MsNameTooLong (u32_try_from_len (length c))) (\<lambda>len. tuple_key (key @ to_be len @ c) cs)"

definition stream_new :: "bytes \<Rightarrow> messaging_error + stream" where
  "stream_new name =
     res_bind (validate_name name) (\<lambda>_.
     res_bind (tuple_key STREAM_PREFIX [name]) (\<lambda>namespace.
       Inr \<lparr>sn_name = name, sn_next_key = namespace @ ascii '':next'', sn_entry_prefix = namespace @ ascii '':e:''\<rparr>))"

definition subscription_key :: "bytes \<Rightarrow> bytes \<Rightarrow> messaging_error + bytes" where
  "subscription_key topic subscription =
     res_bind (validate_name subscription) (\<lambda>_. tuple_key SUB_PREFIX [topic, subscription])"

definition encode_entry :: "bytes \<Rightarrow> messaging_error + bytes" where
  "encode_entry payload =
     (case u32_try_from_len (length payload) of
        None \<Rightarrow> Inl MsPayloadTooLarge
      | Some len \<Rightarrow> Inr ([ENTRY_VERSION] @ to_le len @ payload))"

definition decode_entry :: "bytes \<Rightarrow> messaging_error + bytes" where
  "decode_entry bs =
     (if length bs < 5 \<or> bs ! 0 \<noteq> ENTRY_VERSION then Inl MsCorruptEntry
      else let len = unat (from_le (slice 1 5 bs) :: u32)
           in if length bs \<noteq> 5 + len then Inl MsCorruptEntry else Inr (drop 5 bs))"

definition decode_entry_offset :: "bytes \<Rightarrow> bytes \<Rightarrow> messaging_error + u64" where
  "decode_entry_offset pre key =
     (if \<not> prefix pre key \<or> length key \<noteq> length pre + 8 then Inl MsCorruptMetadata
      else Inr (from_be (drop (length pre) key)))"

definition stream_next_offset :: "stream \<Rightarrow> store \<Rightarrow> messaging_error + u64" where
  "stream_next_offset q s =
     (case store_get s (sn_next_key q) of
        None \<Rightarrow> Inr 0
      | Some v \<Rightarrow> if length v \<noteq> 8 then Inl MsCorruptMetadata else Inr (from_le v))"

definition entry_key :: "stream \<Rightarrow> u64 \<Rightarrow> bytes" where
  "entry_key q offset = sn_entry_prefix q @ to_be offset"

definition stream_append :: "deps \<Rightarrow> stream \<Rightarrow> bytes \<Rightarrow> (store, messaging_error, u64) act" where
  "stream_append D q payload s =
     (case res_bind (stream_next_offset q s) (\<lambda>offset.
           res_bind (ok_or MsOffsetExhausted (checked_add offset 1)) (\<lambda>next.
           res_bind (encode_entry payload) (\<lambda>value. Inr (offset, next, value)))) of
        Inl e \<Rightarrow> (Inl e, s)
      | Inr (offset, next, value) \<Rightarrow>
          run_tx D True MsStore
            (act_map_err MsStore
              (act_bind (tx_put_internal D (sn_next_key q) (to_le next)) (\<lambda>_.
               act_bind (tx_put_internal D (entry_key q offset) value) (\<lambda>_. act_return offset)))) s)"

fun read_loop :: "bytes \<Rightarrow> u64 \<Rightarrow> usize \<Rightarrow> stream_entry list \<Rightarrow> kv \<Rightarrow> messaging_error + stream_entry list" where
  "read_loop pre offset limit entries [] = Inr entries"
| "read_loop pre offset limit entries ((k, v) # rest) =
     res_bind (decode_entry_offset pre k) (\<lambda>o'.
       if o' < offset then read_loop pre offset limit entries rest
       else res_bind (decode_entry v) (\<lambda>payload.
              let entries' = entries @ [\<lparr>se_offset = o', se_payload = payload\<rparr>]
              in if length entries' = limit then Inr entries'
                 else read_loop pre offset limit entries' rest))"

definition read_from :: "stream \<Rightarrow> u64 \<Rightarrow> usize \<Rightarrow> store \<Rightarrow> messaging_error + stream_entry list" where
  "read_from q offset limit s =
     (if limit = 0 then Inr []
      else res_bind (read_loop (sn_entry_prefix q) offset limit [] (scan_prefix s (sn_entry_prefix q))) (\<lambda>es.
             Inr (sort_key se_offset es)))"

definition tail_offset :: "stream \<Rightarrow> store \<Rightarrow> messaging_error + u64 option" where
  "tail_offset q s = res_bind (stream_next_offset q s) (\<lambda>n. Inr (if n = 0 then None else Some (n - 1)))"

text \<open>A topic is its stream; publishing and reading are the stream's.\<close>

definition publish :: "deps \<Rightarrow> stream \<Rightarrow> bytes \<Rightarrow> (store, messaging_error, u64) act" where
  "publish D q payload = stream_append D q payload"

definition subscription_state_of :: "stream \<Rightarrow> bytes \<Rightarrow> store \<Rightarrow> messaging_error + subscription_state" where
  "subscription_state_of q sub s =
     res_bind (subscription_key (sn_name q) sub) (\<lambda>key.
       case store_get s key of
         None \<Rightarrow> Inr \<lparr>su_next_offset = 0\<rparr>
       | Some v \<Rightarrow> if length v \<noteq> 8 then Inl MsCorruptMetadata else Inr \<lparr>su_next_offset = from_le v\<rparr>)"

definition poll :: "stream \<Rightarrow> bytes \<Rightarrow> usize \<Rightarrow> store \<Rightarrow> messaging_error + stream_entry list" where
  "poll q sub limit s =
     res_bind (subscription_state_of q sub s) (\<lambda>st. read_from q (su_next_offset st) limit s)"

definition acknowledge_through :: "deps \<Rightarrow> stream \<Rightarrow> bytes \<Rightarrow> u64 \<Rightarrow> (store, messaging_error, subscription_state) act" where
  "acknowledge_through D q sub offset =
     act_bind (act_lift (validate_name sub)) (\<lambda>_.
     act_bind (\<lambda>s. (subscription_state_of q sub s, s)) (\<lambda>current.
     act_bind (act_lift (ok_or MsOffsetExhausted (checked_add offset 1))) (\<lambda>next_offset.
     if next_offset < su_next_offset current
     then act_lift (Inl (MsCursorRegression (su_next_offset current) next_offset))
     else act_bind (act_lift (subscription_key (sn_name q) sub)) (\<lambda>key.
          act_bind (act_map_err MsStore (store_put_internal D key (to_le next_offset))) (\<lambda>_.
          act_return \<lparr>su_next_offset = next_offset\<rparr>)))))"

definition reset_subscription :: "deps \<Rightarrow> stream \<Rightarrow> bytes \<Rightarrow> u64 \<Rightarrow> (store, messaging_error, unit) act" where
  "reset_subscription D q sub next_offset =
     act_bind (act_lift (validate_name sub)) (\<lambda>_.
     act_bind (act_lift (subscription_key (sn_name q) sub)) (\<lambda>key.
       act_map_err MsStore (store_put_internal D key (to_le next_offset))))"

section \<open>Formats and keys\<close>

definition entry_bytes :: "bytes \<Rightarrow> bytes" where
  "entry_bytes payload = [ENTRY_VERSION] @ to_le (of_nat (length payload) :: u32) @ payload"

lemma encode_entry_Inr: "encode_entry payload = Inr bs \<longleftrightarrow> length payload < 2 ^ 32 \<and> bs = entry_bytes payload"
  by (auto simp: encode_entry_def entry_bytes_def u32_try_from_len_def)

lemma decode_entry_bytes [simp]: "length payload < 2 ^ 32 \<Longrightarrow> decode_entry (entry_bytes payload) = Inr payload"
  by (simp add: decode_entry_def entry_bytes_def slice_def unat_of_nat)

interpretation entry_codec: codec encode_entry decode_entry "\<lambda>_. True"
  by unfold_locales (simp add: encode_entry_Inr)

definition stream_ok :: "stream \<Rightarrow> bool" where
  "stream_ok q \<longleftrightarrow> (\<exists>name. stream_new name = Inr q)"

lemma stream_new_Inr:
  assumes "stream_new name = Inr q"
  shows "sn_name q = name" "name \<noteq> []" "length name < 2 ^ 32"
    "sn_next_key q = STREAM_PREFIX @ to_be (of_nat (length name) :: u32) @ name @ ascii '':next''"
    "sn_entry_prefix q = STREAM_PREFIX @ to_be (of_nat (length name) :: u32) @ name @ ascii '':e:''"
  using assms by (auto simp: stream_new_def validate_name_def res_bind_Inr_iff ok_or_Inr_iff u32_try_from_len_def split: if_splits)

lemma entry_key_simps [simp]:
  "prefix (sn_entry_prefix q) (entry_key q i)" "entry_key q i = entry_key q j \<longleftrightarrow> i = j" "entry_key q i < entry_key q j \<longleftrightarrow> i < j"
  "decode_entry_offset (sn_entry_prefix q) (entry_key q i) = Inr i"
  by (simp_all add: entry_key_def decode_entry_offset_def to_be_less_iff)

lemma stream_space: "prefix STREAM_PREFIX k \<Longrightarrow> not_cdc k"
  by (rule other_space [of STREAM_PREFIX]) (simp_all add: STREAM_PREFIX_def CDC_PREFIX_def ascii_def)

lemma stream_keys:
  assumes "stream_ok q"
  shows "prefix STREAM_PREFIX (sn_next_key q)" "prefix (sn_entry_prefix q) k \<Longrightarrow> prefix STREAM_PREFIX k"
    "\<not> prefix (sn_entry_prefix q) (sn_next_key q)" "sn_next_key q \<noteq> entry_key q i"
proof -
  from assms obtain name where q: "stream_new name = Inr q" by (auto simp: stream_ok_def)
  note S = stream_new_Inr [OF q]
  show "prefix STREAM_PREFIX (sn_next_key q)" using S(4) by simp
  show "prefix STREAM_PREFIX k" if "prefix (sn_entry_prefix q) k" using that S(5) by (auto simp: prefix_def)
  show n: "\<not> prefix (sn_entry_prefix q) (sn_next_key q)" using S(4,5) by (simp add: ascii_def)
  then show "sn_next_key q \<noteq> entry_key q i" using entry_key_simps(1) by metis
qed

section \<open>The stream as a list\<close>

text \<open>\<open>stream_holds q s xs\<close>: the stream's keys hold exactly the payloads \<open>xs\<close>, in order.\<close>

definition stream_holds :: "stream \<Rightarrow> store \<Rightarrow> bytes list \<Rightarrow> bool" where
  "stream_holds q s xs \<longleftrightarrow> stream_ok q \<and> store_wf s \<and> length xs < 2 ^ 64 \<and> (\<forall>x \<in> set xs. length x < 2 ^ 32) \<and>
     stream_next_offset q s = Inr (of_nat (length xs)) \<and>
     (\<forall>k v. prefix (sn_entry_prefix q) k \<longrightarrow>
        (store_get s k = Some v \<longleftrightarrow> (\<exists>i < length xs. k = entry_key q (of_nat i) \<and> v = entry_bytes (xs ! i))))"

definition entries_from :: "nat \<Rightarrow> bytes list \<Rightarrow> stream_entry list" where
  "entries_from n xs = map (\<lambda>(i, x). \<lparr>se_offset = of_nat i, se_payload = x\<rparr>) (enumerate n xs)"

lemma of_nat_u64_less: "i < 2 ^ 64 \<Longrightarrow> j < 2 ^ 64 \<Longrightarrow> (of_nat i :: u64) < of_nat j \<longleftrightarrow> i < j"
  by (simp add: word_less_nat_alt unat_of_nat_u64)

lemma of_nat_u64_eq: "i < 2 ^ 64 \<Longrightarrow> j < 2 ^ 64 \<Longrightarrow> (of_nat i :: u64) = of_nat j \<longleftrightarrow> i = j"
  by (metis unat_of_nat_u64)

lemma stream_scan:
  assumes "stream_holds q s xs"
  shows "scan_prefix s (sn_entry_prefix q) = map (\<lambda>(i, x). (entry_key q (of_nat i), entry_bytes x)) (enumerate 0 xs)"
    (is "_ = ?es")
  unfolding scan_prefix_def
proof (rule scan_map_unique)
  show "wf_map (st_state s)" using assms by (simp add: stream_holds_def store_wf_def)
  have len: "length xs < 2 ^ 64" using assms by (simp add: stream_holds_def)
  have es: "?es = map (\<lambda>i. (entry_key q (of_nat i), entry_bytes (xs ! i))) [0..<length xs]"
    by (rule nth_equalityI) (simp_all add: nth_enumerate_eq)
  then have f: "map fst ?es = map (\<lambda>i. entry_key q (of_nat i)) [0..<length xs]" by simp
  have lt: "entry_key q (of_nat i) < entry_key q (of_nat j)" if "i < j" "j < length xs" for i j
    using that len by (simp add: of_nat_u64_less)
  have "sorted_wrt (<) (map fst ?es)"
    unfolding f sorted_wrt_map by (rule sorted_wrt_mono_rel [OF _ sorted_wrt_upt]) (use lt in auto)
  then show "sorted (map fst ?es)" "distinct (map fst ?es)" by (simp_all add: strict_sorted_iff)
  fix k v
  have "(k, v) \<in> set ?es \<longleftrightarrow> (\<exists>i < length xs. k = entry_key q (of_nat i) \<and> v = entry_bytes (xs ! i))"
    unfolding es by auto
  also have "\<dots> \<longleftrightarrow> prefix (sn_entry_prefix q) k \<and> store_get s k = Some v"
    using assms unfolding stream_holds_def by (metis entry_key_simps(1))
  finally show "(k, v) \<in> set ?es \<longleftrightarrow> prefix (sn_entry_prefix q) k \<and> map_of (st_state s) k = Some v"
    by (simp only: store_get_def)
qed

lemma read_loop_enumerate:
  assumes "\<forall>x \<in> set xs. length x < 2 ^ 32" and "n + length xs < 2 ^ 64" and "length es < limit"
  shows "read_loop (sn_entry_prefix q) offset limit es (map (\<lambda>(i, x). (entry_key q (of_nat i), entry_bytes x)) (enumerate n xs)) =
    Inr (es @ take (limit - length es) (entries_from (max n (unat offset)) (drop (unat offset - n) xs)))"
  using assms
proof (induction xs arbitrary: n es)
  case Nil
  then show ?case by (simp add: entries_from_def)
next
  case (Cons x xs)
  have o: "(of_nat n :: u64) < offset \<longleftrightarrow> n < unat offset"
    using Cons.prems(2) by (simp add: word_less_nat_alt unat_of_nat_u64)
  let ?e = "\<lparr>se_offset = of_nat n, se_payload = x\<rparr>"
  show ?case
  proof (cases "n < unat offset")
    case True
    then have "drop (unat offset - n) (x # xs) = drop (unat offset - Suc n) xs" by (simp add: Suc_diff_Suc [symmetric])
    then show ?thesis using Cons True o by (simp add: max_def)
  next
    case False
    then have e: "entries_from (max n (unat offset)) (drop (unat offset - n) (x # xs)) = ?e # entries_from (Suc n) xs"
      by (simp add: entries_from_def max_def)
    show ?thesis
    proof (cases "Suc (length es) = limit")
      case True
      then have "limit - length es = 1" by simp
      then show ?thesis using Cons.prems False o True e by simp
    next
      case ne: False
      then have "limit - length es = Suc (limit - Suc (length es))" using Cons.prems(3) by simp
      then show ?thesis using Cons.IH [of "Suc n" "es @ [?e]"] Cons.prems False o ne e by (simp add: max_def)
    qed
  qed
qed

lemma sorted_entries_from:
  assumes "n + length xs \<le> 2 ^ 64"
  shows "sorted (map se_offset (entries_from n xs))"
  using assms
proof (induction xs arbitrary: n)
  case (Cons x xs)
  have "(of_nat n :: u64) \<le> of_nat i" if "i \<in> {Suc n..<Suc n + length xs}" for i
    using that Cons.prems by (simp add: word_le_nat_alt unat_of_nat_u64)
  then show ?case using Cons by (auto simp: entries_from_def in_set_enumerate_eq)
qed (simp add: entries_from_def)

text \<open>Reading is slicing: the entries from the offset on, in order, at most as many as asked for.\<close>

theorem read_from_eq:
  assumes "stream_holds q s xs"
  shows "read_from q offset limit s = Inr (take limit (entries_from (unat offset) (drop (unat offset) xs)))"
proof (cases "limit = 0")
  case False
  have X: "\<forall>x \<in> set xs. length x < 2 ^ 32" "length xs < 2 ^ 64" using assms by (simp_all add: stream_holds_def)
  let ?r = "take limit (entries_from (unat offset) (drop (unat offset) xs))"
  have "read_loop (sn_entry_prefix q) offset limit [] (scan_prefix s (sn_entry_prefix q)) = Inr ?r"
    using read_loop_enumerate [OF X(1), of 0 "[]" limit q offset] X(2) False stream_scan [OF assms] by simp
  moreover have "sorted (map se_offset ?r)"
  proof -
    have "unat offset < 2 ^ 64" using unsigned_less [of offset] by simp
    then have "unat offset + length (drop (unat offset) xs) \<le> 2 ^ 64" using X(2) by simp
    then show ?thesis using sorted_entries_from by (simp add: sorted_wrt_take take_map [symmetric])
  qed
  ultimately show ?thesis using False by (simp add: read_from_def sort_key_id_if_sorted)
qed (simp add: read_from_def)

section \<open>Appending\<close>

abbreviation (input) append_body where
  "append_body D q offset next value \<equiv>
     act_map_err MsStore
       (act_bind (tx_put_internal D (sn_next_key q) (to_le next)) (\<lambda>_.
        act_bind (tx_put_internal D (entry_key q offset) value) (\<lambda>_. act_return offset)))"

lemma staging_append: "staging (append_body D q offset next value)"
  by (intro staging_intros)

lemma append_cases:
  assumes "stream_append D q payload s = (r, s')"
  obtains (early) e where "r = Inl e" "s' = s"
  | (tx) i where "stream_next_offset q s = Inr i" "i \<noteq> - 1" "length payload < 2 ^ 32"
      "run_tx D True MsStore (append_body D q i (i + 1) (entry_bytes payload)) s = (r, s')"
  using assms
  by (auto simp: stream_append_def res_bind_def ok_or_def checked_add_one_u64 encode_entry_Inr
      split: sum.splits option.splits if_splits)

lemma append_view:
  assumes "stream_append D q payload s = (Inr i, s')"
  shows "stream_next_offset q s = Inr i" "i \<noteq> - 1" "length payload < 2 ^ 32" "store_wf s \<Longrightarrow> store_wf s'"
    "not_cdc k \<Longrightarrow> store_get s' k = (if k = entry_key q i then Some (entry_bytes payload)
       else if k = sn_next_key q then Some (to_le (i + 1)) else store_get s k)"
proof -
  from assms obtain j where j: "stream_next_offset q s = Inr j" "j \<noteq> - 1" "length payload < 2 ^ 32"
      and run: "run_tx D True MsStore (append_body D q j (j + 1) (entry_bytes payload)) s = (Inr i, s')"
    by (cases rule: append_cases) auto
  obtain t where t: "append_body D q j (j + 1) (entry_bytes payload) (fresh_tx True s) = (Inr i, t)"
      "\<And>k. not_cdc k \<Longrightarrow> store_get s' k = tx_get_internal t k"
    using run by (rule run_tx_view [OF staging_append]) blast
  then obtain t1 where i: "j = i" and t1: "tx_put_internal D (sn_next_key q) (to_le (i + 1)) (fresh_tx True s) = (Inr (), t1)"
      "tx_put_internal D (entry_key q i) (entry_bytes payload) t1 = (Inr (), t)"
    by (auto simp: act_bind_Inr_iff act_map_err_iff)
  show "stream_next_offset q s = Inr i" "i \<noteq> - 1" "length payload < 2 ^ 32" using j i by simp_all
  show "store_wf s \<Longrightarrow> store_wf s'" using run_tx_wf [OF staging_append _ run] .
  show "not_cdc k \<Longrightarrow> store_get s' k = (if k = entry_key q i then Some (entry_bytes payload)
       else if k = sn_next_key q then Some (to_le (i + 1)) else store_get s k)"
    using t(2) tx_kv.put_get [OF t1(1)] tx_kv.put_get [OF t1(2)] by simp
qed

lemma append_fail:
  assumes "stream_append D q payload s = (Inl e, s')"
  shows "store_get s' k = store_get s k" and "store_wf s \<Longrightarrow> store_wf s'"
  using assms
  by (cases rule: append_cases; auto dest: run_tx_fail_get [OF staging_append] run_tx_wf [OF staging_append, rotated])+

theorem append_holds:
  assumes h: "stream_holds q s xs" and a: "stream_append D q payload s = (Inr i, s')"
  shows "i = of_nat (length xs)" and "stream_holds q s' (xs @ [payload])"
proof -
  note V = append_view [OF a]
  have ok: "stream_ok q" and wf: "store_wf s" and l: "length xs < 2 ^ 64" and n: "stream_next_offset q s = Inr (of_nat (length xs))"
    and x: "\<forall>x \<in> set xs. length x < 2 ^ 32" using h by (simp_all add: stream_holds_def)
  note K = stream_keys [OF ok]
  show i: "i = of_nat (length xs)" using V(1) n by simp
  have "length xs \<noteq> 2 ^ 64 - 1" using V(2) i by auto
  then have l': "length xs + 1 < 2 ^ 64" using l by simp
  have nx: "stream_next_offset q s' = Inr (of_nat (length (xs @ [payload])))"
    using V(5) [OF stream_space [OF K(1)]] K(4) i by (simp add: stream_next_offset_def)
  have "store_get s' k = Some v \<longleftrightarrow> (\<exists>j < length (xs @ [payload]). k = entry_key q (of_nat j) \<and> v = entry_bytes ((xs @ [payload]) ! j))"
    if k: "prefix (sn_entry_prefix q) k" for k v
  proof -
    have g: "store_get s' k = (if k = entry_key q i then Some (entry_bytes payload) else store_get s k)"
      using V(5) [OF stream_space [OF K(2) [OF k]]] k K(3) by auto
    have o: "store_get s k = Some v \<longleftrightarrow> (\<exists>j < length xs. k = entry_key q (of_nat j) \<and> v = entry_bytes (xs ! j))"
      using h k by (simp add: stream_holds_def)
    have ne: "(of_nat j :: u64) \<noteq> i" if "j < length xs" for j using that l i of_nat_u64_eq [of j "length xs"] by auto
    show ?thesis
    proof (cases "k = entry_key q i")
      case True
      then have "\<not> (\<exists>j < length xs. k = entry_key q (of_nat j) \<and> v = entry_bytes (xs ! j))" using ne by auto
      then show ?thesis using g i True by (auto simp: nth_append less_Suc_eq)
    next
      case False
      then show ?thesis using g o i by (auto simp: nth_append less_Suc_eq)
    qed
  qed
  then show "stream_holds q s' (xs @ [payload])" using ok V(3,4) wf l' nx x by (simp add: stream_holds_def)
qed

lemma stream_holds_cong:
  assumes "stream_holds q s xs" and "store_wf s'" and "\<And>k. prefix STREAM_PREFIX k \<Longrightarrow> store_get s' k = store_get s k"
  shows "stream_holds q s' xs"
proof -
  have "stream_ok q" using assms(1) by (simp add: stream_holds_def)
  note K = stream_keys [OF this]
  have "stream_next_offset q s' = stream_next_offset q s" using assms(3) [OF K(1)] by (simp add: stream_next_offset_def)
  then show ?thesis using assms(1,2) assms(3) [OF K(2)] by (simp add: stream_holds_def)
qed

lemma stream_holds_empty:
  assumes "stream_new name = Inr q" and "store_wf s" and "\<And>k. prefix STREAM_PREFIX k \<Longrightarrow> store_get s k = None"
  shows "stream_holds q s []"
proof -
  have ok: "stream_ok q" using assms(1) by (auto simp: stream_ok_def)
  note K = stream_keys [OF ok]
  show ?thesis using ok assms(2) assms(3) [OF K(1)] assms(3) [OF K(2)] by (simp add: stream_holds_def stream_next_offset_def)
qed

lemma tail_offset_eq:
  assumes "stream_holds q s xs"
  shows "tail_offset q s = Inr (if xs = [] then None else Some (of_nat (length xs - 1)))"
proof (cases xs rule: rev_cases)
  case Nil
  then show ?thesis using assms by (simp add: stream_holds_def tail_offset_def)
next
  case (snoc ys y)
  then have "(of_nat (length xs) :: u64) \<noteq> of_nat 0"
    using assms of_nat_u64_eq [of "length xs" 0] by (simp add: stream_holds_def)
  then show ?thesis using assms snoc by (simp add: stream_holds_def tail_offset_def)
qed

section \<open>Subscription cursors\<close>

definition cursor :: "stream \<Rightarrow> bytes \<Rightarrow> store \<Rightarrow> u64" where
  "cursor q sub s = (case subscription_state_of q sub s of Inr st \<Rightarrow> su_next_offset st | Inl e \<Rightarrow> 0)"

lemma tuple_key_two:
  "tuple_key p [a, b] = Inr k \<longleftrightarrow> length a < 2 ^ 32 \<and> length b < 2 ^ 32 \<and>
     k = p @ to_be (of_nat (length a) :: u32) @ a @ to_be (of_nat (length b) :: u32) @ b"
  by (auto simp: res_bind_Inr_iff ok_or_Inr_iff u32_try_from_len_def)

lemma subscription_key_Inr:
  "subscription_key topic sub = Inr k \<longleftrightarrow> sub \<noteq> [] \<and> length topic < 2 ^ 32 \<and> length sub < 2 ^ 32 \<and>
     k = SUB_PREFIX @ to_be (of_nat (length topic) :: u32) @ topic @ to_be (of_nat (length sub) :: u32) @ sub"
  unfolding subscription_key_def validate_name_def by (cases "sub = []") (simp_all del: tuple_key.simps add: tuple_key_two)

lemma subscription_key_simps:
  assumes "subscription_key topic sub = Inr k"
  shows "prefix SUB_PREFIX k" "not_cdc k"
proof -
  show p: "prefix SUB_PREFIX k" using assms by (auto simp: subscription_key_Inr)
  show "not_cdc k" by (rule other_space [OF _ _ p]) (simp_all add: SUB_PREFIX_def CDC_PREFIX_def ascii_def)
qed

lemma subscription_key_inj:
  assumes "subscription_key a x = Inr k" and "subscription_key b y = Inr k"
  shows "a = b" "x = y"
proof -
  have k: "to_be (of_nat (length a) :: u32) @ a @ to_be (of_nat (length x) :: u32) @ x =
      to_be (of_nat (length b) :: u32) @ b @ to_be (of_nat (length y) :: u32) @ y"
    and l: "length a < 2 ^ 32" "length b < 2 ^ 32"
    using assms by (simp_all add: subscription_key_Inr)
  then have "length a = length b" by (simp add: of_nat_u32_inj)
  with k show "a = b" "x = y" by simp_all
qed

text \<open>Acknowledging never moves a cursor backwards, moves no other cursor and no stream.\<close>

lemma acknowledge_Inr:
  assumes "acknowledge_through D q sub offset s = (Inr st, s')"
  obtains key where "subscription_key (sn_name q) sub = Inr key" "offset \<noteq> - 1" "su_next_offset st = offset + 1"
    "cursor q sub s \<le> offset + 1" "store_put_internal D key (to_le (offset + 1)) s = (Inr (), s')"
  using assms
  by (auto simp: acknowledge_through_def act_bind_Inr_iff act_map_err_iff ok_or_Inr_iff checked_add_one_u64 cursor_def
      simp del: act_bind_lift split: if_splits)

theorem acknowledge_moves_cursor:
  assumes a: "acknowledge_through D q sub offset s = (Inr st, s')"
  shows "cursor q sub s \<le> cursor q sub s'" "cursor q sub s' = offset + 1" "offset < offset + 1"
    "sn_name q' \<noteq> sn_name q \<or> sub' \<noteq> sub \<Longrightarrow> cursor q' sub' s' = cursor q' sub' s"
proof -
  obtain key where key: "subscription_key (sn_name q) sub = Inr key" "offset \<noteq> - 1" "cursor q sub s \<le> offset + 1"
      and p: "store_put_internal D key (to_le (offset + 1)) s = (Inr (), s')"
    using a by (rule acknowledge_Inr) blast
  note G = store_kv.put_get [OF p]
  show c: "cursor q sub s' = offset + 1"
    using key(1) G [OF subscription_key_simps(2) [OF key(1)]] by (simp add: cursor_def subscription_state_of_def)
  then show "cursor q sub s \<le> cursor q sub s'" using key(3) by simp
  show "offset < offset + 1" using key(2) by (rule less_add_one_u64)
  assume n: "sn_name q' \<noteq> sn_name q \<or> sub' \<noteq> sub"
  show "cursor q' sub' s' = cursor q' sub' s"
  proof (cases "subscription_key (sn_name q') sub'")
    case (Inr k')
    then have "k' \<noteq> key" using subscription_key_inj key(1) n by blast
    then have "store_get s' k' = store_get s k'" using G [OF subscription_key_simps(2) [OF Inr]] by simp
    then show ?thesis using Inr by (simp add: cursor_def subscription_state_of_def)
  qed (simp add: cursor_def subscription_state_of_def)
qed

lemma sub_keeps_streams:
  assumes "stream_holds q s xs" and "subscription_key t sub = Inr key" and "store_put_internal D key v s = (Inr (), s')"
  shows "stream_holds q s' xs"
proof (rule stream_holds_cong [OF assms(1)])
  have "\<not> prefix STREAM_PREFIX key"
    by (rule other_space [OF _ _ subscription_key_simps(1) [OF assms(2)]]) (simp_all add: SUB_PREFIX_def STREAM_PREFIX_def ascii_def)
  then show "store_get s' k = store_get s k" if "prefix STREAM_PREFIX k" for k
    using store_kv.put_get [OF assms(3) stream_space [OF that]] that by auto
  have "store_wf s" using assms(1) by (simp add: stream_holds_def)
  then show "store_wf s'" using store_put_internal_wf assms(3) by blast
qed

end
