(* ===== verification/Consumer_Group.thy ===== *)
theory Consumer_Group
  imports Messaging
begin

text \<open>
  Consumer groups (\<open>crates/voodoo-store-core/src/consumer_group.rs\<close>): one durable cursor per stream
  and group, moved by acknowledgements of leased entries. The lemmas show in-order delivery without
  gaps and that a superseded lease is void.
\<close>

section \<open>Model\<close>

definition GROUP_PREFIX :: bytes where
  "GROUP_PREFIX = 0xff # ascii ''vds:cg:state:''"

definition GROUP_VERSION :: u8 where
  "GROUP_VERSION = 1"

record group_state =
  cg_next_offset :: u64
  cg_leased_offset :: "u64 option"
  cg_lease_until_ms :: i64
  cg_lease_generation :: u64
  cg_owner :: bytes

definition group_state_default :: group_state where
  "group_state_default = \<lparr>cg_next_offset = 0, cg_leased_offset = None, cg_lease_until_ms = 0, cg_lease_generation = 0, cg_owner = []\<rparr>"

record group_delivery =
  gd_entry :: stream_entry
  gd_lease_generation :: u64
  gd_lease_until_ms :: i64

datatype group_error =
    CgStore engine_error
  | CgMessaging messaging_error
  | CgEmptyName
  | CgCorruptRecord
  | CgLeaseGenerationOverflow
  | CgTimeOverflow
  | CgNotLeased
  | CgOwnerMismatch
  | CgLeaseMismatch u64 u64
  | CgOffsetMismatch u64 u64

definition validate_names :: "bytes \<Rightarrow> bytes \<Rightarrow> bytes \<Rightarrow> group_error + unit" where
  "validate_names str grp consumer = (if str = [] \<or> grp = [] \<or> consumer = [] then Inl CgEmptyName else Inr ())"

definition clear_lease :: "group_state \<Rightarrow> group_state" where
  "clear_lease st = st\<lparr>cg_leased_offset := None, cg_lease_until_ms := 0, cg_owner := []\<rparr>"

definition validate_group_lease :: "group_state \<Rightarrow> bytes \<Rightarrow> u64 \<Rightarrow> u64 \<Rightarrow> group_error + unit" where
  "validate_group_lease st consumer offset generation =
     (case cg_leased_offset st of
        None \<Rightarrow> Inl CgNotLeased
      | Some leased \<Rightarrow>
          if cg_owner st \<noteq> consumer then Inl CgOwnerMismatch
          else if cg_lease_generation st \<noteq> generation then Inl (CgLeaseMismatch (cg_lease_generation st) generation)
          else if leased \<noteq> offset then Inl (CgOffsetMismatch leased offset)
          else Inr ())"

definition group_key :: "bytes \<Rightarrow> bytes \<Rightarrow> group_error + bytes" where
  "group_key str grp =
     res_bind (ok_or CgCorruptRecord (u32_try_from_len (length str))) (\<lambda>stream_len.
     res_bind (ok_or CgCorruptRecord (u32_try_from_len (length grp))) (\<lambda>group_len.
       Inr (GROUP_PREFIX @ to_be stream_len @ str @ to_be group_len @ grp)))"

definition encode_state :: "group_state \<Rightarrow> group_error + bytes" where
  "encode_state st =
     res_bind (ok_or CgCorruptRecord (u32_try_from_len (length (cg_owner st)))) (\<lambda>owner_len.
       Inr ([GROUP_VERSION] @ to_le (cg_next_offset st) @
            (case cg_leased_offset st of Some offset \<Rightarrow> [1] @ to_le offset | None \<Rightarrow> [0]) @
            to_le (cg_lease_until_ms st) @ to_le (cg_lease_generation st) @ to_le owner_len @ cg_owner st))"

definition rd_leased_offset :: "(group_error, u64 option) reader" where
  "rd_leased_offset =
     rd_bind (rd_u8 CgCorruptRecord) (\<lambda>b.
       if b = 0 then rd_return None
       else if b = 1 then rd_bind (rd_u64 CgCorruptRecord) (\<lambda>offset. rd_return (Some offset))
       else rd_fail CgCorruptRecord)"

definition decode_state :: "bytes \<Rightarrow> group_error + group_state" where
  "decode_state bs =
     (if length bs < 30 \<or> bs ! 0 \<noteq> GROUP_VERSION then Inl CgCorruptRecord
      else res_bind
        (rd_bind (rd_u64 CgCorruptRecord) (\<lambda>next_offset.
         rd_bind rd_leased_offset (\<lambda>leased_offset.
         rd_bind (rd_u64 CgCorruptRecord) (\<lambda>lease_until.
         rd_bind (rd_u64 CgCorruptRecord) (\<lambda>generation.
         rd_bind (rd_bytes CgCorruptRecord) (\<lambda>owner.
           rd_return \<lparr>cg_next_offset = next_offset, cg_leased_offset = leased_offset,
             cg_lease_until_ms = lease_until, cg_lease_generation = generation, cg_owner = owner\<rparr>))))) (drop 1 bs))
        (\<lambda>(st, rest). if rest \<noteq> [] then Inl CgCorruptRecord else Inr st))"

definition load_state :: "store \<Rightarrow> bytes \<Rightarrow> group_error + group_state option" where
  "load_state s key = transpose_map decode_state (store_get s key)"

definition consumer_group_state :: "store \<Rightarrow> bytes \<Rightarrow> bytes \<Rightarrow> group_error + group_state" where
  "consumer_group_state s str grp =
     res_bind (validate_names str grp (ascii ''reader'')) (\<lambda>_.
     res_bind (group_key str grp) (\<lambda>key.
     res_bind (load_state s key) (\<lambda>st. Inr (case st of None \<Rightarrow> group_state_default | Some st \<Rightarrow> st))))"

definition save_state :: "deps \<Rightarrow> bytes \<Rightarrow> group_state \<Rightarrow> (store, group_error, unit) act" where
  "save_state D key st =
     act_bind (act_lift (encode_state st)) (\<lambda>bs. act_map_err CgStore (store_put_internal D key bs))"

definition next_entry :: "bytes \<Rightarrow> u64 \<Rightarrow> store \<Rightarrow> group_error + stream_entry option" where
  "next_entry str offset s =
     map_err CgMessaging (res_bind (stream_new str) (\<lambda>q.
       res_bind (read_from q offset 1 s) (\<lambda>es. Inr (case es of [] \<Rightarrow> None | e # _ \<Rightarrow> Some e))))"

definition lease_entry ::
  "deps \<Rightarrow> bytes \<Rightarrow> group_state \<Rightarrow> bytes \<Rightarrow> i64 \<Rightarrow> u64 \<Rightarrow> stream_entry \<Rightarrow> (store, group_error, group_delivery option) act" where
  "lease_entry D key st consumer now lease_duration_ms entry =
     act_bind (act_lift (ok_or CgTimeOverflow (i64_try_from_u64 lease_duration_ms))) (\<lambda>lease_duration.
     act_bind (act_lift (ok_or CgTimeOverflow (checked_add_signed now lease_duration))) (\<lambda>lease_until.
     act_bind (act_lift (ok_or CgLeaseGenerationOverflow (checked_add (cg_lease_generation st) 1))) (\<lambda>generation.
     act_bind (save_state D key (st\<lparr>cg_lease_generation := generation, cg_leased_offset := Some (se_offset entry),
                 cg_lease_until_ms := lease_until, cg_owner := consumer\<rparr>)) (\<lambda>_.
     act_return (Some \<lparr>gd_entry = entry, gd_lease_generation = generation, gd_lease_until_ms = lease_until\<rparr>)))))"

definition consumer_group_claim ::
  "deps \<Rightarrow> bytes \<Rightarrow> bytes \<Rightarrow> bytes \<Rightarrow> i64 \<Rightarrow> u64 \<Rightarrow> (store, group_error, group_delivery option) act" where
  "consumer_group_claim D str grp consumer now lease_duration_ms =
     act_bind (act_lift (validate_names str grp consumer)) (\<lambda>_.
     act_bind (act_lift (group_key str grp)) (\<lambda>key.
     act_bind (\<lambda>s. (load_state s key, s)) (\<lambda>loaded.
     let st = (case loaded of None \<Rightarrow> group_state_default | Some st \<Rightarrow> st)
     in if cg_leased_offset st \<noteq> None \<and> sint (cg_lease_until_ms st) > sint now then act_return None
        else act_bind (\<lambda>s. (next_entry str (cg_next_offset st) s, s)) (\<lambda>entry.
          case entry of
            None \<Rightarrow>
              if cg_leased_offset st \<noteq> None
              then act_bind (save_state D key (clear_lease st)) (\<lambda>_. act_return None)
              else act_return None
          | Some entry \<Rightarrow> lease_entry D key st consumer now lease_duration_ms entry))))"

definition settle_group ::
  "deps \<Rightarrow> (group_state \<Rightarrow> group_error + group_state) \<Rightarrow> bytes \<Rightarrow> bytes \<Rightarrow> bytes \<Rightarrow> u64 \<Rightarrow> u64 \<Rightarrow> (store, group_error, unit) act" where
  "settle_group D f str grp consumer offset generation =
     act_bind (act_lift (validate_names str grp consumer)) (\<lambda>_.
     act_bind (act_lift (group_key str grp)) (\<lambda>key.
     act_bind (\<lambda>s. (load_state s key, s)) (\<lambda>loaded.
     act_bind (act_lift (ok_or CgNotLeased loaded)) (\<lambda>st.
     act_bind (act_lift (validate_group_lease st consumer offset generation)) (\<lambda>_.
     act_bind (act_lift (f st)) (\<lambda>st'. save_state D key (clear_lease st')))))))"

definition consumer_group_ack :: "deps \<Rightarrow> bytes \<Rightarrow> bytes \<Rightarrow> bytes \<Rightarrow> u64 \<Rightarrow> u64 \<Rightarrow> (store, group_error, unit) act" where
  "consumer_group_ack D str grp consumer offset generation =
     settle_group D (\<lambda>st. res_bind (ok_or CgTimeOverflow (checked_add offset 1)) (\<lambda>next. Inr (st\<lparr>cg_next_offset := next\<rparr>)))
       str grp consumer offset generation"

definition consumer_group_nack :: "deps \<Rightarrow> bytes \<Rightarrow> bytes \<Rightarrow> bytes \<Rightarrow> u64 \<Rightarrow> u64 \<Rightarrow> (store, group_error, unit) act" where
  "consumer_group_nack D = settle_group D Inr"

definition consumer_group_reset :: "deps \<Rightarrow> bytes \<Rightarrow> bytes \<Rightarrow> u64 \<Rightarrow> (store, group_error, unit) act" where
  "consumer_group_reset D str grp next_offset =
     act_bind (act_lift (validate_names str grp (ascii ''reset''))) (\<lambda>_.
     act_bind (act_lift (group_key str grp)) (\<lambda>key.
     act_bind (\<lambda>s. (load_state s key, s)) (\<lambda>loaded.
       save_state D key (clear_lease ((case loaded of None \<Rightarrow> group_state_default | Some st \<Rightarrow> st)\<lparr>cg_next_offset := next_offset\<rparr>)))))"

section \<open>Format and keys\<close>

lemma decode_state_encode:
  assumes "encode_state st = Inr bs"
  shows "decode_state bs = Inr st"
proof -
  from assms obtain l where l: "u32_try_from_len (length (cg_owner st)) = Some l"
    and bs: "bs = [GROUP_VERSION] @ to_le (cg_next_offset st) @
            (case cg_leased_offset st of Some offset \<Rightarrow> [1] @ to_le offset | None \<Rightarrow> [0]) @
            to_le (cg_lease_until_ms st) @ to_le (cg_lease_generation st) @ to_le l @ cg_owner st @ []"
    by (auto simp: encode_state_def res_bind_Inr_iff ok_or_Inr_iff)
  show ?thesis unfolding decode_state_def bs
    by (cases "cg_leased_offset st") (simp_all add: rd_leased_offset_def codec_simps rd_bytes_append [OF l] del: append_Nil2)
qed

interpretation group_codec: codec encode_state decode_state "\<lambda>_. True"
  by unfold_locales (rule decode_state_encode)

lemma group_key_Inr:
  "group_key str grp = Inr k \<longleftrightarrow> length str < 2 ^ 32 \<and> length grp < 2 ^ 32 \<and>
     k = GROUP_PREFIX @ to_be (of_nat (length str) :: u32) @ str @ to_be (of_nat (length grp) :: u32) @ grp"
  by (auto simp: group_key_def res_bind_Inr_iff ok_or_Inr_iff u32_try_from_len_def)

lemma group_key_simps:
  assumes "group_key str grp = Inr k"
  shows "prefix GROUP_PREFIX k" "not_cdc k" "\<not> prefix STREAM_PREFIX k"
proof -
  show p: "prefix GROUP_PREFIX k" using assms by (auto simp: group_key_Inr)
  show "not_cdc k" by (rule other_space [OF _ _ p]) (simp_all add: GROUP_PREFIX_def CDC_PREFIX_def ascii_def)
  show "\<not> prefix STREAM_PREFIX k" by (rule other_space [OF _ _ p]) (simp_all add: GROUP_PREFIX_def STREAM_PREFIX_def ascii_def)
qed

lemma group_key_inj:
  assumes "group_key a x = Inr k" and "group_key b y = Inr k"
  shows "a = b" "x = y"
proof -
  have k: "to_be (of_nat (length a) :: u32) @ a @ to_be (of_nat (length x) :: u32) @ x =
      to_be (of_nat (length b) :: u32) @ b @ to_be (of_nat (length y) :: u32) @ y"
    and l: "length a < 2 ^ 32" "length b < 2 ^ 32"
    using assms by (simp_all add: group_key_Inr)
  then have "length a = length b" by (simp add: of_nat_u32_inj)
  with k show "a = b" "x = y" by simp_all
qed

section \<open>The group's record\<close>

definition group_of :: "bytes \<Rightarrow> bytes \<Rightarrow> store \<Rightarrow> group_state" where
  "group_of str grp s = (case consumer_group_state s str grp of Inr st \<Rightarrow> st | Inl e \<Rightarrow> group_state_default)"

text \<open>The record decodes, and a leased offset is the offset at the cursor.\<close>

definition group_inv :: "bytes \<Rightarrow> bytes \<Rightarrow> store \<Rightarrow> bool" where
  "group_inv str grp s \<longleftrightarrow> store_wf s \<and> (\<exists>st. consumer_group_state s str grp = Inr st) \<and>
     (\<forall>offset. cg_leased_offset (group_of str grp s) = Some offset \<longrightarrow> offset = cg_next_offset (group_of str grp s))"

lemma group_state_key:
  assumes "str \<noteq> []" and "grp \<noteq> []" and "group_key str grp = Inr key"
  shows "consumer_group_state s str grp = res_bind (load_state s key) (\<lambda>st. Inr (case st of None \<Rightarrow> group_state_default | Some st \<Rightarrow> st))"
  using assms by (simp add: consumer_group_state_def validate_names_def ascii_def)

lemma group_loaded:
  assumes "str \<noteq> []" and "grp \<noteq> []" and "group_key str grp = Inr key" and "load_state s key = Inr loaded"
  shows "group_of str grp s = (case loaded of None \<Rightarrow> group_state_default | Some st \<Rightarrow> st)"
  using group_state_key [OF assms(1-3)] assms(4) by (simp add: group_of_def)

lemma group_of_cong:
  assumes "\<And>k. group_key str grp = Inr k \<Longrightarrow> store_get s' k = store_get s k"
  shows "group_of str grp s' = group_of str grp s" "consumer_group_state s' str grp = consumer_group_state s str grp"
proof -
  show c: "consumer_group_state s' str grp = consumer_group_state s str grp"
    using assms by (cases "group_key str grp") (simp_all add: consumer_group_state_def load_state_def)
  then show "group_of str grp s' = group_of str grp s" by (simp add: group_of_def)
qed

lemma save_state_Inr:
  assumes "save_state D key st s = (Inr u, s')" and "group_key str grp = Inr key" and "str \<noteq> []" and "grp \<noteq> []"
  shows "group_of str grp s' = st" "consumer_group_state s' str grp = Inr st" "not_cdc k \<Longrightarrow> k \<noteq> key \<Longrightarrow> store_get s' k = store_get s k"
    "store_wf s \<Longrightarrow> store_wf s'"
proof -
  from assms(1) obtain bs where bs: "encode_state st = Inr bs" and p: "store_put_internal D key bs s = (Inr (), s')"
    by (auto simp: save_state_def act_bind_Inr_iff act_map_err_iff simp del: act_bind_lift)
  note G = store_kv.put_get [OF p]
  have "load_state s' key = Inr (Some st)"
    using G [OF group_key_simps(2) [OF assms(2)]] decode_state_encode [OF bs] by (simp add: load_state_def)
  then show "consumer_group_state s' str grp = Inr st" using group_state_key [OF assms(3,4,2)] by simp
  then show "group_of str grp s' = st" by (simp add: group_of_def)
  show "not_cdc k \<Longrightarrow> k \<noteq> key \<Longrightarrow> store_get s' k = store_get s k" using G by simp
  show "store_wf s \<Longrightarrow> store_wf s'" using p by (rule store_put_internal_wf [rotated])
qed

lemma save_state_Inl:
  assumes "save_state D key st s = (Inl e, s')"
  shows "store_get s' k = store_get s k" "store_wf s \<Longrightarrow> store_wf s'"
  using assms by (auto simp: save_state_def act_bind_Inl_iff act_map_err_iff simp del: act_bind_lift
      intro: store_kv.put_fail store_put_internal_wf)

text \<open>An operation on a group either changes no key or writes the group's record.\<close>

definition unchanged :: "store \<Rightarrow> store \<Rightarrow> bool" where
  "unchanged s s' \<longleftrightarrow> (\<forall>k. store_get s' k = store_get s k) \<and> (store_wf s \<longrightarrow> store_wf s')"

definition group_write :: "bytes \<Rightarrow> bytes \<Rightarrow> group_state \<Rightarrow> store \<Rightarrow> store \<Rightarrow> bool" where
  "group_write str grp st s s' \<longleftrightarrow> str \<noteq> [] \<and> grp \<noteq> [] \<and> group_of str grp s' = st \<and> consumer_group_state s' str grp = Inr st \<and>
     (store_wf s \<longrightarrow> store_wf s') \<and>
     (\<exists>key. group_key str grp = Inr key \<and> (\<forall>k. not_cdc k \<longrightarrow> k \<noteq> key \<longrightarrow> store_get s' k = store_get s k))"

lemma unchanged_refl [simp]: "unchanged s s" by (simp add: unchanged_def)

lemma save_cases:
  assumes "save_state D key st s = (r, s')" and "group_key str grp = Inr key" and "str \<noteq> []" and "grp \<noteq> []"
  shows "(\<exists>e. r = Inl e) \<and> unchanged s s' \<or> r = Inr () \<and> group_write str grp st s s'"
proof (cases r)
  case (Inl e)
  then show ?thesis using save_state_Inl assms(1) by (auto simp: unchanged_def)
next
  case (Inr u)
  note S = save_state_Inr [OF assms(1) [unfolded Inr] assms(2-4)]
  then show ?thesis using Inr assms(2-4) by (auto simp: group_write_def)
qed

definition leased_group :: "bytes \<Rightarrow> i64 \<Rightarrow> u64 \<Rightarrow> group_state \<Rightarrow> group_state" where
  "leased_group consumer until offset st = st\<lparr>cg_lease_generation := cg_lease_generation st + 1, cg_leased_offset := Some offset,
     cg_lease_until_ms := until, cg_owner := consumer\<rparr>"

lemma lease_entry_cases:
  assumes "lease_entry D key st consumer now d entry s = (r, s')" and "group_key str grp = Inr key" and "str \<noteq> []" and "grp \<noteq> []"
  shows "(\<exists>e. r = Inl e) \<and> unchanged s s' \<or>
    (\<exists>until. sint until = sint now + int (unat d) \<and> cg_lease_generation st < cg_lease_generation st + 1 \<and>
       r = Inr (Some \<lparr>gd_entry = entry, gd_lease_generation = cg_lease_generation st + 1, gd_lease_until_ms = until\<rparr>) \<and>
       group_write str grp (leased_group consumer until (se_offset entry) st) s s')"
proof -
  consider (early) e where "r = Inl e" "s' = s"
    | (save) d' until where "i64_try_from_u64 d = Some d'" "checked_add_signed now d' = Some until" "cg_lease_generation st \<noteq> - 1"
        "act_bind (save_state D key (leased_group consumer until (se_offset entry) st)) (\<lambda>_.
           act_return (Some \<lparr>gd_entry = entry, gd_lease_generation = cg_lease_generation st + 1, gd_lease_until_ms = until\<rparr>)) s = (r, s')"
    using assms(1)
    by (auto simp: lease_entry_def leased_group_def ok_or_def checked_add_one_u64 split: option.splits if_splits)
  then show ?thesis
  proof cases
    case save
    obtain r1 s1 where sv: "save_state D key (leased_group consumer until (se_offset entry) st) s = (r1, s1)" by fastforce
    show ?thesis using save_cases [OF sv assms(2-4)] save lease_time [OF save(1,2)] less_add_one_u64 sv
      by (auto simp: act_bind_def)
  qed auto
qed

theorem claim_group_cases:
  assumes c: "consumer_group_claim D str grp consumer now d s = (r, s')"
  obtains (same) "unchanged s s'" "\<forall>x. r \<noteq> Inr (Some x)"
  | (cleared) "r = Inr None" "group_write str grp (clear_lease (group_of str grp s)) s s'"
  | (leased) entry until where "next_entry str (cg_next_offset (group_of str grp s)) s = Inr (Some entry)"
      "sint until = sint now + int (unat d)"
      "cg_leased_offset (group_of str grp s) = None \<or> sint (cg_lease_until_ms (group_of str grp s)) \<le> sint now"
      "cg_lease_generation (group_of str grp s) < cg_lease_generation (group_of str grp s) + 1"
      "r = Inr (Some \<lparr>gd_entry = entry, gd_lease_generation = cg_lease_generation (group_of str grp s) + 1, gd_lease_until_ms = until\<rparr>)"
      "group_write str grp (leased_group consumer until (se_offset entry) (group_of str grp s)) s s'"
proof (cases "validate_names str grp consumer")
  case (Inl e)
  then show ?thesis using c same by (auto simp: consumer_group_claim_def)
next
  case (Inr u)
  then have ne: "str \<noteq> []" "grp \<noteq> []" by (auto simp: validate_names_def split: if_splits)
  show ?thesis
  proof (cases "group_key str grp")
    case (Inl e)
    then show ?thesis using c same Inr by (auto simp: consumer_group_claim_def)
  next
    case key: (Inr key)
    show ?thesis
    proof (cases "load_state s key")
      case (Inl e)
      then show ?thesis using c same Inr key by (auto simp: consumer_group_claim_def act_bind_def)
    next
      case l: (Inr loaded)
      let ?st = "group_of str grp s"
      have st: "?st = (case loaded of None \<Rightarrow> group_state_default | Some st \<Rightarrow> st)" by (rule group_loaded [OF ne key l])
      have c': "(if cg_leased_offset ?st \<noteq> None \<and> sint (cg_lease_until_ms ?st) > sint now then act_return None
         else act_bind (\<lambda>s. (next_entry str (cg_next_offset ?st) s, s)) (\<lambda>entry.
          case entry of
            None \<Rightarrow> if cg_leased_offset ?st \<noteq> None
              then act_bind (save_state D key (clear_lease ?st)) (\<lambda>_. act_return None) else act_return None
          | Some entry \<Rightarrow> lease_entry D key ?st consumer now d entry)) s = (r, s')"
        using c Inr key l unfolding consumer_group_claim_def st by (simp add: act_bind_def Let_def)
      show ?thesis
      proof (cases "cg_leased_offset ?st \<noteq> None \<and> sint (cg_lease_until_ms ?st) > sint now")
        case True
        then show ?thesis using c' same by auto
      next
        case free: False
        show ?thesis
        proof (cases "next_entry str (cg_next_offset ?st) s")
          case (Inl e)
          then show ?thesis using c' same free by (auto simp: act_bind_def)
        next
          case n: (Inr entry)
          show ?thesis
          proof (cases entry)
            case None
            obtain r1 s1 where sv: "save_state D key (clear_lease ?st) s = (r1, s1)" by fastforce
            show ?thesis using c' None n free save_cases [OF sv key ne] sv same cleared
              by (auto simp: act_bind_def split: if_splits)
          next
            case (Some e)
            then have le: "lease_entry D key ?st consumer now d e s = (r, s')" using c' n free by (auto simp: act_bind_def split: if_splits)
            have f: "cg_leased_offset ?st = None \<or> sint (cg_lease_until_ms ?st) \<le> sint now" using free by auto
            show ?thesis using lease_entry_cases [OF le key ne] leased [of e] n Some f same by blast
          qed
        qed
      qed
    qed
  qed
qed

theorem settle_group_cases:
  assumes c: "settle_group D f str grp consumer offset generation s = (r, s')"
  obtains (refused) e where "r = Inl e" "unchanged s s'"
  | (settled) st' where "r = Inr ()" "cg_leased_offset (group_of str grp s) = Some offset" "cg_owner (group_of str grp s) = consumer"
      "cg_lease_generation (group_of str grp s) = generation" "f (group_of str grp s) = Inr st'" "group_write str grp (clear_lease st') s s'"
proof (cases "validate_names str grp consumer")
  case (Inl e)
  then show ?thesis using c refused [of e] by (simp add: settle_group_def)
next
  case (Inr u)
  then have ne: "str \<noteq> []" "grp \<noteq> []" by (auto simp: validate_names_def split: if_splits)
  show ?thesis
  proof (cases "\<exists>key st. group_key str grp = Inr key \<and> load_state s key = Inr (Some st) \<and> validate_group_lease st consumer offset generation = Inr () \<and> (\<exists>st'. f st = Inr st')")
    case False
    then show ?thesis using c Inr refused
      by (auto simp: settle_group_def act_bind_def ok_or_def split: sum.splits option.splits) metis+
  next
    case True
    then obtain key st st' where k: "group_key str grp = Inr key" "load_state s key = Inr (Some st)"
      "validate_group_lease st consumer offset generation = Inr ()" "f st = Inr st'" by blast
    have st: "group_of str grp s = st" using group_loaded [OF ne k(1,2)] by simp
    have sv: "save_state D key (clear_lease st') s = (r, s')" using c Inr k by (simp add: settle_group_def act_bind_def)
    have v: "cg_leased_offset st = Some offset" "cg_owner st = consumer" "cg_lease_generation st = generation"
      using k(3) by (auto simp: validate_group_lease_def split: option.splits if_splits)
    show ?thesis using save_cases [OF sv k(1) ne] refused settled v k(4) unfolding st by blast
  qed
qed

section \<open>Sequences of operations\<close>

text \<open>The calls that may be interleaved around a group: claims and settlements of any group of any
  stream, appends, and, when \<open>resets\<close> holds, resets of the group itself.\<close>

inductive group_op :: "deps \<Rightarrow> bool \<Rightarrow> bytes \<Rightarrow> bytes \<Rightarrow> store \<Rightarrow> store \<Rightarrow> bool" for D resets str grp where
  g_claim: "consumer_group_claim D st g c now d s = (rc, s') \<Longrightarrow> group_op D resets str grp s s'"
| g_ack: "consumer_group_ack D st g c offset generation s = (ra, s') \<Longrightarrow> group_op D resets str grp s s'"
| g_nack: "consumer_group_nack D st g c offset generation s = (ra, s') \<Longrightarrow> group_op D resets str grp s s'"
| g_reset: "consumer_group_reset D st g offset s = (ra, s') \<Longrightarrow> resets \<or> (st, g) \<noteq> (str, grp) \<Longrightarrow> group_op D resets str grp s s'"
| g_append: "stream_append D q payload s = (ro, s') \<Longrightarrow> stream_ok q \<Longrightarrow> group_op D resets str grp s s'"

text \<open>What one call may do to the record of a group.\<close>

inductive group_move :: "bool \<Rightarrow> group_state \<Rightarrow> group_state \<Rightarrow> bool" for resets where
  gm_same: "group_move resets st st"
| gm_clear: "group_move resets st (clear_lease st)"
| gm_lease: "cg_lease_generation st < cg_lease_generation st + 1 \<Longrightarrow> group_move resets st (leased_group c until (cg_next_offset st) st)"
| gm_ack: "cg_leased_offset st = Some offset \<Longrightarrow> offset < offset + 1 \<Longrightarrow> group_move resets st (clear_lease (st\<lparr>cg_next_offset := offset + 1\<rparr>))"
| gm_reset: "resets \<Longrightarrow> group_move resets st (clear_lease (st\<lparr>cg_next_offset := offset\<rparr>))"

lemma group_write_other:
  assumes "group_write st g x s s'" and "(st, g) \<noteq> (str, grp)"
  shows "group_of str grp s' = group_of str grp s" "consumer_group_state s' str grp = consumer_group_state s str grp"
proof -
  have "store_get s' k = store_get s k" if "group_key str grp = Inr k" for k
    using assms group_key_inj group_key_simps(2) [OF that] that unfolding group_write_def by blast
  from group_of_cong [OF this] show "group_of str grp s' = group_of str grp s" "consumer_group_state s' str grp = consumer_group_state s str grp"
    by simp_all
qed

lemma group_write_stream:
  assumes "group_write st g x s s'" and "stream_holds q s xs"
  shows "stream_holds q s' xs"
proof (rule stream_holds_cong [OF assms(2)])
  show "store_wf s'" using assms by (simp add: group_write_def stream_holds_def)
  show "store_get s' k = store_get s k" if "prefix STREAM_PREFIX k" for k
    using assms(1) stream_space [OF that] that group_key_simps(3) unfolding group_write_def by blast
qed

lemma unchanged_group:
  assumes "unchanged s s'"
  shows "group_of str grp s' = group_of str grp s" "consumer_group_state s' str grp = consumer_group_state s str grp"
    "stream_holds q s xs \<Longrightarrow> stream_holds q s' xs"
proof -
  have g: "store_get s' k = store_get s k" "store_wf s \<Longrightarrow> store_wf s'" for k using assms by (simp_all add: unchanged_def)
  from group_of_cong [OF g(1)] show "group_of str grp s' = group_of str grp s" "consumer_group_state s' str grp = consumer_group_state s str grp"
    by simp_all
  show "stream_holds q s xs \<Longrightarrow> stream_holds q s' xs" 
    by (rule stream_holds_cong) (use g in \<open>auto simp: stream_holds_def\<close>)
qed

lemma consumer_group_reset_cases:
  assumes "consumer_group_reset D str grp offset s = (r, s')"
  shows "(\<exists>e. r = Inl e) \<and> unchanged s s' \<or> r = Inr () \<and> group_write str grp (clear_lease ((group_of str grp s)\<lparr>cg_next_offset := offset\<rparr>)) s s'"
proof (cases "\<exists>key loaded. validate_names str grp (ascii ''reset'') = Inr () \<and> group_key str grp = Inr key \<and> load_state s key = Inr loaded")
  case False
  then show ?thesis using assms by (auto simp: consumer_group_reset_def act_bind_def split: sum.splits) metis+
next
  case True
  then obtain key loaded where k: "validate_names str grp (ascii ''reset'') = Inr ()" "group_key str grp = Inr key" "load_state s key = Inr loaded" by blast
  then have ne: "str \<noteq> []" "grp \<noteq> []" by (auto simp: validate_names_def split: if_splits)
  have "save_state D key (clear_lease ((group_of str grp s)\<lparr>cg_next_offset := offset\<rparr>)) s = (r, s')"
    using assms k group_loaded [OF ne k(2,3)] by (simp add: consumer_group_reset_def act_bind_def)
  from save_cases [OF this k(2) ne] show ?thesis .
qed

text \<open>Only appends to the stream change its list, and they extend it.\<close>

lemma stream_namespace_disjoint:
  assumes "stream_ok q" and "stream_ok q'" and "sn_name q \<noteq> sn_name q'"
  shows "sn_next_key q' \<noteq> sn_next_key q" "\<not> prefix (sn_entry_prefix q) (sn_next_key q')" "\<not> prefix (sn_entry_prefix q) (entry_key q' i)"
    "sn_next_key q \<noteq> entry_key q' i"
proof -
  obtain a b where "stream_new a = Inr q" "stream_new b = Inr q'" using assms by (auto simp: stream_ok_def)
  note A = stream_new_Inr [OF this(1)] and B = stream_new_Inr [OF this(2)]
  have D: "STREAM_PREFIX @ to_be (of_nat (length a) :: u32) @ a @ x \<noteq> STREAM_PREFIX @ to_be (of_nat (length b) :: u32) @ b @ y" for x y
  proof
    assume "STREAM_PREFIX @ to_be (of_nat (length a) :: u32) @ a @ x = STREAM_PREFIX @ to_be (of_nat (length b) :: u32) @ b @ y"
    then have e: "to_be (of_nat (length a) :: u32) @ a @ x = to_be (of_nat (length b) :: u32) @ b @ y" by simp
    then have "length a = length b" using A(3) B(3) by (simp add: of_nat_u32_inj)
    then show False using e assms(3) A(1) B(1) by simp
  qed
  show "sn_next_key q' \<noteq> sn_next_key q" "sn_next_key q \<noteq> entry_key q' i"
    using A(4) B(4,5) D by (metis append_assoc entry_key_def)+
  show "\<not> prefix (sn_entry_prefix q) (sn_next_key q')" "\<not> prefix (sn_entry_prefix q) (entry_key q' i)"
    using A(5) B(4,5) D unfolding prefix_def entry_key_def by (metis append_assoc)+
qed

lemma stream_new_unique: "stream_ok q \<Longrightarrow> stream_ok q' \<Longrightarrow> sn_name q = sn_name q' \<Longrightarrow> q = q'"
  using stream_new_Inr(1) by (fastforce simp: stream_ok_def)

lemma append_stream:
  assumes a: "stream_append D q' payload s = (r, s')" and q': "stream_ok q'" and h: "stream_holds q s xs"
  shows "stream_holds q s' xs \<or> stream_holds q s' (xs @ [payload])"
proof (cases r)
  case (Inl e)
  then have "unchanged s s'" using append_fail a by (auto simp: unchanged_def)
  then show ?thesis using unchanged_group(3) h by blast
next
  case (Inr i)
  have q: "stream_ok q" using h by (simp add: stream_holds_def)
  show ?thesis
  proof (cases "sn_name q = sn_name q'")
    case True
    then have "q' = q" using stream_new_unique q q' by metis
    then show ?thesis using append_holds(2) [OF h] a Inr by blast
  next
    case False
    note N = stream_namespace_disjoint [OF q q' False] and V = append_view [OF a [unfolded Inr]] and K = stream_keys [OF q]
    have "stream_next_offset q s' = stream_next_offset q s"
      using V(5) [OF stream_space [OF K(1)]] N(1,4) by (simp add: stream_next_offset_def)
    moreover have "store_get s' k = store_get s k" if "prefix (sn_entry_prefix q) k" for k
      using V(5) [OF stream_space [OF K(2) [OF that]]] N(2,3) that by auto
    ultimately show ?thesis using h V(4) by (simp add: stream_holds_def)
  qed
qed

lemma append_group:
  assumes "stream_append D q payload s = (r, s')" and "stream_ok q"
  shows "group_of str grp s' = group_of str grp s" "consumer_group_state s' str grp = consumer_group_state s str grp" "store_wf s \<Longrightarrow> store_wf s'"
proof -
  note K = stream_keys [OF assms(2)]
  have "store_get s' k = store_get s k" if g: "group_key str grp = Inr k" for k
  proof (cases r)
    case (Inr i)
    have "k \<noteq> sn_next_key q" "k \<noteq> entry_key q i" using group_key_simps(3) [OF g] K(1) K(2) [OF entry_key_simps(1)] by auto
    then show ?thesis using append_view(5) [OF assms(1) [unfolded Inr] group_key_simps(2) [OF g]] by simp
  qed (use assms(1) append_fail in blast)
  from group_of_cong [OF this] show "group_of str grp s' = group_of str grp s" "consumer_group_state s' str grp = consumer_group_state s str grp"
    by simp_all
  show "store_wf s \<Longrightarrow> store_wf s'" using assms(1) append_fail(2) append_view(4) by (cases r) blast+
qed

lemma next_entry_eq:
  assumes "stream_holds q s xs" and "sn_name q = str"
  shows "next_entry str offset s =
    Inr (if unat offset < length xs then Some \<lparr>se_offset = offset, se_payload = xs ! unat offset\<rparr> else None)"
proof -
  obtain name where "stream_new name = Inr q" using assms(1) by (auto simp: stream_holds_def stream_ok_def)
  then have q: "stream_new str = Inr q" using stream_new_Inr(1) assms(2) by blast
  have "drop (unat offset) xs = xs ! unat offset # drop (Suc (unat offset)) xs" if "unat offset < length xs"
    using that by (simp add: Cons_nth_drop_Suc)
  then show ?thesis using read_from_eq [OF assms(1), of offset 1] q by (auto simp: next_entry_def entries_from_def)
qed

definition stream_list :: "bytes \<Rightarrow> store \<Rightarrow> bool" where
  "stream_list str s \<longleftrightarrow> (\<exists>q xs. sn_name q = str \<and> stream_holds q s xs)"

lemma group_op_effect:
  assumes "group_op D resets str grp s s'" and "stream_list str s" and "group_inv str grp s"
  shows "group_move resets (group_of str grp s) (group_of str grp s') \<and> store_wf s' \<and> (\<exists>st. consumer_group_state s' str grp = Inr st)"
proof -
  let ?g = "group_of str grp s"
  have wf: "store_wf s" and c: "\<exists>st. consumer_group_state s str grp = Inr st"
    and lo: "\<And>offset. cg_leased_offset ?g = Some offset \<Longrightarrow> offset = cg_next_offset ?g"
    using assms(3) by (auto simp: group_inv_def)
  have U: ?thesis if "unchanged s s'"
    using that unchanged_group [OF that] wf c gm_same by (simp add: unchanged_def)
  have W: ?thesis if "group_write st g x s s'" "(st, g) = (str, grp) \<Longrightarrow> group_move resets ?g x" for st g x
  proof (cases "(st, g) = (str, grp)")
    case True
    then show ?thesis using that wf by (simp add: group_write_def)
  next
    case False
    then show ?thesis using group_write_other [OF that(1) False] that(1) wf c gm_same by (simp add: group_write_def)
  qed
  show ?thesis using assms(1)
  proof cases
    case (g_claim st g cons now d rc)
    from g_claim show ?thesis
    proof (cases rule: claim_group_cases)
      case same
      then show ?thesis using U by blast
    next
      case cleared
      show ?thesis by (rule W [OF cleared(2)]) (auto intro: gm_clear)
    next
      case (leased entry until)
      show ?thesis
      proof (rule W [OF leased(6)])
        assume e: "(st, g) = (str, grp)"
        then obtain q xs where q: "stream_holds q s xs" "sn_name q = st" using assms(2) by (auto simp: stream_list_def)
        have "se_offset entry = cg_next_offset ?g"
          using leased(1) e next_entry_eq [OF q] by (auto split: if_splits)
        then show "group_move resets ?g (leased_group cons until (se_offset entry) (group_of st g s))"
          using e leased(4) gm_lease by simp
      qed
    qed
  next
    case (g_ack st g cons offset generation ra)
    from g_ack [unfolded consumer_group_ack_def] show ?thesis
    proof (cases rule: settle_group_cases)
      case refused
      then show ?thesis using U by blast
    next
      case (settled st')
      then have "offset \<noteq> - 1" "st' = (group_of st g s)\<lparr>cg_next_offset := offset + 1\<rparr>"
        by (auto simp: res_bind_Inr_iff ok_or_Inr_iff checked_add_one_u64 split: if_splits)
      then show ?thesis using settled(2) less_add_one_u64 gm_ack by (intro W [OF settled(6)]) auto
    qed
  next
    case (g_nack st g cons offset generation ra)
    from g_nack [unfolded consumer_group_nack_def] show ?thesis
    proof (cases rule: settle_group_cases)
      case refused
      then show ?thesis using U by blast
    next
      case (settled st')
      then show ?thesis using gm_clear by (intro W [OF settled(6)]) auto
    qed
  next
    case (g_reset st g offset ra)
    show ?thesis using consumer_group_reset_cases [OF g_reset(1)]
    proof (elim disjE conjE)
      assume "unchanged s s'" then show ?thesis by (rule U)
    next
      assume w: "group_write st g (clear_lease ((group_of st g s)\<lparr>cg_next_offset := offset\<rparr>)) s s'"
      show ?thesis by (rule W [OF w]) (use g_reset(2) gm_reset in auto)
    qed
  next
    case (g_append q payload ro)
    then show ?thesis using append_group [OF g_append] wf c gm_same by simp
  qed
qed

lemma group_op_stream:
  assumes "group_op D resets str grp s s'" and "stream_holds q s xs"
  shows "\<exists>ys. stream_holds q s' (xs @ ys)"
proof -
  have U: ?thesis if "unchanged s s'" using unchanged_group(3) [OF that assms(2)] by (intro exI [of _ "[]"]) simp
  have W: ?thesis if "group_write st g x s s'" for st g x using group_write_stream [OF that assms(2)] by (intro exI [of _ "[]"]) simp
  show ?thesis using assms(1)
  proof cases
    case (g_claim st g cons now d rc)
    from g_claim show ?thesis by (cases rule: claim_group_cases) (use U W in blast)+
  next
    case (g_ack st g cons offset generation ra)
    from g_ack [unfolded consumer_group_ack_def] show ?thesis by (cases rule: settle_group_cases) (use U W in blast)+
  next
    case (g_nack st g cons offset generation ra)
    from g_nack [unfolded consumer_group_nack_def] show ?thesis by (cases rule: settle_group_cases) (use U W in blast)+
  next
    case (g_reset st g offset ra)
    show ?thesis using consumer_group_reset_cases [OF g_reset(1)] U W by blast
  next
    case (g_append q' payload ro)
    from append_stream [OF this(1,2) assms(2)] show ?thesis
    proof
      assume "stream_holds q s' xs" then show ?thesis by (intro exI [of _ "[]"]) simp
    next
      assume "stream_holds q s' (xs @ [payload])" then show ?thesis by blast
    qed
  qed
qed

inductive_cases group_moveE: "group_move resets st st'"

lemma group_move_simps [simp]:
  "cg_next_offset (clear_lease st) = cg_next_offset st" "cg_leased_offset (clear_lease st) = None"
  "cg_lease_generation (clear_lease st) = cg_lease_generation st"
  "cg_next_offset (leased_group c u offset st) = cg_next_offset st" "cg_leased_offset (leased_group c u offset st) = Some offset"
  "cg_lease_generation (leased_group c u offset st) = cg_lease_generation st + 1"
  by (simp_all add: clear_lease_def leased_group_def)

lemma group_move_mono:
  assumes "group_move resets st st'" and "\<And>offset. cg_leased_offset st = Some offset \<Longrightarrow> offset = cg_next_offset st"
  shows "cg_lease_generation st \<le> cg_lease_generation st'" "\<not> resets \<Longrightarrow> cg_next_offset st \<le> cg_next_offset st'"
    "cg_leased_offset st' = Some offset \<Longrightarrow> offset = cg_next_offset st'"
  using assms by (auto elim!: group_moveE)

text \<open>What any sequence of calls keeps: the record is well formed, its generation never falls and,
  without resets, its cursor never falls; the stream only grows.\<close>

theorem group_ops_effect:
  assumes "(group_op D resets str grp)\<^sup>*\<^sup>* s s'" and "stream_holds q s xs" "sn_name q = str" and "group_inv str grp s"
  shows "group_inv str grp s' \<and> (\<exists>ys. stream_holds q s' (xs @ ys)) \<and>
    cg_lease_generation (group_of str grp s) \<le> cg_lease_generation (group_of str grp s') \<and>
    (\<not> resets \<longrightarrow> cg_next_offset (group_of str grp s) \<le> cg_next_offset (group_of str grp s'))"
  using assms(1)
proof (induction rule: rtranclp_induct)
  case base
  then show ?case using assms by (auto intro: exI [of _ "[]"])
next
  case (step s1 s2)
  then obtain ys where ys: "stream_holds q s1 (xs @ ys)" and inv: "group_inv str grp s1" by blast
  then have "stream_list str s1" using assms(3) by (auto simp: stream_list_def)
  note E = group_op_effect [OF step.hyps(2) this inv]
  have lo: "\<And>offset. cg_leased_offset (group_of str grp s1) = Some offset \<Longrightarrow> offset = cg_next_offset (group_of str grp s1)"
    using inv by (simp add: group_inv_def)
  note M = group_move_mono [OF E [THEN conjunct1] lo]
  have "group_inv str grp s2" using E M(3) by (simp add: group_inv_def)
  moreover have "\<exists>zs. stream_holds q s2 (xs @ zs)" using group_op_stream [OF step.hyps(2) ys] by (metis append_assoc)
  ultimately show ?case using step.IH M(1,2) by auto
qed

end
