(* ===== verification/Outbox.thy ===== *)
theory Outbox
  imports Consumer_Group
begin

text \<open>
  The transactional outbox (\<open>crates/voodoo-store-core/src/outbox.rs\<close>): events that a transaction
  emits become pending exactly when it commits, are read in the order of their transactions, and
  are removed by an acknowledgement.
\<close>

section \<open>Randomness inside a transaction\<close>

text \<open>\<open>getrandom::fill\<close> on a 16-byte buffer: the next outcome of the operating system's script.\<close>

definition tx_random :: "'e \<Rightarrow> (transaction, 'e, bytes) act" where
  "tx_random e t =
     (case os_entropy (st_os (tx_store t)) of
        [] \<Rightarrow> (Inl e, t)
      | x # xs \<Rightarrow> (ok_or e x, t\<lparr>tx_store := (tx_store t)\<lparr>st_os := (st_os (tx_store t))\<lparr>os_entropy := xs\<rparr>\<rparr>\<rparr>))"

lemma tx_random_ext: "tx_random e t = (r, t') \<Longrightarrow> tx_ext [] t t'"
  by (auto simp: tx_random_def tx_ext_def same_view_def split: list.splits)

lemma staging_random [staging_intros]: "staging (tx_random e)"
  using tx_random_ext by (fastforce simp: staging_def)

lemma logging_random [logging_intros]: "logging D (tx_random e)"
proof (rule loggingI)
  fix rs t r t'
  assume l: "tx_log D t rs" and "tx_random e t = (r, t')"
  then have "tx_log D t' rs"
    by (auto simp: tx_random_def tx_log_def durable_def store_log_def file_holds_def counters_ahead_def benign_def split: list.splits)
  then show "\<exists>rs'. extends_log rs rs' \<and> tx_log D t' rs'" using extends_log_refl by blast
qed

lemma tx_random_get: "tx_random e t = (r, t') \<Longrightarrow> tx_get_internal t' k = tx_get_internal t k"
  using tx_get_ext [OF tx_random_ext] by fastforce

section \<open>Model\<close>

definition OUTBOX_PREFIX :: bytes where
  "OUTBOX_PREFIX = 0xff # ascii ''vds:outbox:event:''"

definition OUTBOX_VERSION :: u8 where
  "OUTBOX_VERSION = 1"

record event_id =
  ei_tx_id :: u64
  ei_nonce :: bytes

record outbox_event =
  ev_id :: event_id
  ev_topic :: bytes
  ev_payload :: bytes
  ev_created_at_ms :: i64

datatype outbox_error =
    ObStore engine_error
  | ObEmptyTopic
  | ObFieldTooLarge
  | ObCorruptRecord
  | ObEntropyUnavailable

definition event_key :: "event_id \<Rightarrow> bytes" where
  "event_key i = OUTBOX_PREFIX @ to_be (ei_tx_id i) @ ei_nonce i"

definition ob_write_bytes :: "bytes \<Rightarrow> outbox_error + bytes" where
  "ob_write_bytes value = res_bind (ok_or ObFieldTooLarge (u32_try_from_len (length value))) (\<lambda>len. Inr (to_le len @ value))"

definition encode_event :: "outbox_event \<Rightarrow> outbox_error + bytes" where
  "encode_event ev =
     res_bind (ob_write_bytes (ev_topic ev)) (\<lambda>topic.
     res_bind (ob_write_bytes (ev_payload ev)) (\<lambda>payload.
       Inr ([OUTBOX_VERSION] @ to_le (ei_tx_id (ev_id ev)) @ ei_nonce (ev_id ev) @ to_le (ev_created_at_ms ev) @ topic @ payload)))"

text \<open>The module's \<open>Cursor\<close>.\<close>

definition ob_take :: "nat \<Rightarrow> (outbox_error, bytes) reader" where
  "ob_take = rd_take ObCorruptRecord"

definition ob_u8 :: "(outbox_error, u8) reader" where
  "ob_u8 = rd_u8 ObCorruptRecord"

definition ob_u64 :: "(outbox_error, u64) reader" where
  "ob_u64 = rd_u64 ObCorruptRecord"

definition ob_i64 :: "(outbox_error, i64) reader" where
  "ob_i64 = rd_u64 ObCorruptRecord"

definition ob_array_16 :: "(outbox_error, bytes) reader" where
  "ob_array_16 = ob_take 16"

definition ob_bytes :: "(outbox_error, bytes) reader" where
  "ob_bytes = rd_bytes ObCorruptRecord"

lemmas ob_cursor = ob_take_def ob_u8_def ob_u64_def ob_i64_def ob_array_16_def ob_bytes_def

definition decode_event :: "bytes \<Rightarrow> outbox_error + outbox_event" where
  "decode_event bs =
     res_bind
       (rd_bind ob_u8 (\<lambda>version.
        if version \<noteq> OUTBOX_VERSION then rd_fail ObCorruptRecord
        else rd_bind ob_u64 (\<lambda>tx.
             rd_bind ob_array_16 (\<lambda>nonce.
             rd_bind ob_i64 (\<lambda>created.
             rd_bind ob_bytes (\<lambda>topic.
             rd_bind ob_bytes (\<lambda>payload.
               rd_return \<lparr>ev_id = \<lparr>ei_tx_id = tx, ei_nonce = nonce\<rparr>, ev_topic = topic, ev_payload = payload, ev_created_at_ms = created\<rparr>)))))) bs)
       (\<lambda>(ev, rest). if ev_topic ev = [] \<or> rest \<noteq> [] then Inl ObCorruptRecord else Inr ev)"

definition emit_event :: "deps \<Rightarrow> bytes \<Rightarrow> bytes \<Rightarrow> i64 \<Rightarrow> (transaction, outbox_error, event_id) act" where
  "emit_event D topic payload created =
     (if topic = [] then act_lift (Inl ObEmptyTopic)
      else act_bind (tx_random ObEntropyUnavailable) (\<lambda>nonce.
           act_bind (\<lambda>t. (Inr \<lparr>ei_tx_id = tx_id t, ei_nonce = nonce\<rparr>, t)) (\<lambda>i.
           act_bind (act_lift (encode_event \<lparr>ev_id = i, ev_topic = topic, ev_payload = payload, ev_created_at_ms = created\<rparr>)) (\<lambda>bs.
           act_bind (act_map_err ObStore (tx_put_internal D (event_key i) bs)) (\<lambda>_. act_return i)))))"

definition emit_outbox_event :: "deps \<Rightarrow> bytes \<Rightarrow> bytes \<Rightarrow> i64 \<Rightarrow> (store, outbox_error, event_id) act" where
  "emit_outbox_event D topic payload created = run_tx D True ObStore (emit_event D topic payload created)"

text \<open>The loop of \<open>outbox_events_after\<close>, which \<open>rpc.rs\<close> repeats for requests.\<close>

fun after_loop :: "(bytes \<Rightarrow> 'e + 'a) \<Rightarrow> ('a \<Rightarrow> u64) \<Rightarrow> u64 option \<Rightarrow> usize \<Rightarrow> 'a list \<Rightarrow> kv \<Rightarrow> 'e + 'a list" where
  "after_loop dec txof after limit events [] = Inr events"
| "after_loop dec txof after limit events ((k, encoded) # rest) =
     res_bind (dec encoded) (\<lambda>ev.
       if (case after of None \<Rightarrow> False | Some a \<Rightarrow> txof ev \<le> a) then after_loop dec txof after limit events rest
       else let events' = events @ [ev]
            in if length events' = limit then Inr events' else after_loop dec txof after limit events' rest)"

definition outbox_events_after :: "u64 option \<Rightarrow> usize \<Rightarrow> store \<Rightarrow> outbox_error + outbox_event list" where
  "outbox_events_after after limit s =
     after_loop decode_event (\<lambda>ev. ei_tx_id (ev_id ev)) after limit [] (scan_prefix s OUTBOX_PREFIX)"

definition ack_outbox_event :: "deps \<Rightarrow> event_id \<Rightarrow> (store, outbox_error, bool) act" where
  "ack_outbox_event D i s =
     (if \<not> contains_key s (event_key i) then (Inr False, s)
      else act_bind (act_map_err ObStore (store_delete_internal D (event_key i))) (\<lambda>_. act_return True) s)"

definition outbox_len :: "store \<Rightarrow> usize" where
  "outbox_len s = length (scan_prefix s OUTBOX_PREFIX)"

section \<open>Format and keys\<close>

definition wf_event :: "outbox_event \<Rightarrow> bool" where
  "wf_event ev \<longleftrightarrow> length (ei_nonce (ev_id ev)) = 16 \<and> ev_topic ev \<noteq> []"

lemma decode_event_encode:
  assumes wf: "wf_event ev" and e: "encode_event ev = Inr bs"
  shows "decode_event bs = Inr ev"
proof -
  from e obtain lt lp where l: "u32_try_from_len (length (ev_topic ev)) = Some lt" "u32_try_from_len (length (ev_payload ev)) = Some lp"
    and bs: "bs = OUTBOX_VERSION # to_le (ei_tx_id (ev_id ev)) @ ei_nonce (ev_id ev) @ to_le (ev_created_at_ms ev) @
      to_le lt @ ev_topic ev @ to_le lp @ ev_payload ev @ []"
    by (auto simp: encode_event_def ob_write_bytes_def res_bind_Inr_iff ok_or_Inr_iff)
  have n: "length (ei_nonce (ev_id ev)) = 16" "ev_topic ev \<noteq> []" using wf by (simp_all add: wf_event_def)
  show ?thesis unfolding decode_event_def bs ob_cursor
    by (simp add: codec_simps rd_bytes_append [OF l(1)] rd_bytes_append [OF l(2)] n del: append_Nil2)
qed

interpretation event_codec: codec encode_event decode_event wf_event
  by unfold_locales (rule decode_event_encode)

lemma event_key_eq: "length (ei_nonce i) = 16 \<Longrightarrow> length (ei_nonce j) = 16 \<Longrightarrow> event_key i = event_key j \<longleftrightarrow> i = j"
  by (cases i; cases j) (simp add: event_key_def)

lemma event_key_prefix [simp]: "prefix OUTBOX_PREFIX (event_key i)"
  by (simp add: event_key_def)

lemma outbox_space: "prefix OUTBOX_PREFIX k \<Longrightarrow> not_cdc k"
  by (rule other_space [of OUTBOX_PREFIX]) (simp_all add: OUTBOX_PREFIX_def CDC_PREFIX_def ascii_def)

section \<open>The pending events\<close>

definition pending_event :: "store \<Rightarrow> event_id \<Rightarrow> outbox_event option" where
  "pending_event s i = (case store_get s (event_key i) of None \<Rightarrow> None
     | Some v \<Rightarrow> (case decode_event v of Inl e \<Rightarrow> None | Inr ev \<Rightarrow> Some ev))"

definition outbox_inv :: "store \<Rightarrow> bool" where
  "outbox_inv s \<longleftrightarrow> store_wf s \<and> (\<forall>k v. prefix OUTBOX_PREFIX k \<longrightarrow> store_get s k = Some v \<longrightarrow>
     (\<exists>ev. decode_event v = Inr ev \<and> wf_event ev \<and> k = event_key (ev_id ev)))"

lemma emit_event_Inr:
  assumes "emit_event D topic payload created t = (Inr i, t')"
  obtains bs t1 nonce where "topic \<noteq> []" "os_entropy (st_os (tx_store t)) = Some nonce # os_entropy (st_os (tx_store t1))"
    "i = \<lparr>ei_tx_id = tx_id t, ei_nonce = nonce\<rparr>"
    "encode_event \<lparr>ev_id = i, ev_topic = topic, ev_payload = payload, ev_created_at_ms = created\<rparr> = Inr bs"
    "tx_ext [] t t1" "tx_put_internal D (event_key i) bs t1 = (Inr (), t')"
proof -
  have ne: "topic \<noteq> []" using assms by (auto simp: emit_event_def)
  with assms obtain nonce t1 bs where r: "tx_random ObEntropyUnavailable t = (Inr nonce, t1)"
    and i: "i = \<lparr>ei_tx_id = tx_id t1, ei_nonce = nonce\<rparr>"
    and bs: "encode_event \<lparr>ev_id = i, ev_topic = topic, ev_payload = payload, ev_created_at_ms = created\<rparr> = Inr bs"
    and p: "tx_put_internal D (event_key i) bs t1 = (Inr (), t')"
    by (auto simp: emit_event_def act_bind_Inr_iff act_map_err_iff simp del: act_bind_lift)
  have x: "tx_ext [] t t1" by (rule tx_random_ext [OF r])
  then have "tx_id t1 = tx_id t" by (simp add: tx_ext_def)
  moreover have "os_entropy (st_os (tx_store t)) = Some nonce # os_entropy (st_os (tx_store t1))"
    using r by (auto simp: tx_random_def ok_or_Inr_iff split: list.splits)
  ultimately show ?thesis using that [OF ne _ _ bs x p] i by simp
qed

lemma staging_emit [staging_intros]: "staging (emit_event D topic payload created)"
  unfolding emit_event_def by (intro staging_intros)

lemma logging_emit [logging_intros]: "logging D (emit_event D topic payload created)"
  unfolding emit_event_def by (intro logging_intros)

lemma emit_event_get:
  assumes "emit_event D topic payload created t = (Inr i, t')"
  obtains bs where "encode_event \<lparr>ev_id = i, ev_topic = topic, ev_payload = payload, ev_created_at_ms = created\<rparr> = Inr bs"
    "\<forall>k. tx_get_internal t' k = (if k = event_key i then Some bs else tx_get_internal t k)" "ei_tx_id i = tx_id t" "topic \<noteq> []"
proof -
  from assms obtain bs t1 where bs: "encode_event \<lparr>ev_id = i, ev_topic = topic, ev_payload = payload, ev_created_at_ms = created\<rparr> = Inr bs"
    and x: "tx_ext [] t t1" and p: "tx_put_internal D (event_key i) bs t1 = (Inr (), t')" and i: "ei_tx_id i = tx_id t" "topic \<noteq> []"
    by (rule emit_event_Inr) simp
  have "tx_get_internal t1 k = tx_get_internal t k" for k using tx_get_ext [OF x] by simp
  then show ?thesis using that [OF bs _ i] tx_kv.put_get [OF p] by simp
qed

text \<open>Reading: all pending events of later transactions in key order, cut at the limit; a limit of
  zero does not cut at all.\<close>

definition later_than :: "('a \<Rightarrow> u64) \<Rightarrow> u64 option \<Rightarrow> 'a \<Rightarrow> bool" where
  "later_than txof after x \<longleftrightarrow> (case after of None \<Rightarrow> True | Some a \<Rightarrow> a < txof x)"

definition cut :: "nat \<Rightarrow> 'a list \<Rightarrow> 'a list" where
  "cut limit xs = (if limit = 0 then xs else take limit xs)"

lemma after_loop_eq:
  assumes "list_all2 (\<lambda>kv x. dec (snd kv) = Inr x) es xs" and "limit = 0 \<or> length acc < limit"
  shows "after_loop dec txof after limit acc es =
    Inr (acc @ (if limit = 0 then filter (later_than txof after) xs else take (limit - length acc) (filter (later_than txof after) xs)))"
  using assms
proof (induction es xs arbitrary: acc rule: list_all2_induct)
  case (Cons kv es x xs)
  obtain k v where kv: "kv = (k, v)" by fastforce
  have n: "(case after of None \<Rightarrow> False | Some a \<Rightarrow> txof x \<le> a) \<longleftrightarrow> \<not> later_than txof after x"
    by (auto simp: later_than_def split: option.splits)
  show ?case
  proof (cases "length (acc @ [x]) = limit")
    case True
    then have "limit - length acc = 1" "limit \<noteq> 0" by simp_all
    then show ?thesis using Cons True kv n by (simp add: Let_def)
  next
    case False
    then have "limit = 0 \<or> length (acc @ [x]) < limit" using Cons.prems by auto
    moreover have "limit \<noteq> 0 \<Longrightarrow> limit - length acc = Suc (limit - length (acc @ [x]))" using Cons.prems False by auto
    ultimately show ?thesis using Cons False kv n by (auto simp: Let_def)
  qed
qed simp

lemma after_loop_start:
  assumes "list_all2 (\<lambda>kv x. dec (snd kv) = Inr x) es xs"
  shows "after_loop dec txof after limit [] es = Inr (cut limit (filter (later_than txof after) xs))"
  using after_loop_eq [OF assms, of limit "[]" txof after] by (cases "limit = 0") (simp_all add: cut_def)

lemma decodable_list:
  "\<forall>(k, v) \<in> set es. \<exists>x. dec v = Inr x \<and> P k x \<Longrightarrow>
     \<exists>xs. list_all2 (\<lambda>kv x. dec (snd kv) = Inr x) es xs \<and> list_all2 (\<lambda>kv x. P (fst kv) x) es xs"
proof (induction es)
  case (Cons kv es)
  then obtain xs where "list_all2 (\<lambda>kv x. dec (snd kv) = Inr x) es xs" "list_all2 (\<lambda>kv x. P (fst kv) x) es xs" by auto
  moreover obtain x where "dec (snd kv) = Inr x" "P (fst kv) x" using Cons.prems by (cases kv) auto
  ultimately show ?case by (intro exI [of _ "x # xs"]) simp
qed simp

text \<open>The pending events in reading order: by transaction, then by nonce.\<close>

lemma outbox_read:
  assumes "outbox_inv s"
  obtains evs where "\<And>after limit. outbox_events_after after limit s = Inr (cut limit (filter (later_than (\<lambda>ev. ei_tx_id (ev_id ev)) after) evs))"
    "set evs = {ev. pending_event s (ev_id ev) = Some ev}" "sorted_wrt (<) (map (event_key \<circ> ev_id) evs)" "outbox_len s = length evs"
proof -
  have wf: "store_wf s" using assms by (simp add: outbox_inv_def)
  let ?es = "scan_prefix s OUTBOX_PREFIX"
  have E: "(k, v) \<in> set ?es \<longleftrightarrow> prefix OUTBOX_PREFIX k \<and> store_get s k = Some v" for k v by (rule in_scan_prefix_iff [OF wf])
  have dec: "\<exists>x. decode_event v = Inr x \<and> wf_event x \<and> k = event_key (ev_id x)" if "prefix OUTBOX_PREFIX k" "store_get s k = Some v" for k v
    using assms that by (simp add: outbox_inv_def)
  then have "\<forall>(k, v) \<in> set ?es. \<exists>x. decode_event v = Inr x \<and> (wf_event x \<and> k = event_key (ev_id x))" using E by auto
  from decodable_list [where dec = decode_event and P = "\<lambda>k x. wf_event x \<and> k = event_key (ev_id x)", OF this]
  obtain evs where A: "list_all2 (\<lambda>kv x. decode_event (snd kv) = Inr x) ?es evs"
    and B: "list_all2 (\<lambda>kv x. wf_event x \<and> fst kv = event_key (ev_id x)) ?es evs" by blast
  have k: "map fst ?es = map (event_key \<circ> ev_id) evs"
    using B by (auto simp: list_all2_conv_all_nth intro!: nth_equalityI)
  have "sorted (map fst ?es)" "distinct (map fst ?es)"
    using sorted_scan_map distinct_scan_map wf by (auto simp: scan_prefix_def store_wf_def)
  then have so: "sorted_wrt (<) (map (event_key \<circ> ev_id) evs)" unfolding k by (simp only: strict_sorted_iff)
  have "ev \<in> set evs \<longleftrightarrow> pending_event s (ev_id ev) = Some ev" for ev
  proof
    assume "ev \<in> set evs"
    then obtain i where i: "i < length evs" "evs ! i = ev" by (auto simp: in_set_conv_nth)
    then have "(fst (?es ! i), snd (?es ! i)) \<in> set ?es" using A by (simp add: list_all2_lengthD)
    then have "store_get s (fst (?es ! i)) = Some (snd (?es ! i))" using E by blast
    then show "pending_event s (ev_id ev) = Some ev" using A B i by (auto simp: pending_event_def list_all2_conv_all_nth)
  next
    assume p: "pending_event s (ev_id ev) = Some ev"
    then obtain v where v: "store_get s (event_key (ev_id ev)) = Some v" "decode_event v = Inr ev"
      by (auto simp: pending_event_def split: option.splits sum.splits)
    then have "(event_key (ev_id ev), v) \<in> set ?es" using E by simp
    then obtain i where i: "i < length ?es" "?es ! i = (event_key (ev_id ev), v)" by (auto simp: in_set_conv_nth)
    then have "i < length evs" "Inr (evs ! i) = decode_event v" using A by (simp_all add: list_all2_conv_all_nth) (metis snd_conv)
    then have "i < length evs" "evs ! i = ev" using v(2) by simp_all
    then show "ev \<in> set evs" by auto
  qed
  then have "set evs = {ev. pending_event s (ev_id ev) = Some ev}" by blast
  moreover have "outbox_len s = length evs" using A by (simp add: outbox_len_def list_all2_lengthD)
  ultimately show ?thesis using that so after_loop_start [OF A] unfolding outbox_events_after_def by blast
qed

lemma ack_outbox_cases:
  assumes "ack_outbox_event D i s = (r, s')"
  shows "case r of Inl e \<Rightarrow> (\<forall>k. store_get s' k = store_get s k)
    | Inr b \<Rightarrow> b = contains_key s (event_key i) \<and> (\<forall>k. not_cdc k \<longrightarrow> store_get s' k = (if k = event_key i then None else store_get s k))"
  using assms store_kv.del_get store_kv.del_fail
  by (auto simp: ack_outbox_event_def contains_key_def act_bind_def act_map_err_def map_err_def split: if_splits sum.splits prod.splits)

end
