(* ===== verification/Rpc.thy ===== *)
theory Rpc
  imports Outbox
begin

text \<open>
  Durable request and reply (\<open>crates/voodoo-store-core/src/rpc.rs\<close>): pending requests and responses
  under two key prefixes. A request is answered by one transaction that removes it and writes its
  response; the lemmas show that it is answered at most once.
\<close>

section \<open>Model\<close>

definition REQUEST_PREFIX :: bytes where
  "REQUEST_PREFIX = 0xff # ascii ''vds:rpc:req:''"

definition RESPONSE_PREFIX :: bytes where
  "RESPONSE_PREFIX = 0xff # ascii ''vds:rpc:resp:''"

definition RPC_VERSION :: u8 where
  "RPC_VERSION = 1"

record rpc_id =
  ri_tx_id :: u64
  ri_nonce :: bytes

record rpc_request =
  rq_id :: rpc_id
  rq_method :: bytes
  rq_payload :: bytes
  rq_created_at_ms :: i64
  rq_deadline_ms :: "i64 option"

record rpc_response =
  rs_request_id :: rpc_id
  rs_payload :: bytes
  rs_completed_at_ms :: i64
  rs_is_error :: bool

record rpc_expire_report =
  re_scanned :: usize
  re_expired :: usize

datatype rpc_error =
    RpStore engine_error
  | RpEmptyMethod
  | RpFieldTooLarge
  | RpCorruptRecord
  | RpNotFound
  | RpAlreadyResponded
  | RpEntropyUnavailable

definition request_key :: "rpc_id \<Rightarrow> bytes" where
  "request_key i = REQUEST_PREFIX @ to_be (ri_tx_id i) @ ri_nonce i"

definition response_key :: "rpc_id \<Rightarrow> bytes" where
  "response_key i = RESPONSE_PREFIX @ to_be (ri_tx_id i) @ ri_nonce i"

definition rp_write_bytes :: "bytes \<Rightarrow> rpc_error + bytes" where
  "rp_write_bytes value = res_bind (ok_or RpFieldTooLarge (u32_try_from_len (length value))) (\<lambda>len. Inr (to_le len @ value))"

definition encode_request :: "rpc_request \<Rightarrow> rpc_error + bytes" where
  "encode_request rq =
     res_bind (rp_write_bytes (rq_method rq)) (\<lambda>meth.
     res_bind (rp_write_bytes (rq_payload rq)) (\<lambda>payload.
       Inr ([RPC_VERSION] @ to_le (ri_tx_id (rq_id rq)) @ ri_nonce (rq_id rq) @ to_le (rq_created_at_ms rq) @
            (case rq_deadline_ms rq of Some deadline \<Rightarrow> [1] @ to_le deadline | None \<Rightarrow> [0]) @ meth @ payload)))"

text \<open>The module's \<open>Cursor\<close>.\<close>

definition rp_take :: "nat \<Rightarrow> (rpc_error, bytes) reader" where
  "rp_take = rd_take RpCorruptRecord"

definition rp_u8 :: "(rpc_error, u8) reader" where
  "rp_u8 = rd_u8 RpCorruptRecord"

definition rp_u64 :: "(rpc_error, u64) reader" where
  "rp_u64 = rd_u64 RpCorruptRecord"

definition rp_i64 :: "(rpc_error, i64) reader" where
  "rp_i64 = rd_u64 RpCorruptRecord"

definition rp_array_16 :: "(rpc_error, bytes) reader" where
  "rp_array_16 = rp_take 16"

definition rp_bytes :: "(rpc_error, bytes) reader" where
  "rp_bytes = rd_bytes RpCorruptRecord"

lemmas rp_cursor = rp_take_def rp_u8_def rp_u64_def rp_i64_def rp_array_16_def rp_bytes_def

definition rd_deadline :: "(rpc_error, i64 option) reader" where
  "rd_deadline = rd_bind rp_u8 (\<lambda>b.
     if b = 0 then rd_return None
     else if b = 1 then rd_bind rp_i64 (\<lambda>d. rd_return (Some d))
     else rd_fail RpCorruptRecord)"

definition decode_request :: "bytes \<Rightarrow> rpc_error + rpc_request" where
  "decode_request bs =
     res_bind
       (rd_bind rp_u8 (\<lambda>version.
        if version \<noteq> RPC_VERSION then rd_fail RpCorruptRecord
        else rd_bind rp_u64 (\<lambda>tx.
             rd_bind rp_array_16 (\<lambda>nonce.
             rd_bind rp_i64 (\<lambda>created.
             rd_bind rd_deadline (\<lambda>deadline.
             rd_bind rp_bytes (\<lambda>meth.
             rd_bind rp_bytes (\<lambda>payload.
               rd_return \<lparr>rq_id = \<lparr>ri_tx_id = tx, ri_nonce = nonce\<rparr>, rq_method = meth, rq_payload = payload,
                 rq_created_at_ms = created, rq_deadline_ms = deadline\<rparr>))))))) bs)
       (\<lambda>(rq, rest). if rq_method rq = [] \<or> rest \<noteq> [] then Inl RpCorruptRecord else Inr rq)"

definition encode_response :: "rpc_response \<Rightarrow> rpc_error + bytes" where
  "encode_response rs =
     res_bind (rp_write_bytes (rs_payload rs)) (\<lambda>payload.
       Inr ([RPC_VERSION] @ to_le (ri_tx_id (rs_request_id rs)) @ ri_nonce (rs_request_id rs) @
            to_le (rs_completed_at_ms rs) @ [if rs_is_error rs then 1 else 0] @ payload))"

definition rd_is_error :: "(rpc_error, bool) reader" where
  "rd_is_error = rd_bind rp_u8 (\<lambda>b. if b = 0 then rd_return False else if b = 1 then rd_return True else rd_fail RpCorruptRecord)"

definition decode_response :: "bytes \<Rightarrow> rpc_error + rpc_response" where
  "decode_response bs =
     res_bind
       (rd_bind rp_u8 (\<lambda>version.
        if version \<noteq> RPC_VERSION then rd_fail RpCorruptRecord
        else rd_bind rp_u64 (\<lambda>tx.
             rd_bind rp_array_16 (\<lambda>nonce.
             rd_bind rp_i64 (\<lambda>completed.
             rd_bind rd_is_error (\<lambda>is_error.
             rd_bind rp_bytes (\<lambda>payload.
               rd_return \<lparr>rs_request_id = \<lparr>ri_tx_id = tx, ri_nonce = nonce\<rparr>, rs_payload = payload,
                 rs_completed_at_ms = completed, rs_is_error = is_error\<rparr>)))))) bs)
       (\<lambda>(rs, rest). if rest \<noteq> [] then Inl RpCorruptRecord else Inr rs)"

definition request_rpc :: "deps \<Rightarrow> bytes \<Rightarrow> bytes \<Rightarrow> i64 \<Rightarrow> i64 option \<Rightarrow> (transaction, rpc_error, rpc_id) act" where
  "request_rpc D meth payload created deadline =
     (if meth = [] then act_lift (Inl RpEmptyMethod)
      else act_bind (tx_random RpEntropyUnavailable) (\<lambda>nonce.
           act_bind (\<lambda>t. (Inr \<lparr>ri_tx_id = tx_id t, ri_nonce = nonce\<rparr>, t)) (\<lambda>i.
           act_bind (act_lift (encode_request \<lparr>rq_id = i, rq_method = meth, rq_payload = payload,
               rq_created_at_ms = created, rq_deadline_ms = deadline\<rparr>)) (\<lambda>bs.
           act_bind (act_map_err RpStore (tx_put_internal D (request_key i) bs)) (\<lambda>_. act_return i)))))"

definition submit_rpc_request :: "deps \<Rightarrow> bytes \<Rightarrow> bytes \<Rightarrow> i64 \<Rightarrow> i64 option \<Rightarrow> (store, rpc_error, rpc_id) act" where
  "submit_rpc_request D meth payload created deadline = run_tx D True RpStore (request_rpc D meth payload created deadline)"

definition pending_rpc_requests_after :: "u64 option \<Rightarrow> usize \<Rightarrow> store \<Rightarrow> rpc_error + rpc_request list" where
  "pending_rpc_requests_after after limit s =
     after_loop decode_request (\<lambda>rq. ri_tx_id (rq_id rq)) after limit [] (scan_prefix s REQUEST_PREFIX)"

definition get_rpc_response :: "store \<Rightarrow> rpc_id \<Rightarrow> rpc_error + rpc_response option" where
  "get_rpc_response s i = transpose_map decode_response (store_get s (response_key i))"

definition respond_rpc :: "deps \<Rightarrow> rpc_id \<Rightarrow> bytes \<Rightarrow> i64 \<Rightarrow> bool \<Rightarrow> (store, rpc_error, unit) act" where
  "respond_rpc D i payload completed is_error s =
     (if \<not> contains_key s (request_key i)
      then (Inl (if contains_key s (response_key i) then RpAlreadyResponded else RpNotFound), s)
      else run_tx D True RpStore
        (act_bind (act_map_err RpStore (tx_delete_internal D (request_key i))) (\<lambda>_.
         act_bind (act_lift (encode_response \<lparr>rs_request_id = i, rs_payload = payload, rs_completed_at_ms = completed, rs_is_error = is_error\<rparr>)) (\<lambda>bs.
           act_map_err RpStore (tx_put_internal D (response_key i) bs)))) s)"

definition ack_rpc_response :: "deps \<Rightarrow> rpc_id \<Rightarrow> (store, rpc_error, bool) act" where
  "ack_rpc_response D i s =
     (if \<not> contains_key s (response_key i) then (Inr False, s)
      else act_bind (act_map_err RpStore (store_delete_internal D (response_key i))) (\<lambda>_. act_return True) s)"

fun expire_loop :: "deps \<Rightarrow> i64 \<Rightarrow> usize \<Rightarrow> usize \<Rightarrow> kv \<Rightarrow> (store, rpc_error, usize) act" where
  "expire_loop D now limit expired [] = act_return expired"
| "expire_loop D now limit expired ((k, encoded) # rest) =
     (if expired = limit then act_return expired
      else act_bind (act_lift (decode_request encoded)) (\<lambda>rq.
           if (case rq_deadline_ms rq of None \<Rightarrow> False | Some deadline \<Rightarrow> sint deadline \<le> sint now)
           then act_bind (respond_rpc D (rq_id rq) (ascii ''deadline exceeded'') now True) (\<lambda>_.
                  expire_loop D now limit (expired + 1) rest)
           else expire_loop D now limit expired rest))"

definition expire_rpc_requests :: "deps \<Rightarrow> i64 \<Rightarrow> usize \<Rightarrow> (store, rpc_error, rpc_expire_report) act" where
  "expire_rpc_requests D now limit s =
     (let pending = scan_prefix s REQUEST_PREFIX
      in act_bind (expire_loop D now limit 0 pending) (\<lambda>expired.
           act_return \<lparr>re_scanned = length pending, re_expired = expired\<rparr>) s)"

section \<open>Formats and keys\<close>

definition wf_request :: "rpc_request \<Rightarrow> bool" where
  "wf_request rq \<longleftrightarrow> length (ri_nonce (rq_id rq)) = 16 \<and> rq_method rq \<noteq> []"

lemma decode_request_encode:
  assumes wf: "wf_request rq" and e: "encode_request rq = Inr bs"
  shows "decode_request bs = Inr rq"
proof -
  from e obtain lm lp where l: "u32_try_from_len (length (rq_method rq)) = Some lm" "u32_try_from_len (length (rq_payload rq)) = Some lp"
    and bs: "bs = RPC_VERSION # to_le (ri_tx_id (rq_id rq)) @ ri_nonce (rq_id rq) @ to_le (rq_created_at_ms rq) @
      (case rq_deadline_ms rq of Some deadline \<Rightarrow> [1] @ to_le deadline | None \<Rightarrow> [0]) @
      to_le lm @ rq_method rq @ to_le lp @ rq_payload rq @ []"
    by (auto simp: encode_request_def rp_write_bytes_def res_bind_Inr_iff ok_or_Inr_iff)
  have n: "length (ri_nonce (rq_id rq)) = 16" "rq_method rq \<noteq> []" using wf by (simp_all add: wf_request_def)
  show ?thesis unfolding decode_request_def bs rd_deadline_def rp_cursor
    by (cases "rq_deadline_ms rq")
      (simp_all add: codec_simps rd_bytes_append [OF l(1)] rd_bytes_append [OF l(2)] n del: append_Nil2)
qed

interpretation request_codec: codec encode_request decode_request wf_request
  by unfold_locales (rule decode_request_encode)

lemma decode_response_encode:
  assumes n: "length (ri_nonce (rs_request_id rs)) = 16" and e: "encode_response rs = Inr bs"
  shows "decode_response bs = Inr rs"
proof -
  from e obtain lp where l: "u32_try_from_len (length (rs_payload rs)) = Some lp"
    and bs: "bs = RPC_VERSION # to_le (ri_tx_id (rs_request_id rs)) @ ri_nonce (rs_request_id rs) @ to_le (rs_completed_at_ms rs) @
      (if rs_is_error rs then 1 else 0) # to_le lp @ rs_payload rs @ []"
    by (auto simp: encode_response_def rp_write_bytes_def res_bind_Inr_iff ok_or_Inr_iff)
  show ?thesis unfolding decode_response_def bs rd_is_error_def rp_cursor
    by (simp add: codec_simps rd_bytes_append [OF l] n del: append_Nil2)
qed

interpretation response_codec: codec encode_response decode_response "\<lambda>rs. length (ri_nonce (rs_request_id rs)) = 16"
  by unfold_locales (rule decode_response_encode)

lemma rpc_key_simps [simp]:
  "prefix REQUEST_PREFIX (request_key i)" "prefix RESPONSE_PREFIX (response_key i)" "request_key i \<noteq> response_key j" "response_key j \<noteq> request_key i"
  by (auto simp: request_key_def response_key_def REQUEST_PREFIX_def RESPONSE_PREFIX_def ascii_def)

lemma rpc_key_eq:
  "length (ri_nonce i) = 16 \<Longrightarrow> length (ri_nonce j) = 16 \<Longrightarrow> request_key i = request_key j \<longleftrightarrow> i = j"
  "length (ri_nonce i) = 16 \<Longrightarrow> length (ri_nonce j) = 16 \<Longrightarrow> response_key i = response_key j \<longleftrightarrow> i = j"
  by (cases i; cases j; simp add: request_key_def response_key_def)+

lemma rpc_space: "prefix REQUEST_PREFIX k \<Longrightarrow> not_cdc k" "prefix RESPONSE_PREFIX k \<Longrightarrow> not_cdc k"
  by (rule other_space [of REQUEST_PREFIX] other_space [of RESPONSE_PREFIX];
      simp add: REQUEST_PREFIX_def RESPONSE_PREFIX_def CDC_PREFIX_def ascii_def)+

section \<open>The life of a request\<close>

text \<open>Transaction numbers never fall, and a transaction that commits uses up one.\<close>

lemma run_tx_next_id:
  assumes st: "staging body" and run: "run_tx D emit conv body s = (r, s')"
  shows "st_next_tx_id s \<le> st_next_tx_id s'" "r = Inr v \<Longrightarrow> st_next_tx_id s < st_next_tx_id s'"
proof -
  have main: "st_next_tx_id s' = st_next_tx_id s + 1 \<and> st_next_tx_id s \<noteq> - 1 \<or> s' = s \<and> (\<exists>e. r = Inl e)"
  proof (cases "st_next_tx_id s = - 1")
    case True
    then show ?thesis using run by (auto simp: run_tx_def begin_with_cdc_eq)
  next
    case False
    obtain rb t1 where b: "body (fresh_tx emit s) = (rb, t1)" by (cases "body (fresh_tx emit s)")
    obtain ops where "tx_ext ops (fresh_tx emit s) t1" using stagingD [OF st b] by blast
    then have n: "st_next_tx_id (tx_store t1) = st_next_tx_id s + 1" by (simp add: tx_ext_def same_view_def)
    have "s' = tx_store t1 \<or> (\<exists>q. tx_commit D t1 = (q, s'))"
      using run False b by (auto simp: run_tx_def begin_with_cdc_eq split: sum.splits prod.splits)
    then have "st_next_tx_id s' = st_next_tx_id (tx_store t1)"
    proof
      assume "\<exists>q. tx_commit D t1 = (q, s')"
      then obtain q where q: "tx_commit D t1 = (q, s')" by blast
      then show ?thesis using tx_commit_Inl tx_commit_Inr(4) by (cases q) (fastforce simp: same_view_def)+
    qed simp
    then show ?thesis using n False by simp
  qed
  then show "st_next_tx_id s \<le> st_next_tx_id s'" using less_add_one_u64 by force
  show "r = Inr v \<Longrightarrow> st_next_tx_id s < st_next_tx_id s'" using main less_add_one_u64 by force
qed

lemma store_delete_next_id:
  "store_delete_internal D k s = (r, s') \<Longrightarrow> st_next_tx_id s \<le> st_next_tx_id s'"
  unfolding store_delete_internal_def by (rule run_tx_next_id(1) [OF staging_delete_internal])

abbreviation (input) respond_body where
  "respond_body D i rs \<equiv>
     act_bind (act_map_err RpStore (tx_delete_internal D (request_key i))) (\<lambda>_.
     act_bind (act_lift (encode_response rs)) (\<lambda>bs. act_map_err RpStore (tx_put_internal D (response_key i) bs)))"

lemma staging_respond: "staging (respond_body D i rs)"
  by (intro staging_intros)

lemma staging_request [staging_intros]: "staging (request_rpc D meth payload created deadline)"
  unfolding request_rpc_def by (intro staging_intros)

lemma logging_request [logging_intros]: "logging D (request_rpc D meth payload created deadline)"
  unfolding request_rpc_def by (intro logging_intros)

theorem respond_cases:
  assumes "respond_rpc D i payload completed is_error s = (r, s')"
  obtains (refused) e where "r = Inl e" "\<forall>k. store_get s' k = store_get s k" "st_next_tx_id s \<le> st_next_tx_id s'"
      "\<not> contains_key s (request_key i) \<Longrightarrow> s' = s \<and> e = (if contains_key s (response_key i) then RpAlreadyResponded else RpNotFound)"
  | (answered) bs where "r = Inr ()" "contains_key s (request_key i)" "st_next_tx_id s \<le> st_next_tx_id s'"
      "encode_response \<lparr>rs_request_id = i, rs_payload = payload, rs_completed_at_ms = completed, rs_is_error = is_error\<rparr> = Inr bs"
      "\<forall>k. not_cdc k \<longrightarrow> store_get s' k = (if k = response_key i then Some bs else if k = request_key i then None else store_get s k)"
proof (cases "contains_key s (request_key i)")
  case False
  then show ?thesis using assms by (intro refused) (auto simp: respond_rpc_def)
next
  case True
  let ?rs = "\<lparr>rs_request_id = i, rs_payload = payload, rs_completed_at_ms = completed, rs_is_error = is_error\<rparr>"
  have run: "run_tx D True RpStore (respond_body D i ?rs) s = (r, s')" using assms True by (simp add: respond_rpc_def)
  note n = run_tx_next_id(1) [OF staging_respond run]
  show ?thesis
  proof (cases r)
    case (Inl e)
    then show ?thesis using run_tx_fail_get [OF staging_respond] run n True by (intro refused) auto
  next
    case (Inr u)
    obtain t where t: "respond_body D i ?rs (fresh_tx True s) = (Inr u, t)" "\<And>k. not_cdc k \<Longrightarrow> store_get s' k = tx_get_internal t k"
      using run [unfolded Inr] by (rule run_tx_view [OF staging_respond]) blast
    then obtain t1 bs where b: "tx_delete_internal D (request_key i) (fresh_tx True s) = (Inr (), t1)"
        "encode_response ?rs = Inr bs" "tx_put_internal D (response_key i) bs t1 = (Inr (), t)"
      by (auto simp: act_bind_Inr_iff act_map_err_iff simp del: act_bind_lift)
    have "store_get s' k = (if k = response_key i then Some bs else if k = request_key i then None else store_get s k)" if "not_cdc k" for k
      using t(2) [OF that] tx_kv.del_get [OF b(1)] tx_kv.put_get [OF b(3)] by simp
    then show ?thesis using Inr True n b(2) by (intro answered) auto
  qed
qed

lemma request_Inr:
  assumes "submit_rpc_request D meth payload created deadline s = (Inr i, s')"
  obtains bs where "encode_request \<lparr>rq_id = i, rq_method = meth, rq_payload = payload, rq_created_at_ms = created, rq_deadline_ms = deadline\<rparr> = Inr bs"
    "\<forall>k. not_cdc k \<longrightarrow> store_get s' k = (if k = request_key i then Some bs else store_get s k)"
    "ri_tx_id i = st_next_tx_id s" "st_next_tx_id s < st_next_tx_id s'" "meth \<noteq> []"
proof -
  have run: "run_tx D True RpStore (request_rpc D meth payload created deadline) s = (Inr i, s')" using assms by (simp add: submit_rpc_request_def)
  obtain t where t: "request_rpc D meth payload created deadline (fresh_tx True s) = (Inr i, t)" "\<And>k. not_cdc k \<Longrightarrow> store_get s' k = tx_get_internal t k"
    using run by (rule run_tx_view [OF staging_request]) blast
  have ne: "meth \<noteq> []" using t(1) by (auto simp: request_rpc_def)
  with t(1) obtain nonce t1 bs where r: "tx_random RpEntropyUnavailable (fresh_tx True s) = (Inr nonce, t1)"
    and i: "i = \<lparr>ri_tx_id = tx_id t1, ri_nonce = nonce\<rparr>"
    and bs: "encode_request \<lparr>rq_id = i, rq_method = meth, rq_payload = payload, rq_created_at_ms = created, rq_deadline_ms = deadline\<rparr> = Inr bs"
    and p: "tx_put_internal D (request_key i) bs t1 = (Inr (), t)"
    by (auto simp: request_rpc_def act_bind_Inr_iff act_map_err_iff simp del: act_bind_lift)
  have "ri_tx_id i = st_next_tx_id s" using i tx_random_ext [OF r] by (simp add: tx_ext_def)
  moreover have "store_get s' k = (if k = request_key i then Some bs else store_get s k)" if "not_cdc k" for k
    using t(2) [OF that] tx_kv.put_get [OF p] tx_random_get [OF r] by simp
  ultimately show ?thesis using that [OF bs] run_tx_next_id(2) [OF staging_request run] ne by blast
qed

lemma ack_response_cases:
  assumes "ack_rpc_response D i s = (r, s')"
  shows "(\<forall>k. not_cdc k \<longrightarrow> store_get s' k = store_get s k) \<or> (\<forall>k. not_cdc k \<longrightarrow> store_get s' k = (if k = response_key i then None else store_get s k))"
    "st_next_tx_id s \<le> st_next_tx_id s'"
  using assms store_kv.del_get store_kv.del_fail store_delete_next_id
  by (auto simp: ack_rpc_response_def act_bind_def act_map_err_def map_err_def split: if_splits sum.splits prod.splits)

inductive rpc_op :: "deps \<Rightarrow> store \<Rightarrow> store \<Rightarrow> bool" for D where
  rpc_submit: "submit_rpc_request D meth payload created deadline s = (ri, s') \<Longrightarrow> rpc_op D s s'"
| rpc_respond: "respond_rpc D i payload completed is_error s = (ru, s') \<Longrightarrow> rpc_op D s s'"
| rpc_ack: "ack_rpc_response D i s = (rb, s') \<Longrightarrow> rpc_op D s s'"
| rpc_expire: "expire_rpc_requests D now limit s = (re, s') \<Longrightarrow> rpc_op D s s'"

text \<open>A request is settled with \<open>v\<close>: it is not pending, its number is used up, and its response is
  \<open>v\<close> until it is acknowledged.\<close>

definition settled :: "rpc_id \<Rightarrow> bytes \<Rightarrow> store \<Rightarrow> bool" where
  "settled i v s \<longleftrightarrow> \<not> contains_key s (request_key i) \<and> ri_tx_id i < st_next_tx_id s \<and>
     (store_get s (response_key i) = Some v \<or> store_get s (response_key i) = None)"

lemma request_key_tx: "request_key i = request_key j \<Longrightarrow> ri_tx_id i = ri_tx_id j"
  by (simp add: request_key_def)

lemma response_key_request: "response_key i = response_key j \<longleftrightarrow> request_key i = request_key j"
  by (simp add: request_key_def response_key_def)

lemma settled_respond:
  assumes "settled i v s" and "respond_rpc D j payload completed is_error s = (r, s')"
  shows "settled i v s'"
  using assms(2)
proof (cases rule: respond_cases)
  case (refused e)
  then show ?thesis using assms(1) by (auto simp: settled_def contains_key_def)
next
  case (answered bs)
  then have "request_key j \<noteq> request_key i" using assms(1) by (auto simp: settled_def)
  then show ?thesis using answered assms(1) rpc_space by (auto simp: settled_def contains_key_def response_key_request)
qed

lemma keeps_expire:
  assumes "\<And>i payload completed is_error. keeps P (respond_rpc D i payload completed is_error)"
  shows "keeps P (expire_loop D now limit n es)"
proof (induction es arbitrary: n)
  case (Cons kv es)
  then show ?case by (cases kv) (auto intro!: keeps_intros assms)
qed (auto intro: keeps_intros)

lemma expire_requests_loop:
  assumes "expire_rpc_requests D now limit s = (r, s')"
  obtains q where "expire_loop D now limit 0 (scan_prefix s REQUEST_PREFIX) s = (q, s')"
  using assms by (auto simp: expire_rpc_requests_def Let_def act_bind_def split: sum.splits prod.splits)

theorem settled_step: "rpc_op D s s' \<Longrightarrow> settled i v s \<Longrightarrow> settled i v s'"
proof (induction rule: rpc_op.induct)
  case (rpc_submit meth payload created deadline s rj s')
  show ?case
  proof (cases rj)
    case (Inl e)
    have run: "run_tx D True RpStore (request_rpc D meth payload created deadline) s = (Inl e, s')"
      using rpc_submit(1) Inl by (simp add: submit_rpc_request_def)
    show ?thesis using run_tx_fail_get [OF staging_request run] run_tx_next_id(1) [OF staging_request run] rpc_submit(2)
      by (auto simp: settled_def contains_key_def)
  next
    case (Inr j)
    obtain bs where g: "\<forall>k. not_cdc k \<longrightarrow> store_get s' k = (if k = request_key j then Some bs else store_get s k)"
      and j: "ri_tx_id j = st_next_tx_id s" "st_next_tx_id s < st_next_tx_id s'"
      using rpc_submit(1) [unfolded Inr] by (rule request_Inr) blast
    have "request_key i \<noteq> request_key j" using request_key_tx [of i j] j(1) rpc_submit(2) by (auto simp: settled_def)
    then show ?thesis using g j(2) rpc_submit(2) rpc_space by (auto simp: settled_def contains_key_def)
  qed
next
  case (rpc_respond j payload completed is_error s ru s')
  then show ?case using settled_respond by blast
next
  case (rpc_ack j s rb s')
  note A = ack_response_cases [OF rpc_ack(1)]
  have "store_get s' (request_key i) = store_get s (request_key i)"
    using A(1) rpc_space(1) [OF rpc_key_simps(1)] by (metis rpc_key_simps(3))
  moreover have "store_get s' (response_key i) = store_get s (response_key i) \<or> store_get s' (response_key i) = None"
    using A(1) rpc_space(2) [OF rpc_key_simps(2)] by metis
  ultimately show ?case using rpc_ack(2) A(2) by (auto simp: settled_def contains_key_def)
next
  case (rpc_expire now limit s re s')
  have "keeps (settled i v) (expire_loop D now limit 0 (scan_prefix s REQUEST_PREFIX))"
    using settled_respond by (intro keeps_expire) (auto simp: keeps_def)
  then show ?case using rpc_expire keepsD by (metis expire_requests_loop)
qed

lemma settled_steps: "(rpc_op D)\<^sup>*\<^sup>* s s' \<Longrightarrow> settled i v s \<Longrightarrow> settled i v s'"
  by (induction rule: rtranclp_induct) (auto intro: settled_step)

lemma rpc_next_id:
  assumes "rpc_op D s s'"
  shows "st_next_tx_id s \<le> st_next_tx_id s'"
  using assms
proof cases
  case (rpc_submit meth payload created deadline ri)
  then show ?thesis using run_tx_next_id(1) [OF staging_request] by (simp add: submit_rpc_request_def)
next
  case (rpc_respond i payload completed is_error ru)
  then show ?thesis by (cases rule: respond_cases) auto
next
  case (rpc_ack i rb)
  then show ?thesis by (rule ack_response_cases)
next
  case (rpc_expire now limit re)
  have "keeps (\<lambda>s. n \<le> st_next_tx_id s) (respond_rpc D i payload completed is_error)" for n i payload completed is_error
    unfolding keeps_def
  proof (intro allI impI)
    fix s r s' assume n: "n \<le> st_next_tx_id s" and "respond_rpc D i payload completed is_error s = (r, s')"
    from this(2) show "n \<le> st_next_tx_id s'" by (cases rule: respond_cases) (use n in \<open>auto intro: order.trans\<close>)
  qed
  then have "keeps (\<lambda>s'. st_next_tx_id s \<le> st_next_tx_id s') (expire_loop D now limit 0 (scan_prefix s REQUEST_PREFIX))"
    by (rule keeps_expire)
  then show ?thesis using rpc_expire keepsD by (metis (lifting) expire_requests_loop order.refl)
qed

lemma rpc_next_ids: "(rpc_op D)\<^sup>*\<^sup>* s s' \<Longrightarrow> st_next_tx_id s \<le> st_next_tx_id s'"
  by (induction rule: rtranclp_induct) (auto dest: rpc_next_id)

end
