(* ===== verification/Job_Model.thy ===== *)
theory Job_Model
  imports Progress
begin

text \<open>
  Durable jobs and schedules (\<open>crates/voodoo-store-core/src/jobs.rs\<close>): the records, their
  encodings and every operation. Identifiers are byte strings that the operating system's
  entropy provides (\<open>os_entropy\<close>); the loop that advances an interval schedule is a partial
  function, with \<open>None\<close> for a loop that does not end. The theorems are in \<open>Jobs\<close> and
  \<open>Schedules\<close>.
\<close>

section \<open>Records\<close>

definition JOB_PREFIX :: bytes where
  "JOB_PREFIX = 0xff # ascii ''vds:job:data:''"

definition HISTORY_PREFIX :: bytes where
  "HISTORY_PREFIX = 0xff # ascii ''vds:job:history:''"

definition SCHEDULE_PREFIX :: bytes where
  "SCHEDULE_PREFIX = 0xff # ascii ''vds:schedule:data:''"

definition JOB_VERSION :: u8 where
  "JOB_VERSION = 1"

datatype job_state = JReady | JLeased | JCompleted | JDead | JCancelled

datatype job_error =
    JStore engine_error
  | JEmptyHandler
  | JInvalidMaxAttempts
  | JInvalidSchedule
  | JFieldTooLarge
  | JCorruptRecord
  | JNotFound
  | JNotLeased
  | JLeaseMismatch u32 u32
  | JAttemptExhausted
  | JHistoryExhausted
  | JCountOverflow
  | JTimeOverflow
  | JEntropyUnavailable

fun job_state_u8 :: "job_state \<Rightarrow> u8" where
  "job_state_u8 JReady = 0"
| "job_state_u8 JLeased = 1"
| "job_state_u8 JCompleted = 2"
| "job_state_u8 JDead = 3"
| "job_state_u8 JCancelled = 4"

definition job_state_try_from :: "u8 \<Rightarrow> job_error + job_state" where
  "job_state_try_from b =
     (if b = 0 then Inr JReady else if b = 1 then Inr JLeased else if b = 2 then Inr JCompleted
      else if b = 3 then Inr JDead else if b = 4 then Inr JCancelled else Inl JCorruptRecord)"

record job_spec =
  js_handler :: bytes
  js_payload :: bytes
  js_available_at_ms :: i64
  js_deadline_ms :: "i64 option"
  js_priority :: i32
  js_max_attempts :: u32
  js_retry_backoff_ms :: u64
  js_idempotency_key :: "bytes option"

definition job_spec_new :: "bytes \<Rightarrow> bytes \<Rightarrow> job_spec" where
  "job_spec_new handler payload = \<lparr>js_handler = handler, js_payload = payload, js_available_at_ms = 0,
     js_deadline_ms = None, js_priority = 0, js_max_attempts = 3, js_retry_backoff_ms = 1000,
     js_idempotency_key = None\<rparr>"

record durable_job =
  j_id :: bytes
  j_state :: job_state
  j_handler :: bytes
  j_payload :: bytes
  j_available_at_ms :: i64
  j_deadline_ms :: "i64 option"
  j_priority :: i32
  j_attempts :: u32
  j_max_attempts :: u32
  j_retry_backoff_ms :: u64
  j_lease_until_ms :: i64
  j_lease_generation :: u32
  j_idempotency_key :: "bytes option"

record job_stats =
  jst_total :: u64
  jst_ready :: u64
  jst_leased :: u64
  jst_completed :: u64
  jst_dead :: u64
  jst_cancelled :: u64

datatype history_kind = HSubmitted | HClaimed | HCompleted | HRetryScheduled | HDead | HCancelled

record history_entry =
  h_sequence :: u64
  h_at_ms :: i64
  h_kind :: history_kind
  h_detail :: bytes

datatype schedule_mode = Once | Interval u64

record durable_schedule =
  sch_id :: bytes
  sch_job :: job_spec
  sch_mode :: schedule_mode
  sch_next_run_ms :: i64
  sch_enabled :: bool

record tick_report =
  tk_scanned :: usize
  tk_fired :: usize

section \<open>Encodings\<close>

definition I64_MIN :: i64 where
  "I64_MIN = 0x8000000000000000"

definition append_len :: "bytes \<Rightarrow> bytes \<Rightarrow> job_error + bytes" where
  "append_len out bs =
     (case u32_try_from_len (length bs) of
        None \<Rightarrow> Inl JFieldTooLarge
      | Some len \<Rightarrow> Inr (out @ to_le len @ bs))"

definition read_len :: "(job_error, bytes) reader" where
  "read_len = rd_bytes JCorruptRecord"

definition job_fixed :: "durable_job \<Rightarrow> bytes" where
  "job_fixed j = [JOB_VERSION, job_state_u8 (j_state j)] @ j_id j @ to_le (j_available_at_ms j) @
     to_le (case j_deadline_ms j of None \<Rightarrow> I64_MIN | Some d \<Rightarrow> d) @ to_le (j_priority j) @
     to_le (j_attempts j) @ to_le (j_max_attempts j) @ to_le (j_retry_backoff_ms j) @
     to_le (j_lease_until_ms j) @ to_le (j_lease_generation j)"

definition encode_job :: "durable_job \<Rightarrow> job_error + bytes" where
  "encode_job j =
     res_bind (append_len (job_fixed j) (j_handler j)) (\<lambda>out.
     res_bind (append_len out (j_payload j)) (\<lambda>out.
     case j_idempotency_key j of
       Some key \<Rightarrow> append_len (out @ [1]) key
     | None \<Rightarrow> Inr (out @ [0])))"

definition rd_idempotency_key :: "(job_error, bytes option) reader" where
  "rd_idempotency_key = rd_bind (rd_u8 JCorruptRecord) (\<lambda>tag.
     if tag = 0 then rd_return None
     else if tag = 1 then rd_bind read_len (\<lambda>key. rd_return (Some key))
     else rd_fail JCorruptRecord)"

definition decode_job :: "bytes \<Rightarrow> job_error + durable_job" where
  "decode_job bs =
     (if length bs < 66 \<or> bs ! 0 \<noteq> JOB_VERSION then Inl JCorruptRecord
      else res_bind (job_state_try_from (bs ! 1)) (\<lambda>state.
        let deadline_raw = from_le (slice 26 34 bs) :: i64
        in res_bind
             (rd_bind read_len (\<lambda>handler. rd_bind read_len (\<lambda>payload.
              rd_bind rd_idempotency_key (\<lambda>key. rd_return (handler, payload, key)))) (drop 66 bs))
             (\<lambda>((handler, payload, key), rest).
                if rest \<noteq> [] then Inl JCorruptRecord
                else Inr \<lparr>j_id = slice 2 18 bs, j_state = state, j_handler = handler, j_payload = payload,
                          j_available_at_ms = from_le (slice 18 26 bs),
                          j_deadline_ms = (if deadline_raw \<noteq> I64_MIN then Some deadline_raw else None),
                          j_priority = from_le (slice 34 38 bs), j_attempts = from_le (slice 38 42 bs),
                          j_max_attempts = from_le (slice 42 46 bs),
                          j_retry_backoff_ms = from_le (slice 46 54 bs),
                          j_lease_until_ms = from_le (slice 54 62 bs),
                          j_lease_generation = from_le (slice 62 66 bs), j_idempotency_key = key\<rparr>)))"

fun history_kind_u8 :: "history_kind \<Rightarrow> u8" where
  "history_kind_u8 HSubmitted = 0"
| "history_kind_u8 HClaimed = 1"
| "history_kind_u8 HCompleted = 2"
| "history_kind_u8 HRetryScheduled = 3"
| "history_kind_u8 HDead = 4"
| "history_kind_u8 HCancelled = 5"

definition history_kind_try_from :: "u8 \<Rightarrow> job_error + history_kind" where
  "history_kind_try_from b =
     (if b = 0 then Inr HSubmitted else if b = 1 then Inr HClaimed else if b = 2 then Inr HCompleted
      else if b = 3 then Inr HRetryScheduled else if b = 4 then Inr HDead else if b = 5 then Inr HCancelled
      else Inl JCorruptRecord)"

definition encode_history :: "history_entry \<Rightarrow> job_error + bytes" where
  "encode_history e =
     append_len ([JOB_VERSION] @ to_le (h_sequence e) @ to_le (h_at_ms e) @ [history_kind_u8 (h_kind e)]) (h_detail e)"

definition decode_history :: "bytes \<Rightarrow> job_error + history_entry" where
  "decode_history bs =
     (if length bs < 18 \<or> bs ! 0 \<noteq> JOB_VERSION then Inl JCorruptRecord
      else res_bind (history_kind_try_from (bs ! 17)) (\<lambda>kind.
        res_bind (read_len (drop 18 bs)) (\<lambda>(detail, rest).
          if rest \<noteq> [] then Inl JCorruptRecord
          else Inr \<lparr>h_sequence = from_le (slice 1 9 bs), h_at_ms = from_le (slice 9 17 bs),
                    h_kind = kind, h_detail = detail\<rparr>)))"

definition schedule_template :: "job_spec \<Rightarrow> durable_job" where
  "schedule_template spec = \<lparr>j_id = replicate 16 0, j_state = JReady, j_handler = js_handler spec,
     j_payload = js_payload spec, j_available_at_ms = js_available_at_ms spec,
     j_deadline_ms = js_deadline_ms spec, j_priority = js_priority spec, j_attempts = 0,
     j_max_attempts = js_max_attempts spec, j_retry_backoff_ms = js_retry_backoff_ms spec,
     j_lease_until_ms = 0, j_lease_generation = 0, j_idempotency_key = js_idempotency_key spec\<rparr>"

definition encode_schedule :: "durable_schedule \<Rightarrow> job_error + bytes" where
  "encode_schedule sc =
     res_bind (encode_job (schedule_template (sch_job sc))) (\<lambda>job.
       append_len ([JOB_VERSION] @ sch_id sc @ [if sch_enabled sc then 1 else 0] @ to_le (sch_next_run_ms sc) @
         (case sch_mode sc of Once \<Rightarrow> [0] | Interval every \<Rightarrow> [1] @ to_le every)) job)"

definition rd_schedule_mode :: "(job_error, schedule_mode) reader" where
  "rd_schedule_mode = rd_bind (rd_u8 JCorruptRecord) (\<lambda>tag.
     if tag = 0 then rd_return Once
     else if tag = 1 then
       rd_bind (rd_u64 JCorruptRecord) (\<lambda>every.
         if every = 0 then rd_fail JCorruptRecord else rd_return (Interval every))
     else rd_fail JCorruptRecord)"

definition job_spec_of :: "durable_job \<Rightarrow> job_spec" where
  "job_spec_of j = \<lparr>js_handler = j_handler j, js_payload = j_payload j,
     js_available_at_ms = j_available_at_ms j, js_deadline_ms = j_deadline_ms j,
     js_priority = j_priority j, js_max_attempts = j_max_attempts j,
     js_retry_backoff_ms = j_retry_backoff_ms j, js_idempotency_key = j_idempotency_key j\<rparr>"

definition decode_schedule :: "bytes \<Rightarrow> job_error + durable_schedule" where
  "decode_schedule bs =
     (if length bs < 27 \<or> bs ! 0 \<noteq> JOB_VERSION then Inl JCorruptRecord
      else if bs ! 17 \<noteq> 0 \<and> bs ! 17 \<noteq> 1 then Inl JCorruptRecord
      else res_bind
             (rd_bind rd_schedule_mode (\<lambda>mode. rd_bind read_len (\<lambda>job. rd_return (mode, job))) (drop 26 bs))
             (\<lambda>((mode, encoded_job), rest).
                if rest \<noteq> [] then Inl JCorruptRecord
                else res_bind (decode_job encoded_job) (\<lambda>template.
                  Inr \<lparr>sch_id = slice 1 17 bs, sch_job = job_spec_of template, sch_mode = mode,
                       sch_next_run_ms = from_le (slice 18 26 bs), sch_enabled = (bs ! 17 = 1)\<rparr>)))"

section \<open>Keys, validation, construction\<close>

definition job_key :: "bytes \<Rightarrow> bytes" where
  "job_key i = JOB_PREFIX @ i"

definition history_prefix :: "bytes \<Rightarrow> bytes" where
  "history_prefix i = HISTORY_PREFIX @ i"

definition history_key :: "bytes \<Rightarrow> u64 \<Rightarrow> bytes" where
  "history_key i q = history_prefix i @ to_be q"

definition decode_history_sequence :: "bytes \<Rightarrow> bytes \<Rightarrow> job_error + u64" where
  "decode_history_sequence i k =
     (if \<not> prefix (history_prefix i) k \<or> length k \<noteq> length (history_prefix i) + 8 then Inl JCorruptRecord
      else Inr (from_be (drop (length (history_prefix i)) k)))"

definition schedule_key :: "bytes \<Rightarrow> bytes" where
  "schedule_key i = SCHEDULE_PREFIX @ i"

definition validate_job_spec :: "job_spec \<Rightarrow> job_error + unit" where
  "validate_job_spec spec =
     (if js_handler spec = [] then Inl JEmptyHandler
      else if js_max_attempts spec = 0 then Inl JInvalidMaxAttempts else Inr ())"

definition validate_job_lease :: "durable_job \<Rightarrow> u32 \<Rightarrow> job_error + unit" where
  "validate_job_lease j generation =
     (if j_state j \<noteq> JLeased then Inl JNotLeased
      else if j_lease_generation j \<noteq> generation then Inl (JLeaseMismatch (j_lease_generation j) generation)
      else Inr ())"

definition random_id :: "(store, job_error, bytes) act" where
  "random_id s =
     (case os_entropy (st_os s) of
        [] \<Rightarrow> (Inl JEntropyUnavailable, s)
      | x # xs \<Rightarrow> (ok_or JEntropyUnavailable x, s\<lparr>st_os := (st_os s)\<lparr>os_entropy := xs\<rparr>\<rparr>))"

definition new_job :: "bytes \<Rightarrow> job_spec \<Rightarrow> durable_job" where
  "new_job i spec = \<lparr>j_id = i, j_state = JReady, j_handler = js_handler spec,
     j_payload = js_payload spec, j_available_at_ms = js_available_at_ms spec,
     j_deadline_ms = js_deadline_ms spec, j_priority = js_priority spec, j_attempts = 0,
     j_max_attempts = js_max_attempts spec, j_retry_backoff_ms = js_retry_backoff_ms spec,
     j_lease_until_ms = 0, j_lease_generation = 0, j_idempotency_key = js_idempotency_key spec\<rparr>"

definition build_job :: "job_spec \<Rightarrow> (store, job_error, durable_job) act" where
  "build_job spec =
     act_bind (act_lift (validate_job_spec spec)) (\<lambda>_.
     act_bind random_id (\<lambda>i. act_return (new_job i spec)))"

definition retry_delay_ms :: "durable_job \<Rightarrow> job_error + i64" where
  "retry_delay_ms j =
     (let multiplier = ucast (max (j_attempts j) 1) :: u64
      in res_bind (ok_or JTimeOverflow (checked_mul (j_retry_backoff_ms j) multiplier)) (\<lambda>base.
         let seed = foldl (+) 0 (j_id j) + (ucast (j_attempts j) :: u8);
             percent = 91 + ucast (seed mod 20) :: u64
         in res_bind (ok_or JTimeOverflow (checked_mul base percent)) (\<lambda>p.
            ok_or JTimeOverflow (i64_try_from_u64 (p div 100)))))"

section \<open>Persistence\<close>

definition append_history_tx ::
  "deps \<Rightarrow> bytes \<Rightarrow> u64 \<Rightarrow> history_entry \<Rightarrow> (transaction, job_error, unit) act" where
  "append_history_tx D i q e =
     act_bind (act_lift (encode_history e)) (\<lambda>bs. act_map_err JStore (tx_put_internal D (history_key i q) bs))"

text \<open>\<open>tx.put_internal(job_key(&job.id), encode_job(&job)?)?\<close>\<close>

definition put_job_tx :: "deps \<Rightarrow> durable_job \<Rightarrow> (transaction, job_error, unit) act" where
  "put_job_tx D j =
     act_bind (act_lift (encode_job j)) (\<lambda>bs. act_map_err JStore (tx_put_internal D (job_key (j_id j)) bs))"

definition next_history_sequence :: "store \<Rightarrow> bytes \<Rightarrow> job_error + u64" where
  "next_history_sequence s i =
     (case scan_prefix s (history_prefix i) of
        [] \<Rightarrow> Inr 0
      | e # es \<Rightarrow>
          res_bind (decode_history_sequence i (fst (last (e # es)))) (\<lambda>q.
            ok_or JHistoryExhausted (checked_add q 1)))"

definition persist_job :: "deps \<Rightarrow> durable_job \<Rightarrow> (store, job_error, unit) act" where
  "persist_job D j =
     act_bind (act_lift (encode_job j)) (\<lambda>bs. act_map_err JStore (store_put_internal D (job_key (j_id j)) bs))"

definition persist_job_with_history ::
  "deps \<Rightarrow> durable_job \<Rightarrow> i64 \<Rightarrow> history_kind \<Rightarrow> bytes \<Rightarrow> (store, job_error, unit) act" where
  "persist_job_with_history D j at kind detail =
     act_bind (\<lambda>s. (next_history_sequence s (j_id j), s)) (\<lambda>q.
     run_tx D True JStore
       (act_bind (put_job_tx D j) (\<lambda>_.
        append_history_tx D (j_id j) q \<lparr>h_sequence = q, h_at_ms = at, h_kind = kind, h_detail = detail\<rparr>)))"

section \<open>Jobs\<close>

fun find_active :: "bytes \<Rightarrow> kv \<Rightarrow> job_error + bytes option" where
  "find_active key [] = Inr None"
| "find_active key ((_, encoded) # rest) =
     res_bind (decode_job encoded) (\<lambda>j.
       if (j_state j = JReady \<or> j_state j = JLeased) \<and> j_idempotency_key j = Some key
       then Inr (Some (j_id j)) else find_active key rest)"

definition find_active_job_by_idempotency :: "store \<Rightarrow> bytes \<Rightarrow> job_error + bytes option" where
  "find_active_job_by_idempotency s key = find_active key (scan_prefix s JOB_PREFIX)"

definition submitted_entry :: "i64 \<Rightarrow> bytes \<Rightarrow> history_entry" where
  "submitted_entry now detail = \<lparr>h_sequence = 0, h_at_ms = now, h_kind = HSubmitted, h_detail = detail\<rparr>"

definition submit_job :: "deps \<Rightarrow> job_spec \<Rightarrow> i64 \<Rightarrow> (store, job_error, bytes) act" where
  "submit_job D spec now =
     act_bind (act_lift (validate_job_spec spec)) (\<lambda>_.
     act_bind (\<lambda>s. (case js_idempotency_key spec of
                      None \<Rightarrow> Inr None
                    | Some key \<Rightarrow> find_active_job_by_idempotency s key, s)) (\<lambda>existing.
     case existing of
       Some i \<Rightarrow> act_return i
     | None \<Rightarrow>
         act_bind (build_job spec) (\<lambda>j.
         run_tx D True JStore
           (act_bind (put_job_tx D j) (\<lambda>_.
            act_bind (append_history_tx D (j_id j) 0 (submitted_entry now [])) (\<lambda>_. act_return (j_id j)))))))"

definition get_job :: "store \<Rightarrow> bytes \<Rightarrow> job_error + durable_job option" where
  "get_job s i = transpose_map decode_job (store_get s (job_key i))"

definition reclaimable :: "i64 \<Rightarrow> durable_job \<Rightarrow> bool" where
  "reclaimable now j \<longleftrightarrow> j_state j = JReady \<or> (j_state j = JLeased \<and> sint (j_lease_until_ms j) \<le> sint now)"

definition past_deadline :: "i64 \<Rightarrow> durable_job \<Rightarrow> bool" where
  "past_deadline now j \<longleftrightarrow> (case j_deadline_ms j of None \<Rightarrow> False | Some d \<Rightarrow> sint d \<le> sint now)"

definition earlier :: "durable_job \<Rightarrow> durable_job \<Rightarrow> bool" where
  "earlier j current \<longleftrightarrow> sint (j_priority j) > sint (j_priority current) \<or>
     (j_priority j = j_priority current \<and> sint (j_available_at_ms j) < sint (j_available_at_ms current))"

fun claim_job_scan ::
  "i64 \<Rightarrow> bytes list \<Rightarrow> durable_job option \<Rightarrow> durable_job list \<Rightarrow> kv \<Rightarrow>
     job_error + durable_job option \<times> durable_job list" where
  "claim_job_scan now handlers candidate expired [] = Inr (candidate, expired)"
| "claim_job_scan now handlers candidate expired ((_, encoded) # rest) =
     res_bind (decode_job encoded) (\<lambda>j.
       if handlers \<noteq> [] \<and> j_handler j \<notin> set handlers then claim_job_scan now handlers candidate expired rest
       else if \<not> reclaimable now j then claim_job_scan now handlers candidate expired rest
       else if past_deadline now j then claim_job_scan now handlers candidate (expired @ [j]) rest
       else if j_state j = JReady \<and> sint (j_available_at_ms j) > sint now
       then claim_job_scan now handlers candidate expired rest
       else if (case candidate of None \<Rightarrow> True | Some current \<Rightarrow> earlier j current)
       then claim_job_scan now handlers (Some j) expired rest
       else claim_job_scan now handlers candidate expired rest)"

definition kill_expired :: "deps \<Rightarrow> i64 \<Rightarrow> durable_job \<Rightarrow> (store, job_error, unit) act" where
  "kill_expired D now j =
     persist_job_with_history D (j\<lparr>j_state := JDead, j_lease_until_ms := 0\<rparr>) now HDead (ascii ''deadline exceeded'')"

definition lease_candidate ::
  "deps \<Rightarrow> i64 \<Rightarrow> i64 \<Rightarrow> durable_job \<Rightarrow> (store, job_error, durable_job option) act" where
  "lease_candidate D now lease_until j =
     act_bind (act_lift (ok_or JAttemptExhausted (checked_add (j_attempts j) 1))) (\<lambda>attempts.
     if attempts > j_max_attempts j then
       act_bind (persist_job_with_history D (j\<lparr>j_attempts := attempts, j_state := JDead, j_lease_until_ms := 0\<rparr>)
         now HDead (ascii ''max attempts exceeded'')) (\<lambda>_. act_return None)
     else
       let j' = j\<lparr>j_attempts := attempts, j_state := JLeased, j_lease_until_ms := lease_until,
                 j_lease_generation := attempts\<rparr>
       in act_bind (persist_job_with_history D j' now HClaimed []) (\<lambda>_. act_return (Some j')))"

definition claim_job_for_handlers ::
  "deps \<Rightarrow> i64 \<Rightarrow> u64 \<Rightarrow> bytes list \<Rightarrow> (store, job_error, durable_job option) act" where
  "claim_job_for_handlers D now lease_duration_ms handlers =
     act_bind (act_lift (ok_or JTimeOverflow (i64_try_from_u64 lease_duration_ms))) (\<lambda>lease_duration.
     act_bind (act_lift (ok_or JTimeOverflow (checked_add_signed now lease_duration))) (\<lambda>lease_until.
     act_bind (\<lambda>s. (claim_job_scan now handlers None [] (scan_prefix s JOB_PREFIX), s)) (\<lambda>(candidate, expired).
     act_bind (act_for (kill_expired D now) expired) (\<lambda>_.
     case candidate of None \<Rightarrow> act_return None | Some j \<Rightarrow> lease_candidate D now lease_until j))))"

definition claim_job :: "deps \<Rightarrow> i64 \<Rightarrow> u64 \<Rightarrow> (store, job_error, durable_job option) act" where
  "claim_job D now lease_duration_ms = claim_job_for_handlers D now lease_duration_ms []"

text \<open>Reading a job inside an operation.\<close>

definition load_job :: "bytes \<Rightarrow> (store, job_error, durable_job option) act" where
  "load_job i s = (get_job s i, s)"

definition heartbeat_job :: "deps \<Rightarrow> bytes \<Rightarrow> u32 \<Rightarrow> i64 \<Rightarrow> u64 \<Rightarrow> (store, job_error, bool) act" where
  "heartbeat_job D i generation now lease_duration_ms =
     act_bind (load_job i) (\<lambda>r. case r of
       None \<Rightarrow> act_return False
     | Some j \<Rightarrow>
         if j_state j \<noteq> JLeased \<or> j_lease_generation j \<noteq> generation then act_return False
         else
           act_bind (act_lift (ok_or JTimeOverflow (i64_try_from_u64 lease_duration_ms))) (\<lambda>duration.
           act_bind (act_lift (ok_or JTimeOverflow (checked_add_signed now duration))) (\<lambda>lease_until.
           act_bind (persist_job D (j\<lparr>j_lease_until_ms := lease_until\<rparr>)) (\<lambda>_. act_return True))))"

definition leased_job :: "bytes \<Rightarrow> u32 \<Rightarrow> (store, job_error, durable_job) act" where
  "leased_job i generation =
     act_bind (load_job i) (\<lambda>r.
     act_bind (act_lift (ok_or JNotFound r)) (\<lambda>j.
     act_bind (act_lift (validate_job_lease j generation)) (\<lambda>_. act_return j)))"

definition complete_job :: "deps \<Rightarrow> bytes \<Rightarrow> u32 \<Rightarrow> i64 \<Rightarrow> (store, job_error, unit) act" where
  "complete_job D i generation now =
     act_bind (leased_job i generation) (\<lambda>j.
     persist_job_with_history D (j\<lparr>j_state := JCompleted, j_lease_until_ms := 0\<rparr>) now HCompleted [])"

definition failed_job :: "i64 \<Rightarrow> durable_job \<Rightarrow> job_error + durable_job \<times> history_kind" where
  "failed_job now j =
     (if j_attempts j \<ge> j_max_attempts j then Inr (j\<lparr>j_lease_until_ms := 0, j_state := JDead\<rparr>, HDead)
      else
        res_bind (retry_delay_ms j) (\<lambda>delay.
        res_bind (ok_or JTimeOverflow (checked_add_signed now delay)) (\<lambda>available.
        Inr (j\<lparr>j_lease_until_ms := 0, j_available_at_ms := available, j_state := JReady\<rparr>, HRetryScheduled))))"

definition fail_job :: "deps \<Rightarrow> bytes \<Rightarrow> u32 \<Rightarrow> i64 \<Rightarrow> bytes \<Rightarrow> (store, job_error, job_state) act" where
  "fail_job D i generation now detail =
     act_bind (leased_job i generation) (\<lambda>j.
     act_bind (act_lift (failed_job now j)) (\<lambda>(j', kind).
     act_bind (persist_job_with_history D j' now kind detail) (\<lambda>_. act_return (j_state j'))))"

definition release_job :: "deps \<Rightarrow> bytes \<Rightarrow> u32 \<Rightarrow> i64 \<Rightarrow> (store, job_error, bool) act" where
  "release_job D i generation now =
     act_bind (load_job i) (\<lambda>r. case r of
       None \<Rightarrow> act_return False
     | Some j \<Rightarrow>
         if j_state j \<noteq> JLeased \<or> j_lease_generation j \<noteq> generation then act_return False
         else
           act_bind (persist_job_with_history D
             (j\<lparr>j_state := JReady, j_available_at_ms := now, j_lease_until_ms := 0\<rparr>)
             now HRetryScheduled (ascii ''released'')) (\<lambda>_. act_return True))"

fun expired_leases :: "i64 \<Rightarrow> durable_job list \<Rightarrow> kv \<Rightarrow> job_error + durable_job list" where
  "expired_leases now expired [] = Inr expired"
| "expired_leases now expired ((_, encoded) # rest) =
     res_bind (decode_job encoded) (\<lambda>j.
       expired_leases now
         (if j_state j = JLeased \<and> sint (j_lease_until_ms j) \<le> sint now then expired @ [j] else expired) rest)"

definition release_expired :: "deps \<Rightarrow> i64 \<Rightarrow> durable_job \<Rightarrow> (store, job_error, unit) act" where
  "release_expired D now j =
     (if j_attempts j \<ge> j_max_attempts j then
        persist_job_with_history D (j\<lparr>j_lease_until_ms := 0, j_state := JDead\<rparr>) now HDead
          (ascii ''lease expired: max attempts exhausted'')
      else
        persist_job_with_history D (j\<lparr>j_lease_until_ms := 0, j_state := JReady, j_available_at_ms := now\<rparr>)
          now HRetryScheduled (ascii ''lease expired''))"

definition release_expired_jobs :: "deps \<Rightarrow> i64 \<Rightarrow> (store, job_error, usize) act" where
  "release_expired_jobs D now =
     act_bind (\<lambda>s. (expired_leases now [] (scan_prefix s JOB_PREFIX), s)) (\<lambda>expired.
     act_bind (act_for (release_expired D now) expired) (\<lambda>_. act_return (length expired)))"

definition retry_job :: "deps \<Rightarrow> bytes \<Rightarrow> i64 \<Rightarrow> (store, job_error, durable_job option) act" where
  "retry_job D i now =
     act_bind (load_job i) (\<lambda>r. case r of
       None \<Rightarrow> act_return None
     | Some j \<Rightarrow>
         if j_state j \<noteq> JDead then act_return None
         else
           let j' = j\<lparr>j_state := JReady, j_available_at_ms := now, j_attempts := 0, j_lease_until_ms := 0,
                     j_lease_generation := 0\<rparr>
           in act_bind (persist_job_with_history D j' now HRetryScheduled (ascii ''manual retry''))
                (\<lambda>_. act_return (Some j')))"

definition cancel_job :: "deps \<Rightarrow> bytes \<Rightarrow> i64 \<Rightarrow> (store, job_error, bool) act" where
  "cancel_job D i now =
     act_bind (load_job i) (\<lambda>r. case r of
       None \<Rightarrow> act_return False
     | Some j \<Rightarrow>
         if j_state j = JCompleted \<or> j_state j = JDead \<or> j_state j = JCancelled then act_return False
         else
           act_bind (persist_job_with_history D (j\<lparr>j_state := JCancelled, j_lease_until_ms := 0\<rparr>)
             now HCancelled []) (\<lambda>_. act_return True))"

definition list_jobs :: "store \<Rightarrow> job_error + durable_job list" where
  "list_jobs s =
     res_bind (map_result (\<lambda>(_, encoded). decode_job encoded) (scan_prefix s JOB_PREFIX)) (\<lambda>jobs.
       Inr (rev (sort_key (\<lambda>j. sint (j_available_at_ms j)) (sort_key j_id jobs))))"

definition count_job :: "durable_job \<Rightarrow> job_stats \<Rightarrow> job_error + job_stats" where
  "count_job j st =
     res_bind (ok_or JCountOverflow (checked_add (jst_total st) 1)) (\<lambda>tot.
     let st = st\<lparr>jst_total := tot\<rparr>;
         bump = (\<lambda>n f. res_bind (ok_or JCountOverflow (checked_add n 1)) (\<lambda>n. Inr (f n)))
     in case j_state j of
          JReady \<Rightarrow> bump (jst_ready st) (\<lambda>n. st\<lparr>jst_ready := n\<rparr>)
        | JLeased \<Rightarrow> bump (jst_leased st) (\<lambda>n. st\<lparr>jst_leased := n\<rparr>)
        | JCompleted \<Rightarrow> bump (jst_completed st) (\<lambda>n. st\<lparr>jst_completed := n\<rparr>)
        | JDead \<Rightarrow> bump (jst_dead st) (\<lambda>n. st\<lparr>jst_dead := n\<rparr>)
        | JCancelled \<Rightarrow> bump (jst_cancelled st) (\<lambda>n. st\<lparr>jst_cancelled := n\<rparr>))"

fun job_stats_loop :: "job_stats \<Rightarrow> kv \<Rightarrow> job_error + job_stats" where
  "job_stats_loop st [] = Inr st"
| "job_stats_loop st ((_, encoded) # rest) =
     res_bind (decode_job encoded) (\<lambda>j. res_bind (count_job j st) (\<lambda>st1. job_stats_loop st1 rest))"

definition job_stats_of :: "store \<Rightarrow> job_error + job_stats" where
  "job_stats_of s = job_stats_loop \<lparr>jst_total = 0, jst_ready = 0, jst_leased = 0, jst_completed = 0,
     jst_dead = 0, jst_cancelled = 0\<rparr> (scan_prefix s JOB_PREFIX)"

definition job_history :: "store \<Rightarrow> bytes \<Rightarrow> job_error + history_entry list" where
  "job_history s i =
     res_bind (map_result (\<lambda>(_, encoded). decode_history encoded) (scan_prefix s (history_prefix i)))
       (\<lambda>entries. Inr (sort_key h_sequence entries))"

section \<open>Schedules\<close>

definition create_schedule ::
  "deps \<Rightarrow> job_spec \<Rightarrow> schedule_mode \<Rightarrow> i64 \<Rightarrow> (store, job_error, bytes) act" where
  "create_schedule D spec mode first_run =
     act_bind (act_lift (validate_job_spec spec)) (\<lambda>_.
     if mode = Interval 0 then act_lift (Inl JInvalidSchedule)
     else
       act_bind random_id (\<lambda>i.
       act_bind (act_lift (encode_schedule \<lparr>sch_id = i, sch_job = spec, sch_mode = mode,
         sch_next_run_ms = first_run, sch_enabled = True\<rparr>)) (\<lambda>bs.
       act_bind (act_map_err JStore (store_put_internal D (schedule_key i) bs)) (\<lambda>_. act_return i))))"

definition get_schedule :: "store \<Rightarrow> bytes \<Rightarrow> job_error + durable_schedule option" where
  "get_schedule s i = transpose_map decode_schedule (store_get s (schedule_key i))"

definition set_schedule_enabled :: "deps \<Rightarrow> bytes \<Rightarrow> bool \<Rightarrow> (store, job_error, bool) act" where
  "set_schedule_enabled D i enabled =
     act_bind (\<lambda>s. (get_schedule s i, s)) (\<lambda>r. case r of
       None \<Rightarrow> act_return False
     | Some sc \<Rightarrow>
         act_bind (act_lift (encode_schedule (sc\<lparr>sch_enabled := enabled\<rparr>))) (\<lambda>bs.
         act_bind (act_map_err JStore (store_put_internal D (schedule_key i) bs)) (\<lambda>_. act_return True)))"

text \<open>\<open>while next <= now_ms { next = next.checked_add(every)?; }\<close>\<close>

partial_function (option) advance_next :: "i64 \<Rightarrow> i64 \<Rightarrow> i64 \<Rightarrow> (job_error + i64) option" where
  "advance_next now every nxt =
     (if sint now < sint nxt then Some (Inr nxt)
      else case checked_add_signed nxt every of
             None \<Rightarrow> Some (Inl JTimeOverflow)
           | Some nxt' \<Rightarrow> advance_next now every nxt')"

definition advance_schedule :: "i64 \<Rightarrow> durable_schedule \<Rightarrow> (job_error + durable_schedule) option" where
  "advance_schedule now sc =
     (case sch_mode sc of
        Once \<Rightarrow> Some (Inr (sc\<lparr>sch_enabled := False\<rparr>))
      | Interval every_ms \<Rightarrow>
          (case i64_try_from_u64 every_ms of
             None \<Rightarrow> Some (Inl JTimeOverflow)
           | Some every \<Rightarrow>
               map_option (\<lambda>r. res_bind r (\<lambda>nxt. Inr (sc\<lparr>sch_next_run_ms := nxt\<rparr>)))
                 (advance_next now every (sch_next_run_ms sc))))"

definition scheduled_spec :: "durable_schedule \<Rightarrow> job_spec" where
  "scheduled_spec sc = (sch_job sc)\<lparr>js_available_at_ms := sch_next_run_ms sc,
     js_idempotency_key := map_option (\<lambda>key. key @ to_be (sch_next_run_ms sc)) (js_idempotency_key (sch_job sc))\<rparr>"

definition fire_tx ::
  "deps \<Rightarrow> i64 \<Rightarrow> durable_job \<Rightarrow> durable_schedule \<Rightarrow> (transaction, job_error, unit) act" where
  "fire_tx D now j sc =
     act_bind (put_job_tx D j) (\<lambda>_.
     act_bind (append_history_tx D (j_id j) 0 (submitted_entry now (ascii ''scheduled''))) (\<lambda>_.
     act_bind (act_lift (encode_schedule sc)) (\<lambda>bs.
     act_map_err JStore (tx_put_internal D (schedule_key (sch_id sc)) bs))))"

definition fire_schedule ::
  "deps \<Rightarrow> i64 \<Rightarrow> durable_schedule \<Rightarrow> store \<Rightarrow> ((job_error + unit) \<times> store) option" where
  "fire_schedule D now sc s =
     (case build_job (scheduled_spec sc) s of
        (Inl e, s1) \<Rightarrow> Some (Inl e, s1)
      | (Inr j, s1) \<Rightarrow>
          (case advance_schedule now sc of
             None \<Rightarrow> None
           | Some (Inl e) \<Rightarrow> Some (Inl e, s1)
           | Some (Inr sc') \<Rightarrow> Some (run_tx D True JStore (fire_tx D now j sc') s1)))"

fun tick_loop ::
  "deps \<Rightarrow> i64 \<Rightarrow> usize \<Rightarrow> usize \<Rightarrow> kv \<Rightarrow> store \<Rightarrow> ((job_error + usize) \<times> store) option" where
  "tick_loop D now limit fired [] s = Some (Inr fired, s)"
| "tick_loop D now limit fired ((_, encoded) # rest) s =
     (if fired = limit then Some (Inr fired, s)
      else case decode_schedule encoded of
             Inl e \<Rightarrow> Some (Inl e, s)
           | Inr sc \<Rightarrow>
               if \<not> sch_enabled sc \<or> sint now < sint (sch_next_run_ms sc) then tick_loop D now limit fired rest s
               else case fire_schedule D now sc s of
                      None \<Rightarrow> None
                    | Some (Inl e, s1) \<Rightarrow> Some (Inl e, s1)
                    | Some (Inr _, s1) \<Rightarrow> tick_loop D now limit (fired + 1) rest s1)"

definition tick_schedules :: "deps \<Rightarrow> i64 \<Rightarrow> usize \<Rightarrow> store \<Rightarrow> ((job_error + tick_report) \<times> store) option" where
  "tick_schedules D now limit s =
     (let schedules = scan_prefix s SCHEDULE_PREFIX
      in map_option (\<lambda>(r, s'). (res_bind r (\<lambda>fired. Inr \<lparr>tk_scanned = length schedules, tk_fired = fired\<rparr>), s'))
           (tick_loop D now limit 0 schedules s))"

section \<open>Jobs inside a transaction\<close>

definition tx_build_job :: "job_spec \<Rightarrow> (transaction, job_error, durable_job) act" where
  "tx_build_job spec t = (case build_job spec (tx_store t) of (r, s) \<Rightarrow> (r, t\<lparr>tx_store := s\<rparr>))"

definition enqueue_job_tx ::
  "deps \<Rightarrow> job_spec \<Rightarrow> i64 \<Rightarrow> bytes \<Rightarrow> (transaction, job_error, bytes) act" where
  "enqueue_job_tx D spec now detail =
     act_bind (act_lift (validate_job_spec spec)) (\<lambda>_.
     act_bind (\<lambda>t. (case js_idempotency_key spec of
                      None \<Rightarrow> Inr None
                    | Some key \<Rightarrow> find_active key (tx_scan_prefix_internal t JOB_PREFIX), t)) (\<lambda>existing.
     case existing of
       Some i \<Rightarrow> act_return i
     | None \<Rightarrow>
         act_bind (tx_build_job spec) (\<lambda>j.
         act_bind (put_job_tx D j) (\<lambda>_.
         act_bind (append_history_tx D (j_id j) 0 (submitted_entry now detail)) (\<lambda>_. act_return (j_id j))))))"

end
