(* ===== verification/Domains.thy ===== *)
theory Domains
  imports Rpc Job_Model
begin

text \<open>
  Operations of other domains inside an application transaction
  (\<open>crates/voodoo-store-core/src/transaction_domains.rs\<close>, \<open>transactional.rs\<close>): queue pushes, stream
  appends, objects and jobs that share the commit of the transaction they are staged in. The lemmas
  show that they write exactly what the stand-alone operations write.
\<close>

section \<open>Model\<close>

definition OBJECT_PREFIX :: bytes where
  "OBJECT_PREFIX = 0xff # ascii ''vds:obj:data:''"

definition OBJECT_REF_PREFIX :: bytes where
  "OBJECT_REF_PREFIX = 0xff # ascii ''vds:obj:ref:''"

definition OBJECT_VERSION :: u8 where
  "OBJECT_VERSION = 1"

datatype domain_error =
    DtStore engine_error
  | DtEmptyName
  | DtNameTooLong
  | DtPayloadTooLarge
  | DtCorruptMetadata
  | DtCounterExhausted
  | DtObjectNotFound
  | DtEmptyReferenceName
  | DtReferenceNameTooLong

definition dt_queue_namespace :: "bytes \<Rightarrow> domain_error + bytes" where
  "dt_queue_namespace name =
     res_bind (ok_or DtNameTooLong (u32_try_from_len (length name))) (\<lambda>len. Inr (QUEUE_PREFIX @ to_be len @ name))"

definition encode_queue_message :: "u64 \<Rightarrow> bytes \<Rightarrow> push_options \<Rightarrow> domain_error + bytes" where
  "encode_queue_message i payload opts =
     res_bind (ok_or DtPayloadTooLarge (u32_try_from_len (length payload))) (\<lambda>payload_len.
       Inr ([1, 0] @ to_le i @ to_le (0 :: u32) @ to_le (po_priority opts) @ to_le (po_available_at_ms opts) @
            to_le (0 :: i64) @ to_le payload_len @ payload))"

fun dt_tuple_key :: "bytes \<Rightarrow> bytes list \<Rightarrow> domain_error + bytes" where
  "dt_tuple_key key [] = Inr key"
| "dt_tuple_key key (c # cs) =
     res_bind (ok_or DtNameTooLong (u32_try_from_len (length c))) (\<lambda>len. dt_tuple_key (key @ to_be len @ c) cs)"

definition encode_stream_entry :: "bytes \<Rightarrow> domain_error + bytes" where
  "encode_stream_entry payload =
     res_bind (ok_or DtPayloadTooLarge (u32_try_from_len (length payload))) (\<lambda>len. Inr ([1] @ to_le len @ payload))"

definition object_key :: "bytes \<Rightarrow> bytes" where
  "object_key i = OBJECT_PREFIX @ i"

definition reference_key :: "bytes \<Rightarrow> bytes \<Rightarrow> domain_error + bytes" where
  "reference_key namespace name =
     (if namespace = [] \<or> name = [] then Inl DtEmptyReferenceName
      else res_bind (ok_or DtReferenceNameTooLong (u32_try_from_len (length namespace))) (\<lambda>namespace_len.
           res_bind (ok_or DtReferenceNameTooLong (u32_try_from_len (length name))) (\<lambda>name_len.
             Inr (OBJECT_REF_PREFIX @ to_be namespace_len @ namespace @ to_be name_len @ name))))"

definition encode_object :: "bytes \<Rightarrow> domain_error + bytes" where
  "encode_object content =
     (if length content < 2 ^ 64 then Inr ([OBJECT_VERSION] @ to_le (of_nat (length content) :: u64) @ content)
      else Inl DtPayloadTooLarge)"

definition decode_u64 :: "bytes \<Rightarrow> domain_error + u64" where
  "decode_u64 bs = (if length bs = 8 then Inr (from_le bs) else Inl DtCorruptMetadata)"

text \<open>A counter read through the staged view.\<close>

definition staged_counter :: "u64 \<Rightarrow> bytes \<Rightarrow> (transaction, domain_error, u64) act" where
  "staged_counter start key t = (case tx_get_internal t key of None \<Rightarrow> Inr start | Some bs \<Rightarrow> decode_u64 bs, t)"

definition push_queue :: "deps \<Rightarrow> bytes \<Rightarrow> bytes \<Rightarrow> push_options \<Rightarrow> (transaction, domain_error, u64) act" where
  "push_queue D name payload opts =
     (if name = [] then act_lift (Inl DtEmptyName)
      else act_bind (act_lift (dt_queue_namespace name)) (\<lambda>namespace.
           act_bind (staged_counter 1 (namespace @ ascii '':next'')) (\<lambda>i.
           act_bind (act_lift (ok_or DtCounterExhausted (checked_add i 1))) (\<lambda>next.
           act_bind (act_map_err DtStore (tx_put_internal D (namespace @ ascii '':next'') (to_le next))) (\<lambda>_.
           act_bind (act_lift (encode_queue_message i payload opts)) (\<lambda>bs.
           act_bind (act_map_err DtStore (tx_put_internal D (namespace @ ascii '':m:'' @ to_be i) bs)) (\<lambda>_.
             act_return i)))))))"

definition append_stream_tx :: "deps \<Rightarrow> bytes \<Rightarrow> bytes \<Rightarrow> (transaction, domain_error, u64) act" where
  "append_stream_tx D name payload =
     (if name = [] then act_lift (Inl DtEmptyName)
      else act_bind (act_lift (dt_tuple_key STREAM_PREFIX [name])) (\<lambda>namespace.
           act_bind (staged_counter 0 (namespace @ ascii '':next'')) (\<lambda>offset.
           act_bind (act_lift (ok_or DtCounterExhausted (checked_add offset 1))) (\<lambda>next.
           act_bind (act_map_err DtStore (tx_put_internal D (namespace @ ascii '':next'') (to_le next))) (\<lambda>_.
           act_bind (act_lift (encode_stream_entry payload)) (\<lambda>bs.
           act_bind (act_map_err DtStore (tx_put_internal D (namespace @ ascii '':e:'' @ to_be offset) bs)) (\<lambda>_.
             act_return offset)))))))"

definition publish_topic :: "deps \<Rightarrow> bytes \<Rightarrow> bytes \<Rightarrow> (transaction, domain_error, u64) act" where
  "publish_topic = append_stream_tx"

definition put_object_tx :: "deps \<Rightarrow> bytes \<Rightarrow> (transaction, domain_error, bytes) act" where
  "put_object_tx D content =
     (let i = dep_sha256 D content
      in act_bind (\<lambda>t. (Inr (tx_get_internal t (object_key i)), t)) (\<lambda>existing.
           if existing = None
           then act_bind (act_lift (encode_object content)) (\<lambda>bs.
                act_bind (act_map_err DtStore (tx_put_internal D (object_key i) bs)) (\<lambda>_. act_return i))
           else act_return i))"

definition link_object_tx :: "deps \<Rightarrow> bytes \<Rightarrow> bytes \<Rightarrow> bytes \<Rightarrow> (transaction, domain_error, unit) act" where
  "link_object_tx D namespace name i =
     act_bind (\<lambda>t. (Inr (tx_get_internal t (object_key i)), t)) (\<lambda>existing.
       if existing = None then act_lift (Inl DtObjectNotFound)
       else act_bind (act_lift (reference_key namespace name)) (\<lambda>key. act_map_err DtStore (tx_put_internal D key i)))"

definition unlink_object_tx :: "deps \<Rightarrow> bytes \<Rightarrow> bytes \<Rightarrow> (transaction, domain_error, bool) act" where
  "unlink_object_tx D namespace name =
     act_bind (act_lift (reference_key namespace name)) (\<lambda>key.
     act_bind (\<lambda>t. (Inr (tx_get_internal t key), t)) (\<lambda>existing.
       if existing = None then act_return False
       else act_bind (act_map_err DtStore (tx_delete_internal D key)) (\<lambda>_. act_return True)))"

text \<open>\<open>transactional.rs\<close>; the error text of the remaining job errors is kept as the error itself.\<close>

datatype transactional_error =
    TrStore engine_error
  | TrEmptyHandler
  | TrInvalidMaxAttempts
  | TrFieldTooLarge
  | TrCorruptJobRecord
  | TrEntropyUnavailable
  | TrJob job_error

fun map_job_error :: "job_error \<Rightarrow> transactional_error" where
  "map_job_error (JStore e) = TrStore e"
| "map_job_error JEmptyHandler = TrEmptyHandler"
| "map_job_error JInvalidMaxAttempts = TrInvalidMaxAttempts"
| "map_job_error JFieldTooLarge = TrFieldTooLarge"
| "map_job_error JCorruptRecord = TrCorruptJobRecord"
| "map_job_error JEntropyUnavailable = TrEntropyUnavailable"
| "map_job_error other = TrJob other"

definition enqueue_job :: "deps \<Rightarrow> job_spec \<Rightarrow> i64 \<Rightarrow> (transaction, transactional_error, bytes) act" where
  "enqueue_job D spec now = act_map_err map_job_error (enqueue_job_tx D spec now (ascii ''transactional''))"

section \<open>Equivalence with the stand-alone operations\<close>

lemma encode_queue_message_iff:
  "encode_queue_message i payload opts = Inr bs \<longleftrightarrow> encode_message (pushed_message i payload opts) = Inr bs"
  by (auto simp: encode_queue_message_def encode_message_def pushed_message_def MESSAGE_VERSION_def res_bind_Inr_iff ok_or_Inr_iff split: option.splits)

lemma encode_stream_entry_iff: "encode_stream_entry payload = Inr bs \<longleftrightarrow> encode_entry payload = Inr bs"
  by (auto simp: encode_stream_entry_def encode_entry_def ENTRY_VERSION_def res_bind_Inr_iff ok_or_Inr_iff split: option.splits)

text \<open>What a staged push or append does, read through the transaction's own view.\<close>

lemma push_queue_Inr:
  assumes "queue_new name = Inr q"
  shows "push_queue D name payload opts t = (Inr i, t') \<longleftrightarrow>
    staged_counter 1 (q_meta_key q) t = (Inr i, t) \<and> i \<noteq> - 1 \<and> (\<exists>t1 bs. tx_put_internal D (q_meta_key q) (to_le (i + 1)) t = (Inr (), t1) \<and>
      encode_message (pushed_message i payload opts) = Inr bs \<and> tx_put_internal D (message_key q i) bs t1 = (Inr (), t'))"
proof -
  note Q = queue_new_Inr [OF assms]
  have ne: "name \<noteq> []" using assms by (auto simp: queue_new_def)
  have ns: "dt_queue_namespace name = Inr (queue_namespace name)"
    using Q(4) by (simp add: dt_queue_namespace_def queue_namespace_def u32_try_from_len_def)
  have k: "queue_namespace name @ ascii '':next'' = q_meta_key q" "queue_namespace name @ ascii '':m:'' @ to_be i = message_key q i" for i
    using Q by (simp_all add: message_key_def)
  show ?thesis using ne
    by (auto simp: push_queue_def act_bind_Inr_iff act_map_err_iff ok_or_Inr_iff checked_add_one_u64 encode_queue_message_iff ns k
        staged_counter_def simp del: act_bind_lift)
qed

lemma append_stream_Inr:
  assumes "stream_new name = Inr q"
  shows "append_stream_tx D name payload t = (Inr i, t') \<longleftrightarrow>
    staged_counter 0 (sn_next_key q) t = (Inr i, t) \<and> i \<noteq> - 1 \<and> length payload < 2 ^ 32 \<and>
    (\<exists>t1. tx_put_internal D (sn_next_key q) (to_le (i + 1)) t = (Inr (), t1) \<and> tx_put_internal D (entry_key q i) (entry_bytes payload) t1 = (Inr (), t'))"
proof -
  note Q = stream_new_Inr [OF assms]
  let ?n = "STREAM_PREFIX @ to_be (of_nat (length name) :: u32) @ name"
  have ns: "dt_tuple_key STREAM_PREFIX [name] = Inr ?n" using Q(3) by (simp add: u32_try_from_len_def)
  have k: "?n @ ascii '':next'' = sn_next_key q" "?n @ ascii '':e:'' @ to_be i = entry_key q i" for i
    using Q by (simp_all add: entry_key_def)
  show ?thesis using Q(2)
    by (auto simp: append_stream_tx_def act_bind_Inr_iff act_map_err_iff ok_or_Inr_iff checked_add_one_u64 encode_stream_entry_iff encode_entry_Inr ns k
        staged_counter_def simp del: act_bind_lift dt_tuple_key.simps append_assoc)
qed

lemma staged_counter_fresh:
  "staged_counter 1 (q_meta_key q) (fresh_tx emit s) = (Inr i, fresh_tx emit s) \<longleftrightarrow> queue_next_id q s = Inr i"
  "staged_counter 0 (sn_next_key p) (fresh_tx emit s) = (Inr i, fresh_tx emit s) \<longleftrightarrow> stream_next_offset p s = Inr i"
  by (auto simp: staged_counter_def decode_u64_def queue_next_id_def stream_next_offset_def split: option.splits)

theorem push_queue_equivalent:
  assumes "queue_new name = Inr q"
  shows "run_tx D True DtStore (push_queue D name payload opts) s = (Inr i, s') \<longleftrightarrow> push_with_options D q payload opts s = (Inr i, s')"
proof -
  have "push_with_options D q payload opts s = (Inr i, s') \<longleftrightarrow>
    (\<exists>j. queue_next_id q s = Inr j \<and> j \<noteq> - 1 \<and> run_tx D True QStore (push_body D q j (j + 1) (pushed_message j payload opts)) s = (Inr i, s'))"
    by (auto simp: push_with_options_def pushed_message_def Let_def res_bind_def ok_or_def checked_add_one_u64 split: sum.splits option.splits if_splits)
  also have "\<dots> \<longleftrightarrow> run_tx D True DtStore (push_queue D name payload opts) s = (Inr i, s')"
    unfolding run_tx_Inr_iff push_queue_Inr [OF assms] staged_counter_fresh
    by (auto simp: act_bind_Inr_iff act_map_err_iff simp del: act_bind_lift)
  finally show ?thesis by blast
qed

theorem append_stream_equivalent:
  assumes "stream_new name = Inr q"
  shows "run_tx D True DtStore (append_stream_tx D name payload) s = (Inr i, s') \<longleftrightarrow> stream_append D q payload s = (Inr i, s')"
proof -
  have "stream_append D q payload s = (Inr i, s') \<longleftrightarrow> (\<exists>j. stream_next_offset q s = Inr j \<and> j \<noteq> - 1 \<and> length payload < 2 ^ 32 \<and>
      run_tx D True MsStore (append_body D q j (j + 1) (entry_bytes payload)) s = (Inr i, s'))"
  proof
    assume "stream_append D q payload s = (Inr i, s')"
    then show "\<exists>j. stream_next_offset q s = Inr j \<and> j \<noteq> - 1 \<and> length payload < 2 ^ 32 \<and>
      run_tx D True MsStore (append_body D q j (j + 1) (entry_bytes payload)) s = (Inr i, s')" by (cases rule: append_cases) auto
  next
    assume "\<exists>j. stream_next_offset q s = Inr j \<and> j \<noteq> - 1 \<and> length payload < 2 ^ 32 \<and>
      run_tx D True MsStore (append_body D q j (j + 1) (entry_bytes payload)) s = (Inr i, s')"
    then show "stream_append D q payload s = (Inr i, s')"
      using encode_entry_Inr [of payload "entry_bytes payload"] by (auto simp: stream_append_def checked_add_one_u64)
  qed
  also have "\<dots> \<longleftrightarrow> run_tx D True DtStore (append_stream_tx D name payload) s = (Inr i, s')"
    unfolding run_tx_Inr_iff append_stream_Inr [OF assms] staged_counter_fresh
    by (auto simp: act_bind_Inr_iff act_map_err_iff)
  finally show ?thesis by blast
qed

section \<open>Transactions over several domains\<close>

text \<open>An application transaction: a sequence of calls on the transaction handle.\<close>

datatype domain_step =
    StepPut bytes bytes
  | StepDelete bytes
  | StepPush bytes bytes push_options
  | StepAppend bytes bytes
  | StepEmit bytes bytes i64
  | StepRequest bytes bytes i64 "i64 option"
  | StepJob job_spec i64
  | StepObject bytes
  | StepLink bytes bytes bytes
  | StepUnlink bytes bytes

datatype step_error =
    SeStore engine_error
  | SeDomain domain_error
  | SeOutbox outbox_error
  | SeRpc rpc_error
  | SeJob transactional_error

definition discard :: "(transaction, 'e, 'a) act \<Rightarrow> (transaction, 'e, unit) act" where
  "discard a = act_bind a (\<lambda>_. act_return ())"

fun domain_do :: "deps \<Rightarrow> domain_step \<Rightarrow> (transaction, step_error, unit) act" where
  "domain_do D (StepPut k v) = act_map_err SeStore (tx_put D k v)"
| "domain_do D (StepDelete k) = act_map_err SeStore (tx_delete D k)"
| "domain_do D (StepPush name payload opts) = act_map_err SeDomain (discard (push_queue D name payload opts))"
| "domain_do D (StepAppend name payload) = act_map_err SeDomain (discard (append_stream_tx D name payload))"
| "domain_do D (StepEmit topic payload created) = act_map_err SeOutbox (discard (emit_event D topic payload created))"
| "domain_do D (StepRequest meth payload created deadline) = act_map_err SeRpc (discard (request_rpc D meth payload created deadline))"
| "domain_do D (StepJob spec now) = act_map_err SeJob (discard (enqueue_job D spec now))"
| "domain_do D (StepObject content) = act_map_err SeDomain (discard (put_object_tx D content))"
| "domain_do D (StepLink namespace name i) = act_map_err SeDomain (link_object_tx D namespace name i)"
| "domain_do D (StepUnlink namespace name) = act_map_err SeDomain (discard (unlink_object_tx D namespace name))"

definition domain_tx :: "deps \<Rightarrow> domain_step list \<Rightarrow> (store, step_error, unit) act" where
  "domain_tx D steps = run_tx D True SeStore (act_for (domain_do D) steps)"

lemma staging_counter [staging_intros]: "staging (staged_counter n k)"
  unfolding staged_counter_def by (rule staging_read)

lemma logging_counter [logging_intros]: "logging D (staged_counter n k)"
  unfolding staged_counter_def by (rule logging_read)

lemma tx_build_job_ext: "tx_build_job spec t = (r, t') \<Longrightarrow> tx_ext [] t t'"
  by (auto simp: tx_build_job_def build_job_def random_id_def tx_ext_def same_view_def act_bind_def
      split: prod.splits sum.splits list.splits)

lemma staging_build_job [staging_intros]: "staging (tx_build_job spec)"
  using tx_build_job_ext by (fastforce simp: staging_def)

lemma logging_build_job [logging_intros]: "logging D (tx_build_job spec)"
proof (rule loggingI)
  fix rs t r t'
  assume l: "tx_log D t rs" and "tx_build_job spec t = (r, t')"
  then have "tx_log D t' rs"
    by (auto simp: tx_build_job_def build_job_def random_id_def act_bind_def tx_log_def durable_def store_log_def file_holds_def
        counters_ahead_def benign_def split: list.splits prod.splits sum.splits)
  then show "\<exists>rs'. extends_log rs rs' \<and> tx_log D t' rs'" using extends_log_refl by blast
qed

lemma staging_option [staging_intros]:
  "staging a \<Longrightarrow> (\<And>x. staging (f x)) \<Longrightarrow> staging (case c of None \<Rightarrow> a | Some x \<Rightarrow> f x)"
  by (cases c) auto

lemma logging_option [logging_intros]:
  "logging D a \<Longrightarrow> (\<And>x. logging D (f x)) \<Longrightarrow> logging D (case c of None \<Rightarrow> a | Some x \<Rightarrow> f x)"
  by (cases c) auto

lemmas domain_defs = push_queue_def append_stream_tx_def put_object_tx_def link_object_tx_def unlink_object_tx_def
  enqueue_job_def enqueue_job_tx_def put_job_tx_def append_history_tx_def discard_def Let_def

lemma staging_domain [staging_intros]: "staging (domain_do D st)"
  by (cases st) (auto simp: domain_defs intro!: staging_intros)

lemma logging_domain [logging_intros]: "logging D (domain_do D st)"
  by (cases st) (auto simp: domain_defs intro!: logging_intros)

end
