(* ===== verification/Jobs.thy ===== *)
theory Jobs
  imports Job_Model
begin

text \<open>
  What durable jobs promise: records read back as they were written, every transition is
  logged in the job's history in order, claims hand out the most urgent job within its attempt
  budget, and only the holder of the current lease settles a job.
\<close>

section \<open>Encodings\<close>

definition wf_job :: "durable_job \<Rightarrow> bool" where
  "wf_job j \<longleftrightarrow> length (j_id j) = 16 \<and> j_deadline_ms j \<noteq> Some I64_MIN"

lemma job_state_roundtrip [simp]: "job_state_try_from (job_state_u8 st) = Inr st"
  by (cases st) (simp_all add: job_state_try_from_def)

lemma history_kind_roundtrip [simp]: "history_kind_try_from (history_kind_u8 k) = Inr k"
  by (cases k) (simp_all add: history_kind_try_from_def)

lemma append_len_Inr:
  assumes "append_len out bs = Inr r"
  obtains l where "u32_try_from_len (length bs) = Some l" and "r = out @ to_le l @ bs"
  using assms by (auto simp: append_len_def split: option.splits)

lemma read_len_append [codec_simps]:
  "u32_try_from_len (length bs) = Some l \<Longrightarrow> read_len (to_le l @ bs @ rest) = Inr (bs, rest)"
  by (simp add: read_len_def codec_simps)

lemma length_job_fixed: "length (j_id j) = 16 \<Longrightarrow> length (job_fixed j) = 66"
  by (simp add: job_fixed_def)

lemma job_fixed_slices:
  assumes "length (j_id j) = 16"
  shows "(job_fixed j @ x) ! 0 = JOB_VERSION" "(job_fixed j @ x) ! Suc 0 = job_state_u8 (j_state j)"
    "slice 2 18 (job_fixed j @ x) = j_id j" "slice 18 26 (job_fixed j @ x) = to_le (j_available_at_ms j)"
    "slice 26 34 (job_fixed j @ x) = to_le (case j_deadline_ms j of None \<Rightarrow> I64_MIN | Some d \<Rightarrow> d)"
    "slice 34 38 (job_fixed j @ x) = to_le (j_priority j)" "slice 38 42 (job_fixed j @ x) = to_le (j_attempts j)"
    "slice 42 46 (job_fixed j @ x) = to_le (j_max_attempts j)"
    "slice 46 54 (job_fixed j @ x) = to_le (j_retry_backoff_ms j)"
    "slice 54 62 (job_fixed j @ x) = to_le (j_lease_until_ms j)"
    "slice 62 66 (job_fixed j @ x) = to_le (j_lease_generation j)" "drop 66 (job_fixed j @ x) = x"
  using assms by (simp_all add: job_fixed_def slice_def)

lemma encode_job_Inr:
  assumes "encode_job j = Inr bs"
  obtains lh lp tail where "u32_try_from_len (length (j_handler j)) = Some lh"
    and "u32_try_from_len (length (j_payload j)) = Some lp"
    and "bs = job_fixed j @ to_le lh @ j_handler j @ to_le lp @ j_payload j @ tail"
    and "rd_idempotency_key tail = Inr (j_idempotency_key j, [])"
proof -
  from assms obtain a b where ab: "append_len (job_fixed j) (j_handler j) = Inr a" "append_len a (j_payload j) = Inr b"
      and bs: "(case j_idempotency_key j of Some key \<Rightarrow> append_len (b @ [1]) key | None \<Rightarrow> Inr (b @ [0])) = Inr bs"
    by (auto simp: encode_job_def res_bind_Inr_iff)
  obtain lh where lh: "u32_try_from_len (length (j_handler j)) = Some lh" "a = job_fixed j @ to_le lh @ j_handler j"
    using ab(1) by (rule append_len_Inr)
  obtain lp where lp: "u32_try_from_len (length (j_payload j)) = Some lp" "b = a @ to_le lp @ j_payload j"
    using ab(2) by (rule append_len_Inr)
  show ?thesis
  proof (cases "j_idempotency_key j")
    case None
    then show ?thesis using that [OF lh(1) lp(1), of "[0]"] bs lh lp
      by (simp add: rd_idempotency_key_def codec_simps)
  next
    case (Some key)
    then obtain lk where lk: "u32_try_from_len (length key) = Some lk" "bs = (b @ [1]) @ to_le lk @ key"
      using bs by (auto elim: append_len_Inr)
    have "rd_idempotency_key (1 # to_le lk @ key) = Inr (Some key, [])"
      using read_len_append [OF lk(1), of "[]"] by (simp add: rd_idempotency_key_def codec_simps)
    then show ?thesis using that [OF lh(1) lp(1), of "1 # to_le lk @ key"] lk lh lp Some by simp
  qed
qed

text \<open>What comes back is the job itself, up to the one deadline that the format cannot
  represent.\<close>

definition stored_job :: "durable_job \<Rightarrow> durable_job" where
  "stored_job j = j\<lparr>j_deadline_ms := (if j_deadline_ms j = Some I64_MIN then None else j_deadline_ms j)\<rparr>"

lemma decode_job_stored:
  assumes id: "length (j_id j) = 16" and enc: "encode_job j = Inr bs"
  shows "decode_job bs = Inr (stored_job j)"
proof -
  from enc obtain lh lp tail where l: "u32_try_from_len (length (j_handler j)) = Some lh"
      "u32_try_from_len (length (j_payload j)) = Some lp"
      and bs: "bs = job_fixed j @ to_le lh @ j_handler j @ to_le lp @ j_payload j @ tail"
      and tail: "rd_idempotency_key tail = Inr (j_idempotency_key j, [])"
    by (rule encode_job_Inr)
  have r: "rd_bind read_len (\<lambda>handler. rd_bind read_len (\<lambda>payload.
      rd_bind rd_idempotency_key (\<lambda>key. rd_return (handler, payload, key))))
      (to_le lh @ j_handler j @ to_le lp @ j_payload j @ tail) = Inr ((j_handler j, j_payload j, j_idempotency_key j), [])"
    using read_len_append [OF l(1)] read_len_append [OF l(2)] tail
    by (simp add: rd_bind_def rd_return_def)
  show ?thesis
    unfolding bs using r length_job_fixed [OF id]
    by (simp add: decode_job_def job_fixed_slices [OF id] stored_job_def Let_def split: option.split)
qed

lemma decode_job_encode: "wf_job j \<Longrightarrow> encode_job j = Inr bs \<Longrightarrow> decode_job bs = Inr j"
  using decode_job_stored [of j bs] by (simp add: wf_job_def stored_job_def)

interpretation job_codec: codec encode_job decode_job wf_job
  by unfold_locales (rule decode_job_encode)

lemma decode_job_wf: "decode_job bs = Inr j \<Longrightarrow> wf_job j"
  by (auto simp: decode_job_def res_bind_Inr_iff wf_job_def slice_def Let_def split: if_splits prod.splits)

lemma decode_history_encode:
  assumes "encode_history e = Inr bs"
  shows "decode_history bs = Inr e"
proof -
  let ?h = "[JOB_VERSION] @ to_le (h_sequence e) @ to_le (h_at_ms e) @ [history_kind_u8 (h_kind e)]"
  obtain l where l: "u32_try_from_len (length (h_detail e)) = Some l" and bs: "bs = ?h @ to_le l @ h_detail e"
    using assms unfolding encode_history_def by (rule append_len_Inr)
  have "read_len (to_le l @ h_detail e) = Inr (h_detail e, [])" using read_len_append [OF l, of "[]"] by simp
  then show ?thesis unfolding bs by (simp add: decode_history_def slice_def nth_append)
qed

interpretation history_codec: codec encode_history decode_history "\<lambda>_. True"
  by unfold_locales (simp add: decode_history_encode)

definition wf_schedule :: "durable_schedule \<Rightarrow> bool" where
  "wf_schedule sc \<longleftrightarrow> length (sch_id sc) = 16 \<and> js_deadline_ms (sch_job sc) \<noteq> Some I64_MIN \<and> sch_mode sc \<noteq> Interval 0"

lemma job_spec_of_template [simp]: "job_spec_of (schedule_template spec) = spec"
  by (simp add: job_spec_of_def schedule_template_def)

lemma wf_job_template: "js_deadline_ms spec \<noteq> Some I64_MIN \<Longrightarrow> wf_job (schedule_template spec)"
  by (simp add: wf_job_def schedule_template_def)

lemma decode_schedule_encode:
  assumes wf: "wf_schedule sc" and enc: "encode_schedule sc = Inr bs"
  shows "decode_schedule bs = Inr sc"
proof -
  let ?mode = "case sch_mode sc of Once \<Rightarrow> [0] | Interval every \<Rightarrow> [1] @ to_le every"
  let ?pre = "[JOB_VERSION] @ sch_id sc @ [if sch_enabled sc then 1 else 0] @ to_le (sch_next_run_ms sc)"
  from enc obtain job where job: "encode_job (schedule_template (sch_job sc)) = Inr job"
    and "append_len (?pre @ ?mode) job = Inr bs" by (auto simp: encode_schedule_def res_bind_Inr_iff)
  then obtain l where l: "u32_try_from_len (length job) = Some l" and bs: "bs = ?pre @ ?mode @ to_le l @ job"
    by (auto elim: append_len_Inr)
  have id: "length (sch_id sc) = 16" using wf by (simp add: wf_schedule_def)
  have dj: "decode_job job = Inr (schedule_template (sch_job sc))"
    using decode_job_encode [OF wf_job_template job] wf by (simp add: wf_schedule_def)
  have rl: "read_len (to_le l @ job) = Inr (job, [])" using read_len_append [OF l, of "[]"] by simp
  have "rd_schedule_mode (?mode @ to_le l @ job) = Inr (sch_mode sc, to_le l @ job)"
    using wf by (cases "sch_mode sc") (auto simp: rd_schedule_mode_def codec_simps wf_schedule_def)
  then have rd: "rd_bind rd_schedule_mode (\<lambda>mode. rd_bind read_len (\<lambda>job. rd_return (mode, job))) (?mode @ to_le l @ job)
      = Inr ((sch_mode sc, job), [])"
    using rl by (simp add: rd_bind_def rd_return_def)
  have len: "27 \<le> length bs" unfolding bs using id by (simp split: schedule_mode.split)
  have sl: "drop 26 bs = ?mode @ to_le l @ job" "bs ! 0 = JOB_VERSION" "bs ! 17 = (if sch_enabled sc then 1 else 0)"
    "slice (Suc 0) 17 bs = sch_id sc" "slice 18 26 bs = to_le (sch_next_run_ms sc)"
    unfolding bs using id by (simp_all add: slice_def nth_append)
  show ?thesis using len rd dj by (simp add: decode_schedule_def sl)
qed

interpretation schedule_codec: codec encode_schedule decode_schedule wf_schedule
  by unfold_locales (rule decode_schedule_encode)

section \<open>Keys\<close>

lemma job_spaces:
  "prefix JOB_PREFIX k \<Longrightarrow> not_cdc k" "prefix HISTORY_PREFIX k \<Longrightarrow> not_cdc k" "prefix SCHEDULE_PREFIX k \<Longrightarrow> not_cdc k"
  "prefix JOB_PREFIX k \<Longrightarrow> \<not> prefix HISTORY_PREFIX k" "prefix JOB_PREFIX k \<Longrightarrow> \<not> prefix SCHEDULE_PREFIX k"
  "prefix HISTORY_PREFIX k \<Longrightarrow> \<not> prefix SCHEDULE_PREFIX k"
  by (rule other_space; simp add: JOB_PREFIX_def HISTORY_PREFIX_def SCHEDULE_PREFIX_def CDC_PREFIX_def ascii_def)+

lemma job_key_simps [simp]:
  "prefix JOB_PREFIX (job_key i)" "job_key i = job_key i' \<longleftrightarrow> i = i'" "prefix HISTORY_PREFIX (history_key i q)"
  "prefix (history_prefix i) (history_key i q)" "history_key i q = history_key i q' \<longleftrightarrow> q = q'"
  "prefix SCHEDULE_PREFIX (schedule_key i)" "schedule_key i = schedule_key i' \<longleftrightarrow> i = i'"
  by (auto simp: job_key_def history_key_def history_prefix_def schedule_key_def)

lemma job_key_distinct [simp]:
  "job_key i \<noteq> history_key i' q" "job_key i \<noteq> schedule_key i'" "history_key i' q \<noteq> schedule_key i"
  "history_key i' q \<noteq> job_key i" "schedule_key i' \<noteq> job_key i" "schedule_key i \<noteq> history_key i' q"
  using job_spaces(4-6) job_key_simps(1,3,6) by metis+

lemma history_key_less: "history_key i q < history_key i q' \<longleftrightarrow> q < q'"
  by (simp add: history_key_def append_less_cancel to_be_less_iff)

lemma history_key_inj: "length i = length i' \<Longrightarrow> history_key i q = history_key i' q' \<longleftrightarrow> i = i' \<and> q = q'"
  by (auto simp: history_key_def history_prefix_def)

interpretation job_space: object_space tx_get_internal "tx_put_internal D" "tx_delete_internal D" "\<lambda>_. True"
  encode_job decode_job wf_job job_key "\<lambda>_. True"
  by unfold_locales simp_all

interpretation job_store: object_space store_get "store_put_internal D" "store_delete_internal D" not_cdc
  encode_job decode_job wf_job job_key "\<lambda>_. True"
  by unfold_locales (simp_all add: job_spaces(1))

interpretation schedule_space: object_space tx_get_internal "tx_put_internal D" "tx_delete_internal D" "\<lambda>_. True"
  encode_schedule decode_schedule wf_schedule schedule_key "\<lambda>_. True"
  by unfold_locales simp_all

interpretation schedule_store: object_space store_get "store_put_internal D" "store_delete_internal D" not_cdc
  encode_schedule decode_schedule wf_schedule schedule_key "\<lambda>_. True"
  by unfold_locales (simp_all add: job_spaces(3))

interpretation history_space: object_space tx_get_internal "tx_put_internal D" "tx_delete_internal D" "\<lambda>_. True"
  encode_history decode_history "\<lambda>_. True" "\<lambda>(i, q). history_key i q" "\<lambda>(i, q). length i = 16"
  by unfold_locales (auto simp: history_key_inj)

section \<open>The job table\<close>

definition jobs :: "store \<Rightarrow> bytes \<Rightarrow> durable_job option" where
  "jobs s i = (case get_job s i of Inl _ \<Rightarrow> None | Inr r \<Rightarrow> r)"

text \<open>Attempts and lease generations go together, and a leased job is within its budget.\<close>

definition lease_ok :: "durable_job \<Rightarrow> bool" where
  "lease_ok j \<longleftrightarrow> j_lease_generation j \<le> j_attempts j \<and>
     (j_state j = JLeased \<longrightarrow> j_lease_generation j = j_attempts j \<and> j_attempts j \<le> j_max_attempts j)"

definition job_inv :: "store \<Rightarrow> bool" where
  "job_inv s \<longleftrightarrow> store_wf s \<and> (\<forall>k v. prefix JOB_PREFIX k \<longrightarrow> store_get s k = Some v \<longrightarrow>
     (\<exists>j. decode_job v = Inr j \<and> k = job_key (j_id j) \<and> lease_ok j))"

lemma job_inv_wf: "job_inv s \<Longrightarrow> store_wf s"
  by (simp add: job_inv_def)

lemma job_inv_cases:
  assumes "job_inv s"
  shows "store_get s (job_key i) = None \<and> jobs s i = None \<and> get_job s i = Inr None \<or>
    (\<exists>v j. store_get s (job_key i) = Some v \<and> decode_job v = Inr j \<and> j_id j = i \<and> lease_ok j \<and> wf_job j \<and>
       jobs s i = Some j \<and> get_job s i = Inr (Some j))"
proof (cases "store_get s (job_key i)")
  case None
  then show ?thesis by (simp add: jobs_def get_job_def)
next
  case (Some v)
  then obtain j where "decode_job v = Inr j" "job_key i = job_key (j_id j)" "lease_ok j"
    using assms unfolding job_inv_def by (meson job_key_simps(1))
  then show ?thesis using Some decode_job_wf by (auto simp: jobs_def get_job_def)
qed

lemma job_inv_get:
  assumes "job_inv s"
  shows "get_job s i = Inr (jobs s i)" and "jobs s i = Some j \<Longrightarrow> j_id j = i \<and> lease_ok j \<and> wf_job j"
    and "jobs s i = Some j \<longleftrightarrow> (\<exists>v. store_get s (job_key i) = Some v \<and> decode_job v = Inr j)"
  using job_inv_cases [OF assms, of i] by auto

lemma in_job_scan:
  assumes inv: "job_inv s" and d: "decode_job v = Inr j"
  shows "(k, v) \<in> set (scan_prefix s JOB_PREFIX) \<longleftrightarrow> k = job_key (j_id j) \<and> store_get s k = Some v"
proof -
  have "k = job_key (j_id j)" if "prefix JOB_PREFIX k" "store_get s k = Some v"
    using inv that d unfolding job_inv_def by (metis Inr_inject)
  then show ?thesis
    unfolding in_scan_prefix_iff [OF job_inv_wf [OF inv]] using job_key_simps(1) by blast
qed

lemma jobs_scan:
  assumes "job_inv s"
  shows "(\<exists>k v. (k, v) \<in> set (scan_prefix s JOB_PREFIX) \<and> decode_job v = Inr j) \<longleftrightarrow> jobs s (j_id j) = Some j"
proof
  assume "\<exists>k v. (k, v) \<in> set (scan_prefix s JOB_PREFIX) \<and> decode_job v = Inr j"
  then obtain k v where kv: "(k, v) \<in> set (scan_prefix s JOB_PREFIX)" "decode_job v = Inr j" by blast
  then show "jobs s (j_id j) = Some j"
    using in_job_scan [OF assms kv(2), of k] job_inv_get(3) [OF assms, of "j_id j" j] by auto
next
  assume "jobs s (j_id j) = Some j"
  then obtain v where v: "store_get s (job_key (j_id j)) = Some v" "decode_job v = Inr j"
    using job_inv_get(3) [OF assms] by blast
  then show "\<exists>k v. (k, v) \<in> set (scan_prefix s JOB_PREFIX) \<and> decode_job v = Inr j"
    using in_job_scan [OF assms v(2)] by blast
qed

text \<open>Writing a job and an entry of its history.\<close>

abbreviation (input) save_body where
  "save_body D j q e \<equiv> act_bind (put_job_tx D j) (\<lambda>_. append_history_tx D (j_id j) q e)"

lemma put_job_tx_get:
  assumes "put_job_tx D j t = (Inr u, t')"
  obtains bs where "encode_job j = Inr bs"
    and "\<And>k. tx_get_internal t' k = (if k = job_key (j_id j) then Some bs else tx_get_internal t k)"
  using assms tx_kv.put_get
  by (auto simp: put_job_tx_def act_bind_Inr_iff act_map_err_iff simp del: act_bind_lift)

lemma append_history_tx_get:
  assumes "append_history_tx D i q e t = (Inr u, t')"
  obtains bs where "encode_history e = Inr bs"
    and "\<And>k. tx_get_internal t' k = (if k = history_key i q then Some bs else tx_get_internal t k)"
  using assms tx_kv.put_get
  by (auto simp: append_history_tx_def act_bind_Inr_iff act_map_err_iff simp del: act_bind_lift)

lemma staging_job [staging_intros]: "staging (put_job_tx D j)" "staging (append_history_tx D i q e)"
  unfolding put_job_tx_def append_history_tx_def by (intro staging_intros)+

lemma logging_job [logging_intros]: "logging D (put_job_tx D j)" "logging D (append_history_tx D i q e)"
  unfolding put_job_tx_def append_history_tx_def by (intro logging_intros)+

lemma persist_history_Inr:
  assumes "persist_job_with_history D j at kind detail s = (Inr u, s')"
  obtains q jb hb where "next_history_sequence s (j_id j) = Inr q" and "encode_job j = Inr jb"
    and "encode_history \<lparr>h_sequence = q, h_at_ms = at, h_kind = kind, h_detail = detail\<rparr> = Inr hb"
    and "\<And>k. not_cdc k \<Longrightarrow> store_get s' k = (if k = history_key (j_id j) q then Some hb
      else if k = job_key (j_id j) then Some jb else store_get s k)"
proof -
  from assms obtain q where q: "next_history_sequence s (j_id j) = Inr q"
    and run: "run_tx D True JStore (save_body D j q \<lparr>h_sequence = q, h_at_ms = at, h_kind = kind, h_detail = detail\<rparr>) s = (Inr u, s')"
    by (auto simp: persist_job_with_history_def act_bind_Inr_iff)
  let ?e = "\<lparr>h_sequence = q, h_at_ms = at, h_kind = kind, h_detail = detail\<rparr>"
  have st: "staging (save_body D j q ?e)" by (intro staging_intros)
  from run obtain t where t: "save_body D j q ?e (fresh_tx True s) = (Inr u, t)"
      "\<And>k. not_cdc k \<Longrightarrow> store_get s' k = tx_get_internal t k"
    by (rule run_tx_view [OF st]) blast
  then obtain t1 where t1: "put_job_tx D j (fresh_tx True s) = (Inr (), t1)" "append_history_tx D (j_id j) q ?e t1 = (Inr u, t)"
    by (auto simp: act_bind_Inr_iff)
  obtain jb where jb: "encode_job j = Inr jb"
      "\<And>k. tx_get_internal t1 k = (if k = job_key (j_id j) then Some jb else tx_get_internal (fresh_tx True s) k)"
    using t1(1) by (rule put_job_tx_get) blast
  obtain hb where hb: "encode_history ?e = Inr hb"
      "\<And>k. tx_get_internal t k = (if k = history_key (j_id j) q then Some hb else tx_get_internal t1 k)"
    using t1(2) by (rule append_history_tx_get) blast
  show ?thesis by (rule that [OF q jb(1) hb(1)]) (simp add: t(2) hb(2) jb(2))
qed

lemma persist_history_fail:
  assumes "persist_job_with_history D j at kind detail s = (Inl e, s')"
  shows "store_get s' k = store_get s k"
proof -
  have st: "staging (save_body D j q h)" for q h by (intro staging_intros)
  show ?thesis using assms run_tx_fail_get [OF st]
    by (auto simp: persist_job_with_history_def act_bind_Inl_iff)
qed

lemma persist_history_wf:
  assumes "persist_job_with_history D j at kind detail s = (r, s')" and "store_wf s"
  shows "store_wf s'"
proof -
  have st: "staging (save_body D j q h)" for q h by (intro staging_intros)
  show ?thesis using assms run_tx_wf [OF st]
    by (auto simp: persist_job_with_history_def act_bind_def split: sum.splits)
qed

lemma persist_history_recoverable:
  assumes "persist_job_with_history D j at kind detail s = (r, s')" and "recoverable D s"
  shows "recoverable D s'"
proof -
  have lg: "logging D (save_body D j q h)" for q h by (intro logging_intros)
  show ?thesis using assms recoverable_run [OF lg]
    by (auto simp: persist_job_with_history_def act_bind_def split: sum.splits)
qed

lemma job_update:
  assumes inv: "job_inv s" and j: "decode_job jb = Inr j" "lease_ok j" and wf: "store_wf s'"
    and get: "\<And>k. prefix JOB_PREFIX k \<Longrightarrow> store_get s' k = (if k = job_key (j_id j) then Some jb else store_get s k)"
  shows "job_inv s'" and "jobs s' = (jobs s)(j_id j \<mapsto> j)"
proof -
  show "jobs s' = (jobs s)(j_id j \<mapsto> j)"
    using get [OF job_key_simps(1)] j(1) by (auto simp: fun_eq_iff jobs_def get_job_def)
  have "\<exists>j. decode_job v = Inr j \<and> k = job_key (j_id j) \<and> lease_ok j"
    if "prefix JOB_PREFIX k" "store_get s' k = Some v" for k v
    using that get [OF that(1)] inv j unfolding job_inv_def by (auto split: if_splits)
  then show "job_inv s'" using wf by (simp add: job_inv_def)
qed

lemma persist_history_spec:
  assumes inv: "job_inv s" and j: "wf_job j" "lease_ok j" and p: "persist_job_with_history D j at kind detail s = (Inr u, s')"
  shows "job_inv s' \<and> jobs s' = (jobs s)(j_id j \<mapsto> j)"
proof -
  from p obtain q jb hb where P: "encode_job j = Inr jb"
    "\<And>k. not_cdc k \<Longrightarrow> store_get s' k = (if k = history_key (j_id j) q then Some hb
      else if k = job_key (j_id j) then Some jb else store_get s k)"
    by (rule persist_history_Inr) blast
  have "store_get s' k = (if k = job_key (j_id j) then Some jb else store_get s k)" if "prefix JOB_PREFIX k" for k
    using P(2) [OF job_spaces(1) [OF that]] job_spaces(4) [OF that] job_key_simps(3) by auto
  from job_update [OF inv decode_job_encode [OF j(1) P(1)] j(2) persist_history_wf [OF p job_inv_wf [OF inv]] this] show ?thesis by blast
qed

section \<open>History\<close>

text \<open>The history of a job: entries numbered from zero, each under the key of its number.\<close>

definition history_of :: "store \<Rightarrow> bytes \<Rightarrow> history_entry list \<Rightarrow> bool" where
  "history_of s i es \<longleftrightarrow>
     list_all2 (\<lambda>kv e. fst kv = history_key i (h_sequence e) \<and> decode_history (snd kv) = Inr e)
       (scan_prefix s (history_prefix i)) es \<and>
     map h_sequence es = map of_nat [0..<length es] \<and> length es < 2 ^ 64"

lemma history_of_nth:
  assumes "history_of s i es" and "n < length es"
  shows "h_sequence (es ! n) = of_nat n"
  using assms by (metis (no_types, lifting) history_of_def add_0 length_map length_upt diff_zero nth_map nth_upt)

lemma decode_history_sequence_key [simp]: "decode_history_sequence i (history_key i q) = Inr q"
  by (simp add: decode_history_sequence_def history_key_def)

lemma history_next:
  assumes h: "history_of s i es"
  shows "next_history_sequence s i = Inr (of_nat (length es))"
proof (cases es rule: rev_cases)
  case Nil
  then show ?thesis using h by (simp add: history_of_def next_history_sequence_def)
next
  case (snoc es' e)
  let ?sc = "scan_prefix s (history_prefix i)"
  have l2: "list_all2 (\<lambda>kv e. fst kv = history_key i (h_sequence e) \<and> decode_history (snd kv) = Inr e) ?sc (es' @ [e])"
    using h snoc by (simp add: history_of_def)
  then obtain sc' kv where sc: "?sc = sc' @ [kv]" "fst kv = history_key i (h_sequence e)"
    by (auto simp: list_all2_append2 list_all2_Cons2)
  have e: "h_sequence e = of_nat (length es')"
    using history_of_nth [OF h, of "length es'"] snoc by simp
  have lt: "length es' + 1 < 2 ^ 64" using h snoc by (simp add: history_of_def)
  then have c: "checked_add (of_nat (length es') :: u64) 1 = Some (of_nat (length es))"
    using snoc by (simp add: checked_add_def unat_of_nat_u64)
  have "next_history_sequence s i =
      res_bind (decode_history_sequence i (fst (last ?sc))) (\<lambda>q. ok_or JHistoryExhausted (checked_add q 1))"
  proof (cases ?sc)
    case (Cons a list)
    then show ?thesis by (simp add: next_history_sequence_def)
  qed (use sc(1) in simp)
  then show ?thesis using sc e c by simp
qed

text \<open>A persisted transition is the next entry of the job's history, and nobody else's.\<close>

theorem history_appended:
  assumes wf: "store_wf s" and id: "length (j_id j) = 16" and h: "history_of s (j_id j) es" and room: "length es + 1 < 2 ^ 64"
    and p: "persist_job_with_history D j at kind detail s = (Inr u, s')"
  shows "history_of s' (j_id j) (es @ [\<lparr>h_sequence = of_nat (length es), h_at_ms = at, h_kind = kind, h_detail = detail\<rparr>])"
    and "length i = 16 \<Longrightarrow> i \<noteq> j_id j \<Longrightarrow> scan_prefix s' (history_prefix i) = scan_prefix s (history_prefix i)"
proof -
  let ?i = "j_id j" let ?q = "of_nat (length es) :: u64"
  let ?e = "\<lparr>h_sequence = ?q, h_at_ms = at, h_kind = kind, h_detail = detail\<rparr>"
  from p obtain q jb hb where P: "next_history_sequence s ?i = Inr q"
    "encode_history \<lparr>h_sequence = q, h_at_ms = at, h_kind = kind, h_detail = detail\<rparr> = Inr hb"
    "\<And>k. not_cdc k \<Longrightarrow> store_get s' k = (if k = history_key ?i q then Some hb
      else if k = job_key ?i then Some jb else store_get s k)"
    by (rule persist_history_Inr) blast
  have q: "q = ?q" using P(1) history_next [OF h] by simp
  have wf': "store_wf s'" by (rule persist_history_wf [OF p wf])
  have hp: "prefix HISTORY_PREFIX k" if "prefix (history_prefix x) k" for x k
    using that by (auto simp: history_prefix_def prefix_def)
  have get: "store_get s' k = (if k = history_key ?i ?q then Some hb else store_get s k)"
    if "prefix (history_prefix x) k" for x k
    using P(3) [OF job_spaces(2) [OF hp [OF that]]] hp [OF that] job_spaces(4) [OF job_key_simps(1)] q by auto
  have gt: "k < history_key ?i ?q" if kv: "(k, v) \<in> set (scan_prefix s (history_prefix ?i))" for k v
  proof -
    obtain n where n: "n < length es" "k = history_key ?i (h_sequence (es ! n))"
      using kv h unfolding history_of_def list_all2_conv_all_nth in_set_conv_nth by (metis fst_conv)
    have "h_sequence (es ! n) < ?q"
      using history_of_nth [OF h n(1)] n(1) room by (simp add: word_less_nat_alt unat_of_nat_u64)
    then show ?thesis using n(2) by (simp add: history_key_less)
  qed
  have sc: "scan_prefix s' (history_prefix ?i) = scan_prefix s (history_prefix ?i) @ [(history_key ?i ?q, hb)]"
    by (rule scan_prefix_snoc [OF wf wf' job_key_simps(4) get gt])
  have "decode_history hb = Inr ?e" using decode_history_encode P(2) q by blast
  then show "history_of s' ?i (es @ [?e])"
    using h room unfolding history_of_def sc by (simp add: list_all2_appendI)
  show "scan_prefix s' (history_prefix i) = scan_prefix s (history_prefix i)" if "length i = 16" "i \<noteq> ?i"
  proof (rule scan_prefix_cong [OF wf wf'])
    fix k assume k: "prefix (history_prefix i) k"
    have "k \<noteq> history_key ?i ?q"
    proof
      assume "k = history_key ?i ?q"
      then have "take 16 (drop (length HISTORY_PREFIX) k) = ?i" "take 16 (drop (length HISTORY_PREFIX) k) = i"
        using k id that(1) by (auto simp: history_key_def history_prefix_def prefix_def)
      then show False using that(2) by simp
    qed
    then show "store_get s' k = store_get s k" using get [OF k] by simp
  qed
qed

lemma job_history_of:
  assumes h: "history_of s i es"
  shows "job_history s i = Inr es"
proof -
  have "map_result (\<lambda>(_, encoded). decode_history encoded) (scan_prefix s (history_prefix i)) = Inr es"
    using h unfolding history_of_def map_result_Inr_iff by (auto simp: case_prod_beta elim: list_all2_mono)
  moreover have "sorted (map h_sequence es)"
  proof -
    have "length es \<le> 2 ^ 64" using h by (simp add: history_of_def)
    then have "(of_nat a :: u64) \<le> of_nat b" if "a \<le> b" "b < length es" for a b
      using that by (simp add: word_le_nat_alt unat_of_nat_u64)
    then have "sorted (map (of_nat :: nat \<Rightarrow> u64) [0..<length es])"
      by (auto simp: sorted_iff_nth_mono)
    then show ?thesis using h by (simp add: history_of_def)
  qed
  ultimately show ?thesis by (simp add: job_history_def sort_key_id_if_sorted)
qed

section \<open>Claiming\<close>

definition for_worker :: "bytes list \<Rightarrow> durable_job \<Rightarrow> bool" where
  "for_worker hs j \<longleftrightarrow> hs = [] \<or> j_handler j \<in> set hs"

definition runnable :: "i64 \<Rightarrow> bytes list \<Rightarrow> durable_job \<Rightarrow> bool" where
  "runnable now hs j \<longleftrightarrow> for_worker hs j \<and> reclaimable now j \<and> \<not> past_deadline now j \<and>
     (j_state j = JReady \<longrightarrow> sint (j_available_at_ms j) \<le> sint now)"

definition overdue :: "i64 \<Rightarrow> bytes list \<Rightarrow> durable_job \<Rightarrow> bool" where
  "overdue now hs j \<longleftrightarrow> for_worker hs j \<and> reclaimable now j \<and> past_deadline now j"

lemma earlier_irrefl [simp]: "\<not> earlier j j"
  by (simp add: earlier_def)

lemma earlier_trans: "earlier a b \<Longrightarrow> earlier b c \<Longrightarrow> earlier a c"
  by (auto simp: earlier_def)

lemma earlier_negtrans: "earlier x z \<Longrightarrow> \<not> earlier c z \<Longrightarrow> earlier x c"
proof -
  have "j_priority c = j_priority z \<longleftrightarrow> sint (j_priority c) = sint (j_priority z)"
    "j_priority x = j_priority c \<longleftrightarrow> sint (j_priority x) = sint (j_priority c)"
    "j_priority x = j_priority z \<longleftrightarrow> sint (j_priority x) = sint (j_priority z)"
    by (auto intro: signed_word_eqI)
  then show "earlier x z \<Longrightarrow> \<not> earlier c z \<Longrightarrow> earlier x c" by (auto simp: earlier_def not_less)
qed

definition first_of :: "durable_job set \<Rightarrow> durable_job option \<Rightarrow> bool" where
  "first_of C r \<longleftrightarrow> (case r of None \<Rightarrow> C = {} | Some j \<Rightarrow> j \<in> C \<and> (\<forall>y \<in> C. \<not> earlier y j))"

lemma first_of_insert:
  assumes "first_of C r" and "c \<in> C" and "\<not> earlier x c"
  shows "first_of (insert x C) r"
proof (cases r)
  case (Some z)
  then have z: "z \<in> C" "\<forall>y \<in> C. \<not> earlier y z" using assms(1) by (auto simp: first_of_def)
  then have "\<not> earlier x z" using earlier_negtrans assms(2,3) by blast
  then show ?thesis using z Some by (auto simp: first_of_def)
qed (use assms in \<open>auto simp: first_of_def\<close>)

definition decoded :: "kv \<Rightarrow> durable_job set" where
  "decoded es = {j. \<exists>k v. (k, v) \<in> set es \<and> decode_job v = Inr j}"

lemma decoded_Cons: "decode_job v = Inr j \<Longrightarrow> decoded ((k, v) # es) = insert j (decoded es)"
  by (auto simp: decoded_def)

lemma decoded_Nil [simp]: "decoded [] = {}"
  by (simp add: decoded_def)

lemma claim_job_scan_spec:
  assumes "claim_job_scan now hs cand ex es = Inr (r, ex')"
  shows "first_of (set_option cand \<union> {j \<in> decoded es. runnable now hs j}) r \<and>
    set ex' = set ex \<union> {j \<in> decoded es. overdue now hs j}"
  using assms
proof (induction es arbitrary: cand ex)
  case Nil
  then show ?case by (auto simp: first_of_def split: option.split)
next
  case (Cons e es)
  obtain k v where e: "e = (k, v)" by (cases e)
  from Cons.prems obtain j where j: "decode_job v = Inr j" unfolding e by (auto simp: res_bind_Inr_iff)
  have D: "decoded (e # es) = insert j (decoded es)" unfolding e by (rule decoded_Cons [OF j])
  let ?R = "{j \<in> decoded es. runnable now hs j}"
  consider (skip) "\<not> runnable now hs j" "\<not> overdue now hs j" "claim_job_scan now hs cand ex es = Inr (r, ex')"
    | (late) "\<not> runnable now hs j" "overdue now hs j" "claim_job_scan now hs cand (ex @ [j]) es = Inr (r, ex')"
    | (take) "runnable now hs j" "\<not> overdue now hs j" "case cand of None \<Rightarrow> True | Some c \<Rightarrow> earlier j c"
        "claim_job_scan now hs (Some j) ex es = Inr (r, ex')"
    | (keep) c where "runnable now hs j" "\<not> overdue now hs j" "cand = Some c" "\<not> earlier j c" "claim_job_scan now hs cand ex es = Inr (r, ex')"
    using Cons.prems j unfolding e runnable_def overdue_def for_worker_def
    by (cases cand) (auto split: if_splits simp: not_less)
  then show ?case
  proof cases
    case skip
    then show ?thesis using Cons.IH [OF skip(3)] D by (simp add: Collect_conv_if conj_disj_distribR Collect_disj_eq)
  next
    case late
    then have "{x \<in> decoded (e # es). runnable now hs x} = ?R" "{x \<in> decoded (e # es). overdue now hs x} = insert j {x \<in> decoded es. overdue now hs x}"
      using D by auto
    then show ?thesis using Cons.IH [OF late(3)] by auto
  next
    case take
    have S: "{x \<in> decoded (e # es). runnable now hs x} = insert j ?R" "{x \<in> decoded (e # es). overdue now hs x} = {x \<in> decoded es. overdue now hs x}"
      using D take by auto
    have B: "first_of (insert j ?R) r" using Cons.IH [OF take(4)] by simp
    show ?thesis
    proof (cases cand)
      case None
      then show ?thesis using B S Cons.IH [OF take(4)] by simp
    next
      case (Some c)
      then have "\<not> earlier c j" using take(3) earlier_trans [of j c j] by auto
      from first_of_insert [OF B _ this] show ?thesis
        using S Some Cons.IH [OF take(4)] by (simp add: insert_commute)
    qed
  next
    case keep
    have S: "{x \<in> decoded (e # es). runnable now hs x} = insert j ?R" "{x \<in> decoded (e # es). overdue now hs x} = {x \<in> decoded es. overdue now hs x}"
      using D keep by auto
    have "first_of (insert j (set_option cand \<union> ?R)) r"
      using first_of_insert [of _ r c j] Cons.IH [OF keep(5)] keep(3,4) by simp
    then show ?thesis using S Cons.IH [OF keep(5)] by simp
  qed
qed

definition killed :: "durable_job \<Rightarrow> durable_job" where
  "killed j = j\<lparr>j_state := JDead, j_lease_until_ms := 0\<rparr>"

lemma kill_expired_eq: "kill_expired D now j = persist_job_with_history D (killed j) now HDead (ascii ''deadline exceeded'')"
  by (simp add: kill_expired_def killed_def)

lemma killed_ok: "wf_job j \<Longrightarrow> lease_ok j \<Longrightarrow> wf_job (killed j) \<and> lease_ok (killed j) \<and> j_id (killed j) = j_id j"
  by (simp add: killed_def wf_job_def lease_ok_def)

lemma killed_simps [simp]: "killed (killed j) = killed j" "j_id (killed j) = j_id j" "j_state (killed j) = JDead"
  by (simp_all add: killed_def)

text \<open>A loop that rewrites the jobs of a snapshot, one transaction each: the ones before the
  first failure are rewritten, the others are as they were.\<close>

lemma act_for_Cons_cases:
  assumes "act_for f (x # xs) s = (r, s')"
  obtains e where "f x s = (Inl e, s')" and "r = Inl e"
  | s1 where "f x s = (Inr (), s1)" and "act_for f xs s1 = (r, s')"
proof (cases "f x s")
  case (Pair q s1)
  then show ?thesis using assms that by (cases q) (auto simp: act_bind_def)
qed

lemma persist_history_fail_spec:
  assumes "job_inv s" and "persist_job_with_history D j at kind detail s = (Inl e, s')"
  shows "job_inv s' \<and> jobs s' = jobs s"
  using persist_history_fail [OF assms(2)] persist_history_wf [OF assms(2) job_inv_wf [OF assms(1)]] assms(1)
  by (simp add: job_inv_def jobs_def get_job_def fun_eq_iff)

lemma rewrite_jobs:
  assumes "job_inv s" and "\<forall>j \<in> set ex. snap (j_id j) = Some j \<and> wf_job (f j) \<and> lease_ok (f j) \<and> j_id (f j) = j_id j"
    and "act_for (\<lambda>j. persist_job_with_history D (f j) now (kind j) (detail j)) ex s = (r, s')"
  shows "job_inv s' \<and> (\<exists>fin. set fin \<subseteq> set ex \<and> (r = Inr () \<longrightarrow> fin = ex) \<and>
    jobs s' = (\<lambda>i. if i \<in> j_id ` set fin then map_option f (snap i) else jobs s i))"
  using assms
proof (induction ex arbitrary: s)
  case Nil
  then show ?case by (auto intro: exI [of _ "[]"])
next
  case (Cons j ex)
  let ?g = "\<lambda>j. persist_job_with_history D (f j) now (kind j) (detail j)"
  have j: "snap (j_id j) = Some j" "wf_job (f j)" "lease_ok (f j)" "j_id (f j) = j_id j" using Cons.prems(2) by auto
  from Cons.prems(3) show ?case
  proof (cases rule: act_for_Cons_cases)
    case (1 e)
    then show ?thesis using persist_history_fail_spec [OF Cons.prems(1) 1(1)] by (auto intro: exI [of _ "[]"])
  next
    case (2 s1)
    have p: "job_inv s1" "jobs s1 = (jobs s)(j_id j \<mapsto> f j)"
      using persist_history_spec [OF Cons.prems(1) j(2,3) 2(1)] j(4) by auto
    from Cons.IH [OF p(1) _ 2(2)] Cons.prems(2) obtain fin where fin: "job_inv s'" "set fin \<subseteq> set ex" "r = Inr () \<longrightarrow> fin = ex"
        "jobs s' = (\<lambda>i. if i \<in> j_id ` set fin then map_option f (snap i) else jobs s1 i)"
      by auto
    have "jobs s' = (\<lambda>i. if i \<in> j_id ` set (j # fin) then map_option f (snap i) else jobs s i)"
      unfolding fin(4) p(2) using j(1) by (auto simp: fun_eq_iff)
    then show ?thesis using fin(1-3) by (intro conjI exI [of _ "j # fin"]) auto
  qed
qed

definition claimed :: "i64 \<Rightarrow> durable_job \<Rightarrow> durable_job" where
  "claimed until j = j\<lparr>j_attempts := j_attempts j + 1, j_state := JLeased, j_lease_until_ms := until,
     j_lease_generation := j_attempts j + 1\<rparr>"

definition exhausted :: "durable_job \<Rightarrow> durable_job" where
  "exhausted j = j\<lparr>j_attempts := j_attempts j + 1, j_state := JDead, j_lease_until_ms := 0\<rparr>"

lemma claimed_ok:
  assumes "wf_job j" and "lease_ok j" and "j_attempts j < j_attempts j + 1"
  shows "wf_job (claimed l j) \<and> (j_attempts j + 1 \<le> j_max_attempts j \<longrightarrow> lease_ok (claimed l j))"
    and "wf_job (exhausted j) \<and> lease_ok (exhausted j)"
  using assms by (auto simp: wf_job_def lease_ok_def claimed_def exhausted_def)

lemma claimed_simps [simp]: "j_id (claimed l j) = j_id j" "j_id (exhausted j) = j_id j"
  "j_attempts (claimed l j) = j_attempts j + 1" "j_lease_generation (claimed l j) = j_attempts j + 1"
  "j_state (claimed l j) = JLeased" "j_lease_until_ms (claimed l j) = l" "j_state (exhausted j) = JDead"
  by (simp_all add: claimed_def exhausted_def)

lemma lease_candidate_spec:
  assumes inv: "job_inv s" and j: "jobs s (j_id j) = Some j" and c: "lease_candidate D now l j s = (r, s')"
  shows "job_inv s' \<and> (case r of Inl e \<Rightarrow> jobs s' = jobs s
    | Inr None \<Rightarrow> j_attempts j < j_attempts j + 1 \<and> j_max_attempts j < j_attempts j + 1 \<and> jobs s' = (jobs s)(j_id j \<mapsto> exhausted j)
    | Inr (Some j') \<Rightarrow> j_attempts j < j_attempts j + 1 \<and> j_attempts j + 1 \<le> j_max_attempts j \<and> j' = claimed l j \<and>
        jobs s' = (jobs s)(j_id j \<mapsto> claimed l j))"
proof (cases "checked_add (j_attempts j) 1")
  case None
  then show ?thesis using c inv by (auto simp: lease_candidate_def)
next
  case (Some a)
  then have a: "a = j_attempts j + 1" "j_attempts j < j_attempts j + 1" using checked_add_one_u32 by blast+
  note ok = claimed_ok [OF _ _ a(2)] and W = job_inv_get(2) [OF inv j]
  show ?thesis
  proof (cases "j_max_attempts j < a")
    case True
    then obtain q where q: "persist_job_with_history D (exhausted j) now HDead (ascii ''max attempts exceeded'') s = (q, s')"
        "r = (case q of Inl e \<Rightarrow> Inl e | Inr _ \<Rightarrow> Inr None)"
      using c Some a by (auto simp: lease_candidate_def exhausted_def act_bind_def split: prod.splits sum.splits)
    show ?thesis
    proof (cases q)
      case (Inl e)
      then show ?thesis using persist_history_fail_spec [OF inv] q by auto
    next
      case (Inr u)
      then show ?thesis using persist_history_spec [OF inv _ _ q(1) [unfolded Inr]] ok(2) W q True a by auto
    qed
  next
    case False
    then obtain q where q: "persist_job_with_history D (claimed l j) now HClaimed [] s = (q, s')"
        "r = (case q of Inl e \<Rightarrow> Inl e | Inr _ \<Rightarrow> Inr (Some (claimed l j)))"
      using c Some a by (auto simp: lease_candidate_def claimed_def Let_def act_bind_def split: prod.splits sum.splits)
    show ?thesis
    proof (cases q)
      case (Inl e)
      then show ?thesis using persist_history_fail_spec [OF inv] q by auto
    next
      case (Inr u)
      then show ?thesis using persist_history_spec [OF inv _ _ q(1) [unfolded Inr]] ok(1) W q False a by auto
    qed
  qed
qed

lemma decoded_jobs: "job_inv s \<Longrightarrow> decoded (scan_prefix s JOB_PREFIX) = {j. jobs s (j_id j) = Some j}"
  using jobs_scan by (auto simp: decoded_def)

lemma claim_job_cases:
  assumes "claim_job_for_handlers D now d hs s = (r, s')"
  obtains (early) e where "r = Inl e" and "s' = s"
  | (killing) l c ex rk s1 where "sint l = sint now + int (unat d)"
      and "claim_job_scan now hs None [] (scan_prefix s JOB_PREFIX) = Inr (c, ex)"
      and "act_for (kill_expired D now) ex s = (rk, s1)"
      and "case rk of Inl e \<Rightarrow> r = Inl e \<and> s' = s1
        | Inr _ \<Rightarrow> (case c of None \<Rightarrow> r = Inr None \<and> s' = s1 | Some j \<Rightarrow> lease_candidate D now l j s1 = (r, s'))"
proof (cases "\<exists>d' l c ex. i64_try_from_u64 d = Some d' \<and> checked_add_signed now d' = Some l \<and>
    claim_job_scan now hs None [] (scan_prefix s JOB_PREFIX) = Inr (c, ex)")
  case True
  then obtain d' l c ex where L: "i64_try_from_u64 d = Some d'" "checked_add_signed now d' = Some l"
    "claim_job_scan now hs None [] (scan_prefix s JOB_PREFIX) = Inr (c, ex)" by blast
  obtain rk s1 where k: "act_for (kill_expired D now) ex s = (rk, s1)" by fastforce
  show ?thesis
    by (rule killing [OF lease_time [OF L(1,2)] L(3) k])
      (use assms L k in \<open>auto simp: claim_job_for_handlers_def act_bind_def act_return_def split: sum.splits option.splits\<close>)
next
  case False
  then show ?thesis using assms early
    by (auto simp: claim_job_for_handlers_def act_bind_def ok_or_def split: option.splits sum.splits prod.splits)
qed

text \<open>The table after the jobs past their deadline have been killed, all of them or the first few.\<close>

definition culled :: "i64 \<Rightarrow> bytes list \<Rightarrow> durable_job \<Rightarrow> durable_job" where
  "culled now hs j = (if overdue now hs j then killed j else j)"

lemma kill_all_spec:
  assumes inv: "job_inv s" and ex: "set ex = {j. jobs s (j_id j) = Some j \<and> overdue now hs j}"
    and k: "act_for (kill_expired D now) ex s = (rk, s1)"
  shows "job_inv s1 \<and> (\<exists>I. jobs s1 = (\<lambda>i. if i \<in> I then map_option (culled now hs) (jobs s i) else jobs s i)) \<and>
    (rk = Inr () \<longrightarrow> jobs s1 = (\<lambda>i. map_option (culled now hs) (jobs s i)))"
proof -
  have ok: "\<forall>j \<in> set ex. jobs s (j_id j) = Some j \<and> wf_job (killed j) \<and> lease_ok (killed j) \<and> j_id (killed j) = j_id j"
    using ex job_inv_get(2) [OF inv] killed_ok by auto
  from rewrite_jobs [OF inv ok, of D now "\<lambda>_. HDead" "\<lambda>_. ascii ''deadline exceeded''"] k [unfolded kill_expired_eq]
  obtain fin where fin: "job_inv s1" "set fin \<subseteq> set ex" "rk = Inr () \<longrightarrow> fin = ex"
      "jobs s1 = (\<lambda>i. if i \<in> j_id ` set fin then map_option killed (jobs s i) else jobs s i)"
    unfolding kill_expired_eq [abs_def] by blast
  have c: "map_option killed (jobs s i) = map_option (culled now hs) (jobs s i)" if "i \<in> j_id ` set fin" for i
    using that fin(2) ex by (auto simp: culled_def)
  have n: "jobs s i = map_option (culled now hs) (jobs s i)" if "i \<notin> j_id ` set ex" for i
  proof (cases "jobs s i")
    case (Some j)
    then have "j_id j = i" using job_inv_get(2) [OF inv] by blast
    then have "\<not> overdue now hs j" using that ex Some by auto
    then show ?thesis using Some by (simp add: culled_def)
  qed simp
  show ?thesis using fin c n by (auto simp: fun_eq_iff intro!: exI [of _ "j_id ` set fin"])
qed

theorem claim_job_spec:
  assumes inv: "job_inv s" and c: "claim_job_for_handlers D now d hs s = (Inr r, s')"
  shows "job_inv s' \<and> (\<exists>c l. first_of {j. jobs s (j_id j) = Some j \<and> runnable now hs j} c \<and> sint l = sint now + int (unat d) \<and>
    (case c of
       None \<Rightarrow> r = None \<and> jobs s' = (\<lambda>i. map_option (culled now hs) (jobs s i))
     | Some j \<Rightarrow>
         if j_attempts j < j_max_attempts j
         then r = Some (claimed l j) \<and> jobs s' = (\<lambda>i. map_option (culled now hs) (jobs s i))(j_id j \<mapsto> claimed l j)
         else r = None \<and> jobs s' = (\<lambda>i. map_option (culled now hs) (jobs s i))(j_id j \<mapsto> exhausted j)))"
  using c
proof (cases rule: claim_job_cases)
  case (killing l c ex rk s1)
  have F: "first_of {j. jobs s (j_id j) = Some j \<and> runnable now hs j} c" "set ex = {j. jobs s (j_id j) = Some j \<and> overdue now hs j}"
    using claim_job_scan_spec [OF killing(2)] by (simp_all add: decoded_jobs [OF inv])
  have rk: "rk = Inr ()" using killing(4) by (cases rk) auto
  have k: "job_inv s1" "jobs s1 = (\<lambda>i. map_option (culled now hs) (jobs s i))"
    using kill_all_spec [OF inv F(2) killing(3)] rk by auto
  show ?thesis
  proof (cases c)
    case None
    then show ?thesis using killing(1,4) rk F k by (intro conjI exI [of _ c] exI [of _ l]) auto
  next
    case (Some j)
    then have j: "jobs s (j_id j) = Some j" "runnable now hs j" using F(1) by (auto simp: first_of_def)
    then have "jobs s1 (j_id j) = Some j" by (auto simp: k(2) culled_def overdue_def runnable_def)
    from lease_candidate_spec [OF k(1) this, of D now l "Inr r" s'] killing(4) rk Some
    have L: "job_inv s'" "case r of None \<Rightarrow> j_attempts j < j_attempts j + 1 \<and> j_max_attempts j < j_attempts j + 1 \<and> jobs s' = (jobs s1)(j_id j \<mapsto> exhausted j)
      | Some j' \<Rightarrow> j_attempts j < j_attempts j + 1 \<and> j_attempts j + 1 \<le> j_max_attempts j \<and> j' = claimed l j \<and> jobs s' = (jobs s1)(j_id j \<mapsto> claimed l j)"
      by auto
    have B: "j_attempts j < j_max_attempts j \<longleftrightarrow> j_attempts j + 1 \<le> j_max_attempts j" if "j_attempts j < j_attempts j + 1"
      using that by (auto intro: inc_le order.strict_trans2)
    show ?thesis using L B F(1) killing(1) Some k(2) by (intro conjI exI [of _ c] exI [of _ l]) (cases r; auto)+
  qed
qed simp

section \<open>Settling a lease\<close>

definition holds :: "store \<Rightarrow> bytes \<Rightarrow> u32 \<Rightarrow> durable_job \<Rightarrow> bool" where
  "holds s i g j \<longleftrightarrow> jobs s i = Some j \<and> j_state j = JLeased \<and> j_lease_generation j = g"

lemma leased_job_iff:
  assumes "job_inv s"
  shows "leased_job i g s = (Inr j, s') \<longleftrightarrow> s' = s \<and> holds s i g j"
    and "leased_job i g s = (Inl e, s') \<Longrightarrow> s' = s"
  using job_inv_get(1) [OF assms, of i]
  by (auto simp: leased_job_def load_job_def act_bind_def holds_def validate_job_lease_def ok_or_def act_lift_def act_return_def
      split: option.splits if_splits sum.splits)

lemma leased_job_refused:
  assumes "job_inv s" and "\<nexists>j. holds s i g j"
  shows "\<exists>e. leased_job i g s = (Inl e, s)"
proof (cases "leased_job i g s")
  case (Pair r s1)
  then show ?thesis using leased_job_iff [OF assms(1)] assms(2) by (cases r) auto
qed

theorem lease_required:
  assumes "job_inv s" and "\<nexists>j. holds s i g j"
  shows "\<exists>e. complete_job D i g now s = (Inl e, s) \<and> fail_job D i g now detail s = (Inl e, s)"
    and "release_job D i g now s = (Inr False, s)" and "heartbeat_job D i g now d s = (Inr False, s)"
proof -
  obtain e where "leased_job i g s = (Inl e, s)" using leased_job_refused [OF assms] by blast
  then show "\<exists>e. complete_job D i g now s = (Inl e, s) \<and> fail_job D i g now detail s = (Inl e, s)"
    by (auto simp: complete_job_def fail_job_def act_bind_def)
  show "release_job D i g now s = (Inr False, s)" "heartbeat_job D i g now d s = (Inr False, s)"
    using assms(2) job_inv_get(1) [OF assms(1), of i]
    by (auto simp: release_job_def heartbeat_job_def load_job_def act_bind_def holds_def act_return_def split: option.splits)
qed

lemma persist_history_cases:
  assumes "job_inv s" and "wf_job j" and "lease_ok j" and "persist_job_with_history D j at kind detail s = (r, s')"
  shows "job_inv s' \<and> jobs s' = (if r = Inr () then (jobs s)(j_id j \<mapsto> j) else jobs s)"
  using persist_history_spec [OF assms(1-3), of D at kind detail _ s'] persist_history_fail_spec [OF assms(1), of D j at kind detail _ s'] assms(4)
  by (cases r) auto

lemma persist_job_cases:
  assumes inv: "job_inv s" and j: "wf_job j" "lease_ok j" and p: "persist_job D j s = (r, s')"
  shows "job_inv s' \<and> jobs s' = (if r = Inr () then (jobs s)(j_id j \<mapsto> j) else jobs s)"
proof (cases "encode_job j")
  case (Inl e)
  then show ?thesis using p inv by (auto simp: persist_job_def)
next
  case (Inr bs)
  then obtain q where q: "store_put_internal D (job_key (j_id j)) bs s = (q, s')" "(r = Inr ()) = (q = Inr ())"
    using p by (auto simp: persist_job_def act_map_err_def split: prod.splits sum.splits)
  have wf: "store_wf s'" using run_tx_wf [OF staging_put_internal] q(1) job_inv_wf [OF inv]
    unfolding store_put_internal_def by blast
  show ?thesis
  proof (cases q)
    case (Inl e)
    have "store_get s' k = store_get s k" for k using store_kv.put_fail q(1) Inl by blast
    then show ?thesis using q(2) Inl inv wf by (simp add: job_inv_def jobs_def get_job_def fun_eq_iff)
  next
    case (Inr u)
    have "store_get s' k = (if k = job_key (j_id j) then Some bs else store_get s k)" if "prefix JOB_PREFIX k" for k
      using store_kv.put_get [OF q(1) [unfolded Inr]] job_spaces(1) that by auto
    from job_update [OF inv decode_job_encode [OF j(1) \<open>encode_job j = Inr bs\<close>] j(2) wf this] show ?thesis
      using q(2) Inr by auto
  qed
qed

text \<open>What each settlement does to the table, for the holder of the lease.\<close>

definition completed :: "durable_job \<Rightarrow> durable_job" where
  "completed j = j\<lparr>j_state := JCompleted, j_lease_until_ms := 0\<rparr>"

definition released :: "i64 \<Rightarrow> durable_job \<Rightarrow> durable_job" where
  "released now j = j\<lparr>j_state := JReady, j_available_at_ms := now, j_lease_until_ms := 0\<rparr>"

definition cancelled :: "durable_job \<Rightarrow> durable_job" where
  "cancelled j = j\<lparr>j_state := JCancelled, j_lease_until_ms := 0\<rparr>"

definition lapsed :: "i64 \<Rightarrow> durable_job \<Rightarrow> durable_job" where
  "lapsed now j = (if j_attempts j \<ge> j_max_attempts j then killed j else released now j)"

lemmas job_updates = completed_def released_def cancelled_def killed_def lapsed_def

lemma updates_ok:
  assumes "wf_job j" and "lease_ok j"
  shows "wf_job (completed j) \<and> lease_ok (completed j)" "wf_job (released now j) \<and> lease_ok (released now j)"
    "wf_job (cancelled j) \<and> lease_ok (cancelled j)" "wf_job (lapsed now j) \<and> lease_ok (lapsed now j)"
    "wf_job (j\<lparr>j_lease_until_ms := l\<rparr>) \<and> lease_ok (j\<lparr>j_lease_until_ms := l\<rparr>)"
  using assms by (auto simp: wf_job_def lease_ok_def job_updates)

lemma update_ids [simp]: "j_id (completed j) = j_id j" "j_id (released now j) = j_id j" "j_id (cancelled j) = j_id j"
  "j_id (lapsed now j) = j_id j"
  by (simp_all add: job_updates)

lemma failed_job_ok:
  assumes "wf_job j" and "lease_ok j" and "failed_job now j = Inr (j', kind)"
  shows "wf_job j' \<and> lease_ok j' \<and> j_id j' = j_id j"
  using assms by (auto simp: failed_job_def res_bind_Inr_iff wf_job_def lease_ok_def split: if_splits)

lemma complete_job_cases:
  assumes inv: "job_inv s" and c: "complete_job D i g now s = (r, s')"
  shows "(\<exists>e. r = Inl e) \<and> job_inv s' \<and> jobs s' = jobs s \<or>
    (\<exists>j. r = Inr () \<and> holds s i g j \<and> job_inv s' \<and> jobs s' = (jobs s)(i \<mapsto> completed j))"
proof (cases "\<exists>j. holds s i g j")
  case True
  then obtain j where j: "holds s i g j" by blast
  then have "leased_job i g s = (Inr j, s)" using leased_job_iff(1) [OF inv] by blast
  then have p: "persist_job_with_history D (completed j) now HCompleted [] s = (r, s')"
    using c by (simp add: complete_job_def act_bind_def completed_def)
  have W: "j_id j = i" "lease_ok j" "wf_job j" using job_inv_get(2) [OF inv] j by (auto simp: holds_def)
  show ?thesis using persist_history_cases [OF inv _ _ p] updates_ok(1) [OF W(3,2)] W(1) j by (cases r) auto
next
  case False
  then show ?thesis using lease_required(1) [OF inv False, of D now "[]"] c inv by auto
qed

lemma fail_job_cases:
  assumes inv: "job_inv s" and c: "fail_job D i g now detail s = (r, s')"
  shows "(\<exists>e. r = Inl e) \<and> job_inv s' \<and> jobs s' = jobs s \<or>
    (\<exists>j j' kind. failed_job now j = Inr (j', kind) \<and> r = Inr (j_state j') \<and> holds s i g j \<and> job_inv s' \<and> jobs s' = (jobs s)(i \<mapsto> j'))"
proof (cases "\<exists>j. holds s i g j")
  case True
  then obtain j where j: "holds s i g j" by blast
  then have l: "leased_job i g s = (Inr j, s)" using leased_job_iff(1) [OF inv] by blast
  have W: "j_id j = i" "lease_ok j" "wf_job j" using job_inv_get(2) [OF inv] j by (auto simp: holds_def)
  show ?thesis
  proof (cases "failed_job now j")
    case (Inl e)
    then show ?thesis using c l inv by (auto simp: fail_job_def act_bind_def)
  next
    case (Inr jk)
    obtain j' kind where jk: "jk = (j', kind)" by fastforce
    obtain q where q: "persist_job_with_history D j' now kind detail s = (q, s')" "r = (case q of Inl e \<Rightarrow> Inl e | Inr _ \<Rightarrow> Inr (j_state j'))"
      using c l Inr jk by (auto simp: fail_job_def act_bind_def split: prod.splits sum.splits)
    have ok: "wf_job j'" "lease_ok j'" "j_id j' = i" using failed_job_ok [OF W(3,2), of now j' kind] Inr jk W(1) by auto
    show ?thesis using persist_history_cases [OF inv ok(1,2) q(1)] q(2) ok(3) Inr jk j by (cases q) auto
  qed
next
  case False
  then show ?thesis using lease_required(1) [OF inv False, of D now detail] c inv by auto
qed

lemma release_job_cases:
  assumes inv: "job_inv s" and c: "release_job D i g now s = (r, s')"
  shows "r \<noteq> Inr True \<and> job_inv s' \<and> jobs s' = jobs s \<or>
    (\<exists>j. r = Inr True \<and> holds s i g j \<and> job_inv s' \<and> jobs s' = (jobs s)(i \<mapsto> released now j))"
proof (cases "\<exists>j. holds s i g j")
  case True
  then obtain j where j: "jobs s i = Some j" "j_state j = JLeased" "j_lease_generation j = g" "holds s i g j" by (auto simp: holds_def)
  have W: "j_id j = i" "lease_ok j" "wf_job j" using job_inv_get(2) [OF inv] j by auto
  obtain q where q: "persist_job_with_history D (released now j) now HRetryScheduled (ascii ''released'') s = (q, s')"
      "r = (case q of Inl e \<Rightarrow> Inl e | Inr _ \<Rightarrow> Inr True)"
    using c j job_inv_get(1) [OF inv, of i]
    by (auto simp: release_job_def load_job_def act_bind_def released_def split: prod.splits sum.splits)
  show ?thesis using persist_history_cases [OF inv _ _ q(1)] updates_ok(2) [OF W(3,2)] W(1) q(2) j(4) by (cases q) auto
next
  case False
  then show ?thesis using lease_required(2) [OF inv False, of D now] c inv by auto
qed

lemma heartbeat_job_cases:
  assumes inv: "job_inv s" and c: "heartbeat_job D i g now d s = (r, s')"
  shows "r \<noteq> Inr True \<and> job_inv s' \<and> jobs s' = jobs s \<or>
    (\<exists>j l. r = Inr True \<and> holds s i g j \<and> sint l = sint now + int (unat d) \<and> job_inv s' \<and> jobs s' = (jobs s)(i \<mapsto> j\<lparr>j_lease_until_ms := l\<rparr>))"
proof (cases "\<exists>j d' l. holds s i g j \<and> i64_try_from_u64 d = Some d' \<and> checked_add_signed now d' = Some l")
  case True
  then obtain j d' l where j: "jobs s i = Some j" "j_state j = JLeased" "j_lease_generation j = g" "holds s i g j"
    and d: "i64_try_from_u64 d = Some d'" "checked_add_signed now d' = Some l" by (auto simp: holds_def)
  have W: "j_id j = i" "lease_ok j" "wf_job j" using job_inv_get(2) [OF inv] j by auto
  obtain q where q: "persist_job D (j\<lparr>j_lease_until_ms := l\<rparr>) s = (q, s')" "r = (case q of Inl e \<Rightarrow> Inl e | Inr _ \<Rightarrow> Inr True)"
    using c j d job_inv_get(1) [OF inv, of i]
    by (auto simp: heartbeat_job_def load_job_def act_bind_def split: prod.splits sum.splits)
  show ?thesis using persist_job_cases [OF inv _ _ q(1)] updates_ok(5) [OF W(3,2)] W(1) q(2) j(4) lease_time [OF d]
    by (cases q) auto
next
  case False
  then show ?thesis using c job_inv_get(1) [OF inv, of i] inv
    by (auto simp: heartbeat_job_def load_job_def act_bind_def holds_def act_return_def ok_or_def act_lift_def
        split: option.splits if_splits sum.splits)
qed

lemma cancel_job_cases:
  assumes inv: "job_inv s" and c: "cancel_job D i now s = (r, s')"
  shows "r \<noteq> Inr True \<and> job_inv s' \<and> jobs s' = jobs s \<or>
    (\<exists>j. r = Inr True \<and> jobs s i = Some j \<and> (j_state j = JReady \<or> j_state j = JLeased) \<and> job_inv s' \<and> jobs s' = (jobs s)(i \<mapsto> cancelled j))"
proof (cases "\<exists>j. jobs s i = Some j \<and> (j_state j = JReady \<or> j_state j = JLeased)")
  case True
  then obtain j where j: "jobs s i = Some j" "j_state j = JReady \<or> j_state j = JLeased" by blast
  have W: "j_id j = i" "lease_ok j" "wf_job j" using job_inv_get(2) [OF inv] j by auto
  obtain q where q: "persist_job_with_history D (cancelled j) now HCancelled [] s = (q, s')"
      "r = (case q of Inl e \<Rightarrow> Inl e | Inr _ \<Rightarrow> Inr True)"
    using c j job_inv_get(1) [OF inv, of i]
    by (auto simp: cancel_job_def load_job_def act_bind_def cancelled_def split: prod.splits sum.splits)
  show ?thesis using persist_history_cases [OF inv _ _ q(1)] updates_ok(3) [OF W(3,2)] W(1) q(2) j by (cases q) auto
next
  case False
  have "j_state j = JCompleted \<or> j_state j = JDead \<or> j_state j = JCancelled" if "jobs s i = Some j" for j
    using that False by (cases "j_state j") auto
  then have "s' = s \<and> r = Inr False" using c job_inv_get(1) [OF inv, of i]
    by (cases "jobs s i") (auto simp: cancel_job_def load_job_def act_bind_def act_return_def)
  then show ?thesis using inv by simp
qed

definition retried :: "i64 \<Rightarrow> durable_job \<Rightarrow> durable_job" where
  "retried now j = j\<lparr>j_state := JReady, j_available_at_ms := now, j_attempts := 0, j_lease_until_ms := 0, j_lease_generation := 0\<rparr>"

lemma retry_job_cases:
  assumes inv: "job_inv s" and c: "retry_job D i now s = (r, s')"
  shows "(\<nexists>j. r = Inr (Some j)) \<and> job_inv s' \<and> jobs s' = jobs s \<or>
    (\<exists>j. r = Inr (Some (retried now j)) \<and> jobs s i = Some j \<and> j_state j = JDead \<and> job_inv s' \<and> jobs s' = (jobs s)(i \<mapsto> retried now j))"
proof (cases "\<exists>j. jobs s i = Some j \<and> j_state j = JDead")
  case True
  then obtain j where j: "jobs s i = Some j" "j_state j = JDead" by blast
  have W: "j_id (retried now j) = i" "lease_ok (retried now j)" "wf_job (retried now j)"
    using job_inv_get(2) [OF inv] j by (auto simp: retried_def lease_ok_def wf_job_def)
  obtain q where q: "persist_job_with_history D (retried now j) now HRetryScheduled (ascii ''manual retry'') s = (q, s')"
      "r = (case q of Inl e \<Rightarrow> Inl e | Inr _ \<Rightarrow> Inr (Some (retried now j)))"
    using c j job_inv_get(1) [OF inv, of i]
    by (auto simp: retry_job_def load_job_def act_bind_def retried_def Let_def split: prod.splits sum.splits)
  show ?thesis using persist_history_cases [OF inv W(3,2) q(1)] W(1) q(2) j by (cases q) auto
next
  case False
  then show ?thesis using c job_inv_get(1) [OF inv, of i] inv
    by (auto simp: retry_job_def load_job_def act_bind_def act_return_def split: option.splits if_splits)
qed

lemma expired_leases_set:
  "expired_leases now ex es = Inr ex' \<Longrightarrow>
     set ex' = set ex \<union> {j \<in> decoded es. j_state j = JLeased \<and> sint (j_lease_until_ms j) \<le> sint now}"
proof (induction now ex es rule: expired_leases.induct)
  case (2 now ex k v rest)
  then obtain j where j: "decode_job v = Inr j" by (auto simp: res_bind_Inr_iff)
  then show ?case using "2.IH" [of j] "2.prems" by (auto simp: decoded_Cons [OF j] split: if_splits)
qed simp

definition expired :: "i64 \<Rightarrow> durable_job \<Rightarrow> bool" where
  "expired now j \<longleftrightarrow> j_state j = JLeased \<and> sint (j_lease_until_ms j) \<le> sint now"

lemma release_expired_eq: "release_expired D now = (\<lambda>j. persist_job_with_history D (lapsed now j) now
    (if j_attempts j \<ge> j_max_attempts j then HDead else HRetryScheduled)
    (if j_attempts j \<ge> j_max_attempts j then ascii ''lease expired: max attempts exhausted'' else ascii ''lease expired''))"
proof (intro ext)
  fix j s
  have "j\<lparr>j_lease_until_ms := 0, j_state := JDead\<rparr> = killed j"
    "j\<lparr>j_lease_until_ms := 0, j_state := JReady, j_available_at_ms := now\<rparr> = released now j"
    by (simp_all add: killed_def released_def)
  then show "release_expired D now j s = persist_job_with_history D (lapsed now j) now
    (if j_attempts j \<ge> j_max_attempts j then HDead else HRetryScheduled)
    (if j_attempts j \<ge> j_max_attempts j then ascii ''lease expired: max attempts exhausted'' else ascii ''lease expired'') s"
    by (simp add: release_expired_def lapsed_def)
qed

lemma release_expired_cases:
  assumes inv: "job_inv s" and c: "release_expired_jobs D now s = (r, s')"
  shows "job_inv s' \<and> (\<exists>I. jobs s' = (\<lambda>i. if i \<in> I then map_option (lapsed now) (jobs s i) else jobs s i) \<and>
    I \<subseteq> {i. \<exists>j. jobs s i = Some j \<and> expired now j} \<and> ((\<exists>n. r = Inr n) \<longrightarrow> I = {i. \<exists>j. jobs s i = Some j \<and> expired now j}))"
proof (cases "expired_leases now [] (scan_prefix s JOB_PREFIX)")
  case (Inl e)
  then show ?thesis using c inv by (auto simp: release_expired_jobs_def act_bind_def intro!: exI [of _ "{}"])
next
  case (Inr ex)
  have ex: "set ex = {j. jobs s (j_id j) = Some j \<and> expired now j}"
    using expired_leases_set [OF Inr] by (auto simp: decoded_jobs [OF inv] expired_def)
  have I: "j_id ` set ex = {i. \<exists>j. jobs s i = Some j \<and> expired now j}"
  proof
    show "j_id ` set ex \<subseteq> {i. \<exists>j. jobs s i = Some j \<and> expired now j}" using ex by auto
    show "{i. \<exists>j. jobs s i = Some j \<and> expired now j} \<subseteq> j_id ` set ex"
    proof
      fix i assume "i \<in> {i. \<exists>j. jobs s i = Some j \<and> expired now j}"
      then obtain j where "jobs s i = Some j" "expired now j" by blast
      moreover have "j_id j = i" using job_inv_get(2) [OF inv \<open>jobs s i = Some j\<close>] by blast
      ultimately show "i \<in> j_id ` set ex" unfolding ex by (intro image_eqI [of _ _ j]) auto
    qed
  qed
  obtain rk where k: "act_for (release_expired D now) ex s = (rk, s')" and r: "(\<exists>n. r = Inr n) \<longrightarrow> rk = Inr ()"
    using c Inr by (auto simp: release_expired_jobs_def act_bind_def split: prod.splits sum.splits)
  have ok: "\<forall>j \<in> set ex. jobs s (j_id j) = Some j \<and> wf_job (lapsed now j) \<and> lease_ok (lapsed now j) \<and> j_id (lapsed now j) = j_id j"
    using ex job_inv_get(2) [OF inv] updates_ok(4) by auto
  from rewrite_jobs [OF inv ok k [unfolded release_expired_eq]]
  obtain fin where "job_inv s'" "set fin \<subseteq> set ex" "rk = Inr () \<longrightarrow> fin = ex"
      "jobs s' = (\<lambda>i. if i \<in> j_id ` set fin then map_option (lapsed now) (jobs s i) else jobs s i)" by blast
  moreover have "j_id ` set fin \<subseteq> j_id ` set ex" using \<open>set fin \<subseteq> set ex\<close> by blast
  ultimately show ?thesis using I r by (intro conjI exI [of _ "j_id ` set fin"]) auto
qed

section \<open>Submission\<close>

lemma find_active_Inr:
  assumes "find_active key es = Inr r"
  shows "case r of Some i \<Rightarrow> \<exists>j \<in> decoded es. j_id j = i \<and> (j_state j = JReady \<or> j_state j = JLeased) \<and> j_idempotency_key j = Some key
    | None \<Rightarrow> \<forall>j \<in> decoded es. (j_state j = JReady \<or> j_state j = JLeased) \<longrightarrow> j_idempotency_key j \<noteq> Some key"
  using assms
proof (induction key es rule: find_active.induct)
  case (2 key k v rest)
  then obtain j where j: "decode_job v = Inr j" by (auto simp: res_bind_Inr_iff)
  show ?case
  proof (cases "(j_state j = JReady \<or> j_state j = JLeased) \<and> j_idempotency_key j = Some key")
    case True
    then show ?thesis using "2.prems" j by (auto simp: decoded_Cons [OF j])
  next
    case False
    then have "find_active key rest = Inr r" using "2.prems" j by (auto split: if_splits)
    with "2.IH" [OF False] show ?thesis using False
      by (cases r) (auto simp: decoded_Cons [OF j])
  qed
qed simp

abbreviation (input) submit_body where
  "submit_body D j now \<equiv> act_bind (put_job_tx D j) (\<lambda>_.
     act_bind (append_history_tx D (j_id j) 0 (submitted_entry now [])) (\<lambda>_. act_return (j_id j)))"

lemma submit_body_Inr:
  assumes "run_tx D True JStore (submit_body D j now) s = (Inr i, s')"
  obtains jb hb where "i = j_id j" and "encode_job j = Inr jb" and "encode_history (submitted_entry now []) = Inr hb"
    and "\<And>k. not_cdc k \<Longrightarrow> store_get s' k = (if k = history_key (j_id j) 0 then Some hb
      else if k = job_key (j_id j) then Some jb else store_get s k)"
proof -
  have st: "staging (submit_body D j now)" by (intro staging_intros)
  from assms obtain t where t: "submit_body D j now (fresh_tx True s) = (Inr i, t)"
      "\<And>k. not_cdc k \<Longrightarrow> store_get s' k = tx_get_internal t k"
    by (rule run_tx_view [OF st]) blast
  then obtain t1 where t1: "put_job_tx D j (fresh_tx True s) = (Inr (), t1)"
      "append_history_tx D (j_id j) 0 (submitted_entry now []) t1 = (Inr (), t)" and i: "i = j_id j"
    by (auto simp: act_bind_Inr_iff act_return_def)
  obtain jb where jb: "encode_job j = Inr jb"
      "\<And>k. tx_get_internal t1 k = (if k = job_key (j_id j) then Some jb else tx_get_internal (fresh_tx True s) k)"
    using t1(1) by (rule put_job_tx_get) blast
  obtain hb where hb: "encode_history (submitted_entry now []) = Inr hb"
      "\<And>k. tx_get_internal t k = (if k = history_key (j_id j) 0 then Some hb else tx_get_internal t1 k)"
    using t1(2) by (rule append_history_tx_get) blast
  show ?thesis by (rule that [OF i jb(1) hb(1)]) (simp add: t(2) hb(2) jb(2))
qed

text \<open>The identifier that the next submission draws.\<close>

definition next_id :: "store \<Rightarrow> bytes option" where
  "next_id s = (case os_entropy (st_os s) of Some x # _ \<Rightarrow> Some x | _ \<Rightarrow> None)"

definition drawn :: "store \<Rightarrow> store" where
  "drawn s = s\<lparr>st_os := (st_os s)\<lparr>os_entropy := tl (os_entropy (st_os s))\<rparr>\<rparr>"

lemma drawn_get [simp]: "store_get (drawn s) k = store_get s k" "scan_prefix (drawn s) p = scan_prefix s p"
  "jobs (drawn s) = jobs s" "job_inv (drawn s) = job_inv s" "store_wf (drawn s) = store_wf s"
proof -
  show g: "store_get (drawn s) k = store_get s k" for k by (simp add: drawn_def store_get_def)
  show "scan_prefix (drawn s) p = scan_prefix s p" by (simp add: drawn_def scan_prefix_def)
  show "jobs (drawn s) = jobs s" by (simp add: jobs_def get_job_def g fun_eq_iff)
  show w: "store_wf (drawn s) = store_wf s" by (simp add: store_wf_def drawn_def)
  show "job_inv (drawn s) = job_inv s" by (simp add: job_inv_def g w)
qed

lemma build_job_cases:
  assumes "build_job spec s = (r, s')"
  shows "(s' = s \<or> s' = drawn s) \<and> (\<forall>j. r = Inr j \<longrightarrow> s' = drawn s \<and> validate_job_spec spec = Inr () \<and>
    next_id s = Some (j_id j) \<and> j = new_job (j_id j) spec)"
  using assms
  by (auto simp: build_job_def random_id_def act_bind_def act_lift_def act_return_def drawn_def next_id_def ok_or_def new_job_def
      split: sum.splits list.splits option.splits)

lemma stored_job_simps [simp]: "j_id (stored_job j) = j_id j" "lease_ok (stored_job j) = lease_ok j"
  by (simp_all add: stored_job_def lease_ok_def)

lemma submit_job_cases:
  assumes inv: "job_inv s" and c: "submit_job D spec now s = (r, s')" and len: "\<And>x. next_id s = Some x \<Longrightarrow> length x = 16"
  shows "(\<exists>e. r = Inl e) \<and> job_inv s' \<and> jobs s' = jobs s \<or>
    (\<exists>i j. r = Inr i \<and> s' = s \<and> jobs s i = Some j \<and> (j_state j = JReady \<or> j_state j = JLeased) \<and>
       j_idempotency_key j = js_idempotency_key spec \<and> js_idempotency_key spec \<noteq> None) \<or>
    (\<exists>i. r = Inr i \<and> next_id s = Some i \<and> job_inv s' \<and> jobs s' = (jobs s)(i \<mapsto> stored_job (new_job i spec)) \<and>
       (\<exists>hb. encode_history (submitted_entry now []) = Inr hb \<and>
         (\<forall>k. not_cdc k \<longrightarrow> prefix HISTORY_PREFIX k \<longrightarrow> store_get s' k = (if k = history_key i 0 then Some hb else store_get s k))))"
proof -
  define ex where "ex = (case js_idempotency_key spec of None \<Rightarrow> Inr None | Some key \<Rightarrow> find_active_job_by_idempotency s key)"
  consider (bad) e where "r = Inl e" "s' = s"
    | (found) i where "ex = Inr (Some i)" "r = Inr i" "s' = s"
    | (fresh) "act_bind (build_job spec) (\<lambda>j. run_tx D True JStore (submit_body D j now)) s = (r, s')"
    using c unfolding submit_job_def ex_def
    by (auto simp: act_bind_def act_lift_def act_return_def split: sum.splits option.splits)
  then show ?thesis
  proof cases
    case (found i)
    then obtain key where key: "js_idempotency_key spec = Some key" "find_active key (scan_prefix s JOB_PREFIX) = Inr (Some i)"
      by (auto simp: ex_def find_active_job_by_idempotency_def split: option.splits)
    then obtain j where "jobs s i = Some j" "j_state j = JReady \<or> j_state j = JLeased" "j_idempotency_key j = Some key"
      using find_active_Inr [OF key(2)] decoded_jobs [OF inv] by auto
    then show ?thesis using found key by auto
  next
    case fresh
    obtain b s1 where b: "build_job spec s = (b, s1)" by fastforce
    show ?thesis
    proof (cases b)
      case (Inl e)
      then show ?thesis using fresh b build_job_cases [OF b] inv by (auto simp: act_bind_def)
    next
      case (Inr j)
      then have s1: "s1 = drawn s" "next_id s = Some (j_id j)" "j = new_job (j_id j) spec" using build_job_cases [OF b] by auto
      have run: "run_tx D True JStore (submit_body D j now) s1 = (r, s')" using fresh b Inr by (simp add: act_bind_def)
      have st: "staging (submit_body D j now)" by (intro staging_intros)
      have wf': "store_wf s'" using run_tx_wf [OF st _ run] s1(1) job_inv_wf [OF inv] by simp
      show ?thesis
      proof (cases r)
        case (Inl e)
        have g: "store_get s' k = store_get s k" for k using run_tx_fail_get [OF st run [unfolded Inl]] s1(1) by simp
        then have "job_inv s' \<and> jobs s' = jobs s" using inv wf' by (simp add: job_inv_def jobs_def get_job_def fun_eq_iff)
        then show ?thesis using Inl by blast
      next
        case (Inr i)
        obtain jb hb where P: "i = j_id j" "encode_job j = Inr jb" "encode_history (submitted_entry now []) = Inr hb"
            "\<And>k. not_cdc k \<Longrightarrow> store_get s' k = (if k = history_key (j_id j) 0 then Some hb
              else if k = job_key (j_id j) then Some jb else store_get s1 k)"
          using run [unfolded Inr] by (rule submit_body_Inr) blast
        have "decode_job jb = Inr (stored_job j)" by (rule decode_job_stored [OF len [OF s1(2)] P(2)])
        moreover have "lease_ok (stored_job j)" using s1(3) by (metis stored_job_simps(2) lease_ok_def new_job_def durable_job.select_convs(2,8,12) job_state.distinct(1) order_refl)
        moreover have "store_get s' k = (if k = job_key (j_id (stored_job j)) then Some jb else store_get s k)" if "prefix JOB_PREFIX k" for k
          using P(4) [OF job_spaces(1) [OF that]] job_spaces(4) [OF that] job_key_simps(3) s1(1) by auto
        ultimately have "job_inv s'" "jobs s' = (jobs s)(i \<mapsto> stored_job (new_job i spec))"
          using job_update [OF inv _ _ wf', of jb "stored_job j"] P(1) s1(3) by auto
        moreover have "store_get s' k = (if k = history_key i 0 then Some hb else store_get s k)" if "not_cdc k" "prefix HISTORY_PREFIX k" for k
          using P(4) [OF that(1)] that(2) P(1) s1(1) job_spaces(4) [OF job_key_simps(1)] by auto
        ultimately show ?thesis using Inr s1(2) P(1,3) by auto
      qed
    qed
  qed (use inv in auto)
qed

text \<open>Submitting again while a job with the key is active.\<close>

lemma submit_job_existing:
  assumes "job_inv s" and "jobs s i0 = Some j0" and "j_state j0 = JReady \<or> j_state j0 = JLeased"
    and "j_idempotency_key j0 = Some key" and "js_idempotency_key spec = Some key" and "validate_job_spec spec = Inr ()"
  shows "\<exists>i j. submit_job D spec now s = (Inr i, s) \<and> jobs s i = Some j \<and>
    (j_state j = JReady \<or> j_state j = JLeased) \<and> j_idempotency_key j = Some key"
proof -
  have dec: "\<exists>j. decode_job v = Inr j" if "(k, v) \<in> set (scan_prefix s JOB_PREFIX)" for k v
    using that assms(1) unfolding in_scan_prefix_iff [OF job_inv_wf [OF assms(1)]] job_inv_def by blast
  have "\<exists>r. find_active key es = Inr r" if "set es \<subseteq> set (scan_prefix s JOB_PREFIX)" for es
    using that
  proof (induction es)
    case (Cons e es)
    obtain k v where e: "e = (k, v)" by (cases e)
    then have "(k, v) \<in> set (scan_prefix s JOB_PREFIX)" using Cons.prems by simp
    then obtain j where "decode_job v = Inr j" using dec by blast
    then show ?case using Cons by (simp add: e)
  qed simp
  then obtain r where r: "find_active key (scan_prefix s JOB_PREFIX) = Inr r" by blast
  have "j0 \<in> decoded (scan_prefix s JOB_PREFIX)" using assms(2) job_inv_get(2) [OF assms(1,2)] by (auto simp: decoded_jobs [OF assms(1)])
  then obtain i j where "r = Some i" "j \<in> decoded (scan_prefix s JOB_PREFIX)" "j_id j = i" "j_state j = JReady \<or> j_state j = JLeased" "j_idempotency_key j = Some key"
    using find_active_Inr [OF r] assms(3,4) by (cases r) auto
  moreover from this have "jobs s i = Some j" by (auto simp: decoded_jobs [OF assms(1)])
  ultimately show ?thesis using r assms(5,6)
    by (intro exI [of _ i] exI [of _ j]) (simp add: submit_job_def find_active_job_by_idempotency_def act_bind_def)
qed

section \<open>Sequences of operations\<close>

text \<open>Everything a client may do with jobs, successful or not, short of \<open>retry_job\<close>, which is
  the one operation that takes a job back to its first attempt. A submission draws an
  identifier that no job has.\<close>

inductive job_op :: "deps \<Rightarrow> store \<Rightarrow> store \<Rightarrow> bool" for D where
  op_submit: "submit_job D spec now s = (rb, s') \<Longrightarrow> (\<forall>x. next_id s = Some x \<longrightarrow> length x = 16 \<and> jobs s x = None) \<Longrightarrow> job_op D s s'"
| op_claim: "claim_job_for_handlers D now d hs s = (rj, s') \<Longrightarrow> job_op D s s'"
| op_heartbeat: "heartbeat_job D i g now d s = (rt, s') \<Longrightarrow> job_op D s s'"
| op_complete: "complete_job D i g now s = (ru, s') \<Longrightarrow> job_op D s s'"
| op_fail: "fail_job D i g now detail s = (rs, s') \<Longrightarrow> job_op D s s'"
| op_release: "release_job D i g now s = (rt, s') \<Longrightarrow> job_op D s s'"
| op_release_expired: "release_expired_jobs D now s = (rn, s') \<Longrightarrow> job_op D s s'"
| op_cancel: "cancel_job D i now s = (rt, s') \<Longrightarrow> job_op D s s'"

definition finished :: "durable_job \<Rightarrow> bool" where
  "finished j \<longleftrightarrow> j_state j \<noteq> JReady \<and> j_state j \<noteq> JLeased"

definition job_le :: "durable_job \<Rightarrow> durable_job \<Rightarrow> bool" where
  "job_le j j' \<longleftrightarrow> j_handler j' = j_handler j \<and> j_payload j' = j_payload j \<and> j_max_attempts j' = j_max_attempts j \<and>
     j_attempts j \<le> j_attempts j' \<and> j_lease_generation j \<le> j_lease_generation j' \<and> (finished j \<longrightarrow> j' = j)"

definition job_steps :: "store \<Rightarrow> store \<Rightarrow> bool" where
  "job_steps s s' \<longleftrightarrow> job_inv s' \<and> (\<forall>i j. jobs s i = Some j \<longrightarrow> (\<exists>j'. jobs s' i = Some j' \<and> job_le j j'))"

lemma job_le_refl [simp]: "job_le j j"
  by (simp add: job_le_def)

lemma job_le_trans: "job_le a b \<Longrightarrow> job_le b c \<Longrightarrow> job_le a c"
  by (auto simp: job_le_def)

lemma job_steps_same: "job_inv s' \<Longrightarrow> jobs s' = jobs s \<Longrightarrow> job_steps s s'"
  by (simp add: job_steps_def)

lemma job_steps_upd: "job_inv s' \<Longrightarrow> jobs s i = Some j \<Longrightarrow> jobs s' = (jobs s)(i \<mapsto> j') \<Longrightarrow> job_le j j' \<Longrightarrow> job_steps s s'"
  by (simp add: job_steps_def)

lemma job_steps_trans: "job_steps a b \<Longrightarrow> job_steps b c \<Longrightarrow> job_steps a c"
  unfolding job_steps_def using job_le_trans by blast

lemma updates_le:
  "j_state j = JReady \<or> j_state j = JLeased \<Longrightarrow> job_le j (completed j) \<and> job_le j (released now j) \<and> job_le j (cancelled j) \<and>
     job_le j (lapsed now j) \<and> job_le j (killed j) \<and> job_le j (j\<lparr>j_lease_until_ms := l\<rparr>)"
  by (auto simp: job_le_def job_updates finished_def)

lemma failed_job_le:
  assumes "failed_job now j = Inr (j', kind)" and "j_state j = JLeased"
  shows "job_le j j'"
  using assms by (auto simp: failed_job_def res_bind_Inr_iff job_le_def finished_def split: if_splits)

lemma claimed_le:
  assumes "j_attempts j < j_attempts j + 1" and "lease_ok j" and "\<not> finished j"
  shows "job_le j (claimed l j) \<and> job_le j (exhausted j)"
proof -
  have "j_lease_generation j \<le> j_attempts j + 1" using assms(1,2) by (auto simp: lease_ok_def)
  then show ?thesis using assms by (auto simp: job_le_def claimed_def exhausted_def less_imp_le)
qed

lemma reclaimable_active: "reclaimable now j \<Longrightarrow> j_state j = JReady \<or> j_state j = JLeased"
  by (auto simp: reclaimable_def)

lemma culled_le: "job_le j (culled now hs j)"
proof (cases "overdue now hs j")
  case True
  then have "j_state j = JReady \<or> j_state j = JLeased" using reclaimable_active by (auto simp: overdue_def)
  then show ?thesis using True updates_le by (auto simp: culled_def)
qed (simp add: culled_def)

lemma claim_job_steps:
  assumes inv: "job_inv s" and c: "claim_job_for_handlers D now d hs s = (r, s')"
  shows "job_steps s s'"
  using c
proof (cases rule: claim_job_cases)
  case (killing l c ex rk s1)
  have F: "first_of {j. jobs s (j_id j) = Some j \<and> runnable now hs j} c" "set ex = {j. jobs s (j_id j) = Some j \<and> overdue now hs j}"
    using claim_job_scan_spec [OF killing(2)] by (simp_all add: decoded_jobs [OF inv])
  have k: "job_inv s1" "\<exists>I. jobs s1 = (\<lambda>i. if i \<in> I then map_option (culled now hs) (jobs s i) else jobs s i)"
    "rk = Inr () \<longrightarrow> jobs s1 = (\<lambda>i. map_option (culled now hs) (jobs s i))"
    using kill_all_spec [OF inv F(2) killing(3)] by auto
  have S1: "job_steps s s1" using k(1,2) culled_le by (auto simp: job_steps_def)
  show ?thesis
  proof (cases "\<exists>j. rk = Inr () \<and> c = Some j")
    case True
    then obtain j where rk: "rk = Inr ()" "c = Some j" by blast
    then have j: "jobs s (j_id j) = Some j" "runnable now hs j" using F(1) by (auto simp: first_of_def)
    then have j1: "jobs s1 (j_id j) = Some j" using k(3) rk by (auto simp: culled_def overdue_def runnable_def)
    have ok: "lease_ok j" "\<not> finished j" using job_inv_get(2) [OF inv j(1)] j(2) reclaimable_active by (auto simp: runnable_def finished_def)
    have "job_steps s1 s'"
      using lease_candidate_spec [OF k(1) j1, of D now l r s'] killing(4) rk claimed_le [OF _ ok] job_steps_upd [OF _ j1] job_steps_same
      by (auto split: sum.splits option.splits)
    then show ?thesis using S1 job_steps_trans by blast
  next
    case False
    then have "s' = s1" using killing(4) by (cases rk; cases c) auto
    then show ?thesis using S1 by simp
  qed
qed (use inv in \<open>auto intro: job_steps_same\<close>)

lemma settle_steps:
  assumes inv: "job_inv s"
  shows "heartbeat_job D i g now d s = (rt, s') \<Longrightarrow> job_steps s s'" "complete_job D i g now s = (ru, s') \<Longrightarrow> job_steps s s'"
    "fail_job D i g now detail s = (rs, s') \<Longrightarrow> job_steps s s'" "release_job D i g now s = (rt, s') \<Longrightarrow> job_steps s s'"
    "cancel_job D i now s = (rt, s') \<Longrightarrow> job_steps s s'"
  using heartbeat_job_cases [OF inv, of D i g now d rt s'] complete_job_cases [OF inv, of D i g now ru s']
    fail_job_cases [OF inv, of D i g now detail rs s'] release_job_cases [OF inv, of D i g now rt s'] cancel_job_cases [OF inv, of D i now rt s']
    updates_le failed_job_le
  by (auto simp: holds_def intro: job_steps_same job_steps_upd)

lemma release_expired_steps:
  assumes inv: "job_inv s" and c: "release_expired_jobs D now s = (rn, s')"
  shows "job_steps s s'"
proof -
  from release_expired_cases [OF assms] obtain I where I: "job_inv s'"
    "jobs s' = (\<lambda>i. if i \<in> I then map_option (lapsed now) (jobs s i) else jobs s i)"
    "I \<subseteq> {i. \<exists>j. jobs s i = Some j \<and> expired now j}" by blast
  have "job_le j (lapsed now j)" if "jobs s i = Some j" "i \<in> I" for i j
    using that I(3) updates_le by (force simp: expired_def)
  then show ?thesis using I(1,2) by (auto simp: job_steps_def)
qed

theorem job_op_steps:
  assumes op: "job_op D s s'" and inv: "job_inv s"
  shows "job_steps s s'"
  using op
proof cases
  case (op_submit spec now rb)
  have "job_inv s' \<and> (jobs s' = jobs s \<or> (\<exists>i j. jobs s i = None \<and> jobs s' = (jobs s)(i \<mapsto> j)))"
    using submit_job_cases [OF inv op_submit(1)] op_submit(2) inv by auto
  then show ?thesis by (auto simp: job_steps_def)
qed (rule claim_job_steps [OF inv] settle_steps [OF inv] release_expired_steps [OF inv], assumption)+

theorem job_ops_steps:
  assumes "(job_op D)\<^sup>*\<^sup>* s s'" and "job_inv s"
  shows "job_steps s s'"
  using assms
proof (induction rule: rtranclp_induct)
  case base
  then show ?case by (simp add: job_steps_same)
next
  case (step y z)
  then have "job_steps s y" by blast
  moreover from this have "job_steps y z" using job_op_steps [OF step.hyps(2)] by (simp add: job_steps_def)
  ultimately show ?case by (rule job_steps_trans)
qed

lemma job_stepsD:
  assumes "job_steps s s'" and "jobs s i = Some j"
  obtains j' where "jobs s' i = Some j'" and "job_le j j'"
  using assms unfolding job_steps_def by blast

lemma claim_lease:
  assumes inv: "job_inv s" and c: "claim_job_for_handlers D now d hs s = (Inr (Some j'), s')"
  obtains j l where "jobs s (j_id j) = Some j" and "j' = claimed l j" and "j_attempts j < j_max_attempts j"
    and "job_inv s'" and "jobs s' (j_id j) = Some j'" and "runnable now hs j" and "sint l = sint now + int (unat d)"
  using claim_job_spec [OF inv c] by (auto simp: first_of_def split: option.splits if_splits)

lemma less_imp_less_Suc_u32: "a < (b :: u32) \<Longrightarrow> a < a + 1"
proof -
  assume "a < b"
  moreover have "unat b < 2 ^ 32" using unsigned_less [of b] by simp
  ultimately have "unat a + 1 < 2 ^ 32" by (simp add: word_less_nat_alt)
  then show ?thesis by (simp add: word_less_nat_alt unat_word_ariths)
qed

text \<open>Between two claims of a job, the first holder's generation is used up for good.\<close>

theorem stale_job_lease:
  assumes inv: "job_inv s0"
    and c1: "claim_job_for_handlers D now1 d1 hs1 s0 = (Inr (Some j1), s1)" and h1: "(job_op D)\<^sup>*\<^sup>* s1 s2"
    and c2: "claim_job_for_handlers D now2 d2 hs2 s2 = (Inr (Some j2), s3)" and same: "j_id j2 = j_id j1"
    and h2: "(job_op D)\<^sup>*\<^sup>* s3 s4"
  shows "\<nexists>j. holds s4 (j_id j1) (j_lease_generation j1) j"
proof -
  obtain a l1 where a: "j1 = claimed l1 a" "job_inv s1" "jobs s1 (j_id a) = Some j1"
    using inv c1 by (rule claim_lease) blast
  have S1: "job_steps s1 s2" by (rule job_ops_steps [OF h1 a(2)])
  then have inv2: "job_inv s2" by (simp add: job_steps_def)
  obtain b l2 where b: "jobs s2 (j_id b) = Some b" "j2 = claimed l2 b" "j_attempts b < j_max_attempts b" "job_inv s3" "jobs s3 (j_id b) = Some j2"
    using inv2 c2 by (rule claim_lease) blast
  have id: "j_id b = j_id j1" "j_id a = j_id j1" using same a b by simp_all
  obtain b' where "jobs s2 (j_id a) = Some b'" "job_le j1 b'" using S1 a(3) by (rule job_stepsD)
  then have "job_le j1 b" using b(1) id by simp
  then have "j_lease_generation j1 \<le> j_attempts b"
    using job_inv_get(2) [OF inv2 b(1)] unfolding job_le_def lease_ok_def by (meson order.trans)
  moreover have "j_attempts b < j_attempts b + 1" using b(3) by (rule less_imp_less_Suc_u32)
  ultimately have g: "j_lease_generation j1 < j_lease_generation j2" using b(2) by (auto intro: order.strict_trans1)
  obtain j4 where "jobs s4 (j_id b) = Some j4" "job_le j2 j4" using job_ops_steps [OF h2 b(4)] b(5) by (rule job_stepsD)
  then show ?thesis using g id by (auto simp: holds_def job_le_def)
qed

text \<open>A job that has completed, died or been cancelled stays so.\<close>

theorem finished_stays:
  assumes "job_inv s" and "(job_op D)\<^sup>*\<^sup>* s s'" and "jobs s i = Some j" and "finished j"
  shows "jobs s' i = Some j"
  using job_stepsD [OF job_ops_steps [OF assms(2,1)] assms(3)] assms(4) by (metis job_le_def)

text \<open>While a lease runs, no claim hands the job to anybody else.\<close>

theorem job_lease_exclusive:
  assumes inv: "job_inv s" and j: "jobs s i = Some j" "j_state j = JLeased" "sint now < sint (j_lease_until_ms j)"
    and c: "claim_job_for_handlers D now d hs s = (Inr (Some j'), s')"
  shows "j_id j' \<noteq> i"
proof -
  obtain a l where a: "jobs s (j_id a) = Some a" "j' = claimed l a" "runnable now hs a"
    using inv c by (rule claim_lease) blast
  show ?thesis
  proof
    assume "j_id j' = i"
    then have "a = j" using a j by simp
    then show False using a(3) j by (auto simp: runnable_def reclaimable_def)
  qed
qed

text \<open>\<open>retry_job\<close> starts the generations over: the next lease is generation one again.\<close>

theorem retry_restarts_generations:
  assumes inv: "job_inv s" and r: "retry_job D i now s = (Inr (Some j0), s1)"
    and c: "claim_job_for_handlers D now' d hs s1 = (Inr (Some j), s2)" and i: "j_id j = i"
  shows "holds s2 i 1 j"
proof -
  have s1: "job_inv s1" "\<exists>j. jobs s1 i = Some (retried now j)" using retry_job_cases [OF inv r] by auto
  obtain a l where a: "jobs s1 (j_id a) = Some a" "j = claimed l a" "jobs s2 (j_id a) = Some j" using s1(1) c by (rule claim_lease) blast
  then have "\<exists>b. a = retried now b" using s1(2) i by auto
  then show ?thesis using a i by (auto simp: holds_def retried_def claimed_def)
qed

section \<open>Delays between attempts\<close>

lemma checked_mul_Some:
  fixes a :: "'a::len word"
  assumes "checked_mul a b = Some c"
  shows "unat c = unat a * unat b"
  using assms by (auto simp: checked_mul_def unat_word_ariths split: if_splits)

theorem retry_delay_bounds:
  assumes "retry_delay_ms j = Inr delay"
  shows "91 * (unat (j_retry_backoff_ms j) * max (unat (j_attempts j)) 1) div 100 \<le> unat delay"
    and "unat delay \<le> 110 * (unat (j_retry_backoff_ms j) * max (unat (j_attempts j)) 1) div 100"
    and "unat delay < 2 ^ 63"
proof -
  let ?n = "unat (j_retry_backoff_ms j) * max (unat (j_attempts j)) 1"
  define seed where "seed = foldl (+) 0 (j_id j) + (ucast (j_attempts j) :: u8)"
  from assms obtain base p where b: "checked_mul (j_retry_backoff_ms j) (ucast (max (j_attempts j) 1) :: u64) = Some base"
    and p: "checked_mul base (91 + ucast (seed mod 20)) = Some p" and d: "i64_try_from_u64 (p div 100) = Some delay"
    by (auto simp: retry_delay_ms_def seed_def Let_def res_bind_Inr_iff ok_or_Inr_iff)
  have "unat (max (j_attempts j) 1) = max (unat (j_attempts j)) 1" by (simp add: max_def word_le_nat_alt)
  moreover have "unat (ucast w :: u64) = unat w" for w :: u32
  proof -
    have "unat w < 2 ^ 32" using unsigned_less [of w] by simp
    then show ?thesis by (simp add: unsigned_ucast_eq take_bit_nat_eq_self)
  qed
  ultimately have base: "unat base = ?n" using checked_mul_Some [OF b] by simp
  have seed: "unat (seed mod 20) < 20" by (simp add: unat_mod_distrib)
  then have "unat (91 + ucast (seed mod 20) :: u64) = 91 + unat (seed mod 20)"
    by (simp add: unat_word_ariths unsigned_ucast_eq take_bit_nat_eq_self)
  then have up: "unat p = ?n * (91 + unat (seed mod 20))" using checked_mul_Some [OF p] base by simp
  have del: "unat delay = unat p div 100" "unat delay < 2 ^ 63"
    using d by (auto simp: i64_try_from_u64_def unat_div_distrib split: if_splits)
  have "?n * 91 \<le> unat p" "unat p \<le> ?n * 110" unfolding up using seed by (auto intro!: mult_le_mono2)
  then show "91 * ?n div 100 \<le> unat delay" "unat delay \<le> 110 * ?n div 100" "unat delay < 2 ^ 63"
    using del by (simp_all add: div_le_mono mult.commute)
qed

section \<open>Recovery\<close>

lemma recoverable_drawn [simp]: "recoverable D (drawn s) = recoverable D s"
  by (simp add: recoverable_def durable_def store_log_def file_holds_def counters_ahead_def drawn_def benign_def)

lemma keeps_persist [keeps_intros]: "keeps (recoverable D) (persist_job D j)" "keeps (recoverable D) (persist_job_with_history D j at kind detail)"
  unfolding persist_job_def persist_job_with_history_def by (intro keeps_intros logging_intros)+

lemma keeps_load [keeps_intros]: "keeps P (load_job i)"
  by (simp add: keeps_def load_job_def)

lemma keeps_leased [keeps_intros]: "keeps P (leased_job i g)"
  unfolding leased_job_def by (intro keeps_intros)

lemma keeps_build [keeps_intros]: "keeps (recoverable D) (build_job spec)"
  unfolding keeps_def using build_job_cases by fastforce

lemmas job_op_defs = submit_job_def claim_job_for_handlers_def lease_candidate_def kill_expired_def heartbeat_job_def complete_job_def
  fail_job_def release_job_def release_expired_jobs_def release_expired_def cancel_job_def Let_def

lemma job_ops_keep:
  "keeps (recoverable D) (submit_job D spec now)" "keeps (recoverable D) (claim_job_for_handlers D now d hs)"
  "keeps (recoverable D) (heartbeat_job D i g now d)" "keeps (recoverable D) (complete_job D i g now)"
  "keeps (recoverable D) (fail_job D i g now detail)" "keeps (recoverable D) (release_job D i g now)"
  "keeps (recoverable D) (release_expired_jobs D now)" "keeps (recoverable D) (cancel_job D i now)"
  unfolding job_op_defs by (intro keeps_intros logging_intros)+

lemma job_op_recoverable:
  assumes "job_op D s s'" and "recoverable D s"
  shows "recoverable D s'"
  using assms(1) by cases (rule job_ops_keep [THEN keepsD, OF assms(2)], assumption)+

lemma job_ops_recoverable: "(job_op D)\<^sup>*\<^sup>* s s' \<Longrightarrow> recoverable D s \<Longrightarrow> recoverable D s'"
  by (induction rule: rtranclp_induct) (auto intro: job_op_recoverable)

end
