(* ===== verification/Schedules.thy ===== *)
theory Schedules
  imports Jobs
begin

text \<open>
  Schedules (\<open>crates/voodoo-store-core/src/jobs.rs\<close>, modelled in \<open>Job_Model\<close>): the loop that
  moves an interval schedule past the present ends, a tick always returns, and after a tick
  that was not cut short no enabled schedule is due.
\<close>

section \<open>The advancing loop\<close>

definition next_after :: "i64 \<Rightarrow> i64 \<Rightarrow> i64 \<Rightarrow> i64 \<Rightarrow> bool" where
  "next_after now every start n \<longleftrightarrow> sint now < sint n \<and>
     (\<exists>k :: nat. sint n = sint start + int k * sint every \<and> (k = 0 \<or> sint n - sint every \<le> sint now))"

theorem advance_next_total:
  assumes "0 < sint every"
  shows "(\<exists>n. advance_next now every nxt = Some (Inr n) \<and> next_after now every nxt n) \<or>
    (advance_next now every nxt = Some (Inl JTimeOverflow) \<and> 2 ^ 63 \<le> sint now + sint every)"
proof (induction "nat (sint now - sint nxt + 1)" arbitrary: nxt rule: less_induct)
  case less
  show ?case
  proof (cases "sint now < sint nxt")
    case True
    then have "next_after now every nxt nxt" by (auto simp: next_after_def intro!: exI [of _ "0 :: nat"])
    then show ?thesis using True by (simp add: advance_next.simps)
  next
    case False
    show ?thesis
    proof (cases "checked_add_signed nxt every")
      case None
      have "- (2 ^ 63) \<le> sint nxt" using sint_greater_eq [of nxt] by simp
      then have "2 ^ 63 \<le> sint nxt + sint every"
        using None assms by (auto simp: checked_add_signed_def Let_def split: if_splits)
      then show ?thesis using False None by (simp add: advance_next.simps)
    next
      case (Some nxt')
      then have n': "sint nxt' = sint nxt + sint every" by (rule checked_add_signed_Some)
      have eq: "advance_next now every nxt = advance_next now every nxt'"
        using False Some by (simp add: advance_next.simps [of now every nxt])
      have "nat (sint now - sint nxt' + 1) < nat (sint now - sint nxt + 1)" using n' assms False by auto
      from less [OF this] consider (ok) n where "advance_next now every nxt' = Some (Inr n)" "next_after now every nxt' n"
        | (over) "advance_next now every nxt' = Some (Inl JTimeOverflow)" "2 ^ 63 \<le> sint now + sint every" by blast
      then show ?thesis
      proof cases
        case ok
        then obtain k :: nat where k: "sint n = sint nxt' + int k * sint every" "k = 0 \<or> sint n - sint every \<le> sint now" "sint now < sint n"
          by (auto simp: next_after_def)
        have "sint n = sint nxt + int (Suc k) * sint every" using k(1) n' by (simp add: algebra_simps)
        moreover have "sint n - sint every \<le> sint now" using k False n' by auto
        ultimately have "next_after now every nxt n" using k(3) unfolding next_after_def by blast
        then show ?thesis using ok eq by simp
      qed (simp add: eq)
    qed
  qed
qed

lemma interval_positive:
  assumes "i64_try_from_u64 d = Some e" and "d \<noteq> 0"
  shows "0 < sint e"
proof -
  have "e = d" "unat d < 2 ^ 63" using assms(1) by (auto simp: i64_try_from_u64_def split: if_splits)
  then show ?thesis using sint_small [of d] assms(2) by (simp add: word_neq_0_conv uint_0_iff order.not_eq_order_implies_strict)
qed

definition due :: "i64 \<Rightarrow> durable_schedule \<Rightarrow> bool" where
  "due now sc \<longleftrightarrow> sch_enabled sc \<and> sint (sch_next_run_ms sc) \<le> sint now"

lemma advance_schedule_total:
  assumes "sch_mode sc \<noteq> Interval 0"
  shows "(\<exists>sc'. advance_schedule now sc = Some (Inr sc') \<and> \<not> due now sc' \<and> sch_id sc' = sch_id sc \<and>
      sch_job sc' = sch_job sc \<and> sch_mode sc' = sch_mode sc) \<or>
    (\<exists>e. advance_schedule now sc = Some (Inl e))"
proof (cases "sch_mode sc")
  case Once
  then show ?thesis by (simp add: advance_schedule_def due_def)
next
  case (Interval d)
  show ?thesis
  proof (cases "i64_try_from_u64 d")
    case (Some every)
    have "0 < sint every" using interval_positive [OF Some] assms Interval by simp
    from advance_next_total [OF this, of now "sch_next_run_ms sc"] show ?thesis
      using Interval Some by (auto simp: advance_schedule_def due_def next_after_def)
  qed (use Interval in \<open>simp add: advance_schedule_def\<close>)
qed

section \<open>A tick\<close>

lemma decode_schedule_wf:
  assumes "decode_schedule bs = Inr sc"
  shows "wf_schedule sc"
proof -
  from assms obtain mode job rest template where m: "rd_bind rd_schedule_mode (\<lambda>mode. rd_bind read_len (\<lambda>job. rd_return (mode, job))) (drop 26 bs) = Inr ((mode, job), rest)"
    and t: "decode_job job = Inr template" and l: "27 \<le> length bs"
    and sc: "sch_id sc = slice 1 17 bs" "sch_job sc = job_spec_of template" "sch_mode sc = mode"
    by (auto simp: decode_schedule_def res_bind_Inr_iff split: if_splits)
  have "mode \<noteq> Interval 0" using m
    by (auto simp: rd_schedule_mode_def rd_bind_def rd_return_def rd_fail_def split: sum.splits if_splits prod.splits)
  moreover have "js_deadline_ms (job_spec_of template) \<noteq> Some I64_MIN"
    using decode_job_wf [OF t] by (simp add: wf_job_def job_spec_of_def)
  ultimately show ?thesis using sc l by (simp add: wf_schedule_def slice_def)
qed

theorem tick_loop_total: "\<exists>r s'. tick_loop D now limit fired es s = Some (r, s')"
proof (induction es arbitrary: fired s)
  case (Cons e es)
  obtain k v where e: "e = (k, v)" by (cases e)
  show ?case
  proof (cases "decode_schedule v")
    case (Inr sc)
    have "\<exists>r s1. fire_schedule D now sc s = Some (r, s1)"
      using advance_schedule_total [of sc now] decode_schedule_wf [OF Inr]
      by (cases "build_job (scheduled_spec sc) s") (auto simp: fire_schedule_def wf_schedule_def split: sum.splits intro: surj_pair)
    then obtain r s1 where "fire_schedule D now sc s = Some (r, s1)" by blast
    then show ?thesis using Cons.IH Inr by (cases r) (simp_all add: e)
  qed (simp add: e)
qed simp

definition schedule_inv :: "store \<Rightarrow> bool" where
  "schedule_inv s \<longleftrightarrow> store_wf s \<and> (\<forall>k v. prefix SCHEDULE_PREFIX k \<longrightarrow> store_get s k = Some v \<longrightarrow>
     (\<exists>sc. decode_schedule v = Inr sc \<and> k = schedule_key (sch_id sc)))"

lemma staging_fire [staging_intros]: "staging (fire_tx D now j sc)"
  unfolding fire_tx_def by (intro staging_intros)

lemma logging_fire [logging_intros]: "logging D (fire_tx D now j sc)"
  unfolding fire_tx_def by (intro logging_intros)

lemma fire_tx_get:
  assumes "fire_tx D now j sc t = (Inr u, t')"
  obtains jb hb sb where "encode_job j = Inr jb" and "encode_schedule sc = Inr sb"
    and "\<And>k. tx_get_internal t' k = (if k = schedule_key (sch_id sc) then Some sb
      else if k = history_key (j_id j) 0 then Some hb else if k = job_key (j_id j) then Some jb else tx_get_internal t k)"
proof -
  from assms obtain t1 t2 sb where t: "put_job_tx D j t = (Inr (), t1)"
      "append_history_tx D (j_id j) 0 (submitted_entry now (ascii ''scheduled'')) t1 = (Inr (), t2)"
      "encode_schedule sc = Inr sb" "tx_put_internal D (schedule_key (sch_id sc)) sb t2 = (Inr u, t')"
    by (auto simp: fire_tx_def act_bind_Inr_iff act_map_err_iff simp del: act_bind_lift)
  obtain jb where jb: "encode_job j = Inr jb"
      "\<And>k. tx_get_internal t1 k = (if k = job_key (j_id j) then Some jb else tx_get_internal t k)"
    using t(1) by (rule put_job_tx_get) blast
  obtain hb where hb: "\<And>k. tx_get_internal t2 k = (if k = history_key (j_id j) 0 then Some hb else tx_get_internal t1 k)"
    using t(2) by (rule append_history_tx_get) blast
  show ?thesis
    by (rule that [OF jb(1) t(3), of hb]) (use tx_kv.put_get [OF t(4)] in \<open>simp add: hb jb(2)\<close>)
qed

text \<open>Firing a schedule files its job and moves the schedule on, in one transaction.\<close>

lemma fire_schedule_Inr:
  assumes wf: "wf_schedule sc" and f: "fire_schedule D now sc s = Some (Inr u, s')" and s: "store_wf s"
  obtains sc' sb j jb hb where "encode_schedule sc' = Inr sb" and "\<not> due now sc'" and "sch_id sc' = sch_id sc" and "wf_schedule sc'"
    and "next_id s = Some (j_id j)" and "j = new_job (j_id j) (scheduled_spec sc)" and "encode_job j = Inr jb" and "store_wf s'"
    and "\<forall>k. not_cdc k \<longrightarrow> store_get s' k = (if k = schedule_key (sch_id sc) then Some sb
      else if k = history_key (j_id j) 0 then Some hb else if k = job_key (j_id j) then Some jb else store_get s k)"
proof -
  obtain b s1 where b: "build_job (scheduled_spec sc) s = (b, s1)" by fastforce
  obtain j where j: "b = Inr j" using f b by (cases b) (auto simp: fire_schedule_def)
  note B = build_job_cases [OF b, unfolded j]
  have s1: "s1 = drawn s" using B by auto
  have "sch_mode sc \<noteq> Interval 0" using wf by (simp add: wf_schedule_def)
  then obtain sc' where sc': "advance_schedule now sc = Some (Inr sc')" "\<not> due now sc'" "sch_id sc' = sch_id sc" "sch_job sc' = sch_job sc" "sch_mode sc' = sch_mode sc"
    using advance_schedule_total [of sc now] f b j by (auto simp: fire_schedule_def)
  have wf': "wf_schedule sc'" using wf sc' by (simp add: wf_schedule_def)
  have run: "run_tx D True JStore (fire_tx D now j sc') s1 = (Inr u, s')" using f b j sc'(1) by (simp add: fire_schedule_def)
  then obtain t where t: "fire_tx D now j sc' (fresh_tx True s1) = (Inr u, t)" "\<And>k. not_cdc k \<Longrightarrow> store_get s' k = tx_get_internal t k"
    by (rule run_tx_view [OF staging_fire]) blast
  have "store_wf s'" using run_tx_wf [OF staging_fire _ run] s s1 by simp
  moreover obtain jb hb sb where "encode_job j = Inr jb" "encode_schedule sc' = Inr sb"
    "\<And>k. tx_get_internal t k = (if k = schedule_key (sch_id sc') then Some sb
      else if k = history_key (j_id j) 0 then Some hb else if k = job_key (j_id j) then Some jb else tx_get_internal (fresh_tx True s1) k)"
    using t(1) by (rule fire_tx_get) blast
  ultimately show ?thesis
    by (intro that [of sc' sb j jb hb]) (use sc' wf' t(2) B s1 in auto)
qed

lemma fire_schedule_inv:
  assumes inv: "schedule_inv s" and wf: "wf_schedule sc" and f: "fire_schedule D now sc s = Some (Inr u, s')"
  shows "schedule_inv s'" and "\<exists>sb sc'. store_get s' (schedule_key (sch_id sc)) = Some sb \<and> decode_schedule sb = Inr sc' \<and> \<not> due now sc'"
    and "prefix SCHEDULE_PREFIX k \<Longrightarrow> k \<noteq> schedule_key (sch_id sc) \<Longrightarrow> store_get s' k = store_get s k"
proof -
  have "store_wf s" using inv by (simp add: schedule_inv_def)
  with wf f obtain sc' sb j jb hb where F: "encode_schedule sc' = Inr sb" "\<not> due now sc'" "sch_id sc' = sch_id sc" "wf_schedule sc'"
    and "next_id s = Some (j_id j)" "j = new_job (j_id j) (scheduled_spec sc)" "encode_job j = Inr jb" and G: "store_wf s'"
    "\<forall>k. not_cdc k \<longrightarrow> store_get s' k = (if k = schedule_key (sch_id sc) then Some sb
      else if k = history_key (j_id j) 0 then Some hb else if k = job_key (j_id j) then Some jb else store_get s k)"
    by (rule fire_schedule_Inr) blast
  have d: "decode_schedule sb = Inr sc'" by (rule decode_schedule_encode [OF F(4,1)])
  have g: "store_get s' k = (if k = schedule_key (sch_id sc) then Some sb else store_get s k)" if "prefix SCHEDULE_PREFIX k" for k
    using G(2) [rule_format, OF job_spaces(3) [OF that]] that job_spaces(5) [OF job_key_simps(1)] job_spaces(6) [OF job_key_simps(3)] by auto
  show "store_get s' k = store_get s k" if "prefix SCHEDULE_PREFIX k" "k \<noteq> schedule_key (sch_id sc)" using g that by simp
  show "\<exists>sb sc'. store_get s' (schedule_key (sch_id sc)) = Some sb \<and> decode_schedule sb = Inr sc' \<and> \<not> due now sc'"
    using g [OF job_key_simps(6)] d F(2) by simp
  have "\<exists>sc. decode_schedule v = Inr sc \<and> k = schedule_key (sch_id sc)" if "prefix SCHEDULE_PREFIX k" "store_get s' k = Some v" for k v
    using g [OF that(1)] that inv d F(3) unfolding schedule_inv_def by (auto split: if_splits)
  then show "schedule_inv s'" using G(1) by (simp add: schedule_inv_def)
qed

lemma tick_loop_spec:
  assumes "schedule_inv s" and "distinct (map fst es)" and "\<forall>(k, v) \<in> set es. prefix SCHEDULE_PREFIX k \<and> store_get s k = Some v"
    and "tick_loop D now limit fired es s = Some (Inr n, s')"
  shows "schedule_inv s' \<and> fired \<le> n \<and> (fired \<le> limit \<longrightarrow> n \<le> limit) \<and>
    (\<forall>k. prefix SCHEDULE_PREFIX k \<longrightarrow> k \<notin> fst ` set es \<longrightarrow> store_get s' k = store_get s k) \<and>
    (n < limit \<longrightarrow> (\<forall>k \<in> fst ` set es. \<exists>v sc. store_get s' k = Some v \<and> decode_schedule v = Inr sc \<and> \<not> due now sc))"
  using assms
proof (induction es arbitrary: fired s)
  case (Cons e es)
  obtain k v where e: "e = (k, v)" by (cases e)
  have k: "prefix SCHEDULE_PREFIX k" "store_get s k = Some v" "k \<notin> fst ` set es" using Cons.prems(2,3) e by auto
  show ?case
  proof (cases "fired = limit")
    case True
    then show ?thesis using Cons.prems e by auto
  next
    case False
    obtain sc where sc: "decode_schedule v = Inr sc" "k = schedule_key (sch_id sc)"
      using k Cons.prems(1) unfolding schedule_inv_def by blast
    show ?thesis
    proof (cases "due now sc")
      case False
      then have t: "tick_loop D now limit fired es s = Some (Inr n, s')"
        using Cons.prems(4) \<open>fired \<noteq> limit\<close> sc(1) e by (auto simp: due_def split: if_splits)
      from Cons.IH [OF Cons.prems(1) _ _ t] Cons.prems(2,3) show ?thesis using k sc False e by auto
    next
      case True
      then obtain u s1 where s1: "fire_schedule D now sc s = Some (Inr u, s1)" "tick_loop D now limit (fired + 1) es s1 = Some (Inr n, s')"
        using Cons.prems(4) \<open>fired \<noteq> limit\<close> sc(1) e by (auto simp: due_def split: if_splits option.splits sum.splits)
      note F = fire_schedule_inv [OF Cons.prems(1) decode_schedule_wf [OF sc(1)] s1(1)]
      have es: "\<forall>(k, v) \<in> set es. prefix SCHEDULE_PREFIX k \<and> store_get s1 k = Some v"
        using Cons.prems(3) F(3) k(3) sc(2) by force
      have I: "schedule_inv s' \<and> fired + 1 \<le> n \<and> (fired + 1 \<le> limit \<longrightarrow> n \<le> limit) \<and>
        (\<forall>k. prefix SCHEDULE_PREFIX k \<longrightarrow> k \<notin> fst ` set es \<longrightarrow> store_get s' k = store_get s1 k) \<and>
        (n < limit \<longrightarrow> (\<forall>k \<in> fst ` set es. \<exists>v sc. store_get s' k = Some v \<and> decode_schedule v = Inr sc \<and> \<not> due now sc))"
        using Cons.IH [OF F(1) _ es s1(2)] Cons.prems(2) by simp
      then have "store_get s' k = store_get s1 k" using k by blast
      then show ?thesis using I F(2,3) \<open>fired \<noteq> limit\<close> sc(2) k e by auto
    qed
  qed
qed simp

theorem tick_complete:
  assumes inv: "schedule_inv s" and t: "tick_schedules D now limit s = Some (Inr rep, s')"
  shows "schedule_inv s'" and "tk_fired rep \<le> limit"
    and "tk_fired rep < limit \<Longrightarrow> get_schedule s' i = Inr (Some sc) \<Longrightarrow> \<not> due now sc"
proof -
  let ?es = "scan_prefix s SCHEDULE_PREFIX"
  have wf: "store_wf s" using inv by (simp add: schedule_inv_def)
  have es: "distinct (map fst ?es)" "\<forall>(k, v) \<in> set ?es. prefix SCHEDULE_PREFIX k \<and> store_get s k = Some v"
    using strict_sorted_scan [OF wf, of SCHEDULE_PREFIX] in_scan_prefix_iff [OF wf] by (auto simp: strict_sorted_iff)
  obtain n where n: "tick_loop D now limit 0 ?es s = Some (Inr n, s')" "tk_fired rep = n"
    using t by (auto simp: tick_schedules_def Let_def res_bind_Inr_iff)
  note T = tick_loop_spec [OF inv es n(1)]
  show "schedule_inv s'" "tk_fired rep \<le> limit" using T n(2) by auto
  assume lt: "tk_fired rep < limit" and g: "get_schedule s' i = Inr (Some sc)"
  then obtain v where v: "store_get s' (schedule_key i) = Some v" "decode_schedule v = Inr sc"
    by (auto simp: get_schedule_def transpose_map_def res_bind_Inr_iff split: option.splits sum.splits)
  have "schedule_key i \<in> fst ` set ?es"
  proof (rule ccontr)
    assume n: "schedule_key i \<notin> fst ` set ?es"
    then have "store_get s (schedule_key i) = Some v" using T v(1) by auto
    then have "(schedule_key i, v) \<in> set ?es" using in_scan_prefix_iff [OF wf] by simp
    then show False using n by force
  qed
  then show "\<not> due now sc" using T lt n(2) v by fastforce
qed

end
