(* ===== verification/Job_Progress.thy ===== *)
theory Job_Progress
  imports Schedules Client
begin

text \<open>
  When job operations succeed: with a healthy store a valid submission returns an identifier, a
  claim hands out a job as long as one is runnable within its budget, and the holder of a lease
  completes it.
\<close>

definition small_job :: "durable_job \<Rightarrow> bool" where
  "small_job j \<longleftrightarrow> length (j_id j) = 16 \<and> length (j_handler j) < 2 ^ 28 \<and> length (j_payload j) < 2 ^ 28 \<and>
     (case j_idempotency_key j of None \<Rightarrow> True | Some k \<Rightarrow> length k < 2 ^ 28)"

lemma append_len_ok: "length bs < 2 ^ 28 \<Longrightarrow> append_len out bs = Inr (out @ to_le (of_nat (length bs) :: u32) @ bs)"
  by (simp add: append_len_def u32_try_from_len_def)

lemma encode_job_ok: "small_job j \<Longrightarrow> \<exists>bs. encode_job j = Inr bs \<and> length bs < 2 ^ 30"
  by (auto simp: small_job_def encode_job_def append_len_ok length_job_fixed split: option.splits)

lemma encode_history_ok: "length (h_detail e) < 2 ^ 28 \<Longrightarrow> \<exists>bs. encode_history e = Inr bs \<and> length bs < 2 ^ 29"
  by (simp add: encode_history_def append_len_ok)

lemma job_key_lengths: "length (job_key i) = length i + 14" "length (history_key i q) = length i + 25" "length (schedule_key i) = length i + 19"
  by (simp_all add: job_key_def history_key_def history_prefix_def schedule_key_def JOB_PREFIX_def HISTORY_PREFIX_def SCHEDULE_PREFIX_def ascii_def)

lemma can_encoded:
  assumes "enc = Inr bs" and "length k + length bs < 2 ^ 31"
  shows "can 1 (act_bind (act_lift enc) (\<lambda>bs. act_map_err e (tx_put_internal D k bs))) t ()"
  unfolding assms(1) act_bind_lift sum.case by (rule can_map_err [OF can_put [OF assms(2)]])

lemma can_put_job: "small_job j \<Longrightarrow> can 1 (put_job_tx D j) t ()"
proof -
  assume j: "small_job j"
  then obtain bs where bs: "encode_job j = Inr bs" "length bs < 2 ^ 30" using encode_job_ok by blast
  show ?thesis unfolding put_job_tx_def by (rule can_encoded [OF bs(1)]) (use j bs(2) in \<open>simp add: job_key_lengths small_job_def\<close>)
qed

lemma can_append_history:
  "length i = 16 \<Longrightarrow> length (h_detail e) < 2 ^ 28 \<Longrightarrow> can 1 (append_history_tx D i q e) t ()"
proof -
  assume i: "length i = 16" and "length (h_detail e) < 2 ^ 28"
  then obtain bs where bs: "encode_history e = Inr bs" "length bs < 2 ^ 29" using encode_history_ok by blast
  show ?thesis unfolding append_history_tx_def by (rule can_encoded [OF bs(1)]) (use i bs(2) in \<open>simp add: job_key_lengths\<close>)
qed

lemma persist_history_ok:
  assumes sha: "sha_ok D" and h: "healthy (6 + n) s" and j: "small_job j" and d: "length detail < 2 ^ 28"
    and q: "next_history_sequence s (j_id j) = Inr q"
  shows "\<exists>s'. persist_job_with_history D j at kind detail s = (Inr (), s') \<and> healthy n s'"
proof -
  let ?e = "\<lparr>h_sequence = q, h_at_ms = at, h_kind = kind, h_detail = detail\<rparr>"
  have "can (1 + 1) (save_body D j q ?e) (fresh_tx True s) ()"
    by (rule can_bind [OF can_put_job can_append_history]) (use j d in \<open>simp_all add: small_job_def\<close>)
  from run_can [OF sha this, of n JStore] h show ?thesis
    using q by (auto simp: persist_job_with_history_def act_bind_def)
qed

lemma submit_fresh_ok:
  assumes sha: "sha_ok D" and h: "healthy (6 + n) s" and v: "validate_job_spec spec = Inr ()" 
    and k: "(case js_idempotency_key spec of None \<Rightarrow> Inr None | Some key \<Rightarrow> find_active_job_by_idempotency s key) = Inr None"
      "\<And>key. js_idempotency_key spec = Some key \<Longrightarrow> length key < 2 ^ 28"
    and i: "next_id s = Some i" "length i = 16" and l: "length (js_handler spec) < 2 ^ 28" "length (js_payload spec) < 2 ^ 28"
  shows "\<exists>s'. submit_job D spec now s = (Inr i, s') \<and> healthy n s'"
proof -
  let ?j = "new_job i spec"
  have "small_job ?j" using i l k(2) by (simp add: small_job_def new_job_def split: option.split)
  then have c: "can (1 + (1 + 0)) (submit_body D ?j now) (fresh_tx True (drawn s)) i"
    by (intro can_bind [OF can_put_job can_bind [OF can_append_history]])
      (simp_all add: small_job_def submitted_entry_def new_job_def can_pure)
  have h': "healthy (6 + n) (drawn s)" using h by (simp add: healthy_def drawn_def)
  from run_can [OF sha c, of n JStore] h' obtain s' where s': "run_tx D True JStore (submit_body D ?j now) (drawn s) = (Inr i, s')" "healthy n s'"
    by auto
  have b: "build_job spec s = (Inr ?j, drawn s)"
    using v i(1) by (auto simp: build_job_def random_id_def act_bind_def drawn_def next_id_def split: list.splits option.splits)
  show ?thesis using s' v k(1) b by (auto simp: submit_job_def act_bind_def)
qed

lemma submit_ok:
  assumes "sha_ok D" and "healthy (6 + n) s" and "validate_job_spec spec = Inr ()" and "js_idempotency_key spec = None"
    and "next_id s = Some i" "length i = 16" and "length (js_handler spec) < 2 ^ 28" "length (js_payload spec) < 2 ^ 28"
  shows "\<exists>s'. submit_job D spec now s = (Inr i, s') \<and> healthy n s'"
  by (rule submit_fresh_ok) (use assms in auto)

lemma claim_job_ok:
  assumes inv: "job_inv s" and sha: "sha_ok D" and h: "healthy (6 + n) s" and t: "unat d < 2 ^ 63" "sint now + int (unat d) < 2 ^ 63"
    and no: "\<forall>j. jobs s (j_id j) = Some j \<longrightarrow> \<not> overdue now hs j"
    and j0: "jobs s (j_id j0) = Some j0" "runnable now hs j0"
    and all: "\<forall>j. jobs s (j_id j) = Some j \<and> runnable now hs j \<longrightarrow> small_job j \<and> j_attempts j < j_max_attempts j \<and> (\<exists>q. next_history_sequence s (j_id j) = Inr q)"
  shows "\<exists>j s'. claim_job_for_handlers D now d hs s = (Inr (Some j), s') \<and> healthy n s'"
proof -
  have dec: "\<exists>j. decode_job v = Inr j" if "(k, v) \<in> set (scan_prefix s JOB_PREFIX)" for k v
    using that inv unfolding in_scan_prefix_iff [OF job_inv_wf [OF inv]] job_inv_def by blast
  have "\<exists>r. claim_job_scan now hs c ex es = Inr r" if "set es \<subseteq> set (scan_prefix s JOB_PREFIX)" for c ex es
    using that
  proof (induction es arbitrary: c ex)
    case (Cons e es)
    obtain k v where e: "e = (k, v)" by (cases e)
    then have "(k, v) \<in> set (scan_prefix s JOB_PREFIX)" using Cons.prems by simp
    then obtain j where "decode_job v = Inr j" using dec by blast
    moreover have "\<exists>r. claim_job_scan now hs c ex es = Inr r" for c ex using Cons by simp
    ultimately show ?case by (cases "hs = []") (simp_all add: e)
  qed simp
  then obtain c ex where sc: "claim_job_scan now hs None [] (scan_prefix s JOB_PREFIX) = Inr (c, ex)" by fastforce
  have F: "first_of {j. jobs s (j_id j) = Some j \<and> runnable now hs j} c" "set ex = {j. jobs s (j_id j) = Some j \<and> overdue now hs j}"
    using claim_job_scan_spec [OF sc] by (simp_all add: decoded_jobs [OF inv])
  have "set ex = {}" unfolding F(2) using no by blast
  then have ex: "ex = []" by simp
  obtain j where j: "c = Some j" "jobs s (j_id j) = Some j" "runnable now hs j" using F(1) j0 by (cases c) (auto simp: first_of_def)
  obtain q where A: "small_job j" "j_attempts j < j_max_attempts j" "next_history_sequence s (j_id j) = Inr q" using all j by blast
  have d: "i64_try_from_u64 d = Some d" using t(1) by (simp add: i64_try_from_u64_def)
  have "- (2 ^ 63) \<le> sint now" using sint_greater_eq [of now] by simp
  then have "- (2 ^ 63) \<le> sint now + int (unat d)" by (rule order.trans) (simp only: le_add_same_cancel1 of_nat_0_le_iff)
  then have l: "checked_add_signed now d = Some (now + d)" using t(2) sint_small [OF t(1)] by (simp add: checked_add_signed_def Let_def)
  have lt: "j_attempts j < j_attempts j + 1" by (rule less_imp_less_Suc_u32 [OF A(2)])
  have "unat (j_attempts j) < unat (j_max_attempts j)" "unat (j_max_attempts j) < 2 ^ 32"
    using A(2) unsigned_less [of "j_max_attempts j"] by (simp_all add: word_less_nat_alt)
  then have a: "checked_add (j_attempts j) 1 = Some (j_attempts j + 1)" by (simp add: checked_add_def)
  have "small_job (claimed (now + d) j)" using A(1) by (simp add: small_job_def claimed_def)
  from persist_history_ok [OF sha h this, of "[]" q now HClaimed] A(3)
  obtain s' where s': "persist_job_with_history D (claimed (now + d) j) now HClaimed [] s = (Inr (), s')" "healthy n s'" by auto
  have "\<not> j_max_attempts j < j_attempts j + 1" using A(2) inc_le by (auto simp: not_less)
  then have "lease_candidate D now (now + d) j s = (Inr (Some (claimed (now + d) j)), s')"
    using a s'(1) by (simp add: lease_candidate_def Let_def act_bind_def claimed_def)
  then show ?thesis using s'(2) d l sc ex j(1) by (auto simp: claim_job_for_handlers_def act_bind_def)
qed

lemma complete_ok:
  assumes inv: "job_inv s" and sha: "sha_ok D" and h: "healthy (6 + n) s" and j: "holds s i g j" "small_job j"
    and q: "next_history_sequence s i = Inr q"
  shows "\<exists>s'. complete_job D i g now s = (Inr (), s') \<and> healthy n s'"
proof -
  have "leased_job i g s = (Inr j, s)" using j(1) leased_job_iff(1) [OF inv] by blast
  moreover have "small_job (completed j)" "j_id (completed j) = i"
    using j job_inv_get(2) [OF inv] by (auto simp: small_job_def completed_def holds_def)
  then have "\<exists>s'. persist_job_with_history D (completed j) now HCompleted [] s = (Inr (), s') \<and> healthy n s'"
    using persist_history_ok [OF sha h] q by auto
  ultimately show ?thesis by (auto simp: complete_job_def act_bind_def completed_def)
qed

section \<open>The history of a new job\<close>

lemma submit_history:
  assumes inv: "job_inv s" and c: "submit_job D spec now s = (Inr i, s')" and k: "js_idempotency_key spec = None"
    and i: "length i = 16" and e: "scan_prefix s (history_prefix i) = []"
    and len: "\<And>x. next_id s = Some x \<Longrightarrow> length x = 16"
  shows "history_of s' i [submitted_entry now []]"
proof -
  from submit_job_cases [OF inv c len] k obtain hb where hb: "job_inv s'" "encode_history (submitted_entry now []) = Inr hb"
    "\<forall>k. not_cdc k \<longrightarrow> prefix HISTORY_PREFIX k \<longrightarrow> store_get s' k = (if k = history_key i 0 then Some hb else store_get s k)" by auto
  have hp: "prefix HISTORY_PREFIX k" if "prefix (history_prefix i) k" for k
    using that by (auto simp: history_prefix_def prefix_def)
  have g: "store_get s' k = (if k = history_key i 0 then Some hb else store_get s k)" if "prefix (history_prefix i) k" for k
    using hb(3) hp [OF that] job_spaces(2) by blast
  have "scan_prefix s' (history_prefix i) = scan_prefix s (history_prefix i) @ [(history_key i 0, hb)]"
    by (rule scan_prefix_snoc [OF job_inv_wf [OF inv] job_inv_wf [OF hb(1)] job_key_simps(4) g]) (use e in auto)
  then show ?thesis using e decode_history_encode [OF hb(2)] by (simp add: history_of_def submitted_entry_def)
qed

text \<open>A claim that kills nobody on its way adds one entry to the history of the job it hands out.\<close>

lemma lease_candidate_Some:
  assumes "lease_candidate D now l j s = (Inr (Some j'), s')"
  shows "j' = claimed l j \<and> persist_job_with_history D j' now HClaimed [] s = (Inr (), s')"
proof (cases "checked_add (j_attempts j) 1")
  case (Some a)
  then have "a = j_attempts j + 1" using checked_add_one_u32 by blast
  then show ?thesis using assms Some
    by (auto simp: lease_candidate_def Let_def act_bind_Inr_iff claimed_def act_return_def split: if_splits)
qed (use assms in \<open>simp add: lease_candidate_def\<close>)

lemma claim_history:
  assumes inv: "job_inv s" and c: "claim_job_for_handlers D now d hs s = (Inr (Some j'), s')"
    and no: "\<forall>j. jobs s (j_id j) = Some j \<longrightarrow> \<not> overdue now hs j"
    and h: "history_of s (j_id j') es" and l: "length es + 1 < 2 ^ 64"
  shows "history_of s' (j_id j') (es @ [\<lparr>h_sequence = of_nat (length es), h_at_ms = now, h_kind = HClaimed, h_detail = []\<rparr>])"
  using c
proof (cases rule: claim_job_cases)
  case (killing l' c ex rk s1)
  have F: "first_of {j. jobs s (j_id j) = Some j \<and> runnable now hs j} c" "set ex = {j. jobs s (j_id j) = Some j \<and> overdue now hs j}"
    using claim_job_scan_spec [OF killing(2)] by (simp_all add: decoded_jobs [OF inv])
  have "set ex = {}" unfolding F(2) using no by blast
  then have s1: "s1 = s" "rk = Inr ()" using killing(3) by auto
  then obtain j where j: "c = Some j" "lease_candidate D now l' j s = (Inr (Some j'), s')" using killing(4) by (cases c) auto
  have "jobs s (j_id j) = Some j" using F(1) j(1) by (auto simp: first_of_def)
  then have "wf_job j" using job_inv_get(2) [OF inv] by blast
  then have "length (j_id j') = 16" using lease_candidate_Some [OF j(2)] by (auto simp: wf_job_def)
  from history_appended(1) [OF job_inv_wf [OF inv] this h l] lease_candidate_Some [OF j(2)] show ?thesis by blast
qed simp

section \<open>A store with one job\<close>

definition demo_id :: bytes where
  "demo_id = replicate 16 5"

definition demo_job_store :: store where
  "demo_job_store = demo_store\<lparr>st_os := demo_os\<lparr>os_entropy := [Some demo_id]\<rparr>\<rparr>"

definition demo_spec :: job_spec where
  "demo_spec = job_spec_new [1] [2]"

abbreviation demo_job :: durable_job where
  "demo_job \<equiv> new_job demo_id demo_spec"

lemma demo_job_simps [simp]: "j_id demo_job = demo_id" "j_attempts demo_job = 0" "j_max_attempts demo_job = 3" "j_state demo_job = JReady"
  "j_deadline_ms demo_job = None" "j_available_at_ms demo_job = 0" "length demo_id = 16" "small_job demo_job" "small_job (claimed l demo_job)"
  "j_idempotency_key demo_job = None"
  by (simp_all add: new_job_def demo_spec_def job_spec_new_def demo_id_def small_job_def claimed_def)

lemma demo_job_store_simps: "healthy 500 demo_job_store" "job_inv demo_job_store" "next_id demo_job_store = Some demo_id"
  "jobs demo_job_store = Map.empty" "scan_prefix demo_job_store p = []" "recoverable demo_deps demo_job_store"
proof -
  have g: "store_get demo_job_store k = None" for k by (simp add: demo_job_store_def demo_store_def store_get_def)
  show "healthy 500 demo_job_store" using demo_store_healthy [of 500] by (simp add: healthy_def demo_job_store_def demo_store_def demo_os_def)
  show "job_inv demo_job_store" by (simp add: job_inv_def g) (simp add: store_wf_def demo_job_store_def demo_store_def)
  show "jobs demo_job_store = Map.empty" by (simp add: fun_eq_iff jobs_def get_job_def g)
  show "scan_prefix demo_job_store p = []" by (simp add: scan_prefix_def scan_map_def demo_job_store_def demo_store_def)
  show "next_id demo_job_store = Some demo_id" by (simp add: next_id_def demo_job_store_def)
  have "durable demo_deps demo_job_store []"
    using demo_store_durable by (simp add: durable_def store_log_def file_holds_def counters_ahead_def demo_job_store_def benign_def demo_store_def demo_os_def)
  then show "recoverable demo_deps demo_job_store" unfolding recoverable_def by blast
qed

lemma demo_submit:
  obtains s where "submit_job demo_deps demo_spec 0 demo_job_store = (Inr demo_id, s)" and "healthy 400 s" and "job_inv s"
    and "jobs s = [demo_id \<mapsto> demo_job]" and "history_of s demo_id [submitted_entry 0 []]"
proof -
  note S = demo_job_store_simps
  have h: "healthy (6 + 400) demo_job_store" by (rule healthy_mono [OF S(1)]) simp
  have "validate_job_spec demo_spec = Inr ()" "js_idempotency_key demo_spec = None" "length (js_handler demo_spec) < 2 ^ 28" "length (js_payload demo_spec) < 2 ^ 28"
    by (simp_all add: validate_job_spec_def demo_spec_def job_spec_new_def)
  note V = this
  obtain s where s: "submit_job demo_deps demo_spec 0 demo_job_store = (Inr demo_id, s)" "healthy 400 s"
    using submit_ok [OF demo_sha_ok h V(1,2) S(3) _ V(3,4), of 0] by auto
  have len: "next_id demo_job_store = Some x \<Longrightarrow> length x = 16" for x using S(3) demo_job_simps(7) by simp
  have "stored_job demo_job = demo_job" by (simp add: stored_job_def)
  then have "job_inv s" "jobs s = [demo_id \<mapsto> demo_job]"
    using submit_job_cases [OF S(2) s(1) len] V(2) S(4) by auto
  moreover have "history_of s demo_id [submitted_entry 0 []]"
    by (rule submit_history [OF S(2) s(1) V(2) _ S(5) len]) simp
  ultimately show ?thesis using that s by blast
qed

lemma demo_job_claim:
  obtains s s1 where "submit_job demo_deps demo_spec 0 demo_job_store = (Inr demo_id, s)" and "job_inv s"
    and "claim_job_for_handlers demo_deps 0 10 [] s = (Inr (Some (claimed 10 demo_job)), s1)" and "healthy 300 s1" and "job_inv s1"
    and "jobs s1 = [demo_id \<mapsto> claimed 10 demo_job]"
    and "history_of s1 demo_id [submitted_entry 0 [], \<lparr>h_sequence = 1, h_at_ms = 0, h_kind = HClaimed, h_detail = []\<rparr>]"
proof -
  obtain s where s: "submit_job demo_deps demo_spec 0 demo_job_store = (Inr demo_id, s)" "healthy 400 s" "job_inv s"
    "jobs s = [demo_id \<mapsto> demo_job]" "history_of s demo_id [submitted_entry 0 []]" by (rule demo_submit)
  have h: "healthy (6 + 300) s" by (rule healthy_mono [OF s(2)]) simp
  have one: "jobs s (j_id j) = Some j \<Longrightarrow> j = demo_job" for j using s(4) by (auto split: if_splits)
  have no: "\<forall>j. jobs s (j_id j) = Some j \<longrightarrow> \<not> overdue 0 [] j" using one by (metis demo_job_simps(5) option.simps(4) overdue_def past_deadline_def)
  have r: "runnable 0 [] demo_job" by (simp add: runnable_def for_worker_def reclaimable_def past_deadline_def)
  have all: "\<forall>j. jobs s (j_id j) = Some j \<and> runnable 0 [] j \<longrightarrow> small_job j \<and> j_attempts j < j_max_attempts j \<and> (\<exists>q. next_history_sequence s (j_id j) = Inr q)"
  proof (intro allI impI)
    fix j assume "jobs s (j_id j) = Some j \<and> runnable 0 [] j"
    then have "j = demo_job" using one by blast
    then show "small_job j \<and> j_attempts j < j_max_attempts j \<and> (\<exists>q. next_history_sequence s (j_id j) = Inr q)"
      using history_next [OF s(5)] by simp
  qed
  obtain j1 s1 where c: "claim_job_for_handlers demo_deps 0 10 [] s = (Inr (Some j1), s1)" "healthy 300 s1"
    using claim_job_ok [OF s(3) demo_sha_ok h _ _ no _ r all, of 10] s(4) by auto
  obtain j l where j: "jobs s (j_id j) = Some j" "j1 = claimed l j" "job_inv s1" "sint l = 10" using s(3) c(1) by (rule claim_lease) auto
  have "l = 10" using j(4) by (intro signed_word_eqI) simp
  then have j1: "j1 = claimed 10 demo_job" using one [OF j(1)] j(2) by simp
  obtain x lx where x: "jobs s (j_id x) = Some x" "j1 = claimed lx x"
      "jobs s1 = (\<lambda>i. map_option (culled 0 []) (jobs s i))(j_id x \<mapsto> claimed lx x)"
    using claim_job_spec [OF s(3) c(1)] by (auto simp: first_of_def split: option.split_asm if_split_asm)
  have "j_id x = demo_id" using one [OF x(1)] by simp
  then have "jobs s1 = [demo_id \<mapsto> claimed 10 demo_job]" unfolding x(3) x(2) [symmetric] s(4) j1 by auto
  moreover have "history_of s1 demo_id [submitted_entry 0 [], \<lparr>h_sequence = 1, h_at_ms = 0, h_kind = HClaimed, h_detail = []\<rparr>]"
    using claim_history [OF s(3) c(1) no, of "[submitted_entry 0 []]"] s(5) j1 by simp
  ultimately show ?thesis using that s(1,3) c j1 j(3) by blast
qed

section \<open>A store that holds one entry\<close>

definition single :: "bytes \<Rightarrow> bytes \<Rightarrow> store" where
  "single k v = demo_job_store\<lparr>st_state := [(k, v)]\<rparr>"

lemma single_simps [simp]: "store_get (single k v) k' = (if k' = k then Some v else None)" "healthy 500 (single k v)" "store_wf (single k v)"
  "scan_prefix (single k v) p = (if prefix p k then [(k, v)] else [])" "next_id (single k v) = Some demo_id"
  using demo_job_store_simps(1,3)
  by (simp_all add: single_def store_get_def healthy_def store_wf_def wf_map_def scan_prefix_def scan_map_def next_id_def)

lemma single_job:
  assumes "wf_job j" and "lease_ok j" and "small_job j"
  obtains s where "job_inv s" and "jobs s = [j_id j \<mapsto> j]" and "healthy 500 s" and "history_of s (j_id j) []"
    and "next_id s = Some demo_id" and "scan_prefix s SCHEDULE_PREFIX = []"
proof -
  obtain bs where bs: "encode_job j = Inr bs" using encode_job_ok [OF assms(3)] by blast
  have d: "decode_job bs = Inr j" by (rule decode_job_encode [OF assms(1) bs])
  let ?s = "single (job_key (j_id j)) bs"
  have "job_inv ?s" using d assms(2) by (simp add: job_inv_def)
  moreover have "jobs ?s = [j_id j \<mapsto> j]" using d by (simp add: fun_eq_iff jobs_def get_job_def)
  moreover have "\<not> prefix (history_prefix (j_id j)) (job_key (j_id j))" "\<not> prefix SCHEDULE_PREFIX (job_key (j_id j))"
    using job_spaces(4,5) [OF job_key_simps(1)] by (auto simp: history_prefix_def prefix_def)
  ultimately show ?thesis by (intro that [of ?s]) (simp_all add: history_of_def)
qed

lemma can_fire:
  assumes "small_job j" and "encode_schedule sc = Inr sb" and "length sb < 2 ^ 30" and "length (sch_id sc) = 16"
  shows "can (1 + (1 + 1)) (fire_tx D now j sc) t ()"
  unfolding fire_tx_def
  by (rule can_bind [OF can_put_job can_bind [OF can_append_history can_encoded [OF assms(2)]]])
    (use assms in \<open>simp_all add: small_job_def submitted_entry_def job_key_lengths ascii_def\<close>)

end
