(* ===== verification/Service_Progress.thy ===== *)
theory Service_Progress
  imports Domains Job_Progress
begin

text \<open>
  When stream, consumer-group and request operations succeed on a healthy store, and the concrete
  stream, group and request on which the properties are applied.
\<close>

section \<open>Streams and groups\<close>

lemma stream_key_length:
  assumes "stream_ok q"
  shows "length (entry_key q i) = length (sn_name q) + 27" "length (sn_next_key q) = length (sn_name q) + 21"
proof -
  from assms obtain name where q: "stream_new name = Inr q" by (auto simp: stream_ok_def)
  show "length (entry_key q i) = length (sn_name q) + 27" "length (sn_next_key q) = length (sn_name q) + 21"
    using stream_new_Inr [OF q] by (simp_all add: entry_key_def STREAM_PREFIX_def ascii_def)
qed

lemma append_ok:
  assumes st: "stream_holds q s xs" and sha: "sha_ok D" and h: "healthy (6 + n) s" and l: "length xs < 2 ^ 64 - 1"
    "length (sn_name q) < 2 ^ 29" "length payload < 2 ^ 29"
  shows "\<exists>s'. stream_append D q payload s = (Inr (of_nat (length xs)), s') \<and> healthy n s'"
proof -
  have ok: "stream_ok q" and nx: "stream_next_offset q s = Inr (of_nat (length xs))" using st by (simp_all add: stream_holds_def)
  let ?i = "of_nat (length xs) :: u64"
  have i: "?i \<noteq> - 1" using l(1) unat_of_nat_u64 [of "length xs"] unat_max_u64 by auto
  have "can (1 + (1 + 0)) (append_body D q ?i (?i + 1) (entry_bytes payload)) (fresh_tx True s) ?i"
    by (rule can_map_err, rule can_bind [OF can_put can_bind [OF can_put can_pure(1)]])
      (use l stream_key_length [OF ok] in \<open>simp_all add: entry_bytes_def\<close>)
  from run_can [OF sha this, of n MsStore] h obtain s' where
    s': "run_tx D True MsStore (append_body D q ?i (?i + 1) (entry_bytes payload)) s = (Inr ?i, s')" "healthy n s'" by auto
  moreover have "encode_entry payload = Inr (entry_bytes payload)" using l(3) by (simp add: encode_entry_Inr)
  ultimately show ?thesis using nx i by (auto simp: stream_append_def checked_add_one_u64)
qed

lemma save_state_ok:
  assumes sha: "sha_ok D" and h: "healthy (n + 4) s" and l: "length key + length (cg_owner st) < 2 ^ 30"
  shows "\<exists>s'. save_state D key st s = (Inr (), s') \<and> healthy n s'"
proof -
  obtain bs where bs: "encode_state st = Inr bs" "length bs \<le> 40 + length (cg_owner st)"
    using l by (auto simp: encode_state_def u32_try_from_len_def split: option.split)
  then obtain s' where "store_put_internal D key bs s = (Inr (), s')" "healthy n s'"
    using store_put_internal_ok [OF sha h, of key bs] l by auto
  then show ?thesis using bs(1) by (auto simp: save_state_def act_map_err_def)
qed

lemma claim_group_ok:
  assumes st: "stream_holds q s xs" and inv: "group_inv (sn_name q) grp s" and sha: "sha_ok D" and h: "healthy (n + 4) s"
    and free: "cg_leased_offset (group_of (sn_name q) grp s) = None \<or> sint (cg_lease_until_ms (group_of (sn_name q) grp s)) \<le> sint now"
    and g: "cg_lease_generation (group_of (sn_name q) grp s) \<noteq> - 1"
    and at: "unat (cg_next_offset (group_of (sn_name q) grp s)) < length xs"
    and t: "unat d < 2 ^ 63" "checked_add_signed now d = Some until"
    and l: "consumer \<noteq> []" "grp \<noteq> []" "length consumer < 2 ^ 28" "length grp < 2 ^ 28" "length (sn_name q) < 2 ^ 28"
  shows "\<exists>x s'. consumer_group_claim D (sn_name q) grp consumer now d s = (Inr (Some x), s') \<and> healthy n s'"
proof -
  let ?str = "sn_name q" and ?g = "group_of (sn_name q) grp s"
  have ne: "?str \<noteq> []" using st stream_new_Inr(1,2) by (fastforce simp: stream_holds_def stream_ok_def)
  obtain key where k: "group_key ?str grp = Inr key" "length key < 2 ^ 29 + 100"
    using l by (auto simp: group_key_def u32_try_from_len_def GROUP_PREFIX_def ascii_def)
  obtain loaded where lo: "load_state s key = Inr loaded"
    using inv group_state_key [OF ne l(2) k(1)] by (cases "load_state s key") (auto simp: group_inv_def)
  have gl: "?g = (case loaded of None \<Rightarrow> group_state_default | Some st \<Rightarrow> st)" by (rule group_loaded [OF ne l(2) k(1) lo])
  let ?e = "\<lparr>se_offset = cg_next_offset ?g, se_payload = xs ! unat (cg_next_offset ?g)\<rparr>"
  have e: "next_entry ?str (cg_next_offset ?g) s = Inr (Some ?e)" using next_entry_eq [OF st refl] at by simp
  let ?st = "?g\<lparr>cg_lease_generation := cg_lease_generation ?g + 1, cg_leased_offset := Some (cg_next_offset ?g), cg_lease_until_ms := until, cg_owner := consumer\<rparr>"
  obtain s' where s': "save_state D key ?st s = (Inr (), s')" "healthy n s'"
    using save_state_ok [OF sha h, of key ?st] k(2) l(3) by auto
  have "lease_entry D key ?g consumer now d ?e s = (Inr (Some \<lparr>gd_entry = ?e, gd_lease_generation = cg_lease_generation ?g + 1, gd_lease_until_ms = until\<rparr>), s')"
    using t g s'(1) by (simp add: lease_entry_def i64_try_from_u64_def checked_add_one_u64 act_bind_def)
  moreover have "\<not> (cg_leased_offset ?g \<noteq> None \<and> sint now < sint (cg_lease_until_ms ?g))" using free by auto
  ultimately have "consumer_group_claim D ?str grp consumer now d s = (Inr (Some \<lparr>gd_entry = ?e, gd_lease_generation = cg_lease_generation ?g + 1, gd_lease_until_ms = until\<rparr>), s')"
    using k(1) lo e ne l(1,2) unfolding consumer_group_claim_def gl by (simp add: validate_names_def act_bind_def Let_def)
  then show ?thesis using s'(2) by blast
qed

lemma ack_group_ok:
  assumes inv: "group_inv str grp s" and sha: "sha_ok D" and h: "healthy (n + 4) s"
    and lease: "cg_leased_offset (group_of str grp s) = Some offset" "cg_owner (group_of str grp s) = consumer" "cg_lease_generation (group_of str grp s) = g"
    and l: "str \<noteq> []" "consumer \<noteq> []" "grp \<noteq> []" "length grp < 2 ^ 28" "length str < 2 ^ 28" "offset \<noteq> - 1"
  shows "\<exists>s'. consumer_group_ack D str grp consumer offset g s = (Inr (), s') \<and> healthy n s'"
proof -
  obtain key where k: "group_key str grp = Inr key" "length key < 2 ^ 29 + 100"
    using l by (auto simp: group_key_def u32_try_from_len_def GROUP_PREFIX_def ascii_def)
  obtain loaded where lo: "load_state s key = Inr loaded"
    using inv group_state_key [OF l(1,3) k(1)] by (cases "load_state s key") (auto simp: group_inv_def)
  have gl: "group_of str grp s = (case loaded of None \<Rightarrow> group_state_default | Some st \<Rightarrow> st)" by (rule group_loaded [OF l(1,3) k(1) lo])
  then obtain st where st: "loaded = Some st" "group_of str grp s = st" using lease(1) by (cases loaded) (auto simp: group_state_default_def)
  let ?st = "clear_lease (st\<lparr>cg_next_offset := offset + 1\<rparr>)"
  obtain s' where s': "save_state D key ?st s = (Inr (), s')" "healthy n s'"
    using save_state_ok [OF sha h, of key ?st] k(2) by (auto simp: clear_lease_def)
  then show ?thesis using k(1) lo st lease l
    by (auto simp: consumer_group_ack_def settle_group_def validate_names_def validate_group_lease_def act_bind_def checked_add_one_u64)
qed

section \<open>A stream with two entries and a group\<close>

definition demo_stream :: stream where
  "demo_stream = \<lparr>sn_name = [115], sn_next_key = STREAM_PREFIX @ to_be (1 :: u32) @ [115] @ ascii '':next'',
     sn_entry_prefix = STREAM_PREFIX @ to_be (1 :: u32) @ [115] @ ascii '':e:''\<rparr>"

lemma demo_stream_new: "stream_new [115] = Inr demo_stream"
  by (simp add: stream_new_def demo_stream_def validate_name_def u32_try_from_len_def)

lemma demo_stream_simps [simp]: "sn_name demo_stream = [115]" by (simp add: demo_stream_def)

lemma demo_stream_holds: "stream_holds demo_stream demo_store []"
  by (rule stream_holds_empty [OF demo_stream_new demo_store_wf]) (simp add: demo_store_def store_get_def)

lemma demo_append:
  obtains s where "stream_append demo_deps demo_stream [7] demo_store = (Inr 0, s)" "healthy 400 s" "stream_holds demo_stream s [[7]]"
proof -
  obtain s where s: "stream_append demo_deps demo_stream [7] demo_store = (Inr 0, s)" "healthy 400 s"
    using append_ok [OF demo_stream_holds demo_sha_ok, of 400 "[7]"] by auto
  then show ?thesis using that append_holds(2) [OF demo_stream_holds s(1)] by simp
qed

lemma demo_two_entries:
  obtains s where "healthy 300 s" "stream_holds demo_stream s [[7], [8]]" "group_inv [115] [103] s" "group_of [115] [103] s = group_state_default"
proof -
  obtain s where s: "stream_append demo_deps demo_stream [7] demo_store = (Inr 0, s)" "healthy 400 s" "stream_holds demo_stream s [[7]]"
    by (rule demo_append)
  have "healthy (6 + 300) s" by (rule healthy_mono [OF s(2)]) simp
  then obtain i s1 where s1: "stream_append demo_deps demo_stream [8] s = (Inr i, s1)" "healthy 300 s1"
    using append_ok [OF s(3) demo_sha_ok, of 300 "[8]"] by auto
  have ok: "stream_ok demo_stream" using demo_stream_new by (auto simp: stream_ok_def)
  have "consumer_group_state demo_store [115] [103] = Inr group_state_default"
    by (simp add: consumer_group_state_def validate_names_def group_key_def u32_try_from_len_def load_state_def demo_store_def store_get_def ascii_def)
  then have g: "consumer_group_state s1 [115] [103] = Inr group_state_default"
    using append_group(2) [OF s(1) ok] append_group(2) [OF s1(1) ok] by simp
  have h: "stream_holds demo_stream s1 [[7], [8]]" using append_holds(2) [OF s(3) s1(1)] by simp
  have "group_inv [115] [103] s1" using g h by (simp add: group_inv_def group_of_def stream_holds_def group_state_default_def)
  then show ?thesis using that s1(2) h g by (simp add: group_of_def)
qed

lemma demo_group_claim:
  obtains s s1 x where "stream_holds demo_stream s [[7], [8]]" "group_inv [115] [103] s"
    "consumer_group_claim demo_deps [115] [103] [99] 0 10 s = (Inr (Some x), s1)" "healthy 200 s1"
    "group_inv [115] [103] s1" "stream_holds demo_stream s1 [[7], [8]]"
    "group_of [115] [103] s1 = leased_group [99] 10 0 group_state_default" "gd_lease_generation x = 1" "gd_lease_until_ms x = 10" "cg_next_offset (group_of [115] [103] s) = 0"
proof -
  obtain s where s: "healthy 300 s" "stream_holds demo_stream s [[7], [8]]" "group_inv [115] [103] s" "group_of [115] [103] s = group_state_default"
    by (rule demo_two_entries)
  have h: "healthy (200 + 4) s" by (rule healthy_mono [OF s(1)]) simp
  have t: "checked_add_signed 0 10 = Some (10 :: i64)" by (simp add: checked_add_signed_def)
  obtain x s1 where x: "consumer_group_claim demo_deps [115] [103] [99] 0 10 s = (Inr (Some x), s1)" "healthy 200 s1"
    using claim_group_ok [OF s(2) _ demo_sha_ok h _ _ _ _ t, of "[103]" "[99]"] s(3,4) by (auto simp: group_state_default_def)
  from x(1) obtain until e where u: "sint until = 10" "next_entry [115] 0 s = Inr (Some e)" "x = \<lparr>gd_entry = e, gd_lease_generation = 1, gd_lease_until_ms = until\<rparr>"
    and w: "group_write [115] [103] (leased_group [99] until (se_offset e) group_state_default) s s1"
    by (cases rule: claim_group_cases) (auto simp: s(4) group_state_default_def)
  have e: "se_offset e = 0" using u(2) next_entry_eq [OF s(2), of "[115]" 0] by auto
  have "until = 10" using u(1) by (intro signed_word_eqI) simp
  then have g: "group_of [115] [103] s1 = leased_group [99] 10 0 group_state_default" using w e by (simp add: group_write_def)
  have c: "(group_op demo_deps False [115] [103])\<^sup>*\<^sup>* s s1" by (intro r_into_rtranclp g_claim [OF x(1)])
  have "group_inv [115] [103] s1" using group_ops_effect [OF c s(2) _ s(3)] by simp
  then show ?thesis using that [OF s(2,3) x] group_write_stream [OF w s(2)] g u(3) \<open>until = 10\<close> s(4) by (simp add: group_state_default_def)
qed

section \<open>Requests\<close>

lemma can_random: "os_entropy (st_os (tx_store t)) = Some nonce # xs \<Longrightarrow> can 0 (tx_random e) t nonce"
  by (auto simp: can_def tx_random_def ready_def healthy_def tx_ext_def same_view_def intro!: exI [of _ "[]"])

lemma encode_request_ok:
  assumes "length (rq_method rq) < 2 ^ 28" and "length (rq_payload rq) < 2 ^ 28" and "length (ri_nonce (rq_id rq)) = 16"
  shows "\<exists>bs. encode_request rq = Inr bs \<and> length bs < 2 ^ 30"
  using assms by (auto simp: encode_request_def rp_write_bytes_def u32_try_from_len_def split: option.split)

lemma request_ok:
  assumes sha: "sha_ok D" and h: "healthy (4 + n) s" and e: "os_entropy (st_os s) = Some nonce # xs" "length nonce = 16"
    and l: "meth \<noteq> []" "length meth < 2 ^ 28" "length payload < 2 ^ 28"
  shows "\<exists>s'. submit_rpc_request D meth payload created deadline s = (Inr \<lparr>ri_tx_id = st_next_tx_id s, ri_nonce = nonce\<rparr>, s') \<and> healthy n s'"
proof -
  let ?i = "\<lparr>ri_tx_id = st_next_tx_id s, ri_nonce = nonce\<rparr>"
  obtain bs where bs: "encode_request \<lparr>rq_id = ?i, rq_method = meth, rq_payload = payload, rq_created_at_ms = created, rq_deadline_ms = deadline\<rparr> = Inr bs" "length bs < 2 ^ 30"
    using encode_request_ok [of "\<lparr>rq_id = ?i, rq_method = meth, rq_payload = payload, rq_created_at_ms = created, rq_deadline_ms = deadline\<rparr>"] l e(2) by auto
  have k: "length (request_key ?i) = 37" using e(2) by (simp add: request_key_def REQUEST_PREFIX_def ascii_def)
  have r: "can 0 (tx_random RpEntropyUnavailable) (fresh_tx True s) nonce" by (rule can_random [of _ _ xs]) (use e in \<open>simp add: fresh_tx_def\<close>)
  let ?rq = "\<lparr>rq_id = ?i, rq_method = meth, rq_payload = payload, rq_created_at_ms = created, rq_deadline_ms = deadline\<rparr>"
  have p: "can (1 + 0) (act_bind (act_map_err RpStore (tx_put_internal D (request_key ?i) bs)) (\<lambda>_. act_return ?i)) t ?i" for t
    by (rule can_bind [OF can_map_err [OF can_put] can_pure(1)]) (use k bs(2) in simp)
  have q: "can (0 + (1 + 0)) (act_bind (act_lift (encode_request ?rq)) (\<lambda>bs. act_bind (act_map_err RpStore (tx_put_internal D (request_key ?i) bs)) (\<lambda>_. act_return ?i))) t ?i" for t
    by (rule can_bind [OF can_pure(2) [OF bs(1)]]) (rule p)
  have "can (0 + (0 + (0 + (1 + 0)))) (request_rpc D meth payload created deadline) (fresh_tx True s) ?i"
    unfolding request_rpc_def if_not_P [OF l(1)]
    by (rule can_bind [OF r], rule can_bind [OF can_pure(3) [where v = ?i]]) (use q in \<open>simp_all add: tx_ext_def\<close>)
  from run_can [OF sha this, of n RpStore] h show ?thesis by (auto simp: submit_rpc_request_def)
qed

lemma respond_ok:
  assumes sha: "sha_ok D" and h: "healthy (6 + n) s" and p: "contains_key s (request_key i)" and l: "length (ri_nonce i) = 16" "length payload < 2 ^ 28"
  shows "\<exists>s'. respond_rpc D i payload finish is_error s = (Inr (), s') \<and> healthy n s'"
proof -
  let ?rs = "\<lparr>rs_request_id = i, rs_payload = payload, rs_completed_at_ms = finish, rs_is_error = is_error\<rparr>"
  obtain bs where bs: "encode_response ?rs = Inr bs" "length bs < 2 ^ 30"
    using l by (auto simp: encode_response_def rp_write_bytes_def u32_try_from_len_def)
  have k: "length (request_key i) = 37" "length (response_key i) = 38"
    using l(1) by (simp_all add: request_key_def response_key_def REQUEST_PREFIX_def RESPONSE_PREFIX_def ascii_def)
  have q: "can (0 + 1) (act_bind (act_lift (encode_response ?rs)) (\<lambda>bs. act_map_err RpStore (tx_put_internal D (response_key i) bs))) t ()" for t
    by (rule can_bind [OF can_pure(2) [OF bs(1)] can_map_err [OF can_put]]) (use k bs(2) in simp)
  have d: "can 1 (act_map_err RpStore (tx_delete_internal D (request_key i))) (fresh_tx True s) ()"
    by (rule can_map_err [OF can_delete]) (use k in simp)
  have "can (1 + (0 + 1)) (respond_body D i ?rs) (fresh_tx True s) ()"
    by (rule can_bind [OF d]) (rule q)
  from run_can [OF sha this, of n RpStore] h p show ?thesis by (auto simp: respond_rpc_def)
qed

end
