(* ===== verification/Queue_Leases.thy ===== *)
theory Queue_Leases
  imports Queue
begin

text \<open>
  A running lease. The steps of a queue that happen while a consumer holds a message: every
  operation of the queue, with any arguments, except that clocks read less than the end of the
  lease and that nobody but the holder presents the holder's identifier and generation. They
  leave the held message exactly as it is.
\<close>

inductive bystander :: "deps \<Rightarrow> queue \<Rightarrow> queue_message \<Rightarrow> store \<Rightarrow> store \<Rightarrow> bool" for D q h where
  by_push: "push_with_options D q payload opts s = (r, s') \<Longrightarrow> bystander D q h s s'"
| by_claim: "queue_claim D q now d s = (rc, s') \<Longrightarrow> sint now < sint (qm_lease_until_ms h) \<Longrightarrow> bystander D q h s s'"
| by_ack: "queue_ack D q i g s = (ru, s') \<Longrightarrow> (i, g) \<noteq> (qm_id h, qm_lease_generation h) \<Longrightarrow> bystander D q h s s'"
| by_nack: "queue_nack D q i g available s = (ru, s') \<Longrightarrow> (i, g) \<noteq> (qm_id h, qm_lease_generation h) \<Longrightarrow> bystander D q h s s'"
| by_dead_letter: "dead_letter D q i g s = (ru, s') \<Longrightarrow> (i, g) \<noteq> (qm_id h, qm_lease_generation h) \<Longrightarrow> bystander D q h s s'"
| by_purge_dead: "purge_dead D q s = (r, s') \<Longrightarrow> bystander D q h s s'"

lemma bystander_queue_op: "bystander D q h s s' \<Longrightarrow> queue_op D q s s'"
  by (cases rule: bystander.cases) (auto intro: queue_op.intros)

text \<open>The message is leased with the generation and to the instant its holder was told.\<close>

definition held :: "queue \<Rightarrow> store \<Rightarrow> queue_message \<Rightarrow> stored_message \<Rightarrow> bool" where
  "held q s h m \<longleftrightarrow> holds_lease q s (qm_id h) (qm_lease_generation h) m \<and> sm_lease_until_ms m = qm_lease_until_ms h"

lemma claim_held:
  assumes "queue_inv q s" and "queue_claim D q now d s = (Inr (Some h), s')"
  shows "queue_inv q s'" and "\<exists>m. held q s' h m"
proof -
  obtain m l where "h = queue_message_of (leased_until l m)" "queue_inv q s'" "msgs q s' = (msgs q s)(sm_id m \<mapsto> leased_until l m)"
    using queue_claim_spec [OF assms] by auto
  then have "queue_inv q s'" "held q s' h (leased_until l m)" by (auto simp: held_def holds_lease_def queue_message_of_def)
  then show "queue_inv q s'" "\<exists>m. held q s' h m" by blast+
qed

lemma held_claim_other:
  assumes "queue_inv q s" and "held q s h m" and "queue_claim D q now d s = (Inr (Some h'), s')" and "sint now < sint (qm_lease_until_ms h)"
  shows "qm_id h' \<noteq> qm_id h"
  using queue_claim_spec [OF assms(1,3)] assms(2,4) by (auto simp: held_def holds_lease_def eligible_def queue_message_of_def)

lemma held_unchanged:
  assumes "held q s h m" and "msgs q s' (qm_id h) = msgs q s (qm_id h)"
  shows "held q s' h m"
  using assms by (simp add: held_def holds_lease_def)

lemma same_msgs:
  assumes "\<And>k. store_get s' k = store_get s k"
  shows "msgs q s' = msgs q s"
  using same_queue_view(1) [OF same_queueI [OF assms]] .

lemma bystander_claim_keeps:
  assumes inv: "queue_inv q s" and h: "held q s h m" and c: "queue_claim D q now d s = (r, s')" and t: "sint now < sint (qm_lease_until_ms h)"
  shows "msgs q s' (qm_id h) = msgs q s (qm_id h)"
proof (cases r)
  case (Inl e)
  show ?thesis by (simp only: same_msgs [OF queue_claim_fail(1) [OF c [unfolded Inl]]])
next
  case (Inr o1)
  show ?thesis
  proof (cases o1)
    case None
    then show ?thesis using queue_claim_spec [OF inv c [unfolded Inr]] by simp
  next
    case (Some h')
    have "qm_id h' \<noteq> qm_id h" using held_claim_other [OF inv h _ t] c Inr Some by blast
    moreover obtain a l where "h' = queue_message_of (leased_until l a)" "msgs q s' = (msgs q s)(sm_id a \<mapsto> leased_until l a)"
      using queue_claim_spec [OF inv c [unfolded Inr]] Some by auto
    ultimately show ?thesis by (simp add: queue_message_of_def)
  qed
qed

lemma bystander_settle_keeps:
  assumes inv: "queue_inv q s" and h: "held q s h m" and other: "(i, g) \<noteq> (qm_id h, qm_lease_generation h)"
  shows "queue_ack D q i g s = (r, s') \<Longrightarrow> msgs q s' (qm_id h) = msgs q s (qm_id h)"
    and "queue_nack D q i g available s = (r, s') \<Longrightarrow> msgs q s' (qm_id h) = msgs q s (qm_id h)"
    and "dead_letter D q i g s = (r, s') \<Longrightarrow> msgs q s' (qm_id h) = msgs q s (qm_id h)"
proof -
  have ne: "i \<noteq> qm_id h" if "holds_lease q s i g m'" for m' using that h other by (auto simp: held_def holds_lease_def)
  show "msgs q s' (qm_id h) = msgs q s (qm_id h)" if a: "queue_ack D q i g s = (r, s')"
  proof (cases r)
    case (Inr u)
    then show ?thesis using queue_ack_spec [OF inv a [unfolded Inr]] ne by fastforce
  next
    case (Inl e)
    show ?thesis by (simp only: same_msgs [OF queue_ack_fail(1) [OF a [unfolded Inl]]])
  qed
  show "msgs q s' (qm_id h) = msgs q s (qm_id h)" if a: "queue_nack D q i g available s = (r, s')"
  proof (cases r)
    case (Inr u)
    then show ?thesis using queue_nack_spec [OF inv a [unfolded Inr]] ne by fastforce
  next
    case (Inl e)
    show ?thesis by (simp only: same_msgs [OF rewrite_fail(1) [OF a [unfolded queue_nack_def Inl]]])
  qed
  show "msgs q s' (qm_id h) = msgs q s (qm_id h)" if a: "dead_letter D q i g s = (r, s')"
  proof (cases r)
    case (Inr u)
    then show ?thesis using dead_letter_spec [OF inv a [unfolded Inr]] ne by fastforce
  next
    case (Inl e)
    show ?thesis by (simp only: same_msgs [OF rewrite_fail(1) [OF a [unfolded dead_letter_def Inl]]])
  qed
qed

lemma bystander_store_keeps:
  assumes inv: "queue_inv q s" and h: "held q s h m"
  shows "push_with_options D q payload opts s = (r, s') \<Longrightarrow> msgs q s' (qm_id h) = msgs q s (qm_id h)"
    and "purge_dead D q s = (rp, s') \<Longrightarrow> msgs q s' (qm_id h) = msgs q s (qm_id h)"
proof -
  have m: "msgs q s (qm_id h) = Some m" "sm_state m = QLeased" using h by (auto simp: held_def holds_lease_def)
  show "msgs q s' (qm_id h) = msgs q s (qm_id h)" if p: "push_with_options D q payload opts s = (r, s')"
  proof (cases r)
    case (Inr i)
    then show ?thesis using push_spec(5,6) [OF inv p [unfolded Inr]] m(1) by auto
  next
    case (Inl e)
    show ?thesis by (simp only: same_msgs [OF push_fail(1) [OF p [unfolded Inl]]])
  qed
  show "msgs q s' (qm_id h) = msgs q s (qm_id h)" if p: "purge_dead D q s = (rp, s')"
  proof (cases rp)
    case (Inr n)
    then show ?thesis using purge_dead_spec(3) [OF inv p [unfolded Inr]] m by simp
  next
    case (Inl e)
    show ?thesis by (simp only: same_msgs [OF purge_dead_fail(1) [OF p [unfolded Inl]]])
  qed
qed

lemma bystander_keeps:
  assumes "bystander D q h s s'" and "queue_inv q s" and "held q s h m"
  shows "queue_inv q s' \<and> held q s' h m"
proof -
  have "msgs q s' (qm_id h) = msgs q s (qm_id h)"
    using assms(1)
    by (cases rule: bystander.cases)
      (auto intro: bystander_claim_keeps [OF assms(2,3)] bystander_settle_keeps [OF assms(2,3)] bystander_store_keeps [OF assms(2,3)])
  then show ?thesis using held_unchanged [OF assms(3)] queue_op_evolves [OF bystander_queue_op [OF assms(1)] assms(2)] by blast
qed

theorem bystanders_keep:
  assumes "(bystander D q h)\<^sup>*\<^sup>* s s'" and "queue_inv q s" and "held q s h m"
  shows "queue_inv q s' \<and> held q s' h m"
  using assms(1) by (induction rule: rtranclp_induct) (use assms(2,3) bystander_keeps in blast)+

end
