(* ===== verification/Entropy.thy ===== *)
theory Entropy
  imports Schedules
begin

text \<open>
  The random identifiers that the operating system will still hand out. Nothing but the drawing
  of an identifier changes them, so what is known of them at the start of an operation holds at
  every later draw.
\<close>

named_theorems entropy_intros

definition drawable :: "store \<Rightarrow> bytes list" where
  "drawable s = List.map_filter id (os_entropy (st_os s))"

lemma drawable_next: "next_id s = Some x \<Longrightarrow> drawable s = x # drawable (drawn s)"
  by (auto simp: drawable_def next_id_def drawn_def map_filter_simps split: list.splits option.splits)

lemma drawable_drawn: "set (drawable (drawn s)) \<subseteq> set (drawable s)" "distinct (drawable s) \<Longrightarrow> distinct (drawable (drawn s))"
  by (cases "os_entropy (st_os s)"; auto simp: drawable_def drawn_def map_filter_simps split: option.splits)+

section \<open>Actions that draw nothing\<close>

definition steady :: "(transaction, 'e, 'a) act \<Rightarrow> bool" where
  "steady a \<longleftrightarrow> (\<forall>t r t'. a t = (r, t') \<longrightarrow> os_entropy (st_os (tx_store t')) = os_entropy (st_os (tx_store t)))"

lemma steadyD: "steady a \<Longrightarrow> a t = (r, t') \<Longrightarrow> os_entropy (st_os (tx_store t')) = os_entropy (st_os (tx_store t))"
  unfolding steady_def by blast

lemma steady_pure [entropy_intros]: "steady (act_return v)" "steady (act_lift r)" "steady (\<lambda>t. (g t, t))"
  by (simp_all add: steady_def)

lemma steady_bind [entropy_intros]: "steady a \<Longrightarrow> (\<And>x. steady (f x)) \<Longrightarrow> steady (act_bind a f)"
  unfolding steady_def act_bind_def by (fastforce split: prod.splits sum.splits)

lemma steady_map_err [entropy_intros]: "steady a \<Longrightarrow> steady (act_map_err e a)"
  unfolding steady_def act_map_err_def by (auto split: prod.splits sum.splits)

lemma steady_dep: "(\<And>t0. steady (f t0)) \<Longrightarrow> (\<And>t. a t = f t t) \<Longrightarrow> steady a"
  unfolding steady_def by metis

lemma append_entropy: "store_append D kind i p s = (r, s') \<Longrightarrow> os_entropy (st_os s') = os_entropy (st_os s)"
  by (auto simp: store_append_def write_all_def Let_def split: option.splits sum.splits list.splits write_outcome.splits)

lemma steady_stage: "steady (tx_stage D kind p op)"
  by (auto simp: steady_def tx_stage_def dest: append_entropy split: prod.splits sum.splits)

lemma steady_internal [entropy_intros]: "steady (tx_put_internal D k v)" "steady (tx_delete_internal D k)"
  using steady_stage [of D] by (auto simp: steady_def tx_put_internal_def tx_delete_internal_def ensure_open_def split: sum.splits if_splits)

lemma steady_user [entropy_intros]: "steady (tx_put D k v)" "steady (tx_delete D k)"
  unfolding tx_put_def tx_delete_def by (intro entropy_intros)+

lemma steady_changes: "steady (stage_changes_from D q ops)"
proof (induction ops arbitrary: q)
  case Nil
  then show ?case by (simp add: steady_def)
next
  case (Cons op ops)
  define f where "f t = act_bind (act_lift (map_err map_cdc_error (encode_change (change_of D (tx_id t) q op)))) (\<lambda>encoded.
      act_bind (tx_put_internal D (change_key (tx_id t) q) encoded) (\<lambda>_.
      act_bind (act_lift (ok_or ECounterExhausted (checked_add q 1))) (\<lambda>q1. stage_changes_from D q1 ops)))" for t :: transaction
  have f: "steady (f t)" for t unfolding f_def by (intro entropy_intros Cons.IH)
  show ?case
  proof (cases "prefix CDC_PREFIX (op_key op)")
    case True
    then show ?thesis using Cons.IH unfolding stage_changes_from_Cons by simp
  next
    case False
    show ?thesis by (rule steady_dep [where f = f, OF f]) (simp only: stage_changes_from_Cons False if_False f_def)
  qed
qed

lemma steady_commit_record: "steady (commit_record D)"
  by (auto simp: steady_def commit_record_def dest: append_entropy split: prod.splits sum.splits)

lemma steady_commit_apply: "steady commit_apply"
  by (auto simp: steady_def commit_apply_def sync_file_def sync_call_def act_map_err_def pop_timing_def
      split: prod.splits sum.splits list.splits durability.splits sync_outcome.splits)

lemma commit_entropy:
  assumes "tx_commit D t = (r, s')"
  shows "os_entropy (st_os s') = os_entropy (st_os (tx_store t))"
proof -
  have "steady (if tx_emit_cdc t then stage_changes D (tx_operations t) else act_return ())" for t
    by (simp add: stage_changes_def steady_changes steady_pure)
  note c = this
  define f where "f t = act_bind (act_lift (ensure_open t)) (\<lambda>_.
       act_bind (if tx_emit_cdc t then stage_changes D (tx_operations t) else act_return ()) (\<lambda>_.
       act_bind (\<lambda>t1. (check_namespace_quota D (tx_store t1) (tx_operations t1), t1)) (\<lambda>_.
       act_bind (commit_record D) (\<lambda>_. commit_apply))))" for t :: transaction
  have f: "steady (f t)" for t unfolding f_def by (intro entropy_intros c steady_commit_record steady_commit_apply)
  have "steady (commit_inner D)" by (rule steady_dep [where f = f, OF f]) (simp only: commit_inner_def f_def)
  then show ?thesis using assms by (auto simp: tx_commit_def dest: steadyD split: prod.splits sum.splits)
qed

lemma run_tx_entropy:
  assumes "run_tx D emit conv body s = (r, s')" and "\<And>rb t. body (fresh_tx emit s) = (rb, t) \<Longrightarrow> Q (os_entropy (st_os (tx_store t)))"
    and "Q (os_entropy (st_os s))"
  shows "Q (os_entropy (st_os s'))"
proof (cases "st_next_tx_id s = - 1")
  case True
  then show ?thesis using assms(1,3) by (auto simp: run_tx_def begin_with_cdc_eq)
next
  case False
  obtain rb t where b: "body (fresh_tx emit s) = (rb, t)" by fastforce
  have "s' = tx_store t \<or> (\<exists>rc. tx_commit D t = (rc, s'))"
    using assms(1) False b by (auto simp: run_tx_def begin_with_cdc_eq split: sum.splits prod.splits)
  then show ?thesis using assms(2) [OF b] commit_entropy by metis
qed

lemma run_tx_steady:
  assumes "steady body" and "run_tx D emit conv body s = (r, s')"
  shows "drawable s' = drawable s"
proof -
  have "os_entropy (st_os s') = os_entropy (st_os s)"
    by (rule run_tx_entropy [OF assms(2), where Q = "\<lambda>e. e = os_entropy (st_os s)"]) (use steadyD [OF assms(1)] in \<open>auto simp: fresh_tx_def\<close>)
  then show ?thesis by (simp add: drawable_def)
qed

section \<open>The jobs that a tick files\<close>

lemma steady_fire: "steady (fire_tx D now j sc)"
  unfolding fire_tx_def put_job_tx_def append_history_tx_def by (intro entropy_intros)

lemma fire_schedule_fail:
  assumes "fire_schedule D now sc s = Some (Inl e, s')"
  shows "store_get s' k = store_get s k" and "store_wf s \<Longrightarrow> store_wf s'"
proof -
  obtain b s1 where b: "build_job (scheduled_spec sc) s = (b, s1)" by fastforce
  have s1: "store_get s1 k = store_get s k" "store_wf s1 \<longleftrightarrow> store_wf s"
    using build_job_cases [OF b] by auto
  have "s' = s1 \<or> (\<exists>j sc'. run_tx D True JStore (fire_tx D now j sc') s1 = (Inl e, s'))"
    using assms b by (auto simp: fire_schedule_def split: sum.splits option.splits)
  then show "store_get s' k = store_get s k" "store_wf s \<Longrightarrow> store_wf s'"
    using s1 run_tx_fail_get [OF staging_fire] run_tx_wf [OF staging_fire] by metis+
qed

abbreviation filed_for :: "store \<Rightarrow> durable_schedule \<Rightarrow> bytes \<Rightarrow> bool" where
  "filed_for s sc x \<equiv> jobs s x = Some (stored_job (new_job x (scheduled_spec sc)))"

lemma jobs_same: "store_get s' (job_key i) = store_get s (job_key i) \<Longrightarrow> jobs s' i = jobs s i"
  by (simp add: jobs_def get_job_def)

lemma fire_schedule_files:
  assumes inv: "schedule_inv s" and wf: "wf_schedule sc" and f: "fire_schedule D now sc s = Some (Inr u, s')"
    and len: "\<forall>x \<in> set (drawable s). length x = 16"
  shows "\<exists>x. drawable s = x # drawable s' \<and> filed_for s' sc x \<and> (\<forall>i. i \<noteq> x \<longrightarrow> jobs s' i = jobs s i)"
proof -
  have "store_wf s" using inv by (simp add: schedule_inv_def)
  with wf f obtain sc' sb j jb hb where J: "next_id s = Some (j_id j)" "j = new_job (j_id j) (scheduled_spec sc)" "encode_job j = Inr jb"
    and G: "\<forall>k. not_cdc k \<longrightarrow> store_get s' k = (if k = schedule_key (sch_id sc) then Some sb
      else if k = history_key (j_id j) 0 then Some hb else if k = job_key (j_id j) then Some jb else store_get s k)"
    by (rule fire_schedule_Inr) blast
  note d = drawable_next [OF J(1)]
  obtain b s1 where b: "build_job (scheduled_spec sc) s = (b, s1)" by fastforce
  have s1: "s1 = drawn s" using f b build_job_cases [OF b] by (auto simp: fire_schedule_def split: sum.splits)
  obtain j0 sc0 where "run_tx D True JStore (fire_tx D now j0 sc0) (drawn s) = (Inr u, s')"
    using f b s1 by (auto simp: fire_schedule_def split: sum.splits option.splits)
  from run_tx_steady [OF steady_fire this] have d': "drawable s' = drawable (drawn s)" .
  have g: "store_get s' (job_key i) = (if i = j_id j then Some jb else store_get s (job_key i))" for i
    using G [rule_format, of "job_key i"] job_spaces by (auto simp: job_key_simps)
  have "length (j_id j) = 16" using len d by simp
  from decode_job_stored [OF this J(3)] have "jobs s' (j_id j) = Some (stored_job j)"
    using g by (simp add: jobs_def get_job_def transpose_map_def)
  then have "filed_for s' sc (j_id j)" using J(2) by metis
  moreover have "jobs s' i = jobs s i" if "i \<noteq> j_id j" for i by (rule jobs_same) (use g that in simp)
  ultimately show ?thesis using d d' by metis
qed

text \<open>What a tick has done when it stops, whether it succeeded, ran into its limit or failed half-way:
  every schedule record it changed was due, and each has a job of its own, filed under an
  identifier that was drawn for it.\<close>

definition files_jobs :: "i64 \<Rightarrow> kv \<Rightarrow> store \<Rightarrow> store \<Rightarrow> (bytes \<Rightarrow> bytes) \<Rightarrow> bool" where
  "files_jobs now es s s' f \<longleftrightarrow> inj_on f {k \<in> fst ` set es. store_get s' k \<noteq> store_get s k} \<and>
     (\<forall>(k, v) \<in> set es. store_get s' k \<noteq> Some v \<longrightarrow>
       f k \<in> set (drawable s) \<and> (\<exists>sc. decode_schedule v = Inr sc \<and> due now sc \<and> filed_for s' sc (f k)))"

lemma files_jobs_none: "(\<And>k v. (k, v) \<in> set es \<Longrightarrow> store_get s k = Some v) \<Longrightarrow> (\<And>k. store_get s' k = store_get s k) \<Longrightarrow> files_jobs now es s s' f"
  by (auto simp: files_jobs_def)

lemma inj_on_upd: "x \<notin> f ` M \<Longrightarrow> inj_on f M \<Longrightarrow> k \<notin> M \<Longrightarrow> inj_on (f(k := x)) (insert k M)"
  by (auto simp: inj_on_def)

lemma files_jobs_step:
  assumes F: "files_jobs now es s1 s' f" and k: "k \<notin> fst ` set es" and d: "drawable s = x # drawable s1" "distinct (drawable s)"
    and es: "\<And>k' v'. (k', v') \<in> set es \<Longrightarrow> store_get s1 k' = Some v' \<and> store_get s k' = Some v'"
    and sc: "decode_schedule v = Inr sc" "due now sc" "filed_for s' sc x"
  shows "files_jobs now ((k, v) # es) s s' (f(k := x))"
proof -
  let ?M = "{k \<in> fst ` set es. store_get s' k \<noteq> store_get s1 k}"
  have M: "{k' \<in> fst ` set ((k, v) # es). store_get s' k' \<noteq> store_get s k'} \<subseteq> insert k ?M" using es by fastforce
  have img: "f k' \<in> set (drawable s1)" if "(k', v') \<in> set es" "store_get s' k' \<noteq> store_get s1 k'" for k' v'
  proof -
    have "store_get s' k' \<noteq> Some v'" using that es by simp
    then show ?thesis using F that(1) unfolding files_jobs_def by blast
  qed
  have "x \<notin> f ` ?M" using d img by auto
  moreover have "inj_on f ?M" "k \<notin> ?M" using F k by (auto simp: files_jobs_def)
  ultimately have "inj_on (f(k := x)) (insert k ?M)" by (intro inj_on_upd)
  then have "inj_on (f(k := x)) {k' \<in> fst ` set ((k, v) # es). store_get s' k' \<noteq> store_get s k'}" by (rule inj_on_subset) (rule M)
  moreover have "(f(k := x)) k' \<in> set (drawable s) \<and> (\<exists>sc. decode_schedule v' = Inr sc \<and> due now sc \<and> filed_for s' sc ((f(k := x)) k'))"
    if "(k', v') \<in> set ((k, v) # es)" "store_get s' k' \<noteq> Some v'" for k' v'
  proof (cases "(k', v') = (k, v)")
    case True
    then show ?thesis using sc d by auto
  next
    case False
    then have "(k', v') \<in> set es" "k' \<noteq> k" using that(1) k by force+
    then show ?thesis using F that(2) d unfolding files_jobs_def by fastforce
  qed
  ultimately show ?thesis unfolding files_jobs_def by blast
qed

lemma tick_loop_files:
  assumes "schedule_inv s" and "distinct (map fst es)" and "\<forall>(k, v) \<in> set es. prefix SCHEDULE_PREFIX k \<and> store_get s k = Some v"
    and "distinct (drawable s)" and "\<forall>x \<in> set (drawable s). length x = 16" and "tick_loop D now limit fired es s = Some (r, s')"
  shows "(\<forall>k. prefix SCHEDULE_PREFIX k \<longrightarrow> k \<notin> fst ` set es \<longrightarrow> store_get s' k = store_get s k) \<and>
    (\<forall>x. x \<notin> set (drawable s) \<longrightarrow> jobs s' x = jobs s x) \<and> (\<exists>f. files_jobs now es s s' f)"
  using assms
proof (induction es arbitrary: fired s)
  case Nil
  then show ?case by (auto simp: files_jobs_def)
next
  case (Cons e es)
  obtain k v where e: "e = (k, v)" by (cases e)
  have k: "prefix SCHEDULE_PREFIX k" "store_get s k = Some v" "k \<notin> fst ` set es" using Cons.prems(2,3) e by auto
  have all: "\<And>k v. (k, v) \<in> set (e # es) \<Longrightarrow> store_get s k = Some v" using Cons.prems(3) by auto
  obtain sc where sc: "decode_schedule v = Inr sc" "k = schedule_key (sch_id sc)"
    using k Cons.prems(1) unfolding schedule_inv_def by blast
  have stop: ?case if "\<And>k. store_get s' k = store_get s k"
    using that files_jobs_none [OF all that] jobs_same by blast
  show ?case
  proof (cases "fired = limit")
    case True
    then show ?thesis using Cons.prems(6) e by (intro stop) auto
  next
    case False
    show ?thesis
    proof (cases "due now sc")
      case nd: False
      then have t: "tick_loop D now limit fired es s = Some (r, s')"
        using Cons.prems(6) False sc(1) e by (auto simp: due_def split: if_splits)
      have es: "\<forall>(k, v) \<in> set es. prefix SCHEDULE_PREFIX k \<and> store_get s k = Some v" using Cons.prems(3) by simp
      from Cons.IH [OF Cons.prems(1) _ es Cons.prems(4,5) t] Cons.prems(2) obtain f where I:
        "\<forall>k. prefix SCHEDULE_PREFIX k \<longrightarrow> k \<notin> fst ` set es \<longrightarrow> store_get s' k = store_get s k"
        "\<forall>x. x \<notin> set (drawable s) \<longrightarrow> jobs s' x = jobs s x" "files_jobs now es s s' f" by auto
      have same: "store_get s' k = Some v" using I(1) k by simp
      then have "files_jobs now (e # es) s s' f" using I(3) k(2) e
        unfolding files_jobs_def by (auto intro: inj_on_subset)
      then show ?thesis using I(1,2) by auto
    next
      case True
      obtain rf s1 where s1: "fire_schedule D now sc s = Some (rf, s1)"
        using Cons.prems(6) False True sc(1) e by (auto simp: due_def split: option.splits)
      show ?thesis
      proof (cases rf)
        case (Inl er)
        then have "s' = s1" using Cons.prems(6) False True sc(1) e s1 by (auto simp: due_def)
        then show ?thesis using fire_schedule_fail(1) [OF s1 [unfolded Inl]] by (intro stop) simp
      next
        case (Inr u)
        then have t: "tick_loop D now limit (fired + 1) es s1 = Some (r, s')"
          using Cons.prems(6) False True sc(1) e s1 by (auto simp: due_def)
        note F = fire_schedule_inv [OF Cons.prems(1) decode_schedule_wf [OF sc(1)] s1 [unfolded Inr]]
        obtain x where x: "drawable s = x # drawable s1" "filed_for s1 sc x" "\<forall>i. i \<noteq> x \<longrightarrow> jobs s1 i = jobs s i"
          using fire_schedule_files [OF Cons.prems(1) decode_schedule_wf [OF sc(1)] s1 [unfolded Inr] Cons.prems(5)] by blast
        have es: "\<forall>(k, v) \<in> set es. prefix SCHEDULE_PREFIX k \<and> store_get s1 k = Some v"
          using Cons.prems(3) F(3) k(3) sc(2) by force
        have d1: "distinct (drawable s1)" "\<forall>x \<in> set (drawable s1). length x = 16" using Cons.prems(4,5) x(1) by auto
        from Cons.IH [OF F(1) _ es d1 t] Cons.prems(2) obtain f where I:
          "\<forall>k. prefix SCHEDULE_PREFIX k \<longrightarrow> k \<notin> fst ` set es \<longrightarrow> store_get s' k = store_get s1 k"
          "\<forall>x. x \<notin> set (drawable s1) \<longrightarrow> jobs s' x = jobs s1 x" "files_jobs now es s1 s' f" by auto
        have "x \<notin> set (drawable s1)" using x(1) Cons.prems(4) by auto
        then have "filed_for s' sc x" using I(2) x(2) by simp
        moreover have "store_get s1 k' = Some v' \<and> store_get s k' = Some v'" if "(k', v') \<in> set es" for k' v'
          using that es all by fastforce
        ultimately have "files_jobs now (e # es) s s' (f(k := x))"
          using files_jobs_step [OF I(3) k(3) x(1) Cons.prems(4)] sc(1) True unfolding e by blast
        moreover have "store_get s' k' = store_get s k'" if "prefix SCHEDULE_PREFIX k'" "k' \<notin> fst ` set (e # es)" for k'
          using that I(1) F(3) [OF that(1)] sc(2) e by auto
        moreover have "jobs s' y = jobs s y" if "y \<notin> set (drawable s)" for y using that I(2) x by auto
        ultimately show ?thesis by blast
      qed
    qed
  qed
qed

theorem tick_files_jobs:
  assumes inv: "schedule_inv s" and d: "distinct (drawable s)" and len: "\<forall>x \<in> set (drawable s). length x = 16"
    and t: "tick_schedules D now limit s = Some (r, s')"
  shows "\<exists>f. inj_on f {i. get_schedule s' i \<noteq> get_schedule s i} \<and>
    (\<forall>i sc. get_schedule s i = Inr (Some sc) \<and> get_schedule s' i \<noteq> Inr (Some sc) \<longrightarrow> due now sc \<and> filed_for s' sc (f i))"
    and "x \<notin> set (drawable s) \<Longrightarrow> jobs s' x = jobs s x"
proof -
  let ?es = "scan_prefix s SCHEDULE_PREFIX"
  have wf: "store_wf s" using inv by (simp add: schedule_inv_def)
  have es: "distinct (map fst ?es)" "\<forall>(k, v) \<in> set ?es. prefix SCHEDULE_PREFIX k \<and> store_get s k = Some v"
    using strict_sorted_scan [OF wf, of SCHEDULE_PREFIX] in_scan_prefix_iff [OF wf] by (auto simp: strict_sorted_iff)
  obtain r0 where "tick_loop D now limit 0 ?es s = Some (r0, s')" using t by (auto simp: tick_schedules_def Let_def)
  from tick_loop_files [OF inv es d len this] obtain f where F: "files_jobs now ?es s s' f"
    and out: "\<forall>k. prefix SCHEDULE_PREFIX k \<longrightarrow> k \<notin> fst ` set ?es \<longrightarrow> store_get s' k = store_get s k"
    and j: "\<forall>x. x \<notin> set (drawable s) \<longrightarrow> jobs s' x = jobs s x" by blast
  have same: "get_schedule s' i = get_schedule s i" if "store_get s' (schedule_key i) = store_get s (schedule_key i)" for i
    using that by (simp add: get_schedule_def)
  have moved: "schedule_key i \<in> {k \<in> fst ` set ?es. store_get s' k \<noteq> store_get s k}" if "get_schedule s' i \<noteq> get_schedule s i" for i
    using that same [of i] out [rule_format, OF job_key_simps(6), of i] by blast
  have "inj_on (\<lambda>i. f (schedule_key i)) {i. get_schedule s' i \<noteq> get_schedule s i}"
  proof (rule inj_onI)
    fix a b assume ab: "a \<in> {i. get_schedule s' i \<noteq> get_schedule s i}" "b \<in> {i. get_schedule s' i \<noteq> get_schedule s i}" "f (schedule_key a) = f (schedule_key b)"
    have inj: "inj_on f {k \<in> fst ` set ?es. store_get s' k \<noteq> store_get s k}" using F by (simp add: files_jobs_def)
    show "a = b" using inj_onD [OF inj ab(3) moved moved] ab(1,2) by simp
  qed
  moreover have "due now sc \<and> filed_for s' sc (f (schedule_key i))" if g: "get_schedule s i = Inr (Some sc)" "get_schedule s' i \<noteq> Inr (Some sc)" for i sc
  proof -
    obtain v where v: "store_get s (schedule_key i) = Some v" "decode_schedule v = Inr sc"
      using g(1) by (auto simp: get_schedule_def transpose_map_def res_bind_Inr_iff split: option.splits sum.splits)
    have "(schedule_key i, v) \<in> set ?es" using in_scan_prefix_iff [OF wf] v(1) by simp
    moreover have "store_get s' (schedule_key i) \<noteq> Some v" using same [of i] g v(1) by auto
    ultimately show ?thesis using F v(2) unfolding files_jobs_def by fastforce
  qed
  ultimately show "\<exists>f. inj_on f {i. get_schedule s' i \<noteq> get_schedule s i} \<and>
    (\<forall>i sc. get_schedule s i = Inr (Some sc) \<and> get_schedule s' i \<noteq> Inr (Some sc) \<longrightarrow> due now sc \<and> filed_for s' sc (f i))" by blast
  show "jobs s' x = jobs s x" if "x \<notin> set (drawable s)" using j that by blast
qed

end
