(* ===== verification/Work_Properties.thy ===== *)
theory Work_Properties
  imports Queue_Progress Queue_Leases Job_Progress Entropy
begin

text \<open>
  Properties of the work-distribution layers: queues, durable jobs and schedules.
\<close>

section \<open>A queue with one message\<close>

definition demo_queue :: queue where
  "demo_queue = \<lparr>q_name = [113], q_meta_key = queue_namespace [113] @ ascii '':next'',
     q_message_prefix = queue_namespace [113] @ ascii '':m:''\<rparr>"

lemma demo_queue_new: "queue_new [113] = Inr demo_queue"
  by (simp add: queue_new_def demo_queue_def queue_namespace_def u32_try_from_len_def Let_def)

lemma demo_queue_inv: "queue_inv demo_queue demo_store" "queue_next_id demo_queue demo_store = Inr 1"
  using demo_queue_new by (auto simp: queue_inv_def queue_ok_def queue_next_id_def demo_store_def store_get_def store_wf_def)

lemma demo_push:
  obtains s where "push_with_options demo_deps demo_queue [9] push_options_default demo_store = (Inr 1, s)" and "healthy 400 s"
    and "queue_inv demo_queue s" and "msgs demo_queue s = [1 \<mapsto> pushed_message 1 [9] push_options_default]"
proof -
  obtain s where s: "push_with_options demo_deps demo_queue [9] push_options_default demo_store = (Inr 1, s)" "healthy 400 s"
    using push_ok [OF demo_queue_inv(1) demo_sha_ok _ demo_queue_inv(2), of 400 "[9]" push_options_default] by (auto simp: demo_queue_def)
  have "msgs demo_queue demo_store = Map.empty" by (simp add: fun_eq_iff msgs_def load_message_def demo_store_def store_get_def)
  then show ?thesis using that s push_spec [OF demo_queue_inv(1) s(1)] by simp
qed

lemma demo_claim:
  obtains s s1 where "push_with_options demo_deps demo_queue [9] push_options_default demo_store = (Inr 1, s)"
    and "queue_inv demo_queue s" and "queue_claim demo_deps demo_queue 0 10 s = (Inr (Some (queue_message_of (leased_until 10 (pushed_message 1 [9] push_options_default)))), s1)"
    and "healthy 300 s1" and "queue_inv demo_queue s1" and "msgs demo_queue s1 = [1 \<mapsto> leased_until 10 (pushed_message 1 [9] push_options_default)]"
proof -
  let ?m = "pushed_message 1 [9] push_options_default"
  obtain s where s: "push_with_options demo_deps demo_queue [9] push_options_default demo_store = (Inr 1, s)" "healthy 400 s"
    "queue_inv demo_queue s" "msgs demo_queue s = [1 \<mapsto> ?m]" by (rule demo_push)
  have sm: "small_queue demo_queue s" using s(4) by (auto simp: small_queue_def demo_queue_def pushed_message_def split: if_splits)
  have e: "eligible 0 ?m" by (simp add: eligible_def pushed_message_def push_options_default_def)
  have h: "healthy (300 + 4) s" by (rule healthy_mono [OF s(2)]) simp
  obtain qm s1 where s1: "queue_claim demo_deps demo_queue 0 10 s = (Inr (Some qm), s1)" "healthy 300 s1"
    using claim_ok [OF s(3) demo_sha_ok h sm _ e, of 1 10] s(4) by auto
  from queue_claim_spec [OF s(3) s1(1)] obtain m l where m: "msgs demo_queue s (sm_id m) = Some m" "sint l = 10"
    "qm = queue_message_of (leased_until l m)" "queue_inv demo_queue s1" "msgs demo_queue s1 = (msgs demo_queue s)(sm_id m \<mapsto> leased_until l m)"
    by auto
  have "m = ?m" using m(1) s(4) by (auto split: if_splits)
  moreover have "l = 10" using m(2) by (intro signed_word_eqI) simp
  ultimately show ?thesis using that [OF s(1,3)] s1 m s(4) by (auto simp: pushed_message_def)
qed

text \<open>A second claim after the lease has run out.\<close>

lemma demo_reclaim:
  obtains s s1 s2 m1 m2 where "queue_inv demo_queue s" and "queue_claim demo_deps demo_queue 0 10 s = (Inr (Some m1), s1)"
    and "queue_claim demo_deps demo_queue 20 10 s1 = (Inr (Some m2), s2)" and "qm_id m1 = 1" and "qm_id m2 = 1"
    and "qm_lease_generation m1 = 1"
proof -
  let ?m = "leased_until 10 (pushed_message 1 [9] push_options_default)"
  obtain s s1 where s: "queue_inv demo_queue s" "queue_claim demo_deps demo_queue 0 10 s = (Inr (Some (queue_message_of ?m)), s1)"
    "healthy 300 s1" "queue_inv demo_queue s1" "msgs demo_queue s1 = [1 \<mapsto> ?m]" by (rule demo_claim)
  have sm: "small_queue demo_queue s1" using s(5) by (auto simp: small_queue_def demo_queue_def pushed_message_def split: if_splits)
  have e: "eligible 20 ?m" by (simp add: eligible_def)
  have h: "healthy (0 + 4) s1" by (rule healthy_mono [OF s(3)]) simp
  obtain qm s2 where s2: "queue_claim demo_deps demo_queue 20 10 s1 = (Inr (Some qm), s2)"
    using claim_ok [OF s(4) demo_sha_ok h sm _ e, of 1 10] s(5) by auto
  from queue_claim_spec [OF s(4) s2] obtain m l where m: "msgs demo_queue s1 (sm_id m) = Some m" "qm = queue_message_of (leased_until l m)" by auto
  have "m = ?m" using m(1) s(5) by (auto split: if_splits)
  then have "qm_id qm = 1" using m(2) by (simp add: queue_message_of_def pushed_message_def)
  then show ?thesis using that [OF s(1,2) s2] by (simp add: queue_message_of_def pushed_message_def)
qed

section \<open>Queues\<close>

text \<open>A claim takes the best eligible message (highest priority, then lowest identifier), counts
  the attempt, leases the message until exactly \<open>now\<close> plus the duration and changes no other
  message; it returns nothing only when no message is eligible, and then changes nothing.\<close>

theorem claim_takes_best:
  assumes "queue_inv q s" and "queue_claim D q now d s = (Inr r, s')"
  shows "case r of
      None \<Rightarrow> s' = s \<and> (\<forall>i m. msgs q s i = Some m \<longrightarrow> \<not> eligible now m)
    | Some qm \<Rightarrow> \<exists>m l. msgs q s (sm_id m) = Some m \<and> eligible now m \<and>
        (\<forall>i m'. msgs q s i = Some m' \<longrightarrow> eligible now m' \<longrightarrow> \<not> better m' m) \<and>
        sint l = sint now + int (unat d) \<and> unat (sm_attempts (leased_until l m)) = unat (sm_attempts m) + 1 \<and>
        qm = queue_message_of (leased_until l m) \<and> queue_inv q s' \<and>
        msgs q s' = (msgs q s)(sm_id m \<mapsto> leased_until l m)"
proof -
  have u: "unat (a + 1) = unat a + 1" if "a < a + 1" for a :: u32
  proof -
    have "1 + a \<noteq> 0" using that by (auto simp: add.commute)
    then show ?thesis using unatSuc [of a] by (simp add: add.commute)
  qed
  show ?thesis using queue_claim_spec [OF assms] u by (auto split: option.splits)
qed

theorem claim_takes_best_witness:
  "\<exists>s s1. push_with_options demo_deps demo_queue [9] push_options_default demo_store = (Inr 1, s) \<and>
     queue_claim demo_deps demo_queue 0 10 s = (Inr (Some (queue_message_of (leased_until 10 (pushed_message 1 [9] push_options_default)))), s1) \<and>
     (\<exists>m. msgs demo_queue s (sm_id m) = Some m \<and> eligible 0 m) \<and> queue_inv demo_queue s1"
proof -
  let ?m = "pushed_message 1 [9] push_options_default"
  obtain s s1 where s: "push_with_options demo_deps demo_queue [9] push_options_default demo_store = (Inr 1, s)" "queue_inv demo_queue s"
    "queue_claim demo_deps demo_queue 0 10 s = (Inr (Some (queue_message_of (leased_until 10 ?m))), s1)" by (rule demo_claim)
  from claim_takes_best [OF s(2,3)] show ?thesis using s(1,3) by auto
qed

text \<open>C12: a lease is good for one settlement. Once a message has been claimed again, the earlier
  holder's generation can no longer acknowledge, return or bury it, whatever operations of the
  queue happen before and after the second claim; the attempt is refused and changes nothing.\<close>

theorem stale_lease_cannot_settle:
  assumes "queue_inv q s0" and "queue_claim D q now1 d1 s0 = (Inr (Some m1), s1)" and "(queue_op D q)\<^sup>*\<^sup>* s1 s2"
    and "queue_claim D q now2 d2 s2 = (Inr (Some m2), s3)" and "qm_id m2 = qm_id m1" and "(queue_op D q)\<^sup>*\<^sup>* s3 s4"
  shows "\<exists>e. queue_ack D q (qm_id m1) (qm_lease_generation m1) s4 = (Inl e, s4) \<and>
    queue_nack D q (qm_id m1) (qm_lease_generation m1) available s4 = (Inl e, s4) \<and>
    dead_letter D q (qm_id m1) (qm_lease_generation m1) s4 = (Inl e, s4)"
  using stale_lease_refused [OF assms] .

theorem stale_lease_cannot_settle_witness:
  "\<exists>s s1 s2 m1 m2 e. queue_claim demo_deps demo_queue 0 10 s = (Inr (Some m1), s1) \<and>
     queue_claim demo_deps demo_queue 20 10 s1 = (Inr (Some m2), s2) \<and> queue_ack demo_deps demo_queue 1 1 s2 = (Inl e, s2)"
proof -
  obtain s s1 s2 m1 m2 where c: "queue_inv demo_queue s" "queue_claim demo_deps demo_queue 0 10 s = (Inr (Some m1), s1)"
    "queue_claim demo_deps demo_queue 20 10 s1 = (Inr (Some m2), s2)" "qm_id m1 = 1" "qm_id m2 = 1" "qm_lease_generation m1 = 1"
    by (rule demo_reclaim)
  have "qm_id m2 = qm_id m1" using c by simp
  from stale_lease_cannot_settle [OF c(1,2) rtranclp.rtrancl_refl c(3) this rtranclp.rtrancl_refl, of 0] show ?thesis
    using c(2-6) by (metis (no_types))
qed

text \<open>C13: a lease excludes others and an acknowledgement is final. While a consumer's lease runs,
  whatever others do to the queue, pushing, claiming, purging, settling messages and presenting other
  identifiers or generations, the message stays exactly as it was leased and no claim made before the
  end of the lease hands it out. Whenever any message is acknowledged successfully, it is gone for
  good: no later operation of the queue brings it back.\<close>

theorem lease_excludes_and_ack_is_final:
  assumes "queue_inv q s" and "queue_claim D q now1 d1 s = (Inr (Some m1), s1)" and "(bystander D q m1)\<^sup>*\<^sup>* s1 s2"
  shows "msgs q s1 (qm_id m1) \<noteq> None \<and> msgs q s2 (qm_id m1) = msgs q s1 (qm_id m1) \<and>
    (\<forall>now2 d2 m2 s3. queue_claim D q now2 d2 s2 = (Inr (Some m2), s3) \<longrightarrow> sint now2 < sint (qm_lease_until_ms m1) \<longrightarrow> qm_id m2 \<noteq> qm_id m1) \<and>
    (\<forall>i g t t1 t2. (queue_op D q)\<^sup>*\<^sup>* s t \<longrightarrow> queue_ack D q i g t = (Inr (), t1) \<longrightarrow> (queue_op D q)\<^sup>*\<^sup>* t1 t2 \<longrightarrow> msgs q t2 i = None)"
proof -
  note C = claim_held [OF assms(1,2)]
  then obtain m where m: "held q s1 m1 m" by blast
  note B = bystanders_keep [OF assms(3) C(1) m]
  have "msgs q s1 (qm_id m1) = Some m" "msgs q s2 (qm_id m1) = Some m" using m B by (simp_all add: held_def holds_lease_def)
  moreover have "msgs q t2 i = None" if "(queue_op D q)\<^sup>*\<^sup>* s t" "queue_ack D q i g t = (Inr (), t1)" "(queue_op D q)\<^sup>*\<^sup>* t1 t2" for i g t t1 t2
    using acknowledged_gone [OF _ that(2,3)] queue_ops_evolve [OF that(1) assms(1)] by blast
  ultimately show ?thesis using held_claim_other [OF conjunct1 [OF B] conjunct2 [OF B]] by auto
qed

theorem lease_excludes_and_ack_is_final_witness:
  "\<exists>s s1 s2 m1 e. queue_claim demo_deps demo_queue 0 10 s = (Inr (Some m1), s1) \<and> qm_id m1 = 1 \<and>
     queue_nack demo_deps demo_queue 1 7 0 s1 = (Inl e, s1) \<and> msgs demo_queue s1 1 \<noteq> None \<and>
     queue_ack demo_deps demo_queue 1 1 s1 = (Inr (), s2) \<and> msgs demo_queue s2 1 = None"
proof -
  let ?m = "leased_until 10 (pushed_message 1 [9] push_options_default)"
  obtain s s1 where s: "queue_inv demo_queue s" "queue_claim demo_deps demo_queue 0 10 s = (Inr (Some (queue_message_of ?m)), s1)"
    "healthy 300 s1" "queue_inv demo_queue s1" "msgs demo_queue s1 = [1 \<mapsto> ?m]" by (rule demo_claim)
  have i: "qm_id (queue_message_of ?m) = 1" "qm_lease_generation (queue_message_of ?m) = 1" by (simp_all add: queue_message_of_def pushed_message_def)
  have "holds_lease demo_queue s1 1 1 ?m" using s(5) by (simp add: holds_lease_def pushed_message_def)
  moreover have "healthy (0 + 4) s1" by (rule healthy_mono [OF s(3)]) simp
  ultimately obtain s2 where a: "queue_ack demo_deps demo_queue 1 1 s1 = (Inr (), s2)"
    using ack_ok [OF s(4) demo_sha_ok] by (fastforce simp: demo_queue_def)
  have "\<nexists>m. holds_lease demo_queue s1 1 7 m" using s(5) by (auto simp: holds_lease_def pushed_message_def)
  from settle_refused [OF s(4) this] obtain e where n: "queue_nack demo_deps demo_queue 1 7 0 s1 = (Inl e, s1)" by blast
  have "(bystander demo_deps demo_queue (queue_message_of ?m))\<^sup>*\<^sup>* s1 s1" by (intro r_into_rtranclp by_nack [OF n]) (simp add: i)
  note L = lease_excludes_and_ack_is_final [OF s(1,2) this]
  have "(queue_op demo_deps demo_queue)\<^sup>*\<^sup>* s s1" by (intro r_into_rtranclp queue_op.op_claim [OF s(2)])
  then have "msgs demo_queue s2 1 = None" using L a rtranclp.rtrancl_refl by metis
  then show ?thesis using L s(2) i n a by (intro exI [of _ s] exI [of _ s1] exI [of _ s2] exI [of _ "queue_message_of ?m"] exI [of _ e]) simp
qed

text \<open>C14: a queue with an eligible message always hands one out. With a healthy store, messages of
  ordinary size and a lease end that fits the clock, the claim returns a message and cannot fail.\<close>

theorem claim_makes_progress:
  assumes "queue_inv q s" and "sha_ok D" and "healthy 4 s" and "small_queue q s" and "msgs q s i = Some m" and "eligible now m"
    and "unat d < 2 ^ 63" and "sint now + int (unat d) < 2 ^ 63"
  shows "\<exists>qm s'. queue_claim D q now d s = (Inr (Some qm), s')"
  using claim_ok [of q s D 0 i m now d] assms by auto

theorem claim_makes_progress_witness:
  "\<exists>s qm s'. push_with_options demo_deps demo_queue [9] push_options_default demo_store = (Inr 1, s) \<and>
     queue_claim demo_deps demo_queue 0 10 s = (Inr (Some qm), s')"
proof -
  let ?m = "pushed_message 1 [9] push_options_default"
  obtain s where s: "push_with_options demo_deps demo_queue [9] push_options_default demo_store = (Inr 1, s)" "healthy 400 s"
    "queue_inv demo_queue s" "msgs demo_queue s = [1 \<mapsto> ?m]" by (rule demo_push)
  have "small_queue demo_queue s" using s(4) by (auto simp: small_queue_def demo_queue_def pushed_message_def split: if_splits)
  moreover have "eligible 0 ?m" by (simp add: eligible_def pushed_message_def push_options_default_def)
  moreover have "healthy 4 s" by (rule healthy_mono [OF s(2)]) simp
  moreover have "msgs demo_queue s 1 = Some ?m" using s(4) by simp
  ultimately show ?thesis using claim_makes_progress [OF s(3) demo_sha_ok, of 1 ?m 0 10] s(1) by auto
qed

text \<open>Queues with different names do not interfere: no sequence of operations on one changes the
  messages or the next identifier of the other.\<close>

theorem queues_do_not_interfere:
  assumes "queue_new na = Inr qa" and "queue_new nb = Inr qb" and "na \<noteq> nb" and "queue_inv qa s" and "(queue_op D qa)\<^sup>*\<^sup>* s s'"
  shows "msgs qb s' = msgs qb s \<and> queue_next_id qb s' = queue_next_id qb s"
  using queues_isolated [OF assms] .

theorem queues_do_not_interfere_witness:
  "\<exists>s qb. push_with_options demo_deps demo_queue [9] push_options_default demo_store = (Inr 1, s) \<and> queue_new [113, 58] = Inr qb \<and>
     msgs qb s = msgs qb demo_store"
proof -
  obtain s where s: "push_with_options demo_deps demo_queue [9] push_options_default demo_store = (Inr 1, s)" by (rule demo_push)
  have "\<exists>qb. queue_new [113, 58] = Inr qb" by (simp add: queue_new_def u32_try_from_len_def Let_def)
  then obtain qb where qb: "queue_new [113, 58] = Inr qb" by blast
  have "(queue_op demo_deps demo_queue)\<^sup>*\<^sup>* demo_store s" by (intro r_into_rtranclp op_push [OF s])
  from queues_do_not_interfere [OF demo_queue_new qb _ demo_queue_inv(1) this] show ?thesis using s qb by auto
qed

section \<open>Jobs\<close>

text \<open>C15: a claim takes the most urgent runnable job for the worker (highest priority, then earliest
  availability), within its attempt budget: it kills the jobs past their deadline, leases the
  chosen job until exactly \<open>now\<close> plus the duration with the attempt number as generation, buries
  it instead when the budget is used up, and changes no other job.\<close>

theorem job_claim_takes_first:
  assumes "job_inv s" and "claim_job_for_handlers D now d hs s = (Inr r, s')"
  shows "job_inv s' \<and> (\<exists>c l. first_of {j. jobs s (j_id j) = Some j \<and> runnable now hs j} c \<and> sint l = sint now + int (unat d) \<and>
    (case c of
       None \<Rightarrow> r = None \<and> jobs s' = (\<lambda>i. map_option (culled now hs) (jobs s i))
     | Some j \<Rightarrow>
         if j_attempts j < j_max_attempts j
         then r = Some (claimed l j) \<and> jobs s' = (\<lambda>i. map_option (culled now hs) (jobs s i))(j_id j \<mapsto> claimed l j)
         else r = None \<and> jobs s' = (\<lambda>i. map_option (culled now hs) (jobs s i))(j_id j \<mapsto> exhausted j)))"
  using claim_job_spec [OF assms] .

theorem job_claim_takes_first_witness:
  "\<exists>s s1 c. submit_job demo_deps demo_spec 0 demo_job_store = (Inr demo_id, s) \<and>
     claim_job_for_handlers demo_deps 0 10 [] s = (Inr (Some (claimed 10 demo_job)), s1) \<and>
     first_of {j. jobs s (j_id j) = Some j \<and> runnable 0 [] j} c \<and> job_inv s1"
proof -
  obtain s s1 where s: "submit_job demo_deps demo_spec 0 demo_job_store = (Inr demo_id, s)" "job_inv s"
    "claim_job_for_handlers demo_deps 0 10 [] s = (Inr (Some (claimed 10 demo_job)), s1)" by (rule demo_job_claim)
  from job_claim_takes_first [OF s(2,3)] show ?thesis using s(1,3) by blast
qed

text \<open>Once a job has been claimed again, the earlier worker's lease is void for good: short of a
  manual retry of the dead job, no sequence of operations makes its generation complete, fail,
  release or extend the job again.\<close>

theorem stale_job_lease_void:
  assumes "job_inv s0" and "claim_job_for_handlers D now1 d1 hs1 s0 = (Inr (Some j1), s1)" and "(job_op D)\<^sup>*\<^sup>* s1 s2"
    and "claim_job_for_handlers D now2 d2 hs2 s2 = (Inr (Some j2), s3)" and "j_id j2 = j_id j1" and "(job_op D)\<^sup>*\<^sup>* s3 s4"
  shows "(\<exists>e. complete_job D (j_id j1) (j_lease_generation j1) now s4 = (Inl e, s4) \<and>
      fail_job D (j_id j1) (j_lease_generation j1) now detail s4 = (Inl e, s4)) \<and>
    release_job D (j_id j1) (j_lease_generation j1) now s4 = (Inr False, s4) \<and>
    heartbeat_job D (j_id j1) (j_lease_generation j1) now d s4 = (Inr False, s4)"
proof -
  have "job_inv s1" using claim_job_spec [OF assms(1,2)] by blast
  then have "job_inv s2" using job_ops_steps [OF assms(3)] by (simp add: job_steps_def)
  then have "job_inv s3" using claim_job_spec [OF _ assms(4)] by blast
  then have "job_inv s4" using job_ops_steps [OF assms(6)] by (simp add: job_steps_def)
  from lease_required [OF this stale_job_lease [OF assms]] show ?thesis by blast
qed

lemma demo_job_reclaim:
  obtains s s1 s2 j2 where "job_inv s" and "claim_job_for_handlers demo_deps 0 10 [] s = (Inr (Some (claimed 10 demo_job)), s1)"
    and "claim_job_for_handlers demo_deps 20 10 [] s1 = (Inr (Some j2), s2)" and "j_id j2 = demo_id"
proof -
  let ?j = "claimed 10 demo_job"
  obtain s s1 where s: "job_inv s" "claim_job_for_handlers demo_deps 0 10 [] s = (Inr (Some ?j), s1)" "healthy 300 s1" "job_inv s1"
    "jobs s1 = [demo_id \<mapsto> ?j]" "history_of s1 demo_id [submitted_entry 0 [], \<lparr>h_sequence = 1, h_at_ms = 0, h_kind = HClaimed, h_detail = []\<rparr>]"
    by (rule demo_job_claim)
  have h: "healthy (6 + 0) s1" by (rule healthy_mono [OF s(3)]) simp
  have one: "jobs s1 (j_id j) = Some j \<Longrightarrow> j = ?j" for j using s(5) by (auto split: if_splits)
  have dl: "j_deadline_ms ?j = None" by (simp add: claimed_def)
  have no: "\<forall>j. jobs s1 (j_id j) = Some j \<longrightarrow> \<not> overdue 20 [] j" using one dl by (metis option.simps(4) overdue_def past_deadline_def)
  have r: "runnable 20 [] ?j" using dl by (simp add: runnable_def for_worker_def reclaimable_def past_deadline_def)
  have all: "\<forall>j. jobs s1 (j_id j) = Some j \<and> runnable 20 [] j \<longrightarrow> small_job j \<and> j_attempts j < j_max_attempts j \<and> (\<exists>q. next_history_sequence s1 (j_id j) = Inr q)"
  proof (intro allI impI)
    fix j assume "jobs s1 (j_id j) = Some j \<and> runnable 20 [] j"
    then have "j = ?j" using one by blast
    moreover have "j_max_attempts ?j = 3" by (simp add: claimed_def)
    ultimately show "small_job j \<and> j_attempts j < j_max_attempts j \<and> (\<exists>q. next_history_sequence s1 (j_id j) = Inr q)"
      using history_next [OF s(6)] by simp
  qed
  obtain j2 s2 where c: "claim_job_for_handlers demo_deps 20 10 [] s1 = (Inr (Some j2), s2)"
    using claim_job_ok [OF s(4) demo_sha_ok h _ _ no _ r all, of 10] s(5) by auto
  obtain j l where j: "jobs s1 (j_id j) = Some j" "j2 = claimed l j" using s(4) c by (rule claim_lease) blast
  then have "j_id j2 = demo_id" using one [OF j(1)] by simp
  then show ?thesis using that s(1,2) c by blast
qed

theorem stale_job_lease_void_witness:
  "\<exists>s s1 s2 j2 e. claim_job_for_handlers demo_deps 0 10 [] s = (Inr (Some (claimed 10 demo_job)), s1) \<and>
     claim_job_for_handlers demo_deps 20 10 [] s1 = (Inr (Some j2), s2) \<and> complete_job demo_deps demo_id 1 30 s2 = (Inl e, s2) \<and>
     heartbeat_job demo_deps demo_id 1 30 10 s2 = (Inr False, s2)"
proof -
  obtain s s1 s2 j2 where c: "job_inv s" "claim_job_for_handlers demo_deps 0 10 [] s = (Inr (Some (claimed 10 demo_job)), s1)"
    "claim_job_for_handlers demo_deps 20 10 [] s1 = (Inr (Some j2), s2)" "j_id j2 = demo_id" by (rule demo_job_reclaim)
  have i: "j_id j2 = j_id (claimed 10 demo_job)" using c(4) by simp
  from stale_job_lease_void [OF c(1,2) rtranclp.rtrancl_refl c(3) i rtranclp.rtrancl_refl, of 30 "[]" 10] show ?thesis
    using c(2,3) by auto
qed

text \<open>C17: \<open>retry_job\<close> reopens old leases. A dead job that is retried and claimed again is leased with
  generation one, the generation of its very first lease, so the worker that held that lease
  before the job died holds the current one.\<close>

theorem retry_reissues_first_generation:
  assumes "job_inv s" and "retry_job D i now s = (Inr (Some j0), s1)"
    and "claim_job_for_handlers D now' d hs s1 = (Inr (Some j), s2)" and "j_id j = i"
  shows "holds s2 i 1 j"
  using retry_restarts_generations [OF assms] .

lemma demo_retry:
  obtains s s1 s2 j0 j where "job_inv s" and "retry_job demo_deps demo_id 5 s = (Inr (Some j0), s1)"
    and "claim_job_for_handlers demo_deps 5 10 [] s1 = (Inr (Some j), s2)" and "j_id j = demo_id"
proof -
  let ?j = "killed (claimed 10 demo_job)" and ?r = "retried 5 (killed (claimed 10 demo_job))"
  have "wf_job ?j" "lease_ok ?j" "small_job ?j"
    by (simp_all add: wf_job_def lease_ok_def killed_def claimed_def small_job_def new_job_def demo_spec_def job_spec_new_def)
  then obtain s where s: "job_inv s" "jobs s = [j_id ?j \<mapsto> ?j]" "healthy 500 s" "history_of s (j_id ?j) []" by (rule single_job)
  have id: "j_id ?r = demo_id" "small_job ?r" "j_deadline_ms ?r = None" "j_attempts ?r = 0" "j_max_attempts ?r = 3" "j_state ?r = JReady" "j_available_at_ms ?r = 5"
    by (simp_all add: retried_def killed_def claimed_def small_job_def new_job_def demo_spec_def job_spec_new_def)
  have h: "healthy (6 + 400) s" by (rule healthy_mono [OF s(3)]) simp
  obtain s1 where p: "persist_job_with_history demo_deps ?r 5 HRetryScheduled (ascii ''manual retry'') s = (Inr (), s1)" "healthy 400 s1"
    using persist_history_ok [OF demo_sha_ok h id(2), of "ascii ''manual retry''" 0] history_next [OF s(4)] id(1) by (auto simp: ascii_def)
  have g: "get_job s demo_id = Inr (Some ?j)" using job_inv_get(1) [OF s(1), of demo_id] s(2) by simp
  have r: "retry_job demo_deps demo_id 5 s = (Inr (Some ?r), s1)"
    using g p(1) by (simp add: retry_job_def load_job_def act_bind_def Let_def retried_def)
  have s1: "job_inv s1" "jobs s1 = [demo_id \<mapsto> ?r]" using retry_job_cases [OF s(1) r] s(2) by auto
  have "history_of s1 demo_id ([] @ [\<lparr>h_sequence = of_nat (length []), h_at_ms = 5, h_kind = HRetryScheduled, h_detail = ascii ''manual retry''\<rparr>])"
    using history_appended(1) [OF job_inv_wf [OF s(1)], of ?r "[]", OF _ _ _ p(1)] s(4) id(1) by simp
  note h1 = history_next [OF this]
  have h': "healthy (6 + 0) s1" by (rule healthy_mono [OF p(2)]) simp
  have one: "jobs s1 (j_id j) = Some j \<Longrightarrow> j = ?r" for j using s1(2) by (auto split: if_splits)
  have no: "\<forall>j. jobs s1 (j_id j) = Some j \<longrightarrow> \<not> overdue 5 [] j" using one id(3) by (metis option.simps(4) overdue_def past_deadline_def)
  have run: "runnable 5 [] ?r" using id by (simp add: runnable_def for_worker_def reclaimable_def past_deadline_def)
  have all: "\<forall>j. jobs s1 (j_id j) = Some j \<and> runnable 5 [] j \<longrightarrow> small_job j \<and> j_attempts j < j_max_attempts j \<and> (\<exists>q. next_history_sequence s1 (j_id j) = Inr q)"
  proof (intro allI impI)
    fix j assume "jobs s1 (j_id j) = Some j \<and> runnable 5 [] j"
    then have "j = ?r" using one by blast
    then show "small_job j \<and> j_attempts j < j_max_attempts j \<and> (\<exists>q. next_history_sequence s1 (j_id j) = Inr q)" using id h1 by simp
  qed
  obtain j s2 where c: "claim_job_for_handlers demo_deps 5 10 [] s1 = (Inr (Some j), s2)"
    using claim_job_ok [OF s1(1) demo_sha_ok h' _ _ no _ run all, of 10] s1(2) id(1) by auto
  obtain a l where "jobs s1 (j_id a) = Some a" "j = claimed l a" using s1(1) c by (rule claim_lease) blast
  then have "j_id j = demo_id" using one id(1) by (metis claimed_simps(1))
  then show ?thesis using that s(1) r c by blast
qed

theorem retry_reissues_first_generation_witness:
  "\<exists>s s1 s2 j0 j. retry_job demo_deps demo_id 5 s = (Inr (Some j0), s1) \<and>
     claim_job_for_handlers demo_deps 5 10 [] s1 = (Inr (Some j), s2) \<and> holds s2 demo_id 1 j"
proof -
  obtain s s1 s2 j0 j where c: "job_inv s" "retry_job demo_deps demo_id 5 s = (Inr (Some j0), s1)"
    "claim_job_for_handlers demo_deps 5 10 [] s1 = (Inr (Some j), s2)" "j_id j = demo_id" by (rule demo_retry)
  from retry_reissues_first_generation [OF c] show ?thesis using c(2,3) by blast
qed

text \<open>C18: the history is a faithful log. Every transition that is persisted is the next entry of the
  job's history, with the next number, its time, kind and detail; reading the history returns
  the entries in order, and the histories of the other jobs are untouched.\<close>

theorem history_is_faithful:
  assumes "store_wf s" and "length (j_id j) = 16" and "history_of s (j_id j) es" and "length es + 1 < 2 ^ 64"
    and "persist_job_with_history D j at kind detail s = (Inr u, s')"
  shows "job_history s (j_id j) = Inr es \<and>
    job_history s' (j_id j) = Inr (es @ [\<lparr>h_sequence = of_nat (length es), h_at_ms = at, h_kind = kind, h_detail = detail\<rparr>]) \<and>
    (\<forall>i. length i = 16 \<longrightarrow> i \<noteq> j_id j \<longrightarrow> job_history s' i = job_history s i)"
  using job_history_of [OF assms(3)] job_history_of [OF history_appended(1) [OF assms]] history_appended(2) [OF assms]
  by (simp add: job_history_def)

theorem history_is_faithful_witness:
  "\<exists>s s'. persist_job_with_history demo_deps (completed (claimed 10 demo_job)) 7 HCompleted [] s = (Inr (), s') \<and>
     job_history s demo_id = Inr [] \<and>
     job_history s' demo_id = Inr [\<lparr>h_sequence = 0, h_at_ms = 7, h_kind = HCompleted, h_detail = []\<rparr>]"
proof -
  let ?j = "claimed 10 demo_job" and ?c = "completed (claimed 10 demo_job)"
  have "wf_job ?j" "lease_ok ?j" "small_job ?j"
    by (simp_all add: wf_job_def lease_ok_def claimed_def small_job_def new_job_def demo_spec_def job_spec_new_def)
  then obtain s where s: "job_inv s" "jobs s = [j_id ?j \<mapsto> ?j]" "healthy 500 s" "history_of s (j_id ?j) []" by (rule single_job)
  have c: "small_job ?c" "j_id ?c = demo_id" "length (j_id ?c) = 16"
    by (simp_all add: completed_def claimed_def small_job_def new_job_def demo_spec_def job_spec_new_def)
  have h: "healthy (6 + 0) s" by (rule healthy_mono [OF s(3)]) simp
  have hist: "history_of s (j_id ?c) []" using s(4) c(2) by simp
  obtain s' where p: "persist_job_with_history demo_deps ?c 7 HCompleted [] s = (Inr (), s')"
    using persist_history_ok [OF demo_sha_ok h c(1), of "[]" 0 7 HCompleted] history_next [OF hist] c(2) by auto
  show ?thesis using history_is_faithful [OF job_inv_wf [OF s(1)] c(3) hist _ p] p c(2) by auto
qed

text \<open>The delay before a retry is the backoff times the attempt number, linear in the attempts, scaled
  by a percentage between 91 and 110 that the job's identifier and attempt determine, rounded down
  to whole milliseconds; it is never negative as a signed number.\<close>

theorem retry_delay_bounded:
  assumes "retry_delay_ms j = Inr delay"
  shows "91 * (unat (j_retry_backoff_ms j) * max (unat (j_attempts j)) 1) div 100 \<le> unat delay \<and>
    unat delay \<le> 110 * (unat (j_retry_backoff_ms j) * max (unat (j_attempts j)) 1) div 100 \<and> 0 \<le> sint delay"
  using retry_delay_bounds [OF assms] sint_small [of delay] by simp

theorem retry_delay_bounded_witness:
  "\<exists>delay. retry_delay_ms (claimed 10 demo_job) = Inr delay \<and> 910 \<le> unat delay \<and> unat delay \<le> 1100"
proof -
  have "case retry_delay_ms (claimed 10 demo_job) of Inl _ \<Rightarrow> False | Inr _ \<Rightarrow> True" by code_simp
  then obtain d where d: "retry_delay_ms (claimed 10 demo_job) = Inr d" by (auto split: sum.splits)
  have "j_retry_backoff_ms (claimed 10 demo_job) = 1000" "j_attempts (claimed 10 demo_job) = 1"
    by (simp_all add: claimed_def new_job_def demo_spec_def job_spec_new_def)
  then show ?thesis using retry_delay_bounded [OF d] d by simp
qed

text \<open>Submission is idempotent. While a job with the same idempotency key is ready or leased,
  submitting again changes nothing and returns the identifier of such a job.\<close>

theorem submission_idempotent:
  assumes "job_inv s" and "jobs s i0 = Some j0" and "j_state j0 = JReady \<or> j_state j0 = JLeased"
    and "j_idempotency_key j0 = Some key" and "js_idempotency_key spec = Some key" and "validate_job_spec spec = Inr ()"
  shows "\<exists>i j. submit_job D spec now s = (Inr i, s) \<and> jobs s i = Some j \<and>
    (j_state j = JReady \<or> j_state j = JLeased) \<and> j_idempotency_key j = Some key"
  by (rule submit_job_existing [OF assms])

theorem submission_idempotent_witness:
  "\<exists>s. jobs s demo_id = Some (demo_job\<lparr>j_idempotency_key := Some [8]\<rparr>) \<and>
     submit_job demo_deps (demo_spec\<lparr>js_idempotency_key := Some [8]\<rparr>) 3 s = (Inr demo_id, s)"
proof -
  let ?j = "demo_job\<lparr>j_idempotency_key := Some [8]\<rparr>"
  have "wf_job ?j" "lease_ok ?j" "small_job ?j"
    by (simp_all add: wf_job_def lease_ok_def small_job_def new_job_def demo_spec_def job_spec_new_def)
  then obtain s where s: "job_inv s" "jobs s = [j_id ?j \<mapsto> ?j]" by (rule single_job)
  have j: "jobs s demo_id = Some ?j" using s(2) by simp
  have v: "validate_job_spec (demo_spec\<lparr>js_idempotency_key := Some [8]\<rparr>) = Inr ()" by (simp add: validate_job_spec_def demo_spec_def job_spec_new_def)
  obtain i j where "submit_job demo_deps (demo_spec\<lparr>js_idempotency_key := Some [8]\<rparr>) 3 s = (Inr i, s)" "jobs s i = Some j"
    using submission_idempotent [OF s(1) j _ _ _ v, of "[8]" demo_deps 3] by auto
  then show ?thesis using j s(2) by (intro exI [of _ s]) (auto split: if_splits)
qed

text \<open>The job format. Every encodable job with a 16-byte identifier is read back exactly as it
  was written, except that a deadline of \<open>i64::MIN\<close> comes back as no deadline at all.\<close>

theorem job_roundtrip:
  assumes "length (j_id j) = 16" and "encode_job j = Inr bs"
  shows "decode_job bs = Inr (if j_deadline_ms j = Some I64_MIN then j\<lparr>j_deadline_ms := None\<rparr> else j)"
  using decode_job_stored [OF assms] by (auto simp: stored_job_def)

theorem job_roundtrip_witness:
  "\<exists>bs. encode_job (demo_job\<lparr>j_deadline_ms := Some I64_MIN\<rparr>) = Inr bs \<and> decode_job bs = Inr demo_job"
proof -
  have "small_job (demo_job\<lparr>j_deadline_ms := Some I64_MIN\<rparr>)"
    by (simp add: small_job_def new_job_def demo_spec_def job_spec_new_def)
  then obtain bs where bs: "encode_job (demo_job\<lparr>j_deadline_ms := Some I64_MIN\<rparr>) = Inr bs" using encode_job_ok by blast
  have l: "length (j_id (demo_job\<lparr>j_deadline_ms := Some I64_MIN\<rparr>)) = 16" by simp
  have "demo_job\<lparr>j_deadline_ms := None\<rparr> = demo_job" by (simp add: new_job_def demo_spec_def job_spec_new_def)
  then show ?thesis using job_roundtrip [OF l bs] bs by simp
qed

section \<open>Schedules\<close>

text \<open>The loop that advances an interval schedule ends. With a positive interval it returns, and
  what it returns is the first instant after \<open>now\<close> on the schedule's grid, or the time overflow
  error when that instant does not fit; a stored schedule never has the interval zero that
  would make the loop spin.\<close>

theorem schedule_advance_terminates:
  assumes "decode_schedule bs = Inr sc" and "sch_mode sc = Interval every" and "i64_try_from_u64 every = Some e"
  shows "(\<exists>n. advance_next now e nxt = Some (Inr n) \<and> sint now < sint n \<and>
      (\<exists>k :: nat. sint n = sint nxt + int k * sint e \<and> (k = 0 \<or> sint n - sint e \<le> sint now))) \<or>
    (advance_next now e nxt = Some (Inl JTimeOverflow) \<and> 2 ^ 63 \<le> sint now + sint e)"
proof -
  have "every \<noteq> 0" using decode_schedule_wf [OF assms(1)] assms(2) by (auto simp: wf_schedule_def)
  from advance_next_total [OF interval_positive [OF assms(3) this], of now nxt] show ?thesis by (simp add: next_after_def)
qed

definition demo_schedule :: durable_schedule where
  "demo_schedule = \<lparr>sch_id = demo_id, sch_job = demo_spec, sch_mode = Interval 10, sch_next_run_ms = 5, sch_enabled = True\<rparr>"

lemma demo_schedule_encode:
  "wf_schedule sc \<Longrightarrow> sch_job sc = demo_spec \<Longrightarrow> sch_id sc = demo_id \<Longrightarrow> \<exists>bs. encode_schedule sc = Inr bs \<and> length bs < 2 ^ 30 \<and> decode_schedule bs = Inr sc"
proof -
  assume sc: "wf_schedule sc" "sch_job sc = demo_spec" "sch_id sc = demo_id"
  let ?t = "schedule_template demo_spec"
  have "encode_job ?t = Inr (job_fixed ?t @ to_le (1 :: u32) @ [1] @ to_le (1 :: u32) @ [2] @ [0])"
    by (simp add: encode_job_def append_len_def u32_try_from_len_def schedule_template_def demo_spec_def job_spec_new_def)
  moreover have "length (job_fixed ?t) = 66" by (rule length_job_fixed) (simp add: schedule_template_def)
  ultimately obtain bs where bs: "encode_schedule sc = Inr bs" "length bs < 2 ^ 30"
    using sc(2,3) by (auto simp: encode_schedule_def append_len_def u32_try_from_len_def split: schedule_mode.splits)
  then show ?thesis using decode_schedule_encode [OF sc(1) bs(1)] by blast
qed

lemma demo_schedule_wf: "wf_schedule demo_schedule"
  by (simp add: wf_schedule_def demo_schedule_def demo_spec_def job_spec_new_def)

theorem schedule_advance_terminates_witness:
  "\<exists>bs n. decode_schedule bs = Inr demo_schedule \<and> advance_next 27 10 5 = Some (Inr n) \<and> sint n = 35"
proof -
  obtain bs where bs: "decode_schedule bs = Inr demo_schedule"
    using demo_schedule_encode [OF demo_schedule_wf] by (auto simp: demo_schedule_def)
  have "sch_mode demo_schedule = Interval 10" "i64_try_from_u64 10 = Some 10" by (simp_all add: demo_schedule_def i64_try_from_u64_def)
  from schedule_advance_terminates [OF bs this, of 27 5] obtain n and k :: nat
    where n: "advance_next 27 10 5 = Some (Inr n)" "27 < sint n" "sint n = 5 + int k * 10" "k = 0 \<or> sint n - 10 \<le> 27" by auto
  then have "k = 3" by auto
  then show ?thesis using bs n by auto
qed

text \<open>C19: a tick always returns, and however it ends, cut short by its limit or by an error included,
  every schedule whose record it changed was due and has a job of its own in the store, ready with
  the schedule's specification and due time, distinct schedules having distinct jobs. A tick that
  succeeds fires at most as many schedules as its limit, and when it fired fewer, no enabled schedule
  is due any more, so each one that was due has its job. Identifiers are 16 bytes long and the
  randomness source does not repeat itself during the tick.\<close>

theorem tick_returns_and_completes:
  assumes "schedule_inv s" and "distinct (drawable s)" and "\<forall>x \<in> set (drawable s). length x = 16"
  shows "\<exists>r s' f. tick_schedules D now limit s = Some (r, s') \<and> inj_on f {i. get_schedule s' i \<noteq> get_schedule s i} \<and>
    (\<forall>i sc. get_schedule s i = Inr (Some sc) \<and> get_schedule s' i \<noteq> Inr (Some sc) \<longrightarrow>
      due now sc \<and> jobs s' (f i) = Some (stored_job (new_job (f i) (scheduled_spec sc)))) \<and>
    (\<forall>rep. r = Inr rep \<longrightarrow> schedule_inv s' \<and> tk_fired rep \<le> limit \<and>
      (tk_fired rep < limit \<longrightarrow> (\<forall>i sc. get_schedule s' i = Inr (Some sc) \<longrightarrow> \<not> due now sc) \<and>
        (\<forall>i sc. get_schedule s i = Inr (Some sc) \<and> due now sc \<longrightarrow>
          jobs s' (f i) = Some (stored_job (new_job (f i) (scheduled_spec sc))))))"
proof -
  obtain r s' where t: "tick_loop D now limit 0 (scan_prefix s SCHEDULE_PREFIX) s = Some (r, s')" using tick_loop_total by blast
  then obtain q where q: "tick_schedules D now limit s = Some (q, s')" by (simp add: tick_schedules_def Let_def)
  obtain f where f: "inj_on f {i. get_schedule s' i \<noteq> get_schedule s i}"
    "\<forall>i sc. get_schedule s i = Inr (Some sc) \<and> get_schedule s' i \<noteq> Inr (Some sc) \<longrightarrow> due now sc \<and> filed_for s' sc (f i)"
    using tick_files_jobs(1) [OF assms q] by blast
  have "schedule_inv s' \<and> tk_fired rep \<le> limit \<and> (tk_fired rep < limit \<longrightarrow> (\<forall>i sc. get_schedule s' i = Inr (Some sc) \<longrightarrow> \<not> due now sc) \<and>
        (\<forall>i sc. get_schedule s i = Inr (Some sc) \<and> due now sc \<longrightarrow> filed_for s' sc (f i)))"
    if "q = Inr rep" for rep
    using tick_complete [OF assms(1) q [unfolded that]] f(2) by blast
  then show ?thesis using q f by blast
qed

lemma demo_tick:
  obtains sb s s' where "decode_schedule sb = Inr demo_schedule" and "s = single (schedule_key demo_id) sb" and "schedule_inv s"
    and "tick_schedules demo_deps 27 5 s = Some (Inr \<lparr>tk_scanned = 1, tk_fired = 1\<rparr>, s')"
proof -
  obtain sb where sb: "decode_schedule sb = Inr demo_schedule" using demo_schedule_encode [OF demo_schedule_wf] by (auto simp: demo_schedule_def)
  let ?s = "single (schedule_key demo_id) sb"
  let ?j = "new_job demo_id (scheduled_spec demo_schedule)" let ?sc = "demo_schedule\<lparr>sch_next_run_ms := 35\<rparr>"
  have inv: "schedule_inv ?s" using sb by (simp add: schedule_inv_def demo_schedule_def)
  have "advance_next 27 10 5 = Some (Inr 35)" by (simp add: advance_next.simps checked_add_signed_def)
  then have adv: "advance_schedule 27 demo_schedule = Some (Inr ?sc)"
    by (simp add: advance_schedule_def demo_schedule_def i64_try_from_u64_def)
  have v: "validate_job_spec (scheduled_spec demo_schedule) = Inr ()"
    by (simp add: validate_job_spec_def scheduled_spec_def demo_schedule_def demo_spec_def job_spec_new_def)
  then have b: "build_job (scheduled_spec demo_schedule) ?s = (Inr ?j, drawn ?s)"
    using single_simps(5) [of "schedule_key demo_id" sb]
    by (auto simp: build_job_def random_id_def act_bind_def drawn_def next_id_def split: list.splits option.splits)
  have "wf_schedule ?sc" using demo_schedule_wf by (simp add: wf_schedule_def demo_schedule_def)
  then obtain sb' where sb': "encode_schedule ?sc = Inr sb'" "length sb' < 2 ^ 30"
    using demo_schedule_encode [of ?sc] by (auto simp: demo_schedule_def)
  have j: "small_job ?j" by (simp add: small_job_def new_job_def scheduled_spec_def demo_schedule_def demo_spec_def job_spec_new_def)
  have c: "can (1 + (1 + 1)) (fire_tx demo_deps 27 ?j ?sc) (fresh_tx True (drawn ?s)) ()"
    by (rule can_fire [OF j sb']) (simp add: demo_schedule_def)
  have "healthy 500 (drawn ?s)" using single_simps(2) [of "schedule_key demo_id" sb] by (simp add: healthy_def drawn_def)
  then have "healthy (2 * (1 + (1 + 1)) + 2 + 0) (drawn ?s)" by (rule healthy_mono) simp
  from run_can [OF demo_sha_ok c this, of JStore] obtain s' where
    "run_tx demo_deps True JStore (fire_tx demo_deps 27 ?j ?sc) (drawn ?s) = (Inr (), s')" by auto
  then have f: "fire_schedule demo_deps 27 demo_schedule ?s = Some (Inr (), s')" using b adv by (simp add: fire_schedule_def)
  have "tick_schedules demo_deps 27 5 ?s = Some (Inr \<lparr>tk_scanned = 1, tk_fired = 1\<rparr>, s')"
    using sb f by (simp add: tick_schedules_def demo_schedule_def)
  then show ?thesis using that sb inv by blast
qed

theorem tick_returns_and_completes_witness:
  "\<exists>sb s' x. decode_schedule sb = Inr demo_schedule \<and>
     tick_schedules demo_deps 27 5 (single (schedule_key demo_id) sb) = Some (Inr \<lparr>tk_scanned = 1, tk_fired = 1\<rparr>, s') \<and> schedule_inv s' \<and>
     jobs s' x = Some (stored_job (new_job x (scheduled_spec demo_schedule)))"
proof -
  obtain sb s s' where t: "decode_schedule sb = Inr demo_schedule" "s = single (schedule_key demo_id) sb" "schedule_inv s"
    "tick_schedules demo_deps 27 5 s = Some (Inr \<lparr>tk_scanned = 1, tk_fired = 1\<rparr>, s')" by (rule demo_tick)
  have e: "drawable s = [demo_id]" using t(2) by (simp add: drawable_def map_filter_simps single_def demo_job_store_def)
  have d: "distinct (drawable s)" "\<forall>x \<in> set (drawable s). length x = 16" by (simp_all add: e)
  have "get_schedule s demo_id = Inr (Some demo_schedule)" using t(1,2) by (simp add: get_schedule_def transpose_map_def)
  moreover have "due 27 demo_schedule" by (simp add: due_def demo_schedule_def)
  ultimately obtain x where "schedule_inv s'" "jobs s' x = Some (stored_job (new_job x (scheduled_spec demo_schedule)))"
    using tick_returns_and_completes [OF t(3) d, of demo_deps 27 5] t(4) by fastforce
  then show ?thesis using t by blast
qed

end
