(* ===== verification/Group_Runs.thy ===== *)
theory Group_Runs
  imports Consumer_Group
begin

text \<open>
  Runs of a consumer group with their successful acknowledgements counted. Every other call, a
  refused acknowledgement, a return, a claim after the lease has run out, an append or anything done
  to other groups and streams, leaves the group's cursor where it is.
\<close>

inductive group_idle :: "deps \<Rightarrow> bytes \<Rightarrow> bytes \<Rightarrow> store \<Rightarrow> store \<Rightarrow> bool" for D str grp where
  gi_claim: "consumer_group_claim D st g c now d s = (rc, s') \<Longrightarrow> group_idle D str grp s s'"
| gi_ack: "consumer_group_ack D st g c offset generation s = (ra, s') \<Longrightarrow> (st, g) \<noteq> (str, grp) \<or> ra \<noteq> Inr () \<Longrightarrow> group_idle D str grp s s'"
| gi_nack: "consumer_group_nack D st g c offset generation s = (ra, s') \<Longrightarrow> group_idle D str grp s s'"
| gi_reset: "consumer_group_reset D st g offset s = (ra, s') \<Longrightarrow> (st, g) \<noteq> (str, grp) \<Longrightarrow> group_idle D str grp s s'"
| gi_append: "stream_append D q payload s = (ro, s') \<Longrightarrow> stream_ok q \<Longrightarrow> group_idle D str grp s s'"

inductive group_run :: "deps \<Rightarrow> bytes \<Rightarrow> bytes \<Rightarrow> nat \<Rightarrow> store \<Rightarrow> store \<Rightarrow> bool" for D str grp where
  gr_start: "group_run D str grp 0 s s"
| gr_idle: "group_run D str grp n s s1 \<Longrightarrow> group_idle D str grp s1 s2 \<Longrightarrow> group_run D str grp n s s2"
| gr_ack: "group_run D str grp n s s1 \<Longrightarrow> consumer_group_ack D str grp c offset generation s1 = (Inr (), s2) \<Longrightarrow> group_run D str grp (Suc n) s s2"

lemma idle_op: "group_idle D str grp s s' \<Longrightarrow> group_op D False str grp s s'"
  by (cases rule: group_idle.cases) (auto intro: group_op.intros)

lemma run_ops: "group_run D str grp n s s' \<Longrightarrow> (group_op D False str grp)\<^sup>*\<^sup>* s s'"
  by (induction rule: group_run.induct) (auto intro: rtranclp.rtrancl_into_rtrancl idle_op g_ack)

lemma write_cursor:
  assumes "group_write st g x s s'" and "(st, g) = (str, grp) \<Longrightarrow> cg_next_offset x = cg_next_offset (group_of str grp s)"
  shows "cg_next_offset (group_of str grp s') = cg_next_offset (group_of str grp s)"
  using assms group_write_other(1) [OF assms(1)] by (cases "(st, g) = (str, grp)") (auto simp: group_write_def)

lemma idle_cursor:
  assumes "group_idle D str grp s s'"
  shows "cg_next_offset (group_of str grp s') = cg_next_offset (group_of str grp s)"
  using assms
proof cases
  case (gi_claim st g c now d rc)
  from gi_claim show ?thesis
  proof (cases rule: claim_group_cases)
    case same
    then show ?thesis using unchanged_group(1) by metis
  next
    case cleared
    show ?thesis by (rule write_cursor [OF cleared(2)]) simp
  next
    case (leased entry until)
    show ?thesis by (rule write_cursor [OF leased(6)]) simp
  qed
next
  case (gi_ack st g c offset generation ra)
  from gi_ack(1) [unfolded consumer_group_ack_def] show ?thesis
  proof (cases rule: settle_group_cases)
    case (refused e)
    then show ?thesis using unchanged_group(1) by metis
  next
    case (settled st')
    show ?thesis by (rule write_cursor [OF settled(6)]) (use gi_ack(2) settled(1) in auto)
  qed
next
  case (gi_nack st g c offset generation ra)
  from gi_nack [unfolded consumer_group_nack_def] show ?thesis
  proof (cases rule: settle_group_cases)
    case (refused e)
    then show ?thesis using unchanged_group(1) by metis
  next
    case (settled st')
    show ?thesis by (rule write_cursor [OF settled(6)]) (use settled(5) in auto)
  qed
next
  case (gi_reset st g offset ra)
  have "group_of str grp s' = group_of str grp s"
    using consumer_group_reset_cases [OF gi_reset(1)] unchanged_group(1) group_write_other(1) [OF _ gi_reset(2)] by metis
  then show ?thesis by simp
next
  case (gi_append q payload ro)
  then show ?thesis using append_group(1) by metis
qed

lemma ack_cursor:
  assumes "consumer_group_ack D str grp c offset generation s = (Inr (), s')" and "group_inv str grp s"
  shows "offset = cg_next_offset (group_of str grp s)" and "offset \<noteq> - 1" and "cg_next_offset (group_of str grp s') = offset + 1"
proof -
  have "cg_leased_offset (group_of str grp s) = Some offset \<and> offset \<noteq> - 1 \<and> cg_next_offset (group_of str grp s') = offset + 1"
    using assms(1) [unfolded consumer_group_ack_def]
    by (cases rule: settle_group_cases) (auto simp: group_write_def res_bind_Inr_iff ok_or_Inr_iff checked_add_one_u64 split: if_splits)
  then show "offset = cg_next_offset (group_of str grp s)" "offset \<noteq> - 1" "cg_next_offset (group_of str grp s') = offset + 1"
    using assms(2) by (auto simp: group_inv_def)
qed

theorem run_cursor:
  assumes "group_run D (sn_name q) grp n s s'" and "stream_holds q s xs" and "group_inv (sn_name q) grp s"
  shows "group_inv (sn_name q) grp s' \<and> (\<exists>ys. stream_holds q s' (xs @ ys)) \<and>
    unat (cg_next_offset (group_of (sn_name q) grp s')) = unat (cg_next_offset (group_of (sn_name q) grp s)) + n"
  using assms
proof (induction rule: group_run.induct)
  case (gr_start s)
  then show ?case by (auto intro: exI [of _ "[]"])
next
  case (gr_idle n s s1 s2)
  have "group_run D (sn_name q) grp n s s2" by (rule group_run.gr_idle [OF gr_idle.hyps])
  from group_ops_effect [OF run_ops [OF this] gr_idle.prems(1) refl gr_idle.prems(2)]
  have "group_inv (sn_name q) grp s2 \<and> (\<exists>ys. stream_holds q s2 (xs @ ys))" by blast
  then show ?case using gr_idle.IH [OF gr_idle.prems] idle_cursor [OF gr_idle.hyps(2)] by simp
next
  case (gr_ack n s s1 c offset generation s2)
  have "group_run D (sn_name q) grp (Suc n) s s2" by (rule group_run.gr_ack [OF gr_ack.hyps])
  from group_ops_effect [OF run_ops [OF this] gr_ack.prems(1) refl gr_ack.prems(2)]
  have "group_inv (sn_name q) grp s2 \<and> (\<exists>ys. stream_holds q s2 (xs @ ys))" by blast
  moreover have I: "group_inv (sn_name q) grp s1" "unat (cg_next_offset (group_of (sn_name q) grp s1)) = unat (cg_next_offset (group_of (sn_name q) grp s)) + n"
    using gr_ack.IH [OF gr_ack.prems] by auto
  moreover note A = ack_cursor [OF gr_ack.hyps(2) I(1)]
  moreover have "unat (offset + 1) = unat offset + 1" using A(2) by (metis add.commute add_eq_0_iff unatSuc Suc_eq_plus1)
  ultimately show ?case by simp
qed

lemma claim_at_cursor:
  assumes "stream_holds q s xs" and "consumer_group_claim D (sn_name q) grp c now d s = (Inr (Some x), s')"
  shows "unat (cg_next_offset (group_of (sn_name q) grp s)) < length xs \<and>
    gd_entry x = \<lparr>se_offset = cg_next_offset (group_of (sn_name q) grp s), se_payload = xs ! unat (cg_next_offset (group_of (sn_name q) grp s))\<rparr> \<and>
    sint (gd_lease_until_ms x) = sint now + int (unat d)"
  using assms(2) by (cases rule: claim_group_cases) (auto simp: next_entry_eq [OF assms(1) refl] split: if_splits)

end
