(* ===== verification/Rpc_Answers.thy ===== *)
theory Rpc_Answers
  imports Rpc
begin

text \<open>
  The life of a response: once written it stays through every call except its own acknowledgement.
\<close>

inductive rpc_bystander :: "deps \<Rightarrow> rpc_id \<Rightarrow> store \<Rightarrow> store \<Rightarrow> bool" for D i where
  rb_submit: "submit_rpc_request D meth payload created deadline s = (ri, s') \<Longrightarrow> rpc_bystander D i s s'"
| rb_respond: "respond_rpc D j payload completed is_error s = (ru, s') \<Longrightarrow> rpc_bystander D i s s'"
| rb_ack: "ack_rpc_response D j s = (rb, s') \<Longrightarrow> j \<noteq> i \<Longrightarrow> rpc_bystander D i s s'"
| rb_expire: "expire_rpc_requests D now limit s = (re, s') \<Longrightarrow> rpc_bystander D i s s'"

definition answered :: "rpc_id \<Rightarrow> bytes \<Rightarrow> store \<Rightarrow> bool" where
  "answered i v s \<longleftrightarrow> settled i v s \<and> store_get s (response_key i) = Some v"

lemma bystander_rpc_op: "rpc_bystander D i s s' \<Longrightarrow> rpc_op D s s'"
  by (cases rule: rpc_bystander.cases) (auto intro: rpc_op.intros)

lemma response_key_inj: "response_key i = response_key j \<longleftrightarrow> i = j"
  by (cases i; cases j) (auto simp: response_key_def)

lemma answered_respond:
  assumes "answered i v s" and "respond_rpc D j payload completed is_error s = (r, s')"
  shows "answered i v s'"
proof -
  have "store_get s' (response_key i) = store_get s (response_key i)" using assms(2)
  proof (cases rule: respond_cases)
    case (answered bs)
    then have "request_key j \<noteq> request_key i" using assms(1) by (auto simp: answered_def settled_def)
    then show ?thesis using answered rpc_space by (auto simp: response_key_request)
  qed simp
  then show ?thesis using settled_respond [OF _ assms(2)] assms(1) by (simp add: answered_def)
qed

lemma answered_step:
  assumes "rpc_bystander D i s s'" and "answered i v s"
  shows "answered i v s'"
proof -
  have "store_get s' (response_key i) = Some v"
    using assms(1)
  proof cases
    case (rb_submit meth payload created deadline ri)
    show ?thesis
    proof (cases ri)
      case (Inl e)
      have "run_tx D True RpStore (request_rpc D meth payload created deadline) s = (Inl e, s')"
        using rb_submit Inl by (simp add: submit_rpc_request_def)
      from run_tx_fail_get [OF staging_request this] show ?thesis using assms(2) by (simp add: answered_def)
    next
      case (Inr j)
      obtain bs where "\<forall>k. not_cdc k \<longrightarrow> store_get s' k = (if k = request_key j then Some bs else store_get s k)"
        using rb_submit [unfolded Inr] by (rule request_Inr) blast
      then show ?thesis using assms(2) rpc_space [of "response_key i"] by (auto simp: answered_def)
    qed
  next
    case (rb_respond j payload completed is_error ru)
    then show ?thesis using answered_respond [OF assms(2)] by (simp add: answered_def)
  next
    case (rb_ack j rb)
    have "response_key i \<noteq> response_key j" using rb_ack(2) by (simp add: response_key_inj)
    moreover have "not_cdc (response_key i)" by (rule rpc_space(2) [OF rpc_key_simps(2)])
    ultimately show ?thesis using ack_response_cases(1) [OF rb_ack(1)] assms(2) by (metis answered_def)
  next
    case (rb_expire now limit re)
    have k: "keeps (answered i v) (expire_loop D now limit 0 (scan_prefix s REQUEST_PREFIX))"
      using answered_respond by (intro keeps_expire) (auto simp: keeps_def)
    obtain q where q: "expire_loop D now limit 0 (scan_prefix s REQUEST_PREFIX) s = (q, s')"
      using rb_expire by (rule expire_requests_loop)
    have "answered i v s'" by (rule keepsD [OF k assms(2) q])
    then show ?thesis by (simp add: answered_def)
  qed
  then show ?thesis using settled_step [OF bystander_rpc_op [OF assms(1)]] assms(2) by (simp add: answered_def)
qed

theorem answered_steps: "(rpc_bystander D i)\<^sup>*\<^sup>* s s' \<Longrightarrow> answered i v s \<Longrightarrow> answered i v s'"
  by (induction rule: rtranclp_induct) (auto intro: answered_step)

end
