(* ===== verification/Service_Properties.thy ===== *)
theory Service_Properties
  imports Service_Progress Work_Properties Group_Runs Rpc_Answers
begin

text \<open>
  Properties of the messaging services: streams, consumer groups, requests, and transactions that
  span several domains.
\<close>

section \<open>Streams and consumer groups\<close>

text \<open>C21: a stream is a list. While it holds the payloads \<open>xs\<close>, reading returns exactly the entries
  from the requested offset on, in order and at most as many as asked for; the tail is the last
  index; an append that succeeds returns the length and makes the list one longer, and an append
  that fails leaves it as it was.\<close>

theorem stream_refines_list:
  assumes "stream_holds q s xs" and "stream_append D q payload s = (r, s')"
  shows "read_from q offset limit s = Inr (take limit (entries_from (unat offset) (drop (unat offset) xs))) \<and>
    tail_offset q s = Inr (if xs = [] then None else Some (of_nat (length xs - 1))) \<and>
    (case r of Inr i \<Rightarrow> i = of_nat (length xs) \<and> stream_holds q s' (xs @ [payload]) | Inl e \<Rightarrow> stream_holds q s' xs)"
proof (cases r)
  case (Inl e)
  then have "unchanged s s'" using append_fail assms(2) by (auto simp: unchanged_def)
  then show ?thesis using unchanged_group(3) read_from_eq tail_offset_eq assms(1) Inl by auto
next
  case (Inr i)
  then show ?thesis using append_holds [OF assms(1)] assms read_from_eq tail_offset_eq by auto
qed

theorem stream_refines_list_witness:
  "\<exists>s. stream_append demo_deps demo_stream [7] demo_store = (Inr 0, s) \<and> read_from demo_stream 0 5 demo_store = Inr [] \<and> stream_holds demo_stream s [[7]]"
proof -
  obtain s where s: "stream_append demo_deps demo_stream [7] demo_store = (Inr 0, s)" by (rule demo_append) blast
  from stream_refines_list [OF demo_stream_holds s, of 0 5] show ?thesis using s by (auto simp: entries_from_def)
qed



text \<open>A group's lease excludes others and is good for one settlement. Until its end no other
  claim delivers anything, and once the entry has been claimed again the earlier generation can
  neither acknowledge nor return it, for any consumer name and whatever happens in between, resets
  included; the refused call changes nothing.\<close>

theorem group_lease_exclusive:
  assumes "stream_holds q s xs" and "group_inv (sn_name q) grp s"
    and "consumer_group_claim D (sn_name q) grp c now d s = (Inr (Some x), s1)"
    and "(group_op D True (sn_name q) grp)\<^sup>*\<^sup>* s1 s2"
    and "consumer_group_claim D (sn_name q) grp c2 now2 d2 s2 = (Inr (Some y), s3)"
    and "(group_op D True (sn_name q) grp)\<^sup>*\<^sup>* s3 s4"
    and "consumer_group_ack D (sn_name q) grp c3 offset (gd_lease_generation x) s4 = (r, s5)"
    and "consumer_group_nack D (sn_name q) grp c3 offset (gd_lease_generation x) s4 = (r', s6)"
    and "consumer_group_claim D (sn_name q) grp c4 now4 d4 s1 = (r4, s7)" and "sint now4 < sint (gd_lease_until_ms x)"
  shows "r \<noteq> Inr () \<and> r' \<noteq> Inr () \<and> (\<forall>k. store_get s5 k = store_get s4 k \<and> store_get s6 k = store_get s4 k) \<and> (\<forall>z. r4 \<noteq> Inr (Some z))"
proof -
  let ?str = "sn_name q" and ?G = "group_op D True (sn_name q) grp"
  have C: "gd_lease_generation v = cg_lease_generation (group_of ?str grp a) + 1 \<and> cg_lease_generation (group_of ?str grp a) < cg_lease_generation (group_of ?str grp a) + 1 \<and>
      cg_lease_generation (group_of ?str grp b) = gd_lease_generation v \<and> cg_leased_offset (group_of ?str grp b) \<noteq> None \<and> cg_lease_until_ms (group_of ?str grp b) = gd_lease_until_ms v"
    if "consumer_group_claim D ?str grp k n e a = (Inr (Some v), b)" for k n e a b v
    using that by (cases rule: claim_group_cases) (auto simp: group_write_def leased_group_def)
  note E1 = group_ops_effect [OF r_into_rtranclp [where r = ?G, OF g_claim [OF assms(3)]] assms(1) refl assms(2)]
  then obtain ys where ys: "stream_holds q s1 (xs @ ys)" "group_inv ?str grp s1" by blast
  note E2 = group_ops_effect [OF assms(4) ys(1) refl ys(2)]
  then obtain zs where zs: "stream_holds q s2 ((xs @ ys) @ zs)" "group_inv ?str grp s2" by blast
  note E3 = group_ops_effect [OF r_into_rtranclp [where r = ?G, OF g_claim [OF assms(5)]] zs(1) refl zs(2)]
  then obtain ws where ws: "stream_holds q s3 (((xs @ ys) @ zs) @ ws)" "group_inv ?str grp s3" by blast
  note E4 = group_ops_effect [OF assms(6) ws(1) refl ws(2)]
  have lt: "gd_lease_generation x < cg_lease_generation (group_of ?str grp s4)"
    using C [OF assms(3)] C [OF assms(5)] E2 E4 by auto
  have A: "r \<noteq> Inr () \<and> unchanged s4 s5" using assms(7) [unfolded consumer_group_ack_def]
    by (cases rule: settle_group_cases) (use lt in auto)
  have N: "r' \<noteq> Inr () \<and> unchanged s4 s6" using assms(8) [unfolded consumer_group_nack_def]
    by (cases rule: settle_group_cases) (use lt in auto)
  have "\<forall>z. r4 \<noteq> Inr (Some z)" using assms(9) by (cases rule: claim_group_cases) (use C [OF assms(3)] assms(10) in auto)
  then show ?thesis using A N by (simp add: unchanged_def)
qed

theorem group_lease_exclusive_witness:
  "\<exists>s4. \<forall>offset. fst (consumer_group_ack demo_deps [115] [103] [99] offset 1 s4) \<noteq> Inr ()"
proof -
  obtain s s1 x where s: "stream_holds demo_stream s [[7], [8]]" "group_inv [115] [103] s"
    "consumer_group_claim demo_deps [115] [103] [99] 0 10 s = (Inr (Some x), s1)" "healthy 200 s1"
    "group_inv [115] [103] s1" "stream_holds demo_stream s1 [[7], [8]]" "group_of [115] [103] s1 = leased_group [99] 10 0 group_state_default"
    "gd_lease_generation x = 1" "gd_lease_until_ms x = 10" by (rule demo_group_claim)
  have h: "healthy (100 + 4) s1" by (rule healthy_mono [OF s(4)]) simp
  have t: "checked_add_signed 20 10 = Some (30 :: i64)" by (simp add: checked_add_signed_def)
  obtain y s3 where y: "consumer_group_claim demo_deps [115] [103] [98] 20 10 s1 = (Inr (Some y), s3)"
    using claim_group_ok [OF s(6) _ demo_sha_ok h _ _ _ _ t, of "[103]" "[98]"] s(5,7) by (auto simp: leased_group_def group_state_default_def)
  have "fst (consumer_group_ack demo_deps [115] [103] [99] offset 1 s3) \<noteq> Inr ()" for offset
  proof -
    obtain r s5 where r: "consumer_group_ack demo_deps [115] [103] [99] offset 1 s3 = (r, s5)" by fastforce
    obtain r' s6 where r': "consumer_group_nack demo_deps [115] [103] [99] offset 1 s3 = (r', s6)" by fastforce
    obtain r4 s7 where r4: "consumer_group_claim demo_deps [115] [103] [98] 0 10 s1 = (r4, s7)" by fastforce
    show ?thesis using group_lease_exclusive [OF s(1), of "[103]" demo_deps "[99]" 0 10 x s1 s1 "[98]" 20 10 y s3 s3 "[99]" offset r s5 r' s6 "[98]" 0 10 r4 s7]
        s(2,3,8,9) y r r' r4 by simp
  qed
  then show ?thesis by blast
qed

section \<open>Requests\<close>

text \<open>C23: a request is answered at most once, and its answer stays. Between its submission and its
  answer any requests may come and go; the answer that is accepted removes the request and stores
  the response in one step. Afterwards no sequence of calls makes the request pending again, every
  further answer is refused without any effect, and through every sequence of calls that does not
  acknowledge this response, other acknowledgements and expiry sweeps included, the response is the
  one that was written; after an acknowledgement it is that one or gone.\<close>

theorem rpc_answered_once:
  assumes "submit_rpc_request D meth payload created deadline s0 = (Inr i, s)" and "(rpc_op D)\<^sup>*\<^sup>* s s1"
    and "respond_rpc D i answer at is_error s1 = (Inr (), s2)" and "(rpc_op D)\<^sup>*\<^sup>* s2 s3"
    and "respond_rpc D i answer2 at2 is_error2 s3 = (r, s4)" and "length (ri_nonce i) = 16"
  shows "get_rpc_response s2 i = Inr (Some \<lparr>rs_request_id = i, rs_payload = answer, rs_completed_at_ms = at, rs_is_error = is_error\<rparr>) \<and>
    \<not> contains_key s3 (request_key i) \<and> (get_rpc_response s3 i = get_rpc_response s2 i \<or> get_rpc_response s3 i = Inr None) \<and>
    (\<forall>s5. (rpc_bystander D i)\<^sup>*\<^sup>* s2 s5 \<longrightarrow> get_rpc_response s5 i = get_rpc_response s2 i) \<and>
    r = Inl (if contains_key s3 (response_key i) then RpAlreadyResponded else RpNotFound) \<and> s4 = s3"
proof -
  have n0: "ri_tx_id i < st_next_tx_id s" using assms(1) by (rule request_Inr) simp
  then have n1: "ri_tx_id i < st_next_tx_id s1" using rpc_next_ids [OF assms(2)] by simp
  let ?rs = "\<lparr>rs_request_id = i, rs_payload = answer, rs_completed_at_ms = at, rs_is_error = is_error\<rparr>"
  from assms(3) obtain bs where bs: "encode_response ?rs = Inr bs" and n2: "st_next_tx_id s1 \<le> st_next_tx_id s2"
      and g: "\<forall>k. not_cdc k \<longrightarrow> store_get s2 k = (if k = response_key i then Some bs else if k = request_key i then None else store_get s1 k)"
    by (cases rule: respond_cases) auto
  have rs: "store_get s2 (response_key i) = Some bs" and rq: "store_get s2 (request_key i) = None"
    using g rpc_space [of "response_key i"] rpc_space [of "request_key i"] by auto
  have d: "decode_response bs = Inr ?rs" using decode_response_encode [OF _ bs] assms(6) by simp
  have a2: "answered i bs s2" using rs rq n1 n2 by (simp add: answered_def settled_def contains_key_def)
  then have st: "settled i bs s3" by (intro settled_steps [OF assms(4)]) (simp add: answered_def)
  then have np: "\<not> contains_key s3 (request_key i)" by (simp add: settled_def)
  then have r: "r = Inl (if contains_key s3 (response_key i) then RpAlreadyResponded else RpNotFound)" "s4 = s3"
    using assms(5) by (auto simp: respond_rpc_def)
  have "get_rpc_response s5 i = get_rpc_response s2 i" if "(rpc_bystander D i)\<^sup>*\<^sup>* s2 s5" for s5
    using answered_steps [OF that a2] rs by (simp add: answered_def get_rpc_response_def)
  then show ?thesis using np st rs d r by (auto simp: get_rpc_response_def settled_def)
qed

theorem rpc_answered_once_witness:
  "\<exists>i s3 s5 b. get_rpc_response s3 i = Inr (Some \<lparr>rs_request_id = i, rs_payload = [2], rs_completed_at_ms = 5, rs_is_error = False\<rparr>) \<and>
     respond_rpc demo_deps i [3] 6 False s3 = (Inl RpAlreadyResponded, s3) \<and>
     expire_rpc_requests demo_deps 9 9 s3 = (b, s5) \<and> get_rpc_response s5 i = get_rpc_response s3 i"
proof -
  have e: "os_entropy (st_os demo_job_store) = Some demo_id # []" by (simp add: demo_job_store_def)
  have l16: "length demo_id = 16" by (simp add: demo_id_def)
  have h: "healthy (4 + 400) demo_job_store" by (rule healthy_mono [OF demo_job_store_simps(1)]) simp
  obtain i s where s: "submit_rpc_request demo_deps [1] [1] 0 None demo_job_store = (Inr i, s)" "healthy 400 s" "length (ri_nonce i) = 16"
    using request_ok [OF demo_sha_ok h e l16, of "[1]" "[1]" 0 None] l16 by auto
  from s(1) have "\<exists>bs. store_get s (request_key i) = Some bs" by (rule request_Inr) (use rpc_space(1) rpc_key_simps(1) in metis)
  then have c: "contains_key s (request_key i)" by (auto simp: contains_key_def)
  have h: "healthy (6 + 300) s" by (rule healthy_mono [OF s(2)]) simp
  obtain s2 where s2: "respond_rpc demo_deps i [2] 5 False s = (Inr (), s2)" using respond_ok [OF demo_sha_ok h c s(3), of "[2]" 5 False] by auto
  obtain r s4 where r: "respond_rpc demo_deps i [3] 6 False s2 = (r, s4)" by fastforce
  obtain b s5 where x: "expire_rpc_requests demo_deps 9 9 s2 = (b, s5)" by fastforce
  note A = rpc_answered_once [OF s(1) rtranclp.rtrancl_refl s2 rtranclp.rtrancl_refl r s(3)]
  have "(rpc_bystander demo_deps i)\<^sup>*\<^sup>* s2 s5" by (intro r_into_rtranclp rb_expire [OF x])
  then have "get_rpc_response s5 i = get_rpc_response s2 i" using A by blast
  moreover have "contains_key s2 (response_key i)" using A by (auto simp: get_rpc_response_def contains_key_def transpose_map_Inr_Some)
  ultimately show ?thesis using A r x by (intro exI [of _ i] exI [of _ s2] exI [of _ s5] exI [of _ b]) simp
qed

section \<open>Several domains in one transaction\<close>

text \<open>C24: one commit boundary for all domains. A transaction that mixes application writes, queue
  pushes, stream appends, outbox events, requests, jobs and objects is all or nothing: when it
  returns an error nothing of it is visible, and wherever a crash cuts the file while it runs, opening
  the file shows the store as it was before or as it is after the whole transaction.\<close>

theorem domains_commit_together:
  assumes "recoverable D s" and "domain_tx D steps s = (r, s1)" and "benign os" and "length (st_file s1) < 2 ^ 64"
    and "length (st_file s) \<le> n" and "opt_repair_torn_tail opts"
  shows "(\<exists>s'. open_file D opts now (take n (st_file s1)) os = (Inr s', s') \<and> (st_state s' = st_state s \<or> st_state s' = st_state s1)) \<and>
    (r \<noteq> Inr () \<longrightarrow> st_state s1 = st_state s) \<and> recoverable D s1"
proof -
  have run: "run_tx D True SeStore (act_for (domain_do D) steps) s = (r, s1)" using assms(2) by (simp add: domain_tx_def)
  have lg: "logging D (act_for (domain_do D) steps)" by (intro logging_intros)
  have sg: "staging (act_for (domain_do D) steps)" by (intro staging_intros)
  obtain rs where "durable D s rs" using assms(1) by (auto simp: recoverable_def)
  from crash_in_transaction [OF this lg run assms(3-6)] have c: "\<exists>s'. open_file D opts now (take n (st_file s1)) os = (Inr s', s') \<and> (st_state s' = st_state s \<or> st_state s' = st_state s1)" .
  have "st_state s1 = st_state s" if "r \<noteq> Inr ()" using that run run_tx_Inl [OF sg] by (cases r) auto
  then show ?thesis using c recoverable_run [OF lg assms(1) run] by blast
qed

theorem domains_commit_together_witness:
  "\<exists>s1 s'. domain_tx demo_deps [StepPut [1] [2]] demo_store = (Inr (), s1) \<and>
     open_file demo_deps store_options_default 0 (take 80 (st_file s1)) demo_os = (Inr s', s') \<and>
     (st_state s' = st_state demo_store \<or> st_state s' = st_state s1)"
proof -
  have p: "can 1 (domain_do demo_deps (StepPut [1] [2])) t ()" for t
    using can_map_err [OF can_user(1) [of "[1]" "[2]" demo_deps t], of SeStore] by (simp add: INTERNAL_KEY_PREFIX_def)
  have "can (1 * length [StepPut [1] [2]]) (act_for (domain_do demo_deps) [StepPut [1] [2]]) (fresh_tx True demo_store) ()"
  proof (rule can_for)
    fix x t assume "x \<in> set [StepPut [1] [2]]"
    then have "x = StepPut [1] [2]" by simp
    then show "can 1 (domain_do demo_deps x) t ()" using p by (simp only:)
  qed
  from run_can [OF demo_sha_ok this, of 100 SeStore] obtain s1 where
    s1: "domain_tx demo_deps [StepPut [1] [2]] demo_store = (Inr (), s1)" "healthy 100 s1" by (auto simp: domain_tx_def)
  have rec: "recoverable demo_deps demo_store" unfolding recoverable_def using demo_store_durable by blast
  have "wf_header demo_header" by (simp add: demo_header_def wf_header_def store_header_new_def)
  then have "length (st_file demo_store) \<le> 80" using length_header_encode by (simp add: demo_store_def STORE_HEADER_LEN_def)
  from domains_commit_together [OF rec s1(1) benign_demo_os healthy_file [OF s1(2)] this, of store_options_default 0] s1(1)
  show ?thesis by (auto simp: store_options_default_def)
qed

text \<open>C25: the transactional push and append are the stand-alone ones. In a transaction of its own,
  pushing through the transaction handle succeeds exactly when the queue's push does, with the same
  message identifier and the very same store, file contents included; and so for streams.\<close>

theorem transactional_operations_equivalent:
  assumes "queue_new name = Inr q" and "stream_new sname = Inr p"
  shows "(run_tx D True DtStore (push_queue D name payload opts) s = (Inr i, s') \<longleftrightarrow> push_with_options D q payload opts s = (Inr i, s')) \<and>
    (run_tx D True DtStore (append_stream_tx D sname payload) s = (Inr i, s') \<longleftrightarrow> stream_append D p payload s = (Inr i, s'))"
  using push_queue_equivalent [OF assms(1)] append_stream_equivalent [OF assms(2)] by blast

theorem transactional_operations_equivalent_witness:
  "\<exists>s'. run_tx demo_deps True DtStore (append_stream_tx demo_deps [115] [7]) demo_store = (Inr 0, s')"
proof -
  obtain s where s: "stream_append demo_deps demo_stream [7] demo_store = (Inr 0, s)" by (rule demo_append) blast
  then show ?thesis using transactional_operations_equivalent [OF demo_queue_new demo_stream_new, of demo_deps "[7]" push_options_default demo_store 0 s] by blast
qed

end
