(* ===== verification/Calendar.thy ===== *)
theory Calendar
  imports Prelude
begin

text \<open>
  The calendar arithmetic of the cron module (\<open>civil_from_days\<close> in
  \<open>crates/voodoo-store-core/src/cron.rs\<close>) and the Gregorian calendar it is checked against:
  a date, the length of its month and the day after it. The days a 64-bit millisecond clock can
  reach are far inside 64 bits, so the intermediate values are integers.
\<close>

definition civil_from_days :: "int \<Rightarrow> int \<times> int \<times> int" where
  "civil_from_days days_since_epoch =
     (let z = days_since_epoch + 719468;
          era = (if z \<ge> 0 then z else z - 146096) div 146097;
          doe = z - era * 146097;
          yoe = (doe - doe div 1460 + doe div 36524 - doe div 146096) div 365;
          year = yoe + era * 400;
          doy = doe - (365 * yoe + yoe div 4 - yoe div 100);
          mp = (5 * doy + 2) div 153;
          day = doy - (153 * mp + 2) div 5 + 1;
          month = mp + (if mp < 10 then 3 else - 9)
      in (year + (if month \<le> 2 then 1 else 0), month, day))"

section \<open>The Gregorian calendar\<close>

definition leap_year :: "int \<Rightarrow> bool" where
  "leap_year y \<longleftrightarrow> 4 dvd y \<and> (\<not> 100 dvd y \<or> 400 dvd y)"

definition days_in_month :: "int \<Rightarrow> int \<Rightarrow> int" where
  "days_in_month y m =
     (if m = 2 then if leap_year y then 29 else 28
      else if m \<in> {4, 6, 9, 11} then 30 else 31)"

fun next_day :: "int \<times> int \<times> int \<Rightarrow> int \<times> int \<times> int" where
  "next_day (y, m, d) =
     (if d < days_in_month y m then (y, m, d + 1)
      else if m < 12 then (y, m + 1, 1) else (y + 1, 1, 1))"

section \<open>Years that begin in March\<close>

text \<open>
  The algorithm counts years from the first of March, so that the leap day is the last day of
  its year. \<open>year_start\<close> is the number of days before the March-based year \<open>y\<close>.
\<close>

definition year_start :: "int \<Rightarrow> int" where
  "year_start y = 365 * y + y div 4 - y div 100 + y div 400"

definition year_len :: "int \<Rightarrow> int" where
  "year_len y = (if leap_year (y + 1) then 366 else 365)"

definition month_part :: "int \<Rightarrow> int" where
  "month_part doy = (5 * doy + 2) div 153"

definition civil_in_year :: "int \<Rightarrow> int \<Rightarrow> int \<times> int \<times> int" where
  "civil_in_year y doy =
     (let mp = month_part doy
      in (y + (if mp < 10 then 0 else 1), mp + (if mp < 10 then 3 else - 9), doy - (153 * mp + 2) div 5 + 1))"

lemma int_div_eqI: "(b :: int) * q \<le> a \<Longrightarrow> a < b * q + b \<Longrightarrow> 0 < b \<Longrightarrow> a div b = q"
  by (rule int_div_pos_eq [of a b q "a - b * q"]) simp_all

lemma year_parts:
  fixes y :: int
  obtains e c q k where "y = 400 * e + 100 * c + 4 * q + k" and "0 \<le> c" "c < 4" "0 \<le> q" "q < 25" "0 \<le> k" "k < 4"
proof -
  define m where "m = y mod 400"
  define l where "l = m mod 100"
  have "y = 400 * (y div 400) + m" "m = 100 * (m div 100) + l" "l = 4 * (l div 4) + l mod 4"
    unfolding m_def l_def by (simp_all only: mult_div_mod_eq)
  moreover have "0 \<le> m" "m < 400" "0 \<le> l" "l < 100" "0 \<le> l mod 4" "l mod 4 < 4" unfolding m_def l_def by simp_all
  moreover from this have "0 \<le> m div 100" "m div 100 < 4" "0 \<le> l div 4" "l div 4 < 25" by simp_all
  ultimately show ?thesis by (intro that [of "y div 400" "m div 100" "l div 4" "l mod 4"]) linarith+
qed

lemma leap_parts:
  fixes e c q k :: int
  assumes b: "0 \<le> c" "c < 4" "0 \<le> q" "q < 25" "0 \<le> k" "k < 4"
  shows "leap_year (400 * e + 100 * c + 4 * q + k + 1) \<longleftrightarrow> k = 3 \<and> (q < 24 \<or> c = 3)"
proof -
  let ?y = "400 * e + 100 * c + 4 * q + k + 1"
  have 4: "4 dvd ?y \<longleftrightarrow> k = 3"
  proof -
    have "4 dvd ?y \<longleftrightarrow> 4 dvd (4 * (100 * e + 25 * c + q) + (k + 1))" by (simp add: algebra_simps)
    also have "\<dots> \<longleftrightarrow> 4 dvd k + 1" by (subst dvd_add_right_iff) simp_all
    also have "\<dots> \<longleftrightarrow> k = 3" using b(5,6) by presburger
    finally show ?thesis .
  qed
  have 100: "100 dvd ?y \<longleftrightarrow> q = 24" if "k = 3"
  proof -
    have "100 dvd ?y \<longleftrightarrow> 100 dvd (100 * (4 * e + c) + 4 * (q + 1))" using that by (simp add: algebra_simps)
    also have "\<dots> \<longleftrightarrow> 100 dvd 4 * (q + 1)" by (subst dvd_add_right_iff) simp_all
    also have "\<dots> \<longleftrightarrow> q = 24" using b(3,4) zdvd_not_zless [of "4 * (q + 1)" 100] by (cases "q = 24") auto
    finally show ?thesis .
  qed
  have 400: "400 dvd ?y \<longleftrightarrow> c = 3" if "k = 3" "q = 24"
  proof -
    have "400 dvd ?y \<longleftrightarrow> 400 dvd (400 * e + 100 * (c + 1))" using that by (simp add: algebra_simps)
    also have "\<dots> \<longleftrightarrow> 400 dvd 100 * (c + 1)" by (subst dvd_add_right_iff) simp_all
    also have "\<dots> \<longleftrightarrow> c = 3" using b(1,2) zdvd_not_zless [of "100 * (c + 1)" 400] by (cases "c = 3") auto
    finally show ?thesis .
  qed
  show ?thesis using 4 100 400 b(4) unfolding leap_year_def by (cases "q = 24") auto
qed

lemma year_start_parts:
  assumes "0 \<le> c" "c < 4" "0 \<le> q" "q < 25" "0 \<le> k" "k < 4"
  shows "year_start (400 * e + 100 * c + 4 * q + k) = 146097 * e + 36524 * c + 1461 * q + 365 * k"
    and "year_len (400 * e + 100 * c + 4 * q + k) = (if k = 3 \<and> (q < 24 \<or> c = 3) then 366 else 365)"
proof -
  let ?y = "400 * e + 100 * c + 4 * q + k"
  have "?y div 4 = 100 * e + 25 * c + q" "?y div 100 = 4 * e + c" "?y div 400 = e"
    using assms by (auto intro!: int_div_eqI)
  then show "year_start ?y = 146097 * e + 36524 * c + 1461 * q + 365 * k" by (simp add: year_start_def)
  show "year_len ?y = (if k = 3 \<and> (q < 24 \<or> c = 3) then 366 else 365)"
    by (simp only: year_len_def leap_parts [OF assms])
qed

text \<open>The year of the era and the day of the year, as the algorithm computes them.\<close>

lemma year_of_era:
  fixes c q k r :: int
  assumes b: "0 \<le> c" "c < 4" "0 \<le> q" "q < 25" "0 \<le> k" "k < 4" "0 \<le> r"
    and r: "r < (if k = 3 \<and> (q < 24 \<or> c = 3) then 366 else 365)"
    and doe: "doe = 36524 * c + 1461 * q + 365 * k + r"
  shows "(doe - doe div 1460 + doe div 36524 - doe div 146096) div 365 = 100 * c + 4 * q + k"
    and "0 \<le> doe" and "doe < 146097"
proof -
  show lo: "0 \<le> doe" using b doe by simp
  show hi: "doe < 146097" using b r doe by (auto split: if_splits)
  define e where "e = (if 24 * c + q + 365 * k + r < 1460 then 0 else 1 :: int)"
  define f where "f = (if doe = 146096 then 1 else 0 :: int)"
  have 1: "doe div 1460 = 25 * c + q + e" using b r unfolding doe e_def by (intro int_div_eqI) (auto split: if_splits)
  have 2: "doe div 146096 = f" using lo hi unfolding f_def by (intro int_div_eqI) auto
  have 3: "doe div 36524 = c + f"
  proof (cases "doe = 146096")
    case True
    then have "c = 3" using b r doe by (auto split: if_splits)
    then show ?thesis using True by (simp add: f_def)
  next
    case False
    then show ?thesis using b r doe hi unfolding f_def by (intro int_div_eqI) (auto split: if_splits)
  qed
  have "0 \<le> r - e" "r - e < 365" using b r unfolding e_def by (auto split: if_splits)
  then show "(doe - doe div 1460 + doe div 36524 - doe div 146096) div 365 = 100 * c + 4 * q + k"
    unfolding 1 2 3 by (intro int_div_eqI) (auto simp: doe)
qed

lemma year_len_bounds: "365 \<le> year_len y" "year_len y \<le> 366"
  by (auto simp: year_len_def)

lemma month_part_eq:
  assumes "0 \<le> r" and "r < 366"
  shows "month_part r = (if r < 31 then 0 else if r < 61 then 1 else if r < 92 then 2 else if r < 122 then 3
    else if r < 153 then 4 else if r < 184 then 5 else if r < 214 then 6 else if r < 245 then 7
    else if r < 275 then 8 else if r < 306 then 9 else if r < 337 then 10 else 11)"
  unfolding month_part_def using assms by (intro int_div_eqI) (auto split: if_split)

lemma civil_in_year_eq:
  assumes "0 \<le> r" and "r < 366"
  shows "civil_in_year y r =
    (if r < 31 then (y, 3, r + 1) else if r < 61 then (y, 4, r - 30) else if r < 92 then (y, 5, r - 60) else 
     if r < 122 then (y, 6, r - 91) else if r < 153 then (y, 7, r - 121) else if r < 184 then (y, 8, r - 152) else 
     if r < 214 then (y, 9, r - 183) else if r < 245 then (y, 10, r - 213) else if r < 275 then (y, 11, r - 244) else 
     if r < 306 then (y, 12, r - 274) else if r < 337 then (y + 1, 1, r - 305) else (y + 1, 2, r - 336))"
  unfolding civil_in_year_def month_part_eq [OF assms] by simp

lemma civil_at:
  assumes "0 \<le> y" and "0 \<le> r" and "r < year_len y"
  shows "civil_from_days (year_start y + r - 719468) = civil_in_year y r"
proof -
  obtain e c q k where y: "y = 400 * e + 100 * c + 4 * q + k" and b: "0 \<le> c" "c < 4" "0 \<le> q" "q < 25" "0 \<le> k" "k < 4"
    by (rule year_parts)
  define doe where "doe = 36524 * c + 1461 * q + 365 * k + r"
  note P = year_start_parts [OF b, of e, folded y]
  note Y = year_of_era [OF b assms(2) assms(3) [unfolded P(2)] doe_def]
  have z: "year_start y + r = e * 146097 + doe" by (simp add: P(1) doe_def)
  have e: "0 \<le> e" using assms(1) b y by linarith
  then have era: "(e * 146097 + doe) div 146097 = e" using Y(2,3) by (intro int_div_eqI) auto
  have pos: "0 \<le> e * 146097 + doe" using e Y(2) by simp
  have yoe: "(100 * c + 4 * q + k) div 4 = 25 * c + q" "(100 * c + 4 * q + k) div 100 = c"
    using b by (auto intro!: int_div_eqI)
  have doy: "doe - (365 * (100 * c + 4 * q + k) + (25 * c + q) - c) = r" by (simp add: doe_def)
  have n: "year_start y + r - 719468 + 719468 = e * 146097 + doe" by (simp add: z)
  have "r < 366" using assms(3) year_len_bounds(2) [of y] by linarith
  then have "0 \<le> month_part r" "month_part r < 12" using month_part_eq [OF assms(2)] by simp_all
  then show ?thesis
    unfolding civil_from_days_def Let_def n if_P [OF pos] era add_diff_cancel_left' Y(1) yoe doy
      month_part_def [symmetric] civil_in_year_def
    by (simp add: y)
qed

lemma year_start_Suc: "year_start (y + 1) = year_start y + year_len y"
proof -
  obtain e c q k where y: "y = 400 * e + 100 * c + 4 * q + k" and b: "0 \<le> c" "c < 4" "0 \<le> q" "q < 25" "0 \<le> k" "k < 4"
    by (rule year_parts)
  note P = year_start_parts [OF b, of e, folded y]
  consider "k < 3" | "k = 3" "q < 24" | "k = 3" "q = 24" "c < 3" | "k = 3" "q = 24" "c = 3" using b by linarith
  then show ?thesis
  proof cases
    case 1
    then show ?thesis using year_start_parts(1) [of c q "k + 1" e] b P by (simp add: y algebra_simps)
  next
    case 2
    then show ?thesis using year_start_parts(1) [of c "q + 1" 0 e] b P by (simp add: y algebra_simps)
  next
    case 3
    then show ?thesis using year_start_parts(1) [of "c + 1" 0 0 e] b P by (simp add: y algebra_simps)
  next
    case 4
    then show ?thesis using year_start_parts(1) [of 0 0 0 "e + 1"] b P by (simp add: y algebra_simps)
  qed
qed

lemma year_start_mono: "y \<le> y' \<Longrightarrow> year_start y \<le> year_start y'"
proof (induction y' rule: int_ge_induct)
  case (step i)
  then show ?case using year_len_bounds(1) [of i] by (simp add: year_start_Suc)
qed simp

lemma day_in_year:
  assumes "0 \<le> (z :: int)"
  obtains y r where "0 \<le> y" and "0 \<le> r" and "r < year_len y" and "z = year_start y + r"
proof -
  have "\<exists>y r. 0 \<le> y \<and> 0 \<le> r \<and> r < year_len y \<and> int n = year_start y + r" for n
  proof (induction n)
    case 0
    show ?case by (rule exI [of _ 0], rule exI [of _ 0]) (simp add: year_start_def year_len_def)
  next
    case (Suc n)
    then obtain y r where I: "0 \<le> y" "0 \<le> r" "r < year_len y" "int n = year_start y + r" by blast
    show ?case
    proof (cases "r + 1 < year_len y")
      case True
      with I show ?thesis by (intro exI [of _ y] exI [of _ "r + 1"]) auto
    next
      case False
      with I show ?thesis using year_len_bounds [of "y + 1"] by (intro exI [of _ "y + 1"] exI [of _ 0]) (auto simp: year_start_Suc)
    qed
  qed
  from this [of "nat z"] show ?thesis using that assms by auto
qed

lemma civil_in_year_next:
  assumes "0 \<le> r" and "r < year_len y"
  shows "next_day (civil_in_year y r) =
    (if r + 1 < year_len y then civil_in_year y (r + 1) else civil_in_year (y + 1) 0)"
proof -
  have r: "r < 366" using assms(2) year_len_bounds(2) [of y] by linarith
  consider "r \<le> 91" | "91 < r" "r \<le> 183" | "183 < r" "r \<le> 274" | "274 < r" "r \<le> 365" using r by linarith
  then consider "r < 30" | "r = 30" | "30 < r" "r < 60" | "r = 60" | "60 < r" "r < 91" | "r = 91"
    | "91 < r" "r < 121" | "r = 121" | "121 < r" "r < 152" | "r = 152" | "152 < r" "r < 183" | "r = 183"
    | "183 < r" "r < 213" | "r = 213" | "213 < r" "r < 244" | "r = 244" | "244 < r" "r < 274" | "r = 274"
    | "274 < r" "r < 305" | "r = 305" | "305 < r" "r < 336" | "r = 336" | "336 < r" "r < 365" | "r = 365"
    by cases (metis less_linear order_less_le)+
  then show ?thesis
    by cases (use assms in \<open>simp_all add: civil_in_year_eq days_in_month_def year_len_def split: if_splits\<close>)
qed

lemma civil_next_day:
  assumes "- 719468 \<le> n"
  shows "civil_from_days (n + 1) = next_day (civil_from_days n)"
proof -
  obtain y r where y: "0 \<le> y" "0 \<le> r" "r < year_len y" and n: "n + 719468 = year_start y + r"
    using day_in_year [of "n + 719468"] assms by auto
  have N: "n = year_start y + r - 719468" using n by simp
  show ?thesis
  proof (cases "r + 1 < year_len y")
    case True
    have "n + 1 = year_start y + (r + 1) - 719468" by (simp add: N)
    then show ?thesis using civil_at [OF y] civil_at [of y "r + 1"] y True civil_in_year_next [OF y(2,3)] N by simp
  next
    case False
    have "n + 1 = year_start (y + 1) + 0 - 719468" using False y(3) by (simp add: N year_start_Suc)
    moreover have "0 < year_len (y + 1)" using year_len_bounds(1) [of "y + 1"] by linarith
    ultimately have "civil_from_days (n + 1) = civil_in_year (y + 1) 0"
      using civil_at [of "y + 1" 0] y(1) by (simp only: add_nonneg_nonneg zero_le_one order_refl)
    then show ?thesis using civil_at [OF y] False civil_in_year_next [OF y(2,3)] N by simp
  qed
qed

theorem civil_from_days_gregorian: "civil_from_days (int n) = (next_day ^^ n) (1970, 1, 1)"
proof (induction n)
  case 0
  have "civil_from_days (year_start 1969 + 306 - 719468) = civil_in_year 1969 306"
    by (rule civil_at) (simp_all add: year_len_def)
  then show ?case by (simp add: year_start_def civil_in_year_eq)
next
  case (Suc n)
  then show ?case using civil_next_day [of "int n"] by (simp add: add.commute)
qed

text \<open>Before the first of March of the year 0 the algorithm is off: the quotient is rounded down
  twice, and two consecutive days get the same date.\<close>

lemma civil_from_days_repeats: "civil_from_days (- 719470) = civil_from_days (- 719469)"
  by code_simp

section \<open>How soon a date comes round again\<close>

lemma next_leap_day_year:
  obtains y' where "y < y'" and "year_len y' = 366"
    and "year_start y' \<le> year_start y + (if year_len y = 366 then 2921 else 2555)"
proof -
  obtain e c q k where y: "y = 400 * e + 100 * c + 4 * q + k" and b: "0 \<le> c" "c < 4" "0 \<le> q" "q < 25" "0 \<le> k" "k < 4"
    by (rule year_parts)
  note P = year_start_parts [OF b, of e, folded y]
  note N = year_start_parts [where k = 3]
  have "k < 3 \<or> k = 3" "q < 23 \<or> q = 23 \<or> q = 24" "c < 3 \<or> c = 3" using b by auto
  then consider "k < 3" "q < 24 \<or> c = 3" | "k < 3" "q = 24" "c < 3" | "k = 3" "q < 23 \<or> q = 23 \<and> c = 3" | "k = 3" "q = 23" "c < 3"
    | "k = 3" "q = 24" "c < 3" | "k = 3" "q = 24" "c = 3" by fastforce
  then show ?thesis
  proof cases
    case 1
    with N [of c q e] b P show ?thesis by (intro that [of "400 * e + 100 * c + 4 * q + 3"]) (auto simp: y)
  next
    case 2
    with N [of "c + 1" 0 e] b P show ?thesis by (intro that [of "400 * e + 100 * (c + 1) + 4 * 0 + 3"]) (auto simp: y)
  next
    case 3
    with N [of c "q + 1" e] b P show ?thesis by (intro that [of "400 * e + 100 * c + 4 * (q + 1) + 3"]) (auto simp: y)
  next
    case 4
    with N [of "c + 1" 0 e] b P show ?thesis by (intro that [of "400 * e + 100 * (c + 1) + 4 * 0 + 3"]) (auto simp: y)
  next
    case 5
    with N [of "c + 1" 0 e] b P show ?thesis by (intro that [of "400 * e + 100 * (c + 1) + 4 * 0 + 3"]) (auto simp: y)
  next
    case 6
    with N [of 0 0 "e + 1"] b P show ?thesis by (intro that [of "400 * (e + 1) + 100 * 0 + 4 * 0 + 3"]) (auto simp: y)
  qed
qed

lemma civil_in_year_month_day: "snd (civil_in_year y r) = snd (civil_in_year y' r)"
  by (simp add: civil_in_year_def Let_def)

text \<open>A day and month that occur at all occur again within eight years of any day, whatever the
  century: the 29th of February of 2096 is followed by that of 2104, 2921 days later.\<close>

lemma date_recurs:
  assumes n: "- 719468 \<le> n" and n0: "- 719468 \<le> n0"
  obtains d where "n < d" and "d \<le> n + 2921" and "snd (civil_from_days d) = snd (civil_from_days n0)"
proof -
  obtain y r where y: "0 \<le> y" "0 \<le> r" "r < year_len y" and N: "n + 719468 = year_start y + r"
    using day_in_year [of "n + 719468"] n by auto
  obtain y0 r0 where y0: "0 \<le> y0" "0 \<le> r0" "r0 < year_len y0" and N0: "n0 + 719468 = year_start y0 + r0"
    using day_in_year [of "n0 + 719468"] n0 by auto
  have at: "snd (civil_from_days (year_start y' + r0 - 719468)) = snd (civil_from_days n0)" if "0 \<le> y'" "r0 < year_len y'" for y'
  proof -
    have "n0 = year_start y0 + r0 - 719468" using N0 by simp
    then show ?thesis
      using civil_at [OF that(1) y0(2) that(2)] civil_at [OF y0] civil_in_year_month_day [of y' r0 y0] by simp
  qed
  have B: "365 \<le> year_len y'" "year_len y' \<le> 366" for y' by (rule year_len_bounds)+
  show ?thesis
  proof (cases "r0 < 365")
    case True
    with B(1) [of "y + 1"] have "r0 < year_len (y + 1)" by linarith
    from at [OF _ this] show ?thesis
      using y N True B(2) [of y] y0(2) by (intro that [of "year_start (y + 1) + r0 - 719468"]) (auto simp: year_start_Suc)
  next
    case False
    then have r0: "r0 = 365" "year_len y0 = 366" using y0(3) B(2) [of y0] by linarith+
    show ?thesis
    proof (cases "year_len y = 366 \<and> r < 365")
      case True
      with at [of y] y N r0 show ?thesis by (intro that [of "year_start y + r0 - 719468"]) auto
    next
      case False
      obtain y' where y': "y < y'" "year_len y' = 366" "year_start y' \<le> year_start y + (if year_len y = 366 then 2921 else 2555)"
        by (rule next_leap_day_year)
      have "year_start (y + 1) \<le> year_start y'" using y'(1) by (intro year_start_mono) simp
      moreover have "r = 365 \<or> year_len y = 365" using False y(3) B [of y] by linarith
      ultimately show ?thesis
        using at [of y'] y y' N r0 by (intro that [of "year_start y' + r0 - 719468"]) (auto simp: year_start_Suc split: if_splits)
    qed
  qed
qed

text \<open>Every weekday falls on one of the first seven days of the month.\<close>

lemma month_first_days:
  assumes "0 \<le> r0" and "r0 < 366"
  obtains s where "0 \<le> s" and "s \<le> 337"
    and "\<And>j y. 0 \<le> j \<Longrightarrow> j < 7 \<Longrightarrow> fst (snd (civil_in_year y (s + j))) = fst (snd (civil_in_year y0 r0))"
proof -
  have "\<exists>s. 0 \<le> s \<and> s \<le> 337 \<and> month_part r0 = month_part s \<and> (\<forall>j. 0 \<le> j \<longrightarrow> j < 7 \<longrightarrow> month_part (s + j) = month_part s)"
  proof -
    let ?P = "\<lambda>s. 0 \<le> s \<and> s \<le> 337 \<and> month_part r0 = month_part s \<and> (\<forall>j. 0 \<le> j \<longrightarrow> j < 7 \<longrightarrow> month_part (s + j) = month_part s)"
    have "?P (if r0 < 31 then 0 else if r0 < 61 then 31 else if r0 < 92 then 61 else if r0 < 122 then 92
      else if r0 < 153 then 122 else if r0 < 184 then 153 else if r0 < 214 then 184 else if r0 < 245 then 214
      else if r0 < 275 then 245 else if r0 < 306 then 275 else if r0 < 337 then 306 else 337)"
      using assms by (simp add: month_part_eq)
    then show ?thesis by blast
  qed
  then obtain s where s: "0 \<le> s" "s \<le> 337" "month_part r0 = month_part s"
    "\<forall>j. 0 \<le> j \<longrightarrow> j < 7 \<longrightarrow> month_part (s + j) = month_part s" by blast
  show ?thesis by (rule that [OF s(1,2)]) (use s in \<open>simp add: civil_in_year_def Let_def\<close>)
qed

lemma weekday_recurs:
  assumes n: "- 719468 \<le> n" and n0: "- 719468 \<le> n0" and w: "0 \<le> w" "w < 7"
  obtains d where "n < d" and "d \<le> n + 2921" and "fst (snd (civil_from_days d)) = fst (snd (civil_from_days n0))"
    and "(d + 4) mod 7 = w"
proof -
  obtain y r where y: "0 \<le> y" "0 \<le> r" "r < year_len y" and N: "n + 719468 = year_start y + r"
    using day_in_year [of "n + 719468"] n by auto
  obtain y0 r0 where y0: "0 \<le> y0" "0 \<le> r0" "r0 < year_len y0" and N0: "n0 + 719468 = year_start y0 + r0"
    using day_in_year [of "n0 + 719468"] n0 by auto
  have r0: "r0 < 366" using y0(3) year_len_bounds(2) [of y0] by linarith
  obtain s where s: "0 \<le> s" "s \<le> 337"
    "\<And>j y. 0 \<le> j \<Longrightarrow> j < 7 \<Longrightarrow> fst (snd (civil_in_year y (s + j))) = fst (snd (civil_in_year y0 r0))"
    using month_first_days [OF y0(2) r0] by blast
  define f where "f = year_start (y + 1) + s - 719468"
  define j where "j = (w - 4 - f) mod 7"
  have j: "0 \<le> j" "j < 7" by (simp_all add: j_def)
  have "s + j < year_len (y + 1)" using s(2) j year_len_bounds(1) [of "y + 1"] by linarith
  then have "civil_from_days (year_start (y + 1) + (s + j) - 719468) = civil_in_year (y + 1) (s + j)"
    by (intro civil_at) (use y s(1) j in auto)
  then have "civil_from_days (f + j) = civil_in_year (y + 1) (s + j)" by (simp add: f_def algebra_simps)
  moreover have "civil_from_days n0 = civil_in_year y0 r0"
    using civil_at [OF y0] by (simp only: N0 [symmetric] add_diff_cancel_right')
  ultimately have m: "fst (snd (civil_from_days (f + j))) = fst (snd (civil_from_days n0))"
    using s(3) [OF j, of "y + 1"] by simp
  have "(f + j + 4) mod 7 = (f + 4 + j) mod 7" by (simp add: algebra_simps)
  also have "\<dots> = (f + 4 + (w - 4 - f)) mod 7" unfolding j_def by (rule mod_add_right_eq)
  finally have "(f + j + 4) mod 7 = w" using w by simp
  moreover have "n < f + j" "f + j \<le> n + 2921"
    using N y s(1,2) j year_len_bounds(2) [of y] by (auto simp: f_def year_start_Suc)
  ultimately show ?thesis using m by (rule that [rotated 3])
qed

lemma civil_year_from_epoch: "0 \<le> n \<Longrightarrow> 1970 \<le> fst (civil_from_days n)"
proof -
  have "1970 \<le> fst ((next_day ^^ k) (1970, 1, 1))" for k
  proof (induction k)
    case (Suc k)
    then show ?case by (cases "(next_day ^^ k) (1970, 1, 1)") auto
  qed simp
  from this [of "nat n"] show "0 \<le> n \<Longrightarrow> 1970 \<le> fst (civil_from_days n)"
    by (metis civil_from_days_gregorian int_nat_eq)
qed

end
