(* ===== verification/Rust_Str.thy ===== *)
theory Rust_Str
  imports Prelude
begin

text \<open>
  The text type of the language: a \<open>&str\<close> is the list of its Unicode scalar values, with the
  standard library's UTF-8 conversions (\<open>str::as_bytes\<close>, \<open>std::str::from_utf8\<close>), the splitting
  methods and the decimal parser for \<open>u8\<close> that the cron module uses.
\<close>

type_synonym rust_str = "nat list"

definition str_lit :: "string \<Rightarrow> rust_str" where
  "str_lit s = map of_char s"

definition is_scalar :: "nat \<Rightarrow> bool" where
  "is_scalar n \<longleftrightarrow> n < 0xD800 \<or> (0xE000 \<le> n \<and> n < 0x110000)"

section \<open>UTF-8\<close>

definition utf8_char :: "nat \<Rightarrow> bytes" where
  "utf8_char n = map of_nat
     (if n < 0x80 then [n]
      else if n < 0x800 then [0xC0 + n div 64, 0x80 + n mod 64]
      else if n < 0x10000 then [0xE0 + n div 4096, 0x80 + n div 64 mod 64, 0x80 + n mod 64]
      else [0xF0 + n div 262144, 0x80 + n div 4096 mod 64, 0x80 + n div 64 mod 64, 0x80 + n mod 64])"

definition as_bytes :: "rust_str \<Rightarrow> bytes" where
  "as_bytes s = concat (map utf8_char s)"

definition continuation :: "byte \<Rightarrow> nat option" where
  "continuation b = (if 0x80 \<le> unat b \<and> unat b < 0xC0 then Some (unat b - 0x80) else None)"

text \<open>The value of a continuation sequence, appended to the bits of the leading byte.\<close>

fun continuations :: "nat \<Rightarrow> nat \<Rightarrow> bytes \<Rightarrow> (nat \<times> bytes) option" where
  "continuations 0 acc bs = Some (acc, bs)"
| "continuations (Suc k) acc [] = None"
| "continuations (Suc k) acc (b # bs) =
     (case continuation b of None \<Rightarrow> None | Some c \<Rightarrow> continuations k (acc * 64 + c) bs)"

definition utf8_next :: "byte \<Rightarrow> bytes \<Rightarrow> (nat \<times> bytes) option" where
  "utf8_next b bs =
     (let n = unat b;
          checked = (\<lambda>lo k lead. case continuations k lead bs of
            None \<Rightarrow> None
          | Some (v, rest) \<Rightarrow> if lo \<le> v \<and> is_scalar v then Some (v, rest) else None)
      in if n < 0x80 then Some (n, bs)
         else if n < 0xC0 then None
         else if n < 0xE0 then checked 0x80 1 (n - 0xC0)
         else if n < 0xF0 then checked 0x800 2 (n - 0xE0)
         else if n < 0xF8 then checked 0x10000 3 (n - 0xF0)
         else None)"

lemma continuations_shorter: "continuations k acc bs = Some (v, rest) \<Longrightarrow> length rest \<le> length bs"
proof (induction k acc bs rule: continuations.induct)
  case (3 k acc b bs)
  then show ?case by (auto split: option.splits)
qed auto

lemma utf8_next_shorter: "utf8_next b bs = Some (v, rest) \<Longrightarrow> length rest < Suc (length bs)"
  by (auto simp: utf8_next_def Let_def less_Suc_eq_le split: if_splits option.splits dest: continuations_shorter)

function from_utf8 :: "bytes \<Rightarrow> rust_str option" where
  "from_utf8 bs = (case bs of [] \<Rightarrow> Some []
     | b # bs' \<Rightarrow> (case utf8_next b bs' of None \<Rightarrow> None
         | Some (v, rest) \<Rightarrow> map_option ((#) v) (from_utf8 rest)))"
  by auto
termination by (relation "measure length") (auto dest: utf8_next_shorter)

declare from_utf8.simps [simp del]

lemma unat_of_nat_byte: "n < 256 \<Longrightarrow> unat (of_nat n :: byte) = n"
  by (simp add: unat_of_nat)

lemma continuation_of_nat: "c < 64 \<Longrightarrow> continuation (of_nat (128 + c)) = Some c"
  unfolding continuation_def by (simp only: unat_of_nat_byte) simp

lemmas utf8_eval = utf8_next_def Let_def continuation_of_nat numeral_2_eq_2 numeral_3_eq_3

lemma utf8_next_lead:
  assumes "is_scalar v"
  shows "v < 0x80 \<Longrightarrow> utf8_next (of_nat v) rest = Some (v, rest)"
    and "a < 32 \<Longrightarrow> b < 64 \<Longrightarrow> v = a * 64 + b \<Longrightarrow> 0x80 \<le> v \<Longrightarrow>
      utf8_next (of_nat (0xC0 + a)) (of_nat (0x80 + b) # rest) = Some (v, rest)"
    and "a < 16 \<Longrightarrow> b < 64 \<Longrightarrow> c < 64 \<Longrightarrow> v = (a * 64 + b) * 64 + c \<Longrightarrow> 0x800 \<le> v \<Longrightarrow>
      utf8_next (of_nat (0xE0 + a)) (of_nat (0x80 + b) # of_nat (0x80 + c) # rest) = Some (v, rest)"
    and "a < 5 \<Longrightarrow> b < 64 \<Longrightarrow> c < 64 \<Longrightarrow> d < 64 \<Longrightarrow> v = ((a * 64 + b) * 64 + c) * 64 + d \<Longrightarrow> 0x10000 \<le> v \<Longrightarrow>
      utf8_next (of_nat (0xF0 + a)) (of_nat (0x80 + b) # of_nat (0x80 + c) # of_nat (0x80 + d) # rest) = Some (v, rest)"
proof -
  show "v < 0x80 \<Longrightarrow> utf8_next (of_nat v) rest = Some (v, rest)"
    using unat_of_nat_byte [of v] by (simp add: utf8_eval)
  show "utf8_next (of_nat (0xC0 + a)) (of_nat (0x80 + b) # rest) = Some (v, rest)"
    if "a < 32" "b < 64" "v = a * 64 + b" "0x80 \<le> v"
    using that assms unat_of_nat_byte [of "0xC0 + a"] by (simp add: utf8_eval del: of_nat_add)
  show "utf8_next (of_nat (0xE0 + a)) (of_nat (0x80 + b) # of_nat (0x80 + c) # rest) = Some (v, rest)"
    if "a < 16" "b < 64" "c < 64" "v = (a * 64 + b) * 64 + c" "0x800 \<le> v"
    using that assms unat_of_nat_byte [of "0xE0 + a"] by (simp add: utf8_eval del: of_nat_add)
  show "utf8_next (of_nat (0xF0 + a)) (of_nat (0x80 + b) # of_nat (0x80 + c) # of_nat (0x80 + d) # rest) = Some (v, rest)"
    if "a < 5" "b < 64" "c < 64" "d < 64" "v = ((a * 64 + b) * 64 + c) * 64 + d" "0x10000 \<le> v"
    using that assms unat_of_nat_byte [of "0xF0 + a"] by (simp add: utf8_eval del: of_nat_add)
qed

lemma utf8_next_char:
  assumes "is_scalar n"
  shows "\<exists>b bs. utf8_char n = b # bs \<and> utf8_next b (bs @ rest) = Some (n, rest)"
proof -
  have m: "n mod 64 < 64" "n div 64 mod 64 < 64" "n div 4096 mod 64 < 64" by simp_all
  have d: "n div 4096 = n div 64 div 64" "n div 262144 = n div 64 div 64 div 64" by (simp_all add: div_mult2_eq [symmetric])
  have two: "n = n div 64 * 64 + n mod 64" by (simp only: div_mult_mod_eq)
  have three: "n = (n div 4096 * 64 + n div 64 mod 64) * 64 + n mod 64" unfolding d by (simp only: div_mult_mod_eq)
  have four: "n = ((n div 262144 * 64 + n div 4096 mod 64) * 64 + n div 64 mod 64) * 64 + n mod 64"
    unfolding d by (simp only: div_mult_mod_eq)
  have n: "n < 0x110000" using assms by (auto simp: is_scalar_def)
  consider "n < 0x80" | "0x80 \<le> n" "n < 0x800" | "0x800 \<le> n" "n < 0x10000" | "0x10000 \<le> n" by linarith
  then show ?thesis
  proof cases
    case 1
    then show ?thesis using utf8_next_lead(1) [OF assms] by (simp add: utf8_char_def)
  next
    case 2
    then have "n div 64 < 32" by simp
    from utf8_next_lead(2) [OF assms this m(1) two 2(1)] show ?thesis using 2 by (simp add: utf8_char_def)
  next
    case 3
    then have "n div 4096 < 16" by simp
    from utf8_next_lead(3) [OF assms this m(2,1) three 3(1)] show ?thesis using 3 by (simp add: utf8_char_def)
  next
    case 4
    then have "n div 262144 < 5" using n by simp
    from utf8_next_lead(4) [OF assms this m(3,2,1) four 4(1)] show ?thesis using 4 by (simp add: utf8_char_def)
  qed
qed

theorem from_utf8_as_bytes: "list_all is_scalar s \<Longrightarrow> from_utf8 (as_bytes s) = Some s"
proof (induction s)
  case Nil
  then show ?case by (simp add: as_bytes_def from_utf8.simps)
next
  case (Cons n s)
  then obtain b bs where "utf8_char n = b # bs" "utf8_next b (bs @ as_bytes s) = Some (n, as_bytes s)"
    using utf8_next_char [of n "as_bytes s"] by auto
  then show ?case using Cons by (simp add: as_bytes_def from_utf8.simps [of "b # _"])
qed

section \<open>Splitting and parsing\<close>

definition is_whitespace :: "nat \<Rightarrow> bool" where
  "is_whitespace n \<longleftrightarrow> (9 \<le> n \<and> n \<le> 13) \<or> n = 0x20 \<or> n = 0x85 \<or> n = 0xA0 \<or> n = 0x1680 \<or>
     (0x2000 \<le> n \<and> n \<le> 0x200A) \<or> n = 0x2028 \<or> n = 0x2029 \<or> n = 0x202F \<or> n = 0x205F \<or> n = 0x3000"

text \<open>\<open>str::split\<close> on a predicate: the pieces between the separators, empty ones included.\<close>

primrec split_at :: "(nat \<Rightarrow> bool) \<Rightarrow> rust_str \<Rightarrow> rust_str list" where
  "split_at sep [] = [[]]"
| "split_at sep (c # s) = (if sep c then [] # split_at sep s
     else case split_at sep s of [] \<Rightarrow> [[c]] | p # ps \<Rightarrow> (c # p) # ps)"

definition split_char :: "char \<Rightarrow> rust_str \<Rightarrow> rust_str list" where
  "split_char ch = split_at (\<lambda>c. c = of_char ch)"

definition split_whitespace :: "rust_str \<Rightarrow> rust_str list" where
  "split_whitespace s = filter (\<lambda>p. p \<noteq> []) (split_at is_whitespace s)"

primrec split_once :: "nat \<Rightarrow> rust_str \<Rightarrow> (rust_str \<times> rust_str) option" where
  "split_once sep [] = None"
| "split_once sep (c # s) = (if c = sep then Some ([], s)
     else map_option (\<lambda>(a, b). (c # a, b)) (split_once sep s))"

fun decimal_value :: "nat \<Rightarrow> rust_str \<Rightarrow> nat option" where
  "decimal_value acc [] = Some acc"
| "decimal_value acc (c # s) = (if 48 \<le> c \<and> c \<le> 57 \<and> acc * 10 + (c - 48) \<le> 255
     then decimal_value (acc * 10 + (c - 48)) s else None)"

text \<open>\<open>str::parse::<u8>\<close>: one leading plus sign is allowed, an empty digit string is not.\<close>

definition parse_u8 :: "rust_str \<Rightarrow> nat option" where
  "parse_u8 s = (let digits = (case s of c # s' \<Rightarrow> if c = 43 then s' else s | [] \<Rightarrow> [])
     in if digits = [] then None else decimal_value 0 digits)"

lemma split_at_ne [simp]: "split_at sep s \<noteq> []"
  by (induction s) (auto split: list.split)

lemma decimal_value_le: "decimal_value acc s = Some n \<Longrightarrow> acc \<le> 255 \<Longrightarrow> n \<le> 255"
  by (induction acc s rule: decimal_value.induct) (auto split: if_splits)

lemma parse_u8_le: "parse_u8 s = Some n \<Longrightarrow> n \<le> 255"
  using decimal_value_le [of 0] by (auto simp: parse_u8_def Let_def split: if_splits)

lemma split_at_plain: "split_at sep s = [s] \<longleftrightarrow> list_all (\<lambda>c. \<not> sep c) s"
proof (induction s)
  case (Cons c s)
  then show ?case by (auto split: list.splits)
qed simp

lemma split_at_join:
  assumes "list_all (\<lambda>c. \<not> sep c) p" and "sep c"
  shows "split_at sep (p @ c # s) = p # split_at sep s"
  using assms by (induction p) auto

end
