(* ===== verification/Cron.thy ===== *)
theory Cron
  imports Calendar Rust_Str
begin

text \<open>
  Cron expressions (\<open>crates/voodoo-store-core/src/cron.rs\<close>): the five-field parser, the test of
  a UTC timestamp and the search for the next matching minute. A \<open>u8\<close> is a natural number here,
  with the bound 255 written where the code tests for overflow; a timestamp keeps its 64 bits.
\<close>

section \<open>Data\<close>

record cron_field =
  fld_min :: nat
  fld_max :: nat
  fld_allowed :: "bool list"
  fld_wildcard :: bool

record cron_expression =
  cron_minute :: cron_field
  cron_hour :: cron_field
  cron_day_of_month :: cron_field
  cron_month :: cron_field
  cron_day_of_week :: cron_field

datatype cron_error =
    CrInvalidFieldCount
  | CrInvalidField rust_str
  | CrTimeOverflow

section \<open>Parsing\<close>

definition parse_value :: "rust_str \<Rightarrow> nat \<Rightarrow> nat \<Rightarrow> rust_str \<Rightarrow> cron_error + nat" where
  "parse_value text lo hi original =
     res_bind (ok_or (CrInvalidField original) (parse_u8 text)) (\<lambda>v.
       if v < lo \<or> v > hi then Inl (CrInvalidField original) else Inr v)"

text \<open>One comma-separated part: its first value, its last value and its step.\<close>

definition parse_part :: "rust_str \<Rightarrow> nat \<Rightarrow> nat \<Rightarrow> rust_str \<Rightarrow> cron_error + nat \<times> nat \<times> nat" where
  "parse_part input lo hi part =
     res_bind
       (case split_once (of_char CHR ''/'') part of
          Some (base, step) \<Rightarrow> res_bind (ok_or (CrInvalidField input) (parse_u8 step)) (\<lambda>step.
            if step = 0 then Inl (CrInvalidField input) else Inr (base, step))
        | None \<Rightarrow> Inr (part, 1))
       (\<lambda>(base, step). res_bind
         (if base = str_lit ''*'' then Inr (lo, hi)
          else case split_once (of_char CHR ''-'') base of
            Some (start, stop) \<Rightarrow> res_bind (parse_value start lo hi input) (\<lambda>start.
              res_bind (parse_value stop lo hi input) (\<lambda>stop. Inr (start, stop)))
          | None \<Rightarrow> res_bind (parse_value base lo hi input) (\<lambda>v. Inr (v, v)))
         (\<lambda>(start, stop). if start > stop then Inl (CrInvalidField input) else Inr (start, stop, step)))"

text \<open>The loop that marks the values of a part. The step is never zero: \<open>parse_part\<close> rejects it.\<close>

function mark_values :: "nat \<Rightarrow> nat \<Rightarrow> nat \<Rightarrow> nat \<Rightarrow> bool list \<Rightarrow> bool list" where
  "mark_values lo step stop v allowed =
     (let allowed' = allowed[v - lo := True]
      in if 255 < v + step \<or> stop < v + step \<or> step = 0 then allowed'
         else mark_values lo step stop (v + step) allowed')"
  by auto
termination by (relation "measure (\<lambda>(lo, step, stop, v, allowed). Suc stop - v)") auto

declare mark_values.simps [simp del]

primrec parse_parts :: "rust_str \<Rightarrow> nat \<Rightarrow> nat \<Rightarrow> rust_str list \<Rightarrow> bool list \<Rightarrow> cron_error + bool list" where
  "parse_parts input lo hi [] allowed = Inr allowed"
| "parse_parts input lo hi (part # parts) allowed =
     res_bind (parse_part input lo hi part) (\<lambda>(start, stop, step).
       parse_parts input lo hi parts (mark_values lo step stop start allowed))"

definition field_parse :: "rust_str \<Rightarrow> nat \<Rightarrow> nat \<Rightarrow> cron_error + cron_field" where
  "field_parse input lo hi =
     res_bind (parse_parts input lo hi (split_char CHR '','' input) (replicate (hi - lo + 1) False)) (\<lambda>allowed.
       if \<not> list_ex id allowed then Inl (CrInvalidField input)
       else Inr \<lparr>fld_min = lo, fld_max = hi, fld_allowed = allowed, fld_wildcard = (input = str_lit ''*'')\<rparr>)"

definition field_matches :: "cron_field \<Rightarrow> nat \<Rightarrow> bool" where
  "field_matches f v =
     (if v < fld_min f \<or> v > fld_max f then False else fld_allowed f ! (v - fld_min f))"

definition cron_parse :: "rust_str \<Rightarrow> cron_error + cron_expression" where
  "cron_parse expression =
     (case split_whitespace expression of
        [mi, ho, dm, mo, dw] \<Rightarrow>
          res_bind (field_parse mi 0 59) (\<lambda>mi. res_bind (field_parse ho 0 23) (\<lambda>ho.
          res_bind (field_parse dm 1 31) (\<lambda>dm. res_bind (field_parse mo 1 12) (\<lambda>mo.
          res_bind (field_parse dw 0 6) (\<lambda>dw.
            Inr \<lparr>cron_minute = mi, cron_hour = ho, cron_day_of_month = dm, cron_month = mo, cron_day_of_week = dw\<rparr>)))))
      | _ \<Rightarrow> Inl CrInvalidFieldCount)"

section \<open>Matching and searching\<close>

text \<open>\<open>div_euclid\<close> by a positive constant rounds down, as \<open>div\<close> does; \<open>as u8\<close> keeps the low byte.\<close>

definition as_u8 :: "int \<Rightarrow> nat" where
  "as_u8 x = nat (x mod 256)"

definition matches_utc_ms :: "cron_expression \<Rightarrow> i64 \<Rightarrow> bool" where
  "matches_utc_ms c timestamp_ms =
     (let seconds = sint timestamp_ms div 1000;
          minutes = seconds div 60;
          days = minutes div 1440;
          minute = as_u8 (minutes mod 60);
          hour = as_u8 (minutes div 60 mod 24);
          (year, month, day) = civil_from_days days;
          dow = as_u8 ((days + 4) mod 7)
      in if year < 1970 then False
         else
           (let dom_match = field_matches (cron_day_of_month c) (as_u8 day);
                dow_match = field_matches (cron_day_of_week c) dow;
                day_match = (case (fld_wildcard (cron_day_of_month c), fld_wildcard (cron_day_of_week c)) of
                    (True, True) \<Rightarrow> True
                  | (True, False) \<Rightarrow> dow_match
                  | (False, True) \<Rightarrow> dom_match
                  | (False, False) \<Rightarrow> dom_match \<or> dow_match)
            in field_matches (cron_minute c) minute \<and> field_matches (cron_hour c) hour \<and>
               field_matches (cron_month c) (as_u8 month) \<and> day_match))"

definition i64_div_euclid :: "i64 \<Rightarrow> int \<Rightarrow> i64" where
  "i64_div_euclid a m = word_of_int (sint a div m)"

definition checked_mul_signed :: "i64 \<Rightarrow> i64 \<Rightarrow> i64 option" where
  "checked_mul_signed a b =
     (let p = sint a * sint b in if - (2 ^ 63) \<le> p \<and> p < 2 ^ 63 then Some (word_of_int p) else None)"

fun search_minutes :: "cron_expression \<Rightarrow> nat \<Rightarrow> i64 \<Rightarrow> cron_error + i64" where
  "search_minutes c n candidate =
     (if n = 0 then Inl (CrInvalidField (str_lit ''no matching time within search horizon''))
      else if matches_utc_ms c candidate then Inr candidate
      else case checked_add_signed candidate 60000 of
        None \<Rightarrow> Inl CrTimeOverflow
      | Some candidate' \<Rightarrow> search_minutes c (n - 1) candidate')"

declare search_minutes.simps [simp del]

definition max_minutes :: nat where
  "max_minutes = 8 * 366 * 24 * 60"

definition next_after_utc_ms :: "cron_expression \<Rightarrow> i64 \<Rightarrow> cron_error + i64" where
  "next_after_utc_ms c after_ms =
     res_bind
       (ok_or CrTimeOverflow
         (case checked_add_signed (i64_div_euclid after_ms 60000) 1 of
            None \<Rightarrow> None
          | Some v \<Rightarrow> checked_mul_signed v 60000))
       (\<lambda>base. search_minutes c max_minutes base)"

section \<open>What a field denotes\<close>

lemma length_mark_values [simp]: "length (mark_values lo step stop v allowed) = length allowed"
proof (induction lo step stop v allowed rule: mark_values.induct)
  case (1 lo step stop v allowed)
  then show ?case by (subst mark_values.simps) (simp add: Let_def)
qed

definition stepped :: "nat \<times> nat \<times> nat \<Rightarrow> nat \<Rightarrow> bool" where
  "stepped p x \<longleftrightarrow> (case p of (start, stop, step) \<Rightarrow> start \<le> x \<and> x \<le> stop \<and> step dvd (x - start))"

lemma stepped_next:
  assumes "0 < step" and "v \<le> stop"
  shows "stepped (v, stop, step) x \<longleftrightarrow> x = v \<or> stepped (v + step, stop, step) x"
proof
  assume s: "stepped (v, stop, step) x"
  show "x = v \<or> stepped (v + step, stop, step) x"
  proof (cases "x = v")
    case False
    then have v: "v < x" and d: "step dvd (x - v)" using s by (auto simp: stepped_def)
    from d obtain k where "x - v = step * k" by (rule dvdE)
    with v have k: "x - v = step * k" "v < x" by simp_all
    then obtain k' where k': "k = Suc k'" by (cases k) auto
    then have "x - (v + step) = step * k'" "v + step \<le> x" using k by auto
    then show ?thesis using s by (auto simp: stepped_def)
  qed simp
next
  assume "x = v \<or> stepped (v + step, stop, step) x"
  then show "stepped (v, stop, step) x"
  proof
    assume s: "stepped (v + step, stop, step) x"
    then have "x - v = (x - (v + step)) + step" and d: "step dvd (x - (v + step))" by (auto simp: stepped_def)
    then have "step dvd (x - v)" by (metis dvd_add dvd_refl)
    then show ?thesis using s by (simp add: stepped_def)
  qed (use assms in \<open>simp add: stepped_def\<close>)
qed

lemma mark_values_nth:
  assumes "0 < step" and "lo \<le> v" and "v \<le> stop" and "stop - lo < length allowed" and "stop \<le> 255" and "lo \<le> x"
    and "x - lo < length allowed"
  shows "mark_values lo step stop v allowed ! (x - lo) \<longleftrightarrow> allowed ! (x - lo) \<or> stepped (v, stop, step) x"
  using assms
proof (induction lo step stop v allowed rule: mark_values.induct)
  case (1 lo step stop v allowed)
  have now: "allowed[v - lo := True] ! (x - lo) \<longleftrightarrow> allowed ! (x - lo) \<or> x = v"
    using "1.prems" by (auto simp: nth_list_update)
  show ?case
  proof (cases "stop < v + step")
    case True
    then have "\<not> stepped (v + step, stop, step) x" by (auto simp: stepped_def)
    then show ?thesis using True now stepped_next [of step v stop x] "1.prems"
      by (subst mark_values.simps) (simp add: Let_def)
  next
    case False
    with "1.prems" have go: "\<not> (255 < v + step \<or> stop < v + step \<or> step = 0)" by auto
    from "1.IH" [OF refl go] show ?thesis
      using go now stepped_next [of step v stop x] "1.prems" False
      by (subst mark_values.simps) (auto simp: Let_def)
  qed
qed

lemma parse_value_bounds: "parse_value text lo hi original = Inr v \<Longrightarrow> lo \<le> v \<and> v \<le> hi"
  by (auto simp: parse_value_def res_bind_Inr_iff split: if_splits)

lemma parse_part_bounds:
  assumes "parse_part input lo hi part = Inr (start, stop, step)" and "lo \<le> hi"
  shows "lo \<le> start" and "start \<le> stop" and "stop \<le> hi" and "0 < step"
  using assms by (auto simp: parse_part_def res_bind_Inr_iff split: if_splits option.splits prod.splits dest!: parse_value_bounds)

lemma parse_part_error:
  assumes "parse_part input lo hi part = Inl e"
  shows "e = CrInvalidField input"
  using assms
  by (auto simp: parse_part_def parse_value_def res_bind_Inl_iff ok_or_Inl_iff split: if_splits option.splits prod.splits)

lemma parse_parts_spec:
  assumes "lo \<le> hi" and "hi \<le> 255" and "length allowed = hi - lo + 1"
  shows "case parse_parts input lo hi parts allowed of
      Inl e \<Rightarrow> e = CrInvalidField input \<and> (\<exists>part \<in> set parts. \<exists>e. parse_part input lo hi part = Inl e)
    | Inr allowed' \<Rightarrow> length allowed' = length allowed \<and> (\<forall>part \<in> set parts. \<exists>p. parse_part input lo hi part = Inr p) \<and>
        (\<forall>x. lo \<le> x \<longrightarrow> x \<le> hi \<longrightarrow> (allowed' ! (x - lo) \<longleftrightarrow> allowed ! (x - lo) \<or>
          (\<exists>part \<in> set parts. \<exists>p. parse_part input lo hi part = Inr p \<and> stepped p x)))"
  using assms(3)
proof (induction parts arbitrary: allowed)
  case (Cons part parts)
  show ?case
  proof (cases "parse_part input lo hi part")
    case (Inl e)
    then show ?thesis using parse_part_error [OF Inl] by simp
  next
    case (Inr p)
    obtain start stop step where p: "p = (start, stop, step)" by (cases p)
    note B = parse_part_bounds [OF Inr [unfolded p] assms(1)]
    let ?a = "mark_values lo step stop start allowed"
    have nth: "?a ! (x - lo) \<longleftrightarrow> allowed ! (x - lo) \<or> stepped p x" if "lo \<le> x" "x \<le> hi" for x
      unfolding p by (rule mark_values_nth) (use B that assms(1,2) Cons.prems in auto)
    show ?thesis
      using Cons.IH [of ?a] Cons.prems Inr nth
      by (cases "parse_parts input lo hi parts ?a") (auto simp: p)
  qed
qed simp

text \<open>A field either is rejected, with itself in the error and because one of its parts is
  malformed, or allows exactly the values its parts step through.\<close>

theorem field_parse_spec:
  assumes "lo \<le> hi" and "hi \<le> 255"
  shows "case field_parse input lo hi of
      Inl e \<Rightarrow> e = CrInvalidField input \<and> (\<exists>part \<in> set (split_char CHR '','' input). \<exists>e. parse_part input lo hi part = Inl e)
    | Inr f \<Rightarrow> (\<forall>part \<in> set (split_char CHR '','' input). \<exists>p. parse_part input lo hi part = Inr p) \<and>
        (\<forall>x. field_matches f x \<longleftrightarrow> (\<exists>part \<in> set (split_char CHR '','' input). \<exists>p. parse_part input lo hi part = Inr p \<and> stepped p x)) \<and>
        (fld_wildcard f \<longleftrightarrow> input = str_lit ''*'')"
proof -
  let ?parts = "split_char CHR '','' input" and ?a = "replicate (hi - lo + 1) False"
  have S: "case parse_parts input lo hi ?parts ?a of
      Inl e \<Rightarrow> e = CrInvalidField input \<and> (\<exists>part \<in> set ?parts. \<exists>e. parse_part input lo hi part = Inl e)
    | Inr allowed' \<Rightarrow> length allowed' = length ?a \<and> (\<forall>part \<in> set ?parts. \<exists>p. parse_part input lo hi part = Inr p) \<and>
        (\<forall>x. lo \<le> x \<longrightarrow> x \<le> hi \<longrightarrow> (allowed' ! (x - lo) \<longleftrightarrow> ?a ! (x - lo) \<or>
          (\<exists>part \<in> set ?parts. \<exists>p. parse_part input lo hi part = Inr p \<and> stepped p x)))"
    by (rule parse_parts_spec [OF assms]) simp
  show ?thesis
  proof (cases "parse_parts input lo hi ?parts ?a")
    case (Inl e)
    then show ?thesis using S by (simp add: field_parse_def)
  next
    case (Inr allowed)
    have blank: "\<not> ?a ! (x - lo)" if "lo \<le> x" "x \<le> hi" for x
      using that by (subst nth_replicate) auto
    from Inr have A: "length allowed = hi - lo + 1" "\<forall>part \<in> set ?parts. \<exists>p. parse_part input lo hi part = Inr p"
      "\<And>x. lo \<le> x \<Longrightarrow> x \<le> hi \<Longrightarrow> allowed ! (x - lo) \<longleftrightarrow> (\<exists>part \<in> set ?parts. \<exists>p. parse_part input lo hi part = Inr p \<and> stepped p x)"
      using S blank by (simp_all only: sum.case length_replicate simp_thms) blast
    have in_range: "lo \<le> x \<and> x \<le> hi" if "parse_part input lo hi part = Inr p" "stepped p x" for part p x
      using parse_part_bounds [of input lo hi part] that assms(1) by (cases p) (fastforce simp: stepped_def)
    obtain part where part: "part \<in> set ?parts" unfolding split_char_def by (metis list.set_sel(1) split_at_ne)
    with A(2) obtain p where p: "parse_part input lo hi part = Inr p" by blast
    obtain start stop step where pe: "p = (start, stop, step)" by (cases p)
    note B = parse_part_bounds [OF p [unfolded pe] assms(1)]
    have "stepped p start" using B by (simp add: pe stepped_def)
    then have "allowed ! (start - lo)" using A(3) [of start] B part p by fastforce
    then have "list_ex id allowed" using A(1) B by (auto simp: list_ex_iff in_set_conv_nth intro!: bexI [of _ True] exI [of _ "start - lo"])
    then have f: "field_parse input lo hi =
        Inr \<lparr>fld_min = lo, fld_max = hi, fld_allowed = allowed, fld_wildcard = (input = str_lit ''*'')\<rparr>"
      using Inr by (simp add: field_parse_def)
    have "(if x < lo \<or> hi < x then False else allowed ! (x - lo)) \<longleftrightarrow>
        (\<exists>part \<in> set ?parts. \<exists>p. parse_part input lo hi part = Inr p \<and> stepped p x)" for x
      using A(3) [of x] in_range [of _ _ x] by (meson leD not_le_imp_less)
    then show ?thesis using A(2) unfolding f field_matches_def by (simp only: sum.case cron_field.simps simp_thms)
  qed
qed

section \<open>Matching a minute\<close>

text \<open>A timestamp matches by its minute alone.\<close>

definition day_matches :: "cron_expression \<Rightarrow> int \<Rightarrow> bool" where
  "day_matches c day \<longleftrightarrow>
     (let dm = field_matches (cron_day_of_month c) (as_u8 (snd (snd (civil_from_days day))));
          dw = field_matches (cron_day_of_week c) (as_u8 ((day + 4) mod 7))
      in if fld_wildcard (cron_day_of_month c) then fld_wildcard (cron_day_of_week c) \<or> dw
         else if fld_wildcard (cron_day_of_week c) then dm else dm \<or> dw)"

definition minute_matches :: "cron_expression \<Rightarrow> int \<Rightarrow> bool" where
  "minute_matches c m \<longleftrightarrow>
     1970 \<le> fst (civil_from_days (m div 1440)) \<and>
     field_matches (cron_minute c) (as_u8 (m mod 60)) \<and> field_matches (cron_hour c) (as_u8 (m div 60 mod 24)) \<and>
     field_matches (cron_month c) (as_u8 (fst (snd (civil_from_days (m div 1440))))) \<and> day_matches c (m div 1440)"

lemma matches_minute: "matches_utc_ms c t \<longleftrightarrow> minute_matches c (sint t div 60000)"
proof -
  have "sint t div 1000 div 60 = sint t div 60000" by (simp add: zdiv_zmult2_eq [symmetric])
  then show ?thesis
    by (cases "civil_from_days (sint t div 60000 div 1440)")
      (auto simp: matches_utc_ms_def minute_matches_def day_matches_def Let_def split: bool.splits)
qed

text \<open>The time of day and the date are independent: a minute of one day matches when the minute
  at the same time of another matching day does.\<close>

lemma minute_of_day:
  fixes d tod :: int
  assumes "0 \<le> tod" and "tod < 1440"
  shows "(d * 1440 + tod) div 1440 = d" and "(d * 1440 + tod) mod 60 = tod mod 60" and "(d * 1440 + tod) div 60 mod 24 = tod div 60"
proof -
  show "(d * 1440 + tod) div 1440 = d" using assms by (intro int_div_eqI) auto
  have e: "d * 1440 + tod = tod + (d * 24) * 60" by simp
  show "(d * 1440 + tod) mod 60 = tod mod 60" unfolding e by (rule mod_mult_self1)
  have "(d * 1440 + tod) div 60 = tod div 60 + d * 24" unfolding e by (simp add: div_mult_self1)
  moreover have "0 \<le> tod div 60" "tod div 60 < 24" using assms by simp_all
  ultimately show "(d * 1440 + tod) div 60 mod 24 = tod div 60" by simp
qed

lemma minute_matches_day:
  assumes "0 \<le> tod" and "tod < 1440" and "0 \<le> d"
  shows "minute_matches c (d * 1440 + tod) \<longleftrightarrow>
    field_matches (cron_minute c) (as_u8 (tod mod 60)) \<and> field_matches (cron_hour c) (as_u8 (tod div 60)) \<and>
    field_matches (cron_month c) (as_u8 (fst (snd (civil_from_days d)))) \<and> day_matches c d"
  using civil_year_from_epoch [OF assms(3)] by (simp add: minute_matches_def minute_of_day [OF assms(1,2)])

lemma day_recurs:
  assumes n: "0 \<le> n" and n0: "0 \<le> n0" and m: "day_matches c n0"
  obtains d where "n < d" and "d \<le> n + 2921" and "fst (snd (civil_from_days d)) = fst (snd (civil_from_days n0))"
    and "day_matches c d"
proof -
  have N: "- 719468 \<le> n" "- 719468 \<le> n0" using n n0 by simp_all
  let ?w = "(n0 + 4) mod 7"
  have w: "0 \<le> ?w" "?w < 7" by simp_all
  show ?thesis
  proof (cases "\<not> fld_wildcard (cron_day_of_week c) \<and> field_matches (cron_day_of_week c) (as_u8 ?w)")
    case True
    obtain d where "n < d" "d \<le> n + 2921" "fst (snd (civil_from_days d)) = fst (snd (civil_from_days n0))" "(d + 4) mod 7 = ?w"
      by (rule weekday_recurs [OF N w])
    then show ?thesis using True by (intro that [of d]) (auto simp: day_matches_def)
  next
    case False
    obtain d where d: "n < d" "d \<le> n + 2921" "snd (civil_from_days d) = snd (civil_from_days n0)"
      by (rule date_recurs [OF N])
    then show ?thesis using False m by (intro that [of d]) (auto simp: day_matches_def Let_def split: if_splits)
  qed
qed

lemma minute_recurs:
  assumes b: "0 \<le> b" and m0: "0 \<le> m0" "minute_matches c m0"
  obtains m where "b \<le> m" and "m < b + int max_minutes" and "minute_matches c m"
proof -
  define n0 where "n0 = m0 div 1440"
  define tod where "tod = m0 mod 1440"
  have m: "m0 = n0 * 1440 + tod" unfolding n0_def tod_def by (simp only: div_mult_mod_eq)
  have t: "0 \<le> tod" "tod < 1440" by (simp_all add: tod_def)
  have n0: "0 \<le> n0" using m0(1) by (simp add: n0_def pos_imp_zdiv_nonneg_iff)
  have n: "0 \<le> b div 1440" using b by (simp add: pos_imp_zdiv_nonneg_iff)
  note M = m0(2) [unfolded m minute_matches_day [OF t n0]]
  obtain d where d: "b div 1440 < d" "d \<le> b div 1440 + 2921" "fst (snd (civil_from_days d)) = fst (snd (civil_from_days n0))" "day_matches c d"
    by (rule day_recurs [OF n n0]) (use M in auto)
  have b': "b = b div 1440 * 1440 + b mod 1440" "0 \<le> b mod 1440" "b mod 1440 < 1440" by simp_all
  show ?thesis
  proof (rule that)
    show "minute_matches c (d * 1440 + tod)" using minute_matches_day [OF t] M d n by simp
    show "b \<le> d * 1440 + tod" "d * 1440 + tod < b + int max_minutes" using d(1,2) t b' unfolding max_minutes_def by linarith+
  qed
qed

section \<open>The search\<close>

lemma checked_add_signed_iff:
  "checked_add_signed (a :: i64) b = (if - (2 ^ 63) \<le> sint a + sint b \<and> sint a + sint b < 2 ^ 63 then Some (a + b) else None)"
  by (simp add: checked_add_signed_def Let_def)

lemma search_minutes_spec:
  "search_minutes c n t = Inr u \<Longrightarrow>
    \<exists>k < n. sint u = sint t + 60000 * int k \<and> matches_utc_ms c u \<and> (\<forall>j < k. \<not> minute_matches c (sint t div 60000 + int j))"
proof (induction c n t rule: search_minutes.induct)
  case (1 c n t)
  show ?case
  proof (cases "matches_utc_ms c t")
    case True
    then show ?thesis using "1.prems" by (auto simp: search_minutes.simps [of c n] split: if_splits)
  next
    case False
    with "1.prems" obtain t' where n: "n \<noteq> 0" and t': "checked_add_signed t 60000 = Some t'" and s: "search_minutes c (n - 1) t' = Inr u"
      by (auto simp: search_minutes.simps [of c n] split: if_splits option.splits)
    have st: "sint t' = sint t + 60000" using checked_add_signed_Some [OF t'] by simp
    from "1.IH" [OF n False t' s] obtain k where k: "k < n - 1" "sint u = sint t' + 60000 * int k" "matches_utc_ms c u"
      "\<forall>j < k. \<not> minute_matches c (sint t' div 60000 + int j)" by blast
    have dv: "sint t' div 60000 = sint t div 60000 + 1" by (simp add: st)
    have "\<not> minute_matches c (sint t div 60000 + int j)" if "j < Suc k" for j
    proof (cases j)
      case 0
      then show ?thesis using False by (simp add: matches_minute)
    next
      case (Suc i)
      then have "sint t div 60000 + int j = sint t' div 60000 + int i" by (simp add: dv)
      then show ?thesis using k(4) that Suc by (simp only:) (simp only: Suc_less_eq simp_thms)
    qed
    then show ?thesis using k n st by (intro exI [of _ "Suc k"]) auto
  qed
qed

lemma search_minutes_finds:
  "sint t + 60000 * int n < 2 ^ 63 \<Longrightarrow> k < n \<Longrightarrow> minute_matches c (sint t div 60000 + int k) \<Longrightarrow>
    \<exists>u. search_minutes c n t = Inr u"
proof (induction k arbitrary: n t)
  case 0
  then show ?case by (simp add: search_minutes.simps [of c n] matches_minute)
next
  case (Suc k)
  have "- (2 ^ 63) \<le> sint t" using sint_greater_eq [of t] by simp
  with Suc.prems obtain t' where t': "checked_add_signed t 60000 = Some t'" by (auto simp: checked_add_signed_iff)
  have st: "sint t' = sint t + 60000" using checked_add_signed_Some [OF t'] by simp
  have dv: "sint t' div 60000 + int k = sint t div 60000 + int (Suc k)" by (simp add: st)
  have "\<exists>u. search_minutes c (n - 1) t' = Inr u"
    by (rule Suc.IH, unfold dv) (use Suc.prems st in \<open>auto simp: algebra_simps of_nat_diff\<close>)
  then show ?case using Suc.prems t' by (auto simp: search_minutes.simps [of c n])
qed

lemma search_base:
  fixes a :: i64
  defines "b \<equiv> (sint a div 60000 + 1) * 60000"
  shows "(case checked_add_signed (i64_div_euclid a 60000) 1 of None \<Rightarrow> None | Some v \<Rightarrow> checked_mul_signed v 60000) =
    (if b < 2 ^ 63 then Some (word_of_int b) else None)"
    and "b < 2 ^ 63 \<Longrightarrow> sint (word_of_int b :: i64) = b"
proof -
  have s: "- (2 ^ 63) \<le> sint a" "sint a < 2 ^ 63" using sint_greater_eq [of a] sint_less [of a] by simp_all
  define q where "q = sint a div 60000"
  have q: "- (2 ^ 63) \<le> q * 60000 + 60000" "q < 2 ^ 60" "- (2 ^ 60) \<le> q" using s unfolding q_def by auto
  have si: "sint (word_of_int x :: i64) = x" if "- (2 ^ 63) \<le> x" "x < 2 ^ 63" for x
    using that by (simp add: signed_of_int signed_take_bit_int_eq_self)
  have "sint (i64_div_euclid a 60000) = q" using q by (simp add: i64_div_euclid_def q_def [symmetric] si)
  moreover from this have "sint (i64_div_euclid a 60000 + 1) = q + 1"
    using checked_add_signed_Some [of "i64_div_euclid a 60000" 1 "i64_div_euclid a 60000 + 1"] q by (simp add: checked_add_signed_iff)
  ultimately show "(case checked_add_signed (i64_div_euclid a 60000) 1 of None \<Rightarrow> None | Some v \<Rightarrow> checked_mul_signed v 60000) =
    (if b < 2 ^ 63 then Some (word_of_int b) else None)"
    using q by (auto simp: checked_add_signed_iff checked_mul_signed_def Let_def b_def q_def [symmetric] algebra_simps)
  show "b < 2 ^ 63 \<Longrightarrow> sint (word_of_int b :: i64) = b" using q by (intro si) (auto simp: b_def q_def [symmetric] algebra_simps)
qed

lemma next_minute_bounds:
  fixes a :: int
  shows "a < (a div 60000 + 1) * 60000" and "(a div 60000 + 1) * 60000 \<le> a + 60000"
proof -
  have "60000 * (a div 60000) + a mod 60000 = a" "0 \<le> a mod 60000" "a mod 60000 < 60000" by simp_all
  then show "a < (a div 60000 + 1) * 60000" and "(a div 60000 + 1) * 60000 \<le> a + 60000" by simp_all
qed

text \<open>The result is the first matching minute that begins after the given time.\<close>

definition first_match_after :: "cron_expression \<Rightarrow> i64 \<Rightarrow> i64 \<Rightarrow> bool" where
  "first_match_after c a t \<longleftrightarrow> sint a < sint t \<and> 60000 dvd sint t \<and> matches_utc_ms c t \<and>
     (\<forall>u. sint a < sint u \<longrightarrow> sint u < sint t \<longrightarrow> 60000 dvd sint u \<longrightarrow> \<not> matches_utc_ms c u)"

theorem next_after_first:
  assumes "next_after_utc_ms c a = Inr t"
  shows "first_match_after c a t"
proof -
  define b where "b = (sint a div 60000 + 1) * 60000"
  note B = search_base [of a, folded b_def]
  have lt: "b < 2 ^ 63" and s: "search_minutes c max_minutes (word_of_int b) = Inr t"
    using assms B(1) by (auto simp: next_after_utc_ms_def res_bind_Inr_iff ok_or_Inr_iff split: if_splits)
  have sb: "sint (word_of_int b :: i64) = b" by (rule B(2) [OF lt])
  obtain k where k: "sint t = b + 60000 * int k" "matches_utc_ms c t" "\<forall>j < k. \<not> minute_matches c (b div 60000 + int j)"
    using search_minutes_spec [OF s] sb by auto
  have bd: "b div 60000 = sint a div 60000 + 1" by (simp add: b_def)
  have a: "sint a < b" "b - 60000 \<le> sint a" using next_minute_bounds [of "sint a"] unfolding b_def by simp_all
  have "\<not> matches_utc_ms c u" if u: "sint a < sint u" "sint u < sint t" "60000 dvd sint u" for u
  proof -
    obtain q where q: "sint u = 60000 * q" using u(3) by (rule dvdE)
    have b: "b = 60000 * (b div 60000)" by (simp add: b_def)
    have "60000 * (b div 60000 - 1) < 60000 * q" "60000 * q < 60000 * (b div 60000 + int k)"
      using u(1,2) a k(1) q b by simp_all
    then have "b div 60000 \<le> q" "q < b div 60000 + int k" by simp_all
    then have "nat (q - b div 60000) < k" "q = b div 60000 + int (nat (q - b div 60000))" by linarith+
    then show ?thesis using k(3) q by (metis matches_minute nonzero_mult_div_cancel_left zero_neq_numeral)
  qed
  moreover have "60000 dvd sint t" by (simp add: k(1) b_def)
  ultimately show ?thesis using k a by (auto simp: first_match_after_def)
qed

text \<open>Eight years are enough: the search fails only for an expression that no time matches,
  unless the clock itself runs out.\<close>

theorem next_after_complete:
  assumes a: "0 \<le> sint a" "sint a + 252979260000 < 2 ^ 63" and t0: "0 \<le> sint t0" "matches_utc_ms c t0"
  shows "\<exists>t. next_after_utc_ms c a = Inr t"
proof -
  define b where "b = (sint a div 60000 + 1) * 60000"
  note B = search_base [of a, folded b_def]
  have hi: "b \<le> sint a + 60000" and lo: "0 \<le> b"
    using a(1) next_minute_bounds [of "sint a"] unfolding b_def by linarith+
  have lt: "b < 2 ^ 63" using hi a by simp
  have sb: "sint (word_of_int b :: i64) = b" by (rule B(2) [OF lt])
  have "0 \<le> b div 60000" "0 \<le> sint t0 div 60000" using lo t0(1) by (simp_all add: pos_imp_zdiv_nonneg_iff)
  then obtain m where m: "b div 60000 \<le> m" "m < b div 60000 + int max_minutes" "minute_matches c m"
    using minute_recurs t0(2) [unfolded matches_minute] by blast
  have "\<exists>u. search_minutes c max_minutes (word_of_int b) = Inr u"
  proof (rule search_minutes_finds)
    show "sint (word_of_int b :: i64) + 60000 * int max_minutes < 2 ^ 63" using hi a by (simp add: sb max_minutes_def)
    show "nat (m - b div 60000) < max_minutes" using m by linarith
    show "minute_matches c (sint (word_of_int b :: i64) div 60000 + int (nat (m - b div 60000)))" using m by (simp add: sb)
  qed
  then show ?thesis using lt B(1) by (simp add: next_after_utc_ms_def)
qed

end
