(* ===== verification/Cron_Scheduler.thy ===== *)
theory Cron_Scheduler
  imports Cron Schedules Queue
begin

text \<open>
  Durable cron schedules (\<open>crates/voodoo-store-core/src/cron_scheduler.rs\<close>): a schedule record holds
  its expression and its next occurrence; a tick submits one job per due schedule, under an
  idempotency key made of the schedule and the occurrence, and then moves the record on. The
  order of schedules with equal next occurrences is the sorting routine's choice; the model
  keeps key order there.
\<close>

section \<open>Model\<close>

definition CRON_PREFIX :: bytes where
  "CRON_PREFIX = 0xff # ascii ''vds:cron:data:''"

definition CRON_VERSION :: u8 where
  "CRON_VERSION = 1"

record durable_cron =
  cs_id :: bytes
  cs_expression :: bytes
  cs_job :: job_spec
  cs_next_run_ms :: i64
  cs_enabled :: bool
  cs_fire_count :: u64
  cs_last_fired_at_ms :: "i64 option"

record cron_tick_report =
  ct_scanned :: usize
  ct_fired :: usize

datatype cron_scheduler_error =
    CsStore engine_error
  | CsJob job_error
  | CsCron cron_error
  | CsInvalidUtf8
  | CsCorruptRecord
  | CsFireCountOverflow
  | CsEntropyUnavailable

definition cs_write_bytes :: "bytes \<Rightarrow> cron_scheduler_error + bytes" where
  "cs_write_bytes value = res_bind (ok_or CsCorruptRecord (u32_try_from_len (length value))) (\<lambda>len. Inr (to_le len @ value))"

definition occurrence_key :: "bytes \<Rightarrow> i64 \<Rightarrow> bytes" where
  "occurrence_key i scheduled_at = ascii ''vds:cron:'' @ i @ to_be scheduled_at"

definition cs_validate_job :: "job_spec \<Rightarrow> cron_scheduler_error + unit" where
  "cs_validate_job spec = (if js_handler spec = [] \<or> js_max_attempts spec = 0 then Inl CsCorruptRecord else Inr ())"

definition cs_random_id :: "(store, cron_scheduler_error, bytes) act" where
  "cs_random_id s =
     (case os_entropy (st_os s) of
        [] \<Rightarrow> (Inl CsEntropyUnavailable, s)
      | x # xs \<Rightarrow> (ok_or CsEntropyUnavailable x, s\<lparr>st_os := (st_os s)\<lparr>os_entropy := xs\<rparr>\<rparr>))"

definition cron_key :: "bytes \<Rightarrow> bytes" where
  "cron_key i = CRON_PREFIX @ i"

definition encode_optional :: "i64 option \<Rightarrow> bytes" where
  "encode_optional v = (case v of Some x \<Rightarrow> [1] @ to_le x | None \<Rightarrow> [0])"

definition cs_encode_job_spec :: "job_spec \<Rightarrow> cron_scheduler_error + bytes" where
  "cs_encode_job_spec spec =
     res_bind (cs_write_bytes (js_handler spec)) (\<lambda>handler.
     res_bind (cs_write_bytes (js_payload spec)) (\<lambda>payload.
     res_bind (case js_idempotency_key spec of
                 Some v \<Rightarrow> res_bind (cs_write_bytes v) (\<lambda>key. Inr ([1] @ key))
               | None \<Rightarrow> Inr [0]) (\<lambda>key.
       Inr (handler @ payload @ to_le (js_available_at_ms spec) @ encode_optional (js_deadline_ms spec) @
            to_le (js_priority spec) @ to_le (js_max_attempts spec) @ to_le (js_retry_backoff_ms spec) @ key))))"

definition cs_encode_schedule :: "durable_cron \<Rightarrow> cron_scheduler_error + bytes" where
  "cs_encode_schedule sc =
     res_bind (cs_write_bytes (cs_expression sc)) (\<lambda>expression.
     res_bind (cs_encode_job_spec (cs_job sc)) (\<lambda>job.
       Inr ([CRON_VERSION] @ cs_id sc @ expression @ job @ to_le (cs_next_run_ms sc) @
            [if cs_enabled sc then 1 else 0] @ to_le (cs_fire_count sc) @ encode_optional (cs_last_fired_at_ms sc))))"

text \<open>The module's \<open>Cursor\<close>.\<close>

definition cs_take :: "nat \<Rightarrow> (cron_scheduler_error, bytes) reader" where
  "cs_take = rd_take CsCorruptRecord"

definition cs_u8 :: "(cron_scheduler_error, u8) reader" where
  "cs_u8 = rd_u8 CsCorruptRecord"

definition cs_u32 :: "(cron_scheduler_error, u32) reader" where
  "cs_u32 = rd_u32 CsCorruptRecord"

definition cs_i32 :: "(cron_scheduler_error, i32) reader" where
  "cs_i32 = rd_u32 CsCorruptRecord"

definition cs_u64 :: "(cron_scheduler_error, u64) reader" where
  "cs_u64 = rd_u64 CsCorruptRecord"

definition cs_i64 :: "(cron_scheduler_error, i64) reader" where
  "cs_i64 = rd_u64 CsCorruptRecord"

definition cs_array_16 :: "(cron_scheduler_error, bytes) reader" where
  "cs_array_16 = cs_take 16"

definition cs_bytes :: "(cron_scheduler_error, bytes) reader" where
  "cs_bytes = rd_bytes CsCorruptRecord"

lemmas cs_cursor = cs_take_def cs_u8_def cs_u32_def cs_i32_def cs_u64_def cs_i64_def cs_array_16_def cs_bytes_def

definition cs_optional :: "(cron_scheduler_error, 'a) reader \<Rightarrow> (cron_scheduler_error, 'a option) reader" where
  "cs_optional rd = rd_bind cs_u8 (\<lambda>b.
     if b = 0 then rd_return None
     else if b = 1 then rd_bind rd (\<lambda>v. rd_return (Some v))
     else rd_fail CsCorruptRecord)"

definition cs_bool :: "(cron_scheduler_error, bool) reader" where
  "cs_bool = rd_bind cs_u8 (\<lambda>b. if b = 0 then rd_return False else if b = 1 then rd_return True else rd_fail CsCorruptRecord)"

definition cs_decode_job_spec :: "(cron_scheduler_error, job_spec) reader" where
  "cs_decode_job_spec =
     rd_bind cs_bytes (\<lambda>handler. rd_bind cs_bytes (\<lambda>payload. rd_bind cs_i64 (\<lambda>available.
     rd_bind (cs_optional cs_i64) (\<lambda>deadline. rd_bind cs_i32 (\<lambda>priority. rd_bind cs_u32 (\<lambda>attempts.
     rd_bind cs_u64 (\<lambda>backoff. rd_bind (cs_optional cs_bytes) (\<lambda>key.
       rd_return \<lparr>js_handler = handler, js_payload = payload, js_available_at_ms = available, js_deadline_ms = deadline,
         js_priority = priority, js_max_attempts = attempts, js_retry_backoff_ms = backoff, js_idempotency_key = key\<rparr>))))))))"

definition parse_expression :: "bytes \<Rightarrow> cron_scheduler_error + cron_expression" where
  "parse_expression bs = res_bind (ok_or CsInvalidUtf8 (from_utf8 bs)) (\<lambda>text. map_err CsCron (cron_parse text))"

definition cs_decode_schedule :: "bytes \<Rightarrow> cron_scheduler_error + durable_cron" where
  "cs_decode_schedule bs =
     res_bind
       (rd_bind cs_u8 (\<lambda>version.
        if version \<noteq> CRON_VERSION then rd_fail CsCorruptRecord
        else rd_bind cs_array_16 (\<lambda>i. rd_bind cs_bytes (\<lambda>expression. rd_bind cs_decode_job_spec (\<lambda>job.
             rd_bind cs_i64 (\<lambda>next_run. rd_bind cs_bool (\<lambda>enabled. rd_bind cs_u64 (\<lambda>fire_count.
             rd_bind (cs_optional cs_i64) (\<lambda>last_fired.
               rd_return \<lparr>cs_id = i, cs_expression = expression, cs_job = job, cs_next_run_ms = next_run,
                 cs_enabled = enabled, cs_fire_count = fire_count, cs_last_fired_at_ms = last_fired\<rparr>)))))))) bs)
       (\<lambda>(sc, rest). if rest \<noteq> [] then Inl CsCorruptRecord
         else res_bind (parse_expression (cs_expression sc)) (\<lambda>_.
              res_bind (cs_validate_job (cs_job sc)) (\<lambda>_. Inr sc)))"

definition put_schedule :: "deps \<Rightarrow> bytes \<Rightarrow> durable_cron \<Rightarrow> (store, cron_scheduler_error, unit) act" where
  "put_schedule D i sc =
     act_bind (act_lift (cs_encode_schedule sc)) (\<lambda>bs. act_map_err CsStore (store_put_internal D (cron_key i) bs))"

definition create_cron_schedule ::
  "deps \<Rightarrow> rust_str \<Rightarrow> job_spec \<Rightarrow> i64 \<Rightarrow> (store, cron_scheduler_error, bytes) act" where
  "create_cron_schedule D expression job after_ms =
     act_bind (act_lift (cs_validate_job job)) (\<lambda>_.
     act_bind (act_lift (map_err CsCron (cron_parse expression))) (\<lambda>cron.
     act_bind cs_random_id (\<lambda>i.
     act_bind (act_lift (map_err CsCron (next_after_utc_ms cron after_ms))) (\<lambda>next_run.
     act_bind (put_schedule D i \<lparr>cs_id = i, cs_expression = as_bytes expression, cs_job = job, cs_next_run_ms = next_run,
       cs_enabled = True, cs_fire_count = 0, cs_last_fired_at_ms = None\<rparr>) (\<lambda>_. act_return i)))))"

definition get_cron_schedule :: "store \<Rightarrow> bytes \<Rightarrow> cron_scheduler_error + durable_cron option" where
  "get_cron_schedule s i = transpose_map cs_decode_schedule (store_get s (cron_key i))"

definition list_cron_schedules :: "store \<Rightarrow> cron_scheduler_error + durable_cron list" where
  "list_cron_schedules s =
     res_bind (map_result (\<lambda>(_, v). cs_decode_schedule v) (scan_prefix s CRON_PREFIX)) (\<lambda>schedules.
       Inr (sort_key (\<lambda>sc. sint (cs_next_run_ms sc)) schedules))"

definition set_cron_schedule_enabled :: "deps \<Rightarrow> bytes \<Rightarrow> bool \<Rightarrow> (store, cron_scheduler_error, bool) act" where
  "set_cron_schedule_enabled D i enabled =
     act_bind (\<lambda>s. (get_cron_schedule s i, s)) (\<lambda>r. case r of
       None \<Rightarrow> act_return False
     | Some sc \<Rightarrow> act_bind (put_schedule D i (sc\<lparr>cs_enabled := enabled\<rparr>)) (\<lambda>_. act_return True))"

definition occurrence_spec :: "durable_cron \<Rightarrow> job_spec" where
  "occurrence_spec sc = (cs_job sc)\<lparr>js_available_at_ms := cs_next_run_ms sc,
     js_idempotency_key := Some (occurrence_key (cs_id sc) (cs_next_run_ms sc))\<rparr>"

text \<open>The body of the tick's loop, for a schedule that is due.\<close>

definition fire_cron :: "deps \<Rightarrow> i64 \<Rightarrow> durable_cron \<Rightarrow> (store, cron_scheduler_error, unit) act" where
  "fire_cron D now sc =
     act_bind (act_lift (parse_expression (cs_expression sc))) (\<lambda>cron.
     act_bind (act_map_err CsJob (submit_job D (occurrence_spec sc) now)) (\<lambda>_.
     act_bind (act_lift (ok_or CsFireCountOverflow (checked_add (cs_fire_count sc) 1))) (\<lambda>fire_count.
     act_bind (act_lift (map_err CsCron (next_after_utc_ms cron (cs_next_run_ms sc)))) (\<lambda>next_run.
       put_schedule D (cs_id sc) (sc\<lparr>cs_fire_count := fire_count, cs_last_fired_at_ms := Some (cs_next_run_ms sc),
         cs_next_run_ms := next_run\<rparr>)))))"

primrec cron_tick_loop ::
  "deps \<Rightarrow> i64 \<Rightarrow> usize \<Rightarrow> durable_cron list \<Rightarrow> usize \<Rightarrow> (store, cron_scheduler_error, usize) act" where
  "cron_tick_loop D now limit [] fired = act_return fired"
| "cron_tick_loop D now limit (sc # rest) fired =
     (if fired = limit then act_return fired
      else if \<not> cs_enabled sc \<or> sint now < sint (cs_next_run_ms sc) then cron_tick_loop D now limit rest fired
      else act_bind (fire_cron D now sc) (\<lambda>_. cron_tick_loop D now limit rest (fired + 1)))"

definition tick_cron_schedules :: "deps \<Rightarrow> i64 \<Rightarrow> usize \<Rightarrow> (store, cron_scheduler_error, cron_tick_report) act" where
  "tick_cron_schedules D now limit =
     act_bind (\<lambda>s. (list_cron_schedules s, s)) (\<lambda>schedules.
     act_bind (cron_tick_loop D now limit schedules 0) (\<lambda>fired.
       act_return \<lparr>ct_scanned = length schedules, ct_fired = fired\<rparr>))"

section \<open>Format and keys\<close>

definition wf_cron :: "durable_cron \<Rightarrow> bool" where
  "wf_cron sc \<longleftrightarrow> length (cs_id sc) = 16 \<and> cs_validate_job (cs_job sc) = Inr () \<and> (\<exists>c. parse_expression (cs_expression sc) = Inr c)"

lemma cs_write_bytes_Inr:
  "cs_write_bytes v = Inr bs \<longleftrightarrow> (\<exists>l. u32_try_from_len (length v) = Some l \<and> bs = to_le l @ v)"
  by (auto simp: cs_write_bytes_def res_bind_Inr_iff ok_or_Inr_iff)

lemma cs_optional_append [codec_simps]:
  "cs_optional cs_i64 (encode_optional v @ rest) = Inr (v, rest)"
  by (auto simp: cs_optional_def encode_optional_def cs_cursor codec_simps split: option.split)

lemma cs_job_spec_append:
  assumes "cs_encode_job_spec spec = Inr bs"
  shows "cs_decode_job_spec (bs @ rest) = Inr (spec, rest)"
proof -
  from assms obtain h pl kb lh lp where l: "u32_try_from_len (length (js_handler spec)) = Some lh" "u32_try_from_len (length (js_payload spec)) = Some lp"
    and k: "(case js_idempotency_key spec of Some v \<Rightarrow> res_bind (cs_write_bytes v) (\<lambda>key. Inr ([1] @ key)) | None \<Rightarrow> Inr [0]) = Inr kb"
    and bs: "bs = to_le lh @ js_handler spec @ to_le lp @ js_payload spec @ to_le (js_available_at_ms spec) @ encode_optional (js_deadline_ms spec) @
      to_le (js_priority spec) @ to_le (js_max_attempts spec) @ to_le (js_retry_backoff_ms spec) @ kb"
    by (auto simp: cs_encode_job_spec_def res_bind_Inr_iff cs_write_bytes_Inr)
  have key: "cs_optional (rd_bytes CsCorruptRecord) (kb @ rest) = Inr (js_idempotency_key spec, rest)"
    using k by (auto simp: cs_optional_def cs_u8_def codec_simps res_bind_Inr_iff cs_write_bytes_Inr rd_bytes_append split: option.splits)
  have dl: "cs_optional (rd_u64 CsCorruptRecord) (encode_optional v @ r) = Inr (v, r)" for v r
    using cs_optional_append by (simp add: cs_i64_def)
  show ?thesis unfolding cs_decode_job_spec_def bs cs_cursor
    by (simp add: codec_simps rd_bytes_append [OF l(1)] rd_bytes_append [OF l(2)] key dl)
qed

lemma cs_decode_encode:
  assumes wf: "wf_cron sc" and e: "cs_encode_schedule sc = Inr bs"
  shows "cs_decode_schedule bs = Inr sc"
proof -
  from e obtain le job where l: "u32_try_from_len (length (cs_expression sc)) = Some le" "cs_encode_job_spec (cs_job sc) = Inr job"
    and bs: "bs = CRON_VERSION # cs_id sc @ to_le le @ cs_expression sc @ job @ to_le (cs_next_run_ms sc) @
      (if cs_enabled sc then 1 else 0) # to_le (cs_fire_count sc) @ encode_optional (cs_last_fired_at_ms sc) @ []"
    by (auto simp: cs_encode_schedule_def res_bind_Inr_iff cs_write_bytes_Inr)
  have w: "length (cs_id sc) = 16" "cs_validate_job (cs_job sc) = Inr ()" using wf by (simp_all add: wf_cron_def)
  obtain c where c: "parse_expression (cs_expression sc) = Inr c" using wf by (auto simp: wf_cron_def)
  have b: "cs_bool ((if cs_enabled sc then 1 else 0) # rest) = Inr (cs_enabled sc, rest)" for rest
    by (simp add: cs_bool_def cs_u8_def codec_simps)
  have o: "cs_optional (rd_u64 CsCorruptRecord) (encode_optional v @ r) = Inr (v, r)" for v r
    using cs_optional_append by (simp add: cs_i64_def)
  show ?thesis unfolding cs_decode_schedule_def bs cs_cursor
    by (simp add: codec_simps rd_bytes_append [OF l(1)] cs_job_spec_append [OF l(2)] w b o c del: append_Nil2)
qed

lemma cs_decode_wf: "cs_decode_schedule bs = Inr sc \<Longrightarrow> wf_cron sc"
  by (auto simp: cs_decode_schedule_def wf_cron_def cs_cursor res_bind_Inr_iff rd_bind_def rd_take_def rd_return_def rd_fail_def
      split: sum.splits prod.splits if_splits)

interpretation cron_codec: codec cs_encode_schedule cs_decode_schedule wf_cron
  by unfold_locales (rule cs_decode_encode)

lemma cron_key_simps [simp]: "prefix CRON_PREFIX (cron_key i)" "cron_key i = cron_key j \<longleftrightarrow> i = j"
  by (simp_all add: cron_key_def)

lemma cron_space:
  assumes "prefix CRON_PREFIX k"
  shows "not_cdc k" and "\<not> prefix JOB_PREFIX k" and "\<not> prefix HISTORY_PREFIX k"
  by (rule other_space [OF _ _ assms]; simp add: CRON_PREFIX_def CDC_PREFIX_def JOB_PREFIX_def HISTORY_PREFIX_def ascii_def)+

interpretation cron_store: object_space store_get "store_put_internal D" "store_delete_internal D" not_cdc
  cs_encode_schedule cs_decode_schedule wf_cron cron_key "\<lambda>_. True"
  by unfold_locales (simp_all add: cron_space(1))

section \<open>Effects\<close>

lemma submit_job_frame:
  assumes "submit_job D spec now s = (r, s')" and "prefix CRON_PREFIX k"
  shows "store_get s' k = store_get s k" and "store_wf s \<Longrightarrow> store_wf s'"
proof -
  have "store_get s' k = store_get s k \<and> (store_wf s \<longrightarrow> store_wf s')"
  proof -
    have "s' = s \<or> act_bind (build_job spec) (\<lambda>j. run_tx D True JStore (submit_body D j now)) s = (r, s')"
      using assms(1) unfolding submit_job_def
      by (auto simp: act_bind_def act_lift_def act_return_def split: sum.splits option.splits)
    moreover obtain b s1 where b: "build_job spec s = (b, s1)" by fastforce
    ultimately consider "s' = s" | j where "b = Inr j" "run_tx D True JStore (submit_body D j now) s1 = (r, s')" | e where "b = Inl e" "s1 = s'"
      by (cases b) (auto simp: act_bind_def)
    then show ?thesis
    proof cases
      case 2
      then have s1: "s1 = drawn s" using build_job_cases [OF b] by simp
      note run = 2(2) [unfolded s1]
      have st: "staging (submit_body D j now)" by (intro staging_intros)
      show ?thesis
      proof (cases r)
        case (Inl e)
        then show ?thesis using run_tx_fail_get [OF st] run_tx_wf [OF st _ run] run by auto
      next
        case (Inr i)
        obtain jb hb where "\<And>k. not_cdc k \<Longrightarrow> store_get s' k = (if k = history_key (j_id j) 0 then Some hb
            else if k = job_key (j_id j) then Some jb else store_get (drawn s) k)"
          using submit_body_Inr [OF run [unfolded Inr]] by metis
        then show ?thesis
          using cron_space [OF assms(2)] run_tx_wf [OF st _ run] job_key_simps by auto
      qed
    next
      case 3
      then show ?thesis using build_job_cases [OF b] by auto
    qed simp
  qed
  then show "store_get s' k = store_get s k" and "store_wf s \<Longrightarrow> store_wf s'" by auto
qed

section \<open>The invariant\<close>

text \<open>Every stored schedule is well formed and waits for a minute that its expression matches.\<close>

definition on_schedule :: "durable_cron \<Rightarrow> bool" where
  "on_schedule sc \<longleftrightarrow> (\<exists>c. parse_expression (cs_expression sc) = Inr c \<and> matches_utc_ms c (cs_next_run_ms sc))"

definition cron_inv :: "store \<Rightarrow> bool" where
  "cron_inv s \<longleftrightarrow> store_wf s \<and> (\<forall>k v. prefix CRON_PREFIX k \<longrightarrow> store_get s k = Some v \<longrightarrow>
     (\<exists>sc. cs_decode_schedule v = Inr sc \<and> k = cron_key (cs_id sc) \<and> on_schedule sc))"

lemma cron_inv_cong:
  assumes "cron_inv s" and "store_wf s'" and "\<And>k. prefix CRON_PREFIX k \<Longrightarrow> store_get s' k = store_get s k"
  shows "cron_inv s'"
  using assms unfolding cron_inv_def by metis

lemma get_cron_cong: "store_get s' (cron_key i) = store_get s (cron_key i) \<Longrightarrow> get_cron_schedule s' i = get_cron_schedule s i"
  by (simp add: get_cron_schedule_def)

lemma get_cron_Some:
  assumes inv: "cron_inv s" and g: "get_cron_schedule s i = Inr (Some sc)"
  shows "cs_id sc = i" and "wf_cron sc" and "on_schedule sc"
proof -
  obtain v where v: "store_get s (cron_key i) = Some v" "cs_decode_schedule v = Inr sc"
    using g by (auto simp: get_cron_schedule_def transpose_map_Inr_Some)
  with inv obtain sc' where "cs_decode_schedule v = Inr sc'" "cron_key i = cron_key (cs_id sc')" "on_schedule sc'"
    unfolding cron_inv_def by (metis cron_key_simps(1))
  then show "cs_id sc = i" "on_schedule sc" using v by auto
  show "wf_cron sc" by (rule cs_decode_wf [OF v(2)])
qed

lemma put_schedule_effect:
  assumes inv: "cron_inv s" and wf: "wf_cron sc" "on_schedule sc" "cs_id sc = i" and p: "put_schedule D i sc s = (r, s')"
  shows "cron_inv s'" and "j \<noteq> i \<Longrightarrow> get_cron_schedule s' j = get_cron_schedule s j"
    and "get_cron_schedule s' i = (case r of Inl e \<Rightarrow> get_cron_schedule s i | Inr u \<Rightarrow> Inr (Some sc))"
    and "not_cdc k \<Longrightarrow> \<not> prefix CRON_PREFIX k \<Longrightarrow> store_get s' k = store_get s k"
proof -
  have "cron_inv s' \<and> (\<forall>j. j \<noteq> i \<longrightarrow> get_cron_schedule s' j = get_cron_schedule s j) \<and>
    get_cron_schedule s' i = (case r of Inl e \<Rightarrow> get_cron_schedule s i | Inr u \<Rightarrow> Inr (Some sc)) \<and>
    (\<forall>k. not_cdc k \<longrightarrow> \<not> prefix CRON_PREFIX k \<longrightarrow> store_get s' k = store_get s k)"
  proof (cases "cs_encode_schedule sc")
    case (Inl e)
    then show ?thesis using p inv by (auto simp: put_schedule_def act_lift_def act_bind_def)
  next
    case (Inr bs)
    obtain q where q: "store_put_internal D (cron_key i) bs s = (q, s')" "r = map_err CsStore q"
      using p Inr by (auto simp: put_schedule_def act_map_err_def split: prod.splits)
    have w: "store_wf s'" using store_put_internal_wf [OF _ q(1)] inv by (simp add: cron_inv_def)
    show ?thesis
    proof (cases q)
      case (Inl e)
      have g: "store_get s' k = store_get s k" for k by (rule put_internal_fail [OF q(1) [unfolded Inl]])
      have "get_cron_schedule s' j = get_cron_schedule s j" for j by (rule get_cron_cong [OF g])
      then show ?thesis using cron_inv_cong [OF inv w g] q(2) Inl g by simp
    next
      case (Inr u)
      note g = store_put_internal_get [OF q(1) [unfolded Inr]]
      note d = cs_decode_encode [OF wf(1) \<open>cs_encode_schedule sc = Inr bs\<close>]
      have "cron_inv s'" unfolding cron_inv_def
      proof (intro conjI allI impI w)
        fix k v
        assume k: "prefix CRON_PREFIX k" "store_get s' k = Some v"
        then have "store_get s' k = (if k = cron_key i then Some bs else store_get s k)" using g cron_space(1) by blast
        then show "\<exists>sc. cs_decode_schedule v = Inr sc \<and> k = cron_key (cs_id sc) \<and> on_schedule sc"
          using inv k d wf unfolding cron_inv_def by (auto split: if_splits)
      qed
      moreover have "get_cron_schedule s' j = (if j = i then Inr (Some sc) else get_cron_schedule s j)" for j
        using g [OF cron_space(1) [OF cron_key_simps(1)], of j] d by (simp add: get_cron_schedule_def)
      moreover have "store_get s' k = store_get s k" if "not_cdc k" "\<not> prefix CRON_PREFIX k" for k
        using g [OF that(1)] that(2) cron_key_simps(1) by metis
      ultimately show ?thesis using q(2) Inr by simp
    qed
  qed
  then show "cron_inv s'" "j \<noteq> i \<Longrightarrow> get_cron_schedule s' j = get_cron_schedule s j"
    "get_cron_schedule s' i = (case r of Inl e \<Rightarrow> get_cron_schedule s i | Inr u \<Rightarrow> Inr (Some sc))"
    "not_cdc k \<Longrightarrow> \<not> prefix CRON_PREFIX k \<Longrightarrow> store_get s' k = store_get s k" by auto
qed

section \<open>Firing\<close>

definition cron_due :: "i64 \<Rightarrow> durable_cron \<Rightarrow> bool" where
  "cron_due now sc \<longleftrightarrow> cs_enabled sc \<and> sint (cs_next_run_ms sc) \<le> sint now"

definition advanced :: "durable_cron \<Rightarrow> durable_cron \<Rightarrow> bool" where
  "advanced sc sc' \<longleftrightarrow> (\<exists>c n. parse_expression (cs_expression sc) = Inr c \<and> first_match_after c (cs_next_run_ms sc) n \<and>
     cs_fire_count sc < cs_fire_count sc + 1 \<and>
     sc' = sc\<lparr>cs_fire_count := cs_fire_count sc + 1, cs_last_fired_at_ms := Some (cs_next_run_ms sc), cs_next_run_ms := n\<rparr>)"

lemma advanced_ok: "advanced sc sc' \<Longrightarrow> wf_cron sc \<Longrightarrow> wf_cron sc' \<and> on_schedule sc' \<and> cs_id sc' = cs_id sc"
  by (auto simp: advanced_def wf_cron_def on_schedule_def first_match_after_def)

lemma fire_cron_steps:
  assumes "fire_cron D now sc s = (r, s')"
  obtains (early) e where "r = Inl e" "s' = s"
    | (submitted) r1 s1 e where "submit_job D (occurrence_spec sc) now s = (r1, s1)" "r = Inl e" "s' = s1"
    | (moved) i s1 sc' where "submit_job D (occurrence_spec sc) now s = (Inr i, s1)" "advanced sc sc'"
        "put_schedule D (cs_id sc) sc' s1 = (r, s')"
proof (cases "parse_expression (cs_expression sc)")
  case (Inl e)
  then show ?thesis using assms early by (auto simp: fire_cron_def act_bind_def act_lift_def)
next
  case (Inr c)
  obtain r1 s1 where s1: "submit_job D (occurrence_spec sc) now s = (r1, s1)" by fastforce
  show ?thesis
  proof (cases r1)
    case (Inl e)
    then show ?thesis using assms Inr s1 submitted by (auto simp: fire_cron_def act_bind_def act_lift_def act_map_err_def)
  next
    case (Inr i)
    note I = this
    show ?thesis
    proof (cases "checked_add (cs_fire_count sc) 1")
      case None
      then show ?thesis using assms \<open>parse_expression _ = Inr c\<close> s1 I submitted
        by (auto simp: fire_cron_def act_bind_def act_lift_def act_map_err_def)
    next
      case (Some n)
      then have n: "n = cs_fire_count sc + 1" "cs_fire_count sc < cs_fire_count sc + 1"
        using checked_add_Some [OF Some] by (auto simp: word_less_nat_alt)
      show ?thesis
      proof (cases "next_after_utc_ms c (cs_next_run_ms sc)")
        case (Inl e)
        then show ?thesis using assms \<open>parse_expression _ = Inr c\<close> s1 I Some submitted
          by (auto simp: fire_cron_def act_bind_def act_lift_def act_map_err_def)
      next
        case (Inr m)
        let ?sc = "sc\<lparr>cs_fire_count := n, cs_last_fired_at_ms := Some (cs_next_run_ms sc), cs_next_run_ms := m\<rparr>"
        have "advanced sc ?sc" using \<open>parse_expression _ = Inr c\<close> next_after_first [OF Inr] n by (auto simp: advanced_def)
        moreover have "put_schedule D (cs_id sc) ?sc s1 = (r, s')"
          using assms \<open>parse_expression _ = Inr c\<close> s1 I Some Inr by (simp add: fire_cron_def act_bind_def act_lift_def act_map_err_def)
        ultimately show ?thesis using moved s1 I by blast
      qed
    qed
  qed
qed

lemma fire_cron_effect:
  assumes inv: "cron_inv s" and g: "get_cron_schedule s (cs_id sc) = Inr (Some sc)" and f: "fire_cron D now sc s = (r, s')"
  shows "cron_inv s'" and "j \<noteq> cs_id sc \<Longrightarrow> get_cron_schedule s' j = get_cron_schedule s j"
    and "case r of Inl e \<Rightarrow> get_cron_schedule s' (cs_id sc) = Inr (Some sc)
      | Inr u \<Rightarrow> (\<exists>sc'. get_cron_schedule s' (cs_id sc) = Inr (Some sc') \<and> advanced sc sc')"
proof -
  have sub: "cron_inv s1" "\<And>j. get_cron_schedule s1 j = get_cron_schedule s j" if "submit_job D (occurrence_spec sc) now s = (r1, s1)" for r1 s1
  proof -
    have fr: "store_get s1 k = store_get s k" if "prefix CRON_PREFIX k" for k
      by (rule submit_job_frame(1) [OF \<open>submit_job D _ now s = _\<close> that])
    have "store_wf s1" using submit_job_frame(2) [OF that cron_key_simps(1) [of "cs_id sc"]] inv by (simp add: cron_inv_def)
    then show "cron_inv s1" by (rule cron_inv_cong [OF inv _ fr])
    show "get_cron_schedule s1 j = get_cron_schedule s j" for j by (rule get_cron_cong) (simp add: fr)
  qed
  have "cron_inv s' \<and> (\<forall>j. j \<noteq> cs_id sc \<longrightarrow> get_cron_schedule s' j = get_cron_schedule s j) \<and>
    (case r of Inl e \<Rightarrow> get_cron_schedule s' (cs_id sc) = Inr (Some sc)
      | Inr u \<Rightarrow> (\<exists>sc'. get_cron_schedule s' (cs_id sc) = Inr (Some sc') \<and> advanced sc sc'))"
    using f
  proof (cases rule: fire_cron_steps)
    case (early e)
    then show ?thesis using inv g by simp
  next
    case (submitted r1 s1 e)
    then show ?thesis using sub [OF submitted(1)] g by simp
  next
    case (moved i s1 sc')
    note S = sub [OF moved(1)]
    have "wf_cron sc'" "on_schedule sc'" "cs_id sc' = cs_id sc" using advanced_ok [OF moved(2) get_cron_Some(2) [OF inv g]] by auto
    note P = put_schedule_effect [OF S(1) this moved(3)]
    show ?thesis using P(1) P(2) P(3) S(2) g moved(2) by (cases r) auto
  qed
  then show "cron_inv s'" and "j \<noteq> cs_id sc \<Longrightarrow> get_cron_schedule s' j = get_cron_schedule s j"
    and "case r of Inl e \<Rightarrow> get_cron_schedule s' (cs_id sc) = Inr (Some sc)
      | Inr u \<Rightarrow> (\<exists>sc'. get_cron_schedule s' (cs_id sc) = Inr (Some sc') \<and> advanced sc sc')" by auto
qed

text \<open>What one firing does to the jobs: nothing while a job of the occurrence is ready or leased,
  otherwise it files one.\<close>

definition occurrence_active :: "store \<Rightarrow> durable_cron \<Rightarrow> bool" where
  "occurrence_active s sc \<longleftrightarrow> (\<exists>i j. jobs s i = Some j \<and> (j_state j = JReady \<or> j_state j = JLeased) \<and>
     j_idempotency_key j = Some (occurrence_key (cs_id sc) (cs_next_run_ms sc)))"

lemma put_schedule_jobs:
  assumes "put_schedule D i sc s = (r, s')"
  shows "jobs s' = jobs s"
proof -
  have vis: "not_cdc (job_key j)" "job_key j \<noteq> cron_key i" for j
    using job_spaces(1) [OF job_key_simps(1)] cron_space(2) [OF cron_key_simps(1)] job_key_simps(1) by metis+
  have "store_get s' (job_key j) = store_get s (job_key j)" for j
  proof (cases "cs_encode_schedule sc")
    case (Inl e)
    then show ?thesis using assms by (simp add: put_schedule_def act_lift_def act_bind_def)
  next
    case (Inr bs)
    obtain q where q: "store_put_internal D (cron_key i) bs s = (q, s')"
      using assms Inr by (auto simp: put_schedule_def act_map_err_def split: prod.splits)
    then show ?thesis using put_internal_fail [of D "cron_key i" bs s] store_put_internal_get [of D "cron_key i" bs s _ s' "job_key j"] vis [of j]
      by (cases q) auto
  qed
  then show ?thesis by (simp add: jobs_def get_job_def fun_eq_iff)
qed

lemma occurrence_spec_valid:
  assumes "wf_cron sc"
  shows "validate_job_spec (occurrence_spec sc) = Inr ()"
  using assms by (auto simp: wf_cron_def cs_validate_job_def validate_job_spec_def occurrence_spec_def split: if_splits)

lemma fire_cron_jobs:
  assumes inv: "job_inv s" and wf: "wf_cron sc" and f: "fire_cron D now sc s = (Inr u, s')" and len: "\<And>x. next_id s = Some x \<Longrightarrow> length x = 16"
  shows "if occurrence_active s sc then jobs s' = jobs s
    else \<exists>i. next_id s = Some i \<and> jobs s' = (jobs s)(i \<mapsto> stored_job (new_job i (occurrence_spec sc)))"
  using f
proof (cases rule: fire_cron_steps)
  case (moved i s1 sc')
  have p: "jobs s' = jobs s1" by (rule put_schedule_jobs [OF moved(3)])
  have key: "js_idempotency_key (occurrence_spec sc) = Some (occurrence_key (cs_id sc) (cs_next_run_ms sc))" by (simp add: occurrence_spec_def)
  show ?thesis
  proof (cases "occurrence_active s sc")
    case True
    then obtain i0 j0 where "jobs s i0 = Some j0" "j_state j0 = JReady \<or> j_state j0 = JLeased"
      "j_idempotency_key j0 = Some (occurrence_key (cs_id sc) (cs_next_run_ms sc))" by (auto simp: occurrence_active_def)
    from submit_job_existing [OF inv this key occurrence_spec_valid [OF wf], of D now] moved(1) show ?thesis using True p by auto
  next
    case False
    then show ?thesis using submit_job_cases [OF inv moved(1) len] key p by (auto simp: occurrence_active_def)
  qed
qed auto

section \<open>A tick over all schedules\<close>

lemma cron_tick_loop_spec:
  assumes "cron_inv s" and "distinct (map cs_id scs)" and "\<forall>sc \<in> set scs. get_cron_schedule s (cs_id sc) = Inr (Some sc)"
    and "cron_tick_loop D now limit scs fired s = (r, s')"
  shows "cron_inv s' \<and> (\<forall>j. j \<notin> cs_id ` set scs \<longrightarrow> get_cron_schedule s' j = get_cron_schedule s j) \<and>
    (\<forall>sc \<in> set scs. get_cron_schedule s' (cs_id sc) = Inr (Some sc) \<or>
       cron_due now sc \<and> (\<exists>sc'. get_cron_schedule s' (cs_id sc) = Inr (Some sc') \<and> advanced sc sc')) \<and>
    (\<forall>n. r = Inr n \<longrightarrow> fired \<le> n \<and> (fired \<le> limit \<longrightarrow> n \<le> limit) \<and> (n < limit \<longrightarrow>
       (\<forall>sc \<in> set scs. cron_due now sc \<longrightarrow> (\<exists>sc'. get_cron_schedule s' (cs_id sc) = Inr (Some sc') \<and> advanced sc sc'))))"
  using assms
proof (induction scs arbitrary: fired s)
  case Nil
  then show ?case by (auto simp: act_return_def)
next
  case (Cons sc scs)
  have g: "get_cron_schedule s (cs_id sc) = Inr (Some sc)" using Cons.prems(3) by simp
  show ?case
  proof (cases "fired = limit")
    case True
    then show ?thesis using Cons.prems by (auto simp: act_return_def)
  next
    case False
    show ?thesis
    proof (cases "cron_due now sc")
      case False
      then have "cron_tick_loop D now limit scs fired s = (r, s')"
        using Cons.prems(4) \<open>fired \<noteq> limit\<close> by (auto simp: cron_due_def split: if_splits)
      from Cons.IH [OF Cons.prems(1) _ _ this] Cons.prems(2,3) False g show ?thesis by auto
    next
      case True
      obtain f s1 where f: "fire_cron D now sc s = (f, s1)" by fastforce
      note F = fire_cron_effect [OF Cons.prems(1) g f]
      have rest: "\<forall>sc' \<in> set scs. get_cron_schedule s1 (cs_id sc') = Inr (Some sc')"
        using Cons.prems(2,3) F(2) by (auto simp: image_iff)
      show ?thesis
      proof (cases f)
        case (Inl e)
        then have "r = Inl e" "s' = s1" using Cons.prems(4) \<open>fired \<noteq> limit\<close> True f by (auto simp: cron_due_def act_bind_def split: if_splits)
        then show ?thesis using F Inl rest by auto
      next
        case (Inr u)
        then have l: "cron_tick_loop D now limit scs (fired + 1) s1 = (r, s')"
          using Cons.prems(4) \<open>fired \<noteq> limit\<close> True f by (auto simp: cron_due_def act_bind_def split: if_splits)
        from F(3) Inr obtain sc' where sc': "get_cron_schedule s1 (cs_id sc) = Inr (Some sc')" "advanced sc sc'" by auto
        have "distinct (map cs_id scs)" "cs_id sc \<notin> cs_id ` set scs" using Cons.prems(2) by auto
        with Cons.IH [OF F(1) this(1) rest l] F(2) sc' True \<open>fired \<noteq> limit\<close> show ?thesis by auto
      qed
    qed
  qed
qed

lemma list_cron_schedules_Inr:
  assumes inv: "cron_inv s" and l: "list_cron_schedules s = Inr scs"
  shows "distinct (map cs_id scs)" and "sc \<in> set scs \<longleftrightarrow> get_cron_schedule s (cs_id sc) = Inr (Some sc)"
proof -
  have w: "store_wf s" using inv by (simp add: cron_inv_def)
  obtain xs where xs: "map_result (\<lambda>(_, v). cs_decode_schedule v) (scan_prefix s CRON_PREFIX) = Inr xs"
    and scs: "scs = sort_key (\<lambda>sc. sint (cs_next_run_ms sc)) xs"
    using l by (auto simp: list_cron_schedules_def res_bind_Inr_iff)
  then have len: "length xs = length (scan_prefix s CRON_PREFIX)"
    and nth: "\<And>n. n < length xs \<Longrightarrow> cs_decode_schedule (snd (scan_prefix s CRON_PREFIX ! n)) = Inr (xs ! n)"
    by (auto simp: map_result_Inr_iff list_all2_conv_all_nth case_prod_unfold)
  have key: "fst (scan_prefix s CRON_PREFIX ! n) = cron_key (cs_id (xs ! n))" "store_get s (cron_key (cs_id (xs ! n))) = Some (snd (scan_prefix s CRON_PREFIX ! n))"
    if "n < length xs" for n
  proof -
    have "scan_prefix s CRON_PREFIX ! n \<in> set (scan_prefix s CRON_PREFIX)" using that len by simp
    then have "prefix CRON_PREFIX (fst (scan_prefix s CRON_PREFIX ! n))" "store_get s (fst (scan_prefix s CRON_PREFIX ! n)) = Some (snd (scan_prefix s CRON_PREFIX ! n))"
      using in_scan_prefix_iff [OF w] by (metis prod.collapse)+
    then show "fst (scan_prefix s CRON_PREFIX ! n) = cron_key (cs_id (xs ! n))" "store_get s (cron_key (cs_id (xs ! n))) = Some (snd (scan_prefix s CRON_PREFIX ! n))"
      using inv nth [OF that] unfolding cron_inv_def by (metis Inr_inject)+
  qed
  have "map fst (scan_prefix s CRON_PREFIX) = map cron_key (map cs_id xs)" by (rule nth_equalityI) (use len key in auto)
  then have "distinct (map cron_key (map cs_id xs))" using strict_sorted_scan [OF w, of CRON_PREFIX] by (metis strict_sorted_iff)
  then have "distinct (map cs_id xs)" by (rule distinct_map [THEN iffD1, THEN conjunct1])
  then show "distinct (map cs_id scs)" unfolding scs by (metis distinct_map distinct_sort set_sort)
  show "sc \<in> set scs \<longleftrightarrow> get_cron_schedule s (cs_id sc) = Inr (Some sc)"
  proof
    assume "sc \<in> set scs"
    then obtain n where "n < length xs" "sc = xs ! n" unfolding scs by (auto simp: in_set_conv_nth)
    then show "get_cron_schedule s (cs_id sc) = Inr (Some sc)" using key(2) nth by (simp add: get_cron_schedule_def)
  next
    assume "get_cron_schedule s (cs_id sc) = Inr (Some sc)"
    then obtain v where v: "store_get s (cron_key (cs_id sc)) = Some v" "cs_decode_schedule v = Inr sc"
      by (auto simp: get_cron_schedule_def transpose_map_Inr_Some)
    then have "(cron_key (cs_id sc), v) \<in> set (scan_prefix s CRON_PREFIX)" using in_scan_prefix_iff [OF w] by simp
    then obtain n where "n < length xs" "scan_prefix s CRON_PREFIX ! n = (cron_key (cs_id sc), v)" using len by (auto simp: in_set_conv_nth)
    then have "xs ! n = sc" "n < length xs" using nth [of n] v(2) by auto
    then show "sc \<in> set scs" unfolding scs by auto
  qed
qed

theorem tick_cron_spec:
  assumes inv: "cron_inv s" and t: "tick_cron_schedules D now limit s = (r, s')"
  shows "cron_inv s'"
    and "get_cron_schedule s i = Inr (Some sc) \<Longrightarrow> get_cron_schedule s' i = Inr (Some sc) \<or>
      cron_due now sc \<and> (\<exists>sc'. get_cron_schedule s' i = Inr (Some sc') \<and> advanced sc sc')"
    and "r = Inr rep \<Longrightarrow> ct_fired rep \<le> limit"
    and "r = Inr rep \<Longrightarrow> ct_fired rep < limit \<Longrightarrow> get_cron_schedule s i = Inr (Some sc) \<Longrightarrow> cron_due now sc \<Longrightarrow>
      \<exists>sc'. get_cron_schedule s' i = Inr (Some sc') \<and> advanced sc sc'"
proof -
  have "cron_inv s' \<and> (\<forall>i sc. get_cron_schedule s i = Inr (Some sc) \<longrightarrow> get_cron_schedule s' i = Inr (Some sc) \<or>
      cron_due now sc \<and> (\<exists>sc'. get_cron_schedule s' i = Inr (Some sc') \<and> advanced sc sc')) \<and>
    (\<forall>rep. r = Inr rep \<longrightarrow> ct_fired rep \<le> limit \<and> (ct_fired rep < limit \<longrightarrow> (\<forall>i sc. get_cron_schedule s i = Inr (Some sc) \<longrightarrow> cron_due now sc \<longrightarrow>
      (\<exists>sc'. get_cron_schedule s' i = Inr (Some sc') \<and> advanced sc sc'))))"
  proof (cases "list_cron_schedules s")
    case (Inl e)
    then show ?thesis using t inv by (auto simp: tick_cron_schedules_def act_bind_def)
  next
    case (Inr scs)
    note L = list_cron_schedules_Inr [OF inv Inr]
    obtain n where l: "cron_tick_loop D now limit scs 0 s = (n, s')" and r: "\<And>rep. r = Inr rep \<Longrightarrow> n = Inr (ct_fired rep)"
      using t Inr by (auto simp: tick_cron_schedules_def act_bind_def act_return_def split: prod.splits sum.splits)
    have "\<forall>sc \<in> set scs. get_cron_schedule s (cs_id sc) = Inr (Some sc)" using L(2) by blast
    note T = cron_tick_loop_spec [OF inv L(1) this l]
    have mem: "sc \<in> set scs \<and> cs_id sc = i" if "get_cron_schedule s i = Inr (Some sc)" for i sc
      using get_cron_Some(1) [OF inv that] L(2) that by auto
    show ?thesis using T r mem by (intro conjI allI impI) (blast, blast, fastforce, blast)
  qed
  then show "cron_inv s'"
    and "get_cron_schedule s i = Inr (Some sc) \<Longrightarrow> get_cron_schedule s' i = Inr (Some sc) \<or>
      cron_due now sc \<and> (\<exists>sc'. get_cron_schedule s' i = Inr (Some sc') \<and> advanced sc sc')"
    and "r = Inr rep \<Longrightarrow> ct_fired rep \<le> limit"
    and "r = Inr rep \<Longrightarrow> ct_fired rep < limit \<Longrightarrow> get_cron_schedule s i = Inr (Some sc) \<Longrightarrow> cron_due now sc \<Longrightarrow>
      \<exists>sc'. get_cron_schedule s' i = Inr (Some sc') \<and> advanced sc sc'" by blast+
qed

section \<open>Creating and enabling\<close>

lemma cs_random_id_cases:
  assumes "cs_random_id s = (r, s')"
  shows "\<And>k. store_get s' k = store_get s k" and "store_wf s \<Longrightarrow> store_wf s'" and "r = Inr i \<Longrightarrow> next_id s = Some i"
  using assms by (auto simp: cs_random_id_def next_id_def store_get_def store_wf_def ok_or_def split: list.splits option.splits)

lemma create_cron_effect:
  assumes inv: "cron_inv s" and len: "\<And>x. next_id s = Some x \<Longrightarrow> length x = 16" and str: "list_all is_scalar expression"
    and c: "create_cron_schedule D expression job after_ms s = (r, s')"
  shows "cron_inv s'" and "r = Inr i \<Longrightarrow> \<exists>c sc. get_cron_schedule s' i = Inr (Some sc) \<and> cron_parse expression = Inr c \<and>
    first_match_after c after_ms (cs_next_run_ms sc) \<and> cs_enabled sc \<and> cs_job sc = job \<and> cs_fire_count sc = 0"
proof -
  have "cron_inv s' \<and> (\<forall>i. r = Inr i \<longrightarrow> (\<exists>c sc. get_cron_schedule s' i = Inr (Some sc) \<and> cron_parse expression = Inr c \<and>
    first_match_after c after_ms (cs_next_run_ms sc) \<and> cs_enabled sc \<and> cs_job sc = job \<and> cs_fire_count sc = 0))"
  proof (cases "cs_validate_job job")
    case (Inl e)
    then show ?thesis using c inv by (auto simp: create_cron_schedule_def act_bind_def act_lift_def)
  next
    case v: (Inr u)
    show ?thesis
    proof (cases "cron_parse expression")
      case (Inl e)
      then show ?thesis using c inv v by (auto simp: create_cron_schedule_def act_bind_def act_lift_def)
    next
      case p: (Inr cr)
      obtain x s1 where x: "cs_random_id s = (x, s1)" by fastforce
      note X = cs_random_id_cases [OF x]
      have inv1: "cron_inv s1" using inv X(2) by (intro cron_inv_cong [OF inv _ X(1)]) (simp add: cron_inv_def)
      show ?thesis
      proof (cases "\<exists>i n. x = Inr i \<and> next_after_utc_ms cr after_ms = Inr n")
        case False
        then have "s' = s1 \<and> (\<exists>e. r = Inl e)"
          using c v p x by (cases x; cases "next_after_utc_ms cr after_ms") (auto simp: create_cron_schedule_def act_bind_def act_lift_def)
        then show ?thesis using inv1 by auto
      next
        case True
        then obtain i n where i: "x = Inr i" and n: "next_after_utc_ms cr after_ms = Inr n" by blast
        let ?sc = "\<lparr>cs_id = i, cs_expression = as_bytes expression, cs_job = job, cs_next_run_ms = n,
          cs_enabled = True, cs_fire_count = 0, cs_last_fired_at_ms = None\<rparr>"
        have pe: "parse_expression (as_bytes expression) = Inr cr" using p str by (simp add: parse_expression_def from_utf8_as_bytes)
        have ok: "wf_cron ?sc" "on_schedule ?sc" "cs_id ?sc = i"
          using len [OF X(3) [OF i]] v pe next_after_first [OF n] by (auto simp: wf_cron_def on_schedule_def first_match_after_def)
        obtain q where q: "put_schedule D i ?sc s1 = (q, s')" "r = res_bind q (\<lambda>_. Inr i)"
          using c v p x i n by (auto simp: create_cron_schedule_def act_bind_def act_lift_def act_return_def split: prod.splits sum.splits)
        note P = put_schedule_effect [OF inv1 ok q(1)]
        show ?thesis using P(1,3) q(2) p next_after_first [OF n] by (cases q) auto
      qed
    qed
  qed
  then show "cron_inv s'" and "r = Inr i \<Longrightarrow> \<exists>c sc. get_cron_schedule s' i = Inr (Some sc) \<and> cron_parse expression = Inr c \<and>
    first_match_after c after_ms (cs_next_run_ms sc) \<and> cs_enabled sc \<and> cs_job sc = job \<and> cs_fire_count sc = 0" by auto
qed

lemma set_cron_enabled_effect:
  assumes inv: "cron_inv s" and c: "set_cron_schedule_enabled D i b s = (r, s')"
  shows "cron_inv s'" and "j \<noteq> i \<Longrightarrow> get_cron_schedule s' j = get_cron_schedule s j"
    and "r = Inr True \<Longrightarrow> \<exists>sc. get_cron_schedule s i = Inr (Some sc) \<and> get_cron_schedule s' i = Inr (Some (sc\<lparr>cs_enabled := b\<rparr>))"
proof -
  have "cron_inv s' \<and> (\<forall>j. j \<noteq> i \<longrightarrow> get_cron_schedule s' j = get_cron_schedule s j) \<and> (r = Inr True \<longrightarrow>
    (\<exists>sc. get_cron_schedule s i = Inr (Some sc) \<and> get_cron_schedule s' i = Inr (Some (sc\<lparr>cs_enabled := b\<rparr>))))"
  proof (cases "\<exists>sc. get_cron_schedule s i = Inr (Some sc)")
    case False
    then show ?thesis using c inv
      by (cases "get_cron_schedule s i") (auto simp: set_cron_schedule_enabled_def act_bind_def act_return_def split: option.splits)
  next
    case True
    then obtain sc where sc: "get_cron_schedule s i = Inr (Some sc)" by blast
    note G = get_cron_Some [OF inv sc]
    have ok: "wf_cron (sc\<lparr>cs_enabled := b\<rparr>)" "on_schedule (sc\<lparr>cs_enabled := b\<rparr>)" "cs_id (sc\<lparr>cs_enabled := b\<rparr>) = i"
      using G by (simp_all add: wf_cron_def on_schedule_def)
    obtain q where q: "put_schedule D i (sc\<lparr>cs_enabled := b\<rparr>) s = (q, s')" "r = res_bind q (\<lambda>_. Inr True)"
      using c sc by (auto simp: set_cron_schedule_enabled_def act_bind_def act_return_def split: prod.splits sum.splits)
    note P = put_schedule_effect [OF inv ok q(1)]
    show ?thesis using P(1) P(2) P(3) q(2) sc by (cases q) auto
  qed
  then show "cron_inv s'" and "j \<noteq> i \<Longrightarrow> get_cron_schedule s' j = get_cron_schedule s j"
    and "r = Inr True \<Longrightarrow> \<exists>sc. get_cron_schedule s i = Inr (Some sc) \<and> get_cron_schedule s' i = Inr (Some (sc\<lparr>cs_enabled := b\<rparr>))"
    by auto
qed

section \<open>Durability\<close>

lemma keeps_cs_random [keeps_intros]: "keeps (recoverable D) cs_random_id"
  unfolding keeps_def
  by (auto simp: cs_random_id_def recoverable_def durable_def store_log_def file_holds_def counters_ahead_def benign_def split: list.splits)

lemma keeps_fire_cron [keeps_intros]: "keeps (recoverable D) (fire_cron D now sc)"
  unfolding fire_cron_def put_schedule_def by (intro keeps_intros job_ops_keep)

lemma keeps_cron_loop [keeps_intros]: "keeps (recoverable D) (cron_tick_loop D now limit scs fired)"
  by (induction scs arbitrary: fired) (auto intro!: keeps_intros)

lemma keeps_cron:
  "keeps (recoverable D) (create_cron_schedule D expression job after_ms)" "keeps (recoverable D) (set_cron_schedule_enabled D i b)"
  "keeps (recoverable D) (tick_cron_schedules D now limit)"
  unfolding create_cron_schedule_def set_cron_schedule_enabled_def tick_cron_schedules_def put_schedule_def
  by (intro keeps_intros)+

end
