(* ===== verification/Time_Properties.thy ===== *)
theory Time_Properties
  imports Cron_Scheduler Job_Progress
begin

text \<open>
  Properties of the time-driven layer: the calendar, cron expressions and cron schedules.
\<close>

section \<open>Expressions\<close>

lemma as_u8_small: "0 \<le> x \<Longrightarrow> x < 256 \<Longrightarrow> as_u8 x = nat x"
  by (simp add: as_u8_def)

lemma date_bounds:
  assumes "(next_day ^^ n) (1970, 1, 1) = (y, m, d)"
  shows "1 \<le> m \<and> m \<le> 12 \<and> 1 \<le> d \<and> d \<le> 31"
  using assms
proof (induction n arbitrary: y m d)
  case (Suc n)
  obtain y0 m0 d0 where d0: "(next_day ^^ n) (1970, 1, 1) = (y0, m0, d0)" using prod_cases3 by blast
  have "days_in_month y0 m0 \<le> 31" by (simp add: days_in_month_def)
  then show ?case using Suc.IH [OF d0] Suc.prems d0 by (auto split: if_splits)
qed auto

text \<open>Cron expressions are evaluated on the Gregorian calendar in UTC. A time since 1970 matches
  an expression exactly when its minute, hour and month are allowed and its day is, where the
  date is the one reached by counting days from the first of January 1970, a Thursday, and the
  two day fields combine as in cron: a field written as a star does not restrict, and two
  restricted fields are alternatives.\<close>

theorem cron_matches_calendar:
  assumes "0 \<le> sint t" and "(next_day ^^ nat (sint t div 86400000)) (1970, 1, 1) = (year, month, day)"
  shows "matches_utc_ms c t \<longleftrightarrow>
    field_matches (cron_minute c) (nat (sint t div 60000 mod 60)) \<and>
    field_matches (cron_hour c) (nat (sint t div 3600000 mod 24)) \<and>
    field_matches (cron_month c) (nat month) \<and>
    (let by_date = field_matches (cron_day_of_month c) (nat day);
         by_weekday = field_matches (cron_day_of_week c) (nat ((sint t div 86400000 + 4) mod 7))
     in if fld_wildcard (cron_day_of_month c) \<and> fld_wildcard (cron_day_of_week c) then True
        else if fld_wildcard (cron_day_of_month c) then by_weekday
        else if fld_wildcard (cron_day_of_week c) then by_date
        else by_date \<or> by_weekday)"
proof -
  have days: "sint t div 60000 div 1440 = sint t div 86400000" and hours: "sint t div 60000 div 60 = sint t div 3600000"
    by (simp_all add: zdiv_zmult2_eq [symmetric])
  have n: "0 \<le> sint t div 86400000" using assms(1) by (simp add: pos_imp_zdiv_nonneg_iff)
  have civil: "civil_from_days (sint t div 86400000) = (year, month, day)"
    using civil_from_days_gregorian [of "nat (sint t div 86400000)"] assms(2) n by simp
  have "1970 \<le> year" using civil_year_from_epoch [OF n] civil by simp
  moreover have "as_u8 month = nat month" "as_u8 day = nat day" using date_bounds [OF assms(2)] by (simp_all add: as_u8_small)
  moreover have "as_u8 (x mod 60) = nat (x mod 60)" "as_u8 (x mod 24) = nat (x mod 24)" "as_u8 (x mod 7) = nat (x mod 7)" for x
    by (simp_all add: as_u8_small)
  ultimately show ?thesis
    by (auto simp: matches_minute minute_matches_def day_matches_def days hours civil Let_def)
qed

definition demo_cron_text :: rust_str where
  "demo_cron_text = str_lit ''*/5 * * * *''"

definition demo_cron :: cron_expression where
  "demo_cron = projr (cron_parse demo_cron_text)"

lemma demo_cron_parse: "cron_parse demo_cron_text = Inr demo_cron"
proof -
  have "case cron_parse demo_cron_text of Inr c \<Rightarrow> True | Inl e \<Rightarrow> False" by code_simp
  then show ?thesis by (auto simp: demo_cron_def split: sum.splits)
qed

lemma demo_cron_matches: "matches_utc_ms demo_cron 0" "\<not> matches_utc_ms demo_cron 60000"
proof -
  have "case cron_parse demo_cron_text of Inr c \<Rightarrow> matches_utc_ms c 0 \<and> \<not> matches_utc_ms c 60000 | Inl e \<Rightarrow> False" by code_simp
  then show "matches_utc_ms demo_cron 0" "\<not> matches_utc_ms demo_cron 60000" by (simp_all add: demo_cron_parse)
qed

theorem cron_matches_calendar_witness:
  "(next_day ^^ 11016) (1970, 1, 1) = (2000, 2, 29) \<and> (matches_utc_ms demo_cron 951782400000 \<longleftrightarrow>
     field_matches (cron_minute demo_cron) 0 \<and> field_matches (cron_hour demo_cron) 0 \<and> field_matches (cron_month demo_cron) 2)"
proof -
  have c: "civil_from_days 11016 = (2000, 2, 29)" by code_simp
  then have d: "(next_day ^^ 11016) (1970, 1, 1) = (2000, 2, 29)" using civil_from_days_gregorian [of 11016] by simp
  have t: "sint (951782400000 :: i64) = 951782400000" by simp
  have w: "fld_wildcard (cron_day_of_month demo_cron)" "fld_wildcard (cron_day_of_week demo_cron)"
  proof -
    have "case cron_parse demo_cron_text of Inr c \<Rightarrow> fld_wildcard (cron_day_of_month c) \<and> fld_wildcard (cron_day_of_week c) | Inl e \<Rightarrow> False" by code_simp
    then show "fld_wildcard (cron_day_of_month demo_cron)" "fld_wildcard (cron_day_of_week demo_cron)" by (simp_all add: demo_cron_parse)
  qed
  show ?thesis using cron_matches_calendar [of 951782400000 2000 2 29 demo_cron] d by (simp add: t w)
qed

text \<open>The parser of a cron field. It rejects a field, naming it, exactly when one of the
  comma-separated parts is malformed; otherwise the field allows exactly the values that one of
  the parts reaches from its first value in its step without passing its last.\<close>

theorem cron_field_values:
  assumes "lo \<le> hi" and "hi \<le> 255"
  shows "case field_parse input lo hi of
      Inl e \<Rightarrow> e = CrInvalidField input \<and> (\<exists>part \<in> set (split_char CHR '','' input). \<exists>e. parse_part input lo hi part = Inl e)
    | Inr f \<Rightarrow> (\<forall>part \<in> set (split_char CHR '','' input). \<exists>p. parse_part input lo hi part = Inr p) \<and>
        (\<forall>x. field_matches f x \<longleftrightarrow> (\<exists>part \<in> set (split_char CHR '','' input). \<exists>start stop step.
           parse_part input lo hi part = Inr (start, stop, step) \<and> start \<le> x \<and> x \<le> stop \<and> step dvd (x - start)))"
proof (cases "field_parse input lo hi")
  case (Inl e)
  then show ?thesis using field_parse_spec [OF assms, of input] by simp
next
  case (Inr f)
  have S: "stepped p x \<longleftrightarrow> fst p \<le> x \<and> x \<le> fst (snd p) \<and> snd (snd p) dvd (x - fst p)" for p x
    by (simp add: stepped_def case_prod_unfold)
  from Inr field_parse_spec [OF assms, of input] have
    "\<forall>part \<in> set (split_char CHR '','' input). \<exists>p. parse_part input lo hi part = Inr p"
    "\<forall>x. field_matches f x \<longleftrightarrow> (\<exists>part \<in> set (split_char CHR '','' input). \<exists>p. parse_part input lo hi part = Inr p \<and> stepped p x)"
    by (simp_all only: sum.case simp_thms) blast
  then show ?thesis unfolding Inr sum.case S by simp
qed

theorem cron_field_values_witness:
  "\<exists>f. field_parse (str_lit ''10-30/5,45'') 0 59 = Inr f \<and> field_matches f 25 \<and> field_matches f 45 \<and> \<not> field_matches f 35"
proof -
  have "case field_parse (str_lit ''10-30/5,45'') 0 59 of Inr f \<Rightarrow> True | Inl e \<Rightarrow> False" by code_simp
  then obtain f where f: "field_parse (str_lit ''10-30/5,45'') 0 59 = Inr f" by (auto split: sum.splits)
  have parts: "split_char CHR '','' (str_lit ''10-30/5,45'') = [str_lit ''10-30/5'', str_lit ''45'']" by code_simp
  have p: "parse_part (str_lit ''10-30/5,45'') 0 59 (str_lit ''10-30/5'') = Inr (10, 30, 5)"
    "parse_part (str_lit ''10-30/5,45'') 0 59 (str_lit ''45'') = Inr (45, 45, 1)" by code_simp+
  have "\<forall>x. field_matches f x \<longleftrightarrow> (10 \<le> x \<and> x \<le> 30 \<and> 5 dvd (x - 10)) \<or> x = 45"
    using cron_field_values [of 0 59 "str_lit ''10-30/5,45''"] unfolding f parts by (auto simp: p)
  then have "field_matches f 25" "field_matches f 45" "\<not> field_matches f 35" by auto
  then show ?thesis using f by blast
qed

text \<open>C39: the search for the next occurrence. From any time at or after 1970 that leaves room for
  eight years on the 64-bit clock, the search either returns the first matching minute that begins after it, with
  none skipped, or fails because no time at all matches the expression: the eight-year horizon
  never cuts off an expression that can still occur, the 29th of February across a century
  without a leap year included.\<close>

theorem cron_next_is_first:
  assumes "0 \<le> sint a" and "sint a + 252979260000 < 2 ^ 63"
  shows "case next_after_utc_ms c a of
      Inr t \<Rightarrow> sint a < sint t \<and> 60000 dvd sint t \<and> matches_utc_ms c t \<and>
        (\<forall>u. sint a < sint u \<longrightarrow> sint u < sint t \<longrightarrow> 60000 dvd sint u \<longrightarrow> \<not> matches_utc_ms c u)
    | Inl e \<Rightarrow> (\<forall>t. 0 \<le> sint t \<longrightarrow> \<not> matches_utc_ms c t)"
proof (cases "next_after_utc_ms c a")
  case (Inl e)
  then have "\<not> matches_utc_ms c t" if "0 \<le> sint t" for t using next_after_complete [OF assms that, of c] by auto
  then show ?thesis using Inl by simp
next
  case (Inr t)
  then show ?thesis using next_after_first [OF Inr] by (simp add: first_match_after_def)
qed

theorem cron_next_is_first_witness:
  "\<exists>t. next_after_utc_ms demo_cron 0 = Inr t \<and> 0 < sint t \<and> t \<noteq> 60000 \<and> matches_utc_ms demo_cron t"
proof -
  have "case next_after_utc_ms demo_cron 0 of
      Inr t \<Rightarrow> sint (0 :: i64) < sint t \<and> 60000 dvd sint t \<and> matches_utc_ms demo_cron t \<and>
        (\<forall>u. sint (0 :: i64) < sint u \<longrightarrow> sint u < sint t \<longrightarrow> 60000 dvd sint u \<longrightarrow> \<not> matches_utc_ms demo_cron u)
    | Inl e \<Rightarrow> (\<forall>t. 0 \<le> sint t \<longrightarrow> \<not> matches_utc_ms demo_cron t)"
    by (rule cron_next_is_first) simp_all
  then show ?thesis using demo_cron_matches by (cases "next_after_utc_ms demo_cron 0") (auto dest: spec [of _ 0])
qed

section \<open>Schedules\<close>

text \<open>A store whose one schedule is due at time zero.\<close>

definition demo_cron_schedule :: durable_cron where
  "demo_cron_schedule = \<lparr>cs_id = replicate 16 1, cs_expression = as_bytes demo_cron_text, cs_job = job_spec_new [104] [],
     cs_next_run_ms = 0, cs_enabled = True, cs_fire_count = 0, cs_last_fired_at_ms = None\<rparr>"

lemma demo_cron_schedule_ok: "wf_cron demo_cron_schedule" "on_schedule demo_cron_schedule" "parse_expression (cs_expression demo_cron_schedule) = Inr demo_cron"
proof -
  have "list_all is_scalar demo_cron_text" by code_simp
  then show p: "parse_expression (cs_expression demo_cron_schedule) = Inr demo_cron"
    by (simp add: parse_expression_def demo_cron_schedule_def from_utf8_as_bytes demo_cron_parse)
  then show "wf_cron demo_cron_schedule" "on_schedule demo_cron_schedule"
    using demo_cron_matches(1) by (auto simp: wf_cron_def on_schedule_def) (simp_all add: demo_cron_schedule_def cs_validate_job_def job_spec_new_def)
qed

lemma encode_small_cron:
  assumes "cs_id sc = replicate 16 1" and "cs_expression sc = as_bytes demo_cron_text" and "cs_job sc = job_spec_new [104] []"
  obtains bs where "cs_encode_schedule sc = Inr bs" and "length bs < 1000"
proof -
  have l: "length (as_bytes demo_cron_text) = 11" by code_simp
  have "length (encode_optional v) \<le> 9" for v by (simp add: encode_optional_def split: option.split)
  from this [of "cs_last_fired_at_ms sc"] show ?thesis using that l assms
    by (auto simp: cs_encode_schedule_def cs_encode_job_spec_def cs_write_bytes_def u32_try_from_len_def job_spec_new_def encode_optional_def)
qed

lemma put_schedule_ok:
  assumes "sha_ok D" and "healthy (n + 4) s" and "cs_encode_schedule sc = Inr bs" and "length bs < 1000" and "length i = 16"
  shows "\<exists>s'. put_schedule D i sc s = (Inr (), s') \<and> healthy n s'"
proof -
  have "length (cron_key i) + length bs < 2 ^ 31" using assms(4,5) by (simp add: cron_key_def CRON_PREFIX_def ascii_def)
  from store_put_internal_ok [OF assms(1,2) this] show ?thesis using assms(3) by (auto simp: put_schedule_def act_map_err_def)
qed

lemma demo_cron_store:
  obtains s where "cron_inv s" and "job_inv s" and "jobs s = Map.empty" and "get_cron_schedule s (replicate 16 1) = Inr (Some demo_cron_schedule)"
    and "healthy 500 s" and "next_id s = Some demo_id" and "list_cron_schedules s = Inr [demo_cron_schedule]" and "scan_prefix s JOB_PREFIX = []"
proof -
  obtain bs where bs: "cs_encode_schedule demo_cron_schedule = Inr bs"
    by (rule encode_small_cron [of demo_cron_schedule]) (simp_all add: demo_cron_schedule_def)
  have d: "cs_decode_schedule bs = Inr demo_cron_schedule" by (rule cs_decode_encode [OF demo_cron_schedule_ok(1) bs])
  have i: "cs_id demo_cron_schedule = replicate 16 1" by (simp add: demo_cron_schedule_def)
  have nj: "\<not> prefix JOB_PREFIX (cron_key (replicate 16 1))" "job_key j \<noteq> cron_key (replicate 16 1)" for j
    using cron_space(2) [OF cron_key_simps(1)] job_key_simps(1) by metis+
  let ?s = "single (cron_key (replicate 16 1)) bs"
  show ?thesis
  proof (rule that [of ?s])
    show "cron_inv ?s" using d i demo_cron_schedule_ok(2) by (auto simp: cron_inv_def split: if_splits)
    show "job_inv ?s" "jobs ?s = Map.empty" using nj by (auto simp: job_inv_def jobs_def get_job_def split: if_splits)
    show "get_cron_schedule ?s (replicate 16 1) = Inr (Some demo_cron_schedule)" using d by (simp add: get_cron_schedule_def)
    show "list_cron_schedules ?s = Inr [demo_cron_schedule]" using d by (simp add: list_cron_schedules_def)
    show "scan_prefix ?s JOB_PREFIX = []" using nj by simp
  qed simp_all
qed

lemma demo_cron_fires:
  assumes s: "job_inv s" "healthy 500 s" "next_id s = Some demo_id" "scan_prefix s JOB_PREFIX = []"
  obtains s' where "fire_cron demo_deps 0 demo_cron_schedule s = (Inr (), s')"
proof -
  let ?spec = "occurrence_spec demo_cron_schedule"
  have h: "healthy (6 + 100) s" by (rule healthy_mono [OF s(2)]) simp
  have "\<exists>s1. submit_job demo_deps ?spec 0 s = (Inr demo_id, s1) \<and> healthy 100 s1"
    by (rule submit_fresh_ok [OF demo_sha_ok h occurrence_spec_valid [OF demo_cron_schedule_ok(1)]])
      (use s in \<open>auto simp: occurrence_spec_def demo_cron_schedule_def job_spec_new_def find_active_job_by_idempotency_def occurrence_key_def ascii_def\<close>)
  then obtain s1 where s1: "submit_job demo_deps ?spec 0 s = (Inr demo_id, s1)" "healthy 100 s1" by blast
  have "\<exists>t. next_after_utc_ms demo_cron 0 = Inr t" by (rule next_after_complete [OF _ _ _ demo_cron_matches(1)]) simp_all
  then obtain t where t: "next_after_utc_ms demo_cron 0 = Inr t" by blast
  let ?sc = "demo_cron_schedule\<lparr>cs_fire_count := 1, cs_last_fired_at_ms := Some 0, cs_next_run_ms := t\<rparr>"
  obtain bs where bs: "cs_encode_schedule ?sc = Inr bs" "length bs < 1000"
    by (rule encode_small_cron [of ?sc]) (simp_all add: demo_cron_schedule_def)
  have h1: "healthy (50 + 4) s1" by (rule healthy_mono [OF s1(2)]) simp
  from put_schedule_ok [OF demo_sha_ok h1 bs, of "replicate 16 1"]
  obtain s2 where s2: "put_schedule demo_deps (replicate 16 1) ?sc s1 = (Inr (), s2)" by auto
  have "checked_add (0 :: u64) 1 = Some 1" by (simp add: checked_add_one_u64)
  then have "fire_cron demo_deps 0 demo_cron_schedule s = (Inr (), s2)"
    using s1(1) s2 t demo_cron_schedule_ok(3) by (simp add: fire_cron_def act_bind_def act_lift_def act_map_err_def demo_cron_schedule_def)
  then show ?thesis by (rule that)
qed

text \<open>C40: a tick over the cron schedules, successful or not, leaves every stored schedule waiting for
  a minute that its expression matches, and touches none that is not due. What it moves, it
  moves by exactly one occurrence: the count goes up by one, the last occurrence is recorded and
  the next one is the first match after it. It fires at most \<open>limit\<close> schedules, and when it fires
  fewer every due schedule has moved.\<close>

theorem cron_tick_exact:
  assumes "cron_inv s" and "tick_cron_schedules D now limit s = (r, s')"
  shows "cron_inv s' \<and>
    (\<forall>i sc. get_cron_schedule s i = Inr (Some sc) \<longrightarrow> get_cron_schedule s' i = Inr (Some sc) \<or>
      cron_due now sc \<and> (\<exists>sc'. get_cron_schedule s' i = Inr (Some sc') \<and> advanced sc sc')) \<and>
    (\<forall>rep. r = Inr rep \<longrightarrow> ct_fired rep \<le> limit \<and> (ct_fired rep < limit \<longrightarrow>
      (\<forall>i sc. get_cron_schedule s i = Inr (Some sc) \<longrightarrow> cron_due now sc \<longrightarrow>
        (\<exists>sc'. get_cron_schedule s' i = Inr (Some sc') \<and> advanced sc sc'))))"
  using tick_cron_spec [OF assms] by blast

theorem cron_tick_exact_witness:
  "\<exists>s s' sc. get_cron_schedule s (replicate 16 1) = Inr (Some demo_cron_schedule) \<and>
     tick_cron_schedules demo_deps 0 10 s = (Inr \<lparr>ct_scanned = 1, ct_fired = 1\<rparr>, s') \<and>
     get_cron_schedule s' (replicate 16 1) = Inr (Some sc) \<and> cs_fire_count sc = 1 \<and> 0 < sint (cs_next_run_ms sc)"
proof -
  obtain s where s: "cron_inv s" "job_inv s" "get_cron_schedule s (replicate 16 1) = Inr (Some demo_cron_schedule)"
    "healthy 500 s" "next_id s = Some demo_id" "list_cron_schedules s = Inr [demo_cron_schedule]" "scan_prefix s JOB_PREFIX = []"
    by (rule demo_cron_store)
  obtain s' where f: "fire_cron demo_deps 0 demo_cron_schedule s = (Inr (), s')" by (rule demo_cron_fires [OF s(2,4,5,7)])
  have due: "cron_due 0 demo_cron_schedule" by (simp add: cron_due_def demo_cron_schedule_def)
  then have t: "tick_cron_schedules demo_deps 0 10 s = (Inr \<lparr>ct_scanned = 1, ct_fired = 1\<rparr>, s')"
    using f s(6) by (simp add: tick_cron_schedules_def act_bind_def act_return_def cron_due_def)
  from cron_tick_exact [OF s(1) t] have "\<forall>i sc. get_cron_schedule s i = Inr (Some sc) \<longrightarrow> cron_due 0 sc \<longrightarrow>
      (\<exists>sc'. get_cron_schedule s' i = Inr (Some sc') \<and> advanced sc sc')" by simp
  with s(3) due obtain sc where sc: "get_cron_schedule s' (replicate 16 1) = Inr (Some sc)" "advanced demo_cron_schedule sc" by blast
  then have "cs_fire_count sc = 1" "0 < sint (cs_next_run_ms sc)" by (auto simp: advanced_def first_match_after_def demo_cron_schedule_def)
  then show ?thesis using s(3) t sc(1) by blast
qed

text \<open>What a firing does to the jobs. While a job of the same schedule and occurrence is ready
  or leased, firing again files nothing: this is what protects a tick that is retried after its
  schedule record could not be written. When no such job is active, because none was filed or
  because it has already been completed, exactly one new job is filed for the occurrence.\<close>

theorem cron_occurrence_jobs:
  assumes "job_inv s" and "cron_inv s" and "get_cron_schedule s i = Inr (Some sc)" and "fire_cron D now sc s = (Inr u, s')"
    and "\<forall>x. next_id s = Some x \<longrightarrow> length x = 16"
  shows "if \<exists>k j. jobs s k = Some j \<and> (j_state j = JReady \<or> j_state j = JLeased) \<and> j_idempotency_key j = Some (occurrence_key i (cs_next_run_ms sc))
    then jobs s' = jobs s
    else \<exists>k. next_id s = Some k \<and> jobs s' = (jobs s)(k \<mapsto> stored_job (new_job k (occurrence_spec sc)))"
  using fire_cron_jobs [OF assms(1) get_cron_Some(2) [OF assms(2,3)] assms(4)] assms(5)
  by (simp add: occurrence_active_def get_cron_Some(1) [OF assms(2,3)])

theorem cron_occurrence_jobs_witness:
  "\<exists>s s'. fire_cron demo_deps 0 demo_cron_schedule s = (Inr (), s') \<and> jobs s = Map.empty \<and>
     jobs s' = [demo_id \<mapsto> stored_job (new_job demo_id (occurrence_spec demo_cron_schedule))]"
proof -
  obtain s where s: "cron_inv s" "job_inv s" "jobs s = Map.empty" "get_cron_schedule s (replicate 16 1) = Inr (Some demo_cron_schedule)"
    "healthy 500 s" "next_id s = Some demo_id" "scan_prefix s JOB_PREFIX = []"
    by (rule demo_cron_store)
  obtain s' where f: "fire_cron demo_deps 0 demo_cron_schedule s = (Inr (), s')" by (rule demo_cron_fires [OF s(2,5,6,7)])
  show ?thesis using cron_occurrence_jobs [OF s(2,1,4) f] s(3,6) f by auto
qed

end
