(* ===== verification/Ordered_View.thy ===== *)
theory Ordered_View
  imports Outbox
begin

text \<open>
  The reading interface that the store and an open transaction share: single keys and ordered
  scans of a prefix. Services whose operations exist on both read through it.
\<close>

locale ordered_view =
  fixes get :: "'s \<Rightarrow> bytes \<Rightarrow> bytes option"
    and scan :: "'s \<Rightarrow> bytes \<Rightarrow> kv"
    and ok :: "'s \<Rightarrow> bool"
  assumes scan_sorted: "ok s \<Longrightarrow> sorted_wrt (<) (map fst (scan s p))"
    and scan_mem: "ok s \<Longrightarrow> (k, v) \<in> set (scan s p) \<longleftrightarrow> prefix p k \<and> get s k = Some v"
begin

lemma scan_Nil_iff: "ok s \<Longrightarrow> scan s p = [] \<longleftrightarrow> (\<forall>k. prefix p k \<longrightarrow> get s k = None)"
  using scan_mem [of s _ _ p] by (metis list.set_intros(1) not_Some_eq old.prod.exhaust list.exhaust list.distinct(1) empty_iff list.set(1))

lemma scan_last:
  assumes "ok s" and "prefix p k0" and "get s k0 = Some v0" and "\<And>k v. prefix p k \<Longrightarrow> get s k = Some v \<Longrightarrow> k \<le> k0"
  shows "scan s p \<noteq> []" and "fst (last (scan s p)) = k0"
proof -
  have m: "(k0, v0) \<in> set (scan s p)" using assms(1-3) by (simp add: scan_mem)
  then show ne: "scan s p \<noteq> []" by auto
  let ?xs = "scan s p"
  obtain n where n: "n < length ?xs" "?xs ! n = (k0, v0)" using m by (auto simp: in_set_conv_nth)
  have l: "last ?xs = ?xs ! (length ?xs - 1)" using ne by (rule last_conv_nth)
  have "fst (last ?xs) \<le> k0"
  proof -
    have "last ?xs \<in> set ?xs" using ne by simp
    then show ?thesis using scan_mem [OF assms(1), of "fst (last ?xs)" "snd (last ?xs)" p] assms(4) by auto
  qed
  moreover have "k0 \<le> fst (last ?xs)"
  proof (cases "n = length ?xs - 1")
    case True
    then show ?thesis using n l by simp
  next
    case False
    then have "map fst ?xs ! n < map fst ?xs ! (length ?xs - 1)"
      using n(1) by (intro sorted_wrt_nth_less [OF scan_sorted [OF assms(1), of p]]) auto
    then show ?thesis using n l by simp
  qed
  ultimately show "fst (last ?xs) = k0" by simp
qed

text \<open>The scan is the one strictly sorted list of the entries under the prefix.\<close>

lemma scan_eqI:
  assumes "ok s" and "sorted_wrt (<) (map fst xs)" and "\<And>k v. (k, v) \<in> set xs \<longleftrightarrow> prefix p k \<and> get s k = Some v"
  shows "scan s p = xs"
proof (rule map_sorted_distinct_set_unique [where f = fst])
  have eq: "set (scan s p) = set xs" using scan_mem [OF assms(1)] assms(3) by auto
  then show "set (scan s p) = set xs" .
  show "inj_on fst (set (scan s p) \<union> set xs)"
    using assms(3) eq by (auto simp: inj_on_def)
  show "sorted (map fst (scan s p))" "distinct (map fst (scan s p))" "sorted (map fst xs)" "distinct (map fst xs)"
    using scan_sorted [OF assms(1), of p] assms(2) by (simp_all add: strict_sorted_iff)
qed

end

interpretation store_view: ordered_view store_get scan_prefix store_wf
  by unfold_locales (simp_all add: strict_sorted_scan in_scan_prefix_iff)

lemma tx_scan_mem:
  assumes "store_wf (tx_store t)"
  shows "(k, v) \<in> set (tx_scan_prefix_internal t p) \<longleftrightarrow> prefix p k \<and> tx_get_internal t k = Some v"
    and "sorted_wrt (<) (map fst (tx_scan_prefix_internal t p))"
proof -
  have w: "wf_map (apply_operations (st_state (tx_store t)) (tx_operations t))"
    using assms by (simp add: store_wf_def)
  show "(k, v) \<in> set (tx_scan_prefix_internal t p) \<longleftrightarrow> prefix p k \<and> tx_get_internal t k = Some v"
    unfolding tx_scan_prefix_internal_eq [OF assms] set_scan_map [OF w]
    by (simp add: map_of_apply_operations tx_get_internal_def store_get_def)
  show "sorted_wrt (<) (map fst (tx_scan_prefix_internal t p))"
    unfolding tx_scan_prefix_internal_eq [OF assms] strict_sorted_iff
    using sorted_scan_map distinct_scan_map [OF w] by blast
qed

interpretation tx_view: ordered_view tx_get_internal tx_scan_prefix_internal "\<lambda>t. store_wf (tx_store t)"
  by unfold_locales (simp_all add: tx_scan_mem)

end
