(* ===== verification/Workflow_Model.thy ===== *)
theory Workflow_Model
  imports Ordered_View
begin

text \<open>
  Durable workflows (\<open>crates/voodoo-store-core/src/workflow.rs\<close>): instance records and their
  histories, the operations of the store and the same operations inside a transaction. The
  changes an operation makes to an instance are named once (\<open>step_changed\<close>, \<open>awaiting_signal\<close>, ...)
  since the two families of handlers share them.
\<close>

section \<open>Data\<close>

definition WF_INSTANCE_PREFIX :: bytes where
  "WF_INSTANCE_PREFIX = 0xff # ascii ''vds:wf:instance:''"

definition WF_HISTORY_PREFIX :: bytes where
  "WF_HISTORY_PREFIX = 0xff # ascii ''vds:wf:history:''"

definition WF_VERSION :: u8 where
  "WF_VERSION = 1"

datatype workflow_status = WfRunning | WfWaiting | WfCompleted | WfFailed | WfCancelled

datatype workflow_error =
    WfStore engine_error
  | WfEmptyWorkflowType
  | WfEmptyStep
  | WfEmptySignal
  | WfNotFound
  | WfAlreadyTerminal
  | WfFieldTooLarge
  | WfCorruptRecord
  | WfHistoryExhausted
  | WfEntropyUnavailable

fun workflow_status_u8 :: "workflow_status \<Rightarrow> u8" where
  "workflow_status_u8 WfRunning = 0"
| "workflow_status_u8 WfWaiting = 1"
| "workflow_status_u8 WfCompleted = 2"
| "workflow_status_u8 WfFailed = 3"
| "workflow_status_u8 WfCancelled = 4"

definition workflow_status_try_from :: "u8 \<Rightarrow> workflow_error + workflow_status" where
  "workflow_status_try_from b =
     (if b = 0 then Inr WfRunning else if b = 1 then Inr WfWaiting else if b = 2 then Inr WfCompleted
      else if b = 3 then Inr WfFailed else if b = 4 then Inr WfCancelled else Inl WfCorruptRecord)"

datatype workflow_wait = WaitSignal bytes | WaitTimer i64

record workflow_instance =
  wi_id :: bytes
  wi_workflow_type :: bytes
  wi_status :: workflow_status
  wi_current_step :: bytes
  wi_state :: bytes
  wi_parent_id :: "bytes option"
  wi_wait :: "workflow_wait option"
  wi_created_at_ms :: i64
  wi_updated_at_ms :: i64

datatype workflow_kind =
    KCreated | KStepChanged | KWaitingSignal | KSignalReceived | KWaitingTimer | KTimerFired
  | KCompleted | KFailed | KCancelled

fun workflow_kind_u8 :: "workflow_kind \<Rightarrow> u8" where
  "workflow_kind_u8 KCreated = 0"
| "workflow_kind_u8 KStepChanged = 1"
| "workflow_kind_u8 KWaitingSignal = 2"
| "workflow_kind_u8 KSignalReceived = 3"
| "workflow_kind_u8 KWaitingTimer = 4"
| "workflow_kind_u8 KTimerFired = 5"
| "workflow_kind_u8 KCompleted = 6"
| "workflow_kind_u8 KFailed = 7"
| "workflow_kind_u8 KCancelled = 8"

definition workflow_kind_try_from :: "u8 \<Rightarrow> workflow_error + workflow_kind" where
  "workflow_kind_try_from b =
     (if b = 0 then Inr KCreated else if b = 1 then Inr KStepChanged else if b = 2 then Inr KWaitingSignal
      else if b = 3 then Inr KSignalReceived else if b = 4 then Inr KWaitingTimer else if b = 5 then Inr KTimerFired
      else if b = 6 then Inr KCompleted else if b = 7 then Inr KFailed else if b = 8 then Inr KCancelled
      else Inl WfCorruptRecord)"

record workflow_history_entry =
  wh_sequence :: u64
  wh_at_ms :: i64
  wh_kind :: workflow_kind
  wh_detail :: bytes

record workflow_resume_report =
  wr_scanned :: usize
  wr_resumed :: usize

definition is_terminal :: "workflow_status \<Rightarrow> bool" where
  "is_terminal st = (st = WfCompleted \<or> st = WfFailed \<or> st = WfCancelled)"

definition ensure_active :: "workflow_instance \<Rightarrow> workflow_error + unit" where
  "ensure_active w = (if is_terminal (wi_status w) then Inl WfAlreadyTerminal else Inr ())"

section \<open>Keys and formats\<close>

definition instance_key :: "bytes \<Rightarrow> bytes" where
  "instance_key i = WF_INSTANCE_PREFIX @ i"

definition wf_history_prefix :: "bytes \<Rightarrow> bytes" where
  "wf_history_prefix i = WF_HISTORY_PREFIX @ i"

definition wf_history_key :: "bytes \<Rightarrow> u64 \<Rightarrow> bytes" where
  "wf_history_key i sequence = wf_history_prefix i @ to_be sequence"

definition wf_decode_history_sequence :: "bytes \<Rightarrow> bytes \<Rightarrow> workflow_error + u64" where
  "wf_decode_history_sequence i key =
     (let p = wf_history_prefix i
      in if \<not> prefix p key \<or> length key \<noteq> length p + 8 then Inl WfCorruptRecord
         else Inr (from_be (drop (length p) key)))"

definition wf_push_bytes :: "bytes \<Rightarrow> workflow_error + bytes" where
  "wf_push_bytes value = res_bind (ok_or WfFieldTooLarge (u32_try_from_len (length value))) (\<lambda>len. Inr (to_le len @ value))"

definition wf_read_bytes :: "(workflow_error, bytes) reader" where
  "wf_read_bytes = rd_bytes WfCorruptRecord"

definition encode_wait :: "workflow_wait option \<Rightarrow> workflow_error + bytes" where
  "encode_wait wait =
     (case wait of
        None \<Rightarrow> Inr [0]
      | Some (WaitSignal name) \<Rightarrow> res_bind (wf_push_bytes name) (\<lambda>name. Inr ([1] @ name))
      | Some (WaitTimer resume_at) \<Rightarrow> Inr ([2] @ to_le resume_at))"

definition encode_instance :: "workflow_instance \<Rightarrow> workflow_error + bytes" where
  "encode_instance w =
     res_bind (wf_push_bytes (wi_workflow_type w)) (\<lambda>ty.
     res_bind (wf_push_bytes (wi_current_step w)) (\<lambda>step.
     res_bind (wf_push_bytes (wi_state w)) (\<lambda>state.
     res_bind (encode_wait (wi_wait w)) (\<lambda>wait.
       Inr ([WF_VERSION] @ wi_id w @ [workflow_status_u8 (wi_status w)] @ to_le (wi_created_at_ms w) @ to_le (wi_updated_at_ms w) @
            (case wi_parent_id w of Some parent \<Rightarrow> [1] @ parent | None \<Rightarrow> [0]) @ ty @ step @ state @ wait)))))"

definition rd_parent :: "(workflow_error, bytes option) reader" where
  "rd_parent = rd_bind (rd_u8 WfCorruptRecord) (\<lambda>b.
     if b = 0 then rd_return None
     else if b = 1 then rd_bind (rd_take WfCorruptRecord 16) (\<lambda>parent. rd_return (Some parent))
     else rd_fail WfCorruptRecord)"

definition rd_wait :: "(workflow_error, workflow_wait option) reader" where
  "rd_wait = rd_bind (rd_u8 WfCorruptRecord) (\<lambda>b.
     if b = 0 then rd_return None
     else if b = 1 then rd_bind wf_read_bytes (\<lambda>name. rd_return (Some (WaitSignal name)))
     else if b = 2 then rd_bind (rd_u64 WfCorruptRecord) (\<lambda>resume_at. rd_return (Some (WaitTimer resume_at)))
     else rd_fail WfCorruptRecord)"

definition decode_instance :: "bytes \<Rightarrow> workflow_error + workflow_instance" where
  "decode_instance bs =
     (if length bs < 35 \<or> bs ! 0 \<noteq> WF_VERSION then Inl WfCorruptRecord
      else res_bind (workflow_status_try_from (bs ! 17)) (\<lambda>status.
        res_bind
          (rd_bind rd_parent (\<lambda>parent. rd_bind wf_read_bytes (\<lambda>ty. rd_bind wf_read_bytes (\<lambda>step. rd_bind wf_read_bytes (\<lambda>state.
           rd_bind rd_wait (\<lambda>wait.
             rd_return \<lparr>wi_id = slice 1 17 bs, wi_workflow_type = ty, wi_status = status, wi_current_step = step, wi_state = state,
               wi_parent_id = parent, wi_wait = wait, wi_created_at_ms = from_le (slice 18 26 bs),
               wi_updated_at_ms = from_le (slice 26 34 bs)\<rparr>))))) (drop 34 bs))
          (\<lambda>(w, rest). if rest \<noteq> [] then Inl WfCorruptRecord else Inr w)))"

definition wf_encode_history :: "workflow_history_entry \<Rightarrow> workflow_error + bytes" where
  "wf_encode_history e =
     res_bind (wf_push_bytes (wh_detail e)) (\<lambda>detail.
       Inr ([WF_VERSION] @ to_le (wh_sequence e) @ to_le (wh_at_ms e) @ [workflow_kind_u8 (wh_kind e)] @ detail))"

definition wf_decode_history :: "bytes \<Rightarrow> workflow_error + workflow_history_entry" where
  "wf_decode_history bs =
     (if length bs < 18 \<or> bs ! 0 \<noteq> WF_VERSION then Inl WfCorruptRecord
      else res_bind (workflow_kind_try_from (bs ! 17)) (\<lambda>kind.
        res_bind (wf_read_bytes (drop 18 bs)) (\<lambda>(detail, rest).
          if rest \<noteq> [] then Inl WfCorruptRecord
          else Inr \<lparr>wh_sequence = from_le (slice 1 9 bs), wh_at_ms = from_le (slice 9 17 bs), wh_kind = kind, wh_detail = detail\<rparr>)))"

section \<open>What the operations change\<close>

definition new_workflow :: "bytes \<Rightarrow> bytes \<Rightarrow> bytes \<Rightarrow> bytes \<Rightarrow> bytes option \<Rightarrow> i64 \<Rightarrow> workflow_instance" where
  "new_workflow i ty step state parent now =
     \<lparr>wi_id = i, wi_workflow_type = ty, wi_status = WfRunning, wi_current_step = step, wi_state = state, wi_parent_id = parent,
      wi_wait = None, wi_created_at_ms = now, wi_updated_at_ms = now\<rparr>"

definition created_entry :: "i64 \<Rightarrow> workflow_history_entry" where
  "created_entry now = \<lparr>wh_sequence = 0, wh_at_ms = now, wh_kind = KCreated, wh_detail = []\<rparr>"

definition step_changed :: "bytes \<Rightarrow> bytes \<Rightarrow> i64 \<Rightarrow> workflow_instance \<Rightarrow> workflow_instance" where
  "step_changed step state now w = w\<lparr>wi_status := WfRunning, wi_current_step := step, wi_state := state, wi_wait := None, wi_updated_at_ms := now\<rparr>"

definition awaiting_signal :: "bytes \<Rightarrow> i64 \<Rightarrow> workflow_instance \<Rightarrow> workflow_instance" where
  "awaiting_signal signal now w = w\<lparr>wi_status := WfWaiting, wi_wait := Some (WaitSignal signal), wi_updated_at_ms := now\<rparr>"

definition signalled :: "bytes \<Rightarrow> i64 \<Rightarrow> workflow_instance \<Rightarrow> workflow_instance" where
  "signalled payload now w = w\<lparr>wi_status := WfRunning, wi_wait := None, wi_state := payload, wi_updated_at_ms := now\<rparr>"

definition awaiting_timer :: "i64 \<Rightarrow> i64 \<Rightarrow> workflow_instance \<Rightarrow> workflow_instance" where
  "awaiting_timer resume_at now w = w\<lparr>wi_status := WfWaiting, wi_wait := Some (WaitTimer resume_at), wi_updated_at_ms := now\<rparr>"

definition timer_fired :: "i64 \<Rightarrow> workflow_instance \<Rightarrow> workflow_instance" where
  "timer_fired now w = w\<lparr>wi_status := WfRunning, wi_wait := None, wi_updated_at_ms := now\<rparr>"

definition wf_finished :: "workflow_status \<Rightarrow> bytes \<Rightarrow> i64 \<Rightarrow> workflow_instance \<Rightarrow> workflow_instance" where
  "wf_finished status detail now w = w\<lparr>wi_status := status, wi_state := detail, wi_wait := None, wi_updated_at_ms := now\<rparr>"

definition wf_cancelled :: "i64 \<Rightarrow> workflow_instance \<Rightarrow> workflow_instance" where
  "wf_cancelled now w = w\<lparr>wi_status := WfCancelled, wi_wait := None, wi_updated_at_ms := now\<rparr>"

section \<open>The store's operations\<close>

definition wf_random_id :: "(store, workflow_error, bytes) act" where
  "wf_random_id s =
     (case os_entropy (st_os s) of
        [] \<Rightarrow> (Inl WfEntropyUnavailable, s)
      | x # xs \<Rightarrow> (ok_or WfEntropyUnavailable x, s\<lparr>st_os := (st_os s)\<lparr>os_entropy := xs\<rparr>\<rparr>))"

text \<open>The two records every transition writes.\<close>

definition put_workflow_tx :: "deps \<Rightarrow> workflow_instance \<Rightarrow> workflow_history_entry \<Rightarrow> (transaction, workflow_error, unit) act" where
  "put_workflow_tx D w e =
     act_bind (act_lift (encode_instance w)) (\<lambda>ib.
     act_bind (act_map_err WfStore (tx_put_internal D (instance_key (wi_id w)) ib)) (\<lambda>_.
     act_bind (act_lift (wf_encode_history e)) (\<lambda>hb.
     act_map_err WfStore (tx_put_internal D (wf_history_key (wi_id w) (wh_sequence e)) hb))))"

definition create_workflow ::
  "deps \<Rightarrow> bytes \<Rightarrow> bytes \<Rightarrow> bytes \<Rightarrow> bytes option \<Rightarrow> i64 \<Rightarrow> (store, workflow_error, bytes) act" where
  "create_workflow D ty step state parent now =
     (if ty = [] then act_lift (Inl WfEmptyWorkflowType)
      else if step = [] then act_lift (Inl WfEmptyStep)
      else act_bind wf_random_id (\<lambda>i.
           run_tx D True WfStore
             (act_bind (put_workflow_tx D (new_workflow i ty step state parent now) (created_entry now)) (\<lambda>_. act_return i))))"

definition get_workflow :: "store \<Rightarrow> bytes \<Rightarrow> workflow_error + workflow_instance option" where
  "get_workflow s i = transpose_map decode_instance (store_get s (instance_key i))"

definition load_workflow :: "bytes \<Rightarrow> (store, workflow_error, workflow_instance) act" where
  "load_workflow i s = (res_bind (get_workflow s i) (ok_or WfNotFound), s)"

text \<open>The sequence number after the last key of a scan of the history.\<close>

definition sequence_after :: "bytes \<Rightarrow> kv \<Rightarrow> workflow_error + u64" where
  "sequence_after i records =
     (if records = [] then Inr 0
      else res_bind (wf_decode_history_sequence i (fst (last records))) (\<lambda>q. ok_or WfHistoryExhausted (checked_add q 1)))"

definition next_workflow_history_sequence :: "store \<Rightarrow> bytes \<Rightarrow> workflow_error + u64" where
  "next_workflow_history_sequence s i = sequence_after i (scan_prefix s (wf_history_prefix i))"

definition persist_instance_with_history ::
  "deps \<Rightarrow> workflow_instance \<Rightarrow> i64 \<Rightarrow> workflow_kind \<Rightarrow> bytes \<Rightarrow> (store, workflow_error, unit) act" where
  "persist_instance_with_history D w at kind detail =
     act_bind (\<lambda>s. (next_workflow_history_sequence s (wi_id w), s)) (\<lambda>sequence.
       run_tx D True WfStore
         (put_workflow_tx D w \<lparr>wh_sequence = sequence, wh_at_ms = at, wh_kind = kind, wh_detail = detail\<rparr>))"

definition set_workflow_step :: "deps \<Rightarrow> bytes \<Rightarrow> bytes \<Rightarrow> bytes \<Rightarrow> i64 \<Rightarrow> (store, workflow_error, unit) act" where
  "set_workflow_step D i step state now =
     (if step = [] then act_lift (Inl WfEmptyStep)
      else act_bind (load_workflow i) (\<lambda>w.
           act_bind (act_lift (ensure_active w)) (\<lambda>_.
             persist_instance_with_history D (step_changed step state now w) now KStepChanged step)))"

definition wait_for_signal :: "deps \<Rightarrow> bytes \<Rightarrow> bytes \<Rightarrow> i64 \<Rightarrow> (store, workflow_error, unit) act" where
  "wait_for_signal D i signal now =
     (if signal = [] then act_lift (Inl WfEmptySignal)
      else act_bind (load_workflow i) (\<lambda>w.
           act_bind (act_lift (ensure_active w)) (\<lambda>_.
             persist_instance_with_history D (awaiting_signal signal now w) now KWaitingSignal signal)))"

definition signal_workflow :: "deps \<Rightarrow> bytes \<Rightarrow> bytes \<Rightarrow> bytes \<Rightarrow> i64 \<Rightarrow> (store, workflow_error, bool) act" where
  "signal_workflow D i signal payload now =
     act_bind (load_workflow i) (\<lambda>w.
       if wi_wait w \<noteq> Some (WaitSignal signal) then act_return False
       else act_bind (persist_instance_with_history D (signalled payload now w) now KSignalReceived signal) (\<lambda>_. act_return True))"

definition wait_until :: "deps \<Rightarrow> bytes \<Rightarrow> i64 \<Rightarrow> i64 \<Rightarrow> (store, workflow_error, unit) act" where
  "wait_until D i resume_at now =
     act_bind (load_workflow i) (\<lambda>w.
     act_bind (act_lift (ensure_active w)) (\<lambda>_.
       persist_instance_with_history D (awaiting_timer resume_at now w) now KWaitingTimer (to_le resume_at)))"

definition timer_due :: "i64 \<Rightarrow> workflow_instance \<Rightarrow> bool" where
  "timer_due now w = (wi_status w = WfWaiting \<and>
     (case wi_wait w of Some (WaitTimer resume_at) \<Rightarrow> sint resume_at \<le> sint now | _ \<Rightarrow> False))"

fun due_workflows :: "i64 \<Rightarrow> usize \<Rightarrow> workflow_instance list \<Rightarrow> kv \<Rightarrow> workflow_error + workflow_instance list" where
  "due_workflows now limit due [] = Inr due"
| "due_workflows now limit due ((_, encoded) # rest) =
     (if length due = limit then Inr due
      else res_bind (decode_instance encoded) (\<lambda>w.
             due_workflows now limit (if timer_due now w then due @ [w] else due) rest))"

definition resume_due_workflows :: "deps \<Rightarrow> i64 \<Rightarrow> usize \<Rightarrow> (store, workflow_error, workflow_resume_report) act" where
  "resume_due_workflows D now limit =
     act_bind (\<lambda>s. (Inr (scan_prefix s WF_INSTANCE_PREFIX), s)) (\<lambda>records.
     act_bind (act_lift (due_workflows now limit [] records)) (\<lambda>due.
     act_bind (act_for (\<lambda>w. persist_instance_with_history D (timer_fired now w) now KTimerFired []) due) (\<lambda>_.
       act_return \<lparr>wr_scanned = length records, wr_resumed = length due\<rparr>)))"

definition finish_workflow ::
  "deps \<Rightarrow> bytes \<Rightarrow> workflow_status \<Rightarrow> workflow_kind \<Rightarrow> bytes \<Rightarrow> i64 \<Rightarrow> (store, workflow_error, unit) act" where
  "finish_workflow D i status kind detail now =
     act_bind (load_workflow i) (\<lambda>w.
       if is_terminal (wi_status w) then act_lift (Inl WfAlreadyTerminal)
       else persist_instance_with_history D (wf_finished status detail now w) now kind detail)"

definition complete_workflow :: "deps \<Rightarrow> bytes \<Rightarrow> bytes \<Rightarrow> i64 \<Rightarrow> (store, workflow_error, unit) act" where
  "complete_workflow D i final_state now = finish_workflow D i WfCompleted KCompleted final_state now"

definition fail_workflow :: "deps \<Rightarrow> bytes \<Rightarrow> bytes \<Rightarrow> i64 \<Rightarrow> (store, workflow_error, unit) act" where
  "fail_workflow D i err now = finish_workflow D i WfFailed KFailed err now"

definition cancel_workflow :: "deps \<Rightarrow> bytes \<Rightarrow> bytes \<Rightarrow> i64 \<Rightarrow> (store, workflow_error, bool) act" where
  "cancel_workflow D i reason now =
     act_bind (\<lambda>s. (get_workflow s i, s)) (\<lambda>r. case r of
       None \<Rightarrow> act_return False
     | Some w \<Rightarrow>
         if is_terminal (wi_status w) then act_return False
         else act_bind (persist_instance_with_history D (wf_cancelled now w) now KCancelled reason) (\<lambda>_. act_return True))"

definition workflow_history :: "store \<Rightarrow> bytes \<Rightarrow> workflow_error + workflow_history_entry list" where
  "workflow_history s i =
     res_bind (map_result (\<lambda>(_, encoded). wf_decode_history encoded) (scan_prefix s (wf_history_prefix i)))
       (\<lambda>entries. Inr (sort_key wh_sequence entries))"

definition workflow_children :: "store \<Rightarrow> bytes \<Rightarrow> workflow_error + workflow_instance list" where
  "workflow_children s parent =
     res_bind (map_result (\<lambda>(_, encoded). decode_instance encoded) (scan_prefix s WF_INSTANCE_PREFIX))
       (\<lambda>instances. Inr (sort_key (\<lambda>w. sint (wi_created_at_ms w)) (filter (\<lambda>w. wi_parent_id w = Some parent) instances)))"

section \<open>The same operations inside a transaction\<close>

definition tx_create_workflow ::
  "deps \<Rightarrow> bytes \<Rightarrow> bytes \<Rightarrow> bytes \<Rightarrow> bytes option \<Rightarrow> i64 \<Rightarrow> (transaction, workflow_error, bytes) act" where
  "tx_create_workflow D ty step state parent now =
     (if ty = [] then act_lift (Inl WfEmptyWorkflowType)
      else if step = [] then act_lift (Inl WfEmptyStep)
      else act_bind (tx_random WfEntropyUnavailable) (\<lambda>i.
           act_bind (put_workflow_tx D (new_workflow i ty step state parent now) (created_entry now)) (\<lambda>_. act_return i)))"

definition workflow_instance_of :: "bytes \<Rightarrow> (transaction, workflow_error, workflow_instance) act" where
  "workflow_instance_of i t = (res_bind (transpose_map decode_instance (tx_get_internal t (instance_key i))) (ok_or WfNotFound), t)"

definition next_workflow_history_sequence_tx :: "transaction \<Rightarrow> bytes \<Rightarrow> workflow_error + u64" where
  "next_workflow_history_sequence_tx t i = sequence_after i (tx_scan_prefix_internal t (wf_history_prefix i))"

definition persist_workflow_with_history ::
  "deps \<Rightarrow> workflow_instance \<Rightarrow> i64 \<Rightarrow> workflow_kind \<Rightarrow> bytes \<Rightarrow> (transaction, workflow_error, unit) act" where
  "persist_workflow_with_history D w at kind detail =
     act_bind (\<lambda>t. (next_workflow_history_sequence_tx t (wi_id w), t)) (\<lambda>sequence.
       put_workflow_tx D w \<lparr>wh_sequence = sequence, wh_at_ms = at, wh_kind = kind, wh_detail = detail\<rparr>)"

definition tx_set_workflow_step :: "deps \<Rightarrow> bytes \<Rightarrow> bytes \<Rightarrow> bytes \<Rightarrow> i64 \<Rightarrow> (transaction, workflow_error, unit) act" where
  "tx_set_workflow_step D i step state now =
     (if step = [] then act_lift (Inl WfEmptyStep)
      else act_bind (workflow_instance_of i) (\<lambda>w.
           act_bind (act_lift (ensure_active w)) (\<lambda>_.
             persist_workflow_with_history D (step_changed step state now w) now KStepChanged step)))"

definition tx_wait_for_signal :: "deps \<Rightarrow> bytes \<Rightarrow> bytes \<Rightarrow> i64 \<Rightarrow> (transaction, workflow_error, unit) act" where
  "tx_wait_for_signal D i signal now =
     (if signal = [] then act_lift (Inl WfEmptySignal)
      else act_bind (workflow_instance_of i) (\<lambda>w.
           act_bind (act_lift (ensure_active w)) (\<lambda>_.
             persist_workflow_with_history D (awaiting_signal signal now w) now KWaitingSignal signal)))"

definition tx_signal_workflow :: "deps \<Rightarrow> bytes \<Rightarrow> bytes \<Rightarrow> bytes \<Rightarrow> i64 \<Rightarrow> (transaction, workflow_error, bool) act" where
  "tx_signal_workflow D i signal payload now =
     act_bind (workflow_instance_of i) (\<lambda>w.
       if wi_wait w \<noteq> Some (WaitSignal signal) then act_return False
       else act_bind (persist_workflow_with_history D (signalled payload now w) now KSignalReceived signal) (\<lambda>_. act_return True))"

definition tx_wait_until :: "deps \<Rightarrow> bytes \<Rightarrow> i64 \<Rightarrow> i64 \<Rightarrow> (transaction, workflow_error, unit) act" where
  "tx_wait_until D i resume_at now =
     act_bind (workflow_instance_of i) (\<lambda>w.
     act_bind (act_lift (ensure_active w)) (\<lambda>_.
       persist_workflow_with_history D (awaiting_timer resume_at now w) now KWaitingTimer (to_le resume_at)))"

definition finish_workflow_tx ::
  "deps \<Rightarrow> bytes \<Rightarrow> workflow_status \<Rightarrow> workflow_kind \<Rightarrow> bytes \<Rightarrow> i64 \<Rightarrow> (transaction, workflow_error, unit) act" where
  "finish_workflow_tx D i status kind detail now =
     act_bind (workflow_instance_of i) (\<lambda>w.
       if is_terminal (wi_status w) then act_lift (Inl WfAlreadyTerminal)
       else persist_workflow_with_history D (wf_finished status detail now w) now kind detail)"

definition tx_complete_workflow :: "deps \<Rightarrow> bytes \<Rightarrow> bytes \<Rightarrow> i64 \<Rightarrow> (transaction, workflow_error, unit) act" where
  "tx_complete_workflow D i final_state now = finish_workflow_tx D i WfCompleted KCompleted final_state now"

definition tx_fail_workflow :: "deps \<Rightarrow> bytes \<Rightarrow> bytes \<Rightarrow> i64 \<Rightarrow> (transaction, workflow_error, unit) act" where
  "tx_fail_workflow D i err now = finish_workflow_tx D i WfFailed KFailed err now"

definition tx_cancel_workflow :: "deps \<Rightarrow> bytes \<Rightarrow> bytes \<Rightarrow> i64 \<Rightarrow> (transaction, workflow_error, bool) act" where
  "tx_cancel_workflow D i reason now =
     act_bind (workflow_instance_of i) (\<lambda>w.
       if is_terminal (wi_status w) then act_return False
       else act_bind (persist_workflow_with_history D (wf_cancelled now w) now KCancelled reason) (\<lambda>_. act_return True))"

end
