(* ===== verification/Workflow.thy ===== *)
theory Workflow
  imports Workflow_Model
begin

text \<open>
  Workflows as a state machine (\<open>workflow.rs\<close>, modelled in \<open>Workflow_Model\<close>). The abstract state maps
  an identifier to its instance and the list of its history entries; every operation, on the
  store or inside a transaction, is shown to make moves of the abstract machine.
\<close>

section \<open>Formats and keys\<close>

definition wf_instance :: "workflow_instance \<Rightarrow> bool" where
  "wf_instance w \<longleftrightarrow> length (wi_id w) = 16 \<and> (\<forall>p. wi_parent_id w = Some p \<longrightarrow> length p = 16)"

lemma wf_push_bytes_Inr: "wf_push_bytes v = Inr bs \<longleftrightarrow> (\<exists>l. u32_try_from_len (length v) = Some l \<and> bs = to_le l @ v)"
  by (auto simp: wf_push_bytes_def res_bind_Inr_iff ok_or_Inr_iff)

lemma wf_status_roundtrip [simp]: "workflow_status_try_from (workflow_status_u8 st) = Inr st"
  by (cases st) (simp_all add: workflow_status_try_from_def)

lemma wf_kind_roundtrip [simp]: "workflow_kind_try_from (workflow_kind_u8 kind) = Inr kind"
  by (cases kind) (simp_all add: workflow_kind_try_from_def)

lemma rd_wait_append:
  assumes "encode_wait wait = Inr bs"
  shows "rd_wait (bs @ rest) = Inr (wait, rest)"
  using assms
  by (auto simp: encode_wait_def rd_wait_def wf_read_bytes_def codec_simps res_bind_Inr_iff wf_push_bytes_Inr rd_bytes_append
      split: option.splits workflow_wait.splits)

lemma rd_parent_append:
  assumes "\<forall>p. parent = Some p \<longrightarrow> length p = 16"
  shows "rd_parent ((case parent of Some p \<Rightarrow> [1] @ p | None \<Rightarrow> [0]) @ rest) = Inr (parent, rest)"
  using assms by (auto simp: rd_parent_def codec_simps split: option.split)

lemma decode_instance_encode:
  assumes wf: "wf_instance w" and e: "encode_instance w = Inr bs"
  shows "decode_instance bs = Inr w"
proof -
  from e obtain lt ls lx wait where l: "u32_try_from_len (length (wi_workflow_type w)) = Some lt"
      "u32_try_from_len (length (wi_current_step w)) = Some ls" "u32_try_from_len (length (wi_state w)) = Some lx"
    and wait: "encode_wait (wi_wait w) = Inr wait"
    and bs: "bs = WF_VERSION # wi_id w @ workflow_status_u8 (wi_status w) # to_le (wi_created_at_ms w) @ to_le (wi_updated_at_ms w) @
      (case wi_parent_id w of Some parent \<Rightarrow> [1] @ parent | None \<Rightarrow> [0]) @ to_le lt @ wi_workflow_type w @ to_le ls @ wi_current_step w @
      to_le lx @ wi_state w @ wait @ []"
    by (auto simp: encode_instance_def res_bind_Inr_iff wf_push_bytes_Inr)
  let ?tail = "(case wi_parent_id w of Some parent \<Rightarrow> [1] @ parent | None \<Rightarrow> [0]) @ to_le lt @ wi_workflow_type w @ to_le ls @ wi_current_step w @
      to_le lx @ wi_state w @ wait @ []"
  have id: "length (wi_id w) = 16" using wf by (simp add: wf_instance_def)
  have w: "\<forall>p. wi_parent_id w = Some p \<longrightarrow> length p = 16" using wf by (simp add: wf_instance_def)
  have i: "bs ! 0 = WF_VERSION" "bs ! 17 = workflow_status_u8 (wi_status w)" "slice 1 17 bs = wi_id w"
    "slice 18 26 bs = to_le (wi_created_at_ms w)" "slice 26 34 bs = to_le (wi_updated_at_ms w)" "drop 34 bs = ?tail"
    using id unfolding bs by (simp_all add: slice_def nth_append nth_Cons' del: append_Nil2)
  have "35 \<le> length bs" unfolding bs using id by (simp split: option.split)
  then show ?thesis using i(1)
    unfolding decode_instance_def i(2-6)
    by (simp add: codec_simps rd_parent_append [OF w] wf_read_bytes_def rd_bytes_append [OF l(1)] rd_bytes_append [OF l(2)]
        rd_bytes_append [OF l(3)] rd_wait_append [OF wait] del: append_Nil2)
qed

lemma decode_instance_wf: "decode_instance bs = Inr w \<Longrightarrow> wf_instance w"
  by (auto simp: decode_instance_def wf_instance_def rd_parent_def res_bind_Inr_iff rd_bind_Inr_iff rd_take_def rd_return_def rd_fail_def slice_def
      split: if_splits)

lemma wf_decode_history_encode:
  assumes "wf_encode_history e = Inr bs"
  shows "wf_decode_history bs = Inr e"
proof -
  from assms obtain l where l: "u32_try_from_len (length (wh_detail e)) = Some l"
    and bs: "bs = WF_VERSION # to_le (wh_sequence e) @ to_le (wh_at_ms e) @ workflow_kind_u8 (wh_kind e) # to_le l @ wh_detail e @ []"
    by (auto simp: wf_encode_history_def res_bind_Inr_iff wf_push_bytes_Inr)
  have i: "bs ! 0 = WF_VERSION" "bs ! 17 = workflow_kind_u8 (wh_kind e)" "slice 1 9 bs = to_le (wh_sequence e)" "slice 9 17 bs = to_le (wh_at_ms e)"
    "drop 18 bs = to_le l @ wh_detail e @ []"
    unfolding bs by (simp_all add: slice_def nth_append nth_Cons' del: append_Nil2)
  have "18 \<le> length bs" unfolding bs by simp
  then show ?thesis using i(1) unfolding wf_decode_history_def i(2-5)
    by (simp add: wf_read_bytes_def rd_bytes_append [OF l] del: append_Nil2)
qed

interpretation workflow_codec: codec encode_instance decode_instance wf_instance
  by unfold_locales (rule decode_instance_encode)

interpretation workflow_history_codec: codec wf_encode_history wf_decode_history "\<lambda>_. True"
  by unfold_locales (rule wf_decode_history_encode)

definition wf_space :: "bytes \<Rightarrow> bool" where
  "wf_space k \<longleftrightarrow> prefix WF_INSTANCE_PREFIX k \<or> prefix WF_HISTORY_PREFIX k"

lemma wf_keys [simp]: "prefix WF_INSTANCE_PREFIX (instance_key i)" "prefix WF_HISTORY_PREFIX (wf_history_key i q)"
  "prefix (wf_history_prefix i) (wf_history_key i q)" "instance_key i = instance_key j \<longleftrightarrow> i = j"
  by (simp_all add: instance_key_def wf_history_key_def wf_history_prefix_def)

lemma wf_history_key_eq: "length i = length j \<Longrightarrow> wf_history_key i q = wf_history_key j r \<longleftrightarrow> i = j \<and> q = r"
  by (simp add: wf_history_key_def wf_history_prefix_def)

lemma wf_history_prefix_key: "length i = length j \<Longrightarrow> prefix (wf_history_prefix i) (wf_history_key j r) \<longleftrightarrow> i = j"
  by (auto simp: wf_history_key_def wf_history_prefix_def prefix_def append_eq_append_conv2 append_eq_conv_conj)

lemma wf_history_key_less: "wf_history_key i q < wf_history_key i r \<longleftrightarrow> q < r"
  by (simp add: wf_history_key_def to_be_less_iff)

lemma wf_spaces_disjoint: "prefix WF_INSTANCE_PREFIX k \<Longrightarrow> \<not> prefix WF_HISTORY_PREFIX k"
  by (rule other_space) (simp_all add: WF_INSTANCE_PREFIX_def WF_HISTORY_PREFIX_def ascii_def)

lemma wf_space_vis: "wf_space k \<Longrightarrow> not_cdc k"
  unfolding wf_space_def
  by (elim disjE; rule other_space; assumption?) (simp_all add: WF_INSTANCE_PREFIX_def WF_HISTORY_PREFIX_def CDC_PREFIX_def ascii_def)

lemma wf_key_ne [simp]: "instance_key i \<noteq> wf_history_key j q" "wf_history_key j q \<noteq> instance_key i"
  using wf_spaces_disjoint [of "instance_key i"] wf_keys(1,2) by metis+

lemma wf_sequence_key [simp]: "wf_decode_history_sequence i (wf_history_key i q) = Inr q"
  by (simp add: wf_decode_history_sequence_def wf_history_key_def)

section \<open>The abstract state\<close>

type_synonym workflow_map = "bytes \<Rightarrow> (workflow_instance \<times> workflow_history_entry list) option"

definition wf_entries :: "(bytes \<Rightarrow> bytes option) \<Rightarrow> bytes \<Rightarrow> workflow_history_entry list \<Rightarrow> bool" where
  "wf_entries g i es \<longleftrightarrow> es \<noteq> [] \<and> length es \<le> 2 ^ 64 \<and> (\<forall>n < length es. wh_sequence (es ! n) = of_nat n \<and>
     (\<exists>v. g (wf_history_key i (of_nat n)) = Some v \<and> wf_decode_history v = Inr (es ! n)))"

definition wf_rep :: "(bytes \<Rightarrow> bytes option) \<Rightarrow> workflow_map \<Rightarrow> bool" where
  "wf_rep g M \<longleftrightarrow>
     (\<forall>i w es. M i = Some (w, es) \<longrightarrow> wi_id w = i \<and> wf_instance w \<and>
        (\<exists>v. g (instance_key i) = Some v \<and> decode_instance v = Inr w) \<and> wf_entries g i es) \<and>
     (\<forall>k. prefix WF_INSTANCE_PREFIX k \<longrightarrow> g k \<noteq> None \<longrightarrow> (\<exists>i. k = instance_key i \<and> M i \<noteq> None)) \<and>
     (\<forall>k. prefix WF_HISTORY_PREFIX k \<longrightarrow> g k \<noteq> None \<longrightarrow>
        (\<exists>i w es n. M i = Some (w, es) \<and> n < length es \<and> k = wf_history_key i (of_nat n)))"

lemma wf_repD:
  assumes "wf_rep g M" and "M i = Some (w, es)"
  shows "wi_id w = i" and "wf_instance w" and "\<exists>v. g (instance_key i) = Some v \<and> decode_instance v = Inr w" and "wf_entries g i es" and "length i = 16"
  using assms unfolding wf_rep_def wf_instance_def by auto

lemma wf_rep_cong:
  assumes "\<And>k. wf_space k \<Longrightarrow> g' k = g k"
  shows "wf_rep g' M \<longleftrightarrow> wf_rep g M"
proof -
  have "g' (instance_key i) = g (instance_key i)" "g' (wf_history_key i q) = g (wf_history_key i q)" for i q
    using assms by (simp_all add: wf_space_def)
  moreover have "prefix WF_INSTANCE_PREFIX k \<Longrightarrow> g' k = g k" "prefix WF_HISTORY_PREFIX k \<Longrightarrow> g' k = g k" for k
    using assms by (simp_all add: wf_space_def)
  ultimately show ?thesis unfolding wf_rep_def wf_entries_def by simp
qed

lemma wf_rep_None: "wf_rep g M \<Longrightarrow> M i = None \<longleftrightarrow> g (instance_key i) = None"
  unfolding wf_rep_def by (metis (no_types, lifting) not_None_eq option.distinct(1) surj_pair wf_keys(1,4))

lemma unat_of_nat_history: "n < 2 ^ 64 \<Longrightarrow> unat (of_nat n :: u64) = n"
  by (simp add: unat_of_nat)

text \<open>Writing an instance and the next entry of its history.\<close>

lemma wf_rep_put:
  assumes rep: "wf_rep g M" and es: "es = (case M i of None \<Rightarrow> [] | Some (_, es) \<Rightarrow> es)" and room: "length es < 2 ^ 64"
    and w: "wf_instance w" "wi_id w = i" and ib: "encode_instance w = Inr ib"
    and e: "wh_sequence e = of_nat (length es)" "wf_encode_history e = Inr hb"
    and g: "\<And>k. wf_space k \<Longrightarrow> g' k = (if k = wf_history_key i (of_nat (length es)) then Some hb else if k = instance_key i then Some ib else g k)"
  shows "wf_rep g' (M(i \<mapsto> (w, es @ [e])))"
proof -
  have i16: "length i = 16" using w by (simp add: wf_instance_def)
  have gi: "g' (instance_key j) = (if j = i then Some ib else g (instance_key j))" for j
    using g [of "instance_key j"] by (simp add: wf_space_def)
  have gh: "g' (wf_history_key j q) = (if wf_history_key j q = wf_history_key i (of_nat (length es)) then Some hb else g (wf_history_key j q))" for j q
    using g [of "wf_history_key j q"] by (simp add: wf_space_def)
  have inj: "(of_nat n :: u64) = of_nat (length es) \<longleftrightarrow> n = length es" if "n < 2 ^ 64" for n
    using that room unat_of_nat_history by metis
  have new: "wf_entries g' i (es @ [e])"
    unfolding wf_entries_def
  proof (intro conjI allI impI)
    fix n assume n: "n < length (es @ [e])"
    show "wh_sequence ((es @ [e]) ! n) = of_nat n"
    proof (cases "n = length es")
      case False
      then have "M i \<noteq> None" "n < length es" using n es by (auto split: option.splits)
      then show ?thesis using wf_repD(4) [OF rep, of i] es by (auto simp: wf_entries_def nth_append split: option.splits)
    qed (simp add: e(1))
    show "\<exists>v. g' (wf_history_key i (of_nat n)) = Some v \<and> wf_decode_history v = Inr ((es @ [e]) ! n)"
    proof (cases "n = length es")
      case True
      then show ?thesis using gh [of i "of_nat n"] wf_decode_history_encode [OF e(2)] by simp
    next
      case False
      then have m: "M i \<noteq> None" "n < length es" using n es by (auto split: option.splits)
      then have "\<exists>v. g (wf_history_key i (of_nat n)) = Some v \<and> wf_decode_history v = Inr (es ! n)"
        using wf_repD(4) [OF rep, of i] es by (auto simp: wf_entries_def split: option.splits)
      moreover have "wf_history_key i (of_nat n) \<noteq> wf_history_key i (of_nat (length es))"
        using inj [of n] m room by (auto simp: wf_history_key_eq)
      ultimately show ?thesis using gh [of i "of_nat n"] m by (auto simp: nth_append)
    qed
  qed (use room in auto)
  show ?thesis unfolding wf_rep_def
  proof (intro conjI allI impI)
    fix j w' es'
    assume j: "(M(i \<mapsto> (w, es @ [e]))) j = Some (w', es')"
    show "wi_id w' = j" "wf_instance w'" "\<exists>v. g' (instance_key j) = Some v \<and> decode_instance v = Inr w'" "wf_entries g' j es'"
    proof -
      show "wi_id w' = j" "wf_instance w'" using j w wf_repD(1,2) [OF rep, of j] by (auto split: if_splits)
      show "\<exists>v. g' (instance_key j) = Some v \<and> decode_instance v = Inr w'"
        using j gi [of j] decode_instance_encode [OF w(1) ib] wf_repD(3) [OF rep, of j] by (auto split: if_splits)
      show "wf_entries g' j es'"
      proof (cases "j = i")
        case False
        then have M: "M j = Some (w', es')" using j by simp
        have "wf_history_key j q \<noteq> wf_history_key i r" for q r using False wf_repD(5) [OF rep M] i16 by (simp add: wf_history_key_eq)
        then show ?thesis using wf_repD(4) [OF rep M] gh [of j] by (simp add: wf_entries_def)
      qed (use j new in simp)
    qed
  next
    fix k assume "prefix WF_INSTANCE_PREFIX k" "g' k \<noteq> None"
    then show "\<exists>j. k = instance_key j \<and> (M(i \<mapsto> (w, es @ [e]))) j \<noteq> None"
      using rep g [of k] wf_spaces_disjoint [of k] unfolding wf_rep_def wf_space_def
      by (metis fun_upd_apply option.distinct(1) wf_keys(2))
  next
    fix k assume k: "prefix WF_HISTORY_PREFIX k" "g' k \<noteq> None"
    show "\<exists>j w' es' n. (M(i \<mapsto> (w, es @ [e]))) j = Some (w', es') \<and> n < length es' \<and> k = wf_history_key j (of_nat n)"
    proof (cases "k = wf_history_key i (of_nat (length es))")
      case True
      then show ?thesis by (intro exI [of _ i] exI [of _ w] exI [of _ "es @ [e]"] exI [of _ "length es"]) simp
    next
      case False
      then have "g k \<noteq> None" using k g [of k] wf_spaces_disjoint [of k] by (auto simp: wf_space_def split: if_splits)
      then obtain j w' es' n where j: "M j = Some (w', es')" "n < length es'" "k = wf_history_key j (of_nat n)"
        using rep k(1) unfolding wf_rep_def by blast
      show ?thesis
      proof (cases "j = i")
        case True
        then show ?thesis using j es by (intro exI [of _ i] exI [of _ w] exI [of _ "es @ [e]"] exI [of _ n]) auto
      qed (use j in auto)
    qed
  qed
qed

text \<open>The next sequence number, read off an ordered scan of the history.\<close>

context ordered_view
begin

lemma wf_sequence_after:
  assumes s: "ok s" and rep: "wf_rep (get s) M" and M: "M i = Some (w, es)"
  shows "sequence_after i (scan s (wf_history_prefix i)) = (if length es < 2 ^ 64 then Inr (of_nat (length es)) else Inl WfHistoryExhausted)"
proof -
  have E: "wf_entries (get s) i es" and i16: "length i = 16" using wf_repD(4,5) [OF rep M] by auto
  have E': "es \<noteq> []" "length es \<le> 2 ^ 64" using E unfolding wf_entries_def by blast+
  then obtain m where lm: "length es = Suc m" by (cases es) auto
  have m: "m < length es" "length es = Suc m" "m < 2 ^ 64" using lm E'(2) by linarith+
  obtain v where v: "get s (wf_history_key i (of_nat m)) = Some v" using E m(1) unfolding wf_entries_def by blast
  have le: "k \<le> wf_history_key i (of_nat m)" if k: "prefix (wf_history_prefix i) k" "get s k = Some v'" for k v'
  proof -
    have "prefix WF_HISTORY_PREFIX k" using k(1) by (auto simp: wf_history_prefix_def prefix_def)
    with rep k(2) obtain j w' es' n where j: "M j = Some (w', es')" "n < length es'" "k = wf_history_key j (of_nat n)"
      unfolding wf_rep_def by blast
    have "j = i" using k(1) j wf_repD(5) [OF rep j(1)] i16 wf_history_prefix_key [of i j] by simp
    then have "n \<le> m" using j(1,2) M m(2) by simp
    then have "(of_nat n :: u64) \<le> of_nat m" using m(3) by (simp add: word_le_nat_alt unat_of_nat_history)
    then show ?thesis using j(3) \<open>j = i\<close> wf_history_key_less [of i] by (metis leD leI)
  qed
  have "scan s (wf_history_prefix i) \<noteq> []" "fst (last (scan s (wf_history_prefix i))) = wf_history_key i (of_nat m)"
    using scan_last [OF s wf_keys(3) v le] by auto
  moreover have "checked_add (of_nat m :: u64) 1 = (if length es < 2 ^ 64 then Some (of_nat (length es)) else None)"
  proof -
    have u: "unat (of_nat m :: u64) = m" by (rule unat_of_nat_history [OF m(3)])
    show ?thesis by (simp add: checked_add_def u lm add.commute [of 1 "of_nat m"])
  qed
  ultimately show ?thesis by (simp add: sequence_after_def)
qed

end

section \<open>The abstract machine\<close>

inductive wf_move :: "workflow_instance \<Rightarrow> workflow_instance \<Rightarrow> workflow_kind \<Rightarrow> i64 \<Rightarrow> bytes \<Rightarrow> bool" where
  move_step: "\<not> is_terminal (wi_status w) \<Longrightarrow> step \<noteq> [] \<Longrightarrow> wf_move w (step_changed step st now w) KStepChanged now step"
| move_wait: "\<not> is_terminal (wi_status w) \<Longrightarrow> signal \<noteq> [] \<Longrightarrow> wf_move w (awaiting_signal signal now w) KWaitingSignal now signal"
| move_signal: "wi_wait w = Some (WaitSignal signal) \<Longrightarrow> wf_move w (signalled payload now w) KSignalReceived now signal"
| move_until: "\<not> is_terminal (wi_status w) \<Longrightarrow> wf_move w (awaiting_timer at now w) KWaitingTimer now (to_le at)"
| move_timer: "timer_due now w \<Longrightarrow> wf_move w (timer_fired now w) KTimerFired now []"
| move_complete: "\<not> is_terminal (wi_status w) \<Longrightarrow> wf_move w (wf_finished WfCompleted detail now w) KCompleted now detail"
| move_fail: "\<not> is_terminal (wi_status w) \<Longrightarrow> wf_move w (wf_finished WfFailed detail now w) KFailed now detail"
| move_cancel: "\<not> is_terminal (wi_status w) \<Longrightarrow> wf_move w (wf_cancelled now w) KCancelled now reason"

lemmas wf_changes = step_changed_def awaiting_signal_def signalled_def awaiting_timer_def timer_fired_def wf_finished_def wf_cancelled_def

lemma wf_move_keeps: "wf_move w w' kind now detail \<Longrightarrow> wi_id w' = wi_id w \<and> wi_parent_id w' = wi_parent_id w \<and>
    wi_workflow_type w' = wi_workflow_type w \<and> wi_created_at_ms w' = wi_created_at_ms w \<and> wi_updated_at_ms w' = now"
  by (induction rule: wf_move.induct) (simp_all add: wf_changes)

definition next_entry_of :: "workflow_history_entry list \<Rightarrow> i64 \<Rightarrow> workflow_kind \<Rightarrow> bytes \<Rightarrow> workflow_history_entry" where
  "next_entry_of es at kind detail = \<lparr>wh_sequence = of_nat (length es), wh_at_ms = at, wh_kind = kind, wh_detail = detail\<rparr>"

inductive wf_step :: "workflow_map \<Rightarrow> workflow_map \<Rightarrow> bool" where
  step_create: "M i = None \<Longrightarrow> ty \<noteq> [] \<Longrightarrow> st \<noteq> [] \<Longrightarrow>
    wf_step M (M(i \<mapsto> (new_workflow i ty st state parent now, [created_entry now])))"
| step_move: "M i = Some (w, es) \<Longrightarrow> wf_move w w' kind now detail \<Longrightarrow>
    wf_step M (M(i \<mapsto> (w', es @ [next_entry_of es now kind detail])))"

section \<open>Operations inside a transaction\<close>

text \<open>A transition that the code writes is a move of the machine.\<close>

lemma put_workflow_tx_get:
  assumes "put_workflow_tx D w e t = (Inr u, t')"
  obtains ib hb where "encode_instance w = Inr ib" and "wf_encode_history e = Inr hb"
    and "\<And>k. tx_get_internal t' k = (if k = wf_history_key (wi_id w) (wh_sequence e) then Some hb
      else if k = instance_key (wi_id w) then Some ib else tx_get_internal t k)"
proof -
  from assms obtain ib hb t1 where b: "encode_instance w = Inr ib" "tx_put_internal D (instance_key (wi_id w)) ib t = (Inr (), t1)"
    "wf_encode_history e = Inr hb" "tx_put_internal D (wf_history_key (wi_id w) (wh_sequence e)) hb t1 = (Inr u, t')"
    by (auto simp: put_workflow_tx_def act_bind_Inr_iff act_map_err_iff simp del: act_bind_lift)
  show ?thesis by (rule that [OF b(1,3)]) (use tx_kv.put_get [OF b(4)] tx_kv.put_get [OF b(2)] in simp)
qed

lemma staging_put_workflow [staging_intros]: "staging (put_workflow_tx D w e)"
  unfolding put_workflow_tx_def by (intro staging_intros)

lemma logging_put_workflow [logging_intros]: "logging D (put_workflow_tx D w e)"
  unfolding put_workflow_tx_def by (intro logging_intros)

definition tx_rep :: "transaction \<Rightarrow> workflow_map \<Rightarrow> bool" where
  "tx_rep t M \<longleftrightarrow> store_wf (tx_store t) \<and> wf_rep (tx_get_internal t) M"

lemma tx_ext_wf: "tx_ext ops t t' \<Longrightarrow> store_wf (tx_store t) \<Longrightarrow> store_wf (tx_store t')"
  by (simp add: tx_ext_def same_view_def store_wf_def)

lemma staging_wf: "staging a \<Longrightarrow> a t = (r, t') \<Longrightarrow> store_wf (tx_store t) \<Longrightarrow> store_wf (tx_store t')"
  using stagingD tx_ext_wf by blast

lemma tx_persist_move:
  assumes rep: "tx_rep t M" and M: "M (wi_id w) = Some (w, es)" and mv: "wf_move w w' kind now detail"
    and p: "persist_workflow_with_history D w' now kind detail t = (Inr u, t')"
  shows "tx_rep t' (M(wi_id w \<mapsto> (w', es @ [next_entry_of es now kind detail])))"
proof -
  have R: "store_wf (tx_store t)" "wf_rep (tx_get_internal t) M" using rep by (simp_all add: tx_rep_def)
  note K = wf_move_keeps [OF mv]
  have q: "next_workflow_history_sequence_tx t (wi_id w) = (if length es < 2 ^ 64 then Inr (of_nat (length es)) else Inl WfHistoryExhausted)"
    unfolding next_workflow_history_sequence_tx_def by (rule tx_view.wf_sequence_after [OF R M])
  then have room: "length es < 2 ^ 64" and b: "put_workflow_tx D w' (next_entry_of es now kind detail) t = (Inr u, t')"
    using p K by (auto simp: persist_workflow_with_history_def act_bind_def next_entry_of_def split: if_splits)
  obtain ib hb where P: "encode_instance w' = Inr ib" "wf_encode_history (next_entry_of es now kind detail) = Inr hb"
    "\<And>k. tx_get_internal t' k = (if k = wf_history_key (wi_id w') (wh_sequence (next_entry_of es now kind detail)) then Some hb
      else if k = instance_key (wi_id w') then Some ib else tx_get_internal t k)"
    using b by (rule put_workflow_tx_get) blast
  have wf: "wf_instance w'" using wf_repD(2) [OF R(2) M] K by (simp add: wf_instance_def)
  have "wf_rep (tx_get_internal t') (M(wi_id w \<mapsto> (w', es @ [next_entry_of es now kind detail])))"
    by (rule wf_rep_put [OF R(2) _ room wf _ P(1) _ P(2)]) (use M K P(3) in \<open>auto simp: next_entry_of_def\<close>)
  moreover have "store_wf (tx_store t')" by (rule staging_wf [OF staging_put_workflow b R(1)])
  ultimately show ?thesis by (simp add: tx_rep_def)
qed

lemma workflow_instance_of_Inr:
  assumes "tx_rep t M" and "workflow_instance_of i t = (Inr w, t')"
  obtains es where "M i = Some (w, es)" and "wi_id w = i" and "t' = t"
proof -
  have R: "wf_rep (tx_get_internal t) M" using assms(1) by (simp add: tx_rep_def)
  have t: "t' = t" and l: "res_bind (transpose_map decode_instance (tx_get_internal t (instance_key i))) (ok_or WfNotFound) = Inr w"
    using assms(2) unfolding workflow_instance_of_def by (metis prod.inject)+
  obtain v where v: "tx_get_internal t (instance_key i) = Some v" "decode_instance v = Inr w"
  proof (cases "tx_get_internal t (instance_key i)")
    case (Some v)
    then show ?thesis using l that by (cases "decode_instance v") simp_all
  qed (use l in simp)
  have "M i \<noteq> None" using wf_rep_None [OF R, of i] v(1) by simp
  then obtain w' es where M: "M i = Some (w', es)" by (metis not_None_eq surj_pair)
  have "w' = w" using wf_repD(3) [OF R M] v by auto
  then show ?thesis using that [of es] M t wf_repD(1) [OF R M] by blast
qed

datatype workflow_call =
    CallCreate bytes bytes bytes "bytes option" i64
  | CallSetStep bytes bytes bytes i64
  | CallWaitForSignal bytes bytes i64
  | CallSignal bytes bytes bytes i64
  | CallWaitUntil bytes i64 i64
  | CallComplete bytes bytes i64
  | CallFail bytes bytes i64
  | CallCancel bytes bytes i64

definition ignore_value :: "('s, 'e, 'a) act \<Rightarrow> ('s, 'e, unit) act" where
  "ignore_value a = act_bind a (\<lambda>_. act_return ())"

lemma ignore_value_state: "ignore_value a s = (r, s') \<Longrightarrow> \<exists>q. a s = (q, s')"
  by (auto simp: ignore_value_def act_bind_def act_return_def split: prod.splits sum.splits)

fun call_tx :: "deps \<Rightarrow> workflow_call \<Rightarrow> (transaction, workflow_error, unit) act" where
  "call_tx D (CallCreate ty step st parent now) = ignore_value (tx_create_workflow D ty step st parent now)"
| "call_tx D (CallSetStep i step st now) = tx_set_workflow_step D i step st now"
| "call_tx D (CallWaitForSignal i signal now) = tx_wait_for_signal D i signal now"
| "call_tx D (CallSignal i signal payload now) = ignore_value (tx_signal_workflow D i signal payload now)"
| "call_tx D (CallWaitUntil i at now) = tx_wait_until D i at now"
| "call_tx D (CallComplete i st now) = tx_complete_workflow D i st now"
| "call_tx D (CallFail i err now) = tx_fail_workflow D i err now"
| "call_tx D (CallCancel i reason now) = ignore_value (tx_cancel_workflow D i reason now)"

text \<open>A creation draws an identifier of 16 bytes that no instance has.\<close>

fun fresh_call :: "workflow_call \<Rightarrow> bytes option \<Rightarrow> (bytes \<Rightarrow> bytes option) \<Rightarrow> bool" where
  "fresh_call (CallCreate ty step st parent now) drawn_id g =
     ((\<forall>x. drawn_id = Some x \<longrightarrow> length x = 16 \<and> g (instance_key x) = None) \<and> (\<forall>p. parent = Some p \<longrightarrow> length p = 16))"
| "fresh_call c drawn_id g = True"

definition tx_next_id :: "transaction \<Rightarrow> bytes option" where
  "tx_next_id t = (case os_entropy (st_os (tx_store t)) of Some x # _ \<Rightarrow> Some x | _ \<Rightarrow> None)"

lemma tx_random_Inr: "tx_random e t = (Inr i, t') \<Longrightarrow> tx_next_id t = Some i"
  by (auto simp: tx_random_def tx_next_id_def ok_or_def split: list.splits option.splits)

lemma tx_create_step:
  assumes rep: "tx_rep t M" and fresh: "\<forall>x. tx_next_id t = Some x \<longrightarrow> length x = 16 \<and> tx_get_internal t (instance_key x) = None"
    and parent: "\<forall>p. parent = Some p \<longrightarrow> length p = 16" and c: "tx_create_workflow D ty step st parent now t = (Inr i, t')"
  shows "\<exists>M'. tx_rep t' M' \<and> wf_step M M'"
proof -
  have R: "store_wf (tx_store t)" "wf_rep (tx_get_internal t) M" using rep by (simp_all add: tx_rep_def)
  let ?w = "new_workflow i ty step st parent now"
  have ne: "ty \<noteq> []" "step \<noteq> []" using c by (auto simp: tx_create_workflow_def act_lift_def split: if_splits)
  with c obtain t1 where r: "tx_random WfEntropyUnavailable t = (Inr i, t1)" and b: "put_workflow_tx D ?w (created_entry now) t1 = (Inr (), t')"
    by (auto simp: tx_create_workflow_def act_bind_Inr_iff act_return_def)
  have i: "length i = 16" "M i = None" using fresh tx_random_Inr [OF r] wf_rep_None [OF R(2)] by auto
  have g1: "tx_get_internal t1 k = tx_get_internal t k" for k by (rule tx_random_get [OF r])
  obtain ib hb where P: "encode_instance ?w = Inr ib" "wf_encode_history (created_entry now) = Inr hb"
    "\<And>k. tx_get_internal t' k = (if k = wf_history_key (wi_id ?w) (wh_sequence (created_entry now)) then Some hb
      else if k = instance_key (wi_id ?w) then Some ib else tx_get_internal t1 k)"
    using b by (rule put_workflow_tx_get) blast
  have "wf_rep (tx_get_internal t') (M(i \<mapsto> (?w, [] @ [created_entry now])))"
    by (rule wf_rep_put [OF R(2) _ _ _ _ P(1) _ P(2)])
      (use i parent P(3) g1 in \<open>auto simp: new_workflow_def created_entry_def wf_instance_def\<close>)
  moreover have "store_wf (tx_store t')"
    using staging_wf [OF staging_random r R(1)] staging_wf [OF staging_put_workflow b] by blast
  moreover have "wf_step M (M(i \<mapsto> (?w, [created_entry now])))" using i(2) ne by (rule step_create)
  ultimately show ?thesis unfolding tx_rep_def by fastforce
qed

lemma ensure_active_Inr [simp]: "ensure_active w = Inr u \<longleftrightarrow> \<not> is_terminal (wi_status w)"
  by (simp add: ensure_active_def)

lemma tx_call_step:
  assumes rep: "tx_rep t M" and fresh: "fresh_call c (tx_next_id t) (tx_get_internal t)" and c: "call_tx D c t = (Inr u, t')"
  shows "\<exists>M'. tx_rep t' M' \<and> wf_step\<^sup>*\<^sup>* M M'"
proof -
  have one: ?thesis if w: "workflow_instance_of i t = (Inr w, t)" and p: "persist_workflow_with_history D w' now kind detail t = (Inr (), t')"
    and mv: "wf_move w w' kind now detail" for i w w' kind now detail
  proof -
    obtain es where es: "M i = Some (w, es)" "wi_id w = i" using rep w by (rule workflow_instance_of_Inr) blast
    then have "tx_rep t' (M(i \<mapsto> (w', es @ [next_entry_of es now kind detail])))"
      using tx_persist_move [OF rep _ mv p] by simp
    moreover have "wf_step M (M(i \<mapsto> (w', es @ [next_entry_of es now kind detail])))" using es(1) mv by (rule step_move)
    ultimately show ?thesis by blast
  qed
  have ld: "t1 = t" if "workflow_instance_of i t = (r, t1)" for i r t1 using that by (simp add: workflow_instance_of_def)
  have stay: ?thesis if "t' = t" using rep that by blast
  show ?thesis
  proof (cases c)
    case (CallCreate ty step st parent now)
    then obtain i where "tx_create_workflow D ty step st parent now t = (Inr i, t')" using c by (auto simp: ignore_value_def act_bind_Inr_iff act_return_def)
    from tx_create_step [OF rep _ _ this] fresh CallCreate show ?thesis by auto
  next
    case (CallSetStep i step st now)
    with c ld show ?thesis
      by (auto simp: tx_set_workflow_step_def act_bind_Inr_iff act_lift_def simp del: act_bind_lift split: if_splits intro!: one move_step)
  next
    case (CallWaitForSignal i signal now)
    with c ld show ?thesis
      by (auto simp: tx_wait_for_signal_def act_bind_Inr_iff act_lift_def simp del: act_bind_lift split: if_splits intro!: one move_wait)
  next
    case (CallSignal i signal payload now)
    show ?thesis
    proof (cases "t' = t")
      case False
      with CallSignal c ld show ?thesis
        by (auto simp: tx_signal_workflow_def ignore_value_def act_bind_Inr_iff act_return_def simp del: act_bind_lift split: if_splits intro!: one move_signal)
    qed (rule stay)
  next
    case (CallWaitUntil i at now)
    with c ld show ?thesis
      by (auto simp: tx_wait_until_def act_bind_Inr_iff act_lift_def simp del: act_bind_lift intro!: one move_until)
  next
    case (CallComplete i st now)
    with c ld show ?thesis
      by (auto simp: tx_complete_workflow_def finish_workflow_tx_def act_bind_Inr_iff act_lift_def simp del: act_bind_lift split: if_splits intro!: one move_complete)
  next
    case (CallFail i err now)
    with c ld show ?thesis
      by (auto simp: tx_fail_workflow_def finish_workflow_tx_def act_bind_Inr_iff act_lift_def simp del: act_bind_lift split: if_splits intro!: one move_fail)
  next
    case (CallCancel i reason now)
    show ?thesis
    proof (cases "t' = t")
      case False
      with CallCancel c ld show ?thesis
        by (auto simp: tx_cancel_workflow_def ignore_value_def act_bind_Inr_iff act_return_def simp del: act_bind_lift split: if_splits intro!: one move_cancel)
    qed (rule stay)
  qed
qed

section \<open>Operations of the store\<close>

definition store_rep :: "store \<Rightarrow> workflow_map \<Rightarrow> bool" where
  "store_rep s M \<longleftrightarrow> store_wf s \<and> wf_rep (store_get s) M"

lemma store_rep_cong:
  assumes "store_rep s M" and "store_wf s'" and "\<And>k. wf_space k \<Longrightarrow> store_get s' k = store_get s k"
  shows "store_rep s' M"
proof -
  have "wf_rep (store_get s') M = wf_rep (store_get s) M" by (rule wf_rep_cong [OF assms(3)])
  then show ?thesis using assms(1,2) by (simp add: store_rep_def)
qed

lemma run_tx_keeps_rep:
  assumes st: "staging body" and rep: "store_rep s M" and run: "run_tx D emit conv body s = (Inl e, s')"
  shows "store_rep s' M"
proof (rule store_rep_cong [OF rep])
  show "store_wf s'" using run_tx_wf [OF st _ run] rep by (simp add: store_rep_def)
  show "store_get s' k = store_get s k" for k by (rule run_tx_fail_get [OF st run])
qed

lemma run_tx_commits_rep:
  assumes st: "staging body" and run: "run_tx D emit conv body s = (Inr v, s')" and wf: "store_wf s"
    and body: "\<And>t. body (fresh_tx emit s) = (Inr v, t) \<Longrightarrow> tx_rep t M"
  shows "store_rep s' M"
proof -
  from run obtain t where t: "body (fresh_tx emit s) = (Inr v, t)" "\<And>k. not_cdc k \<Longrightarrow> store_get s' k = tx_get_internal t k"
    by (rule run_tx_view [OF st]) blast
  have "wf_rep (tx_get_internal t) M" using body [OF t(1)] by (simp add: tx_rep_def)
  moreover have "wf_rep (store_get s') M = wf_rep (tx_get_internal t) M"
    by (rule wf_rep_cong) (simp add: t(2) wf_space_vis)
  moreover have "store_wf s'" by (rule run_tx_wf [OF st wf run])
  ultimately show ?thesis by (simp add: store_rep_def)
qed

lemma fresh_tx_rep: "store_rep s M \<Longrightarrow> tx_rep (fresh_tx emit s) M"
proof -
  assume "store_rep s M"
  moreover have "wf_rep (tx_get_internal (fresh_tx emit s)) M = wf_rep (store_get s) M" by (rule wf_rep_cong) simp
  ultimately show ?thesis by (simp add: store_rep_def tx_rep_def store_wf_def)
qed

text \<open>The store writes a transition exactly as a transaction that does nothing else.\<close>

lemma next_sequence_eq:
  assumes "store_rep s M" and "M i = Some c"
  shows "next_workflow_history_sequence_tx (fresh_tx emit s) i = next_workflow_history_sequence s i"
proof -
  obtain w es where c: "c = (w, es)" by (cases c)
  have S: "store_wf s" "wf_rep (store_get s) M" using assms(1) by (simp_all add: store_rep_def)
  have T: "store_wf (tx_store (fresh_tx emit s))" "wf_rep (tx_get_internal (fresh_tx emit s)) M"
    using fresh_tx_rep [OF assms(1), of emit] by (simp_all add: tx_rep_def)
  show ?thesis
    unfolding next_workflow_history_sequence_tx_def next_workflow_history_sequence_def
    using store_view.wf_sequence_after [OF S, of i w es] tx_view.wf_sequence_after [OF T, of i w es] assms(2) c by simp
qed

lemma persist_instance_cases:
  assumes rep: "store_rep s M" and M: "M (wi_id w') = Some c" and p: "persist_instance_with_history D w' now kind detail s = (r, s')"
  shows "(\<exists>e. r = Inl e) \<and> store_rep s' M \<or>
    (\<exists>u. r = Inr u \<and> run_tx D True WfStore (persist_workflow_with_history D w' now kind detail) s = (Inr u, s'))"
proof -
  let ?e = "\<lambda>q. \<lparr>wh_sequence = q, wh_at_ms = now, wh_kind = kind, wh_detail = detail\<rparr>"
  note q = next_sequence_eq [OF rep M, of True]
  show ?thesis
  proof (cases "next_workflow_history_sequence s (wi_id w')")
    case (Inl e)
    then show ?thesis using p rep by (auto simp: persist_instance_with_history_def act_bind_def)
  next
    case (Inr n)
    then have run: "run_tx D True WfStore (put_workflow_tx D w' (?e n)) s = (r, s')" using p by (simp add: persist_instance_with_history_def act_bind_def)
    have b: "persist_workflow_with_history D w' now kind detail (fresh_tx True s) = put_workflow_tx D w' (?e n) (fresh_tx True s)"
      using q Inr by (simp add: persist_workflow_with_history_def act_bind_def)
    show ?thesis
    proof (cases r)
      case (Inl e)
      then show ?thesis using run_tx_keeps_rep [OF staging_put_workflow rep] run by auto
    next
      case (Inr u)
      have "run_tx D True WfStore (persist_workflow_with_history D w' now kind detail) s = run_tx D True WfStore (put_workflow_tx D w' (?e n)) s"
        using b by (rule run_tx_body_cong)
      then show ?thesis using run Inr by simp
    qed
  qed
qed

lemma staging_persist_workflow [staging_intros]: "staging (persist_workflow_with_history D w at kind detail)"
  unfolding persist_workflow_with_history_def by (intro staging_intros)

lemma persist_instance_move:
  assumes rep: "store_rep s M" and M: "M (wi_id w) = Some (w, es)" and mv: "wf_move w w' kind now detail"
    and p: "persist_instance_with_history D w' now kind detail s = (r, s')"
  shows "(\<exists>e. r = Inl e) \<and> store_rep s' M \<or>
    (\<exists>u. r = Inr u \<and> store_rep s' (M(wi_id w \<mapsto> (w', es @ [next_entry_of es now kind detail]))))"
proof -
  have "M (wi_id w') = Some (w, es)" using M wf_move_keeps [OF mv] by simp
  from persist_instance_cases [OF rep this p] show ?thesis
  proof
    assume "\<exists>u. r = Inr u \<and> run_tx D True WfStore (persist_workflow_with_history D w' now kind detail) s = (Inr u, s')"
    then obtain u where u: "r = Inr u" "run_tx D True WfStore (persist_workflow_with_history D w' now kind detail) s = (Inr u, s')" by blast
    have "store_rep s' (M(wi_id w \<mapsto> (w', es @ [next_entry_of es now kind detail])))"
      by (rule run_tx_commits_rep [OF staging_persist_workflow u(2)])
        (use rep tx_persist_move [OF fresh_tx_rep [OF rep] M mv] in \<open>auto simp: store_rep_def\<close>)
    then show ?thesis using u(1) by blast
  qed simp
qed

lemma get_workflow_rep:
  assumes "store_rep s M"
  shows "get_workflow s i = Inr (map_option fst (M i))"
proof (cases "M i")
  case None
  then show ?thesis using wf_rep_None [of "store_get s" M i] assms by (simp add: get_workflow_def store_rep_def)
next
  case (Some c)
  obtain w es where c: "c = (w, es)" by (cases c)
  then obtain v where "store_get s (instance_key i) = Some v" "decode_instance v = Inr w"
    using wf_repD(3) [of "store_get s" M i w es] assms Some by (auto simp: store_rep_def)
  then show ?thesis using Some c by (simp add: get_workflow_def)
qed

fun call_store :: "deps \<Rightarrow> workflow_call \<Rightarrow> (store, workflow_error, unit) act" where
  "call_store D (CallCreate ty step st parent now) = ignore_value (create_workflow D ty step st parent now)"
| "call_store D (CallSetStep i step st now) = set_workflow_step D i step st now"
| "call_store D (CallWaitForSignal i signal now) = wait_for_signal D i signal now"
| "call_store D (CallSignal i signal payload now) = ignore_value (signal_workflow D i signal payload now)"
| "call_store D (CallWaitUntil i at now) = wait_until D i at now"
| "call_store D (CallComplete i st now) = complete_workflow D i st now"
| "call_store D (CallFail i err now) = fail_workflow D i err now"
| "call_store D (CallCancel i reason now) = ignore_value (cancel_workflow D i reason now)"

definition wf_drawn :: "store \<Rightarrow> bytes option" where
  "wf_drawn s = (case os_entropy (st_os s) of Some x # _ \<Rightarrow> Some x | _ \<Rightarrow> None)"

lemma wf_random_id_cases:
  assumes "wf_random_id s = (r, s')"
  shows "\<And>k. store_get s' k = store_get s k" and "store_wf s \<Longrightarrow> store_wf s'" and "r = Inr i \<Longrightarrow> wf_drawn s = Some i"
  using assms by (auto simp: wf_random_id_def wf_drawn_def store_get_def store_wf_def ok_or_def split: list.splits option.splits)

lemma create_workflow_step:
  assumes rep: "store_rep s M" and fresh: "\<forall>x. wf_drawn s = Some x \<longrightarrow> length x = 16 \<and> store_get s (instance_key x) = None"
    and parent: "\<forall>p. parent = Some p \<longrightarrow> length p = 16" and c: "create_workflow D ty step st parent now s = (r, s')"
  shows "(\<exists>e. r = Inl e) \<and> store_rep s' M \<or> (\<exists>i. r = Inr i \<and> M i = None \<and> ty \<noteq> [] \<and> step \<noteq> [] \<and>
    store_rep s' (M(i \<mapsto> (new_workflow i ty step st parent now, [created_entry now]))))"
proof (cases "ty = [] \<or> step = []")
  case True
  then show ?thesis using c rep by (auto simp: create_workflow_def act_lift_def split: if_splits)
next
  case ne: False
  obtain x s1 where x: "wf_random_id s = (x, s1)" by fastforce
  note X = wf_random_id_cases [OF x]
  have rep1: "store_rep s1 M" by (rule store_rep_cong [OF rep]) (use X rep in \<open>auto simp: store_rep_def\<close>)
  show ?thesis
  proof (cases x)
    case (Inl e)
    then show ?thesis using c ne x rep1 by (auto simp: create_workflow_def act_bind_def)
  next
    case (Inr i)
    let ?w = "new_workflow i ty step st parent now" let ?b = "act_bind (put_workflow_tx D ?w (created_entry now)) (\<lambda>_. act_return i)"
    have st: "staging ?b" by (intro staging_intros)
    have i: "length i = 16" "M i = None" using fresh X(3) [OF Inr] wf_rep_None [of "store_get s" M i] rep by (auto simp: store_rep_def)
    have run: "run_tx D True WfStore ?b s1 = (r, s')" using c ne x Inr by (simp add: create_workflow_def act_bind_def)
    show ?thesis
    proof (cases r)
      case (Inl e)
      then show ?thesis using run_tx_keeps_rep [OF st rep1] run by auto
    next
      case (Inr v)
      have B: "tx_rep t (M(i \<mapsto> (?w, [created_entry now])))" if b: "?b (fresh_tx True s1) = (Inr v, t)" for t
      proof -
        have F: "store_wf (tx_store (fresh_tx True s1))" "wf_rep (tx_get_internal (fresh_tx True s1)) M"
          using fresh_tx_rep [OF rep1, of True] by (simp_all add: tx_rep_def)
        have p: "put_workflow_tx D ?w (created_entry now) (fresh_tx True s1) = (Inr (), t)" using b by (auto simp: act_bind_Inr_iff act_return_def)
        obtain ib hb where P: "encode_instance ?w = Inr ib" "wf_encode_history (created_entry now) = Inr hb"
          "\<And>k. tx_get_internal t k = (if k = wf_history_key (wi_id ?w) (wh_sequence (created_entry now)) then Some hb
            else if k = instance_key (wi_id ?w) then Some ib else tx_get_internal (fresh_tx True s1) k)"
          using p by (rule put_workflow_tx_get) blast
        have "wf_rep (tx_get_internal t) (M(i \<mapsto> (?w, [] @ [created_entry now])))"
          by (rule wf_rep_put [OF F(2) _ _ _ _ P(1) _ P(2)]) (use i parent P(3) in \<open>auto simp: new_workflow_def created_entry_def wf_instance_def\<close>)
        then show ?thesis using staging_wf [OF staging_put_workflow p F(1)] by (simp add: tx_rep_def)
      qed
      have "store_wf s1" using rep1 by (simp add: store_rep_def)
      then have "store_rep s' (M(i \<mapsto> (?w, [created_entry now])))" by (rule run_tx_commits_rep [OF st run [unfolded Inr] _ B])
      moreover have "v = i" using run Inr by (auto simp: run_tx_Inr_iff act_bind_Inr_iff act_return_def)
      ultimately show ?thesis using Inr i ne by auto
    qed
  qed
qed

lemma load_workflow_Inr:
  assumes rep: "store_rep s M" and "load_workflow i s = (Inr w, s')"
  obtains es where "M i = Some (w, es)" and "wi_id w = i" and "s' = s"
proof -
  have "s' = s" "res_bind (Inr (map_option fst (M i))) (ok_or WfNotFound) = Inr w"
    using assms(2) unfolding load_workflow_def get_workflow_rep [OF rep] by (metis prod.inject)+
  then obtain es where "M i = Some (w, es)" "s' = s" by (auto simp: ok_or_Inr_iff)
  then show ?thesis using that wf_repD(1) [of "store_get s" M i w es] rep by (simp add: store_rep_def)
qed

lemma call_store_step:
  assumes rep: "store_rep s M" and fresh: "fresh_call c (wf_drawn s) (store_get s)" and c: "call_store D c s = (r, s')"
  shows "\<exists>M'. store_rep s' M' \<and> wf_step\<^sup>*\<^sup>* M M'"
proof -
  have one: ?thesis if w: "M i = Some (w, es)" "wi_id w = i" and p: "persist_instance_with_history D w' now kind detail s = (q, s')"
    and mv: "wf_move w w' kind now detail" for i w w' kind now detail es q
  proof -
    have "wf_step M (M(i \<mapsto> (w', es @ [next_entry_of es now kind detail])))" using w(1) mv by (rule step_move)
    then show ?thesis using persist_instance_move [OF rep _ mv p, of es] w rep by auto
  qed
  have stay: ?thesis if "s' = s" using rep that by blast
  have ld: "\<exists>es. M i = Some (w, es) \<and> wi_id w = i \<and> s1 = s" if "load_workflow i s = (Inr w, s1)" for i w s1
    using load_workflow_Inr [OF rep that] by blast
  have bad: "s1 = s" if "load_workflow i s = (q, s1)" for i q s1 using that by (simp add: load_workflow_def)
  have loaded: ?thesis if b: "act_bind (load_workflow i) f s = (q, s')" and f: "\<And>w es. M i = Some (w, es) \<Longrightarrow> wi_id w = i \<Longrightarrow> f w s = (q, s') \<Longrightarrow> ?thesis"
    for i f and q :: "workflow_error + 'x"
  proof (cases "load_workflow i s")
    case (Pair l s1)
    then have "s1 = s" using bad by blast
    then show ?thesis using b f ld [of i] Pair stay by (cases l) (auto simp: act_bind_def)
  qed
  show ?thesis
  proof (cases c)
    case (CallCreate ty step st parent now)
    then obtain q where "create_workflow D ty step st parent now s = (q, s')" using c ignore_value_state by fastforce
    from create_workflow_step [OF rep _ _ this] fresh CallCreate
    consider "store_rep s' M" | i where "M i = None" "ty \<noteq> []" "step \<noteq> []" "store_rep s' (M(i \<mapsto> (new_workflow i ty step st parent now, [created_entry now])))"
      by auto
    then show ?thesis
    proof cases
      case 2
      have "wf_step M (M(i \<mapsto> (new_workflow i ty step st parent now, [created_entry now])))" using 2(1-3) by (rule step_create)
      then show ?thesis using 2(4) by blast
    qed blast
  next
    case (CallSetStep i step st now)
    show ?thesis
    proof (cases "step = []")
      case False
      with c CallSetStep have "act_bind (load_workflow i) (\<lambda>w. act_bind (act_lift (ensure_active w)) (\<lambda>_.
          persist_instance_with_history D (step_changed step st now w) now KStepChanged step)) s = (r, s')" by (simp add: set_workflow_step_def)
      then show ?thesis
        by (rule loaded) (auto simp: ensure_active_def act_lift_def split: if_splits intro: stay one [OF _ _ _ move_step [OF _ False]])
    qed (use c CallSetStep stay in \<open>auto simp: set_workflow_step_def act_lift_def\<close>)
  next
    case (CallWaitForSignal i signal now)
    show ?thesis
    proof (cases "signal = []")
      case False
      with c CallWaitForSignal have "act_bind (load_workflow i) (\<lambda>w. act_bind (act_lift (ensure_active w)) (\<lambda>_.
          persist_instance_with_history D (awaiting_signal signal now w) now KWaitingSignal signal)) s = (r, s')" by (simp add: wait_for_signal_def)
      then show ?thesis
        by (rule loaded) (auto simp: ensure_active_def act_lift_def split: if_splits intro: stay one [OF _ _ _ move_wait [OF _ False]])
    qed (use c CallWaitForSignal stay in \<open>auto simp: wait_for_signal_def act_lift_def\<close>)
  next
    case (CallWaitUntil i at now)
    with c have "act_bind (load_workflow i) (\<lambda>w. act_bind (act_lift (ensure_active w)) (\<lambda>_.
        persist_instance_with_history D (awaiting_timer at now w) now KWaitingTimer (to_le at))) s = (r, s')" by (simp add: wait_until_def)
    then show ?thesis
      by (rule loaded) (auto simp: ensure_active_def act_lift_def split: if_splits intro: stay one [OF _ _ _ move_until])
  next
    case (CallComplete i st now)
    with c have "act_bind (load_workflow i) (\<lambda>w. if is_terminal (wi_status w) then act_lift (Inl WfAlreadyTerminal)
        else persist_instance_with_history D (wf_finished WfCompleted st now w) now KCompleted st) s = (r, s')"
      by (simp add: complete_workflow_def finish_workflow_def)
    then show ?thesis
      by (rule loaded) (auto simp: act_lift_def split: if_splits intro: stay one [OF _ _ _ move_complete])
  next
    case (CallFail i err now)
    with c have "act_bind (load_workflow i) (\<lambda>w. if is_terminal (wi_status w) then act_lift (Inl WfAlreadyTerminal)
        else persist_instance_with_history D (wf_finished WfFailed err now w) now KFailed err) s = (r, s')"
      by (simp add: fail_workflow_def finish_workflow_def)
    then show ?thesis
      by (rule loaded) (auto simp: act_lift_def split: if_splits intro: stay one [OF _ _ _ move_fail])
  next
    case (CallSignal i signal payload now)
    then have "ignore_value (signal_workflow D i signal payload now) s = (r, s')" using c by simp
    from ignore_value_state [OF this] obtain q where q: "signal_workflow D i signal payload now s = (q, s')" by blast
    from q [unfolded signal_workflow_def] show ?thesis
    proof (rule loaded)
      fix w es
      assume w: "M i = Some (w, es)" "wi_id w = i" and f: "(if wi_wait w \<noteq> Some (WaitSignal signal) then act_return False
        else act_bind (persist_instance_with_history D (signalled payload now w) now KSignalReceived signal) (\<lambda>_. act_return True)) s = (q, s')"
      show ?thesis
      proof (cases "wi_wait w = Some (WaitSignal signal)")
        case True
        then obtain q' where "persist_instance_with_history D (signalled payload now w) now KSignalReceived signal s = (q', s')"
          using f by (auto simp: act_bind_def act_return_def split: prod.splits sum.splits)
        then show ?thesis by (rule one [OF w]) (rule move_signal [OF True])
      qed (use f stay in \<open>auto simp: act_return_def\<close>)
    qed
  next
    case (CallCancel i reason now)
    show ?thesis
    proof (cases "\<exists>w es. M i = Some (w, es) \<and> \<not> is_terminal (wi_status w)")
      case True
      then obtain w es where w: "M i = Some (w, es)" "\<not> is_terminal (wi_status w)" by blast
      have "wi_id w = i" using wf_repD(1) [of "store_get s" M i w es] w(1) rep by (simp add: store_rep_def)
      moreover obtain q where "persist_instance_with_history D (wf_cancelled now w) now KCancelled reason s = (q, s')"
        using c CallCancel w get_workflow_rep [OF rep, of i]
        by (auto simp: cancel_workflow_def ignore_value_def act_bind_def act_return_def split: prod.splits sum.splits)
      ultimately show ?thesis using one [OF w(1)] move_cancel [OF w(2)] by blast
    next
      case False
      then have "s' = s" using c CallCancel get_workflow_rep [OF rep, of i]
        by (cases "M i") (auto simp: cancel_workflow_def ignore_value_def act_bind_def act_return_def)
      then show ?thesis by (rule stay)
    qed
  qed
qed

section \<open>Resuming timers\<close>

lemma instances_listed:
  assumes rep: "store_rep s M"
  obtains ws where "map_result (\<lambda>(_, encoded). decode_instance encoded) (scan_prefix s WF_INSTANCE_PREFIX) = Inr ws"
    and "distinct (map wi_id ws)" and "\<And>w. w \<in> set ws \<longleftrightarrow> (\<exists>es. M (wi_id w) = Some (w, es))"
proof -
  have S: "store_wf s" "wf_rep (store_get s) M" using rep by (simp_all add: store_rep_def)
  let ?xs = "scan_prefix s WF_INSTANCE_PREFIX"
  have entry: "\<exists>w es. decode_instance v = Inr w \<and> k = instance_key (wi_id w) \<and> M (wi_id w) = Some (w, es)" if kv: "(k, v) \<in> set ?xs" for k v
  proof -
    have k: "prefix WF_INSTANCE_PREFIX k" "store_get s k = Some v" using kv in_scan_prefix_iff [OF S(1)] by auto
    then obtain i where i: "k = instance_key i" "M i \<noteq> None" using S(2) unfolding wf_rep_def by blast
    then obtain w es where M: "M i = Some (w, es)" by (metis not_None_eq surj_pair)
    then show ?thesis using wf_repD(1,3) [OF S(2) M] k(2) i(1) by auto
  qed
  define dec where "dec v = projr (decode_instance v)" for v
  have dec: "decode_instance v = Inr (dec v)" if "(k, v) \<in> set ?xs" for k v using entry [OF that] by (auto simp: dec_def)
  let ?ws = "map (\<lambda>(_, v). dec v) ?xs"
  have "map_result (\<lambda>(_, encoded). decode_instance encoded) ?xs = Inr ?ws"
    unfolding map_result_Inr_iff list_all2_conv_all_nth using dec by (auto simp: case_prod_unfold in_set_conv_nth) (metis nth_mem prod.collapse)
  moreover have key: "instance_key (wi_id (dec v)) = k \<and> (\<exists>es. M (wi_id (dec v)) = Some (dec v, es))" if "(k, v) \<in> set ?xs" for k v
    using entry [OF that] dec [OF that] by auto
  have "map instance_key (map wi_id ?ws) = map fst ?xs" using key by (auto simp: case_prod_unfold)
  then have "distinct (map wi_id ?ws)" using strict_sorted_scan [OF S(1), of WF_INSTANCE_PREFIX] by (metis strict_sorted_iff distinct_map)
  moreover have "w \<in> set ?ws \<longleftrightarrow> (\<exists>es. M (wi_id w) = Some (w, es))" for w
  proof
    assume "w \<in> set ?ws"
    then show "\<exists>es. M (wi_id w) = Some (w, es)" using key by force
  next
    assume "\<exists>es. M (wi_id w) = Some (w, es)"
    then obtain es v where "store_get s (instance_key (wi_id w)) = Some v" "decode_instance v = Inr w" using wf_repD(3) [OF S(2)] by blast
    then have "(instance_key (wi_id w), v) \<in> set ?xs" "dec v = w" using in_scan_prefix_iff [OF S(1)] by (auto simp: dec_def)
    then show "w \<in> set ?ws" by force
  qed
  ultimately show ?thesis by (rule that)
qed

lemma due_workflows_eq:
  assumes "map_result (\<lambda>(_, encoded). decode_instance encoded) es = Inr ws" and "length due \<le> limit"
  shows "due_workflows now limit due es = Inr (due @ take (limit - length due) (filter (timer_due now) ws))"
  using assms
proof (induction now limit due es arbitrary: ws rule: due_workflows.induct)
  case (2 now limit due k encoded rest)
  from "2.prems"(1) obtain w ws' where w: "decode_instance encoded = Inr w" "ws = w # ws'"
    "map_result (\<lambda>(_, encoded). decode_instance encoded) rest = Inr ws'" by (auto simp: res_bind_Inr_iff)
  show ?case
  proof (cases "length due = limit")
    case False
    then have "length (if timer_due now w then due @ [w] else due) \<le> limit" using "2.prems"(2) by auto
    from "2.IH" [OF False w(3) this] show ?thesis using False "2.prems"(2) w by (auto simp: Suc_diff_Suc take_Cons' diff_Suc split: nat.splits)
  qed simp
qed auto

definition at_most_fired :: "i64 \<Rightarrow> workflow_map \<Rightarrow> workflow_map \<Rightarrow> bool" where
  "at_most_fired now M M' \<longleftrightarrow> (\<forall>i. M' i = M i \<or> (\<exists>w es. M i = Some (w, es) \<and> timer_due now w \<and>
     M' i = Some (timer_fired now w, es @ [next_entry_of es now KTimerFired []])))"

lemma fire_timers:
  assumes "store_rep s M" and "distinct (map wi_id ds)" and "\<forall>w \<in> set ds. timer_due now w \<and> (\<exists>es. M (wi_id w) = Some (w, es))"
    and "act_for (\<lambda>w. persist_instance_with_history D (timer_fired now w) now KTimerFired []) ds s = (r, s')"
  shows "\<exists>M'. store_rep s' M' \<and> wf_step\<^sup>*\<^sup>* M M' \<and> at_most_fired now M M' \<and> (\<forall>i. i \<notin> wi_id ` set ds \<longrightarrow> M' i = M i) \<and>
    (\<forall>u. r = Inr u \<longrightarrow> (\<forall>w \<in> set ds. \<exists>es. M' (wi_id w) = Some (timer_fired now w, es)))"
  using assms
proof (induction ds arbitrary: s M)
  case Nil
  then show ?case by (auto simp: act_return_def at_most_fired_def)
next
  case (Cons w ds)
  obtain es where M: "M (wi_id w) = Some (w, es)" and due: "timer_due now w" using Cons.prems(3) by auto
  obtain q s1 where q: "persist_instance_with_history D (timer_fired now w) now KTimerFired [] s = (q, s1)" by fastforce
  let ?M = "M(wi_id w \<mapsto> (timer_fired now w, es @ [next_entry_of es now KTimerFired []]))"
  note P = persist_instance_move [OF Cons.prems(1) M move_timer [OF due] q]
  show ?case
  proof (cases q)
    case (Inl e)
    then have "store_rep s' M" "r = Inl e" using P Cons.prems(4) q by (auto simp: act_bind_def)
    then show ?thesis by (intro exI [of _ M]) (simp add: at_most_fired_def)
  next
    case (Inr u)
    then have s1: "store_rep s1 ?M" and l: "act_for (\<lambda>w. persist_instance_with_history D (timer_fired now w) now KTimerFired []) ds s1 = (r, s')"
      using P Cons.prems(4) q by (auto simp: act_bind_def)
    have dd: "distinct (map wi_id ds)" using Cons.prems(2) by simp
    have "\<forall>w' \<in> set ds. timer_due now w' \<and> (\<exists>es. ?M (wi_id w') = Some (w', es))" using Cons.prems(2,3) by (auto simp: image_iff)
    from Cons.IH [OF s1 dd this l] obtain M' where M': "store_rep s' M'" "wf_step\<^sup>*\<^sup>* ?M M'"
      "at_most_fired now ?M M'" "\<forall>i. i \<notin> wi_id ` set ds \<longrightarrow> M' i = ?M i" "\<forall>u. r = Inr u \<longrightarrow> (\<forall>w \<in> set ds. \<exists>es. M' (wi_id w) = Some (timer_fired now w, es))" by blast
    have "wf_step M ?M" using M move_timer [OF due] by (rule step_move)
    then have "wf_step\<^sup>*\<^sup>* M M'" using M'(2) by (rule converse_rtranclp_into_rtranclp)
    moreover have w: "M' (wi_id w) = ?M (wi_id w)" using M'(4) Cons.prems(2) by (metis distinct.simps(2) list.set_map list.simps(9))
    moreover have "at_most_fired now M M'"
      unfolding at_most_fired_def
    proof
      fix i
      show "M' i = M i \<or> (\<exists>w es. M i = Some (w, es) \<and> timer_due now w \<and> M' i = Some (timer_fired now w, es @ [next_entry_of es now KTimerFired []]))"
      proof (cases "i = wi_id w")
        case True
        then show ?thesis using w M due by auto
      next
        case False
        then show ?thesis using M'(3) unfolding at_most_fired_def by (metis fun_upd_other)
      qed
    qed
    ultimately show ?thesis using M' by (intro exI [of _ M']) auto
  qed
qed

theorem resume_due_spec:
  assumes rep: "store_rep s M" and c: "resume_due_workflows D now limit s = (r, s')"
  obtains M' where "store_rep s' M'" and "wf_step\<^sup>*\<^sup>* M M'" and "at_most_fired now M M'"
    and "\<And>rep i w es. r = Inr rep \<Longrightarrow> wr_resumed rep < limit \<Longrightarrow> M' i = Some (w, es) \<Longrightarrow> \<not> timer_due now w"
    and "\<And>rep. r = Inr rep \<Longrightarrow> wr_resumed rep \<le> limit"
proof -
  obtain ws where ws: "map_result (\<lambda>(_, encoded). decode_instance encoded) (scan_prefix s WF_INSTANCE_PREFIX) = Inr ws"
    "distinct (map wi_id ws)" "\<And>w. w \<in> set ws \<longleftrightarrow> (\<exists>es. M (wi_id w) = Some (w, es))"
    using rep by (rule instances_listed) blast
  let ?ds = "take limit (filter (timer_due now) ws)"
  have due: "due_workflows now limit [] (scan_prefix s WF_INSTANCE_PREFIX) = Inr ?ds" using due_workflows_eq [OF ws(1), of "[]" limit now] by simp
  obtain q where q: "act_for (\<lambda>w. persist_instance_with_history D (timer_fired now w) now KTimerFired []) ?ds s = (q, s')"
    and r: "\<And>rep. r = Inr rep \<Longrightarrow> q = Inr () \<and> wr_resumed rep = length ?ds"
    using c due by (auto simp: resume_due_workflows_def act_bind_def act_return_def split: prod.splits sum.splits)
  have d: "distinct (map wi_id ?ds)" using ws(2) by (simp add: take_map [symmetric] distinct_take distinct_map_filter)
  have "\<forall>w \<in> set ?ds. timer_due now w \<and> (\<exists>es. M (wi_id w) = Some (w, es))" using ws(3) by (auto dest!: in_set_takeD)
  from fire_timers [OF rep d this q] obtain M' where M': "store_rep s' M'" "wf_step\<^sup>*\<^sup>* M M'" "at_most_fired now M M'" "\<forall>i. i \<notin> wi_id ` set ?ds \<longrightarrow> M' i = M i"
    "\<forall>u. q = Inr u \<longrightarrow> (\<forall>w \<in> set ?ds. \<exists>es. M' (wi_id w) = Some (timer_fired now w, es))" by blast
  show ?thesis
  proof (rule that [OF M'(1,2,3)])
    fix rep i w es
    assume a: "r = Inr rep" "wr_resumed rep < limit" "M' i = Some (w, es)"
    have all: "?ds = filter (timer_due now) ws" using r [OF a(1)] a(2) by simp
    show "\<not> timer_due now w"
    proof (cases "i \<in> wi_id ` set ?ds")
      case True
      then obtain w0 where w0: "w0 \<in> set ?ds" "i = wi_id w0" by blast
      then have "w = timer_fired now w0" using M'(5) r [OF a(1)] a(3) by fastforce
      then show ?thesis by (simp add: timer_due_def timer_fired_def)
    next
      case False
      then have M: "M i = Some (w, es)" using M'(4) a(3) by simp
      then have "wi_id w = i" using wf_repD(1) [of "store_get s" M i w es] rep by (simp add: store_rep_def)
      then have "w \<in> set ws" using ws(3) M by auto
      then show ?thesis using False all \<open>wi_id w = i\<close> by auto
    qed
  next
    show "\<And>rep. r = Inr rep \<Longrightarrow> wr_resumed rep \<le> limit" using r by simp
  qed
qed

end
