(* ===== verification/Workflow_Machine.thy ===== *)
theory Workflow_Machine
  imports Workflow
begin

text \<open>
  What the abstract machine of \<open>Workflow\<close> guarantees: an instance is explained by its history, a
  finished instance never changes, the history that the store reports is the abstract one, and
  the operations of the store are those of a transaction that does nothing else.
\<close>

section \<open>Histories explain instances\<close>

fun entry_effect :: "workflow_history_entry \<Rightarrow> workflow_status \<times> workflow_wait option" where
  "entry_effect e =
     (case wh_kind e of
        KWaitingSignal \<Rightarrow> (WfWaiting, Some (WaitSignal (wh_detail e)))
      | KWaitingTimer \<Rightarrow> (WfWaiting, Some (WaitTimer (from_le (wh_detail e))))
      | KCompleted \<Rightarrow> (WfCompleted, None)
      | KFailed \<Rightarrow> (WfFailed, None)
      | KCancelled \<Rightarrow> (WfCancelled, None)
      | _ \<Rightarrow> (WfRunning, None))"

definition follows :: "workflow_history_entry \<Rightarrow> workflow_history_entry \<Rightarrow> bool" where
  "follows e e' \<longleftrightarrow> \<not> is_terminal (fst (entry_effect e)) \<and> wh_kind e' \<noteq> KCreated \<and>
     (wh_kind e' = KSignalReceived \<longrightarrow> snd (entry_effect e) = Some (WaitSignal (wh_detail e'))) \<and>
     (wh_kind e' = KTimerFired \<longrightarrow> (\<exists>t. snd (entry_effect e) = Some (WaitTimer t) \<and> sint t \<le> sint (wh_at_ms e')))"

definition explained :: "workflow_instance \<Rightarrow> workflow_history_entry list \<Rightarrow> bool" where
  "explained w es \<longleftrightarrow> es \<noteq> [] \<and> wh_kind (hd es) = KCreated \<and> wi_created_at_ms w = wh_at_ms (hd es) \<and>
     entry_effect (last es) = (wi_status w, wi_wait w) \<and> wi_updated_at_ms w = wh_at_ms (last es) \<and>
     (\<forall>n. Suc n < length es \<longrightarrow> follows (es ! n) (es ! Suc n))"

lemma move_effect:
  assumes "wf_move w w' kind now detail" and "entry_effect e = (wi_status w, wi_wait w)"
  shows "entry_effect (next_entry_of es now kind detail) = (wi_status w', wi_wait w')" and "follows e (next_entry_of es now kind detail)"
proof -
  have wait: "(\<exists>d. wh_kind e = KWaitingSignal \<and> wi_wait w = Some (WaitSignal d)) \<or> (\<exists>t. wh_kind e = KWaitingTimer \<and> wi_wait w = Some (WaitTimer t)) \<or> wi_wait w = None"
    using assms(2) by (cases "wh_kind e") auto
  have tm: "wi_wait w \<noteq> None \<Longrightarrow> \<not> is_terminal (wi_status w)"
    using assms(2) by (cases "wh_kind e") (auto simp: is_terminal_def)
  show "entry_effect (next_entry_of es now kind detail) = (wi_status w', wi_wait w')"
    using assms(1) by cases (simp_all add: next_entry_of_def wf_changes)
  show "follows e (next_entry_of es now kind detail)"
    using assms(1) unfolding follows_def assms(2) fst_conv snd_conv
    by cases (use tm in \<open>auto simp: next_entry_of_def timer_due_def is_terminal_def split: option.splits workflow_wait.splits\<close>)
qed

lemma explained_move:
  assumes x: "explained w es" and mv: "wf_move w w' kind now detail"
  shows "explained w' (es @ [next_entry_of es now kind detail])"
proof -
  let ?e = "next_entry_of es now kind detail"
  have ne: "es \<noteq> []" and e: "entry_effect (last es) = (wi_status w, wi_wait w)" using x by (simp_all add: explained_def)
  note E = move_effect [OF mv e, of es]
  have "follows ((es @ [?e]) ! n) ((es @ [?e]) ! Suc n)" if n: "Suc n < length (es @ [?e])" for n
  proof (cases "Suc n < length es")
    case True
    then show ?thesis using x by (simp add: explained_def nth_append)
  next
    case False
    then have "n = length es - 1" "Suc n = length es" using n by auto
    then have "(es @ [?e]) ! n = last es" "(es @ [?e]) ! Suc n = ?e" using ne by (simp_all add: nth_append last_conv_nth)
    then show ?thesis using E(2) by simp
  qed
  moreover have "wh_at_ms ?e = now" by (simp add: next_entry_of_def)
  ultimately show ?thesis using x ne E(1) wf_move_keeps [OF mv] by (simp add: explained_def del: entry_effect.simps)
qed

definition all_explained :: "workflow_map \<Rightarrow> bool" where
  "all_explained M \<longleftrightarrow> (\<forall>i w es. M i = Some (w, es) \<longrightarrow> explained w es)"

lemma step_explained: "wf_step M M' \<Longrightarrow> all_explained M \<Longrightarrow> all_explained M'"
proof (induction rule: wf_step.induct)
  case (step_create M i ty st state parent now)
  then show ?case by (auto simp: all_explained_def explained_def new_workflow_def created_entry_def)
next
  case (step_move M i w es w' kind now detail)
  then show ?case using explained_move [of w es] by (auto simp: all_explained_def)
qed

lemma steps_explained: "wf_step\<^sup>*\<^sup>* M M' \<Longrightarrow> all_explained M \<Longrightarrow> all_explained M'"
  by (induction rule: rtranclp_induct) (auto intro: step_explained)

lemma terminal_no_move:
  assumes "explained w es" and "is_terminal (wi_status w)"
  shows "\<not> wf_move w w' kind now detail"
proof
  assume "wf_move w w' kind now detail"
  then have "follows (last es) (next_entry_of es now kind detail)" using assms(1) by (intro move_effect(2)) (simp_all add: explained_def del: entry_effect.simps)
  then show False using assms by (simp add: follows_def explained_def del: entry_effect.simps)
qed

lemma steps_terminal:
  assumes "wf_step\<^sup>*\<^sup>* M M'" and "all_explained M" and "M i = Some (w, es)" and "is_terminal (wi_status w)"
  shows "M' i = Some (w, es)"
  using assms
proof (induction rule: rtranclp_induct)
  case (step M1 M2)
  have M1: "M1 i = Some (w, es)" using step by blast
  have x: "explained w es" using steps_explained [OF step.hyps(1) step.prems(1)] M1 by (simp add: all_explained_def)
  from step.hyps(2) show ?case
  proof cases
    case (step_create j ty st state parent now)
    then show ?thesis using M1 by auto
  next
    case (step_move j v fs v' kind now detail)
    have "j \<noteq> i" using step_move(2,3) M1 terminal_no_move [OF x step.prems(3)] by auto
    then show ?thesis using step_move(1) M1 by simp
  qed
qed

text \<open>Histories only grow.\<close>

lemma step_history: "wf_step M M' \<Longrightarrow> M i = Some (w, es) \<Longrightarrow> \<exists>w' fs. M' i = Some (w', es @ fs)"
  by (induction rule: wf_step.induct) auto

lemma steps_history: "wf_step\<^sup>*\<^sup>* M M' \<Longrightarrow> M i = Some (w, es) \<Longrightarrow> \<exists>w' fs. M' i = Some (w', es @ fs)"
proof (induction rule: rtranclp_induct)
  case (step M1 M2)
  then obtain w1 fs where "M1 i = Some (w1, es @ fs)" by blast
  from step_history [OF step.hyps(2) this] show ?case by auto
qed auto

section \<open>The history that the store reports\<close>

lemma workflow_history_rep:
  assumes rep: "store_rep s M" and M: "M i = Some (w, es)"
  shows "workflow_history s i = Inr es"
proof -
  have S: "store_wf s" "wf_rep (store_get s) M" using rep by (simp_all add: store_rep_def)
  have E: "wf_entries (store_get s) i es" and i16: "length i = 16" using wf_repD(4,5) [OF S(2) M] by auto
  have len: "length es \<le> 2 ^ 64" using E unfolding wf_entries_def by blast
  define val where "val n = the (store_get s (wf_history_key i (of_nat n)))" for n
  have val: "store_get s (wf_history_key i (of_nat n)) = Some (val n)" "wf_decode_history (val n) = Inr (es ! n)" "wh_sequence (es ! n) = of_nat n"
    if "n < length es" for n
    using E that by (auto simp: wf_entries_def val_def)
  let ?xs = "map (\<lambda>n. (wf_history_key i (of_nat n), val n)) [0..<length es]"
  have lt: "(of_nat m :: u64) < of_nat n" if "m < n" "n < length es" for m n
  proof -
    have "n < 2 ^ 64" "m < 2 ^ 64" using that len by linarith+
    then show ?thesis using that(1) by (simp add: word_less_nat_alt unat_of_nat_history)
  qed
  have "scan_prefix s (wf_history_prefix i) = ?xs"
  proof (rule store_view.scan_eqI [OF S(1)])
    show "sorted_wrt (<) (map fst ?xs)"
      using lt by (simp add: sorted_wrt_iff_nth_less wf_history_key_less)
    fix k v
    show "(k, v) \<in> set ?xs \<longleftrightarrow> prefix (wf_history_prefix i) k \<and> store_get s k = Some v"
    proof
      assume "(k, v) \<in> set ?xs"
      then show "prefix (wf_history_prefix i) k \<and> store_get s k = Some v" using val(1) by auto
    next
      assume k: "prefix (wf_history_prefix i) k \<and> store_get s k = Some v"
      then have "prefix WF_HISTORY_PREFIX k" by (auto simp: wf_history_prefix_def prefix_def)
      with S(2) k obtain j w' es' n where j: "M j = Some (w', es')" "n < length es'" "k = wf_history_key j (of_nat n)"
        unfolding wf_rep_def by blast
      have "j = i" using k j wf_repD(5) [OF S(2) j(1)] i16 wf_history_prefix_key [of i j] by simp
      then show "(k, v) \<in> set ?xs" using j M k val(1) by auto
    qed
  qed
  moreover have "map_result (\<lambda>(_, encoded). wf_decode_history encoded) ?xs = Inr es"
    unfolding map_result_Inr_iff list_all2_conv_all_nth using val(2) by simp
  moreover have "sort_key wh_sequence es = es"
  proof (rule sort_key_id_if_sorted)
    have "map wh_sequence es ! m \<le> map wh_sequence es ! n" if "m < n" "n < length es" for m n
      using lt [OF that] val(3) [of m] val(3) [of n] that by simp
    then show "sorted (map wh_sequence es)" by (simp add: sorted_wrt_iff_nth_less)
  qed
  ultimately show ?thesis by (simp add: workflow_history_def)
qed

section \<open>Sequences of operations\<close>

lemma workflow_instance_reads: "workflow_instance_of i =
    (\<lambda>t. (res_bind (transpose_map decode_instance (tx_get_internal t (instance_key i))) (ok_or WfNotFound), t))"
  by (simp add: fun_eq_iff workflow_instance_of_def)

lemma staging_instance [staging_intros]: "staging (workflow_instance_of i)"
  unfolding workflow_instance_reads by (intro staging_intros)

lemma logging_instance [logging_intros]: "logging D (workflow_instance_of i)"
  unfolding workflow_instance_reads by (intro logging_intros)

lemma staging_call [staging_intros]: "staging (call_tx D c)"
proof (cases c)
qed (auto simp: ignore_value_def tx_create_workflow_def tx_set_workflow_step_def tx_wait_for_signal_def tx_signal_workflow_def tx_wait_until_def
    tx_complete_workflow_def tx_fail_workflow_def finish_workflow_tx_def tx_cancel_workflow_def intro!: staging_intros)

lemma logging_persist_workflow [logging_intros]: "logging D (persist_workflow_with_history D w at kind detail)"
  unfolding persist_workflow_with_history_def by (intro logging_intros)

lemma logging_call [logging_intros]: "logging D (call_tx D c)"
proof (cases c)
qed (auto simp: ignore_value_def tx_create_workflow_def tx_set_workflow_step_def tx_wait_for_signal_def tx_signal_workflow_def tx_wait_until_def
    tx_complete_workflow_def tx_fail_workflow_def finish_workflow_tx_def tx_cancel_workflow_def intro!: logging_intros)

text \<open>Every creation on the way draws a fresh identifier.\<close>

fun fresh_path :: "deps \<Rightarrow> workflow_call list \<Rightarrow> transaction \<Rightarrow> bool" where
  "fresh_path D [] t = True"
| "fresh_path D (c # cs) t = (fresh_call c (tx_next_id t) (tx_get_internal t) \<and>
     (case call_tx D c t of (Inl e, t1) \<Rightarrow> True | (Inr u, t1) \<Rightarrow> fresh_path D cs t1))"

lemma tx_calls_step:
  assumes "tx_rep t M" and "fresh_path D cs t" and "act_for (call_tx D) cs t = (Inr u, t')"
  shows "\<exists>M'. tx_rep t' M' \<and> wf_step\<^sup>*\<^sup>* M M'"
  using assms
proof (induction cs arbitrary: t M)
  case (Cons c cs)
  then obtain u1 t1 where c: "call_tx D c t = (Inr u1, t1)" "act_for (call_tx D) cs t1 = (Inr u, t')"
    by (auto simp: act_bind_Inr_iff)
  have f: "fresh_call c (tx_next_id t) (tx_get_internal t)" "fresh_path D cs t1" using Cons.prems(2) c(1) by simp_all
  obtain M1 where M1: "tx_rep t1 M1" "wf_step\<^sup>*\<^sup>* M M1" using tx_call_step [OF Cons.prems(1) f(1) c(1)] by blast
  obtain M' where M': "tx_rep t' M'" "wf_step\<^sup>*\<^sup>* M1 M'" using Cons.IH [OF M1(1) f(2) c(2)] by blast
  show ?case using M'(1) rtranclp_trans [OF M1(2) M'(2)] by blast
qed (auto simp: act_return_def)

text \<open>Anything may happen to the store in between, as long as no workflow key changes.\<close>

inductive wf_op :: "deps \<Rightarrow> store \<Rightarrow> store \<Rightarrow> bool" for D where
  wf_op_call: "call_store D c s = (r, s') \<Longrightarrow> fresh_call c (wf_drawn s) (store_get s) \<Longrightarrow> wf_op D s s'"
| wf_op_resume: "resume_due_workflows D now limit s = (rr, s') \<Longrightarrow> wf_op D s s'"
| wf_op_tx: "run_tx D emit WfStore (act_for (call_tx D) cs) s = (r, s') \<Longrightarrow> fresh_path D cs (fresh_tx emit s) \<Longrightarrow> wf_op D s s'"
| wf_op_other: "store_wf s' \<Longrightarrow> (\<forall>k. wf_space k \<longrightarrow> store_get s' k = store_get s k) \<Longrightarrow> wf_op D s s'"

theorem wf_op_step:
  assumes op: "wf_op D s s'" and rep: "store_rep s M"
  shows "\<exists>M'. store_rep s' M' \<and> wf_step\<^sup>*\<^sup>* M M'"
  using op
proof cases
  case (wf_op_call c r)
  then show ?thesis using call_store_step [OF rep] by blast
next
  case (wf_op_resume now limit rr)
  obtain M' where "store_rep s' M'" "wf_step\<^sup>*\<^sup>* M M'" using rep wf_op_resume by (rule resume_due_spec)
  then show ?thesis by blast
next
  case (wf_op_tx emit cs r)
  have st: "staging (act_for (call_tx D) cs)" by (intro staging_intros)
  show ?thesis
  proof (cases r)
    case (Inl e)
    then show ?thesis using run_tx_keeps_rep [OF st rep] wf_op_tx(1) by blast
  next
    case (Inr u)
    have run: "run_tx D emit WfStore (act_for (call_tx D) cs) s = (Inr u, s')" using wf_op_tx(1) Inr by simp
    obtain t where t: "act_for (call_tx D) cs (fresh_tx emit s) = (Inr u, t)" using run by (auto simp: run_tx_Inr_iff)
    obtain M' where M': "tx_rep t M'" "wf_step\<^sup>*\<^sup>* M M'" using tx_calls_step [OF fresh_tx_rep [OF rep] wf_op_tx(2) t] by blast
    have "store_rep s' M'" by (rule run_tx_commits_rep [OF st run]) (use rep t M'(1) in \<open>auto simp: store_rep_def\<close>)
    then show ?thesis using M'(2) by blast
  qed
next
  case wf_op_other
  then show ?thesis using store_rep_cong [OF rep] by blast
qed

theorem wf_ops_steps:
  assumes "(wf_op D)\<^sup>*\<^sup>* s s'" and "store_rep s M"
  shows "\<exists>M'. store_rep s' M' \<and> wf_step\<^sup>*\<^sup>* M M'"
  using assms
proof (induction rule: rtranclp_induct)
  case (step s1 s2)
  then obtain M1 where M1: "store_rep s1 M1" "wf_step\<^sup>*\<^sup>* M M1" by blast
  obtain M2 where "store_rep s2 M2" "wf_step\<^sup>*\<^sup>* M1 M2" using wf_op_step [OF step.hyps(2) M1(1)] by blast
  then show ?case using M1(2) by (meson rtranclp_trans)
qed blast

definition workflow_inv :: "store \<Rightarrow> bool" where
  "workflow_inv s \<longleftrightarrow> (\<exists>M. store_rep s M \<and> all_explained M)"

lemma workflow_inv_empty:
  assumes "store_wf s" and "\<And>k. wf_space k \<Longrightarrow> store_get s k = None"
  shows "workflow_inv s"
  unfolding workflow_inv_def
  by (rule exI [of _ Map.empty]) (use assms in \<open>auto simp: store_rep_def wf_rep_def all_explained_def wf_space_def\<close>)

theorem workflow_inv_ops:
  assumes inv: "workflow_inv s" and ops: "(wf_op D)\<^sup>*\<^sup>* s s'"
  shows "workflow_inv s'"
    and "get_workflow s' i = Inr (Some w) \<Longrightarrow> \<exists>es. workflow_history s' i = Inr es \<and> explained w es"
    and "get_workflow s i = Inr (Some w) \<Longrightarrow> workflow_history s i = Inr es \<Longrightarrow>
      \<exists>w' fs. get_workflow s' i = Inr (Some w') \<and> workflow_history s' i = Inr (es @ fs)"
    and "get_workflow s i = Inr (Some w) \<Longrightarrow> is_terminal (wi_status w) \<Longrightarrow>
      get_workflow s' i = Inr (Some w) \<and> workflow_history s' i = workflow_history s i"
proof -
  obtain M where M: "store_rep s M" "all_explained M" using inv by (auto simp: workflow_inv_def)
  obtain M' where M': "store_rep s' M'" "wf_step\<^sup>*\<^sup>* M M'" using wf_ops_steps [OF ops M(1)] by blast
  have X: "all_explained M'" by (rule steps_explained [OF M'(2) M(2)])
  then show "workflow_inv s'" using M'(1) by (auto simp: workflow_inv_def)
  have some: "\<exists>es. N i = Some (w, es)" if "store_rep z N" "get_workflow z i = Inr (Some w)" for z N w
    using get_workflow_rep [OF that(1), of i] that(2) by (cases "N i") auto
  show "\<exists>es. workflow_history s' i = Inr es \<and> explained w es" if "get_workflow s' i = Inr (Some w)"
    using some [OF M'(1) that] workflow_history_rep [OF M'(1)] X by (auto simp: all_explained_def)
  show "\<exists>w' fs. get_workflow s' i = Inr (Some w') \<and> workflow_history s' i = Inr (es @ fs)"
    if g: "get_workflow s i = Inr (Some w)" and h: "workflow_history s i = Inr es"
  proof -
    obtain es0 where e: "M i = Some (w, es0)" using some [OF M(1) g] by blast
    then have "es0 = es" using workflow_history_rep [OF M(1) e] h by simp
    then obtain w' fs where "M' i = Some (w', es @ fs)" using steps_history [OF M'(2)] e by blast
    then show ?thesis using get_workflow_rep [OF M'(1), of i] workflow_history_rep [OF M'(1)] by auto
  qed
  show "get_workflow s' i = Inr (Some w) \<and> workflow_history s' i = workflow_history s i"
    if g: "get_workflow s i = Inr (Some w)" and t: "is_terminal (wi_status w)"
  proof -
    obtain es where e: "M i = Some (w, es)" using some [OF M(1) g] by blast
    have "M' i = Some (w, es)" by (rule steps_terminal [OF M'(2) M(2) e t])
    then show ?thesis using get_workflow_rep [OF M'(1), of i] workflow_history_rep [OF M'(1)] workflow_history_rep [OF M(1) e] by auto
  qed
qed

section \<open>Store operations and transactions agree\<close>

lemma load_bind_Inr:
  assumes "store_rep s M"
  shows "act_bind (load_workflow i) f s = (Inr u, s') \<longleftrightarrow> (\<exists>w es. M i = Some (w, es) \<and> f w s = (Inr u, s'))"
  by (cases "M i") (auto simp: act_bind_def load_workflow_def get_workflow_rep [OF assms])

lemma instance_bind_Inr:
  assumes "store_rep s M"
  shows "run_tx D True WfStore (act_bind (workflow_instance_of i) f) s = (Inr u, s') \<longleftrightarrow>
    (\<exists>w es. M i = Some (w, es) \<and> run_tx D True WfStore (f w) s = (Inr u, s'))"
proof -
  have "transpose_map decode_instance (store_get s (instance_key i)) = Inr (map_option fst (M i))"
    using get_workflow_rep [OF assms, of i] by (simp add: get_workflow_def)
  then have "workflow_instance_of i (fresh_tx True s) = (ok_or WfNotFound (map_option fst (M i)), fresh_tx True s)"
    by (simp add: workflow_instance_of_def)
  then show ?thesis by (cases "M i") (auto simp: run_tx_Inr_iff act_bind_def)
qed

lemma persist_equivalent:
  assumes rep: "store_rep s M" and M: "M (wi_id w) = Some c"
  shows "persist_instance_with_history D w now kind detail s = (Inr u, s') \<longleftrightarrow>
    run_tx D True WfStore (persist_workflow_with_history D w now kind detail) s = (Inr u, s')"
proof
  assume "persist_instance_with_history D w now kind detail s = (Inr u, s')"
  from persist_instance_cases [OF rep M this] show "run_tx D True WfStore (persist_workflow_with_history D w now kind detail) s = (Inr u, s')" by auto
next
  assume "run_tx D True WfStore (persist_workflow_with_history D w now kind detail) s = (Inr u, s')"
  then show "persist_instance_with_history D w now kind detail s = (Inr u, s')"
    using next_sequence_eq [OF rep M, of True]
    by (cases "next_workflow_history_sequence s (wi_id w)")
      (auto simp: run_tx_Inr_iff persist_workflow_with_history_def persist_instance_with_history_def act_bind_def)
qed

lemma bind_return_Inr:
  "act_bind a (\<lambda>_. act_return v) s = (Inr r, s') \<longleftrightarrow> r = v \<and> (\<exists>u. a s = (Inr u, s'))"
  by (auto simp: act_bind_Inr_iff act_return_def)

lemma run_bind_return_Inr:
  "run_tx D emit conv (act_bind a (\<lambda>_. act_return v)) s = (Inr r, s') \<longleftrightarrow> r = v \<and> (\<exists>u. run_tx D emit conv a s = (Inr u, s'))"
  by (auto simp: run_tx_Inr_iff bind_return_Inr)

lemma create_equivalent:
  "create_workflow D ty step st parent now s = (Inr i, s') \<longleftrightarrow> run_tx D True WfStore (tx_create_workflow D ty step st parent now) s = (Inr i, s')"
proof (cases "ty = [] \<or> step = []")
  case True
  then show ?thesis by (auto simp: create_workflow_def tx_create_workflow_def act_lift_def run_tx_Inr_iff split: if_splits)
next
  case False
  have r: "tx_random WfEntropyUnavailable (fresh_tx True s) = (fst (wf_random_id s), fresh_tx True (snd (wf_random_id s)))"
    by (auto simp: tx_random_def wf_random_id_def fresh_tx_def split: list.split)
  have n: "st_next_tx_id (snd (wf_random_id s)) = st_next_tx_id s" by (auto simp: wf_random_id_def split: list.split)
  show ?thesis
  proof (cases "wf_random_id s")
    case (Pair x s1)
    then show ?thesis using False r n
      by (cases x) (auto simp: create_workflow_def tx_create_workflow_def act_bind_def run_tx_Inr_iff)
  qed
qed

lemma guard_bind_Inr: "act_bind (act_lift g) f s = (Inr u, s') \<longleftrightarrow> (\<exists>v. g = Inr v \<and> f v s = (Inr u, s'))"
  by (auto simp: act_bind_def act_lift_def split: sum.splits)

lemma run_guard_bind_Inr:
  "run_tx D emit conv (act_bind (act_lift g) f) s = (Inr u, s') \<longleftrightarrow> (\<exists>v. g = Inr v \<and> run_tx D emit conv (f v) s = (Inr u, s'))"
  by (cases g) (auto simp: run_tx_Inr_iff act_bind_def act_lift_def)

lemma run_reject [simp]: "run_tx D emit conv (act_lift (Inl e)) s \<noteq> (Inr u, s')"
  by (auto simp: run_tx_Inr_iff act_lift_def)

text \<open>The shape all the updates share: load, check, write the changed instance with its entry.\<close>

lemma update_equivalent:
  assumes rep: "store_rep s M" and same: "\<And>w. wi_id (change w) = wi_id w"
  shows "act_bind (load_workflow i) (\<lambda>w. act_bind (act_lift (ensure_active w)) (\<lambda>_. persist_instance_with_history D (change w) now kind detail)) s = (Inr u, s') \<longleftrightarrow>
    run_tx D True WfStore (act_bind (workflow_instance_of i) (\<lambda>w. act_bind (act_lift (ensure_active w)) (\<lambda>_. persist_workflow_with_history D (change w) now kind detail))) s = (Inr u, s')"
proof -
  have "wi_id w = i" if "M i = Some (w, es)" for w es using that rep by (auto simp: store_rep_def wf_rep_def)
  then show ?thesis
    unfolding load_bind_Inr [OF rep] instance_bind_Inr [OF rep] guard_bind_Inr run_guard_bind_Inr
    using persist_equivalent [OF rep, of "change w" for w] same by (metis (no_types, lifting))
qed

lemma flagged_equivalent:
  assumes rep: "store_rep s M" and same: "\<And>w. wi_id (change w) = wi_id w"
  shows "act_bind (load_workflow i) (\<lambda>w. if bad w then act_return False else act_bind (persist_instance_with_history D (change w) now kind detail) (\<lambda>_. act_return True)) s = (Inr True, s') \<longleftrightarrow>
    run_tx D True WfStore (act_bind (workflow_instance_of i) (\<lambda>w. if bad w then act_return False else act_bind (persist_workflow_with_history D (change w) now kind detail) (\<lambda>_. act_return True))) s = (Inr True, s')"
proof -
  have i: "wi_id w = i" if "M i = Some (w, es)" for w es using that rep by (auto simp: store_rep_def wf_rep_def)
  have no: "act_return False s \<noteq> (Inr True, s')" "run_tx D True WfStore (act_return False) s \<noteq> (Inr True, s')"
    by (auto simp: act_return_def run_tx_Inr_iff)
  have "(if bad w then act_return False else act_bind (persist_instance_with_history D (change w) now kind detail) (\<lambda>_. act_return True)) s = (Inr True, s') \<longleftrightarrow>
      run_tx D True WfStore (if bad w then act_return False else act_bind (persist_workflow_with_history D (change w) now kind detail) (\<lambda>_. act_return True)) s = (Inr True, s')"
    if "M i = Some (w, es)" for w es
    using persist_equivalent [OF rep, of "change w"] same i [OF that] that no by (simp add: bind_return_Inr run_bind_return_Inr)
  then show ?thesis unfolding load_bind_Inr [OF rep] instance_bind_Inr [OF rep] by (metis (no_types, lifting))
qed

lemma finish_equivalent:
  assumes rep: "store_rep s M"
  shows "finish_workflow D i st kind detail now s = (Inr u, s') \<longleftrightarrow> run_tx D True WfStore (finish_workflow_tx D i st kind detail now) s = (Inr u, s')"
proof -
  have "finish_workflow D i st kind detail now = act_bind (load_workflow i) (\<lambda>w. act_bind (act_lift (ensure_active w)) (\<lambda>_.
      persist_instance_with_history D (wf_finished st detail now w) now kind detail))"
    "finish_workflow_tx D i st kind detail now = act_bind (workflow_instance_of i) (\<lambda>w. act_bind (act_lift (ensure_active w)) (\<lambda>_.
      persist_workflow_with_history D (wf_finished st detail now w) now kind detail))"
    by (auto simp: finish_workflow_def finish_workflow_tx_def ensure_active_def act_bind_def act_lift_def fun_eq_iff split: prod.splits sum.splits)
  then show ?thesis using update_equivalent [OF rep, of "wf_finished st detail now"] by (simp add: wf_finished_def)
qed

lemma store_tx_equivalent:
  assumes rep: "store_rep s M"
  shows "set_workflow_step D i step st now s = (Inr u, s') \<longleftrightarrow> run_tx D True WfStore (tx_set_workflow_step D i step st now) s = (Inr u, s')"
    and "wait_for_signal D i signal now s = (Inr u, s') \<longleftrightarrow> run_tx D True WfStore (tx_wait_for_signal D i signal now) s = (Inr u, s')"
    and "wait_until D i at now s = (Inr u, s') \<longleftrightarrow> run_tx D True WfStore (tx_wait_until D i at now) s = (Inr u, s')"
    and "complete_workflow D i st now s = (Inr u, s') \<longleftrightarrow> run_tx D True WfStore (tx_complete_workflow D i st now) s = (Inr u, s')"
    and "fail_workflow D i err now s = (Inr u, s') \<longleftrightarrow> run_tx D True WfStore (tx_fail_workflow D i err now) s = (Inr u, s')"
    and "signal_workflow D i signal payload now s = (Inr True, s') \<longleftrightarrow> run_tx D True WfStore (tx_signal_workflow D i signal payload now) s = (Inr True, s')"
    and "cancel_workflow D i reason now s = (Inr True, s') \<longleftrightarrow> run_tx D True WfStore (tx_cancel_workflow D i reason now) s = (Inr True, s')"
proof -
  show "set_workflow_step D i step st now s = (Inr u, s') \<longleftrightarrow> run_tx D True WfStore (tx_set_workflow_step D i step st now) s = (Inr u, s')"
    using update_equivalent [OF rep, of "step_changed step st now"]
    by (simp add: set_workflow_step_def tx_set_workflow_step_def wf_changes act_lift_def run_tx_Inr_iff)
  show "wait_for_signal D i signal now s = (Inr u, s') \<longleftrightarrow> run_tx D True WfStore (tx_wait_for_signal D i signal now) s = (Inr u, s')"
    using update_equivalent [OF rep, of "awaiting_signal signal now"]
    by (simp add: wait_for_signal_def tx_wait_for_signal_def wf_changes act_lift_def run_tx_Inr_iff)
  show "wait_until D i at now s = (Inr u, s') \<longleftrightarrow> run_tx D True WfStore (tx_wait_until D i at now) s = (Inr u, s')"
    using update_equivalent [OF rep, of "awaiting_timer at now"]
    by (simp add: wait_until_def tx_wait_until_def awaiting_timer_def)
  show "complete_workflow D i st now s = (Inr u, s') \<longleftrightarrow> run_tx D True WfStore (tx_complete_workflow D i st now) s = (Inr u, s')"
    "fail_workflow D i err now s = (Inr u, s') \<longleftrightarrow> run_tx D True WfStore (tx_fail_workflow D i err now) s = (Inr u, s')"
    unfolding complete_workflow_def tx_complete_workflow_def fail_workflow_def tx_fail_workflow_def by (rule finish_equivalent [OF rep])+
  show "signal_workflow D i signal payload now s = (Inr True, s') \<longleftrightarrow> run_tx D True WfStore (tx_signal_workflow D i signal payload now) s = (Inr True, s')"
    using flagged_equivalent [OF rep, of "signalled payload now" i "\<lambda>w. wi_wait w \<noteq> Some (WaitSignal signal)"]
    by (simp add: signal_workflow_def tx_signal_workflow_def signalled_def cong: if_weak_cong)
  have "cancel_workflow D i reason now s = (Inr True, s') \<longleftrightarrow> act_bind (load_workflow i) (\<lambda>w. if is_terminal (wi_status w) then act_return False
      else act_bind (persist_instance_with_history D (wf_cancelled now w) now KCancelled reason) (\<lambda>_. act_return True)) s = (Inr True, s')"
    by (cases "M i") (auto simp: cancel_workflow_def load_workflow_def get_workflow_rep [OF rep] act_bind_def act_return_def)
  then show "cancel_workflow D i reason now s = (Inr True, s') \<longleftrightarrow> run_tx D True WfStore (tx_cancel_workflow D i reason now) s = (Inr True, s')"
    using flagged_equivalent [OF rep, of "wf_cancelled now" i "\<lambda>w. is_terminal (wi_status w)"]
    by (simp add: tx_cancel_workflow_def wf_cancelled_def)
qed

section \<open>Recovery\<close>

lemma keeps_wf_random [keeps_intros]: "keeps (recoverable D) wf_random_id"
  unfolding keeps_def
  by (auto simp: wf_random_id_def recoverable_def durable_def store_log_def file_holds_def counters_ahead_def benign_def split: list.splits)

lemma keeps_load_workflow [keeps_intros]: "keeps P (load_workflow i)"
  by (simp add: keeps_def load_workflow_def)

lemma keeps_persist_workflow [keeps_intros]: "keeps (recoverable D) (persist_instance_with_history D w at kind detail)"
  unfolding persist_instance_with_history_def by (intro keeps_intros logging_intros)

lemma keeps_workflow:
  "keeps (recoverable D) (call_store D c)" "keeps (recoverable D) (resume_due_workflows D now limit)"
  by (cases c) (auto simp: ignore_value_def create_workflow_def set_workflow_step_def wait_for_signal_def signal_workflow_def wait_until_def
    complete_workflow_def fail_workflow_def finish_workflow_def cancel_workflow_def resume_due_workflows_def
    intro!: keeps_intros logging_intros)

end
