(* ===== verification/Data_Properties.thy ===== *)
theory Data_Properties
  imports Workflow_Machine Service_Progress
begin

text \<open>
  Properties of the layers that keep structured data: workflows and their histories.
\<close>

section \<open>A workflow on a healthy store\<close>

definition small_workflow :: "workflow_instance \<Rightarrow> bool" where
  "small_workflow w \<longleftrightarrow> length (wi_id w) = 16 \<and> (\<forall>p. wi_parent_id w = Some p \<longrightarrow> length p = 16) \<and>
     length (wi_workflow_type w) < 2 ^ 28 \<and> length (wi_current_step w) < 2 ^ 28 \<and> length (wi_state w) < 2 ^ 28 \<and>
     (\<forall>name. wi_wait w = Some (WaitSignal name) \<longrightarrow> length name < 2 ^ 28)"

lemma wf_push_bytes_ok: "length v < 2 ^ 28 \<Longrightarrow> wf_push_bytes v = Inr (to_le (of_nat (length v) :: u32) @ v)"
  by (simp add: wf_push_bytes_def u32_try_from_len_def)

lemma encode_wait_ok:
  assumes "\<forall>name. wait = Some (WaitSignal name) \<longrightarrow> length name < 2 ^ 28"
  obtains bs where "encode_wait wait = Inr bs" and "length bs < 2 ^ 28 + 10"
proof -
  consider "wait = None" | name where "wait = Some (WaitSignal name)" | at where "wait = Some (WaitTimer at)"
    by (cases wait) (auto, metis workflow_wait.exhaust)
  then show ?thesis using that assms by cases (simp_all add: encode_wait_def wf_push_bytes_ok)
qed

lemma encode_instance_ok:
  assumes "small_workflow w"
  obtains bs where "encode_instance w = Inr bs" and "length bs < 2 ^ 30 + 200"
proof -
  obtain wb where wb: "encode_wait (wi_wait w) = Inr wb" "length wb < 2 ^ 28 + 10"
    by (rule encode_wait_ok [of "wi_wait w"]) (use assms in \<open>auto simp: small_workflow_def\<close>)
  then show ?thesis using that assms
    by (auto simp: encode_instance_def small_workflow_def wf_push_bytes_ok split: option.splits)
qed

lemma can_put_workflow:
  assumes w: "small_workflow w" and e: "length (wh_detail e) < 2 ^ 28"
  shows "can 2 (put_workflow_tx D w e) t ()"
proof -
  obtain ib where ib: "encode_instance w = Inr ib" "length ib < 2 ^ 30 + 200" using w by (rule encode_instance_ok)
  have hb: "wf_encode_history e = Inr ([WF_VERSION] @ to_le (wh_sequence e) @ to_le (wh_at_ms e) @ [workflow_kind_u8 (wh_kind e)] @ to_le (of_nat (length (wh_detail e)) :: u32) @ wh_detail e)"
    using e by (simp add: wf_encode_history_def wf_push_bytes_ok)
  have "can (1 + 1) (put_workflow_tx D w e) t ()"
    unfolding put_workflow_tx_def ib(1) hb act_bind_lift sum.case
    by (rule can_bind [OF can_map_err [OF can_put] can_map_err [OF can_put]])
      (use w e ib(2) in \<open>simp_all add: small_workflow_def instance_key_def wf_history_key_def wf_history_prefix_def WF_INSTANCE_PREFIX_def WF_HISTORY_PREFIX_def ascii_def\<close>)
  then show ?thesis by (simp add: numeral_2_eq_2)
qed

lemma persist_ok:
  assumes rep: "store_rep s M" and M: "M (wi_id w) = Some (w0, es)" "length es < 2 ^ 64" and sha: "sha_ok D" and h: "healthy (n + 6) s"
    and l: "small_workflow w" "length detail < 2 ^ 28"
  shows "\<exists>s'. persist_instance_with_history D w now kind detail s = (Inr (), s') \<and> healthy n s'"
proof -
  let ?e = "\<lparr>wh_sequence = of_nat (length es), wh_at_ms = now, wh_kind = kind, wh_detail = detail\<rparr>"
  have "next_workflow_history_sequence s (wi_id w) = Inr (of_nat (length es))"
    using store_view.wf_sequence_after [where s = s and M = M and i = "wi_id w" and w = w0 and es = es] M(1) rep M(2) by (simp add: next_workflow_history_sequence_def store_rep_def)
  moreover have "\<exists>s'. run_tx D True WfStore (put_workflow_tx D w ?e) s = (Inr (), s') \<and> healthy n s'"
    by (rule run_can [OF sha can_put_workflow]) (use l h in \<open>simp_all add: add.commute\<close>)
  ultimately show ?thesis by (simp add: persist_instance_with_history_def act_bind_def)
qed

lemma create_ok:
  assumes sha: "sha_ok D" and h: "healthy (n + 6) s" and d: "wf_drawn s = Some i" "length i = 16"
    and l: "ty \<noteq> []" "step \<noteq> []" "length ty < 2 ^ 28" "length step < 2 ^ 28" "length st < 2 ^ 28" "\<forall>p. parent = Some p \<longrightarrow> length p = 16"
  shows "\<exists>s'. create_workflow D ty step st parent now s = (Inr i, s') \<and> healthy n s'"
proof -
  obtain s1 where r: "wf_random_id s = (Inr i, s1)" and h1: "healthy (n + 6) s1"
    using d h by (auto simp: wf_drawn_def wf_random_id_def healthy_def split: list.splits option.splits)
  have "can 2 (act_bind (put_workflow_tx D (new_workflow i ty step st parent now) (created_entry now)) (\<lambda>_. act_return i)) (fresh_tx True s1) i"
    by (rule can_bind [where n = 2 and m = 0, simplified, OF can_put_workflow can_pure(1)]) (use l d in \<open>simp_all add: small_workflow_def new_workflow_def created_entry_def\<close>)
  from run_can [OF sha this, of n WfStore] h1 show ?thesis
    using l(1,2) r by (auto simp: create_workflow_def act_bind_def add.commute [of _ n])
qed

section \<open>A workflow that waits for a timer\<close>

definition demo_workflow :: workflow_instance where
  "demo_workflow = new_workflow demo_id [119] [115] [] None 0"

lemma demo_workflow_simps [simp]: "wi_id demo_workflow = demo_id" "wi_status demo_workflow = WfRunning" "wi_wait demo_workflow = None"
  "small_workflow demo_workflow" "small_workflow (awaiting_timer at now demo_workflow)" "small_workflow (wf_finished status [] now demo_workflow)"
  by (simp_all add: demo_workflow_def new_workflow_def small_workflow_def awaiting_timer_def wf_finished_def)

lemma demo_created:
  obtains s where "create_workflow demo_deps [119] [115] [] None 0 demo_job_store = (Inr demo_id, s)" and "healthy 400 s"
    and "store_rep s [demo_id \<mapsto> (demo_workflow, [created_entry 0])]"
proof -
  have g: "store_get demo_job_store k = None" for k by (simp add: demo_job_store_def demo_store_def store_get_def)
  have d: "wf_drawn demo_job_store = Some demo_id" using demo_job_store_simps(3) by (simp add: wf_drawn_def next_id_def split: list.splits option.splits)
  have h: "healthy (400 + 6) demo_job_store" by (rule healthy_mono [OF demo_job_store_simps(1)]) simp
  obtain s where s: "create_workflow demo_deps [119] [115] [] None 0 demo_job_store = (Inr demo_id, s)" "healthy 400 s"
    using create_ok [OF demo_sha_ok h d, of "[119]" "[115]" "[]" None 0] by auto
  have "store_wf demo_job_store" by (simp add: store_wf_def demo_job_store_def demo_store_def)
  then have "store_rep demo_job_store Map.empty" using g by (auto simp: store_rep_def wf_rep_def)
  from create_workflow_step [OF this _ _ s(1)] have "store_rep s [demo_id \<mapsto> (demo_workflow, [created_entry 0])]"
    using d g by (simp add: demo_workflow_def)
  then show ?thesis using that s by blast
qed

lemma demo_moved:
  assumes rep: "store_rep s [demo_id \<mapsto> (w, es)]" and h: "healthy (n + 6) s" and l: "small_workflow w'" "length detail < 2 ^ 28" "length es < 2 ^ 64"
    and mv: "wf_move w w' kind now detail" "wi_id w = demo_id"
  obtains s' where "persist_instance_with_history demo_deps w' now kind detail s = (Inr (), s')" and "healthy n s'"
    and "store_rep s' [demo_id \<mapsto> (w', es @ [next_entry_of es now kind detail])]"
proof -
  have i: "wi_id w' = demo_id" using wf_move_keeps [OF mv(1)] mv(2) by simp
  obtain s' where s': "persist_instance_with_history demo_deps w' now kind detail s = (Inr (), s')" "healthy n s'"
    using persist_ok [OF rep _ l(3) demo_sha_ok h l(1,2), of w] i by auto
  from persist_instance_move [OF rep _ mv(1) s'(1)] i mv(2) have "store_rep s' [demo_id \<mapsto> (w', es @ [next_entry_of es now kind detail])]" by auto
  then show ?thesis using that s' by blast
qed

section \<open>Workflows\<close>

text \<open>C26: whatever sequence of operations runs, on the store, inside transactions with several
  workflow operations, over due timers or elsewhere in the store, every workflow is explained by
  the history the store reports for it: the history starts with the creation, its last entry
  determines the status and the wait and carries the time of the last update, a signal is
  only recorded while waiting for it, a timer only when its time has come, and nothing follows a
  final entry. The history itself only grows.\<close>

theorem workflow_history_explains:
  assumes "workflow_inv s" and "(wf_op D)\<^sup>*\<^sup>* s s'"
  shows "workflow_inv s' \<and>
    (\<forall>i w. get_workflow s' i = Inr (Some w) \<longrightarrow> (\<exists>es. workflow_history s' i = Inr es \<and> explained w es)) \<and>
    (\<forall>i w es. get_workflow s i = Inr (Some w) \<longrightarrow> workflow_history s i = Inr es \<longrightarrow>
      (\<exists>w' fs. get_workflow s' i = Inr (Some w') \<and> workflow_history s' i = Inr (es @ fs)))"
  using workflow_inv_ops(1-3) [OF assms] by blast

lemma demo_waiting:
  obtains s0 s1 s2 where "wf_op demo_deps s0 s1" and "wf_op demo_deps s1 s2" and "healthy 300 s2" and "workflow_inv s0" and "workflow_inv s1"
    and "store_rep s1 [demo_id \<mapsto> (demo_workflow, [created_entry 0])]"
    and "wait_until demo_deps demo_id 10 5 s1 = (Inr (), s2)"
    and "store_rep s2 [demo_id \<mapsto> (awaiting_timer 10 5 demo_workflow, [created_entry 0, next_entry_of [created_entry 0] 5 KWaitingTimer (to_le (10 :: i64))])]"
proof -
  obtain s where s: "create_workflow demo_deps [119] [115] [] None 0 demo_job_store = (Inr demo_id, s)" "healthy 400 s"
    "store_rep s [demo_id \<mapsto> (demo_workflow, [created_entry 0])]" by (rule demo_created)
  have g: "store_get demo_job_store k = None" for k by (simp add: demo_job_store_def demo_store_def store_get_def)
  have d: "wf_drawn demo_job_store = Some demo_id" using demo_job_store_simps(3) by (simp add: wf_drawn_def next_id_def split: list.splits option.splits)
  have "store_wf demo_job_store" by (simp add: store_wf_def demo_job_store_def demo_store_def)
  then have i0: "workflow_inv demo_job_store" using g by (rule workflow_inv_empty)
  have op0: "wf_op demo_deps demo_job_store s"
    by (rule wf_op_call [of _ "CallCreate [119] [115] [] None 0" _ "Inr ()"]) (use s(1) d g in \<open>simp_all add: ignore_value_def act_bind_def act_return_def\<close>)
  have h: "healthy (300 + 6) s" by (rule healthy_mono [OF s(2)]) simp
  have mv: "wf_move demo_workflow (awaiting_timer 10 5 demo_workflow) KWaitingTimer 5 (to_le (10 :: i64))"
    by (rule move_until) (simp add: is_terminal_def)
  obtain s2 where s2: "persist_instance_with_history demo_deps (awaiting_timer 10 5 demo_workflow) 5 KWaitingTimer (to_le (10 :: i64)) s = (Inr (), s2)"
    "healthy 300 s2" "store_rep s2 [demo_id \<mapsto> (awaiting_timer 10 5 demo_workflow, [created_entry 0] @ [next_entry_of [created_entry 0] 5 KWaitingTimer (to_le (10 :: i64))])]"
    by (rule demo_moved [OF s(3) h _ _ _ mv]) simp_all
  have "get_workflow s demo_id = Inr (Some demo_workflow)" using get_workflow_rep [OF s(3), of demo_id] by simp
  then have w: "wait_until demo_deps demo_id 10 5 s = (Inr (), s2)"
    using s2(1) by (simp add: wait_until_def load_workflow_def act_bind_def ensure_active_def is_terminal_def act_lift_def ok_or_def)
  have op1: "wf_op demo_deps s s2" by (rule wf_op_call [of _ "CallWaitUntil demo_id 10 5" _ "Inr ()"]) (use w in simp_all)
  have "workflow_inv s" using workflow_inv_ops(1) [OF i0 r_into_rtranclp [of "wf_op demo_deps", OF op0]] .
  then show ?thesis using that op0 op1 i0 s(3) s2(2,3) w by simp
qed

theorem workflow_history_explains_witness:
  "\<exists>s s2 w es. workflow_inv s \<and> (wf_op demo_deps)\<^sup>*\<^sup>* s s2 \<and> get_workflow s2 demo_id = Inr (Some w) \<and> wi_status w = WfWaiting \<and>
     workflow_history s2 demo_id = Inr es \<and> explained w es"
proof -
  obtain s0 s1 s2 where s: "wf_op demo_deps s0 s1" "wf_op demo_deps s1 s2" "workflow_inv s0"
    "store_rep s2 [demo_id \<mapsto> (awaiting_timer 10 5 demo_workflow, [created_entry 0, next_entry_of [created_entry 0] 5 KWaitingTimer (to_le (10 :: i64))])]"
    by (rule demo_waiting)
  have ops: "(wf_op demo_deps)\<^sup>*\<^sup>* s0 s2" using s(1,2) by (meson converse_rtranclp_into_rtranclp r_into_rtranclp)
  have g: "get_workflow s2 demo_id = Inr (Some (awaiting_timer 10 5 demo_workflow))" using get_workflow_rep [OF s(4), of demo_id] by simp
  then obtain es where "workflow_history s2 demo_id = Inr es \<and> explained (awaiting_timer 10 5 demo_workflow) es"
    using workflow_history_explains [OF s(3) ops] by blast
  moreover have "wi_status (awaiting_timer 10 5 demo_workflow) = WfWaiting" by (simp add: awaiting_timer_def)
  ultimately show ?thesis using s(3) ops g by blast
qed

text \<open>C27: a workflow that has completed, failed or been cancelled is final. No later operation changes
  any field of it or adds to its history.\<close>

theorem workflow_terminal_final:
  assumes "workflow_inv s" and "(wf_op D)\<^sup>*\<^sup>* s s'" and "get_workflow s i = Inr (Some w)" and "is_terminal (wi_status w)"
  shows "get_workflow s' i = Inr (Some w) \<and> workflow_history s' i = workflow_history s i"
  using workflow_inv_ops(4) [OF assms] .

theorem workflow_terminal_final_witness:
  "\<exists>s s' w. get_workflow s demo_id = Inr (Some w) \<and> wi_status w = WfCompleted \<and>
     cancel_workflow demo_deps demo_id [] 7 s = (Inr False, s') \<and> get_workflow s' demo_id = Inr (Some w)"
proof -
  obtain s0 s1 s2 where s: "wf_op demo_deps s0 s1" "workflow_inv s1" "healthy 300 s2" "wf_op demo_deps s1 s2"
    "store_rep s2 [demo_id \<mapsto> (awaiting_timer 10 5 demo_workflow, [created_entry 0, next_entry_of [created_entry 0] 5 KWaitingTimer (to_le (10 :: i64))])]"
    by (rule demo_waiting)
  let ?w = "wf_finished WfCompleted [] 6 (awaiting_timer 10 5 demo_workflow)"
  have mv: "wf_move (awaiting_timer 10 5 demo_workflow) ?w KCompleted 6 []" by (rule move_complete) (simp add: is_terminal_def awaiting_timer_def)
  have h: "healthy (200 + 6) s2" by (rule healthy_mono [OF s(3)]) simp
  obtain s3 where s3: "persist_instance_with_history demo_deps ?w 6 KCompleted [] s2 = (Inr (), s3)"
    and r3: "store_rep s3 [demo_id \<mapsto> (?w, [created_entry 0, next_entry_of [created_entry 0] 5 KWaitingTimer (to_le (10 :: i64))] @
       [next_entry_of [created_entry 0, next_entry_of [created_entry 0] 5 KWaitingTimer (to_le (10 :: i64))] 6 KCompleted []])]"
    by (rule demo_moved [OF s(5) h _ _ _ mv]) (simp_all add: small_workflow_def wf_finished_def awaiting_timer_def demo_workflow_def new_workflow_def)
  have g2: "get_workflow s2 demo_id = Inr (Some (awaiting_timer 10 5 demo_workflow))" using get_workflow_rep [OF s(5), of demo_id] by simp
  have g: "get_workflow s3 demo_id = Inr (Some ?w)" using get_workflow_rep [OF r3, of demo_id] by simp
  have t: "is_terminal (wi_status ?w)" by (simp add: is_terminal_def wf_finished_def)
  have "complete_workflow demo_deps demo_id [] 6 s2 = (Inr (), s3)"
    using g2 s3 by (simp add: complete_workflow_def finish_workflow_def load_workflow_def act_bind_def is_terminal_def awaiting_timer_def)
  then have "wf_op demo_deps s2 s3" by (intro wf_op_call [of _ "CallComplete demo_id [] 6" _ "Inr ()"]) simp_all
  then have "(wf_op demo_deps)\<^sup>*\<^sup>* s1 s3" using s(4) by (meson converse_rtranclp_into_rtranclp r_into_rtranclp)
  then have i3: "workflow_inv s3" using workflow_inv_ops(1) [OF s(2)] by blast
  have c: "cancel_workflow demo_deps demo_id [] 7 s3 = (Inr False, s3)"
    using g t by (simp add: cancel_workflow_def act_bind_def act_return_def)
  have "wf_op demo_deps s3 s3" by (rule wf_op_call [of _ "CallCancel demo_id [] 7" _ "Inr ()"]) (use c in \<open>simp_all add: ignore_value_def act_bind_def act_return_def\<close>)
  then have "get_workflow s3 demo_id = Inr (Some ?w)" using workflow_terminal_final [OF i3 r_into_rtranclp [of "wf_op demo_deps"] g t] by blast
  then show ?thesis using c by (intro exI [of _ s3] exI [of _ ?w]) (simp add: wf_finished_def)
qed

text \<open>The workflow operations of the store and those of a transaction are the same operations. A
  call on the store succeeds exactly when a transaction with only that call commits, and then
  both leave the same store; where the call reports whether it did something, this holds for the
  calls that did.\<close>

theorem workflow_transactions_equivalent:
  assumes "workflow_inv s"
  shows "(\<forall>ty step st parent now x s'. create_workflow D ty step st parent now s = (Inr x, s') \<longleftrightarrow>
        run_tx D True WfStore (tx_create_workflow D ty step st parent now) s = (Inr x, s')) \<and>
    (\<forall>i step st now u s'. set_workflow_step D i step st now s = (Inr u, s') \<longleftrightarrow> run_tx D True WfStore (tx_set_workflow_step D i step st now) s = (Inr u, s')) \<and>
    (\<forall>i signal now u s'. wait_for_signal D i signal now s = (Inr u, s') \<longleftrightarrow> run_tx D True WfStore (tx_wait_for_signal D i signal now) s = (Inr u, s')) \<and>
    (\<forall>i at now u s'. wait_until D i at now s = (Inr u, s') \<longleftrightarrow> run_tx D True WfStore (tx_wait_until D i at now) s = (Inr u, s')) \<and>
    (\<forall>i st now u s'. complete_workflow D i st now s = (Inr u, s') \<longleftrightarrow> run_tx D True WfStore (tx_complete_workflow D i st now) s = (Inr u, s')) \<and>
    (\<forall>i err now u s'. fail_workflow D i err now s = (Inr u, s') \<longleftrightarrow> run_tx D True WfStore (tx_fail_workflow D i err now) s = (Inr u, s')) \<and>
    (\<forall>i signal payload now s'. signal_workflow D i signal payload now s = (Inr True, s') \<longleftrightarrow>
        run_tx D True WfStore (tx_signal_workflow D i signal payload now) s = (Inr True, s')) \<and>
    (\<forall>i reason now s'. cancel_workflow D i reason now s = (Inr True, s') \<longleftrightarrow>
        run_tx D True WfStore (tx_cancel_workflow D i reason now) s = (Inr True, s'))"
proof -
  obtain M where rep: "store_rep s M" using assms by (auto simp: workflow_inv_def)
  show ?thesis by (intro conjI allI create_equivalent store_tx_equivalent [OF rep])
qed

theorem workflow_transactions_equivalent_witness:
  "\<exists>s s'. wait_until demo_deps demo_id 10 5 s = (Inr (), s') \<and>
     run_tx demo_deps True WfStore (tx_wait_until demo_deps demo_id 10 5) s = (Inr (), s')"
proof -
  obtain s0 s1 s2 where s: "workflow_inv s1" "wait_until demo_deps demo_id 10 5 s1 = (Inr (), s2)" by (rule demo_waiting)
  have "\<forall>i at now u s'. wait_until demo_deps i at now s1 = (Inr u, s') \<longleftrightarrow> run_tx demo_deps True WfStore (tx_wait_until demo_deps i at now) s1 = (Inr u, s')"
    using workflow_transactions_equivalent [OF s(1), of demo_deps] by (elim conjE)
  then show ?thesis using s(2) by blast
qed

text \<open>Resuming due workflows only touches workflows that wait for a timer whose time has come, and
  what it does to them is to set them running and to record the firing in their history; that
  holds even when it fails half way. It resumes at most \<open>limit\<close> workflows, and when it succeeds
  below the limit no workflow with a due timer is left waiting.\<close>

theorem due_timers_resumed:
  assumes "workflow_inv s" and "resume_due_workflows D now limit s = (r, s')"
  shows "(\<forall>i w es. get_workflow s i = Inr (Some w) \<longrightarrow> workflow_history s i = Inr es \<longrightarrow>
      get_workflow s' i = Inr (Some w) \<and> workflow_history s' i = Inr es \<or>
      timer_due now w \<and> get_workflow s' i = Inr (Some (timer_fired now w)) \<and>
        workflow_history s' i = Inr (es @ [next_entry_of es now KTimerFired []])) \<and>
    (\<forall>rep. r = Inr rep \<longrightarrow> wr_resumed rep \<le> limit \<and>
      (wr_resumed rep < limit \<longrightarrow> (\<forall>i w. get_workflow s' i = Inr (Some w) \<longrightarrow> \<not> timer_due now w)))"
proof -
  obtain M where rep: "store_rep s M" using assms(1) by (auto simp: workflow_inv_def)
  obtain M' where M': "store_rep s' M'" "at_most_fired now M M'"
    "\<And>rep i w es. r = Inr rep \<Longrightarrow> wr_resumed rep < limit \<Longrightarrow> M' i = Some (w, es) \<Longrightarrow> \<not> timer_due now w"
    "\<And>rep. r = Inr rep \<Longrightarrow> wr_resumed rep \<le> limit"
    using rep assms(2) by (rule resume_due_spec) blast
  have G: "get_workflow s i = Inr (Some w) \<Longrightarrow> workflow_history s i = Inr es \<Longrightarrow> M i = Some (w, es)" for i w es
    using get_workflow_rep [OF rep, of i] workflow_history_rep [OF rep, of i] by (cases "M i") auto
  have G': "M' i = Some (w, es) \<Longrightarrow> get_workflow s' i = Inr (Some w) \<and> workflow_history s' i = Inr es" for i w es
    using get_workflow_rep [OF M'(1), of i] workflow_history_rep [OF M'(1), of i] by simp
  have H: "get_workflow s' i = Inr (Some w) \<Longrightarrow> \<exists>es. M' i = Some (w, es)" for i w
    using get_workflow_rep [OF M'(1), of i] by auto
  show ?thesis
  proof (intro conjI allI impI)
    fix i w es
    assume "get_workflow s i = Inr (Some w)" "workflow_history s i = Inr es"
    then have "M i = Some (w, es)" by (rule G)
    then have "M' i = Some (w, es) \<or> timer_due now w \<and> M' i = Some (timer_fired now w, es @ [next_entry_of es now KTimerFired []])"
      using M'(2) unfolding at_most_fired_def by (metis Pair_inject option.inject)
    then show "get_workflow s' i = Inr (Some w) \<and> workflow_history s' i = Inr es \<or>
      timer_due now w \<and> get_workflow s' i = Inr (Some (timer_fired now w)) \<and> workflow_history s' i = Inr (es @ [next_entry_of es now KTimerFired []])"
      using G' by blast
  qed (use M'(3,4) H in blast)+
qed

theorem due_timers_resumed_witness:
  "\<exists>s s'. get_workflow s demo_id = Inr (Some (awaiting_timer 10 5 demo_workflow)) \<and>
     resume_due_workflows demo_deps 12 8 s = (Inr \<lparr>wr_scanned = 1, wr_resumed = 1\<rparr>, s') \<and>
     get_workflow s' demo_id = Inr (Some (timer_fired 12 (awaiting_timer 10 5 demo_workflow)))"
proof -
  let ?w = "awaiting_timer 10 5 demo_workflow" let ?es = "[created_entry 0, next_entry_of [created_entry 0] 5 KWaitingTimer (to_le (10 :: i64))]"
  obtain s0 s1 s where s: "wf_op demo_deps s0 s1" "wf_op demo_deps s1 s" "workflow_inv s1" "healthy 300 s" "store_rep s [demo_id \<mapsto> (?w, ?es)]"
    by (rule demo_waiting)
  have i: "workflow_inv s" using workflow_inv_ops(1) [OF s(3) r_into_rtranclp [of "wf_op demo_deps", OF s(2)]] .
  have due: "timer_due 12 ?w" by (simp add: timer_due_def awaiting_timer_def)
  have h: "healthy (200 + 6) s" by (rule healthy_mono [OF s(4)]) simp
  obtain s' where s': "persist_instance_with_history demo_deps (timer_fired 12 ?w) 12 KTimerFired [] s = (Inr (), s')"
    by (rule demo_moved [OF s(5) h _ _ _ move_timer [OF due]])
      (simp_all add: small_workflow_def timer_fired_def awaiting_timer_def demo_workflow_def new_workflow_def)
  obtain ws where ws: "map_result (\<lambda>(_, encoded). decode_instance encoded) (scan_prefix s WF_INSTANCE_PREFIX) = Inr ws"
    "distinct (map wi_id ws)" "\<And>w. w \<in> set ws \<longleftrightarrow> (\<exists>es. [demo_id \<mapsto> (?w, ?es)] (wi_id w) = Some (w, es))"
    using s(5) by (rule instances_listed) blast
  have "set ws = {?w}" using ws(3) by (auto simp: awaiting_timer_def split: if_splits)
  moreover have "distinct ws" using ws(2) by (simp add: distinct_map)
  ultimately have w: "ws = [?w]" by (cases ws; cases "tl ws") auto
  then have d: "due_workflows 12 8 [] (scan_prefix s WF_INSTANCE_PREFIX) = Inr [?w]" using due_workflows_eq [OF ws(1), of "[]" 8 12] due by simp
  have "length (scan_prefix s WF_INSTANCE_PREFIX) = 1" using ws(1) w by (simp add: map_result_Inr_iff list_all2_lengthD)
  then have r: "resume_due_workflows demo_deps 12 8 s = (Inr \<lparr>wr_scanned = 1, wr_resumed = 1\<rparr>, s')"
    using d s' by (simp add: resume_due_workflows_def act_bind_def act_return_def act_lift_def)
  have g: "get_workflow s demo_id = Inr (Some ?w)" "workflow_history s demo_id = Inr ?es"
    using get_workflow_rep [OF s(5), of demo_id] workflow_history_rep [OF s(5), of demo_id] by simp_all
  have "get_workflow s' demo_id = Inr (Some ?w) \<Longrightarrow> False" using due_timers_resumed [OF i r] due by auto
  then have "get_workflow s' demo_id = Inr (Some (timer_fired 12 ?w))" using due_timers_resumed [OF i r] g by blast
  then show ?thesis using g(1) r by blast
qed

end
