(* ===== verification/Object_Model.thy ===== *)
theory Object_Model
  imports Domains Rust_Str
begin

text \<open>
  Content-addressed objects (\<open>crates/voodoo-store-core/src/objects.rs\<close>): an object is stored under
  the SHA-256 digest of its content, with optional metadata, and named references point at
  objects. The process-wide read counters are an explicit state of the operations that read
  objects. The order of metadata entries with equal keys, which are rejected, is the sorting
  routine's choice; the model keeps theirs.
\<close>

section \<open>Data\<close>

definition OBJ_DATA_PREFIX :: bytes where
  "OBJ_DATA_PREFIX = 0xff # ascii ''vds:obj:data:''"

definition OBJ_METADATA_PREFIX :: bytes where
  "OBJ_METADATA_PREFIX = 0xff # ascii ''vds:obj:meta:''"

definition OBJ_REF_PREFIX :: bytes where
  "OBJ_REF_PREFIX = 0xff # ascii ''vds:obj:ref:''"

definition OBJ_VERSION :: u8 where
  "OBJ_VERSION = 1"

record object_info =
  oi_id :: bytes
  oi_size :: u64
  oi_metadata :: kv

record object_gc_report =
  gc_scanned :: usize
  gc_referenced :: usize
  gc_removed :: usize

record object_retention_report =
  rt_scanned :: usize
  rt_expired :: usize
  rt_referenced :: usize
  rt_removed :: usize

datatype object_error =
    OjStore engine_error
  | OjObjectNotFound
  | OjObjectTooLarge
  | OjCorruptObject
  | OjCorruptReference
  | OjEmptyReferenceName
  | OjReferenceNameTooLong
  | OjMetadataTooLarge
  | OjDuplicateMetadata
  | OjCorruptMetadata

text \<open>The process-wide counters and the store's own metrics.\<close>

record read_counters =
  rc_reads :: u64
  rc_bytes :: u64

definition record_object_read :: "usize \<Rightarrow> read_counters \<Rightarrow> read_counters" where
  "record_object_read n c = c\<lparr>rc_reads := rc_reads c + 1, rc_bytes := rc_bytes c + of_nat n\<rparr>"

definition record_object_put :: "usize \<Rightarrow> store \<Rightarrow> store" where
  "record_object_put n s = s\<lparr>st_metrics := (st_metrics s)
     \<lparr>m_object_puts := saturating_add (m_object_puts (st_metrics s)) 1,
      m_object_bytes_written := saturating_add (m_object_bytes_written (st_metrics s)) (of_nat n)\<rparr>\<rparr>"

definition record_object_gc :: "usize \<Rightarrow> store \<Rightarrow> store" where
  "record_object_gc n s = s\<lparr>st_metrics := (st_metrics s)
     \<lparr>m_object_gc_runs := saturating_add (m_object_gc_runs (st_metrics s)) 1,
      m_object_gc_removed := saturating_add (m_object_gc_removed (st_metrics s)) (of_nat n)\<rparr>\<rparr>"

section \<open>Keys and formats\<close>

definition object_id :: "deps \<Rightarrow> bytes \<Rightarrow> bytes" where
  "object_id D content = dep_sha256 D content"

definition obj_key :: "bytes \<Rightarrow> bytes" where
  "obj_key i = OBJ_DATA_PREFIX @ i"

definition metadata_key :: "bytes \<Rightarrow> bytes" where
  "metadata_key i = OBJ_METADATA_PREFIX @ i"

fun check_metadata :: "bytes option \<Rightarrow> usize \<Rightarrow> kv \<Rightarrow> object_error + usize" where
  "check_metadata previous bytes_total [] = Inr bytes_total"
| "check_metadata previous bytes_total ((key, value) # rest) =
     (if key = [] \<or> length key > 4096 \<or> length value > 64 * 1024 then Inl OjMetadataTooLarge
      else if previous = Some key then Inl OjDuplicateMetadata
      else res_bind (ok_or OjMetadataTooLarge (usize_checked_add bytes_total (length key + length value))) (\<lambda>bytes_total.
             check_metadata (Some key) bytes_total rest))"

definition normalize_metadata :: "kv \<Rightarrow> object_error + kv" where
  "normalize_metadata metadata =
     (let values = sort_key fst metadata
      in res_bind (check_metadata None 0 values) (\<lambda>bytes_total.
           if bytes_total > 256 * 1024 then Inl OjMetadataTooLarge else Inr values))"

fun encode_metadata_entries :: "kv \<Rightarrow> object_error + bytes" where
  "encode_metadata_entries [] = Inr []"
| "encode_metadata_entries ((key, value) # rest) =
     res_bind (ok_or OjMetadataTooLarge (u32_try_from_len (length key))) (\<lambda>key_len.
     res_bind (ok_or OjMetadataTooLarge (u32_try_from_len (length value))) (\<lambda>value_len.
     res_bind (encode_metadata_entries rest) (\<lambda>tail.
       Inr (to_le key_len @ to_le value_len @ key @ value @ tail))))"

definition encode_metadata :: "kv \<Rightarrow> object_error + bytes" where
  "encode_metadata metadata =
     res_bind (ok_or OjMetadataTooLarge (u32_try_from_len (length metadata))) (\<lambda>count.
     res_bind (encode_metadata_entries metadata) (\<lambda>entries.
       Inr ([OBJ_VERSION] @ to_le count @ entries)))"

primrec decode_metadata_entries :: "nat \<Rightarrow> (object_error, kv) reader" where
  "decode_metadata_entries 0 = rd_return []"
| "decode_metadata_entries (Suc n) =
     rd_bind (rd_u32 OjCorruptMetadata) (\<lambda>key_len. rd_bind (rd_u32 OjCorruptMetadata) (\<lambda>value_len.
     rd_bind (rd_take OjCorruptMetadata (unat key_len)) (\<lambda>key. rd_bind (rd_take OjCorruptMetadata (unat value_len)) (\<lambda>value.
     rd_bind (decode_metadata_entries n) (\<lambda>rest. rd_return ((key, value) # rest))))))"

definition decode_metadata :: "bytes \<Rightarrow> object_error + kv" where
  "decode_metadata encoded =
     (if length encoded < 5 \<or> encoded ! 0 \<noteq> OBJ_VERSION then Inl OjCorruptMetadata
      else res_bind (decode_metadata_entries (unat (from_le (slice 1 5 encoded) :: u32)) (drop 5 encoded))
             (\<lambda>(metadata, rest). if rest \<noteq> [] then Inl OjCorruptMetadata else normalize_metadata metadata))"

definition decode_object_key :: "bytes \<Rightarrow> object_error + bytes" where
  "decode_object_key key =
     (if \<not> prefix OBJ_DATA_PREFIX key \<or> length key \<noteq> length OBJ_DATA_PREFIX + 32 then Inl OjCorruptObject
      else Inr (drop (length OBJ_DATA_PREFIX) key))"

text \<open>\<open>try_into\<close> on the value of a reference: exactly 32 bytes.\<close>

definition reference_target :: "bytes \<Rightarrow> object_error + bytes" where
  "reference_target v = (if length v = 32 then Inr v else Inl OjCorruptReference)"

definition reference_namespace_prefix :: "bytes \<Rightarrow> object_error + bytes" where
  "reference_namespace_prefix namespace =
     (if namespace = [] then Inl OjEmptyReferenceName
      else res_bind (ok_or OjReferenceNameTooLong (u32_try_from_len (length namespace))) (\<lambda>namespace_len.
             Inr (OBJ_REF_PREFIX @ to_be namespace_len @ namespace)))"

definition decode_reference_name :: "bytes \<Rightarrow> bytes \<Rightarrow> object_error + bytes" where
  "decode_reference_name key namespace =
     res_bind (reference_namespace_prefix namespace) (\<lambda>p.
       if \<not> prefix p key then Inl OjCorruptReference
       else let rest = drop (length p) key
            in if length rest < 4 then Inl OjCorruptReference
               else let name_len = unat (from_be (take 4 rest) :: u32)
                    in if length rest \<noteq> 4 + name_len then Inl OjCorruptReference
                       else Inr (drop 4 rest))"

definition obj_reference_key :: "bytes \<Rightarrow> bytes \<Rightarrow> object_error + bytes" where
  "obj_reference_key namespace name =
     (if namespace = [] \<or> name = [] then Inl OjEmptyReferenceName
      else res_bind (ok_or OjReferenceNameTooLong (u32_try_from_len (length namespace))) (\<lambda>namespace_len.
           res_bind (ok_or OjReferenceNameTooLong (u32_try_from_len (length name))) (\<lambda>name_len.
             Inr (OBJ_REF_PREFIX @ to_be namespace_len @ namespace @ to_be name_len @ name))))"

definition obj_encode_object :: "bytes \<Rightarrow> object_error + bytes" where
  "obj_encode_object content =
     (if length content < 2 ^ 64 then Inr ([OBJ_VERSION] @ to_le (of_nat (length content) :: u64) @ content)
      else Inl OjObjectTooLarge)"

definition decode_object :: "bytes \<Rightarrow> object_error + bytes" where
  "decode_object encoded =
     (if length encoded < 9 \<or> encoded ! 0 \<noteq> OBJ_VERSION then Inl OjCorruptObject
      else let len = unat (from_le (slice 1 9 encoded) :: u64)
           in if length encoded \<noteq> 9 + len then Inl OjCorruptObject
              else Inr (drop 9 encoded))"

section \<open>Operations\<close>

definition put_object_with_metadata :: "deps \<Rightarrow> bytes \<Rightarrow> kv \<Rightarrow> (store, object_error, bytes) act" where
  "put_object_with_metadata D content metadata =
     act_bind (act_lift (normalize_metadata metadata)) (\<lambda>metadata.
       let i = object_id D content; key = obj_key i
       in act_bind (\<lambda>s. (Inr (store_get s key), s)) (\<lambda>existing.
            if existing \<noteq> None then act_return i
            else act_bind (act_lift (obj_encode_object content)) (\<lambda>bs.
                 act_bind (act_map_err OjStore (store_put_internal D key bs)) (\<lambda>_.
                 act_bind (if metadata = [] then act_return ()
                           else act_bind (act_lift (encode_metadata metadata)) (\<lambda>mb.
                                  act_map_err OjStore (store_put_internal D (metadata_key i) mb))) (\<lambda>_.
                   (\<lambda>s. (Inr i, record_object_put (length content) s)))))))"

definition put_object :: "deps \<Rightarrow> bytes \<Rightarrow> (store, object_error, bytes) act" where
  "put_object D content = put_object_with_metadata D content []"

definition stored_content :: "store \<Rightarrow> bytes \<Rightarrow> object_error + bytes option" where
  "stored_content s i = transpose_map decode_object (store_get s (obj_key i))"

definition get_object :: "store \<Rightarrow> bytes \<Rightarrow> (read_counters, object_error, bytes option) act" where
  "get_object s i c =
     (case stored_content s i of
        Inr (Some content) \<Rightarrow> (Inr (Some content), record_object_read (length content) c)
      | r \<Rightarrow> (r, c))"

definition get_object_chunk :: "store \<Rightarrow> bytes \<Rightarrow> usize \<Rightarrow> usize \<Rightarrow> (read_counters, object_error, bytes option) act" where
  "get_object_chunk s i offset limit c =
     (case stored_content s i of
        Inl e \<Rightarrow> (Inl e, c)
      | Inr None \<Rightarrow> (Inr None, c)
      | Inr (Some content) \<Rightarrow>
          let start = min offset (length content);
              stop = min (min (start + limit) (2 ^ 64 - 1)) (length content)
          in (Inr (Some (slice start stop content)), record_object_read (stop - start) c))"

definition stored_metadata :: "store \<Rightarrow> bytes \<Rightarrow> object_error + kv" where
  "stored_metadata s i =
     res_bind (transpose_map decode_metadata (store_get s (metadata_key i))) (\<lambda>m. Inr (case m of None \<Rightarrow> [] | Some md \<Rightarrow> md))"

definition object_info_of :: "store \<Rightarrow> bytes \<Rightarrow> (read_counters, object_error, object_info option) act" where
  "object_info_of s i =
     act_bind (get_object s i) (\<lambda>r. case r of
       None \<Rightarrow> act_return None
     | Some content \<Rightarrow> act_bind (act_lift (stored_metadata s i)) (\<lambda>metadata.
         act_return (Some \<lparr>oi_id = i, oi_size = of_nat (length content), oi_metadata = metadata\<rparr>)))"

definition verify_object :: "deps \<Rightarrow> store \<Rightarrow> bytes \<Rightarrow> (read_counters, object_error, bool) act" where
  "verify_object D s i =
     act_bind (get_object s i) (\<lambda>r. act_return (case r of None \<Rightarrow> False | Some content \<Rightarrow> object_id D content = i))"

text \<open>\<open>link_object\<close> reads an object and then writes the store.\<close>

definition link_object :: "deps \<Rightarrow> bytes \<Rightarrow> bytes \<Rightarrow> bytes \<Rightarrow> (store \<times> read_counters, object_error, unit) act" where
  "link_object D namespace name i = (\<lambda>(s, c).
     case get_object s i c of
       (Inl e, c1) \<Rightarrow> (Inl e, (s, c1))
     | (Inr None, c1) \<Rightarrow> (Inl OjObjectNotFound, (s, c1))
     | (Inr (Some _), c1) \<Rightarrow>
         (case obj_reference_key namespace name of
            Inl e \<Rightarrow> (Inl e, (s, c1))
          | Inr key \<Rightarrow>
              (case act_map_err OjStore (store_put_internal D key i) s of (r, s1) \<Rightarrow> (r, (s1, c1)))))"

definition resolve_object_ref :: "store \<Rightarrow> bytes \<Rightarrow> bytes \<Rightarrow> object_error + bytes option" where
  "resolve_object_ref s namespace name =
     res_bind (obj_reference_key namespace name) (\<lambda>key. transpose_map reference_target (store_get s key))"

definition unlink_object :: "deps \<Rightarrow> bytes \<Rightarrow> bytes \<Rightarrow> (store, object_error, bool) act" where
  "unlink_object D namespace name =
     act_bind (act_lift (obj_reference_key namespace name)) (\<lambda>key.
     act_bind (\<lambda>s. (Inr (store_get s key), s)) (\<lambda>existing.
       if existing = None then act_return False
       else act_bind (act_map_err OjStore (store_delete_internal D key)) (\<lambda>_. act_return True)))"

fun collect_refs :: "bytes \<Rightarrow> bytes \<Rightarrow> kv \<Rightarrow> object_error + kv" where
  "collect_refs namespace name_prefix [] = Inr []"
| "collect_refs namespace name_prefix ((key, value) # rest) =
     res_bind (decode_reference_name key namespace) (\<lambda>name.
       if \<not> prefix name_prefix name then collect_refs namespace name_prefix rest
       else res_bind (reference_target value) (\<lambda>i.
            res_bind (collect_refs namespace name_prefix rest) (\<lambda>refs. Inr ((name, i) # refs))))"

definition list_object_refs :: "store \<Rightarrow> bytes \<Rightarrow> bytes \<Rightarrow> object_error + kv" where
  "list_object_refs s namespace name_prefix =
     (if namespace = [] then Inl OjEmptyReferenceName
      else res_bind (reference_namespace_prefix namespace) (\<lambda>p.
           res_bind (collect_refs namespace name_prefix (scan_prefix s p)) (\<lambda>refs. Inr (sort_key fst refs))))"

text \<open>The set of referenced objects, without repetition.\<close>

definition referenced_objects :: "store \<Rightarrow> object_error + bytes list" where
  "referenced_objects s =
     res_bind (map_result (\<lambda>(_, value). reference_target value) (scan_prefix s OBJ_REF_PREFIX)) (\<lambda>ids. Inr (remdups ids))"

fun gc_collect :: "bytes list \<Rightarrow> usize \<Rightarrow> bytes list \<Rightarrow> kv \<Rightarrow> object_error + bytes list" where
  "gc_collect referenced limit to_remove [] = Inr to_remove"
| "gc_collect referenced limit to_remove ((key, _) # rest) =
     res_bind (decode_object_key key) (\<lambda>i.
       if i \<in> set referenced then gc_collect referenced limit to_remove rest
       else if length to_remove + 1 = limit then Inr (to_remove @ [key])
       else gc_collect referenced limit (to_remove @ [key]) rest)"

definition gc_delete :: "deps \<Rightarrow> bytes \<Rightarrow> (transaction, object_error, unit) act" where
  "gc_delete D key =
     act_bind (act_lift (decode_object_key key)) (\<lambda>i.
     act_bind (act_map_err OjStore (tx_delete_internal D key)) (\<lambda>_.
       act_map_err OjStore (tx_delete_internal D (metadata_key i))))"

definition gc_orphan_objects :: "deps \<Rightarrow> usize \<Rightarrow> (store, object_error, object_gc_report) act" where
  "gc_orphan_objects D limit =
     act_bind (\<lambda>s. (referenced_objects s, s)) (\<lambda>referenced.
     act_bind (\<lambda>s. (Inr (scan_prefix s OBJ_DATA_PREFIX), s)) (\<lambda>objects.
       if limit = 0 then act_return \<lparr>gc_scanned = length objects, gc_referenced = length referenced, gc_removed = 0\<rparr>
       else act_bind (act_lift (gc_collect referenced limit [] objects)) (\<lambda>to_remove.
            act_bind (if to_remove = [] then act_return ()
                      else run_tx D True OjStore (act_for (gc_delete D) to_remove)) (\<lambda>_.
              (\<lambda>s. (Inr \<lparr>gc_scanned = length objects, gc_referenced = length referenced, gc_removed = length to_remove\<rparr>,
                record_object_gc (length to_remove) s))))))"

text \<open>\<open>str::parse::<i64>\<close>: an optional sign and at least one digit, within the range of the type.\<close>

fun digits_value :: "nat \<Rightarrow> rust_str \<Rightarrow> nat option" where
  "digits_value acc [] = Some acc"
| "digits_value acc (c # s) = (if 48 \<le> c \<and> c \<le> 57 then digits_value (acc * 10 + (c - 48)) s else None)"

definition parse_i64 :: "rust_str \<Rightarrow> i64 option" where
  "parse_i64 s =
     (let (negative, digits) = (case s of c # s' \<Rightarrow> if c = 45 then (True, s') else if c = 43 then (False, s') else (False, s) | [] \<Rightarrow> (False, []))
      in if digits = [] then None
         else case digits_value 0 digits of
                None \<Rightarrow> None
              | Some n \<Rightarrow> let v = (if negative then - int n else int n)
                          in if - (2 ^ 63) \<le> v \<and> v < 2 ^ 63 then Some (word_of_int v) else None)"

definition EXPIRES_AT_UNIX :: bytes where
  "EXPIRES_AT_UNIX = ascii ''expires_at_unix''"

definition object_expiry :: "kv \<Rightarrow> object_error + i64 option" where
  "object_expiry metadata =
     (case map_of metadata EXPIRES_AT_UNIX of
        None \<Rightarrow> Inr None
      | Some value \<Rightarrow> res_bind (ok_or OjCorruptMetadata (Option.bind (from_utf8 value) parse_i64)) (\<lambda>expiry. Inr (Some expiry)))"

record retention_scan =
  rs_expired :: usize
  rs_referenced :: usize
  rs_remove :: "(bytes \<times> bytes) list"

fun retention_collect :: "store \<Rightarrow> i64 \<Rightarrow> usize \<Rightarrow> bytes list \<Rightarrow> retention_scan \<Rightarrow> kv \<Rightarrow> object_error + retention_scan" where
  "retention_collect s now limit references acc [] = Inr acc"
| "retention_collect s now limit references acc ((key, _) # rest) =
     res_bind (decode_object_key key) (\<lambda>i.
     res_bind (stored_metadata s i) (\<lambda>metadata.
     res_bind (object_expiry metadata) (\<lambda>expiry.
       retention_collect s now limit references
         (case expiry of
            None \<Rightarrow> acc
          | Some at \<Rightarrow>
              if sint now < sint at then acc
              else let acc1 = acc\<lparr>rs_expired := rs_expired acc + 1\<rparr>
                   in if i \<in> set references then acc1\<lparr>rs_referenced := rs_referenced acc1 + 1\<rparr>
                      else if limit = 0 \<or> length (rs_remove acc1) < limit
                      then acc1\<lparr>rs_remove := rs_remove acc1 @ [(key, i)]\<rparr> else acc1) rest)))"

definition retention_delete :: "deps \<Rightarrow> bytes \<times> bytes \<Rightarrow> (transaction, object_error, unit) act" where
  "retention_delete D = (\<lambda>(key, i).
     act_bind (act_map_err OjStore (tx_delete_internal D key)) (\<lambda>_.
       act_map_err OjStore (tx_delete_internal D (metadata_key i))))"

definition purge_expired_objects :: "deps \<Rightarrow> i64 \<Rightarrow> usize \<Rightarrow> (store, object_error, object_retention_report) act" where
  "purge_expired_objects D now limit =
     act_bind (\<lambda>s. (referenced_objects s, s)) (\<lambda>references.
     act_bind (\<lambda>s. (Inr (scan_prefix s OBJ_DATA_PREFIX), s)) (\<lambda>objects.
     act_bind (\<lambda>s. (retention_collect s now limit references \<lparr>rs_expired = 0, rs_referenced = 0, rs_remove = []\<rparr> objects, s)) (\<lambda>found.
     act_bind (if rs_remove found = [] then act_return ()
               else run_tx D True OjStore (act_for (retention_delete D) (rs_remove found))) (\<lambda>_.
       (\<lambda>s. (Inr \<lparr>rt_scanned = length objects, rt_expired = rs_expired found, rt_referenced = rs_referenced found,
              rt_removed = length (rs_remove found)\<rparr>,
         record_object_gc (length (rs_remove found)) s))))))"

end
