(* ===== verification/Objects.thy ===== *)
theory Objects
  imports Object_Model Ordered_View
begin

text \<open>
  What content addressing promises: stored objects match their digests, references never dangle,
  and collection removes exactly what nothing refers to, across the stand-alone operations and
  those staged in application transactions.
\<close>

section \<open>Formats\<close>

lemma obj_keys_shared:
  "OBJ_DATA_PREFIX = OBJECT_PREFIX" "OBJ_REF_PREFIX = OBJECT_REF_PREFIX" "obj_key = object_key"
  "obj_reference_key namespace name = Inr k \<longleftrightarrow> reference_key namespace name = Inr k"
  "obj_encode_object content = Inr bs \<longleftrightarrow> encode_object content = Inr bs"
  by (auto simp: OBJ_DATA_PREFIX_def OBJECT_PREFIX_def OBJ_REF_PREFIX_def OBJECT_REF_PREFIX_def obj_key_def object_key_def fun_eq_iff
      obj_reference_key_def reference_key_def obj_encode_object_def encode_object_def OBJ_VERSION_def OBJECT_VERSION_def
      res_bind_Inr_iff ok_or_Inr_iff split: if_splits)

lemma decode_object_encode:
  assumes "obj_encode_object content = Inr bs"
  shows "decode_object bs = Inr content"
proof -
  have l: "length content < 2 ^ 64" and bs: "bs = OBJ_VERSION # to_le (of_nat (length content) :: u64) @ content"
    using assms by (auto simp: obj_encode_object_def split: if_splits)
  have "slice 1 9 bs = to_le (of_nat (length content) :: u64)" by (simp add: bs slice_def)
  then have "unat (from_le (slice 1 9 bs) :: u64) = length content" using unat_of_nat_u64 [OF l] by simp
  then show ?thesis unfolding decode_object_def Let_def by (simp add: bs)
qed

lemma metadata_entries_append:
  "encode_metadata_entries md = Inr bs \<Longrightarrow> decode_metadata_entries (length md) (bs @ rest) = Inr (md, rest)"
proof (induction md arbitrary: bs)
  case (Cons kv md)
  obtain k v where kv: "kv = (k, v)" by (cases kv)
  from Cons.prems obtain kl vl tail where l: "u32_try_from_len (length k) = Some kl" "u32_try_from_len (length v) = Some vl"
    "encode_metadata_entries md = Inr tail" "bs = to_le kl @ to_le vl @ k @ v @ tail"
    by (auto simp: kv res_bind_Inr_iff ok_or_Inr_iff)
  show ?case unfolding l(4) kv
    by (simp add: codec_simps u32_try_from_len_Some(1) [OF l(1)] u32_try_from_len_Some(1) [OF l(2)] Cons.IH [OF l(3)] rd_return_def)
qed (simp add: rd_return_def)

lemma check_metadata_sorted:
  "check_metadata prev n md = Inr m \<Longrightarrow> sorted (map fst md) \<Longrightarrow> distinct (map fst md) \<and> (\<forall>k. prev = Some k \<longrightarrow> md \<noteq> [] \<longrightarrow> k \<noteq> fst (hd md))"
proof (induction prev n md rule: check_metadata.induct)
  case (2 prev n k v md)
  from "2.prems"(1) obtain n' where n': "check_metadata (Some k) n' md = Inr m" "prev \<noteq> Some k"
    "k \<noteq> []" "length k \<le> 4096" "length v \<le> 64 * 1024" "usize_checked_add n (length k + length v) = Some n'"
    by (auto simp: res_bind_Inr_iff ok_or_Inr_iff split: if_splits)
  have "distinct (map fst md) \<and> (\<forall>k'. Some k = Some k' \<longrightarrow> md \<noteq> [] \<longrightarrow> k' \<noteq> fst (hd md))"
    by (rule "2.IH") (use n' "2.prems"(2) in auto)
  moreover have "k \<notin> fst ` set md" if "md \<noteq> [] \<longrightarrow> k \<noteq> fst (hd md)"
    using that "2.prems"(2) by (cases md) (auto intro: order_antisym)
  ultimately show ?case using n'(2) by auto
qed simp

text \<open>A normalised list is sorted, free of duplicates and stays as it is.\<close>

lemma normalize_metadata_Inr:
  assumes "normalize_metadata md = Inr values"
  shows "values = sort_key fst md" and "sorted (map fst values)" and "distinct (map fst values)" and "normalize_metadata values = Inr values"
proof -
  from assms show v: "values = sort_key fst md" by (auto simp: normalize_metadata_def Let_def res_bind_Inr_iff split: if_splits)
  then show s: "sorted (map fst values)" by simp
  from assms v obtain n where n: "check_metadata None 0 values = Inr n" "n \<le> 256 * 1024"
    by (auto simp: normalize_metadata_def Let_def res_bind_Inr_iff split: if_splits)
  then show "distinct (map fst values)" using check_metadata_sorted [OF n(1) s] by simp
  have "sort_key fst values = values" using s by (rule sort_key_id_if_sorted)
  then show "normalize_metadata values = Inr values" using n by (simp add: normalize_metadata_def)
qed

lemma decode_metadata_encode:
  assumes "normalize_metadata md = Inr values" and "encode_metadata values = Inr bs"
  shows "decode_metadata bs = Inr values"
proof -
  from assms(2) obtain c es where e: "u32_try_from_len (length values) = Some c" "encode_metadata_entries values = Inr es" "bs = OBJ_VERSION # to_le c @ es"
    by (auto simp: encode_metadata_def res_bind_Inr_iff ok_or_Inr_iff)
  have "decode_metadata_entries (unat c) es = Inr (values, [])"
    using metadata_entries_append [OF e(2), of "[]"] u32_try_from_len_Some [OF e(1)] by simp
  then show ?thesis using normalize_metadata_Inr(4) [OF assms(1)] by (simp add: decode_metadata_def e(3) slice_def)
qed

lemma obj_key_simps [simp]:
  "prefix OBJ_DATA_PREFIX (obj_key i)" "prefix OBJ_METADATA_PREFIX (metadata_key i)"
  "obj_key i = obj_key j \<longleftrightarrow> i = j" "metadata_key i = metadata_key j \<longleftrightarrow> i = j"
  by (simp_all add: obj_key_def metadata_key_def)

lemma obj_spaces:
  shows "prefix OBJ_DATA_PREFIX k \<Longrightarrow> \<not> prefix OBJ_METADATA_PREFIX k \<and> \<not> prefix OBJ_REF_PREFIX k \<and> not_cdc k"
    and "prefix OBJ_METADATA_PREFIX k \<Longrightarrow> \<not> prefix OBJ_DATA_PREFIX k \<and> \<not> prefix OBJ_REF_PREFIX k \<and> not_cdc k"
    and "prefix OBJ_REF_PREFIX k \<Longrightarrow> \<not> prefix OBJ_DATA_PREFIX k \<and> \<not> prefix OBJ_METADATA_PREFIX k \<and> not_cdc k"
proof -
  note P = OBJ_DATA_PREFIX_def OBJ_METADATA_PREFIX_def OBJ_REF_PREFIX_def CDC_PREFIX_def ascii_def
  show "prefix OBJ_DATA_PREFIX k \<Longrightarrow> \<not> prefix OBJ_METADATA_PREFIX k \<and> \<not> prefix OBJ_REF_PREFIX k \<and> not_cdc k"
    by (intro conjI; rule other_space [of OBJ_DATA_PREFIX]; simp add: P)
  show "prefix OBJ_METADATA_PREFIX k \<Longrightarrow> \<not> prefix OBJ_DATA_PREFIX k \<and> \<not> prefix OBJ_REF_PREFIX k \<and> not_cdc k"
    by (intro conjI; rule other_space [of OBJ_METADATA_PREFIX]; simp add: P)
  show "prefix OBJ_REF_PREFIX k \<Longrightarrow> \<not> prefix OBJ_DATA_PREFIX k \<and> \<not> prefix OBJ_METADATA_PREFIX k \<and> not_cdc k"
    by (intro conjI; rule other_space [of OBJ_REF_PREFIX]; simp add: P)
qed

lemma reference_key_space: "obj_reference_key namespace name = Inr k \<Longrightarrow> prefix OBJ_REF_PREFIX k"
  by (auto simp: obj_reference_key_def res_bind_Inr_iff split: if_splits)

lemma decode_object_key_obj_key: "length i = 32 \<Longrightarrow> decode_object_key (obj_key i) = Inr i"
  by (simp add: decode_object_key_def obj_key_def)

section \<open>The invariant\<close>

definition obj_space :: "bytes \<Rightarrow> bool" where
  "obj_space k \<longleftrightarrow> prefix OBJ_DATA_PREFIX k \<or> prefix OBJ_METADATA_PREFIX k \<or> prefix OBJ_REF_PREFIX k"

definition obj_rep :: "deps \<Rightarrow> (bytes \<Rightarrow> bytes option) \<Rightarrow> bool" where
  "obj_rep D g \<longleftrightarrow>
     (\<forall>k v. prefix OBJ_DATA_PREFIX k \<longrightarrow> g k = Some v \<longrightarrow> (\<exists>content. decode_object v = Inr content \<and> k = obj_key (object_id D content))) \<and>
     (\<forall>k v. prefix OBJ_METADATA_PREFIX k \<longrightarrow> g k = Some v \<longrightarrow> (\<exists>i md. k = metadata_key i \<and> decode_metadata v = Inr md \<and> g (obj_key i) \<noteq> None)) \<and>
     (\<forall>k v. prefix OBJ_REF_PREFIX k \<longrightarrow> g k = Some v \<longrightarrow>
        (\<exists>namespace name. obj_reference_key namespace name = Inr k) \<and> length v = 32 \<and> g (obj_key v) \<noteq> None)"

lemma obj_space_keys [simp]: "obj_space (obj_key i)" "obj_space (metadata_key i)"
  by (simp_all add: obj_space_def)

lemma obj_space_not_cdc: "obj_space k \<Longrightarrow> not_cdc k"
  unfolding obj_space_def using obj_spaces [of k] by blast

lemma obj_rep_cong:
  assumes "obj_rep D g" and "\<And>k. obj_space k \<Longrightarrow> g' k = g k"
  shows "obj_rep D g'"
proof -
  have e: "prefix OBJ_DATA_PREFIX k \<Longrightarrow> g' k = g k" "prefix OBJ_METADATA_PREFIX k \<Longrightarrow> g' k = g k" "prefix OBJ_REF_PREFIX k \<Longrightarrow> g' k = g k" for k
    using assms(2) by (simp_all add: obj_space_def)
  have o: "g' (obj_key i) = g (obj_key i)" for i by (rule e(1)) simp
  show ?thesis using assms(1) e unfolding obj_rep_def o by simp
qed

lemma obj_rep_data:
  assumes rep: "obj_rep D g" and c: "decode_object v = Inr content" "i = object_id D content"
    and g': "\<And>k. obj_space k \<Longrightarrow> g' k = (if k = obj_key i then Some v else g k)"
  shows "obj_rep D g'"
proof -
  have d: "prefix OBJ_DATA_PREFIX k \<Longrightarrow> g' k = (if k = obj_key i then Some v else g k)" for k using g' by (simp add: obj_space_def)
  have o: "prefix OBJ_METADATA_PREFIX k \<or> prefix OBJ_REF_PREFIX k \<Longrightarrow> g' k = g k" for k
    using g' [of k] obj_spaces(1) [OF obj_key_simps(1), of i] by (auto simp: obj_space_def)
  show ?thesis unfolding obj_rep_def
  proof (intro conjI allI impI)
    fix k w assume "prefix OBJ_DATA_PREFIX k" "g' k = Some w"
    then show "\<exists>content. decode_object w = Inr content \<and> k = obj_key (object_id D content)"
      using d [of k] c rep by (auto simp: obj_rep_def split: if_splits)
  next
    fix k w assume k: "prefix OBJ_METADATA_PREFIX k" "g' k = Some w"
    then obtain i' md where "k = metadata_key i'" "decode_metadata w = Inr md" "g (obj_key i') \<noteq> None"
      using o [of k] rep unfolding obj_rep_def by metis
    then show "\<exists>i md. k = metadata_key i \<and> decode_metadata w = Inr md \<and> g' (obj_key i) \<noteq> None" using d [of "obj_key i'"] by auto
  next
    fix k w assume k: "prefix OBJ_REF_PREFIX k" "g' k = Some w"
    then have "(\<exists>namespace name. obj_reference_key namespace name = Inr k) \<and> length w = 32 \<and> g (obj_key w) \<noteq> None"
      using o [of k] rep unfolding obj_rep_def by metis
    then show "\<exists>namespace name. obj_reference_key namespace name = Inr k" "length w = 32" "g' (obj_key w) \<noteq> None"
      using d [of "obj_key w"] by auto
  qed
qed

text \<open>Writing metadata or a reference for an object that is there, and removing a reference.\<close>

lemma obj_rep_side:
  assumes rep: "obj_rep D g" and k0: "\<not> prefix OBJ_DATA_PREFIX k0" and g': "\<And>k. obj_space k \<Longrightarrow> g' k = (if k = k0 then x else g k)"
    and ok: "\<And>v. x = Some v \<Longrightarrow> (\<exists>i md. k0 = metadata_key i \<and> decode_metadata v = Inr md \<and> g (obj_key i) \<noteq> None) \<or>
      (\<exists>namespace name. obj_reference_key namespace name = Inr k0) \<and> length v = 32 \<and> g (obj_key v) \<noteq> None"
  shows "obj_rep D g'"
proof -
  have d: "prefix OBJ_DATA_PREFIX k \<Longrightarrow> g' k = g k" for k using g' [of k] k0 by (auto simp: obj_space_def)
  have o: "prefix OBJ_METADATA_PREFIX k \<or> prefix OBJ_REF_PREFIX k \<Longrightarrow> g' k = (if k = k0 then x else g k)" for k
    using g' by (simp add: obj_space_def)
  have dd: "g' (obj_key i) = g (obj_key i)" for i by (simp add: d)
  show ?thesis unfolding obj_rep_def dd
  proof (intro conjI allI impI)
    fix k w assume "prefix OBJ_DATA_PREFIX k" "g' k = Some w"
    then show "\<exists>content. decode_object w = Inr content \<and> k = obj_key (object_id D content)"
      using d [of k] rep by (auto simp: obj_rep_def)
  next
    fix k w assume k: "prefix OBJ_METADATA_PREFIX k" "g' k = Some w"
    show "\<exists>i md. k = metadata_key i \<and> decode_metadata w = Inr md \<and> g (obj_key i) \<noteq> None"
    proof (cases "k = k0")
      case True
      then show ?thesis using ok [of w] k o [of k] reference_key_space obj_spaces(2) by fastforce
    next
      case False
      then show ?thesis using rep k o [of k] unfolding obj_rep_def by metis
    qed
  next
    fix k w assume k: "prefix OBJ_REF_PREFIX k" "g' k = Some w"
    have "(\<exists>namespace name. obj_reference_key namespace name = Inr k) \<and> length w = 32 \<and> g (obj_key w) \<noteq> None"
    proof (cases "k = k0")
      case True
      then show ?thesis using ok [of w] k o [of k] obj_spaces(3) obj_key_simps(2) by metis
    next
      case False
      then show ?thesis using rep k o [of k] unfolding obj_rep_def by metis
    qed
    then show "\<exists>namespace name. obj_reference_key namespace name = Inr k" "length w = 32" "g (obj_key w) \<noteq> None" by simp_all
  qed
qed

text \<open>Dropping objects that nothing refers to, with their metadata.\<close>

lemma obj_rep_drop:
  assumes rep: "obj_rep D g" and free: "\<And>k v. prefix OBJ_REF_PREFIX k \<Longrightarrow> g k = Some v \<Longrightarrow> v \<notin> I"
    and g': "\<And>k. obj_space k \<Longrightarrow> g' k = (if k \<in> obj_key ` I \<union> metadata_key ` I then None else g k)"
  shows "obj_rep D g'"
proof -
  have nd: "obj_key i \<noteq> metadata_key j" for i j using obj_spaces(1) [OF obj_key_simps(1)] obj_key_simps(2) by metis
  have r: "prefix OBJ_REF_PREFIX k \<Longrightarrow> g' k = g k" for k
    using g' [of k] obj_spaces(1) [OF obj_key_simps(1)] obj_spaces(2) [OF obj_key_simps(2)] by (auto simp: obj_space_def)
  have d: "g' (obj_key i) = (if i \<in> I then None else g (obj_key i))" and m: "g' (metadata_key i) = (if i \<in> I then None else g (metadata_key i))" for i
    using g' [of "obj_key i"] g' [of "metadata_key i"] nd by (auto simp: nd [symmetric])
  show ?thesis unfolding obj_rep_def
  proof (intro conjI allI impI)
    fix k w assume k: "prefix OBJ_DATA_PREFIX k" "g' k = Some w"
    then have "g k = Some w" using g' [of k] by (auto simp: obj_space_def split: if_splits)
    then show "\<exists>content. decode_object w = Inr content \<and> k = obj_key (object_id D content)" using rep k(1) by (auto simp: obj_rep_def)
  next
    fix k w assume k: "prefix OBJ_METADATA_PREFIX k" "g' k = Some w"
    then have "g k = Some w" using g' [of k] by (auto simp: obj_space_def split: if_splits)
    then obtain i md where "k = metadata_key i" "decode_metadata w = Inr md" "g (obj_key i) \<noteq> None" using rep k(1) unfolding obj_rep_def by metis
    then show "\<exists>i md. k = metadata_key i \<and> decode_metadata w = Inr md \<and> g' (obj_key i) \<noteq> None" using d m [of i] k(2) by auto
  next
    fix k w assume k: "prefix OBJ_REF_PREFIX k" "g' k = Some w"
    then have w: "g k = Some w" using r by simp
    then have "(\<exists>namespace name. obj_reference_key namespace name = Inr k) \<and> length w = 32 \<and> g (obj_key w) \<noteq> None"
      using rep k(1) unfolding obj_rep_def by blast
    then show "\<exists>namespace name. obj_reference_key namespace name = Inr k" "length w = 32" "g' (obj_key w) \<noteq> None"
      using d free [OF k(1) w] by auto
  qed
qed

section \<open>Actions that leave a part of the transaction's view alone\<close>

definition framing :: "(bytes \<Rightarrow> bool) \<Rightarrow> (transaction, 'e, 'a) act \<Rightarrow> bool" where
  "framing P a \<longleftrightarrow> (\<forall>t r t'. a t = (r, t') \<longrightarrow> (\<forall>k. P k \<longrightarrow> tx_get_internal t' k = tx_get_internal t k))"

named_theorems framing_intros \<open>actions that leave the keys of a space alone\<close>

lemma framing_pure [framing_intros]: "framing P (act_return v)" "framing P (act_lift r)" "framing P (\<lambda>t. (g t, t))"
  by (simp_all add: framing_def)

lemma framing_bind [framing_intros]: "framing P a \<Longrightarrow> (\<And>x. framing P (f x)) \<Longrightarrow> framing P (act_bind a f)"
  unfolding framing_def act_bind_def by (fastforce split: prod.splits sum.splits)

lemma framing_map_err [framing_intros]: "framing P a \<Longrightarrow> framing P (act_map_err e a)"
  unfolding framing_def act_map_err_def by (auto split: prod.splits sum.splits)

lemma framing_if [framing_intros]: "framing P a \<Longrightarrow> framing P b \<Longrightarrow> framing P (if c then a else b)"
  by simp

lemma framing_put [framing_intros]: "\<not> P k \<Longrightarrow> framing P (tx_put_internal D k v)"
  unfolding framing_def
proof (intro allI impI)
  fix t r t' k' assume "\<not> P k" "tx_put_internal D k v t = (r, t')" "P k'"
  then show "tx_get_internal t' k' = tx_get_internal t k'" using tx_kv.put_get [of D k v t _ t' k'] tx_kv.put_fail [of D k v t _ t' k'] by (cases r) auto
qed

lemma framing_delete [framing_intros]: "\<not> P k \<Longrightarrow> framing P (tx_delete_internal D k)"
  unfolding framing_def
proof (intro allI impI)
  fix t r t' k' assume "\<not> P k" "tx_delete_internal D k t = (r, t')" "P k'"
  then show "tx_get_internal t' k' = tx_get_internal t k'" using tx_kv.del_get [of D k t _ t' k'] tx_kv.del_fail [of D k t _ t' k'] by (cases r) auto
qed

lemma framing_for [framing_intros]: "(\<And>x. framing P (f x)) \<Longrightarrow> framing P (act_for f xs)"
  by (induction xs) (simp_all add: framing_pure framing_bind)

lemma framing_ext: "(\<And>t r t'. a t = (r, t') \<Longrightarrow> tx_ext [] t t') \<Longrightarrow> framing P a"
  unfolding framing_def using tx_get_ext by fastforce

lemma framing_random [framing_intros]: "framing P (tx_random e)"
  by (rule framing_ext) (auto simp: tx_random_def tx_ext_def same_view_def split: list.splits)

lemma framing_build_job [framing_intros]: "framing P (tx_build_job spec)"
  by (rule framing_ext) (rule tx_build_job_ext)

lemma framing_option [framing_intros]:
  "framing P a \<Longrightarrow> (\<And>x. framing P (f x)) \<Longrightarrow> framing P (case c of None \<Rightarrow> a | Some x \<Rightarrow> f x)"
  by (cases c) auto

lemma framing_user [framing_intros]:
  assumes "\<And>k. P k \<Longrightarrow> prefix INTERNAL_KEY_PREFIX k"
  shows "framing P (tx_put D k v)" and "framing P (tx_delete D k)"
proof -
  show "framing P (tx_put D k v)" unfolding framing_def
  proof (intro allI impI)
    fix t r t' k' assume p: "tx_put D k v t = (r, t')" "P k'"
    show "tx_get_internal t' k' = tx_get_internal t k'"
    proof (cases r)
      case (Inl e)
      then show ?thesis using p staging_put [of D k v] stagingD [OF staging_put] tx_kv.put_fail by (metis tx_put_iff prod.inject)
    next
      case (Inr u)
      then show ?thesis using tx_put_get [of D k v t u t'] p assms by auto
    qed
  qed
  show "framing P (tx_delete D k)" unfolding framing_def
  proof (intro allI impI)
    fix t r t' k' assume p: "tx_delete D k t = (r, t')" "P k'"
    show "tx_get_internal t' k' = tx_get_internal t k'"
    proof (cases r)
      case (Inl e)
      then show ?thesis using p tx_kv.del_fail by (metis tx_delete_iff prod.inject)
    next
      case (Inr u)
      then show ?thesis using tx_delete_get [of D k t u t'] p assms by auto
    qed
  qed
qed

lemma framing_guard: "(\<And>x. r = Inr x \<Longrightarrow> framing P (f x)) \<Longrightarrow> framing P (act_bind (act_lift r) f)"
  by (cases r) (simp_all add: framing_def)

lemma obj_space_root: "obj_space k \<Longrightarrow> prefix (0xff # ascii ''vds:obj:'') k"
  unfolding obj_space_def by (auto simp: OBJ_DATA_PREFIX_def OBJ_METADATA_PREFIX_def OBJ_REF_PREFIX_def ascii_def prefix_def)

lemma not_obj_space:
  "prefix QUEUE_PREFIX k \<Longrightarrow> \<not> obj_space k" "prefix STREAM_PREFIX k \<Longrightarrow> \<not> obj_space k" "prefix OUTBOX_PREFIX k \<Longrightarrow> \<not> obj_space k"
  "prefix REQUEST_PREFIX k \<Longrightarrow> \<not> obj_space k" "prefix JOB_PREFIX k \<Longrightarrow> \<not> obj_space k" "prefix HISTORY_PREFIX k \<Longrightarrow> \<not> obj_space k"
  by (rule contrapos_nn [OF other_space obj_space_root];
      simp add: QUEUE_PREFIX_def STREAM_PREFIX_def OUTBOX_PREFIX_def REQUEST_PREFIX_def JOB_PREFIX_def HISTORY_PREFIX_def ascii_def)+

lemma obj_space_internal: "obj_space k \<Longrightarrow> prefix INTERNAL_KEY_PREFIX k"
  using obj_space_root [of k] by (auto simp: INTERNAL_KEY_PREFIX_def ascii_def prefix_def)

definition object_step :: "domain_step \<Rightarrow> bool" where
  "object_step st \<longleftrightarrow> (case st of StepObject _ \<Rightarrow> True | StepLink _ _ _ \<Rightarrow> True | StepUnlink _ _ \<Rightarrow> True | _ \<Rightarrow> False)"

lemma framing_counter [framing_intros]: "framing P (staged_counter n k)"
  unfolding staged_counter_def by (rule framing_pure)

lemma framing_push: "framing obj_space (push_queue D name payload opts)"
proof -
  have "prefix QUEUE_PREFIX (ns @ x)" if "dt_queue_namespace name = Inr ns" for ns x
    using that by (auto simp: dt_queue_namespace_def res_bind_Inr_iff)
  then show ?thesis unfolding push_queue_def
    by (intro framing_if framing_guard framing_intros not_obj_space(1)) auto
qed

lemma framing_append: "framing obj_space (append_stream_tx D name payload)"
proof -
  have "prefix STREAM_PREFIX (ns @ x)" if "dt_tuple_key STREAM_PREFIX [name] = Inr ns" for ns x
    using that by (auto simp: res_bind_Inr_iff)
  then show ?thesis unfolding append_stream_tx_def
    by (intro framing_if framing_guard framing_intros not_obj_space(2)) auto
qed

lemma framing_services:
  "framing obj_space (emit_event D topic payload created)" "framing obj_space (request_rpc D meth payload created deadline)"
  "framing obj_space (enqueue_job D spec now)"
proof -
  show "framing obj_space (emit_event D topic payload created)" unfolding emit_event_def
    by (intro framing_intros not_obj_space(3)) (simp add: event_key_def)
  show "framing obj_space (request_rpc D meth payload created deadline)" unfolding request_rpc_def
    by (intro framing_intros not_obj_space(4)) (simp add: request_key_def)
  show "framing obj_space (enqueue_job D spec now)" unfolding enqueue_job_def enqueue_job_tx_def put_job_tx_def append_history_tx_def
    by (intro framing_intros not_obj_space(5,6)) (simp_all add: job_key_def history_key_def history_prefix_def not_obj_space)
qed

lemma framing_domain: "\<not> object_step st \<Longrightarrow> framing obj_space (domain_do D st)"
  by (cases st) (auto simp: object_step_def discard_def intro!: framing_intros framing_push framing_append framing_services dest: obj_space_internal)

section \<open>Operations inside a transaction\<close>

fun typed_step :: "domain_step \<Rightarrow> bool" where
  "typed_step (StepLink namespace name i) = (length i = 32)"
| "typed_step st = True"

lemma put_object_tx_rep:
  assumes rep: "obj_rep D (tx_get_internal t)" and p: "put_object_tx D content t = (Inr i, t')"
  shows "obj_rep D (tx_get_internal t')"
proof (cases "tx_get_internal t (object_key (dep_sha256 D content))")
  case None
  then obtain bs where bs: "encode_object content = Inr bs" "tx_put_internal D (object_key (dep_sha256 D content)) bs t = (Inr (), t')"
    using p by (auto simp: put_object_tx_def Let_def act_bind_Inr_iff act_map_err_iff act_return_def simp del: act_bind_lift)
  have d: "decode_object bs = Inr content" using decode_object_encode bs(1) by (simp add: obj_keys_shared)
  show ?thesis by (rule obj_rep_data [OF rep d refl]) (use tx_kv.put_get [OF bs(2)] in \<open>simp add: object_id_def obj_keys_shared\<close>)
qed (use assms in \<open>auto simp: put_object_tx_def Let_def act_bind_def act_return_def\<close>)

lemma link_object_tx_rep:
  assumes rep: "obj_rep D (tx_get_internal t)" and i: "length i = 32" and p: "link_object_tx D namespace name i t = (Inr u, t')"
  shows "obj_rep D (tx_get_internal t')"
proof -
  from p obtain k where k: "tx_get_internal t (object_key i) \<noteq> None" "reference_key namespace name = Inr k" "tx_put_internal D k i t = (Inr (), t')"
    by (auto simp: link_object_tx_def act_bind_Inr_iff act_map_err_iff act_lift_def split: if_splits simp del: act_bind_lift)
  have r: "obj_reference_key namespace name = Inr k" using k(2) by (simp add: obj_keys_shared)
  show ?thesis
    by (rule obj_rep_side [OF rep, where x = "Some i" and ?k0.0 = k])
      (use obj_spaces(3) [OF reference_key_space [OF r]] tx_kv.put_get [OF k(3)] k(1) r i in \<open>auto simp: obj_keys_shared\<close>)
qed

lemma unlink_object_tx_rep:
  assumes rep: "obj_rep D (tx_get_internal t)" and p: "unlink_object_tx D namespace name t = (Inr b, t')"
  shows "obj_rep D (tx_get_internal t')"
proof -
  from p obtain k where k: "reference_key namespace name = Inr k" "t' = t \<or> tx_delete_internal D k t = (Inr (), t')"
    by (auto simp: unlink_object_tx_def act_bind_Inr_iff act_map_err_iff act_return_def split: if_splits simp del: act_bind_lift)
  have r: "prefix OBJ_REF_PREFIX k" using k(1) reference_key_space by (simp add: obj_keys_shared)
  from k(2) show ?thesis
  proof
    assume "tx_delete_internal D k t = (Inr (), t')"
    then show ?thesis
      by (intro obj_rep_side [OF rep, where x = None and ?k0.0 = k]) (use obj_spaces(3) [OF r] tx_kv.del_get in auto)
  qed (use rep in simp)
qed

lemma domain_do_rep:
  assumes rep: "obj_rep D (tx_get_internal t)" and typed: "typed_step st" and p: "domain_do D st t = (Inr u, t')"
  shows "obj_rep D (tx_get_internal t')"
proof (cases "object_step st")
  case True
  then show ?thesis
    using p typed by (cases st) (auto simp: object_step_def discard_def act_map_err_iff act_bind_Inr_iff
      intro: put_object_tx_rep [OF rep] link_object_tx_rep [OF rep] unlink_object_tx_rep [OF rep])
next
  case False
  then show ?thesis using framing_domain [OF False, of D] p by (intro obj_rep_cong [OF rep]) (auto simp: framing_def)
qed

lemma domain_steps_rep:
  assumes "obj_rep D (tx_get_internal t)" and "list_all typed_step sts" and "act_for (domain_do D) sts t = (Inr u, t')"
  shows "obj_rep D (tx_get_internal t')"
  using assms
proof (induction sts arbitrary: t)
  case (Cons st sts)
  then obtain u1 t1 where "domain_do D st t = (Inr u1, t1)" "act_for (domain_do D) sts t1 = (Inr u, t')" by (auto simp: act_bind_Inr_iff)
  then show ?case using Cons domain_do_rep by (metis list.pred_inject(2))
qed (simp add: act_return_def)

section \<open>Operations of the store\<close>

definition object_inv :: "deps \<Rightarrow> store \<Rightarrow> bool" where
  "object_inv D s \<longleftrightarrow> store_wf s \<and> obj_rep D (store_get s)"

lemma object_metrics [simp]:
  "store_get (record_object_put n s) k = store_get s k" "store_get (record_object_gc n s) k = store_get s k"
  "store_wf (record_object_put n s) = store_wf s" "store_wf (record_object_gc n s) = store_wf s"
  "scan_prefix (record_object_put n s) p = scan_prefix s p" "scan_prefix (record_object_gc n s) p = scan_prefix s p"
  by (simp_all add: record_object_put_def record_object_gc_def store_get_def store_wf_def scan_prefix_def)

lemma object_inv_metrics [simp]: "object_inv D (record_object_put n s) = object_inv D s" "object_inv D (record_object_gc n s) = object_inv D s"
  by (simp_all add: object_inv_def fun_eq_iff obj_rep_def)

lemma object_inv_put:
  assumes inv: "object_inv D s" and p: "store_put_internal D k v s = (r, s')"
    and ok: "\<And>g'. (\<And>k'. obj_space k' \<Longrightarrow> g' k' = (if k' = k then Some v else store_get s k')) \<Longrightarrow> obj_rep D g'"
  shows "object_inv D s'"
proof -
  have w: "store_wf s'" using inv p unfolding object_inv_def store_put_internal_def by (metis run_tx_wf staging_put_internal)
  show ?thesis
  proof (cases r)
    case (Inl e)
    then have "store_get s' k' = store_get s k'" for k' using store_kv.put_fail p by metis
    then show ?thesis using inv w by (simp add: object_inv_def fun_eq_iff obj_rep_def)
  next
    case (Inr u)
    then have "obj_rep D (store_get s')" using p by (intro ok) (auto simp: store_put_internal_get obj_space_not_cdc)
    then show ?thesis using w by (simp add: object_inv_def)
  qed
qed

lemma object_inv_run:
  assumes inv: "object_inv D s" and st: "staging body" and p: "run_tx D emit conv body s = (r, s')"
    and ok: "\<And>t v. body (fresh_tx emit s) = (Inr v, t) \<Longrightarrow> obj_rep D (tx_get_internal t)"
  shows "object_inv D s'"
proof -
  have w: "store_wf s'" using run_tx_wf [OF st _ p] inv by (simp add: object_inv_def)
  have R: "obj_rep D (store_get s)" using inv by (simp add: object_inv_def)
  show ?thesis
  proof (cases r)
    case (Inl e)
    then have "store_get s' = store_get s" using run_tx_fail_get [OF st] p by (auto simp: fun_eq_iff)
    then show ?thesis using R w by (simp add: object_inv_def)
  next
    case (Inr v)
    obtain t where t: "body (fresh_tx emit s) = (Inr v, t)" "\<And>k. not_cdc k \<Longrightarrow> store_get s' k = tx_get_internal t k"
      using p [unfolded Inr] by (rule run_tx_view [OF st]) blast
    have "obj_rep D (store_get s')" by (rule obj_rep_cong [OF ok [OF t(1)]]) (simp add: t(2) obj_space_not_cdc)
    then show ?thesis using w by (simp add: object_inv_def)
  qed
qed

lemma put_object_inv:
  assumes inv: "object_inv D s" and p: "put_object_with_metadata D content metadata s = (r, s')"
  shows "object_inv D s'"
proof -
  let ?i = "object_id D content"
  have R: "obj_rep D (store_get s)" using inv by (simp add: object_inv_def)
  show ?thesis
  proof (cases "normalize_metadata metadata")
    case (Inl e)
    then show ?thesis using p inv by (simp add: put_object_with_metadata_def)
  next
    case (Inr md)
    note md = this
    show ?thesis
    proof (cases "store_get s (obj_key ?i) \<noteq> None \<or> (\<exists>e. obj_encode_object content = Inl e)")
      case True
      then show ?thesis using p inv md by (auto simp: put_object_with_metadata_def Let_def act_bind_def act_return_def act_lift_def split: if_splits)
    next
      case False
      then obtain bs where bs: "obj_encode_object content = Inr bs" by (cases "obj_encode_object content") auto
      obtain q s1 where q: "store_put_internal D (obj_key ?i) bs s = (q, s1)" by fastforce
      have i1: "object_inv D s1"
        by (rule object_inv_put [OF inv q]) (rule obj_rep_data [OF R decode_object_encode [OF bs] refl])
      show ?thesis
      proof (cases "(\<exists>e. q = Inl e) \<or> md = [] \<or> (\<exists>e. encode_metadata md = Inl e)")
        case True
        then show ?thesis using p i1 md bs q False
          by (cases q) (auto split: if_splits simp: put_object_with_metadata_def Let_def act_bind_def act_return_def act_map_err_def)
      next
        case ok: False
        then obtain u mb where u: "q = Inr u" "encode_metadata md = Inr mb" by (cases q; cases "encode_metadata md") auto
        obtain q2 s2 where q2: "store_put_internal D (metadata_key ?i) mb s1 = (q2, s2)" by fastforce
        have R1: "obj_rep D (store_get s1)" using i1 by (simp add: object_inv_def)
        have g1: "store_get s1 (obj_key ?i) \<noteq> None" using store_put_internal_get [OF q [unfolded u(1)]] by (simp add: obj_space_not_cdc)
        have m: "decode_metadata mb = Inr md" by (rule decode_metadata_encode [OF md u(2)])
        have i2: "object_inv D s2"
          by (rule object_inv_put [OF i1 q2]) (rule obj_rep_side [OF R1, where x = "Some mb" and ?k0.0 = "metadata_key ?i"],
            use obj_spaces(2) [OF obj_key_simps(2)] g1 m in auto)
        show ?thesis using p i2 md bs q u ok False q2
          by (cases q2) (auto simp: put_object_with_metadata_def Let_def act_bind_def act_return_def act_map_err_def)
      qed
    qed
  qed
qed

lemma get_object_result: "get_object s i c = (r, c') \<Longrightarrow> r = stored_content s i"
  by (auto simp: get_object_def split: sum.splits option.splits)

lemma link_object_inv:
  assumes inv: "object_inv D s" and i: "length i = 32" and p: "link_object D namespace name i (s, c) = (r, (s', c'))"
  shows "object_inv D s'"
proof -
  have R: "obj_rep D (store_get s)" using inv by (simp add: object_inv_def)
  consider "s' = s" | k q where "obj_reference_key namespace name = Inr k" "store_put_internal D k i s = (q, s')" "store_get s (obj_key i) \<noteq> None"
    using p by (auto simp: link_object_def get_object_def stored_content_def act_map_err_def transpose_map_Inr_Some split: prod.splits sum.splits option.splits)
  then show ?thesis
  proof cases
    case 2
    show ?thesis
      by (rule object_inv_put [OF inv 2(2)])
        (rule obj_rep_side [OF R, where x = "Some i" and ?k0.0 = k], use obj_spaces(3) [OF reference_key_space [OF 2(1)]] 2 i in auto)
  qed (use inv in simp)
qed

lemma unlink_object_inv:
  assumes inv: "object_inv D s" and p: "unlink_object D namespace name s = (r, s')"
  shows "object_inv D s'"
proof -
  have R: "obj_rep D (store_get s)" using inv by (simp add: object_inv_def)
  consider "s' = s" | k q where "obj_reference_key namespace name = Inr k" "store_delete_internal D k s = (q, s')"
    using p by (auto simp: unlink_object_def act_bind_def act_return_def act_map_err_def split: prod.splits sum.splits if_splits)
  then show ?thesis
  proof cases
    case 2
    have w: "store_wf s'" using inv 2(2) unfolding object_inv_def store_delete_internal_def by (metis run_tx_wf staging_delete_internal)
    have g: "store_get s' k' = (if \<exists>e. q = Inl e then store_get s k' else if k' = k then None else store_get s k')" if "obj_space k'" for k'
      using 2(2) that store_kv.del_fail store_delete_internal_get by (cases q) (auto simp: obj_space_not_cdc)
    have "obj_rep D (store_get s')"
      by (rule obj_rep_side [OF R, where x = "if \<exists>e. q = Inl e then store_get s k else None" and ?k0.0 = k])
        (use g obj_spaces(3) [OF reference_key_space [OF 2(1)]] R reference_key_space [OF 2(1)] in \<open>auto simp: obj_rep_def split: if_splits\<close>)
    then show ?thesis using w by (simp add: object_inv_def)
  qed (use inv in simp)
qed

section \<open>Removing objects\<close>

lemma gc_delete_object: "length i = 32 \<Longrightarrow> gc_delete D (obj_key i) = retention_delete D (obj_key i, i)"
  by (simp add: gc_delete_def retention_delete_def decode_object_key_obj_key act_bind_def act_lift_def fun_eq_iff)

lemma gc_delete_objects:
  "\<forall>i \<in> set is. length i = 32 \<Longrightarrow> act_for (gc_delete D) (map obj_key is) = act_for (retention_delete D) (map (\<lambda>i. (obj_key i, i)) is)"
  by (induction "is") (auto simp: gc_delete_object)

lemma staging_retention_delete [staging_intros]: "staging (retention_delete D x)"
  unfolding retention_delete_def by (cases x) (auto intro!: staging_intros)

lemma logging_retention_delete [logging_intros]: "logging D (retention_delete D x)"
  unfolding retention_delete_def by (cases x) (auto intro!: logging_intros)

lemma drop_objects_get:
  assumes "act_for (retention_delete D) (map (\<lambda>i. (obj_key i, i)) is) t = (Inr u, t')"
  shows "tx_get_internal t' k = (if k \<in> obj_key ` set is \<union> metadata_key ` set is then None else tx_get_internal t k)"
  using assms
proof (induction "is" arbitrary: t)
  case (Cons i "is")
  then obtain t1 t2 where t: "tx_delete_internal D (obj_key i) t = (Inr (), t1)" "tx_delete_internal D (metadata_key i) t1 = (Inr (), t2)"
    "act_for (retention_delete D) (map (\<lambda>i. (obj_key i, i)) is) t2 = (Inr u, t')"
    by (auto simp: act_bind_Inr_iff retention_delete_def act_map_err_iff)
  show ?case using Cons.IH [OF t(3)] tx_kv.del_get [OF t(2)] tx_kv.del_get [OF t(1)] by auto
qed (simp add: act_return_def)

text \<open>A transaction that removes unreferenced objects, or nothing when there is none.\<close>

lemma drop_objects:
  assumes inv: "object_inv D s" and free: "\<And>k v. prefix OBJ_REF_PREFIX k \<Longrightarrow> store_get s k = Some v \<Longrightarrow> v \<notin> set is"
    and p: "(if is = [] then act_return () else run_tx D True OjStore (act_for (retention_delete D) (map (\<lambda>i. (obj_key i, i)) is))) s = (r, s')"
  shows "object_inv D s'"
    and "obj_space k \<Longrightarrow> r = Inr u \<Longrightarrow> store_get s' k = (if k \<in> obj_key ` set is \<union> metadata_key ` set is then None else store_get s k)"
    and "r = Inl e \<Longrightarrow> store_get s' k = store_get s k"
proof -
  let ?b = "act_for (retention_delete D) (map (\<lambda>i. (obj_key i, i)) is)"
  have st: "staging ?b" by (intro staging_intros)
  have R: "obj_rep D (store_get s)" using inv by (simp add: object_inv_def)
  have run: "run_tx D True OjStore ?b s = (r, s')" if "is \<noteq> []" using p that by simp
  have none: "r = Inr () \<and> s' = s" if "is = []" using p that by (simp add: act_return_def)
  show "object_inv D s'"
  proof (cases "is = []")
    case False
    show ?thesis
    proof (rule object_inv_run [OF inv st run [OF False]])
      fix t v assume "?b (fresh_tx True s) = (Inr v, t)"
      from drop_objects_get [OF this] show "obj_rep D (tx_get_internal t)" by (intro obj_rep_drop [OF R free]) auto
    qed
  qed (use none inv in simp)
  show "store_get s' k = (if k \<in> obj_key ` set is \<union> metadata_key ` set is then None else store_get s k)" if ok: "obj_space k" "r = Inr u"
  proof (cases "is = []")
    case False
    obtain t where t: "?b (fresh_tx True s) = (Inr u, t)" "\<And>k. not_cdc k \<Longrightarrow> store_get s' k = tx_get_internal t k"
      using run [OF False, unfolded ok(2)] by (rule run_tx_view [OF st]) blast
    then show ?thesis using drop_objects_get [OF t(1), of k] ok(1) by (simp add: obj_space_not_cdc)
  qed (use none in simp)
  show "r = Inl e \<Longrightarrow> store_get s' k = store_get s k"
    using none run run_tx_fail_get [OF st] by (cases "is = []") auto
qed

definition referenced :: "store \<Rightarrow> bytes \<Rightarrow> bool" where
  "referenced s i \<longleftrightarrow> (\<exists>k. prefix OBJ_REF_PREFIX k \<and> store_get s k = Some i)"

lemma referenced_objects_Inr:
  assumes "object_inv D s" and "referenced_objects s = Inr ids"
  shows "i \<in> set ids \<longleftrightarrow> referenced s i"
proof -
  have wf: "store_wf s" using assms(1) by (simp add: object_inv_def)
  from assms(2) obtain js where j: "map_result (\<lambda>(_, value). reference_target value) (scan_prefix s OBJ_REF_PREFIX) = Inr js" "ids = remdups js"
    by (auto simp: referenced_objects_def res_bind_Inr_iff)
  have "js = map snd (scan_prefix s OBJ_REF_PREFIX)"
    using j(1) unfolding map_result_Inr_iff by (intro list_eq_iff_nth_eq [THEN iffD2])
      (auto simp: list_all2_conv_all_nth reference_target_def case_prod_unfold split: if_splits)
  then show ?thesis using j(2) in_scan_prefix_iff [OF wf, of _ _ OBJ_REF_PREFIX] by (force simp: referenced_def)
qed

lemma object_scan:
  assumes inv: "object_inv D s" and sha: "sha_ok D"
  obtains ids where "map fst (scan_prefix s OBJ_DATA_PREFIX) = map obj_key ids" and "\<forall>i \<in> set ids. length i = 32"
    and "\<And>i. i \<in> set ids \<longleftrightarrow> store_get s (obj_key i) \<noteq> None" and "distinct ids"
proof -
  have wf: "store_wf s" and R: "obj_rep D (store_get s)" using inv by (simp_all add: object_inv_def)
  let ?ks = "map fst (scan_prefix s OBJ_DATA_PREFIX)" let ?ids = "map (drop (length OBJ_DATA_PREFIX)) ?ks"
  have k: "\<exists>i. k = obj_key i \<and> length i = 32" if ks: "k \<in> set ?ks" for k
  proof -
    obtain v where "prefix OBJ_DATA_PREFIX k" "store_get s k = Some v" using ks in_scan_prefix_iff [OF wf, of k _ OBJ_DATA_PREFIX] by auto
    then obtain content where "k = obj_key (object_id D content)" using R unfolding obj_rep_def by blast
    then show ?thesis using sha by (auto simp: sha_ok_def object_id_def)
  qed
  have again: "obj_key (drop (length OBJ_DATA_PREFIX) k) = k" if "k \<in> set ?ks" for k using k [OF that] by (auto simp: obj_key_def)
  have A: "map obj_key ?ids = ?ks" using again by (simp add: map_idI)
  have B: "\<forall>i \<in> set ?ids. length i = 32" using k by (fastforce simp: obj_key_def)
  have C: "i \<in> set ?ids \<longleftrightarrow> store_get s (obj_key i) \<noteq> None" for i
  proof -
    have "i \<in> set ?ids \<longleftrightarrow> obj_key i \<in> set ?ks"
    proof
      assume "i \<in> set ?ids"
      then show "obj_key i \<in> set ?ks" using again by force
    next
      assume "obj_key i \<in> set ?ks"
      then have "drop (length OBJ_DATA_PREFIX) (obj_key i) \<in> set ?ids" unfolding set_map by (rule imageI)
      then show "i \<in> set ?ids" by (simp add: obj_key_def)
    qed
    also have "\<dots> \<longleftrightarrow> (\<exists>v. (obj_key i, v) \<in> set (scan_prefix s OBJ_DATA_PREFIX))" by (auto simp: image_iff) (metis fst_conv)
    also have "\<dots> \<longleftrightarrow> store_get s (obj_key i) \<noteq> None" using in_scan_prefix_iff [OF wf] by simp
    finally show ?thesis .
  qed
  have E: "distinct ?ids"
  proof -
    have "distinct (map obj_key ?ids)" unfolding A using strict_sorted_scan [OF wf, of OBJ_DATA_PREFIX] by (simp add: strict_sorted_iff)
    then show ?thesis unfolding distinct_map [of obj_key] by (rule conjunct1)
  qed
  show ?thesis by (rule that [OF A [symmetric] B C E])
qed

lemma gc_collect_eq:
  assumes "map fst es = map obj_key ids" and "\<forall>i \<in> set ids. length i = 32" and "length acc < limit"
  shows "gc_collect refs limit acc es = Inr (acc @ take (limit - length acc) (map obj_key (filter (\<lambda>i. i \<notin> set refs) ids)))"
  using assms
proof (induction refs limit acc es arbitrary: ids rule: gc_collect.induct)
  case (2 refs limit acc k v rest)
  from "2.prems"(1) obtain i ids' where i: "ids = i # ids'" "k = obj_key i" "map fst rest = map obj_key ids'" by (cases ids) auto
  have d: "decode_object_key k = Inr i" using "2.prems"(2) i(1,2) by (simp add: decode_object_key_obj_key)
  have l: "\<forall>i \<in> set ids'. length i = 32" using "2.prems"(2) i(1) by simp
  consider "i \<in> set refs" | "i \<notin> set refs" "length acc + 1 = limit" | "i \<notin> set refs" "length (acc @ [k]) < limit" using "2.prems"(3) by force
  then show ?case
  proof cases
    case 1
    then show ?thesis using "2.IH"(1) [OF 1 i(3) l "2.prems"(3)] d i(1) by simp
  next
    case 2
    then have "limit - length acc = Suc 0" by simp
    then show ?thesis using d i 2 by simp
  next
    case 3
    then have "length acc + 1 \<noteq> limit" by simp
    then have "gc_collect refs limit (acc @ [k]) rest = Inr ((acc @ [k]) @ take (limit - length (acc @ [k])) (map obj_key (filter (\<lambda>i. i \<notin> set refs) ids')))"
      using "2.IH"(2) [OF 3(1) _ i(3) l 3(2)] by simp
    moreover have "limit - length acc = Suc (limit - Suc (length acc))" using 3(2) by simp
    ultimately show ?thesis using d i 3 by simp
  qed
qed simp

theorem gc_spec:
  assumes inv: "object_inv D s" and sha: "sha_ok D" and p: "gc_orphan_objects D limit s = (r, s')"
  obtains gone where "object_inv D s'" and "\<forall>i \<in> set gone. \<not> referenced s i" and "length gone \<le> limit" and "distinct gone"
    and "\<And>k. obj_space k \<Longrightarrow> store_get s' k = (if k \<in> obj_key ` set gone \<union> metadata_key ` set gone then None else store_get s k)"
    and "\<And>rep. r = Inr rep \<Longrightarrow> gc_removed rep = length gone"
    and "\<And>rep i. r = Inr rep \<Longrightarrow> gc_removed rep < limit \<Longrightarrow> store_get s (obj_key i) \<noteq> None \<Longrightarrow> \<not> referenced s i \<Longrightarrow> i \<in> set gone"
proof -
  note result = that
  have idle: thesis if "s' = s" "\<And>rep. r = Inr rep \<Longrightarrow> gc_removed rep = 0 \<and> limit = 0"
    by (rule result [where gone = "[]"]) (use inv that in auto)
  show ?thesis
  proof (cases "referenced_objects s")
    case (Inl e)
    then show ?thesis using p by (intro idle) (auto simp: gc_orphan_objects_def act_bind_def)
  next
    case (Inr refs)
    note refs = referenced_objects_Inr [OF inv Inr]
    obtain ids where ids: "map fst (scan_prefix s OBJ_DATA_PREFIX) = map obj_key ids" "\<forall>i \<in> set ids. length i = 32"
      "\<And>i. i \<in> set ids \<longleftrightarrow> store_get s (obj_key i) \<noteq> None" "distinct ids" using inv sha by (rule object_scan) blast
    show ?thesis
    proof (cases "limit = 0")
      case True
      then show ?thesis using p Inr by (intro idle) (auto simp: gc_orphan_objects_def act_bind_def act_return_def)
    next
      case False
      define gone where "gone = take limit (filter (\<lambda>i. i \<notin> set refs) ids)"
      have g: "gc_collect refs limit [] (scan_prefix s OBJ_DATA_PREFIX) = Inr (map obj_key gone)"
        using gc_collect_eq [OF ids(1,2), of "[]" limit refs] False by (simp add: take_map gone_def)
      have len: "\<forall>i \<in> set gone. length i = 32" using ids(2) by (auto simp: gone_def dest: in_set_takeD)
      obtain q s1 where q: "(if gone = [] then act_return () else run_tx D True OjStore (act_for (retention_delete D) (map (\<lambda>i. (obj_key i, i)) gone))) s = (q, s1)"
        by fastforce
      have rs: "case q of Inl e \<Rightarrow> r = Inl e \<and> s' = s1 | Inr u \<Rightarrow> (\<exists>rep. r = Inr rep \<and> gc_removed rep = length gone) \<and> s' = record_object_gc (length gone) s1"
        using p Inr g q False gc_delete_objects [OF len, of D]
        by (cases "gone = []") (auto simp: gc_orphan_objects_def act_bind_def act_return_def act_lift_def split: sum.splits)
      have free: "\<And>k v. prefix OBJ_REF_PREFIX k \<Longrightarrow> store_get s k = Some v \<Longrightarrow> v \<notin> set gone"
        using refs by (auto simp: gone_def referenced_def dest!: in_set_takeD)
      note d = drop_objects [OF inv free q]
      show ?thesis
      proof (cases q)
        case (Inl e)
        have gs: "store_get s1 k = store_get s k" for k by (rule d(3) [OF _ _ Inl]) simp_all
        show ?thesis by (rule result [where gone = "[]"]) (use rs Inl d(1) gs in auto)
      next
        case (Inr u)
        have gs: "store_get s1 k = (if k \<in> obj_key ` set gone \<union> metadata_key ` set gone then None else store_get s k)" if "obj_space k" for k
          by (rule d(2) [OF _ _ that Inr]) simp_all
        show ?thesis
        proof (rule result [where gone = gone])
          show "object_inv D s'" using rs Inr d(1) by auto
          show "\<forall>i \<in> set gone. \<not> referenced s i" using refs by (auto simp: gone_def dest: in_set_takeD)
          show "length gone \<le> limit" "distinct gone" using ids(4) by (simp_all add: gone_def distinct_take)
          show "store_get s' k = (if k \<in> obj_key ` set gone \<union> metadata_key ` set gone then None else store_get s k)" if "obj_space k" for k
            using rs Inr gs [OF that] by auto
          show "gc_removed rep = length gone" if "r = Inr rep" for rep using rs Inr that by auto
          show "i \<in> set gone" if "r = Inr rep" "gc_removed rep < limit" "store_get s (obj_key i) \<noteq> None" "\<not> referenced s i" for rep i
          proof -
            have "length gone < limit" using rs Inr that(1,2) by auto
            then have "gone = filter (\<lambda>i. i \<notin> set refs) ids" by (simp add: gone_def)
            then show ?thesis using ids(3) refs that(3,4) by auto
          qed
        qed
      qed
    qed
  qed
qed

section \<open>Retention\<close>

definition expired_object :: "store \<Rightarrow> i64 \<Rightarrow> bytes \<Rightarrow> bool" where
  "expired_object s now i \<longleftrightarrow> (\<exists>md at. stored_metadata s i = Inr md \<and> object_expiry md = Inr (Some at) \<and> sint at \<le> sint now)"

lemma retention_collect_spec:
  assumes "map fst es = map obj_key ids" and "\<forall>i \<in> set ids. length i = 32" and "retention_collect s now limit refs acc es = Inr found"
    and "limit = 0 \<or> length (rs_remove acc) \<le> limit"
  shows "rs_remove found = rs_remove acc @ map (\<lambda>i. (obj_key i, i))
    ((if limit = 0 then id else take (limit - length (rs_remove acc))) (filter (\<lambda>i. expired_object s now i \<and> i \<notin> set refs) ids))"
  using assms
proof (induction s now limit refs acc es arbitrary: ids rule: retention_collect.induct)
  case (2 s now limit refs acc k v rest)
  from "2.prems"(1) obtain i ids' where i: "ids = i # ids'" "k = obj_key i" "map fst rest = map obj_key ids'" by (cases ids) auto
  have d: "decode_object_key k = Inr i" using "2.prems"(2) i(1,2) by (simp add: decode_object_key_obj_key)
  obtain md x where m: "stored_metadata s i = Inr md" "object_expiry md = Inr x" using "2.prems"(3) d by (auto simp: res_bind_Inr_iff)
  let ?acc = "case x of None \<Rightarrow> acc | Some at \<Rightarrow> if sint now < sint at then acc else let acc1 = acc\<lparr>rs_expired := rs_expired acc + 1\<rparr>
     in if i \<in> set refs then acc1\<lparr>rs_referenced := rs_referenced acc1 + 1\<rparr>
        else if limit = 0 \<or> length (rs_remove acc1) < limit then acc1\<lparr>rs_remove := rs_remove acc1 @ [(k, i)]\<rparr> else acc1"
  have c: "retention_collect s now limit refs ?acc rest = Inr found" using "2.prems"(3) d m by simp
  have ex: "expired_object s now i \<longleftrightarrow> (\<exists>at. x = Some at \<and> sint at \<le> sint now)" using m by (auto simp: expired_object_def)
  have r: "rs_remove ?acc = (if expired_object s now i \<and> i \<notin> set refs \<and> (limit = 0 \<or> length (rs_remove acc) < limit) then rs_remove acc @ [(k, i)] else rs_remove acc)"
    unfolding ex by (auto simp: Let_def split: option.splits)
  have l: "limit = 0 \<or> length (rs_remove ?acc) \<le> limit" using "2.prems"(4) r by auto
  have "rs_remove found = rs_remove ?acc @ map (\<lambda>i. (obj_key i, i))
      ((if limit = 0 then id else take (limit - length (rs_remove ?acc))) (filter (\<lambda>i. expired_object s now i \<and> i \<notin> set refs) ids'))"
    by (rule "2.IH") (use i "2.prems"(2) c l in simp_all)
  then show ?case unfolding r i(1) using i(2) "2.prems"(4) by (auto simp: take_Cons' split: if_splits)
qed simp

theorem retention_spec:
  assumes inv: "object_inv D s" and sha: "sha_ok D" and p: "purge_expired_objects D now limit s = (r, s')"
  obtains gone where "object_inv D s'" and "\<forall>i \<in> set gone. \<not> referenced s i \<and> expired_object s now i"
    and "\<And>k. obj_space k \<Longrightarrow> store_get s' k = (if k \<in> obj_key ` set gone \<union> metadata_key ` set gone then None else store_get s k)"
    and "\<And>rep. r = Inr rep \<Longrightarrow> rt_removed rep = length gone \<and> (limit = 0 \<or> length gone \<le> limit)"
    and "\<And>rep i. r = Inr rep \<Longrightarrow> limit = 0 \<or> rt_removed rep < limit \<Longrightarrow> store_get s (obj_key i) \<noteq> None \<Longrightarrow>
      \<not> referenced s i \<Longrightarrow> expired_object s now i \<Longrightarrow> i \<in> set gone"
proof -
  note result = that
  have idle: thesis if "s' = s" "\<exists>e. r = Inl e" by (rule result [where gone = "[]"]) (use inv that in auto)
  show ?thesis
  proof (cases "referenced_objects s")
    case (Inl e)
    then show ?thesis using p by (intro idle) (auto simp: purge_expired_objects_def act_bind_def)
  next
    case (Inr refs)
    note refs = referenced_objects_Inr [OF inv Inr]
    obtain ids where ids: "map fst (scan_prefix s OBJ_DATA_PREFIX) = map obj_key ids" "\<forall>i \<in> set ids. length i = 32"
      "\<And>i. i \<in> set ids \<longleftrightarrow> store_get s (obj_key i) \<noteq> None" "distinct ids" using inv sha by (rule object_scan) blast
    show ?thesis
    proof (cases "retention_collect s now limit refs \<lparr>rs_expired = 0, rs_referenced = 0, rs_remove = []\<rparr> (scan_prefix s OBJ_DATA_PREFIX)")
      case (Inl e)
      then show ?thesis using p Inr by (intro idle) (auto simp: purge_expired_objects_def act_bind_def)
    next
      case found: (Inr found)
      define gone where "gone = (if limit = 0 then id else take limit) (filter (\<lambda>i. expired_object s now i \<and> i \<notin> set refs) ids)"
      have rm: "rs_remove found = map (\<lambda>i. (obj_key i, i)) gone"
        using retention_collect_spec [OF ids(1,2) found] by (simp add: gone_def)
      obtain q s1 where q: "(if gone = [] then act_return () else run_tx D True OjStore (act_for (retention_delete D) (map (\<lambda>i. (obj_key i, i)) gone))) s = (q, s1)"
        by fastforce
      have rs: "case q of Inl e \<Rightarrow> r = Inl e \<and> s' = s1 | Inr u \<Rightarrow> (\<exists>rep. r = Inr rep \<and> rt_removed rep = length gone) \<and> s' = record_object_gc (length gone) s1"
        using p Inr found q rm by (cases "gone = []") (auto simp: purge_expired_objects_def act_bind_def act_return_def split: sum.splits)
      have sub: "i \<in> set gone \<Longrightarrow> expired_object s now i \<and> i \<notin> set refs" for i by (auto simp: gone_def dest: in_set_takeD split: if_splits)
      have free: "\<And>k v. prefix OBJ_REF_PREFIX k \<Longrightarrow> store_get s k = Some v \<Longrightarrow> v \<notin> set gone" using refs sub by (auto simp: referenced_def)
      note d = drop_objects [OF inv free q]
      show ?thesis
      proof (cases q)
        case (Inl e)
        have gs: "store_get s1 k = store_get s k" for k by (rule d(3) [OF _ _ Inl]) simp_all
        show ?thesis by (rule result [where gone = "[]"]) (use rs Inl d(1) gs in auto)
      next
        case (Inr u)
        have gs: "store_get s1 k = (if k \<in> obj_key ` set gone \<union> metadata_key ` set gone then None else store_get s k)" if "obj_space k" for k
          by (rule d(2) [OF _ _ that Inr]) simp_all
        show ?thesis
        proof (rule result [where gone = gone])
          show "object_inv D s'" using rs Inr d(1) by auto
          show "\<forall>i \<in> set gone. \<not> referenced s i \<and> expired_object s now i" using refs sub by auto
          show "store_get s' k = (if k \<in> obj_key ` set gone \<union> metadata_key ` set gone then None else store_get s k)" if "obj_space k" for k
            using rs Inr gs [OF that] by auto
          show "rt_removed rep = length gone \<and> (limit = 0 \<or> length gone \<le> limit)" if "r = Inr rep" for rep
            using rs Inr that by (auto simp: gone_def)
          show "i \<in> set gone" if "r = Inr rep" "limit = 0 \<or> rt_removed rep < limit" "store_get s (obj_key i) \<noteq> None" "\<not> referenced s i" "expired_object s now i" for rep i
          proof -
            have "limit = 0 \<or> length gone < limit" using rs Inr that(1,2) by auto
            then have "gone = filter (\<lambda>i. expired_object s now i \<and> i \<notin> set refs) ids" by (auto simp: gone_def split: if_splits)
            then show ?thesis using ids(3) refs that(3-5) by auto
          qed
        qed
      qed
    qed
  qed
qed

section \<open>All operations\<close>

inductive object_op :: "deps \<Rightarrow> store \<Rightarrow> store \<Rightarrow> bool" for D where
  op_put_object: "put_object_with_metadata D content md s = (r, s') \<Longrightarrow> object_op D s s'"
| op_link_object: "link_object D namespace name i (s, c) = (r, (s', c')) \<Longrightarrow> length i = 32 \<Longrightarrow> object_op D s s'"
| op_unlink_object: "unlink_object D namespace name s = (ru, s') \<Longrightarrow> object_op D s s'"
| op_gc: "gc_orphan_objects D limit s = (rg, s') \<Longrightarrow> object_op D s s'"
| op_retention: "purge_expired_objects D now limit s = (rp, s') \<Longrightarrow> object_op D s s'"
| op_domains: "domain_tx D sts s = (rd, s') \<Longrightarrow> list_all typed_step sts \<Longrightarrow> object_op D s s'"
| op_elsewhere: "store_wf s' \<Longrightarrow> (\<forall>k. obj_space k \<longrightarrow> store_get s' k = store_get s k) \<Longrightarrow> object_op D s s'"

lemma object_op_inv:
  assumes sha: "sha_ok D" and op: "object_op D s s'" and inv: "object_inv D s"
  shows "object_inv D s'"
  using op
proof cases
  case (op_put_object content md r)
  then show ?thesis using put_object_inv [OF inv] by blast
next
  case (op_link_object namespace name i c r c')
  then show ?thesis using link_object_inv [OF inv] by blast
next
  case (op_unlink_object namespace name r)
  then show ?thesis using unlink_object_inv [OF inv] by blast
next
  case (op_gc limit r)
  show ?thesis by (rule gc_spec [OF inv sha op_gc])
next
  case (op_retention now limit r)
  show ?thesis by (rule retention_spec [OF inv sha op_retention])
next
  case (op_domains sts r)
  show ?thesis
  proof (rule object_inv_run [OF inv _ op_domains(1) [unfolded domain_tx_def]])
    show "staging (act_for (domain_do D) sts)" by (intro staging_intros)
    fix t v assume "act_for (domain_do D) sts (fresh_tx True s) = (Inr v, t)"
    moreover have "tx_get_internal (fresh_tx True s) = store_get s" by (simp add: fun_eq_iff)
    ultimately show "obj_rep D (tx_get_internal t)" using domain_steps_rep [OF _ op_domains(2)] inv by (metis object_inv_def)
  qed
next
  case op_elsewhere
  have "obj_rep D (store_get s')" by (rule obj_rep_cong) (use inv op_elsewhere in \<open>auto simp: object_inv_def\<close>)
  then show ?thesis using op_elsewhere(1) by (simp add: object_inv_def)
qed

lemma object_ops_inv: "(object_op D)\<^sup>*\<^sup>* s s' \<Longrightarrow> sha_ok D \<Longrightarrow> object_inv D s \<Longrightarrow> object_inv D s'"
  by (induction rule: rtranclp_induct) (auto intro: object_op_inv)

text \<open>What the invariant says of reads.\<close>

lemma stored_content_sound:
  assumes "object_inv D s" and "stored_content s i = Inr (Some content)"
  shows "object_id D content = i"
proof -
  obtain v where v: "store_get s (obj_key i) = Some v" "decode_object v = Inr content" using assms(2) by (auto simp: stored_content_def transpose_map_Inr_Some)
  then obtain c where "decode_object v = Inr c" "obj_key i = obj_key (object_id D c)" using assms(1) obj_key_simps(1) unfolding object_inv_def obj_rep_def by metis
  then show ?thesis using v(2) by simp
qed

lemma stored_content_total:
  assumes "object_inv D s" and "store_get s (obj_key i) \<noteq> None"
  shows "\<exists>content. stored_content s i = Inr (Some content)"
proof -
  obtain v where v: "store_get s (obj_key i) = Some v" using assms(2) by blast
  then obtain c where "decode_object v = Inr c" using assms(1) obj_key_simps(1) unfolding object_inv_def obj_rep_def by metis
  then show ?thesis using v by (simp add: stored_content_def)
qed

lemma resolve_sound:
  assumes "object_inv D s" and "resolve_object_ref s namespace name = Inr (Some i)"
  shows "store_get s (obj_key i) \<noteq> None" and "referenced s i"
proof -
  obtain k where k: "obj_reference_key namespace name = Inr k" "store_get s k = Some i" "length i = 32"
    using assms(2) by (auto simp: resolve_object_ref_def res_bind_Inr_iff transpose_map_Inr_Some reference_target_def split: if_splits)
  have p: "prefix OBJ_REF_PREFIX k" by (rule reference_key_space [OF k(1)])
  show "referenced s i" using p k(2) by (auto simp: referenced_def)
  show "store_get s (obj_key i) \<noteq> None" using assms(1) p k(2) unfolding object_inv_def obj_rep_def by blast
qed

end
