(* ===== verification/Object_Properties.thy ===== *)
theory Object_Properties
  imports Objects Service_Progress
begin

text \<open>
  Properties of object storage: content addressing, references, metadata, collection and retention.
\<close>

section \<open>Putting and reading\<close>

lemma put_object_Inr:
  assumes p: "put_object_with_metadata D content metadata s = (Inr i, s')" and fresh: "store_get s (obj_key (object_id D content)) = None"
    and no_md: "store_get s (metadata_key (object_id D content)) = None"
  shows "i = object_id D content" and "stored_content s' i = Inr (Some content)" and "stored_metadata s' i = Inr (sort_key fst metadata)"
proof -
  let ?i = "object_id D content"
  from p obtain md where md: "normalize_metadata metadata = Inr md" by (cases "normalize_metadata metadata") (auto simp: put_object_with_metadata_def)
  from p md fresh obtain bs s1 s2 where bs: "obj_encode_object content = Inr bs" "store_put_internal D (obj_key ?i) bs s = (Inr (), s1)"
    and m: "(if md = [] then act_return () else act_bind (act_lift (encode_metadata md)) (\<lambda>mb. act_map_err OjStore (store_put_internal D (metadata_key ?i) mb))) s1 = (Inr (), s2)"
    and s': "s' = record_object_put (length content) s2" and i: "i = ?i"
    by (auto simp: put_object_with_metadata_def Let_def act_bind_Inr_iff act_map_err_iff act_lift_def act_return_def simp del: act_bind_lift)
  show "i = ?i" by (rule i)
  have g1: "store_get s1 k = (if k = obj_key ?i then Some bs else store_get s k)" if "obj_space k" for k
    using store_put_internal_get [OF bs(2)] that by (simp add: obj_space_not_cdc)
  have ne: "obj_key ?i \<noteq> metadata_key ?i" using obj_spaces(1) [OF obj_key_simps(1)] obj_key_simps(2) by metis
  have d: "decode_object bs = Inr content" by (rule decode_object_encode [OF bs(1)])
  have n: "md = sort_key fst metadata" by (rule normalize_metadata_Inr(1) [OF md])
  have "stored_content s' ?i = Inr (Some content) \<and> stored_metadata s' ?i = Inr md"
  proof (cases "md = []")
    case True
    then have "s2 = s1" using m by (simp add: act_return_def)
    then show ?thesis using g1 [of "obj_key ?i"] g1 [of "metadata_key ?i"] d True no_md ne by (simp add: s' stored_content_def stored_metadata_def)
  next
    case False
    then obtain mb where mb: "encode_metadata md = Inr mb" "store_put_internal D (metadata_key ?i) mb s1 = (Inr (), s2)"
      using m by (cases "encode_metadata md") (auto simp: act_map_err_iff)
    have "store_get s2 k = (if k = metadata_key ?i then Some mb else store_get s1 k)" if "obj_space k" for k
      using store_put_internal_get [OF mb(2)] that by (simp add: obj_space_not_cdc)
    then show ?thesis using g1 [of "obj_key ?i"] d decode_metadata_encode [OF md mb(1)] ne
      by (simp add: s' stored_content_def stored_metadata_def)
  qed
  then show "stored_content s' i = Inr (Some content)" "stored_metadata s' i = Inr (sort_key fst metadata)" using i n by simp_all
qed

definition chunk_of :: "store \<Rightarrow> bytes \<Rightarrow> usize \<Rightarrow> usize \<Rightarrow> object_error + bytes option" where
  "chunk_of s i offset limit = fst (get_object_chunk s i offset limit \<lparr>rc_reads = 0, rc_bytes = 0\<rparr>)"

lemma chunk_of_content:
  assumes "stored_content s i = Inr (Some content)" and "length content < 2 ^ 64"
  shows "chunk_of s i offset limit = Inr (Some (take limit (drop offset content)))"
proof -
  have a: "slice (min offset n) (min (min (min offset n + limit) (2 ^ 64 - 1)) n) content = take limit (drop offset content)" if "n = length content" for n
    using assms(2) that by (auto simp: slice_def min_def)
  show ?thesis using assms(1) a [OF refl] by (simp add: chunk_of_def get_object_chunk_def Let_def)
qed

lemma chunks_join: "concat (map (\<lambda>j. take n (drop (j * n) xs)) [0..<m]) = take (m * n) xs"
  by (induction m) (simp_all add: take_add [symmetric] add.commute)

lemma dropped_reads:
  assumes "\<And>k. obj_space k \<Longrightarrow> store_get s' k = (if k \<in> obj_key ` set gone \<union> metadata_key ` set gone then None else store_get s k)"
  shows "resolve_object_ref s' namespace name = resolve_object_ref s namespace name"
    and "i \<notin> set gone \<Longrightarrow> stored_content s' i = stored_content s i" and "i \<notin> set gone \<Longrightarrow> stored_metadata s' i = stored_metadata s i"
    and "i \<in> set gone \<Longrightarrow> stored_content s' i = Inr None"
proof -
  have ne: "obj_key i \<noteq> metadata_key j" for i j using obj_spaces(1) [OF obj_key_simps(1)] obj_key_simps(2) by metis
  have rk: "store_get s' k = store_get s k" if "obj_reference_key namespace name = Inr k" for k
  proof -
    have "prefix OBJ_REF_PREFIX k" by (rule reference_key_space [OF that])
    then have "k \<notin> obj_key ` set gone \<union> metadata_key ` set gone" "obj_space k"
      using obj_spaces(1) [OF obj_key_simps(1)] obj_spaces(2) [OF obj_key_simps(2)] by (auto simp: obj_space_def)
    then show ?thesis using assms by simp
  qed
  then show "resolve_object_ref s' namespace name = resolve_object_ref s namespace name"
    by (cases "obj_reference_key namespace name") (simp_all add: resolve_object_ref_def)
  show "i \<notin> set gone \<Longrightarrow> stored_content s' i = stored_content s i" "i \<in> set gone \<Longrightarrow> stored_content s' i = Inr None"
    using assms [of "obj_key i"] ne [of i] by (auto simp: stored_content_def)
  show "i \<notin> set gone \<Longrightarrow> stored_metadata s' i = stored_metadata s i"
    using assms [of "metadata_key i"] ne [of _ i] by (auto simp: stored_metadata_def image_iff dest: sym)
qed

text \<open>C30: an object that is put is stored under the digest of its content, together with its metadata
  sorted by key, and reading it in chunks of any size and joining the chunks gives back the
  content. An object that is already there is left untouched.\<close>

theorem object_roundtrip:
  assumes "object_inv D s" and "put_object_with_metadata D content metadata s = (Inr i, s')" and "length content < 2 ^ 64" and "0 < n"
  shows "i = object_id D content \<and>
    (if stored_content s i = Inr None
     then stored_content s' i = Inr (Some content) \<and> stored_metadata s' i = Inr (sort_key fst metadata) \<and>
       concat (map (\<lambda>j. case chunk_of s' i (j * n) n of Inr (Some c) \<Rightarrow> c | _ \<Rightarrow> []) [0..<(length content + n - 1) div n]) = content
     else s' = s)"
proof -
  let ?i = "object_id D content"
  have R: "obj_rep D (store_get s)" using assms(1) by (simp add: object_inv_def)
  show ?thesis
  proof (cases "store_get s (obj_key ?i)")
    case None
    have "store_get s (metadata_key ?i) = None"
    proof (rule ccontr)
      assume "store_get s (metadata_key ?i) \<noteq> None"
      then obtain j where "metadata_key ?i = metadata_key j" "store_get s (obj_key j) \<noteq> None"
        using R obj_key_simps(2) unfolding obj_rep_def by (metis not_None_eq)
      then show False using None by simp
    qed
    note P = put_object_Inr [OF assms(2) None this]
    have c: "chunk_of s' i (j * n) n = Inr (Some (take n (drop (j * n) content)))" for j by (rule chunk_of_content [OF P(2) assms(3)])
    have "length content \<le> (length content + n - 1) div n * n"
      using assms(4) div_mult_mod_eq [of "length content + n - 1" n] mod_less_divisor [OF assms(4), of "length content + n - 1"] by linarith
    then have "take ((length content + n - 1) div n * n) content = content" by simp
    then have "concat (map (\<lambda>j. case chunk_of s' i (j * n) n of Inr (Some c) \<Rightarrow> c | _ \<Rightarrow> []) [0..<(length content + n - 1) div n]) = content"
      unfolding c sum.case option.case chunks_join .
    moreover have "stored_content s ?i = Inr None" using None by (simp add: stored_content_def)
    ultimately show ?thesis using P by simp
  next
    case (Some v)
    have "stored_content s ?i \<noteq> Inr None" using stored_content_total [OF assms(1), of ?i] Some by auto
    moreover have "i = ?i \<and> s' = s" using assms(2) Some
      by (cases "normalize_metadata metadata") (auto simp: put_object_with_metadata_def Let_def act_bind_def act_return_def)
    ultimately show ?thesis by simp
  qed
qed

definition demo_object :: bytes where
  "demo_object = replicate 32 7"

lemma demo_object_inv: "object_inv demo_deps demo_store"
  by (simp add: object_inv_def obj_rep_def) (simp add: demo_store_def store_get_def)

lemma demo_put_object:
  obtains s where "put_object_with_metadata demo_deps [7, 8, 9] [([2], [3])] demo_store = (Inr demo_object, s)"
proof -
  have "fst (put_object_with_metadata demo_deps [7, 8, 9] [([2], [3])] demo_store) = Inr demo_object" by code_simp
  then show ?thesis using that by (metis prod.collapse)
qed

theorem object_roundtrip_witness:
  "\<exists>s. put_object_with_metadata demo_deps [7, 8, 9] [([2], [3])] demo_store = (Inr demo_object, s) \<and>
     stored_content s demo_object = Inr (Some [7, 8, 9]) \<and> stored_metadata s demo_object = Inr [([2], [3])]"
proof -
  obtain s where s: "put_object_with_metadata demo_deps [7, 8, 9] [([2], [3])] demo_store = (Inr demo_object, s)" by (rule demo_put_object)
  have "stored_content demo_store demo_object = Inr None" by code_simp
  then show ?thesis using object_roundtrip [OF demo_object_inv s, of 2] s by simp
qed

section \<open>References and collection\<close>

text \<open>A store that holds one object.\<close>

definition object_store :: store where
  "object_store = single (obj_key demo_object) ([OBJ_VERSION] @ to_le (1 :: u64) @ [7])"

lemma object_store_decode: "decode_object ([OBJ_VERSION] @ to_le (1 :: u64) @ [7]) = Inr [7]"
  by (rule decode_object_encode) (simp add: obj_encode_object_def)

lemma object_store_content: "stored_content object_store demo_object = Inr (Some [7])"
  using object_store_decode by (simp add: stored_content_def object_store_def)

lemma object_store_inv: "object_inv demo_deps object_store"
proof -
  have i: "object_id demo_deps [7] = demo_object" by (simp add: object_id_def demo_deps_def demo_sha256_def demo_object_def)
  have "obj_rep demo_deps (store_get object_store)"
    unfolding obj_rep_def object_store_def single_simps
    using object_store_decode i obj_spaces(1) [OF obj_key_simps(1), of demo_object] by (auto split: if_splits)
  then show ?thesis by (simp add: object_inv_def object_store_def)
qed

lemma object_store_scan: "scan_prefix object_store OBJ_DATA_PREFIX = [(obj_key demo_object, [OBJ_VERSION] @ to_le (1 :: u64) @ [7])]"
  "referenced_objects object_store = Inr []" "stored_metadata object_store i = Inr []"
proof -
  show "scan_prefix object_store OBJ_DATA_PREFIX = [(obj_key demo_object, [OBJ_VERSION] @ to_le (1 :: u64) @ [7])]"
    by (simp add: object_store_def)
  show "referenced_objects object_store = Inr []"
    using obj_spaces(1) [OF obj_key_simps(1), of demo_object] by (simp add: referenced_objects_def object_store_def)
  have "metadata_key i \<noteq> obj_key demo_object" using obj_spaces(1) [OF obj_key_simps(1)] obj_key_simps(2) by metis
  then show "stored_metadata object_store i = Inr []" by (simp add: stored_metadata_def object_store_def)
qed

text \<open>C28: under every sequence of object operations, on the store, inside application transactions with
  other work, or elsewhere in the store, two things hold of every reachable state: an object that
  can be read has the digest it is stored under, and a reference that resolves points at an
  object that can be read.\<close>

theorem references_never_dangle:
  assumes "sha_ok D" and "object_inv D s" and "(object_op D)\<^sup>*\<^sup>* s s'"
  shows "object_inv D s' \<and>
    (\<forall>i content. stored_content s' i = Inr (Some content) \<longrightarrow> object_id D content = i) \<and>
    (\<forall>namespace name i. resolve_object_ref s' namespace name = Inr (Some i) \<longrightarrow> (\<exists>content. stored_content s' i = Inr (Some content)))"
proof -
  have inv: "object_inv D s'" by (rule object_ops_inv [OF assms(3,1,2)])
  show ?thesis using inv stored_content_sound [OF inv] stored_content_total [OF inv] resolve_sound(1) [OF inv] by blast
qed

lemma demo_linked:
  obtains s' c' where "link_object demo_deps [1] [2] demo_object (object_store, \<lparr>rc_reads = 0, rc_bytes = 0\<rparr>) = (Inr (), (s', c'))"
    and "object_op demo_deps object_store s'" and "resolve_object_ref s' [1] [2] = Inr (Some demo_object)"
proof -
  let ?k = "OBJ_REF_PREFIX @ to_be (1 :: u32) @ [1] @ to_be (1 :: u32) @ [2]"
  have k: "obj_reference_key [1] [2] = Inr ?k" by (simp add: obj_reference_key_def u32_try_from_len_def)
  have h: "healthy (100 + 4) object_store" by (rule healthy_mono [of 500]) (simp_all add: object_store_def)
  obtain s' where s': "store_put_internal demo_deps ?k demo_object object_store = (Inr (), s')"
    using store_put_internal_ok [OF demo_sha_ok h, of ?k demo_object] by (auto simp: OBJ_REF_PREFIX_def ascii_def demo_object_def)
  let ?c = "record_object_read 1 \<lparr>rc_reads = 0, rc_bytes = 0\<rparr>"
  have l: "link_object demo_deps [1] [2] demo_object (object_store, \<lparr>rc_reads = 0, rc_bytes = 0\<rparr>) = (Inr (), (s', ?c))"
    using s' k object_store_content by (simp add: link_object_def get_object_def act_map_err_def)
  have o: "object_op demo_deps object_store s'" by (rule op_link_object [OF l]) (simp add: demo_object_def)
  have "store_get s' ?k = Some demo_object" using store_put_internal_get [OF s'] obj_spaces(3) [OF reference_key_space [OF k]] by simp
  then have "resolve_object_ref s' [1] [2] = Inr (Some demo_object)" using k by (simp add: resolve_object_ref_def reference_target_def demo_object_def)
  then show ?thesis by (rule that [OF l o])
qed

theorem references_never_dangle_witness:
  "\<exists>s content. resolve_object_ref s [1] [2] = Inr (Some demo_object) \<and> stored_content s demo_object = Inr (Some content)"
proof -
  obtain s c where s: "object_op demo_deps object_store s" "resolve_object_ref s [1] [2] = Inr (Some demo_object)" by (rule demo_linked)
  have "(object_op demo_deps)\<^sup>*\<^sup>* object_store s" using s(1) by blast
  then show ?thesis using references_never_dangle [OF demo_sha_ok object_store_inv] s(2) by blast
qed

text \<open>C29: collection is safe and complete. It changes no reference, keeps every object that a
  reference points at with its metadata, removes at most \<open>limit\<close> objects, and when it succeeds
  below the limit no unreferenced object is left.\<close>

theorem collection_exact:
  assumes "sha_ok D" and "object_inv D s" and "gc_orphan_objects D limit s = (r, s')"
  shows "(\<forall>namespace name. resolve_object_ref s' namespace name = resolve_object_ref s namespace name) \<and>
    (\<forall>namespace name i. resolve_object_ref s namespace name = Inr (Some i) \<longrightarrow>
      stored_content s' i = stored_content s i \<and> stored_metadata s' i = stored_metadata s i) \<and>
    (\<forall>rep. r = Inr rep \<longrightarrow> gc_removed rep \<le> limit \<and>
      (gc_removed rep < limit \<longrightarrow> (\<forall>i. \<not> referenced s i \<longrightarrow> stored_content s' i = Inr None)))"
proof -
  obtain gone where g: "\<forall>i \<in> set gone. \<not> referenced s i" "length gone \<le> limit"
    "\<And>k. obj_space k \<Longrightarrow> store_get s' k = (if k \<in> obj_key ` set gone \<union> metadata_key ` set gone then None else store_get s k)"
    "\<And>rep. r = Inr rep \<Longrightarrow> gc_removed rep = length gone"
    "\<And>rep i. r = Inr rep \<Longrightarrow> gc_removed rep < limit \<Longrightarrow> store_get s (obj_key i) \<noteq> None \<Longrightarrow> \<not> referenced s i \<Longrightarrow> i \<in> set gone"
    using assms(2,1,3) by (rule gc_spec) blast
  note D = dropped_reads [OF g(3)]
  show ?thesis
  proof (intro conjI allI impI)
    fix namespace name i assume r: "resolve_object_ref s namespace name = Inr (Some i)"
    then have "i \<notin> set gone" using resolve_sound(2) [OF assms(2) r] g(1) by blast
    then show "stored_content s' i = stored_content s i" "stored_metadata s' i = stored_metadata s i" using D(2,3) by auto
  next
    fix rep i assume a: "r = Inr rep" "gc_removed rep < limit" "\<not> referenced s i"
    show "stored_content s' i = Inr None"
    proof (cases "store_get s (obj_key i)")
      case None
      then show ?thesis using D(2) [of i] D(4) [of i] by (auto simp: stored_content_def)
    next
      case (Some v)
      then show ?thesis using g(5) [OF a(1,2) _ a(3)] D(4) by simp
    qed
  qed (use D(1) g(2,4) in auto)
qed

theorem collection_exact_witness:
  "\<exists>s'. gc_orphan_objects demo_deps 5 object_store = (Inr \<lparr>gc_scanned = 1, gc_referenced = 0, gc_removed = 1\<rparr>, s') \<and>
     stored_content object_store demo_object = Inr (Some [7]) \<and> stored_content s' demo_object = Inr None"
proof -
  have d: "decode_object_key (obj_key demo_object) = Inr demo_object" by (rule decode_object_key_obj_key) (simp add: demo_object_def)
  have "can (1 + 1) (gc_delete demo_deps (obj_key demo_object)) (fresh_tx True object_store) ()"
    unfolding gc_delete_def d act_bind_lift sum.case
    by (rule can_bind [OF can_map_err [OF can_delete] can_map_err [OF can_delete]])
      (simp_all add: obj_key_def metadata_key_def OBJ_DATA_PREFIX_def OBJ_METADATA_PREFIX_def ascii_def demo_object_def)
  then have c: "can 2 (act_for (gc_delete demo_deps) [obj_key demo_object]) (fresh_tx True object_store) ()"
    using can_bind [where m = 0, OF _ can_pure(1)] by (fastforce simp: numeral_2_eq_2)
  have h: "healthy (2 * 2 + 2 + 100) object_store" by (rule healthy_mono [of 500]) (simp_all add: object_store_def)
  have "\<exists>s1. run_tx demo_deps True OjStore (act_for (gc_delete demo_deps) [obj_key demo_object]) object_store = (Inr (), s1) \<and> healthy 100 s1"
    by (rule run_can [OF demo_sha_ok c h]) simp
  then obtain s1 where s1: "run_tx demo_deps True OjStore (act_for (gc_delete demo_deps) [obj_key demo_object]) object_store = (Inr (), s1)" by blast
  then have g: "gc_orphan_objects demo_deps 5 object_store = (Inr \<lparr>gc_scanned = 1, gc_referenced = 0, gc_removed = 1\<rparr>, record_object_gc 1 s1)"
    using object_store_scan(1,2) d by (simp add: gc_orphan_objects_def act_bind_def act_lift_def)
  have "\<not> referenced object_store demo_object" using referenced_objects_Inr [OF object_store_inv object_store_scan(2)] by simp
  then have "stored_content (record_object_gc 1 s1) demo_object = Inr None" using collection_exact [OF demo_sha_ok object_store_inv g] by simp
  then show ?thesis using g object_store_content by blast
qed

text \<open>Retention removes an object only when its metadata carries an expiry in the past and no
  reference points at it; references and all other objects are unchanged. When it succeeds below
  the limit, or without one, no expired unreferenced object is left.\<close>

theorem retention_exact:
  assumes "sha_ok D" and "object_inv D s" and "purge_expired_objects D now limit s = (r, s')"
  shows "(\<forall>namespace name. resolve_object_ref s' namespace name = resolve_object_ref s namespace name) \<and>
    (\<forall>i. referenced s i \<or> \<not> expired_object s now i \<longrightarrow> stored_content s' i = stored_content s i \<and> stored_metadata s' i = stored_metadata s i) \<and>
    (\<forall>rep. r = Inr rep \<longrightarrow> (limit \<noteq> 0 \<longrightarrow> rt_removed rep \<le> limit) \<and>
      (limit = 0 \<or> rt_removed rep < limit \<longrightarrow> (\<forall>i. expired_object s now i \<longrightarrow> \<not> referenced s i \<longrightarrow> stored_content s' i = Inr None)))"
proof -
  obtain gone where g: "\<forall>i \<in> set gone. \<not> referenced s i \<and> expired_object s now i"
    "\<And>k. obj_space k \<Longrightarrow> store_get s' k = (if k \<in> obj_key ` set gone \<union> metadata_key ` set gone then None else store_get s k)"
    "\<And>rep. r = Inr rep \<Longrightarrow> rt_removed rep = length gone \<and> (limit = 0 \<or> length gone \<le> limit)"
    "\<And>rep i. r = Inr rep \<Longrightarrow> limit = 0 \<or> rt_removed rep < limit \<Longrightarrow> store_get s (obj_key i) \<noteq> None \<Longrightarrow>
      \<not> referenced s i \<Longrightarrow> expired_object s now i \<Longrightarrow> i \<in> set gone"
    using assms(2,1,3) by (rule retention_spec) blast
  note D = dropped_reads [OF g(2)]
  show ?thesis
  proof (intro conjI allI impI)
    fix i assume "referenced s i \<or> \<not> expired_object s now i"
    then have "i \<notin> set gone" using g(1) by blast
    then show "stored_content s' i = stored_content s i" "stored_metadata s' i = stored_metadata s i" using D(2,3) by auto
  next
    fix rep i assume a: "r = Inr rep" "limit = 0 \<or> rt_removed rep < limit" "expired_object s now i" "\<not> referenced s i"
    show "stored_content s' i = Inr None"
    proof (cases "store_get s (obj_key i)")
      case None
      then show ?thesis using D(2) [of i] D(4) [of i] by (auto simp: stored_content_def)
    next
      case (Some v)
      then show ?thesis using g(4) [OF a(1,2) _ a(4,3)] D(4) by simp
    qed
  qed (use D(1) g(3) in auto)
qed

theorem retention_exact_witness:
  "\<exists>s'. purge_expired_objects demo_deps 9 0 object_store = (Inr \<lparr>rt_scanned = 1, rt_expired = 0, rt_referenced = 0, rt_removed = 0\<rparr>, s') \<and>
     stored_content s' demo_object = Inr (Some [7])"
proof -
  have d: "decode_object_key (obj_key demo_object) = Inr demo_object" by (rule decode_object_key_obj_key) (simp add: demo_object_def)
  have p: "purge_expired_objects demo_deps 9 0 object_store = (Inr \<lparr>rt_scanned = 1, rt_expired = 0, rt_referenced = 0, rt_removed = 0\<rparr>, record_object_gc 0 object_store)"
    using object_store_scan d by (simp add: purge_expired_objects_def act_bind_def act_return_def object_expiry_def)
  have "\<not> expired_object object_store 9 demo_object" using object_store_scan(3) by (simp add: expired_object_def object_expiry_def)
  then show ?thesis using retention_exact [OF demo_sha_ok object_store_inv p] p object_store_content by auto
qed

text \<open>Putting an object with metadata is not atomic; an instance. When the second of its two commits fails,
  the object stays without its metadata, and repeating the call reports success without ever
  storing the metadata.\<close>

theorem failed_put_loses_metadata:
  "\<exists>s1. put_object_with_metadata demo_deps [7] [([2], [3])] (demo_store\<lparr>st_os := demo_os\<lparr>os_syncs := [SyncOk, SyncErr OtherIo]\<rparr>\<rparr>) =
       (Inl (OjStore (EIo OtherIo)), s1) \<and>
     put_object_with_metadata demo_deps [7] [([2], [3])] s1 = (Inr demo_object, s1) \<and>
     stored_content s1 demo_object = Inr (Some [7]) \<and> stored_metadata s1 demo_object = Inr []"
proof -
  let ?s0 = "demo_store\<lparr>st_os := demo_os\<lparr>os_syncs := [SyncOk, SyncErr OtherIo]\<rparr>\<rparr>"
  let ?p = "put_object_with_metadata demo_deps [7] [([2], [3])] ?s0" let ?bs = "[OBJ_VERSION] @ to_le (1 :: u64) @ [7]"
  have run: "fst ?p = Inl (OjStore (EIo OtherIo))" by code_simp
  have run1: "fst (store_put_internal demo_deps (obj_key demo_object) ?bs ?s0) = Inr ()" by code_simp
  have E: "object_id demo_deps [7] = demo_object" "normalize_metadata [([2], [3])] = Inr [([2], [3])]" by code_simp+
  have m: "\<exists>mb. encode_metadata [([2], [3])] = Inr mb" by (simp add: encode_metadata_def u32_try_from_len_def)
  obtain s1 where s1: "?p = (Inl (OjStore (EIo OtherIo)), s1)" using run by (metis prod.collapse)
  obtain sa where sa: "store_put_internal demo_deps (obj_key demo_object) ?bs ?s0 = (Inr (), sa)" using run1 by (metis prod.collapse)
  obtain mb where mb: "encode_metadata [([2], [3])] = Inr mb" using m by blast
  have g0: "store_get ?s0 k = None" for k by (simp add: demo_store_def store_get_def)
  have enc: "obj_encode_object [7] = Inr ?bs" by (simp add: obj_encode_object_def)
  have "\<exists>e. store_put_internal demo_deps (metadata_key demo_object) mb sa = (Inl e, s1)"
    using s1 sa mb g0 enc unfolding put_object_with_metadata_def E
    by (auto simp: Let_def act_bind_def act_map_err_def map_err_Inl_iff split: prod.splits sum.splits)
  then have g1: "store_get s1 k = store_get sa k" for k using store_kv.put_fail by blast
  have ga: "store_get sa k = (if k = obj_key demo_object then Some ?bs else None)" if "obj_space k" for k
    using store_put_internal_get [OF sa] that g0 by (simp add: obj_space_not_cdc)
  have c: "stored_content s1 demo_object = Inr (Some [7])" using ga [of "obj_key demo_object"] g1 object_store_decode by (simp add: stored_content_def)
  have "metadata_key demo_object \<noteq> obj_key demo_object" using obj_spaces(1) [OF obj_key_simps(1)] obj_key_simps(2) by metis
  then have md: "stored_metadata s1 demo_object = Inr []" using ga [of "metadata_key demo_object"] g1 by (simp add: stored_metadata_def)
  have "store_get s1 (obj_key demo_object) \<noteq> None" using ga [of "obj_key demo_object"] g1 by simp
  then have "put_object_with_metadata demo_deps [7] [([2], [3])] s1 = (Inr demo_object, s1)"
    unfolding put_object_with_metadata_def E by (simp add: Let_def act_bind_def act_return_def)
  then show ?thesis using s1 c md by blast
qed

end
