(* ===== verification/Triggers.thy ===== *)
theory Triggers
  imports Cron_Scheduler Objects
begin

text \<open>
  Durable triggers (\<open>crates/voodoo-store-core/src/triggers.rs\<close>): a trigger routes the events of a
  source into jobs; a firing files the job and advances the trigger's counters in one commit.
\<close>

section \<open>Model\<close>

definition TRIGGER_PREFIX :: bytes where
  "TRIGGER_PREFIX = 0xff # ascii ''vds:trigger:data:''"

definition TRIGGER_VERSION :: u8 where
  "TRIGGER_VERSION = 1"

datatype trigger_source =
    SourceManual
  | SourceCollection bytes bytes
  | SourceStream bytes
  | SourceTopic bytes

record durable_trigger =
  tg_id :: bytes
  tg_name :: bytes
  tg_source :: trigger_source
  tg_job :: job_spec
  tg_enabled :: bool
  tg_fire_count :: u64
  tg_last_fired_at_ms :: "i64 option"

datatype trigger_error =
    TgStore engine_error
  | TgJob job_error
  | TgTransactional transactional_error
  | TgNotFound
  | TgEmptyName
  | TgCorruptRecord
  | TgFireCountOverflow
  | TgEntropyUnavailable

definition tg_validate_job :: "job_spec \<Rightarrow> trigger_error + unit" where
  "tg_validate_job spec = (if js_handler spec = [] \<or> js_max_attempts spec = 0 then Inl TgCorruptRecord else Inr ())"

definition validate_source :: "trigger_source \<Rightarrow> trigger_error + unit" where
  "validate_source source =
     (case source of
        SourceManual \<Rightarrow> Inr ()
      | SourceCollection collection operation \<Rightarrow> if collection \<noteq> [] \<and> operation \<noteq> [] then Inr () else Inl TgCorruptRecord
      | SourceStream str \<Rightarrow> if str \<noteq> [] then Inr () else Inl TgCorruptRecord
      | SourceTopic topic \<Rightarrow> if topic \<noteq> [] then Inr () else Inl TgCorruptRecord)"

definition tg_random_id :: "(store, trigger_error, bytes) act" where
  "tg_random_id s =
     (case os_entropy (st_os s) of
        [] \<Rightarrow> (Inl TgEntropyUnavailable, s)
      | x # xs \<Rightarrow> (ok_or TgEntropyUnavailable x, s\<lparr>st_os := (st_os s)\<lparr>os_entropy := xs\<rparr>\<rparr>))"

definition trigger_key :: "bytes \<Rightarrow> bytes" where
  "trigger_key i = TRIGGER_PREFIX @ i"

definition tg_write_bytes :: "bytes \<Rightarrow> trigger_error + bytes" where
  "tg_write_bytes value = res_bind (ok_or TgCorruptRecord (u32_try_from_len (length value))) (\<lambda>len. Inr (to_le len @ value))"

definition tg_encode_optional :: "i64 option \<Rightarrow> bytes" where
  "tg_encode_optional v = (case v of Some x \<Rightarrow> [1] @ to_le x | None \<Rightarrow> [0])"

definition encode_source :: "trigger_source \<Rightarrow> trigger_error + bytes" where
  "encode_source source =
     (case source of
        SourceManual \<Rightarrow> Inr [0]
      | SourceCollection collection operation \<Rightarrow>
          res_bind (tg_write_bytes collection) (\<lambda>cb. res_bind (tg_write_bytes operation) (\<lambda>ob. Inr ([1] @ cb @ ob)))
      | SourceStream str \<Rightarrow> res_bind (tg_write_bytes str) (\<lambda>sb. Inr ([2] @ sb))
      | SourceTopic topic \<Rightarrow> res_bind (tg_write_bytes topic) (\<lambda>tb. Inr ([3] @ tb)))"

definition tg_encode_job_spec :: "job_spec \<Rightarrow> trigger_error + bytes" where
  "tg_encode_job_spec spec =
     res_bind (tg_write_bytes (js_handler spec)) (\<lambda>handler.
     res_bind (tg_write_bytes (js_payload spec)) (\<lambda>payload.
     res_bind (case js_idempotency_key spec of
                 Some v \<Rightarrow> res_bind (tg_write_bytes v) (\<lambda>key. Inr ([1] @ key))
               | None \<Rightarrow> Inr [0]) (\<lambda>key.
       Inr (handler @ payload @ to_le (js_available_at_ms spec) @ tg_encode_optional (js_deadline_ms spec) @
            to_le (js_priority spec) @ to_le (js_max_attempts spec) @ to_le (js_retry_backoff_ms spec) @ key))))"

definition encode_trigger :: "durable_trigger \<Rightarrow> trigger_error + bytes" where
  "encode_trigger tr =
     res_bind (tg_write_bytes (tg_name tr)) (\<lambda>name.
     res_bind (encode_source (tg_source tr)) (\<lambda>source.
     res_bind (tg_encode_job_spec (tg_job tr)) (\<lambda>job.
       Inr ([TRIGGER_VERSION] @ tg_id tr @ name @ source @ job @ [if tg_enabled tr then 1 else 0] @
            to_le (tg_fire_count tr) @ tg_encode_optional (tg_last_fired_at_ms tr)))))"

text \<open>The module's \<open>Cursor\<close>.\<close>

definition tg_take :: "nat \<Rightarrow> (trigger_error, bytes) reader" where
  "tg_take = rd_take TgCorruptRecord"

definition tg_u8 :: "(trigger_error, u8) reader" where
  "tg_u8 = rd_u8 TgCorruptRecord"

definition tg_u32 :: "(trigger_error, u32) reader" where
  "tg_u32 = rd_u32 TgCorruptRecord"

definition tg_i32 :: "(trigger_error, i32) reader" where
  "tg_i32 = rd_u32 TgCorruptRecord"

definition tg_u64 :: "(trigger_error, u64) reader" where
  "tg_u64 = rd_u64 TgCorruptRecord"

definition tg_i64 :: "(trigger_error, i64) reader" where
  "tg_i64 = rd_u64 TgCorruptRecord"

definition tg_array_16 :: "(trigger_error, bytes) reader" where
  "tg_array_16 = tg_take 16"

definition tg_bytes :: "(trigger_error, bytes) reader" where
  "tg_bytes = rd_bytes TgCorruptRecord"

lemmas tg_cursor = tg_take_def tg_u8_def tg_u32_def tg_i32_def tg_u64_def tg_i64_def tg_array_16_def tg_bytes_def

definition tg_optional :: "(trigger_error, 'a) reader \<Rightarrow> (trigger_error, 'a option) reader" where
  "tg_optional rd = rd_bind tg_u8 (\<lambda>b.
     if b = 0 then rd_return None
     else if b = 1 then rd_bind rd (\<lambda>v. rd_return (Some v))
     else rd_fail TgCorruptRecord)"

definition decode_source :: "(trigger_error, trigger_source) reader" where
  "decode_source = rd_bind tg_u8 (\<lambda>b.
     if b = 0 then rd_return SourceManual
     else if b = 1 then rd_bind tg_bytes (\<lambda>collection. rd_bind tg_bytes (\<lambda>operation. rd_return (SourceCollection collection operation)))
     else if b = 2 then rd_bind tg_bytes (\<lambda>str. rd_return (SourceStream str))
     else if b = 3 then rd_bind tg_bytes (\<lambda>topic. rd_return (SourceTopic topic))
     else rd_fail TgCorruptRecord)"

definition tg_decode_job_spec :: "(trigger_error, job_spec) reader" where
  "tg_decode_job_spec =
     rd_bind tg_bytes (\<lambda>handler. rd_bind tg_bytes (\<lambda>payload. rd_bind tg_i64 (\<lambda>available.
     rd_bind (tg_optional tg_i64) (\<lambda>deadline. rd_bind tg_i32 (\<lambda>priority. rd_bind tg_u32 (\<lambda>attempts.
     rd_bind tg_u64 (\<lambda>backoff. rd_bind (tg_optional tg_bytes) (\<lambda>key.
       rd_return \<lparr>js_handler = handler, js_payload = payload, js_available_at_ms = available, js_deadline_ms = deadline,
         js_priority = priority, js_max_attempts = attempts, js_retry_backoff_ms = backoff, js_idempotency_key = key\<rparr>))))))))"

definition decode_trigger :: "bytes \<Rightarrow> trigger_error + durable_trigger" where
  "decode_trigger bs =
     res_bind
       (rd_bind tg_u8 (\<lambda>version.
        if version \<noteq> TRIGGER_VERSION then rd_fail TgCorruptRecord
        else rd_bind tg_array_16 (\<lambda>i. rd_bind tg_bytes (\<lambda>name. rd_bind decode_source (\<lambda>source.
             rd_bind tg_decode_job_spec (\<lambda>job.
             rd_bind (rd_bind tg_u8 (\<lambda>b. if b = 0 then rd_return False else if b = 1 then rd_return True else rd_fail TgCorruptRecord)) (\<lambda>enabled.
             rd_bind tg_u64 (\<lambda>fire_count. rd_bind (tg_optional tg_i64) (\<lambda>last_fired.
               rd_return \<lparr>tg_id = i, tg_name = name, tg_source = source, tg_job = job, tg_enabled = enabled,
                 tg_fire_count = fire_count, tg_last_fired_at_ms = last_fired\<rparr>)))))))) bs)
       (\<lambda>(tr, rest). if rest \<noteq> [] \<or> tg_name tr = [] then Inl TgCorruptRecord
         else res_bind (validate_source (tg_source tr)) (\<lambda>_. res_bind (tg_validate_job (tg_job tr)) (\<lambda>_. Inr tr)))"

definition create_trigger :: "deps \<Rightarrow> bytes \<Rightarrow> trigger_source \<Rightarrow> job_spec \<Rightarrow> (store, trigger_error, bytes) act" where
  "create_trigger D name source job =
     (if name = [] then act_lift (Inl TgEmptyName)
      else act_bind (act_lift (validate_source source)) (\<lambda>_.
           act_bind (act_lift (tg_validate_job job)) (\<lambda>_.
           act_bind tg_random_id (\<lambda>i.
           act_bind (act_lift (encode_trigger \<lparr>tg_id = i, tg_name = name, tg_source = source, tg_job = job, tg_enabled = True,
               tg_fire_count = 0, tg_last_fired_at_ms = None\<rparr>)) (\<lambda>bs.
           act_bind (act_map_err TgStore (store_put_internal D (trigger_key i) bs)) (\<lambda>_. act_return i))))))"

definition get_trigger :: "store \<Rightarrow> bytes \<Rightarrow> trigger_error + durable_trigger option" where
  "get_trigger s i = transpose_map decode_trigger (store_get s (trigger_key i))"

definition list_triggers :: "store \<Rightarrow> trigger_error + durable_trigger list" where
  "list_triggers s =
     res_bind (map_result (\<lambda>(_, v). decode_trigger v) (scan_prefix s TRIGGER_PREFIX)) (\<lambda>triggers.
       Inr (sort_key tg_name (sort_key tg_id triggers)))"

definition set_trigger_enabled :: "deps \<Rightarrow> bytes \<Rightarrow> bool \<Rightarrow> (store, trigger_error, bool) act" where
  "set_trigger_enabled D i enabled =
     act_bind (\<lambda>s. (get_trigger s i, s)) (\<lambda>r. case r of
       None \<Rightarrow> act_return False
     | Some tr \<Rightarrow>
         act_bind (act_lift (encode_trigger (tr\<lparr>tg_enabled := enabled\<rparr>))) (\<lambda>bs.
         act_bind (act_map_err TgStore (store_put_internal D (trigger_key i) bs)) (\<lambda>_. act_return True)))"

definition event_spec :: "durable_trigger \<Rightarrow> bytes \<Rightarrow> job_spec" where
  "event_spec tr event_payload = (if event_payload \<noteq> [] then (tg_job tr)\<lparr>js_payload := event_payload\<rparr> else tg_job tr)"

definition tx_fire_trigger :: "deps \<Rightarrow> bytes \<Rightarrow> bytes \<Rightarrow> i64 \<Rightarrow> (transaction, trigger_error, bytes option) act" where
  "tx_fire_trigger D i event_payload now =
     act_bind (\<lambda>t. (ok_or TgNotFound (tx_get_internal t (trigger_key i)), t)) (\<lambda>encoded.
     act_bind (act_lift (decode_trigger encoded)) (\<lambda>tr.
       if \<not> tg_enabled tr then act_return None
       else act_bind (act_lift (tg_validate_job (event_spec tr event_payload))) (\<lambda>_.
            act_bind (act_map_err TgTransactional (enqueue_job D (event_spec tr event_payload) now)) (\<lambda>job_id.
            act_bind (act_lift (ok_or TgFireCountOverflow (checked_add (tg_fire_count tr) 1))) (\<lambda>fire_count.
            act_bind (act_lift (encode_trigger (tr\<lparr>tg_fire_count := fire_count, tg_last_fired_at_ms := Some now\<rparr>))) (\<lambda>bs.
            act_bind (act_map_err TgStore (tx_put_internal D (trigger_key i) bs)) (\<lambda>_. act_return (Some job_id))))))))"

definition fire_trigger :: "deps \<Rightarrow> bytes \<Rightarrow> bytes \<Rightarrow> i64 \<Rightarrow> (store, trigger_error, bytes option) act" where
  "fire_trigger D i event_payload now = run_tx D True TgStore (tx_fire_trigger D i event_payload now)"

section \<open>Format and keys\<close>

definition wf_trigger :: "durable_trigger \<Rightarrow> bool" where
  "wf_trigger tr \<longleftrightarrow> length (tg_id tr) = 16 \<and> tg_name tr \<noteq> [] \<and> validate_source (tg_source tr) = Inr () \<and> tg_validate_job (tg_job tr) = Inr ()"

lemma tg_write_bytes_Inr: "tg_write_bytes v = Inr bs \<longleftrightarrow> (\<exists>l. u32_try_from_len (length v) = Some l \<and> bs = to_le l @ v)"
  by (auto simp: tg_write_bytes_def res_bind_Inr_iff ok_or_Inr_iff)

lemma tg_optional_append: "tg_optional (rd_u64 TgCorruptRecord) (tg_encode_optional v @ rest) = Inr (v, rest)"
  by (auto simp: tg_optional_def tg_encode_optional_def tg_cursor codec_simps split: option.split)

lemma decode_source_append:
  assumes "encode_source source = Inr bs"
  shows "decode_source (bs @ rest) = Inr (source, rest)"
  using assms by (cases source) (auto simp: encode_source_def decode_source_def tg_cursor codec_simps res_bind_Inr_iff tg_write_bytes_Inr rd_bytes_append)

lemma tg_job_spec_append:
  assumes "tg_encode_job_spec spec = Inr bs"
  shows "tg_decode_job_spec (bs @ rest) = Inr (spec, rest)"
proof -
  from assms obtain kb lh lp where l: "u32_try_from_len (length (js_handler spec)) = Some lh" "u32_try_from_len (length (js_payload spec)) = Some lp"
    and k: "(case js_idempotency_key spec of Some v \<Rightarrow> res_bind (tg_write_bytes v) (\<lambda>key. Inr ([1] @ key)) | None \<Rightarrow> Inr [0]) = Inr kb"
    and bs: "bs = to_le lh @ js_handler spec @ to_le lp @ js_payload spec @ to_le (js_available_at_ms spec) @ tg_encode_optional (js_deadline_ms spec) @
      to_le (js_priority spec) @ to_le (js_max_attempts spec) @ to_le (js_retry_backoff_ms spec) @ kb"
    by (auto simp: tg_encode_job_spec_def res_bind_Inr_iff tg_write_bytes_Inr)
  have key: "tg_optional (rd_bytes TgCorruptRecord) (kb @ rest) = Inr (js_idempotency_key spec, rest)"
    using k by (auto simp: tg_optional_def tg_u8_def codec_simps res_bind_Inr_iff tg_write_bytes_Inr rd_bytes_append split: option.splits)
  show ?thesis unfolding tg_decode_job_spec_def bs tg_cursor
    by (simp add: codec_simps rd_bytes_append [OF l(1)] rd_bytes_append [OF l(2)] key tg_optional_append)
qed

lemma decode_trigger_encode:
  assumes wf: "wf_trigger tr" and e: "encode_trigger tr = Inr bs"
  shows "decode_trigger bs = Inr tr"
proof -
  from e obtain ln src job where l: "u32_try_from_len (length (tg_name tr)) = Some ln" "encode_source (tg_source tr) = Inr src" "tg_encode_job_spec (tg_job tr) = Inr job"
    and bs: "bs = TRIGGER_VERSION # tg_id tr @ to_le ln @ tg_name tr @ src @ job @ (if tg_enabled tr then 1 else 0) # to_le (tg_fire_count tr) @
      tg_encode_optional (tg_last_fired_at_ms tr) @ []"
    by (auto simp: encode_trigger_def res_bind_Inr_iff tg_write_bytes_Inr)
  show ?thesis using wf unfolding decode_trigger_def bs tg_cursor wf_trigger_def
    by (simp add: codec_simps rd_bytes_append [OF l(1)] decode_source_append [OF l(2)] tg_job_spec_append [OF l(3)] tg_optional_append del: append_Nil2)
qed

lemma decode_trigger_wf: "decode_trigger bs = Inr tr \<Longrightarrow> wf_trigger tr"
  by (auto simp: decode_trigger_def wf_trigger_def tg_cursor res_bind_Inr_iff rd_bind_def rd_take_def rd_return_def rd_fail_def
      split: sum.splits prod.splits if_splits)

interpretation trigger_codec: codec encode_trigger decode_trigger wf_trigger
  by unfold_locales (rule decode_trigger_encode)

lemma trigger_key_simps [simp]: "prefix TRIGGER_PREFIX (trigger_key i)" "trigger_key i = trigger_key j \<longleftrightarrow> i = j"
  by (simp_all add: trigger_key_def)

lemma trigger_space:
  assumes "prefix TRIGGER_PREFIX k"
  shows "not_cdc k" and "\<not> prefix JOB_PREFIX k" and "\<not> prefix HISTORY_PREFIX k"
  by (rule other_space [OF _ _ assms]; simp add: TRIGGER_PREFIX_def CDC_PREFIX_def JOB_PREFIX_def HISTORY_PREFIX_def ascii_def)+

interpretation trigger_store: object_space store_get "store_put_internal D" "store_delete_internal D" not_cdc
  encode_trigger decode_trigger wf_trigger trigger_key "\<lambda>_. True"
  by unfold_locales (simp_all add: trigger_space(1))

section \<open>A job filed inside a transaction\<close>

definition active_job :: "bytes \<Rightarrow> durable_job \<Rightarrow> bool" where
  "active_job key j \<longleftrightarrow> (j_state j = JReady \<or> j_state j = JLeased) \<and> j_idempotency_key j = Some key"

lemma enqueue_job_view:
  assumes "enqueue_job D spec now t = (Inr k, t')"
  obtains (existing) key where "t' = t" and "js_idempotency_key spec = Some key" and "find_active key (tx_scan_prefix_internal t JOB_PREFIX) = Inr (Some k)"
  | (filed) jb hb where "next_id (tx_store t) = Some k" and "encode_job (new_job k spec) = Inr jb"
    and "\<And>x. tx_get_internal t' x = (if x = history_key k 0 then Some hb else if x = job_key k then Some jb else tx_get_internal t x)"
    and "\<And>key. js_idempotency_key spec = Some key \<Longrightarrow> find_active key (tx_scan_prefix_internal t JOB_PREFIX) = Inr None"
proof -
  define ex where "ex = (case js_idempotency_key spec of None \<Rightarrow> Inr None | Some key \<Rightarrow> find_active key (tx_scan_prefix_internal t JOB_PREFIX))"
  from assms have e: "enqueue_job_tx D spec now (ascii ''transactional'') t = (Inr k, t')" by (auto simp: enqueue_job_def act_map_err_iff)
  then have V: "validate_job_spec spec = Inr ()" by (auto simp: enqueue_job_tx_def act_bind_Inr_iff simp del: act_bind_lift)
  let ?rest = "\<lambda>x. case x of Some i \<Rightarrow> act_return i | None \<Rightarrow> act_bind (tx_build_job spec) (\<lambda>j.
      act_bind (put_job_tx D j) (\<lambda>_. act_bind (append_history_tx D (j_id j) 0 (submitted_entry now (ascii ''transactional''))) (\<lambda>_. act_return (j_id j))))"
  have e': "(case ex of Inl e \<Rightarrow> (Inl e, t) | Inr x \<Rightarrow> ?rest x t) = (Inr k, t')"
    using e V by (simp add: enqueue_job_tx_def act_bind_def ex_def act_lift_def)
  then obtain x where x: "ex = Inr x" and b: "?rest x t = (Inr k, t')" by (cases ex) simp_all
  show ?thesis
  proof (cases x)
    case (Some i)
    then have "i = k" "t' = t" using b by (simp_all add: act_return_def)
    moreover obtain key where "js_idempotency_key spec = Some key" using x Some by (cases "js_idempotency_key spec") (auto simp: ex_def)
    ultimately show ?thesis using existing x Some by (simp add: ex_def)
  next
    case None
    with b obtain j t1 t2 where j: "tx_build_job spec t = (Inr j, t1)" "put_job_tx D j t1 = (Inr (), t2)"
      "append_history_tx D (j_id j) 0 (submitted_entry now (ascii ''transactional'')) t2 = (Inr (), t')" "k = j_id j"
      by (auto simp: act_bind_Inr_iff act_return_def)
    obtain b1 where b1: "build_job spec (tx_store t) = (Inr j, b1)" using j(1) by (auto simp: tx_build_job_def split: prod.splits)
    have n: "next_id (tx_store t) = Some k" "j = new_job k spec" using build_job_cases [OF b1] j(4) by auto
    have g1: "tx_get_internal t1 y = tx_get_internal t y" for y using tx_get_ext [OF tx_build_job_ext [OF j(1)]] by simp
    obtain jb where jb: "encode_job j = Inr jb" "\<And>y. tx_get_internal t2 y = (if y = job_key (j_id j) then Some jb else tx_get_internal t1 y)"
      using j(2) by (rule put_job_tx_get) blast
    obtain hb where hb: "\<And>y. tx_get_internal t' y = (if y = history_key (j_id j) 0 then Some hb else tx_get_internal t2 y)"
      using j(3) by (rule append_history_tx_get) blast
    have e1: "encode_job (new_job k spec) = Inr jb" using jb(1) unfolding n(2) [symmetric] .
    have e2: "tx_get_internal t' y = (if y = history_key k 0 then Some hb else if y = job_key k then Some jb else tx_get_internal t y)" for y
      unfolding hb jb(2) g1 j(4) ..
    show ?thesis by (rule filed [OF n(1) e1 e2]) (use x None in \<open>simp add: ex_def\<close>)
  qed
qed

lemma fresh_scan: "store_wf s \<Longrightarrow> tx_scan_prefix_internal (fresh_tx emit s) p = scan_prefix s p"
proof -
  assume wf: "store_wf s"
  then have w: "store_wf (tx_store (fresh_tx emit s))" by (simp add: store_wf_def fresh_tx_def)
  show ?thesis by (rule store_view.scan_eqI [OF wf, symmetric]) (use tx_scan_mem [OF w] in simp_all)
qed

section \<open>Firing\<close>

definition trigger_inv :: "store \<Rightarrow> bool" where
  "trigger_inv s \<longleftrightarrow> (\<forall>k v. prefix TRIGGER_PREFIX k \<longrightarrow> store_get s k = Some v \<longrightarrow> (\<exists>tr. decode_trigger v = Inr tr \<and> k = trigger_key (tg_id tr)))"

definition trigger_fired :: "i64 \<Rightarrow> durable_trigger \<Rightarrow> durable_trigger" where
  "trigger_fired now tr = tr\<lparr>tg_fire_count := tg_fire_count tr + 1, tg_last_fired_at_ms := Some now\<rparr>"

lemma staging_fire_trigger [staging_intros]: "staging (tx_fire_trigger D i payload now)"
  unfolding tx_fire_trigger_def enqueue_job_def enqueue_job_tx_def put_job_tx_def append_history_tx_def by (intro staging_intros)

lemma logging_fire_trigger [logging_intros]: "logging D (tx_fire_trigger D i payload now)"
  unfolding tx_fire_trigger_def enqueue_job_def enqueue_job_tx_def put_job_tx_def append_history_tx_def by (intro logging_intros)

lemma get_trigger_Some: "get_trigger s i = Inr (Some tr) \<longleftrightarrow> (\<exists>v. store_get s (trigger_key i) = Some v \<and> decode_trigger v = Inr tr)"
  by (simp add: get_trigger_def transpose_map_Inr_Some)

lemma tx_fire_trigger_view:
  assumes v: "tx_get_internal t (trigger_key i) = Some v" "decode_trigger v = Inr tr" and f: "tx_fire_trigger D i payload now t = (Inr r, t')"
  obtains (off) "\<not> tg_enabled tr" and "r = None" and "t' = t"
  | (on) k t1 bs where "tg_enabled tr" and "r = Some k" and "enqueue_job D (event_spec tr payload) now t = (Inr k, t1)" and "tg_fire_count tr \<noteq> - 1"
    and "encode_trigger (trigger_fired now tr) = Inr bs" and "\<And>x. tx_get_internal t' x = (if x = trigger_key i then Some bs else tx_get_internal t1 x)"
proof (cases "tg_enabled tr")
  case False
  then show ?thesis using off f v by (auto simp: tx_fire_trigger_def act_bind_def act_return_def)
next
  case True
  with f v obtain k t1 bs where e: "enqueue_job D (event_spec tr payload) now t = (Inr k, t1)" "r = Some k" "tg_fire_count tr \<noteq> - 1"
    "encode_trigger (trigger_fired now tr) = Inr bs" "tx_put_internal D (trigger_key i) bs t1 = (Inr (), t')"
    by (auto simp: tx_fire_trigger_def act_bind_Inr_iff act_map_err_iff ok_or_Inr_iff checked_add_one_u64 act_return_def trigger_fired_def simp del: act_bind_lift split: if_splits)
  show ?thesis by (rule on [OF True e(2,1,3,4)]) (use tx_kv.put_get [OF e(5)] in simp)
qed

theorem fire_trigger_spec:
  assumes inv: "job_inv s" and tr: "get_trigger s i = Inr (Some tr)" and id: "tg_id tr = i" and f: "fire_trigger D i payload now s = (r, s')"
    and len: "\<And>x. next_id s = Some x \<Longrightarrow> length x = 16"
  shows "job_inv s'" and "j \<noteq> i \<Longrightarrow> get_trigger s' j = get_trigger s j"
    and "\<And>e. r = Inl e \<or> r = Inr None \<Longrightarrow> jobs s' = jobs s \<and> get_trigger s' i = Inr (Some tr)"
    and "r = Inr None \<Longrightarrow> \<not> tg_enabled tr"
    and "r = Inr (Some k) \<Longrightarrow> tg_enabled tr \<and> tg_fire_count tr \<noteq> - 1 \<and> get_trigger s' i = Inr (Some (trigger_fired now tr)) \<and>
      (if \<exists>key i0 j0. js_idempotency_key (tg_job tr) = Some key \<and> jobs s i0 = Some j0 \<and> active_job key j0
       then jobs s' = jobs s \<and> (\<exists>j0. jobs s k = Some j0 \<and> j_idempotency_key j0 = js_idempotency_key (tg_job tr))
       else next_id s = Some k \<and> jobs s' = (jobs s)(k \<mapsto> stored_job (new_job k (event_spec tr payload))))"
proof -
  have wf: "store_wf s" by (rule job_inv_wf [OF inv])
  let ?b = "tx_fire_trigger D i payload now"
  have st: "staging ?b" by (rule staging_fire_trigger)
  have run: "run_tx D True TgStore ?b s = (r, s')" using f by (simp add: fire_trigger_def)
  have wf': "store_wf s'" by (rule run_tx_wf [OF st wf run])
  obtain v where v: "store_get s (trigger_key i) = Some v" "decode_trigger v = Inr tr" using tr by (auto simp: get_trigger_Some)
  have same: "job_inv s' \<and> jobs s' = jobs s \<and> (\<forall>j. get_trigger s' j = get_trigger s j)" if "\<And>k. not_cdc k \<Longrightarrow> store_get s' k = store_get s k"
  proof -
    have "prefix JOB_PREFIX k \<Longrightarrow> store_get s' k = store_get s k" "prefix TRIGGER_PREFIX k \<Longrightarrow> store_get s' k = store_get s k" for k
      using that job_spaces(1) trigger_space(1) by auto
    then show ?thesis using inv wf' by (simp add: job_inv_def jobs_def get_job_def get_trigger_def fun_eq_iff)
  qed
  have key: "js_idempotency_key (event_spec tr payload) = js_idempotency_key (tg_job tr)" by (simp add: event_spec_def)
  consider (fail) e where "r = Inl e" | (off) "r = Inr None" "\<not> tg_enabled tr" "\<And>k. not_cdc k \<Longrightarrow> store_get s' k = store_get s k"
    | (on) k t1 bs where "r = Inr (Some k)" "tg_enabled tr" "enqueue_job D (event_spec tr payload) now (fresh_tx True s) = (Inr k, t1)" "tg_fire_count tr \<noteq> - 1"
      "encode_trigger (trigger_fired now tr) = Inr bs" "\<And>x. not_cdc x \<Longrightarrow> store_get s' x = (if x = trigger_key i then Some bs else tx_get_internal t1 x)"
  proof (cases r)
    case (Inl e)
    then show ?thesis using fail by blast
  next
    case (Inr q)
    obtain t where t: "?b (fresh_tx True s) = (Inr q, t)" "\<And>k. not_cdc k \<Longrightarrow> store_get s' k = tx_get_internal t k"
      using run [unfolded Inr] by (rule run_tx_view [OF st]) blast
    have v': "tx_get_internal (fresh_tx True s) (trigger_key i) = Some v" using v(1) by simp
    from v' v(2) t(1) show ?thesis
    proof (cases rule: tx_fire_trigger_view)
      case off': off
      show ?thesis by (rule off) (use off' Inr t(2) in simp_all)
    next
      case on': (on k t1 bs)
      show ?thesis by (rule on [of k t1 bs]) (use on' Inr t(2) in simp_all)
    qed
  qed
  note C = this
  have J: "job_inv s' \<and> (\<forall>j. j \<noteq> i \<longrightarrow> get_trigger s' j = get_trigger s j) \<and> get_trigger s' i = Inr (Some (trigger_fired now tr)) \<and>
      (if \<exists>key i0 j0. js_idempotency_key (tg_job tr) = Some key \<and> jobs s i0 = Some j0 \<and> active_job key j0
       then jobs s' = jobs s \<and> (\<exists>j0. jobs s k = Some j0 \<and> j_idempotency_key j0 = js_idempotency_key (tg_job tr))
       else next_id s = Some k \<and> jobs s' = (jobs s)(k \<mapsto> stored_job (new_job k (event_spec tr payload))))"
    if on: "enqueue_job D (event_spec tr payload) now (fresh_tx True s) = (Inr k, t1)" "encode_trigger (trigger_fired now tr) = Inr bs"
      "\<And>x. not_cdc x \<Longrightarrow> store_get s' x = (if x = trigger_key i then Some bs else tx_get_internal t1 x)" for k t1 bs
  proof -
    have w: "wf_trigger (trigger_fired now tr)" using decode_trigger_wf [OF v(2)] by (simp add: wf_trigger_def trigger_fired_def)
    have g: "get_trigger s' i = Inr (Some (trigger_fired now tr))"
      using on(3) [OF trigger_space(1) [OF trigger_key_simps(1)], of i] decode_trigger_encode [OF w on(2)] by (simp add: get_trigger_def)
    have ne: "trigger_key j \<noteq> job_key x" "trigger_key j \<noteq> history_key x q" for j x q
      using trigger_space(2,3) [OF trigger_key_simps(1), of j] job_key_simps(1,3) by metis+
    have dj: "decoded (scan_prefix s JOB_PREFIX) = {j. jobs s (j_id j) = Some j}" by (rule decoded_jobs [OF inv])
    have jid: "jobs s i0 = Some j0 \<Longrightarrow> j_id j0 = i0" for i0 j0 using job_inv_cases [OF inv, of i0] by auto
    from on(1) show ?thesis
    proof (cases rule: enqueue_job_view)
      case (existing key)
      have a: "find_active key (scan_prefix s JOB_PREFIX) = Inr (Some k)" using existing(3) fresh_scan [OF wf] by simp
      obtain j0 where j0: "jobs s k = Some j0" "active_job key j0" using find_active_Inr [OF a] dj by (auto simp: active_job_def)
      have "store_get s' x = (if x = trigger_key i then Some bs else store_get s x)" if "not_cdc x" for x using on(3) [OF that] existing(1) by simp
      then have "prefix JOB_PREFIX x \<Longrightarrow> store_get s' x = store_get s x" "prefix TRIGGER_PREFIX x \<Longrightarrow> x \<noteq> trigger_key i \<Longrightarrow> store_get s' x = store_get s x" for x
        using job_spaces(1) [of x] trigger_space(1) [of x] trigger_space(2) [of x] by auto
      then have "job_inv s'" "jobs s' = jobs s" "\<forall>j. j \<noteq> i \<longrightarrow> get_trigger s' j = get_trigger s j"
        using inv wf' by (simp_all add: job_inv_def jobs_def get_job_def get_trigger_def fun_eq_iff)
      then show ?thesis using g existing(2) j0 key unfolding active_job_def by auto
    next
      case (filed jb hb)
      have n: "next_id s = Some k" using filed(1) by (simp add: next_id_def fresh_tx_def)
      have S: "store_get s' x = (if x = trigger_key i then Some bs else if x = history_key k 0 then Some hb else if x = job_key k then Some jb else store_get s x)" if "not_cdc x" for x
        using on(3) [OF that] filed(3) by simp
      let ?j = "stored_job (new_job k (event_spec tr payload))"
      have d: "decode_job jb = Inr ?j" by (rule decode_job_stored [OF _ filed(2)]) (use len [OF n] in \<open>simp add: new_job_def\<close>)
      have jp: "store_get s' x = (if x = job_key (j_id ?j) then Some jb else store_get s x)" if "prefix JOB_PREFIX x" for x
        using S [OF job_spaces(1) [OF that]] job_spaces(4) [OF that] trigger_space(2) [OF trigger_key_simps(1), of i] that job_key_simps(3) by (auto simp: new_job_def)
      have lk: "lease_ok ?j" by (simp add: lease_ok_def new_job_def stored_job_def)
      have "job_inv s' \<and> jobs s' = (jobs s)(k \<mapsto> ?j)" using job_update [OF inv d lk wf' jp] by (simp add: new_job_def)
      moreover have "\<forall>j. j \<noteq> i \<longrightarrow> get_trigger s' j = get_trigger s j"
        by (simp add: get_trigger_def S trigger_space(1) ne)
      moreover have "\<not> (\<exists>key i0 j0. js_idempotency_key (tg_job tr) = Some key \<and> jobs s i0 = Some j0 \<and> active_job key j0)"
      proof
        assume "\<exists>key i0 j0. js_idempotency_key (tg_job tr) = Some key \<and> jobs s i0 = Some j0 \<and> active_job key j0"
        then obtain kk i0 j0 where a: "js_idempotency_key (tg_job tr) = Some kk" "jobs s i0 = Some j0" "active_job kk j0" by blast
        then have "find_active kk (scan_prefix s JOB_PREFIX) = Inr None" using filed(4) key fresh_scan [OF wf] by simp
        from find_active_Inr [OF this] show False using a jid [OF a(2)] dj by (auto simp: active_job_def)
      qed
      ultimately show ?thesis using g n by (simp only: if_False simp_thms)
    qed
  qed
  have F: "job_inv s' \<and> jobs s' = jobs s \<and> (\<forall>j. get_trigger s' j = get_trigger s j)" if "r = Inl e" for e
    using same run_tx_fail_get [OF st run [unfolded that]] by blast
  show "job_inv s'" using C by cases (use F same J in blast)+
  show "j \<noteq> i \<Longrightarrow> get_trigger s' j = get_trigger s j" using C by cases (use F same J in blast)+
  show "\<And>e. r = Inl e \<or> r = Inr None \<Longrightarrow> jobs s' = jobs s \<and> get_trigger s' i = Inr (Some tr)" using C by cases (use F same tr in auto)
  show "r = Inr None \<Longrightarrow> \<not> tg_enabled tr" using C by cases auto
  show "tg_enabled tr \<and> tg_fire_count tr \<noteq> - 1 \<and> get_trigger s' i = Inr (Some (trigger_fired now tr)) \<and>
      (if \<exists>key i0 j0. js_idempotency_key (tg_job tr) = Some key \<and> jobs s i0 = Some j0 \<and> active_job key j0
       then jobs s' = jobs s \<and> (\<exists>j0. jobs s k = Some j0 \<and> j_idempotency_key j0 = js_idempotency_key (tg_job tr))
       else next_id s = Some k \<and> jobs s' = (jobs s)(k \<mapsto> stored_job (new_job k (event_spec tr payload))))" if r: "r = Inr (Some k)"
    using C
  proof cases
    case (on k' t1 bs)
    have "k' = k" using on(1) r by simp
    then show ?thesis using J [OF on(3,5,6)] on(2,4) by blast
  qed (use r in auto)
qed

section \<open>The invariant\<close>

lemma get_trigger_id: "trigger_inv s \<Longrightarrow> get_trigger s i = Inr (Some tr) \<Longrightarrow> tg_id tr = i"
  unfolding trigger_inv_def get_trigger_Some using trigger_key_simps by (metis Inr_inject)

lemma trigger_inv_put:
  assumes inv: "trigger_inv s" and w: "wf_trigger tr" and e: "encode_trigger tr = Inr bs" and p: "store_put_internal D (trigger_key (tg_id tr)) bs s = (r, s')"
  shows "trigger_inv s'" and "r = Inr u \<Longrightarrow> get_trigger s' j = (if j = tg_id tr then Inr (Some tr) else get_trigger s j)"
    and "r = Inl err \<Longrightarrow> get_trigger s' j = get_trigger s j"
proof -
  note d = decode_trigger_encode [OF w e]
  have g: "store_get s' k = (if (\<exists>u. r = Inr u) \<and> k = trigger_key (tg_id tr) then Some bs else store_get s k)" if "prefix TRIGGER_PREFIX k" for k
    using p store_kv.put_fail store_put_internal_get trigger_space(1) [OF that] by (cases r) auto
  show "trigger_inv s'" using inv d g unfolding trigger_inv_def by (metis option.inject)
  show "r = Inr u \<Longrightarrow> get_trigger s' j = (if j = tg_id tr then Inr (Some tr) else get_trigger s j)" "r = Inl err \<Longrightarrow> get_trigger s' j = get_trigger s j"
    using g [OF trigger_key_simps(1), of j] d by (auto simp: get_trigger_def)
qed

lemma trigger_inv_cong: "trigger_inv s \<Longrightarrow> (\<And>k. prefix TRIGGER_PREFIX k \<Longrightarrow> store_get s' k = store_get s k) \<Longrightarrow> trigger_inv s'"
  unfolding trigger_inv_def by simp

lemma create_trigger_effect:
  assumes inv: "trigger_inv s" and c: "create_trigger D name source job s = (r, s')" and len: "\<And>x. next_id s = Some x \<Longrightarrow> length x = 16"
  shows "trigger_inv s'" and "r = Inr i \<Longrightarrow> next_id s = Some i \<and> get_trigger s' i = Inr (Some \<lparr>tg_id = i, tg_name = name, tg_source = source, tg_job = job,
    tg_enabled = True, tg_fire_count = 0, tg_last_fired_at_ms = None\<rparr>)"
proof -
  let ?t = "\<lambda>i. \<lparr>tg_id = i, tg_name = name, tg_source = source, tg_job = job, tg_enabled = True, tg_fire_count = 0, tg_last_fired_at_ms = None\<rparr>"
  obtain x s1 where x: "tg_random_id s = (x, s1)" by fastforce
  have g1: "store_get s1 k = store_get s k" for k using x by (auto simp: tg_random_id_def store_get_def split: list.splits)
  have i1: "trigger_inv s1" by (rule trigger_inv_cong [OF inv]) (rule g1)
  have n: "x = Inr i \<Longrightarrow> next_id s = Some i" for i using x by (auto simp: tg_random_id_def next_id_def ok_or_def split: list.splits option.splits)
  consider (bad) e where "r = Inl e" "s' = s \<or> s' = s1"
    | (put) i bs q where "x = Inr i" "wf_trigger (?t i)" "encode_trigger (?t i) = Inr bs" "store_put_internal D (trigger_key i) bs s1 = (q, s')"
      "r = (case q of Inl e \<Rightarrow> Inl (TgStore e) | Inr u \<Rightarrow> Inr i)"
  proof -
    show thesis
    proof (cases "name \<noteq> [] \<and> validate_source source = Inr () \<and> tg_validate_job job = Inr () \<and> (\<exists>i bs. x = Inr i \<and> encode_trigger (?t i) = Inr bs)")
      case True
      then obtain i bs where i: "x = Inr i" "encode_trigger (?t i) = Inr bs" by blast
      have "wf_trigger (?t i)" using True len n [OF i(1)] by (simp add: wf_trigger_def)
      moreover obtain q where "store_put_internal D (trigger_key i) bs s1 = (q, s')" "r = (case q of Inl e \<Rightarrow> Inl (TgStore e) | Inr u \<Rightarrow> Inr i)"
        using c True i x by (auto simp: create_trigger_def act_bind_def act_lift_def act_map_err_def act_return_def map_err_Inl_iff map_err_Inr_iff split: prod.splits sum.splits)
      ultimately show ?thesis using put i by blast
    next
      case False
      have "isl r \<and> (s' = s \<or> s' = s1)"
      proof (cases "name = [] \<or> validate_source source \<noteq> Inr () \<or> tg_validate_job job \<noteq> Inr ()")
        case True
        then show ?thesis using c by (cases "validate_source source"; cases "tg_validate_job job") (auto simp: create_trigger_def act_lift_def split: if_splits)
      next
        case ok: False
        then show ?thesis using False c x by (cases x; cases "encode_trigger (?t (projr x))") (auto simp: create_trigger_def act_bind_def act_lift_def isl_def, metis+)
      qed
      then show ?thesis using bad by (cases r) auto
    qed
  qed
  note C = this
  show "trigger_inv s'" using C
  proof cases
    case (put i bs q)
    show ?thesis using trigger_inv_put(1) [OF i1 put(2,3)] put(4) by simp
  qed (use inv i1 in auto)
  show "next_id s = Some i \<and> get_trigger s' i = Inr (Some (?t i))" if r: "r = Inr i" using C
  proof cases
    case (put j bs q)
    then obtain u where q: "q = Inr u" "j = i" using r by (cases q) auto
    then show ?thesis using trigger_inv_put(2) [OF i1 put(2,3), of D q s' u i] put(1,4) n by simp
  qed (use r in auto)
qed

lemma set_trigger_enabled_effect:
  assumes inv: "trigger_inv s" and c: "set_trigger_enabled D i enabled s = (r, s')"
  shows "trigger_inv s'" and "r = Inr True \<Longrightarrow> \<exists>tr. get_trigger s i = Inr (Some tr) \<and> get_trigger s' i = Inr (Some (tr\<lparr>tg_enabled := enabled\<rparr>))"
    and "r = Inr False \<Longrightarrow> get_trigger s i = Inr None \<and> s' = s"
proof -
  consider (stay) "s' = s" "r \<noteq> Inr True" "r = Inr False \<longrightarrow> get_trigger s i = Inr None"
    | (put) tr bs q where "get_trigger s i = Inr (Some tr)" "encode_trigger (tr\<lparr>tg_enabled := enabled\<rparr>) = Inr bs" "store_put_internal D (trigger_key i) bs s = (q, s')"
      "r = (case q of Inl e \<Rightarrow> Inl (TgStore e) | Inr u \<Rightarrow> Inr True)"
    using c by (auto simp: set_trigger_enabled_def act_bind_def act_lift_def act_return_def act_map_err_def map_err_Inl_iff map_err_Inr_iff split: sum.splits option.splits prod.splits)
  note C = this
  have W: "wf_trigger (tr\<lparr>tg_enabled := enabled\<rparr>)" "tg_id (tr\<lparr>tg_enabled := enabled\<rparr>) = i" if "get_trigger s i = Inr (Some tr)" for tr
    using decode_trigger_wf get_trigger_id [OF inv that] that by (auto simp: get_trigger_Some wf_trigger_def)
  show "trigger_inv s'" using C
  proof cases
    case (put tr bs q)
    show ?thesis using trigger_inv_put(1) [OF inv W(1) [OF put(1)] put(2)] put(3) W(2) [OF put(1)] by simp
  qed (use inv in simp)
  show "r = Inr True \<Longrightarrow> \<exists>tr. get_trigger s i = Inr (Some tr) \<and> get_trigger s' i = Inr (Some (tr\<lparr>tg_enabled := enabled\<rparr>))" using C
  proof cases
    case (put tr bs q)
    assume "r = Inr True"
    then obtain u where "q = Inr u" using put(4) by (cases q) auto
    then show ?thesis using trigger_inv_put(2) [OF inv W(1) [OF put(1)] put(2), of D q s' u i] put(1,3) W(2) [OF put(1)] by simp
  qed auto
  show "r = Inr False \<Longrightarrow> get_trigger s i = Inr None \<and> s' = s" using C by cases (auto split: sum.splits)
qed

lemma fire_trigger_inv:
  assumes "job_inv s" and "trigger_inv s" and "fire_trigger D i payload now s = (r, s')" and "\<And>x. next_id s = Some x \<Longrightarrow> length x = 16"
  shows "trigger_inv s'"
proof -
  have st: "staging (tx_fire_trigger D i payload now)" by (rule staging_fire_trigger)
  show ?thesis
  proof (cases r)
    case (Inl e)
    have "store_get s' k = store_get s k" for k by (rule run_tx_fail_get [OF st]) (use assms(3) Inl in \<open>simp add: fire_trigger_def\<close>)
    then show ?thesis using assms(2) trigger_inv_cong by blast
  next
    case (Inr q)
    obtain t where t: "tx_fire_trigger D i payload now (fresh_tx True s) = (Inr q, t)" "\<And>k. not_cdc k \<Longrightarrow> store_get s' k = tx_get_internal t k"
      using assms(3) [unfolded fire_trigger_def Inr] by (rule run_tx_view [OF st]) blast
    obtain v tr where v: "store_get s (trigger_key i) = Some v" "decode_trigger v = Inr tr"
      using t(1) by (auto simp: tx_fire_trigger_def act_bind_Inr_iff ok_or_Inr_iff simp del: act_bind_lift)
    have v': "tx_get_internal (fresh_tx True s) (trigger_key i) = Some v" using v(1) by simp
    have id: "tg_id tr = i" by (rule get_trigger_id [OF assms(2)]) (use v in \<open>simp add: get_trigger_Some\<close>)
    from v' v(2) t(1) show ?thesis
    proof (cases rule: tx_fire_trigger_view)
      case off
      then show ?thesis using assms(2) t(2) trigger_space(1) by (intro trigger_inv_cong [OF assms(2)]) simp
    next
      case (on k t1 bs)
      have w: "wf_trigger (trigger_fired now tr)" using decode_trigger_wf [OF v(2)] by (simp add: wf_trigger_def trigger_fired_def)
      have g1: "tx_get_internal t1 x = store_get s x" if "prefix TRIGGER_PREFIX x" for x
      proof -
        have "x \<noteq> history_key k 0" "x \<noteq> job_key k" using trigger_space(2,3) [OF that] job_key_simps(1,3) by metis+
        note ne = this
        from on(3) show ?thesis by (cases rule: enqueue_job_view) (use ne in simp_all)
      qed
      have "store_get s' x = (if x = trigger_key i then Some bs else store_get s x)" if "prefix TRIGGER_PREFIX x" for x
        using t(2) [OF trigger_space(1) [OF that]] on(6) g1 [OF that] by simp
      moreover have "decode_trigger bs = Inr (trigger_fired now tr)" by (rule decode_trigger_encode [OF w on(5)])
      ultimately show ?thesis using assms(2) id unfolding trigger_inv_def by (auto simp: trigger_fired_def)
    qed
  qed
qed

lemma keeps_trigger:
  "keeps (recoverable D) (create_trigger D name source job)" "keeps (recoverable D) (set_trigger_enabled D i b)" "keeps (recoverable D) (fire_trigger D i payload now)"
proof -
  have r: "keeps (recoverable D) tg_random_id" unfolding keeps_def
    by (auto simp: tg_random_id_def recoverable_def durable_def store_log_def file_holds_def counters_ahead_def benign_def split: list.splits)
  show "keeps (recoverable D) (create_trigger D name source job)" unfolding create_trigger_def by (intro keeps_intros r)
  show "keeps (recoverable D) (set_trigger_enabled D i b)" unfolding set_trigger_enabled_def by (intro keeps_intros)
  show "keeps (recoverable D) (fire_trigger D i payload now)" unfolding fire_trigger_def by (intro keeps_intros logging_intros)
qed

end
