(* ===== verification/Job_Activity.thy ===== *)
theory Job_Activity
  imports Entropy Triggers
begin

text \<open>
  Everything that writes a job record: the operations of \<open>jobs.rs\<close>, the ticks of interval and cron
  schedules, and the transactions that file jobs, through \<open>enqueue_job\<close> or a trigger. None of
  them, a manual retry apart, touches the record of a job that has settled. An action of a
  transaction is \<open>sparing\<close> for an identifier when it keeps the job records well formed and leaves
  the record under that identifier alone, provided the identifier is not drawn again.
\<close>

named_theorems sparing_intros

definition avoids :: "bytes \<Rightarrow> store \<Rightarrow> bool" where
  "avoids i s \<longleftrightarrow> (\<forall>x \<in> set (drawable s). length x = 16 \<and> x \<noteq> i)"

definition jobs_rep :: "(bytes \<Rightarrow> bytes option) \<Rightarrow> bool" where
  "jobs_rep g \<longleftrightarrow> (\<forall>k v. prefix JOB_PREFIX k \<longrightarrow> g k = Some v \<longrightarrow> (\<exists>j. decode_job v = Inr j \<and> k = job_key (j_id j) \<and> lease_ok j))"

lemma job_inv_rep: "job_inv s \<longleftrightarrow> store_wf s \<and> jobs_rep (store_get s)"
  by (simp add: job_inv_def jobs_rep_def)

lemma jobs_rep_cong: "jobs_rep g \<Longrightarrow> (\<And>k. prefix JOB_PREFIX k \<Longrightarrow> g' k = g k) \<Longrightarrow> jobs_rep g'"
  by (simp add: jobs_rep_def)

definition spared :: "bytes \<Rightarrow> transaction \<Rightarrow> bool" where
  "spared i t \<longleftrightarrow> avoids i (tx_store t) \<and> jobs_rep (tx_get_internal t)"

definition sparing :: "bytes \<Rightarrow> (transaction, 'e, 'a) act \<Rightarrow> bool" where
  "sparing i a \<longleftrightarrow> (\<forall>t r t'. spared i t \<longrightarrow> a t = (r, t') \<longrightarrow> spared i t' \<and> tx_get_internal t' (job_key i) = tx_get_internal t (job_key i))"

lemma sparingD: "sparing i a \<Longrightarrow> spared i t \<Longrightarrow> a t = (r, t') \<Longrightarrow> spared i t' \<and> tx_get_internal t' (job_key i) = tx_get_internal t (job_key i)"
  unfolding sparing_def by blast

lemma sparingI: "(\<And>t r t'. spared i t \<Longrightarrow> a t = (r, t') \<Longrightarrow> spared i t' \<and> tx_get_internal t' (job_key i) = tx_get_internal t (job_key i)) \<Longrightarrow> sparing i a"
  unfolding sparing_def by blast

lemma sparing_pure [sparing_intros]: "sparing i (act_return v)" "sparing i (act_lift r)" "sparing i (\<lambda>t. (g t, t))"
  by (simp_all add: sparing_def)

lemma sparing_bind [sparing_intros]:
  assumes "sparing i a" and "\<And>x. sparing i (f x)"
  shows "sparing i (act_bind a f)"
proof (rule sparingI)
  fix t r t' assume t: "spared i t" and b: "act_bind a f t = (r, t')"
  obtain ra t1 where a: "a t = (ra, t1)" by fastforce
  note A = sparingD [OF assms(1) t a]
  show "spared i t' \<and> tx_get_internal t' (job_key i) = tx_get_internal t (job_key i)"
  proof (cases ra)
    case (Inl e)
    then show ?thesis using A a b by (simp add: act_bind_def)
  next
    case (Inr x)
    then have "f x t1 = (r, t')" using a b by (simp add: act_bind_def)
    from sparingD [OF assms(2) conjunct1 [OF A] this] show ?thesis using A by simp
  qed
qed

lemma sparing_map_err [sparing_intros]: "sparing i a \<Longrightarrow> sparing i (act_map_err e a)"
  unfolding sparing_def act_map_err_def by (auto split: prod.splits sum.splits)

lemma sparing_guard: "(\<And>x. r = Inr x \<Longrightarrow> sparing i (f x)) \<Longrightarrow> sparing i (act_bind (act_lift r) f)"
  by (cases r) (simp_all add: sparing_def)

lemma sparing_if [sparing_intros]: "sparing i a \<Longrightarrow> sparing i b \<Longrightarrow> sparing i (if c then a else b)"
  by simp

lemma sparing_option [sparing_intros]: "sparing i a \<Longrightarrow> (\<And>x. sparing i (f x)) \<Longrightarrow> sparing i (case c of None \<Rightarrow> a | Some x \<Rightarrow> f x)"
  by (cases c) auto

lemma sparing_for [sparing_intros]: "(\<And>x. sparing i (f x)) \<Longrightarrow> sparing i (act_for f xs)"
  by (induction xs) (auto intro: sparing_intros)

lemma sparing_frame:
  assumes "framing (prefix JOB_PREFIX) a" and "\<And>t r t'. a t = (r, t') \<Longrightarrow> set (drawable (tx_store t')) \<subseteq> set (drawable (tx_store t))"
  shows "sparing i a"
proof (rule sparingI)
  fix t r t' assume t: "spared i t" and b: "a t = (r, t')"
  have g: "tx_get_internal t' k = tx_get_internal t k" if "prefix JOB_PREFIX k" for k
    using assms(1) b that unfolding framing_def by blast
  have "jobs_rep (tx_get_internal t')" by (rule jobs_rep_cong [OF _ g]) (use t in \<open>simp add: spared_def\<close>)
  moreover have "avoids i (tx_store t')" using t assms(2) [OF b] by (auto simp: spared_def avoids_def)
  ultimately show "spared i t' \<and> tx_get_internal t' (job_key i) = tx_get_internal t (job_key i)" using g by (simp add: spared_def)
qed

lemma steady_drawable: "steady a \<Longrightarrow> a t = (r, t') \<Longrightarrow> drawable (tx_store t') = drawable (tx_store t)"
  by (simp add: drawable_def steadyD)

lemma job_space_internal: "prefix JOB_PREFIX k \<Longrightarrow> prefix INTERNAL_KEY_PREFIX k"
  by (auto simp: JOB_PREFIX_def INTERNAL_KEY_PREFIX_def ascii_def prefix_def)

lemma sparing_put: "\<not> prefix JOB_PREFIX k \<Longrightarrow> sparing i (tx_put_internal D k v)"
  by (rule sparing_frame [OF framing_put]) (use steady_drawable [OF steady_internal(1)] in auto)

lemma sparing_user [sparing_intros]: "sparing i (tx_put D k v)" "sparing i (tx_delete D k)"
  by (rule sparing_frame [OF framing_user(1) [OF job_space_internal]], use steady_drawable [OF steady_user(1)] in auto)
    (rule sparing_frame [OF framing_user(2) [OF job_space_internal]], use steady_drawable [OF steady_user(2)] in auto)

lemma sparing_delete: "\<not> prefix JOB_PREFIX k \<Longrightarrow> sparing i (tx_delete_internal D k)"
  by (rule sparing_frame [OF framing_delete]) (use steady_drawable [OF steady_internal(2)] in auto)

lemma sparing_random [sparing_intros]: "sparing i (tx_random e)"
  by (rule sparing_frame [OF framing_random])
    (auto simp: tx_random_def drawable_def map_filter_simps split: list.splits option.splits)

lemma sparing_counter [sparing_intros]: "sparing i (staged_counter n k)"
  unfolding staged_counter_def by (rule sparing_pure)

section \<open>Filing a job\<close>

lemma new_job_lease [simp]: "lease_ok (new_job x spec)" "j_id (stored_job j) = j_id j" "j_id (new_job x spec) = x"
  by (simp_all add: lease_ok_def new_job_def stored_job_def)

lemma sparing_put_job:
  assumes "length x = 16" and "x \<noteq> i"
  shows "sparing i (put_job_tx D (new_job x spec))"
proof (rule sparingI)
  fix t r t' assume t: "spared i t" and p: "put_job_tx D (new_job x spec) t = (r, t')"
  have "avoids i (tx_store t')"
    using steady_drawable [of "put_job_tx D (new_job x spec)", OF _ p] t unfolding put_job_tx_def
    by (simp add: spared_def avoids_def steady_bind steady_pure steady_map_err steady_internal)
  moreover have "jobs_rep (tx_get_internal t') \<and> tx_get_internal t' (job_key i) = tx_get_internal t (job_key i)"
  proof (cases r)
    case (Inl e)
    have "tx_get_internal t' k = tx_get_internal t k" for k
      using p Inl tx_kv.put_fail [of D "job_key x"]
      by (auto simp: put_job_tx_def act_bind_def act_map_err_def map_err_def split: sum.splits prod.splits)
    then show ?thesis using t by (auto simp: spared_def intro: jobs_rep_cong)
  next
    case (Inr u)
    obtain jb where jb: "encode_job (new_job x spec) = Inr jb"
        "\<And>k. tx_get_internal t' k = (if k = job_key (j_id (new_job x spec)) then Some jb else tx_get_internal t k)"
      using p [unfolded Inr] by (rule put_job_tx_get) blast
    have d: "decode_job jb = Inr (stored_job (new_job x spec))" by (rule decode_job_stored [OF _ jb(1)]) (simp add: assms(1))
    have "jobs_rep (tx_get_internal t')" unfolding jobs_rep_def
    proof (intro allI impI)
      fix k v assume k: "prefix JOB_PREFIX k" and v: "tx_get_internal t' k = Some v"
      show "\<exists>j. decode_job v = Inr j \<and> k = job_key (j_id j) \<and> lease_ok j"
      proof (cases "k = job_key x")
        case True
        then show ?thesis using v jb(2) d by (intro exI [of _ "stored_job (new_job x spec)"]) simp
      next
        case False
        then show ?thesis using t k v jb(2) by (simp add: spared_def jobs_rep_def)
      qed
    qed
    then show ?thesis using jb(2) assms(2) by simp
  qed
  ultimately show "spared i t' \<and> tx_get_internal t' (job_key i) = tx_get_internal t (job_key i)" by (simp add: spared_def)
qed

lemma history_not_job: "\<not> prefix JOB_PREFIX (history_key x q)"
  using job_spaces(4) job_key_simps(3) by metis

lemma sparing_history [sparing_intros]: "sparing i (append_history_tx D x q e)"
  unfolding append_history_tx_def by (intro sparing_intros sparing_put history_not_job)

text \<open>What follows the drawing of an identifier has to be sparing only for identifiers that are not
  \<open>i\<close>.\<close>

lemma sparing_build:
  assumes "\<And>x. length x = 16 \<Longrightarrow> x \<noteq> i \<Longrightarrow> sparing i (f (new_job x spec))"
  shows "sparing i (act_bind (tx_build_job spec) f)"
proof (rule sparingI)
  fix t r t' assume t: "spared i t" and b: "act_bind (tx_build_job spec) f t = (r, t')"
  obtain rb s1 where rb: "build_job spec (tx_store t) = (rb, s1)" by fastforce
  then have tb: "tx_build_job spec t = (rb, t\<lparr>tx_store := s1\<rparr>)" by (simp add: tx_build_job_def)
  note B = build_job_cases [OF rb]
  have "set (drawable s1) \<subseteq> set (drawable (tx_store t))" using B drawable_drawn(1) by auto
  moreover have g: "tx_get_internal (t\<lparr>tx_store := s1\<rparr>) k = tx_get_internal t k" for k using tx_get_ext [OF tx_build_job_ext [OF tb]] by simp
  ultimately have t1: "spared i (t\<lparr>tx_store := s1\<rparr>)" using t by (auto simp: spared_def avoids_def intro: jobs_rep_cong)
  show "spared i t' \<and> tx_get_internal t' (job_key i) = tx_get_internal t (job_key i)"
  proof (cases rb)
    case (Inl e)
    then show ?thesis using b tb t1 g by (simp add: act_bind_def)
  next
    case (Inr j)
    then have j: "next_id (tx_store t) = Some (j_id j)" "j = new_job (j_id j) spec" using B by auto
    have "j_id j \<in> set (drawable (tx_store t))" using drawable_next [OF j(1)] by simp
    then have "sparing i (f (new_job (j_id j) spec))" using t assms by (simp add: spared_def avoids_def)
    moreover have "f (new_job (j_id j) spec) (t\<lparr>tx_store := s1\<rparr>) = (r, t')" using b tb Inr j(2) by (simp add: act_bind_def)
    ultimately show ?thesis using sparingD [OF _ t1] g by metis
  qed
qed

lemma sparing_enqueue [sparing_intros]: "sparing i (enqueue_job D spec now)"
  unfolding enqueue_job_def enqueue_job_tx_def
  by (intro sparing_map_err sparing_bind [OF sparing_pure(2)] sparing_bind [OF sparing_pure(3)] sparing_option sparing_pure sparing_build
      sparing_bind [OF sparing_put_job] sparing_bind [OF sparing_history]; simp)

section \<open>Whole operations\<close>

lemma not_job_space:
  "prefix QUEUE_PREFIX k \<Longrightarrow> \<not> prefix JOB_PREFIX k" "prefix STREAM_PREFIX k \<Longrightarrow> \<not> prefix JOB_PREFIX k"
  "prefix OUTBOX_PREFIX k \<Longrightarrow> \<not> prefix JOB_PREFIX k" "prefix REQUEST_PREFIX k \<Longrightarrow> \<not> prefix JOB_PREFIX k"
  by (rule other_space; simp add: QUEUE_PREFIX_def STREAM_PREFIX_def OUTBOX_PREFIX_def REQUEST_PREFIX_def JOB_PREFIX_def ascii_def)+

lemma object_not_job: "\<not> prefix JOB_PREFIX (object_key x)" "reference_key namespace name = Inr k \<Longrightarrow> \<not> prefix JOB_PREFIX k"
proof -
  have o: "\<not> prefix JOB_PREFIX k" if "prefix OBJECT_PREFIX k \<or> prefix OBJECT_REF_PREFIX k" for k
    using that other_space [of OBJECT_PREFIX JOB_PREFIX k] other_space [of OBJECT_REF_PREFIX JOB_PREFIX k]
    by (auto simp: OBJECT_PREFIX_def OBJECT_REF_PREFIX_def JOB_PREFIX_def ascii_def)
  show "\<not> prefix JOB_PREFIX (object_key x)" by (rule o) (simp add: object_key_def)
  show "\<not> prefix JOB_PREFIX k" if "reference_key namespace name = Inr k"
    by (rule o) (use that in \<open>auto simp: reference_key_def res_bind_Inr_iff split: if_splits\<close>)
qed

lemma sparing_push: "sparing i (push_queue D name payload opts)"
proof -
  have "\<not> prefix JOB_PREFIX (ns @ x)" if "dt_queue_namespace name = Inr ns" for ns x
    using that by (intro not_job_space(1)) (auto simp: dt_queue_namespace_def res_bind_Inr_iff)
  then show ?thesis unfolding push_queue_def
    by (intro sparing_if sparing_guard sparing_intros sparing_put) auto
qed

lemma sparing_append: "sparing i (append_stream_tx D name payload)"
proof -
  have "\<not> prefix JOB_PREFIX (ns @ x)" if "dt_tuple_key STREAM_PREFIX [name] = Inr ns" for ns x
    using that by (intro not_job_space(2)) (auto simp: res_bind_Inr_iff)
  then show ?thesis unfolding append_stream_tx_def
    by (intro sparing_if sparing_guard sparing_intros sparing_put) auto
qed

lemma sparing_services:
  "sparing i (emit_event D topic payload created)" "sparing i (request_rpc D meth payload created deadline)"
proof -
  show "sparing i (emit_event D topic payload created)" unfolding emit_event_def
    by (intro sparing_intros sparing_put not_job_space(3)) (simp add: event_key_def)
  show "sparing i (request_rpc D meth payload created deadline)" unfolding request_rpc_def
    by (intro sparing_intros sparing_put not_job_space(4)) (simp add: request_key_def)
qed

lemma sparing_objects:
  "sparing i (put_object_tx D content)" "sparing i (link_object_tx D namespace name x)" "sparing i (unlink_object_tx D namespace name)"
  unfolding put_object_tx_def link_object_tx_def unlink_object_tx_def Let_def
  by (intro sparing_bind sparing_guard sparing_if sparing_pure sparing_map_err sparing_put sparing_delete object_not_job; assumption)+

lemma sparing_domain [sparing_intros]: "sparing i (domain_do D st)"
  by (cases st) (auto simp: discard_def intro!: sparing_intros sparing_push sparing_append sparing_services sparing_objects)

lemma sparing_fire_trigger: "sparing i (tx_fire_trigger D x payload now)"
proof -
  have "\<not> prefix JOB_PREFIX (trigger_key x)" using trigger_space(2) by (simp add: trigger_key_def)
  then show ?thesis unfolding tx_fire_trigger_def by (intro sparing_intros sparing_put)
qed

text \<open>The record of a job through a whole transaction.\<close>

definition keeps_job :: "bytes \<Rightarrow> store \<Rightarrow> store \<Rightarrow> bool" where
  "keeps_job i s s' \<longleftrightarrow> job_inv s' \<and> avoids i s' \<and> jobs s' i = jobs s i"

lemma keeps_job_trans: "keeps_job i a b \<Longrightarrow> keeps_job i b c \<Longrightarrow> keeps_job i a c"
  by (simp add: keeps_job_def)

lemma run_tx_sparing:
  assumes sp: "sparing i body" and st: "staging body" and inv: "job_inv s" and av: "avoids i s" and run: "run_tx D emit conv body s = (r, s')"
  shows "keeps_job i s s'"
proof -
  have t0: "spared i (fresh_tx emit s)"
    using inv av by (simp add: spared_def job_inv_rep avoids_def drawable_def fresh_tx_def jobs_rep_def tx_get_internal_def store_get_def)
  have "avoids i s'"
    unfolding avoids_def drawable_def
    by (rule run_tx_entropy [OF run, where Q = "\<lambda>e. \<forall>x \<in> set (List.map_filter id e). length x = 16 \<and> x \<noteq> i"])
      (use sparingD [OF sp t0] av in \<open>auto simp: spared_def avoids_def drawable_def\<close>)
  moreover have wf: "store_wf s'" using run_tx_wf [OF st _ run] inv by (simp add: job_inv_rep)
  moreover have "jobs_rep (store_get s') \<and> store_get s' (job_key i) = store_get s (job_key i)"
  proof (cases r)
    case (Inl e)
    then show ?thesis using run_tx_fail_get [OF st run [unfolded Inl]] inv by (auto simp: job_inv_rep intro: jobs_rep_cong)
  next
    case (Inr v)
    obtain t where t: "body (fresh_tx emit s) = (Inr v, t)" "\<And>k. not_cdc k \<Longrightarrow> store_get s' k = tx_get_internal t k"
      using run [unfolded Inr] by (rule run_tx_view [OF st]) blast
    note S = sparingD [OF sp t0 t(1)]
    have "jobs_rep (store_get s')" by (rule jobs_rep_cong [of "tx_get_internal t"]) (use S t(2) job_spaces(1) in \<open>auto simp: spared_def\<close>)
    moreover have "store_get s' (job_key i) = store_get s (job_key i)"
      using S t(2) [OF job_spaces(1) [OF job_key_simps(1)], of i] by (simp add: tx_get_internal_def fresh_tx_def store_get_def)
    ultimately show ?thesis by blast
  qed
  ultimately show ?thesis using jobs_same [of s' i s] unfolding keeps_job_def job_inv_rep by blast
qed

section \<open>Ticks\<close>

lemma keeps_job_drawn: "job_inv s \<Longrightarrow> avoids i s \<Longrightarrow> keeps_job i s s \<and> keeps_job i s (drawn s)"
  using drawable_drawn(1) [of s] by (auto simp: keeps_job_def job_inv_rep avoids_def jobs_def get_job_def intro: jobs_rep_cong)

lemma fresh_job:
  assumes "build_job spec s = (Inr j, s1)" and "avoids i s"
  shows "length (j_id j) = 16 \<and> j_id j \<noteq> i \<and> j = new_job (j_id j) spec \<and> s1 = drawn s"
proof -
  have "next_id s = Some (j_id j)" "j = new_job (j_id j) spec" "s1 = drawn s" using build_job_cases [OF assms(1)] by auto
  then show ?thesis using assms(2) drawable_next [of s "j_id j"] by (simp add: avoids_def)
qed

lemma fire_schedule_keeps:
  assumes inv: "job_inv s" and av: "avoids i s" and f: "fire_schedule D now sc s = Some (r, s')"
  shows "keeps_job i s s'"
proof -
  obtain rb s1 where b: "build_job (scheduled_spec sc) s = (rb, s1)" by fastforce
  have K: "keeps_job i s s1" using build_job_cases [OF b] keeps_job_drawn [OF inv av] by auto
  consider "s' = s1" | j sc' where "rb = Inr j" "run_tx D True JStore (fire_tx D now j sc') s1 = (r, s')"
    using f b by (auto simp: fire_schedule_def split: sum.splits option.splits)
  then show ?thesis
  proof cases
    case 2
    from fresh_job [OF b [unfolded 2(1)] av] obtain x where x: "length x = 16" "x \<noteq> i" "j = new_job x (scheduled_spec sc)" by blast
    have "\<not> prefix JOB_PREFIX (schedule_key y)" for y using job_spaces(5) job_key_simps(6) by metis
    then have "sparing i (fire_tx D now j sc')" unfolding fire_tx_def x(3)
      by (intro sparing_bind sparing_put_job [OF x(1,2)] sparing_intros sparing_put)
    from run_tx_sparing [OF this staging_fire _ _ 2(2)] K show ?thesis by (auto simp: keeps_job_def)
  qed (use K in simp)
qed

lemma tick_loop_keeps:
  assumes "job_inv s" and "avoids i s" and "tick_loop D now limit fired es s = Some (r, s')"
  shows "keeps_job i s s'"
  using assms
proof (induction es arbitrary: fired s)
  case Nil
  then show ?case using keeps_job_drawn by auto
next
  case (Cons e es)
  obtain k v where e: "e = (k, v)" by (cases e)
  consider "s' = s" | "tick_loop D now limit fired es s = Some (r, s')" | sc er where "fire_schedule D now sc s = Some (Inl er, s')"
    | sc u s1 where "fire_schedule D now sc s = Some (Inr u, s1)" "tick_loop D now limit (fired + 1) es s1 = Some (r, s')"
    using Cons.prems(3) e by (auto split: if_splits sum.splits option.splits)
  then show ?case
  proof cases
    case 1
    then show ?thesis using keeps_job_drawn Cons.prems by blast
  next
    case 2
    then show ?thesis using Cons.IH Cons.prems by blast
  next
    case 3
    then show ?thesis using fire_schedule_keeps Cons.prems by blast
  next
    case 4
    note K = fire_schedule_keeps [OF Cons.prems(1,2) 4(1)]
    show ?thesis by (rule keeps_job_trans [OF K]) (use Cons.IH 4(2) K in \<open>auto simp: keeps_job_def\<close>)
  qed
qed

lemma tick_keeps:
  assumes "job_inv s" and "avoids i s" and "tick_schedules D now limit s = Some (r, s')"
  shows "keeps_job i s s'"
proof -
  obtain r0 where "tick_loop D now limit 0 (scan_prefix s SCHEDULE_PREFIX) s = Some (r0, s')"
    using assms(3) by (auto simp: tick_schedules_def Let_def)
  then show ?thesis by (rule tick_loop_keeps [OF assms(1,2)])
qed

lemma submit_keeps:
  assumes inv: "job_inv s" and av: "avoids i s" and c: "submit_job D spec now s = (r, s')"
  shows "keeps_job i s s'"
proof -
  have "s' = s \<or> act_bind (build_job spec) (\<lambda>j. run_tx D True JStore (submit_body D j now)) s = (r, s')"
    using c unfolding submit_job_def by (auto simp: act_bind_def act_lift_def act_return_def split: sum.splits option.splits)
  moreover obtain b s1 where b: "build_job spec s = (b, s1)" by fastforce
  ultimately consider "s' = s" | j where "b = Inr j" "run_tx D True JStore (submit_body D j now) s1 = (r, s')" | "s1 = s'"
    by (cases b) (auto simp: act_bind_def)
  moreover have K: "keeps_job i s s1" using build_job_cases [OF b] keeps_job_drawn [OF inv av] by auto
  ultimately show ?thesis
  proof cases
    case 1
    then show ?thesis using keeps_job_drawn [OF inv av] by simp
  next
    case 2
    from fresh_job [OF b [unfolded 2(1)] av] obtain x where x: "length x = 16" "x \<noteq> i" "j = new_job x spec" by blast
    have sp: "sparing i (submit_body D j now)" unfolding x(3)
      by (intro sparing_bind sparing_put_job [OF x(1,2)] sparing_intros)
    have st: "staging (submit_body D j now)" by (intro staging_intros)
    from run_tx_sparing [OF sp st _ _ 2(2)] K show ?thesis by (auto simp: keeps_job_def)
  qed simp
qed

lemma cron_put_keeps:
  assumes inv: "job_inv s" and av: "avoids i s" and p: "put_schedule D x sc s = (r, s')"
  shows "keeps_job i s s'"
proof (cases "cs_encode_schedule sc")
  case (Inl e)
  then show ?thesis using p keeps_job_drawn [OF inv av] by (simp add: put_schedule_def)
next
  case (Inr bs)
  have n: "\<not> prefix JOB_PREFIX (cron_key x)" using cron_space(2) by (simp add: cron_key_def)
  obtain rp where run: "run_tx D True id (tx_put_internal D (cron_key x) bs) s = (rp, s')"
    using p Inr by (auto simp: put_schedule_def act_bind_def act_map_err_def store_put_internal_def split: prod.splits)
  have "staging (tx_put_internal D (cron_key x) bs)" by (intro staging_intros)
  then show ?thesis by (rule run_tx_sparing [OF sparing_put [OF n] _ inv av run])
qed

lemma fire_cron_keeps:
  assumes inv: "job_inv s" and av: "avoids i s" and f: "fire_cron D now sc s = (r, s')"
  shows "keeps_job i s s'"
proof -
  consider "s' = s" | rj s1 where "submit_job D (occurrence_spec sc) now s = (rj, s1)" "s' = s1"
    | rj s1 sc' where "submit_job D (occurrence_spec sc) now s = (rj, s1)" "put_schedule D (cs_id sc) sc' s1 = (r, s')"
    using f unfolding fire_cron_def
    by (cases "submit_job D (occurrence_spec sc) now s") (auto simp: act_bind_def act_map_err_def act_lift_def split: sum.splits prod.splits)
  then show ?thesis
  proof cases
    case 3
    note K = submit_keeps [OF inv av 3(1)]
    show ?thesis by (rule keeps_job_trans [OF K]) (use cron_put_keeps [OF _ _ 3(2)] K in \<open>auto simp: keeps_job_def\<close>)
  qed (use keeps_job_drawn [OF inv av] submit_keeps [OF inv av] in auto)
qed

lemma cron_loop_keeps:
  assumes "job_inv s" and "avoids i s" and "cron_tick_loop D now limit scs fired s = (r, s')"
  shows "keeps_job i s s'"
  using assms
proof (induction scs arbitrary: fired s)
  case Nil
  then show ?case using keeps_job_drawn by auto
next
  case (Cons sc scs)
  consider "s' = s" | "cron_tick_loop D now limit scs fired s = (r, s')" | er where "fire_cron D now sc s = (Inl er, s')"
    | u s1 where "fire_cron D now sc s = (Inr u, s1)" "cron_tick_loop D now limit scs (fired + 1) s1 = (r, s')"
    using Cons.prems(3) by (auto simp: act_bind_def split: if_splits sum.splits prod.splits)
  then show ?case
  proof cases
    case 4
    note K = fire_cron_keeps [OF Cons.prems(1,2) 4(1)]
    show ?thesis by (rule keeps_job_trans [OF K]) (use Cons.IH 4(2) K in \<open>auto simp: keeps_job_def\<close>)
  qed (use Cons.IH Cons.prems keeps_job_drawn fire_cron_keeps in blast)+
qed

lemma cron_tick_keeps:
  assumes "job_inv s" and "avoids i s" and "tick_cron_schedules D now limit s = (r, s')"
  shows "keeps_job i s s'"
proof -
  have "s' = s \<or> (\<exists>scs r0. cron_tick_loop D now limit scs 0 s = (r0, s'))"
    using assms(3) by (auto simp: tick_cron_schedules_def act_bind_def split: sum.splits prod.splits)
  then show ?thesis using cron_loop_keeps [OF assms(1,2)] keeps_job_drawn [OF assms(1,2)] by blast
qed

section \<open>Activity\<close>

text \<open>A step of anything that works with jobs, on a store where the randomness still to be drawn
  avoids the identifier \<open>i\<close>; \<open>ja_other\<close> is any work that writes no job record.\<close>

inductive job_activity :: "deps \<Rightarrow> bytes \<Rightarrow> store \<Rightarrow> store \<Rightarrow> bool" for D i where
  ja_job: "job_op D s s' \<Longrightarrow> job_activity D i s s'"
| ja_submit: "submit_job D spec now s = (rb, s') \<Longrightarrow> avoids i s \<Longrightarrow> job_activity D i s s'"
| ja_tick: "tick_schedules D now limit s = Some (rt, s') \<Longrightarrow> avoids i s \<Longrightarrow> job_activity D i s s'"
| ja_cron: "tick_cron_schedules D now limit s = (rc, s') \<Longrightarrow> avoids i s \<Longrightarrow> job_activity D i s s'"
| ja_transaction: "domain_tx D steps s = (rd, s') \<Longrightarrow> avoids i s \<Longrightarrow> job_activity D i s s'"
| ja_trigger: "fire_trigger D x payload now s = (rf, s') \<Longrightarrow> avoids i s \<Longrightarrow> job_activity D i s s'"
| ja_other: "store_wf s' \<Longrightarrow> (\<And>k. prefix JOB_PREFIX k \<Longrightarrow> store_get s' k = store_get s k) \<Longrightarrow> job_activity D i s s'"

lemma activity_keeps:
  assumes act: "job_activity D i s s'" and inv: "job_inv s" and j: "jobs s i = Some j" "finished j"
  shows "job_inv s' \<and> jobs s' i = Some j"
  using act
proof cases
  case ja_job
  then have S: "job_steps s s'" by (rule job_op_steps [OF _ inv])
  then obtain j' where "jobs s' i = Some j'" "job_le j j'" using j(1) by (rule job_stepsD)
  then show ?thesis using S j(2) by (simp add: job_steps_def job_le_def)
next
  case (ja_transaction steps rd)
  have b: "staging (act_for (domain_do D) steps)" "sparing i (act_for (domain_do D) steps)" by (intro staging_intros sparing_intros)+
  from run_tx_sparing [OF b(2,1) inv ja_transaction(2) ja_transaction(1) [unfolded domain_tx_def]] show ?thesis
    using j(1) by (simp add: keeps_job_def)
next
  case (ja_trigger x payload now rf)
  from run_tx_sparing [OF sparing_fire_trigger staging_fire_trigger inv ja_trigger(2) ja_trigger(1) [unfolded fire_trigger_def]] show ?thesis
    using j(1) by (simp add: keeps_job_def)
next
  case ja_other
  then show ?thesis using inv j(1) jobs_same [of s' i s] by (auto simp: job_inv_rep intro: jobs_rep_cong)
next
  case (ja_submit spec now rb)
  from submit_keeps [OF inv ja_submit(2,1)] show ?thesis using j(1) by (simp add: keeps_job_def)
next
  case (ja_tick now limit rt)
  from tick_keeps [OF inv ja_tick(2,1)] show ?thesis using j(1) by (simp add: keeps_job_def)
next
  case (ja_cron now limit rc)
  from cron_tick_keeps [OF inv ja_cron(2,1)] show ?thesis using j(1) by (simp add: keeps_job_def)
qed

theorem activities_keep:
  assumes "(job_activity D i)\<^sup>*\<^sup>* s s'" and "job_inv s" and "jobs s i = Some j" and "finished j"
  shows "job_inv s' \<and> jobs s' i = Some j"
  using assms(1) by (induction rule: rtranclp_induct) (use assms(2-4) activity_keeps in blast)+

end
