(* ===== verification/Trigger_Properties.thy ===== *)
theory Trigger_Properties
  imports Job_Activity Service_Progress
begin

text \<open>
  Properties of the durable triggers, what one firing does to the jobs and to the triggers, and of
  everything that files jobs.
\<close>

definition demo_trigger :: durable_trigger where
  "demo_trigger = \<lparr>tg_id = replicate 16 1, tg_name = [110], tg_source = SourceTopic [101], tg_job = demo_spec, tg_enabled = True,
     tg_fire_count = 4, tg_last_fired_at_ms = None\<rparr>"

definition trigger_store :: store where
  "trigger_store = single (trigger_key (replicate 16 1)) (case encode_trigger demo_trigger of Inr bs \<Rightarrow> bs | Inl _ \<Rightarrow> [])"

lemma trigger_store_simps:
  "job_inv trigger_store" "trigger_inv trigger_store" "jobs trigger_store = Map.empty" "next_id trigger_store = Some demo_id"
  "get_trigger trigger_store (replicate 16 1) = Inr (Some demo_trigger)"
proof -
  let ?k = "trigger_key (replicate 16 1)"
  obtain bs where bs: "encode_trigger demo_trigger = Inr bs" "decode_trigger bs = Inr demo_trigger"
  proof -
    have "isl (encode_trigger demo_trigger) = False" by code_simp
    then obtain bs where bs: "encode_trigger demo_trigger = Inr bs" by (cases "encode_trigger demo_trigger") auto
    have "wf_trigger demo_trigger" by code_simp
    from that [OF bs decode_trigger_encode [OF this bs]] show thesis .
  qed
  then have s: "trigger_store = single ?k bs" by (simp add: trigger_store_def)
  have nj: "\<not> prefix JOB_PREFIX ?k" "job_key j \<noteq> ?k" for j
    using trigger_space(2) [OF trigger_key_simps(1)] job_key_simps(1) by metis+
  show "job_inv trigger_store" "jobs trigger_store = Map.empty" unfolding s using nj by (auto simp: job_inv_def jobs_def get_job_def split: if_splits)
  show "trigger_inv trigger_store" unfolding s using bs by (auto simp: trigger_inv_def demo_trigger_def split: if_splits)
  show "next_id trigger_store = Some demo_id" unfolding s by simp
  show "get_trigger trigger_store (replicate 16 1) = Inr (Some demo_trigger)" unfolding s using bs by (simp add: get_trigger_Some)
qed

section \<open>A trigger that fires\<close>

lemma can_enqueue:
  assumes "validate_job_spec spec = Inr ()" and "js_idempotency_key spec = None" and "next_id (tx_store t) = Some i" and "small_job (new_job i spec)"
  shows "can (0 + (0 + (0 + (1 + (1 + 0))))) (enqueue_job_tx D spec now (ascii ''transactional'')) t i"
proof -
  have b: "can 0 (tx_build_job spec) t (new_job i spec)" if "tx_store t = tx_store t0" "next_id (tx_store t0) = Some i" for t t0
    using that assms(1) by (auto simp: can_def tx_build_job_def build_job_def random_id_def act_bind_def act_return_def next_id_def ok_or_def ready_def healthy_def
        tx_ext_def same_view_def split: list.splits option.splits intro!: exI [of _ "[]"])
  have i: "j_id (new_job i spec) = i" "length i = 16" using assms(4) by (simp_all add: new_job_def small_job_def)
  have rest: "can (1 + (1 + 0)) (act_bind (put_job_tx D (new_job i spec)) (\<lambda>_.
      act_bind (append_history_tx D (j_id (new_job i spec)) 0 (submitted_entry now (ascii ''transactional''))) (\<lambda>_. act_return (j_id (new_job i spec))))) t i" for t
    by (rule can_bind [OF can_put_job [OF assms(4)]], rule can_bind [OF can_append_history])
      (use i can_pure(1) [of i] in \<open>simp_all add: submitted_entry_def ascii_def\<close>)
  have "can (0 + (1 + (1 + 0))) (act_bind (tx_build_job spec) (\<lambda>j. act_bind (put_job_tx D j) (\<lambda>_.
      act_bind (append_history_tx D (j_id j) 0 (submitted_entry now (ascii ''transactional''))) (\<lambda>_. act_return (j_id j))))) t i"
    by (rule can_bind [OF b [OF refl assms(3)]]) (rule rest)
  then show ?thesis using assms(1,2) by (simp add: enqueue_job_tx_def can_def act_bind_def act_lift_def)
qed

lemma demo_fires: "\<exists>s'. fire_trigger demo_deps (replicate 16 1) [9] 30 trigger_store = (Inr (Some demo_id), s')"
proof -
  let ?i = "replicate 16 1 :: bytes" and ?t = "fresh_tx True trigger_store"
  note T = trigger_store_simps
  obtain v where v: "store_get trigger_store (trigger_key ?i) = Some v" "decode_trigger v = Inr demo_trigger" using T(5) by (auto simp: get_trigger_Some)
  let ?sp = "event_spec demo_trigger [9]"
  have sp: "validate_job_spec ?sp = Inr ()" "js_idempotency_key ?sp = None" "tg_validate_job ?sp = Inr ()" "small_job (new_job demo_id ?sp)"
    by (simp_all add: event_spec_def demo_trigger_def demo_spec_def job_spec_new_def validate_job_spec_def tg_validate_job_def small_job_def new_job_def demo_id_def)
  have "next_id (tx_store ?t) = Some demo_id" using T(4) by (simp add: fresh_tx_def next_id_def)
  then have e: "can (0 + (0 + (0 + (1 + (1 + 0))))) (act_map_err TgTransactional (enqueue_job demo_deps ?sp 30)) ?t demo_id"
    unfolding enqueue_job_def by (intro can_map_err can_enqueue sp)
  have "\<not> isl (encode_trigger (trigger_fired 30 demo_trigger)) \<and> length (projr (encode_trigger (trigger_fired 30 demo_trigger))) < 1000" by code_simp
  then obtain bs where bs: "encode_trigger (trigger_fired 30 demo_trigger) = Inr bs" "length bs < 1000" by (cases "encode_trigger (trigger_fired 30 demo_trigger)") auto
  have bs': "encode_trigger (demo_trigger\<lparr>tg_fire_count := 5, tg_last_fired_at_ms := Some 30\<rparr>) = Inr bs" using bs(1) by (simp add: trigger_fired_def demo_trigger_def)
  have p: "can (1 + 0) (act_bind (act_map_err TgStore (tx_put_internal demo_deps (trigger_key ?i) bs)) (\<lambda>_. act_return (Some demo_id))) t (Some demo_id)" for t
    by (rule can_bind [OF can_map_err [OF can_put] can_pure(1)]) (use bs(2) in \<open>simp add: trigger_key_def TRIGGER_PREFIX_def ascii_def\<close>)
  have c: "checked_add (tg_fire_count demo_trigger) 1 = Some 5" by (simp add: demo_trigger_def checked_add_one_u64)
  have "can (0 + (0 + (0 + (1 + (1 + 0)))) + (1 + 0)) (act_bind (act_map_err TgTransactional (enqueue_job demo_deps ?sp 30)) (\<lambda>job_id.
      act_bind (act_lift (ok_or TgFireCountOverflow (checked_add (tg_fire_count demo_trigger) 1))) (\<lambda>fire_count.
      act_bind (act_lift (encode_trigger (demo_trigger\<lparr>tg_fire_count := fire_count, tg_last_fired_at_ms := Some 30\<rparr>))) (\<lambda>bs.
      act_bind (act_map_err TgStore (tx_put_internal demo_deps (trigger_key ?i) bs)) (\<lambda>_. act_return (Some job_id)))))) ?t (Some demo_id)"
    by (rule can_bind [OF e]) (use p in \<open>simp add: can_def c bs' ok_or_def act_lift_def act_bind_def\<close>)
  then have "can (0 + (0 + (0 + (1 + (1 + 0)))) + (1 + 0)) (tx_fire_trigger demo_deps ?i [9] 30) ?t (Some demo_id)"
    using v sp(3) by (simp add: can_def tx_fire_trigger_def act_bind_def act_lift_def ok_or_def) (simp add: demo_trigger_def)
  from run_can [OF demo_sha_ok this, of 0 TgStore] healthy_mono [of 500 trigger_store 8] show ?thesis
    by (auto simp: fire_trigger_def trigger_store_def)
qed

text \<open>C38: firing a stored trigger is atomic. It keeps the jobs and the triggers well formed and touches no
  other trigger. When it fails, or the trigger is disabled, neither the jobs nor the trigger
  change. When it succeeds, the trigger's count goes up by one (it was below the largest value)
  and the instant is recorded in the same commit that files exactly one new job carrying the
  event; a job that is still active under the trigger's idempotency key stands for the new one.\<close>

theorem trigger_fires_atomically:
  assumes "job_inv s" and "trigger_inv s" and "get_trigger s i = Inr (Some tr)" and "fire_trigger D i payload now s = (r, s')"
    and "\<And>x. next_id s = Some x \<Longrightarrow> length x = 16"
  shows "job_inv s' \<and> trigger_inv s' \<and> (\<forall>j. j \<noteq> i \<longrightarrow> get_trigger s' j = get_trigger s j) \<and>
    (case r of
       Inr (Some k) \<Rightarrow> tg_enabled tr \<and> tg_fire_count tr \<noteq> - 1 \<and> get_trigger s' i = Inr (Some (trigger_fired now tr)) \<and>
         (if \<exists>key i0 j0. js_idempotency_key (tg_job tr) = Some key \<and> jobs s i0 = Some j0 \<and> active_job key j0
          then jobs s' = jobs s \<and> (\<exists>j0. jobs s k = Some j0 \<and> j_idempotency_key j0 = js_idempotency_key (tg_job tr))
          else next_id s = Some k \<and> jobs s' = (jobs s)(k \<mapsto> stored_job (new_job k (event_spec tr payload))))
     | Inr None \<Rightarrow> \<not> tg_enabled tr \<and> jobs s' = jobs s \<and> get_trigger s' i = get_trigger s i
     | Inl e \<Rightarrow> jobs s' = jobs s \<and> get_trigger s' i = get_trigger s i)"
proof -
  note S = fire_trigger_spec [OF assms(1,3) get_trigger_id [OF assms(2,3)] assms(4) assms(5)]
  have "trigger_inv s'" by (rule fire_trigger_inv [OF assms(1,2,4,5)])
  then show ?thesis using S(1,2,4,5) S(3) assms(3) by (auto split: sum.splits option.splits)
qed

theorem trigger_fires_atomically_witness:
  "\<exists>s'. fire_trigger demo_deps (replicate 16 1) [9] 30 trigger_store = (Inr (Some demo_id), s') \<and>
     get_trigger s' (replicate 16 1) = Inr (Some (demo_trigger\<lparr>tg_fire_count := 5, tg_last_fired_at_ms := Some 30\<rparr>)) \<and>
     jobs s' = [demo_id \<mapsto> stored_job (new_job demo_id (demo_spec\<lparr>js_payload := [9]\<rparr>))]"
proof -
  obtain s' where f: "fire_trigger demo_deps (replicate 16 1) [9] 30 trigger_store = (Inr (Some demo_id), s')" using demo_fires by blast
  note T = trigger_store_simps
  have "trigger_fired 30 demo_trigger = demo_trigger\<lparr>tg_fire_count := 5, tg_last_fired_at_ms := Some 30\<rparr>"
    "event_spec demo_trigger [9] = demo_spec\<lparr>js_payload := [9]\<rparr>" by (simp_all add: trigger_fired_def demo_trigger_def event_spec_def)
  then show ?thesis using trigger_fires_atomically [OF T(1,2,5) f] f T(3,4) by simp
qed

section \<open>Settled jobs\<close>

text \<open>C16: a job that has completed, died or been cancelled is settled. No sequence of the operations
  of \<open>jobs.rs\<close> other than a manual retry, of ticks of interval and cron schedules, of transactions
  over all domains with the jobs they enqueue, of trigger firings and of work that writes no job
  record changes anything about it, provided that new identifiers have 16 bytes and that the
  randomness source does not hand out an identifier already in use.\<close>

theorem settled_jobs_stay:
  assumes "job_inv s" and "jobs s i = Some j" and "finished j" and "(job_activity D i)\<^sup>*\<^sup>* s s'"
  shows "jobs s' i = Some j"
  using activities_keep [OF assms(4,1,2,3)] by blast

theorem settled_jobs_stay_witness:
  "\<exists>s s1 s2 r q. job_inv s \<and> jobs s (replicate 16 9) = Some (completed (claimed 10 (demo_job\<lparr>j_id := replicate 16 9\<rparr>))) \<and>
     cancel_job demo_deps (replicate 16 9) 5 s = (r, s1) \<and>
     tick_schedules demo_deps 7 3 s = Some (q, s2) \<and>
     jobs s1 (replicate 16 9) = jobs s (replicate 16 9) \<and> jobs s2 (replicate 16 9) = jobs s (replicate 16 9)"
proof -
  let ?i = "replicate 16 (9 :: byte)" and ?j = "completed (claimed 10 (demo_job\<lparr>j_id := replicate 16 9\<rparr>))"
  have "wf_job ?j" "lease_ok ?j" "small_job ?j"
    by (simp_all add: wf_job_def lease_ok_def completed_def claimed_def small_job_def new_job_def demo_spec_def job_spec_new_def)
  then obtain bs where bs: "encode_job ?j = Inr bs" "decode_job bs = Inr ?j"
    using encode_job_ok [of ?j] decode_job_encode [of ?j] by (metis wf_job_def)
  define s where "s = single (job_key ?i) bs"
  have id: "j_id ?j = ?i" by (simp add: completed_def claimed_def)
  have inv: "job_inv s" using bs(2) \<open>lease_ok ?j\<close> id by (auto simp: s_def job_inv_def)
  have j: "jobs s ?i = Some ?j" using bs(2) by (simp add: s_def jobs_def get_job_def transpose_map_def)
  have f: "finished ?j" by (simp add: finished_def completed_def)
  obtain r s1 where c: "cancel_job demo_deps ?i 5 s = (r, s1)" by fastforce
  obtain q s2 where t: "tick_schedules demo_deps 7 3 s = Some (q, s2)"
    using tick_loop_total [of demo_deps 7 3 0 "scan_prefix s SCHEDULE_PREFIX" s] by (auto simp: tick_schedules_def Let_def)
  have "drawable s = [demo_id]" by (simp add: s_def drawable_def map_filter_simps single_def demo_job_store_def)
  then have av: "avoids ?i s" by (simp add: avoids_def demo_id_def)
  have "(job_activity demo_deps ?i)\<^sup>*\<^sup>* s s1" "(job_activity demo_deps ?i)\<^sup>*\<^sup>* s s2"
    by (intro r_into_rtranclp ja_job op_cancel [OF c]) (intro r_into_rtranclp ja_tick [OF t av])
  from settled_jobs_stay [OF inv j f this(1)] settled_jobs_stay [OF inv j f this(2)] show ?thesis using inv j c t by auto
qed

end
