(* ===== verification/Collection_Model.thy ===== *)
theory Collection_Model
  imports Domains "HOL-Library.Product_Lexorder"
begin

text \<open>
  Structured collections (\<open>crates/voodoo-store-core/src/collection.rs\<close>) and range queries over their
  secondary indexes (\<open>crates/voodoo-store-core/src/query.rs\<close>). A record is kept under its primary key
  together with the values it is indexed by; every such value has an entry of its own in the
  index's key space, and a unique index admits one owner per value.
\<close>

section \<open>Data\<close>

definition COL_META_PREFIX :: bytes where
  "COL_META_PREFIX = 0xff # ascii ''vds:col:meta:''"

definition COL_MIGRATION_PREFIX :: bytes where
  "COL_MIGRATION_PREFIX = 0xff # ascii ''vds:col:migration:''"

definition COL_RECORD_PREFIX :: bytes where
  "COL_RECORD_PREFIX = 0xff # ascii ''vds:col:record:''"

definition COL_INDEX_META_PREFIX :: bytes where
  "COL_INDEX_META_PREFIX = 0xff # ascii ''vds:col:index-meta:''"

definition COL_INDEX_PREFIX :: bytes where
  "COL_INDEX_PREFIX = 0xff # ascii ''vds:col:index:''"

definition COL_FORMAT_VERSION :: u8 where
  "COL_FORMAT_VERSION = 1"

record collection_definition =
  cd_schema_version :: u32
  cd_codec :: bytes

record collection_migration =
  cm_from_version :: u32
  cm_to_version :: u32
  cm_codec :: bytes

definition collection_definition_default :: collection_definition where
  "collection_definition_default = \<lparr>cd_schema_version = 1, cd_codec = ascii ''bytes''\<rparr>"

record index_definition =
  id_name :: bytes
  id_unique :: bool

record index_value =
  iv_index :: bytes
  iv_value :: bytes

record collection_record =
  cr_primary_key :: bytes
  cr_value :: bytes
  cr_indexes :: "index_value list"

record stored_record =
  sr_value :: bytes
  sr_indexes :: "index_value list"

datatype collection_error =
    CoStore engine_error
  | CoCollectionNotFound
  | CoIndexNotFound
  | CoEmptyName
  | CoEmptyPrimaryKey
  | CoComponentTooLarge
  | CoTooManyIndexes
  | CoInvalidSchemaVersion
  | CoCorruptMetadata
  | CoCorruptRecord
  | CoUniqueIndexViolation bytes

section \<open>Keys\<close>

fun component_key :: "bytes \<Rightarrow> bytes list \<Rightarrow> collection_error + bytes" where
  "component_key key [] = Inr key"
| "component_key key (c # cs) =
     res_bind (ok_or CoComponentTooLarge (u32_try_from_len (length c))) (\<lambda>len. component_key (key @ to_be len @ c) cs)"

definition meta_key :: "bytes \<Rightarrow> collection_error + bytes" where
  "meta_key name = component_key COL_META_PREFIX [name]"

definition migration_prefix :: "bytes \<Rightarrow> collection_error + bytes" where
  "migration_prefix name = component_key COL_MIGRATION_PREFIX [name]"

definition migration_key :: "bytes \<Rightarrow> u32 \<Rightarrow> u32 \<Rightarrow> collection_error + bytes" where
  "migration_key name from_version to_version = component_key COL_MIGRATION_PREFIX [name, to_be from_version, to_be to_version]"

definition record_prefix :: "bytes \<Rightarrow> collection_error + bytes" where
  "record_prefix collection = component_key COL_RECORD_PREFIX [collection]"

definition record_key :: "bytes \<Rightarrow> bytes \<Rightarrow> collection_error + bytes" where
  "record_key collection primary_key = component_key COL_RECORD_PREFIX [collection, primary_key]"

definition index_meta_key :: "bytes \<Rightarrow> bytes \<Rightarrow> collection_error + bytes" where
  "index_meta_key collection index = component_key COL_INDEX_META_PREFIX [collection, index]"

definition index_value_prefix :: "bytes \<Rightarrow> bytes \<Rightarrow> bytes \<Rightarrow> collection_error + bytes" where
  "index_value_prefix collection index value = component_key COL_INDEX_PREFIX [collection, index, value]"

definition index_entry_key :: "bytes \<Rightarrow> bytes \<Rightarrow> bytes \<Rightarrow> bytes \<Rightarrow> collection_error + bytes" where
  "index_entry_key collection index value primary_key = component_key COL_INDEX_PREFIX [collection, index, value, primary_key]"

definition decode_record_primary_key :: "bytes \<Rightarrow> bytes \<Rightarrow> collection_error + bytes" where
  "decode_record_primary_key pre key =
     (if \<not> prefix pre key then Inl CoCorruptMetadata
      else let rest = drop (length pre) key
           in if length rest < 4 then Inl CoCorruptMetadata
              else let len = unat (from_be (take 4 rest) :: u32)
                   in if length rest \<noteq> 4 + len then Inl CoCorruptMetadata else Inr (drop 4 rest))"

definition col_validate_name :: "bytes \<Rightarrow> collection_error + unit" where
  "col_validate_name name = (if name = [] then Inl CoEmptyName else Inr ())"

section \<open>Formats\<close>

definition encode_collection_definition :: "collection_definition \<Rightarrow> collection_error + bytes" where
  "encode_collection_definition d =
     res_bind (ok_or CoComponentTooLarge (u32_try_from_len (length (cd_codec d)))) (\<lambda>codec_len.
       Inr ([COL_FORMAT_VERSION] @ to_le (cd_schema_version d) @ to_le codec_len @ cd_codec d))"

definition decode_collection_definition :: "bytes \<Rightarrow> collection_error + collection_definition" where
  "decode_collection_definition encoded =
     (if length encoded < 9 \<or> encoded ! 0 \<noteq> COL_FORMAT_VERSION then Inl CoCorruptMetadata
      else let schema_version = from_le (slice 1 5 encoded); codec_len = unat (from_le (slice 5 9 encoded) :: u32)
           in if length encoded \<noteq> 9 + codec_len then Inl CoCorruptMetadata
              else Inr \<lparr>cd_schema_version = schema_version, cd_codec = drop 9 encoded\<rparr>)"

definition encode_collection_migration :: "collection_migration \<Rightarrow> collection_error + bytes" where
  "encode_collection_migration m =
     res_bind (ok_or CoComponentTooLarge (u32_try_from_len (length (cm_codec m)))) (\<lambda>codec_len.
       Inr ([COL_FORMAT_VERSION] @ to_le (cm_from_version m) @ to_le (cm_to_version m) @ to_le codec_len @ cm_codec m))"

definition decode_collection_migration :: "bytes \<Rightarrow> collection_error + collection_migration" where
  "decode_collection_migration encoded =
     (if length encoded < 13 \<or> encoded ! 0 \<noteq> COL_FORMAT_VERSION then Inl CoCorruptMetadata
      else let from_version = from_le (slice 1 5 encoded); to_version = from_le (slice 5 9 encoded);
               codec_len = unat (from_le (slice 9 13 encoded) :: u32)
           in if length encoded \<noteq> 13 + codec_len \<or> to_version \<le> from_version then Inl CoCorruptMetadata
              else Inr \<lparr>cm_from_version = from_version, cm_to_version = to_version, cm_codec = drop 13 encoded\<rparr>)"

definition u16_try_from_len :: "usize \<Rightarrow> u16 option" where
  "u16_try_from_len n = (if n < 2 ^ 16 then Some (of_nat n) else None)"

fun encode_index_values :: "index_value list \<Rightarrow> collection_error + bytes" where
  "encode_index_values [] = Inr []"
| "encode_index_values (index # rest) =
     res_bind (ok_or CoComponentTooLarge (u16_try_from_len (length (iv_index index)))) (\<lambda>name_len.
     res_bind (ok_or CoComponentTooLarge (u32_try_from_len (length (iv_value index)))) (\<lambda>value_len.
     res_bind (encode_index_values rest) (\<lambda>tail.
       Inr (to_le name_len @ iv_index index @ to_le value_len @ iv_value index @ tail))))"

definition encode_record_value :: "bytes \<Rightarrow> index_value list \<Rightarrow> collection_error + bytes" where
  "encode_record_value value indexes =
     res_bind (ok_or CoComponentTooLarge (u32_try_from_len (length value))) (\<lambda>value_len.
     res_bind (ok_or CoTooManyIndexes (u16_try_from_len (length indexes))) (\<lambda>index_count.
     res_bind (encode_index_values indexes) (\<lambda>tail.
       Inr ([COL_FORMAT_VERSION] @ to_le value_len @ to_le index_count @ value @ tail))))"

definition rd_u16 :: "'e \<Rightarrow> ('e, u16) reader" where
  "rd_u16 e = rd_bind (rd_take e 2) (\<lambda>bs. rd_return (from_le bs))"

primrec decode_index_values :: "nat \<Rightarrow> (collection_error, index_value list) reader" where
  "decode_index_values 0 = rd_return []"
| "decode_index_values (Suc n) =
     rd_bind (rd_u16 CoCorruptRecord) (\<lambda>name_len. rd_bind (rd_take CoCorruptRecord (unat name_len)) (\<lambda>name.
     rd_bind (rd_u32 CoCorruptRecord) (\<lambda>value_len. rd_bind (rd_take CoCorruptRecord (unat value_len)) (\<lambda>value.
     rd_bind (decode_index_values n) (\<lambda>rest. rd_return (\<lparr>iv_index = name, iv_value = value\<rparr> # rest))))))"

definition decode_record_value :: "bytes \<Rightarrow> collection_error + stored_record" where
  "decode_record_value encoded =
     (if length encoded < 7 \<or> encoded ! 0 \<noteq> COL_FORMAT_VERSION then Inl CoCorruptRecord
      else let value_len = unat (from_le (slice 1 5 encoded) :: u32); index_count = unat (from_le (slice 5 7 encoded) :: u16)
           in if 7 + value_len > length encoded then Inl CoCorruptRecord
              else res_bind (decode_index_values index_count (drop (7 + value_len) encoded)) (\<lambda>(indexes, rest).
                     if rest \<noteq> [] then Inl CoCorruptRecord
                     else Inr \<lparr>sr_value = slice 7 (7 + value_len) encoded, sr_indexes = indexes\<rparr>))"

definition decode_index_definition :: "bytes \<Rightarrow> bytes \<Rightarrow> collection_error + index_definition" where
  "decode_index_definition index encoded =
     (if length encoded \<noteq> 2 \<or> encoded ! 0 \<noteq> COL_FORMAT_VERSION \<or> encoded ! 1 > 1 then Inl CoCorruptMetadata
      else Inr \<lparr>id_name = index, id_unique = (encoded ! 1 = 1)\<rparr>)"

section \<open>Collections and their schema\<close>

definition create_collection :: "deps \<Rightarrow> bytes \<Rightarrow> collection_definition \<Rightarrow> (store, collection_error, bool) act" where
  "create_collection D name d =
     act_bind (act_lift (col_validate_name name)) (\<lambda>_.
     act_bind (act_lift (meta_key name)) (\<lambda>key.
     act_bind (\<lambda>s. (Inr (store_get s key), s)) (\<lambda>existing.
       if existing \<noteq> None then act_return False
       else act_bind (act_lift (encode_collection_definition d)) (\<lambda>bs.
            act_bind (act_map_err CoStore (store_put_internal D key bs)) (\<lambda>_. act_return True)))))"

definition collection_definition_of :: "store \<Rightarrow> bytes \<Rightarrow> collection_error + collection_definition option" where
  "collection_definition_of s name = res_bind (meta_key name) (\<lambda>key. transpose_map decode_collection_definition (store_get s key))"

definition migrate_collection_schema ::
  "deps \<Rightarrow> bytes \<Rightarrow> u32 \<Rightarrow> u32 \<Rightarrow> bytes \<Rightarrow> (store, collection_error, bool) act" where
  "migrate_collection_schema D name expected_version next_version new_codec =
     act_bind (act_lift (meta_key name)) (\<lambda>key.
     act_bind (\<lambda>s. (ok_or CoCollectionNotFound (store_get s key), s)) (\<lambda>current.
     act_bind (act_lift (decode_collection_definition current)) (\<lambda>d.
       if cd_schema_version d \<noteq> expected_version then act_return False
       else if next_version \<le> expected_version then act_lift (Inl CoInvalidSchemaVersion)
       else run_tx D True CoStore
              (act_bind (act_lift (encode_collection_definition \<lparr>cd_schema_version = next_version, cd_codec = new_codec\<rparr>)) (\<lambda>bs.
               act_bind (act_map_err CoStore (tx_put_internal D key bs)) (\<lambda>_.
               act_bind (act_lift (migration_key name expected_version next_version)) (\<lambda>mkey.
               act_bind (act_lift (encode_collection_migration
                 \<lparr>cm_from_version = expected_version, cm_to_version = next_version, cm_codec = new_codec\<rparr>)) (\<lambda>mbs.
               act_bind (act_map_err CoStore (tx_put_internal D mkey mbs)) (\<lambda>_. act_return True)))))))))"

definition collection_migrations :: "store \<Rightarrow> bytes \<Rightarrow> collection_error + collection_migration list" where
  "collection_migrations s name =
     res_bind (migration_prefix name) (\<lambda>pre.
     res_bind (map_result (\<lambda>(_, value). decode_collection_migration value) (scan_prefix s pre)) (\<lambda>migrations.
       Inr (sort_key (\<lambda>m. (cm_from_version m, cm_to_version m)) migrations)))"

definition ensure_collection :: "store \<Rightarrow> bytes \<Rightarrow> collection_error + unit" where
  "ensure_collection s name =
     res_bind (meta_key name) (\<lambda>key. if store_get s key = None then Inl CoCollectionNotFound else Inr ())"

definition ensure_collection_tx :: "transaction \<Rightarrow> bytes \<Rightarrow> collection_error + unit" where
  "ensure_collection_tx t name =
     res_bind (meta_key name) (\<lambda>key. if tx_get_internal t key = None then Inl CoCollectionNotFound else Inr ())"

definition define_index :: "deps \<Rightarrow> bytes \<Rightarrow> index_definition \<Rightarrow> (store, collection_error, bool) act" where
  "define_index D collection d =
     act_bind (\<lambda>s. (ensure_collection s collection, s)) (\<lambda>_.
     act_bind (act_lift (col_validate_name (id_name d))) (\<lambda>_.
     act_bind (act_lift (index_meta_key collection (id_name d))) (\<lambda>key.
     act_bind (\<lambda>s. (Inr (store_get s key), s)) (\<lambda>existing.
       if existing \<noteq> None then act_return False
       else act_bind (act_map_err CoStore (store_put_internal D key [COL_FORMAT_VERSION, if id_unique d then 1 else 0])) (\<lambda>_.
              act_return True)))))"

definition index_definition_of :: "store \<Rightarrow> bytes \<Rightarrow> bytes \<Rightarrow> collection_error + index_definition" where
  "index_definition_of s collection index =
     res_bind (index_meta_key collection index) (\<lambda>key.
     res_bind (ok_or CoIndexNotFound (store_get s key)) (\<lambda>encoded. decode_index_definition index encoded))"

definition index_definition_tx :: "transaction \<Rightarrow> bytes \<Rightarrow> bytes \<Rightarrow> collection_error + index_definition" where
  "index_definition_tx t collection index =
     res_bind (index_meta_key collection index) (\<lambda>key.
     res_bind (ok_or CoIndexNotFound (tx_get_internal t key)) (\<lambda>encoded. decode_index_definition index encoded))"

section \<open>Records\<close>

text \<open>The check of one index value of a record about to be written: the index is defined, and
  when it is unique nobody else owns the value.\<close>

definition check_index :: "transaction \<Rightarrow> bytes \<Rightarrow> bytes \<Rightarrow> index_value \<Rightarrow> collection_error + unit" where
  "check_index t collection primary_key index =
     res_bind (index_definition_tx t collection (iv_index index)) (\<lambda>d.
       if id_unique d then
         res_bind (index_value_prefix collection (iv_index index) (iv_value index)) (\<lambda>pre.
           if list_ex (\<lambda>(_, owner). owner \<noteq> primary_key) (tx_scan_prefix_internal t pre)
           then Inl (CoUniqueIndexViolation (iv_index index)) else Inr ())
       else Inr ())"

definition delete_index_entry :: "deps \<Rightarrow> bytes \<Rightarrow> bytes \<Rightarrow> index_value \<Rightarrow> (transaction, collection_error, unit) act" where
  "delete_index_entry D collection primary_key index =
     act_bind (act_lift (index_entry_key collection (iv_index index) (iv_value index) primary_key)) (\<lambda>key.
       act_map_err CoStore (tx_delete_internal D key))"

definition put_index_entry :: "deps \<Rightarrow> bytes \<Rightarrow> bytes \<Rightarrow> index_value \<Rightarrow> (transaction, collection_error, unit) act" where
  "put_index_entry D collection primary_key index =
     act_bind (act_lift (index_entry_key collection (iv_index index) (iv_value index) primary_key)) (\<lambda>key.
       act_map_err CoStore (tx_put_internal D key primary_key))"

definition tx_upsert_record ::
  "deps \<Rightarrow> bytes \<Rightarrow> bytes \<Rightarrow> bytes \<Rightarrow> index_value list \<Rightarrow> (transaction, collection_error, unit) act" where
  "tx_upsert_record D collection primary_key value indexes =
     act_bind (\<lambda>t. (ensure_collection_tx t collection, t)) (\<lambda>_.
       if primary_key = [] then act_lift (Inl CoEmptyPrimaryKey)
       else act_bind (act_lift (record_key collection primary_key)) (\<lambda>rkey.
            act_bind (\<lambda>t. (transpose_map decode_record_value (tx_get_internal t rkey), t)) (\<lambda>existing.
            act_bind (act_for (\<lambda>index t. (check_index t collection primary_key index, t)) indexes) (\<lambda>_.
            act_bind (case existing of None \<Rightarrow> act_return ()
                      | Some old \<Rightarrow> act_for (delete_index_entry D collection primary_key) (sr_indexes old)) (\<lambda>_.
            act_bind (act_lift (encode_record_value value indexes)) (\<lambda>bs.
            act_bind (act_map_err CoStore (tx_put_internal D rkey bs)) (\<lambda>_.
              act_for (put_index_entry D collection primary_key) indexes)))))))"

definition upsert_record ::
  "deps \<Rightarrow> bytes \<Rightarrow> bytes \<Rightarrow> bytes \<Rightarrow> index_value list \<Rightarrow> (store, collection_error, unit) act" where
  "upsert_record D collection primary_key value indexes = run_tx D True CoStore (tx_upsert_record D collection primary_key value indexes)"

definition tx_delete_record :: "deps \<Rightarrow> bytes \<Rightarrow> bytes \<Rightarrow> (transaction, collection_error, bool) act" where
  "tx_delete_record D collection primary_key =
     act_bind (act_lift (record_key collection primary_key)) (\<lambda>key.
     act_bind (\<lambda>t. (transpose_map decode_record_value (tx_get_internal t key), t)) (\<lambda>existing.
       case existing of
         None \<Rightarrow> act_return False
       | Some old \<Rightarrow>
           act_bind (act_map_err CoStore (tx_delete_internal D key)) (\<lambda>_.
           act_bind (act_for (delete_index_entry D collection primary_key) (sr_indexes old)) (\<lambda>_. act_return True))))"

definition delete_record :: "deps \<Rightarrow> bytes \<Rightarrow> bytes \<Rightarrow> (store, collection_error, bool) act" where
  "delete_record D collection primary_key = run_tx D True CoStore (tx_delete_record D collection primary_key)"

definition record_of :: "bytes \<Rightarrow> stored_record \<Rightarrow> collection_record" where
  "record_of primary_key r = \<lparr>cr_primary_key = primary_key, cr_value = sr_value r, cr_indexes = sr_indexes r\<rparr>"

definition get_record :: "store \<Rightarrow> bytes \<Rightarrow> bytes \<Rightarrow> collection_error + collection_record option" where
  "get_record s collection primary_key =
     res_bind (record_key collection primary_key) (\<lambda>key.
       transpose_map (\<lambda>encoded. res_bind (decode_record_value encoded) (\<lambda>r. Inr (record_of primary_key r))) (store_get s key))"

definition scan_collection :: "store \<Rightarrow> bytes \<Rightarrow> collection_error + collection_record list" where
  "scan_collection s collection =
     res_bind (record_prefix collection) (\<lambda>pre.
       map_result (\<lambda>(key, encoded). res_bind (decode_record_primary_key pre key) (\<lambda>primary_key.
         res_bind (decode_record_value encoded) (\<lambda>r. Inr (record_of primary_key r)))) (scan_prefix s pre))"

definition query_index_exact :: "store \<Rightarrow> bytes \<Rightarrow> bytes \<Rightarrow> bytes \<Rightarrow> collection_error + collection_record list" where
  "query_index_exact s collection index value =
     res_bind (index_definition_of s collection index) (\<lambda>_.
     res_bind (index_value_prefix collection index value) (\<lambda>pre.
     res_bind (map_result (\<lambda>(_, primary_key). get_record s collection primary_key) (scan_prefix s pre)) (\<lambda>found.
       Inr (sort_key cr_primary_key (List.map_filter id found)))))"

section \<open>Range queries\<close>

datatype query_bound = Unbounded | Included bytes | Excluded bytes

datatype query_order = Ascending | Descending

record index_range_query =
  rq_start :: query_bound
  rq_end :: query_bound
  rq_order :: query_order
  rq_limit :: "usize option"

definition index_range_query_default :: index_range_query where
  "index_range_query_default = \<lparr>rq_start = Unbounded, rq_end = Unbounded, rq_order = Ascending, rq_limit = None\<rparr>"

definition query_between :: "bytes \<Rightarrow> bytes \<Rightarrow> index_range_query" where
  "query_between start stop = index_range_query_default\<lparr>rq_start := Included start, rq_end := Included stop\<rparr>"

definition with_order :: "query_order \<Rightarrow> index_range_query \<Rightarrow> index_range_query" where
  "with_order order q = q\<lparr>rq_order := order\<rparr>"

definition with_limit :: "usize \<Rightarrow> index_range_query \<Rightarrow> index_range_query" where
  "with_limit limit q = q\<lparr>rq_limit := Some limit\<rparr>"

record indexed_record =
  ir_index_value :: bytes
  ir_record :: collection_record

datatype query_error =
    QrCollection collection_error
  | QrEmptyName
  | QrIndexNotFound
  | QrComponentTooLarge
  | QrCorruptIndexMetadata
  | QrCorruptIndexEntry
  | QrDanglingIndexEntry

fun query_component_key :: "bytes \<Rightarrow> bytes list \<Rightarrow> query_error + bytes" where
  "query_component_key key [] = Inr key"
| "query_component_key key (c # cs) =
     res_bind (ok_or QrComponentTooLarge (u32_try_from_len (length c))) (\<lambda>len. query_component_key (key @ to_be len @ c) cs)"

definition validate_index_exists :: "store \<Rightarrow> bytes \<Rightarrow> bytes \<Rightarrow> query_error + unit" where
  "validate_index_exists s collection index =
     res_bind (query_component_key COL_INDEX_META_PREFIX [collection, index]) (\<lambda>key.
     res_bind (ok_or QrIndexNotFound (store_get s key)) (\<lambda>encoded.
       if length encoded \<noteq> 2 \<or> encoded ! 0 \<noteq> COL_FORMAT_VERSION \<or> encoded ! 1 > 1 then Inl QrCorruptIndexMetadata else Inr ()))"

definition within_bounds :: "bytes \<Rightarrow> query_bound \<Rightarrow> query_bound \<Rightarrow> bool" where
  "within_bounds value start stop \<longleftrightarrow>
     (case start of Unbounded \<Rightarrow> True | Included bound \<Rightarrow> bound \<le> value | Excluded bound \<Rightarrow> bound < value) \<and>
     (case stop of Unbounded \<Rightarrow> True | Included bound \<Rightarrow> value \<le> bound | Excluded bound \<Rightarrow> value < bound)"

definition read_component :: "(query_error, bytes) reader" where
  "read_component = rd_bind (rd_take QrCorruptIndexEntry 4) (\<lambda>len. rd_take QrCorruptIndexEntry (unat (from_be len :: u32)))"

definition decode_index_entry :: "bytes \<Rightarrow> bytes \<Rightarrow> query_error + bytes \<times> bytes" where
  "decode_index_entry pre key =
     (if \<not> prefix pre key then Inl QrCorruptIndexEntry
      else res_bind (rd_bind read_component (\<lambda>index_value. rd_bind read_component (\<lambda>primary_key.
               rd_return (index_value, primary_key))) (drop (length pre) key))
             (\<lambda>(entry, rest). if rest \<noteq> [] then Inl QrCorruptIndexEntry else Inr entry))"

definition range_matches :: "index_range_query \<Rightarrow> bytes \<Rightarrow> kv \<Rightarrow> query_error + (bytes \<times> bytes) list" where
  "range_matches q pre entries =
     res_bind (map_result (\<lambda>(key, owner). res_bind (decode_index_entry pre key) (\<lambda>(value, primary_key).
         if owner \<noteq> primary_key then Inl QrCorruptIndexEntry else Inr (value, primary_key))) entries)
       (\<lambda>decoded. Inr (filter (\<lambda>(value, _). within_bounds value (rq_start q) (rq_end q)) decoded))"

definition order_matches :: "index_range_query \<Rightarrow> (bytes \<times> bytes) list \<Rightarrow> (bytes \<times> bytes) list" where
  "order_matches q found =
     (let sorted_matches = sort found;
          ordered = (if rq_order q = Descending then rev sorted_matches else sorted_matches)
      in case rq_limit q of None \<Rightarrow> ordered | Some limit \<Rightarrow> take limit ordered)"

definition query_index_range :: "store \<Rightarrow> bytes \<Rightarrow> bytes \<Rightarrow> index_range_query \<Rightarrow> query_error + indexed_record list" where
  "query_index_range s collection index q =
     (if collection = [] \<or> index = [] then Inl QrEmptyName
      else res_bind (validate_index_exists s collection index) (\<lambda>_.
        if rq_limit q = Some 0 then Inr []
        else res_bind (query_component_key COL_INDEX_PREFIX [collection, index]) (\<lambda>pre.
             res_bind (range_matches q pre (scan_prefix s pre)) (\<lambda>found.
               map_result (\<lambda>(value, primary_key).
                 res_bind (map_err QrCollection (get_record s collection primary_key)) (\<lambda>r.
                 res_bind (ok_or QrDanglingIndexEntry r) (\<lambda>record.
                   Inr \<lparr>ir_index_value = value, ir_record = record\<rparr>)))
                 (order_matches q found)))))"

end
