(* ===== verification/Collections.thy ===== *)
theory Collections
  imports Collection_Model Ordered_View
begin

text \<open>
  What the collections promise: the records and the entries of every index describe the same
  state, unique indexes stay unique, and queries return exactly the records they describe. The
  stored keys represent a map of index definitions and a map of records (\<open>col_rep\<close>), and the
  operations, stand-alone and staged, are simulated by updates of these maps.
\<close>

section \<open>Keys\<close>

definition framed :: "bytes \<Rightarrow> bytes" where
  "framed c = to_be (of_nat (length c) :: u32) @ c"

definition fits :: "bytes \<Rightarrow> bool" where
  "fits c \<longleftrightarrow> length c < 2 ^ 32"

lemma component_key_Inr:
  "component_key p cs = Inr k \<longleftrightarrow> list_all fits cs \<and> k = p @ concat (map framed cs)"
  by (induction p cs rule: component_key.induct) (auto simp: res_bind_Inr_iff ok_or_Inr_iff u32_try_from_len_def framed_def fits_def)

lemma query_component_key_Inr:
  "query_component_key p cs = Inr k \<longleftrightarrow> list_all fits cs \<and> k = p @ concat (map framed cs)"
  by (induction p cs rule: query_component_key.induct) (auto simp: res_bind_Inr_iff ok_or_Inr_iff u32_try_from_len_def framed_def fits_def)

declare component_key.simps [simp del] and query_component_key.simps [simp del]

lemma framed_eq_iff:
  assumes "fits c" and "fits d"
  shows "framed c @ x = framed d @ y \<longleftrightarrow> c = d \<and> x = y"
proof
  assume e: "framed c @ x = framed d @ y"
  then have "to_be (of_nat (length c) :: u32) = to_be (of_nat (length d) :: u32)" by (simp add: framed_def append_eq_append_conv)
  then have "unat (of_nat (length c) :: u32) = unat (of_nat (length d) :: u32)" by simp
  then have "length c = length d" using assms by (simp add: fits_def unat_of_nat)
  then show "c = d \<and> x = y" using e by (simp add: framed_def append_eq_append_conv)
qed simp

lemma framed_prefix_iff:
  assumes "fits c" and "fits d"
  shows "prefix (framed c @ x) (framed d @ y) \<longleftrightarrow> c = d \<and> prefix x y"
  unfolding prefix_def using framed_eq_iff [OF assms(2,1)] by (auto simp: append_assoc)

lemma framed_single_iff: "fits c \<Longrightarrow> fits d \<Longrightarrow> framed c = framed d \<longleftrightarrow> c = d"
  using framed_eq_iff [of c d "[]" "[]"] by simp

lemma framed_prefix_single: "fits c \<Longrightarrow> fits d \<Longrightarrow> prefix (framed c) (framed d @ y) \<longleftrightarrow> c = d"
  using framed_prefix_iff [of c d "[]" y] by simp

lemmas col_keys = meta_key_def migration_prefix_def migration_key_def record_prefix_def record_key_def index_meta_key_def
  index_value_prefix_def index_entry_key_def

lemmas framed_iffs = framed_eq_iff framed_prefix_iff framed_single_iff framed_prefix_single

lemma record_key_Inr: "record_key c pk = Inr k \<longleftrightarrow> fits c \<and> fits pk \<and> k = COL_RECORD_PREFIX @ framed c @ framed pk"
  by (auto simp: col_keys component_key_Inr)

lemma index_meta_key_Inr: "index_meta_key c i = Inr k \<longleftrightarrow> fits c \<and> fits i \<and> k = COL_INDEX_META_PREFIX @ framed c @ framed i"
  by (auto simp: col_keys component_key_Inr)

lemma index_entry_key_Inr:
  "index_entry_key c i x pk = Inr k \<longleftrightarrow> fits c \<and> fits i \<and> fits x \<and> fits pk \<and> k = COL_INDEX_PREFIX @ framed c @ framed i @ framed x @ framed pk"
  by (auto simp: col_keys component_key_Inr)

lemma index_value_prefix_Inr:
  "index_value_prefix c i x = Inr p \<longleftrightarrow> fits c \<and> fits i \<and> fits x \<and> p = COL_INDEX_PREFIX @ framed c @ framed i @ framed x"
  by (auto simp: col_keys component_key_Inr)

lemma record_prefix_Inr: "record_prefix c = Inr p \<longleftrightarrow> fits c \<and> p = COL_RECORD_PREFIX @ framed c"
  by (auto simp: col_keys component_key_Inr)

lemma meta_key_Inr: "meta_key c = Inr k \<longleftrightarrow> fits c \<and> k = COL_META_PREFIX @ framed c"
  by (auto simp: col_keys component_key_Inr)

lemmas key_Inr = record_key_Inr index_meta_key_Inr index_entry_key_Inr index_value_prefix_Inr record_prefix_Inr meta_key_Inr

lemma col_key_inj:
  "record_key c pk = Inr k \<Longrightarrow> record_key c' pk' = Inr k \<Longrightarrow> c' = c \<and> pk' = pk"
  "index_meta_key c i = Inr k \<Longrightarrow> index_meta_key c' i' = Inr k \<Longrightarrow> c' = c \<and> i' = i"
  "index_entry_key c i x pk = Inr k \<Longrightarrow> index_entry_key c' i' x' pk' = Inr k \<Longrightarrow> c' = c \<and> i' = i \<and> x' = x \<and> pk' = pk"
  "index_value_prefix c i x = Inr p \<Longrightarrow> index_entry_key c' i' x' pk = Inr k \<Longrightarrow> prefix p k \<longleftrightarrow> c' = c \<and> i' = i \<and> x' = x"
  "record_prefix c = Inr p \<Longrightarrow> record_key c' pk = Inr k \<Longrightarrow> prefix p k \<longleftrightarrow> c' = c"
  by (auto simp: key_Inr framed_iffs)

text \<open>The five key spaces are apart from each other and from the change feed.\<close>

lemma col_spaces:
  "prefix COL_RECORD_PREFIX k \<Longrightarrow> \<not> prefix COL_INDEX_PREFIX k \<and> \<not> prefix COL_INDEX_META_PREFIX k \<and> \<not> prefix COL_META_PREFIX k \<and> \<not> prefix COL_MIGRATION_PREFIX k \<and> not_cdc k"
  "prefix COL_INDEX_PREFIX k \<Longrightarrow> \<not> prefix COL_INDEX_META_PREFIX k \<and> \<not> prefix COL_META_PREFIX k \<and> \<not> prefix COL_MIGRATION_PREFIX k \<and> not_cdc k"
  "prefix COL_INDEX_META_PREFIX k \<Longrightarrow> \<not> prefix COL_META_PREFIX k \<and> \<not> prefix COL_MIGRATION_PREFIX k \<and> not_cdc k"
  "prefix COL_META_PREFIX k \<Longrightarrow> \<not> prefix COL_MIGRATION_PREFIX k \<and> not_cdc k"
  "prefix COL_MIGRATION_PREFIX k \<Longrightarrow> not_cdc k"
proof -
  note P = COL_RECORD_PREFIX_def COL_INDEX_PREFIX_def COL_INDEX_META_PREFIX_def COL_META_PREFIX_def COL_MIGRATION_PREFIX_def CDC_PREFIX_def ascii_def
  show "prefix COL_RECORD_PREFIX k \<Longrightarrow> \<not> prefix COL_INDEX_PREFIX k \<and> \<not> prefix COL_INDEX_META_PREFIX k \<and> \<not> prefix COL_META_PREFIX k \<and> \<not> prefix COL_MIGRATION_PREFIX k \<and> not_cdc k"
    by (intro conjI; rule other_space [of COL_RECORD_PREFIX]; simp add: P)
  show "prefix COL_INDEX_PREFIX k \<Longrightarrow> \<not> prefix COL_INDEX_META_PREFIX k \<and> \<not> prefix COL_META_PREFIX k \<and> \<not> prefix COL_MIGRATION_PREFIX k \<and> not_cdc k"
    by (intro conjI; rule other_space [of COL_INDEX_PREFIX]; simp add: P)
  show "prefix COL_INDEX_META_PREFIX k \<Longrightarrow> \<not> prefix COL_META_PREFIX k \<and> \<not> prefix COL_MIGRATION_PREFIX k \<and> not_cdc k"
    by (intro conjI; rule other_space [of COL_INDEX_META_PREFIX]; simp add: P)
  show "prefix COL_META_PREFIX k \<Longrightarrow> \<not> prefix COL_MIGRATION_PREFIX k \<and> not_cdc k"
    by (intro conjI; rule other_space [of COL_META_PREFIX]; simp add: P)
  show "prefix COL_MIGRATION_PREFIX k \<Longrightarrow> not_cdc k" by (rule other_space [of COL_MIGRATION_PREFIX]; simp add: P)
qed

lemma col_key_space:
  "record_key c pk = Inr k \<Longrightarrow> prefix COL_RECORD_PREFIX k" "index_meta_key c i = Inr k \<Longrightarrow> prefix COL_INDEX_META_PREFIX k"
  "index_entry_key c i x pk = Inr k \<Longrightarrow> prefix COL_INDEX_PREFIX k" "meta_key c = Inr k \<Longrightarrow> prefix COL_META_PREFIX k"
  by (auto simp: key_Inr)

section \<open>Formats\<close>

lemma u16_try_from_len_Some: "u16_try_from_len n = Some l \<Longrightarrow> unat l = n"
  by (auto simp: u16_try_from_len_def unat_of_nat split: if_splits)

lemma rd_u16_append [codec_simps]: "rd_u16 e (to_le w @ rest) = Inr (w, rest)"
  by (simp add: rd_u16_def rd_bind_def rd_take_append)

lemma index_values_append:
  "encode_index_values ivs = Inr bs \<Longrightarrow> decode_index_values (length ivs) (bs @ rest) = Inr (ivs, rest)"
proof (induction ivs arbitrary: bs)
  case (Cons iv ivs)
  from Cons.prems obtain nl vl tail where l: "u16_try_from_len (length (iv_index iv)) = Some nl" "u32_try_from_len (length (iv_value iv)) = Some vl"
    "encode_index_values ivs = Inr tail" "bs = to_le nl @ iv_index iv @ to_le vl @ iv_value iv @ tail"
    by (auto simp: res_bind_Inr_iff ok_or_Inr_iff)
  show ?case unfolding l(4)
    by (simp add: codec_simps u16_try_from_len_Some [OF l(1)] u32_try_from_len_Some(1) [OF l(2)] Cons.IH [OF l(3)] rd_return_def)
qed (simp add: rd_return_def)

lemma decode_record_encode:
  assumes "encode_record_value value ivs = Inr bs"
  shows "decode_record_value bs = Inr \<lparr>sr_value = value, sr_indexes = ivs\<rparr>"
proof -
  from assms obtain vl n tail where e: "u32_try_from_len (length value) = Some vl" "u16_try_from_len (length ivs) = Some n" "encode_index_values ivs = Inr tail"
    and bs: "bs = COL_FORMAT_VERSION # to_le vl @ to_le n @ value @ tail"
    by (auto simp: encode_record_value_def res_bind_Inr_iff ok_or_Inr_iff)
  have s: "slice 1 5 bs = to_le vl" "slice 5 7 bs = to_le n" by (simp_all add: bs slice_def)
  have "bs = (COL_FORMAT_VERSION # to_le vl @ to_le n @ value) @ tail" "length (COL_FORMAT_VERSION # to_le vl @ to_le n @ value) = 7 + length value"
    by (simp_all add: bs)
  then have d: "drop (7 + length value) bs = tail" by (metis append_eq_conv_conj)
  have d': "slice 7 (7 + length value) bs = value" by (simp add: bs slice_def)
  have "decode_index_values (length ivs) tail = Inr (ivs, [])" using index_values_append [OF e(3), of "[]"] by simp
  then show ?thesis unfolding decode_record_value_def Let_def s
    using u32_try_from_len_Some(1) [OF e(1)] u16_try_from_len_Some [OF e(2)] d d' by (simp add: bs)
qed

lemma decode_definition_encode:
  assumes "encode_collection_definition d = Inr bs"
  shows "decode_collection_definition bs = Inr d"
proof -
  from assms obtain n where n: "u32_try_from_len (length (cd_codec d)) = Some n" and bs: "bs = COL_FORMAT_VERSION # to_le (cd_schema_version d) @ to_le n @ cd_codec d"
    by (auto simp: encode_collection_definition_def res_bind_Inr_iff ok_or_Inr_iff)
  have "slice 1 5 bs = to_le (cd_schema_version d)" "slice 5 9 bs = to_le n" by (simp_all add: bs slice_def)
  then show ?thesis unfolding decode_collection_definition_def Let_def using u32_try_from_len_Some(1) [OF n] by (simp add: bs)
qed

lemma decode_migration_encode:
  assumes "cm_from_version m < cm_to_version m" and "encode_collection_migration m = Inr bs"
  shows "decode_collection_migration bs = Inr m"
proof -
  from assms(2) obtain n where n: "u32_try_from_len (length (cm_codec m)) = Some n"
    and bs: "bs = COL_FORMAT_VERSION # to_le (cm_from_version m) @ to_le (cm_to_version m) @ to_le n @ cm_codec m"
    by (auto simp: encode_collection_migration_def res_bind_Inr_iff ok_or_Inr_iff)
  have "slice 1 5 bs = to_le (cm_from_version m)" "slice 5 9 bs = to_le (cm_to_version m)" "slice 9 13 bs = to_le n" by (simp_all add: bs slice_def)
  then show ?thesis unfolding decode_collection_migration_def Let_def using u32_try_from_len_Some(1) [OF n] assms(1) by (simp add: bs)
qed

interpretation collection_codec: codec encode_collection_definition decode_collection_definition "\<lambda>_. True"
  by unfold_locales (rule decode_definition_encode)

interpretation migration_codec: codec encode_collection_migration decode_collection_migration "\<lambda>m. cm_from_version m < cm_to_version m"
  by unfold_locales (rule decode_migration_encode)

interpretation record_codec: codec "\<lambda>r. encode_record_value (sr_value r) (sr_indexes r)" decode_record_value "\<lambda>_. True"
  by unfold_locales (simp add: decode_record_encode)

section \<open>Representation\<close>

type_synonym index_map = "bytes \<times> bytes \<Rightarrow> bool option"
type_synonym record_map = "bytes \<times> bytes \<Rightarrow> stored_record option"

text \<open>\<open>indexed r i x\<close>: the record is indexed under \<open>i\<close> by \<open>x\<close>.\<close>

definition indexed :: "stored_record \<Rightarrow> bytes \<Rightarrow> bytes \<Rightarrow> bool" where
  "indexed r i x \<longleftrightarrow> \<lparr>iv_index = i, iv_value = x\<rparr> \<in> set (sr_indexes r)"

definition col_rep :: "(bytes \<Rightarrow> bytes option) \<Rightarrow> index_map \<Rightarrow> record_map \<Rightarrow> bool" where
  "col_rep g I R \<longleftrightarrow>
     (\<forall>k v. prefix COL_RECORD_PREFIX k \<longrightarrow> g k = Some v \<longrightarrow> (\<exists>c pk. record_key c pk = Inr k)) \<and>
     (\<forall>c pk k. record_key c pk = Inr k \<longrightarrow> transpose_map decode_record_value (g k) = Inr (R (c, pk))) \<and>
     (\<forall>c pk. R (c, pk) \<noteq> None \<longrightarrow> fits c \<and> fits pk) \<and>
     (\<forall>c i k. index_meta_key c i = Inr k \<longrightarrow> g k = map_option (\<lambda>u. [COL_FORMAT_VERSION, if u then 1 else 0]) (I (c, i))) \<and>
     (\<forall>c i. I (c, i) \<noteq> None \<longrightarrow> fits c \<and> fits i) \<and>
     (\<forall>k v. prefix COL_INDEX_PREFIX k \<longrightarrow> g k = Some v \<longrightarrow> (\<exists>c i x. index_entry_key c i x v = Inr k)) \<and>
     (\<forall>c i x pk k. index_entry_key c i x pk = Inr k \<longrightarrow>
        (g k \<noteq> None \<longleftrightarrow> (\<exists>r. R (c, pk) = Some r \<and> indexed r i x))) \<and>
     (\<forall>c pk r i x. R (c, pk) = Some r \<longrightarrow> indexed r i x \<longrightarrow> fits x)"

definition col_space :: "bytes \<Rightarrow> bool" where
  "col_space k \<longleftrightarrow> prefix COL_RECORD_PREFIX k \<or> prefix COL_INDEX_PREFIX k \<or> prefix COL_INDEX_META_PREFIX k"

lemma col_space_not_cdc: "col_space k \<Longrightarrow> not_cdc k"
  unfolding col_space_def using col_spaces by blast

lemma col_rep_cong:
  assumes "col_rep g I R" and "\<And>k. col_space k \<Longrightarrow> g' k = g k"
  shows "col_rep g' I R"
proof -
  have e: "prefix COL_RECORD_PREFIX k \<Longrightarrow> g' k = g k" "prefix COL_INDEX_PREFIX k \<Longrightarrow> g' k = g k" "prefix COL_INDEX_META_PREFIX k \<Longrightarrow> g' k = g k" for k
    using assms(2) by (simp_all add: col_space_def)
  have e': "record_key c pk = Inr k \<Longrightarrow> g' k = g k" "index_meta_key c i = Inr k \<Longrightarrow> g' k = g k" "index_entry_key c i x pk = Inr k \<Longrightarrow> g' k = g k" for c pk i x k
    using e col_key_space by blast+
  show ?thesis using assms(1) e e' unfolding col_rep_def by (simp cong: imp_cong)
qed

text \<open>What the maps satisfy: records use defined indexes, and a unique index has one owner per value.\<close>

definition col_ok :: "index_map \<Rightarrow> record_map \<Rightarrow> bool" where
  "col_ok I R \<longleftrightarrow>
     (\<forall>c pk r i x. R (c, pk) = Some r \<longrightarrow> indexed r i x \<longrightarrow> I (c, i) \<noteq> None) \<and>
     (\<forall>c i x pk pk' r r'. I (c, i) = Some True \<longrightarrow> R (c, pk) = Some r \<longrightarrow> R (c, pk') = Some r' \<longrightarrow>
        indexed r i x \<longrightarrow> indexed r' i x \<longrightarrow> pk = pk') \<and>
     (\<forall>c pk. R (c, pk) \<noteq> None \<longrightarrow> pk \<noteq> [])"

lemma col_okD:
  assumes "col_ok I R"
  shows "R (c, pk) = Some r \<Longrightarrow> indexed r i x \<Longrightarrow> \<exists>u. I (c, i) = Some u"
    and "I (c, i) = Some True \<Longrightarrow> R (c, pk) = Some r \<Longrightarrow> R (c, pk') = Some r' \<Longrightarrow> indexed r i x \<Longrightarrow> indexed r' i x \<Longrightarrow> pk = pk'"
    and "R (c, pk) = Some r \<Longrightarrow> pk \<noteq> []"
  using assms unfolding col_ok_def by (blast, blast, blast)

lemma col_repD:
  assumes "col_rep g I R"
  shows "record_key c pk = Inr k \<Longrightarrow> transpose_map decode_record_value (g k) = Inr (R (c, pk))"
    and "index_meta_key c i = Inr k \<Longrightarrow> g k = map_option (\<lambda>u. [COL_FORMAT_VERSION, if u then 1 else 0]) (I (c, i))"
    and "index_entry_key c i x pk = Inr k \<Longrightarrow> g k = (if \<exists>r. R (c, pk) = Some r \<and> indexed r i x then Some pk else None)"
    and "prefix COL_INDEX_PREFIX k \<Longrightarrow> g k = Some v \<Longrightarrow> \<exists>c i x. index_entry_key c i x v = Inr k"
    and "prefix COL_RECORD_PREFIX k \<Longrightarrow> g k = Some v \<Longrightarrow> \<exists>c pk. record_key c pk = Inr k"
proof -
  show "record_key c pk = Inr k \<Longrightarrow> transpose_map decode_record_value (g k) = Inr (R (c, pk))"
    "index_meta_key c i = Inr k \<Longrightarrow> g k = map_option (\<lambda>u. [COL_FORMAT_VERSION, if u then 1 else 0]) (I (c, i))"
    using assms by (simp_all add: col_rep_def)
  show o: "prefix COL_INDEX_PREFIX k \<Longrightarrow> g k = Some v \<Longrightarrow> \<exists>c i x. index_entry_key c i x v = Inr k" for k v using assms unfolding col_rep_def by blast
  show "prefix COL_RECORD_PREFIX k \<Longrightarrow> g k = Some v \<Longrightarrow> \<exists>c pk. record_key c pk = Inr k" using assms by (simp add: col_rep_def)
  assume k: "index_entry_key c i x pk = Inr k"
  have iff: "g k \<noteq> None \<longleftrightarrow> (\<exists>r. R (c, pk) = Some r \<and> indexed r i x)" using assms k unfolding col_rep_def by blast
  show "g k = (if \<exists>r. R (c, pk) = Some r \<and> indexed r i x then Some pk else None)"
  proof (cases "g k")
    case (Some v)
    obtain c' i' x' where "index_entry_key c' i' x' v = Inr k" using o [OF col_key_space(3) [OF k] Some] by blast
    then have "v = pk" using col_key_inj(3) [OF k] by blast
    then show ?thesis using Some iff by auto
  qed (use iff in auto)
qed

lemma col_rep_fits:
  assumes "col_rep g I R"
  shows "R (c, pk) \<noteq> None \<Longrightarrow> fits c \<and> fits pk" and "I (c, i) \<noteq> None \<Longrightarrow> fits c \<and> fits i" and "R (c, pk) = Some r \<Longrightarrow> indexed r i x \<Longrightarrow> fits x"
  using assms by (auto simp: col_rep_def)


section \<open>Writing a record\<close>

definition entry_keys :: "bytes \<Rightarrow> bytes \<Rightarrow> index_value list \<Rightarrow> bytes set" where
  "entry_keys c pk ivs = {k. \<exists>iv \<in> set ivs. index_entry_key c (iv_index iv) (iv_value iv) pk = Inr k}"

lemma entry_keys_space: "k \<in> entry_keys c pk ivs \<Longrightarrow> prefix COL_INDEX_PREFIX k"
  by (auto simp: entry_keys_def dest: col_key_space)

lemma entry_keys_iff:
  assumes "index_entry_key c' i x pk' = Inr k"
  shows "k \<in> entry_keys c pk ivs \<longleftrightarrow> c' = c \<and> pk' = pk \<and> \<lparr>iv_index = i, iv_value = x\<rparr> \<in> set ivs"
proof
  assume "k \<in> entry_keys c pk ivs"
  then obtain iv where iv: "iv \<in> set ivs" "index_entry_key c (iv_index iv) (iv_value iv) pk = Inr k" by (auto simp: entry_keys_def)
  from col_key_inj(3) [OF assms iv(2)] iv(1) show "c' = c \<and> pk' = pk \<and> \<lparr>iv_index = i, iv_value = x\<rparr> \<in> set ivs" by (cases iv) auto
qed (use assms in \<open>force simp: entry_keys_def\<close>)

abbreviation index_list :: "stored_record option \<Rightarrow> index_value list" where
  "index_list r \<equiv> (case r of None \<Rightarrow> [] | Some r \<Rightarrow> sr_indexes r)"

text \<open>One record replaced, or removed, together with its index entries.\<close>

lemma col_rep_replace:
  assumes rep: "col_rep g I R" and rk: "record_key c pk = Inr rk" and new: "transpose_map decode_record_value bs = Inr r"
    and keys: "\<And>iv. iv \<in> set (index_list r) \<Longrightarrow> \<exists>k. index_entry_key c (iv_index iv) (iv_value iv) pk = Inr k"
    and g': "\<And>k. col_space k \<Longrightarrow> g' k = (if k \<in> entry_keys c pk (index_list r) then Some pk else if k = rk then bs
      else if k \<in> entry_keys c pk (index_list (R (c, pk))) then None else g k)"
  shows "col_rep g' I (R((c, pk) := r))"
proof -
  let ?R = "R((c, pk) := r)"
  note rsp = col_key_space(1) [OF rk]
  have gr: "g' k = (if k = rk then bs else g k)" if "prefix COL_RECORD_PREFIX k" for k
    using g' [of k] that col_spaces(1) [OF that] entry_keys_space by (auto simp: col_space_def)
  have gm: "g' k = g k" if "prefix COL_INDEX_META_PREFIX k" for k
    using g' [of k] that col_spaces(1,2) [of k] rsp entry_keys_space [of k] by (auto simp: col_space_def)
  have gi: "g' k = (if k \<in> entry_keys c pk (index_list r) then Some pk else if k \<in> entry_keys c pk (index_list (R (c, pk))) then None else g k)"
    if "prefix COL_INDEX_PREFIX k" for k using g' [of k] that col_spaces(1) [of k] rsp by (auto simp: col_space_def)
  have rec: "transpose_map decode_record_value (g' k) = Inr (?R (c', pk'))" if "record_key c' pk' = Inr k" for c' pk' k
  proof (cases "k = rk")
    case True
    then have "c' = c \<and> pk' = pk" using col_key_inj(1) rk that by blast
    then show ?thesis using gr [OF rsp] True new by simp
  next
    case False
    then have "(c', pk') \<noteq> (c, pk)" using rk that by auto
    then show ?thesis using gr [OF col_key_space(1) [OF that]] False col_repD(1) [OF rep that] by auto
  qed
  have ent: "g' k \<noteq> None \<longleftrightarrow> (\<exists>r. ?R (c', pk') = Some r \<and> indexed r i x)" if k: "index_entry_key c' i x pk' = Inr k" for c' i x pk' k
  proof (cases "c' = c \<and> pk' = pk")
    case True
    have "g k \<noteq> None \<longrightarrow> k \<in> entry_keys c pk (index_list (R (c, pk)))"
      using col_repD(3) [OF rep k] entry_keys_iff [OF k] True by (auto simp: indexed_def split: if_splits)
    then show ?thesis using gi [OF col_key_space(3) [OF k]] entry_keys_iff [OF k, of c pk "index_list r"] True
      by (cases r) (auto simp: indexed_def)
  next
    case False
    then have "g' k = g k" using gi [OF col_key_space(3) [OF k]] entry_keys_iff [OF k] by auto
    then show ?thesis using col_repD(3) [OF rep k] False by auto
  qed
  have own: "\<exists>c i x. index_entry_key c i x v = Inr k" if "prefix COL_INDEX_PREFIX k" "g' k = Some v" for k v
    using gi [OF that(1)] that(2) col_repD(4) [OF rep that(1), of v] by (auto simp: entry_keys_def split: if_splits)
  have form: "\<exists>c pk. record_key c pk = Inr k" if "prefix COL_RECORD_PREFIX k" "g' k = Some v" for k v
    using gr [OF that(1)] that(2) rk col_repD(5) [OF rep that(1), of v] by (auto split: if_splits)
  have "?R (c', pk') \<noteq> None \<Longrightarrow> fits c' \<and> fits pk'" for c' pk' using col_rep_fits(1) [OF rep, of c' pk'] rk by (auto simp: key_Inr split: if_splits)
  moreover have "?R (c', pk') = Some r' \<Longrightarrow> indexed r' i x \<Longrightarrow> fits x" for c' pk' r' i x
    using col_rep_fits(3) [OF rep, of c' pk' r' i x] keys by (force simp: indexed_def key_Inr split: if_splits)
  moreover have "index_meta_key c' i = Inr k \<Longrightarrow> g' k = map_option (\<lambda>u. [COL_FORMAT_VERSION, if u then 1 else 0]) (I (c', i))" for c' i k
    using gm [OF col_key_space(2)] col_repD(2) [OF rep] by simp
  ultimately show ?thesis using form rec ent own col_rep_fits(2) [OF rep] unfolding col_rep_def by blast
qed

text \<open>The loops over the index values of a record.\<close>

lemma index_entry_Inr:
  "delete_index_entry D c pk iv t = (Inr (), t') \<longleftrightarrow> (\<exists>q. index_entry_key c (iv_index iv) (iv_value iv) pk = Inr q \<and> tx_delete_internal D q t = (Inr (), t'))"
  "put_index_entry D c pk iv t = (Inr (), t') \<longleftrightarrow> (\<exists>q. index_entry_key c (iv_index iv) (iv_value iv) pk = Inr q \<and> tx_put_internal D q pk t = (Inr (), t'))"
  by (auto simp: act_bind_Inr_iff delete_index_entry_def put_index_entry_def act_map_err_iff simp del: act_bind_lift)

lemma delete_entries_view:
  "act_for (delete_index_entry D c pk) ivs t = (Inr (), t') \<Longrightarrow>
     tx_get_internal t' k = (if k \<in> entry_keys c pk ivs then None else tx_get_internal t k)"
proof (induction ivs arbitrary: t)
  case (Cons iv ivs)
  from Cons.prems obtain q t1 where q: "index_entry_key c (iv_index iv) (iv_value iv) pk = Inr q" "tx_delete_internal D q t = (Inr (), t1)"
    "act_for (delete_index_entry D c pk) ivs t1 = (Inr (), t')"
    by (auto simp: act_bind_Inr_iff index_entry_Inr)
  then show ?case using Cons.IH [OF q(3)] tx_kv.del_get [OF q(2), of k] by (auto simp: entry_keys_def)
qed (simp add: entry_keys_def)

lemma put_entries_view:
  "act_for (put_index_entry D c pk) ivs t = (Inr (), t') \<Longrightarrow>
     tx_get_internal t' k = (if k \<in> entry_keys c pk ivs then Some pk else tx_get_internal t k) \<and>
     (\<forall>iv \<in> set ivs. \<exists>k. index_entry_key c (iv_index iv) (iv_value iv) pk = Inr k)"
proof (induction ivs arbitrary: t)
  case (Cons iv ivs)
  from Cons.prems obtain q t1 where q: "index_entry_key c (iv_index iv) (iv_value iv) pk = Inr q" "tx_put_internal D q pk t = (Inr (), t1)"
    "act_for (put_index_entry D c pk) ivs t1 = (Inr (), t')"
    by (auto simp: act_bind_Inr_iff index_entry_Inr)
  then show ?case using Cons.IH [OF q(3)] tx_kv.put_get [OF q(2), of k] by (auto simp: entry_keys_def)
qed (simp add: entry_keys_def)

lemma check_loop:
  "act_for (\<lambda>iv t. (check_index t c pk iv, t)) ivs t = (Inr (), t') \<longleftrightarrow> t' = t \<and> (\<forall>iv \<in> set ivs. check_index t c pk iv = Inr ())"
  by (induction ivs) (auto simp: act_bind_Inr_iff)

lemma check_index_rep:
  assumes rep: "col_rep (tx_get_internal t) I R" and wf: "store_wf (tx_store t)" and c: "check_index t c pk iv = Inr ()"
  shows "\<exists>u. I (c, iv_index iv) = Some u \<and> (u \<longrightarrow> (\<forall>pk' r. R (c, pk') = Some r \<longrightarrow> indexed r (iv_index iv) (iv_value iv) \<longrightarrow> pk' = pk))"
proof -
  from c obtain key e d where k: "index_meta_key c (iv_index iv) = Inr key" "tx_get_internal t key = Some e" "decode_index_definition (iv_index iv) e = Inr d"
    and uq: "id_unique d \<longrightarrow> (\<exists>pre. index_value_prefix c (iv_index iv) (iv_value iv) = Inr pre \<and>
      (\<forall>e \<in> set (tx_scan_prefix_internal t pre). snd e = pk))"
    by (auto simp: check_index_def index_definition_tx_def res_bind_Inr_iff ok_or_Inr_iff list_ex_iff case_prod_unfold split: if_splits)
  obtain u where u: "I (c, iv_index iv) = Some u" "e = [COL_FORMAT_VERSION, if u then 1 else 0]" using col_repD(2) [OF rep k(1)] k(2) by (cases "I (c, iv_index iv)") auto
  have d: "id_unique d = u" using k(3) by (auto simp: u(2) decode_index_definition_def split: if_splits)
  have "pk' = pk" if u: "u" and r: "R (c, pk') = Some r" "indexed r (iv_index iv) (iv_value iv)" for pk' r
  proof -
    obtain pre where pre: "index_value_prefix c (iv_index iv) (iv_value iv) = Inr pre" "\<forall>e \<in> set (tx_scan_prefix_internal t pre). snd e = pk"
      using uq d u by auto
    have "fits pk'" using col_rep_fits(1) [OF rep] r(1) by auto
    then obtain q where q: "index_entry_key c (iv_index iv) (iv_value iv) pk' = Inr q" using pre(1) by (auto simp: key_Inr)
    have "tx_get_internal t q = Some pk'" using col_repD(3) [OF rep q] r by auto
    moreover have "prefix pre q" using col_key_inj(4) [OF pre(1) q] by simp
    ultimately have "(q, pk') \<in> set (tx_scan_prefix_internal t pre)" using tx_scan_mem(1) [OF wf] by simp
    then show ?thesis using pre(2) by auto
  qed
  then show ?thesis using u by blast
qed


section \<open>Operations\<close>

definition tx_col :: "transaction \<Rightarrow> index_map \<Rightarrow> record_map \<Rightarrow> bool" where
  "tx_col t I R \<longleftrightarrow> col_rep (tx_get_internal t) I R \<and> col_ok I R \<and> store_wf (tx_store t)"

definition store_col :: "store \<Rightarrow> index_map \<Rightarrow> record_map \<Rightarrow> bool" where
  "store_col s I R \<longleftrightarrow> col_rep (store_get s) I R \<and> col_ok I R \<and> store_wf s"

lemma staging_collections [staging_intros]:
  "staging (delete_index_entry D c pk iv)" "staging (put_index_entry D c pk iv)"
  "staging (tx_upsert_record D c pk value ivs)" "staging (tx_delete_record D c pk)"
proof -
  show d: "staging (delete_index_entry D c pk iv)" for iv unfolding delete_index_entry_def by (intro staging_intros)
  show p: "staging (put_index_entry D c pk iv)" for iv unfolding put_index_entry_def by (intro staging_intros)
  have o: "staging (case x of None \<Rightarrow> act_return () | Some old \<Rightarrow> act_for (delete_index_entry D c pk) (sr_indexes old))" for x
    by (cases x) (simp_all add: staging_return staging_for d)
  show "staging (tx_upsert_record D c pk value ivs)" unfolding tx_upsert_record_def by (intro staging_intros d p o)
  have o': "staging (case x of None \<Rightarrow> act_return False | Some old \<Rightarrow> act_bind (act_map_err CoStore (tx_delete_internal D key)) (\<lambda>_.
      act_bind (act_for (delete_index_entry D c pk) (sr_indexes old)) (\<lambda>_. act_return True)))" for x key
    by (cases x) (auto intro!: staging_intros d)
  show "staging (tx_delete_record D c pk)" unfolding tx_delete_record_def by (intro staging_intros o')
qed

lemma tx_wf_ext: "staging a \<Longrightarrow> a t = (r, t') \<Longrightarrow> store_wf (tx_store t') = store_wf (tx_store t)"
  by (auto simp: store_wf_def dest!: stagingD tx_ext_state)

lemma col_ok_put:
  assumes ok: "col_ok I R" and "pk \<noteq> []"
    and ivs: "\<And>iv. iv \<in> set (sr_indexes r) \<Longrightarrow> \<exists>u. I (c, iv_index iv) = Some u \<and>
      (u \<longrightarrow> (\<forall>pk' r. R (c, pk') = Some r \<longrightarrow> indexed r (iv_index iv) (iv_value iv) \<longrightarrow> pk' = pk))"
  shows "col_ok I (R((c, pk) \<mapsto> r))"
proof -
  have n: "\<exists>u. I (c, i) = Some u \<and> (u \<longrightarrow> (\<forall>pk' r. R (c, pk') = Some r \<longrightarrow> indexed r i x \<longrightarrow> pk' = pk))" if "indexed r i x" for i x
    using ivs [of "\<lparr>iv_index = i, iv_value = x\<rparr>"] that by (simp add: indexed_def)
  show ?thesis unfolding col_ok_def
  proof (intro conjI allI impI)
    fix c' pk' r' i x
    assume "(R((c, pk) \<mapsto> r)) (c', pk') = Some r'" "indexed r' i x"
    then have "(c', pk') = (c, pk) \<and> r' = r \<or> R (c', pk') = Some r'" "indexed r' i x" by (auto split: if_splits)
    then show "I (c', i) \<noteq> None" using n [of i x] ok unfolding col_ok_def by fastforce
  next
    fix c' i x p p' q q'
    assume u: "I (c', i) = Some True" "(R((c, pk) \<mapsto> r)) (c', p) = Some q" "(R((c, pk) \<mapsto> r)) (c', p') = Some q'" "indexed q i x" "indexed q' i x"
    show "p = p'"
    proof (cases "(c', p) = (c, pk)"; cases "(c', p') = (c, pk)")
      assume "(c', p) \<noteq> (c, pk)" "(c', p') \<noteq> (c, pk)"
      then have "R (c', p) = Some q" "R (c', p') = Some q'" using u by auto
      then show ?thesis using ok u(1,4,5) unfolding col_ok_def by blast
    qed (use u n [of i x] in auto)
  next
    fix c' pk'
    assume "(R((c, pk) \<mapsto> r)) (c', pk') \<noteq> None"
    then show "pk' \<noteq> []" using col_okD(3) [OF ok, of c' pk'] assms(2) by (auto split: if_splits)
  qed
qed

lemma col_ok_remove: "col_ok I R \<Longrightarrow> col_ok I (R((c, pk) := None))"
  unfolding col_ok_def by (auto split: if_splits; blast)

theorem tx_upsert_step:
  assumes col: "tx_col t I R" and u: "tx_upsert_record D c pk value ivs t = (Inr (), t')"
  shows "tx_col t' I (R((c, pk) \<mapsto> \<lparr>sr_value = value, sr_indexes = ivs\<rparr>))"
proof -
  let ?r = "\<lparr>sr_value = value, sr_indexes = ivs\<rparr>"
  have rep: "col_rep (tx_get_internal t) I R" and ok: "col_ok I R" and wf: "store_wf (tx_store t)" using col by (simp_all add: tx_col_def)
  from u obtain rk old t1 bs t2 where pk: "pk \<noteq> []" and rk: "record_key c pk = Inr rk" "transpose_map decode_record_value (tx_get_internal t rk) = Inr old"
    and ch: "\<forall>iv \<in> set ivs. check_index t c pk iv = Inr ()"
    and del: "(case old of None \<Rightarrow> act_return () | Some o' \<Rightarrow> act_for (delete_index_entry D c pk) (sr_indexes o')) t = (Inr (), t1)"
    and bs: "encode_record_value value ivs = Inr bs" "tx_put_internal D rk bs t1 = (Inr (), t2)" "act_for (put_index_entry D c pk) ivs t2 = (Inr (), t')"
    by (auto simp: tx_upsert_record_def act_bind_Inr_iff act_map_err_iff check_loop simp del: act_bind_lift split: if_splits)
  have old: "old = R (c, pk)" using col_repD(1) [OF rep rk(1)] rk(2) by simp
  have d: "tx_get_internal t1 k = (if k \<in> entry_keys c pk (index_list (R (c, pk))) then None else tx_get_internal t k)" for k
    using del delete_entries_view [of D c pk "index_list (R (c, pk))" t t1 k] unfolding old by (cases "R (c, pk)") (auto simp: entry_keys_def)
  note P = put_entries_view [OF bs(3)]
  have g: "tx_get_internal t' k = (if k \<in> entry_keys c pk (index_list (Some ?r)) then Some pk else if k = rk then Some bs
      else if k \<in> entry_keys c pk (index_list (R (c, pk))) then None else tx_get_internal t k)" for k
    using P [of k] tx_kv.put_get [OF bs(2), of k] d [of k] by simp
  have "col_rep (tx_get_internal t') I (R((c, pk) := Some ?r))"
    by (rule col_rep_replace [OF rep rk(1) _ _ g]) (use P decode_record_encode [OF bs(1)] in auto)
  moreover have "col_ok I (R((c, pk) \<mapsto> ?r))" by (rule col_ok_put [OF ok pk]) (use check_index_rep [OF rep wf] ch in simp)
  ultimately show ?thesis using tx_wf_ext [OF staging_collections(3) u] wf by (simp add: tx_col_def)
qed

theorem tx_delete_step:
  assumes col: "tx_col t I R" and u: "tx_delete_record D c pk t = (Inr b, t')"
  shows "tx_col t' I (R((c, pk) := None))" and "b \<longleftrightarrow> R (c, pk) \<noteq> None"
proof -
  have rep: "col_rep (tx_get_internal t) I R" and ok: "col_ok I R" and wf: "store_wf (tx_store t)" using col by (simp_all add: tx_col_def)
  from u obtain rk old where rk: "record_key c pk = Inr rk" "transpose_map decode_record_value (tx_get_internal t rk) = Inr old"
    and b: "(case old of None \<Rightarrow> act_return False | Some o' \<Rightarrow> act_bind (act_map_err CoStore (tx_delete_internal D rk)) (\<lambda>_.
      act_bind (act_for (delete_index_entry D c pk) (sr_indexes o')) (\<lambda>_. act_return True))) t = (Inr b, t')"
    by (auto simp: tx_delete_record_def act_bind_Inr_iff simp del: act_bind_lift)
  have old: "old = R (c, pk)" using col_repD(1) [OF rep rk(1)] rk(2) by simp
  have "col_rep (tx_get_internal t') I (R((c, pk) := None)) \<and> (b \<longleftrightarrow> R (c, pk) \<noteq> None)"
  proof (cases "R (c, pk)")
    case None
    then have "R((c, pk) := None) = R" by auto
    then show ?thesis using b rep None unfolding old by (simp add: act_return_def)
  next
    case (Some r)
    then obtain t1 where t1: "tx_delete_internal D rk t = (Inr (), t1)" "act_for (delete_index_entry D c pk) (sr_indexes r) t1 = (Inr (), t')" "b"
      using b unfolding old by (auto simp: act_bind_Inr_iff act_map_err_iff act_return_def)
    have g: "tx_get_internal t' k = (if k \<in> entry_keys c pk (index_list None) then Some pk else if k = rk then None
        else if k \<in> entry_keys c pk (index_list (R (c, pk))) then None else tx_get_internal t k)" for k
      using delete_entries_view [OF t1(2), of k] tx_kv.del_get [OF t1(1), of k] Some by (auto simp: entry_keys_def)
    have "col_rep (tx_get_internal t') I (R((c, pk) := None))" by (rule col_rep_replace [OF rep rk(1) _ _ g]) auto
    then show ?thesis using Some t1(3) by simp
  qed
  then show "tx_col t' I (R((c, pk) := None))" "b \<longleftrightarrow> R (c, pk) \<noteq> None"
    using tx_wf_ext [OF staging_collections(4) u] wf col_ok_remove [OF ok] by (simp_all add: tx_col_def)
qed

text \<open>Application transactions over records: a sequence of upserts and deletions.\<close>

datatype record_call = CallUpsert bytes bytes bytes "index_value list" | CallRemove bytes bytes

primrec run_record_call :: "deps \<Rightarrow> record_call \<Rightarrow> (transaction, collection_error, unit) act" where
  "run_record_call D (CallUpsert c pk value ivs) = tx_upsert_record D c pk value ivs"
| "run_record_call D (CallRemove c pk) = act_bind (tx_delete_record D c pk) (\<lambda>_. act_return ())"

definition records_tx :: "deps \<Rightarrow> record_call list \<Rightarrow> (store, collection_error, unit) act" where
  "records_tx D calls = run_tx D True CoStore (act_for (run_record_call D) calls)"

primrec apply_record_call :: "record_call \<Rightarrow> record_map \<Rightarrow> record_map" where
  "apply_record_call (CallUpsert c pk value ivs) R = R((c, pk) \<mapsto> \<lparr>sr_value = value, sr_indexes = ivs\<rparr>)"
| "apply_record_call (CallRemove c pk) R = R((c, pk) := None)"

lemma staging_record_call [staging_intros]: "staging (run_record_call D call)"
  by (cases call) (auto intro!: staging_intros)

lemma record_calls_step:
  "tx_col t I R \<Longrightarrow> act_for (run_record_call D) calls t = (Inr (), t') \<Longrightarrow> tx_col t' I (fold apply_record_call calls R)"
proof (induction calls arbitrary: t R)
  case (Cons call calls)
  from Cons.prems(2) obtain t1 where t1: "run_record_call D call t = (Inr (), t1)" "act_for (run_record_call D) calls t1 = (Inr (), t')"
    by (auto simp: act_bind_Inr_iff)
  have "tx_col t1 I (apply_record_call call R)"
    using t1(1) Cons.prems(1) tx_upsert_step tx_delete_step(1) by (cases call) (auto simp: act_bind_Inr_iff)
  from Cons.IH [OF this t1(2)] show ?case by simp
qed (simp add: act_return_def)

lemma fresh_tx_col: "store_col s I R \<Longrightarrow> tx_col (fresh_tx emit s) I R"
  by (auto simp: store_col_def tx_col_def store_wf_def elim: col_rep_cong)

lemma store_col_frame:
  "store_col s I R \<Longrightarrow> store_wf s' \<Longrightarrow> (\<And>k. col_space k \<Longrightarrow> store_get s' k = store_get s k) \<Longrightarrow> store_col s' I R"
  by (auto simp: store_col_def elim: col_rep_cong)

lemma run_tx_col:
  assumes st: "staging body" and col: "store_col s I R" and run: "run_tx D True CoStore body s = (r, s')"
    and step: "\<And>v t'. body (fresh_tx True s) = (Inr v, t') \<Longrightarrow> tx_col t' I' (R' v)"
  shows "case r of Inl e \<Rightarrow> store_col s' I R | Inr v \<Rightarrow> store_col s' I' (R' v)"
proof -
  have wf': "store_wf s'" using run_tx_wf [OF st _ run] col by (simp add: store_col_def)
  show ?thesis
  proof (cases r)
    case (Inl e)
    then show ?thesis using store_col_frame [OF col wf'] run_tx_fail_get [OF st] run by simp
  next
    case (Inr v)
    obtain t where t: "body (fresh_tx True s) = (Inr v, t)" "\<And>k. not_cdc k \<Longrightarrow> store_get s' k = tx_get_internal t k"
      using run [unfolded Inr] by (rule run_tx_view [OF st]) blast
    have "col_rep (store_get s') I' (R' v)" using step [OF t(1)] t(2) col_space_not_cdc by (auto simp: tx_col_def elim: col_rep_cong)
    then show ?thesis using step [OF t(1)] wf' Inr by (simp add: tx_col_def store_col_def)
  qed
qed

theorem records_tx_step:
  assumes "store_col s I R" and "records_tx D calls s = (r, s')"
  shows "store_col s' I (if r = Inr () then fold apply_record_call calls R else R)"
proof -
  have "case r of Inl e \<Rightarrow> store_col s' I R | Inr v \<Rightarrow> store_col s' I (fold apply_record_call calls R)"
    by (rule run_tx_col [of "act_for (run_record_call D) calls" s I R D])
      (use assms record_calls_step [OF fresh_tx_col [OF assms(1)]] in \<open>simp_all add: records_tx_def staging_intros\<close>)
  then show ?thesis by (cases r) auto
qed

theorem upsert_record_step:
  assumes "store_col s I R" and "upsert_record D c pk value ivs s = (r, s')"
  shows "store_col s' I (if r = Inr () then R((c, pk) \<mapsto> \<lparr>sr_value = value, sr_indexes = ivs\<rparr>) else R)"
proof -
  have "case r of Inl e \<Rightarrow> store_col s' I R | Inr v \<Rightarrow> store_col s' I (R((c, pk) \<mapsto> \<lparr>sr_value = value, sr_indexes = ivs\<rparr>))"
    by (rule run_tx_col [of "tx_upsert_record D c pk value ivs" s I R D])
      (use assms tx_upsert_step [OF fresh_tx_col [OF assms(1)]] in \<open>simp_all add: upsert_record_def staging_intros\<close>)
  then show ?thesis by (cases r) auto
qed

theorem delete_record_step:
  assumes "store_col s I R" and "delete_record D c pk s = (r, s')"
  shows "store_col s' I (if isl r then R else R((c, pk) := None))" and "r = Inr b \<Longrightarrow> b \<longleftrightarrow> R (c, pk) \<noteq> None"
proof -
  note S = tx_delete_step [OF fresh_tx_col [OF assms(1)]]
  have "case r of Inl e \<Rightarrow> store_col s' I R | Inr v \<Rightarrow> store_col s' I (R((c, pk) := None))"
    by (rule run_tx_col [of "tx_delete_record D c pk" s I R D]) (use assms S(1) in \<open>simp_all add: delete_record_def staging_intros\<close>)
  then show "store_col s' I (if isl r then R else R((c, pk) := None))" by (cases r) auto
  assume r: "r = Inr b"
  from assms(2) [unfolded delete_record_def r] obtain t where "tx_delete_record D c pk (fresh_tx True s) = (Inr b, t)"
    by (rule run_tx_view [OF staging_collections(4)])
  then show "b \<longleftrightarrow> R (c, pk) \<noteq> None" by (rule S(2))
qed


theorem define_index_step:
  assumes col: "store_col s I R" and d: "define_index D c d s = (r, s')"
  shows "store_col s' (if r = Inr True then I((c, id_name d) \<mapsto> id_unique d) else I) R" and "r = Inr True \<Longrightarrow> I (c, id_name d) = None"
proof -
  let ?v = "[COL_FORMAT_VERSION, if id_unique d then 1 else 0]"
  consider (stay) "s' = s" "r \<noteq> Inr True"
    | (put) k q where "index_meta_key c (id_name d) = Inr k" "store_get s k = None" "store_put_internal D k ?v s = (q, s')"
      "r = (case q of Inl e \<Rightarrow> Inl (CoStore e) | Inr u \<Rightarrow> Inr True)"
    using d by (auto simp: define_index_def act_bind_def act_lift_def act_return_def act_map_err_def map_err_def split: sum.splits prod.splits if_splits)
  note C = this
  have rep: "col_rep (store_get s) I R" and ok: "col_ok I R" and wf: "store_wf s" using col by (simp_all add: store_col_def)
  show n: "r = Inr True \<Longrightarrow> I (c, id_name d) = None" using C
  proof cases
    case (put k q)
    then show ?thesis using col_repD(2) [OF rep put(1)] by simp
  qed simp
  from C show "store_col s' (if r = Inr True then I((c, id_name d) \<mapsto> id_unique d) else I) R"
  proof cases
    case (put k q)
    have wf': "store_wf s'" by (rule store_put_internal_wf [OF wf put(3)])
    show ?thesis
    proof (cases q)
      case (Inl e)
      then show ?thesis using store_col_frame [OF col wf'] store_kv.put_fail put(3,4) by simp
    next
      case (Inr u)
      let ?I = "I((c, id_name d) \<mapsto> id_unique d)"
      have k: "prefix COL_INDEX_META_PREFIX k" by (rule col_key_space(2) [OF put(1)])
      have g: "store_get s' x = (if x = k then Some ?v else store_get s x)" if "not_cdc x" for x
        using store_kv.put_get [of D k ?v s u s' x] put(3) Inr that by simp
      have o: "prefix COL_RECORD_PREFIX x \<or> prefix COL_INDEX_PREFIX x \<Longrightarrow> store_get s' x = store_get s x" for x
        using g [of x] col_spaces(1,2) [of x] k by auto
      have m: "store_get s' x = map_option (\<lambda>u. [COL_FORMAT_VERSION, if u then 1 else 0]) (?I (c', i))" if "index_meta_key c' i = Inr x" for c' i x
      proof (cases "(c', i) = (c, id_name d)")
        case True
        then have "x = k" using that put(1) by simp
        then show ?thesis using g [of x] True col_spaces(3) [OF k] by simp
      next
        case False
        then have "x \<noteq> k" using that put(1) col_key_inj(2) by blast
        then have "store_get s' x = store_get s x" using g [of x] col_spaces(3) [OF col_key_space(2) [OF that]] by simp
        then show ?thesis using False col_repD(2) [OF rep that] by auto
      qed
      have f: "?I (c', i) \<noteq> None \<Longrightarrow> fits c' \<and> fits i" for c' i using col_rep_fits(2) [OF rep, of c' i] put(1) by (auto simp: key_Inr split: if_splits)
      have kr: "record_key c' pk = Inr x \<Longrightarrow> store_get s' x = store_get s x" "index_entry_key c' i y pk = Inr x \<Longrightarrow> store_get s' x = store_get s x" for c' pk i y x
        using o col_key_space by blast+
      have "col_rep (store_get s') ?I R" using rep o kr m f unfolding col_rep_def by (simp cong: imp_cong)
      moreover have "col_ok ?I R"
      proof -
        have no: "\<not> indexed r' (id_name d) x" if "R (c, pk) = Some r'" for pk r' x using col_okD(1) [OF ok that] n Inr put(4) by fastforce
        then show ?thesis using col_okD [OF ok] unfolding col_ok_def by (auto split: if_splits) blast+
      qed
      ultimately show ?thesis using wf' Inr put(4) by (simp add: store_col_def)
    qed
  qed (use col in simp)
qed

section \<open>Reading\<close>

lemma store_colD: "store_col s I R \<Longrightarrow> col_rep (store_get s) I R"
  by (simp add: store_col_def)

lemma get_record_rep:
  assumes "store_col s I R" and "fits c" and "fits pk"
  shows "get_record s c pk = Inr (map_option (record_of pk) (R (c, pk)))"
proof -
  obtain k where k: "record_key c pk = Inr k" using assms(2,3) by (simp add: key_Inr)
  have "transpose_map decode_record_value (store_get s k) = Inr (R (c, pk))" by (rule col_repD(1) [OF store_colD [OF assms(1)] k])
  then show ?thesis unfolding get_record_def k by (cases "store_get s k"; cases "R (c, pk)") (auto simp: res_bind_Inr_iff)
qed

lemma index_definition_rep:
  assumes "store_col s I R" and "fits c" and "fits i"
  shows "index_definition_of s c i = (case I (c, i) of None \<Rightarrow> Inl CoIndexNotFound | Some u \<Rightarrow> Inr \<lparr>id_name = i, id_unique = u\<rparr>)"
    and "validate_index_exists s c i = (case I (c, i) of None \<Rightarrow> Inl QrIndexNotFound | Some u \<Rightarrow> Inr ())"
proof -
  obtain k where k: "index_meta_key c i = Inr k" using assms(2,3) by (simp add: key_Inr)
  have q: "query_component_key COL_INDEX_META_PREFIX [c, i] = Inr k" using k by (simp add: query_component_key_Inr index_meta_key_Inr)
  have g: "store_get s k = map_option (\<lambda>u. [COL_FORMAT_VERSION, if u then 1 else 0]) (I (c, i))"
    by (rule col_repD(2) [OF store_colD [OF assms(1)] k])
  show "index_definition_of s c i = (case I (c, i) of None \<Rightarrow> Inl CoIndexNotFound | Some u \<Rightarrow> Inr \<lparr>id_name = i, id_unique = u\<rparr>)"
    unfolding index_definition_of_def k by (cases "I (c, i)") (auto simp: g decode_index_definition_def)
  show "validate_index_exists s c i = (case I (c, i) of None \<Rightarrow> Inl QrIndexNotFound | Some u \<Rightarrow> Inr ())"
    unfolding validate_index_exists_def q by (cases "I (c, i)") (auto simp: g)
qed


text \<open>The entries below a prefix of an index.\<close>

definition owns :: "record_map \<Rightarrow> bytes \<Rightarrow> bytes \<Rightarrow> bytes \<Rightarrow> bytes \<Rightarrow> bool" where
  "owns R c i x pk \<longleftrightarrow> (\<exists>r. R (c, pk) = Some r \<and> indexed r i x)"

lemma index_entries:
  assumes col: "store_col s I R" and p: "prefix COL_INDEX_PREFIX p"
  shows "(k, pk) \<in> set (scan_prefix s p) \<longleftrightarrow> prefix p k \<and> (\<exists>c i x. index_entry_key c i x pk = Inr k \<and> owns R c i x pk)"
proof -
  have rep: "col_rep (store_get s) I R" and wf: "store_wf s" using col by (simp_all add: store_col_def)
  have "store_get s k = Some pk \<longleftrightarrow> (\<exists>c i x. index_entry_key c i x pk = Inr k \<and> owns R c i x pk)" if k: "prefix p k"
  proof -
    have "prefix COL_INDEX_PREFIX k" using p k prefix_order.trans by blast
    note o = col_repD(4) [OF rep this]
    show ?thesis using o col_repD(3) [OF rep] by (fastforce simp: owns_def split: if_splits)
  qed
  then show ?thesis using store_view.scan_mem [OF wf] by auto
qed

lemma exact_owners:
  assumes col: "store_col s I R" and p: "index_value_prefix c i x = Inr p"
  shows "set (map snd (scan_prefix s p)) = {pk. owns R c i x pk}" and "distinct (map snd (scan_prefix s p))"
proof -
  have wf: "store_wf s" and rep: "col_rep (store_get s) I R" using col by (simp_all add: store_col_def)
  have pi: "prefix COL_INDEX_PREFIX p" using p by (auto simp: key_Inr)
  have e: "(k, pk) \<in> set (scan_prefix s p) \<longleftrightarrow> index_entry_key c i x pk = Inr k \<and> owns R c i x pk" for k pk
    using index_entries [OF col pi, of k pk] col_key_inj(4) [OF p] by blast
  have "\<exists>k. index_entry_key c i x pk = Inr k" if "owns R c i x pk" for pk
    using p that col_rep_fits(1) [OF rep, of c pk] by (auto simp: key_Inr owns_def)
  then show "set (map snd (scan_prefix s p)) = {pk. owns R c i x pk}" using e by (force simp: image_iff)
  have "distinct (scan_prefix s p)" using store_view.scan_sorted [OF wf, of p] by (simp add: strict_sorted_iff distinct_map)
  moreover have "inj_on snd (set (scan_prefix s p))"
  proof (rule inj_onI)
    fix a b assume "a \<in> set (scan_prefix s p)" "b \<in> set (scan_prefix s p)" "snd a = snd b"
    then show "a = b" using e [of "fst a" "snd a"] e [of "fst b" "snd b"] by (cases a; cases b) auto
  qed
  ultimately show "distinct (map snd (scan_prefix s p))" by (simp add: distinct_map)
qed

lemma map_result_Inr_map: "(\<And>x. x \<in> set xs \<Longrightarrow> f x = Inr (g x)) \<Longrightarrow> map_result f xs = Inr (map g xs)"
  by (induction xs) simp_all

theorem query_exact_spec:
  assumes col: "store_col s I R" and i: "I (c, i) \<noteq> None" and x: "fits x"
  shows "\<exists>rs. query_index_exact s c i x = Inr rs \<and> sorted_wrt (<) (map cr_primary_key rs) \<and>
    set rs = {record_of pk r | pk r. R (c, pk) = Some r \<and> indexed r i x}"
proof -
  note rep = store_colD [OF col]
  have f: "fits c" "fits i" using col_rep_fits(2) [OF rep i] by simp_all
  obtain p where p: "index_value_prefix c i x = Inr p" using f x by (simp add: key_Inr)
  let ?es = "scan_prefix s p" and ?rec = "\<lambda>pk. record_of pk (the (R (c, pk)))"
  note O = exact_owners [OF col p]
  have "get_record s c pk = Inr (Some (?rec pk))" if "(k, pk) \<in> set ?es" for k pk
  proof -
    have o: "owns R c i x pk" using O(1) that by force
    then have "fits pk" using col_rep_fits(1) [OF rep, of c pk] by (auto simp: owns_def)
    then show ?thesis using get_record_rep [OF col f(1)] o by (auto simp: owns_def)
  qed
  then have m: "map_result (\<lambda>(_, pk). get_record s c pk) ?es = Inr (map (\<lambda>e. Some (?rec (snd e))) ?es)"
    by (intro map_result_Inr_map) (auto split: prod.splits)
  have mf: "List.map_filter id (map (\<lambda>e. Some (h e)) xs) = map h xs" for h :: "bytes \<times> bytes \<Rightarrow> collection_record" and xs
    by (induction xs) (simp_all add: List.map_filter_def)
  let ?rs = "sort_key cr_primary_key (map ?rec (map snd ?es))"
  have q: "query_index_exact s c i x = Inr ?rs"
    using index_definition_rep(1) [OF col f] i p m by (auto simp: query_index_exact_def mf comp_def)
  have ids: "map cr_primary_key (map ?rec pks) = pks" for pks by (simp add: record_of_def comp_def)
  have "mset (map cr_primary_key ?rs) = mset (map snd ?es)" by (simp only: mset_map mset_sort) (simp add: image_mset.compositionality comp_def record_of_def)
  then have "distinct (map cr_primary_key ?rs)" using O(2) mset_eq_imp_distinct_iff by blast
  moreover have "sorted (map cr_primary_key ?rs)" by simp
  ultimately have "sorted_wrt (<) (map cr_primary_key ?rs)" by (simp only: strict_sorted_iff)
  moreover have "set ?rs = {record_of pk r | pk r. R (c, pk) = Some r \<and> indexed r i x}"
  proof -
    have "set ?rs = ?rec ` set (map snd ?es)" by (simp only: set_sort set_map)
    then have "set ?rs = ?rec ` {pk. owns R c i x pk}" unfolding O(1) .
    then show ?thesis by (force simp: owns_def)
  qed
  ultimately show ?thesis using q by blast
qed


lemma read_component_framed: "fits c \<Longrightarrow> read_component (framed c @ rest) = Inr (c, rest)"
  by (simp add: read_component_def framed_def rd_bind_def rd_take_append fits_def unat_of_nat)

lemma decode_index_entry_key:
  assumes "query_component_key COL_INDEX_PREFIX [c, i] = Inr p" and "index_entry_key c i x pk = Inr k"
  shows "decode_index_entry p k = Inr (x, pk)"
proof -
  have f: "fits x" "fits pk" and k: "k = p @ framed x @ framed pk" using assms by (auto simp: query_component_key_Inr key_Inr)
  show ?thesis using read_component_framed [OF f(1)] read_component_framed [OF f(2), of "[]"] by (simp add: k decode_index_entry_def rd_bind_def)
qed

lemma range_entries:
  assumes col: "store_col s I R" and p: "query_component_key COL_INDEX_PREFIX [c, i] = Inr p"
  obtains ps where "map_result (\<lambda>(key, owner). res_bind (decode_index_entry p key) (\<lambda>(value, primary_key).
         if owner \<noteq> primary_key then Inl QrCorruptIndexEntry else Inr (value, primary_key))) (scan_prefix s p) = Inr ps"
    and "distinct ps" and "set ps = {(x, pk). owns R c i x pk}"
proof -
  let ?es = "scan_prefix s p" and ?d = "\<lambda>e. (case decode_index_entry p (fst e) of Inr q \<Rightarrow> q)"
  have wf: "store_wf s" and rep: "col_rep (store_get s) I R" using col by (simp_all add: store_col_def)
  have f: "fits c" "fits i" and p': "p = COL_INDEX_PREFIX @ framed c @ framed i" using p by (simp_all add: query_component_key_Inr)
  have pk: "prefix p k \<longleftrightarrow> c' = c \<and> i' = i" if "index_entry_key c' i' x pk = Inr k" for c' i' x pk k
    using that f by (auto simp: key_Inr p' framed_iffs)
  have e: "(k, pk) \<in> set ?es \<longleftrightarrow> (\<exists>x. index_entry_key c i x pk = Inr k \<and> owns R c i x pk)" for k pk
    using index_entries [OF col, of p k pk] p' pk by auto
  have d: "?d (k, pk) = (x, pk)" "decode_index_entry p k = Inr (x, pk)" if "index_entry_key c i x pk = Inr k" for k x pk
    using decode_index_entry_key [OF p that] by simp_all
  have m: "map_result (\<lambda>(key, owner). res_bind (decode_index_entry p key) (\<lambda>(value, primary_key).
         if owner \<noteq> primary_key then Inl QrCorruptIndexEntry else Inr (value, primary_key))) ?es = Inr (map ?d ?es)"
    by (rule map_result_Inr_map) (use e d in auto)
  have dist: "distinct (map ?d ?es)"
  proof -
    have "distinct ?es" using store_view.scan_sorted [OF wf, of p] by (simp add: strict_sorted_iff distinct_map)
    moreover have "inj_on ?d (set ?es)"
    proof (rule inj_onI)
      fix a b assume ab: "a \<in> set ?es" "b \<in> set ?es" "?d a = ?d b"
      obtain x y where xy: "index_entry_key c i x (snd a) = Inr (fst a)" "index_entry_key c i y (snd b) = Inr (fst b)"
        using e [of "fst a" "snd a"] e [of "fst b" "snd b"] ab by auto
      have "(x, snd a) = (y, snd b)" using ab(3) d(1) [OF xy(1)] d(1) [OF xy(2)] by simp
      then show "a = b" using xy by (simp add: prod_eq_iff)
    qed
    ultimately show ?thesis by (simp add: distinct_map)
  qed
  have "set (map ?d ?es) = {(x, pk). owns R c i x pk}"
  proof (intro set_eqI iffI)
    fix q assume "q \<in> set (map ?d ?es)"
    then show "q \<in> {(x, pk). owns R c i x pk}" using e d by auto
  next
    fix q assume "q \<in> {(x, pk). owns R c i x pk}"
    then obtain x pk where q: "q = (x, pk)" "owns R c i x pk" by auto
    then have "fits x" "fits pk" using col_rep_fits(1,3) [OF rep] by (auto simp: owns_def)
    then obtain k where k: "index_entry_key c i x pk = Inr k" using f by (simp add: key_Inr)
    then have "(k, pk) \<in> set ?es" using e q(2) by blast
    then show "q \<in> set (map ?d ?es)" using d(1) [OF k] q(1) by force
  qed
  with m dist show ?thesis by (rule that)
qed

text \<open>The pairs a range query selects, in the order it asks for.\<close>

definition ordered_range :: "record_map \<Rightarrow> bytes \<Rightarrow> bytes \<Rightarrow> index_range_query \<Rightarrow> (bytes \<times> bytes) list \<Rightarrow> bool" where
  "ordered_range R c i q xs \<longleftrightarrow> sorted_wrt (if rq_order q = Descending then (>) else (<)) xs \<and>
     set xs = {(x, pk). owns R c i x pk \<and> within_bounds x (rq_start q) (rq_end q)}"

theorem query_range_spec:
  assumes col: "store_col s I R" and i: "I (c, i) \<noteq> None" and ne: "c \<noteq> []" "i \<noteq> []"
  shows "\<exists>xs. ordered_range R c i q xs \<and> query_index_range s c i q =
    Inr (map (\<lambda>(x, pk). \<lparr>ir_index_value = x, ir_record = record_of pk (the (R (c, pk)))\<rparr>)
      (case rq_limit q of None \<Rightarrow> xs | Some limit \<Rightarrow> take limit xs))"
proof -
  note rep = store_colD [OF col]
  have f: "fits c" "fits i" using col_rep_fits(2) [OF rep i] by simp_all
  obtain p where p: "query_component_key COL_INDEX_PREFIX [c, i] = Inr p" using f by (simp add: query_component_key_Inr)
  obtain ps where ps: "map_result (\<lambda>(key, owner). res_bind (decode_index_entry p key) (\<lambda>(value, primary_key).
         if owner \<noteq> primary_key then Inl QrCorruptIndexEntry else Inr (value, primary_key))) (scan_prefix s p) = Inr ps"
    "distinct ps" "set ps = {(x, pk). owns R c i x pk}" by (rule range_entries [OF col p])
  let ?f = "filter (\<lambda>(x, _). within_bounds x (rq_start q) (rq_end q)) ps" and ?g = "\<lambda>(x, pk). \<lparr>ir_index_value = x, ir_record = record_of pk (the (R (c, pk)))\<rparr>"
  let ?xs = "if rq_order q = Descending then rev (sort ?f) else sort ?f"
  have s: "sorted_wrt (<) (sort ?f)" using ps(2) by (simp add: strict_sorted_iff)
  then have "sorted_wrt (>) (rev (sort ?f))" by (simp add: sorted_wrt_rev)
  with s have o: "ordered_range R c i q ?xs" using ps(3) by (auto simp: ordered_range_def)
  have g: "(case e of (x, pk) \<Rightarrow> res_bind (map_err QrCollection (get_record s c pk)) (\<lambda>r. res_bind (ok_or QrDanglingIndexEntry r) (\<lambda>record.
      Inr \<lparr>ir_index_value = x, ir_record = record\<rparr>))) = Inr (?g e)" if e_in: "e \<in> set ps" for e
  proof -
    obtain x pk where e: "e = (x, pk)" by (cases e)
    obtain r where r: "R (c, pk) = Some r" using e_in e unfolding ps(3) by (auto simp: owns_def)
    then have "fits pk" using col_rep_fits(1) [OF rep, of c pk] by simp
    then show ?thesis using get_record_rep [OF col f(1)] r e by simp
  qed
  have m: "map_result (\<lambda>(x, pk). res_bind (map_err QrCollection (get_record s c pk)) (\<lambda>r. res_bind (ok_or QrDanglingIndexEntry r) (\<lambda>record.
      Inr \<lparr>ir_index_value = x, ir_record = record\<rparr>))) ys = Inr (map ?g ys)" if "set ys \<subseteq> set ps" for ys
    by (rule map_result_Inr_map) (use g that in blast)
  have om: "order_matches q ?f = (case rq_limit q of None \<Rightarrow> ?xs | Some limit \<Rightarrow> take limit ?xs)" by (simp add: order_matches_def Let_def)
  have sub: "set (order_matches q ?f) \<subseteq> set ps" unfolding om by (auto split: option.splits dest!: in_set_takeD)
  have v: "validate_index_exists s c i = Inr ()" using index_definition_rep(2) [OF col f] i by auto
  have r: "range_matches q p (scan_prefix s p) = Inr ?f" unfolding range_matches_def ps(1) by simp
  have "query_index_range s c i q = Inr (map ?g (order_matches q ?f))"
    using ne v p r m [OF sub] by (cases "rq_limit q = Some 0") (simp_all add: query_index_range_def order_matches_def)
  then show ?thesis using o unfolding om by blast
qed


text \<open>The records of a collection, as they are read.\<close>

lemma record_read_iff:
  assumes "store_col s I R" and "fits c"
  shows "r \<in> {record_of pk q | pk q. R (c, pk) = Some q \<and> indexed q i x} \<longleftrightarrow>
    get_record s c (cr_primary_key r) = Inr (Some r) \<and> \<lparr>iv_index = i, iv_value = x\<rparr> \<in> set (cr_indexes r)"
proof
  assume "r \<in> {record_of pk q | pk q. R (c, pk) = Some q \<and> indexed q i x}"
  then obtain pk q where r: "r = record_of pk q" "R (c, pk) = Some q" "indexed q i x" by blast
  have "fits pk" using col_rep_fits(1) [OF store_colD [OF assms(1)], of c pk] r(2) by simp
  then show "get_record s c (cr_primary_key r) = Inr (Some r) \<and> \<lparr>iv_index = i, iv_value = x\<rparr> \<in> set (cr_indexes r)"
    using get_record_rep [OF assms, of pk] r by (simp add: record_of_def indexed_def)
next
  assume g: "get_record s c (cr_primary_key r) = Inr (Some r) \<and> \<lparr>iv_index = i, iv_value = x\<rparr> \<in> set (cr_indexes r)"
  then have "fits (cr_primary_key r)" by (auto simp: get_record_def res_bind_Inr_iff key_Inr)
  then obtain q where "R (c, cr_primary_key r) = Some q" "r = record_of (cr_primary_key r) q" using get_record_rep [OF assms] g by auto
  moreover from this(2) g have "indexed q i x" by (metis collection_record.select_convs(3) indexed_def record_of_def)
  ultimately show "r \<in> {record_of pk q | pk q. R (c, pk) = Some q \<and> indexed q i x}" by blast
qed

end
