(* ===== verification/Collection_Schema.thy ===== *)
theory Collection_Schema
  imports Collections Objects
begin

text \<open>
  Schema versions of collections and the sequences of collection operations. The definition of a
  collection and its stored migrations represent a history of versions (\<open>schema_rep\<close>), in which
  each migration starts where the one before it ended and the last one leads to the current
  definition. \<open>col_op\<close> collects all operations, and what holds of any sequence of them.
\<close>

section \<open>Histories of versions\<close>

definition chained :: "collection_migration list \<Rightarrow> collection_definition \<Rightarrow> bool" where
  "chained ms d \<longleftrightarrow> (\<forall>m \<in> set ms. cm_from_version m < cm_to_version m) \<and>
     (\<forall>n. Suc n < length ms \<longrightarrow> cm_to_version (ms ! n) = cm_from_version (ms ! Suc n)) \<and>
     (ms \<noteq> [] \<longrightarrow> cm_to_version (last ms) = cd_schema_version d \<and> cm_codec (last ms) = cd_codec d)"

lemma chained_Nil [simp]: "chained [] d"
  by (simp add: chained_def)

lemma chained_snoc:
  assumes "chained ms d" and "cd_schema_version d < v"
  shows "chained (ms @ [\<lparr>cm_from_version = cd_schema_version d, cm_to_version = v, cm_codec = c\<rparr>]) \<lparr>cd_schema_version = v, cd_codec = c\<rparr>"
proof -
  let ?m = "\<lparr>cm_from_version = cd_schema_version d, cm_to_version = v, cm_codec = c\<rparr>"
  have "cm_to_version ((ms @ [?m]) ! n) = cm_from_version ((ms @ [?m]) ! Suc n)" if "Suc n < length (ms @ [?m])" for n
  proof (cases "Suc n < length ms")
    case True
    then show ?thesis using assms(1) by (simp add: chained_def nth_append)
  next
    case False
    then have "n = length ms - 1" "ms \<noteq> []" using that by auto
    then show ?thesis using assms(1) by (simp add: chained_def nth_append last_conv_nth)
  qed
  then show ?thesis using assms by (auto simp: chained_def)
qed

text \<open>Along a history the versions increase, so sorting the migrations restores it.\<close>

lemma chained_increasing:
  assumes "chained ms d"
  shows "sorted_wrt (<) (map cm_from_version ms)" and "\<And>m. m \<in> set ms \<Longrightarrow> cm_to_version m \<le> cd_schema_version d"
proof -
  have step: "cm_from_version (ms ! n) < cm_from_version (ms ! Suc n)" if "Suc n < length ms" for n
  proof -
    have "ms ! n \<in> set ms" using that by simp
    then have "cm_from_version (ms ! n) < cm_to_version (ms ! n)" using assms unfolding chained_def by blast
    also have "\<dots> = cm_from_version (ms ! Suc n)" using assms that by (simp add: chained_def)
    finally show ?thesis .
  qed
  show s: "sorted_wrt (<) (map cm_from_version ms)"
    using step by (simp add: sorted_wrt_iff_nth_Suc_transp [OF transp_on_less])
  fix m assume "m \<in> set ms"
  then obtain n where n: "n < length ms" "m = ms ! n" by (auto simp: in_set_conv_nth)
  have l: "cm_to_version (ms ! (length ms - 1)) = cd_schema_version d" using assms n(1) by (auto simp: chained_def last_conv_nth)
  show "cm_to_version m \<le> cd_schema_version d"
  proof (cases "n = length ms - 1")
    case False
    then have "Suc n < length ms" using n(1) by simp
    then have "cm_to_version m = cm_from_version (ms ! Suc n)" using assms n(2) by (simp add: chained_def)
    also have "\<dots> \<le> cm_from_version (ms ! (length ms - 1))"
    proof (cases "Suc n = length ms - 1")
      case False
      then have "map cm_from_version ms ! Suc n < map cm_from_version ms ! (length ms - 1)"
        by (intro sorted_wrt_nth_less [OF s]) (use \<open>Suc n < length ms\<close> in simp_all)
      then show ?thesis using \<open>Suc n < length ms\<close> by simp
    qed simp
    also have "\<dots> < cm_to_version (ms ! (length ms - 1))" using assms n(1) by (simp add: chained_def)
    finally show ?thesis using l by simp
  qed (use n l in simp)
qed

type_synonym schema_map = "bytes \<Rightarrow> (collection_definition \<times> collection_migration list) option"

definition schema_space :: "bytes \<Rightarrow> bool" where
  "schema_space k \<longleftrightarrow> prefix COL_META_PREFIX k \<or> prefix COL_MIGRATION_PREFIX k"

definition schema_rep :: "(bytes \<Rightarrow> bytes option) \<Rightarrow> schema_map \<Rightarrow> bool" where
  "schema_rep g C \<longleftrightarrow>
     (\<forall>name k. meta_key name = Inr k \<longrightarrow> transpose_map decode_collection_definition (g k) = Inr (map_option fst (C name))) \<and>
     (\<forall>k v. prefix COL_MIGRATION_PREFIX k \<longrightarrow> g k = Some v \<longrightarrow>
        (\<exists>name d ms. \<exists>m \<in> set ms. C name = Some (d, ms) \<and> migration_key name (cm_from_version m) (cm_to_version m) = Inr k \<and> decode_collection_migration v = Inr m)) \<and>
     (\<forall>name d ms. C name = Some (d, ms) \<longrightarrow> fits name \<and> chained ms d \<and>
        (\<forall>m \<in> set ms. \<exists>k v. migration_key name (cm_from_version m) (cm_to_version m) = Inr k \<and> g k = Some v \<and> decode_collection_migration v = Inr m))"

lemma migration_key_Inr:
  "migration_key name a b = Inr k \<longleftrightarrow> fits name \<and> k = COL_MIGRATION_PREFIX @ framed name @ framed (to_be a) @ framed (to_be b)"
  by (auto simp: migration_key_def component_key_Inr fits_def)

lemma migration_prefix_Inr: "migration_prefix name = Inr p \<longleftrightarrow> fits name \<and> p = COL_MIGRATION_PREFIX @ framed name"
  by (auto simp: migration_prefix_def component_key_Inr)

lemma fits_to_be [simp]: "fits (to_be (a :: u32))"
  by (simp add: fits_def)

lemma migration_key_inj:
  "migration_key name a b = Inr k \<Longrightarrow> migration_key name' a' b' = Inr k \<Longrightarrow> name' = name \<and> a' = a \<and> b' = b"
  "migration_prefix name = Inr p \<Longrightarrow> migration_key name' a b = Inr k \<Longrightarrow> prefix p k \<longleftrightarrow> name' = name"
  by (auto simp: migration_key_Inr migration_prefix_Inr framed_iffs)

lemma schema_key_space: "meta_key name = Inr k \<Longrightarrow> schema_space k" "migration_key name a b = Inr k \<Longrightarrow> schema_space k"
  by (auto simp: schema_space_def meta_key_Inr migration_key_Inr)

lemma schema_not_cdc: "schema_space k \<Longrightarrow> not_cdc k" and schema_not_col: "schema_space k \<Longrightarrow> \<not> col_space k"
  unfolding schema_space_def col_space_def using col_spaces [of k] by blast+

lemma schema_rep_cong:
  assumes "schema_rep g C" and "\<And>k. schema_space k \<Longrightarrow> g' k = g k"
  shows "schema_rep g' C"
proof -
  have e: "prefix COL_MIGRATION_PREFIX k \<Longrightarrow> g' k = g k" "meta_key name = Inr k \<Longrightarrow> g' k = g k" "migration_key name a b = Inr k \<Longrightarrow> g' k = g k" for k name a b
    using assms(2) schema_key_space by (auto simp: schema_space_def)
  then have "(\<exists>k v. migration_key name a b = Inr k \<and> g' k = Some v \<and> P v) \<longleftrightarrow> (\<exists>k v. migration_key name a b = Inr k \<and> g k = Some v \<and> P v)" for name a b P
    by (auto; metis)
  then show ?thesis using assms(1) e unfolding schema_rep_def by (simp cong: imp_cong)
qed

lemma schema_repD:
  assumes "schema_rep g C"
  shows "meta_key name = Inr k \<Longrightarrow> transpose_map decode_collection_definition (g k) = Inr (map_option fst (C name))"
    and "C name = Some (d, ms) \<Longrightarrow> fits name \<and> chained ms d"
    and "migration_key name a b = Inr k \<Longrightarrow> g k = Some v \<Longrightarrow>
      \<exists>d ms m. C name = Some (d, ms) \<and> m \<in> set ms \<and> cm_from_version m = a \<and> cm_to_version m = b \<and> decode_collection_migration v = Inr m"
proof -
  show "meta_key name = Inr k \<Longrightarrow> transpose_map decode_collection_definition (g k) = Inr (map_option fst (C name))"
    "C name = Some (d, ms) \<Longrightarrow> fits name \<and> chained ms d" using assms by (simp_all add: schema_rep_def)
  assume k: "migration_key name a b = Inr k" "g k = Some v"
  have "prefix COL_MIGRATION_PREFIX k" using k(1) by (auto simp: migration_key_Inr)
  then obtain name' d ms m where m: "m \<in> set ms" "C name' = Some (d, ms)" "migration_key name' (cm_from_version m) (cm_to_version m) = Inr k" "decode_collection_migration v = Inr m"
    using assms k(2) unfolding schema_rep_def by blast
  then show "\<exists>d ms m. C name = Some (d, ms) \<and> m \<in> set ms \<and> cm_from_version m = a \<and> cm_to_version m = b \<and> decode_collection_migration v = Inr m"
    using migration_key_inj(1) [OF k(1) m(3)] by blast
qed

section \<open>Creating and migrating\<close>

abbreviation migrations_of :: "schema_map \<Rightarrow> bytes \<Rightarrow> collection_migration list" where
  "migrations_of C name \<equiv> (case C name of None \<Rightarrow> [] | Some (d, ms) \<Rightarrow> ms)"

lemma schema_rep_update:
  assumes rep: "schema_rep g C" and k: "meta_key name = Inr k" and d: "decode_collection_definition v = Inr d" and ch: "chained (migrations_of C name @ new) d"
    and meta: "\<And>x. prefix COL_META_PREFIX x \<Longrightarrow> g' x = (if x = k then Some v else g x)"
    and old: "\<And>x. prefix COL_MIGRATION_PREFIX x \<Longrightarrow> (\<And>m. m \<in> set new \<Longrightarrow> migration_key name (cm_from_version m) (cm_to_version m) \<noteq> Inr x) \<Longrightarrow> g' x = g x"
    and new: "\<And>m. m \<in> set new \<Longrightarrow> \<exists>x w. migration_key name (cm_from_version m) (cm_to_version m) = Inr x \<and> g' x = Some w \<and> decode_collection_migration w = Inr m"
    and later: "\<And>m m'. m \<in> set new \<Longrightarrow> m' \<in> set (migrations_of C name) \<Longrightarrow> cm_from_version m \<noteq> cm_from_version m'"
  shows "schema_rep g' (C(name \<mapsto> (d, migrations_of C name @ new)))"
proof -
  let ?C = "C(name \<mapsto> (d, migrations_of C name @ new))"
  let ?at = "\<lambda>g n m. \<exists>k v. migration_key n (cm_from_version m) (cm_to_version m) = Inr k \<and> g k = Some v \<and> decode_collection_migration v = Inr m"
  have e: "transpose_map decode_collection_definition (g' x) = Inr (map_option fst (?C n'))" if "meta_key n' = Inr x" for n' x
  proof (cases "n' = name")
    case True
    then show ?thesis using meta [of x] that k d by (simp add: meta_key_Inr)
  next
    case False
    then have "x \<noteq> k" using that k by (auto simp: meta_key_Inr framed_iffs)
    then show ?thesis using meta [OF col_key_space(4) [OF that]] schema_repD(1) [OF rep that] False by simp
  qed
  have o: "\<exists>n' d' ms. \<exists>m \<in> set ms. ?C n' = Some (d', ms) \<and> migration_key n' (cm_from_version m) (cm_to_version m) = Inr x \<and> decode_collection_migration w = Inr m"
    if x: "prefix COL_MIGRATION_PREFIX x" "g' x = Some w" for x w
  proof (cases "\<exists>m \<in> set new. migration_key name (cm_from_version m) (cm_to_version m) = Inr x")
    case True
    then show ?thesis using new x(2) by (auto simp: Bex_def; fastforce)
  next
    case False
    then have "g x = Some w" using old [OF x(1)] x(2) by auto
    then obtain n' d' ms m where q: "m \<in> set ms" "C n' = Some (d', ms)" "migration_key n' (cm_from_version m) (cm_to_version m) = Inr x" "decode_collection_migration w = Inr m"
      using rep x(1) unfolding schema_rep_def by blast
    then have "\<exists>d' ms. ?C n' = Some (d', ms) \<and> m \<in> set ms" by (cases "n' = name") auto
    then show ?thesis using q(3,4) by blast
  qed
  have keep: "?at g' n' m" if q: "?at g n' m" and ne: "n' = name \<Longrightarrow> m \<in> set (migrations_of C name)" for n' m
  proof -
    obtain x w where x: "migration_key n' (cm_from_version m) (cm_to_version m) = Inr x" "g x = Some w" "decode_collection_migration w = Inr m" using q by blast
    have "g' x = g x"
    proof (rule old)
      show "prefix COL_MIGRATION_PREFIX x" using x(1) by (auto simp: migration_key_Inr)
      fix m' assume "m' \<in> set new"
      then show "migration_key name (cm_from_version m') (cm_to_version m') \<noteq> Inr x" using migration_key_inj(1) [OF x(1)] later ne by blast
    qed
    then show ?thesis using x by auto
  qed
  have h: "fits n' \<and> chained ms d' \<and> (\<forall>m \<in> set ms. ?at g' n' m)" if c: "?C n' = Some (d', ms)" for n' d' ms
  proof (cases "n' = name")
    case True
    have "?at g name m" if m: "m \<in> set (migrations_of C name)" for m
    proof -
      obtain d0 ms0 where "C name = Some (d0, ms0)" "m \<in> set ms0" using m by (cases "C name") auto
      then show ?thesis using rep unfolding schema_rep_def by blast
    qed
    then have "?at g' name m" if "m \<in> set (migrations_of C name)" for m using keep [of name m] that by blast
    then have "\<forall>m \<in> set (migrations_of C name @ new). ?at g' name m" using new by (metis Un_iff set_append)
    moreover have "d' = d" "ms = migrations_of C name @ new" using c True by simp_all
    ultimately show ?thesis using True k ch by (simp add: meta_key_Inr)
  next
    case False
    then have "fits n' \<and> chained ms d' \<and> (\<forall>m \<in> set ms. ?at g n' m)" using rep c unfolding schema_rep_def by simp
    then show ?thesis using keep False by blast
  qed
  show ?thesis unfolding schema_rep_def using e o h by blast
qed

definition store_schema :: "store \<Rightarrow> schema_map \<Rightarrow> bool" where
  "store_schema s C \<longleftrightarrow> schema_rep (store_get s) C \<and> store_wf s"

lemma store_schema_frame:
  "store_schema s C \<Longrightarrow> store_wf s' \<Longrightarrow> (\<And>k. schema_space k \<Longrightarrow> store_get s' k = store_get s k) \<Longrightarrow> store_schema s' C"
  by (auto simp: store_schema_def elim: schema_rep_cong)

theorem create_collection_step:
  assumes sch: "store_schema s C" and c: "create_collection D name d s = (r, s')"
  shows "store_schema s' (if r = Inr True then C(name \<mapsto> (d, [])) else C)" and "r = Inr True \<Longrightarrow> C name = None"
    and "\<And>k. col_space k \<Longrightarrow> store_get s' k = store_get s k"
proof -
  consider (stay) "s' = s" "r \<noteq> Inr True"
    | (put) k bs q where "meta_key name = Inr k" "store_get s k = None" "encode_collection_definition d = Inr bs" "store_put_internal D k bs s = (q, s')"
      "r = (case q of Inl e \<Rightarrow> Inl (CoStore e) | Inr u \<Rightarrow> Inr True)"
    using c by (auto simp: create_collection_def act_bind_def act_lift_def act_return_def act_map_err_def map_err_def split: sum.splits prod.splits if_splits)
  note X = this
  have rep: "schema_rep (store_get s) C" and wf: "store_wf s" using sch by (simp_all add: store_schema_def)
  show n: "r = Inr True \<Longrightarrow> C name = None" using X
  proof cases
    case (put k bs q)
    then show ?thesis using schema_repD(1) [OF rep put(1)] by simp
  qed simp
  show "store_get s' x = store_get s x" if "col_space x" for x using X
  proof cases
    case (put k bs q)
    then show ?thesis using that store_kv.put_get [of D k bs s _ s' x] store_kv.put_fail [of D k bs s _ s' x] col_space_not_cdc [OF that]
        schema_not_col [OF schema_key_space(1) [OF put(1)]] by (cases q) auto
  qed simp
  from X show "store_schema s' (if r = Inr True then C(name \<mapsto> (d, [])) else C)"
  proof cases
    case (put k bs q)
    have wf': "store_wf s'" by (rule store_put_internal_wf [OF wf put(4)])
    show ?thesis
    proof (cases q)
      case (Inl e)
      then show ?thesis using store_schema_frame [OF sch wf'] store_kv.put_fail put(4,5) by simp
    next
      case (Inr u)
      have g: "store_get s' x = (if x = k then Some bs else store_get s x)" if "schema_space x" for x
        using store_kv.put_get [of D k bs s u s' x] put(4) Inr schema_not_cdc [OF that] by simp
      have cn: "C name = None" using n put(5) Inr by simp
      have "schema_rep (store_get s') (C(name \<mapsto> (d, migrations_of C name @ [])))"
      proof (rule schema_rep_update [OF rep put(1) decode_definition_encode [OF put(3)]])
        show "prefix COL_META_PREFIX x \<Longrightarrow> store_get s' x = (if x = k then Some bs else store_get s x)" for x using g by (simp add: schema_space_def)
        show "store_get s' x = store_get s x" if "prefix COL_MIGRATION_PREFIX x" for x
          using g [of x] that col_spaces(4) [of x] put(1) by (auto simp: schema_space_def meta_key_Inr)
      qed (simp_all add: cn)
      then show ?thesis using wf' cn Inr put(5) by (simp add: store_schema_def)
    qed
  qed (use sch in simp)
qed


lemma staging_migration [staging_intros]:
  "staging (act_bind (act_lift a) (\<lambda>bs. act_bind (act_map_err CoStore (tx_put_internal D key bs)) (\<lambda>_.
     act_bind (act_lift b) (\<lambda>mkey. act_bind (act_lift c) (\<lambda>mbs. act_bind (act_map_err CoStore (tx_put_internal D mkey mbs)) (\<lambda>_. act_return True))))))"
  by (intro staging_intros)

theorem migrate_collection_step:
  assumes sch: "store_schema s C" and c: "migrate_collection_schema D name old_version new_version new_codec s = (r, s')"
  shows "store_schema s' (if r = Inr True then C(name \<mapsto> (\<lparr>cd_schema_version = new_version, cd_codec = new_codec\<rparr>, migrations_of C name @
      [\<lparr>cm_from_version = old_version, cm_to_version = new_version, cm_codec = new_codec\<rparr>])) else C)"
    and "r = Inr True \<Longrightarrow> \<exists>d ms. C name = Some (d, ms) \<and> cd_schema_version d = old_version \<and> old_version < new_version"
    and "\<And>k. col_space k \<Longrightarrow> store_get s' k = store_get s k"
proof -
  let ?d = "\<lparr>cd_schema_version = new_version, cd_codec = new_codec\<rparr>"
  let ?m = "\<lparr>cm_from_version = old_version, cm_to_version = new_version, cm_codec = new_codec\<rparr>"
  let ?body = "\<lambda>k. act_bind (act_lift (encode_collection_definition ?d)) (\<lambda>bs. act_bind (act_map_err CoStore (tx_put_internal D k bs)) (\<lambda>_.
      act_bind (act_lift (migration_key name old_version new_version)) (\<lambda>mkey. act_bind (act_lift (encode_collection_migration ?m)) (\<lambda>mbs.
      act_bind (act_map_err CoStore (tx_put_internal D mkey mbs)) (\<lambda>_. act_return True)))))"
  consider (stay) "s' = s" "r \<noteq> Inr True"
    | (run) k v d where "meta_key name = Inr k" "store_get s k = Some v" "decode_collection_definition v = Inr d" "cd_schema_version d = old_version" "old_version < new_version"
      "run_tx D True CoStore (?body k) s = (r, s')"
    using c unfolding migrate_collection_schema_def
    by (auto simp: act_bind_def [of "\<lambda>s. (f s, s)" for f] ok_or_def not_le split: sum.splits option.splits if_splits)
  note X = this
  have rep: "schema_rep (store_get s) C" and wf: "store_wf s" using sch by (simp_all add: store_schema_def)
  have R: "store_wf s' \<and> (case r of Inl e \<Rightarrow> (\<forall>x. store_get s' x = store_get s x) | Inr _ \<Rightarrow> r = Inr True \<and> (\<exists>bs mkey mbs. encode_collection_definition ?d = Inr bs \<and>
      migration_key name old_version new_version = Inr mkey \<and> encode_collection_migration ?m = Inr mbs \<and>
      (\<forall>x. not_cdc x \<longrightarrow> store_get s' x = (if x = mkey then Some mbs else if x = k then Some bs else store_get s x))))"
    if run: "run_tx D True CoStore (?body k) s = (r, s')" for k
  proof -
    have w: "store_wf s'" by (rule run_tx_wf [OF staging_migration wf run])
    show ?thesis
    proof (cases r)
      case (Inl e)
      then show ?thesis using w run_tx_fail_get [OF staging_migration] run by simp
    next
      case (Inr b)
      obtain t where t: "?body k (fresh_tx True s) = (Inr b, t)" "\<And>x. not_cdc x \<Longrightarrow> store_get s' x = tx_get_internal t x"
        using run [unfolded Inr] by (rule run_tx_view [OF staging_migration]) blast
      from t(1) obtain bs t1 mkey mbs where b: "encode_collection_definition ?d = Inr bs" "tx_put_internal D k bs (fresh_tx True s) = (Inr (), t1)"
        "migration_key name old_version new_version = Inr mkey" "encode_collection_migration ?m = Inr mbs" "tx_put_internal D mkey mbs t1 = (Inr (), t)" "b"
        by (auto simp: act_bind_Inr_iff act_map_err_iff act_return_def simp del: act_bind_lift)
      have "store_get s' x = (if x = mkey then Some mbs else if x = k then Some bs else store_get s x)" if "not_cdc x" for x
        using t(2) [OF that] tx_kv.put_get [OF b(2), of x] tx_kv.put_get [OF b(5), of x] by simp
      then show ?thesis using w Inr b by auto
    qed
  qed
  show "\<exists>d ms. C name = Some (d, ms) \<and> cd_schema_version d = old_version \<and> old_version < new_version" if "r = Inr True" using X
  proof cases
    case (run k v d)
    then show ?thesis using schema_repD(1) [OF rep run(1)] by (cases "C name") auto
  qed (use that in simp)
  show "store_get s' x = store_get s x" if "col_space x" for x using X
  proof cases
    case (run k v d)
    have "x \<noteq> k" "migration_key name old_version new_version \<noteq> Inr x" using that schema_not_col schema_key_space run(1) by blast+
    then show ?thesis using R [OF run(6)] col_space_not_cdc [OF that] by (auto split: sum.splits)
  qed simp
  from X show "store_schema s' (if r = Inr True then C(name \<mapsto> (?d, migrations_of C name @ [?m])) else C)"
  proof cases
    case (run k v d)
    have w: "store_wf s'" using R [OF run(6)] by simp
    show ?thesis
    proof (cases r)
      case (Inl e)
      then show ?thesis using store_schema_frame [OF sch w] R [OF run(6)] by simp
    next
      case (Inr b)
      then obtain bs mkey mbs where b: "r = Inr True" "encode_collection_definition ?d = Inr bs" "migration_key name old_version new_version = Inr mkey"
        "encode_collection_migration ?m = Inr mbs" "\<forall>x. not_cdc x \<longrightarrow> store_get s' x = (if x = mkey then Some mbs else if x = k then Some bs else store_get s x)"
        using R [OF run(6)] by auto
      obtain ms where C: "C name = Some (d, ms)" using schema_repD(1) [OF rep run(1)] run(2,3) by (cases "C name") auto
      have ch: "chained ms d" using schema_repD(2) [OF rep C] by simp
      have mp: "prefix COL_MIGRATION_PREFIX mkey" "prefix COL_META_PREFIX k" using b(3) run(1) by (auto simp: migration_key_Inr meta_key_Inr)
      have ne: "mkey \<noteq> k" using mp col_spaces(4) by blast
      have "schema_rep (store_get s') (C(name \<mapsto> (?d, migrations_of C name @ [?m])))"
      proof (rule schema_rep_update [OF rep run(1) decode_definition_encode [OF b(2)]])
        show "chained (migrations_of C name @ [?m]) ?d" using chained_snoc [OF ch, of new_version new_codec] run(4,5) C by simp
        show "prefix COL_META_PREFIX x \<Longrightarrow> store_get s' x = (if x = k then Some bs else store_get s x)" for x
          using b(5) col_spaces(4) [of x] mp(1) by auto
        show "store_get s' x = store_get s x" if "prefix COL_MIGRATION_PREFIX x" "\<And>m. m \<in> set [?m] \<Longrightarrow> migration_key name (cm_from_version m) (cm_to_version m) \<noteq> Inr x" for x
          using b(3,5) that col_spaces(5) [of x] col_spaces(4) [of x] mp(2) by auto
        show "\<exists>x w. migration_key name (cm_from_version m) (cm_to_version m) = Inr x \<and> store_get s' x = Some w \<and> decode_collection_migration w = Inr m" if "m \<in> set [?m]" for m
          using that b(3-5) decode_migration_encode [OF _ b(4)] run(5) col_spaces(5) [OF mp(1)] by auto
        show "cm_from_version m \<noteq> cm_from_version m'" if "m \<in> set [?m]" "m' \<in> set (migrations_of C name)" for m m'
        proof -
          have "m' \<in> set ms" using that(2) C by simp
          then have "cm_from_version m' < cm_to_version m'" "cm_to_version m' \<le> cd_schema_version d" using ch chained_increasing(2) [OF ch] by (auto simp: chained_def)
          then show ?thesis using that(1) run(4) by auto
        qed
      qed
      then show ?thesis using w b(1) by (simp add: store_schema_def)
    qed
  qed (use sch in simp)
qed

text \<open>Reading the definition and the history back.\<close>

theorem schema_reads:
  assumes sch: "store_schema s C" and f: "fits name"
  shows "collection_definition_of s name = Inr (map_option fst (C name))" and "collection_migrations s name = Inr (migrations_of C name)"
proof -
  have rep: "schema_rep (store_get s) C" and wf: "store_wf s" using sch by (simp_all add: store_schema_def)
  obtain k where k: "meta_key name = Inr k" using f by (simp add: meta_key_Inr)
  show "collection_definition_of s name = Inr (map_option fst (C name))"
    unfolding collection_definition_of_def k using schema_repD(1) [OF rep k] by simp
  obtain p where p: "migration_prefix name = Inr p" using f by (simp add: migration_prefix_Inr)
  let ?ms = "migrations_of C name" and ?es = "scan_prefix s p" and ?dec = "\<lambda>e. (case decode_collection_migration (snd e) of Inr m \<Rightarrow> m)"
  let ?key = "\<lambda>m. (cm_from_version m, cm_to_version m)"
  have pm: "prefix COL_MIGRATION_PREFIX x" if "prefix p x" for x using p that by (auto simp: migration_prefix_Inr prefix_def)
  have e: "\<exists>m \<in> set ?ms. migration_key name (cm_from_version m) (cm_to_version m) = Inr x \<and> decode_collection_migration w = Inr m" if xw: "(x, w) \<in> set ?es" for x w
  proof -
    have x: "prefix p x" "store_get s x = Some w" using xw store_view.scan_mem [OF wf] by auto
    obtain n' d ms m where q: "m \<in> set ms" "C n' = Some (d, ms)" "migration_key n' (cm_from_version m) (cm_to_version m) = Inr x" "decode_collection_migration w = Inr m"
      using rep pm [OF x(1)] x(2) unfolding schema_rep_def by blast
    have "n' = name" using migration_key_inj(2) [OF p q(3)] x(1) by simp
    then show ?thesis using q by auto
  qed
  have e': "\<exists>x w. (x, w) \<in> set ?es \<and> decode_collection_migration w = Inr m" if m: "m \<in> set ?ms" for m
  proof -
    obtain d ms where "C name = Some (d, ms)" "m \<in> set ms" using m by (cases "C name") auto
    then obtain x w where x: "migration_key name (cm_from_version m) (cm_to_version m) = Inr x" "store_get s x = Some w" "decode_collection_migration w = Inr m"
      using rep unfolding schema_rep_def by blast
    then show ?thesis using store_view.scan_mem [OF wf, of x w p] migration_key_inj(2) [OF p x(1)] by blast
  qed
  have m: "map_result (\<lambda>(_, value). decode_collection_migration value) ?es = Inr (map ?dec ?es)"
    by (rule map_result_Inr_map) (use e in fastforce)
  have set_eq: "set (map ?dec ?es) = set ?ms"
  proof (intro set_eqI iffI)
    fix m assume "m \<in> set (map ?dec ?es)"
    then show "m \<in> set ?ms" using e by fastforce
  next
    fix m assume "m \<in> set ?ms"
    then obtain x w where x: "(x, w) \<in> set ?es" "decode_collection_migration w = Inr m" using e' by blast
    then show "m \<in> set (map ?dec ?es)" by force
  qed
  have des: "distinct (map ?dec ?es)"
  proof -
    have "distinct ?es" and df: "distinct (map fst ?es)" using store_view.scan_sorted [OF wf, of p] by (simp_all add: strict_sorted_iff distinct_map)
    moreover have "inj_on ?dec (set ?es)"
    proof (rule inj_onI)
      fix a b assume ab: "a \<in> set ?es" "b \<in> set ?es" "?dec a = ?dec b"
      have "fst a = fst b" using e [of "fst a" "snd a"] e [of "fst b" "snd b"] ab by auto
      then show "a = b" using ab df by (auto simp: distinct_map inj_on_def)
    qed
    ultimately show ?thesis by (simp add: distinct_map)
  qed
  have inc: "sorted_wrt (<) (map cm_from_version ?ms)"
  proof (cases "C name")
    case (Some q)
    then show ?thesis using chained_increasing(1) schema_repD(2) [OF rep, of name "fst q" "snd q"] by (cases q) auto
  qed simp
  have "sort_key ?key (map ?dec ?es) = ?ms"
  proof (rule map_sorted_distinct_set_unique [where f = ?key])
    have d: "distinct (map cm_from_version ?ms)" using inc by (simp add: strict_sorted_iff)
    then have i: "inj_on ?key (set ?ms)" by (auto simp: distinct_map inj_on_def)
    show "inj_on ?key (set (sort_key ?key (map ?dec ?es)) \<union> set ?ms)" using i set_eq by simp
    show "sorted (map ?key (sort_key ?key (map ?dec ?es)))" by simp
    show "distinct (map ?key (sort_key ?key (map ?dec ?es)))" using des i set_eq by (simp add: distinct_map)
    have "sorted_wrt (\<le>) (map ?key ?ms)" using inc unfolding sorted_wrt_map by (rule sorted_wrt_mono_rel [rotated]) (auto simp: less_eq_prod_def)
    then show "sorted (map ?key ?ms)" .
    show "distinct (map ?key ?ms)" using d i by (simp add: distinct_map)
    show "set (sort_key ?key (map ?dec ?es)) = set ?ms" using set_eq by simp
  qed
  then show "collection_migrations s name = Inr ?ms" using p m by (simp add: collection_migrations_def)
qed


section \<open>Sequences of operations\<close>

lemma run_tx_framing:
  assumes "framing P body" and "staging body" and "run_tx D emit conv body s = (r, s')" and "P k" and "not_cdc k"
  shows "store_get s' k = store_get s k"
proof (cases r)
  case (Inl e)
  then show ?thesis using run_tx_fail_get [OF assms(2)] assms(3) by simp
next
  case (Inr v)
  obtain t where "body (fresh_tx emit s) = (Inr v, t)" "store_get s' k = tx_get_internal t k"
    using assms(3) [unfolded Inr] by (rule run_tx_view [OF assms(2)]) (use assms(5) in blast)
  then show ?thesis using assms(1,4) unfolding framing_def by fastforce
qed

lemma framing_records:
  assumes "\<And>k. P k \<Longrightarrow> \<not> col_space k"
  shows "framing P (tx_upsert_record D c pk value ivs)" and "framing P (tx_delete_record D c pk)" and "framing P (run_record_call D call)"
proof -
  have r: "\<not> P k" if "record_key c pk = Inr k" for c pk k using assms [of k] col_key_space(1) [OF that] by (auto simp: col_space_def)
  have e: "\<not> P k" if "index_entry_key c i x pk = Inr k" for c i x pk k using assms [of k] col_key_space(3) [OF that] by (auto simp: col_space_def)
  have d: "framing P (delete_index_entry D c pk iv)" "framing P (put_index_entry D c pk iv)" for c pk iv
    unfolding delete_index_entry_def put_index_entry_def by (auto intro!: framing_guard framing_intros dest: e)
  show u: "framing P (tx_upsert_record D c pk v ivs)" for c pk v ivs
    unfolding tx_upsert_record_def by (intro framing_bind framing_pure framing_if framing_guard framing_for framing_option framing_map_err framing_put d) (rule r)
  show w: "framing P (tx_delete_record D c pk)" for c pk
    unfolding tx_delete_record_def by (intro framing_bind framing_pure framing_guard framing_for framing_option framing_map_err framing_delete d) (rule r)
  show "framing P (run_record_call D call)" by (cases call) (simp_all add: u w framing_bind framing_pure)
qed

inductive col_op :: "deps \<Rightarrow> store \<Rightarrow> store \<Rightarrow> bool" for D where
  op_create: "create_collection D name d s = (rb, s') \<Longrightarrow> col_op D s s'"
| op_migrate: "migrate_collection_schema D name a b c s = (rb, s') \<Longrightarrow> col_op D s s'"
| op_define: "define_index D c di s = (rb, s') \<Longrightarrow> col_op D s s'"
| op_upsert: "upsert_record D c pk value ivs s = (ru, s') \<Longrightarrow> col_op D s s'"
| op_remove: "delete_record D c pk s = (rb, s') \<Longrightarrow> col_op D s s'"
| op_records: "records_tx D calls s = (ru, s') \<Longrightarrow> col_op D s s'"
| op_outside: "store_wf s' \<Longrightarrow> (\<forall>k. col_space k \<or> schema_space k \<longrightarrow> store_get s' k = store_get s k) \<Longrightarrow> col_op D s s'"

definition collection_inv :: "store \<Rightarrow> bool" where
  "collection_inv s \<longleftrightarrow> (\<exists>I R C. store_col s I R \<and> store_schema s C)"

lemma record_ops_schema:
  assumes st: "staging body" and fr: "framing schema_space body" and sch: "store_schema s C" and run: "run_tx D True conv body s = (r, s')"
  shows "store_schema s' C"
  using store_schema_frame [OF sch] run_tx_wf [OF st _ run] run_tx_framing [OF fr st run] schema_not_cdc sch by (simp add: store_schema_def)

text \<open>The effect of one operation on the three maps.\<close>

definition schema_evolves :: "schema_map \<Rightarrow> schema_map \<Rightarrow> bool" where
  "schema_evolves C C' \<longleftrightarrow> (\<forall>name d ms. C name = Some (d, ms) \<longrightarrow>
     (\<exists>d' ms'. C' name = Some (d', ms') \<and> prefix ms ms' \<and> cd_schema_version d \<le> cd_schema_version d'))"

lemma schema_evolves_refl [simp]: "schema_evolves C C"
  by (auto simp: schema_evolves_def)

lemma schema_evolves_trans: "schema_evolves A B \<Longrightarrow> schema_evolves B C \<Longrightarrow> schema_evolves A C"
  unfolding schema_evolves_def by (meson order.trans prefix_order.trans)

lemma col_op_step:
  assumes "col_op D s s'" and col: "store_col s I R" and sch: "store_schema s C"
  obtains I' R' C' where "store_col s' I' R'" and "store_schema s' C'" and "I \<subseteq>\<^sub>m I'" and "schema_evolves C C'"
proof -
  note fr = framing_records [of schema_space, OF schema_not_col]
  have wf: "store_wf s" using col by (simp add: store_col_def)
  from assms(1) show ?thesis
  proof cases
    case (op_create name d rb)
    note S = create_collection_step [OF sch op_create]
    have w: "store_wf s'" using S(1) by (auto simp: store_schema_def split: if_splits)
    have "schema_evolves C (if rb = Inr True then C(name \<mapsto> (d, [])) else C)" using S(2) by (auto simp: schema_evolves_def)
    from that [OF store_col_frame [OF col w S(3)] S(1) _ this] show ?thesis by simp
  next
    case (op_migrate name a b c rb)
    note S = migrate_collection_step [OF sch op_migrate]
    have w: "store_wf s'" using S(1) by (auto simp: store_schema_def split: if_splits)
    have "schema_evolves C (if rb = Inr True then C(name \<mapsto> (\<lparr>cd_schema_version = b, cd_codec = c\<rparr>, migrations_of C name @
        [\<lparr>cm_from_version = a, cm_to_version = b, cm_codec = c\<rparr>])) else C)" using S(2) by (auto simp: schema_evolves_def)
    from that [OF store_col_frame [OF col w S(3)] S(1) _ this] show ?thesis by simp
  next
    case (op_define c d rb)
    note S = define_index_step [OF col op_define]
    have w: "store_wf s'" using S(1) by (simp add: store_col_def)
    have "store_get s' k = store_get s k" if "schema_space k" for k
      using op_define that store_kv.put_get [of D _ _ s _ s' k] store_kv.put_fail [of D _ _ s _ s' k] schema_not_cdc [OF that] schema_not_col [OF that] col_key_space(2)
      by (auto simp: define_index_def act_bind_def act_lift_def act_return_def act_map_err_def map_err_def col_space_def split: sum.splits prod.splits if_splits)
    note S' = that [OF S(1) store_schema_frame [OF sch w this]]
    have "I \<subseteq>\<^sub>m (if rb = Inr True then I((c, id_name d) \<mapsto> id_unique d) else I)" using S(2) by (auto simp: map_le_def dom_def)
    then show ?thesis using S' by simp
  next
    case (op_upsert c pk v ivs ru)
    have "store_schema s' C" by (rule record_ops_schema [OF staging_collections(3) fr(1) sch]) (use op_upsert in \<open>auto simp: upsert_record_def\<close>)
    from that [OF upsert_record_step [OF col op_upsert] this] show ?thesis by simp
  next
    case (op_remove c pk rb)
    have "store_schema s' C" by (rule record_ops_schema [OF staging_collections(4) fr(2) sch]) (use op_remove in \<open>auto simp: delete_record_def\<close>)
    from that [OF delete_record_step(1) [OF col op_remove] this] show ?thesis by simp
  next
    case (op_records calls ru)
    have "store_schema s' C"
      by (rule record_ops_schema [OF staging_for [OF staging_record_call] framing_for [OF fr(3)] sch]) (use op_records in \<open>auto simp: records_tx_def\<close>)
    from that [OF records_tx_step [OF col op_records] this] show ?thesis by simp
  next
    case op_outside
    from that [OF store_col_frame [OF col op_outside(1)] store_schema_frame [OF sch op_outside(1)]] op_outside(2) show ?thesis by simp
  qed
qed

lemma col_op_reachable:
  assumes "(col_op D)\<^sup>*\<^sup>* s s'" and "store_col s I R" and "store_schema s C"
  shows "\<exists>I' R' C'. store_col s' I' R' \<and> store_schema s' C' \<and> I \<subseteq>\<^sub>m I' \<and> schema_evolves C C'"
  using assms
proof (induction rule: rtranclp_induct)
  case base
  then show ?case using map_le_refl schema_evolves_refl by blast
next
  case (step s1 s2)
  then obtain I1 R1 C1 where 1: "store_col s1 I1 R1" "store_schema s1 C1" "I \<subseteq>\<^sub>m I1" "schema_evolves C C1" by blast
  from step.hyps(2) 1(1,2) show ?case by (rule col_op_step) (use 1(3,4) map_le_trans schema_evolves_trans in blast)
qed

section \<open>Every record of a collection\<close>

theorem scan_collection_spec:
  assumes col: "store_col s I R" and f: "fits c"
  shows "\<exists>rs. scan_collection s c = Inr rs \<and> distinct (map cr_primary_key rs) \<and> set rs = {record_of pk r | pk r. R (c, pk) = Some r}"
proof -
  have rep: "col_rep (store_get s) I R" and wf: "store_wf s" using col by (simp_all add: store_col_def)
  obtain p where p: "record_prefix c = Inr p" using f by (simp add: key_Inr)
  have pp: "p = COL_RECORD_PREFIX @ framed c" using p by (simp add: key_Inr)
  let ?es = "scan_prefix s p" and ?pk = "\<lambda>e. drop 4 (drop (length p) (fst e))" 
  let ?g = "\<lambda>e. record_of (?pk e) (the (R (c, ?pk e)))"
  have e: "\<exists>pk r. record_key c pk = Inr k \<and> R (c, pk) = Some r \<and> decode_record_value v = Inr r \<and> ?pk (k, v) = pk \<and> decode_record_primary_key p k = Inr pk"
    if kv: "(k, v) \<in> set ?es" for k v
  proof -
    have k: "prefix p k" "store_get s k = Some v" using kv store_view.scan_mem [OF wf] by auto
    obtain c' pk where q: "record_key c' pk = Inr k" using col_repD(5) [OF rep _ k(2)] k(1) pp prefix_order.trans by (metis prefixI)
    have c: "c' = c" using col_key_inj(5) [OF p q] k(1) by simp
    have kk: "k = p @ framed pk" "fits pk" using q c pp by (auto simp: key_Inr)
    have "transpose_map decode_record_value (store_get s k) = Inr (R (c, pk))" using col_repD(1) [OF rep q] c by simp
    then obtain r where "R (c, pk) = Some r" "decode_record_value v = Inr r" using k(2) by (cases "R (c, pk)") (auto simp: res_bind_Inr_iff)
    moreover have "decode_record_primary_key p k = Inr pk"
      using kk(2) by (simp add: decode_record_primary_key_def kk(1) framed_def fits_def Let_def unat_of_nat)
    ultimately show ?thesis using q c kk(1) by (auto simp: framed_def)
  qed
  have m: "scan_collection s c = Inr (map ?g ?es)" unfolding scan_collection_def p res_bind_simps
    by (rule map_result_Inr_map) (use e in fastforce)
  have dk: "distinct (map ?pk ?es)"
  proof -
    have df: "distinct ?es" "inj_on fst (set ?es)" using store_view.scan_sorted [OF wf, of p] by (simp_all add: strict_sorted_iff distinct_map)
    moreover have "inj_on ?pk (set ?es)"
    proof (rule inj_onI)
      fix a b assume ab: "a \<in> set ?es" "b \<in> set ?es" "?pk a = ?pk b"
      have q: "record_key c (?pk a) = Inr (fst a)" "record_key c (?pk b) = Inr (fst b)" using e [of "fst a" "snd a"] e [of "fst b" "snd b"] ab(1,2) by (simp_all, blast+)
      have "record_key c (?pk b) = Inr (fst a)" by (rule q(1) [unfolded ab(3)])
      then have "fst a = fst b" unfolding q(2) by (simp only: sum.inject)
      then show "a = b" using df(2) ab by (auto simp: inj_on_def)
    qed
    ultimately show ?thesis by (simp add: distinct_map)
  qed
  have "map cr_primary_key (map ?g ?es) = map ?pk ?es" by (simp add: record_of_def comp_def)
  moreover have "set (map ?g ?es) = {record_of pk r | pk r. R (c, pk) = Some r}"
  proof (intro set_eqI iffI)
    fix x assume "x \<in> set (map ?g ?es)"
    then show "x \<in> {record_of pk r | pk r. R (c, pk) = Some r}" using e by fastforce
  next
    fix x assume "x \<in> {record_of pk r | pk r. R (c, pk) = Some r}"
    then obtain pk r where x: "x = record_of pk r" "R (c, pk) = Some r" by blast
    then obtain k where k: "record_key c pk = Inr k" using col_rep_fits(1) [OF rep, of c pk] by (auto simp: key_Inr)
    obtain v where v: "store_get s k = Some v" using col_repD(1) [OF rep k] x(2) by (cases "store_get s k") auto
    have "(k, v) \<in> set ?es" using store_view.scan_mem [OF wf] col_key_inj(5) [OF p k] v by simp
    note kv = this
    have "?pk (k, v) = pk" using e [OF kv] col_key_inj(1) [OF k] by blast
    then have "?g (k, v) = x" unfolding x(1) by (simp only: x(2) option.sel)
    then have "x \<in> ?g ` set ?es" by (rule image_eqI [OF sym kv])
    then show "x \<in> set (map ?g ?es)" by (simp only: set_map)
  qed
  ultimately show ?thesis using m dk by metis
qed

section \<open>Durability\<close>

lemma logging_records [logging_intros]:
  "logging D (tx_upsert_record D c pk value ivs)" "logging D (tx_delete_record D c pk)" "logging D (run_record_call D call)"
proof -
  have d: "logging D (delete_index_entry D c pk iv)" "logging D (put_index_entry D c pk iv)" for c pk iv
    unfolding delete_index_entry_def put_index_entry_def by (intro logging_intros)+
  show u: "logging D (tx_upsert_record D c pk v ivs)" for c pk v ivs unfolding tx_upsert_record_def by (intro logging_intros d)
  show w: "logging D (tx_delete_record D c pk)" for c pk unfolding tx_delete_record_def by (intro logging_intros d)
  show "logging D (run_record_call D call)" by (cases call) (simp_all add: u w logging_bind logging_return)
qed

lemma keeps_collection:
  "keeps (recoverable D) (create_collection D name d)" "keeps (recoverable D) (migrate_collection_schema D name a b cd)"
  "keeps (recoverable D) (define_index D c di)" "keeps (recoverable D) (upsert_record D c pk value ivs)" "keeps (recoverable D) (delete_record D c pk)"
  "keeps (recoverable D) (records_tx D calls)"
  unfolding create_collection_def migrate_collection_schema_def define_index_def upsert_record_def delete_record_def records_tx_def
  by (intro keeps_intros logging_intros)+

end
