(* ===== verification/Collection_Properties.thy ===== *)
theory Collection_Properties
  imports Collection_Schema Service_Progress
begin

text \<open>
  Properties of collections: queries agree with the records, unique indexes, transactions over
  records, and the history of schema versions.
\<close>

section \<open>A store with one record\<close>

lemma check_index_ok:
  assumes col: "tx_col t I R" and i: "I (c, iv_index iv) = Some u" and x: "fits (iv_value iv)"
    and free: "\<And>pk' r. u \<Longrightarrow> R (c, pk') = Some r \<Longrightarrow> indexed r (iv_index iv) (iv_value iv) \<Longrightarrow> pk' = pk"
  shows "check_index t c pk iv = Inr ()"
proof -
  have rep: "col_rep (tx_get_internal t) I R" and wf: "store_wf (tx_store t)" using col by (simp_all add: tx_col_def)
  have f: "fits c" "fits (iv_index iv)" using col_rep_fits(2) [OF rep, of c "iv_index iv"] i by simp_all
  obtain k p where k: "index_meta_key c (iv_index iv) = Inr k" and p: "index_value_prefix c (iv_index iv) (iv_value iv) = Inr p" using f x by (simp add: key_Inr)
  have d: "index_definition_tx t c (iv_index iv) = Inr \<lparr>id_name = iv_index iv, id_unique = u\<rparr>"
    unfolding index_definition_tx_def k using col_repD(2) [OF rep k] i by (auto simp: decode_index_definition_def)
  have "owner = pk" if "u" "(q, owner) \<in> set (tx_scan_prefix_internal t p)" for q owner
  proof -
    have q: "prefix p q" "tx_get_internal t q = Some owner" using that(2) tx_scan_mem(1) [OF wf] by auto
    have "prefix COL_INDEX_PREFIX q" using q(1) p by (auto simp: key_Inr prefix_def)
    then obtain c' i' x' where e: "index_entry_key c' i' x' owner = Inr q" using col_repD(4) [OF rep _ q(2)] by blast
    then have "c' = c" "i' = iv_index iv" "x' = iv_value iv" using col_key_inj(4) [OF p e] q(1) by simp_all
    then show ?thesis using col_repD(3) [OF rep e] q(2) free [OF that(1)] by (auto split: if_splits)
  qed
  then show ?thesis by (auto simp: check_index_def d p list_ex_iff)
qed

lemma can_upsert:
  assumes col: "tx_col t I R" and mk: "meta_key c = Inr mk" "tx_get_internal t mk \<noteq> None" and pk: "pk \<noteq> []" "R (c, pk) = None"
    and iv: "check_index t c pk iv = Inr ()" and bs: "encode_record_value content [iv] = Inr bs" "length bs < 2 ^ 29"
    and l: "length c < 2 ^ 28" "length pk < 2 ^ 28" "length (iv_index iv) < 2 ^ 28" "length (iv_value iv) < 2 ^ 28"
  shows "can (1 + 1 * length [iv]) (tx_upsert_record D c pk content [iv]) t ()"
proof -
  have f: "fits c" "fits pk" "fits (iv_index iv)" "fits (iv_value iv)" using l by (simp_all add: fits_def)
  obtain rk where rk: "record_key c pk = Inr rk" using f by (simp add: key_Inr)
  obtain ek where ek: "index_entry_key c (iv_index iv) (iv_value iv) pk = Inr ek" using f by (simp add: key_Inr)
  have len: "length rk < 2 ^ 30" "length ek < 2 ^ 31 - 2 ^ 28"
    using rk ek l by (simp_all add: key_Inr framed_def COL_RECORD_PREFIX_def COL_INDEX_PREFIX_def ascii_def)
  have old: "transpose_map decode_record_value (tx_get_internal t rk) = Inr None" using col_repD(1) [of "tx_get_internal t" I R, OF _ rk] col pk(2) by (simp add: tx_col_def)
  have pe: "can 1 (put_index_entry D c pk y) t' ()" if "y \<in> set [iv]" for y t'
    using that can_map_err [OF can_put [of ek pk D t'], of CoStore] ek len l(2) by (simp add: put_index_entry_def can_def act_lift_def act_bind_def)
  have "can (1 + 1 * length [iv]) (act_bind (act_map_err CoStore (tx_put_internal D rk bs)) (\<lambda>_. act_for (put_index_entry D c pk) [iv])) t ()"
    by (rule can_bind [OF can_map_err [OF can_put]], use len bs(2) in simp) (rule can_for [OF pe])
  moreover have "tx_upsert_record D c pk content [iv] t = act_bind (act_map_err CoStore (tx_put_internal D rk bs)) (\<lambda>_. act_for (put_index_entry D c pk) [iv]) t"
    using mk pk(1) rk old iv bs(1) by (auto simp: tx_upsert_record_def act_bind_def ensure_collection_tx_def)
  ultimately show ?thesis by (simp only: can_def)
qed

definition demo_record :: stored_record where
  "demo_record = \<lparr>sr_value = [7], sr_indexes = [\<lparr>iv_index = [105], iv_value = [9]\<rparr>]\<rparr>"

lemma empty_get [simp]: "store_get demo_job_store k = None"
  by (simp add: demo_job_store_def demo_store_def store_get_def)

lemma empty_collections: "store_col demo_job_store (\<lambda>_. None) (\<lambda>_. None)" "store_schema demo_job_store (\<lambda>_. None)"
proof -
  have w: "store_wf demo_job_store" using demo_job_store_simps(2) job_inv_wf by blast
  show "store_col demo_job_store (\<lambda>_. None) (\<lambda>_. None)" "store_schema demo_job_store (\<lambda>_. None)"
    using w by (simp_all add: store_col_def store_schema_def col_rep_def col_ok_def schema_rep_def)
qed

lemma collection_present: "store_schema s C \<Longrightarrow> C name \<noteq> None \<Longrightarrow> meta_key name = Inr k \<Longrightarrow> store_get s k \<noteq> None"
  using schema_repD(1) [of "store_get s" C name k] by (cases "store_get s k") (auto simp: store_schema_def)

lemma demo_collection:
  obtains s where "(col_op demo_deps)\<^sup>*\<^sup>* demo_job_store s" and "store_col s [([99], [105]) \<mapsto> True] [([99], [1]) \<mapsto> demo_record]"
    and "\<exists>C. store_schema s C \<and> C [99] \<noteq> None" and "healthy 200 s"
proof -
  have mk: "meta_key [99] = Inr (COL_META_PREFIX @ framed [99])" by (simp add: key_Inr fits_def)
  have ik: "index_meta_key [99] [105] = Inr (COL_INDEX_META_PREFIX @ framed [99] @ framed [105])" by (simp add: key_Inr fits_def)
  obtain bs where bs: "encode_collection_definition collection_definition_default = Inr bs" "length bs < 100"
    by (simp add: encode_collection_definition_def collection_definition_default_def u32_try_from_len_def ascii_def)
  have h0: "healthy (400 + 4) demo_job_store" by (rule healthy_mono [OF demo_job_store_simps(1)]) simp
  obtain s1 where s1: "store_put_internal demo_deps (COL_META_PREFIX @ framed [99]) bs demo_job_store = (Inr (), s1)" "healthy 400 s1"
    using store_put_internal_ok [OF demo_sha_ok h0, of "COL_META_PREFIX @ framed [99]" bs] bs(2) by (auto simp: COL_META_PREFIX_def framed_def ascii_def)
  have c1: "create_collection demo_deps [99] collection_definition_default demo_job_store = (Inr True, s1)"
    using s1(1) bs(1) mk by (simp add: create_collection_def col_validate_name_def act_bind_def act_map_err_def)
  note C1 = create_collection_step [OF empty_collections(2) c1]
  have sc1: "store_schema s1 [[99] \<mapsto> (collection_definition_default, [])]" using C1(1) by simp
  have co1: "store_col s1 (\<lambda>_. None) (\<lambda>_. None)" by (rule store_col_frame [OF empty_collections(1) _ C1(3)]) (use sc1 in \<open>simp_all add: store_schema_def\<close>)
  let ?d = "\<lparr>id_name = [105], id_unique = True\<rparr>"
  have e1: "ensure_collection s1 [99] = Inr ()" using collection_present [OF sc1 _ mk] by (simp add: ensure_collection_def mk)
  have n1: "store_get s1 (COL_INDEX_META_PREFIX @ framed [99] @ framed [105]) = None" using col_repD(2) [OF store_colD [OF co1] ik] by simp
  have h1: "healthy (300 + 4) s1" by (rule healthy_mono [OF s1(2)]) simp
  obtain s2 where s2: "store_put_internal demo_deps (COL_INDEX_META_PREFIX @ framed [99] @ framed [105]) [COL_FORMAT_VERSION, 1] s1 = (Inr (), s2)" "healthy 300 s2"
    using store_put_internal_ok [OF demo_sha_ok h1, of "COL_INDEX_META_PREFIX @ framed [99] @ framed [105]" "[COL_FORMAT_VERSION, 1]"]
    by (auto simp: COL_INDEX_META_PREFIX_def framed_def ascii_def)
  have c2: "define_index demo_deps [99] ?d s1 = (Inr True, s2)"
    using s2(1) e1 ik n1 by (simp add: define_index_def col_validate_name_def act_bind_def act_map_err_def)
  have co2: "store_col s2 [([99], [105]) \<mapsto> True] (\<lambda>_. None)" using define_index_step(1) [OF co1 c2] by simp
  obtain I' R' C' where sc2': "store_schema s2 C'" "schema_evolves [[99] \<mapsto> (collection_definition_default, [])] C'"
    using col_op_step [OF op_define [OF c2] co1 sc1] by blast
  let ?iv = "\<lparr>iv_index = [105], iv_value = [9]\<rparr> :: index_value" and ?t = "fresh_tx True s2"
  have t: "tx_col ?t [([99], [105]) \<mapsto> True] (\<lambda>_. None)" by (rule fresh_tx_col [OF co2])
  have c': "C' [99] \<noteq> None" using sc2'(2) [unfolded schema_evolves_def, rule_format, of "[99]" collection_definition_default "[]"] by auto
  then have m2: "tx_get_internal ?t (COL_META_PREFIX @ framed [99]) \<noteq> None" using collection_present [OF sc2'(1) _ mk] by simp
  have ch: "check_index ?t [99] [1] ?iv = Inr ()" by (rule check_index_ok [OF t]) (simp_all add: fits_def)
  obtain rb where rb: "encode_record_value [7] [?iv] = Inr rb" "length rb < 100"
    by (simp add: encode_record_value_def u32_try_from_len_def u16_try_from_len_def)
  have "can (1 + 1 * length [?iv]) (tx_upsert_record demo_deps [99] [1] [7] [?iv]) ?t ()"
    by (rule can_upsert [OF t mk m2 _ _ ch rb(1)]) (use rb(2) in simp_all)
  from run_can [OF demo_sha_ok this, of 200 CoStore] healthy_mono [OF s2(2)] obtain s where s: "upsert_record demo_deps [99] [1] [7] [?iv] s2 = (Inr (), s)" "healthy 200 s"
    by (auto simp: upsert_record_def)
  note ops = op_create [OF c1] op_define [OF c2] op_upsert [OF s(1)]
  obtain C where C: "store_schema s C" "schema_evolves C' C" using col_op_step [OF ops(3) co2 sc2'(1)] by blast
  moreover obtain d0 ms0 where "C' [99] = Some (d0, ms0)" using c' by auto
  then have "C [99] \<noteq> None" using C(2) unfolding schema_evolves_def by fastforce
  moreover have "store_col s [([99], [105]) \<mapsto> True] [([99], [1]) \<mapsto> demo_record]" using upsert_record_step [OF co2 s(1)] by (simp add: demo_record_def)
  moreover have "(col_op demo_deps)\<^sup>*\<^sup>* demo_job_store s" using ops by (meson converse_rtranclp_into_rtranclp rtranclp.rtrancl_refl)
  ultimately show ?thesis using that s(2) by blast
qed

section \<open>Queries\<close>

text \<open>C31: after any sequence of collection operations, an exact query on a defined index returns, in the
  order of their primary keys and each once, exactly the records of the collection that carry the
  value in that index; on a unique index that is at most one.\<close>

theorem exact_query_faithful:
  assumes "(col_op D)\<^sup>*\<^sup>* s0 s" and "collection_inv s0" and "index_definition_of s c i = Inr d" and "length x < 2 ^ 32"
  shows "\<exists>rs. query_index_exact s c i x = Inr rs \<and> sorted_wrt (<) (map cr_primary_key rs) \<and>
    (\<forall>r. r \<in> set rs \<longleftrightarrow> get_record s c (cr_primary_key r) = Inr (Some r) \<and> \<lparr>iv_index = i, iv_value = x\<rparr> \<in> set (cr_indexes r)) \<and>
    (id_unique d \<longrightarrow> length rs \<le> 1)"
proof -
  obtain I0 R0 C0 where "store_col s0 I0 R0" "store_schema s0 C0" using assms(2) by (auto simp: collection_inv_def)
  then obtain I R C where col: "store_col s I R" using col_op_reachable [OF assms(1)] by blast
  have f: "fits c" "fits i" using assms(3) by (auto simp: index_definition_of_def res_bind_Inr_iff key_Inr)
  have d: "I (c, i) = Some (id_unique d)" using assms(3) index_definition_rep(1) [OF col f] by (auto split: option.splits)
  obtain rs where rs: "query_index_exact s c i x = Inr rs" "sorted_wrt (<) (map cr_primary_key rs)"
    "set rs = {record_of pk r | pk r. R (c, pk) = Some r \<and> indexed r i x}"
    using query_exact_spec [OF col, of c i x] d assms(4) by (auto simp: fits_def)
  have m: "r \<in> set rs \<longleftrightarrow> get_record s c (cr_primary_key r) = Inr (Some r) \<and> \<lparr>iv_index = i, iv_value = x\<rparr> \<in> set (cr_indexes r)" for r
    unfolding rs(3) by (rule record_read_iff [OF col f(1)])
  have "length rs \<le> 1" if u: "id_unique d"
  proof -
    have ok: "col_ok I R" using col by (simp add: store_col_def)
    have same: "cr_primary_key a = cr_primary_key b" if ab: "a \<in> set rs" "b \<in> set rs" for a b
    proof -
      obtain p p' q q' where "a = record_of p q" "R (c, p) = Some q" "indexed q i x" "b = record_of p' q'" "R (c, p') = Some q'" "indexed q' i x"
        using ab unfolding rs(3) by blast
      then show ?thesis using col_okD(2) [OF ok, of c i p q p' q' x] d u by (simp add: record_of_def)
    qed
    show ?thesis
    proof (rule ccontr)
      assume "\<not> length rs \<le> 1"
      then obtain a b ys where ab: "rs = a # b # ys" by (cases rs; cases "tl rs") auto
      have "cr_primary_key a = cr_primary_key b" by (rule same) (simp_all add: ab)
      moreover have "cr_primary_key a < cr_primary_key b" using rs(2) unfolding ab by simp
      ultimately show False by simp
    qed
  qed
  note u = this
  show ?thesis by (rule exI [of _ rs], intro conjI, rule rs(1), rule rs(2), rule allI, rule m, rule impI, erule u)
qed


theorem exact_query_faithful_witness:
  "\<exists>s rs. index_definition_of s [99] [105] = Inr \<lparr>id_name = [105], id_unique = True\<rparr> \<and> query_index_exact s [99] [105] [9] = Inr rs \<and>
     rs = [\<lparr>cr_primary_key = [1], cr_value = [7], cr_indexes = [\<lparr>iv_index = [105], iv_value = [9]\<rparr>]\<rparr>]"
proof -
  obtain s where s: "(col_op demo_deps)\<^sup>*\<^sup>* demo_job_store s" "store_col s [([99], [105]) \<mapsto> True] [([99], [1]) \<mapsto> demo_record]"
    by (rule demo_collection)
  let ?r = "\<lparr>cr_primary_key = [1], cr_value = [7], cr_indexes = [\<lparr>iv_index = [105], iv_value = [9]\<rparr>]\<rparr> :: collection_record"
  have i: "index_definition_of s [99] [105] = Inr \<lparr>id_name = [105], id_unique = True\<rparr>" using index_definition_rep(1) [OF s(2), of "[99]" "[105]"] by (simp add: fits_def)
  have inv: "collection_inv demo_job_store" unfolding collection_inv_def using empty_collections by blast
  from exact_query_faithful [OF s(1) inv i, of "[9]"] obtain rs where rs: "query_index_exact s [99] [105] [9] = Inr rs" "length rs \<le> 1"
    "\<And>r. r \<in> set rs \<longleftrightarrow> get_record s [99] (cr_primary_key r) = Inr (Some r) \<and> \<lparr>iv_index = [105], iv_value = [9]\<rparr> \<in> set (cr_indexes r)" by auto
  have "get_record s [99] [1] = Inr (Some ?r)" using get_record_rep [OF s(2), of "[99]" "[1]"] by (simp add: fits_def demo_record_def record_of_def)
  then have "?r \<in> set rs" using rs(3) [of ?r] by simp
  then have "rs = [?r]" using rs(2) by (cases rs; cases "tl rs") auto
  then show ?thesis using i rs(1) by blast
qed

text \<open>C32: a range query on a defined index returns the pairs of index value and record that lie within its
  bounds, ordered by value and then by primary key, ascending or descending as asked, each pair
  once, and cut off at the limit: no index entry is corrupt or dangling, and none is missing.\<close>

theorem range_query_exact:
  assumes "(col_op D)\<^sup>*\<^sup>* s0 s" and "collection_inv s0" and "index_definition_of s c i = Inr d" and "c \<noteq> []" and "i \<noteq> []"
  shows "\<exists>xs. sorted_wrt (if rq_order q = Descending then (>) else (<)) (map (\<lambda>x. (ir_index_value x, cr_primary_key (ir_record x))) xs) \<and>
    (\<forall>x. x \<in> set xs \<longleftrightarrow> get_record s c (cr_primary_key (ir_record x)) = Inr (Some (ir_record x)) \<and>
      \<lparr>iv_index = i, iv_value = ir_index_value x\<rparr> \<in> set (cr_indexes (ir_record x)) \<and> within_bounds (ir_index_value x) (rq_start q) (rq_end q)) \<and>
    query_index_range s c i q = Inr (case rq_limit q of None \<Rightarrow> xs | Some limit \<Rightarrow> take limit xs)"
proof -
  obtain I0 R0 C0 where "store_col s0 I0 R0" "store_schema s0 C0" using assms(2) by (auto simp: collection_inv_def)
  then obtain I R C where col: "store_col s I R" using col_op_reachable [OF assms(1)] by blast
  have f: "fits c" "fits i" using assms(3) by (auto simp: index_definition_of_def res_bind_Inr_iff key_Inr)
  have d: "I (c, i) = Some (id_unique d)" using assms(3) index_definition_rep(1) [OF col f] by (auto split: option.splits)
  let ?g = "\<lambda>(x, pk). \<lparr>ir_index_value = x, ir_record = record_of pk (the (R (c, pk)))\<rparr>"
  obtain ys where ys: "ordered_range R c i q ys" "query_index_range s c i q = Inr (map ?g (case rq_limit q of None \<Rightarrow> ys | Some limit \<Rightarrow> take limit ys))"
    using query_range_spec [OF col _ assms(4,5), of q] d by auto
  let ?xs = "map ?g ys"
  have key: "map (\<lambda>x. (ir_index_value x, cr_primary_key (ir_record x))) ?xs = ys" by (simp add: comp_def case_prod_unfold record_of_def)
  have m: "x \<in> set ?xs \<longleftrightarrow> get_record s c (cr_primary_key (ir_record x)) = Inr (Some (ir_record x)) \<and>
      \<lparr>iv_index = i, iv_value = ir_index_value x\<rparr> \<in> set (cr_indexes (ir_record x)) \<and> within_bounds (ir_index_value x) (rq_start q) (rq_end q)" for x
  proof -
    have "x \<in> set ?xs \<longleftrightarrow> ir_record x \<in> {record_of pk r | pk r. R (c, pk) = Some r \<and> indexed r i (ir_index_value x)} \<and> within_bounds (ir_index_value x) (rq_start q) (rq_end q)"
    proof
      assume "x \<in> set ?xs"
      then obtain v pk r where "x = \<lparr>ir_index_value = v, ir_record = record_of pk r\<rparr>" "R (c, pk) = Some r" "indexed r i v" "within_bounds v (rq_start q) (rq_end q)"
        using ys(1) by (auto simp: ordered_range_def owns_def)
      then show "ir_record x \<in> {record_of pk r | pk r. R (c, pk) = Some r \<and> indexed r i (ir_index_value x)} \<and> within_bounds (ir_index_value x) (rq_start q) (rq_end q)"
        by (simp, blast)
    next
      assume x: "ir_record x \<in> {record_of pk r | pk r. R (c, pk) = Some r \<and> indexed r i (ir_index_value x)} \<and> within_bounds (ir_index_value x) (rq_start q) (rq_end q)"
      then obtain pk r where r: "ir_record x = record_of pk r" "R (c, pk) = Some r" "indexed r i (ir_index_value x)" by blast
      then have "(ir_index_value x, pk) \<in> set ys" using ys(1) x by (auto simp: ordered_range_def owns_def)
      moreover have "x = ?g (ir_index_value x, pk)" using r by simp
      ultimately show "x \<in> set ?xs" unfolding set_map by (rule rev_image_eqI)
    qed
    then show ?thesis using record_read_iff [OF col f(1)] by simp
  qed
  have "query_index_range s c i q = Inr (case rq_limit q of None \<Rightarrow> ?xs | Some limit \<Rightarrow> take limit ?xs)"
    using ys(2) by (cases "rq_limit q") (simp_all add: take_map)
  then show ?thesis using ys(1) m key unfolding ordered_range_def by (intro exI [of _ ?xs] conjI allI) simp_all
qed

theorem range_query_exact_witness:
  "\<exists>s. index_definition_of s [99] [105] = Inr \<lparr>id_name = [105], id_unique = True\<rparr> \<and>
     query_index_range s [99] [105] (query_between [8] [10]) =
       Inr [\<lparr>ir_index_value = [9], ir_record = \<lparr>cr_primary_key = [1], cr_value = [7], cr_indexes = [\<lparr>iv_index = [105], iv_value = [9]\<rparr>]\<rparr>\<rparr>]"
proof -
  obtain s where s: "(col_op demo_deps)\<^sup>*\<^sup>* demo_job_store s" "store_col s [([99], [105]) \<mapsto> True] [([99], [1]) \<mapsto> demo_record]"
    by (rule demo_collection)
  let ?x = "\<lparr>ir_index_value = [9], ir_record = \<lparr>cr_primary_key = [1], cr_value = [7], cr_indexes = [\<lparr>iv_index = [105], iv_value = [9]\<rparr>]\<rparr>\<rparr> :: indexed_record"
  let ?q = "query_between [8] [10]"
  have i: "index_definition_of s [99] [105] = Inr \<lparr>id_name = [105], id_unique = True\<rparr>" using index_definition_rep(1) [OF s(2), of "[99]" "[105]"] by (simp add: fits_def)
  have inv: "collection_inv demo_job_store" unfolding collection_inv_def using empty_collections by blast
  have q: "rq_order ?q = Ascending" "rq_limit ?q = None" "rq_start ?q = Included [8]" "rq_end ?q = Included [10]" by (simp_all add: query_between_def index_range_query_default_def)
  from range_query_exact [OF s(1) inv i, of ?q] obtain xs where xs: "query_index_range s [99] [105] ?q = Inr xs"
    "sorted_wrt (<) (map (\<lambda>x. (ir_index_value x, cr_primary_key (ir_record x))) xs)"
    "\<And>x. x \<in> set xs \<longleftrightarrow> get_record s [99] (cr_primary_key (ir_record x)) = Inr (Some (ir_record x)) \<and>
      \<lparr>iv_index = [105], iv_value = ir_index_value x\<rparr> \<in> set (cr_indexes (ir_record x)) \<and> within_bounds (ir_index_value x) (Included [8]) (Included [10])"
    unfolding q by auto
  have g: "get_record s [99] pk = Inr (Some r) \<longleftrightarrow> pk = [1] \<and> r = ir_record ?x" for pk r
  proof (cases "fits pk")
    case True
    then show ?thesis using get_record_rep [OF s(2), of "[99]" pk] by (auto simp: fits_def demo_record_def record_of_def)
  next
    case False
    then have "record_key [99] pk \<noteq> Inr k" for k by (simp add: key_Inr)
    then show ?thesis using False by (cases "record_key [99] pk") (auto simp: get_record_def fits_def)
  qed
  have "x \<in> set xs \<longleftrightarrow> x = ?x" for x unfolding xs(3) g by (cases x) (auto simp: within_bounds_def)
  then have "set xs = {?x}" by blast
  moreover have "distinct xs" using xs(2) by (auto simp: strict_sorted_iff distinct_map)
  ultimately have "xs = [?x]" by (cases xs; cases "tl xs") auto
  then show ?thesis using i xs(1) by blast
qed


section \<open>Transactions over records\<close>

text \<open>The map of records that the reading interface shows.\<close>

definition records_of :: "store \<Rightarrow> record_map" where
  "records_of s = (\<lambda>(c, pk). case get_record s c pk of Inr (Some r) \<Rightarrow> Some \<lparr>sr_value = cr_value r, sr_indexes = cr_indexes r\<rparr> | _ \<Rightarrow> None)"

lemma records_of_rep:
  assumes "store_col s I R"
  shows "records_of s = R"
proof (rule ext, clarify)
  fix c pk
  show "records_of s (c, pk) = R (c, pk)"
  proof (cases "fits c \<and> fits pk")
    case True
    then show ?thesis using get_record_rep [OF assms, of c pk] by (cases "R (c, pk)") (auto simp: records_of_def record_of_def)
  next
    case False
    then have "R (c, pk) = None" using col_rep_fits(1) [OF store_colD [OF assms], of c pk] by blast
    moreover have "record_key c pk \<noteq> Inr k" for k using False by (auto simp: key_Inr)
    then have "get_record s c pk \<noteq> Inr (Some r)" for r by (cases "record_key c pk") (auto simp: get_record_def)
    ultimately show ?thesis by (auto simp: records_of_def split: sum.splits option.splits)
  qed
qed

text \<open>C33: a transaction of upserts and deletions refines the same updates of a map from collection and
  primary key to records: when it succeeds all of them are visible, in order, and when any part of
  it fails none is; the collections stay well formed either way.\<close>

theorem record_transactions_refine:
  assumes "collection_inv s" and "records_tx D calls s = (r, s')"
  shows "collection_inv s' \<and> records_of s' = (if r = Inr () then fold apply_record_call calls (records_of s) else records_of s)"
proof -
  obtain I R C where col: "store_col s I R" and sch: "store_schema s C" using assms(1) by (auto simp: collection_inv_def)
  note col' = records_tx_step [OF col assms(2)]
  obtain C' where "store_schema s' C'" using col_op_step [OF op_records [OF assms(2)] col sch] by blast
  then have "collection_inv s'" using col' by (auto simp: collection_inv_def)
  then show ?thesis using records_of_rep [OF col] records_of_rep [OF col'] by simp
qed

theorem record_transactions_refine_witness:
  "\<exists>s s'. collection_inv s \<and> records_tx demo_deps [CallUpsert [99] [2] [8] [\<lparr>iv_index = [105], iv_value = [10]\<rparr>]] s = (Inr (), s') \<and>
     records_of s' = [([99], [1]) \<mapsto> demo_record, ([99], [2]) \<mapsto> \<lparr>sr_value = [8], sr_indexes = [\<lparr>iv_index = [105], iv_value = [10]\<rparr>]\<rparr>]"
proof -
  obtain s where s: "store_col s [([99], [105]) \<mapsto> True] [([99], [1]) \<mapsto> demo_record]" "\<exists>C. store_schema s C \<and> C [99] \<noteq> None" "healthy 200 s" by (rule demo_collection)
  let ?iv = "\<lparr>iv_index = [105], iv_value = [10]\<rparr> :: index_value" and ?t = "fresh_tx True s"
  have inv: "collection_inv s" using s by (auto simp: collection_inv_def)
  have mk: "meta_key [99] = Inr (COL_META_PREFIX @ framed [99])" by (simp add: key_Inr fits_def)
  have t: "tx_col ?t [([99], [105]) \<mapsto> True] [([99], [1]) \<mapsto> demo_record]" by (rule fresh_tx_col [OF s(1)])
  have m: "tx_get_internal ?t (COL_META_PREFIX @ framed [99]) \<noteq> None" using s(2) collection_present [OF _ _ mk] by auto
  have ch: "check_index ?t [99] [2] ?iv = Inr ()" by (rule check_index_ok [OF t, where u = True]) (auto simp: fits_def demo_record_def indexed_def split: if_splits)
  obtain rb where rb: "encode_record_value [8] [?iv] = Inr rb" "length rb < 100"
    by (simp add: encode_record_value_def u32_try_from_len_def u16_try_from_len_def)
  have "can (1 + 1 * length [?iv]) (tx_upsert_record demo_deps [99] [2] [8] [?iv]) ?t ()"
    by (rule can_upsert [OF t mk m _ _ ch rb(1)]) (use rb(2) in simp_all)
  from can_bind [OF this, of 0 "\<lambda>_. act_return ()" "()"] have "can (1 + 1 * length [?iv] + 0) (act_for (run_record_call demo_deps) [CallUpsert [99] [2] [8] [?iv]]) ?t ()"
    by (simp add: can_pure)
  from run_can [OF demo_sha_ok this, of 100 CoStore] healthy_mono [OF s(3)] obtain s' where
    s': "records_tx demo_deps [CallUpsert [99] [2] [8] [?iv]] s = (Inr (), s')" by (auto simp: records_tx_def)
  show ?thesis using record_transactions_refine [OF inv s'] inv s' records_of_rep [OF s(1)] by auto
qed

section \<open>Schema versions\<close>

text \<open>C34: the stored migrations of a collection are its history: each starts at the version the one
  before it reached, and the last one led to the current definition. Later operations only append
  to the history, and the version never goes back.\<close>

theorem schema_history_chained:
  assumes "(col_op D)\<^sup>*\<^sup>* s0 s" and "collection_inv s0" and "(col_op D)\<^sup>*\<^sup>* s s'" and "collection_definition_of s name = Inr (Some d)"
  shows "\<exists>ms d' ms'. collection_migrations s name = Inr ms \<and> chained ms d \<and> collection_definition_of s' name = Inr (Some d') \<and>
    collection_migrations s' name = Inr (ms @ ms') \<and> chained (ms @ ms') d' \<and> cd_schema_version d \<le> cd_schema_version d'"
proof -
  obtain I0 R0 C0 where "store_col s0 I0 R0" "store_schema s0 C0" using assms(2) by (auto simp: collection_inv_def)
  then obtain I R C where col: "store_col s I R" "store_schema s C" using col_op_reachable [OF assms(1)] by blast
  then obtain I' R' C' where col': "store_schema s' C'" "schema_evolves C C'" using col_op_reachable [OF assms(3)] by blast
  have f: "fits name" using assms(4) by (auto simp: collection_definition_of_def res_bind_Inr_iff key_Inr)
  obtain ms where ms: "C name = Some (d, ms)" using schema_reads(1) [OF col(2) f] assms(4) by (cases "C name") auto
  then obtain d' ms' where d': "C' name = Some (d', ms @ ms')" "cd_schema_version d \<le> cd_schema_version d'"
    using col'(2) unfolding schema_evolves_def prefix_def by blast
  have ch: "chained ms d" "chained (ms @ ms') d'" using ms d'(1) col(2) col'(1) schema_repD(2) by (auto simp: store_schema_def)
  show ?thesis using schema_reads [OF col(2) f] schema_reads [OF col'(1) f] ms d' ch by auto
qed

lemma act_bind_value: "act_bind (act_lift (Inr a)) f = f a"
  by (rule ext) (simp add: act_bind_def)

lemma demo_migration:
  obtains s s' where "collection_inv s" and "collection_definition_of s [99] = Inr (Some collection_definition_default)" and "collection_migrations s [99] = Inr []"
    and "migrate_collection_schema demo_deps [99] 1 2 [106] s = (Inr True, s')"
proof -
  have mk: "meta_key [99] = Inr (COL_META_PREFIX @ framed [99])" (is "_ = Inr ?k") by (simp add: key_Inr fits_def)
  obtain bs where bs: "encode_collection_definition collection_definition_default = Inr bs"
    by (simp add: encode_collection_definition_def collection_definition_default_def u32_try_from_len_def ascii_def)
  let ?s = "single ?k bs" and ?C = "[[99] \<mapsto> (collection_definition_default, [])] :: schema_map"
  note dec = decode_definition_encode [OF bs]
  have k: "prefix COL_META_PREFIX ?k" by simp
  have "schema_rep (store_get demo_job_store) (\<lambda>_. None)" using empty_collections(2) by (simp add: store_schema_def)
  from schema_rep_update [OF this mk dec, of "[]" "store_get ?s"] have "schema_rep (store_get ?s) ?C"
    using col_spaces(4) [OF k] by auto
  then have sch: "store_schema ?s ?C" by (simp add: store_schema_def)
  have col: "store_col ?s (\<lambda>_. None) (\<lambda>_. None)"
    by (rule store_col_frame [OF empty_collections(1)])
      (use schema_not_col [OF schema_key_space(1) [OF mk]] in auto)
  note R = schema_reads [OF sch, of "[99]"]
  obtain b1 b2 mk' where b: "encode_collection_definition \<lparr>cd_schema_version = 2, cd_codec = [106]\<rparr> = Inr b1" "length b1 < 100"
    "encode_collection_migration \<lparr>cm_from_version = 1, cm_to_version = 2, cm_codec = [106]\<rparr> = Inr b2" "length b2 < 100"
    "migration_key [99] 1 2 = Inr mk'" "length mk' < 100"
    by (simp add: encode_collection_definition_def encode_collection_migration_def u32_try_from_len_def migration_key_Inr fits_def framed_def COL_MIGRATION_PREFIX_def ascii_def)
  have "can (1 + (1 + 0)) (act_bind (act_map_err CoStore (tx_put_internal demo_deps ?k b1)) (\<lambda>_.
      act_bind (act_map_err CoStore (tx_put_internal demo_deps mk' b2)) (\<lambda>_. act_return True))) (fresh_tx True ?s) True"
    by (rule can_bind [OF can_map_err [OF can_put] can_bind [OF can_map_err [OF can_put] can_pure(1)]])
      (use b in \<open>simp_all add: COL_META_PREFIX_def framed_def ascii_def\<close>)
  from run_can [OF demo_sha_ok this, of 10 CoStore] healthy_mono [of 500 ?s 16] obtain s' where
    "run_tx demo_deps True CoStore (act_bind (act_map_err CoStore (tx_put_internal demo_deps ?k b1)) (\<lambda>_.
      act_bind (act_map_err CoStore (tx_put_internal demo_deps mk' b2)) (\<lambda>_. act_return True))) ?s = (Inr True, s')" by auto
  moreover have "\<not> (2 :: u32) \<le> 1" by (simp add: word_le_nat_alt)
  ultimately have "migrate_collection_schema demo_deps [99] 1 2 [106] ?s = (Inr True, s')"
    using mk dec b(1,3,5) by (simp add: migrate_collection_schema_def act_bind_def [of "\<lambda>s. (f s, s)" for f] collection_definition_default_def act_bind_value)
  then show ?thesis using that [of ?s s'] col sch R by (auto simp: collection_inv_def fits_def)
qed

theorem schema_history_chained_witness:
  "\<exists>s s' d' ms. collection_definition_of s [99] = Inr (Some collection_definition_default) \<and> col_op demo_deps s s' \<and>
     collection_definition_of s' [99] = Inr (Some d') \<and> collection_migrations s' [99] = Inr ms \<and> chained ms d' \<and> 1 \<le> cd_schema_version d'"
proof -
  obtain s s' where s: "collection_inv s" "collection_definition_of s [99] = Inr (Some collection_definition_default)"
    "migrate_collection_schema demo_deps [99] 1 2 [106] s = (Inr True, s')" by (rule demo_migration)
  have o: "col_op demo_deps s s'" by (rule op_migrate [OF s(3)])
  have "cd_schema_version collection_definition_default = 1" by (simp add: collection_definition_default_def)
  then show ?thesis using schema_history_chained [OF rtranclp.rtrancl_refl s(1) r_into_rtranclp [of "col_op demo_deps", OF o] s(2)] s(2) o by auto
qed

end
