(* ===== verification/Files.thy ===== *)
theory Files
  imports Instance
begin

text \<open>
  Files by name, for the parts of the crate that work on several store files: compaction,
  snapshots, checkpoints, restore, generations and their activation
  (\<open>crates/voodoo-store-core/src/\<close>: \<open>engine.rs\<close> for \<open>open\<close>, \<open>verify\<close> and \<open>backup_to\<close>, and the
  helpers of \<open>checkpoint.rs\<close> and \<open>generation.rs\<close> that reserve temporary names).

  A path is a string in normal form (no doubled or trailing slash). \<open>fs_resolve\<close> gives the
  directory entry that a path names, so that two paths may name one file. Every fallible call
  (open, metadata, remove, rename, canonicalize, directory sync) consumes the head of
  \<open>fs_calls\<close>, every lock attempt the head of \<open>fs_locks\<close>; writes, syncs and entropy come from
  \<open>fs_os\<close>. An exhausted script means success. Reads and seeks succeed.
\<close>

section \<open>The file system\<close>

record fs =
  fs_files :: "string \<rightharpoonup> bytes"
  fs_resolve :: "string \<Rightarrow> string"
  fs_calls :: "io_kind option list"
  fs_locks :: "io_kind option list"
  fs_os :: os_script
  fs_now :: int
  fs_process :: process

definition file_at :: "fs \<Rightarrow> string \<Rightarrow> bytes option" where
  "file_at w p = fs_files w (fs_resolve w p)"

definition path_exists :: "fs \<Rightarrow> string \<Rightarrow> bool" where
  "path_exists w p \<longleftrightarrow> file_at w p \<noteq> None"

definition set_file :: "string \<Rightarrow> bytes option \<Rightarrow> fs \<Rightarrow> fs" where
  "set_file p c w = w\<lparr>fs_files := (fs_files w)(fs_resolve w p := c)\<rparr>"

definition fs_call :: "(fs, io_kind, unit) act" where
  "fs_call w =
     (case fs_calls w of
        [] \<Rightarrow> (Inr (), w)
      | None # cs \<Rightarrow> (Inr (), w\<lparr>fs_calls := cs\<rparr>)
      | Some k # cs \<Rightarrow> (Inl k, w\<lparr>fs_calls := cs\<rparr>))"

definition open_read :: "string \<Rightarrow> (fs, io_kind, bytes) act" where
  "open_read p = act_bind fs_call (\<lambda>_ w. (ok_or NotFound (file_at w p), w))"

definition create_new :: "string \<Rightarrow> (fs, io_kind, unit) act" where
  "create_new p = act_bind fs_call (\<lambda>_ w.
     if path_exists w p then (Inl AlreadyExists, w) else (Inr (), set_file p (Some []) w))"

definition create_truncate :: "string \<Rightarrow> (fs, io_kind, unit) act" where
  "create_truncate p = act_bind fs_call (\<lambda>_ w. (Inr (), set_file p (Some []) w))"

definition metadata_len :: "string \<Rightarrow> (fs, io_kind, u64) act" where
  "metadata_len p = act_bind fs_call (\<lambda>_ w.
     (ok_or NotFound (map_option (\<lambda>bs. of_nat (length bs)) (file_at w p)), w))"

definition remove_file :: "string \<Rightarrow> (fs, io_kind, unit) act" where
  "remove_file p = act_bind fs_call (\<lambda>_ w.
     if path_exists w p then (Inr (), set_file p None w) else (Inl NotFound, w))"

definition rename_file :: "string \<Rightarrow> string \<Rightarrow> (fs, io_kind, unit) act" where
  "rename_file p q = act_bind fs_call (\<lambda>_ w.
     case file_at w p of
       None \<Rightarrow> (Inl NotFound, w)
     | Some bs \<Rightarrow> (Inr (), set_file q (Some bs) (set_file p None w)))"

definition canonicalize :: "string \<Rightarrow> (fs, io_kind, string) act" where
  "canonicalize p = act_bind fs_call (\<lambda>_ w.
     if path_exists w p then (Inr (fs_resolve w p), w) else (Inl NotFound, w))"

text \<open>Writing: \<open>place\<close> says where the written bytes go, at the end or over the beginning.\<close>

definition fs_write :: "string \<Rightarrow> (bytes \<Rightarrow> bytes \<Rightarrow> bytes) \<Rightarrow> bytes \<Rightarrow> (fs, io_kind, unit) act" where
  "fs_write p place bs w =
     (let old = (case file_at w p of None \<Rightarrow> [] | Some c \<Rightarrow> c)
      in case os_writes (fs_os w) of
           [] \<Rightarrow> (Inr (), set_file p (Some (place bs old)) w)
         | WriteOk # ws \<Rightarrow>
             (Inr (), set_file p (Some (place bs old)) (w\<lparr>fs_os := (fs_os w)\<lparr>os_writes := ws\<rparr>\<rparr>))
         | WriteErr n k # ws \<Rightarrow>
             (Inl k, set_file p (Some (place (take n bs) old)) (w\<lparr>fs_os := (fs_os w)\<lparr>os_writes := ws\<rparr>\<rparr>)))"

definition at_end :: "bytes \<Rightarrow> bytes \<Rightarrow> bytes" where
  "at_end bs old = old @ bs"

definition at_start :: "bytes \<Rightarrow> bytes \<Rightarrow> bytes" where
  "at_start bs old = bs @ drop (length bs) old"

definition fs_sync :: "(fs, io_kind, unit) act" where
  "fs_sync w =
     (case os_syncs (fs_os w) of
        [] \<Rightarrow> (Inr (), w)
      | SyncOk # ys \<Rightarrow> (Inr (), w\<lparr>fs_os := (fs_os w)\<lparr>os_syncs := ys\<rparr>\<rparr>)
      | SyncErr k # ys \<Rightarrow> (Inl k, w\<lparr>fs_os := (fs_os w)\<lparr>os_syncs := ys\<rparr>\<rparr>))"

definition io_copy :: "bytes \<Rightarrow> string \<Rightarrow> (fs, io_kind, u64) act" where
  "io_copy bs p = act_bind (fs_write p at_end bs) (\<lambda>_. act_return (of_nat (length bs)))"

text \<open>\<open>let _ = fs::remove_file(p);\<close>, and the same on every error of a step.\<close>

definition discard_file :: "string \<Rightarrow> fs \<Rightarrow> fs" where
  "discard_file p w = snd (remove_file p w)"

definition or_remove :: "string \<Rightarrow> (fs, 'e, 'a) act \<Rightarrow> (fs, 'e, 'a) act" where
  "or_remove p m w = (case m w of (Inl e, w1) \<Rightarrow> (Inl e, discard_file p w1) | (Inr a, w1) \<Rightarrow> (Inr a, w1))"

section \<open>Store files\<close>

text \<open>The advisory lock: refused while this process has the file open for writing.\<close>

definition lock_answer :: "string \<Rightarrow> fs \<Rightarrow> io_kind option \<times> fs" where
  "lock_answer p w =
     (if fs_resolve w p \<in> set (pr_writers (fs_process w)) then (Some WouldBlock, w)
      else case fs_locks w of [] \<Rightarrow> (None, w) | l # ls \<Rightarrow> (l, w\<lparr>fs_locks := ls\<rparr>))"

definition verify_path :: "deps \<Rightarrow> string \<Rightarrow> (fs, engine_error, verification_report) act" where
  "verify_path D p = act_bind (act_map_err EIo (open_read p)) (\<lambda>bs w.
     case lock_answer p w of (lock, w1) \<Rightarrow> (verify D lock bs, w1))"

definition open_create :: "string \<Rightarrow> (fs, io_kind, unit) act" where
  "open_create p = act_bind fs_call (\<lambda>_ w.
     (Inr (), if path_exists w p then w else set_file p (Some []) w))"

definition attach_store :: "deps \<Rightarrow> string \<Rightarrow> string \<Rightarrow> (fs, engine_error, store) act" where
  "attach_store D p name w =
     (let file = (case file_at w p of None \<Rightarrow> [] | Some c \<Rightarrow> c);
          (lock, w1) = (case fs_locks w of [] \<Rightarrow> (None, w) | l # ls \<Rightarrow> (l, w\<lparr>fs_locks := ls\<rparr>))
      in case open_with_options D name store_options_default (fs_now w1) lock file (fs_os w1)
                (fs_process w1) of
           (r, bs, pr) \<Rightarrow> (r, set_file p (Some bs) (w1\<lparr>fs_process := pr\<rparr>)))"

definition open_store :: "deps \<Rightarrow> string \<Rightarrow> (fs, engine_error, store) act" where
  "open_store D p = act_bind (act_map_err EIo (open_create p)) (\<lambda>_.
     act_bind (act_map_err EIo (canonicalize p)) (attach_store D p))"

text \<open>Dropping a store: its file keeps what was written, the lock and the registry entry go.\<close>

definition close_store :: "string \<Rightarrow> store \<Rightarrow> fs \<Rightarrow> fs" where
  "close_store p s w = set_file p (Some (st_file s))
     (w\<lparr>fs_os := st_os s, fs_process := writer_drop (fs_resolve w p) (fs_process w)\<rparr>)"

definition with_store :: "deps \<Rightarrow> string \<Rightarrow> (store, engine_error, 'a) act \<Rightarrow> (fs, engine_error, 'a) act" where
  "with_store D p body w =
     (case open_store D p w of
        (Inl e, w1) \<Rightarrow> (Inl e, w1)
      | (Inr s, w1) \<Rightarrow> (case body s of (r, s1) \<Rightarrow> (r, close_store p s1 w1)))"

text \<open>A store that is open at a path, together with the file system around it.\<close>

record session =
  se_store :: store
  se_path :: string
  se_fs :: fs

definition on_fs :: "(fs, 'e, 'a) act \<Rightarrow> (session, 'e, 'a) act" where
  "on_fs m x = (case m (se_fs x) of (r, w) \<Rightarrow> (r, x\<lparr>se_fs := w\<rparr>))"

definition on_store :: "(store, 'e, 'a) act \<Rightarrow> (session, 'e, 'a) act" where
  "on_store m x = (case m (se_store x) of (r, s) \<Rightarrow> (r, x\<lparr>se_store := s\<rparr>))"

definition paths_refer_to_same_file :: "string \<Rightarrow> string \<Rightarrow> (fs, io_kind, bool) act" where
  "paths_refer_to_same_file source destination w =
     (if source = destination then (Inr True, w)
      else if \<not> path_exists w destination then (Inr False, w)
      else act_bind (canonicalize source) (\<lambda>a. act_bind (canonicalize destination) (\<lambda>b. act_return (a = b))) w)"

definition backup_file :: "string \<Rightarrow> (session, engine_error, u64) act" where
  "backup_file destination = act_bind (on_store (act_map_err EIo sync_call)) (\<lambda>_ x.
     act_bind (on_fs (act_map_err EIo (paths_refer_to_same_file (se_path x) destination))) (\<lambda>same y.
       if same then (Inl EBackupDestinationIsSource, y)
       else on_fs (act_map_err EIo (act_bind fs_call (\<lambda>_. act_bind (create_truncate destination) (\<lambda>_.
              act_bind (io_copy (st_file (se_store y)) destination) (\<lambda>bytes.
              act_bind fs_sync (\<lambda>_. act_return bytes)))))) y) x)"

section \<open>Temporary siblings\<close>

definition path_parent :: "string \<Rightarrow> string option" where
  "path_parent p =
     (if p = [] \<or> p = ''/'' then None
      else let dir = rev (dropWhile (\<lambda>c. c \<noteq> CHR ''/'') (rev p))
           in Some (if dir = ''/'' then dir else butlast dir))"

definition path_file_name :: "string \<Rightarrow> string option" where
  "path_file_name p =
     (let name = rev (takeWhile (\<lambda>c. c \<noteq> CHR ''/'') (rev p))
      in if name = [] \<or> name = ''.'' \<or> name = ''..'' then None else Some name)"

definition path_join :: "string \<Rightarrow> string \<Rightarrow> string" where
  "path_join dir name = (if dir = [] then name else if last dir = CHR ''/'' then dir @ name else dir @ ''/'' @ name)"

definition hex_digits :: string where
  "hex_digits = ''0123456789abcdef''"

definition hex16 :: "u64 \<Rightarrow> string" where
  "hex16 n = concat (map (\<lambda>b. [hex_digits ! (unat b div 16), hex_digits ! (unat b mod 16)]) (to_be n))"

datatype reserve_error = RvRandomness | RvIo io_kind | RvNameExhausted

definition random_nonce :: "(fs, reserve_error, u64) act" where
  "random_nonce w =
     (case os_entropy (fs_os w) of
        [] \<Rightarrow> (Inl RvRandomness, w)
      | x # xs \<Rightarrow> (map_err (\<lambda>_. RvRandomness) (res_bind (ok_or () x) (\<lambda>b. Inr (from_le (take 8 b)))),
                   w\<lparr>fs_os := (fs_os w)\<lparr>os_entropy := xs\<rparr>\<rparr>))"

text \<open>\<open>reserve_temporary_sibling\<close> and \<open>reserve_source_image\<close> are the same loop with a different
  label and fallback name.\<close>

fun reserve_loop :: "nat \<Rightarrow> string \<Rightarrow> string \<Rightarrow> string \<Rightarrow> (fs, reserve_error, string) act" where
  "reserve_loop 0 parent base label w = (Inl RvNameExhausted, w)"
| "reserve_loop (Suc n) parent base label w =
     (case random_nonce w of
        (Inl e, w1) \<Rightarrow> (Inl e, w1)
      | (Inr nonce, w1) \<Rightarrow>
          (let candidate = path_join parent (''.'' @ base @ ''.'' @ label @ ''-'' @ hex16 nonce @ ''.tmp'')
           in case create_new candidate w1 of
                (Inr _, w2) \<Rightarrow> (Inr candidate, w2)
              | (Inl k, w2) \<Rightarrow>
                  (if k = AlreadyExists then reserve_loop n parent base label w2 else (Inl (RvIo k), w2))))"

definition reserve_sibling :: "string \<Rightarrow> string \<Rightarrow> string \<Rightarrow> (fs, reserve_error, string) act" where
  "reserve_sibling label fallback destination =
     reserve_loop 16 (case path_parent destination of None \<Rightarrow> ''.'' | Some d \<Rightarrow> d)
       (case path_file_name destination of None \<Rightarrow> fallback | Some b \<Rightarrow> b) label"

section \<open>What an action leaves alone\<close>

text \<open>\<open>touches P a\<close>: the action changes at most the files that the paths in \<open>P\<close> name, and no
  names.\<close>

definition touches :: "string set \<Rightarrow> (fs, 'e, 'a) act \<Rightarrow> bool" where
  "touches P a \<longleftrightarrow> (\<forall>w r w'. a w = (r, w') \<longrightarrow> fs_resolve w' = fs_resolve w \<and>
     (\<forall>n. n \<notin> fs_resolve w ` P \<longrightarrow> fs_files w' n = fs_files w n))"

named_theorems touches_intros \<open>actions that leave other files alone\<close>

lemma touchesD:
  assumes "touches P a" and "a w = (r, w')"
  shows "fs_resolve w' = fs_resolve w" and "n \<notin> fs_resolve w ` P \<Longrightarrow> fs_files w' n = fs_files w n"
  using assms by (auto simp: touches_def)

lemma touches_mono: "touches P a \<Longrightarrow> P \<subseteq> Q \<Longrightarrow> touches Q a"
  unfolding touches_def by blast

lemma touches_pure [touches_intros]: "touches P (act_return v)" "touches P (act_lift r)" "touches P (\<lambda>w. (f w, w))"
  by (simp_all add: touches_def)

lemma touches_bind [touches_intros]:
  assumes "touches P a" and "\<And>x. touches P (f x)"
  shows "touches P (act_bind a f)"
  unfolding touches_def
proof (intro allI impI)
  fix w r w'
  assume "act_bind a f w = (r, w')"
  then consider e where "a w = (Inl e, w')" | x w1 where "a w = (Inr x, w1)" "f x w1 = (r, w')"
    by (auto simp: act_bind_def split: prod.splits sum.splits)
  then show "fs_resolve w' = fs_resolve w \<and> (\<forall>n. n \<notin> fs_resolve w ` P \<longrightarrow> fs_files w' n = fs_files w n)"
    by cases (use touchesD [OF assms(1)] touchesD [OF assms(2)] in \<open>metis+\<close>)
qed

lemma touches_map_err [touches_intros]: "touches P a \<Longrightarrow> touches P (act_map_err g a)"
  by (fastforce simp: touches_def act_map_err_def split: prod.splits)

lemma touches_if [touches_intros]: "touches P a \<Longrightarrow> touches P b \<Longrightarrow> touches P (if c then a else b)"
  by simp

lemma touches_prod [touches_intros]: "(\<And>x y. touches P (f x y)) \<Longrightarrow> touches P (case c of (x, y) \<Rightarrow> f x y)"
  by (cases c) simp

lemma touches_dep: "(\<And>v. touches P (f v)) \<Longrightarrow> touches P (\<lambda>w. f (g w) w)"
  unfolding touches_def by blast

lemma touches_call [touches_intros]: "touches P fs_call" "touches P fs_sync" "touches P random_nonce"
  by (auto simp: touches_def fs_call_def fs_sync_def random_nonce_def split: list.splits option.splits sync_outcome.splits)

lemma set_file_simps [simp]:
  "fs_resolve (set_file p c w) = fs_resolve w" "file_at (set_file p c w) p = c"
  "fs_os (set_file p c w) = fs_os w" "fs_process (set_file p c w) = fs_process w" "fs_locks (set_file p c w) = fs_locks w"
  "fs_calls (set_file p c w) = fs_calls w" "fs_now (set_file p c w) = fs_now w"
  by (simp_all add: set_file_def file_at_def)

lemma set_file_files: "n \<noteq> fs_resolve w p \<Longrightarrow> fs_files (set_file p c w) n = fs_files w n"
  by (simp add: set_file_def)

lemma set_file_outside: "p \<in> P \<Longrightarrow> n \<notin> fs_resolve w ` P \<Longrightarrow> fs_files (set_file p c w) n = fs_files w n"
  by (rule set_file_files) auto

lemma touches_set: "p \<in> P \<Longrightarrow> touches P (\<lambda>w. (f w, set_file p (c w) w))"
  by (simp add: touches_def set_file_outside)

lemma touches_open [touches_intros]: "touches P (open_read p)" "touches P (metadata_len p)" "touches P (canonicalize p)"
  unfolding open_read_def metadata_len_def canonicalize_def
  by (rule touches_bind; auto simp: touches_def fs_call_def split: list.splits option.splits)+

lemma touches_write [touches_intros]: "p \<in> P \<Longrightarrow> touches P (fs_write p place bs)"
  unfolding touches_def fs_write_def Let_def
  by (auto simp: set_file_outside split: list.splits write_outcome.splits)

lemma touches_copy [touches_intros]: "p \<in> P \<Longrightarrow> touches P (io_copy bs p)"
  unfolding io_copy_def by (intro touches_intros)

lemma touches_create [touches_intros]: "p \<in> P \<Longrightarrow> touches P (create_new p)" "p \<in> P \<Longrightarrow> touches P (create_truncate p)"
  unfolding create_new_def create_truncate_def
  by (rule touches_bind, rule touches_call, simp add: touches_def set_file_outside)+

lemma touches_remove [touches_intros]: "p \<in> P \<Longrightarrow> touches P (remove_file p)"
  unfolding remove_file_def by (rule touches_bind, rule touches_call) (simp add: touches_def set_file_outside)

lemma touches_rename [touches_intros]: "p \<in> P \<Longrightarrow> q \<in> P \<Longrightarrow> touches P (rename_file p q)"
  unfolding rename_file_def
  by (rule touches_bind, rule touches_call) (auto simp: touches_def set_file_outside split: option.splits)

lemma touches_or_remove [touches_intros]: "p \<in> P \<Longrightarrow> touches P a \<Longrightarrow> touches P (or_remove p a)"
  unfolding touches_def
proof (intro allI impI)
  fix w r w'
  assume p: "p \<in> P" and a: "\<forall>w r w'. a w = (r, w') \<longrightarrow> fs_resolve w' = fs_resolve w \<and>
     (\<forall>n. n \<notin> fs_resolve w ` P \<longrightarrow> fs_files w' n = fs_files w n)" and run: "or_remove p a w = (r, w')"
  obtain q w1 where q: "a w = (q, w1)" by fastforce
  obtain u w2 where u: "remove_file p w1 = (u, w2)" by fastforce
  have "w' = w1 \<or> w' = w2" using run q u by (auto simp: or_remove_def discard_file_def split: sum.splits)
  then show "fs_resolve w' = fs_resolve w \<and> (\<forall>n. n \<notin> fs_resolve w ` P \<longrightarrow> fs_files w' n = fs_files w n)"
    using a q touchesD [OF touches_remove [OF p] u] by metis
qed

lemma touches_verify [touches_intros]: "touches P (verify_path D p)"
  unfolding verify_path_def
  by (intro touches_intros) (auto simp: touches_def lock_answer_def split: if_splits list.splits prod.splits)

lemma touches_same_file [touches_intros]: "touches P (paths_refer_to_same_file a b)"
proof -
  have "touches P (act_bind (canonicalize a) (\<lambda>u. act_bind (canonicalize b) (\<lambda>v. act_return (u = v))))"
    by (intro touches_intros)
  then show ?thesis by (auto simp: touches_def paths_refer_to_same_file_def)
qed

lemma touches_open_store [touches_intros]:
  assumes p: "p \<in> P"
  shows "touches P (open_store D p)"
proof -
  have "touches P (open_create p)" unfolding open_create_def
    by (rule touches_bind, rule touches_call) (use p in \<open>simp add: touches_def set_file_outside\<close>)
  moreover have "touches P (attach_store D p name)" for name
    using p by (auto simp: touches_def attach_store_def Let_def set_file_outside split: list.splits prod.splits)
  ultimately show ?thesis unfolding open_store_def by (intro touches_intros)
qed

lemma touches_with_store [touches_intros]:
  assumes p: "p \<in> P"
  shows "touches P (with_store D p body)"
proof (unfold touches_def, intro allI impI)
  fix w r w'
  assume run: "with_store D p body w = (r, w')"
  obtain q w1 where q: "open_store D p w = (q, w1)" by fastforce
  note T = touchesD [OF touches_open_store [OF p] q]
  have "w' = w1 \<or> (\<exists>s. w' = close_store p s w1)"
    using run q by (auto simp: with_store_def split: sum.splits prod.splits)
  then show "fs_resolve w' = fs_resolve w \<and> (\<forall>n. n \<notin> fs_resolve w ` P \<longrightarrow> fs_files w' n = fs_files w n)"
    using T p by (auto simp: close_store_def set_file_outside)
qed

section \<open>Machines that stay sane\<close>

text \<open>Writes are done fully or not at all, syncs succeed, and the generator fills the buffers it
  is given.\<close>

definition ids_ok :: "os_script \<Rightarrow> bool" where
  "ids_ok os \<longleftrightarrow> (\<forall>b. Some b \<in> set (os_entropy os) \<longrightarrow> length b = 16)"

definition sane :: "fs \<Rightarrow> bool" where
  "sane w \<longleftrightarrow> benign (fs_os w) \<and> ids_ok (fs_os w)"

lemma keeps_sane_call [keeps_intros]: "keeps sane fs_call" "keeps sane fs_sync" "keeps sane random_nonce"
  by (auto simp: keeps_def sane_def benign_def ids_ok_def fs_call_def fs_sync_def random_nonce_def
      split: list.splits option.splits sync_outcome.splits)

lemma sane_set_file [simp]: "sane (set_file p c w) = sane w"
  by (simp add: sane_def)

lemma keeps_sane_files [keeps_intros]:
  "keeps sane (open_read p)" "keeps sane (metadata_len p)" "keeps sane (canonicalize p)" "keeps sane (create_new p)"
  "keeps sane (create_truncate p)" "keeps sane (remove_file p)"
  unfolding open_read_def metadata_len_def canonicalize_def create_new_def create_truncate_def remove_file_def
  by (rule keeps_bind, rule keeps_sane_call, simp add: keeps_def)+

lemma keeps_sane_write [keeps_intros]: "keeps sane (fs_write p place bs)"
  unfolding keeps_def fs_write_def Let_def
  by (auto simp: sane_def benign_def ids_ok_def split: list.splits write_outcome.splits)

lemma keeps_sane_copy [keeps_intros]: "keeps sane (io_copy bs p)"
  unfolding io_copy_def by (intro keeps_intros)

lemma keeps_sane_same_file [keeps_intros]: "keeps sane (paths_refer_to_same_file a b)"
proof -
  have "keeps sane (act_bind (canonicalize a) (\<lambda>u. act_bind (canonicalize b) (\<lambda>v. act_return (u = v))))" by (intro keeps_intros)
  then show ?thesis by (auto simp: keeps_def paths_refer_to_same_file_def)
qed

lemma keeps_sane_reserve: "keeps sane (reserve_loop n d b l)"
proof (induction n)
  case (Suc n)
  show ?case unfolding keeps_def
  proof (intro allI impI)
    fix w r w'
    assume s: "sane w" and run: "reserve_loop (Suc n) d b l w = (r, w')"
    obtain x w1 where x: "random_nonce w = (x, w1)" by fastforce
    have s1: "sane w1" by (rule keepsD [OF keeps_sane_call(3) s x])
    show "sane w'"
    proof (cases x)
      case (Inl e)
      then show ?thesis using run x s1 by simp
    next
      case (Inr i)
      let ?c = "path_join d (''.'' @ b @ ''.'' @ l @ ''-'' @ hex16 i @ ''.tmp'')"
      obtain v w2 where v: "create_new ?c w1 = (v, w2)" by fastforce
      have "sane w2" by (rule keepsD [OF keeps_sane_files(4) s1 v])
      then show ?thesis using run x Inr v keepsD [OF Suc.IH, of w2] by (auto simp: Let_def split: sum.splits if_splits)
    qed
  qed
qed (simp add: keeps_def)

section \<open>Files that exist are kept\<close>

definition keeps_files :: "fs \<Rightarrow> fs \<Rightarrow> bool" where
  "keeps_files w w' \<longleftrightarrow> fs_resolve w' = fs_resolve w \<and>
     (\<forall>n c. fs_files w n = Some c \<longrightarrow> fs_files w' n = Some c)"

definition same_files :: "fs \<Rightarrow> fs \<Rightarrow> bool" where
  "same_files w w' \<longleftrightarrow> fs_resolve w' = fs_resolve w \<and> fs_files w' = fs_files w"

lemma keeps_files_refl [simp]: "keeps_files w w"
  by (simp add: keeps_files_def)

lemma keeps_files_trans: "keeps_files a b \<Longrightarrow> keeps_files b c \<Longrightarrow> keeps_files a c"
  by (auto simp: keeps_files_def)

lemma same_files_refl [simp]: "same_files w w"
  by (simp add: same_files_def)

lemma same_files_trans: "same_files a b \<Longrightarrow> same_files b c \<Longrightarrow> same_files a c"
  by (auto simp: same_files_def)

lemma same_files_keeps: "same_files a b \<Longrightarrow> keeps_files a b"
  by (auto simp: keeps_files_def same_files_def)

lemma same_files_at: "same_files w w' \<Longrightarrow> file_at w' p = file_at w p"
  by (simp add: same_files_def file_at_def)

lemma same_files_exists: "same_files w w' \<Longrightarrow> path_exists w' p = path_exists w p"
  by (simp add: path_exists_def same_files_at)

lemma keeps_files_at: "keeps_files w w' \<Longrightarrow> file_at w p = Some c \<Longrightarrow> file_at w' p = Some c"
  by (simp add: keeps_files_def file_at_def)

lemma touches_none: "touches {} a \<Longrightarrow> a w = (r, w') \<Longrightarrow> same_files w w'"
  by (auto simp: touches_def same_files_def)

text \<open>Work on paths that name no file at the start keeps every file.\<close>

lemma touches_fresh:
  assumes "touches P a" and "a w = (r, w')" and "\<And>p. p \<in> P \<Longrightarrow> \<not> path_exists w p"
  shows "keeps_files w w'"
  unfolding keeps_files_def
proof (intro conjI allI impI)
  show "fs_resolve w' = fs_resolve w" by (rule touchesD(1) [OF assms(1,2)])
  fix n c assume n: "fs_files w n = Some c"
  then have "n \<notin> fs_resolve w ` P" using assms(3) by (auto simp: path_exists_def file_at_def)
  then show "fs_files w' n = Some c" using touchesD(2) [OF assms(1,2)] n by simp
qed

lemma touches_at:
  assumes "touches P a" and "a w = (r, w')" and "fs_resolve w q \<notin> fs_resolve w ` P"
  shows "file_at w' q = file_at w q"
  using touchesD [OF assms(1,2)] assms(3) by (simp add: file_at_def)

lemma on_fs_iff: "on_fs m x = (r, y) \<longleftrightarrow> (\<exists>w. m (se_fs x) = (r, w) \<and> y = x\<lparr>se_fs := w\<rparr>)"
  by (auto simp: on_fs_def split: prod.splits)

lemma on_store_iff: "on_store m x = (r, y) \<longleftrightarrow> (\<exists>s. m (se_store x) = (r, s) \<and> y = x\<lparr>se_store := s\<rparr>)"
  by (auto simp: on_store_def split: prod.splits)

lemma fs_call_same: "fs_call w = (r, w') \<Longrightarrow> same_files w w'"
  by (rule touches_none [OF touches_call(1)])

lemma open_read_Inr: "open_read p w = (Inr bs, w') \<Longrightarrow> file_at w p = Some bs \<and> same_files w w'"
proof -
  assume "open_read p w = (Inr bs, w')"
  then have "fs_call w = (Inr (), w')" "file_at w' p = Some bs"
    by (auto simp: open_read_def act_bind_Inr_iff ok_or_Inr_iff)
  then show ?thesis using fs_call_same same_files_at by metis
qed

lemma create_new_Inr:
  assumes "create_new p w = (Inr u, w')"
  shows "\<not> path_exists w p" and "file_at w' p = Some []" and "keeps_files w w'"
proof -
  obtain w1 where c: "fs_call w = (Inr (), w1)" and n: "\<not> path_exists w1 p" and w': "w' = set_file p (Some []) w1"
    using assms by (auto simp: create_new_def act_bind_Inr_iff split: if_splits)
  show ne: "\<not> path_exists w p" using n same_files_exists [OF fs_call_same [OF c]] by simp
  show "file_at w' p = Some []" using w' by simp
  show "keeps_files w w'" by (rule touches_fresh [OF touches_create(1) assms, of "{p}"]) (use ne in auto)
qed

lemma create_new_Inl: "create_new p w = (Inl e, w') \<Longrightarrow> same_files w w'"
  by (auto simp: create_new_def act_bind_Inl_iff split: if_splits dest: fs_call_same)

lemma create_truncate_Inr: "create_truncate p w = (Inr u, w') \<Longrightarrow> file_at w' p = Some []"
  by (auto simp: create_truncate_def act_bind_Inr_iff)

lemma fs_write_Inr:
  "fs_write p place bs w = (Inr u, w') \<Longrightarrow> file_at w p = Some old \<Longrightarrow> file_at w' p = Some (place bs old)"
  by (auto simp: fs_write_def Let_def split: list.splits write_outcome.splits)

lemma io_copy_Inr:
  "io_copy bs p w = (Inr n, w') \<Longrightarrow> file_at w p = Some old \<Longrightarrow> file_at w' p = Some (old @ bs) \<and> n = of_nat (length bs)"
  by (auto simp: io_copy_def act_bind_Inr_iff at_end_def dest: fs_write_Inr)

lemma or_remove_Inr: "or_remove p m w = (Inr a, w') \<longleftrightarrow> m w = (Inr a, w')"
  by (auto simp: or_remove_def split: prod.splits sum.splits)

lemma verify_path_Inr:
  assumes "verify_path D p w = (Inr v, w')"
  obtains bs where "file_at w p = Some bs" and "verify D None bs = Inr v" and "same_files w w'"
proof -
  obtain bs w1 where b: "open_read p w = (Inr bs, w1)" and l: "(case lock_answer p w1 of (lock, w2) \<Rightarrow> (verify D lock bs, w2)) = (Inr v, w')"
    using assms by (auto simp: verify_path_def act_bind_Inr_iff act_map_err_iff)
  obtain lock where lock: "verify D lock bs = Inr v" using l by (cases "lock_answer p w1") auto
  then have "lock = None" by (cases lock) (simp_all add: verify_def)
  then show ?thesis using that open_read_Inr [OF b] lock touches_none [OF touches_verify assms] by simp
qed

lemma discard_touches: "p \<in> P \<Longrightarrow> n \<notin> fs_resolve w ` P \<Longrightarrow> fs_files (discard_file p w) n = fs_files w n"
  "fs_resolve (discard_file p w) = fs_resolve w"
proof -
  obtain r w' where r: "remove_file p w = (r, w')" by fastforce
  show "fs_resolve (discard_file p w) = fs_resolve w"
    using touchesD(1) [OF touches_remove r, of "{p}"] r by (simp add: discard_file_def)
  show "p \<in> P \<Longrightarrow> n \<notin> fs_resolve w ` P \<Longrightarrow> fs_files (discard_file p w) n = fs_files w n"
    using touchesD(2) [OF touches_remove r, of P n] r by (simp add: discard_file_def)
qed

text \<open>A reserved temporary name is a new, empty file.\<close>

lemma reserve_loop_reserves:
  assumes "reserve_loop n d b l w = (r, w')"
  shows "keeps_files w w'" and "r = Inr t \<Longrightarrow> \<not> path_exists w t \<and> file_at w' t = Some []"
proof -
  have "keeps_files w w' \<and> (\<forall>t. r = Inr t \<longrightarrow> \<not> path_exists w t \<and> file_at w' t = Some [])"
    using assms
  proof (induction n arbitrary: w)
    case 0
    then show ?case by auto
  next
    case (Suc n)
    obtain q w1 where q: "random_nonce w = (q, w1)" by fastforce
    have s1: "same_files w w1" by (rule touches_none [OF touches_call(3) q])
    show ?case
    proof (cases q)
      case (Inl e)
      then show ?thesis using Suc.prems q s1 by (auto simp: act_bind_def intro: same_files_keeps)
    next
      case (Inr x)
      let ?c = "path_join d (''.'' @ b @ ''.'' @ l @ ''-'' @ hex16 x @ ''.tmp'')"
      obtain v w2 where v: "create_new ?c w1 = (v, w2)" by fastforce
      show ?thesis
      proof (cases v)
        case (Inl k)
        then have "create_new ?c w1 = (Inl k, w2)" using v by simp
        then have s2: "same_files w w2" by (rule same_files_trans [OF s1 create_new_Inl])
        have "r = Inl (RvIo k) \<and> w' = w2 \<or> reserve_loop n d b l w2 = (r, w')"
          using Suc.prems q Inr v Inl by (auto simp: act_bind_def Let_def split: if_splits)
        then show ?thesis
        proof
          assume "r = Inl (RvIo k) \<and> w' = w2"
          then show ?thesis using same_files_keeps [OF s2] by simp
        next
          assume "reserve_loop n d b l w2 = (r, w')"
          from Suc.IH [OF this] show ?thesis
            using keeps_files_trans [OF same_files_keeps [OF s2]] same_files_exists [OF s2] by simp
        qed
      next
        case (Inr u)
        then have c: "create_new ?c w1 = (Inr u, w2)" using v by simp
        have "r = Inr ?c" "w' = w2" using Suc.prems q \<open>q = Inr x\<close> c by (auto simp: act_bind_def Let_def)
        then show ?thesis
          using create_new_Inr [OF c] same_files_exists [OF s1] keeps_files_trans [OF same_files_keeps [OF s1]]
          by auto
      qed
    qed
  qed
  then show "keeps_files w w'" and "r = Inr t \<Longrightarrow> \<not> path_exists w t \<and> file_at w' t = Some []" by blast+
qed

lemma backup_file_effect:
  assumes "backup_file p x = (r, y)"
  shows "se_path y = se_path x" and "st_file (se_store y) = st_file (se_store x)"
    and "st_header (se_store y) = st_header (se_store x)" and "st_state (se_store y) = st_state (se_store x)"
    and "fs_resolve (se_fs y) = fs_resolve (se_fs x)"
    and "n \<noteq> fs_resolve (se_fs x) p \<Longrightarrow> fs_files (se_fs y) n = fs_files (se_fs x) n"
    and "r = Inr b \<Longrightarrow> file_at (se_fs y) p = Some (st_file (se_store x)) \<and> b = of_nat (length (st_file (se_store x)))"
proof -
  let ?put = "\<lambda>c. act_map_err EIo (act_bind fs_call (\<lambda>_. act_bind (create_truncate p) (\<lambda>_.
              act_bind (io_copy c p) (\<lambda>bytes. act_bind fs_sync (\<lambda>_. act_return bytes)))))"
  obtain q s1 where q: "sync_call (se_store x) = (q, s1)" by fastforce
  have s1: "st_file s1 = st_file (se_store x)" "st_header s1 = st_header (se_store x)" "st_state s1 = st_state (se_store x)"
    using q by (auto simp: sync_call_def split: list.splits sync_outcome.splits)
  have tw: "touches {p} (?put c)" for c by (intro touches_intros) simp_all
  have ts: "touches {p} (act_map_err EIo (paths_refer_to_same_file a b))" for a b by (intro touches_intros)
  let ?x1 = "x\<lparr>se_store := s1\<rparr>"
  obtain m w1 where m: "act_map_err EIo (paths_refer_to_same_file (se_path x) p) (se_fs x) = (m, w1)" by fastforce
  have "backup_file p x = (case q of Inl k \<Rightarrow> (Inl (EIo k), ?x1)
      | Inr _ \<Rightarrow> (case m of Inl e \<Rightarrow> (Inl e, ?x1\<lparr>se_fs := w1\<rparr>)
          | Inr same \<Rightarrow> if same then (Inl EBackupDestinationIsSource, ?x1\<lparr>se_fs := w1\<rparr>)
                      else on_fs (?put (st_file s1)) (?x1\<lparr>se_fs := w1\<rparr>)))"
    using q m by (simp add: backup_file_def act_bind_def [of "on_store _"] act_bind_def [of "on_fs (act_map_err EIo (paths_refer_to_same_file _ _))"] on_store_def
        on_fs_def act_map_err_def [of EIo sync_call] split: sum.split)
  note eq = assms [unfolded this]
  have cases: "(\<exists>e. r = Inl e \<and> y = ?x1) \<or> (\<exists>e. r = Inl e \<and> y = ?x1\<lparr>se_fs := w1\<rparr>) \<or>
      (\<exists>w2. ?put (st_file s1) w1 = (r, w2) \<and> y = ?x1\<lparr>se_fs := w2\<rparr>)"
    using eq by (cases q; cases m) (auto simp: on_fs_iff split: if_splits)
  note T1 = touchesD [OF ts m]
  from cases show "se_path y = se_path x" "st_file (se_store y) = st_file (se_store x)"
      "st_header (se_store y) = st_header (se_store x)" "st_state (se_store y) = st_state (se_store x)"
    using s1 by auto
  have "fs_resolve (se_fs y) = fs_resolve (se_fs x) \<and> (\<forall>n. n \<noteq> fs_resolve (se_fs x) p \<longrightarrow> fs_files (se_fs y) n = fs_files (se_fs x) n)"
    using cases T1 touchesD [OF tw] by (auto 0 3)
  then show "fs_resolve (se_fs y) = fs_resolve (se_fs x)"
    and "n \<noteq> fs_resolve (se_fs x) p \<Longrightarrow> fs_files (se_fs y) n = fs_files (se_fs x) n" by blast+
  assume "r = Inr b"
  then obtain w2 where w2: "?put (st_file s1) w1 = (Inr b, w2)" "y = ?x1\<lparr>se_fs := w2\<rparr>" using cases by auto
  then obtain a1 a2 a3 where a: "create_truncate p a1 = (Inr (), a2)" "io_copy (st_file s1) p a2 = (Inr b, a3)" "fs_sync a3 = (Inr (), w2)"
    by (auto simp: act_map_err_iff act_bind_Inr_iff)
  have "file_at a3 p = Some (st_file s1) \<and> b = of_nat (length (st_file s1))"
    using io_copy_Inr [OF a(2) create_truncate_Inr [OF a(1)]] by simp
  then show "file_at (se_fs y) p = Some (st_file (se_store x)) \<and> b = of_nat (length (st_file (se_store x)))"
    using same_files_at [OF touches_none [OF touches_call(2) a(3)]] w2(2) s1(1) by simp
qed

lemma backup_file_sane: "backup_file p x = (r, y) \<Longrightarrow> sane (se_fs x) \<Longrightarrow> sane (se_fs y)"
proof -
  assume run: "backup_file p x = (r, y)" and s: "sane (se_fs x)"
  let ?P = "\<lambda>x. sane (se_fs x)"
  have lift: "keeps ?P (on_fs m)" if "keeps sane m" for m :: "(fs, 'e, 'a) act"
    using that by (auto simp: keeps_def on_fs_iff)
  have st: "keeps ?P (on_store m)" for m :: "(store, 'e, 'a) act" by (auto simp: keeps_def on_store_iff)
  have dep: "keeps ?P (\<lambda>y. f (st_file (se_store y)) y)" if "\<And>c. keeps ?P (f c)" for f :: "bytes \<Rightarrow> (session, 'e, 'a) act"
    using that unfolding keeps_def by blast
  have w: "keeps ?P (on_fs (act_map_err EIo (act_bind fs_call (\<lambda>_. act_bind (create_truncate p) (\<lambda>_.
              act_bind (io_copy c p) (\<lambda>bytes. act_bind fs_sync (\<lambda>_. act_return bytes)))))))" for c
    by (intro lift keeps_intros)
  have "keeps ?P (\<lambda>y. if same then (Inl EBackupDestinationIsSource, y)
       else on_fs (act_map_err EIo (act_bind fs_call (\<lambda>_. act_bind (create_truncate p) (\<lambda>_.
              act_bind (io_copy (st_file (se_store y)) p) (\<lambda>bytes. act_bind fs_sync (\<lambda>_. act_return bytes)))))) y)" for same
    using dep [OF w] by (cases same) (simp_all add: keeps_def)
  then have "keeps ?P (act_bind (on_fs (act_map_err EIo (paths_refer_to_same_file a p))) (\<lambda>same y.
       if same then (Inl EBackupDestinationIsSource, y)
       else on_fs (act_map_err EIo (act_bind fs_call (\<lambda>_. act_bind (create_truncate p) (\<lambda>_.
              act_bind (io_copy (st_file (se_store y)) p) (\<lambda>bytes. act_bind fs_sync (\<lambda>_. act_return bytes)))))) y))" for a
    by (intro keeps_bind lift keeps_intros)
  then have "keeps ?P (backup_file p)" unfolding backup_file_def
    by (intro keeps_bind st) (auto simp: keeps_def)
  then show "sane (se_fs y)" using keepsD [where P = ?P] run s by blast
qed

end
