(* ===== verification/Snapshots.thy ===== *)
theory Snapshots
  imports Files
begin

text \<open>
  Copies of a store: compaction (\<open>compaction.rs\<close>), logical snapshots (\<open>snapshot.rs\<close>), physical
  checkpoints (\<open>checkpoint.rs\<close>) and restore (\<open>restore.rs\<close>). A compacted copy is a new store with
  the visible entries, a checkpoint and a restored store are copies of the file, and none of
  them ever writes to a file that exists.
\<close>

section \<open>Compaction\<close>

record compaction_report =
  cr_source_bytes :: u64
  cr_compacted_bytes :: u64
  cr_keys :: usize

definition compaction_bytes_reclaimed :: "compaction_report \<Rightarrow> u64" where
  "compaction_bytes_reclaimed r = saturating_sub (cr_source_bytes r) (cr_compacted_bytes r)"

text \<open>The block that fills a new store: one transaction without change capture, then a flush.\<close>

definition rewrite_entries :: "deps \<Rightarrow> kv \<Rightarrow> (store, engine_error, unit) act" where
  "rewrite_entries D entries = act_bind
     (if entries = [] then act_return ()
      else run_tx D False id (act_for (\<lambda>(k, v). tx_put_internal D k v) entries))
     (\<lambda>_. store_flush)"

definition compact_into :: "deps \<Rightarrow> string \<Rightarrow> kv \<Rightarrow> string \<Rightarrow> (fs, engine_error, compaction_report) act" where
  "compact_into D source entries destination =
     act_bind (act_map_err EIo (metadata_len source)) (\<lambda>source_bytes.
     act_bind (with_store D destination (rewrite_entries D entries)) (\<lambda>_.
     act_bind (verify_path D destination) (\<lambda>verification.
       if has_torn_tail verification \<or> vr_keys verification \<noteq> length entries
       then (\<lambda>w. (Inl (EIo InvalidData), discard_file destination w))
       else act_return \<lparr>cr_source_bytes = source_bytes, cr_compacted_bytes = vr_file_bytes verification,
                        cr_keys = length entries\<rparr>)))"

definition compact_copy_to :: "deps \<Rightarrow> string \<Rightarrow> (session, engine_error, compaction_report) act" where
  "compact_copy_to D destination x =
     (if destination = se_path x then (Inl (EIo InvalidInput), x)
      else if path_exists (se_fs x) destination then (Inl (EIo AlreadyExists), x)
      else on_fs (compact_into D (se_path x) (scan_prefix (se_store x) []) destination) x)"

section \<open>Snapshots\<close>

datatype snapshot_error = SnStore engine_error | SnVerificationFailed

record snapshot_report =
  sr_destination :: string
  sr_source_store_id :: bytes
  sr_snapshot_store_id :: bytes
  sr_keys :: usize
  sr_source_bytes :: u64
  sr_snapshot_bytes :: u64

definition snapshot_to :: "deps \<Rightarrow> string \<Rightarrow> (session, snapshot_error, snapshot_report) act" where
  "snapshot_to D destination x =
     act_bind (act_map_err SnStore (compact_copy_to D destination)) (\<lambda>c.
     act_bind (act_map_err SnStore (on_fs (verify_path D destination))) (\<lambda>verification.
       act_lift (if vr_keys verification \<noteq> cr_keys c \<or> has_torn_tail verification then Inl SnVerificationFailed
         else Inr \<lparr>sr_destination = destination, sr_source_store_id = store_id (st_header (se_store x)),
                   sr_snapshot_store_id = store_id (vr_header verification), sr_keys = cr_keys c,
                   sr_source_bytes = cr_source_bytes c, sr_snapshot_bytes = cr_compacted_bytes c\<rparr>))) x"

section \<open>Checkpoints\<close>

datatype checkpoint_error =
    CkStore engine_error
  | CkIo io_kind
  | CkDestinationExists
  | CkDestinationIsSource
  | CkIdentityMismatch
  | CkVerificationMismatch
  | CkRandomness
  | CkTemporaryNameExhausted

record checkpoint_report =
  kr_source_store_id :: bytes
  kr_checkpoint_store_id :: bytes
  kr_file_bytes :: u64
  kr_valid_bytes :: u64
  kr_keys :: usize
  kr_committed_transactions :: u64
  kr_pending_transactions :: u64

fun checkpoint_reserve_error :: "reserve_error \<Rightarrow> checkpoint_error" where
  "checkpoint_reserve_error RvRandomness = CkRandomness"
| "checkpoint_reserve_error (RvIo k) = CkIo k"
| "checkpoint_reserve_error RvNameExhausted = CkTemporaryNameExhausted"

definition reserve_temporary_sibling :: "string \<Rightarrow> (fs, checkpoint_error, string) act" where
  "reserve_temporary_sibling destination =
     act_map_err checkpoint_reserve_error (reserve_sibling ''checkpoint'' ''checkpoint'' destination)"

definition same_existing_path :: "string \<Rightarrow> string \<Rightarrow> (fs, checkpoint_error, bool) act" where
  "same_existing_path source destination =
     act_bind (act_map_err CkIo (canonicalize source)) (\<lambda>a.
     act_bind (act_map_err CkIo (canonicalize destination)) (\<lambda>b. act_return (a = b)))"

definition ensure_distinct_destination :: "string \<Rightarrow> string \<Rightarrow> (fs, checkpoint_error, unit) act" where
  "ensure_distinct_destination source destination w =
     (if source = destination then (Inl CkDestinationIsSource, w)
      else if path_exists w destination
      then act_bind (same_existing_path source destination) (\<lambda>same.
             act_lift (Inl (if same then CkDestinationIsSource else CkDestinationExists))) w
      else (Inr (), w))"

definition create_destination :: "string \<Rightarrow> (fs, checkpoint_error, unit) act" where
  "create_destination destination =
     act_map_err (\<lambda>k. if k = AlreadyExists then CkDestinationExists else CkIo k) (create_new destination)"

definition copy_and_sync :: "bytes \<Rightarrow> string \<Rightarrow> (fs, io_kind, u64) act" where
  "copy_and_sync bs destination =
     act_bind (io_copy bs destination) (\<lambda>bytes. act_bind fs_sync (\<lambda>_. act_return bytes))"

definition check_copy :: "bytes \<Rightarrow> u64 \<Rightarrow> verification_report \<Rightarrow> checkpoint_error + checkpoint_report" where
  "check_copy source_id copied_bytes report =
     (if store_id (vr_header report) \<noteq> source_id then Inl CkIdentityMismatch
      else if vr_file_bytes report \<noteq> copied_bytes \<or> has_torn_tail report then Inl CkVerificationMismatch
      else Inr \<lparr>kr_source_store_id = source_id, kr_checkpoint_store_id = store_id (vr_header report),
                kr_file_bytes = vr_file_bytes report, kr_valid_bytes = vr_valid_bytes report,
                kr_keys = vr_keys report, kr_committed_transactions = vr_committed_transactions report,
                kr_pending_transactions = vr_pending_transactions report\<rparr>)"

definition checkpoint_copy :: "deps \<Rightarrow> bytes \<Rightarrow> string \<Rightarrow> string \<Rightarrow> (fs, checkpoint_error, checkpoint_report) act" where
  "checkpoint_copy D source_id temporary destination =
     act_bind (act_map_err CkIo (open_read temporary)) (\<lambda>source.
     act_bind (create_destination destination) (\<lambda>_.
     or_remove destination
       (act_bind (act_map_err CkIo (copy_and_sync source destination)) (\<lambda>copied_bytes.
        act_bind (act_map_err CkStore (verify_path D destination)) (\<lambda>report.
          act_lift (check_copy source_id copied_bytes report))))))"

definition checkpoint_from_temporary ::
  "deps \<Rightarrow> string \<Rightarrow> string \<Rightarrow> (session, checkpoint_error, checkpoint_report) act" where
  "checkpoint_from_temporary D temporary destination =
     act_bind (act_map_err CkStore (backup_file temporary)) (\<lambda>_ x.
       on_fs (checkpoint_copy D (store_id (st_header (se_store x))) temporary destination) x)"

definition checkpoint_to :: "deps \<Rightarrow> string \<Rightarrow> (session, checkpoint_error, checkpoint_report) act" where
  "checkpoint_to D destination =
     act_bind (act_map_err CkStore (on_store store_flush)) (\<lambda>_ x.
     act_bind (on_fs (ensure_distinct_destination (se_path x) destination)) (\<lambda>_.
     act_bind (on_fs (reserve_temporary_sibling destination)) (\<lambda>temporary y.
       case checkpoint_from_temporary D temporary destination y of
         (r, z) \<Rightarrow> (r, z\<lparr>se_fs := discard_file temporary (se_fs z)\<rparr>))) x)"

section \<open>Restore\<close>

record restore_report =
  rr_bytes :: u64
  rr_keys :: usize
  rr_store_id :: bytes

definition check_restored ::
  "verification_report \<Rightarrow> u64 \<Rightarrow> verification_report \<Rightarrow> engine_error + restore_report" where
  "check_restored source_report bytes restored =
     (if has_torn_tail restored \<or> vr_file_bytes restored \<noteq> vr_file_bytes source_report
        \<or> vr_valid_bytes restored \<noteq> vr_valid_bytes source_report
        \<or> vr_keys restored \<noteq> vr_keys source_report \<or> vr_header restored \<noteq> vr_header source_report
      then Inl (EIo InvalidData)
      else Inr \<lparr>rr_bytes = bytes, rr_keys = vr_keys restored, rr_store_id = store_id (vr_header restored)\<rparr>)"

definition restore_verified ::
  "deps \<Rightarrow> string \<Rightarrow> string \<Rightarrow> verification_report \<Rightarrow> (fs, engine_error, restore_report) act" where
  "restore_verified D source destination source_report =
     act_bind (act_map_err EIo (open_read source)) (\<lambda>source_file.
     act_bind (act_map_err EIo (create_new destination)) (\<lambda>_.
     or_remove destination
       (act_bind (act_map_err EIo (copy_and_sync source_file destination)) (\<lambda>bytes.
        act_bind (verify_path D destination) (\<lambda>restored.
          act_lift (check_restored source_report bytes restored))))))"

definition restore_copy :: "deps \<Rightarrow> string \<Rightarrow> string \<Rightarrow> (fs, engine_error, restore_report) act" where
  "restore_copy D source destination =
     (if source = destination then act_lift (Inl (EIo InvalidInput))
      else act_bind (verify_path D source) (\<lambda>source_report.
        if has_torn_tail source_report then act_lift (Inl (EIo InvalidData))
        else restore_verified D source destination source_report))"

section \<open>Nothing is overwritten\<close>

lemma create_new_then:
  assumes "touches {p} m" and "act_bind (act_map_err g (create_new p)) (\<lambda>_. m) w = (r, w')"
  shows "keeps_files w w'"
proof -
  obtain c w1 where c: "create_new p w = (c, w1)" by fastforce
  show ?thesis
  proof (cases c)
    case (Inl e)
    then have "w' = w1" using assms(2) c by (auto simp: act_bind_def act_map_err_def)
    then show ?thesis using create_new_Inl c Inl same_files_keeps by metis
  next
    case (Inr u)
    then have c': "create_new p w = (Inr u, w1)" using c by simp
    have m: "m w1 = (r, w')" using assms(2) c' by (simp add: act_bind_def act_map_err_def)
    have r: "fs_resolve w1 = fs_resolve w" using create_new_Inr(3) [OF c'] by (simp add: keeps_files_def)
    have "fs_files w' n = Some v" if n: "fs_files w n = Some v" for n v
    proof -
      have "fs_resolve w p \<noteq> n" using create_new_Inr(1) [OF c'] n by (auto simp: path_exists_def file_at_def)
      then show ?thesis using touchesD(2) [OF assms(1) m, of n] create_new_Inr(3) [OF c'] n r
        by (auto simp: keeps_files_def)
    qed
    then show ?thesis using touchesD(1) [OF assms(1) m] r by (simp add: keeps_files_def)
  qed
qed

lemma touches_compact_into: "touches {destination} (compact_into D source entries destination)"
proof -
  have "touches {destination} (\<lambda>w. (Inl (EIo InvalidData) :: engine_error + compaction_report, discard_file destination w))"
    using discard_touches(1) [of destination "{destination}"] by (simp add: touches_def discard_touches(2))
  then show ?thesis unfolding compact_into_def by (intro touches_intros) simp_all
qed

lemma touches_copy_sync [touches_intros]: "p \<in> P \<Longrightarrow> touches P (copy_and_sync bs p)"
  unfolding copy_and_sync_def by (intro touches_intros)

lemma compact_copy_to_keeps:
  assumes "compact_copy_to D destination x = (r, y)"
  shows "keeps_files (se_fs x) (se_fs y)" and "se_store y = se_store x" and "se_path y = se_path x"
proof -
  let ?go = "compact_into D (se_path x) (scan_prefix (se_store x) []) destination"
  have "keeps_files (se_fs x) (se_fs y) \<and> se_store y = se_store x \<and> se_path y = se_path x"
  proof (cases "destination = se_path x \<or> path_exists (se_fs x) destination")
    case True
    then have "y = x" using assms by (auto simp: compact_copy_to_def split: if_splits)
    then show ?thesis by simp
  next
    case False
    then have "on_fs ?go x = (r, y)" using assms by (simp add: compact_copy_to_def)
    then obtain w where w: "?go (se_fs x) = (r, w)" "y = x\<lparr>se_fs := w\<rparr>" unfolding on_fs_iff by blast
    show ?thesis using touches_fresh [OF touches_compact_into w(1)] False w(2) by simp
  qed
  then show "keeps_files (se_fs x) (se_fs y)" "se_store y = se_store x" "se_path y = se_path x" by simp_all
qed

lemma snapshot_to_keeps:
  assumes "snapshot_to D destination x = (r, y)"
  shows "keeps_files (se_fs x) (se_fs y)" and "se_store y = se_store x"
proof -
  obtain c z where c: "compact_copy_to D destination x = (c, z)" by fastforce
  note K = compact_copy_to_keeps [OF c]
  obtain v w where v: "verify_path D destination (se_fs z) = (v, w)" by fastforce
  have s: "same_files (se_fs z) w" by (rule touches_none [OF touches_verify v])
  have "y = z \<or> y = z\<lparr>se_fs := w\<rparr>"
    using assms c v by (auto simp: snapshot_to_def act_bind_def act_map_err_def on_fs_def split: sum.splits)
  then show "keeps_files (se_fs x) (se_fs y)" "se_store y = se_store x"
    using K keeps_files_trans [OF K(1) same_files_keeps [OF s]] by auto
qed

lemma restore_copy_keeps:
  assumes "restore_copy D source destination w = (r, w')"
  shows "keeps_files w w'"
proof (cases "source = destination")
  case True
  then show ?thesis using assms by (simp add: restore_copy_def)
next
  case False
  obtain v w1 where v: "verify_path D source w = (v, w1)" by fastforce
  have s1: "same_files w w1" by (rule touches_none [OF touches_verify v])
  consider "w' = w1" | sr where "restore_verified D source destination sr w1 = (r, w')"
    using assms v False by (auto simp: restore_copy_def act_bind_def split: sum.splits if_splits)
  then show ?thesis
  proof cases
    case 1
    then show ?thesis using s1 by (simp add: same_files_keeps)
  next
    case 2
    let ?m = "\<lambda>bs. or_remove destination (act_bind (act_map_err EIo (copy_and_sync bs destination)) (\<lambda>bytes.
        act_bind (verify_path D destination) (\<lambda>restored. act_lift (check_restored sr bytes restored))))"
    obtain b w2 where b: "open_read source w1 = (b, w2)" by fastforce
    have s2: "same_files w w2" by (rule same_files_trans [OF s1 touches_none [OF touches_open(1) b]])
    have t: "touches {destination} (?m bs)" for bs by (intro touches_intros) simp_all
    have m: "act_map_err EIo (open_read source) w1 = (map_err EIo b, w2)" using b by (simp add: act_map_err_def)
    show ?thesis
    proof (cases b)
      case (Inl e)
      then have "w' = w2" using 2 m by (simp add: restore_verified_def act_bind_def)
      then show ?thesis using s2 by (simp add: same_files_keeps)
    next
      case (Inr bs)
      then have "act_bind (act_map_err EIo (create_new destination)) (\<lambda>_. ?m bs) w2 = (r, w')"
        using 2 m by (simp add: restore_verified_def act_bind_eval(2))
      then show ?thesis using create_new_then [OF t] keeps_files_trans [OF same_files_keeps [OF s2]] by blast
    qed
  qed
qed

lemma touches_checkpoint_copy: "touches {destination} (checkpoint_copy D i temporary destination)"
proof -
  have c: "touches {destination} (create_destination destination)" unfolding create_destination_def
    by (intro touches_intros) simp
  show ?thesis unfolding checkpoint_copy_def by (intro touches_intros c) simp_all
qed

lemma store_flush_keeps:
  assumes "store_flush s = (r, s')"
  shows "st_file s' = st_file s" and "st_header s' = st_header s" and "st_state s' = st_state s"
  using assms
  by (auto simp: store_flush_def sync_file_def sync_call_def act_map_err_def split: durability.splits list.splits sync_outcome.splits)

text \<open>The part of \<open>checkpoint_to\<close> after the flush, on the file system alone.\<close>

lemma checkpoint_to_cases:
  assumes "checkpoint_to D destination x = (r, y)"
  obtains (early) e where "r = Inl e" and "keeps_files (se_fs x) (se_fs y)" and "st_file (se_store y) = st_file (se_store x)"
    | (copied) temporary w u z where "\<not> path_exists (se_fs x) destination" and "\<not> path_exists (se_fs x) temporary"
      and "keeps_files (se_fs x) w" and "file_at w temporary = Some []"
      and "st_file (se_store u) = st_file (se_store x)" and "st_header (se_store u) = st_header (se_store x)" and "se_fs u = w"
      and "checkpoint_from_temporary D temporary destination u = (r, z)"
      and "y = z\<lparr>se_fs := discard_file temporary (se_fs z)\<rparr>"
proof -
  let ?rest = "\<lambda>temporary y. case checkpoint_from_temporary D temporary destination y of (r, z) \<Rightarrow> (r, z\<lparr>se_fs := discard_file temporary (se_fs z)\<rparr>)"
  obtain f s1 where f: "store_flush (se_store x) = (f, s1)" by fastforce
  let ?x1 = "x\<lparr>se_store := s1\<rparr>"
  note F = store_flush_keeps [OF f]
  have of: "act_map_err CkStore (on_store store_flush) x = (map_err CkStore f, ?x1)"
    using f by (simp add: act_map_err_def on_store_def)
  obtain d w1 where d: "ensure_distinct_destination (se_path x) destination (se_fs x) = (d, w1)" by fastforce
  have "touches {} (act_bind (same_existing_path (se_path x) destination) (\<lambda>same. act_lift (Inl (if same then CkDestinationIsSource else CkDestinationExists))))"
    unfolding same_existing_path_def by (intro touches_intros)
  then have s1: "same_files (se_fs x) w1" using d touches_none
    by (auto simp: ensure_distinct_destination_def split: if_splits)
  have od: "on_fs (ensure_distinct_destination (se_path ?x1) destination) ?x1 = (d, ?x1\<lparr>se_fs := w1\<rparr>)"
    using d by (simp add: on_fs_def)
  obtain t w2 where t: "reserve_temporary_sibling destination w1 = (t, w2)" by fastforce
  obtain t' where t': "reserve_sibling ''checkpoint'' ''checkpoint'' destination w1 = (t', w2)" "t = map_err checkpoint_reserve_error t'"
    using t by (auto simp: reserve_temporary_sibling_def act_map_err_def split: prod.splits)
  note R = reserve_loop_reserves [OF t'(1) [unfolded reserve_sibling_def]]
  have k2: "keeps_files (se_fs x) w2" by (rule keeps_files_trans [OF same_files_keeps [OF s1] R(1)])
  have ot: "on_fs (reserve_temporary_sibling destination) (?x1\<lparr>se_fs := w1\<rparr>) = (t, ?x1\<lparr>se_fs := w2\<rparr>)"
    using t by (simp add: on_fs_def)
  have eq: "checkpoint_to D destination x = (case f of Inl e \<Rightarrow> (Inl (CkStore e), ?x1) | Inr _ \<Rightarrow>
      (case d of Inl e \<Rightarrow> (Inl e, ?x1\<lparr>se_fs := w1\<rparr>) | Inr _ \<Rightarrow>
       (case t of Inl e \<Rightarrow> (Inl e, ?x1\<lparr>se_fs := w2\<rparr>) | Inr temporary \<Rightarrow> ?rest temporary (?x1\<lparr>se_fs := w2\<rparr>))))"
    unfolding checkpoint_to_def using of od ot by (simp add: act_bind_def split: sum.split)
  note run = assms [unfolded eq]
  show ?thesis
  proof (cases "\<exists>temporary. f = Inr () \<and> d = Inr () \<and> t = Inr temporary")
    case False
    then have "\<exists>e. r = Inl e" "y = ?x1 \<or> y = ?x1\<lparr>se_fs := w1\<rparr> \<or> y = ?x1\<lparr>se_fs := w2\<rparr>"
      using run by (cases f; cases d; cases t; auto)+
    then show ?thesis using early k2 same_files_keeps [OF s1] F(1) by auto
  next
    case True
    then obtain temporary where tt: "f = Inr ()" "d = Inr ()" "t = Inr temporary" by blast
    have ne: "\<not> path_exists (se_fs x) destination" using d tt(2)
      by (auto simp: ensure_distinct_destination_def act_bind_def split: if_splits sum.splits prod.splits)
    obtain z where z: "checkpoint_from_temporary D temporary destination (?x1\<lparr>se_fs := w2\<rparr>) = (r, z)"
        "y = z\<lparr>se_fs := discard_file temporary (se_fs z)\<rparr>"
      using run tt by (auto split: prod.splits)
    have "t' = Inr temporary" using t'(2) tt(3) by (cases t') auto
    then have R': "\<not> path_exists (se_fs x) temporary" "file_at w2 temporary = Some []"
      using R(2) same_files_exists [OF s1] by auto
    show ?thesis by (rule copied [OF ne R'(1) k2 R'(2) _ _ _ z]) (simp_all add: F)
  qed
qed

lemma checkpoint_from_temporary_effect:
  assumes run: "checkpoint_from_temporary D temporary destination u = (r, z)"
  shows "fs_resolve (se_fs z) = fs_resolve (se_fs u)"
    and "n \<notin> fs_resolve (se_fs u) ` {temporary, destination} \<Longrightarrow> fs_files (se_fs z) n = fs_files (se_fs u) n"
    and "st_file (se_store z) = st_file (se_store u)"
    and "r = Inr rep \<Longrightarrow> file_at (se_fs z) destination = Some (st_file (se_store u)) \<and>
      fs_resolve (se_fs u) temporary \<noteq> fs_resolve (se_fs u) destination \<and>
      kr_checkpoint_store_id rep = store_id (st_header (se_store u)) \<and> kr_source_store_id rep = store_id (st_header (se_store u))"
proof -
  obtain b v where b: "backup_file temporary u = (b, v)" by fastforce
  note B = backup_file_effect [OF b]
  let ?copy = "checkpoint_copy D (store_id (st_header (se_store v))) temporary destination"
  consider (fail) e where "r = Inl e" "z = v" | (ok) n w where "b = Inr n" "?copy (se_fs v) = (r, w)" "z = v\<lparr>se_fs := w\<rparr>"
  proof -
    have "checkpoint_from_temporary D temporary destination u = (case b of Inl e \<Rightarrow> (Inl (CkStore e), v) | Inr _ \<Rightarrow> on_fs ?copy v)"
      using b by (simp add: checkpoint_from_temporary_def act_bind_def act_map_err_def split: sum.split)
    note eq = run [unfolded this]
    show ?thesis
    proof (cases b)
      case (Inl e)
      then show ?thesis using that(1) eq by auto
    next
      case (Inr n)
      then have "on_fs ?copy v = (r, z)" using eq by simp
      then obtain w where "?copy (se_fs v) = (r, w)" "z = v\<lparr>se_fs := w\<rparr>" unfolding on_fs_iff by blast
      then show ?thesis using that(2) Inr by blast
    qed
  qed
  note C = this
  show "fs_resolve (se_fs z) = fs_resolve (se_fs u)"
    using B(5) touchesD(1) [OF touches_checkpoint_copy] by (cases rule: C) auto
  show "st_file (se_store z) = st_file (se_store u)" using B(2) by (cases rule: C) auto
  show "fs_files (se_fs z) n = fs_files (se_fs u) n" if "n \<notin> fs_resolve (se_fs u) ` {temporary, destination}"
  proof -
    have n: "n \<noteq> fs_resolve (se_fs u) temporary" "n \<notin> fs_resolve (se_fs v) ` {destination}" using that B(5) by auto
    show ?thesis using B(6) [OF n(1)] n(2) touchesD(2) [OF touches_checkpoint_copy] by (cases rule: C) auto
  qed
  assume rep: "r = Inr rep"
  then obtain n w where ok: "b = Inr n" "?copy (se_fs v) = (Inr rep, w)" "z = v\<lparr>se_fs := w\<rparr>"
    by (cases rule: C) auto
  have tmp: "file_at (se_fs v) temporary = Some (st_file (se_store u))" using B(7) [OF ok(1)] by simp
  obtain bs w1 w2 k w3 w4 vr where steps: "open_read temporary (se_fs v) = (Inr bs, w1)" "create_new destination w1 = (Inr (), w2)"
      "copy_and_sync bs destination w2 = (Inr k, w3)" "verify_path D destination w3 = (Inr vr, w4)"
      "check_copy (store_id (st_header (se_store v))) k vr = Inr rep" "w = w4"
    using ok(2) by (auto simp: checkpoint_copy_def create_destination_def act_bind_Inr_iff act_map_err_iff or_remove_Inr)
  have bs: "bs = st_file (se_store u)" "same_files (se_fs v) w1" using open_read_Inr [OF steps(1)] tmp by auto
  have ex: "path_exists w1 temporary" using tmp same_files_exists [OF bs(2)] by (simp add: path_exists_def)
  have ne: "fs_resolve w1 temporary \<noteq> fs_resolve w1 destination"
    using ex create_new_Inr(1) [OF steps(2)] by (auto simp: path_exists_def file_at_def)
  obtain w5 where cp: "io_copy bs destination w2 = (Inr k, w5)" "fs_sync w5 = (Inr (), w3)"
    using steps(3) by (auto simp: copy_and_sync_def act_bind_Inr_iff)
  have "file_at w5 destination = Some bs" using io_copy_Inr [OF cp(1) create_new_Inr(2) [OF steps(2)]] by simp
  then have "file_at w3 destination = Some bs"
    using same_files_at [OF touches_none [OF touches_call(2) cp(2)]] by simp
  then have "file_at w destination = Some (st_file (se_store u))"
    using same_files_at [OF touches_none [OF touches_verify steps(4)]] bs(1) steps(6) by simp
  moreover have "fs_resolve w1 = fs_resolve (se_fs u)" using bs(2) B(5) by (simp add: same_files_def)
  ultimately show "file_at (se_fs z) destination = Some (st_file (se_store u)) \<and>
      fs_resolve (se_fs u) temporary \<noteq> fs_resolve (se_fs u) destination \<and>
      kr_checkpoint_store_id rep = store_id (st_header (se_store u)) \<and> kr_source_store_id rep = store_id (st_header (se_store u))"
    using ok(3) ne steps(5) B(3) by (auto simp: check_copy_def split: if_splits)
qed

lemma checkpoint_to_keeps:
  assumes "checkpoint_to D destination x = (r, y)"
  shows "keeps_files (se_fs x) (se_fs y)" and "st_file (se_store y) = st_file (se_store x)"
proof -
  have "keeps_files (se_fs x) (se_fs y) \<and> st_file (se_store y) = st_file (se_store x)"
    using assms
  proof (cases rule: checkpoint_to_cases)
    case early
    then show ?thesis by simp
  next
    case (copied temporary w u z)
    note E = checkpoint_from_temporary_effect [OF copied(8)]
    have r: "fs_resolve w = fs_resolve (se_fs x)" using copied(3) by (simp add: keeps_files_def)
    have "fs_files (se_fs y) n = Some c" if n: "fs_files (se_fs x) n = Some c" for n c
    proof -
      have ne: "n \<notin> fs_resolve (se_fs x) ` {temporary, destination}"
        using copied(1,2) n by (auto simp: path_exists_def file_at_def)
      then have "n \<notin> fs_resolve (se_fs u) ` {temporary, destination}" "n \<notin> fs_resolve (se_fs z) ` {temporary}"
        using E(1) copied(7) r by auto
      then show ?thesis
        using E(2) [of n] discard_touches(1) [of temporary "{temporary}" n "se_fs z"] copied(3,7,9) n
        by (simp add: keeps_files_def)
    qed
    then show ?thesis using copied(5,7,9) E(1,3) r by (simp add: keeps_files_def discard_touches(2))
  qed
  then show "keeps_files (se_fs x) (se_fs y)" "st_file (se_store y) = st_file (se_store x)" by simp_all
qed

lemma checkpoint_exact:
  assumes "checkpoint_to D destination x = (Inr rep, y)"
  shows "file_at (se_fs x) destination = None" and "file_at (se_fs y) destination = Some (st_file (se_store x))"
    and "kr_checkpoint_store_id rep = store_id (st_header (se_store x))"
proof -
  have "file_at (se_fs x) destination = None \<and> file_at (se_fs y) destination = Some (st_file (se_store x)) \<and>
      kr_checkpoint_store_id rep = store_id (st_header (se_store x))"
    using assms
  proof (cases rule: checkpoint_to_cases)
    case early
    then show ?thesis by simp
  next
    case (copied temporary w u z)
    note E = checkpoint_from_temporary_effect [OF copied(8)]
    have "fs_resolve (se_fs z) destination \<notin> fs_resolve (se_fs z) ` {temporary}" using E(4) [OF refl] E(1) by auto
    then have "file_at (discard_file temporary (se_fs z)) destination = file_at (se_fs z) destination"
      using discard_touches(1) [of temporary "{temporary}" _ "se_fs z"] by (simp add: file_at_def discard_touches(2))
    then show ?thesis using E(4) [OF refl] copied(1,5,6,9) by (simp add: path_exists_def)
  qed
  then show "file_at (se_fs x) destination = None" "file_at (se_fs y) destination = Some (st_file (se_store x))"
    "kr_checkpoint_store_id rep = store_id (st_header (se_store x))" by simp_all
qed

lemma restore_exact:
  assumes "restore_copy D source destination w = (Inr rep, w')"
  obtains bs v where "file_at w source = Some bs" and "file_at w destination = None" and "file_at w' destination = Some bs"
    and "verify D None bs = Inr v" and "rr_store_id rep = store_id (vr_header v)" and "rr_keys rep = vr_keys v"
    and "rr_bytes rep = of_nat (length bs)" and "\<not> has_torn_tail v"
proof -
  obtain sr w1 bs w2 w3 k w4 w5 v where steps: "verify_path D source w = (Inr sr, w1)" "\<not> has_torn_tail sr"
      "open_read source w1 = (Inr bs, w2)" "create_new destination w2 = (Inr (), w3)" "copy_and_sync bs destination w3 = (Inr k, w4)"
      "verify_path D destination w4 = (Inr v, w5)" "check_restored sr k v = Inr rep" "w' = w5"
    using assms by (auto simp: restore_copy_def restore_verified_def act_bind_Inr_iff act_map_err_iff or_remove_Inr split: if_splits)
  have s1: "same_files w w1" by (rule touches_none [OF touches_verify steps(1)])
  have bs: "file_at w1 source = Some bs" "same_files w1 w2" using open_read_Inr [OF steps(3)] by auto
  obtain a where cp: "io_copy bs destination w3 = (Inr k, a)" "fs_sync a = (Inr (), w4)"
    using steps(5) by (auto simp: copy_and_sync_def act_bind_Inr_iff)
  have c: "file_at a destination = Some bs" "k = of_nat (length bs)" using io_copy_Inr [OF cp(1) create_new_Inr(2) [OF steps(4)]] by simp_all
  then have w4: "file_at w4 destination = Some bs" using same_files_at [OF touches_none [OF touches_call(2) cp(2)]] by simp
  then have w': "file_at w' destination = Some bs" using same_files_at [OF touches_none [OF touches_verify steps(6)]] steps(8) by simp
  have v: "verify D None bs = Inr v" by (rule verify_path_Inr [OF steps(6)]) (use w4 in simp)
  have "\<not> path_exists w destination"
    using create_new_Inr(1) [OF steps(4)] same_files_exists [OF same_files_trans [OF s1 bs(2)]] by simp
  then have "file_at w destination = None" by (simp add: path_exists_def)
  moreover have "file_at w source = Some bs" using bs(1) same_files_at [OF s1] by simp
  ultimately show ?thesis using that w' v steps(7) c(2) by (auto simp: check_restored_def split: if_splits)
qed

end
