(* ===== verification/Rewriting.thy ===== *)
theory Rewriting
  imports Snapshots
begin

text \<open>
  What it means for a store to be rewritten into a new file: a fresh store opens empty, one
  transaction puts every entry, and the file that is left opens with exactly the entries.
\<close>

section \<open>A fresh store\<close>

lemma open_file_fresh:
  assumes op: "open_file D opts now [] os = (Inr s, s1)" and os: "benign os" "ids_ok os"
  shows "durable D s []" and "st_state s = []" and "st_next_tx_id s = 1"
proof -
  let ?s0 = "raw_store opts [] os"
  obtain h s2 where ld: "load_or_initialize_header D now ?s0 = (Inr h, s2)"
      and rest: "act_bind (\<lambda>s. (recover (dep_crc32 D) (st_file s), s)) (\<lambda>r. act_bind (repair_tail r) (\<lambda>_. finish_open h r)) s2 = (Inr s, s1)"
    using op by (auto simp: open_file_def act_bind_Inr_iff)
  obtain sid xs c where id: "os_entropy os = Some sid # xs" "h = store_header_new sid c"
      and wr: "act_bind (act_map_err EIo (write_all (header_encode (dep_crc32 D) h))) (\<lambda>_. act_bind (act_map_err EIo sync_call) (\<lambda>_. act_return h))
        (?s0\<lparr>st_os := os\<lparr>os_entropy := xs\<rparr>\<rparr>) = (Inr h, s2)"
    using ld by (auto simp: load_or_initialize_header_def raw_store_def generate_store_id_def ok_or_Inr_iff Let_def act_bind_Inr_iff
        split: list.splits sum.splits option.splits prod.splits)
  have wf: "wf_header h" "format_major h = FORMAT_MAJOR" using id os(2) by (auto simp: ids_ok_def wf_header_def store_header_new_def)
  obtain a where a: "write_all (header_encode (dep_crc32 D) h) (?s0\<lparr>st_os := os\<lparr>os_entropy := xs\<rparr>\<rparr>) = (Inr (), a)" "sync_call a = (Inr (), s2)"
    using wr by (auto simp: act_bind_Inr_iff act_map_err_iff)
  have "benign (os\<lparr>os_entropy := xs\<rparr>)" using os(1) by (simp add: benign_def)
  then have b: "benign (st_os a)" "st_file a = header_encode (dep_crc32 D) h"
    using benign_write [OF _ a(1)] by (simp_all add: raw_store_def)
  have s2: "benign (st_os s2)" "st_file s2 = header_encode (dep_crc32 D) h"
    using a(2) b by (auto simp: sync_call_def benign_def split: list.splits sync_outcome.splits)
  have len: "length (st_file s2) = STORE_HEADER_LEN" using s2(2) wf(1) by simp
  have "recover_loop (dep_crc32 D) [] recovery_start = Inr recovery_start" by (simp add: recover_loop.simps)
  then obtain r where r: "recover (dep_crc32 D) (st_file s2) = Inr r" "rec_state r = []" "rec_max_tx_id r = 0" "rec_max_sequence r = 0"
      "rec_valid_end r = of_nat STORE_HEADER_LEN"
    using len by (simp add: recover_def recovery_start_def)
  have "repair_tail r s2 = (Inr (), s2)" using r(5) len by (simp add: repair_tail_def)
  then have "finish_open h r s2 = (Inr s, s1)" using rest r(1) by (simp add: act_bind_def)
  then have s: "st_header s = h" "st_file s = st_file s2" "st_state s = []" "st_next_tx_id s = 1" "st_next_sequence s = 1" "st_os s = st_os s2"
    using r by (auto simp: finish_open_def next_counter_def Let_def)
  show "st_state s = []" "st_next_tx_id s = 1" by (rule s(3), rule s(4))
  show "durable D s []" using s s2 wf
    by (simp add: durable_def store_log_def file_holds_def counters_ahead_def committed_state_def recovery_start_def)
qed

section \<open>Putting the entries\<close>

lemma act_for_put_ext:
  "act_for (\<lambda>(k, v). tx_put_internal D k v) es t = (Inr (), t') \<Longrightarrow> tx_ext (map (\<lambda>(k, v). OpPut k v) es) t t'"
proof (induction es arbitrary: t)
  case Nil
  then show ?case by simp
next
  case (Cons e es)
  obtain k v where e: "e = (k, v)" by fastforce
  obtain t1 where t1: "tx_put_internal D k v t = (Inr (), t1)" "act_for (\<lambda>(k, v). tx_put_internal D k v) es t1 = (Inr (), t')"
    using Cons.prems e by (auto simp: act_bind_Inr_iff)
  have "tx_ext ([OpPut k v] @ map (\<lambda>(k, v). OpPut k v) es) t t'"
    by (rule tx_ext_trans) (use tx_put_internal_ext [OF t1(1)] Cons.IH [OF t1(2)] in auto)
  then show ?case using e by simp
qed

lemma map_of_puts:
  "distinct (map fst es) \<Longrightarrow>
     map_of (apply_operations st (map (\<lambda>(k, v). OpPut k v) es)) k = (case map_of es k of None \<Rightarrow> map_of st k | Some v \<Rightarrow> Some v)"
proof (induction es arbitrary: st)
  case (Cons e es)
  obtain k' v where e: "e = (k', v)" by fastforce
  have "map_of es k' = None" using Cons.prems e by (auto simp: map_of_eq_None_iff)
  then show ?case using Cons.IH [of "AList.update k' v st"] Cons.prems e by (auto split: option.splits)
qed simp

lemma logging_puts: "logging D (act_for (\<lambda>(k, v). tx_put_internal D k v) es)"
  by (intro logging_intros) (auto intro: logging_intros split: prod.split)

lemma staging_puts: "staging (act_for (\<lambda>(k, v). tx_put_internal D k v) es)"
  by (intro staging_intros) (auto intro: staging_intros split: prod.split)

lemma store_flush_durable:
  assumes "durable D s rs" and "store_flush s = (r, s')"
  shows "durable D s' rs" and "st_state s' = st_state s" and "st_next_tx_id s' = st_next_tx_id s"
proof -
  have b: "benign (st_os s)" and sl: "store_log D s rs" using assms(1) by (simp_all add: durable_def store_log_def)
  have f: "sync_file s = (r, s')" using assms(2) by (simp add: store_flush_def)
  note B = benign_sync [OF b f]
  have "store_log D s' rs" by (rule store_log_cong [OF sl B(3) sync_file_view [OF f] B(2,4)])
  then show "durable D s' rs" "st_state s' = st_state s" "st_next_tx_id s' = st_next_tx_id s"
    using sync_file_view [OF f] assms(1) by (simp_all add: durable_def same_view_def)
qed

lemma rewrite_entries_state:
  assumes d: "durable D s []" and st: "st_state s = []" and es: "distinct (map fst es)"
    and run: "rewrite_entries D es s = (Inr (), s')"
  obtains rs where "durable D s' rs" and "\<And>k. store_get s' k = map_of es k" and "wf_map (st_state s')"
    and "st_next_tx_id s' = st_next_tx_id s + (if es = [] then 0 else 1)"
proof -
  obtain s1 where s1: "(if es = [] then act_return () else run_tx D False id (act_for (\<lambda>(k, v). tx_put_internal D k v) es)) s = (Inr (), s1)"
      and fl: "store_flush s1 = (Inr (), s')"
    using run by (auto simp: rewrite_entries_def act_bind_Inr_iff)
  have "\<exists>rs. durable D s1 rs \<and> st_state s1 = apply_operations [] (map (\<lambda>(k, v). OpPut k v) es) \<and>
      st_next_tx_id s1 = st_next_tx_id s + (if es = [] then 0 else 1)"
  proof (cases "es = []")
    case True
    then show ?thesis using s1 d st by auto
  next
    case False
    then have run: "run_tx D False id (act_for (\<lambda>(k, v). tx_put_internal D k v) es) s = (Inr (), s1)" using s1 by simp
    obtain t where t: "act_for (\<lambda>(k, v). tx_put_internal D k v) es (fresh_tx False s) = (Inr (), t)"
        "tx_ext (tx_operations t) (fresh_tx False s) t" "st_state s1 = apply_operations (st_state s) (tx_operations t @ captured D t)"
        "st_next_tx_id s1 = st_next_tx_id s + 1"
      by (rule run_tx_Inr [OF staging_puts run]) blast
    have "tx_operations t = map (\<lambda>(k, v). OpPut k v) es" "captured D t = []"
      using act_for_put_ext [OF t(1)] by (simp_all add: tx_ext_def captured_def)
    then show ?thesis using run_tx_durable [OF logging_puts d run] t(3,4) st False by auto
  qed
  then obtain rs where rs: "durable D s1 rs" "st_state s1 = apply_operations [] (map (\<lambda>(k, v). OpPut k v) es)"
      "st_next_tx_id s1 = st_next_tx_id s + (if es = [] then 0 else 1)" by blast
  note F = store_flush_durable [OF rs(1) fl]
  show ?thesis by (rule that [OF F(1)]) (use F(2,3) rs(2,3) map_of_puts [OF es, of "[]"] in \<open>auto simp: store_get_def split: option.split\<close>)
qed

section \<open>The file of a store opened in passing\<close>

lemma finish_open_same: "finish_open h r s0 = (Inr s, s1) \<Longrightarrow> s1 = s"
  by (auto simp: finish_open_def Let_def split: sum.splits prod.splits)

lemma open_file_same: "open_file D opts now f os = (Inr s, s1) \<Longrightarrow> s1 = s"
  by (auto simp: open_file_def act_bind_Inr_iff dest: finish_open_same)

lemma attach_store_Inr:
  assumes "attach_store D p name w = (Inr s, w')"
  shows "open_file D store_options_default (fs_now w) (case file_at w p of None \<Rightarrow> [] | Some c \<Rightarrow> c) (fs_os w) = (Inr s, s)"
    and "fs_resolve w' = fs_resolve w"
proof -
  obtain lock w1 where l: "(case fs_locks w of [] \<Rightarrow> (None, w) | l # ls \<Rightarrow> (l, w\<lparr>fs_locks := ls\<rparr>)) = (lock, w1)" by fastforce
  then have w1: "fs_now w1 = fs_now w" "fs_os w1 = fs_os w" "fs_resolve w1 = fs_resolve w" by (auto split: list.splits)
  obtain bs pr where o: "open_with_options D name store_options_default (fs_now w) lock (case file_at w p of None \<Rightarrow> [] | Some c \<Rightarrow> c)
      (fs_os w) (fs_process w1) = (Inr s, bs, pr)" and w': "w' = set_file p (Some bs) (w1\<lparr>fs_process := pr\<rparr>)"
    using assms l w1 by (auto simp: attach_store_def Let_def split: prod.splits)
  show "fs_resolve w' = fs_resolve w" using w' w1 by simp
  obtain s1 where "open_file D store_options_default (fs_now w) (case file_at w p of None \<Rightarrow> [] | Some c \<Rightarrow> c) (fs_os w) = (Inr s, s1)"
    using o by (auto simp: open_with_options_def split: prod.splits sum.splits option.splits)
  moreover from this have "s1 = s" by (rule open_file_same)
  ultimately show "open_file D store_options_default (fs_now w) (case file_at w p of None \<Rightarrow> [] | Some c \<Rightarrow> c) (fs_os w) = (Inr s, s)" by simp
qed

lemma with_store_fresh:
  assumes run: "with_store D p body w = (Inr v, w')" and w: "sane w"
    and new: "file_at w p = None \<or> file_at w p = Some []"
  obtains s s' where "durable D s []" and "st_state s = []" and "body s = (Inr v, s')" and "file_at w' p = Some (st_file s')"
    and "fs_os w' = st_os s'" and "st_next_tx_id s = 1"
proof -
  obtain s w1 s' where s: "open_store D p w = (Inr s, w1)" "body s = (Inr v, s')" "w' = close_store p s' w1"
    using run by (auto simp: with_store_def split: prod.splits sum.splits)
  obtain a b name where st: "open_create p w = (Inr (), a)" "canonicalize p a = (Inr name, b)" "attach_store D p name b = (Inr s, w1)"
    using s(1) by (auto simp: open_store_def act_bind_Inr_iff act_map_err_iff)
  have c: "fs_os w2 = fs_os w1" "same_files w1 w2" if "fs_call w1 = (r, w2)" for w1 r w2
    using that by (auto simp: fs_call_def same_files_def split: list.splits option.splits)
  obtain a0 where a0: "fs_call w = (Inr (), a0)" "a = (if path_exists a0 p then a0 else set_file p (Some []) a0)"
    using st(1) by (auto simp: open_create_def act_bind_Inr_iff)
  have "file_at a0 p = file_at w p" using c(2) [OF a0(1)] by (rule same_files_at)
  then have a: "fs_os a = fs_os w" "file_at a p = Some []"
    using new a0(2) c(1) [OF a0(1)] by (auto simp: path_exists_def)
  have "fs_call a = (Inr (), b)" using st(2) by (auto simp: canonicalize_def act_bind_Inr_iff split: if_splits)
  then have b: "fs_os b = fs_os a" "file_at b p = file_at a p" using c same_files_at by blast+
  have "open_file D store_options_default (fs_now b) [] (fs_os w) = (Inr s, s)"
    using attach_store_Inr(1) [OF st(3)] a b by simp
  note F = open_file_fresh [OF this w [unfolded sane_def, THEN conjunct1] w [unfolded sane_def, THEN conjunct2]]
  show ?thesis by (rule that [OF F(1,2) s(2)]) (simp_all add: s(3) close_store_def F(3))
qed

section \<open>A compacted copy\<close>

lemma distinct_scan_all: "store_wf s \<Longrightarrow> distinct (map fst (scan_prefix s []))"
  by (simp add: scan_prefix_def store_wf_def distinct_scan_map)

lemma map_of_scan_all: "store_wf s \<Longrightarrow> map_of (scan_prefix s []) k = store_get s k"
  by (simp add: scan_prefix_def store_wf_def map_of_scan_map store_get_def)

lemma length_scan_all: "length (scan_prefix s []) = store_len s"
  by (simp add: scan_prefix_def scan_map_def store_len_def)

lemma compact_copy_opens:
  assumes wf: "store_wf (se_store x)" and w: "sane (se_fs x)"
    and run: "compact_copy_to D destination x = (Inr rep, y)"
  obtains s rs where "durable D s rs" and "file_at (se_fs y) destination = Some (st_file s)"
    and "\<And>k. store_get s k = store_get (se_store x) k" and "store_wf s"
    and "cr_keys rep = store_len (se_store x)" and "file_at (se_fs x) destination = None"
proof -
  let ?es = "scan_prefix (se_store x) []"
  have ne: "\<not> path_exists (se_fs x) destination" using run by (auto simp: compact_copy_to_def split: if_splits)
  have "on_fs (compact_into D (se_path x) ?es destination) x = (Inr rep, y)"
    using run ne by (auto simp: compact_copy_to_def split: if_splits)
  then obtain w1 where w1: "compact_into D (se_path x) ?es destination (se_fs x) = (Inr rep, w1)" "y = x\<lparr>se_fs := w1\<rparr>"
    unfolding on_fs_iff by blast
  obtain n a b v where st: "metadata_len (se_path x) (se_fs x) = (Inr n, a)" "with_store D destination (rewrite_entries D ?es) a = (Inr (), b)"
      "verify_path D destination b = (Inr v, w1)" "cr_keys rep = length ?es"
    using w1(1) by (auto simp: compact_into_def act_bind_Inr_iff act_map_err_iff split: if_splits)
  have "same_files (se_fs x) a" by (rule touches_none [OF touches_open(2) st(1)])
  then have na: "file_at a destination = None" using ne same_files_at by (metis path_exists_def)
  have "fs_os a = fs_os (se_fs x)"
    using st(1) by (auto simp: metadata_len_def act_bind_Inr_iff fs_call_def split: list.splits option.splits)
  then have wa: "sane a" using w by (simp add: sane_def)
  have na': "file_at a destination = None \<or> file_at a destination = Some []" using na by simp
  obtain s s' where s: "durable D s []" "st_state s = []" "rewrite_entries D ?es s = (Inr (), s')" "file_at b destination = Some (st_file s')"
    by (rule with_store_fresh [OF st(2) wa na'])
  obtain rs where rs: "durable D s' rs" "\<And>k. store_get s' k = map_of ?es k" "wf_map (st_state s')"
    using rewrite_entries_state [OF s(1,2) distinct_scan_all [OF wf] s(3)] by blast
  have "file_at w1 destination = Some (st_file s')"
    using s(4) same_files_at [OF touches_none [OF touches_verify st(3)]] by simp
  then show ?thesis using that [OF rs(1)] rs(2,3) w1(2) st(4) ne wf
    by (simp add: map_of_scan_all store_wf_def length_scan_all path_exists_def)
qed

end
