(* ===== verification/Generations.thy ===== *)
theory Generations
  imports Rewriting
begin

text \<open>
  Compact generations that keep the store's identity (\<open>generation.rs\<close>) and their offline
  activation by two renames, with its recovery (\<open>activation.rs\<close>).
\<close>

section \<open>Building a generation\<close>

datatype generation_error =
    GnStore engine_error
  | GnLog log_error
  | GnIo io_kind
  | GnDestinationExists
  | GnDestinationIsSource
  | GnCounterExhausted
  | GnVerificationMismatch
  | GnRandomness
  | GnTemporaryNameExhausted

record generation_report =
  gr_store_id :: bytes
  gr_source_bytes :: u64
  gr_generation_bytes :: u64
  gr_keys :: usize
  gr_high_water_tx_id :: u64
  gr_high_water_sequence :: u64

definition generation_bytes_reclaimed :: "generation_report \<Rightarrow> u64" where
  "generation_bytes_reclaimed r = saturating_sub (gr_source_bytes r) (gr_generation_bytes r)"

fun generation_reserve_error :: "reserve_error \<Rightarrow> generation_error" where
  "generation_reserve_error RvRandomness = GnRandomness"
| "generation_reserve_error (RvIo k) = GnIo k"
| "generation_reserve_error RvNameExhausted = GnTemporaryNameExhausted"

definition reserve_destination :: "string \<Rightarrow> (fs, generation_error, unit) act" where
  "reserve_destination destination =
     act_map_err (\<lambda>k. if k = AlreadyExists then GnDestinationExists else GnIo k) (create_new destination)"

definition reserve_source_image :: "string \<Rightarrow> (fs, generation_error, string) act" where
  "reserve_source_image destination =
     act_map_err generation_reserve_error (reserve_sibling ''source'' ''generation'' destination)"

function high_water_loop :: "(bytes \<Rightarrow> u32) \<Rightarrow> bytes \<Rightarrow> usize \<Rightarrow> u64 \<Rightarrow> u64 \<Rightarrow> generation_error + u64 \<times> u64" where
  "high_water_loop crc bs offset max_tx_id max_sequence =
     (if \<not> offset < length bs then Inr (max_tx_id, max_sequence)
      else if length (drop offset bs) < HEADER_LEN then Inr (max_tx_id, max_sequence)
      else case encoded_record_len_from_prefix (drop offset bs) of
             Inl e \<Rightarrow> (if e = LogTruncatedRecord then Inr (max_tx_id, max_sequence) else Inl (GnLog e))
           | Inr record_len \<Rightarrow>
               (if length (drop offset bs) < record_len then Inr (max_tx_id, max_sequence)
                else case record_decode crc (take record_len (drop offset bs)) of
                       Inl e \<Rightarrow> Inl (GnLog e)
                     | Inr r \<Rightarrow>
                         (case usize_checked_add offset record_len of
                            None \<Rightarrow> Inl GnCounterExhausted
                          | Some next \<Rightarrow> high_water_loop crc bs next (max max_tx_id (lr_tx_id r)) (max max_sequence (lr_sequence r)))))"
  by pat_completeness auto
termination
  by (relation "measure (\<lambda>(crc, bs, offset, t, q). length bs - offset)")
    (auto simp: usize_checked_add_def dest: encoded_record_len_positive split: if_splits)

declare high_water_loop.simps [simp del]

definition log_high_water :: "deps \<Rightarrow> string \<Rightarrow> (fs, generation_error, u64 \<times> u64) act" where
  "log_high_water D path = act_bind (act_map_err GnIo (open_read path)) (\<lambda>file.
     act_lift (high_water_loop (dep_crc32 D) (drop STORE_HEADER_LEN file) 0 0 0))"

definition next_high_water :: "u64 \<Rightarrow> u64 \<Rightarrow> generation_error + u64" where
  "next_high_water a b = ok_or GnCounterExhausted (checked_add (max a b) 1)"

text \<open>Replace the header by the source's and append the marker.\<close>

definition stamp_generation :: "string \<Rightarrow> bytes \<Rightarrow> bytes \<Rightarrow> (fs, io_kind, unit) act" where
  "stamp_generation destination header marker =
     act_bind fs_call (\<lambda>_. act_bind (fs_write destination at_start header) (\<lambda>_.
     act_bind (fs_write destination at_end marker) (\<lambda>_. fs_sync)))"

definition generation_file ::
  "deps \<Rightarrow> store_header \<Rightarrow> kv \<Rightarrow> string \<Rightarrow> string \<Rightarrow> u64 \<Rightarrow> (fs, generation_error, generation_report) act" where
  "generation_file D header entries destination source_image source_bytes =
     act_bind (log_high_water D source_image) (\<lambda>(source_max_tx, source_max_sequence).
     act_bind (act_map_err GnStore (with_store D destination (rewrite_entries D entries))) (\<lambda>_.
     act_bind (log_high_water D destination) (\<lambda>(generation_max_tx, generation_max_sequence).
     act_bind (act_lift (next_high_water source_max_tx generation_max_tx)) (\<lambda>high_water_tx_id.
     act_bind (act_lift (next_high_water source_max_sequence generation_max_sequence)) (\<lambda>high_water_sequence.
     act_bind (act_lift (map_err GnLog (record_encode (dep_crc32 D)
       (log_record_new RCommit high_water_tx_id high_water_sequence [])))) (\<lambda>marker.
     act_bind (act_map_err GnIo (stamp_generation destination (header_encode (dep_crc32 D) header) marker)) (\<lambda>_.
     act_bind (act_map_err GnStore (verify_path D destination)) (\<lambda>verification.
       act_lift (if has_torn_tail verification \<or> vr_keys verification \<noteq> length entries
            \<or> store_id (vr_header verification) \<noteq> store_id header
         then Inl GnVerificationMismatch
         else Inr \<lparr>gr_store_id = store_id header, gr_source_bytes = source_bytes,
                   gr_generation_bytes = vr_file_bytes verification, gr_keys = length entries,
                   gr_high_water_tx_id = high_water_tx_id, gr_high_water_sequence = high_water_sequence\<rparr>)))))))))"

definition build_generation ::
  "deps \<Rightarrow> string \<Rightarrow> string \<Rightarrow> u64 \<Rightarrow> (session, generation_error, generation_report) act" where
  "build_generation D destination source_image source_bytes x =
     on_fs (generation_file D (st_header (se_store x)) (scan_prefix (se_store x) []) destination source_image source_bytes) x"

definition drop_files :: "string list \<Rightarrow> session \<Rightarrow> session" where
  "drop_files ps x = x\<lparr>se_fs := fold discard_file ps (se_fs x)\<rparr>"

definition generation_from_image :: "deps \<Rightarrow> string \<Rightarrow> string \<Rightarrow> (session, generation_error, generation_report) act" where
  "generation_from_image D destination source_image x =
     (case backup_file source_image x of
        (Inl e, y) \<Rightarrow> (Inl (GnStore e), drop_files [source_image, destination] y)
      | (Inr source_bytes, y) \<Rightarrow>
          (case build_generation D destination source_image source_bytes y of
             (Inl e, z) \<Rightarrow> (Inl e, drop_files [source_image, destination] z)
           | (Inr report, z) \<Rightarrow> (Inr report, drop_files [source_image] z)))"

definition compact_generation_to :: "deps \<Rightarrow> string \<Rightarrow> (session, generation_error, generation_report) act" where
  "compact_generation_to D destination =
     act_bind (act_map_err GnStore (on_store store_flush)) (\<lambda>_ x.
       if destination = se_path x then (Inl GnDestinationIsSource, x)
       else act_bind (on_fs (reserve_destination destination)) (\<lambda>_.
            act_bind (on_fs (or_remove destination (reserve_source_image destination)))
              (generation_from_image D destination)) x)"

section \<open>Activating a generation\<close>

datatype activation_error =
    AcStore engine_error
  | AcLog log_error
  | AcIo io_kind
  | AcPathsMustDiffer
  | AcBackupExists
  | AcIdentityMismatch
  | AcTornStore
  | AcMissingGenerationMarker
  | AcInvalidGenerationMarker
  | AcStaleGeneration u64 u64
  | AcAmbiguousLayout
  | AcCounterExhausted
  | AcRollbackFailed activation_error io_kind

datatype activation_recovery = NotStarted | ActivationCompleted | CompletedInterruptedActivation | RestoredBackup

record activation_report =
  ar_store_id :: bytes
  ar_active_path :: string
  ar_backup_path :: string
  ar_active_bytes :: u64
  ar_backup_bytes :: u64

definition validate_distinct_paths :: "string \<Rightarrow> string \<Rightarrow> string \<Rightarrow> activation_error + unit" where
  "validate_distinct_paths active generation backup =
     (if active = generation \<or> active = backup \<or> generation = backup then Inl AcPathsMustDiffer else Inr ())"

definition LOG_HEADER_LEN :: usize where
  "LOG_HEADER_LEN = 25"

record log_inspection =
  li_max_tx_id :: u64
  li_max_sequence :: u64
  li_last_record :: "log_record option"

function inspect_loop :: "(bytes \<Rightarrow> u32) \<Rightarrow> bytes \<Rightarrow> usize \<Rightarrow> log_inspection \<Rightarrow> activation_error + log_inspection" where
  "inspect_loop crc bs offset i =
     (if \<not> offset < length bs then Inr i
      else if length (drop offset bs) < LOG_HEADER_LEN then Inl AcTornStore
      else
        let payload_len = unat (from_le (slice 21 25 (drop offset bs)) :: u32)
        in case (case usize_checked_add LOG_HEADER_LEN payload_len of
                   None \<Rightarrow> None | Some v \<Rightarrow> usize_checked_add v 4) of
             None \<Rightarrow> Inl AcCounterExhausted
           | Some record_len \<Rightarrow>
               (if length (drop offset bs) < record_len then Inl AcTornStore
                else case record_decode crc (take record_len (drop offset bs)) of
                       Inl e \<Rightarrow> Inl (AcLog e)
                     | Inr r \<Rightarrow>
                         (case usize_checked_add offset record_len of
                            None \<Rightarrow> Inl AcCounterExhausted
                          | Some next \<Rightarrow> inspect_loop crc bs next
                              \<lparr>li_max_tx_id = max (li_max_tx_id i) (lr_tx_id r),
                               li_max_sequence = max (li_max_sequence i) (lr_sequence r),
                               li_last_record = Some r\<rparr>)))"
  by pat_completeness auto
termination
  by (relation "measure (\<lambda>(crc, bs, offset, i). length bs - offset)")
    (auto simp: usize_checked_add_def LOG_HEADER_LEN_def split: if_splits option.splits)

declare inspect_loop.simps [simp del]

definition inspect_bytes :: "(bytes \<Rightarrow> u32) \<Rightarrow> bytes \<Rightarrow> activation_error + log_inspection" where
  "inspect_bytes crc bs =
     (if length bs < STORE_HEADER_LEN then Inl AcTornStore
      else inspect_loop crc (drop STORE_HEADER_LEN bs) 0
             \<lparr>li_max_tx_id = 0, li_max_sequence = 0, li_last_record = None\<rparr>)"

definition inspect_log :: "deps \<Rightarrow> string \<Rightarrow> (fs, activation_error, log_inspection) act" where
  "inspect_log D path = act_bind (act_map_err AcIo (open_read path)) (\<lambda>bs. act_lift (inspect_bytes (dep_crc32 D) bs))"

text \<open>The marker checks between inspecting the two logs and the first rename.\<close>

definition check_marker :: "log_inspection \<Rightarrow> log_inspection \<Rightarrow> activation_error + unit" where
  "check_marker active_log generation_log =
     res_bind (ok_or AcMissingGenerationMarker (li_last_record generation_log)) (\<lambda>marker.
       if lr_kind marker \<noteq> RCommit \<or> lr_payload marker \<noteq> [] then Inl AcMissingGenerationMarker
       else if lr_tx_id marker \<noteq> li_max_tx_id generation_log \<or> lr_sequence marker \<noteq> li_max_sequence generation_log
       then Inl AcInvalidGenerationMarker
       else res_bind (ok_or AcCounterExhausted (checked_add (li_max_tx_id active_log) 1)) (\<lambda>expected_marker_tx.
         if lr_tx_id marker \<noteq> expected_marker_tx
         then Inl (AcStaleGeneration (li_max_tx_id active_log) (lr_tx_id marker)) else Inr ()))"

text \<open>On Unix: open the parent directory and sync it.\<close>

definition sync_parent_directory :: "(fs, io_kind, unit) act" where
  "sync_parent_directory = act_bind fs_call (\<lambda>_. fs_call)"

definition verify_activated :: "deps \<Rightarrow> string \<Rightarrow> string \<Rightarrow> bytes \<Rightarrow> (fs, activation_error, unit) act" where
  "verify_activated D active backup sid =
     act_bind (act_map_err AcStore (verify_path D active)) (\<lambda>active_report.
     act_bind (act_map_err AcStore (verify_path D backup)) (\<lambda>backup_report.
       act_lift (if has_torn_tail active_report \<or> has_torn_tail backup_report then Inl AcTornStore
         else if store_id (vr_header active_report) \<noteq> sid \<or> store_id (vr_header backup_report) \<noteq> sid
         then Inl AcIdentityMismatch else Inr ())))"

definition rollback_activation :: "string \<Rightarrow> string \<Rightarrow> string \<Rightarrow> (fs, io_kind, unit) act" where
  "rollback_activation active generation backup w =
     (if path_exists w generation then (Inl AlreadyExists, w)
      else act_bind (rename_file active generation) (\<lambda>_.
           act_bind (rename_file backup active) (\<lambda>_. sync_parent_directory)) w)"

text \<open>Run a step; when it fails, roll back and report both errors if that fails too.\<close>

definition or_rollback ::
  "(fs, activation_error, 'a) act \<Rightarrow> (fs, io_kind, unit) act \<Rightarrow> (fs, activation_error, 'a) act" where
  "or_rollback step rollback w =
     (case step w of
        (Inr a, w1) \<Rightarrow> (Inr a, w1)
      | (Inl e, w1) \<Rightarrow> (case rollback w1 of
                          (Inr _, w2) \<Rightarrow> (Inl e, w2)
                        | (Inl k, w2) \<Rightarrow> (Inl (AcRollbackFailed e k), w2)))"

definition swap_files :: "deps \<Rightarrow> string \<Rightarrow> string \<Rightarrow> string \<Rightarrow> bytes \<Rightarrow> (fs, activation_error, activation_report) act" where
  "swap_files D active generation backup sid =
     act_bind (act_map_err AcIo (rename_file active backup)) (\<lambda>_.
     act_bind (or_rollback (act_map_err AcIo sync_parent_directory) (rename_file backup active)) (\<lambda>_.
     act_bind (or_rollback (act_map_err AcIo (rename_file generation active)) (rename_file backup active)) (\<lambda>_.
     act_bind (or_rollback (act_map_err AcIo sync_parent_directory) (rollback_activation active generation backup)) (\<lambda>_.
     act_bind (or_rollback (verify_activated D active backup sid) (rollback_activation active generation backup)) (\<lambda>_.
     act_bind (act_map_err AcIo (metadata_len active)) (\<lambda>active_bytes.
     act_bind (act_map_err AcIo (metadata_len backup)) (\<lambda>backup_bytes.
       act_return \<lparr>ar_store_id = sid, ar_active_path = active, ar_backup_path = backup,
                   ar_active_bytes = active_bytes, ar_backup_bytes = backup_bytes\<rparr>)))))))"

definition check_activation ::
  "deps \<Rightarrow> string \<Rightarrow> string \<Rightarrow> string \<Rightarrow> (fs, activation_error, bytes) act" where
  "check_activation D active generation backup =
     act_bind (act_lift (validate_distinct_paths active generation backup)) (\<lambda>_.
     act_bind (\<lambda>w. (if path_exists w backup then Inl AcBackupExists else Inr (), w)) (\<lambda>_.
     act_bind (act_map_err AcStore (verify_path D active)) (\<lambda>active_report.
     act_bind (act_map_err AcStore (verify_path D generation)) (\<lambda>generation_report.
       if has_torn_tail active_report \<or> has_torn_tail generation_report then act_lift (Inl AcTornStore)
       else if store_id (vr_header active_report) \<noteq> store_id (vr_header generation_report)
       then act_lift (Inl AcIdentityMismatch)
       else act_bind (inspect_log D active) (\<lambda>active_log.
            act_bind (inspect_log D generation) (\<lambda>generation_log.
            act_bind (act_lift (check_marker active_log generation_log)) (\<lambda>_.
              act_return (store_id (vr_header active_report)))))))))"

definition activate_generation_offline ::
  "deps \<Rightarrow> string \<Rightarrow> string \<Rightarrow> string \<Rightarrow> (fs, activation_error, activation_report) act" where
  "activate_generation_offline D active generation backup =
     act_bind (check_activation D active generation backup) (swap_files D active generation backup)"

definition recover_generation_activation ::
  "deps \<Rightarrow> string \<Rightarrow> string \<Rightarrow> string \<Rightarrow> (fs, activation_error, activation_recovery) act" where
  "recover_generation_activation D active generation backup =
     act_bind (act_lift (validate_distinct_paths active generation backup)) (\<lambda>_ w.
       case (path_exists w active, path_exists w generation, path_exists w backup) of
         (True, True, False) \<Rightarrow> (Inr NotStarted, w)
       | (True, False, True) \<Rightarrow>
           act_bind (act_map_err AcStore (verify_path D active)) (\<lambda>active_report.
           act_bind (act_map_err AcStore (verify_path D backup)) (\<lambda>backup_report.
             act_lift (if store_id (vr_header active_report) \<noteq> store_id (vr_header backup_report)
               then Inl AcIdentityMismatch else Inr ActivationCompleted))) w
       | (False, True, True) \<Rightarrow>
           act_bind (act_map_err AcStore (verify_path D generation)) (\<lambda>generation_report.
           act_bind (act_map_err AcStore (verify_path D backup)) (\<lambda>backup_report.
             if store_id (vr_header generation_report) \<noteq> store_id (vr_header backup_report)
             then act_lift (Inl AcIdentityMismatch)
             else act_bind (act_map_err AcIo (rename_file generation active)) (\<lambda>_.
                  act_bind (act_map_err AcIo sync_parent_directory) (\<lambda>_.
                  act_bind (verify_activated D active backup (store_id (vr_header generation_report))) (\<lambda>_.
                    act_return CompletedInterruptedActivation))))) w
       | (False, False, True) \<Rightarrow>
           act_bind (act_map_err AcIo (rename_file backup active)) (\<lambda>_.
           act_bind (act_map_err AcIo sync_parent_directory) (\<lambda>_.
           act_bind (act_map_err AcStore (verify_path D active)) (\<lambda>_. act_return RestoredBackup))) w
       | _ \<Rightarrow> (Inl AcAmbiguousLayout, w))"

end
