(* ===== verification/Generation_Laws.thy ===== *)
theory Generation_Laws
  imports Generations
begin

text \<open>
  What the two readers of a log compute, and the file a generation is: the source's header, the
  entries, and an empty commit whose identifiers lie above everything in the source.
\<close>

section \<open>Reading high-water marks\<close>

definition max_tx :: "log_record list \<Rightarrow> u64" where
  "max_tx rs = fold (\<lambda>r m. max m (lr_tx_id r)) rs 0"

definition max_seq :: "log_record list \<Rightarrow> u64" where
  "max_seq rs = fold (\<lambda>r m. max m (lr_sequence r)) rs 0"

lemma fold_max_ge: "m \<le> fold (\<lambda>r m. max m (f r)) rs (m :: u64)"
proof (induction rs arbitrary: m)
  case (Cons x xs)
  have "max m (f x) \<le> fold (\<lambda>r m. max m (f r)) xs (max m (f x))" by (rule Cons.IH)
  then show ?case by simp
qed simp

lemma fold_max_upper: "r \<in> set rs \<Longrightarrow> f r \<le> fold (\<lambda>r m. max m (f r)) rs (m :: u64)"
proof (induction rs arbitrary: m)
  case (Cons x xs)
  have "f x \<le> fold (\<lambda>r m. max m (f r)) xs (max m (f x))" by (rule order.trans [OF _ fold_max_ge]) simp
  then show ?case using Cons by auto
qed simp

lemma max_tx_upper: "r \<in> set rs \<Longrightarrow> lr_tx_id r \<le> max_tx rs"
  unfolding max_tx_def by (rule fold_max_upper)

lemma max_seq_upper: "r \<in> set rs \<Longrightarrow> lr_sequence r \<le> max_seq rs"
  unfolding max_seq_def by (rule fold_max_upper)

lemma max_snoc [simp]: "max_tx (rs @ [r]) = max (max_tx rs) (lr_tx_id r)" "max_seq (rs @ [r]) = max (max_seq rs) (lr_sequence r)"
  by (simp_all add: max_tx_def max_seq_def)

text \<open>The maxima are those of recovery.\<close>

lemma replay_maxima:
  assumes "replay rs recovery_start = Inr a" and "\<forall>r \<in> set rs. lr_sequence r \<noteq> 0"
  shows "ra_max_tx_id a = max_tx rs" and "ra_max_sequence a = max_seq rs"
proof -
  have "ra_max_tx_id a = max_tx rs \<and> ra_max_sequence a = max_seq rs"
    using assms
  proof (induction rs arbitrary: a rule: rev_induct)
    case Nil
    then show ?case by (auto simp: recovery_start_def max_tx_def max_seq_def)
  next
    case (snoc r rs)
    from snoc.prems obtain b a' where b: "replay rs recovery_start = Inr b"
      and a': "recover_record r b = Inr a'" and a: "a = a'\<lparr>ra_offset := ra_offset b + record_size r\<rparr>"
      by (auto simp: replay_append res_bind_Inr_iff)
    have "max_seq rs \<le> lr_sequence r"
      using recover_record_Inr(2) [OF a'] snoc.IH [OF b] snoc.prems(2) by (auto intro: order.strict_implies_order)
    then show ?case using recover_record_Inr(3,4) [OF a'] snoc.IH [OF b] snoc.prems(2) a by (simp add: max_def)
  qed
  then show "ra_max_tx_id a = max_tx rs" "ra_max_sequence a = max_seq rs" by simp_all
qed

lemma high_water_loop_log:
  assumes "encode_log crc rs = Inr bs" and "length pre + length bs < 2 ^ 64"
  shows "high_water_loop crc (pre @ bs) (length pre) t q =
    Inr (fold (\<lambda>r m. max m (lr_tx_id r)) rs t, fold (\<lambda>r m. max m (lr_sequence r)) rs q)"
  using assms
proof (induction rs arbitrary: pre bs t q)
  case Nil
  then show ?case by (simp add: high_water_loop.simps)
next
  case (Cons r rs)
  from Cons.prems(1) obtain b cs where b: "record_encode crc r = Inr b" and cs: "encode_log crc rs = Inr cs" and bs: "bs = b @ cs"
    by (auto simp: res_bind_Inr_iff)
  have lb: "HEADER_LEN < length b" using record_encode_size [OF b] record_size_pos [of r] by simp
  have IH: "high_water_loop crc (pre @ b @ cs) (length pre + length b) t' q' =
      Inr (fold (\<lambda>r m. max m (lr_tx_id r)) rs t', fold (\<lambda>r m. max m (lr_sequence r)) rs q')" for t' q'
    using Cons.IH [OF cs, of "pre @ b"] Cons.prems(2) bs by simp
  have add: "usize_checked_add (length pre) (length b) = Some (length pre + length b)"
    using Cons.prems(2) bs by (simp add: usize_checked_add_def)
  show ?case unfolding bs
    by (subst high_water_loop.simps) (use lb encoded_len_of_record [OF b] record_decode_encode [OF b] IH add in auto)
qed

lemma inspect_loop_log:
  assumes "encode_log crc rs = Inr bs" and "length pre + length bs < 2 ^ 64"
  shows "inspect_loop crc (pre @ bs) (length pre) i =
    Inr \<lparr>li_max_tx_id = fold (\<lambda>r m. max m (lr_tx_id r)) rs (li_max_tx_id i),
         li_max_sequence = fold (\<lambda>r m. max m (lr_sequence r)) rs (li_max_sequence i),
         li_last_record = (if rs = [] then li_last_record i else Some (last rs))\<rparr>"
  using assms
proof (induction rs arbitrary: pre bs i)
  case Nil
  then show ?case by (simp add: inspect_loop.simps)
next
  case (Cons r rs)
  from Cons.prems(1) obtain b cs where b: "record_encode crc r = Inr b" and cs: "encode_log crc rs = Inr cs" and bs: "bs = b @ cs"
    by (auto simp: res_bind_Inr_iff)
  have lb: "HEADER_LEN < length b" "length b = record_size r" using record_encode_size [OF b] record_size_pos [of r] by simp_all
  have hl: "LOG_HEADER_LEN = HEADER_LEN" by (simp add: LOG_HEADER_LEN_def HEADER_LEN_def)
  have pl: "unat (from_le (slice 21 25 (b @ cs)) :: u32) = length (lr_payload r)"
  proof -
    have "encoded_record_len_from_prefix (b @ cs) = Inr (length b)" by (rule encoded_len_of_record [OF b])
    then have "expected_len (unat (from_le (slice 21 25 (b @ cs)) :: u32)) = Inr (record_size r)"
      using lb by (simp add: encoded_record_len_from_prefix_def split: if_splits)
    then show ?thesis by (simp add: expected_len_u32 record_size_def)
  qed
  have "record_size r < 2 ^ 64" using Cons.prems(2) bs lb(2) by simp
  then have len: "(case usize_checked_add LOG_HEADER_LEN (length (lr_payload r)) of None \<Rightarrow> None | Some v \<Rightarrow> usize_checked_add v 4) = Some (length b)"
    using lb(2) by (simp add: usize_checked_add_def hl record_size_def)
  let ?i = "\<lparr>li_max_tx_id = max (li_max_tx_id i) (lr_tx_id r), li_max_sequence = max (li_max_sequence i) (lr_sequence r), li_last_record = Some r\<rparr>"
  have IH: "inspect_loop crc (pre @ b @ cs) (length pre + length b) ?i =
      Inr \<lparr>li_max_tx_id = fold (\<lambda>r m. max m (lr_tx_id r)) rs (li_max_tx_id ?i),
         li_max_sequence = fold (\<lambda>r m. max m (lr_sequence r)) rs (li_max_sequence ?i),
         li_last_record = (if rs = [] then li_last_record ?i else Some (last rs))\<rparr>"
    using Cons.IH [OF cs, of "pre @ b" ?i] Cons.prems(2) bs by simp
  have add: "usize_checked_add (length pre) (length b) = Some (length pre + length b)"
    using Cons.prems(2) bs by (simp add: usize_checked_add_def)
  show ?case unfolding bs
    by (subst inspect_loop.simps) (use lb hl pl len record_decode_encode [OF b] IH add in \<open>auto simp: Let_def\<close>)
qed

text \<open>On the file of a store, both readers see the log of the store.\<close>

lemma log_high_water_file:
  assumes "encode_log (dep_crc32 D) rs = Inr bs" and "wf_header h" and "length bs < 2 ^ 64"
  shows "high_water_loop (dep_crc32 D) (drop STORE_HEADER_LEN (header_encode (dep_crc32 D) h @ bs)) 0 0 0 = Inr (max_tx rs, max_seq rs)"
  using high_water_loop_log [OF assms(1), of "[]"] assms(2,3) by (simp add: max_tx_def max_seq_def)

lemma inspect_file:
  assumes "encode_log (dep_crc32 D) rs = Inr bs" and "wf_header h" and "length bs < 2 ^ 64"
  shows "inspect_bytes (dep_crc32 D) (header_encode (dep_crc32 D) h @ bs) =
    Inr \<lparr>li_max_tx_id = max_tx rs, li_max_sequence = max_seq rs, li_last_record = (if rs = [] then None else Some (last rs))\<rparr>"
  using inspect_loop_log [OF assms(1), of "[]" "\<lparr>li_max_tx_id = 0, li_max_sequence = 0, li_last_record = None\<rparr>"] assms(2,3)
  by (simp add: inspect_bytes_def max_tx_def max_seq_def)

section \<open>The file of a generation\<close>

lemma stamp_generation_Inr:
  assumes "stamp_generation p head mk w = (Inr u, w')" and "file_at w p = Some old"
  shows "file_at w' p = Some (head @ drop (length head) old @ mk)"
proof -
  obtain a b c where st: "fs_call w = (Inr (), a)" "fs_write p at_start head a = (Inr (), b)" "fs_write p at_end mk b = (Inr (), c)" "fs_sync c = (Inr u, w')"
    using assms(1) by (auto simp: stamp_generation_def act_bind_Inr_iff)
  have "file_at a p = Some old" using assms(2) same_files_at [OF fs_call_same [OF st(1)]] by simp
  then have "file_at b p = Some (head @ drop (length head) old)" using fs_write_Inr [OF st(2)] by (simp add: at_start_def)
  then have "file_at c p = Some (head @ drop (length head) old @ mk)" using fs_write_Inr [OF st(3)] by (simp add: at_end_def)
  then show ?thesis using same_files_at [OF touches_none [OF touches_call(2) st(4)]] by simp
qed

lemma log_high_water_Inr:
  assumes "log_high_water D p w = (Inr hw, w')"
  obtains bs where "file_at w p = Some bs" and "same_files w w'" and "fs_os w' = fs_os w"
    and "high_water_loop (dep_crc32 D) (drop STORE_HEADER_LEN bs) 0 0 0 = Inr hw"
proof -
  obtain bs where o: "open_read p w = (Inr bs, w')" "high_water_loop (dep_crc32 D) (drop STORE_HEADER_LEN bs) 0 0 0 = Inr hw"
    using assms by (auto simp: log_high_water_def act_bind_Inr_iff act_map_err_iff)
  have "fs_os w' = fs_os w"
    using o(1) by (auto simp: open_read_def act_bind_Inr_iff fs_call_def split: list.splits option.splits)
  then show ?thesis using that open_read_Inr [OF o(1)] o(2) by blast
qed

lemma next_high_water_Inr:
  assumes "next_high_water a b = Inr c"
  shows "a < c" and "b < c" and "c = max a b + 1"
proof -
  have c: "checked_add (max a b) 1 = Some c" using assms by (simp add: next_high_water_def ok_or_Inr_iff)
  then show "c = max a b + 1" by (rule checked_add_Some(2))
  have "max a b < c" using checked_add_Some(1) [OF c] by (simp add: word_less_nat_alt)
  then show "a < c" "b < c" by simp_all
qed

lemma generation_file_Inr:
  assumes run: "generation_file D h es destination img n w = (Inr rep, w')"
    and new: "file_at w destination = Some []" and w: "sane w"
    and es: "distinct (map fst es)" and h: "wf_header h"
    and src: "file_at w img = Some (header_encode (dep_crc32 D) h @ bs)" "encode_log (dep_crc32 D) rs = Inr bs" "length bs < 2 ^ 64"
    and fit: "\<And>c. file_at w' destination = Some c \<Longrightarrow> length c < 2 ^ 64"
  obtains s gs gb where "durable D s gs" and "\<And>k. store_get s k = map_of es k"
    and "next_high_water (max_tx rs) (max_tx gs) = Inr (gr_high_water_tx_id rep)"
    and "next_high_water (max_seq rs) (max_seq gs) = Inr (gr_high_water_sequence rep)"
    and "encode_log (dep_crc32 D) (gs @ [log_record_new RCommit (gr_high_water_tx_id rep) (gr_high_water_sequence rep) []]) = Inr gb"
    and "file_at w' destination = Some (header_encode (dep_crc32 D) h @ gb)" and "store_wf s"
    and "st_next_tx_id s = 1 + (if es = [] then 0 else 1)"
proof -
  obtain st sq a b gt gq c ht hq mk d v where st: "log_high_water D img w = (Inr (st, sq), a)"
      "with_store D destination (rewrite_entries D es) a = (Inr (), b)" "log_high_water D destination b = (Inr (gt, gq), c)"
      "next_high_water st gt = Inr ht" "next_high_water sq gq = Inr hq"
      "record_encode (dep_crc32 D) (log_record_new RCommit ht hq []) = Inr mk"
      "stamp_generation destination (header_encode (dep_crc32 D) h) mk c = (Inr (), d)"
      "verify_path D destination d = (Inr v, w')" "gr_high_water_tx_id rep = ht" "gr_high_water_sequence rep = hq"
    using run by (auto simp: generation_file_def act_bind_Inr_iff act_map_err_iff simp del: act_bind_lift split: if_splits)
  obtain f where f: "file_at w img = Some f" "same_files w a" "fs_os a = fs_os w"
      "high_water_loop (dep_crc32 D) (drop STORE_HEADER_LEN f) 0 0 0 = Inr (st, sq)" by (rule log_high_water_Inr [OF st(1)])
  have sm: "st = max_tx rs" "sq = max_seq rs" using f(1,4) src(1) log_high_water_file [OF src(2) h src(3)] by simp_all
  have na: "file_at a destination = None \<or> file_at a destination = Some []" using new same_files_at [OF f(2)] by simp
  have wa: "sane a" using w f(3) by (simp add: sane_def)
  obtain s0 s where s0: "durable D s0 []" "st_state s0 = []" "rewrite_entries D es s0 = (Inr (), s)" "file_at b destination = Some (st_file s)" "st_next_tx_id s0 = 1"
    by (rule with_store_fresh [OF st(2) wa na])
  obtain gs where gs: "durable D s gs" "\<And>k. store_get s k = map_of es k" "wf_map (st_state s)"
      "st_next_tx_id s = 1 + (if es = [] then 0 else 1)"
    by (rule rewrite_entries_state [OF s0(1,2) es s0(3)]) (simp add: s0(5))
  obtain gb where gb: "encode_log (dep_crc32 D) gs = Inr gb" "st_file s = header_encode (dep_crc32 D) (st_header s) @ gb" "wf_header (st_header s)"
    using gs(1) by (auto simp: durable_def store_log_def file_holds_def)
  obtain g where g: "file_at b destination = Some g" "same_files b c"
      "high_water_loop (dep_crc32 D) (drop STORE_HEADER_LEN g) 0 0 0 = Inr (gt, gq)" by (rule log_high_water_Inr [OF st(3)])
  have "file_at c destination = Some (st_file s)" using s0(4) same_files_at [OF g(2)] by simp
  from stamp_generation_Inr [OF st(7) this] have "file_at d destination = Some (header_encode (dep_crc32 D) h @ gb @ mk)"
    using gb(2,3) h by simp
  then have fin: "file_at w' destination = Some (header_encode (dep_crc32 D) h @ gb @ mk)"
    using same_files_at [OF touches_none [OF touches_verify st(8)]] by simp
  have "length gb < 2 ^ 64" using fit [OF fin] by simp
  then have gm: "gt = max_tx gs" "gq = max_seq gs"
    using g(1,3) s0(4) gb(2) log_high_water_file [OF gb(1,3)] by simp_all
  have enc: "encode_log (dep_crc32 D) (gs @ [log_record_new RCommit ht hq []]) = Inr (gb @ mk)"
    using gb(1) st(6) by (simp add: encode_log_append)
  show ?thesis
    by (rule that [OF gs(1,2), of "gb @ mk"]) (use st(4,5,9,10) sm gm enc fin gs(3,4) in \<open>simp_all add: store_wf_def\<close>)
qed

text \<open>A log with the marker appended is a log again, with the same committed state, and the file
  opens above the marker.\<close>

lemma marker_log:
  assumes d: "durable D s gs" and t: "max_tx gs < t" and q: "max_seq gs < q"
  obtains a where "replay (gs @ [log_record_new RCommit t q []]) recovery_start = Inr a"
    and "committed_state (gs @ [log_record_new RCommit t q []]) = st_state s"
    and "ra_max_tx_id a = t" and "ra_max_sequence a = q" and "\<forall>r \<in> set (gs @ [log_record_new RCommit t q []]). lr_sequence r \<noteq> 0"
proof -
  let ?m = "log_record_new RCommit t q []"
  obtain b where b: "replay gs recovery_start = Inr b" and nz: "\<forall>r \<in> set gs. lr_sequence r \<noteq> 0"
    using d by (auto simp: durable_def store_log_def counters_ahead_def)
  note M = replay_maxima [OF b nz]
  have ids: "t \<notin> lr_tx_id ` set gs" using t max_tx_upper by fastforce
  then have nc: "t \<notin> set (ra_committed b)" using replay_meets_spec [OF b] by (auto simp: replay_inv_def committed_ids_def)
  obtain a' where a': "recover_record ?m b = Inr a'"
    using recover_record_accepts [OF _ counters_inv_replay [OF b nz] nc, of q RCommit "[]"] q M(2) by auto
  have "replay (gs @ [?m]) recovery_start = Inr (a'\<lparr>ra_offset := ra_offset b + record_size ?m\<rparr>)"
    using b a' by (simp add: replay_append)
  moreover have "committed_state (gs @ [?m]) = st_state s"
    using d logged_ops_not_commit [OF ids] by (simp add: committed_state_snoc log_record_new_def durable_def)
  moreover have "ra_max_tx_id a' = t" "ra_max_sequence a' = q"
    using recover_record_Inr(3,4) [OF a'] M(1) t by (simp_all add: log_record_new_def max.absorb2)
  moreover have "q \<noteq> 0" using q by auto
  ultimately show ?thesis using that nz by (simp add: log_record_new_def)
qed

lemma marked_file_opens:
  assumes d: "durable D s gs" and t: "max_tx gs < t" "t \<noteq> - 1" and q: "max_seq gs < q" "q \<noteq> - 1"
    and h: "wf_header h" "format_major h = FORMAT_MAJOR" and os: "benign os"
    and gb: "encode_log (dep_crc32 D) (gs @ [log_record_new RCommit t q []]) = Inr gb" "STORE_HEADER_LEN + length gb < 2 ^ 64"
  shows "\<exists>s'. open_file D opts now (header_encode (dep_crc32 D) h @ gb) os = (Inr s', s') \<and>
    durable D s' (gs @ [log_record_new RCommit t q []]) \<and> st_state s' = st_state s \<and> st_header s' = h \<and>
    t < st_next_tx_id s' \<and> q < st_next_sequence s'"
proof -
  obtain a where a: "replay (gs @ [log_record_new RCommit t q []]) recovery_start = Inr a"
      "committed_state (gs @ [log_record_new RCommit t q []]) = st_state s" "ra_max_tx_id a = t" "ra_max_sequence a = q"
      "\<forall>r \<in> set (gs @ [log_record_new RCommit t q []]). lr_sequence r \<noteq> 0"
    by (rule marker_log [OF d t(1) q(1)])
  let ?top = "s\<lparr>st_next_tx_id := - 1, st_next_sequence := - 1\<rparr>"
  have "t < - 1" "q < - 1" using t(2) q(2) by (simp_all add: word_order.not_eq_extremum)
  then have c: "counters_ahead ?top (gs @ [log_record_new RCommit t q []])" using a by (simp add: counters_ahead_def)
  obtain s' where s': "open_file D opts now (header_encode (dep_crc32 D) h @ gb) os = (Inr s', s')"
      "durable D s' (gs @ [log_record_new RCommit t q []])" "st_header s' = h"
    using open_file_log [OF h gb(1) torn_Nil c os, of opts now] gb(2) by auto
  have "t < st_next_tx_id s'" "q < st_next_sequence s'"
    using s'(2) a by (auto simp: durable_def store_log_def counters_ahead_def)
  then show ?thesis using s' a(2) by (auto simp: durable_def)
qed

section \<open>Taking the steps of \<open>compact_generation_to\<close> apart\<close>

lemma discard_other: "fs_resolve w q \<noteq> fs_resolve w p \<Longrightarrow> file_at (discard_file p w) q = file_at w q"
  using discard_touches(1) [of p "{p}" _ w] by (simp add: file_at_def discard_touches(2))

lemma touches_generation_file: "touches {destination} (generation_file D h es destination img n)"
proof -
  have l: "touches {destination} (log_high_water D p)" for p unfolding log_high_water_def by (intro touches_intros)
  have s: "touches {destination} (stamp_generation destination hdr mk)" for hdr mk
    unfolding stamp_generation_def by (intro touches_intros) simp_all
  show ?thesis unfolding generation_file_def by (intro touches_intros l s) simp_all
qed

lemma generation_steps:
  assumes "compact_generation_to D destination x = (Inr rep, y)"
  obtains w1 img w2 n z w3 where "create_new destination (se_fs x) = (Inr (), w1)"
    and "keeps_files w1 w2" and "\<not> path_exists w1 img" and "file_at w2 img = Some []"
    and "st_file (se_store z) = st_file (se_store x)" and "st_header (se_store z) = st_header (se_store x)"
    and "st_state (se_store z) = st_state (se_store x)" and "fs_resolve (se_fs z) = fs_resolve (se_fs x)"
    and "\<And>m. m \<noteq> fs_resolve (se_fs x) img \<Longrightarrow> fs_files (se_fs z) m = fs_files w2 m"
    and "file_at (se_fs z) img = Some (st_file (se_store x))" and "sane (se_fs x) \<Longrightarrow> sane (se_fs z)"
    and "generation_file D (st_header (se_store z)) (scan_prefix (se_store z) []) destination img n (se_fs z) = (Inr rep, w3)"
    and "y = drop_files [img] (z\<lparr>se_fs := w3\<rparr>)"
proof -
  obtain s1 where f: "store_flush (se_store x) = (Inr (), s1)"
      and rest: "(if destination = se_path x then (Inl GnDestinationIsSource, x\<lparr>se_store := s1\<rparr>)
       else act_bind (on_fs (reserve_destination destination)) (\<lambda>_.
            act_bind (on_fs (or_remove destination (reserve_source_image destination)))
              (generation_from_image D destination)) (x\<lparr>se_store := s1\<rparr>)) = (Inr rep, y)"
    using assms by (auto simp: compact_generation_to_def act_bind_Inr_iff act_map_err_iff on_store_iff)
  note F = store_flush_keeps [OF f]
  obtain w1 img w2 where st: "reserve_destination destination (se_fs x) = (Inr (), w1)"
      "reserve_source_image destination w1 = (Inr img, w2)"
      and go: "generation_from_image D destination img (x\<lparr>se_store := s1, se_fs := w2\<rparr>) = (Inr rep, y)"
    using rest by (auto simp: act_bind_Inr_iff on_fs_iff or_remove_Inr split: if_splits)
  obtain n z where bk: "backup_file img (x\<lparr>se_store := s1, se_fs := w2\<rparr>) = (Inr n, z)"
      and bg: "(case build_generation D destination img n z of (Inl e, u) \<Rightarrow> (Inl e, drop_files [img, destination] u)
           | (Inr report, u) \<Rightarrow> (Inr report, drop_files [img] u)) = (Inr rep, y)"
    using go by (auto simp: generation_from_image_def split: prod.split_asm sum.split_asm)
  obtain u where u: "build_generation D destination img n z = (Inr rep, u)" "y = drop_files [img] u"
    using bg by (auto split: prod.split_asm sum.split_asm)
  obtain w3 where w3: "generation_file D (st_header (se_store z)) (scan_prefix (se_store z) []) destination img n (se_fs z) = (Inr rep, w3)" "u = z\<lparr>se_fs := w3\<rparr>"
    using u(1) unfolding build_generation_def on_fs_iff by blast
  have c: "create_new destination (se_fs x) = (Inr (), w1)" using st(1) by (simp add: reserve_destination_def act_map_err_iff)
  have r: "reserve_sibling ''source'' ''generation'' destination w1 = (Inr img, w2)"
    using st(2) by (simp add: reserve_source_image_def act_map_err_iff)
  note R = reserve_loop_reserves [OF r [unfolded reserve_sibling_def]]
  note B = backup_file_effect [OF bk]
  have sn: "sane (se_fs x) \<Longrightarrow> sane (se_fs z)"
    using backup_file_sane [OF bk] keepsD [OF keeps_sane_files(4) _ c] keepsD [OF keeps_sane_reserve _ r [unfolded reserve_sibling_def]] by simp
  have res: "fs_resolve w2 = fs_resolve (se_fs x)" using R(1) create_new_Inr(3) [OF c] by (simp add: keeps_files_def)
  show ?thesis
    by (rule that [OF c R(1) _ _ _ _ _ _ _ _ _ w3(1)])
      (use R(2) [OF refl] B B(7) [OF refl] F res u(2) w3(2) sn in simp_all)
qed

text \<open>Opening the generation gives the source's identity and entries, and identifiers above all of
  the source's.\<close>

lemma generation_opens:
  assumes d: "durable D (se_store x) rs" and wf: "store_wf (se_store x)" and x: "sane (se_fs x)"
    and run: "compact_generation_to D destination x = (Inr rep, y)"
    and fit: "length (st_file (se_store x)) < 2 ^ 64" "\<And>c. file_at (se_fs y) destination = Some c \<Longrightarrow> length c < 2 ^ 64"
  obtains s gs gb where "durable D s gs" and "store_get s = store_get (se_store x)" and "store_wf s"
    and "max_tx rs < gr_high_water_tx_id rep" and "max_seq rs < gr_high_water_sequence rep"
    and "max_tx gs < gr_high_water_tx_id rep" and "max_seq gs < gr_high_water_sequence rep"
    and "gr_high_water_tx_id rep = max (max_tx rs) (max_tx gs) + 1"
    and "encode_log (dep_crc32 D) (gs @ [log_record_new RCommit (gr_high_water_tx_id rep) (gr_high_water_sequence rep) []]) = Inr gb"
    and "file_at (se_fs y) destination = Some (header_encode (dep_crc32 D) (st_header (se_store x)) @ gb)"
    and "file_at (se_fs x) destination = None"
    and "st_next_tx_id s = 1 + (if st_state (se_store x) = [] then 0 else 1)"
proof -
  obtain w1 img w2 n z w3 where st: "create_new destination (se_fs x) = (Inr (), w1)" "keeps_files w1 w2" "\<not> path_exists w1 img"
      "file_at w2 img = Some []" "st_file (se_store z) = st_file (se_store x)" "st_header (se_store z) = st_header (se_store x)"
      "st_state (se_store z) = st_state (se_store x)" "fs_resolve (se_fs z) = fs_resolve (se_fs x)"
      "\<And>m. m \<noteq> fs_resolve (se_fs x) img \<Longrightarrow> fs_files (se_fs z) m = fs_files w2 m"
      "file_at (se_fs z) img = Some (st_file (se_store x))" "sane (se_fs x) \<Longrightarrow> sane (se_fs z)"
      "generation_file D (st_header (se_store z)) (scan_prefix (se_store z) []) destination img n (se_fs z) = (Inr rep, w3)"
      "y = drop_files [img] (z\<lparr>se_fs := w3\<rparr>)"
    by (rule generation_steps [OF run]) blast
  note C = create_new_Inr [OF st(1)]
  have r1: "fs_resolve w1 = fs_resolve (se_fs x)" using C(3) by (simp add: keeps_files_def)
  have ne: "fs_resolve (se_fs x) img \<noteq> fs_resolve (se_fs x) destination"
    using st(3) C(2) r1 by (auto simp: path_exists_def file_at_def)
  have "file_at w2 destination = Some []" by (rule keeps_files_at [OF st(2) C(2)])
  then have new: "file_at (se_fs z) destination = Some []"
    using st(9) [of "fs_resolve (se_fs x) destination"] ne st(2,8) r1 by (simp add: file_at_def keeps_files_def)
  obtain bs where bs: "encode_log (dep_crc32 D) rs = Inr bs" "st_file (se_store x) = header_encode (dep_crc32 D) (st_header (se_store x)) @ bs"
      and h: "wf_header (st_header (se_store x))" using d by (auto simp: durable_def store_log_def file_holds_def)
  note T = touchesD(1) [OF touches_generation_file st(12)]
  have fin: "file_at (se_fs y) destination = file_at w3 destination"
    using st(13) discard_other [of w3 destination img] ne T st(8) by (simp add: drop_files_def)
  have es: "distinct (map fst (scan_prefix (se_store z) []))"
    using distinct_scan_all [OF wf] st(7) by (simp add: scan_prefix_def)
  have hz: "wf_header (st_header (se_store z))" using h st(6) by simp
  have src: "file_at (se_fs z) img = Some (header_encode (dep_crc32 D) (st_header (se_store z)) @ bs)" using st(6,10) bs(2) by simp
  have lb: "length bs < 2 ^ 64" using fit(1) bs(2) by simp
  obtain s gs gb where g: "durable D s gs" "\<And>k. store_get s k = map_of (scan_prefix (se_store z) []) k"
      "next_high_water (max_tx rs) (max_tx gs) = Inr (gr_high_water_tx_id rep)"
      "next_high_water (max_seq rs) (max_seq gs) = Inr (gr_high_water_sequence rep)"
      "encode_log (dep_crc32 D) (gs @ [log_record_new RCommit (gr_high_water_tx_id rep) (gr_high_water_sequence rep) []]) = Inr gb"
      "file_at w3 destination = Some (header_encode (dep_crc32 D) (st_header (se_store z)) @ gb)" "store_wf s"
      "st_next_tx_id s = 1 + (if scan_prefix (se_store z) [] = [] then 0 else 1)"
    by (rule generation_file_Inr [OF st(12) new st(11) [OF x] es hz src bs(1) lb]) (use fit(2) fin in auto)
  have "map_of (scan_prefix (se_store z) []) k = store_get (se_store x) k" for k
    using map_of_scan_all [OF wf] st(7) by (simp add: scan_prefix_def)
  then have "store_get s = store_get (se_store x)" using g(2) by auto
  moreover have "scan_prefix (se_store z) [] = [] \<longleftrightarrow> st_state (se_store x) = []"
    using length_scan_all [of "se_store z"] st(7) by (simp add: store_len_def flip: length_0_conv)
  ultimately show ?thesis
    using that [OF g(1)] g(5,6,7,8) next_high_water_Inr [OF g(3)] next_high_water_Inr [OF g(4)] st(6) fin C(1)
    by (simp add: path_exists_def)
qed

text \<open>Whatever happens, no file that existed is changed.\<close>

definition outside :: "string set \<Rightarrow> fs \<Rightarrow> fs \<Rightarrow> bool" where
  "outside P w w' \<longleftrightarrow> fs_resolve w' = fs_resolve w \<and> (\<forall>n. n \<notin> fs_resolve w ` P \<longrightarrow> fs_files w' n = fs_files w n)"

lemma outside_trans: "outside P a b \<Longrightarrow> outside P b c \<Longrightarrow> outside P a c"
  by (simp add: outside_def)

lemma outside_touches: "touches P a \<Longrightarrow> a w = (r, w') \<Longrightarrow> outside P w w'"
  by (simp add: outside_def touches_def)

lemma outside_discard: "p \<in> P \<Longrightarrow> outside P w (discard_file p w)"
  by (simp add: outside_def discard_touches(2)) (metis discard_touches(1))

lemma outside_fresh:
  assumes "outside P w w'" and "\<And>p. p \<in> P \<Longrightarrow> \<not> path_exists v p" and "keeps_files v w"
  shows "keeps_files v w'"
proof -
  have "fs_files w' n = Some c" if n: "fs_files v n = Some c" for n c
  proof -
    have "n \<notin> fs_resolve v ` P" using assms(2) n by (auto simp: path_exists_def file_at_def)
    then show ?thesis using assms(1,3) n by (simp add: outside_def keeps_files_def)
  qed
  then show ?thesis using assms(1,3) by (simp add: outside_def keeps_files_def)
qed

lemma generation_from_image_outside:
  assumes "generation_from_image D destination img x = (r, y)"
  shows "outside {img, destination} (se_fs x) (se_fs y)" and "st_file (se_store y) = st_file (se_store x)"
proof -
  obtain b v where b: "backup_file img x = (b, v)" by fastforce
  note B = backup_file_effect [OF b]
  have ob: "outside {img, destination} (se_fs x) (se_fs v)" using B(5,6) by (simp add: outside_def)
  have dr: "outside {img, destination} (se_fs u) (se_fs (drop_files ps u))" if "set ps \<subseteq> {img, destination}" for ps u
    using that
  proof (induction ps arbitrary: u)
    case (Cons p ps)
    have "outside {img, destination} (se_fs u) (discard_file p (se_fs u))" using Cons.prems by (intro outside_discard) simp
    then show ?case using outside_trans Cons.IH [of "u\<lparr>se_fs := discard_file p (se_fs u)\<rparr>"] Cons.prems
      by (simp add: drop_files_def)
  qed (simp add: drop_files_def outside_def)
  have st: "se_store (drop_files ps u) = se_store u" for ps u by (simp add: drop_files_def)
  have "outside {img, destination} (se_fs x) (se_fs y) \<and> st_file (se_store y) = st_file (se_store x)"
  proof (cases b)
    case (Inl e)
    then have "y = drop_files [img, destination] v" using assms b by (simp add: generation_from_image_def)
    then show ?thesis using outside_trans [OF ob dr] st B(2) by simp
  next
    case (Inr n)
    obtain c u where c: "build_generation D destination img n v = (c, u)" by fastforce
    obtain w where w: "generation_file D (st_header (se_store v)) (scan_prefix (se_store v) []) destination img n (se_fs v) = (c, w)" "u = v\<lparr>se_fs := w\<rparr>"
      using c unfolding build_generation_def on_fs_iff by blast
    have "outside {img, destination} (se_fs v) (se_fs u)"
      using outside_touches [OF touches_mono [OF touches_generation_file] w(1), of "{img, destination}"] w(2) by simp
    then have ou: "outside {img, destination} (se_fs x) (se_fs u)" by (rule outside_trans [OF ob])
    have "y = drop_files [img, destination] u \<or> y = drop_files [img] u"
      using assms b Inr c by (auto simp: generation_from_image_def split: sum.splits)
    then show ?thesis using outside_trans [OF ou dr] st B(2) w(2) by auto
  qed
  then show "outside {img, destination} (se_fs x) (se_fs y)" "st_file (se_store y) = st_file (se_store x)" by simp_all
qed

lemma generation_keeps:
  assumes "compact_generation_to D destination x = (r, y)"
  shows "keeps_files (se_fs x) (se_fs y)" and "st_file (se_store y) = st_file (se_store x)"
proof -
  obtain f s1 where f: "store_flush (se_store x) = (f, s1)" by fastforce
  let ?x1 = "x\<lparr>se_store := s1\<rparr>"
  note F = store_flush_keeps [OF f]
  obtain c w1 where c: "create_new destination (se_fs x) = (c, w1)" by fastforce
  let ?conv = "\<lambda>k. if k = AlreadyExists then GnDestinationExists else GnIo k"
  obtain m w2 where m: "reserve_source_image destination w1 = (m, w2)" by fastforce
  obtain m' where m': "reserve_loop 16 (case path_parent destination of None \<Rightarrow> ''.'' | Some d \<Rightarrow> d)
       (case path_file_name destination of None \<Rightarrow> ''generation'' | Some b \<Rightarrow> b) ''source'' w1 = (m', w2)" "m = map_err generation_reserve_error m'"
    using m by (auto simp: reserve_source_image_def reserve_sibling_def act_map_err_def split: prod.splits)
  note R = reserve_loop_reserves [OF m'(1)]
  have eq: "compact_generation_to D destination x = (case f of Inl e \<Rightarrow> (Inl (GnStore e), ?x1) | Inr _ \<Rightarrow>
      if destination = se_path x then (Inl GnDestinationIsSource, ?x1)
      else case c of Inl k \<Rightarrow> (Inl (?conv k), ?x1\<lparr>se_fs := w1\<rparr>) | Inr _ \<Rightarrow>
        (case m of Inl e \<Rightarrow> (Inl e, ?x1\<lparr>se_fs := discard_file destination w2\<rparr>)
         | Inr img \<Rightarrow> generation_from_image D destination img (?x1\<lparr>se_fs := w2\<rparr>)))"
    using f c m by (simp add: compact_generation_to_def act_bind_def act_map_err_def on_store_def on_fs_def reserve_destination_def or_remove_def split: sum.split)
  note run = assms [unfolded eq]
  have "keeps_files (se_fs x) (se_fs y) \<and> st_file (se_store y) = st_file (se_store x)"
  proof (cases "f = Inr () \<and> destination \<noteq> se_path x \<and> c = Inr ()")
    case False
    then have "y = ?x1 \<or> (\<exists>k. c = Inl k) \<and> y = ?x1\<lparr>se_fs := w1\<rparr>" using run by (auto split: sum.splits if_splits)
    then show ?thesis using F(1) c create_new_Inl same_files_keeps by fastforce
  next
    case True
    then have c': "create_new destination (se_fs x) = (Inr (), w1)" using c by simp
    note C = create_new_Inr [OF c']
    have k2: "keeps_files (se_fs x) w2" by (rule keeps_files_trans [OF C(3) R(1)])
    show ?thesis
    proof (cases m)
      case (Inl e)
      then have "y = ?x1\<lparr>se_fs := discard_file destination w2\<rparr>" using run True by simp
      then show ?thesis using outside_fresh [OF outside_discard [of destination "{destination}"] _ k2] C(1) F(1) by simp
    next
      case (Inr img)
      then have g: "generation_from_image D destination img (?x1\<lparr>se_fs := w2\<rparr>) = (r, y)" using run True by simp
      have "m' = Inr img" using m'(2) Inr by (cases m') auto
      then have "\<not> path_exists w1 img" using R(2) by simp
      then have "\<not> path_exists (se_fs x) img" using keeps_files_at [OF C(3), of img] by (cases "file_at (se_fs x) img") (auto simp: path_exists_def)
      then have "keeps_files (se_fs x) (se_fs y)"
        using outside_fresh [OF generation_from_image_outside(1) [OF g], of "se_fs x"] k2 C(1) by auto
      then show ?thesis using generation_from_image_outside(2) [OF g] F(1) by simp
    qed
  qed
  then show "keeps_files (se_fs x) (se_fs y)" "st_file (se_store y) = st_file (se_store x)" by simp_all
qed

end
