(* ===== verification/Activation.thy ===== *)
theory Activation
  imports Generation_Laws
begin

text \<open>
  The rename protocol of \<open>activation.rs\<close> as a state machine over the three files involved. The
  rules below are a small Hoare logic whose assertions are sets of file layouts; with them, every
  run of an activation, whatever fails in it, ends in one of three layouts, and recovery takes
  each of them to a layout with an active store.
\<close>

section \<open>Layouts\<close>

type_synonym layout = "bytes option \<times> bytes option \<times> bytes option"

definition layout_of :: "string \<Rightarrow> string \<Rightarrow> string \<Rightarrow> fs \<Rightarrow> layout" where
  "layout_of A G B w = (file_at w A, file_at w G, file_at w B)"

definition separate :: "string \<Rightarrow> string \<Rightarrow> string \<Rightarrow> fs \<Rightarrow> bool" where
  "separate A G B w \<longleftrightarrow> distinct [fs_resolve w A, fs_resolve w G, fs_resolve w B]"

text \<open>Before the first rename, between the renames, after the second.\<close>

definition untouched :: "bytes \<Rightarrow> bytes \<Rightarrow> layout" where
  "untouched a g = (Some a, Some g, None)"

definition set_aside :: "bytes \<Rightarrow> bytes \<Rightarrow> layout" where
  "set_aside a g = (None, Some g, Some a)"

definition activated :: "bytes \<Rightarrow> bytes \<Rightarrow> layout" where
  "activated a g = (Some g, None, Some a)"

lemmas layouts = untouched_def set_aside_def activated_def layout_of_def

definition moves :: "string \<Rightarrow> string \<Rightarrow> string \<Rightarrow> layout set \<Rightarrow> (fs, 'e, 'a) act \<Rightarrow> layout set \<Rightarrow> layout set \<Rightarrow> bool" where
  "moves A G B P m Q E \<longleftrightarrow> (\<forall>w r w'. separate A G B w \<longrightarrow> layout_of A G B w \<in> P \<longrightarrow> m w = (r, w') \<longrightarrow>
     fs_resolve w' = fs_resolve w \<and> layout_of A G B w' \<in> (case r of Inl _ \<Rightarrow> E | Inr _ \<Rightarrow> Q))"

lemma movesD:
  assumes "moves A G B P m Q E" and "separate A G B w" and "layout_of A G B w \<in> P" and "m w = (r, w')"
  shows "separate A G B w'" and "layout_of A G B w' \<in> (case r of Inl _ \<Rightarrow> E | Inr _ \<Rightarrow> Q)" and "fs_resolve w' = fs_resolve w"
  using assms unfolding moves_def separate_def by metis+

lemma movesI:
  "(\<And>w r w'. separate A G B w \<Longrightarrow> layout_of A G B w \<in> P \<Longrightarrow> m w = (r, w') \<Longrightarrow>
     fs_resolve w' = fs_resolve w \<and> layout_of A G B w' \<in> (case r of Inl _ \<Rightarrow> E | Inr _ \<Rightarrow> Q)) \<Longrightarrow> moves A G B P m Q E"
  by (simp add: moves_def)

lemma moves_weaken: "moves A G B P m Q E \<Longrightarrow> Q \<subseteq> Q' \<Longrightarrow> E \<subseteq> E' \<Longrightarrow> moves A G B P m Q' E'"
  unfolding moves_def by (fastforce split: sum.splits)

lemma moves_bind:
  assumes "moves A G B P m Q E" and "\<And>a. moves A G B Q (f a) R E"
  shows "moves A G B P (act_bind m f) R E"
proof (rule movesI)
  fix w r w'
  assume w: "separate A G B w" "layout_of A G B w \<in> P" and run: "act_bind m f w = (r, w')"
  obtain q w1 where q: "m w = (q, w1)" by fastforce
  note M = movesD [OF assms(1) w q]
  show "fs_resolve w' = fs_resolve w \<and> layout_of A G B w' \<in> (case r of Inl _ \<Rightarrow> E | Inr _ \<Rightarrow> R)"
  proof (cases q)
    case (Inl e)
    then show ?thesis using run q M by (auto simp: act_bind_def)
  next
    case (Inr a)
    then have "f a w1 = (r, w')" using run q by (simp add: act_bind_def)
    moreover have "layout_of A G B w1 \<in> Q" using M(2) Inr by simp
    ultimately show ?thesis using movesD [OF assms(2) M(1)] M(3) by metis
  qed
qed

lemma moves_map_err: "moves A G B P m Q E \<Longrightarrow> moves A G B P (act_map_err g m) Q E"
  unfolding moves_def by (fastforce simp: act_map_err_def map_err_def split: prod.splits sum.splits)

lemma moves_same: "touches {} m \<Longrightarrow> P \<subseteq> Q \<Longrightarrow> P \<subseteq> E \<Longrightarrow> moves A G B P m Q E"
  using touches_none by (fastforce simp: moves_def layout_of_def same_files_def file_at_def split: sum.splits)

lemma moves_or_rollback:
  assumes "moves A G B P step Q F" and "moves A G B F back E E"
  shows "moves A G B P (or_rollback step back) Q E"
proof (rule movesI)
  fix w r w'
  assume w: "separate A G B w" "layout_of A G B w \<in> P" and run: "or_rollback step back w = (r, w')"
  obtain q w1 where q: "step w = (q, w1)" by fastforce
  note M = movesD [OF assms(1) w q]
  show "fs_resolve w' = fs_resolve w \<and> layout_of A G B w' \<in> (case r of Inl _ \<Rightarrow> E | Inr _ \<Rightarrow> Q)"
  proof (cases q)
    case (Inl e)
    obtain k w2 where k: "back w1 = (k, w2)" by fastforce
    have l: "layout_of A G B w1 \<in> F" using M(2) Inl by simp
    have "w' = w2 \<and> (\<exists>e'. r = Inl e')" using run q Inl k by (auto simp: or_rollback_def split: sum.splits)
    then show ?thesis using movesD [OF assms(2) M(1) l k] M(3) by (auto split: sum.splits)
  next
    case (Inr a)
    then show ?thesis using run q M by (auto simp: or_rollback_def)
  qed
qed

text \<open>What a rename does between two different files.\<close>

lemma rename_file_effect:
  assumes "rename_file p q w = (r, w')" and "fs_resolve w p \<noteq> fs_resolve w q" and "file_at w p = Some c"
  shows "fs_resolve w' = fs_resolve w" and "r = Inl e \<Longrightarrow> same_files w w'"
    and "r = Inr u \<Longrightarrow> file_at w' p = None \<and> file_at w' q = Some c \<and>
      (\<forall>n. fs_resolve w n \<noteq> fs_resolve w p \<longrightarrow> fs_resolve w n \<noteq> fs_resolve w q \<longrightarrow> file_at w' n = file_at w n)"
proof -
  obtain k w1 where k: "fs_call w = (k, w1)" by fastforce
  have s: "same_files w w1" by (rule fs_call_same [OF k])
  have c: "file_at w1 p = Some c" "fs_resolve w1 = fs_resolve w" using assms(3) same_files_at [OF s] s by (simp_all add: same_files_def)
  show "fs_resolve w' = fs_resolve w" "r = Inl e \<Longrightarrow> same_files w w'"
    using assms(1) k s c by (auto simp: rename_file_def act_bind_def split: sum.splits)
  assume "r = Inr u"
  then have "w' = set_file q (Some c) (set_file p None w1)"
    using assms(1) k c by (auto simp: rename_file_def act_bind_def split: sum.splits)
  then show "file_at w' p = None \<and> file_at w' q = Some c \<and>
      (\<forall>n. fs_resolve w n \<noteq> fs_resolve w p \<longrightarrow> fs_resolve w n \<noteq> fs_resolve w q \<longrightarrow> file_at w' n = file_at w n)"
    using assms(2) c(2) s by (auto simp: set_file_def file_at_def same_files_def)
qed

lemma moves_renames:
  "moves A G B {untouched a g} (rename_file A B) {set_aside a g} {untouched a g}"
  "moves A G B {set_aside a g} (rename_file G A) {activated a g} {set_aside a g}"
  "moves A G B {set_aside a g} (rename_file B A) {untouched a g} {set_aside a g}"
  "moves A G B {activated a g} (rename_file A G) {set_aside a g} {activated a g}"
proof -
  have *: "moves A G B {L} (rename_file p q) {L'} {L}"
    if pre: "\<And>w. separate A G B w \<Longrightarrow> layout_of A G B w = L \<Longrightarrow> fs_resolve w p \<noteq> fs_resolve w q \<and> (\<exists>c. file_at w p = Some c)"
      and post: "\<And>w w' c. separate A G B w \<Longrightarrow> layout_of A G B w = L \<Longrightarrow> fs_resolve w' = fs_resolve w \<Longrightarrow> file_at w p = Some c \<Longrightarrow>
        file_at w' p = None \<Longrightarrow> file_at w' q = Some c \<Longrightarrow>
        (\<forall>n. fs_resolve w n \<noteq> fs_resolve w p \<longrightarrow> fs_resolve w n \<noteq> fs_resolve w q \<longrightarrow> file_at w' n = file_at w n) \<Longrightarrow> layout_of A G B w' = L'"
    for p q L L'
  proof (rule movesI)
    fix w r w'
    assume w: "separate A G B w" "layout_of A G B w \<in> {L}" and run: "rename_file p q w = (r, w')"
    obtain c where c: "fs_resolve w p \<noteq> fs_resolve w q" "file_at w p = Some c" using pre w by blast
    note R = rename_file_effect [OF run c]
    show "fs_resolve w' = fs_resolve w \<and> layout_of A G B w' \<in> (case r of Inl _ \<Rightarrow> {L} | Inr _ \<Rightarrow> {L'})"
    proof (cases r)
      case (Inl e)
      then show ?thesis using R(1,2) w(2) by (auto simp: layout_of_def same_files_at)
    next
      case (Inr u)
      then show ?thesis using R(1) R(3) [OF Inr] post [of w w' c] w c(2) by simp
    qed
  qed
  show "moves A G B {untouched a g} (rename_file A B) {set_aside a g} {untouched a g}"
    "moves A G B {set_aside a g} (rename_file G A) {activated a g} {set_aside a g}"
    "moves A G B {set_aside a g} (rename_file B A) {untouched a g} {set_aside a g}"
    "moves A G B {activated a g} (rename_file A G) {set_aside a g} {activated a g}"
    by (rule *; auto simp: separate_def layouts)+
qed

lemma touches_sync_parent [touches_intros]: "touches P sync_parent_directory"
  unfolding sync_parent_directory_def by (intro touches_intros)

lemma touches_verify_activated [touches_intros]: "touches P (verify_activated D a b i)"
  unfolding verify_activated_def by (intro touches_intros)

section \<open>Activation\<close>

lemma moves_rollback:
  "moves A G B {activated a g} (rollback_activation A G B) {untouched a g} {untouched a g, set_aside a g, activated a g}"
proof -
  have s: "moves A G B {untouched a g} sync_parent_directory {untouched a g} {untouched a g, set_aside a g, activated a g}"
    by (rule moves_same [OF touches_sync_parent]) auto
  have "moves A G B {activated a g} (act_bind (rename_file A G) (\<lambda>_. act_bind (rename_file B A) (\<lambda>_. sync_parent_directory)))
      {untouched a g} {untouched a g, set_aside a g, activated a g}"
    by (rule moves_bind [OF moves_weaken [OF moves_renames(4)] moves_bind [OF moves_weaken [OF moves_renames(3)] s]]) auto
  moreover have "\<not> path_exists w G" if "layout_of A G B w \<in> {activated a g}" for w
    using that by (simp add: layouts path_exists_def)
  ultimately show ?thesis by (simp add: moves_def rollback_activation_def)
qed

theorem swap_files_layouts:
  "moves A G B {untouched a g} (swap_files D A G B sid) {activated a g} {untouched a g, set_aside a g, activated a g}"
proof -
  let ?E = "{untouched a g, set_aside a g, activated a g}"
  have m: "moves A G B {activated a g} (act_bind (act_map_err AcIo (metadata_len A)) (\<lambda>x.
      act_bind (act_map_err AcIo (metadata_len B)) (\<lambda>y. act_return (f x y)))) {activated a g} ?E" for f
    by (rule moves_same, intro touches_intros) auto
  have undo: "moves A G B {set_aside a g} (rename_file B A) ?E ?E"
    by (rule moves_weaken [OF moves_renames(3)]) auto
  have roll: "moves A G B {activated a g} (rollback_activation A G B) ?E ?E"
    by (rule moves_weaken [OF moves_rollback]) auto
  have s1: "moves A G B {set_aside a g} (or_rollback (act_map_err AcIo sync_parent_directory) (rename_file B A)) {set_aside a g} ?E"
    by (rule moves_or_rollback [OF _ undo], rule moves_same, intro touches_intros) auto
  have s2: "moves A G B {set_aside a g} (or_rollback (act_map_err AcIo (rename_file G A)) (rename_file B A)) {activated a g} ?E"
    by (rule moves_or_rollback [OF moves_map_err [OF moves_renames(2)] undo])
  have s3: "moves A G B {activated a g} (or_rollback step (rollback_activation A G B)) {activated a g} ?E"
    if "touches {} step" for step :: "(fs, activation_error, unit) act"
    by (rule moves_or_rollback [OF moves_same [OF that] roll]) auto
  have s4: "moves A G B {untouched a g} (act_map_err AcIo (rename_file A B)) {set_aside a g} ?E"
    by (rule moves_map_err [OF moves_weaken [OF moves_renames(1)]]) auto
  show ?thesis unfolding swap_files_def
    by (rule moves_bind [OF s4 moves_bind [OF s1 moves_bind [OF s2 moves_bind [OF s3 moves_bind [OF s3 m]]]]]; intro touches_intros)
qed

lemma touches_inspect_log [touches_intros]: "touches P (inspect_log D p)"
  unfolding inspect_log_def by (intro touches_intros)

lemma touches_check_activation: "touches {} (check_activation D A G B)"
proof -
  have "touches {} (\<lambda>w. (if path_exists w B then Inl AcBackupExists else Inr () :: activation_error + unit, w))"
    by (simp add: touches_def)
  then show ?thesis unfolding check_activation_def by (intro touches_intros)
qed

text \<open>What the checks before the first rename establish.\<close>

lemma check_activation_Inr:
  assumes "check_activation D A G B w = (Inr sid, w')" and "file_at w A = Some a" and "file_at w G = Some g"
  obtains va vg la lg where "verify D None a = Inr va" and "verify D None g = Inr vg" and "\<not> has_torn_tail va" and "\<not> has_torn_tail vg"
    and "store_id (vr_header va) = sid" and "store_id (vr_header vg) = sid" and "inspect_bytes (dep_crc32 D) a = Inr la"
    and "inspect_bytes (dep_crc32 D) g = Inr lg" and "check_marker la lg = Inr ()"
proof -
  obtain va w1 vg w2 la w3 lg where st: "verify_path D A w = (Inr va, w1)" "verify_path D G w1 = (Inr vg, w2)"
      "inspect_log D A w2 = (Inr la, w3)" "inspect_log D G w3 = (Inr lg, w')" "check_marker la lg = Inr ()"
      "\<not> has_torn_tail va" "\<not> has_torn_tail vg" "store_id (vr_header va) = store_id (vr_header vg)" "sid = store_id (vr_header va)"
    using assms(1) by (auto simp: check_activation_def act_bind_Inr_iff act_map_err_iff simp del: act_bind_lift split: if_splits)
  have s: "same_files w w1" "same_files w1 w2" "same_files w2 w3"
    using touches_none [OF touches_verify st(1)] touches_none [OF touches_verify st(2)] touches_none [OF touches_inspect_log st(3)] by simp_all
  have A: "file_at w2 A = Some a" and G: "file_at w1 G = Some g" "file_at w3 G = Some g"
    using assms(2,3) s by (simp_all add: same_files_at)
  have "verify D None a = Inr va" by (rule verify_path_Inr [OF st(1)]) (use assms(2) in simp)
  moreover have "verify D None g = Inr vg" by (rule verify_path_Inr [OF st(2)]) (use G(1) in simp)
  moreover have "inspect_bytes (dep_crc32 D) a = Inr la" "inspect_bytes (dep_crc32 D) g = Inr lg"
    using st(3,4) A G(2) open_read_Inr [where p = A] open_read_Inr [where p = G]
    by (auto simp: inspect_log_def act_bind_Inr_iff act_map_err_iff)
  ultimately show ?thesis using that st(5-9) by metis
qed

lemma activation_outcome:
  assumes w: "separate A G B w" "layout_of A G B w = untouched a g" and run: "activate_generation_offline D A G B w = (r, w')"
  shows "separate A G B w'" and "layout_of A G B w' \<in> {untouched a g, set_aside a g, activated a g}"
    and "r = Inr rep \<Longrightarrow> layout_of A G B w' = activated a g"
    and "layout_of A G B w' \<noteq> untouched a g \<or> r = Inr rep \<Longrightarrow> \<exists>sid v. check_activation D A G B w = (Inr sid, v)"
proof -
  obtain c v where c: "check_activation D A G B w = (c, v)" by fastforce
  have s: "same_files w v" by (rule touches_none [OF touches_check_activation c])
  have v: "separate A G B v" "layout_of A G B v \<in> {untouched a g}" using w same_files_at [OF s] s [unfolded same_files_def, THEN conjunct1] by (simp_all add: separate_def layout_of_def)
  have "separate A G B w' \<and> layout_of A G B w' \<in> {untouched a g, set_aside a g, activated a g} \<and>
      (r = Inr rep \<longrightarrow> layout_of A G B w' = activated a g) \<and>
      (layout_of A G B w' \<noteq> untouched a g \<or> r = Inr rep \<longrightarrow> (\<exists>sid v. check_activation D A G B w = (Inr sid, v)))"
  proof (cases c)
    case (Inl e)
    then have "r = Inl e" "w' = v" using run c by (simp_all add: activate_generation_offline_def act_bind_def)
    then show ?thesis using v by auto
  next
    case (Inr sid)
    then have "swap_files D A G B sid v = (r, w')" using run c by (simp add: activate_generation_offline_def act_bind_def)
    note M = movesD [OF swap_files_layouts v this]
    show ?thesis using M(1,2) c Inr by (auto split: sum.splits)
  qed
  then show "separate A G B w'" "layout_of A G B w' \<in> {untouched a g, set_aside a g, activated a g}"
    "r = Inr rep \<Longrightarrow> layout_of A G B w' = activated a g"
    "layout_of A G B w' \<noteq> untouched a g \<or> r = Inr rep \<Longrightarrow> \<exists>sid v. check_activation D A G B w = (Inr sid, v)" by blast+
qed

section \<open>Recovery on a machine that works\<close>

text \<open>A restarted process with working calls and nothing open.\<close>

definition restarted :: "fs \<Rightarrow> fs" where
  "restarted w = w\<lparr>fs_calls := [], fs_locks := [], fs_process := \<lparr>pr_writers = [], pr_lock_contentions = 0\<rparr>\<rparr>"

definition quiet :: "fs \<Rightarrow> bool" where
  "quiet w \<longleftrightarrow> fs_calls w = [] \<and> fs_locks w = [] \<and> pr_writers (fs_process w) = []"

lemma quiet_restarted [simp]: "quiet (restarted w)" "file_at (restarted w) p = file_at w p" "layout_of A G B (restarted w) = layout_of A G B w"
  "separate A G B (restarted w) = separate A G B w" "fs_resolve (restarted w) = fs_resolve w"
  by (simp_all add: quiet_def restarted_def file_at_def layout_of_def separate_def)

lemma quiet_set_file [simp]: "quiet (set_file p c w) = quiet w"
  by (simp add: quiet_def)

lemma quiet_calls:
  assumes "quiet w"
  shows "fs_call w = (Inr (), w)" and "sync_parent_directory w = (Inr (), w)"
    and "file_at w p = Some bs \<Longrightarrow> verify_path D p w = (verify D None bs, w)"
    and "file_at w p = Some bs \<Longrightarrow> rename_file p q w = (Inr (), set_file q (Some bs) (set_file p None w))"
    and "file_at w p = Some bs \<Longrightarrow> open_read p w = (Inr bs, w)"
    and "file_at w p = Some bs \<Longrightarrow> metadata_len p w = (Inr (of_nat (length bs)), w)"
proof -
  show c: "fs_call w = (Inr (), w)" using assms by (simp add: fs_call_def quiet_def)
  then show "sync_parent_directory w = (Inr (), w)" by (simp add: sync_parent_directory_def act_bind_def)
  show "file_at w p = Some bs \<Longrightarrow> verify_path D p w = (verify D None bs, w)"
    using c assms by (simp add: verify_path_def open_read_def act_bind_def act_map_err_def lock_answer_def quiet_def)
  show "file_at w p = Some bs \<Longrightarrow> rename_file p q w = (Inr (), set_file q (Some bs) (set_file p None w))"
    using c by (simp add: rename_file_def act_bind_def)
  show "file_at w p = Some bs \<Longrightarrow> open_read p w = (Inr bs, w)" "file_at w p = Some bs \<Longrightarrow> metadata_len p w = (Inr (of_nat (length bs)), w)"
    using c by (simp_all add: open_read_def metadata_len_def act_bind_def)
qed

lemma validate_separate: "separate A G B w \<Longrightarrow> validate_distinct_paths A G B = Inr ()"
  by (auto simp: separate_def validate_distinct_paths_def)

lemma set_file_other: "fs_resolve w q \<noteq> fs_resolve w p \<Longrightarrow> file_at (set_file p c w) q = file_at w q"
  by (simp add: set_file_def file_at_def)

lemma recover_cases:
  assumes q: "quiet w" and w: "separate A G B w"
  shows "layout_of A G B w = untouched a g \<Longrightarrow> recover_generation_activation D A G B w = (Inr NotStarted, w)"
    and "layout_of A G B w = activated a g \<Longrightarrow> verify D None a = Inr va \<Longrightarrow> verify D None g = Inr vg \<Longrightarrow>
      store_id (vr_header va) = store_id (vr_header vg) \<Longrightarrow> recover_generation_activation D A G B w = (Inr ActivationCompleted, w)"
    and "layout_of A G B w = set_aside a g \<Longrightarrow> verify D None a = Inr va \<Longrightarrow> verify D None g = Inr vg \<Longrightarrow>
      store_id (vr_header va) = store_id (vr_header vg) \<Longrightarrow> \<not> has_torn_tail va \<Longrightarrow> \<not> has_torn_tail vg \<Longrightarrow>
      \<exists>w'. recover_generation_activation D A G B w = (Inr CompletedInterruptedActivation, w') \<and> layout_of A G B w' = activated a g"
proof -
  note V = validate_separate [OF w]
  show "recover_generation_activation D A G B w = (Inr NotStarted, w)" if "layout_of A G B w = untouched a g"
    using that V by (simp add: recover_generation_activation_def layouts path_exists_def)
  show "recover_generation_activation D A G B w = (Inr ActivationCompleted, w)"
    if "layout_of A G B w = activated a g" "verify D None a = Inr va" "verify D None g = Inr vg" "store_id (vr_header va) = store_id (vr_header vg)"
    using that V quiet_calls(3) [OF q]
    by (simp add: recover_generation_activation_def layouts path_exists_def act_bind_def act_map_err_def)
  assume L: "layout_of A G B w = set_aside a g" and v: "verify D None a = Inr va" "verify D None g = Inr vg"
    "store_id (vr_header va) = store_id (vr_header vg)" "\<not> has_torn_tail va" "\<not> has_torn_tail vg"
  have f: "file_at w A = None" "file_at w G = Some g" "file_at w B = Some a" using L by (simp_all add: layouts)
  let ?w = "set_file A (Some g) (set_file G None w)"
  have d: "fs_resolve w A \<noteq> fs_resolve w G" "fs_resolve w B \<noteq> fs_resolve w G" "fs_resolve w B \<noteq> fs_resolve w A"
    using w by (auto simp: separate_def)
  have q': "quiet ?w" and f': "file_at ?w A = Some g" "file_at ?w B = Some a" "file_at ?w G = None"
    using q d f by (simp_all add: set_file_other)
  have va': "verify_activated D A B (store_id (vr_header vg)) ?w = (Inr (), ?w)"
    using quiet_calls(3) [OF q'] f' v by (simp add: verify_activated_def act_bind_def act_map_err_def)
  have "recover_generation_activation D A G B w = (Inr CompletedInterruptedActivation, ?w)"
    using V f v q quiet_calls(3,4) [OF q] quiet_calls(2) [OF q'] va'
    by (simp add: recover_generation_activation_def path_exists_def act_bind_def act_map_err_def)
  then show "\<exists>w'. recover_generation_activation D A G B w = (Inr CompletedInterruptedActivation, w') \<and> layout_of A G B w' = activated a g"
    using f' by (simp add: layouts)
qed

end
