(* ===== verification/Copy_Progress.thy ===== *)
theory Copy_Progress
  imports Activation
begin

text \<open>
  On a machine whose calls work, copies succeed: a store file with a complete log verifies, a
  checkpoint is made, a checkpoint is restored, and a generation that was just built from a store is
  accepted and activated in its place.
\<close>

section \<open>Verification accepts a complete log\<close>

lemma verify_log:
  assumes h: "wf_header h" "format_major h = FORMAT_MAJOR" and bs: "encode_log (dep_crc32 D) rs = Inr bs"
    and a: "replay rs recovery_start = Inr a"
  obtains v where "verify D None (header_encode (dep_crc32 D) h @ bs) = Inr v" and "vr_header v = h" and "\<not> has_torn_tail v"
    and "vr_file_bytes v = of_nat (STORE_HEADER_LEN + length bs)"
proof -
  let ?crc = "dep_crc32 D"
  have lh: "length (header_encode ?crc h) = STORE_HEADER_LEN" using h(1) by simp
  have "recover_loop ?crc bs recovery_start = Inr a"
    using recover_loop_replay [OF bs torn_Nil, of recovery_start "[]"] a by (simp add: recovery_start_def)
  moreover have "ra_offset a = length bs"
    using replay_offset [OF a] encode_log_length [OF bs] by (simp add: recovery_start_def)
  ultimately obtain r where "recover ?crc (header_encode ?crc h @ bs) = Inr r" "rec_valid_end r = of_nat (STORE_HEADER_LEN + length bs)"
    using lh by (simp add: recover_def)
  then show ?thesis
    using that lh header_decode_encode [OF h, of ?crc "[]"] by (simp add: verify_def has_torn_tail_def)
qed

lemma verify_durable:
  assumes "durable D s rs"
  obtains v where "verify D None (st_file s) = Inr v" and "vr_header v = st_header s" and "\<not> has_torn_tail v"
    and "vr_file_bytes v = of_nat (length (st_file s))"
proof -
  obtain bs a where "encode_log (dep_crc32 D) rs = Inr bs" "st_file s = header_encode (dep_crc32 D) (st_header s) @ bs"
      "replay rs recovery_start = Inr a" "wf_header (st_header s)" "format_major (st_header s) = FORMAT_MAJOR"
    using assms by (auto simp: durable_def store_log_def file_holds_def counters_ahead_def)
  then show ?thesis using verify_log [of "st_header s" D rs bs a] that by (metis length_append length_header_encode)
qed

section \<open>A machine that works\<close>

definition working :: "fs \<Rightarrow> bool" where
  "working w \<longleftrightarrow> fs_calls w = [] \<and> fs_locks w = [] \<and> os_writes (fs_os w) = [] \<and> os_syncs (fs_os w) = []"

definition unlocked :: "fs \<Rightarrow> string \<Rightarrow> bool" where
  "unlocked w p \<longleftrightarrow> fs_resolve w p \<notin> set (pr_writers (fs_process w))"

lemma working_set_file [simp]: "working (set_file p c w) = working w" "unlocked (set_file p c w) q = unlocked w q"
  by (simp_all add: working_def unlocked_def set_file_def)

lemma working_calls:
  assumes "working w"
  shows "fs_call w = (Inr (), w)" and "fs_sync w = (Inr (), w)"
    and "file_at w p = Some bs \<Longrightarrow> open_read p w = (Inr bs, w)"
    and "file_at w p = None \<Longrightarrow> create_new p w = (Inr (), set_file p (Some []) w)"
    and "file_at w p = Some bs \<Longrightarrow> create_new p w = (Inl AlreadyExists, w)"
    and "create_truncate p w = (Inr (), set_file p (Some []) w)"
    and "file_at w p = Some bs \<Longrightarrow> canonicalize p w = (Inr (fs_resolve w p), w)"
    and "file_at w p = Some [] \<Longrightarrow> io_copy bs p w = (Inr (of_nat (length bs)), set_file p (Some bs) w)"
    and "file_at w p = Some bs \<Longrightarrow> unlocked w p \<Longrightarrow> verify_path D p w = (verify D None bs, w)"
proof -
  show c: "fs_call w = (Inr (), w)" using assms by (simp add: fs_call_def working_def)
  show "fs_sync w = (Inr (), w)" using assms by (simp add: fs_sync_def working_def)
  show "file_at w p = Some bs \<Longrightarrow> open_read p w = (Inr bs, w)"
    and "file_at w p = None \<Longrightarrow> create_new p w = (Inr (), set_file p (Some []) w)"
    and "file_at w p = Some bs \<Longrightarrow> create_new p w = (Inl AlreadyExists, w)"
    and "create_truncate p w = (Inr (), set_file p (Some []) w)"
    and "file_at w p = Some bs \<Longrightarrow> canonicalize p w = (Inr (fs_resolve w p), w)"
    using c by (simp_all add: open_read_def create_new_def create_truncate_def canonicalize_def act_bind_def path_exists_def)
  show "file_at w p = Some [] \<Longrightarrow> io_copy bs p w = (Inr (of_nat (length bs)), set_file p (Some bs) w)"
    using assms by (simp add: io_copy_def act_bind_def fs_write_def working_def at_end_def)
  show "file_at w p = Some bs \<Longrightarrow> unlocked w p \<Longrightarrow> verify_path D p w = (verify D None bs, w)"
    using c assms by (simp add: verify_path_def open_read_def act_bind_def act_map_err_def lock_answer_def working_def unlocked_def)
qed

lemma set_file_twice [simp]: "set_file p a (set_file p b w) = set_file p a w"
  by (simp add: set_file_def)

lemma copy_new_works:
  assumes "working w" and "file_at w p = Some []"
  shows "copy_and_sync bs p w = (Inr (of_nat (length bs)), set_file p (Some bs) w)"
  using working_calls(8) [OF assms] working_calls(2) [of "set_file p (Some bs) w"] assms(1)
  by (simp add: copy_and_sync_def act_bind_def)

section \<open>Restore\<close>

lemma restore_succeeds:
  assumes w: "working w" "unlocked w p" "unlocked w q" and f: "file_at w p = Some (st_file s)" "file_at w q = None"
    and d: "durable D s rs"
  shows "\<exists>rep w'. restore_copy D p q w = (Inr rep, w')"
proof -
  obtain v where v: "verify D None (st_file s) = Inr v" "\<not> has_torn_tail v" using d by (rule verify_durable)
  let ?e = "set_file q (Some []) w" and ?c = "set_file q (Some (st_file s)) w"
  have pq: "p \<noteq> q" using f by auto
  have "copy_and_sync (st_file s) q ?e = (Inr (of_nat (length (st_file s))), ?c)"
    using copy_new_works [of ?e q] w(1) by simp
  moreover have "verify_path D q ?c = (Inr v, ?c)" using working_calls(9) [of ?c q] w v by simp
  ultimately show ?thesis
    using pq v f working_calls(3,4) [OF w(1)] working_calls(9) [OF w(1) f(1) w(2)]
    by (simp add: restore_copy_def restore_verified_def act_bind_def act_map_err_def or_remove_def check_restored_def)
qed

section \<open>Checkpoint\<close>

lemma random_nonce_working:
  "random_nonce w = (r, w') \<Longrightarrow> working w' = working w \<and> fs_files w' = fs_files w \<and> fs_resolve w' = fs_resolve w \<and> fs_process w' = fs_process w"
  by (auto simp: random_nonce_def working_def split: list.splits)

lemma reserve_loop_working:
  assumes "working w" and "reserve_loop n d b l w = (Inr t, w')"
  shows "working w' \<and> fs_process w' = fs_process w \<and> fs_resolve w' = fs_resolve w \<and> file_at w t = None \<and>
    fs_files w' = (fs_files w)(fs_resolve w t := Some [])"
  using assms
proof (induction n arbitrary: w)
  case (Suc n)
  obtain q w1 where q: "random_nonce w = (q, w1)" by fastforce
  obtain x where x: "q = Inr x" using Suc.prems(2) q by (cases q) auto
  let ?c = "path_join d (''.'' @ b @ ''.'' @ l @ ''-'' @ hex16 x @ ''.tmp'')"
  note R = random_nonce_working [OF q]
  have w1: "working w1" using R Suc.prems(1) by simp
  show ?case
  proof (cases "file_at w1 ?c")
    case None
    then have "t = ?c" "w' = set_file ?c (Some []) w1"
      using Suc.prems(2) q x working_calls(4) [OF w1] by (auto simp: Let_def)
    then show ?thesis using R w1 None by (simp add: set_file_def file_at_def working_def)
  next
    case (Some bs)
    then have "reserve_loop n d b l w1 = (Inr t, w')"
      using Suc.prems(2) q x working_calls(5) [OF w1] by (simp add: Let_def)
    from Suc.IH [OF w1 this] show ?thesis using R by (simp add: file_at_def)
  qed
qed simp

lemma backup_works:
  assumes w: "working (se_fs x)" and b: "benign (st_os (se_store x))" and src: "file_at (se_fs x) (se_path x) = Some c"
    and t: "file_at (se_fs x) t = Some []" "fs_resolve (se_fs x) t \<noteq> fs_resolve (se_fs x) (se_path x)"
  shows "\<exists>n y. backup_file t x = (Inr n, y) \<and> se_fs y = set_file t (Some (st_file (se_store x))) (se_fs x)"
proof -
  obtain r s1 where s1: "sync_call (se_store x) = (r, s1)" by fastforce
  have ok: "r = Inr ()" "st_file s1 = st_file (se_store x)"
    using s1 b by (auto simp: sync_call_def benign_def split: list.splits sync_outcome.splits)
  let ?e = "set_file t (Some []) (se_fs x)"
  have "paths_refer_to_same_file (se_path x) t (se_fs x) = (Inr False, se_fs x)"
    using t working_calls(7) [OF w src] working_calls(7) [OF w t(1)]
    by (auto simp: paths_refer_to_same_file_def path_exists_def act_bind_def)
  moreover have "io_copy (st_file s1) t ?e = (Inr (of_nat (length (st_file s1))), set_file t (Some (st_file s1)) (se_fs x))"
    using working_calls(8) [of ?e t] w by simp
  ultimately show ?thesis
    using s1 ok working_calls(1,6) [OF w] working_calls(2) [of "set_file t (Some (st_file s1)) (se_fs x)"] w
    by (simp add: backup_file_def act_bind_def act_map_err_def on_store_def on_fs_def)
qed

lemma checkpoint_copy_works:
  assumes w: "working w" "unlocked w p" and t: "file_at w t = Some (st_file s)" and p: "file_at w p = None" and d: "durable D s rs"
  shows "\<exists>rep w'. checkpoint_copy D (store_id (st_header s)) t p w = (Inr rep, w')"
proof -
  obtain v where v: "verify D None (st_file s) = Inr v" "vr_header v = st_header s" "\<not> has_torn_tail v"
      "vr_file_bytes v = of_nat (length (st_file s))" using d by (rule verify_durable)
  let ?e = "set_file p (Some []) w" and ?c = "set_file p (Some (st_file s)) w"
  have "copy_and_sync (st_file s) p ?e = (Inr (of_nat (length (st_file s))), ?c)"
    using copy_new_works [of ?e p] w(1) by simp
  moreover have "verify_path D p ?c = (Inr v, ?c)" using working_calls(9) [of ?c p] w v by simp
  ultimately show ?thesis
    using v working_calls(3) [OF w(1) t] working_calls(4) [OF w(1) p]
    by (simp add: checkpoint_copy_def create_destination_def act_bind_def act_map_err_def or_remove_def check_copy_def)
qed

lemma checkpoint_succeeds:
  assumes d: "durable D (se_store x) rs" and w: "working (se_fs x)" "unlocked (se_fs x) p"
    and f: "file_at (se_fs x) (se_path x) = Some c" "file_at (se_fs x) p = None"
    and t: "reserve_temporary_sibling p (se_fs x) = (Inr t, w1)" "fs_resolve (se_fs x) t \<noteq> fs_resolve (se_fs x) p"
  shows "\<exists>rep y. checkpoint_to D p x = (Inr rep, y)"
proof -
  have b: "benign (st_os (se_store x))" using d by (simp add: durable_def store_log_def)
  obtain r s1 where fl: "store_flush (se_store x) = (r, s1)" by fastforce
  have r: "r = Inr ()" "benign (st_os s1)" using benign_sync [OF b, of r s1] fl by (simp_all add: store_flush_def)
  note F = store_flush_durable [OF d fl] store_flush_keeps [OF fl]
  have ne: "se_path x \<noteq> p" using f by auto
  have e: "ensure_distinct_destination (se_path x) p (se_fs x) = (Inr (), se_fs x)"
    using ne f(2) by (simp add: ensure_distinct_destination_def path_exists_def)
  have R: "working w1 \<and> fs_process w1 = fs_process (se_fs x) \<and> fs_resolve w1 = fs_resolve (se_fs x) \<and>
      file_at (se_fs x) t = None \<and> fs_files w1 = (fs_files (se_fs x))(fs_resolve (se_fs x) t := Some [])"
    using t(1) by (intro reserve_loop_working [OF w(1)])
      (auto simp: reserve_temporary_sibling_def reserve_sibling_def act_map_err_iff)
  let ?y = "x\<lparr>se_store := s1, se_fs := w1\<rparr>"
  have src: "file_at w1 (se_path x) = Some c" "file_at w1 t = Some []" "file_at w1 p = None"
      "fs_resolve w1 t \<noteq> fs_resolve w1 (se_path x)" "unlocked w1 p"
    using R f t(2) w(2) by (auto simp: file_at_def unlocked_def)
  obtain n z where z: "backup_file t ?y = (Inr n, z)" "se_fs z = set_file t (Some (st_file s1)) w1"
    using backup_works [of ?y c t] R r(2) src by auto
  note B = backup_file_effect [OF z(1)]
  have zt: "working (se_fs z)" "unlocked (se_fs z) p" "file_at (se_fs z) t = Some (st_file s1)" "file_at (se_fs z) p = None"
    using z(2) R src t(2) by (simp_all add: set_file_other)
  obtain rep v where "checkpoint_copy D (store_id (st_header s1)) t p (se_fs z) = (Inr rep, v)"
    using checkpoint_copy_works [OF zt F(1)] by blast
  then have "checkpoint_from_temporary D t p ?y = (Inr rep, z\<lparr>se_fs := v\<rparr>)"
    using z(1) B(3) by (simp add: checkpoint_from_temporary_def act_bind_def act_map_err_def on_fs_def)
  then show ?thesis
    using fl r(1) e t(1) by (simp add: checkpoint_to_def act_bind_def act_map_err_def on_store_def on_fs_def)
qed

section \<open>Activation of a fresh generation\<close>

lemma swap_succeeds:
  assumes q: "quiet w" "separate A G B w" and f: "file_at w A = Some a" "file_at w G = Some g" "file_at w B = None"
    and v: "verify D None a = Inr va" "verify D None g = Inr vg" "\<not> has_torn_tail va" "\<not> has_torn_tail vg"
      "store_id (vr_header va) = sid" "store_id (vr_header vg) = sid"
  shows "\<exists>rep w'. swap_files D A G B sid w = (Inr rep, w')"
proof -
  let ?u = "set_file B (Some a) (set_file A None w)"
  let ?v = "set_file A (Some g) (set_file G None ?u)"
  have d: "fs_resolve w A \<noteq> fs_resolve w G" "fs_resolve w B \<noteq> fs_resolve w G" "fs_resolve w B \<noteq> fs_resolve w A"
    using q(2) by (auto simp: separate_def)
  have u: "quiet ?u" "file_at ?u G = Some g" using q(1) d f by (simp_all add: set_file_other)
  have v': "quiet ?v" "file_at ?v A = Some g" "file_at ?v B = Some a" using q(1) d f by (simp_all add: set_file_other)
  have "verify_activated D A B sid ?v = (Inr (), ?v)"
    using quiet_calls(3) [OF v'(1)] v'(2,3) v by (simp add: verify_activated_def act_bind_def act_map_err_def)
  then show ?thesis
    using quiet_calls(4) [OF q(1) f(1)] quiet_calls(2) [OF u(1)] quiet_calls(4) [OF u] quiet_calls(2) [OF v'(1)]
      quiet_calls(6) [OF v'(1,2)] quiet_calls(6) [OF v'(1,3)]
    by (simp add: swap_files_def act_bind_def act_map_err_def or_rollback_def)
qed

text \<open>The checks before the first rename, on files with complete logs.\<close>

lemma check_activation_works:
  assumes q: "quiet w" "separate A G B w" and f: "file_at w A = Some a" "file_at w G = Some g" "file_at w B = None"
    and v: "verify D None a = Inr va" "verify D None g = Inr vg" "\<not> has_torn_tail va" "\<not> has_torn_tail vg"
      "store_id (vr_header va) = sid" "store_id (vr_header vg) = sid"
    and i: "inspect_bytes (dep_crc32 D) a = Inr la" "inspect_bytes (dep_crc32 D) g = Inr lg" "check_marker la lg = Inr ()"
  shows "check_activation D A G B w = (Inr sid, w)"
  using validate_separate [OF q(2)] f(3) v i quiet_calls(3) [OF q(1) f(1)] quiet_calls(3) [OF q(1) f(2)]
    quiet_calls(5) [OF q(1) f(1)] quiet_calls(5) [OF q(1) f(2)]
  by (simp add: check_activation_def inspect_log_def act_bind_def act_map_err_def path_exists_def)

lemma max_tx_pos:
  assumes "rs \<noteq> []" and "\<forall>r \<in> set rs. lr_tx_id r \<noteq> 0"
  shows "1 \<le> max_tx rs"
proof -
  have "lr_tx_id (hd rs) \<noteq> 0" "lr_tx_id (hd rs) \<le> max_tx rs" using assms max_tx_upper by simp_all
  then show ?thesis by (metis word_le_0_iff word_gt_0 inc_le add_0)
qed

lemma rewritten_max_tx:
  assumes g: "durable D s gs" "st_next_tx_id s = 1 + (if st = [] then 0 else 1)"
    and rs: "st = committed_state rs" "\<forall>r \<in> set rs. lr_tx_id r \<noteq> 0"
  shows "max_tx gs \<le> max_tx rs"
proof -
  obtain a where a: "replay gs recovery_start = Inr a" "ra_max_tx_id a < st_next_tx_id s" "\<forall>r \<in> set gs. lr_sequence r \<noteq> 0"
    using g(1) by (auto simp: durable_def store_log_def counters_ahead_def)
  have m: "max_tx gs < 1 + (if st = [] then 0 else 1)" using a(2) replay_maxima(1) [OF a(1,3)] g(2) by simp
  show ?thesis
  proof (cases "st = []")
    case True
    then show ?thesis using m by simp
  next
    case False
    then have "rs \<noteq> []" using rs(1) by (auto simp: committed_state_def)
    then have "1 \<le> max_tx rs" using max_tx_pos rs(2) by blast
    moreover have "max_tx gs \<le> 1" using m False by (simp add: word_less_nat_alt word_le_nat_alt)
    ultimately show ?thesis by simp
  qed
qed

lemma fresh_generation_activates:
  assumes gen: "durable D (se_store x) rs" "store_wf (se_store x)" "sane (se_fs x)" "compact_generation_to D p x = (Inr rep, y)"
      "length (st_file (se_store x)) < 2 ^ 64" "length (the (file_at (se_fs y) p)) < 2 ^ 64"
    and ids: "\<forall>r \<in> set rs. lr_tx_id r \<noteq> 0"
    and q: "quiet w" "separate A G B w" and f: "file_at w A = Some (st_file (se_store x))" "file_at w G = file_at (se_fs y) p" "file_at w B = None"
  shows "\<exists>ar w'. activate_generation_offline D A G B w = (Inr ar, w')"
proof -
  let ?h = "st_header (se_store x)" and ?m = "log_record_new RCommit (gr_high_water_tx_id rep) (gr_high_water_sequence rep) []"
  have fit: "length c < 2 ^ 64" if "file_at (se_fs y) p = Some c" for c using gen(6) that by simp
  obtain s gs gb where g: "durable D s gs" "store_get s = store_get (se_store x)" "store_wf s"
      "max_tx rs < gr_high_water_tx_id rep" "max_seq rs < gr_high_water_sequence rep"
      "max_tx gs < gr_high_water_tx_id rep" "max_seq gs < gr_high_water_sequence rep"
      "gr_high_water_tx_id rep = max (max_tx rs) (max_tx gs) + 1" "encode_log (dep_crc32 D) (gs @ [?m]) = Inr gb"
      "file_at (se_fs y) p = Some (header_encode (dep_crc32 D) ?h @ gb)" "file_at (se_fs x) p = None"
      "st_next_tx_id s = 1 + (if st_state (se_store x) = [] then 0 else 1)"
    using gen(1-5) fit by (rule generation_opens)
  obtain bs where src: "encode_log (dep_crc32 D) rs = Inr bs" "st_file (se_store x) = header_encode (dep_crc32 D) ?h @ bs"
      "wf_header ?h" "format_major ?h = FORMAT_MAJOR"
    using gen(1) by (auto simp: durable_def store_log_def file_holds_def)
  obtain va where va: "verify D None (st_file (se_store x)) = Inr va" "vr_header va = ?h" "\<not> has_torn_tail va"
    using gen(1) by (rule verify_durable)
  obtain a where a: "replay (gs @ [?m]) recovery_start = Inr a" by (rule marker_log [OF g(1,6,7)])
  obtain vg where vg: "verify D None (header_encode (dep_crc32 D) ?h @ gb) = Inr vg" "vr_header vg = ?h" "\<not> has_torn_tail vg"
    by (rule verify_log [OF src(3,4) g(9) a])
  have lb: "length bs < 2 ^ 64" "length gb < 2 ^ 64" using gen(5) src(2) fit [OF g(10)] by simp_all
  note I = inspect_file [OF src(1,3) lb(1), folded src(2)]
  have J: "inspect_bytes (dep_crc32 D) (header_encode (dep_crc32 D) ?h @ gb) =
      Inr \<lparr>li_max_tx_id = max_tx (gs @ [?m]), li_max_sequence = max_seq (gs @ [?m]), li_last_record = Some ?m\<rparr>"
    using inspect_file [OF g(9) src(3) lb(2)] by (simp del: max_snoc)
  have "max_tx gs \<le> max_tx rs" by (rule rewritten_max_tx [OF g(1,12) _ ids]) (use gen(1) in \<open>simp add: durable_def\<close>)
  then have e: "gr_high_water_tx_id rep = max_tx rs + 1" using g(8) by (simp add: max.absorb1)
  have "checked_add (max_tx rs) 1 = Some (gr_high_water_tx_id rep)" 
    using g(4) e unsigned_less [of "gr_high_water_tx_id rep", where 'a = nat] by (simp add: checked_add_def word_less_nat_alt)
  then have k: "check_marker \<lparr>li_max_tx_id = max_tx rs, li_max_sequence = max_seq rs, li_last_record = l\<rparr>
      \<lparr>li_max_tx_id = max_tx (gs @ [?m]), li_max_sequence = max_seq (gs @ [?m]), li_last_record = Some ?m\<rparr> = Inr ()" for l
    using g(6,7) by (simp add: check_marker_def log_record_new_def max.absorb2)
  have G: "file_at w G = Some (header_encode (dep_crc32 D) ?h @ gb)" using f(2) g(10) by simp
  have c: "check_activation D A G B w = (Inr (store_id ?h), w)"
    by (rule check_activation_works [OF q f(1) G f(3) va(1) vg(1) va(3) vg(3) _ _ I J k]) (simp_all add: va(2) vg(2))
  obtain ar w' where "swap_files D A G B (store_id ?h) w = (Inr ar, w')"
    using swap_succeeds [OF q f(1) G f(3) va(1) vg(1) va(3) vg(3)] va(2) vg(2) by auto
  then show ?thesis using c by (simp add: activate_generation_offline_def act_bind_def)
qed

end
