(* ===== verification/Operations.thy ===== *)
theory Operations
  imports Rewriting Objects
begin

text \<open>
  Storage accounting and the health report (\<open>operations.rs\<close>). The process-wide counters are the
  ones of the writer registry and of object reads; \<open>amplification_ratio\<close>, a quotient of floats for
  display, is left out.
\<close>

record storage_stats_t =
  ss_file_bytes :: u64
  ss_live_keys :: usize
  ss_user_keys :: usize
  ss_internal_keys :: usize
  ss_key_bytes :: u64
  ss_value_bytes :: u64

datatype operations_error =
    OpStore engine_error
  | OpQueue queue_error
  | OpIo io_kind
  | OpAccountingOverflow

definition live_bytes :: "storage_stats_t \<Rightarrow> u64" where
  "live_bytes s = ss_key_bytes s + ss_value_bytes s"

fun account_loop :: "kv \<Rightarrow> usize \<Rightarrow> usize \<Rightarrow> u64 \<Rightarrow> u64 \<Rightarrow> operations_error + usize \<times> usize \<times> u64 \<times> u64" where
  "account_loop [] user internal key_bytes value_bytes = Inr (user, internal, key_bytes, value_bytes)"
| "account_loop ((k, v) # rest) user internal key_bytes value_bytes =
     (let isint = prefix INTERNAL_KEY_PREFIX k
      in res_bind (ok_or OpAccountingOverflow (checked_add key_bytes (of_nat (length k)))) (\<lambda>kb.
         res_bind (ok_or OpAccountingOverflow (checked_add value_bytes (of_nat (length v)))) (\<lambda>vb.
           account_loop rest (if isint then user else user + 1) (if isint then internal + 1 else internal) kb vb)))"

definition storage_stats :: "(session, operations_error, storage_stats_t) act" where
  "storage_stats x =
     act_bind (act_map_err OpIo (on_fs (metadata_len (se_path x)))) (\<lambda>file_bytes y.
       (res_bind (account_loop (scan_prefix (se_store y) []) 0 0 0 0) (\<lambda>(user, internal, kb, vb).
          Inr \<lparr>ss_file_bytes = file_bytes, ss_live_keys = length (scan_prefix (se_store y) []),
               ss_user_keys = user, ss_internal_keys = internal, ss_key_bytes = kb, ss_value_bytes = vb\<rparr>), y)) x"

record namespace_stats =
  ns_name :: string
  ns_keys :: usize
  ns_value_bytes :: u64

definition health_namespaces :: "(string \<times> string) list" where
  "health_namespaces = [(''ttl'', ''ttl:''), (''collections'', ''col:''), (''queues'', ''q:''), (''jobs'', ''job:''),
     (''schedules'', ''schedule:''), (''cron'', ''cron:''), (''triggers'', ''trigger:''), (''outbox'', ''outbox:''),
     (''rpc'', ''rpc:''), (''cdc'', ''cdc:''), (''streams'', ''stream:''), (''subscriptions'', ''sub:''),
     (''consumer_groups'', ''cg:''), (''objects'', ''obj:''), (''workflows'', ''wf:'')]"

definition health_prefix :: "string \<Rightarrow> bytes" where
  "health_prefix segment = 0xFF # ascii (''vds:'' @ segment)"

fun sum_values :: "kv \<Rightarrow> u64 \<Rightarrow> operations_error + u64" where
  "sum_values [] total_bytes = Inr total_bytes"
| "sum_values ((_, v) # rest) total_bytes =
     res_bind (ok_or OpAccountingOverflow (checked_add total_bytes (of_nat (length v)))) (sum_values rest)"

definition namespace_inventory :: "store \<Rightarrow> string \<times> string \<Rightarrow> operations_error + namespace_stats" where
  "namespace_inventory s np = (case np of (name, segment) \<Rightarrow>
     let entries = scan_prefix s (health_prefix segment)
     in res_bind (sum_values entries 0) (\<lambda>vb.
          Inr \<lparr>ns_name = name, ns_keys = length entries, ns_value_bytes = vb\<rparr>))"

record health_report_t =
  hr_store_id :: bytes
  hr_format_major :: u16
  hr_format_minor :: u16
  hr_storage :: storage_stats_t
  hr_namespaces :: "namespace_stats list"
  hr_max_bytes :: "u64 option"
  hr_namespace_max_bytes :: "u64 option"
  hr_metrics :: store_metrics
  hr_lock_contentions_total :: u64
  hr_object_reads_total :: u64
  hr_object_bytes_read_total :: u64
  hr_compaction_backlog_bytes :: u64
  hr_queue_ready :: u64
  hr_queue_leased :: u64
  hr_queue_dead :: u64
  hr_queue_total :: u64
  hr_queue_oldest_ready_at_ms :: "i64 option"
  hr_queue_ready_lag_ms :: "u64 option"
  hr_within_limit :: bool

text \<open>Milliseconds since the epoch: zero before it, at most \<open>u64::MAX\<close>.\<close>

definition clock_ms :: "int \<Rightarrow> u64" where
  "clock_ms now = (if now < 0 then 0 else word_of_int (min now (2 ^ 64 - 1)))"

definition ready_lag :: "u64 \<Rightarrow> i64 \<Rightarrow> u64" where
  "ready_lag now_ms timestamp = saturating_sub now_ms (if sint timestamp < 0 then 0 else timestamp)"

definition health_of ::
  "store \<Rightarrow> fs \<Rightarrow> read_counters \<Rightarrow> storage_stats_t \<Rightarrow> operations_error + health_report_t" where
  "health_of s w counters storage =
     res_bind (map_result (namespace_inventory s) health_namespaces) (\<lambda>namespaces.
     res_bind (map_err OpQueue (aggregate_stats s)) (\<lambda>queues.
       Inr \<lparr>hr_store_id = store_id (st_header s), hr_format_major = format_major (st_header s),
            hr_format_minor = format_minor (st_header s), hr_storage = storage, hr_namespaces = namespaces,
            hr_max_bytes = opt_max_bytes (st_options s), hr_namespace_max_bytes = opt_namespace_max_bytes (st_options s),
            hr_metrics = st_metrics s, hr_lock_contentions_total = pr_lock_contentions (fs_process w),
            hr_object_reads_total = rc_reads counters, hr_object_bytes_read_total = rc_bytes counters,
            hr_compaction_backlog_bytes = saturating_sub (ss_file_bytes storage) (live_bytes storage),
            hr_queue_ready = qs_ready queues, hr_queue_leased = qs_leased queues, hr_queue_dead = qs_dead queues,
            hr_queue_total = qs_total queues, hr_queue_oldest_ready_at_ms = qs_oldest_ready_at_ms queues,
            hr_queue_ready_lag_ms = map_option (ready_lag (clock_ms (fs_now w))) (qs_oldest_ready_at_ms queues),
            hr_within_limit = (case opt_max_bytes (st_options s) of None \<Rightarrow> True | Some m \<Rightarrow> ss_file_bytes storage \<le> m)\<rparr>))"

definition health_report :: "read_counters \<Rightarrow> (session, operations_error, health_report_t) act" where
  "health_report counters = act_bind storage_stats (\<lambda>storage x. (health_of (se_store x) (se_fs x) counters storage, x))"

section \<open>Accounting is exact\<close>

lemma checked_add_len:
  "checked_add (a :: u64) (of_nat n) = Some c \<Longrightarrow> n < 2 ^ 64 \<Longrightarrow> unat c = unat a + n"
  using checked_add_Some(1) [of a "of_nat n" c] by (simp add: unat_of_nat_u64)

lemma account_loop_exact:
  assumes "account_loop es u i kb vb = Inr (u', i', kb', vb')" and "\<forall>(k, v) \<in> set es. length k < 2 ^ 64 \<and> length v < 2 ^ 64"
  shows "u' = u + length (filter (\<lambda>(k, v). \<not> prefix INTERNAL_KEY_PREFIX k) es)"
    and "i' = i + length (filter (\<lambda>(k, v). prefix INTERNAL_KEY_PREFIX k) es)"
    and "unat kb' = unat kb + sum_list (map (\<lambda>(k, v). length k) es)"
    and "unat vb' = unat vb + sum_list (map (\<lambda>(k, v). length v) es)"
proof -
  have "u' = u + length (filter (\<lambda>(k, v). \<not> prefix INTERNAL_KEY_PREFIX k) es) \<and>
      i' = i + length (filter (\<lambda>(k, v). prefix INTERNAL_KEY_PREFIX k) es) \<and>
      unat kb' = unat kb + sum_list (map (\<lambda>(k, v). length k) es) \<and> unat vb' = unat vb + sum_list (map (\<lambda>(k, v). length v) es)"
    using assms
  proof (induction es arbitrary: u i kb vb)
    case (Cons e es)
    obtain k v where e: "e = (k, v)" by fastforce
    obtain kb1 vb1 where st: "checked_add kb (of_nat (length k)) = Some kb1" "checked_add vb (of_nat (length v)) = Some vb1"
        "account_loop es (if prefix INTERNAL_KEY_PREFIX k then u else u + 1) (if prefix INTERNAL_KEY_PREFIX k then i + 1 else i) kb1 vb1 = Inr (u', i', kb', vb')"
      using Cons.prems(1) e by (auto simp: Let_def res_bind_Inr_iff ok_or_Inr_iff)
    have l: "length k < 2 ^ 64" "length v < 2 ^ 64" using Cons.prems(2) e by auto
    note L = checked_add_len [OF st(1) l(1)] checked_add_len [OF st(2) l(2)]
    have "\<forall>(k, v) \<in> set es. length k < 2 ^ 64 \<and> length v < 2 ^ 64" using Cons.prems(2) by auto
    from Cons.IH [OF st(3) this] L e show ?case by (auto split: if_splits)
  qed simp
  then show "u' = u + length (filter (\<lambda>(k, v). \<not> prefix INTERNAL_KEY_PREFIX k) es)"
    "i' = i + length (filter (\<lambda>(k, v). prefix INTERNAL_KEY_PREFIX k) es)"
    "unat kb' = unat kb + sum_list (map (\<lambda>(k, v). length k) es)"
    "unat vb' = unat vb + sum_list (map (\<lambda>(k, v). length v) es)" by blast+
qed

text \<open>The only failure of the loop is a sum that leaves 64 bits.\<close>

lemma account_loop_total:
  assumes "unat kb + sum_list (map (\<lambda>(k, v). length k) es) < 2 ^ 64" and "unat vb + sum_list (map (\<lambda>(k, v). length v) es) < 2 ^ 64"
  shows "\<exists>r. account_loop es u i kb vb = Inr r"
  using assms
proof (induction es arbitrary: u i kb vb)
  case (Cons e es)
  obtain k v where e: "e = (k, v)" by fastforce
  have c: "checked_add a (of_nat n) = Some (a + of_nat n) \<and> unat (a + of_nat n) = unat a + n" if "unat a + n < 2 ^ 64" for a :: u64 and n
  proof -
    have n: "unat (of_nat n :: u64) = n" using that by (intro unat_of_nat_u64) simp
    then have "checked_add a (of_nat n) = Some (a + of_nat n)" using that by (simp add: checked_add_def)
    then show ?thesis using checked_add_Some(1) [of a "of_nat n"] n by simp
  qed
  have k: "unat kb + length k < 2 ^ 64" and v: "unat vb + length v < 2 ^ 64" using Cons.prems e by auto
  have "\<exists>r. account_loop es (if prefix INTERNAL_KEY_PREFIX k then u else u + 1) (if prefix INTERNAL_KEY_PREFIX k then i + 1 else i)
      (kb + of_nat (length k)) (vb + of_nat (length v)) = Inr r"
    by (rule Cons.IH) (use Cons.prems e c [OF k] c [OF v] in auto)
  then show ?case using e c [OF k] c [OF v] by (simp add: Let_def)
qed simp

lemma partition_lengths: "length (filter (\<lambda>x. \<not> P x) xs) + length (filter P xs) = length xs"
  by (induction xs) auto

lemma saturating_sub_le: "saturating_sub a b \<le> (a :: u64)"
  by (auto simp: saturating_sub_def word_le_nat_alt unat_sub_if' split: if_splits)

end
