(* ===== verification/Snapshot_Properties.thy ===== *)
theory Snapshot_Properties
  imports Copy_Progress Operations
begin

text \<open>
  Properties of the parts of the crate that work on several store files: checkpoints and restore,
  compact generations and their activation, and storage accounting.
\<close>

section \<open>A store on a file system\<close>

definition kept_log :: "log_record list" where
  "kept_log = [log_record_new RPut 1 1 (to_le (1 :: u32) @ [1, 2]), log_record_new RCommit 1 2 []]"

definition kept_store :: store where
  "kept_store = demo_store\<lparr>st_file := st_file demo_store @ (case encode_log demo_crc kept_log of Inr bs \<Rightarrow> bs | Inl _ \<Rightarrow> []),
     st_state := [([1], [2])], st_next_tx_id := 2, st_next_sequence := 3\<rparr>"

definition kept_fs :: fs where
  "kept_fs = \<lparr>fs_files = [''a'' \<mapsto> st_file kept_store], fs_resolve = id, fs_calls = [], fs_locks = [],
     fs_os = demo_os\<lparr>os_entropy := [Some (replicate 16 7), Some (replicate 16 8), Some (replicate 16 9)]\<rparr>,
     fs_now = 5, fs_process = \<lparr>pr_writers = [''a''], pr_lock_contentions = 0\<rparr>\<rparr>"

definition kept_session :: session where
  "kept_session = \<lparr>se_store = kept_store, se_path = ''a'', se_fs = kept_fs\<rparr>"

lemma kept_store_durable: "durable demo_deps kept_store kept_log"
proof -
  have "replay kept_log recovery_start = Inr \<lparr>ra_state = [([1], [2])], ra_pending = [], ra_committed = [1], ra_offset = 64, ra_max_tx_id = 1, ra_max_sequence = 2, ra_records = 2\<rparr>"
    by code_simp
  moreover have "committed_state kept_log = [([1], [2])]" by code_simp
  moreover obtain bs where "encode_log demo_crc kept_log = Inr bs" by (simp add: kept_log_def record_encode_def log_record_new_def u32_try_from_len_def Let_def)
  ultimately show ?thesis using demo_store_durable
    by (simp add: durable_def store_log_def file_holds_def counters_ahead_def kept_store_def kept_log_def demo_deps_def log_record_new_def)
qed

lemma kept_store_small: "length (st_file kept_store) < 2 ^ 64"
  by code_simp

section \<open>Copies\<close>

text \<open>No operation that makes a copy of a store overwrites or removes a file that was there before it
  began, the source included, whatever the operating system answers and however the operation ends.\<close>

theorem copies_never_overwrite:
  "keeps_files (se_fs x) (se_fs (snd (compact_copy_to D p x))) \<and> keeps_files (se_fs x) (se_fs (snd (snapshot_to D p x))) \<and>
   keeps_files (se_fs x) (se_fs (snd (checkpoint_to D p x))) \<and> keeps_files (se_fs x) (se_fs (snd (compact_generation_to D p x))) \<and>
   keeps_files w (snd (restore_copy D q p w))"
  using compact_copy_to_keeps(1) snapshot_to_keeps(1) checkpoint_to_keeps(1) generation_keeps(1) restore_copy_keeps
  by (metis prod.collapse)

text \<open>What a checkpoint needs: a machine whose calls work, the source in place, a free destination that no
  writer has open, and a temporary name that can be reserved.\<close>

definition can_checkpoint :: "session \<Rightarrow> string \<Rightarrow> bool" where
  "can_checkpoint x p \<longleftrightarrow> working (se_fs x) \<and> unlocked (se_fs x) p \<and> path_exists (se_fs x) (se_path x) \<and> \<not> path_exists (se_fs x) p \<and>
     (case reserve_temporary_sibling p (se_fs x) of (Inr t, _) \<Rightarrow> fs_resolve (se_fs x) t \<noteq> fs_resolve (se_fs x) p | (Inl _, _) \<Rightarrow> False)"

text \<open>C35: Checkpoint and restore round-trip. For a store whose file holds its state, a checkpoint never
  changes a file that existed nor the file of the store, however it ends, and it succeeds on a machine
  whose calls work with a free destination. When it succeeded, then on any later file system that
  still has the checkpoint a successful restore creates a new file, byte for byte the file of the
  store at the time of the checkpoint, and changes no other; a restore to a free path does succeed on
  a machine whose calls work; and opening the restored file gives the same header, identity included,
  and the same keys and values.\<close>

theorem checkpoint_restore_roundtrip:
  assumes "recoverable D (se_store x)" and "checkpoint_to D p x = (r, y)" and "benign os" and "length (st_file (se_store x)) < 2 ^ 64"
  shows "keeps_files (se_fs x) (se_fs y) \<and> st_file (se_store y) = st_file (se_store x) \<and>
    (can_checkpoint x p \<longrightarrow> (\<exists>rep. r = Inr rep)) \<and>
    (\<forall>rep w q. r = Inr rep \<and> file_at w p = file_at (se_fs y) p \<longrightarrow> file_at (se_fs x) p = None \<and>
      (\<forall>rep' w'. restore_copy D p q w = (Inr rep', w') \<longrightarrow>
         file_at w q = None \<and> keeps_files w w' \<and> file_at w' q = Some (st_file (se_store x))) \<and>
      (working w \<and> unlocked w p \<and> unlocked w q \<and> file_at w q = None \<longrightarrow> (\<exists>rep' w'. restore_copy D p q w = (Inr rep', w')))) \<and>
    (\<exists>s'. open_file D opts now (st_file (se_store x)) os = (Inr s', s') \<and> recoverable D s' \<and>
      st_header s' = st_header (se_store x) \<and> st_state s' = st_state (se_store x))"
proof (intro conjI impI allI)
  obtain rs where rs: "durable D (se_store x) rs" using assms(1) by (auto simp: recoverable_def)
  show "keeps_files (se_fs x) (se_fs y)" "st_file (se_store y) = st_file (se_store x)" using checkpoint_to_keeps [OF assms(2)] by simp_all
  show "\<exists>rep. r = Inr rep" if c: "can_checkpoint x p"
  proof -
    obtain t w1 b where "reserve_temporary_sibling p (se_fs x) = (Inr t, w1)" "fs_resolve (se_fs x) t \<noteq> fs_resolve (se_fs x) p"
        "file_at (se_fs x) (se_path x) = Some b" "file_at (se_fs x) p = None" "working (se_fs x)" "unlocked (se_fs x) p"
      using c by (auto simp: can_checkpoint_def path_exists_def split: prod.splits sum.splits)
    then show ?thesis using checkpoint_succeeds [OF rs, of p b t w1] assms(2) by auto
  qed
  show "\<exists>s'. open_file D opts now (st_file (se_store x)) os = (Inr s', s') \<and> recoverable D s' \<and>
      st_header s' = st_header (se_store x) \<and> st_state s' = st_state (se_store x)"
    using reopen_durable [OF rs assms(3,4), of opts now] by (auto simp: recoverable_def)
  fix rep w q assume ok: "r = Inr rep \<and> file_at w p = file_at (se_fs y) p"
  note C = checkpoint_exact [OF assms(2) [unfolded conjunct1 [OF ok]]]
  have p: "file_at w p = Some (st_file (se_store x))" using ok C(2) by simp
  show "file_at (se_fs x) p = None" by (rule C(1))
  show "file_at w q = None" "keeps_files w w'" "file_at w' q = Some (st_file (se_store x))"
    if run: "restore_copy D p q w = (Inr rep', w')" for rep' w'
    using restore_exact [OF run] restore_copy_keeps [OF run] p by (metis option.inject)+
  show "\<exists>rep' w'. restore_copy D p q w = (Inr rep', w')" if "working w \<and> unlocked w p \<and> unlocked w q \<and> file_at w q = None"
    using restore_succeeds [OF _ _ _ p _ rs, of q] that by auto
qed

text \<open>The store with one key is checkpointed and restored.\<close>

theorem checkpoint_restore_roundtrip_witness:
  "\<exists>rep y rep' w'. checkpoint_to demo_deps ''b'' kept_session = (Inr rep, y) \<and>
     restore_copy demo_deps ''b'' ''c'' (se_fs y) = (Inr rep', w') \<and> file_at w' ''c'' = Some (st_file kept_store)"
proof -
  obtain r y where run: "checkpoint_to demo_deps ''b'' kept_session = (r, y)" by fastforce
  have k: "se_store kept_session = kept_store" by (simp add: kept_session_def)
  have "recoverable demo_deps (se_store kept_session)" unfolding k recoverable_def using kept_store_durable by blast
  note T = checkpoint_restore_roundtrip [OF this run, of demo_os store_options_default 0, unfolded k]
  have b: "benign demo_os" by (simp add: demo_os_def benign_def)
  have "can_checkpoint kept_session ''b''" by code_simp
  then obtain rep where rep: "r = Inr rep" using T [OF b kept_store_small] by blast
  have "let w = se_fs (snd (checkpoint_to demo_deps ''b'' kept_session)) in
      working w \<and> unlocked w ''b'' \<and> unlocked w ''c'' \<and> file_at w ''c'' = None" by code_simp
  then have "working (se_fs y) \<and> unlocked (se_fs y) ''b'' \<and> unlocked (se_fs y) ''c'' \<and> file_at (se_fs y) ''c'' = None"
    using run by (simp add: Let_def)
  then obtain rep' w' where "restore_copy demo_deps ''b'' ''c'' (se_fs y) = (Inr rep', w')" using T [OF b kept_store_small] rep by blast
  then show ?thesis using T [OF b kept_store_small] rep run by blast
qed

section \<open>Generations\<close>






section \<open>Activation\<close>



end
