(* ===== verification/Spec2Isabelle.thy ===== *)
theory Spec2Isabelle
  imports Store_Properties Service_Properties Time_Properties Data_Properties Object_Properties Trigger_Properties Collection_Properties Snapshot_Properties
begin

text \<open>
  \<^bold>\<open>A verification of the Voodoo Store core.\<close>

  The program is an embedded, transactional key-value store with queues, jobs and other services
  on top of it, written in Rust (\<open>crates/voodoo-store-core/src\<close>). One file holds a 64-byte header
  and an append-only log of records. A transaction appends a record per operation and then a commit
  record; opening the file replays the log into an in-memory map. Everything else is a client of
  that transaction interface, with its records under keys that start with \<open>\xffvds:\<close>.

  \<^bold>\<open>Theories and what they model.\<close>

  \<^item> \<open>Prelude\<close>: bytes and machine words, little- and big-endian encodings, the readers that stand for
    the \<open>Cursor\<close> structs, results and state-passing actions (\<open>act\<close>), association lists that stand for
    \<open>HashMap\<close>, and the lemma collections of the development.
  \<^item> \<open>Header\<close> (\<open>header.rs\<close>), \<open>Record_Log\<close> (\<open>log.rs\<close>): the two on-disk formats and their round trips.
  \<^item> \<open>Recovery\<close>: the replay loop \<open>recover\<close> of \<open>engine.rs\<close> with its errors, and the specification that
    it refines: the fold of the operations of the committed transactions in commit order.
  \<^item> \<open>Change_Record\<close>, \<open>Change_Feed\<close> (\<open>cdc.rs\<close>): the change format; reads and pruning of the feed.
  \<^item> \<open>Engine\<close> (\<open>engine.rs\<close>): the record \<open>store\<close> (file contents, header, options, map, counters,
    metrics), the append path, transactions, quotas, commit, open, repair, verify and backup, and
    the process-wide registry of writers. The operating system is a script of outcomes
    (\<open>os_script\<close>): each write, sync and draw of randomness takes the next outcome, and an empty
    script means success.
  \<^item> \<open>Transactions\<close>, \<open>Durability\<close>, \<open>Progress\<close>: the laws of the transaction interface that the services
    rest on. \<open>Transactions\<close> relates the staged view to the state after commit; \<open>Durability\<close> shows
    that every action that only appends keeps the file recoverable to the visible state
    (\<open>recoverable\<close>, and \<open>keeps\<close> as its compositional form); \<open>Progress\<close> shows when a transaction must
    succeed (\<open>healthy\<close>, and \<open>can\<close> as its compositional form).
  \<^item> \<open>Atomic\<close> (\<open>atomic.rs\<close>), \<open>Ttl\<close> (\<open>ttl.rs\<close>), \<open>Queue\<close> and \<open>Queue_Progress\<close> (\<open>queue.rs\<close>), \<open>Job_Model\<close>,
    \<open>Jobs\<close>, \<open>Job_Progress\<close> and \<open>Schedules\<close> (\<open>jobs.rs\<close>): the services, each with its formats, every
    operation with its error paths, an abstract view of its records (\<open>msgs\<close>, \<open>jobs\<close>, \<open>history_of\<close>)
    and a relation of the operations a client may interleave (\<open>queue_op\<close>, \<open>job_op\<close>). \<open>Queue_Leases\<close>:
    what others may do while a lease runs (\<open>bystander\<close>); \<open>Entropy\<close>: the identifiers still to be drawn
    (\<open>drawable\<close>) and the jobs that a tick files.
  \<^item> \<open>Client\<close>: an arbitrary application transaction. \<open>Sync_Failure\<close>: the same transaction when the
    sync of its commit fails. \<open>Instance\<close>: a concrete store, on which the
    theorems are applied.
  \<^item> \<open>Messaging\<close> (\<open>messaging.rs\<close>): streams, which refine lists of payloads (\<open>stream_holds\<close>), topics and
    subscription cursors. \<open>Consumer_Group\<close> (\<open>consumer_group.rs\<close>): one leased cursor per stream and
    group, with the calls that may be interleaved around it (\<open>group_op\<close>) and what each may do to the
    group's record (\<open>group_move\<close>). \<open>Group_Runs\<close>: runs with their acknowledgements counted
    (\<open>group_run\<close>), which alone move the cursor.
  \<^item> \<open>Outbox\<close> (\<open>outbox.rs\<close>) and \<open>Rpc\<close> (\<open>rpc.rs\<close>): events and requests that a transaction stages under
    fresh identifiers, and the life of a request (\<open>rpc_op\<close>, \<open>settled\<close>). \<open>Rpc_Answers\<close>: a response stays
    until it is acknowledged (\<open>rpc_bystander\<close>, \<open>answered\<close>).
  \<^item> \<open>Domains\<close> (\<open>transaction_domains.rs\<close>, \<open>transactional.rs\<close>): pushes, appends, objects and jobs inside an
    application transaction, their equivalence with the stand-alone operations, and transactions
    over several domains (\<open>domain_tx\<close>). \<open>Service_Progress\<close>: when these operations must succeed.
  \<^item> \<open>Rust_Str\<close>: the language's text type and its UTF-8 conversions. \<open>Calendar\<close> (\<open>civil_from_days\<close> in
    \<open>cron.rs\<close>): the date algorithm against the Gregorian calendar, and how soon a date or a weekday
    comes round again. \<open>Cron\<close> (\<open>cron.rs\<close>): expressions, matching and the bounded search, which is
    shown to be long enough. \<open>Cron_Scheduler\<close> (\<open>cron_scheduler.rs\<close>): durable schedules, their invariant
    (\<open>cron_inv\<close>) and what a tick does (\<open>advanced\<close>).
  \<^item> \<open>Ordered_View\<close>: what reads and prefix scans promise of each other, as a locale, for a store and for
    an open transaction. \<open>Workflow_Model\<close> (\<open>workflow.rs\<close>): instances, histories and their operations on
    both. \<open>Workflow\<close>: the map of instances and histories that the records stand for (\<open>wf_rep\<close>), the
    moves of one instance (\<open>wf_move\<close>) and the simulation of every operation by them.
    \<open>Workflow_Machine\<close>: what holds of all sequences of operations (\<open>wf_op\<close>, \<open>workflow_inv\<close>).
  \<^item> \<open>Object_Model\<close> (\<open>objects.rs\<close>): objects under the digest of their content, metadata, references,
    collection and retention. \<open>Objects\<close>: the invariant that ties the three together (\<open>obj_rep\<close>), kept by
    every operation (\<open>object_op\<close>), also by transactions over other domains, which leave the object
    keys alone (\<open>framing\<close>).
  \<^item> \<open>Triggers\<close> (\<open>triggers.rs\<close>): routing of events into jobs. A firing files a job and advances the
    trigger in one commit (\<open>fire_trigger_spec\<close>); the records stay well formed (\<open>trigger_inv\<close>).
    \<open>Job_Activity\<close>: everything that writes job records (\<open>job_activity\<close>) leaves settled jobs alone.
  \<^item> \<open>Collection_Model\<close> (\<open>collection.rs\<close>, \<open>query.rs\<close>): records, secondary indexes, schema migrations and
    queries. \<open>Collections\<close>: the maps of index definitions and records that the keys stand for
    (\<open>col_rep\<close>, \<open>col_ok\<close>), the simulation of every operation by updates of these maps, and what the
    queries return. \<open>Collection_Schema\<close>: the history of schema versions (\<open>schema_rep\<close>, \<open>chained\<close>) and
    all sequences of collection operations (\<open>col_op\<close>, \<open>collection_inv\<close>).
  \<^item> \<open>Files\<close>: several files by name, with a script of outcomes for the calls on them, and a store that is
    open at a path (\<open>session\<close>). \<open>Snapshots\<close> (\<open>compaction.rs\<close>, \<open>snapshot.rs\<close>, \<open>checkpoint.rs\<close>,
    \<open>restore.rs\<close>): the copies of a store, none of which overwrites a file (\<open>keeps_files\<close>). \<open>Rewriting\<close>:
    a store rewritten into a new file has the same keys. \<open>Generations\<close> (\<open>generation.rs\<close>,
    \<open>activation.rs\<close>): compact generations with the identity of their store and the two renames that
    put one in its place. \<open>Generation_Laws\<close>: what a generation holds. \<open>Activation\<close>: the file layouts that
    a run may leave (\<open>moves\<close>), and recovery from each. \<open>Copy_Progress\<close>: when these operations must
    succeed. \<open>Operations\<close> (\<open>operations.rs\<close>): storage accounting and the health report.

  \<^bold>\<open>What is proved.\<close> \<open>Store_Properties\<close> holds the properties of the engine and its direct clients,
  \<open>Work_Properties\<close> those of queues, jobs and schedules, \<open>Service_Properties\<close> those of
  streams, groups, requests and cross-domain transactions, \<open>Time_Properties\<close> those of
  cron expressions and schedules, \<open>Data_Properties\<close>,
  \<open>Object_Properties\<close>, \<open>Trigger_Properties\<close> and \<open>Collection_Properties\<close> those of workflows,
  objects, triggers and collections, \<open>Snapshot_Properties\<close> those of checkpoints, generations and
  their activation, and this theory those of the system as a
  whole. They say that transactions are atomic under crashes at any byte, that recovery meets its
  specification, that formats round-trip, that capture is exact, that leases exclude each other
  and become void, that loops end, and when operations must succeed. Four theorems prove behaviour
  that the code does not intend: a partial write poisons the log, a failed sync reappears, a retried
  job reissues its first lease generation, and one deadline value is lost.

  \<^bold>\<open>Conventions.\<close> \<open>u64\<close> and \<open>i64\<close> are 64-bit words, compared as signed through \<open>sint\<close>; \<open>usize\<close> is a natural
  number, with the conversions and overflow checks written out. A failing Rust function is a value
  \<open>Inl e\<close>; a method that mutates and may fail returns the changed state with either result, so
  what an early return leaves behind is part of the model. Third-party functions (CRC-32, SHA-256)
  and the iteration order of \<open>HashMap\<close> are fields of the argument \<open>D\<close>, and where a theorem relies on
  more than their types it says so. Loops over lists are recursive functions, \<open>recover_loop\<close> has a
  measure (the bytes left), and the loop that advances a schedule is a \<open>partial_function\<close>, shown to
  return. There is no fuel in the model.

  \<^bold>\<open>Not modelled.\<close> Failures of read, seek and truncation calls (write and sync failures are, and in the
  theories on several files also those of open, metadata, remove, rename and lock calls);
  concurrency inside one store, which \<open>&mut self\<close> excludes; the command-line tool, the C interface
  and the Python bindings, which convert arguments around the core; and, of the core, the
  plain data types of \<open>model.rs\<close>.
\<close>

section \<open>The program as one system\<close>

text \<open>Any call an application can make on an open store, successful or not: its own transactions,
  atomic updates, expiring keys, the change feed, queues, jobs and schedules.\<close>

inductive app_op :: "deps \<Rightarrow> store \<Rightarrow> store \<Rightarrow> bool" for D where
  app_tx: "client_tx D ops s = (ru, s') \<Longrightarrow> app_op D s s'"
| app_cas: "compare_and_swap D k e v s = (rc, s') \<Longrightarrow> app_op D s s'"
| app_increment: "increment_i64 D k delta s = (rn, s') \<Longrightarrow> app_op D s s'"
| app_put_ttl: "put_with_ttl D k val expires s = (rt, s') \<Longrightarrow> app_op D s s'"
| app_clear_ttl: "clear_ttl D k s = (rb, s') \<Longrightarrow> app_op D s s'"
| app_sweep: "purge_expired D now limit s = (rs, s') \<Longrightarrow> app_op D s s'"
| app_prune: "prune_changes_through D t limit s = (rp, s') \<Longrightarrow> app_op D s s'"
| app_queue: "queue_op D q s s' \<Longrightarrow> app_op D s s'"
| app_job: "job_op D s s' \<Longrightarrow> app_op D s s'"
| app_retry: "retry_job D i now s = (rj, s') \<Longrightarrow> app_op D s s'"
| app_schedule: "create_schedule D spec mode first s = (ri, s') \<Longrightarrow> app_op D s s'"
| app_enable: "set_schedule_enabled D i b s = (re, s') \<Longrightarrow> app_op D s s'"
| app_tick: "tick_schedules D now limit s = Some (rk, s') \<Longrightarrow> app_op D s s'"

lemma keeps_random_id [keeps_intros]: "keeps (recoverable D) random_id"
  unfolding keeps_def
  by (auto simp: random_id_def recoverable_def durable_def store_log_def file_holds_def counters_ahead_def benign_def split: list.splits)

lemma keeps_purge: "keeps (recoverable D) (purge_expired D now limit)"
proof -
  have lg: "logging D (act_bind (act_for (purge_entry D) es) (\<lambda>_. act_return r))" for es r
  proof -
    have "logging D (purge_entry D e)" for e by (cases e) (auto simp: purge_entry_def intro!: logging_intros)
    then show ?thesis by (intro logging_intros)
  qed
  show ?thesis unfolding keeps_def
    using recoverable_run [OF lg] by (auto simp: purge_expired_def split: if_splits sum.splits)
qed

lemma keeps_prune: "keeps (recoverable D) (prune_changes_through D t limit)"
proof -
  have lg: "logging D (act_bind (act_for (\<lambda>k. act_map_err CfStore (tx_delete_internal D k)) ks) (\<lambda>_. act_return r))" for ks and r :: usize
    by (intro logging_intros)
  show ?thesis unfolding keeps_def
    using recoverable_run [OF lg] by (auto simp: prune_changes_through_def split: if_splits sum.splits)
qed

lemma keeps_cas: "keeps (recoverable D) (compare_and_swap D k e v)"
proof -
  have lg: "logging D (act_bind (case v of Some w \<Rightarrow> tx_put D k w | None \<Rightarrow> tx_delete D k) (\<lambda>_. act_return Swapped))"
    by (cases v) (auto intro!: logging_intros)
  show ?thesis unfolding keeps_def using recoverable_run [OF lg] by (auto simp: compare_and_swap_def split: if_splits)
qed

lemma keeps_ttl: "keeps (recoverable D) (put_with_ttl D k val expires)" "keeps (recoverable D) (clear_ttl D k)"
proof -
  have lg: "logging D (act_map_err TtStore (act_bind (tx_put D k val) (\<lambda>_. tx_put_internal D mk m)))" for mk m
    by (intro logging_intros)
  show "keeps (recoverable D) (put_with_ttl D k val expires)"
    unfolding keeps_def using recoverable_run [OF lg] by (auto simp: put_with_ttl_def split: sum.splits)
  have "keeps (recoverable D) (act_bind (act_map_err TtStore (store_delete_internal D mk)) (\<lambda>_. act_return True))" for mk
    by (intro keeps_intros)
  from keepsD [OF this] show "keeps (recoverable D) (clear_ttl D k)"
    unfolding keeps_def by (auto simp: clear_ttl_def split: sum.splits if_splits)
qed

lemma keeps_increment: "keeps (recoverable D) (increment_i64 D k delta)"
  unfolding increment_i64_def by (intro keeps_intros)

lemma keeps_schedule: "keeps (recoverable D) (create_schedule D spec mode first)" "keeps (recoverable D) (set_schedule_enabled D i b)"
  "keeps (recoverable D) (retry_job D i now)"
  unfolding create_schedule_def set_schedule_enabled_def retry_job_def Let_def by (intro keeps_intros)+

lemma tick_loop_recoverable:
  assumes "tick_loop D now limit fired es s = Some (r, s')" and "recoverable D s"
  shows "recoverable D s'"
  using assms
proof (induction D now limit fired es s rule: tick_loop.induct)
  case (2 D now limit fired k v rest s)
  show ?case
  proof (cases "fired = limit \<or> (\<exists>e. decode_schedule v = Inl e)")
    case True
    then show ?thesis using 2(3,4) by (auto split: if_splits)
  next
    case False
    then obtain sc where sc: "fired \<noteq> limit" "decode_schedule v = Inr sc" by (cases "decode_schedule v") auto
    have F: "recoverable D s1" if "fire_schedule D now sc s = Some (q, s1)" for q s1
    proof -
      obtain b s0 where b: "build_job (scheduled_spec sc) s = (b, s0)" by fastforce
      have "recoverable D s0" using keepsD [OF keeps_build 2(4) b] .
      then show ?thesis using that b recoverable_run [OF logging_fire]
        by (auto simp: fire_schedule_def split: sum.splits option.splits)
    qed
    show ?thesis using 2 sc F by (auto split: if_splits option.splits sum.splits)
  qed
qed auto

lemmas app_keeps = keeps_cas keeps_increment keeps_ttl keeps_purge keeps_prune keeps_schedule

lemma app_op_recoverable:
  assumes "app_op D s s'" and "recoverable D s"
  shows "recoverable D s'"
  using assms(1)
proof cases
  case (app_tick now limit rk)
  then show ?thesis using tick_loop_recoverable assms(2) by (fastforce simp: tick_schedules_def Let_def)
qed (rule app_keeps [THEN keepsD, OF assms(2)] client_tx_recoverable [OF assms(2)] queue_op_recoverable [OF _ assms(2)]
  job_op_recoverable [OF _ assms(2)], assumption)+

lemma app_ops_recoverable: "(app_op D)\<^sup>*\<^sup>* s s' \<Longrightarrow> recoverable D s \<Longrightarrow> recoverable D s'"
  by (induction rule: rtranclp_induct) (auto intro: app_op_recoverable)

text \<open>C20: the whole system survives a restart. As long as the operating system appends each record
  entirely or not at all and its syncs succeed, after any interleaving of the calls of \<open>app_op\<close>,
  those that return errors included, closing and opening the file gives a store with exactly the
  same keys, so every queue has the same messages, every job and schedule the same record, every
  expiring key the same deadline and the change feed the same entries.\<close>

theorem system_survives_restart:
  assumes "(app_op D)\<^sup>*\<^sup>* s s1" and "recoverable D s" and "benign (st_os s)" and "benign os" and "length (st_file s1) < 2 ^ 64"
  shows "\<exists>s'. open_file D opts now (st_file s1) os = (Inr s', s') \<and> recoverable D s' \<and> st_state s' = st_state s1 \<and>
    (\<forall>q. msgs q s' = msgs q s1) \<and> jobs s' = jobs s1 \<and> (\<forall>i. get_schedule s' i = get_schedule s1 i) \<and>
    (\<forall>k t. get_at s' k t = get_at s1 k t) \<and> feed s' = feed s1"
proof -
  from recoverable_reopen [OF app_ops_recoverable [OF assms(1,2)] assms(4,5)] obtain s' where
    s': "open_file D opts now (st_file s1) os = (Inr s', s')" "recoverable D s'" "st_state s' = st_state s1" by blast
  then have g: "store_get s' k = store_get s1 k" "scan_prefix s' p = scan_prefix s1 p" for k p
    by (simp_all add: store_get_def scan_prefix_def)
  then have "ttl s' k = ttl s1 k" for k by (simp add: ttl_def)
  then have "get_at s' k t = get_at s1 k t" for k t by (simp add: get_at_def g split: option.split)
  moreover have "msgs q s' = msgs q s1" "jobs s' = jobs s1" "get_schedule s' i = get_schedule s1 i" for q i
    by (simp_all add: fun_eq_iff msgs_def load_message_def jobs_def get_job_def get_schedule_def g)
  moreover have "feed s' = feed s1" by (simp add: feed_def g fun_eq_iff)
  ultimately show ?thesis using s' by blast
qed

theorem system_survives_restart_witness:
  "\<exists>s1 s'. submit_job demo_deps demo_spec 0 demo_job_store = (Inr demo_id, s1) \<and>
     open_file demo_deps store_options_default 7 (st_file s1) demo_os = (Inr s', s') \<and> jobs s' demo_id = Some demo_job"
proof -
  obtain s1 where s1: "submit_job demo_deps demo_spec 0 demo_job_store = (Inr demo_id, s1)" "healthy 400 s1" "jobs s1 = [demo_id \<mapsto> demo_job]"
    by (rule demo_submit)
  have "\<forall>x. next_id demo_job_store = Some x \<longrightarrow> length x = 16 \<and> jobs demo_job_store x = None"
    using demo_job_store_simps(3,4) by (auto simp: demo_id_def)
  then have "(app_op demo_deps)\<^sup>*\<^sup>* demo_job_store s1" by (intro r_into_rtranclp app_job op_submit [OF s1(1)])
  moreover have "benign (st_os demo_job_store)" using benign_demo_os by (simp add: demo_job_store_def benign_def)
  ultimately have "\<exists>s'. open_file demo_deps store_options_default 7 (st_file s1) demo_os = (Inr s', s') \<and> jobs s' = jobs s1"
    using system_survives_restart [OF _ demo_job_store_simps(6) _ benign_demo_os healthy_file [OF s1(2)], of store_options_default 7] by blast
  then
  obtain s' where "open_file demo_deps store_options_default 7 (st_file s1) demo_os = (Inr s', s')" "jobs s' = jobs s1" by blast
  then show ?thesis using s1(1,3) by auto
qed

lemma written_other: "k \<notin> op_key ` set ops \<Longrightarrow> written ops k old = old"
  by (induction ops k old rule: written.induct) auto

lemma client_keeps_internal:
  assumes c: "client_tx D ops s = (r, s')" and k: "prefix INTERNAL_KEY_PREFIX k" "not_cdc k"
  shows "store_get s' k = store_get s k"
proof (cases r)
  case (Inl e)
  then show ?thesis using c run_tx_fail_get [OF client_tx_intros(1)] unfolding client_tx_def by blast
next
  case (Inr u)
  then have run: "run_tx D True id (act_for (client_step D) ops) s = (Inr u, s')" using c by (simp add: client_tx_def)
  obtain t where "act_for (client_step D) ops (fresh_tx True s) = (Inr u, t)" using run by (rule run_tx_view [OF client_tx_intros(1)])
  then have "k \<notin> op_key ` set ops" using client_steps_Inr k(1) by blast
  then show ?thesis using client_tx_view [of D ops s u s'] c Inr k(2) by (simp add: written_other)
qed

lemma internal_spaces: "prefix QUEUE_PREFIX k \<Longrightarrow> prefix INTERNAL_KEY_PREFIX k" "prefix JOB_PREFIX k \<Longrightarrow> prefix INTERNAL_KEY_PREFIX k"
  "prefix SCHEDULE_PREFIX k \<Longrightarrow> prefix INTERNAL_KEY_PREFIX k"
  by (auto simp: prefix_def QUEUE_PREFIX_def JOB_PREFIX_def SCHEDULE_PREFIX_def INTERNAL_KEY_PREFIX_def ascii_def)

text \<open>Applications cannot reach the engine's own records. No application transaction changes a
  message, a queue's next identifier, a job, a schedule or a key's expiration, whatever keys it
  names and whether it commits or fails.\<close>

theorem engine_records_protected:
  assumes "client_tx D ops s = (r, s')" and "queue_ok q"
  shows "msgs q s' = msgs q s \<and> queue_next_id q s' = queue_next_id q s \<and> jobs s' = jobs s \<and>
    (\<forall>i. get_schedule s' i = get_schedule s i) \<and> (\<forall>k. ttl s' k = ttl s k)"
proof -
  note K = client_keeps_internal [OF assms(1)]
  note Q = queue_keys [OF assms(2)]
  have "store_get s' (message_key q i) = store_get s (message_key q i)" for i
    using K [OF internal_spaces(1) [OF Q(1)] queue_space [OF Q(1)]] .
  moreover have "store_get s' (q_meta_key q) = store_get s (q_meta_key q)"
    using K [OF internal_spaces(1) [OF Q(2)] queue_space [OF Q(2)]] .
  moreover have "store_get s' (job_key i) = store_get s (job_key i)" "store_get s' (schedule_key i) = store_get s (schedule_key i)" for i
    using K [OF internal_spaces(2) [OF job_key_simps(1)] job_spaces(1) [OF job_key_simps(1)]]
      K [OF internal_spaces(3) [OF job_key_simps(6)] job_spaces(3) [OF job_key_simps(6)]] by blast+
  moreover have "ttl s' k = ttl s k" for k
    using K ttl_space ttl_key_prefix by (cases "ttl_key k") (auto simp: ttl_def)
  ultimately show ?thesis by (simp add: msgs_def load_message_def queue_next_id_def jobs_def get_job_def get_schedule_def fun_eq_iff)
qed

theorem engine_records_protected_witness:
  "\<exists>s s'. push_with_options demo_deps demo_queue [9] push_options_default demo_store = (Inr 1, s) \<and>
     client_tx demo_deps [OpPut [1] [2]] s = (Inr (), s') \<and> msgs demo_queue s' 1 = Some (pushed_message 1 [9] push_options_default)"
proof -
  obtain s where s: "push_with_options demo_deps demo_queue [9] push_options_default demo_store = (Inr 1, s)" "healthy 400 s"
    "queue_inv demo_queue s" "msgs demo_queue s = [1 \<mapsto> pushed_message 1 [9] push_options_default]" by (rule demo_push)
  have "healthy (2 * length [OpPut [1] [2]] + 2 + 0) s" by (rule healthy_mono [OF s(2)]) simp
  then obtain s' where c: "client_tx demo_deps [OpPut [1] [2]] s = (Inr (), s')"
    using client_tx_ok [OF demo_sha_ok] by (fastforce simp: INTERNAL_KEY_PREFIX_def)
  have "queue_ok demo_queue" using s(3) by (simp add: queue_inv_def)
  from engine_records_protected [OF c this] show ?thesis using s(1,4) c by auto
qed

end
